(* ===== verification/Prelude.thy ===== *)
theory Prelude
  imports Main "HOL-Library.Word"
begin

unbundle bit_operations_syntax

text \<open>
  Types, collections and generic lemmas shared by the component theories.

  Machine integers that the C++ stores are words of their width; positions in an
  array (line ids, way numbers, child ids) are \<open>nat\<close>. A C++ array is a list. An
  operation of the code that may panic, fail an assertion, index out of bounds or
  not return is a function into \<open>option\<close>, and \<open>None\<close> stands for all four.
\<close>

type_synonym u8 = "8 word"
type_synonym u32 = "32 word"
type_synonym u64 = "64 word"
type_synonym addr = "64 word"

named_theorems bits "unfolding rules for bit-level definitions"
named_theorems step_defs "definitions of the state-changing operations of a component"

definition guard :: "bool \<Rightarrow> unit option" where
  "guard b = (if b then Some () else None)"

lemma guard_True [simp]: "guard True = Some ()"
  by (simp add: guard_def)

lemma guard_False [simp]: "guard False = None"
  by (simp add: guard_def)

lemma guard_eq_Some [simp]: "guard b = Some u \<longleftrightarrow> b"
  by (simp add: guard_def)

lemma guard_eq_None [simp]: "guard b = None \<longleftrightarrow> \<not> b"
  by (simp add: guard_def)

lemma unat_of_nat_u64: "k < 2 ^ 64 \<Longrightarrow> unat (of_nat k :: u64) = k"
  by (simp add: unsigned_of_nat take_bit_nat_eq_self)

lemma of_nat_u64_inj: "j < 2 ^ 64 \<Longrightarrow> k < 2 ^ 64 \<Longrightarrow> (of_nat j :: u64) = of_nat k \<longleftrightarrow> j = k"
  by (metis unat_of_nat_u64)

section \<open>Updating an array at one or several positions\<close>

definition upd_at :: "('a \<Rightarrow> 'a) \<Rightarrow> nat \<Rightarrow> 'a list \<Rightarrow> 'a list" where
  "upd_at f i xs = xs[i := f (xs ! i)]"

definition upd_each :: "('a \<Rightarrow> 'a) \<Rightarrow> nat list \<Rightarrow> 'a list \<Rightarrow> 'a list" where
  "upd_each f ids xs = fold (upd_at f) ids xs"

lemma length_upd_at [simp]: "length (upd_at f i xs) = length xs"
  by (simp add: upd_at_def)

lemma upd_each_Nil [simp]: "upd_each f [] xs = xs"
  by (simp add: upd_each_def)

lemma upd_each_Cons [simp]: "upd_each f (i # ids) xs = upd_each f ids (upd_at f i xs)"
  by (simp add: upd_each_def)

lemma length_upd_each [simp]: "length (upd_each f ids xs) = length xs"
  by (induction ids arbitrary: xs) simp_all

lemma nth_upd_at [simp]:
  "j < length xs \<Longrightarrow> upd_at f i xs ! j = (if j = i then f (xs ! i) else xs ! j)"
  by (simp add: upd_at_def nth_list_update)

lemma upd_each_nth_other: "j \<notin> set ids \<Longrightarrow> upd_each f ids xs ! j = xs ! j"
  by (induction ids arbitrary: xs) (auto simp: upd_at_def)

lemma upd_each_nth:
  assumes "distinct ids" and "set ids \<subseteq> {..<length xs}" and "j < length xs"
  shows "upd_each f ids xs ! j = (if j \<in> set ids then f (xs ! j) else xs ! j)"
  using assms
proof (induction ids arbitrary: xs)
  case Nil
  then show ?case by simp
next
  case (Cons i ids)
  then have "upd_each f ids (upd_at f i xs) ! j =
      (if j \<in> set ids then f (upd_at f i xs ! j) else upd_at f i xs ! j)"
    by simp
  with Cons.prems show ?case by auto
qed

text \<open>A predicate kept by every single update is kept by the whole pass, also when the
  positions repeat.\<close>

lemma upd_each_all:
  assumes "\<And>x. P x \<Longrightarrow> P (f x)" and "list_all P xs"
    and "set ids \<subseteq> {..<length xs}"
  shows "list_all P (upd_each f ids xs)"
  using assms(2,3)
proof (induction ids arbitrary: xs)
  case Nil
  then show ?case by simp
next
  case (Cons i ids)
  then have "list_all P (upd_at f i xs)"
    using assms(1) by (auto simp: list_all_length)
  with Cons show ?case by simp
qed

lemma set_list_updateD: "v \<in> set (xs[i := x]) \<Longrightarrow> v = x \<or> v \<in> set xs"
  using set_update_subset_insert [of xs i x] by blast

lemma list_all_update: "list_all P xs \<Longrightarrow> P x \<Longrightarrow> list_all P (xs[i := x])"
  by (auto simp: list_all_iff dest!: set_update_subset_insert [THEN subsetD])

lemma list_all_nth: "list_all P xs \<Longrightarrow> i < length xs \<Longrightarrow> P (xs ! i)"
  by (simp add: list_all_length)

section \<open>First and last position of a list with a property\<close>

lemma find_Some_split:
  "List.find P xs = Some x \<Longrightarrow> \<exists>ys zs. xs = ys @ x # zs \<and> P x \<and> (\<forall>y\<in>set ys. \<not> P y)"
proof (induction xs)
  case Nil
  then show ?case by simp
next
  case (Cons a xs)
  show ?case
  proof (cases "P a")
    case True
    with Cons.prems have "a = x" by simp
    with True have "a # xs = [] @ x # xs \<and> P x \<and> (\<forall>y\<in>set []. \<not> P y)" by simp
    then show ?thesis by blast
  next
    case False
    with Cons obtain ys zs where "xs = ys @ x # zs" "P x" "\<forall>y\<in>set ys. \<not> P y" by auto
    with False have "a # xs = (a # ys) @ x # zs \<and> P x \<and> (\<forall>y\<in>set (a # ys). \<not> P y)" by simp
    then show ?thesis by blast
  qed
qed

lemma find_Some_in: "List.find P xs = Some x \<Longrightarrow> x \<in> set xs \<and> P x"
  by (drule find_Some_split) auto

lemma find_None_iff_all: "List.find P xs = None \<longleftrightarrow> (\<forall>x\<in>set xs. \<not> P x)"
  by (auto simp: find_None_iff)

lemma find_ex: "x \<in> set xs \<Longrightarrow> P x \<Longrightarrow> \<exists>y. List.find P xs = Some y"
  by (cases "List.find P xs") (auto simp: find_None_iff)

lemma find_upt:
  assumes "List.find P [0..<n] = Some i"
  shows "i < n \<and> P i \<and> (\<forall>j<i. \<not> P j)"
proof -
  obtain ys zs where s: "[0..<n] = ys @ i # zs" "P i" "\<forall>y\<in>set ys. \<not> P y"
    using find_Some_split [OF assms] by blast
  from arg_cong [OF s(1), of length] have len: "length ys < n" by simp
  with arg_cong [OF s(1), of "\<lambda>xs. xs ! length ys"] have i: "i = length ys" by simp
  have "ys ! j = j" if "j < i" for j
    using arg_cong [OF s(1), of "\<lambda>xs. xs ! j"] that i len by (simp add: nth_append)
  then have "\<not> P j" if "j < i" for j using s(3) that i by (metis nth_mem)
  with s(2) i len show ?thesis by simp
qed

lemma find_upt_from:
  assumes "List.find P [a..<n] = Some i"
  shows "a \<le> i \<and> i < n \<and> P i \<and> (\<forall>j. a \<le> j \<longrightarrow> j < i \<longrightarrow> \<not> P j)"
proof -
  obtain ys zs where s: "[a..<n] = ys @ i # zs" "P i" "\<forall>y\<in>set ys. \<not> P y"
    using find_Some_split [OF assms] by blast
  have i: "a \<le> i \<and> i < n" using s(1) by (metis atLeastLessThan_iff in_set_conv_decomp set_upt)
  have "sorted (ys @ i # zs)" using s(1) by (metis sorted_upt)
  then have "j \<in> set ys" if "a \<le> j" "j < i" for j
  proof -
    have "j \<in> set (ys @ i # zs)" using that i s(1) by (metis atLeastLessThan_iff less_trans set_upt)
    with \<open>sorted (ys @ i # zs)\<close> that show ?thesis by (auto simp: sorted_append)
  qed
  with s i show ?thesis by blast
qed

end
