(* ===== verification/Mem_Types.thy ===== *)
theory Mem_Types
  imports Prelude
begin

text \<open>
  The request and state types of \<^verbatim>\<open>zsim/src/memory_hierarchy.h\<close>, their printable
  names (\<^verbatim>\<open>memory_hierarchy.cpp\<close>), the integer helpers of \<^verbatim>\<open>bithacks.h\<close> and
  the fixed-latency memory of \<^verbatim>\<open>mem_ctrls.cpp\<close>.

  A \<open>MESIState*\<close> of the code points either at the line of a child cache or at a local
  variable of the caller; \<open>stptr\<close> says which. Cycles are \<open>nat\<close>: the 64-bit cycle
  counters are taken not to wrap within a run.
\<close>

datatype access_type = GETS | GETX | PUTS | PUTX

datatype inv_type = INV | INVX | FWD

datatype mesi = I | S | E | M

definition IsGet :: "access_type \<Rightarrow> bool" where
  "IsGet t \<longleftrightarrow> t = GETS \<or> t = GETX"

definition IsPut :: "access_type \<Rightarrow> bool" where
  "IsPut t \<longleftrightarrow> t = PUTS \<or> t = PUTX"

datatype stptr = LineCell nat nat | LocalCell

record memreq =
  mr_lineAddr :: addr
  mr_type :: access_type
  mr_childId :: nat
  mr_state :: stptr
  mr_cycle :: nat
  mr_childLock :: bool
  mr_initialState :: mesi
  mr_srcId :: nat
  mr_flags :: u32

text \<open>A plain read of a line, used by the witnesses.\<close>

definition read_req :: "addr \<Rightarrow> memreq" where
  "read_req a =
     \<lparr>mr_lineAddr = a, mr_type = GETS, mr_childId = 0, mr_state = LocalCell, mr_cycle = 0,
      mr_childLock = False, mr_initialState = I, mr_srcId = 0, mr_flags = 0\<rparr>"

lemma read_req_simps [simp]:
  "mr_lineAddr (read_req a) = a" "mr_type (read_req a) = GETS" "mr_flags (read_req a) = 0"
  by (simp_all add: read_req_def)

definition IFETCH :: u32 where "IFETCH = 2"
definition NOEXCL :: u32 where "NOEXCL = 4"
definition NONINCLWB :: u32 where "NONINCLWB = 8"
definition PUTX_KEEPEXCL :: u32 where "PUTX_KEEPEXCL = 16"
definition PREFETCH :: u32 where "PREFETCH = 32"

lemmas flag_defs = IFETCH_def NOEXCL_def NONINCLWB_def PUTX_KEEPEXCL_def PREFETCH_def

definition mr_set :: "u32 \<Rightarrow> memreq \<Rightarrow> memreq" where
  "mr_set f r = r\<lparr>mr_flags := mr_flags r OR f\<rparr>"

definition mr_is :: "u32 \<Rightarrow> memreq \<Rightarrow> bool" where
  "mr_is f r \<longleftrightarrow> mr_flags r AND f \<noteq> 0"

text \<open>An invalidation request; \<open>ir_writeback\<close> is the value behind the pointer when the
  request is sent, and the operations return its new value.\<close>

record invreq =
  ir_lineAddr :: addr
  ir_type :: inv_type
  ir_writeback :: bool
  ir_cycle :: nat
  ir_srcId :: nat

section \<open>Names for traces\<close>

fun access_code :: "access_type \<Rightarrow> nat" where
  "access_code GETS = 0" | "access_code GETX = 1" | "access_code PUTS = 2" | "access_code PUTX = 3"

fun inv_code :: "inv_type \<Rightarrow> nat" where
  "inv_code INV = 0" | "inv_code INVX = 1" | "inv_code FWD = 2"

fun mesi_code :: "mesi \<Rightarrow> nat" where
  "mesi_code I = 0" | "mesi_code S = 1" | "mesi_code E = 2" | "mesi_code M = 3"

definition accessTypeNames :: "string list" where
  "accessTypeNames = [''GETS'', ''GETX'', ''PUTS'', ''PUTX'']"

definition invTypeNames :: "string list" where
  "invTypeNames = [''INV'', ''INVX'']"

definition mesiStateNames :: "string list" where
  "mesiStateNames = [''I'', ''S'', ''E'', ''M'']"

definition name_at :: "string list \<Rightarrow> nat \<Rightarrow> string option" where
  "name_at ns k = (if k < length ns then Some (ns ! k) else None)"

definition AccessTypeName :: "access_type \<Rightarrow> string option" where
  "AccessTypeName t = name_at accessTypeNames (access_code t)"

definition InvTypeName :: "inv_type \<Rightarrow> string option" where
  "InvTypeName t = name_at invTypeNames (inv_code t)"

definition MESIStateName :: "mesi \<Rightarrow> string option" where
  "MESIStateName s = name_at mesiStateNames (mesi_code s)"

lemma AccessTypeName_total: "AccessTypeName t \<noteq> None"
  by (cases t) (simp_all add: AccessTypeName_def name_at_def accessTypeNames_def)

lemma MESIStateName_total: "MESIStateName s \<noteq> None"
  by (cases s) (simp_all add: MESIStateName_def name_at_def mesiStateNames_def)

section \<open>Integer helpers\<close>

text \<open>\<open>__builtin_clz\<close> of a nonzero value is the number of zero bits above the highest
  set bit, so \<open>31 - __builtin_clz v\<close> is the position of that bit.\<close>

fun top_bit :: "nat \<Rightarrow> nat" where
  "top_bit n = (if n \<le> 1 then 0 else Suc (top_bit (n div 2)))"

declare top_bit.simps [simp del]

definition ilog2_u32 :: "u32 \<Rightarrow> nat" where
  "ilog2_u32 v = (if v \<noteq> 0 then top_bit (unat v) else 0)"

definition ilog2_u64 :: "u64 \<Rightarrow> nat" where
  "ilog2_u64 v = (if v \<noteq> 0 then top_bit (unat v) else 0)"

definition isPow2 :: "u32 \<Rightarrow> bool" where
  "isPow2 v \<longleftrightarrow> v \<noteq> 0 \<and> v AND (v - 1) = 0"

fun maxN :: "'a::linorder \<Rightarrow> 'a list \<Rightarrow> 'a" where
  "maxN a [] = a"
| "maxN a (b # c) = maxN (if a > b then a else b) c"

fun minN :: "'a::linorder \<Rightarrow> 'a list \<Rightarrow> 'a" where
  "minN a [] = a"
| "minN a (b # c) = minN (if a < b then a else b) c"

lemma maxN_Max: "maxN a xs = Max (insert a (set xs))"
proof (induction xs arbitrary: a)
  case Nil
  then show ?case by simp
next
  case (Cons b xs)
  have "maxN a (b # xs) = Max (insert (max a b) (set xs))"
    by (simp add: Cons.IH max_def not_less)
  also have "\<dots> = Max (insert a (insert b (set xs)))"
    by (cases "set xs = {}") (simp_all add: max.assoc)
  finally show ?case by simp
qed

lemma minN_Min: "minN a xs = Min (insert a (set xs))"
proof (induction xs arbitrary: a)
  case Nil
  then show ?case by simp
next
  case (Cons b xs)
  have "minN a (b # xs) = Min (insert (min a b) (set xs))"
    by (auto simp: Cons.IH min_def)
  also have "\<dots> = Min (insert a (insert b (set xs)))"
    by (cases "set xs = {}") (simp_all add: min.assoc)
  finally show ?case by simp
qed

lemma top_bit_bounds:
  assumes "0 < n"
  shows "2 ^ top_bit n \<le> n \<and> n < 2 ^ Suc (top_bit n)"
  using assms
proof (induction n rule: top_bit.induct)
  case (1 n)
  show ?case
  proof (cases "n \<le> 1")
    case True
    with "1.prems" show ?thesis by (simp add: top_bit.simps [of n])
  next
    case False
    then have "2 ^ top_bit (n div 2) \<le> n div 2" "n div 2 < 2 ^ Suc (top_bit (n div 2))"
      using "1.IH" by auto
    with False show ?thesis by (simp add: top_bit.simps [of n]) linarith
  qed
qed

text \<open>\<open>v & (v - 1)\<close> clears the lowest set bit, so it is zero exactly for powers of two.\<close>

lemma top_digit: "2 ^ k \<le> (n::nat) \<Longrightarrow> n < 2 ^ Suc k \<Longrightarrow> bit n k"
proof -
  assume "2 ^ k \<le> n" "n < 2 ^ Suc k"
  then have "n div 2 ^ k = 1"
    by (intro div_nat_eqI) simp_all
  then show ?thesis by (simp add: bit_iff_odd)
qed

lemma nat_and_pred_eq_0_iff:
  assumes "0 < (n::nat)"
  shows "n AND (n - 1) = 0 \<longleftrightarrow> (\<exists>k. n = 2 ^ k)"
proof
  assume zero: "n AND (n - 1) = 0"
  define k where "k = top_bit n"
  have lo: "2 ^ k \<le> n" and hi: "n < 2 ^ Suc k"
    using top_bit_bounds [OF assms] by (auto simp: k_def)
  have "n = 2 ^ k"
  proof (rule ccontr)
    assume "n \<noteq> 2 ^ k"
    with lo have "2 ^ k \<le> n - 1" by simp
    with hi have "bit n k" "bit (n - 1) k"
      using lo top_digit by auto
    then have "bit (n AND (n - 1)) k" by (simp add: bit_and_iff)
    with zero show False by simp
  qed
  then show "\<exists>k. n = 2 ^ k" ..
next
  assume "\<exists>k. n = 2 ^ k"
  then obtain k where k: "n = 2 ^ k" ..
  have "n - 1 = mask k" by (simp add: k mask_eq_exp_minus_1)
  then show "n AND (n - 1) = 0"
    by (intro bit_eqI) (simp add: k bit_and_iff bit_mask_iff bit_exp_iff)
qed

lemma isPow2_iff: "isPow2 v \<longleftrightarrow> (\<exists>k. unat v = 2 ^ k)"
proof (cases "v = 0")
  case True
  then show ?thesis by (simp add: isPow2_def)
next
  case False
  then have pos: "0 < unat v" by (simp add: unat_gt_0)
  have "unat (v AND (v - 1)) = unat v AND (unat v - 1)"
    using False by (simp add: unsigned_and_eq unat_minus_one)
  then have "v AND (v - 1) = 0 \<longleftrightarrow> unat v AND (unat v - 1) = 0"
    by (metis unat_eq_zero)
  with False nat_and_pred_eq_0_iff [OF pos] show ?thesis
    by (simp add: isPow2_def)
qed

section \<open>Fixed-latency memory\<close>

text \<open>\<open>SimpleMemory::access\<close>: the state the requester gets, and the response cycle. The
  assertion \<open>respCycle > req.cycle\<close> fails for a zero latency.\<close>

definition simple_mem_state :: "access_type \<Rightarrow> u32 \<Rightarrow> mesi" where
  "simple_mem_state t flags =
     (case t of
        PUTS \<Rightarrow> I
      | PUTX \<Rightarrow> I
      | GETS \<Rightarrow> (if flags AND NOEXCL \<noteq> 0 then S else E)
      | GETX \<Rightarrow> M)"

definition simple_mem_access :: "nat \<Rightarrow> memreq \<Rightarrow> (mesi \<times> nat) option" where
  "simple_mem_access latency req =
     (let respCycle = mr_cycle req + latency in
      if respCycle > mr_cycle req
      then Some (simple_mem_state (mr_type req) (mr_flags req), respCycle) else None)"

end
