(* ===== verification/Repl_Interface.thy ===== *)
theory Repl_Interface
  imports Mem_Types
begin

text \<open>
  The interface of a replacement policy (\<open>ReplPolicy\<close> in \<^verbatim>\<open>repl_policies.h\<close>) as a
  record of operations, which plays the part of the virtual method table, and the
  contract that the cache arrays rely on, as two locales: \<open>repl_safe\<close> says what holds
  when an operation returns, \<open>repl_policy\<close> adds that every operation does return.

  The contract has two phases, as the comments of the source do. \<open>inv\<close> holds between
  replacements. \<open>pend s v\<close> holds after \<open>rank\<close> chose \<open>v\<close> and until \<open>replaced v\<close>; hits
  may call \<open>update\<close> in between.
\<close>

record cc_view =
  cv_numSharers :: "nat \<Rightarrow> u32"
  cv_isValid :: "nat \<Rightarrow> bool"

record 's rp_ops =
  rp_update :: "'s \<Rightarrow> nat \<Rightarrow> memreq \<Rightarrow> 's option"
  rp_replaced :: "'s \<Rightarrow> nat \<Rightarrow> 's option"
  rp_rank :: "cc_view \<Rightarrow> 's \<Rightarrow> memreq \<Rightarrow> nat list \<Rightarrow> ('s \<times> nat) option"

locale repl_safe =
  fixes ops :: "'s rp_ops"
    and inv :: "'s \<Rightarrow> bool"
    and pend :: "'s \<Rightarrow> nat \<Rightarrow> bool"
    and n :: nat
    and adm :: "nat list \<Rightarrow> bool"
  assumes update_inv: "inv s \<Longrightarrow> l < n \<Longrightarrow> rp_update ops s l req = Some s' \<Longrightarrow> inv s'"
    and update_pend: "pend s v \<Longrightarrow> l < n \<Longrightarrow> rp_update ops s l req = Some s' \<Longrightarrow> pend s' v"
    and replaced_inv: "pend s v \<Longrightarrow> rp_replaced ops s v = Some s' \<Longrightarrow> inv s'"
    and rank_pend: "inv s \<Longrightarrow> adm cands \<Longrightarrow> set cands \<subseteq> {..<n} \<Longrightarrow>
      rp_rank ops cv s req cands = Some (s', v) \<Longrightarrow> v \<in> set cands \<and> pend s' v"
begin

text \<open>What the arrays do on an insertion: choose, then replace, then update.\<close>

definition insert_cycle :: "cc_view \<Rightarrow> 's \<Rightarrow> memreq \<Rightarrow> nat list \<Rightarrow> ('s \<times> nat) option" where
  "insert_cycle cv s req cands =
     Option.bind (rp_rank ops cv s req cands) (\<lambda>(s1, v).
     Option.bind (rp_replaced ops s1 v) (\<lambda>s2.
     Option.bind (rp_update ops s2 v req) (\<lambda>s3. Some (s3, v))))"

lemma insert_cycle_inv:
  assumes "inv s" and "adm cands" and "set cands \<subseteq> {..<n}"
    and "insert_cycle cv s req cands = Some (s', v)"
  shows "inv s' \<and> v \<in> set cands"
proof -
  from assms(4) obtain s1 s2 where
    r: "rp_rank ops cv s req cands = Some (s1, v)" and
    p: "rp_replaced ops s1 v = Some s2" and u: "rp_update ops s2 v req = Some s'"
    by (auto simp: insert_cycle_def split: bind_splits)
  from rank_pend [OF assms(1-3) r] have v: "v \<in> set cands" "pend s1 v" by auto
  from replaced_inv [OF v(2) p] have "inv s2" .
  with v(1) assms(3) u show ?thesis by (auto intro: update_inv)
qed

end

locale repl_policy = repl_safe +
  assumes update_total: "inv s \<Longrightarrow> l < n \<Longrightarrow> rp_update ops s l req \<noteq> None"
    and update_total_pend: "pend s v \<Longrightarrow> l < n \<Longrightarrow> rp_update ops s l req \<noteq> None"
    and replaced_total: "pend s v \<Longrightarrow> rp_replaced ops s v \<noteq> None"
    and rank_total: "inv s \<Longrightarrow> adm cands \<Longrightarrow> set cands \<subseteq> {..<n} \<Longrightarrow> cands \<noteq> [] \<Longrightarrow>
      rp_rank ops cv s req cands \<noteq> None"
begin

lemma update_ex:
  assumes "inv s" and "l < n"
  obtains s' where "rp_update ops s l req = Some s'" and "inv s'"
  using update_total [OF assms] update_inv [OF assms] by blast

lemma replaced_ex:
  assumes "pend s v"
  obtains s' where "rp_replaced ops s v = Some s'" and "inv s'"
  using replaced_total [OF assms] replaced_inv [OF assms] by blast

lemma rank_ex:
  assumes "inv s" and "adm cands" and "set cands \<subseteq> {..<n}" and "cands \<noteq> []"
  obtains s' v where "rp_rank ops cv s req cands = Some (s', v)" and "v \<in> set cands" and "pend s' v"
  using rank_total [OF assms, of cv req] rank_pend [OF assms(1-3), of cv req] by fastforce

lemma insert_cycle_total:
  assumes "inv s" and "adm cands" and "set cands \<subseteq> {..<n}" and "cands \<noteq> []"
  shows "\<exists>s' v. insert_cycle cv s req cands = Some (s', v) \<and> inv s' \<and> v \<in> set cands"
proof -
  obtain s1 v where r: "rp_rank ops cv s req cands = Some (s1, v)" "v \<in> set cands" "pend s1 v"
    by (rule rank_ex [OF assms])
  obtain s2 where p: "rp_replaced ops s1 v = Some s2" "inv s2"
    by (rule replaced_ex [OF r(3)])
  have "v < n" using r(2) assms(3) by auto
  then obtain s3 where "rp_update ops s2 v req = Some s3" "inv s3"
    by (rule update_ex [OF p(2)])
  with r p show ?thesis by (simp add: insert_cycle_def)
qed

end

text \<open>
  The candidate iterators of \<^verbatim>\<open>cache_arrays.h\<close> as the list of line ids they visit:
  \<open>SetAssocCands(b, e)\<close> visits \<open>b, b+1, \<dots>, e-1\<close>.
\<close>

definition SetAssocCands :: "nat \<Rightarrow> nat \<Rightarrow> nat list" where
  "SetAssocCands b e = [b..<e]"

lemma set_SetAssocCands [simp]: "set (SetAssocCands b e) = {b..<e}"
  by (simp add: SetAssocCands_def)

lemma distinct_SetAssocCands [simp]: "distinct (SetAssocCands b e)"
  by (simp add: SetAssocCands_def)

end
