(* ===== verification/Repl_EHC.thy ===== *)
theory Repl_EHC
  imports Repl_Interface
begin

text \<open>
  EHC (\<open>EHCReplPolicy\<close> in \<^verbatim>\<open>zsim/src/repl_ehc.h\<close>): the victim is the line with the
  lowest expected further hits, estimated from a hit history table (HHT) of 128 sets and
  16 ways that remembers the last four hit counts of a line address.

  The 8-bit RPV is an \<open>int\<close> (the invariant keeps it in -1..3, so it never wraps); the
  8-bit hit counters are words, because one of them does wrap.
\<close>

section \<open>Model\<close>

record rpv_meta =
  rm_RPV :: int
  rm_lineAddr :: addr

record hht_entry =
  he_valid :: bool
  he_tag :: u32
  he_lru :: u8
  he_queue :: "u8 list"

record ehc =
  eh_maxRPV :: int
  eh_array :: "rpv_meta list"
  eh_numLines :: nat
  eh_CHC :: "u8 list"
  eh_EFH :: "u8 list"
  eh_HHT :: "hht_entry list list"

definition hht_empty :: hht_entry where
  "hht_empty = \<lparr>he_valid = False, he_tag = 0, he_lru = 0, he_queue = [0, 0, 0, 0]\<rparr>"

definition ehc_new :: "int \<Rightarrow> nat \<Rightarrow> ehc" where
  "ehc_new maxRPV numLines =
     \<lparr>eh_maxRPV = maxRPV,
      eh_array = replicate numLines \<lparr>rm_RPV = maxRPV, rm_lineAddr = 0\<rparr>,
      eh_numLines = numLines,
      eh_CHC = replicate numLines 0,
      eh_EFH = replicate numLines 1,
      eh_HHT = replicate 128 (replicate 16 hht_empty)\<rparr>"

definition ehc_tag :: "addr \<Rightarrow> u64" where
  "ehc_tag a = drop_bit 13 a AND 0xFFFFF"

definition ehc_index :: "addr \<Rightarrow> nat" where
  "ehc_index a = unat (drop_bit 6 a AND 0x7F)"

text \<open>\<open>searchHHT\<close>: the first way of the set whose entry is valid and has the tag.\<close>

definition searchHHT :: "hht_entry list list \<Rightarrow> u64 \<Rightarrow> nat \<Rightarrow> nat option" where
  "searchHHT hht tag index =
     List.find (\<lambda>way. he_valid (hht ! index ! way) \<and> he_tag (hht ! index ! way) = ucast tag) [0..<16]"

text \<open>The victim loop of \<open>addHHTEntry\<close>: the first invalid way, or else the first way with
  the largest recency above 0; -1 when there is none.\<close>

fun hht_victim :: "hht_entry list \<Rightarrow> nat \<Rightarrow> u8 \<Rightarrow> int \<Rightarrow> int" where
  "hht_victim [] way maxLRU victimWay = victimWay"
| "hht_victim (e # es) way maxLRU victimWay =
     (if \<not> he_valid e then int way
      else if he_lru e > maxLRU then hht_victim es (Suc way) (he_lru e) (int way)
      else hht_victim es (Suc way) maxLRU victimWay)"

definition hht_age :: "nat \<Rightarrow> hht_entry list \<Rightarrow> hht_entry list" where
  "hht_age victim ways =
     map (\<lambda>way. if way \<noteq> victim \<and> he_valid (ways ! way)
                then (ways ! way)\<lparr>he_lru := he_lru (ways ! way) + 1\<rparr> else ways ! way)
       [0..<length ways]"

definition hht_set_insert :: "hht_entry list \<Rightarrow> u64 \<Rightarrow> u8 \<Rightarrow> hht_entry list option" where
  "hht_set_insert ways tag count =
     (let victimWay = hht_victim ways 0 0 (-1) in
      if victimWay < 0 then None
      else Some (hht_age (nat victimWay)
        (ways[nat victimWay :=
          \<lparr>he_valid = True, he_tag = ucast tag, he_lru = 0, he_queue = [count, 0, 0, 0]\<rparr>])))"

definition addHHTEntry :: "u64 \<Rightarrow> nat \<Rightarrow> u8 \<Rightarrow> ehc \<Rightarrow> ehc option" where
  "addHHTEntry tag index count s =
     map_option (\<lambda>ways. s\<lparr>eh_HHT := (eh_HHT s)[index := ways]\<rparr>)
       (hht_set_insert (eh_HHT s ! index) tag count)"

definition updateHHT :: "nat \<Rightarrow> addr \<Rightarrow> ehc \<Rightarrow> ehc option" where
  "updateHHT l a s =
     (let tag = ehc_tag a; index = ehc_index a in
      case searchHHT (eh_HHT s) tag index of
        None \<Rightarrow> addHHTEntry tag index (eh_CHC s ! l) s
      | Some way \<Rightarrow>
          (let ways = eh_HHT s ! index; e = ways ! way;
               q = he_queue e
           in Some (s\<lparr>eh_HHT := (eh_HHT s)[index := ways[way :=
                e\<lparr>he_queue := [eh_CHC s ! l, q ! 0, q ! 1, q ! 2]\<rparr>]]\<rparr>)))"

definition queue_average :: "u8 list \<Rightarrow> u8" where
  "queue_average q =
     of_nat ((unat (q ! 0) + unat (q ! 1) + unat (q ! 2) + unat (q ! 3) + 2) div 4)"

definition ehc_update :: "ehc \<Rightarrow> nat \<Rightarrow> memreq \<Rightarrow> ehc option" where
  "ehc_update s l req =
     (let a = mr_lineAddr req; tag = ehc_tag a; index = ehc_index a in
      if rm_RPV (eh_array s ! l) = -1 then
        Some (s\<lparr>eh_array := (eh_array s)[l := \<lparr>rm_RPV = 2, rm_lineAddr = a\<rparr>],
                eh_CHC := (eh_CHC s)[l := 0],
                eh_EFH := (eh_EFH s)[l :=
                  (case searchHHT (eh_HHT s) tag index of
                     None \<Rightarrow> 1
                   | Some way \<Rightarrow> queue_average (he_queue (eh_HHT s ! index ! way)))]\<rparr>)
      else
        (let s1 = s\<lparr>eh_array := (eh_array s)[l := (eh_array s ! l)\<lparr>rm_RPV := 0\<rparr>],
                    eh_CHC := (eh_CHC s)[l := eh_CHC s ! l + 1]\<rparr>;
             dec = (\<lambda>t. t\<lparr>eh_EFH := (eh_EFH t)[l := eh_EFH t ! l - 1]\<rparr>)
         in if eh_CHC s1 ! l = 7
            then map_option (\<lambda>s2. dec (s2\<lparr>eh_CHC := (eh_CHC s2)[l := 0]\<rparr>)) (updateHHT l a s1)
            else Some (dec s1)))"

definition ehc_replaced :: "ehc \<Rightarrow> nat \<Rightarrow> ehc option" where
  "ehc_replaced s l =
     (let s1 = s\<lparr>eh_array := (eh_array s)[l := (eh_array s ! l)\<lparr>rm_RPV := -1\<rparr>]\<rparr>
      in updateHHT l (rm_lineAddr (eh_array s1 ! l)) s1)"

definition ehc_score :: "u8 list \<Rightarrow> rpv_meta list \<Rightarrow> nat \<Rightarrow> int" where
  "ehc_score efh arr l = uint (efh ! l) - rm_RPV (arr ! l)"

fun ehc_scan :: "(nat \<Rightarrow> int) \<Rightarrow> nat list \<Rightarrow> nat \<Rightarrow> int \<Rightarrow> nat + (nat \<times> int)" where
  "ehc_scan score [] bestCand bestScore = Inr (bestCand, bestScore)"
| "ehc_scan score (c # cs) bestCand bestScore =
     (let (bestCand, bestScore) =
        (if score c \<le> bestScore then (c, score c) else (bestCand, bestScore))
      in if bestScore = -3 then Inl bestCand else ehc_scan score cs bestCand bestScore)"

definition ehc_incr :: "rpv_meta \<Rightarrow> rpv_meta" where
  "ehc_incr m = (if rm_RPV m < 3 then m\<lparr>rm_RPV := rm_RPV m + 1\<rparr> else m)"

text \<open>The loop of \<open>rank\<close>. Its ageing pass and its exit test run over every line of the
  cache, not over the candidates.\<close>

partial_function (option) ehc_rank_loop ::
    "u8 list \<Rightarrow> nat list \<Rightarrow> rpv_meta list \<Rightarrow> nat \<Rightarrow> int \<Rightarrow> (rpv_meta list \<times> nat) option" where
  "ehc_rank_loop efh cands arr bestCand bestScore =
     (case ehc_scan (ehc_score efh arr) cands bestCand bestScore of
        Inl c \<Rightarrow> Some (arr, c)
      | Inr (bc, bs) \<Rightarrow>
          if list_all (\<lambda>m. rm_RPV m = 3) arr then Some (arr, bc)
          else ehc_rank_loop efh cands (map ehc_incr arr) bc bs)"

definition ehc_rank :: "ehc \<Rightarrow> memreq \<Rightarrow> nat list \<Rightarrow> (ehc \<times> nat) option" where
  "ehc_rank s req cands =
     map_option (\<lambda>(arr, c). (s\<lparr>eh_array := arr\<rparr>, c))
       (ehc_rank_loop (eh_EFH s) cands (eh_array s) (2 ^ 32 - 1) (2 ^ 31 - 1))"

text \<open>\<open>increment_all\<close> is defined in the class but called from nowhere.\<close>

definition ehc_increment_all :: "ehc \<Rightarrow> ehc" where
  "ehc_increment_all s =
     s\<lparr>eh_array := map (\<lambda>m. if rm_RPV m < eh_maxRPV s then m\<lparr>rm_RPV := rm_RPV m + 1\<rparr> else m) (eh_array s)\<rparr>"

definition ehc_ops :: "ehc rp_ops" where
  "ehc_ops = \<lparr>rp_update = ehc_update, rp_replaced = ehc_replaced, rp_rank = (\<lambda>_. ehc_rank)\<rparr>"

section \<open>A set of the hit history table\<close>

text \<open>The recencies of the valid entries of a set are distinct and below their number, so
  they order the entries by age of insertion and never reach the 8-bit limit.\<close>

definition valid_ways :: "hht_entry list \<Rightarrow> nat set" where
  "valid_ways ways = {w. w < length ways \<and> he_valid (ways ! w)}"

definition recency :: "hht_entry list \<Rightarrow> nat \<Rightarrow> nat" where
  "recency ways w = unat (he_lru (ways ! w))"

definition hht_set_ok :: "hht_entry list \<Rightarrow> bool" where
  "hht_set_ok ways \<longleftrightarrow> length ways = 16 \<and>
     inj_on (recency ways) (valid_ways ways) \<and>
     (\<forall>w\<in>valid_ways ways. recency ways w < card (valid_ways ways)) \<and>
     (\<forall>e\<in>set ways. length (he_queue e) = 4 \<and> (\<forall>c\<in>set (he_queue e). unat c \<le> 7))"

lemma finite_valid_ways [simp]: "finite (valid_ways ways)"
  by (simp add: valid_ways_def)

lemma hht_set_ok_empty: "hht_set_ok (replicate 16 hht_empty)"
proof -
  have "valid_ways (replicate 16 hht_empty) = {}" by (auto simp: valid_ways_def hht_empty_def)
  then show ?thesis by (auto simp: hht_set_ok_def hht_empty_def)
qed

lemma card_valid_ways_le: "card (valid_ways ways) \<le> length ways"
  using card_mono [of "{..<length ways}" "valid_ways ways"] by (auto simp: valid_ways_def)

text \<open>The victim loop: with an invalid way ahead it returns the first one; otherwise the way
  that it returns has the largest recency.\<close>

lemma hht_victim_invalid:
  assumes "\<exists>e\<in>set es. \<not> he_valid e"
  shows "\<exists>i<length es. hht_victim es way m v = int (way + i) \<and> \<not> he_valid (es ! i)"
  using assms
proof (induction es arbitrary: way m v)
  case (Cons e es)
  show ?case
  proof (cases "he_valid e")
    case False
    then show ?thesis by (intro exI [of _ 0]) simp
  next
    case True
    with Cons.prems have ex: "\<exists>e\<in>set es. \<not> he_valid e" by auto
    define m' v' where "m' = (if he_lru e > m then he_lru e else m)"
      and "v' = (if he_lru e > m then int way else v)"
    obtain i where "i < length es" "hht_victim es (Suc way) m' v' = int (Suc way + i)" "\<not> he_valid (es ! i)"
      using Cons.IH [OF ex] by blast
    then show ?thesis using True
      by (intro exI [of _ "Suc i"]) (cases "he_lru e > m"; simp add: m'_def v'_def)
  qed
qed simp

lemma hht_victim_full:
  assumes "\<forall>e\<in>set es. he_valid e"
  shows "(hht_victim es way m v = v \<and> (\<forall>e\<in>set es. he_lru e \<le> m)) \<or>
    (\<exists>i<length es. hht_victim es way m v = int (way + i) \<and> m < he_lru (es ! i) \<and>
      (\<forall>e\<in>set es. he_lru e \<le> he_lru (es ! i)))"
  using assms
proof (induction es arbitrary: way m v)
  case (Cons e es)
  show ?case
  proof (cases "he_lru e > m")
    case True
    from Cons.IH [of "Suc way" "he_lru e" "int way"] Cons.prems
    consider "hht_victim es (Suc way) (he_lru e) (int way) = int way" "\<forall>x\<in>set es. he_lru x \<le> he_lru e"
      | i where "i < length es" "hht_victim es (Suc way) (he_lru e) (int way) = int (Suc way + i)"
          "he_lru e < he_lru (es ! i)" "\<forall>x\<in>set es. he_lru x \<le> he_lru (es ! i)" by auto
    then show ?thesis
    proof cases
      case 1
      with True Cons.prems show ?thesis by (intro disjI2 exI [of _ 0]) auto
    next
      case 2
      with True Cons.prems show ?thesis by (intro disjI2 exI [of _ "Suc i"]) auto
    qed
  next
    case False
    from Cons.IH [of "Suc way" m v] Cons.prems
    consider "hht_victim es (Suc way) m v = v" "\<forall>x\<in>set es. he_lru x \<le> m"
      | i where "i < length es" "hht_victim es (Suc way) m v = int (Suc way + i)"
          "m < he_lru (es ! i)" "\<forall>x\<in>set es. he_lru x \<le> he_lru (es ! i)" by auto
    then show ?thesis
    proof cases
      case 1
      with False Cons.prems show ?thesis by auto
    next
      case 2
      with False Cons.prems show ?thesis by (intro disjI2 exI [of _ "Suc i"]) auto
    qed
  qed
qed simp

lemma length_hht_age [simp]: "length (hht_age v ways) = length ways"
  by (simp add: hht_age_def)

lemma nth_hht_age:
  "w < length ways \<Longrightarrow> hht_age v ways ! w =
     (if w \<noteq> v \<and> he_valid (ways ! w)
      then (ways ! w)\<lparr>he_lru := he_lru (ways ! w) + 1\<rparr> else ways ! w)"
  by (simp add: hht_age_def)

text \<open>The oldest valid entry of a full set is the one whose recency is 15.\<close>

lemma hht_full_image:
  assumes "hht_set_ok ways" and "\<forall>e\<in>set ways. he_valid e"
  shows "valid_ways ways = {..<16}" and "recency ways ` {..<16} = {..<16}"
proof -
  show V: "valid_ways ways = {..<16}"
    using assms by (auto simp: valid_ways_def hht_set_ok_def)
  have "recency ways ` {..<16} \<subseteq> {..<16}"
    using assms(1) V by (auto simp: hht_set_ok_def)
  moreover have "card (recency ways ` {..<16}) = card {..<16::nat}"
    using assms(1) V by (intro card_image) (simp add: hht_set_ok_def)
  ultimately show "recency ways ` {..<16} = {..<16}"
    by (intro card_subset_eq) auto
qed

lemma hht_victim_ok:
  assumes ok: "hht_set_ok ways"
  obtains v where "hht_victim ways 0 0 (-1) = int v" and "v < 16"
    and "\<not> he_valid (ways ! v) \<or> ((\<forall>e\<in>set ways. he_valid e) \<and> recency ways v = 15)"
proof (cases "\<forall>e\<in>set ways. he_valid e")
  case True
  have len: "length ways = 16" using ok by (simp add: hht_set_ok_def)
  have "15 \<in> recency ways ` {..<16}" using hht_full_image(2) [OF ok True] by simp
  then obtain w where w: "w < 16" "recency ways w = 15" by auto
  then have ex: "ways ! w \<in> set ways" "unat (he_lru (ways ! w)) = 15"
    using len by (auto simp: recency_def)
  then have "\<not> he_lru (ways ! w) \<le> 0" by (auto simp: word_le_nat_alt)
  with hht_victim_full [OF True, of 0 0 "-1"] ex(1) obtain i where
    i: "i < 16" "hht_victim ways 0 0 (-1) = int i" "\<forall>e\<in>set ways. he_lru e \<le> he_lru (ways ! i)"
    using len by force
  then have "15 \<le> recency ways i"
    using ex by (auto simp: recency_def word_le_nat_alt dest!: bspec)
  moreover have "recency ways i < 16" using hht_full_image(2) [OF ok True] i(1) by blast
  ultimately have "recency ways i = 15" by simp
  with i True show ?thesis by (intro that [of i]) auto
next
  case False
  then show ?thesis
    using hht_victim_invalid [of ways 0 0 "-1"] that ok by (auto simp: hht_set_ok_def)
qed

lemma hht_set_insert_ok:
  assumes ok: "hht_set_ok ways" and count: "unat count \<le> 7"
  shows "\<exists>ways' v. hht_set_insert ways tag count = Some ways' \<and> hht_set_ok ways' \<and> v < 16 \<and>
    (\<not> he_valid (ways ! v) \<or> (\<forall>e\<in>set ways. he_valid e) \<and> recency ways v = 15) \<and>
    ways' ! v = \<lparr>he_valid = True, he_tag = ucast tag, he_lru = 0, he_queue = [count, 0, 0, 0]\<rparr> \<and>
    (\<forall>w<16. w \<noteq> v \<longrightarrow> ways' ! w =
      (if he_valid (ways ! w) then (ways ! w)\<lparr>he_lru := he_lru (ways ! w) + 1\<rparr> else ways ! w))"
proof -
  let ?e = "\<lparr>he_valid = True, he_tag = ucast tag, he_lru = 0, he_queue = [count, 0, 0, 0]\<rparr>"
  obtain v where v: "hht_victim ways 0 0 (-1) = int v" "v < 16"
    "\<not> he_valid (ways ! v) \<or> ((\<forall>e\<in>set ways. he_valid e) \<and> recency ways v = 15)"
    by (rule hht_victim_ok [OF ok])
  define ways' where "ways' = hht_age v (ways[v := ?e])"
  have len: "length ways = 16" using ok by (simp add: hht_set_ok_def)
  have at_v: "ways' ! v = ?e" using v(2) len by (simp add: ways'_def nth_hht_age)
  have at_w: "ways' ! w = (if he_valid (ways ! w) then (ways ! w)\<lparr>he_lru := he_lru (ways ! w) + 1\<rparr> else ways ! w)"
    if "w < 16" "w \<noteq> v" for w
    using that len by (simp add: ways'_def nth_hht_age)
  have len': "length ways' = 16" using len by (simp add: ways'_def)
  have val: "he_valid (ways' ! w) \<longleftrightarrow> w = v \<or> he_valid (ways ! w)" if "w < 16" for w
    using that at_v at_w [of w] by (cases "w = v") simp_all
  have V': "valid_ways ways' = insert v (valid_ways ways)"
    using val v(2) len len' by (auto simp: valid_ways_def)
  have lt: "recency ways w < card (valid_ways ways)" if "w \<in> valid_ways ways" for w
    using ok that by (simp add: hht_set_ok_def)
  have inj: "recency ways w = recency ways u \<Longrightarrow> w = u" if "w \<in> valid_ways ways" "u \<in> valid_ways ways" for w u
    using ok that by (auto simp: hht_set_ok_def inj_on_def)
  have k16: "card (valid_ways ways) \<le> 16" using card_valid_ways_le [of ways] len by simp
  have rec_v: "recency ways' v = 0" using at_v by (simp add: recency_def)
  have rec_w: "recency ways' w = Suc (recency ways w)" if "w \<in> valid_ways ways" "w \<noteq> v" for w
  proof -
    have "recency ways w < 16" using lt [OF that(1)] k16 by simp
    then have "unat (he_lru (ways ! w) + 1) = unat (he_lru (ways ! w)) + 1"
      by (simp add: recency_def unat_word_ariths)
    with that at_w [of w] len show ?thesis by (simp add: recency_def valid_ways_def)
  qed
  have bound: "recency ways' w < card (valid_ways ways')" if "w \<in> valid_ways ways'" for w
  proof (cases "w = v")
    case True
    then show ?thesis using rec_v V' by (simp add: card_gt_0_iff)
  next
    case False
    with that V' have w: "w \<in> valid_ways ways" by simp
    show ?thesis
    proof (cases "v \<in> valid_ways ways")
      case True
      then have "recency ways v = 15" and "valid_ways ways = {..<16}"
        using v(3) hht_full_image(1) [OF ok] by (auto simp: valid_ways_def)
      moreover from this have "recency ways w \<noteq> 15" using inj [OF w True] False by auto
      ultimately show ?thesis using rec_w [OF w False] lt [OF w] V' True by (simp add: insert_absorb)
    next
      case F: False
      then show ?thesis using rec_w [OF w False] lt [OF w] V' by simp
    qed
  qed
  have "w = u" if "recency ways' w = recency ways' u" "w \<in> insert v (valid_ways ways)"
    "u \<in> insert v (valid_ways ways)" for w u
    using that rec_v rec_w [of w] rec_w [of u] inj [of w u] by (cases "w = v"; cases "u = v") auto
  then have "inj_on (recency ways') (valid_ways ways')"
    unfolding V' by (rule inj_onI)
  moreover have "length (he_queue e) = 4 \<and> (\<forall>c\<in>set (he_queue e). unat c \<le> 7)" if "e \<in> set ways'" for e
  proof -
    from that len' obtain w where w: "w < 16" "e = ways' ! w" by (auto simp: in_set_conv_nth)
    have "length (he_queue (ways ! w)) = 4 \<and> (\<forall>c\<in>set (he_queue (ways ! w)). unat c \<le> 7)"
      using ok nth_mem [of w ways] w(1) len unfolding hht_set_ok_def by metis
    with w count at_v at_w show ?thesis by (cases "w = v") auto
  qed
  ultimately have "hht_set_ok ways'" using len' bound by (simp add: hht_set_ok_def)
  moreover have "hht_set_insert ways tag count = Some ways'"
    using v(1) by (simp add: hht_set_insert_def ways'_def)
  ultimately show ?thesis using v(2,3) at_v at_w by (intro exI [of _ ways'] exI [of _ v]) simp
qed

section \<open>The table and the counters\<close>

definition hht_ok :: "hht_entry list list \<Rightarrow> bool" where
  "hht_ok hht \<longleftrightarrow> length hht = 128 \<and> list_all hht_set_ok hht"

definition ehc_inv :: "nat \<Rightarrow> ehc \<Rightarrow> bool" where
  "ehc_inv n s \<longleftrightarrow> eh_numLines s = n \<and> length (eh_array s) = n \<and> length (eh_CHC s) = n \<and>
     length (eh_EFH s) = n \<and> list_all (\<lambda>m. rm_RPV m \<in> {-1..3}) (eh_array s) \<and>
     list_all (\<lambda>c. unat c \<le> 6) (eh_CHC s) \<and> hht_ok (eh_HHT s)"

lemma ehc_index_lt [simp]: "ehc_index a < 128"
proof -
  have "drop_bit 6 a AND 0x7F = take_bit 7 (drop_bit 6 a)" by (simp add: take_bit_eq_mask mask_numeral)
  then have "ehc_index a = take_bit 7 (unat (drop_bit 6 a))" by (simp add: ehc_index_def unsigned_take_bit_eq)
  also have "\<dots> < 2 ^ 7" by (rule take_bit_nat_less_exp)
  finally show ?thesis by simp
qed

lemma searchHHT_SomeD:
  "searchHHT hht tag i = Some w \<Longrightarrow> w < 16 \<and> he_valid (hht ! i ! w) \<and> he_tag (hht ! i ! w) = ucast tag"
  unfolding searchHHT_def by (drule find_Some_in) auto

lemma searchHHT_ex:
  "w < 16 \<Longrightarrow> he_valid (hht ! i ! w) \<Longrightarrow> he_tag (hht ! i ! w) = ucast tag \<Longrightarrow> \<exists>w'. searchHHT hht tag i = Some w'"
  unfolding searchHHT_def by (rule find_ex) auto

lemma hht_set_ok_queue:
  assumes ok: "hht_set_ok ways" and w: "w < 16" and q: "length q = 4" "\<forall>c\<in>set q. unat c \<le> 7"
  shows "hht_set_ok (ways[w := (ways ! w)\<lparr>he_queue := q\<rparr>])"
proof -
  let ?ways = "ways[w := (ways ! w)\<lparr>he_queue := q\<rparr>]"
  have len: "length ways = 16" using ok by (simp add: hht_set_ok_def)
  have same: "he_valid (?ways ! u) = he_valid (ways ! u) \<and> recency ?ways u = recency ways u" if "u < 16" for u
    using that len by (cases "u = w") (simp_all add: recency_def)
  then have V: "valid_ways ?ways = valid_ways ways" using len by (auto simp: valid_ways_def)
  have "inj_on (recency ?ways) (valid_ways ways) \<longleftrightarrow> inj_on (recency ways) (valid_ways ways)"
    using same len by (intro inj_on_cong) (simp add: valid_ways_def)
  moreover have "recency ?ways u = recency ways u" if "u \<in> valid_ways ways" for u
    using same that len by (simp add: valid_ways_def)
  moreover have "length (he_queue e) = 4 \<and> (\<forall>c\<in>set (he_queue e). unat c \<le> 7)" if "e \<in> set ?ways" for e
    using set_list_updateD [OF that] ok q by (auto simp: hht_set_ok_def)
  ultimately show ?thesis using ok by (simp add: hht_set_ok_def V)
qed

lemma updateHHT_ok:
  assumes ok: "hht_ok (eh_HHT s)" and c: "unat (eh_CHC s ! l) \<le> 7"
  shows "\<exists>hht. updateHHT l a s = Some (s\<lparr>eh_HHT := hht\<rparr>) \<and> hht_ok hht"
proof -
  let ?ways = "eh_HHT s ! ehc_index a"
  have ways: "hht_set_ok ?ways" "ehc_index a < length (eh_HHT s)"
    using ok by (auto simp: hht_ok_def list_all_length)
  have upd: "hht_ok ((eh_HHT s)[ehc_index a := ways'])" if "hht_set_ok ways'" for ways'
    using ok that by (simp add: hht_ok_def list_all_update)
  show ?thesis
  proof (cases "searchHHT (eh_HHT s) (ehc_tag a) (ehc_index a)")
    case None
    obtain ways' where "hht_set_insert ?ways (ehc_tag a) (eh_CHC s ! l) = Some ways'" "hht_set_ok ways'"
      using hht_set_insert_ok [OF ways(1) c] by metis
    with None upd show ?thesis by (auto simp: updateHHT_def addHHTEntry_def)
  next
    case (Some w)
    let ?q = "he_queue (?ways ! w)"
    have w: "w < 16" using searchHHT_SomeD [OF Some] by simp
    then have "?ways ! w \<in> set ?ways" using ways(1) by (simp add: hht_set_ok_def)
    then have q: "length ?q = 4" "\<forall>c\<in>set ?q. unat c \<le> 7" using ways(1) by (auto simp: hht_set_ok_def)
    then have "?q ! 0 \<in> set ?q" "?q ! 1 \<in> set ?q" "?q ! 2 \<in> set ?q" by simp_all
    with q c have "hht_set_ok (?ways[w := (?ways ! w)\<lparr>he_queue := [eh_CHC s ! l, ?q ! 0, ?q ! 1, ?q ! 2]\<rparr>])"
      by (intro hht_set_ok_queue [OF ways(1) w]) auto
    with Some upd show ?thesis by (auto simp: updateHHT_def Let_def)
  qed
qed

lemma ehc_inv_new: "ehc_inv n (ehc_new 3 n)"
  using hht_set_ok_empty by (simp add: ehc_inv_def ehc_new_def hht_ok_def list_all_length)

lemma ehc_update_ok:
  assumes inv: "ehc_inv n s" and l: "l < n"
  shows "\<exists>s'. ehc_update s l req = Some s' \<and> ehc_inv n s'"
proof (cases "rm_RPV (eh_array s ! l) = -1")
  case True
  with inv show ?thesis by (auto simp: ehc_update_def ehc_inv_def Let_def intro!: list_all_update)
next
  case False
  define s1 where "s1 = s\<lparr>eh_array := (eh_array s)[l := (eh_array s ! l)\<lparr>rm_RPV := 0\<rparr>],
    eh_CHC := (eh_CHC s)[l := eh_CHC s ! l + 1]\<rparr>"
  have chc: "unat (eh_CHC s ! l) \<le> 6" using inv l by (auto simp: ehc_inv_def list_all_length)
  then have c: "eh_CHC s1 ! l = eh_CHC s ! l + 1" "unat (eh_CHC s ! l + 1) = unat (eh_CHC s ! l) + 1"
    using inv l by (simp_all add: s1_def ehc_inv_def unat_word_ariths)
  have inv1: "eh_numLines s1 = n" "length (eh_array s1) = n" "length (eh_CHC s1) = n" "length (eh_EFH s1) = n"
    "list_all (\<lambda>m. rm_RPV m \<in> {-1..3}) (eh_array s1)" "hht_ok (eh_HHT s1)"
    "\<And>x. unat x \<le> 6 \<Longrightarrow> list_all (\<lambda>c. unat c \<le> 6) ((eh_CHC s1)[l := x])"
    using inv by (auto simp: s1_def ehc_inv_def intro!: list_all_update)
  show ?thesis
  proof (cases "eh_CHC s1 ! l = 7")
    case seven: True
    obtain hht where "updateHHT l (mr_lineAddr req) s1 = Some (s1\<lparr>eh_HHT := hht\<rparr>)" "hht_ok hht"
      using updateHHT_ok [OF inv1(6), of l "mr_lineAddr req"] seven by auto
    with False seven inv1 inv1(7) [of 0] show ?thesis
      by (simp add: ehc_update_def Let_def ehc_inv_def flip: s1_def)
  next
    case not7: False
    have "unat (eh_CHC s1 ! l) \<noteq> unat (7::u8)" using not7 by (metis word_unat_eq_iff)
    then have "unat (eh_CHC s1 ! l) \<le> 6" using chc c by simp
    from inv1(7) [OF this] inv1 False not7 show ?thesis
      by (simp add: ehc_update_def Let_def ehc_inv_def flip: s1_def)
  qed
qed

lemma ehc_replaced_ok:
  assumes inv: "ehc_inv n s" and l: "l < n"
  shows "\<exists>s'. ehc_replaced s l = Some s' \<and> ehc_inv n s' \<and> rm_RPV (eh_array s' ! l) = -1"
proof -
  define s1 where "s1 = s\<lparr>eh_array := (eh_array s)[l := (eh_array s ! l)\<lparr>rm_RPV := -1\<rparr>]\<rparr>"
  have "unat (eh_CHC s1 ! l) \<le> 7" using inv l by (auto simp: s1_def ehc_inv_def list_all_length)
  with updateHHT_ok [of s1 l "rm_lineAddr (eh_array s1 ! l)"] inv obtain hht where
    "updateHHT l (rm_lineAddr (eh_array s1 ! l)) s1 = Some (s1\<lparr>eh_HHT := hht\<rparr>)" "hht_ok hht"
    by (auto simp: s1_def ehc_inv_def)
  with inv l show ?thesis
    by (auto simp: ehc_replaced_def Let_def s1_def ehc_inv_def intro!: list_all_update)
qed

section \<open>The victim choice\<close>

text \<open>One pass over the candidates: it stops at the first one whose score is -3, the smallest
  possible one; otherwise it returns the best so far.\<close>

lemma ehc_scan_stop:
  assumes "-3 < bs" and "\<forall>c\<in>set cs. -3 \<le> sc c" and "List.find (\<lambda>c. sc c = -3) cs = Some v"
  shows "ehc_scan sc cs bc bs = Inl v"
  using assms
proof (induction cs arbitrary: bc bs)
  case (Cons c cs)
  show ?case
  proof (cases "sc c = -3")
    case True
    with Cons.prems show ?thesis by simp
  next
    case False
    with Cons.prems have "List.find (\<lambda>c. sc c = -3) cs = Some v" "\<forall>c\<in>set cs. -3 \<le> sc c" "-3 < sc c" by auto
    then have IH: "ehc_scan sc cs bc' bs' = Inl v" if "-3 < bs'" for bc' bs'
      using Cons.IH that by blast
    show ?thesis using IH [of "sc c" c] IH [of bs bc] Cons.prems(1) \<open>-3 < sc c\<close> by simp
  qed
qed simp

lemma ehc_scan_best:
  assumes "-3 < bs" and "\<forall>c\<in>set cs. -3 < sc c"
  shows "\<exists>bc' bs'. ehc_scan sc cs bc bs = Inr (bc', bs') \<and> -3 < bs' \<and> bs' \<le> bs \<and> (\<forall>c\<in>set cs. bs' \<le> sc c) \<and>
    (bs' = sc bc' \<and> bc' \<in> set cs \<or> bc' = bc \<and> bs' = bs \<and> (\<forall>c\<in>set cs. bs < sc c))"
  using assms
proof (induction cs arbitrary: bc bs)
  case (Cons c cs)
  have c: "-3 < sc c" "\<forall>c\<in>set cs. -3 < sc c" using Cons.prems by auto
  show ?case
  proof (cases "sc c \<le> bs")
    case True
    from Cons.IH [OF c, of c] obtain bc' bs' where r: "ehc_scan sc cs c (sc c) = Inr (bc', bs')"
      "-3 < bs'" "bs' \<le> sc c" "\<forall>c\<in>set cs. bs' \<le> sc c"
      and best: "bs' = sc bc' \<and> bc' \<in> set cs \<or> bc' = c \<and> bs' = sc c" by blast
    from best have "bs' = sc bc' \<and> bc' \<in> set (c # cs)" by auto
    with r True c show ?thesis by (intro exI [of _ bc'] exI [of _ bs']) auto
  next
    case False
    from Cons.IH [OF Cons.prems(1) c(2), of bc] False c Cons.prems show ?thesis by fastforce
  qed
qed simp


lemma ehc_scores_ge:
  assumes "list_all (\<lambda>m. rm_RPV m \<in> {-1..3}) arr" and "c < length arr"
  shows "-3 \<le> ehc_score efh arr c" and "ehc_score efh arr c = -3 \<longleftrightarrow> efh ! c = 0 \<and> rm_RPV (arr ! c) = 3"
proof -
  have "rm_RPV (arr ! c) \<le> 3" using assms by (auto simp: list_all_length)
  moreover have "0 \<le> uint (efh ! c)" by simp
  ultimately show "-3 \<le> ehc_score efh arr c"
    and "ehc_score efh arr c = -3 \<longleftrightarrow> efh ! c = 0 \<and> rm_RPV (arr ! c) = 3"
    unfolding ehc_score_def uint_0_iff [symmetric] by linarith+
qed

text \<open>What the loop promises about the victim: a candidate with the least EFH. If that EFH is 0
  the victim also has the largest RPV of those; otherwise the whole cache has aged to RPV 3.\<close>

definition ehc_victim :: "u8 list \<Rightarrow> nat list \<Rightarrow> rpv_meta list \<Rightarrow> rpv_meta list \<Rightarrow> nat \<Rightarrow> bool" where
  "ehc_victim efh cands arr arr' v \<longleftrightarrow>
     v \<in> set cands \<and> (\<forall>c\<in>set cands. efh ! v \<le> efh ! c) \<and>
     (efh ! v = 0 \<longrightarrow> (\<forall>c\<in>set cands. efh ! c = 0 \<longrightarrow> rm_RPV (arr ! c) \<le> rm_RPV (arr ! v))) \<and>
     (efh ! v \<noteq> 0 \<longrightarrow> (\<forall>m\<in>set arr'. rm_RPV m = 3)) \<and>
     map rm_lineAddr arr' = map rm_lineAddr arr \<and> list_all (\<lambda>m. rm_RPV m \<in> {-1..3}) arr'"

lemma ehc_rank_loop_ok:
  assumes "list_all (\<lambda>m. rm_RPV m \<in> {-1..3}) arr" and "\<forall>m\<in>set arr. 3 - int d \<le> rm_RPV m"
    and "set cands \<subseteq> {..<length arr}" and "-3 < bs" and "\<exists>c\<in>set cands. ehc_score efh arr c \<le> bs"
  shows "\<exists>arr' v. ehc_rank_loop efh cands arr bc bs = Some (arr', v) \<and> ehc_victim efh cands arr arr' v"
  using assms
proof (induction d arbitrary: arr bc bs)
  case (0 arr bc bs)
  then have all3: "\<forall>m\<in>set arr. rm_RPV m = 3" by (fastforce simp: list_all_iff)
  then have rpv3: "rm_RPV (arr ! c) = 3" if "c \<in> set cands" for c
    using that 0(3) by auto
  then have sc: "ehc_score efh arr c = uint (efh ! c) - 3" if "c \<in> set cands" for c
    using that 0(3) by (auto simp: ehc_score_def)
  have ge: "-3 \<le> ehc_score efh arr c" if "c \<in> set cands" for c
    using ehc_scores_ge(1) [OF 0(1)] that 0(3) by auto
  show ?case
  proof (cases "List.find (\<lambda>c. ehc_score efh arr c = -3) cands")
    case None
    then have "\<forall>c\<in>set cands. -3 < ehc_score efh arr c"
      using ge by (force simp: find_None_iff_all)
    from ehc_scan_best [OF 0(4) this, of bc] 0(5) obtain bc' bs' where
      r: "ehc_scan (ehc_score efh arr) cands bc bs = Inr (bc', bs')" "\<forall>c\<in>set cands. bs' \<le> ehc_score efh arr c"
        "bs' = ehc_score efh arr bc'" "bc' \<in> set cands" by force
    then have "ehc_victim efh cands arr arr bc'"
      using all3 0(1,3) sc None by (auto simp: ehc_victim_def word_le_def find_None_iff_all)
    with r all3 show ?thesis by (subst ehc_rank_loop.simps) (simp add: list_all_iff)
  next
    case (Some v)
    have "ehc_victim efh cands arr arr v"
      using find_Some_in [OF Some] all3 rpv3 0(1) sc by (auto simp: ehc_victim_def uint_0_iff)
    with ehc_scan_stop [OF 0(4) _ Some, of bc] ge show ?thesis by (subst ehc_rank_loop.simps) simp
  qed
next
  case (Suc d arr bc bs)
  let ?sc = "ehc_score efh arr"
  have ge: "-3 \<le> ?sc c" "?sc c = -3 \<longleftrightarrow> efh ! c = 0 \<and> rm_RPV (arr ! c) = 3" if "c \<in> set cands" for c
    using ehc_scores_ge [OF Suc(2)] that Suc(4) by auto
  show ?case
  proof (cases "List.find (\<lambda>c. ?sc c = -3) cands")
    case (Some v)
    have "v \<in> set cands" "?sc v = -3" using find_Some_in [OF Some] by auto
    moreover have "rm_RPV (arr ! c) \<le> 3" if "c \<in> set cands" for c
      using that Suc(2,4) by (auto simp: list_all_length)
    ultimately have "ehc_victim efh cands arr arr v"
      using ge Suc(2) by (auto simp: ehc_victim_def)
    with ehc_scan_stop [OF Suc(5) _ Some, of bc] ge show ?thesis by (subst ehc_rank_loop.simps) simp
  next
    case None
    then have gt: "\<forall>c\<in>set cands. -3 < ?sc c"
      using ge(1) by (force simp: find_None_iff_all)
    from ehc_scan_best [OF Suc(5) this, of bc] Suc(6) obtain bc' bs' where
      r: "ehc_scan ?sc cands bc bs = Inr (bc', bs')" "-3 < bs'" "\<forall>c\<in>set cands. bs' \<le> ?sc c"
        "bs' = ?sc bc'" "bc' \<in> set cands" by force
    show ?thesis
    proof (cases "list_all (\<lambda>m. rm_RPV m = 3) arr")
      case True
      then have all3: "rm_RPV (arr ! c) = 3" if "c \<in> set cands" for c
        using that Suc(4) by (auto simp: list_all_length)
      have "ehc_victim efh cands arr arr bc'"
        using r(3-5) all3 True Suc(2) by (auto simp: ehc_victim_def ehc_score_def word_le_def list_all_iff)
      with r True show ?thesis by (subst ehc_rank_loop.simps) simp
    next
      case False
      let ?arr = "map ehc_incr arr"
      have rng: "list_all (\<lambda>m. rm_RPV m \<in> {-1..3}) ?arr"
        using Suc(2) by (auto simp: list_all_iff ehc_incr_def)
      have low: "\<forall>m\<in>set ?arr. 3 - int d \<le> rm_RPV m"
        using Suc(3) by (auto simp: ehc_incr_def)
      have "?sc bc' \<ge> ehc_score efh ?arr bc'"
        using r(5) Suc(4) by (auto simp: ehc_score_def ehc_incr_def)
      with r(4,5) have "\<exists>c\<in>set cands. ehc_score efh ?arr c \<le> bs'" by auto
      from Suc.IH [OF rng low _ r(2) this, of bc'] Suc(4) obtain arr' v where
        v: "ehc_rank_loop efh cands ?arr bc' bs' = Some (arr', v)" "ehc_victim efh cands ?arr arr' v" by auto
      have "rm_RPV (?arr ! c) = rm_RPV (arr ! c) + 1" if "c \<in> set cands" "efh ! c = 0" for c
      proof -
        have "?sc c \<noteq> -3" using gt that(1) by force
        then have "c < length arr" "rm_RPV (arr ! c) \<noteq> 3" using that ge(2) [OF that(1)] Suc(4) by auto
        with Suc(2) show ?thesis by (auto simp: ehc_incr_def list_all_length)
      qed
      moreover have "map rm_lineAddr ?arr = map rm_lineAddr arr" by (auto simp: ehc_incr_def)
      moreover from v(2) have "v \<in> set cands" by (simp add: ehc_victim_def)
      ultimately have "ehc_victim efh cands arr arr' v"
        using v(2) by (auto simp: ehc_victim_def)
      with v(1) r False show ?thesis by (subst ehc_rank_loop.simps) simp
    qed
  qed
qed

lemma ehc_rank_ok:
  assumes inv: "ehc_inv n s" and sub: "set cands \<subseteq> {..<n}" and ne: "cands \<noteq> []"
  shows "\<exists>arr' v. ehc_rank s req cands = Some (s\<lparr>eh_array := arr'\<rparr>, v) \<and>
    ehc_victim (eh_EFH s) cands (eh_array s) arr' v"
proof -
  have rng: "list_all (\<lambda>m. rm_RPV m \<in> {-1..3}) (eh_array s)" "length (eh_array s) = n"
    using inv by (auto simp: ehc_inv_def)
  then have "\<forall>m\<in>set (eh_array s). 3 - int 4 \<le> rm_RPV m" by (auto simp: list_all_iff)
  moreover have "ehc_score (eh_EFH s) (eh_array s) (hd cands) \<le> 2 ^ 31 - 1"
  proof -
    have "hd cands < n" using sub ne by (metis hd_in_set lessThan_iff subsetD)
    then have "-1 \<le> rm_RPV (eh_array s ! hd cands)" using rng by (auto simp: list_all_length)
    moreover have "uint (eh_EFH s ! hd cands) < 2 ^ 8" using uint_lt2p [of "eh_EFH s ! hd cands"] by simp
    ultimately show ?thesis by (simp add: ehc_score_def)
  qed
  then have "\<exists>c\<in>set cands. ehc_score (eh_EFH s) (eh_array s) c \<le> 2 ^ 31 - 1" using ne by (intro bexI) auto
  ultimately show ?thesis
    using ehc_rank_loop_ok [OF rng(1), of 4 cands "2 ^ 31 - 1" "eh_EFH s" "2 ^ 32 - 1"] sub rng(2)
    by (force simp: ehc_rank_def)
qed

lemma ehc_inv_aged:
  "ehc_inv n s \<Longrightarrow> ehc_victim efh cands (eh_array s) arr' v \<Longrightarrow> ehc_inv n (s\<lparr>eh_array := arr'\<rparr>)"
  by (auto simp: ehc_victim_def ehc_inv_def dest: map_eq_imp_length_eq)

interpretation ehc: repl_policy ehc_ops "ehc_inv n" "\<lambda>s v. ehc_inv n s \<and> v < n" n "\<lambda>cands. cands \<noteq> []"
  for n
proof unfold_locales
  fix s cands cv req s' v
  assume inv: "ehc_inv n s" and "cands \<noteq> []" and sub: "set cands \<subseteq> {..<n}"
  with ehc_rank_ok [of n s cands req] obtain arr w where
    r: "ehc_rank s req cands = Some (s\<lparr>eh_array := arr\<rparr>, w)" "ehc_victim (eh_EFH s) cands (eh_array s) arr w" by blast
  then show "rp_rank ehc_ops cv s req cands \<noteq> None" by (simp add: ehc_ops_def)
  show "v \<in> set cands \<and> ehc_inv n s' \<and> v < n" if "rp_rank ehc_ops cv s req cands = Some (s', v)"
    using that r sub ehc_inv_aged [OF inv r(2)] by (auto simp: ehc_ops_def ehc_victim_def)
next
  fix s l req s' assume "ehc_inv n s" "l < n"
  with ehc_update_ok [of n s l req] show "rp_update ehc_ops s l req \<noteq> None"
    and "rp_update ehc_ops s l req = Some s' \<Longrightarrow> ehc_inv n s'" by (auto simp: ehc_ops_def)
next
  fix s v l req s' assume "ehc_inv n s \<and> v < n" "l < n"
  with ehc_update_ok [of n s l req] show "rp_update ehc_ops s l req \<noteq> None"
    and "rp_update ehc_ops s l req = Some s' \<Longrightarrow> ehc_inv n s' \<and> v < n" by (auto simp: ehc_ops_def)
next
  fix s v s' assume "ehc_inv n s \<and> v < n"
  with ehc_replaced_ok [of n s v] show "rp_replaced ehc_ops s v \<noteq> None"
    and "rp_replaced ehc_ops s v = Some s' \<Longrightarrow> ehc_inv n s'" by (auto simp: ehc_ops_def)
qed

section \<open>Properties\<close>

text \<open>C17. The loop of EHC's \<open>rank\<close> returns for every nonempty candidate list, and the victim is a
  candidate with the least expected further hits. Among several with none expected it has the
  largest RPV. If the least EFH is not 0, the loop has aged the whole cache to RPV 3, lines of
  other sets included.\<close>

theorem ehc_rank_victim:
  assumes "ehc_inv n s" and "set cands \<subseteq> {..<n}" and "cands \<noteq> []"
  shows "\<exists>s' v. ehc_rank s req cands = Some (s', v) \<and> ehc_inv n s' \<and> v \<in> set cands \<and>
    (\<forall>c\<in>set cands. eh_EFH s ! v \<le> eh_EFH s ! c) \<and>
    (eh_EFH s ! v = 0 \<longrightarrow>
      (\<forall>c\<in>set cands. eh_EFH s ! c = 0 \<longrightarrow> rm_RPV (eh_array s ! c) \<le> rm_RPV (eh_array s ! v))) \<and>
    (eh_EFH s ! v \<noteq> 0 \<longrightarrow> (\<forall>m\<in>set (eh_array s'). rm_RPV m = 3))"
proof -
  obtain arr' v where r: "ehc_rank s req cands = Some (s\<lparr>eh_array := arr'\<rparr>, v)"
    "ehc_victim (eh_EFH s) cands (eh_array s) arr' v"
    using ehc_rank_ok [OF assms] by blast
  with ehc_inv_aged [OF assms(1) r(2)] show ?thesis by (auto simp: ehc_victim_def)
qed

theorem ehc_rank_victim_witness:
  "\<exists>s' v. ehc_rank (ehc_new 3 4) undefined [2, 3] = Some (s', v) \<and> ehc_inv 4 s' \<and> v \<in> {2, 3}"
  using ehc_rank_victim [OF ehc_inv_new, of "[2, 3]" 4 undefined] by auto

text \<open>C19. No operation of EHC fails: the replacement search of the history table always finds
  a way (\<open>victimWay\<close> never stays -1), the hit counters stay below 7, the recencies of a set stay
  below 16 and distinct, and both operations keep this so.\<close>

theorem ehc_ops_total:
  assumes "ehc_inv n s" and "l < n"
  shows "(\<exists>s'. ehc_update s l req = Some s' \<and> ehc_inv n s') \<and> (\<exists>s'. ehc_replaced s l = Some s' \<and> ehc_inv n s')"
  using ehc_update_ok [OF assms] ehc_replaced_ok [OF assms] by blast

theorem ehc_ops_total_witness: "\<exists>s'. ehc_replaced (ehc_new 3 4) 2 = Some s' \<and> ehc_inv 4 s'"
  using ehc_ops_total [OF ehc_inv_new, of 2 4] by simp

text \<open>An expected-further-hits counter that is 0 wraps to 255 on the next hit (the guard that
  would prevent it is commented out), so the line turns from the first choice of \<open>rank\<close> to the last.\<close>

theorem ehc_hit_wraps:
  assumes "ehc_inv n s" and "l < n" and "eh_EFH s ! l = 0" and "rm_RPV (eh_array s ! l) \<noteq> -1"
  shows "\<exists>s'. ehc_update s l req = Some s' \<and> eh_EFH s' ! l = 255"
proof (cases "eh_CHC s ! l + 1 = (7::u8)")
  case True
  let ?s1 = "s\<lparr>eh_array := (eh_array s)[l := (eh_array s ! l)\<lparr>rm_RPV := 0\<rparr>], eh_CHC := (eh_CHC s)[l := eh_CHC s ! l + 1]\<rparr>"
  have "hht_ok (eh_HHT ?s1)" "unat (eh_CHC ?s1 ! l) \<le> 7" using assms True by (simp_all add: ehc_inv_def)
  from updateHHT_ok [OF this, of "mr_lineAddr req"] obtain hht where
    "updateHHT l (mr_lineAddr req) ?s1 = Some (?s1\<lparr>eh_HHT := hht\<rparr>)" by blast
  with True assms show ?thesis by (simp add: ehc_update_def Let_def ehc_inv_def)
next
  case False
  with assms show ?thesis by (simp add: ehc_update_def Let_def ehc_inv_def)
qed

theorem ehc_hit_wraps_witness:
  "\<exists>s'. ehc_update ((ehc_new 3 2)\<lparr>eh_EFH := [1, 0]\<rparr>) 1 (read_req 64) = Some s' \<and> eh_EFH s' ! 1 = 255"
proof (rule ehc_hit_wraps)
  show "ehc_inv 2 ((ehc_new 3 2)\<lparr>eh_EFH := [1, 0]\<rparr>)"
    using ehc_inv_new [of 2] by (simp add: ehc_inv_def ehc_new_def)
qed (simp_all add: ehc_new_def numeral_2_eq_2)

text \<open>The hit counts that the history table has for an address, the latest first.\<close>

definition ehc_hist :: "hht_entry list list \<Rightarrow> addr \<Rightarrow> u8 list option" where
  "ehc_hist hht a = map_option (\<lambda>way. he_queue (hht ! ehc_index a ! way)) (searchHHT hht (ehc_tag a) (ehc_index a))"

definition shift_in :: "u8 \<Rightarrow> u8 list option \<Rightarrow> u8 list" where
  "shift_in c h = (case h of None \<Rightarrow> [c, 0, 0, 0] | Some q \<Rightarrow> [c, q ! 0, q ! 1, q ! 2])"

lemma ehc_replaced_hist:
  assumes inv: "ehc_inv n s" and l: "l < n"
  shows "\<exists>s1. ehc_replaced s l = Some s1 \<and>
    ehc_hist (eh_HHT s1) (rm_lineAddr (eh_array s ! l)) = Some (shift_in (eh_CHC s ! l) (ehc_hist (eh_HHT s) (rm_lineAddr (eh_array s ! l))))"
proof -
  let ?a = "rm_lineAddr (eh_array s ! l)" and ?c = "eh_CHC s ! l"
  let ?i = "ehc_index ?a" and ?t = "ehc_tag ?a"
  let ?s0 = "s\<lparr>eh_array := (eh_array s)[l := (eh_array s ! l)\<lparr>rm_RPV := -1\<rparr>]\<rparr>"
  have len: "length (eh_array s) = n" "?i < length (eh_HHT s)" using inv by (auto simp: ehc_inv_def hht_ok_def)
  have c: "unat ?c \<le> 6" using inv l by (auto simp: ehc_inv_def list_all_length)
  have ok: "hht_set_ok (eh_HHT s ! ?i)" using inv len(2) by (auto simp: ehc_inv_def hht_ok_def list_all_length)
  show ?thesis
  proof (cases "searchHHT (eh_HHT s) ?t ?i")
    case None
    obtain ways v where w: "hht_set_insert (eh_HHT s ! ?i) ?t ?c = Some ways" "v < 16"
      "ways ! v = \<lparr>he_valid = True, he_tag = ucast ?t, he_lru = 0, he_queue = [?c, 0, 0, 0]\<rparr>"
      "\<forall>w<16. w \<noteq> v \<longrightarrow> ways ! w = (if he_valid (eh_HHT s ! ?i ! w)
         then (eh_HHT s ! ?i ! w)\<lparr>he_lru := he_lru (eh_HHT s ! ?i ! w) + 1\<rparr> else eh_HHT s ! ?i ! w)"
      using hht_set_insert_ok [of "eh_HHT s ! ?i" ?c ?t] ok c by auto
    let ?hht = "(eh_HHT s)[?i := ways]"
    have r: "ehc_replaced s l = Some (?s0\<lparr>eh_HHT := ?hht\<rparr>)"
      using l w(1) len None by (simp add: ehc_replaced_def updateHHT_def addHHTEntry_def)
    obtain w' where w': "searchHHT ?hht ?t ?i = Some w'"
      using searchHHT_ex [of v ?hht ?i ?t] w(2,3) len by auto
    have "w' = v"
    proof (rule ccontr)
      assume "w' \<noteq> v"
      with searchHHT_SomeD [OF w'] w(4) len
      have "he_valid (eh_HHT s ! ?i ! w')" "he_tag (eh_HHT s ! ?i ! w') = ucast ?t" "w' < 16"
        by (auto split: if_splits)
      with searchHHT_ex [of w' "eh_HHT s" ?i ?t] None show False by simp
    qed
    then show ?thesis using r w' w(3) len None by (simp add: ehc_hist_def shift_in_def)
  next
    case (Some way)
    let ?e = "eh_HHT s ! ?i ! way"
    let ?hht = "(eh_HHT s)[?i := (eh_HHT s ! ?i)[way := ?e\<lparr>he_queue := [?c, he_queue ?e ! 0, he_queue ?e ! 1, he_queue ?e ! 2]\<rparr>]]"
    have wl: "way < length (eh_HHT s ! ?i)" using searchHHT_SomeD [OF Some] ok by (simp add: hht_set_ok_def)
    have "(\<lambda>w. he_valid (?hht ! ?i ! w) \<and> he_tag (?hht ! ?i ! w) = ucast ?t) =
        (\<lambda>w. he_valid (eh_HHT s ! ?i ! w) \<and> he_tag (eh_HHT s ! ?i ! w) = ucast ?t)"
      using len(2) wl by (auto simp: fun_eq_iff nth_list_update)
    then have "searchHHT ?hht ?t ?i = Some way" using Some by (simp add: searchHHT_def)
    moreover have "ehc_replaced s l = Some (?s0\<lparr>eh_HHT := ?hht\<rparr>)"
      using l len Some by (simp add: ehc_replaced_def updateHHT_def Let_def)
    ultimately show ?thesis using Some len(2) wl by (simp add: ehc_hist_def shift_in_def)
  qed
qed

text \<open>C18. The history of a line survives its eviction. When the line in slot \<open>l\<close> is evicted after \<open>c\<close> hits since it was last
  counted, \<open>c\<close> is shifted into the counts of its entry in the history table, or a new entry with \<open>c\<close> and three zeros is made
  if it has none. When its address is brought in again, into whatever free slot, by a state of the policy in which the table
  still has that entry, the policy predicts the rounded average of the four counts as its further hits, and its RPV
  and hit counter start over. For a line without an entry before, this is \<open>(c + 2) div 4\<close>.\<close>

theorem ehc_evict_reinsert:
  assumes "ehc_inv n s" and "l < n" and "a = rm_lineAddr (eh_array s ! l)" and "c = eh_CHC s ! l"
  shows "\<exists>s1 q. ehc_replaced s l = Some s1 \<and> ehc_hist (eh_HHT s1) a = Some q \<and> q = shift_in c (ehc_hist (eh_HHT s) a) \<and>
    (\<forall>t l' req. ehc_inv n t \<longrightarrow> l' < n \<longrightarrow> mr_lineAddr req = a \<longrightarrow> rm_RPV (eh_array t ! l') = -1 \<longrightarrow> ehc_hist (eh_HHT t) a = Some q \<longrightarrow>
      (\<exists>t1. ehc_update t l' req = Some t1 \<and> eh_CHC t1 ! l' = 0 \<and> eh_array t1 ! l' = \<lparr>rm_RPV = 2, rm_lineAddr = a\<rparr> \<and>
        unat (eh_EFH t1 ! l') = (unat (q ! 0) + unat (q ! 1) + unat (q ! 2) + unat (q ! 3) + 2) div 4)) \<and>
    (ehc_hist (eh_HHT s) a = None \<longrightarrow> (unat (q ! 0) + unat (q ! 1) + unat (q ! 2) + unat (q ! 3) + 2) div 4 = (unat c + 2) div 4)"
proof -
  obtain s1 where s1: "ehc_replaced s l = Some s1" "ehc_hist (eh_HHT s1) a = Some (shift_in c (ehc_hist (eh_HHT s) a))"
    using ehc_replaced_hist [OF assms(1,2)] assms(3,4) by blast
  let ?q = "shift_in c (ehc_hist (eh_HHT s) a)"
  have upd: "\<exists>t1. ehc_update t l' req = Some t1 \<and> eh_CHC t1 ! l' = 0 \<and> eh_array t1 ! l' = \<lparr>rm_RPV = 2, rm_lineAddr = a\<rparr> \<and>
        unat (eh_EFH t1 ! l') = (unat (?q ! 0) + unat (?q ! 1) + unat (?q ! 2) + unat (?q ! 3) + 2) div 4"
    if t: "ehc_inv n t" "l' < n" "mr_lineAddr req = a" "rm_RPV (eh_array t ! l') = -1" "ehc_hist (eh_HHT t) a = Some ?q" for t l' req
  proof -
    obtain way where w: "searchHHT (eh_HHT t) (ehc_tag a) (ehc_index a) = Some way" "he_queue (eh_HHT t ! ehc_index a ! way) = ?q"
      using t(5) by (auto simp: ehc_hist_def)
    have i: "ehc_index a < length (eh_HHT t)" and len: "length (eh_array t) = n" "length (eh_CHC t) = n" "length (eh_EFH t) = n"
      using t(1) by (auto simp: ehc_inv_def hht_ok_def)
    have ok: "hht_set_ok (eh_HHT t ! ehc_index a)" using t(1) i by (auto simp: ehc_inv_def hht_ok_def list_all_length)
    then have "eh_HHT t ! ehc_index a ! way \<in> set (eh_HHT t ! ehc_index a)" using searchHHT_SomeD [OF w(1)] by (simp add: hht_set_ok_def)
    then have q: "length ?q = 4" "\<forall>x\<in>set ?q. unat x \<le> 7" using ok w(2) unfolding hht_set_ok_def by auto
    have "unat (?q ! i) \<le> 7" if "i < 4" for i using q that by (simp add: nth_mem)
    from this [of 0] this [of 1] this [of 2] this [of 3]
    have "(unat (?q ! 0) + unat (?q ! 1) + unat (?q ! 2) + unat (?q ! 3) + 2) div 4 < 2 ^ 8" by simp
    then have "unat (queue_average ?q) = (unat (?q ! 0) + unat (?q ! 1) + unat (?q ! 2) + unat (?q ! 3) + 2) div 4"
      unfolding queue_average_def by (simp add: unsigned_of_nat take_bit_nat_eq_self)
    then show ?thesis using t(2,3,4) w len by (simp add: ehc_update_def Let_def)
  qed
  have new: "(unat (?q ! 0) + unat (?q ! 1) + unat (?q ! 2) + unat (?q ! 3) + 2) div 4 = (unat c + 2) div 4"
    if "ehc_hist (eh_HHT s) a = None" using that by (simp add: shift_in_def)
  show ?thesis
    by (rule exI [of _ s1], rule exI [of _ ?q], intro conjI allI impI) (rule s1(1), rule s1(2), rule refl, rule upd, assumption+, rule new)
qed

text \<open>A line that is evicted after 6 hits and comes back.\<close>

theorem ehc_evict_reinsert_witness:
  "\<exists>s1 t1. ehc_replaced ((ehc_new 3 2)\<lparr>eh_CHC := [0, 6]\<rparr>) 1 = Some s1 \<and> ehc_update s1 1 (read_req 0) = Some t1 \<and>
    unat (eh_EFH t1 ! 1) = 2"
proof -
  let ?s = "(ehc_new 3 2)\<lparr>eh_CHC := [0, 6]\<rparr>"
  have inv: "ehc_inv 2 ?s" using ehc_inv_new [of 2] by (simp add: ehc_inv_def)
  have a: "rm_lineAddr (eh_array ?s ! 1) = 0" "eh_CHC ?s ! 1 = 6" by (simp_all add: ehc_new_def)
  have "searchHHT (eh_HHT ?s) (ehc_tag 0) (ehc_index 0) = None"
    by (simp add: searchHHT_def ehc_new_def ehc_index_def hht_empty_def find_None_iff_all)
  then have "ehc_hist (eh_HHT ?s) 0 = None" by (simp add: ehc_hist_def)
  then obtain s1 q where r: "ehc_replaced ?s 1 = Some s1" "ehc_hist (eh_HHT s1) 0 = Some q" "q = [6, 0, 0, 0]"
    "\<forall>t l' req. ehc_inv 2 t \<longrightarrow> l' < 2 \<longrightarrow> mr_lineAddr req = 0 \<longrightarrow> rm_RPV (eh_array t ! l') = -1 \<longrightarrow> ehc_hist (eh_HHT t) 0 = Some q \<longrightarrow>
      (\<exists>t1. ehc_update t l' req = Some t1 \<and> eh_CHC t1 ! l' = 0 \<and> eh_array t1 ! l' = \<lparr>rm_RPV = 2, rm_lineAddr = 0\<rparr> \<and>
        unat (eh_EFH t1 ! l') = (unat (q ! 0) + unat (q ! 1) + unat (q ! 2) + unat (q ! 3) + 2) div 4)"
    using ehc_evict_reinsert [OF inv _ refl refl, of 1, unfolded a] by (auto simp: shift_in_def)
  have "ehc_inv 2 s1" using ehc_replaced_ok [OF inv, of 1] r(1) by auto
  moreover have "rm_RPV (eh_array s1 ! 1) = -1"
    using r(1) by (auto simp: ehc_replaced_def updateHHT_def addHHTEntry_def Let_def ehc_new_def split: option.splits)
  ultimately show ?thesis using r(4) [rule_format, of s1 1 "read_req 0"] r(1-3) by (auto simp: read_req_def)
qed

text \<open>The recency of a full set of the history table is an insertion order: a new entry
  replaces exactly the one whose recency is 15, and every other entry keeps its tag and history.
  A hit in the table does not touch the recency, so the policy of the table is FIFO.\<close>

theorem hht_evicts_oldest:
  assumes "hht_set_ok ways" and "\<forall>e\<in>set ways. he_valid e" and "w < 16" and "he_lru (ways ! w) = 15"
    and "unat count \<le> 7"
  shows "\<exists>ways'. hht_set_insert ways tag count = Some ways' \<and> hht_set_ok ways' \<and>
    he_tag (ways' ! w) = ucast tag \<and> he_queue (ways' ! w) = [count, 0, 0, 0] \<and>
    (\<forall>u<16. u \<noteq> w \<longrightarrow> ways' ! u = (ways ! u)\<lparr>he_lru := he_lru (ways ! u) + 1\<rparr>)"
proof -
  obtain ways' v where v: "hht_set_insert ways tag count = Some ways'" "hht_set_ok ways'" "v < 16"
    "\<not> he_valid (ways ! v) \<or> ((\<forall>e\<in>set ways. he_valid e) \<and> recency ways v = 15)"
    "ways' ! v = \<lparr>he_valid = True, he_tag = ucast tag, he_lru = 0, he_queue = [count, 0, 0, 0]\<rparr>"
    "\<forall>w<16. w \<noteq> v \<longrightarrow> ways' ! w =
      (if he_valid (ways ! w) then (ways ! w)\<lparr>he_lru := he_lru (ways ! w) + 1\<rparr> else ways ! w)"
    using hht_set_insert_ok [OF assms(1,5), of tag] by blast
  have len: "length ways = 16" using assms(1) by (simp add: hht_set_ok_def)
  have valid: "he_valid (ways ! u)" if "u < 16" for u using assms(2) that len by simp
  have "recency ways w = 15" using assms(4) by (simp add: recency_def)
  moreover have "recency ways v = 15" using v(3,4) valid by auto
  moreover have "inj_on (recency ways) {..<16}"
    using assms(1) hht_full_image(1) [OF assms(1,2)] by (simp add: hht_set_ok_def)
  ultimately have "v = w" using v(3) assms(3) by (auto simp: inj_on_def)
  with v(1,2,5,6) valid show ?thesis by (intro exI [of _ ways']) simp
qed

definition hht_full_example :: "hht_entry list" where
  "hht_full_example = map (\<lambda>i. \<lparr>he_valid = True, he_tag = of_nat i, he_lru = of_nat i, he_queue = [1, 2, 0, 0]\<rparr>) [0..<16]"

theorem hht_evicts_oldest_witness:
  "\<exists>ways'. hht_set_insert hht_full_example 99 5 = Some ways' \<and> he_tag (ways' ! 15) = 99"
proof -
  have nth: "hht_full_example ! w = \<lparr>he_valid = True, he_tag = of_nat w, he_lru = of_nat w, he_queue = [1, 2, 0, 0]\<rparr>"
    if "w < 16" for w using that by (simp add: hht_full_example_def)
  have len: "length hht_full_example = 16" by (simp add: hht_full_example_def)
  have V: "valid_ways hht_full_example = {..<16}" using nth len by (auto simp: valid_ways_def)
  have r: "recency hht_full_example w = w" if "w < 16" for w
    using that nth by (simp add: recency_def unsigned_of_nat take_bit_nat_eq_self)
  have "hht_set_ok hht_full_example"
    using len r by (simp add: hht_set_ok_def V inj_on_def) (simp add: hht_full_example_def)
  moreover have "\<forall>e\<in>set hht_full_example. he_valid e" by (simp add: hht_full_example_def)
  ultimately show ?thesis
    using hht_evicts_oldest [of hht_full_example 15 5 99] nth [of 15] by auto
qed

end
