(* ===== verification/Repl_LRU.thy ===== *)
theory Repl_LRU
  imports Repl_Interface
begin

text \<open>
  The timestamp policies of \<^verbatim>\<open>zsim/src/repl_policies.h\<close>: \<open>LRUReplPolicy\<close> (plain and
  sharers-aware), \<open>TreeLRUReplPolicy\<close> and the profiling wrapper
  \<open>ProfViolReplPolicy\<close> around it. Timestamps and scores are 64-bit words; the local
  variable \<open>s\<close> of \<open>rank\<close> is a 32-bit word, as in the code.
\<close>

section \<open>LRU\<close>

record lru =
  lru_timestamp :: u64
  lru_array :: "u64 list"
  lru_numLines :: nat

definition lru_new :: "nat \<Rightarrow> lru" where
  "lru_new numLines =
     \<lparr>lru_timestamp = 1, lru_array = replicate numLines 0, lru_numLines = numLines\<rparr>"

definition lru_update :: "lru \<Rightarrow> nat \<Rightarrow> memreq \<Rightarrow> lru" where
  "lru_update s l req =
     s\<lparr>lru_array := (lru_array s)[l := lru_timestamp s], lru_timestamp := lru_timestamp s + 1\<rparr>"

definition lru_replaced :: "lru \<Rightarrow> nat \<Rightarrow> lru" where
  "lru_replaced s l = s\<lparr>lru_array := (lru_array s)[l := 0]\<rparr>"

definition lru_score :: "bool \<Rightarrow> cc_view \<Rightarrow> lru \<Rightarrow> nat \<Rightarrow> u64" where
  "lru_score sharersAware cc s l =
     (if sharersAware then ucast (cv_numSharers cc l) else 0) * lru_timestamp s +
     lru_array s ! l * (if cv_isValid cc l then 1 else 0)"

text \<open>The loop of \<open>rank\<close>, over the 64-bit score function; \<open>best\<close> is \<open>None\<close> for the initial
  \<open>-1\<close>, which no candidate equals.\<close>

fun lru_scan :: "(nat \<Rightarrow> u64) \<Rightarrow> nat list \<Rightarrow> nat option \<Rightarrow> u64 \<Rightarrow> nat option" where
  "lru_scan score [] bestCand bestScore = bestCand"
| "lru_scan score (c # cs) bestCand bestScore =
     (let s = (ucast (score c) :: u32)
      in lru_scan score cs (if ucast s < bestScore then Some c else bestCand) (min (ucast s) bestScore))"

definition lru_rank :: "bool \<Rightarrow> cc_view \<Rightarrow> lru \<Rightarrow> memreq \<Rightarrow> nat list \<Rightarrow> (lru \<times> nat) option" where
  "lru_rank sharersAware cc s req cands =
     map_option (Pair s) (lru_scan (lru_score sharersAware cc s) cands None (- 1))"

definition lru_ops :: "bool \<Rightarrow> lru rp_ops" where
  "lru_ops sharersAware =
     \<lparr>rp_update = (\<lambda>s l req. Some (lru_update s l req)),
      rp_replaced = (\<lambda>s l. Some (lru_replaced s l)),
      rp_rank = lru_rank sharersAware\<rparr>"

definition lru_inv :: "nat \<Rightarrow> lru \<Rightarrow> bool" where
  "lru_inv n s \<longleftrightarrow> lru_numLines s = n \<and> length (lru_array s) = n"

lemma lru_inv_new [simp]: "lru_inv n (lru_new n)"
  by (simp add: lru_inv_def lru_new_def)

subsection \<open>The scan\<close>

text \<open>The score that the loop compares is the 64-bit score cut to 32 bits.\<close>

definition cut32 :: "u64 \<Rightarrow> nat" where
  "cut32 x = unat x mod 2 ^ 32"

lemma unat_cut: "unat (ucast (ucast x :: u32) :: u64) = cut32 x"
  by (simp add: cut32_def unsigned_ucast_eq take_bit_eq_mod unsigned_take_bit_eq unat_mod)

lemma cut32_le: "cut32 x < 2 ^ 32"
  by (simp add: cut32_def)

lemma cut32_id: "unat x < 2 ^ 32 \<Longrightarrow> cut32 x = unat x"
  by (simp add: cut32_def)

lemma lru_scan_spec:
  "\<exists>v. lru_scan score cs b bs = v \<and>
     ((v = b \<and> (\<forall>c\<in>set cs. unat bs \<le> cut32 (score c))) \<or>
      (\<exists>ys w zs. v = Some w \<and> cs = ys @ w # zs \<and> cut32 (score w) < unat bs \<and>
        (\<forall>c\<in>set ys. cut32 (score w) < cut32 (score c)) \<and> (\<forall>c\<in>set zs. cut32 (score w) \<le> cut32 (score c))))"
proof (induction cs arbitrary: b bs)
  case Nil
  then show ?case by simp
next
  case (Cons c cs)
  let ?s = "ucast (ucast (score c) :: u32) :: u64"
  let ?R = "\<lambda>v b bs cs. (v = b \<and> (\<forall>c\<in>set cs. unat bs \<le> cut32 (score c))) \<or>
      (\<exists>ys w zs. v = Some w \<and> cs = ys @ w # zs \<and> cut32 (score w) < unat bs \<and>
        (\<forall>c\<in>set ys. cut32 (score w) < cut32 (score c)) \<and> (\<forall>c\<in>set zs. cut32 (score w) \<le> cut32 (score c)))"
  have cut: "unat ?s = cut32 (score c)" by (rule unat_cut)
  show ?case
  proof (cases "?s < bs")
    case True
    then have lt: "cut32 (score c) < unat bs" using cut by (simp add: word_less_nat_alt)
    have step: "lru_scan score (c # cs) b bs = lru_scan score cs (Some c) ?s"
      using True by (simp add: min_def Let_def less_imp_le)
    from Cons.IH [of "Some c" ?s] have "?R (lru_scan score cs (Some c) ?s) (Some c) ?s cs" by simp
    then consider "lru_scan score cs (Some c) ?s = Some c" "\<forall>d\<in>set cs. cut32 (score c) \<le> cut32 (score d)"
      | ys w zs where "lru_scan score cs (Some c) ?s = Some w" "cs = ys @ w # zs" "cut32 (score w) < cut32 (score c)"
        "\<forall>c\<in>set ys. cut32 (score w) < cut32 (score c)" "\<forall>c\<in>set zs. cut32 (score w) \<le> cut32 (score c)"
      unfolding cut by blast
    then show ?thesis
    proof cases
      case 1
      then have "lru_scan score (c # cs) b bs = Some c \<and> c # cs = [] @ c # cs \<and>
        (\<forall>d\<in>set cs. cut32 (score c) \<le> cut32 (score d))" using step by simp
      with lt show ?thesis by (metis empty_iff list.set(1))
    next
      case 2
      then have "lru_scan score (c # cs) b bs = Some w \<and> c # cs = (c # ys) @ w # zs \<and> cut32 (score w) < unat bs \<and>
        (\<forall>d\<in>set (c # ys). cut32 (score w) < cut32 (score d)) \<and> (\<forall>d\<in>set zs. cut32 (score w) \<le> cut32 (score d))"
        using step lt by simp
      then show ?thesis by blast
    qed
  next
    case False
    then have ge: "unat bs \<le> cut32 (score c)" using cut by (simp add: word_less_nat_alt)
    have step: "lru_scan score (c # cs) b bs = lru_scan score cs b bs"
      using False by (auto simp: min_def Let_def not_less intro: antisym)
    from Cons.IH [of b bs] have "?R (lru_scan score cs b bs) b bs cs" by simp
    then consider "lru_scan score cs b bs = b" "\<forall>d\<in>set cs. unat bs \<le> cut32 (score d)"
      | ys w zs where "lru_scan score cs b bs = Some w" "cs = ys @ w # zs" "cut32 (score w) < unat bs"
        "\<forall>c\<in>set ys. cut32 (score w) < cut32 (score c)" "\<forall>c\<in>set zs. cut32 (score w) \<le> cut32 (score c)"
      by blast
    then show ?thesis
    proof cases
      case 1
      with step ge show ?thesis by auto
    next
      case 2
      then have "lru_scan score (c # cs) b bs = Some w \<and> c # cs = (c # ys) @ w # zs \<and> cut32 (score w) < unat bs \<and>
        (\<forall>d\<in>set (c # ys). cut32 (score w) < cut32 (score d)) \<and> (\<forall>d\<in>set zs. cut32 (score w) \<le> cut32 (score d))"
        using step ge by auto
      then show ?thesis by blast
    qed
  qed
qed

lemma lru_rank_ex:
  assumes "cands \<noteq> []"
  shows "\<exists>v. lru_rank aw cc s req cands = Some (s, v) \<and> v \<in> set cands \<and>
    (\<forall>c\<in>set cands. cut32 (lru_score aw cc s v) \<le> cut32 (lru_score aw cc s c))"
proof -
  let ?sc = "lru_score aw cc s"
  have "\<not> (\<forall>c\<in>set cands. unat (- 1 :: u64) \<le> cut32 (?sc c))"
  proof
    assume "\<forall>c\<in>set cands. unat (- 1 :: u64) \<le> cut32 (?sc c)"
    with assms have "unat (- 1 :: u64) \<le> cut32 (?sc (hd cands))" by simp
    then show False using cut32_le [of "?sc (hd cands)"] by (simp add: unsigned_minus_1_eq_mask mask_eq_exp_minus_1)
  qed
  with lru_scan_spec [of ?sc cands None "- 1"] obtain ys w zs where
    "lru_scan ?sc cands None (- 1) = Some w" "cands = ys @ w # zs"
    "\<forall>c\<in>set ys. cut32 (?sc w) < cut32 (?sc c)" "\<forall>c\<in>set zs. cut32 (?sc w) \<le> cut32 (?sc c)" by auto
  then show ?thesis by (intro exI [of _ w]) (auto simp: lru_rank_def)
qed

interpretation lru: repl_policy "lru_ops aw" "lru_inv n" "\<lambda>s v. lru_inv n s \<and> v < n" n "\<lambda>cands. cands \<noteq> []"
  for aw n
proof unfold_locales
  fix s cands cv req s' v
  assume "lru_inv n s" "cands \<noteq> []" and sub: "set cands \<subseteq> {..<n}"
  with lru_rank_ex [of cands aw cv s req] obtain w where
    r: "lru_rank aw cv s req cands = Some (s, w)" "w \<in> set cands" by blast
  then show "rp_rank (lru_ops aw) cv s req cands \<noteq> None" by (simp add: lru_ops_def)
  show "v \<in> set cands \<and> lru_inv n s' \<and> v < n" if "rp_rank (lru_ops aw) cv s req cands = Some (s', v)"
    using that r sub \<open>lru_inv n s\<close> by (auto simp: lru_ops_def)
qed (auto simp: lru_ops_def lru_inv_def lru_update_def lru_replaced_def)

section \<open>TreeLRU\<close>

text \<open>
  \<open>TreeLRUReplPolicy\<close> adds an array of recorded candidates and a search of it by halves, but it
  inherits \<open>update\<close> and \<open>rankCands\<close> from the sharers-aware LRU, and that \<open>rankCands\<close> calls neither
  \<open>recordCandidate\<close> nor \<open>getBestCandidate\<close>. The two are modelled as they stand.
\<close>

record treelru =
  tl_lru :: lru
  tl_candArray :: "nat list"
  tl_numCands :: nat
  tl_candIdx :: nat

definition treelru_new :: "nat \<Rightarrow> u32 \<Rightarrow> treelru option" where
  "treelru_new numLines numCands =
     (if numCands AND (numCands - 1) \<noteq> 0 then None
      else Some \<lparr>tl_lru = lru_new numLines, tl_candArray = replicate (unat numCands) 0,
                tl_numCands = unat numCands, tl_candIdx = 0\<rparr>)"

definition treelru_recordCandidate :: "treelru \<Rightarrow> nat \<Rightarrow> treelru option" where
  "treelru_recordCandidate s l =
     (if tl_candIdx s < length (tl_candArray s)
      then Some (s\<lparr>tl_candArray := (tl_candArray s)[tl_candIdx s := l], tl_candIdx := tl_candIdx s + 1\<rparr>)
      else None)"

definition max_stamp :: "u64 list \<Rightarrow> nat list \<Rightarrow> nat \<Rightarrow> nat \<Rightarrow> u64" where
  "max_stamp arr cand b e = fold (\<lambda>i t. max t (arr ! (cand ! i))) [b..<e] 0"

function treelru_pick :: "u64 list \<Rightarrow> nat list \<Rightarrow> nat \<Rightarrow> nat \<Rightarrow> nat" where
  "treelru_pick arr cand b e =
     (if e - b > 1 then
        (let pivot = b + (e - b) div 2
         in if max_stamp arr cand b pivot > max_stamp arr cand pivot e
            then treelru_pick arr cand pivot e else treelru_pick arr cand b pivot)
      else b)"
  by auto
termination by (relation "measure (\<lambda>(arr, cand, b, e). e - b)") auto

declare treelru_pick.simps [simp del]

definition treelru_getBestCandidate :: "treelru \<Rightarrow> nat option" where
  "treelru_getBestCandidate s =
     (if tl_candIdx s = tl_numCands s
      then Some (tl_candArray s ! treelru_pick (lru_array (tl_lru s)) (tl_candArray s) 0 (tl_numCands s))
      else None)"

definition treelru_replaced :: "treelru \<Rightarrow> nat \<Rightarrow> treelru" where
  "treelru_replaced s l = s\<lparr>tl_candIdx := 0, tl_lru := lru_replaced (tl_lru s) l\<rparr>"

definition treelru_ops :: "treelru rp_ops" where
  "treelru_ops =
     \<lparr>rp_update = (\<lambda>s l req. Some (s\<lparr>tl_lru := lru_update (tl_lru s) l req\<rparr>)),
      rp_replaced = (\<lambda>s l. Some (treelru_replaced s l)),
      rp_rank = (\<lambda>cc s req cands. map_option (\<lambda>(t, v). (s\<lparr>tl_lru := t\<rparr>, v)) (lru_rank True cc (tl_lru s) req cands))\<rparr>"

interpretation treelru: repl_policy treelru_ops "\<lambda>s :: treelru. lru_inv n (tl_lru s)"
  "\<lambda>(s :: treelru) v. lru_inv n (tl_lru s) \<and> v < n" n "\<lambda>cands. cands \<noteq> []"
  for n
proof unfold_locales
  fix s :: treelru and cands cv req s' v
  assume "lru_inv n (tl_lru s)" "cands \<noteq> []" and sub: "set cands \<subseteq> {..<n}"
  with lru_rank_ex [of cands True cv "tl_lru s" req] obtain w where
    r: "lru_rank True cv (tl_lru s) req cands = Some (tl_lru s, w)" "w \<in> set cands" by blast
  then show "rp_rank treelru_ops cv s req cands \<noteq> None" by (simp add: treelru_ops_def)
  show "v \<in> set cands \<and> lru_inv n (tl_lru s') \<and> v < n" if "rp_rank treelru_ops cv s req cands = Some (s', v)"
    using that r sub \<open>lru_inv n (tl_lru s)\<close> by (auto simp: treelru_ops_def)
qed (auto simp: treelru_ops_def treelru_replaced_def lru_inv_def lru_update_def lru_replaced_def)

text \<open>The search by halves stays in its interval and drops the half that holds the newest stamp.\<close>

lemma treelru_pick_range: "b < e \<Longrightarrow> b \<le> treelru_pick arr cand b e \<and> treelru_pick arr cand b e < e"
proof (induction arr cand b e rule: treelru_pick.induct)
  case (1 arr cand b e)
  let ?p = "b + (e - b) div 2"
  show ?case
  proof (cases "e - b > 1")
    case True
    then have p: "b < ?p" "?p < e" by auto
    from "1.IH"(1) [OF True refl _ p(2)] "1.IH"(2) [OF True refl _ p(1)] p show ?thesis
      by (subst (1 2) treelru_pick.simps) (auto simp: Let_def True)
  next
    case False
    with "1.prems" show ?thesis by (subst (1 2) treelru_pick.simps) auto
  qed
qed

lemma max_stamp_eq: "max_stamp arr cand b e = Max (insert 0 ((\<lambda>i. arr ! (cand ! i)) ` {b..<e}))"
proof -
  have "max_stamp arr cand b e = fold max (map (\<lambda>i. arr ! (cand ! i)) [b..<e]) 0"
  proof -
    have "(\<lambda>i t. max t (arr ! (cand ! i))) = (\<lambda>i. max (arr ! (cand ! i)))" by (intro ext) (rule max.commute)
    then show ?thesis by (simp only: max_stamp_def fold_map comp_def)
  qed
  also have "\<dots> = Max (set (0 # map (\<lambda>i. arr ! (cand ! i)) [b..<e]))" by (rule Max.set_eq_fold [symmetric])
  finally show ?thesis by simp
qed

section \<open>Profiling of access order violations\<close>

text \<open>\<open>ProfViolReplPolicy<LRUReplPolicy>\<close>. Its \<open>startReplacement\<close> hides a member that LRU does
  not have and that its \<open>rank\<close> does not call, so \<open>replCycle\<close> keeps the 0 of \<open>init\<close>.\<close>

record viol_prof =
  vRAW :: nat
  vWAR :: nat
  vRAR :: nat
  vWAW :: nat
  vNoViolAcc :: nat
  vAAE :: nat
  vNoViolEv :: nat

record profviol =
  pv_base :: lru
  pv_read :: "nat list"
  pv_write :: "nat list"
  pv_prof :: viol_prof
  pv_replCycle :: nat

definition profviol_new :: "nat \<Rightarrow> profviol" where
  "profviol_new numLines =
     \<lparr>pv_base = lru_new numLines, pv_read = replicate numLines 0, pv_write = replicate numLines 0,
      pv_prof = \<lparr>vRAW = 0, vWAR = 0, vRAR = 0, vWAW = 0, vNoViolAcc = 0, vAAE = 0, vNoViolEv = 0\<rparr>,
      pv_replCycle = 0\<rparr>"

definition viol_count :: "bool \<Rightarrow> nat \<Rightarrow> nat \<Rightarrow> nat \<Rightarrow> viol_prof \<Rightarrow> viol_prof option" where
  "viol_count is_read cycle r w p =
     (if cycle < max r w then
        Option.bind
          (if cycle < min r w then Some (r < w)
           else if cycle < r then Some True
           else if cycle < w then Some False else None)
          (\<lambda>readViol. Some
            (if is_read then (if readViol then p\<lparr>vRAR := vRAR p + 1\<rparr> else p\<lparr>vRAW := vRAW p + 1\<rparr>)
             else (if readViol then p\<lparr>vWAR := vWAR p + 1\<rparr> else p\<lparr>vWAW := vWAW p + 1\<rparr>)))
      else Some (p\<lparr>vNoViolAcc := vNoViolAcc p + 1\<rparr>))"

definition profviol_update :: "profviol \<Rightarrow> nat \<Rightarrow> memreq \<Rightarrow> profviol option" where
  "profviol_update s l req =
     (let is_read = (mr_type req = GETS); cycle = mr_cycle req; base1 = lru_update (pv_base s) l req in
      Option.bind (guard (is_read \<or> mr_type req = GETX)) (\<lambda>_.
      Option.bind (viol_count is_read cycle (pv_read s ! l) (pv_write s ! l) (pv_prof s)) (\<lambda>p.
      Some (s\<lparr>pv_prof := p,
              pv_read := (if is_read then (pv_read s)[l := max (pv_read s ! l) cycle] else pv_read s),
              pv_write := (if is_read then pv_write s else (pv_write s)[l := max (pv_write s ! l) cycle]),
              pv_base := lru_update base1 l req\<rparr>))))"

definition profviol_replaced :: "profviol \<Rightarrow> nat \<Rightarrow> profviol" where
  "profviol_replaced s l =
     (let p = pv_prof s in
      s\<lparr>pv_base := lru_replaced (pv_base s) l,
        pv_prof := (if pv_replCycle s < max (pv_read s ! l) (pv_write s ! l)
                    then p\<lparr>vAAE := vAAE p + 1\<rparr> else p\<lparr>vNoViolEv := vNoViolEv p + 1\<rparr>),
        pv_read := (pv_read s)[l := 0], pv_write := (pv_write s)[l := 0]\<rparr>)"

definition viol_accesses :: "viol_prof \<Rightarrow> nat" where
  "viol_accesses p = vRAW p + vWAR p + vRAR p + vWAW p + vNoViolAcc p"

lemma viol_count_one:
  "\<exists>p'. viol_count rd c r w p = Some p' \<and> viol_accesses p' = viol_accesses p + 1 \<and>
     vAAE p' = vAAE p \<and> vNoViolEv p' = vNoViolEv p"
  by (auto simp: viol_count_def viol_accesses_def)

section \<open>Properties\<close>

text \<open>The position of the last touch of a line in a trace of accesses, most recent first:
  0 when it was never touched, and larger for later touches.\<close>

fun last_touch :: "nat list \<Rightarrow> nat \<Rightarrow> nat" where
  "last_touch [] l = 0"
| "last_touch (u # us) l = (if u = l then Suc (length us) else last_touch us l)"

lemma last_touch_le: "last_touch us l \<le> length us"
  by (induction us) auto

definition lru_after :: "nat \<Rightarrow> (nat \<times> memreq) list \<Rightarrow> lru" where
  "lru_after n us = foldr (\<lambda>(l, req) s. lru_update s l req) us (lru_new n)"

lemma lru_after_state:
  assumes "fst ` set us \<subseteq> {..<n}"
  shows "lru_timestamp (lru_after n us) = of_nat (Suc (length us)) \<and>
    lru_inv n (lru_after n us) \<and>
    (\<forall>l<n. lru_array (lru_after n us) ! l = of_nat (last_touch (map fst us) l))"
  using assms
proof (induction us)
  case Nil
  then show ?case by (simp add: lru_after_def lru_new_def lru_inv_def)
next
  case (Cons u us)
  obtain l req where u: "u = (l, req)" by (cases u)
  have step: "lru_after n (u # us) = lru_update (lru_after n us) l req" by (simp add: lru_after_def u)
  from Cons show ?case
    unfolding step by (auto simp: u lru_update_def lru_inv_def nth_list_update)
qed

text \<open>C20. Plain LRU evicts the least recently used line: after any trace of fewer than 2^32 - 1
  accesses, the victim among valid candidates is one whose last access is the oldest.\<close>

theorem lru_evicts_oldest:
  assumes "fst ` set us \<subseteq> {..<n}" and "length us < 2 ^ 32 - 1"
    and "cands \<noteq> []" and "set cands \<subseteq> {..<n}" and "\<forall>c\<in>set cands. cv_isValid cc c"
  shows "\<exists>v. lru_rank False cc (lru_after n us) req cands = Some (lru_after n us, v) \<and> v \<in> set cands \<and>
    (\<forall>c\<in>set cands. last_touch (map fst us) v \<le> last_touch (map fst us) c)"
proof -
  have sc: "cut32 (lru_score False cc (lru_after n us) c) = last_touch (map fst us) c" if "c \<in> set cands" for c
  proof -
    have "c < n" "cv_isValid cc c" using that assms by auto
    then have "lru_score False cc (lru_after n us) c = of_nat (last_touch (map fst us) c)"
      using lru_after_state [OF assms(1)] by (simp add: lru_score_def)
    moreover have "last_touch (map fst us) c < 2 ^ 32"
      using last_touch_le [of "map fst us" c] assms(2) by simp
    ultimately show ?thesis by (simp add: cut32_def unat_of_nat_u64)
  qed
  from lru_rank_ex [OF assms(3), of False cc "lru_after n us" req] show ?thesis
    using sc by auto
qed

theorem lru_evicts_oldest_witness:
  "\<exists>v. lru_rank False \<lparr>cv_numSharers = \<lambda>_. 0, cv_isValid = \<lambda>_. True\<rparr>
      (lru_after 3 [(0, read_req 1), (2, read_req 2), (1, read_req 3)]) (read_req 9) [0, 1, 2] =
    Some (lru_after 3 [(0, read_req 1), (2, read_req 2), (1, read_req 3)], v) \<and> v = 1"
proof -
  let ?us = "[(0, read_req 1), (2, read_req 2), (1::nat, read_req 3)]"
  let ?cc = "\<lparr>cv_numSharers = \<lambda>_. 0, cv_isValid = \<lambda>_. True\<rparr>"
  obtain v where "lru_rank False ?cc (lru_after 3 ?us) (read_req 9) [0, 1, 2] = Some (lru_after 3 ?us, v)"
    "v \<in> {0, 1, 2}" "\<forall>c\<in>{0, 1, 2}. last_touch [0, 2, 1] v \<le> last_touch [0, 2, 1] c"
    using lru_evicts_oldest [of ?us 3 "[0, 1, 2]" ?cc "read_req 9"] by auto
  then show ?thesis by auto
qed

text \<open>Sharers-aware LRU puts sharing before age: as long as the scores fit in 32 bits, the
  victim has the fewest sharers of the candidates, and among those it is the oldest, an invalid
  line counting as never used.\<close>

theorem lru_sharers_first:
  assumes "cands \<noteq> []" and "\<forall>c\<in>set cands. unat (lru_array s ! c) < unat (lru_timestamp s)"
    and "\<forall>c\<in>set cands. (unat (cv_numSharers cc c) + 1) * unat (lru_timestamp s) \<le> 2 ^ 32"
  shows "\<exists>v. lru_rank True cc s req cands = Some (s, v) \<and> v \<in> set cands \<and>
    (\<forall>c\<in>set cands. cv_numSharers cc v \<le> cv_numSharers cc c) \<and>
    (\<forall>c\<in>set cands. cv_numSharers cc c = cv_numSharers cc v \<longrightarrow>
       (if cv_isValid cc v then unat (lru_array s ! v) else 0) \<le>
       (if cv_isValid cc c then unat (lru_array s ! c) else 0))"
proof -
  let ?T = "unat (lru_timestamp s)" and ?n = "\<lambda>c. unat (cv_numSharers cc c)"
    and ?a = "\<lambda>c. if cv_isValid cc c then unat (lru_array s ! c) else 0"
  have sc: "cut32 (lru_score True cc s c) = ?n c * ?T + ?a c" and a: "?a c < ?T" if "c \<in> set cands" for c
  proof -
    show "?a c < ?T" using that assms(2) by auto
    then have b: "?n c * ?T + ?a c < 2 ^ 32" using that assms(3) by fastforce
    have "lru_score True cc s c = of_nat (?n c * ?T + ?a c)"
      by (simp add: lru_score_def)
    with b show "cut32 (lru_score True cc s c) = ?n c * ?T + ?a c"
      by (simp only: cut32_def) (subst unat_of_nat_u64, simp_all)
  qed
  obtain v where v: "lru_rank True cc s req cands = Some (s, v)" "v \<in> set cands"
    "\<forall>c\<in>set cands. cut32 (lru_score True cc s v) \<le> cut32 (lru_score True cc s c)"
    using lru_rank_ex [OF assms(1)] by blast
  have le: "?n v * ?T + ?a v \<le> ?n c * ?T + ?a c" if "c \<in> set cands" for c
    using v(2,3) sc that by force
  have "?n v \<le> ?n c" if c: "c \<in> set cands" for c
  proof (rule ccontr)
    assume "\<not> ?n v \<le> ?n c"
    then have "(?n c + 1) * ?T \<le> ?n v * ?T" by (intro mult_right_mono) auto
    with le [OF c] a [OF c] show False by simp
  qed
  moreover have "?a v \<le> ?a c" if "c \<in> set cands" "cv_numSharers cc c = cv_numSharers cc v" for c
    using le [OF that(1)] that(2) by simp
  ultimately show ?thesis using v(1,2) by (auto simp: word_le_nat_alt)
qed

theorem lru_sharers_first_witness:
  "\<exists>v. lru_rank True \<lparr>cv_numSharers = \<lambda>c. if c = 1 then 0 else 2, cv_isValid = \<lambda>_. True\<rparr>
     \<lparr>lru_timestamp = 10, lru_array = [3, 9, 5], lru_numLines = 3\<rparr> (read_req 0) [0, 1, 2] =
     Some (\<lparr>lru_timestamp = 10, lru_array = [3, 9, 5], lru_numLines = 3\<rparr>, v) \<and> v = 1"
proof -
  let ?cc = "\<lparr>cv_numSharers = \<lambda>c::nat. if c = 1 then 0 else 2, cv_isValid = \<lambda>_. True\<rparr>"
  let ?s = "\<lparr>lru_timestamp = 10, lru_array = [3, 9, 5], lru_numLines = 3\<rparr>"
  obtain v where "lru_rank True ?cc ?s (read_req 0) [0, 1, 2] = Some (?s, v)" "v \<in> {0, 1, 2}"
    "\<forall>c\<in>{0, 1, 2}. cv_numSharers ?cc v \<le> cv_numSharers ?cc c"
    using lru_sharers_first [of "[0, 1, 2]" ?s ?cc "read_req 0"] by auto
  then show ?thesis by (auto split: if_splits)
qed

text \<open>C21. The 32-bit local variable of \<open>rank\<close> cuts the 64-bit score, so that plain LRU orders timestamps modulo \<open>2 ^ 32\<close>.
  Whatever the state and the valid candidates: a line that is touched when the policy's timestamp is a multiple of
  \<open>2 ^ 32\<close> is the next victim among candidates that were all touched before it, at timestamps that are not.\<close>

theorem lru_evicts_newest_past_32_bits:
  assumes "l \<in> set cands" and "l < length (lru_array s)" and "\<forall>c\<in>set cands. cv_isValid cc c"
    and "unat (lru_timestamp s) mod 2 ^ 32 = 0"
    and "\<forall>c\<in>set cands. c \<noteq> l \<longrightarrow> lru_array s ! c < lru_timestamp s \<and> unat (lru_array s ! c) mod 2 ^ 32 \<noteq> 0"
  shows "lru_rank False cc (lru_update s l r) req cands = Some (lru_update s l r, l) \<and>
    (\<forall>c\<in>set cands. c \<noteq> l \<longrightarrow> lru_array (lru_update s l r) ! c < lru_array (lru_update s l r) ! l)"
proof -
  let ?s = "lru_update s l r"
  have sc: "cut32 (lru_score False cc ?s c) = unat (lru_array ?s ! c) mod 2 ^ 32" if "c \<in> set cands" for c
    using assms(3) that by (simp add: lru_score_def cut32_def)
  have new: "unat (lru_array ?s ! l) mod 2 ^ 32 = 0" using assms(2,4) by (simp add: lru_update_def)
  have "cands \<noteq> []" using assms(1) by auto
  from lru_rank_ex [OF this, of False cc ?s req] obtain v where
    v: "lru_rank False cc ?s req cands = Some (?s, v)" "v \<in> set cands" "\<forall>c\<in>set cands. cut32 (lru_score False cc ?s v) \<le> cut32 (lru_score False cc ?s c)"
    by blast
  have z: "unat (lru_array ?s ! v) mod 2 ^ 32 = 0" using v(2,3) sc new assms(1) by (metis le_0_eq)
  have "v = l"
  proof (rule ccontr)
    assume ne: "v \<noteq> l"
    then have "lru_array ?s ! v = lru_array s ! v" by (simp add: lru_update_def)
    moreover have "unat (lru_array s ! v) mod 2 ^ 32 \<noteq> 0" using assms(5) v(2) ne by blast
    ultimately show False using z by simp
  qed
  then show ?thesis using v(1) assms(2,5) by (simp add: lru_update_def)
qed

theorem lru_evicts_newest_past_32_bits_witness:
  "lru_rank False \<lparr>cv_numSharers = \<lambda>_. 0, cv_isValid = \<lambda>_. True\<rparr>
      (lru_update \<lparr>lru_timestamp = 0x100000000, lru_array = [0xFFFFFFFF, 5, 7], lru_numLines = 3\<rparr> 2 (read_req 0)) (read_req 1) [0, 1, 2] =
     Some (\<lparr>lru_timestamp = 0x100000001, lru_array = [0xFFFFFFFF, 5, 0x100000000], lru_numLines = 3\<rparr>, 2)"
proof -
  let ?s = "\<lparr>lru_timestamp = 0x100000000, lru_array = [0xFFFFFFFF, 5, 7], lru_numLines = 3\<rparr>"
  have "lru_update ?s 2 (read_req 0) = \<lparr>lru_timestamp = 0x100000001, lru_array = [0xFFFFFFFF, 5, 0x100000000], lru_numLines = 3\<rparr>"
    by (simp add: lru_update_def numeral_2_eq_2)
  moreover have "lru_rank False \<lparr>cv_numSharers = \<lambda>_. 0, cv_isValid = \<lambda>_. True\<rparr> (lru_update ?s 2 (read_req 0)) (read_req 1) [0, 1, 2] =
      Some (lru_update ?s 2 (read_req 0), 2)"
    by (rule lru_evicts_newest_past_32_bits [THEN conjunct1]) simp_all
  ultimately show ?thesis by simp
qed

text \<open>The search by halves of TreeLRU (dead code: \<open>rank\<close> never reaches it) ends, and the
  candidate it picks is never the newest one of two or more with distinct timestamps.\<close>

theorem treelru_pick_not_newest:
  assumes "2 \<le> k" and "m < k" and "\<forall>i<k. i \<noteq> m \<longrightarrow> arr ! (cand ! i) < arr ! (cand ! m)"
  shows "treelru_pick arr cand 0 k < k \<and> treelru_pick arr cand 0 k \<noteq> m"
proof -
  let ?p = "k div 2" and ?f = "\<lambda>i. arr ! (cand ! i)"
  have p: "0 < ?p" "?p < k" using assms(1) by auto
  have zero: "0 < ?f m"
  proof -
    have "(if m = 0 then 1 else 0) < k" "(if m = 0 then 1 else 0) \<noteq> m" using assms(1) by auto
    then obtain i where "i < k" "i \<noteq> m" by blast
    with assms(3) have "?f i < ?f m" by blast
    from le_less_trans [OF word_zero_le this] show ?thesis .
  qed
  have left: "max_stamp arr cand 0 ?p > max_stamp arr cand ?p k \<longleftrightarrow> m < ?p"
  proof (cases "m < ?p")
    case True
    then have "?f m \<le> max_stamp arr cand 0 ?p" unfolding max_stamp_eq by (intro Max_ge) auto
    moreover have "max_stamp arr cand ?p k < ?f m"
      unfolding max_stamp_eq using assms(2,3) True zero by (subst Max_less_iff) auto
    ultimately show ?thesis using True by auto
  next
    case False
    then have "?f m \<le> max_stamp arr cand ?p k" using assms(2) unfolding max_stamp_eq by (intro Max_ge) auto
    moreover have "max_stamp arr cand 0 ?p < ?f m"
      unfolding max_stamp_eq using assms(3) False zero p by (subst Max_less_iff) auto
    ultimately show ?thesis using False by auto
  qed
  have "treelru_pick arr cand 0 k = (if m < ?p then treelru_pick arr cand ?p k else treelru_pick arr cand 0 ?p)"
    using assms(1) left by (subst treelru_pick.simps) (simp add: Let_def)
  with treelru_pick_range [OF p(2), of arr cand] treelru_pick_range [OF p(1), of arr cand] p show ?thesis
    by (auto split: if_splits)
qed

theorem treelru_pick_not_newest_witness: "treelru_pick [5, 9, 2, 7] [0, 1, 2, 3] 0 4 \<noteq> 1"
proof -
  have "\<forall>i<4. i \<noteq> 1 \<longrightarrow> [5, 9, 2, 7::u64] ! ([0, 1, 2, 3] ! i) < [5, 9, 2, 7] ! ([0, 1, 2, 3] ! 1)"
  proof (intro allI impI)
    fix i :: nat assume "i < 4" "i \<noteq> 1"
    then have "i = 0 \<or> i = 2 \<or> i = 3" by auto
    then show "[5, 9, 2, 7::u64] ! ([0, 1, 2, 3] ! i) < [5, 9, 2, 7] ! ([0, 1, 2, 3] ! 1)" by auto
  qed
  from treelru_pick_not_newest [OF _ _ this] show ?thesis by simp
qed

text \<open>The violation profiler counts each access once, in exactly one of its five access
  counters, and its order assertion never fails; but since nothing sets \<open>replCycle\<close>, it counts
  every eviction of a line that was accessed after cycle 0 as an access after eviction.\<close>

theorem profviol_counts:
  assumes "mr_type req = GETS \<or> mr_type req = GETX" and "l < length (pv_read s)" and "l < length (pv_write s)"
    and "0 < mr_cycle req" and "pv_replCycle s = 0"
  shows "\<exists>s1. profviol_update s l req = Some s1 \<and>
    viol_accesses (pv_prof s1) = viol_accesses (pv_prof s) + 1 \<and>
    vAAE (pv_prof (profviol_replaced s1 l)) = vAAE (pv_prof s) + 1"
proof -
  obtain p where p: "viol_count (mr_type req = GETS) (mr_cycle req) (pv_read s ! l) (pv_write s ! l) (pv_prof s) = Some p"
    "viol_accesses p = viol_accesses (pv_prof s) + 1" "vAAE p = vAAE (pv_prof s)"
    using viol_count_one [of "mr_type req = GETS" "mr_cycle req" "pv_read s ! l" "pv_write s ! l" "pv_prof s"] by blast
  with assms show ?thesis
    by (auto simp: profviol_update_def profviol_replaced_def Let_def less_max_iff_disj)
qed

theorem profviol_counts_witness:
  "\<exists>s1. profviol_update (profviol_new 2) 1 ((read_req 5)\<lparr>mr_cycle := 7\<rparr>) = Some s1 \<and>
    vAAE (pv_prof (profviol_replaced s1 1)) = 1"
  using profviol_counts [of "(read_req 5)\<lparr>mr_cycle := 7\<rparr>" 1 "profviol_new 2"]
  by (auto simp: profviol_new_def)

end
