(* ===== verification/Repl_Legacy.thy ===== *)
theory Repl_Legacy
  imports Repl_Interface
begin

text \<open>
  The policies of \<^verbatim>\<open>zsim/src/repl_policies.h\<close> on the legacy interface
  (\<open>startReplacement\<close>, \<open>recordCandidate\<close> per candidate, \<open>getBestCandidate\<close>): NRU and LFU.
  \<open>legacy_rank\<close> is the template \<open>LegacyReplPolicy::rank\<close>, which drives them.
\<close>

section \<open>The legacy driver\<close>

fun record_all :: "('s \<Rightarrow> nat \<Rightarrow> 's option) \<Rightarrow> nat list \<Rightarrow> 's \<Rightarrow> 's option" where
  "record_all rec [] s = Some s"
| "record_all rec (c # cs) s = Option.bind (rec s c) (record_all rec cs)"

definition legacy_rank ::
    "('s \<Rightarrow> memreq \<Rightarrow> 's) \<Rightarrow> ('s \<Rightarrow> nat \<Rightarrow> 's option) \<Rightarrow> ('s \<Rightarrow> ('s \<times> nat) option) \<Rightarrow>
     's \<Rightarrow> memreq \<Rightarrow> nat list \<Rightarrow> ('s \<times> nat) option" where
  "legacy_rank startReplacement recordCandidate getBestCandidate s req cands =
     Option.bind (record_all recordCandidate cands (startReplacement s req)) getBestCandidate"

text \<open>An invariant over the list of candidates recorded so far.\<close>

lemma record_all_inv:
  assumes "\<And>ds d t. P ds t \<Longrightarrow> d \<in> set cs \<Longrightarrow> length ds < length es + length cs \<Longrightarrow>
      \<exists>t'. rec t d = Some t' \<and> P (ds @ [d]) t'"
    and "P es s"
  shows "\<exists>t. record_all rec cs s = Some t \<and> P (es @ cs) t"
  using assms
proof (induction cs arbitrary: es s)
  case (Cons c cs)
  obtain t where t: "rec s c = Some t" "P (es @ [c]) t"
    using Cons.prems(1) [OF Cons.prems(2), of c] by auto
  have "\<exists>u. record_all rec cs t = Some u \<and> P ((es @ [c]) @ cs) u"
    by (rule Cons.IH [OF _ t(2)]) (use Cons.prems(1) in auto)
  with t(1) show ?case by simp
qed simp

section \<open>NRU\<close>

record nru =
  nru_array :: "u32 list"
  nru_candArray :: "nat list"
  nru_numLines :: nat
  nru_numCands :: nat
  nru_youngLines :: u32
  nru_candVal :: u32
  nru_candIdx :: nat

definition nru_new :: "nat \<Rightarrow> nat \<Rightarrow> nru" where
  "nru_new numLines numCands =
     \<lparr>nru_array = replicate numLines 0, nru_candArray = replicate numCands 0,
      nru_numLines = numLines, nru_numCands = numCands,
      nru_youngLines = 0, nru_candVal = push_bit 20 1, nru_candIdx = 0\<rparr>"

definition nru_update :: "nru \<Rightarrow> nat \<Rightarrow> memreq \<Rightarrow> nru" where
  "nru_update s l req =
     (let young = nru_youngLines s + (1 - drop_bit 1 (nru_array s ! l));
          arr = (nru_array s)[l := nru_array s ! l OR 2]
      in if unat young \<ge> nru_numLines s div 2
         then s\<lparr>nru_array := map (drop_bit 1) arr, nru_youngLines := 0\<rparr>
         else s\<lparr>nru_array := arr, nru_youngLines := young\<rparr>)"

definition nru_recordCandidate :: "nru \<Rightarrow> nat \<Rightarrow> nru option" where
  "nru_recordCandidate s l =
     (let iVal = nru_array s ! l in
      if iVal < nru_candVal s then
        Option.bind (guard (0 < length (nru_candArray s))) (\<lambda>_.
        Some (s\<lparr>nru_candVal := iVal, nru_candArray := (nru_candArray s)[0 := l], nru_candIdx := 1\<rparr>))
      else if iVal = nru_candVal s then
        Option.bind (guard (nru_candIdx s < length (nru_candArray s))) (\<lambda>_.
        Some (s\<lparr>nru_candArray := (nru_candArray s)[nru_candIdx s := l], nru_candIdx := nru_candIdx s + 1\<rparr>))
      else Some s)"

definition nru_getBestCandidate :: "nru \<Rightarrow> (nru \<times> nat) option" where
  "nru_getBestCandidate s =
     (if nru_candIdx s > 0
      then Some (s, nru_candArray s ! (unat (nru_youngLines s) mod nru_candIdx s)) else None)"

definition nru_replaced :: "nru \<Rightarrow> nat \<Rightarrow> nru" where
  "nru_replaced s l =
     s\<lparr>nru_candVal := push_bit 20 1, nru_candIdx := 0, nru_array := (nru_array s)[l := 0]\<rparr>"

definition nru_rank :: "nru \<Rightarrow> memreq \<Rightarrow> nat list \<Rightarrow> (nru \<times> nat) option" where
  "nru_rank = legacy_rank (\<lambda>s req. s) nru_recordCandidate nru_getBestCandidate"

definition nru_ops :: "nru rp_ops" where
  "nru_ops =
     \<lparr>rp_update = (\<lambda>s l req. Some (nru_update s l req)),
      rp_replaced = (\<lambda>s l. Some (nru_replaced s l)),
      rp_rank = (\<lambda>_. nru_rank)\<rparr>"

text \<open>Values stay below 4; at most half of the lines are young between updates.\<close>

definition nru_base :: "nat \<Rightarrow> nat \<Rightarrow> nru \<Rightarrow> bool" where
  "nru_base n k s \<longleftrightarrow> nru_numLines s = n \<and> length (nru_array s) = n \<and> length (nru_candArray s) = k \<and>
     list_all (\<lambda>v. unat v < 4) (nru_array s) \<and> unat (nru_youngLines s) \<le> n div 2 \<and> n < 2 ^ 32"

definition nru_inv :: "nat \<Rightarrow> nat \<Rightarrow> nru \<Rightarrow> bool" where
  "nru_inv n k s \<longleftrightarrow> nru_base n k s \<and> nru_candIdx s = 0 \<and> nru_candVal s = push_bit 20 1"

lemma nru_small: "unat (v::u32) < 4 \<Longrightarrow> v = 0 \<or> v = 1 \<or> v = 2 \<or> v = 3"
proof -
  assume "unat v < 4"
  then have "unat v = 0 \<or> unat v = 1 \<or> unat v = 2 \<or> unat v = 3" by auto
  then show ?thesis by (simp only: word_unat_eq_iff) auto
qed

lemma nru_or_2: "unat (v::u32) < 4 \<Longrightarrow> unat (v OR 2) < 4"
  by (drule nru_small) auto

lemma nru_shift: "unat (v::u32) < 4 \<Longrightarrow> unat (drop_bit 1 v) < 2"
  by (drule nru_small) auto

lemma nru_inv_new: "n < 2 ^ 32 \<Longrightarrow> nru_inv n k (nru_new n k)"
  by (simp add: nru_inv_def nru_base_def nru_new_def list_all_iff)

lemma nru_base_update:
  assumes base: "nru_base n k s" and l: "l < n"
  shows "nru_base n k (nru_update s l req)"
proof -
  let ?v = "nru_array s ! l" and ?y = "nru_youngLines s + (1 - drop_bit 1 (nru_array s ! l))"
  have v: "unat ?v < 4" using base l by (auto simp: nru_base_def list_all_length)
  have arr: "list_all (\<lambda>v. unat v < 4) ((nru_array s)[l := ?v OR 2])"
    using base nru_or_2 [OF v] by (auto simp: nru_base_def intro: list_all_update)
  then have "list_all (\<lambda>v. unat v < 4) (map (drop_bit 1) ((nru_array s)[l := ?v OR 2]))"
    using nru_shift by (fastforce simp: list_all_iff)
  with arr base show ?thesis by (auto simp: nru_base_def nru_update_def Let_def)
qed

lemma nru_update_cands [simp]:
  "nru_candIdx (nru_update s l req) = nru_candIdx s" "nru_candVal (nru_update s l req) = nru_candVal s"
  "nru_candArray (nru_update s l req) = nru_candArray s"
  by (simp_all add: nru_update_def Let_def)

lemma nru_replaced_inv: "nru_base n k s \<Longrightarrow> nru_inv n k (nru_replaced s l)"
  by (auto simp: nru_inv_def nru_base_def nru_replaced_def intro: list_all_update)

text \<open>While the candidates are recorded, the array holds those of least value so far.\<close>

definition nru_recording :: "nat \<Rightarrow> nat \<Rightarrow> nru \<Rightarrow> nat list \<Rightarrow> nru \<Rightarrow> bool" where
  "nru_recording n k s0 ds s \<longleftrightarrow> nru_base n k s \<and> nru_array s = nru_array s0 \<and> nru_youngLines s = nru_youngLines s0 \<and>
     nru_candIdx s \<le> length ds \<and> (ds = [] \<longrightarrow> nru_candVal s = push_bit 20 1) \<and> (ds \<noteq> [] \<longrightarrow> 0 < nru_candIdx s) \<and>
     (\<forall>i<nru_candIdx s. nru_candArray s ! i \<in> set ds \<and> nru_array s ! (nru_candArray s ! i) = nru_candVal s) \<and>
     (\<forall>d\<in>set ds. nru_candVal s \<le> nru_array s ! d)"

lemma nru_record_step:
  assumes r: "nru_recording n k s0 ds s" and d: "d < n" and len: "length ds < k"
  shows "\<exists>s'. nru_recordCandidate s d = Some s' \<and> nru_recording n k s0 (ds @ [d]) s'"
proof -
  have base: "nru_base n k s" using r by (simp add: nru_recording_def)
  then have v: "unat (nru_array s ! d) < 4" using d by (auto simp: nru_base_def list_all_length)
  then have lt: "nru_array s ! d < push_bit 20 1" by (simp add: word_less_nat_alt)
  consider "nru_array s ! d < nru_candVal s" | "nru_array s ! d = nru_candVal s" | "nru_candVal s < nru_array s ! d"
    by fastforce
  then show ?thesis
  proof cases
    case 1
    with r len show ?thesis
      by (auto simp: nru_recordCandidate_def Let_def nru_recording_def nru_base_def)
  next
    case 2
    with r len lt show ?thesis
      by (auto simp: nru_recordCandidate_def Let_def nru_recording_def nru_base_def nth_list_update less_Suc_eq)
  next
    case 3
    with r lt show ?thesis
      by (auto simp: nru_recordCandidate_def Let_def nru_recording_def not_less)
  qed
qed

lemma nru_rank_ex:
  assumes inv: "nru_inv n k s" and sub: "set cands \<subseteq> {..<n}" and ne: "cands \<noteq> []" and len: "length cands \<le> k"
  shows "\<exists>s' v. nru_rank s req cands = Some (s', v) \<and> v \<in> set cands \<and> nru_base n k s' \<and>
    (\<forall>c\<in>set cands. nru_array s ! v \<le> nru_array s ! c)"
proof -
  have "nru_recording n k s [] s" using inv by (simp add: nru_recording_def nru_inv_def)
  moreover have "\<exists>t'. nru_recordCandidate t d = Some t' \<and> nru_recording n k s (ds @ [d]) t'"
    if "nru_recording n k s ds t" "d \<in> set cands" "length ds < length [] + length cands" for ds d t
    using that sub len by (intro nru_record_step) auto
  ultimately obtain t where t: "record_all nru_recordCandidate cands s = Some t" "nru_recording n k s cands t"
    using record_all_inv [where P = "nru_recording n k s" and cs = cands and es = "[]" and s = s and rec = nru_recordCandidate]
    by auto
  let ?i = "unat (nru_youngLines t) mod nru_candIdx t"
  from t(2) ne have i: "0 < nru_candIdx t" "?i < nru_candIdx t" by (auto simp: nru_recording_def)
  with t have "nru_rank s req cands = Some (t, nru_candArray t ! ?i)"
    by (simp add: nru_rank_def legacy_rank_def nru_getBestCandidate_def)
  with t(2) i(2) show ?thesis by (auto simp: nru_recording_def)
qed

interpretation nru: repl_policy nru_ops "nru_inv n k" "\<lambda>s v. nru_base n k s \<and> v < n" n
  "\<lambda>cands. cands \<noteq> [] \<and> length cands \<le> k" for n k
proof unfold_locales
  fix s cands cv req s' v
  assume "nru_inv n k s" "cands \<noteq> [] \<and> length cands \<le> k" and sub: "set cands \<subseteq> {..<n}"
  with nru_rank_ex [of n k s cands req] obtain t w where
    r: "nru_rank s req cands = Some (t, w)" "w \<in> set cands" "nru_base n k t" by blast
  then show "rp_rank nru_ops cv s req cands \<noteq> None" by (simp add: nru_ops_def)
  show "v \<in> set cands \<and> nru_base n k s' \<and> v < n" if "rp_rank nru_ops cv s req cands = Some (s', v)"
    using that r sub by (auto simp: nru_ops_def)
qed (auto simp: nru_ops_def nru_inv_def nru_base_update nru_replaced_inv [unfolded nru_inv_def])

text \<open>NRU evicts a candidate of the least value: a line touched since the last shift is never
  chosen while a candidate that was not touched is there. The candidate array is never overrun.\<close>

theorem nru_evicts_least:
  assumes "nru_inv n k s" and "set cands \<subseteq> {..<n}" and "cands \<noteq> []" and "length cands \<le> k"
  shows "\<exists>s' v. nru_rank s req cands = Some (s', v) \<and> v \<in> set cands \<and>
    (\<forall>c\<in>set cands. nru_array s ! v \<le> nru_array s ! c) \<and> nru_inv n k (nru_replaced s' v)"
  using nru_rank_ex [OF assms, of req] nru_replaced_inv by blast

theorem nru_evicts_least_witness:
  "\<exists>s' v. nru_rank (nru_update (nru_new 4 4) 1 (read_req 0)) (read_req 0) [0, 1] = Some (s', v) \<and> v \<in> {0, 1}"
proof -
  have "nru_inv 4 4 (nru_update (nru_new 4 4) 1 (read_req 0))"
    using nru_inv_new [of 4 4] nru_base_update [of 4 4 "nru_new 4 4" 1 "read_req 0"] by (simp add: nru_inv_def)
  from nru_evicts_least [OF this, of "[0, 1]" "read_req 0"] show ?thesis by auto
qed

section \<open>LFU\<close>

record lfu_info =
  li_ts :: u64
  li_acc :: u64

record lfu_key =
  lk_info :: lfu_info
  lk_sharers :: u32
  lk_valid :: bool

record lfu =
  lfu_timestamp :: u64
  lfu_bestCandidate :: int
  lfu_array :: "lfu_info list"
  lfu_numLines :: nat
  lfu_bestRank :: lfu_key

definition lfu_reset :: lfu_key where
  "lfu_reset = \<lparr>lk_info = \<lparr>li_ts = 0, li_acc = 0\<rparr>, lk_sharers = 0, lk_valid = False\<rparr>"

definition lfu_new :: "nat \<Rightarrow> lfu" where
  "lfu_new numLines =
     \<lparr>lfu_timestamp = 1, lfu_bestCandidate = -1,
      lfu_array = replicate numLines \<lparr>li_ts = 0, li_acc = 0\<rparr>,
      lfu_numLines = numLines, lfu_bestRank = lfu_reset\<rparr>"

definition lfu_lessThan :: "lfu_key \<Rightarrow> lfu_key \<Rightarrow> u64 \<Rightarrow> bool" where
  "lfu_lessThan own other curTs =
     (if \<not> lk_valid own \<and> lk_valid other then True
      else if lk_valid own = lk_valid other then
        (if lk_sharers own = 0 \<and> lk_sharers other > 0 then True
         else if lk_sharers own > 0 \<and> lk_sharers other = 0 then False
         else if li_acc (lk_info own) = 0 then True
         else if li_acc (lk_info other) = 0 then False
         else (curTs - li_ts (lk_info own)) div li_acc (lk_info own) >
              (curTs - li_ts (lk_info other)) div li_acc (lk_info other))
      else False)"

text \<open>The mean of the access times; the division traps when \<open>acc + 1\<close> wraps to 0.\<close>

definition lfu_update :: "lfu \<Rightarrow> nat \<Rightarrow> memreq \<Rightarrow> lfu option" where
  "lfu_update s l req =
     (let i = lfu_array s ! l in
      if li_acc i + 1 = 0 then None
      else Some (s\<lparr>lfu_array := (lfu_array s)[l :=
                   \<lparr>li_ts = (li_acc i * li_ts i + lfu_timestamp s) div (li_acc i + 1), li_acc = li_acc i + 1\<rparr>],
                 lfu_timestamp := lfu_timestamp s + 1000\<rparr>))"

definition lfu_key_of :: "cc_view \<Rightarrow> lfu \<Rightarrow> nat \<Rightarrow> lfu_key" where
  "lfu_key_of cc s l = \<lparr>lk_info = lfu_array s ! l, lk_sharers = cv_numSharers cc l, lk_valid = cv_isValid cc l\<rparr>"

definition lfu_recordCandidate :: "cc_view \<Rightarrow> lfu \<Rightarrow> nat \<Rightarrow> lfu option" where
  "lfu_recordCandidate cc s l =
     (if lfu_bestCandidate s = -1 \<or> lfu_lessThan (lfu_key_of cc s l) (lfu_bestRank s) (lfu_timestamp s)
      then Some (s\<lparr>lfu_bestRank := lfu_key_of cc s l, lfu_bestCandidate := int l\<rparr>) else Some s)"

definition lfu_getBestCandidate :: "lfu \<Rightarrow> (lfu \<times> nat) option" where
  "lfu_getBestCandidate s = (if lfu_bestCandidate s \<noteq> -1 then Some (s, nat (lfu_bestCandidate s)) else None)"

definition lfu_replaced :: "lfu \<Rightarrow> nat \<Rightarrow> lfu" where
  "lfu_replaced s l =
     s\<lparr>lfu_bestCandidate := -1, lfu_bestRank := lfu_reset,
       lfu_array := (lfu_array s)[l := (lfu_array s ! l)\<lparr>li_acc := 0\<rparr>]\<rparr>"

definition lfu_rank :: "cc_view \<Rightarrow> lfu \<Rightarrow> memreq \<Rightarrow> nat list \<Rightarrow> (lfu \<times> nat) option" where
  "lfu_rank cc = legacy_rank (\<lambda>s req. s) (lfu_recordCandidate cc) lfu_getBestCandidate"

definition lfu_ops :: "lfu rp_ops" where
  "lfu_ops =
     \<lparr>rp_update = lfu_update, rp_replaced = (\<lambda>s l. Some (lfu_replaced s l)), rp_rank = lfu_rank\<rparr>"

definition lfu_base :: "nat \<Rightarrow> lfu \<Rightarrow> bool" where
  "lfu_base n s \<longleftrightarrow> lfu_numLines s = n \<and> length (lfu_array s) = n"

definition lfu_inv :: "nat \<Rightarrow> lfu \<Rightarrow> bool" where
  "lfu_inv n s \<longleftrightarrow> lfu_base n s \<and> lfu_bestCandidate s = -1"

text \<open>The part of the order that is one: invalid before valid, then unshared before shared.\<close>

definition evict_class :: "cc_view \<Rightarrow> nat \<Rightarrow> nat" where
  "evict_class cc l = (if cv_isValid cc l then 2 else 0) + (if cv_numSharers cc l > 0 then 1 else 0)"

lemma lfu_lessThan_class:
  "lfu_lessThan (lfu_key_of cc s c) (lfu_key_of cc s b) t \<Longrightarrow> evict_class cc c \<le> evict_class cc b"
  "\<not> lfu_lessThan (lfu_key_of cc s c) (lfu_key_of cc s b) t \<Longrightarrow> evict_class cc b \<le> evict_class cc c"
  by (auto simp: lfu_lessThan_def lfu_key_of_def evict_class_def word_gt_0 split: if_splits)

definition lfu_recording :: "cc_view \<Rightarrow> lfu \<Rightarrow> nat list \<Rightarrow> lfu \<Rightarrow> bool" where
  "lfu_recording cc s0 ds s \<longleftrightarrow>
     lfu_array s = lfu_array s0 \<and> lfu_numLines s = lfu_numLines s0 \<and> lfu_timestamp s = lfu_timestamp s0 \<and>
     (if ds = [] then lfu_bestCandidate s = -1
      else \<exists>b\<in>set ds. lfu_bestCandidate s = int b \<and> lfu_bestRank s = lfu_key_of cc s0 b \<and>
        (\<forall>d\<in>set ds. evict_class cc b \<le> evict_class cc d))"

lemma lfu_record_step:
  assumes "lfu_recording cc s0 ds s"
  shows "\<exists>s'. lfu_recordCandidate cc s d = Some s' \<and> lfu_recording cc s0 (ds @ [d]) s'"
proof -
  have key: "lfu_key_of cc s d = lfu_key_of cc s0 d" using assms by (simp add: lfu_recording_def lfu_key_of_def)
  show ?thesis
  proof (cases "ds = []")
    case True
    with assms key show ?thesis by (auto simp: lfu_recording_def lfu_recordCandidate_def)
  next
    case False
    with assms obtain b where b: "b \<in> set ds" "lfu_bestCandidate s = int b" "lfu_bestRank s = lfu_key_of cc s0 b"
      "\<forall>e\<in>set ds. evict_class cc b \<le> evict_class cc e" by (auto simp: lfu_recording_def)
    show ?thesis
    proof (cases "lfu_lessThan (lfu_key_of cc s0 d) (lfu_key_of cc s0 b) (lfu_timestamp s)")
      case True
      from lfu_lessThan_class(1) [OF this] b(4) have "\<forall>e\<in>set ds. evict_class cc d \<le> evict_class cc e"
        using order_trans by blast
      with True b assms key show ?thesis by (auto simp: lfu_recording_def lfu_recordCandidate_def)
    next
      case F: False
      from lfu_lessThan_class(2) [OF this] F b assms key False show ?thesis
        by (auto simp: lfu_recording_def lfu_recordCandidate_def)
    qed
  qed
qed

lemma lfu_rank_ex:
  assumes "lfu_inv n s" and "cands \<noteq> []"
  shows "\<exists>s' v. lfu_rank cc s req cands = Some (s', v) \<and> v \<in> set cands \<and> lfu_base n s' \<and>
    (\<forall>c\<in>set cands. evict_class cc v \<le> evict_class cc c)"
proof -
  have "lfu_recording cc s [] s" using assms by (simp add: lfu_recording_def lfu_inv_def)
  then obtain t where t: "record_all (lfu_recordCandidate cc) cands s = Some t" "lfu_recording cc s cands t"
    using record_all_inv [where P = "lfu_recording cc s" and cs = cands and es = "[]" and s = s and rec = "lfu_recordCandidate cc"]
      lfu_record_step by fastforce
  with assms show ?thesis
    by (fastforce simp: lfu_rank_def legacy_rank_def lfu_getBestCandidate_def lfu_recording_def lfu_inv_def lfu_base_def)
qed

interpretation lfu: repl_safe lfu_ops "lfu_inv n" "\<lambda>s v. lfu_base n s \<and> v < n" n "\<lambda>cands. cands \<noteq> []" for n
proof unfold_locales
  fix s cands cv req s' v
  assume "lfu_inv n s" "cands \<noteq> []" and sub: "set cands \<subseteq> {..<n}"
  with lfu_rank_ex [of n s cands cv req] obtain t w where
    r: "lfu_rank cv s req cands = Some (t, w)" "w \<in> set cands" "lfu_base n t" by blast
  show "v \<in> set cands \<and> lfu_base n s' \<and> v < n" if "rp_rank lfu_ops cv s req cands = Some (s', v)"
    using that r sub by (auto simp: lfu_ops_def)
qed (auto simp: lfu_ops_def lfu_inv_def lfu_base_def lfu_update_def lfu_replaced_def Let_def split: if_splits)

text \<open>LFU prefers invalid lines over valid ones and, within each, lines without sharers over
  shared ones, whatever their frequencies; it returns a candidate for every nonempty list.\<close>

theorem lfu_victim_class:
  assumes "lfu_inv n s" and "cands \<noteq> []"
  shows "\<exists>s' v. lfu_rank cc s req cands = Some (s', v) \<and> v \<in> set cands \<and>
    (\<forall>c\<in>set cands. evict_class cc v \<le> evict_class cc c)"
  using lfu_rank_ex [OF assms] by blast

theorem lfu_victim_class_witness:
  "\<exists>s' v. lfu_rank \<lparr>cv_numSharers = \<lambda>_. 0, cv_isValid = \<lambda>l. l \<noteq> 1\<rparr> (lfu_new 3) (read_req 0) [0, 1, 2] = Some (s', v) \<and> v = 1"
proof -
  let ?cc = "\<lparr>cv_numSharers = \<lambda>_. 0, cv_isValid = \<lambda>l::nat. l \<noteq> 1\<rparr>"
  have "lfu_inv 3 (lfu_new 3)" by (simp add: lfu_inv_def lfu_base_def lfu_new_def)
  from lfu_victim_class [OF this, of "[0, 1, 2]" ?cc "read_req 0"] obtain s' v where
    "lfu_rank ?cc (lfu_new 3) (read_req 0) [0, 1, 2] = Some (s', v)" "v \<in> {0, 1, 2}"
    "\<forall>c\<in>{0, 1, 2}. evict_class ?cc v \<le> evict_class ?cc c" by auto
  then show ?thesis by (auto simp: evict_class_def split: if_splits)
qed

end
