(* ===== verification/Repl_RRIP.thy ===== *)
theory Repl_RRIP
  imports Repl_Interface
begin

text \<open>
  Static RRIP (\<open>SRRIPReplPolicy\<close> in \<^verbatim>\<open>zsim/src/repl_rrip.h\<close>): one re-reference
  prediction value (RRPV) per line. The loop of \<open>rank\<close> has no bound in the code, so it is
  a partial function whose \<open>None\<close> is divergence. The locale \<open>rrip_age\<close> is the contract of
  such an ageing loop, proved once and used by SRRIP here and by SHiP.
\<close>

section \<open>Model\<close>

record srrip =
  sr_numLines :: nat
  sr_rpvmax :: u32
  sr_rrpv :: "u32 list"
  sr_recent :: "bool list"

definition srrip_new :: "nat \<Rightarrow> u32 \<Rightarrow> srrip" where
  "srrip_new numLines rpvmax =
     \<lparr>sr_numLines = numLines, sr_rpvmax = rpvmax,
      sr_rrpv = replicate numLines 3, sr_recent = replicate numLines False\<rparr>"

definition srrip_update :: "srrip \<Rightarrow> nat \<Rightarrow> memreq \<Rightarrow> srrip" where
  "srrip_update s l req =
     (let s1 = (if \<not> sr_recent s ! l then s\<lparr>sr_rrpv := (sr_rrpv s)[l := 0]\<rparr> else s)
      in s1\<lparr>sr_recent := (sr_recent s1)[l := False]\<rparr>)"

definition srrip_replaced :: "srrip \<Rightarrow> nat \<Rightarrow> srrip" where
  "srrip_replaced s l =
     s\<lparr>sr_rrpv := (sr_rrpv s)[l := 2], sr_recent := (sr_recent s)[l := True]\<rparr>"

text \<open>The second loop of \<open>rank\<close>: increment the candidates that are below 3.\<close>

definition rrip_incr :: "u32 \<Rightarrow> u32" where
  "rrip_incr v = (if v < 3 then v + 1 else v)"

partial_function (option) srrip_rank_loop :: "nat list \<Rightarrow> u32 list \<Rightarrow> (u32 list \<times> nat) option" where
  "srrip_rank_loop cands rrpv =
     (case List.find (\<lambda>c. rrpv ! c = 3) cands of
        Some c \<Rightarrow> Some (rrpv, c)
      | None \<Rightarrow> srrip_rank_loop cands (upd_each rrip_incr cands rrpv))"

definition srrip_rank :: "srrip \<Rightarrow> memreq \<Rightarrow> nat list \<Rightarrow> (srrip \<times> nat) option" where
  "srrip_rank s req cands =
     map_option (\<lambda>(rrpv, c). (s\<lparr>sr_rrpv := rrpv\<rparr>, c)) (srrip_rank_loop cands (sr_rrpv s))"

definition srrip_ops :: "srrip rp_ops" where
  "srrip_ops =
     \<lparr>rp_update = (\<lambda>s l req. Some (srrip_update s l req)),
      rp_replaced = (\<lambda>s l. Some (srrip_replaced s l)),
      rp_rank = (\<lambda>_. srrip_rank)\<rparr>"

section \<open>The ageing loop\<close>

text \<open>\<open>first_max g cands\<close> is the first candidate whose score \<open>g\<close> is the largest.\<close>

definition first_max :: "(nat \<Rightarrow> nat) \<Rightarrow> nat list \<Rightarrow> nat option" where
  "first_max g cands = List.find (\<lambda>c. g c = Max (g ` set cands)) cands"

lemma first_max_SomeD: "first_max g cands = Some v \<Longrightarrow> v \<in> set cands \<and> (\<forall>c\<in>set cands. g c \<le> g v)"
  by (auto simp: first_max_def dest!: find_Some_in)

lemma first_max_ex: "cands \<noteq> [] \<Longrightarrow> \<exists>v. first_max g cands = Some v"
proof -
  assume "cands \<noteq> []"
  then have "Max (g ` set cands) \<in> g ` set cands" by (intro Max_in) auto
  then obtain c where "c \<in> set cands" "g c = Max (g ` set cands)" by (metis imageE)
  then show ?thesis unfolding first_max_def by (rule find_ex)
qed

lemma first_max_cong: "(\<And>c. c \<in> set cands \<Longrightarrow> g c = h c) \<Longrightarrow> first_max g cands = first_max h cands"
proof -
  assume eq: "\<And>c. c \<in> set cands \<Longrightarrow> g c = h c"
  then have "g ` set cands = h ` set cands" by (intro image_cong) auto
  with eq show ?thesis unfolding first_max_def by (intro find_cong) auto
qed

lemma first_max_add:
  assumes "cands \<noteq> []"
  shows "first_max (\<lambda>c. g c + k) cands = first_max g cands"
proof -
  have "Max ((\<lambda>c. g c + k) ` set cands) = Max (g ` set cands) + k"
    using assms by (simp add: Max_add_commute)
  then show ?thesis by (simp add: first_max_def)
qed

locale rrip_age =
  fixes val :: "'v \<Rightarrow> nat"
    and incr :: "'v \<Rightarrow> 'v"
    and loop :: "nat list \<Rightarrow> 'v list \<Rightarrow> 'x \<Rightarrow> ('v list \<times> nat) option"
    and good :: "'x \<Rightarrow> bool"
  assumes val_incr: "val (incr v) = (if val v < 3 then Suc (val v) else val v)"
    and loop_found: "good x \<Longrightarrow> \<forall>c\<in>set cands. val (xs ! c) \<le> 3 \<Longrightarrow>
      List.find (\<lambda>c. val (xs ! c) = 3) cands = Some c \<Longrightarrow> loop cands xs x = Some (xs, c)"
    and loop_aged: "good x \<Longrightarrow> \<forall>c\<in>set cands. val (xs ! c) \<le> 3 \<Longrightarrow>
      List.find (\<lambda>c. val (xs ! c) = 3) cands = None \<Longrightarrow>
      \<exists>x'. good x' \<and> loop cands xs x = loop cands (upd_each incr cands xs) x'"
begin

lemma val_upd_each_mono:
  assumes "set ids \<subseteq> {..<length xs}" and "j < length xs"
  shows "val (xs ! j) \<le> val (upd_each incr ids xs ! j)"
  using assms
proof (induction ids arbitrary: xs)
  case (Cons i ids)
  have "val (xs ! j) \<le> val (upd_at incr i xs ! j)" using Cons.prems by (auto simp: val_incr)
  also have "\<dots> \<le> val (upd_each incr ids (upd_at incr i xs) ! j)"
    using Cons.prems by (intro Cons.IH) auto
  finally show ?case by simp
qed simp

lemma val_upd_each_grows:
  assumes "set ids \<subseteq> {..<length xs}" and "j \<in> set ids"
  shows "min 3 (Suc (val (xs ! j))) \<le> val (upd_each incr ids xs ! j)"
  using assms
proof (induction ids arbitrary: xs)
  case (Cons i ids)
  show ?case
  proof (cases "j = i")
    case True
    with Cons.prems have "val (upd_at incr i xs ! j) \<le> val (upd_each incr ids (upd_at incr i xs) ! j)"
      by (intro val_upd_each_mono) auto
    with True Cons.prems show ?thesis by (auto simp: val_incr split: if_splits)
  next
    case False
    with Cons have "min 3 (Suc (val (upd_at incr i xs ! j))) \<le> val (upd_each incr ids (upd_at incr i xs) ! j)"
      by auto
    with False Cons.prems show ?thesis by auto
  qed
qed simp

lemma val_upd_each_le:
  assumes "\<forall>x\<in>set xs. val x \<le> 3" and "set ids \<subseteq> {..<length xs}"
  shows "\<forall>x\<in>set (upd_each incr ids xs). val x \<le> 3"
  using upd_each_all [of "\<lambda>x. val x \<le> 3" incr xs ids] assms
  by (auto simp: list_all_iff val_incr)

text \<open>The loop returns for any nonempty candidate list, repeated candidates included: every
  pass brings the largest value one step closer to 3.\<close>

lemma loop_returns:
  assumes "set cands \<subseteq> {..<length xs}" and "\<forall>x\<in>set xs. val x \<le> 3"
    and "c \<in> set cands" and "3 \<le> val (xs ! c) + k" and "good x"
  shows "\<exists>xs' v. loop cands xs x = Some (xs', v) \<and> v \<in> set cands \<and> length xs' = length xs \<and>
    (\<forall>x\<in>set xs'. val x \<le> 3)"
  using assms
proof (induction k arbitrary: xs x)
  case 0
  then have "xs ! c \<in> set xs" by (intro nth_mem) auto
  with "0.prems"(2) have "val (xs ! c) \<le> 3" by blast
  with "0.prems"(4) have c3: "val (xs ! c) = 3" by simp
  then obtain v where "List.find (\<lambda>c. val (xs ! c) = 3) cands = Some v"
    using find_ex [OF "0.prems"(3), of "\<lambda>c. val (xs ! c) = 3"] by auto
  moreover from this have "v \<in> set cands" by (auto dest: find_Some_in)
  moreover have "\<forall>c\<in>set cands. val (xs ! c) \<le> 3" using "0.prems" by auto
  ultimately show ?case using "0.prems" by (simp add: loop_found)
next
  case (Suc k)
  have in3: "\<forall>c\<in>set cands. val (xs ! c) \<le> 3" using Suc.prems by auto
  show ?case
  proof (cases "List.find (\<lambda>c. val (xs ! c) = 3) cands")
    case (Some v)
    then have "v \<in> set cands" by (auto dest: find_Some_in)
    with Some Suc.prems in3 show ?thesis by (simp add: loop_found)
  next
    case None
    let ?ys = "upd_each incr cands xs"
    have "min 3 (Suc (val (xs ! c))) \<le> val (?ys ! c)"
      using Suc.prems by (intro val_upd_each_grows)
    with Suc.prems(4) have "3 \<le> val (?ys ! c) + k" by (auto simp: min_def split: if_splits)
    moreover obtain x' where "good x'" "loop cands xs x = loop cands ?ys x'"
      using loop_aged [OF Suc.prems(5) in3 None] by blast
    ultimately show ?thesis
      using Suc.IH [of ?ys x'] Suc.prems val_upd_each_le [OF Suc.prems(2,1)] by simp
  qed
qed

text \<open>What it returns, for distinct candidates: the first candidate with the largest value,
  and every candidate aged by the distance of that value from 3.\<close>

lemma loop_spec:
  assumes "set cands \<subseteq> {..<length xs}" and "\<forall>x\<in>set xs. val x \<le> 3"
    and "cands \<noteq> []" and "distinct cands"
    and "k = 3 - Max ((\<lambda>c. val (xs ! c)) ` set cands)" and "good x"
  shows "\<exists>xs' v. loop cands xs x = Some (xs', v) \<and> length xs' = length xs \<and>
    first_max (\<lambda>c. val (xs ! c)) cands = Some v \<and>
    (\<forall>j<length xs. val (xs' ! j) = (if j \<in> set cands then val (xs ! j) + k else val (xs ! j)))"
  using assms
proof (induction k arbitrary: xs x)
  case 0
  let ?g = "\<lambda>c. val (xs ! c)"
  have in3: "\<forall>c\<in>set cands. ?g c \<le> 3" using "0.prems" by auto
  then have "Max (?g ` set cands) = 3" using "0.prems"(3,5)
    by (intro antisym) (auto simp: Max_le_iff)
  then have fm: "first_max ?g cands = List.find (\<lambda>c. ?g c = 3) cands"
    by (simp add: first_max_def)
  obtain v where v: "first_max ?g cands = Some v" using first_max_ex "0.prems"(3) by blast
  with fm have "List.find (\<lambda>c. ?g c = 3) cands = Some v" by simp
  with v in3 "0.prems"(6) show ?case by (auto simp: loop_found)
next
  case (Suc k)
  let ?g = "\<lambda>c. val (xs ! c)" and ?ys = "upd_each incr cands xs"
  have in3: "\<forall>c\<in>set cands. ?g c \<le> 3" using Suc.prems by auto
  have lt3: "\<forall>c\<in>set cands. ?g c < 3"
  proof
    fix c assume "c \<in> set cands"
    then have "?g c \<le> Max (?g ` set cands)" by simp
    with Suc.prems(5) show "?g c < 3" by linarith
  qed
  then have none: "List.find (\<lambda>c. ?g c = 3) cands = None" by (auto simp: find_None_iff)
  have step: "val (?ys ! j) = (if j \<in> set cands then Suc (?g j) else ?g j)" if "j < length xs" for j
    using that Suc.prems lt3 by (simp add: upd_each_nth val_incr)
  have img: "(\<lambda>c. val (?ys ! c)) ` set cands = (\<lambda>c. ?g c + 1) ` set cands"
    using Suc.prems(1) step by (intro image_cong) auto
  have "Max ((\<lambda>c. ?g c + 1) ` set cands) = Max (?g ` set cands) + 1"
    using Suc.prems(3) by (intro Max_add_commute) auto
  with img Suc.prems(5) have k: "k = 3 - Max ((\<lambda>c. val (?ys ! c)) ` set cands)" by simp
  have fm: "first_max (\<lambda>c. val (?ys ! c)) cands = first_max ?g cands"
  proof -
    have "first_max (\<lambda>c. val (?ys ! c)) cands = first_max (\<lambda>c. ?g c + 1) cands"
      using Suc.prems(1) step by (intro first_max_cong) auto
    also have "\<dots> = first_max ?g cands" by (rule first_max_add [OF Suc.prems(3)])
    finally show ?thesis .
  qed
  obtain x' where x': "good x'" "loop cands xs x = loop cands ?ys x'"
    using loop_aged [OF Suc.prems(6) in3 none] by blast
  from Suc.IH [of ?ys x'] x'(1) val_upd_each_le [OF Suc.prems(2,1)] Suc.prems k obtain xs' v where
    l: "loop cands ?ys x' = Some (xs', v)" "length xs' = length xs" and
    v: "first_max (\<lambda>c. val (?ys ! c)) cands = Some v" and
    nth: "\<forall>j<length xs. val (xs' ! j) = (if j \<in> set cands then val (?ys ! j) + k else val (?ys ! j))"
    by auto
  with x'(2) fm step show ?case by simp
qed

end

section \<open>SRRIP keeps the contract\<close>

lemma unat_eq_3: "unat (v::u32) = 3 \<longleftrightarrow> v = 3"
  using word_unat_eq_iff [of v 3] by simp

lemma unat_rrip_incr: "unat (rrip_incr v) = (if unat v < 3 then Suc (unat v) else unat v)"
proof (cases "unat v < 3")
  case True
  then have "unat (v + 1) = unat v + 1" by (simp add: unat_word_ariths)
  with True show ?thesis by (simp add: rrip_incr_def word_less_nat_alt)
next
  case False
  then show ?thesis by (simp add: rrip_incr_def word_less_nat_alt)
qed

interpretation srl: rrip_age unat rrip_incr "\<lambda>cands xs (x::unit). srrip_rank_loop cands xs" "\<lambda>_. True"
  by unfold_locales (simp_all add: unat_rrip_incr unat_eq_3 srrip_rank_loop.simps)

definition srrip_inv :: "nat \<Rightarrow> srrip \<Rightarrow> bool" where
  "srrip_inv n s \<longleftrightarrow> sr_numLines s = n \<and> length (sr_rrpv s) = n \<and> length (sr_recent s) = n \<and>
     (\<forall>v\<in>set (sr_rrpv s). unat v \<le> 3)"

lemma srrip_inv_new: "srrip_inv n (srrip_new n m)"
  by (simp add: srrip_inv_def srrip_new_def)

lemma srrip_inv_update: "srrip_inv n s \<Longrightarrow> srrip_inv n (srrip_update s l req)"
  by (auto simp: srrip_inv_def srrip_update_def dest!: set_list_updateD)

lemma srrip_inv_replaced: "srrip_inv n s \<Longrightarrow> srrip_inv n (srrip_replaced s l)"
  by (auto simp: srrip_inv_def srrip_replaced_def dest!: set_list_updateD)

lemma srrip_rank_ex:
  assumes "srrip_inv n s" and "set cands \<subseteq> {..<n}" and "cands \<noteq> []"
  shows "\<exists>s' v. srrip_rank s req cands = Some (s', v) \<and> v \<in> set cands \<and> srrip_inv n s'"
proof -
  let ?c = "hd cands"
  have c: "?c \<in> set cands" using assms(3) by simp
  have "set cands \<subseteq> {..<length (sr_rrpv s)}" "\<forall>v\<in>set (sr_rrpv s). unat v \<le> 3"
    using assms by (auto simp: srrip_inv_def)
  from srl.loop_returns [OF this c _ TrueI, of 3] obtain xs v where
    "srrip_rank_loop cands (sr_rrpv s) = Some (xs, v)" "v \<in> set cands"
    "length xs = length (sr_rrpv s)" "\<forall>x\<in>set xs. unat x \<le> 3" by auto
  with assms(1) show ?thesis by (simp add: srrip_rank_def srrip_inv_def)
qed

interpretation srrip: repl_policy srrip_ops "srrip_inv n" "\<lambda>s v. srrip_inv n s \<and> v < n" n "\<lambda>cands. cands \<noteq> []"
  for n
proof unfold_locales
  fix s cands cv req s' v
  assume "srrip_inv n s" "cands \<noteq> []" and sub: "set cands \<subseteq> {..<n}"
  with srrip_rank_ex [of n s cands req] obtain t w where
    r: "srrip_rank s req cands = Some (t, w)" "w \<in> set cands" "srrip_inv n t" by blast
  then show "rp_rank srrip_ops cv s req cands \<noteq> None" by (simp add: srrip_ops_def)
  show "v \<in> set cands \<and> srrip_inv n s' \<and> v < n" if "rp_rank srrip_ops cv s req cands = Some (s', v)"
    using that r sub by (auto simp: srrip_ops_def)
qed (auto simp: srrip_ops_def srrip_inv_update srrip_inv_replaced)

section \<open>Properties\<close>

text \<open>C14. The SRRIP victim is the first candidate with the largest RRPV, and choosing it ages
  every candidate by the same amount: the distance of that RRPV from 3. No other line of the
  cache changes, so one call never disturbs the history of another set.\<close>

theorem srrip_rank_victim:
  assumes "srrip_inv n s" and "set cands \<subseteq> {..<n}" and "cands \<noteq> []" and "distinct cands"
  shows "\<exists>s' v. srrip_rank s req cands = Some (s', v) \<and>
    first_max (\<lambda>c. unat (sr_rrpv s ! c)) cands = Some v \<and>
    sr_recent s' = sr_recent s \<and>
    (\<forall>j<n. unat (sr_rrpv s' ! j) =
       (if j \<in> set cands then unat (sr_rrpv s ! j) + (3 - unat (sr_rrpv s ! v))
        else unat (sr_rrpv s ! j)))"
proof -
  let ?g = "\<lambda>c. unat (sr_rrpv s ! c)"
  have pre: "set cands \<subseteq> {..<length (sr_rrpv s)}" "\<forall>x\<in>set (sr_rrpv s). unat x \<le> 3" "length (sr_rrpv s) = n"
    using assms by (auto simp: srrip_inv_def)
  obtain xs v where l: "srrip_rank_loop cands (sr_rrpv s) = Some (xs, v)" "first_max ?g cands = Some v"
    "\<forall>j<n. unat (xs ! j) = (if j \<in> set cands then ?g j + (3 - Max (?g ` set cands)) else ?g j)"
    using srl.loop_spec [OF pre(1,2) assms(3,4) refl TrueI] pre(3) by auto
  have "Max (?g ` set cands) = ?g v" using l(2) by (auto simp: first_max_def dest!: find_Some_in)
  with l show ?thesis by (simp add: srrip_rank_def)
qed

theorem srrip_rank_victim_witness:
  "\<exists>s' v. srrip_rank ((srrip_new 4 3)\<lparr>sr_rrpv := [3, 0, 2, 1]\<rparr>) undefined [1, 2, 3] = Some (s', v) \<and>
    v = 2 \<and> unat (sr_rrpv s' ! 1) = 1"
proof -
  let ?s = "(srrip_new 4 3)\<lparr>sr_rrpv := [3, 0, 2, 1]\<rparr>"
  have "srrip_inv 4 ?s" by (simp add: srrip_inv_def srrip_new_def)
  from srrip_rank_victim [OF this, of "[1, 2, 3]" undefined] obtain s' v where
    r: "srrip_rank ?s undefined [1, 2, 3] = Some (s', v)" and
    f: "first_max (\<lambda>c. unat (sr_rrpv ?s ! c)) [1, 2, 3] = Some v" and
    u: "unat (sr_rrpv s' ! 1) = unat (sr_rrpv ?s ! 1) + (3 - unat (sr_rrpv ?s ! v))"
    by fastforce
  from f have "v = 2" by (simp add: first_max_def)
  with r u show ?thesis by simp
qed

text \<open>C15. The rank loop of SRRIP has no bound in the code, but it returns for every nonempty
  candidate list, and the RRPVs stay in 0..3. (For an empty list it would not return.)\<close>

theorem srrip_rank_terminates:
  assumes "srrip_inv n s" and "set cands \<subseteq> {..<n}" and "cands \<noteq> []"
  shows "\<exists>s' v. srrip_rank s req cands = Some (s', v) \<and> v \<in> set cands \<and> srrip_inv n s'"
  using assms by (rule srrip_rank_ex)

theorem srrip_rank_terminates_witness:
  "\<exists>s' v. srrip_rank (srrip_new 4 3) undefined [2, 2, 3] = Some (s', v) \<and> v \<in> set [2, 2, 3] \<and> srrip_inv 4 s'"
  by (rule srrip_rank_terminates [OF srrip_inv_new]) auto

text \<open>A line that was just inserted keeps RRPV 2 through the update that follows its
  insertion, and only a later hit brings it to 0.\<close>

theorem srrip_insert_then_hit:
  assumes "srrip_inv n s" and "l < n"
  shows "sr_rrpv (srrip_update (srrip_replaced s l) l req) ! l = 2 \<and>
    sr_rrpv (srrip_update (srrip_update (srrip_replaced s l) l req) l req') ! l = 0"
  using assms by (simp add: srrip_inv_def srrip_update_def srrip_replaced_def)

theorem srrip_insert_then_hit_witness:
  "sr_rrpv (srrip_update (srrip_replaced (srrip_new 2 3) 1) 1 undefined) ! 1 = 2"
  using srrip_insert_then_hit [OF srrip_inv_new, of 1 2 3] by auto

end
