(* ===== verification/Repl_SHiP.thy ===== *)
theory Repl_SHiP
  imports Repl_RRIP
begin

text \<open>
  SHiP (\<open>SHIPReplPolicy\<close> in \<^verbatim>\<open>zsim/src/repl_ship.h\<close>): RRIP whose insertion value is
  predicted by a table of saturating counters (SHCT) indexed with a signature of the
  line address. The simulator builds it with \<open>maxRPV = 3\<close>, 3-bit counters and 16384
  table entries (\<^verbatim>\<open>init.cpp\<close>).
\<close>

section \<open>Model\<close>

record block_meta =
  bm_signature :: u64
  bm_outcome :: bool

record ship =
  sh_maxRPV :: u64
  sh_numLines :: nat
  sh_array :: "u64 list"
  sh_maxSHCT :: u64
  sh_SHCT :: "u64 list"
  sh_sigsize :: u64
  sh_evicted :: u64
  sh_meta :: "block_meta list"

definition UINT64_MAX :: u64 where "UINT64_MAX = - 1"

lemma drop_bit_1_smaller: "drop_bit 1 (n::u64) \<noteq> 0 \<Longrightarrow> unat (drop_bit 1 n) < unat n"
proof -
  assume "drop_bit 1 n \<noteq> 0"
  then have "n \<noteq> 0" by auto
  then have "0 < unat n" by (simp add: unat_gt_0)
  then show ?thesis by (simp add: drop_bit_eq_div unat_div)
qed

function ship_log_loop :: "u64 \<Rightarrow> u64 \<Rightarrow> u64" where
  "ship_log_loop n log_val =
     (if drop_bit 1 n \<noteq> 0 then ship_log_loop (drop_bit 1 n) (log_val + 1) else log_val)"
  by pat_completeness auto

termination
  by (relation "measure (\<lambda>(n, _). unat n)") (simp_all add: drop_bit_1_smaller del: One_nat_def)

declare ship_log_loop.simps [simp del]

definition ship_logBase2 :: "u64 \<Rightarrow> u64" where
  "ship_logBase2 n = ship_log_loop n 0"

definition ship_new :: "u64 \<Rightarrow> nat \<Rightarrow> u64 \<Rightarrow> u64 \<Rightarrow> ship" where
  "ship_new maxRPV numLines maxSHCTVal SHCT_size =
     \<lparr>sh_maxRPV = maxRPV, sh_numLines = numLines,
      sh_array = replicate numLines maxRPV,
      sh_maxSHCT = maxSHCTVal,
      sh_SHCT = replicate (unat SHCT_size) (drop_bit 1 maxSHCTVal),
      sh_sigsize = ship_logBase2 SHCT_size,
      sh_evicted = UINT64_MAX,
      sh_meta = replicate numLines \<lparr>bm_signature = 0, bm_outcome = False\<rparr>\<rparr>"

definition create_signature :: "ship \<Rightarrow> addr \<Rightarrow> u64" where
  "create_signature s lineAddr =
     (let x = (lineAddr XOR drop_bit 30 lineAddr) * 0xbf58476d1ce4e5b9;
          x = (x XOR drop_bit 27 x) * 0x94d049bb133111eb;
          x = x XOR drop_bit 31 x
      in x AND (push_bit (unat (sh_sigsize s)) 1 - 1))"

definition ship_update :: "ship \<Rightarrow> nat \<Rightarrow> memreq \<Rightarrow> ship" where
  "ship_update s l req =
     (let meta = sh_meta s ! l;
          sig = unat (bm_signature meta);
          s' =
       (if sh_evicted s = of_nat l then
          (let shct = (if \<not> bm_outcome meta \<and> sh_SHCT s ! sig > 0
                       then (sh_SHCT s)[sig := sh_SHCT s ! sig - 1] else sh_SHCT s);
               newsig = create_signature s (mr_lineAddr req)
           in s\<lparr>sh_SHCT := shct,
                sh_meta := (sh_meta s)[l := \<lparr>bm_signature = newsig, bm_outcome = False\<rparr>],
                sh_array := (sh_array s)
                  [l := (if shct ! unat newsig = 0 then sh_maxRPV s else sh_maxRPV s - 1)]\<rparr>)
        else
          s\<lparr>sh_meta := (sh_meta s)[l := meta\<lparr>bm_outcome := True\<rparr>],
            sh_SHCT := (if sh_SHCT s ! sig < sh_maxSHCT s
                        then (sh_SHCT s)[sig := sh_SHCT s ! sig + 1] else sh_SHCT s),
            sh_array := (sh_array s)[l := 0]\<rparr>)
      in s'\<lparr>sh_evicted := UINT64_MAX\<rparr>)"

definition ship_replaced :: "ship \<Rightarrow> nat \<Rightarrow> ship" where
  "ship_replaced s l = s\<lparr>sh_evicted := of_nat l\<rparr>"

text \<open>The first loop of \<open>rank\<close>: \<open>Inl c\<close> is the early return, \<open>Inr\<close> carries the best
  candidate and score to the next round.\<close>

fun ship_scan :: "u64 \<Rightarrow> u64 list \<Rightarrow> nat list \<Rightarrow> nat \<Rightarrow> u64 \<Rightarrow> nat + (nat \<times> u64)" where
  "ship_scan maxRPV arr [] bestCand bestScore = Inr (bestCand, bestScore)"
| "ship_scan maxRPV arr (c # cs) bestCand bestScore =
     (let (bestCand, bestScore) =
        (if arr ! c \<ge> bestScore then (c, arr ! c) else (bestCand, bestScore))
      in if bestScore = maxRPV then Inl bestCand
         else ship_scan maxRPV arr cs bestCand bestScore)"

definition ship_incr :: "u64 \<Rightarrow> u64" where
  "ship_incr v = (if v < 3 then v + 1 else v)"

partial_function (option) ship_rank_loop ::
    "u64 \<Rightarrow> nat list \<Rightarrow> u64 list \<Rightarrow> nat \<Rightarrow> u64 \<Rightarrow> (u64 list \<times> nat) option" where
  "ship_rank_loop maxRPV cands arr bestCand bestScore =
     (case ship_scan maxRPV arr cands bestCand bestScore of
        Inl c \<Rightarrow> Some (arr, c)
      | Inr (bc, bs) \<Rightarrow> ship_rank_loop maxRPV cands (upd_each ship_incr cands arr) bc bs)"

definition ship_rank :: "ship \<Rightarrow> memreq \<Rightarrow> nat list \<Rightarrow> (ship \<times> nat) option" where
  "ship_rank s req cands =
     map_option (\<lambda>(arr, c). (s\<lparr>sh_array := arr\<rparr>, c))
       (ship_rank_loop (sh_maxRPV s) cands (sh_array s) (2 ^ 32 - 1) 0)"

definition ship_ops :: "ship rp_ops" where
  "ship_ops =
     \<lparr>rp_update = (\<lambda>s l req. Some (ship_update s l req)),
      rp_replaced = (\<lambda>s l. Some (ship_replaced s l)),
      rp_rank = (\<lambda>_. ship_rank)\<rparr>"

section \<open>The ageing loop\<close>

lemma unat_eq_3_u64: "unat (v::u64) = 3 \<longleftrightarrow> v = 3"
  using word_unat_eq_iff [of v 3] by simp

lemma unat_ship_incr: "unat (ship_incr v) = (if unat v < 3 then Suc (unat v) else unat v)"
proof (cases "unat v < 3")
  case True
  then have "unat (v + 1) = unat v + 1" by (simp add: unat_word_ariths)
  with True show ?thesis by (simp add: ship_incr_def word_less_nat_alt)
next
  case False
  then show ?thesis by (simp add: ship_incr_def word_less_nat_alt)
qed

lemma ship_scan_found:
  assumes "unat bs < 3" and "\<forall>c\<in>set cands. unat (arr ! c) \<le> 3"
    and "List.find (\<lambda>c. unat (arr ! c) = 3) cands = Some c"
  shows "ship_scan 3 arr cands bc bs = Inl c"
  using assms
proof (induction cands arbitrary: bc bs)
  case (Cons d cands)
  show ?case
  proof (cases "unat (arr ! d) = 3")
    case True
    then have "arr ! d = 3" using unat_eq_3_u64 by blast
    moreover have "bs \<le> 3" using Cons.prems(1) by (simp add: word_le_nat_alt)
    ultimately show ?thesis using Cons.prems(3) True by simp
  next
    case False
    then have "unat (arr ! d) < 3" using Cons.prems(2) by fastforce
    moreover from this have "arr ! d \<noteq> 3" "bs \<noteq> 3" using Cons.prems(1) by auto
    ultimately show ?thesis using Cons False by (auto simp: Let_def)
  qed
qed simp

lemma ship_scan_none:
  assumes "unat bs < 3" and "\<forall>c\<in>set cands. unat (arr ! c) < 3"
  shows "\<exists>bc' bs'. ship_scan 3 arr cands bc bs = Inr (bc', bs') \<and> unat bs' < 3"
  using assms
proof (induction cands arbitrary: bc bs)
  case (Cons d cands)
  then have "arr ! d \<noteq> 3" "bs \<noteq> 3" by auto
  with Cons show ?case by (auto simp: Let_def)
qed simp

interpretation shl: rrip_age unat ship_incr
  "\<lambda>cands xs (bc, bs). ship_rank_loop 3 cands xs bc bs" "\<lambda>(bc, bs). unat bs < 3"
proof unfold_locales
  fix cands xs c and x :: "nat \<times> u64"
  assume "case x of (bc, bs) \<Rightarrow> unat bs < 3" "\<forall>c\<in>set cands. unat (xs ! c :: u64) \<le> 3"
    "List.find (\<lambda>c. unat (xs ! c) = 3) cands = Some c"
  then show "(case x of (bc, bs) \<Rightarrow> ship_rank_loop 3 cands xs bc bs) = Some (xs, c)"
    by (cases x) (simp add: ship_rank_loop.simps ship_scan_found)
next
  fix cands xs and x :: "nat \<times> u64"
  assume a: "case x of (bc, bs) \<Rightarrow> unat bs < 3" "\<forall>c\<in>set cands. unat (xs ! c :: u64) \<le> 3"
    "List.find (\<lambda>c. unat (xs ! c) = 3) cands = None"
  obtain bc bs where x: "x = (bc, bs)" by (cases x)
  have "\<forall>c\<in>set cands. unat (xs ! c) < 3" using a(2,3) by (auto simp: find_None_iff le_less)
  with a(1) x ship_scan_none [of bs cands xs bc] obtain bc' bs' where
    "ship_scan 3 xs cands bc bs = Inr (bc', bs')" "unat bs' < 3" by auto
  with x have "(case (bc', bs') of (bc, bs) \<Rightarrow> unat bs < 3) \<and>
      (case x of (bc, bs) \<Rightarrow> ship_rank_loop 3 cands xs bc bs) =
      (case (bc', bs') of (bc, bs) \<Rightarrow> ship_rank_loop 3 cands (upd_each ship_incr cands xs) bc bs)"
    by (simp add: ship_rank_loop.simps [of 3 cands xs bc bs])
  then show "\<exists>x'. (case x' of (bc, bs) \<Rightarrow> unat bs < 3) \<and>
      (case x of (bc, bs) \<Rightarrow> ship_rank_loop 3 cands xs bc bs) =
      (case x' of (bc, bs) \<Rightarrow> ship_rank_loop 3 cands (upd_each ship_incr cands xs) bc bs)" by blast
qed (rule unat_ship_incr)

section \<open>Signatures stay inside the counter table\<close>

lemma ship_log_loop_top_bit: "ship_log_loop n k = k + of_nat (top_bit (unat n))"
proof (induction n k rule: ship_log_loop.induct)
  case (1 n k)
  show ?case
  proof (cases "drop_bit 1 n = 0")
    case True
    then have "n div 2 = 0" by (simp add: drop_bit_eq_div)
    then have "unat (n div 2) = 0" by simp
    then have "unat n \<le> 1" by (simp add: unat_div)
    with True show ?thesis by (subst ship_log_loop.simps) (simp add: top_bit.simps [of "unat n"])
  next
    case False
    have half: "unat (drop_bit 1 n) = unat n div 2" by (simp add: drop_bit_eq_div unat_div)
    with drop_bit_1_smaller [OF False] False have "\<not> unat n \<le> 1"
      by (metis div_less gr_zeroI le_neq_implies_less less_one linorder_not_less numeral_1_eq_Suc_0
          unat_eq_zero nat_less_le one_less_numeral_iff semiring_norm(76) less_2_cases_iff)
    with False half "1.IH" show ?thesis
      by (subst ship_log_loop.simps) (simp add: top_bit.simps [of "unat n"])
  qed
qed

lemma ship_logBase2_bound:
  assumes "n \<noteq> 0"
  shows "unat (ship_logBase2 n) < 64 \<and> 2 ^ unat (ship_logBase2 n) \<le> unat n"
proof -
  have "0 < unat n" using assms by (simp add: unat_gt_0)
  then have lo: "2 ^ top_bit (unat n) \<le> unat n" using top_bit_bounds by blast
  also have "unat n < 2 ^ 64" using unsigned_less [of n] by simp
  finally have lt: "top_bit (unat n) < 64" by (rule power_less_imp_less_exp [rotated]) simp
  have "unat (of_nat (top_bit (unat n)) :: u64) = top_bit (unat n)"
    using lt by (intro unat_of_nat_u64) simp
  then have "unat (ship_logBase2 n) = top_bit (unat n)"
    by (simp add: ship_logBase2_def ship_log_loop_top_bit)
  with lo lt show ?thesis by simp
qed

lemma create_signature_bound: "unat (create_signature s a) < 2 ^ unat (sh_sigsize s)"
proof -
  have "unat (x AND (push_bit k 1 - 1)) < 2 ^ k" for x :: u64 and k
  proof -
    have "x AND (push_bit k 1 - 1) = take_bit k x"
      by (simp add: take_bit_eq_mask mask_eq_exp_minus_1 push_bit_of_1)
    then show ?thesis by (simp add: unsigned_take_bit_eq)
  qed
  then show ?thesis by (simp add: create_signature_def Let_def)
qed

section \<open>SHiP keeps the contract\<close>

definition ship_inv :: "nat \<Rightarrow> ship \<Rightarrow> bool" where
  "ship_inv n s \<longleftrightarrow>
     sh_maxRPV s = 3 \<and> sh_numLines s = n \<and> n \<le> 2 ^ 32 \<and>
     length (sh_array s) = n \<and> length (sh_meta s) = n \<and>
     (\<forall>v\<in>set (sh_array s). unat v \<le> 3) \<and>
     2 ^ unat (sh_sigsize s) \<le> length (sh_SHCT s) \<and>
     (\<forall>m\<in>set (sh_meta s). unat (bm_signature m) < 2 ^ unat (sh_sigsize s)) \<and>
     (\<forall>v\<in>set (sh_SHCT s). v \<le> sh_maxSHCT s)"

lemma ship_inv_new:
  assumes "n \<le> 2 ^ 32" and "sz \<noteq> 0"
  shows "ship_inv n (ship_new 3 n maxv sz)"
proof -
  have "drop_bit 1 maxv \<le> maxv" by (simp add: word_le_nat_alt drop_bit_eq_div unat_div)
  with ship_logBase2_bound [OF assms(2)] assms(1) show ?thesis
    by (auto simp: ship_inv_def ship_new_def)
qed

lemma ship_inv_sig_in_range:
  assumes "ship_inv n s" and "l < n"
  shows "unat (bm_signature (sh_meta s ! l)) < length (sh_SHCT s)"
proof -
  from assms have "sh_meta s ! l \<in> set (sh_meta s)" by (simp add: ship_inv_def)
  with assms(1) show ?thesis unfolding ship_inv_def by (meson order_less_le_trans)
qed

lemma word_dec_le: "(v::u64) \<noteq> 0 \<Longrightarrow> v \<le> m \<Longrightarrow> v - 1 \<le> m"
  by (auto simp: word_le_nat_alt unat_minus_one)

lemma ship_inv_SHCT_le:
  assumes "ship_inv n s" and "l < n"
  shows "sh_SHCT s ! unat (bm_signature (sh_meta s ! l)) \<le> sh_maxSHCT s"
  using ship_inv_sig_in_range [OF assms] assms(1) by (simp add: ship_inv_def)

lemma ship_inv_update:
  assumes inv: "ship_inv n s" and l: "l < n"
  shows "ship_inv n (ship_update s l req)"
proof (cases "sh_evicted s = of_nat l")
  case True
  with inv create_signature_bound [of s "mr_lineAddr req"] ship_inv_SHCT_le [OF inv l] show ?thesis
    by (auto simp: ship_inv_def ship_update_def Let_def word_dec_le word_gt_0 dest!: set_list_updateD)
next
  case False
  with inv ship_inv_SHCT_le [OF inv l] l show ?thesis
    by (auto simp: ship_inv_def ship_update_def Let_def inc_le dest!: set_list_updateD)
qed

lemma ship_inv_replaced: "ship_inv n s \<Longrightarrow> ship_inv n (ship_replaced s l)"
  by (simp add: ship_inv_def ship_replaced_def)

lemma ship_rank_ex:
  assumes "ship_inv n s" and "set cands \<subseteq> {..<n}" and "cands \<noteq> []"
  shows "\<exists>s' v. ship_rank s req cands = Some (s', v) \<and> v \<in> set cands \<and> ship_inv n s'"
proof -
  let ?c = "hd cands"
  have c: "?c \<in> set cands" using assms(3) by simp
  have "set cands \<subseteq> {..<length (sh_array s)}" "\<forall>v\<in>set (sh_array s). unat v \<le> 3"
    using assms by (auto simp: ship_inv_def)
  from shl.loop_returns [OF this c, of 3 "(2 ^ 32 - 1, 0)"] obtain xs v where
    "ship_rank_loop 3 cands (sh_array s) (2 ^ 32 - 1) 0 = Some (xs, v)" "v \<in> set cands"
    "length xs = length (sh_array s)" "\<forall>x\<in>set xs. unat x \<le> 3" by auto
  with assms(1) show ?thesis by (simp add: ship_rank_def ship_inv_def)
qed

interpretation ship: repl_policy ship_ops "ship_inv n" "\<lambda>s v. ship_inv n s \<and> v < n" n "\<lambda>cands. cands \<noteq> []"
  for n
proof unfold_locales
  fix s cands cv req s' v
  assume "ship_inv n s" "cands \<noteq> []" and sub: "set cands \<subseteq> {..<n}"
  with ship_rank_ex [of n s cands req] obtain t w where
    r: "ship_rank s req cands = Some (t, w)" "w \<in> set cands" "ship_inv n t" by blast
  then show "rp_rank ship_ops cv s req cands \<noteq> None" by (simp add: ship_ops_def)
  show "v \<in> set cands \<and> ship_inv n s' \<and> v < n" if "rp_rank ship_ops cv s req cands = Some (s', v)"
    using that r sub by (auto simp: ship_ops_def)
qed (auto simp: ship_ops_def ship_inv_update ship_inv_replaced)

section \<open>Properties\<close>

text \<open>On equal RRPVs SHiP and SRRIP are the same replacement policy: \<open>rank\<close> picks the same
  victim and leaves the same RRPVs. The running best candidate and score that SHiP keeps
  across rounds make no difference.\<close>

theorem ship_rank_eq_srrip:
  assumes "ship_inv n s" and "srrip_inv n t" and "map unat (sh_array s) = map unat (sr_rrpv t)"
    and "set cands \<subseteq> {..<n}" and "cands \<noteq> []" and "distinct cands"
  shows "\<exists>s' t' v. ship_rank s req cands = Some (s', v) \<and> srrip_rank t req cands = Some (t', v) \<and>
    map unat (sh_array s') = map unat (sr_rrpv t')"
proof -
  let ?g = "\<lambda>c. unat (sh_array s ! c)" and ?h = "\<lambda>c. unat (sr_rrpv t ! c)"
  have pre: "set cands \<subseteq> {..<length (sh_array s)}" "\<forall>x\<in>set (sh_array s). unat x \<le> 3" "length (sh_array s) = n"
    "set cands \<subseteq> {..<length (sr_rrpv t)}" "\<forall>x\<in>set (sr_rrpv t). unat x \<le> 3" "length (sr_rrpv t) = n"
    using assms by (auto simp: ship_inv_def srrip_inv_def)
  have eq: "?g j = ?h j" if "j < n" for j
    using arg_cong [OF assms(3), of "\<lambda>xs. xs ! j"] that pre by simp
  obtain xs v where l: "ship_rank_loop 3 cands (sh_array s) (2 ^ 32 - 1) 0 = Some (xs, v)"
    "length xs = n" "first_max ?g cands = Some v"
    "\<forall>j<n. unat (xs ! j) = (if j \<in> set cands then ?g j + (3 - Max (?g ` set cands)) else ?g j)"
    using shl.loop_spec [OF pre(1,2) assms(5,6) refl, of "(2 ^ 32 - 1, 0)"] pre(3) by auto
  obtain ys w where m: "srrip_rank_loop cands (sr_rrpv t) = Some (ys, w)"
    "length ys = n" "first_max ?h cands = Some w"
    "\<forall>j<n. unat (ys ! j) = (if j \<in> set cands then ?h j + (3 - Max (?h ` set cands)) else ?h j)"
    using srl.loop_spec [OF pre(4,5) assms(5,6) refl TrueI] pre(6) by auto
  have "?g ` set cands = ?h ` set cands" using assms(4) eq by (intro image_cong) auto
  with l(4) m(4) eq have "\<forall>j<n. unat (xs ! j) = unat (ys ! j)" by simp
  with l(2) m(2) have "map unat xs = map unat ys" by (auto intro: nth_equalityI)
  moreover have "first_max ?g cands = first_max ?h cands"
    using assms(4) eq by (intro first_max_cong) auto
  ultimately show ?thesis
    using l m assms(1) by (simp add: ship_rank_def srrip_rank_def ship_inv_def)
qed

theorem ship_rank_eq_srrip_witness:
  "\<exists>s' t' v. ship_rank (ship_new 3 4 7 16) undefined [0, 1, 2] = Some (s', v) \<and>
    srrip_rank (srrip_new 4 3) undefined [0, 1, 2] = Some (t', v) \<and>
    map unat (sh_array s') = map unat (sr_rrpv t')"
proof -
  have "ship_inv 4 (ship_new 3 4 7 16)" by (rule ship_inv_new) auto
  moreover have "map unat (sh_array (ship_new 3 4 7 16)) = map unat (sr_rrpv (srrip_new 4 3))"
    by (simp add: ship_new_def srrip_new_def)
  ultimately show ?thesis by (intro ship_rank_eq_srrip [OF _ srrip_inv_new]) auto
qed

text \<open>A fill of line \<open>l\<close>, as \<open>postinsert\<close> does it: \<open>replaced\<close> and then \<open>update\<close>.\<close>

definition ship_fill :: "nat \<Rightarrow> memreq \<Rightarrow> ship \<Rightarrow> ship" where
  "ship_fill l req s = ship_update (ship_replaced s l) l req"

lemma ship_inv_fill: "ship_inv n s \<Longrightarrow> l < n \<Longrightarrow> ship_inv n (ship_fill l req s)"
  by (simp add: ship_fill_def ship_inv_update ship_inv_replaced)

lemma create_signature_cong: "sh_sigsize s = sh_sigsize t \<Longrightarrow> create_signature s = create_signature t"
  by (simp add: create_signature_def fun_eq_iff)

lemma ship_fill_sigsize [simp]: "sh_sigsize (ship_fill l req s) = sh_sigsize s"
  by (simp add: ship_fill_def ship_update_def ship_replaced_def Let_def)

lemma ship_fill_effect:
  assumes "ship_inv n s" and "l < n"
  shows "sh_meta (ship_fill l req s) ! l =
      \<lparr>bm_signature = create_signature s (mr_lineAddr req), bm_outcome = False\<rparr>"
    and "sh_SHCT (ship_fill l req s) =
      (let sig = unat (bm_signature (sh_meta s ! l)) in
       if \<not> bm_outcome (sh_meta s ! l) \<and> sh_SHCT s ! sig > 0
       then (sh_SHCT s)[sig := sh_SHCT s ! sig - 1] else sh_SHCT s)"
    and "sh_array (ship_fill l req s) ! l =
      (if sh_SHCT (ship_fill l req s) ! unat (create_signature s (mr_lineAddr req)) = 0 then 3 else 2)"
  using assms create_signature_cong [of "ship_replaced s l" s]
  by (auto simp: ship_inv_def ship_fill_def ship_update_def ship_replaced_def Let_def)

text \<open>C16. SHiP learns that a signature is dead: once a line holds signature \<open>g\<close> without having
  been hit, each further fill with the same signature and no hit in between takes one from
  the counter of \<open>g\<close>; when it has reached 0 the line is inserted at distant RRPV 3.\<close>

theorem ship_learns_dead_signature:
  assumes "ship_inv n s" and "l < n"
    and "sh_meta s ! l = \<lparr>bm_signature = g, bm_outcome = False\<rparr>"
    and "\<forall>r\<in>set reqs. create_signature s (mr_lineAddr r) = g"
    and "unat (sh_SHCT s ! unat g) \<le> length reqs" and "reqs \<noteq> []"
  shows "let s' = fold (ship_fill l) reqs s in
    sh_SHCT s' ! unat g = 0 \<and> sh_array s' ! l = 3"
proof -
  have sg: "unat g < length (sh_SHCT s)"
    using ship_inv_sig_in_range [OF assms(1,2)] assms(3) by simp
  have "sh_meta (fold (ship_fill l) rs s) ! l = \<lparr>bm_signature = g, bm_outcome = False\<rparr> \<and>
      ship_inv n (fold (ship_fill l) rs s) \<and>
      sh_sigsize (fold (ship_fill l) rs s) = sh_sigsize s \<and>
      length (sh_SHCT (fold (ship_fill l) rs s)) = length (sh_SHCT s) \<and>
      unat (sh_SHCT (fold (ship_fill l) rs s) ! unat g) = unat (sh_SHCT s ! unat g) - length rs \<and>
      (rs \<noteq> [] \<longrightarrow> sh_array (fold (ship_fill l) rs s) ! l =
         (if sh_SHCT (fold (ship_fill l) rs s) ! unat g = 0 then 3 else 2))"
    if "\<forall>r\<in>set rs. create_signature s (mr_lineAddr r) = g" for rs
    using that
  proof (induction rs rule: rev_induct)
    case Nil
    with assms show ?case by simp
  next
    case (snoc r rs)
    let ?t = "fold (ship_fill l) rs s"
    have IH: "sh_meta ?t ! l = \<lparr>bm_signature = g, bm_outcome = False\<rparr>" "ship_inv n ?t"
      "sh_sigsize ?t = sh_sigsize s" "length (sh_SHCT ?t) = length (sh_SHCT s)"
      "unat (sh_SHCT ?t ! unat g) = unat (sh_SHCT s ! unat g) - length rs"
      using snoc by auto
    have "create_signature ?t (mr_lineAddr r) = g"
      using snoc.prems create_signature_cong [OF IH(3)] by simp
    note eff = ship_fill_effect [OF IH(2) assms(2), of r, unfolded this IH(1)]
    have "unat (sh_SHCT (ship_fill l r ?t) ! unat g) = unat (sh_SHCT ?t ! unat g) - 1"
      using sg IH(4) by (simp add: eff(2) Let_def unat_minus_one word_gt_0)
    with IH eff(1,3) show ?case
      by (auto simp: eff(2) Let_def ship_inv_fill [OF _ assms(2)])
  qed
  from this [OF assms(4)] assms(5,6) show ?thesis
    by (simp add: Let_def unat_eq_zero)
qed

theorem ship_learns_dead_signature_witness:
  "let s' = fold (ship_fill 0) (replicate 3 (read_req 0)) (ship_new 3 2 7 16) in
     sh_SHCT s' ! unat (0::u64) = 0 \<and> sh_array s' ! 0 = 3"
proof -
  have "ship_inv 2 (ship_new 3 2 7 16)" by (rule ship_inv_new) auto
  then show ?thesis
  proof (rule ship_learns_dead_signature)
    show "unat (sh_SHCT (ship_new 3 2 7 16) ! unat (0::u64)) \<le> length (replicate 3 (read_req 0))"
      by (simp add: ship_new_def)
  qed (simp_all add: ship_new_def create_signature_def)
qed

text \<open>A hit saves a line's signature: the counter goes up (to its maximum at most), and the
  eviction that follows does not take it down again.\<close>

theorem ship_hit_trains_up:
  assumes "ship_inv n s" and "l < n" and "sh_evicted s \<noteq> of_nat l"
  shows "let sig = unat (bm_signature (sh_meta s ! l)); s1 = ship_update s l req in
    sh_array s1 ! l = 0 \<and>
    unat (sh_SHCT s1 ! sig) = min (unat (sh_maxSHCT s)) (unat (sh_SHCT s ! sig) + 1) \<and>
    sh_SHCT (ship_fill l req' s1) = sh_SHCT s1"
proof -
  let ?sig = "unat (bm_signature (sh_meta s ! l))" and ?s1 = "ship_update s l req"
  have le: "unat (sh_SHCT s ! ?sig) \<le> unat (sh_maxSHCT s)"
    using ship_inv_SHCT_le [OF assms(1,2)] by (simp add: word_le_nat_alt)
  have hit: "sh_meta ?s1 ! l = (sh_meta s ! l)\<lparr>bm_outcome := True\<rparr>" "sh_array ?s1 ! l = 0"
    "sh_SHCT ?s1 = (if sh_SHCT s ! ?sig < sh_maxSHCT s
       then (sh_SHCT s)[?sig := sh_SHCT s ! ?sig + 1] else sh_SHCT s)"
    using assms by (auto simp: ship_inv_def ship_update_def Let_def)
  have "unat (sh_SHCT ?s1 ! ?sig) = min (unat (sh_maxSHCT s)) (unat (sh_SHCT s ! ?sig) + 1)"
  proof (cases "sh_SHCT s ! ?sig < sh_maxSHCT s")
    case True
    then have lt: "unat (sh_SHCT s ! ?sig) < unat (sh_maxSHCT s)" by (simp add: word_less_nat_alt)
    moreover have "unat (sh_maxSHCT s) < 2 ^ 64" using unsigned_less [of "sh_maxSHCT s"] by simp
    ultimately have "unat (sh_SHCT s ! ?sig + 1) = unat (sh_SHCT s ! ?sig) + 1"
      by (simp add: unat_word_ariths)
    with True lt hit(3) ship_inv_sig_in_range [OF assms(1,2)] show ?thesis by simp
  next
    case False
    with le hit(3) show ?thesis by (simp add: word_less_nat_alt)
  qed
  moreover have "sh_SHCT (ship_fill l req' ?s1) = sh_SHCT ?s1"
    using ship_fill_effect(2) [OF ship_inv_update [OF assms(1,2)] assms(2)] hit(1) by simp
  ultimately show ?thesis using hit(2) by (simp add: Let_def)
qed

theorem ship_hit_trains_up_witness:
  "unat (sh_SHCT (ship_update (ship_new 3 2 7 16) 1 (read_req 0)) ! 0) = 4"
proof -
  have "ship_inv 2 (ship_new 3 2 7 16)" by (rule ship_inv_new) auto
  from ship_hit_trains_up [OF this, of 1 "read_req 0" "read_req 0"] show ?thesis
    by (simp add: ship_new_def UINT64_MAX_def Let_def)
qed

lemma ship_scan_stays_low:
  assumes "3 < unat m" and "unat bs \<le> 3" and "\<forall>c\<in>set cs. unat (arr ! c) \<le> 3"
  shows "\<exists>bc' bs'. ship_scan m arr cs bc bs = Inr (bc', bs') \<and> unat bs' \<le> 3"
  using assms
proof (induction cs arbitrary: bc bs)
  case (Cons c cs)
  then have "arr ! c \<noteq> m" "bs \<noteq> m" by auto
  with Cons show ?case by (auto simp: Let_def)
qed simp

lemma ship_rank_loop_diverges:
  assumes ret: "ship_rank_loop m cs arr bc bs = Some r"
  shows "\<not> (3 < unat m \<and> unat bs \<le> 3 \<and> set cs \<subseteq> {..<length arr} \<and> (\<forall>v\<in>set arr. unat v \<le> 3))"
proof (rule ship_rank_loop.raw_induct [where P = "\<lambda>m cs arr bc bs r.
    \<not> (3 < unat m \<and> unat bs \<le> 3 \<and> set cs \<subseteq> {..<length arr} \<and> (\<forall>v\<in>set arr. unat v \<le> 3))", OF _ ret])
  fix f m cs arr bc bs r
  assume IH: "\<And>m cs arr bc bs r. f m cs arr bc bs = Some r \<Longrightarrow>
      \<not> (3 < unat m \<and> unat bs \<le> 3 \<and> set cs \<subseteq> {..<length arr} \<and> (\<forall>v\<in>set arr. unat (v::u64) \<le> 3))"
    and eq: "(case ship_scan m arr cs bc bs of Inl c \<Rightarrow> Some (arr, c)
      | Inr (bc, bs) \<Rightarrow> f m cs (upd_each ship_incr cs arr) bc bs) = Some r"
  show "\<not> (3 < unat m \<and> unat bs \<le> 3 \<and> set cs \<subseteq> {..<length arr} \<and> (\<forall>v\<in>set arr. unat v \<le> 3))"
  proof
    assume a: "3 < unat m \<and> unat bs \<le> 3 \<and> set cs \<subseteq> {..<length arr} \<and> (\<forall>v\<in>set arr. unat v \<le> 3)"
    then have "\<forall>c\<in>set cs. unat (arr ! c) \<le> 3" by auto
    with a ship_scan_stays_low [of m bs cs arr bc] obtain bc' bs' where
      "ship_scan m arr cs bc bs = Inr (bc', bs')" "unat bs' \<le> 3" by blast
    with eq IH [of m cs "upd_each ship_incr cs arr" bc' bs' r] shl.val_upd_each_le [of arr cs] a
    show False by auto
  qed
qed

text \<open>The 3 in the ageing pass of SHiP is a literal, not \<open>maxRPV\<close>: built with a larger
  maximum, \<open>rank\<close> does not return once every line is at 3 or below.\<close>

theorem ship_rank_diverges_above_3:
  assumes "3 < unat (sh_maxRPV s)" and "set cands \<subseteq> {..<length (sh_array s)}"
    and "\<forall>v\<in>set (sh_array s). unat v \<le> 3"
  shows "ship_rank s req cands = None"
  using ship_rank_loop_diverges [of "sh_maxRPV s" cands "sh_array s" "2 ^ 32 - 1" 0] assms
  by (cases "ship_rank_loop (sh_maxRPV s) cands (sh_array s) (2 ^ 32 - 1) 0")
    (auto simp: ship_rank_def)

theorem ship_rank_diverges_above_3_witness:
  "ship_rank (ship_update (ship_new 7 1 7 16) 0 (read_req 0)) (read_req 1) [0] = None"
  by (rule ship_rank_diverges_above_3)
    (auto simp: ship_new_def ship_update_def UINT64_MAX_def Let_def)

end
