(* ===== verification/Cache_Arrays.thy ===== *)
theory Cache_Arrays
  imports Repl_LRU Repl_Legacy Repl_RRIP Repl_SHiP Repl_EHC
begin

text \<open>
  The cache array interface (\<open>CacheArray\<close> in \<^verbatim>\<open>zsim/src/cache_arrays.h\<close>) and the
  set-associative array (\<^verbatim>\<open>cache_arrays.cpp\<close>).

  The array maps addresses to line ids. Its tags start as 0, so address 0 stands for an empty
  line and a lookup of address 0 may hit one. \<open>lookup\<close> returns \<open>None\<close> as the id where the code
  returns -1. The hash family is a parameter \<open>hash\<close>: way, address.
\<close>

section \<open>The interface\<close>

record 's ca_ops =
  ca_lookup :: "'s \<Rightarrow> addr \<Rightarrow> memreq \<Rightarrow> bool \<Rightarrow> ('s \<times> nat option) option"
  ca_preinsert :: "cc_view \<Rightarrow> 's \<Rightarrow> addr \<Rightarrow> memreq \<Rightarrow> ('s \<times> nat \<times> addr) option"
  ca_postinsert :: "'s \<Rightarrow> addr \<Rightarrow> memreq \<Rightarrow> nat \<Rightarrow> 's option"

text \<open>A whole insertion, as \<open>Cache::access\<close> performs it when no other call comes between.\<close>

definition ca_insert :: "'s ca_ops \<Rightarrow> cc_view \<Rightarrow> 's \<Rightarrow> addr \<Rightarrow> memreq \<Rightarrow> ('s \<times> nat \<times> addr) option" where
  "ca_insert ops cc s a req =
     Option.bind (ca_preinsert ops cc s a req) (\<lambda>(s1, l, wb).
     Option.bind (ca_postinsert ops s1 a req l) (\<lambda>s2. Some (s2, l, wb)))"

text \<open>The contract: \<open>find\<close> is the map that \<open>lookup\<close> computes and \<open>tag\<close> the address of a line.
  \<open>pend s a l\<close> holds between \<open>preinsert\<close> and \<open>postinsert\<close> of \<open>a\<close> in line \<open>l\<close>. Every nonzero
  address of the array is found at its own line and nowhere else.\<close>

locale cache_array =
  fixes ops :: "'s ca_ops"
    and inv :: "'s \<Rightarrow> bool"
    and pend :: "'s \<Rightarrow> addr \<Rightarrow> nat \<Rightarrow> bool"
    and find :: "'s \<Rightarrow> addr \<Rightarrow> nat option"
    and tag :: "'s \<Rightarrow> nat \<Rightarrow> addr"
    and n :: nat
  assumes lookup: "inv s \<Longrightarrow> a \<noteq> 0 \<Longrightarrow>
      \<exists>s'. ca_lookup ops s a req upd = Some (s', find s a) \<and> inv s' \<and> find s' = find s \<and> tag s' = tag s"
    and lookup_pend: "pend s b l \<Longrightarrow> a \<noteq> 0 \<Longrightarrow>
      \<exists>s'. ca_lookup ops s a req upd = Some (s', find s a) \<and> pend s' b l \<and> find s' = find s \<and> tag s' = tag s"
    and find_tag: "inv s \<Longrightarrow> a \<noteq> 0 \<Longrightarrow> find s a = Some l \<Longrightarrow> l < n \<and> tag s l = a"
    and tag_find: "inv s \<Longrightarrow> l < n \<Longrightarrow> tag s l \<noteq> 0 \<Longrightarrow> find s (tag s l) = Some l"
    and preinsert: "inv s \<Longrightarrow> a \<noteq> 0 \<Longrightarrow> find s a = None \<Longrightarrow>
      \<exists>s' l. ca_preinsert ops cc s a req = Some (s', l, tag s l) \<and> l < n \<and> pend s' a l \<and>
        find s' = find s \<and> tag s' = tag s"
    and postinsert: "pend s a l \<Longrightarrow>
      \<exists>s'. ca_postinsert ops s a req l = Some s' \<and> inv s' \<and> tag s' = (tag s)(l := a)"
begin

lemma find_inj: "inv s \<Longrightarrow> a \<noteq> 0 \<Longrightarrow> b \<noteq> 0 \<Longrightarrow> find s a = Some l \<Longrightarrow> find s b = Some l \<Longrightarrow> a = b"
  using find_tag by metis

lemma find_iff: "inv s \<Longrightarrow> a \<noteq> 0 \<Longrightarrow> find s a = Some l \<longleftrightarrow> l < n \<and> tag s l = a"
  using find_tag tag_find by blast

lemma insert_find:
  assumes "inv s" and "a \<noteq> 0" and "find s a = None"
  shows "\<exists>s' l. ca_insert ops cc s a req = Some (s', l, tag s l) \<and> inv s' \<and> find s' a = Some l \<and>
    (\<forall>b. b \<noteq> 0 \<longrightarrow> b \<noteq> a \<longrightarrow> find s' b = (if tag s l = b then None else find s b))"
proof -
  obtain s1 l where p: "ca_preinsert ops cc s a req = Some (s1, l, tag s l)" "l < n" "pend s1 a l"
    "find s1 = find s" "tag s1 = tag s" using preinsert [OF assms] by blast
  obtain s' where q: "ca_postinsert ops s1 a req l = Some s'" "inv s'" "tag s' = (tag s1)(l := a)"
    using postinsert [OF p(3)] by blast
  have "find s' a = Some l" using q p(2) assms(2) tag_find [of s' l] by simp
  moreover have "find s' b = (if tag s l = b then None else find s b)" if b: "b \<noteq> 0" "b \<noteq> a" for b
  proof (cases "find s' b")
    case None
    have "find s b = None" if "tag s l \<noteq> b"
    proof (rule ccontr)
      assume "find s b \<noteq> None"
      then obtain k where k: "find s b = Some k" by blast
      then have "k < n" "tag s k = b" using find_tag [OF assms(1) b(1)] by auto
      moreover from this that have "k \<noteq> l" by auto
      ultimately have "find s' b = Some k" using q p b(1) tag_find [OF q(2), of k] by simp
      with None show False by simp
    qed
    with None show ?thesis by simp
  next
    case (Some k)
    then have k: "k < n" "tag s' k = b" using find_tag [OF q(2) b(1)] by auto
    with q p b(2) have "k \<noteq> l" "tag s k = b" by (auto split: if_splits)
    with k b tag_find [OF assms(1), of k] have "find s b = Some k" by auto
    moreover have "tag s l \<noteq> b"
      using tag_find [OF assms(1) p(2)] b(1) \<open>find s b = Some k\<close> \<open>k \<noteq> l\<close> by auto
    ultimately show ?thesis using Some by simp
  qed
  ultimately show ?thesis using p q by (auto simp: ca_insert_def)
qed

end

section \<open>The set-associative array\<close>

record 'r setassoc =
  sa_array :: "addr list"
  sa_rp :: 'r
  sa_numLines :: nat
  sa_numSets :: nat
  sa_assoc :: nat
  sa_setMask :: u64

definition sa_new :: "'r \<Rightarrow> nat \<Rightarrow> nat \<Rightarrow> 'r setassoc option" where
  "sa_new rp numLines assoc =
     (let numSets = numLines div assoc in
      if assoc \<noteq> 0 \<and> isPow2 (of_nat numSets)
      then Some \<lparr>sa_array = replicate numLines 0, sa_rp = rp, sa_numLines = numLines,
                 sa_numSets = numSets, sa_assoc = assoc, sa_setMask = of_nat (numSets - 1)\<rparr>
      else None)"

definition sa_first :: "(nat \<Rightarrow> addr \<Rightarrow> u64) \<Rightarrow> 'r setassoc \<Rightarrow> addr \<Rightarrow> nat" where
  "sa_first hash s a = unat (hash 0 a AND sa_setMask s) * sa_assoc s"

definition sa_find :: "(nat \<Rightarrow> addr \<Rightarrow> u64) \<Rightarrow> 'r setassoc \<Rightarrow> addr \<Rightarrow> nat option" where
  "sa_find hash s a =
     (let first = sa_first hash s a
      in List.find (\<lambda>l. sa_array s ! l = a) [first..<first + sa_assoc s])"

definition sa_lookup :: "'r rp_ops \<Rightarrow> (nat \<Rightarrow> addr \<Rightarrow> u64) \<Rightarrow> 'r setassoc \<Rightarrow> addr \<Rightarrow> memreq \<Rightarrow> bool \<Rightarrow>
    ('r setassoc \<times> nat option) option" where
  "sa_lookup rp hash s lineAddr req updateReplacement =
     (case sa_find hash s lineAddr of
        Some l \<Rightarrow>
          (if updateReplacement
           then map_option (\<lambda>r. (s\<lparr>sa_rp := r\<rparr>, Some l)) (rp_update rp (sa_rp s) l req)
           else Some (s, Some l))
      | None \<Rightarrow> Some (s, None))"

definition sa_preinsert :: "'r rp_ops \<Rightarrow> (nat \<Rightarrow> addr \<Rightarrow> u64) \<Rightarrow> cc_view \<Rightarrow> 'r setassoc \<Rightarrow> addr \<Rightarrow> memreq \<Rightarrow>
    ('r setassoc \<times> nat \<times> addr) option" where
  "sa_preinsert rp hash cc s lineAddr req =
     (let first = sa_first hash s lineAddr
      in map_option (\<lambda>(r, candidate). (s\<lparr>sa_rp := r\<rparr>, candidate, sa_array s ! candidate))
           (rp_rank rp cc (sa_rp s) req (SetAssocCands first (first + sa_assoc s))))"

definition sa_postinsert :: "'r rp_ops \<Rightarrow> 'r setassoc \<Rightarrow> addr \<Rightarrow> memreq \<Rightarrow> nat \<Rightarrow> 'r setassoc option" where
  "sa_postinsert rp s lineAddr req candidate =
     Option.bind (rp_replaced rp (sa_rp s) candidate) (\<lambda>r1.
     Option.bind (rp_update rp r1 candidate req) (\<lambda>r2.
     Some (s\<lparr>sa_array := (sa_array s)[candidate := lineAddr], sa_rp := r2\<rparr>)))"

definition sa_ops :: "'r rp_ops \<Rightarrow> (nat \<Rightarrow> addr \<Rightarrow> u64) \<Rightarrow> 'r setassoc ca_ops" where
  "sa_ops rp hash =
     \<lparr>ca_lookup = sa_lookup rp hash, ca_preinsert = sa_preinsert rp hash, ca_postinsert = sa_postinsert rp\<rparr>"

text \<open>Each nonzero tag is in the set of its address, and no set holds it twice.\<close>

definition sa_shape :: "(nat \<Rightarrow> addr \<Rightarrow> u64) \<Rightarrow> nat \<Rightarrow> nat \<Rightarrow> 'r setassoc \<Rightarrow> bool" where
  "sa_shape hash numSets assoc s \<longleftrightarrow>
     0 < numSets \<and> numSets < 2 ^ 32 \<and> 0 < assoc \<and> sa_numLines s = numSets * assoc \<and>
     length (sa_array s) = numSets * assoc \<and> sa_numSets s = numSets \<and> sa_assoc s = assoc \<and>
     sa_setMask s = of_nat (numSets - 1) \<and>
     (\<forall>l<numSets * assoc. sa_array s ! l \<noteq> 0 \<longrightarrow>
        l \<in> {sa_first hash s (sa_array s ! l)..<sa_first hash s (sa_array s ! l) + assoc}) \<and>
     (\<forall>l<numSets * assoc. \<forall>k<numSets * assoc. sa_array s ! l = sa_array s ! k \<longrightarrow> sa_array s ! l \<noteq> 0 \<longrightarrow> l = k)"

lemma sa_first_bound:
  assumes "sa_shape hash numSets assoc s"
  shows "sa_first hash s a + assoc \<le> numSets * assoc"
proof -
  have ns: "0 < numSets" "sa_assoc s = assoc" using assms by (auto simp: sa_shape_def)
  have "unat (of_nat (numSets - 1) :: u64) = numSets - 1"
    using assms by (intro unat_of_nat_u64) (auto simp: sa_shape_def)
  then have m: "unat (sa_setMask s) = numSets - 1" using assms unfolding sa_shape_def by metis
  have "hash 0 a AND sa_setMask s \<le> sa_setMask s" by (rule word_and_le1)
  then have "Suc (unat (hash 0 a AND sa_setMask s)) \<le> numSets" using m ns by (simp add: word_le_nat_alt)
  then have "Suc (unat (hash 0 a AND sa_setMask s)) * assoc \<le> numSets * assoc" by (rule mult_right_mono) simp
  then show ?thesis by (simp add: sa_first_def ns)
qed

lemma sa_find_Some:
  assumes "sa_shape hash numSets assoc s"
  shows "sa_find hash s a = Some l \<Longrightarrow> l < numSets * assoc \<and> sa_array s ! l = a"
  using sa_first_bound [OF assms, of a] assms
  by (auto simp: sa_find_def Let_def sa_shape_def dest!: find_Some_in)

lemma sa_find_tag:
  assumes shape: "sa_shape hash numSets assoc s" and l: "l < numSets * assoc" "sa_array s ! l \<noteq> 0"
  shows "sa_find hash s (sa_array s ! l) = Some l"
proof -
  let ?a = "sa_array s ! l"
  have "l \<in> set [sa_first hash s ?a..<sa_first hash s ?a + sa_assoc s]"
    using shape l by (auto simp: sa_shape_def)
  then obtain k where k: "sa_find hash s ?a = Some k"
    unfolding sa_find_def Let_def using find_ex [of l _ "\<lambda>l. sa_array s ! l = ?a"] by blast
  from sa_find_Some [OF shape k] shape l have "k = l" unfolding sa_shape_def by metis
  with k show ?thesis by simp
qed

lemma sa_shape_rp [simp]: "sa_shape hash numSets assoc (s\<lparr>sa_rp := r\<rparr>) = sa_shape hash numSets assoc s"
  by (simp add: sa_shape_def sa_first_def)

lemma sa_find_rp [simp]: "sa_find hash (s\<lparr>sa_rp := r\<rparr>) = sa_find hash s"
  by (simp add: sa_find_def sa_first_def fun_eq_iff)

lemma sa_shape_insert:
  assumes shape: "sa_shape hash numSets assoc s" and a: "sa_find hash s a = None"
    and l: "l \<in> {sa_first hash s a..<sa_first hash s a + assoc}"
  shows "sa_shape hash numSets assoc (s\<lparr>sa_array := (sa_array s)[l := a], sa_rp := r\<rparr>)"
proof -
  have fresh: "sa_array s ! k \<noteq> a" if "k < numSets * assoc" "a \<noteq> 0" for k
    using sa_find_tag [OF shape that(1)] that(2) a by auto
  let ?t = "s\<lparr>sa_array := (sa_array s)[l := a], sa_rp := r\<rparr>"
  have first: "sa_first hash ?t b = sa_first hash s b" for b by (simp add: sa_first_def)
  have len: "length (sa_array s) = numSets * assoc" using shape by (simp add: sa_shape_def)
  have "k \<in> {sa_first hash s (sa_array ?t ! k)..<sa_first hash s (sa_array ?t ! k) + assoc}"
    if "k < numSets * assoc" "sa_array ?t ! k \<noteq> 0" for k
    using that shape l len by (cases "k = l") (auto simp: sa_shape_def)
  moreover have "k = j" if kj: "k < numSets * assoc" "j < numSets * assoc" "sa_array ?t ! k = sa_array ?t ! j"
    "sa_array ?t ! k \<noteq> 0" for k j
  proof (cases "k = l \<or> j = l")
    case True
    with kj fresh [of k] fresh [of j] len show ?thesis by (auto simp: nth_list_update split: if_splits)
  next
    case False
    with kj shape show ?thesis unfolding sa_shape_def by simp
  qed
  ultimately show ?thesis using shape unfolding sa_shape_def first by simp
qed

text \<open>The array over any policy that meets the contract of \<open>repl_policy\<close>.\<close>

locale setassoc_array = repl_policy rp rinv rpend n adm
  for rp :: "'r rp_ops" and rinv rpend and n :: nat and adm +
  fixes hash :: "nat \<Rightarrow> addr \<Rightarrow> u64" and numSets assoc :: nat
  assumes lines: "n = numSets * assoc"
    and adm_set: "adm [b..<b + assoc]"

definition sa_inv :: "('r \<Rightarrow> bool) \<Rightarrow> (nat \<Rightarrow> addr \<Rightarrow> u64) \<Rightarrow> nat \<Rightarrow> nat \<Rightarrow> 'r setassoc \<Rightarrow> bool" where
  "sa_inv rinv hash numSets assoc s \<longleftrightarrow> rinv (sa_rp s) \<and> sa_shape hash numSets assoc s"

definition sa_pend :: "('r \<Rightarrow> nat \<Rightarrow> bool) \<Rightarrow> (nat \<Rightarrow> addr \<Rightarrow> u64) \<Rightarrow> nat \<Rightarrow> nat \<Rightarrow> 'r setassoc \<Rightarrow> addr \<Rightarrow> nat \<Rightarrow> bool" where
  "sa_pend rpend hash numSets assoc s a l \<longleftrightarrow> rpend (sa_rp s) l \<and> sa_shape hash numSets assoc s \<and>
     a \<noteq> 0 \<and> sa_find hash s a = None \<and> l \<in> {sa_first hash s a..<sa_first hash s a + assoc}"

definition sa_tag :: "'r setassoc \<Rightarrow> nat \<Rightarrow> addr" where
  "sa_tag s l = (if l < length (sa_array s) then sa_array s ! l else 0)"

sublocale setassoc_array \<subseteq> sa: cache_array "sa_ops rp hash" "sa_inv rinv hash numSets assoc"
  "sa_pend rpend hash numSets assoc" "sa_find hash" sa_tag n
proof unfold_locales
  fix s and a :: addr and req upd assume inv: "sa_inv rinv hash numSets assoc s" and "a \<noteq> 0"
  then have shape: "sa_shape hash numSets assoc s" and rinv: "rinv (sa_rp s)" by (auto simp: sa_inv_def)
  show "\<exists>s'. ca_lookup (sa_ops rp hash) s a req upd = Some (s', sa_find hash s a) \<and>
    sa_inv rinv hash numSets assoc s' \<and> sa_find hash s' = sa_find hash s \<and> sa_tag s' = sa_tag s"
  proof (cases "sa_find hash s a")
    case None
    with inv show ?thesis by (simp add: sa_ops_def sa_lookup_def)
  next
    case (Some l)
    then have "l < n" using sa_find_Some [OF shape] lines by simp
    then obtain r where "rp_update rp (sa_rp s) l req = Some r" "rinv r" by (rule update_ex [OF rinv])
    with Some inv shape show ?thesis
      by (cases upd) (auto simp: sa_ops_def sa_lookup_def sa_inv_def sa_tag_def fun_eq_iff)
  qed
next
  fix s b l and a :: addr and req upd assume pend: "sa_pend rpend hash numSets assoc s b l" and "a \<noteq> 0"
  then have shape: "sa_shape hash numSets assoc s" and rpend: "rpend (sa_rp s) l" by (auto simp: sa_pend_def)
  show "\<exists>s'. ca_lookup (sa_ops rp hash) s a req upd = Some (s', sa_find hash s a) \<and>
    sa_pend rpend hash numSets assoc s' b l \<and> sa_find hash s' = sa_find hash s \<and> sa_tag s' = sa_tag s"
  proof (cases "sa_find hash s a")
    case None
    with pend show ?thesis by (simp add: sa_ops_def sa_lookup_def)
  next
    case (Some k)
    then have k: "k < n" using sa_find_Some [OF shape] lines by simp
    obtain r where "rp_update rp (sa_rp s) k req = Some r" "rpend r l"
      using update_total_pend [OF rpend k, of req] update_pend [OF rpend k, of req] by blast
    moreover have "sa_first hash (s\<lparr>sa_rp := r\<rparr>) c = sa_first hash s c" for r c by (simp add: sa_first_def)
    ultimately show ?thesis using Some pend
      by (cases upd) (auto simp: sa_ops_def sa_lookup_def sa_pend_def sa_tag_def fun_eq_iff)
  qed
next
  fix s a l assume "sa_inv rinv hash numSets assoc s" "sa_find hash s a = Some l"
  then show "l < n \<and> sa_tag s l = a"
    using sa_find_Some [of hash numSets assoc s a l] lines by (auto simp: sa_inv_def sa_tag_def sa_shape_def)
next
  fix s l assume "sa_inv rinv hash numSets assoc s" "l < n" "sa_tag s l \<noteq> 0"
  then show "sa_find hash s (sa_tag s l) = Some l"
    using sa_find_tag [of hash numSets assoc s l] lines by (auto simp: sa_inv_def sa_tag_def sa_shape_def split: if_splits)
next
  fix s and a :: addr and cc req assume inv: "sa_inv rinv hash numSets assoc s" and a: "a \<noteq> 0" "sa_find hash s a = None"
  then have shape: "sa_shape hash numSets assoc s" and rinv: "rinv (sa_rp s)" by (auto simp: sa_inv_def)
  let ?c = "[sa_first hash s a..<sa_first hash s a + assoc]"
  have sub: "set ?c \<subseteq> {..<n}" and ne: "?c \<noteq> []"
    using sa_first_bound [OF shape, of a] lines shape by (auto simp: sa_shape_def)
  obtain r l where r: "rp_rank rp cc (sa_rp s) req ?c = Some (r, l)" "l \<in> set ?c" "rpend r l"
    by (rule rank_ex [OF rinv adm_set sub ne])
  have l: "l < n" "l < length (sa_array s)" using r(2) sub shape lines by (auto simp: sa_shape_def)
  moreover have "sa_assoc s = assoc" using shape by (simp add: sa_shape_def)
  moreover have "sa_first hash (s\<lparr>sa_rp := r\<rparr>) a = sa_first hash s a" by (simp add: sa_first_def)
  ultimately show "\<exists>s' l. ca_preinsert (sa_ops rp hash) cc s a req = Some (s', l, sa_tag s l) \<and> l < n \<and>
    sa_pend rpend hash numSets assoc s' a l \<and> sa_find hash s' = sa_find hash s \<and> sa_tag s' = sa_tag s"
    using r a shape
    by (intro exI [of _ "s\<lparr>sa_rp := r\<rparr>"] exI [of _ l])
      (auto simp: sa_ops_def sa_preinsert_def SetAssocCands_def sa_pend_def sa_tag_def fun_eq_iff)
next
  fix s a req l assume pend: "sa_pend rpend hash numSets assoc s a l"
  then have shape: "sa_shape hash numSets assoc s" and rpend: "rpend (sa_rp s) l"
    and a: "sa_find hash s a = None" "l \<in> {sa_first hash s a..<sa_first hash s a + assoc}" by (auto simp: sa_pend_def)
  have l: "l < n" "length (sa_array s) = n" using a(2) sa_first_bound [OF shape, of a] lines shape by (auto simp: sa_shape_def)
  obtain r1 where r1: "rp_replaced rp (sa_rp s) l = Some r1" "rinv r1" by (rule replaced_ex [OF rpend])
  obtain r2 where r2: "rp_update rp r1 l req = Some r2" "rinv r2" by (rule update_ex [OF r1(2) l(1)])
  let ?t = "s\<lparr>sa_array := (sa_array s)[l := a], sa_rp := r2\<rparr>"
  have "ca_postinsert (sa_ops rp hash) s a req l = Some ?t"
    using r1 r2 by (simp add: sa_ops_def sa_postinsert_def)
  moreover have "sa_inv rinv hash numSets assoc ?t"
    using sa_shape_insert [OF shape a] r2(2) by (simp add: sa_inv_def)
  moreover have "sa_tag ?t = (sa_tag s)(l := a)" using l by (auto simp: sa_tag_def fun_eq_iff)
  ultimately show "\<exists>s'. ca_postinsert (sa_ops rp hash) s a req l = Some s' \<and>
    sa_inv rinv hash numSets assoc s' \<and> sa_tag s' = (sa_tag s)(l := a)" by blast
qed

text \<open>The arrays that \<^verbatim>\<open>init.cpp\<close> builds from \<open>SetAssoc\<close> with the policies that always return.\<close>

interpretation sa_lru: setassoc_array "lru_ops aw" "lru_inv (Suc m * Suc k)" "\<lambda>s v. lru_inv (Suc m * Suc k) s \<and> v < Suc m * Suc k"
  "Suc m * Suc k" "\<lambda>cands. cands \<noteq> []" hash "Suc m" "Suc k" for aw m k hash
  by unfold_locales auto

interpretation sa_srrip: setassoc_array srrip_ops "srrip_inv (Suc m * Suc k)" "\<lambda>s v. srrip_inv (Suc m * Suc k) s \<and> v < Suc m * Suc k"
  "Suc m * Suc k" "\<lambda>cands. cands \<noteq> []" hash "Suc m" "Suc k" for m k hash
  by unfold_locales auto

interpretation sa_ship: setassoc_array ship_ops "ship_inv (Suc m * Suc k)" "\<lambda>s v. ship_inv (Suc m * Suc k) s \<and> v < Suc m * Suc k"
  "Suc m * Suc k" "\<lambda>cands. cands \<noteq> []" hash "Suc m" "Suc k" for m k hash
  by unfold_locales auto

interpretation sa_ehc: setassoc_array ehc_ops "ehc_inv (Suc m * Suc k)" "\<lambda>s v. ehc_inv (Suc m * Suc k) s \<and> v < Suc m * Suc k"
  "Suc m * Suc k" "\<lambda>cands. cands \<noteq> []" hash "Suc m" "Suc k" for m k hash
  by unfold_locales auto

interpretation sa_nru: setassoc_array nru_ops "nru_inv (Suc m * Suc k) (Suc k)"
  "\<lambda>s v. nru_base (Suc m * Suc k) (Suc k) s \<and> v < Suc m * Suc k"
  "Suc m * Suc k" "\<lambda>cands. cands \<noteq> [] \<and> length cands \<le> Suc k" hash "Suc m" "Suc k" for m k hash
  by unfold_locales auto

section \<open>Properties\<close>

lemma sa_new_shape:
  assumes "numSets = 2 ^ j" and "j < 32" and "0 < assoc"
  shows "\<exists>s. sa_new r (numSets * assoc) assoc = Some s \<and> sa_rp s = r \<and> sa_shape hash numSets assoc s"
proof -
  have b: "unat (of_nat numSets :: u32) = 2 ^ j"
  proof -
    have "numSets < 2 ^ 32" unfolding assms(1) using assms(2) by (intro power_strict_increasing) auto
    with assms(2) show ?thesis by (simp only: unsigned_of_nat take_bit_nat_eq_self len_of_numeral_defs assms(1)) simp
  qed
  then have "isPow2 (of_nat numSets)" by (auto simp: isPow2_iff)
  moreover have "numSets < 2 ^ 32" "0 < numSets"
    unfolding assms(1) using assms(2) power_strict_increasing [of j 32 "2::nat"] by auto
  ultimately show ?thesis using assms(3) by (simp add: sa_new_def sa_shape_def Let_def)
qed

text \<open>C13. A set-associative array with SRRIP keeps its map exact: after a miss, one insertion finds
  the new address at the line chosen, forgets the address that line held, and leaves every other
  address where it was; the line chosen is in the set of the new address.\<close>

theorem setassoc_srrip_insert:
  assumes "sa_inv (srrip_inv (Suc m * Suc k)) hash (Suc m) (Suc k) s" and "a \<noteq> 0" and "sa_find hash s a = None"
  shows "\<exists>s' l. ca_insert (sa_ops srrip_ops hash) cc s a req = Some (s', l, sa_tag s l) \<and>
    sa_inv (srrip_inv (Suc m * Suc k)) hash (Suc m) (Suc k) s' \<and> sa_find hash s' a = Some l \<and>
    (\<forall>b. b \<noteq> 0 \<longrightarrow> b \<noteq> a \<longrightarrow> sa_find hash s' b = (if sa_tag s l = b then None else sa_find hash s b))"
  using assms by (rule sa_srrip.sa.insert_find)

theorem setassoc_srrip_insert_witness:
  "\<exists>s s' l. sa_new (srrip_new 4 3) 4 2 = Some s \<and>
    ca_insert (sa_ops srrip_ops (\<lambda>_ a. a)) undefined s 6 (read_req 6) = Some (s', l, 0) \<and> sa_find (\<lambda>_ a. a) s' 6 = Some l"
proof -
  obtain s where s: "sa_new (srrip_new 4 3) 4 2 = Some s" "sa_rp s = srrip_new 4 3" "sa_shape (\<lambda>_ a. a) 2 2 s"
    using sa_new_shape [of 2 1 2 "srrip_new 4 3" "\<lambda>_ a. a"] by auto
  then have inv: "sa_inv (srrip_inv (Suc 1 * Suc 1)) (\<lambda>_ a. a) (Suc 1) (Suc 1) s"
    using srrip_inv_new [of 4 3] by (simp add: sa_inv_def numeral_eq_Suc)
  from s(1) have arr: "sa_array s = replicate 4 0" by (auto simp: sa_new_def Let_def split: if_splits)
  have none: "sa_find (\<lambda>_ a. a) s 6 = None"
  proof (cases "sa_find (\<lambda>_ a. a) s 6")
    case (Some l)
    with sa_find_Some [OF s(3) Some] arr show ?thesis by auto
  qed
  obtain s' l where "ca_insert (sa_ops srrip_ops (\<lambda>_ a. a)) undefined s 6 (read_req 6) = Some (s', l, sa_tag s l)"
    "sa_find (\<lambda>_ a. a) s' 6 = Some l"
    using setassoc_srrip_insert [OF inv _ none, of undefined "read_req 6"] by auto
  moreover have "sa_tag s l = 0" by (simp add: sa_tag_def arr)
  ultimately show ?thesis using s(1) by auto
qed

end
