(* ===== verification/ZCache.thy ===== *)
theory ZCache
  imports Cache_Arrays "HOL-Library.Multiset"
begin

text \<open>
  The zcache array (\<open>ZArray\<close> in \<^verbatim>\<open>zsim/src/cache_arrays.cpp\<close>). \<open>preinsert\<close> walks the
  positions that the lines of earlier candidates could move to, breadth first; \<open>postinsert\<close>
  moves the lines along the path from the victim back to a position of the new address.

  The array of walk entries is a list of the entries counted by \<open>numCandidates\<close>: the code
  writes every child and only then decides whether to count it. Out-of-bounds writes to this
  array and to \<open>swapArray\<close> are \<open>None\<close>, and the theorems show that they do not happen.
\<close>

section \<open>Model\<close>

record zwalk =
  zw_pos :: nat
  zw_lineId :: nat
  zw_parentIdx :: int

record 'r zarray =
  za_array :: "addr list"
  za_lookupArray :: "nat list"
  za_rp :: 'r
  za_numLines :: nat
  za_numSets :: nat
  za_ways :: nat
  za_cands :: nat
  za_setMask :: u64
  za_swapArray :: "nat list"
  za_lastCandIdx :: nat
  za_statSwaps :: nat

definition za_new :: "'r \<Rightarrow> nat \<Rightarrow> nat \<Rightarrow> nat \<Rightarrow> 'r zarray option" where
  "za_new rp numLines ways cands =
     (let numSets = numLines div ways in
      if 1 < ways \<and> ways \<le> cands \<and> numLines mod ways = 0 \<and> isPow2 (of_nat numSets)
      then Some \<lparr>za_array = replicate numLines 0, za_lookupArray = [0..<numLines], za_rp = rp,
                 za_numLines = numLines, za_numSets = numSets, za_ways = ways, za_cands = cands,
                 za_setMask = of_nat (numSets - 1), za_swapArray = [], za_lastCandIdx = 0, za_statSwaps = 0\<rparr>
      else None)"

definition za_pos :: "(nat \<Rightarrow> addr \<Rightarrow> u64) \<Rightarrow> 'r zarray \<Rightarrow> nat \<Rightarrow> addr \<Rightarrow> nat" where
  "za_pos hash s w a = w * za_numSets s + unat (hash w a AND za_setMask s)"

definition za_find :: "(nat \<Rightarrow> addr \<Rightarrow> u64) \<Rightarrow> 'r zarray \<Rightarrow> addr \<Rightarrow> nat option" where
  "za_find hash s a =
     map_option (\<lambda>w. za_lookupArray s ! za_pos hash s w a)
       (List.find (\<lambda>w. za_array s ! (za_lookupArray s ! za_pos hash s w a) = a) [0..<za_ways s])"

definition za_lookup :: "'r rp_ops \<Rightarrow> (nat \<Rightarrow> addr \<Rightarrow> u64) \<Rightarrow> 'r zarray \<Rightarrow> addr \<Rightarrow> memreq \<Rightarrow> bool \<Rightarrow>
    ('r zarray \<times> nat option) option" where
  "za_lookup rp hash s lineAddr req updateReplacement =
     (if lineAddr = 0 then None
      else case za_find hash s lineAddr of
        Some l \<Rightarrow>
          (if updateReplacement
           then map_option (\<lambda>r. (s\<lparr>za_rp := r\<rparr>, Some l)) (rp_update rp (za_rp s) l req)
           else Some (s, Some l))
      | None \<Rightarrow> Some (s, None))"

definition za_seeds :: "(nat \<Rightarrow> addr \<Rightarrow> u64) \<Rightarrow> 'r zarray \<Rightarrow> addr \<Rightarrow> zwalk list" where
  "za_seeds hash s lineAddr =
     map (\<lambda>w. \<lparr>zw_pos = za_pos hash s w lineAddr,
               zw_lineId = za_lookupArray s ! za_pos hash s w lineAddr, zw_parentIdx = -1\<rparr>) [0..<za_ways s]"

text \<open>The inner loop: one fringe entry, all ways.\<close>

fun za_expand :: "(nat \<Rightarrow> addr \<Rightarrow> u64) \<Rightarrow> 'r zarray \<Rightarrow> nat \<Rightarrow> nat \<Rightarrow> addr \<Rightarrow> nat list \<Rightarrow>
    zwalk list \<Rightarrow> bool \<Rightarrow> (zwalk list \<times> bool) option" where
  "za_expand hash s fringeStart fringeId fringeAddr [] cs all_valid = Some (cs, all_valid)"
| "za_expand hash s fringeStart fringeId fringeAddr (w # ws) cs all_valid =
     (let pos = za_pos hash s w fringeAddr; lineId = za_lookupArray s ! pos in
      if length cs < za_cands s + za_ways s
      then za_expand hash s fringeStart fringeId fringeAddr ws
             (if lineId \<noteq> fringeId
              then cs @ [\<lparr>zw_pos = pos, zw_lineId = lineId, zw_parentIdx = int fringeStart\<rparr>] else cs)
             (all_valid \<and> za_array s ! lineId \<noteq> 0)
      else None)"

partial_function (option) za_walk :: "(nat \<Rightarrow> addr \<Rightarrow> u64) \<Rightarrow> 'r zarray \<Rightarrow> nat \<Rightarrow> zwalk list \<Rightarrow> bool \<Rightarrow>
    (zwalk list \<times> bool) option" where
  "za_walk hash s fringeStart cs all_valid =
     (if length cs < za_cands s \<and> all_valid then
        (let fringeId = zw_lineId (cs ! fringeStart); fringeAddr = za_array s ! fringeId in
         if fringeStart < length cs \<and> fringeAddr \<noteq> 0 then
           Option.bind (za_expand hash s fringeStart fringeId fringeAddr [0..<za_ways s] cs all_valid)
             (\<lambda>(cs', av'). za_walk hash s (fringeStart + 1) cs' av')
         else None)
      else Some (cs, all_valid))"

text \<open>The loop that fills the swap array, which has room for \<open>cands/ways + 2\<close> entries.\<close>

partial_function (option) za_path :: "nat \<Rightarrow> zwalk list \<Rightarrow> int \<Rightarrow> nat list \<Rightarrow> nat list option" where
  "za_path room cs idx swaps =
     (if 0 \<le> idx then
        (if length swaps < room
         then za_path room cs (zw_parentIdx (cs ! nat idx)) (swaps @ [zw_pos (cs ! nat idx)]) else None)
      else Some swaps)"

definition za_preinsert :: "'r rp_ops \<Rightarrow> (nat \<Rightarrow> addr \<Rightarrow> u64) \<Rightarrow> cc_view \<Rightarrow> 'r zarray \<Rightarrow> addr \<Rightarrow> memreq \<Rightarrow>
    ('r zarray \<times> nat \<times> addr) option" where
  "za_preinsert rp hash cc s lineAddr req =
     (let seeds = za_seeds hash s lineAddr in
      Option.bind (za_walk hash s 0 seeds (list_all (\<lambda>c. za_array s ! zw_lineId c \<noteq> 0) seeds)) (\<lambda>(cs, all_valid).
      Option.bind (guard (\<not> all_valid \<or> za_cands s \<le> length cs)) (\<lambda>_.
      let cs = take (za_cands s) cs in
      Option.bind (rp_rank rp cc (za_rp s) req (map zw_lineId cs)) (\<lambda>(r, best).
      Option.bind (guard (best < za_numLines s)) (\<lambda>_.
      Option.bind (List.find (\<lambda>i. best = zw_lineId (cs ! i)) [0..<length cs]) (\<lambda>minIdx.
      Option.bind (za_path (za_cands s div za_ways s + 2) cs (int minIdx) []) (\<lambda>swaps.
      Option.bind (guard (swaps \<noteq> [])) (\<lambda>_.
      Some (s\<lparr>za_rp := r, za_lastCandIdx := minIdx, za_swapArray := swaps\<rparr>, best, za_array s ! best)))))))))"

fun za_swap :: "nat list \<Rightarrow> nat list \<Rightarrow> nat list" where
  "za_swap (p # q # ps) lk = za_swap (q # ps) (lk[p := lk ! q])"
| "za_swap ps lk = lk"

definition za_postinsert :: "'r rp_ops \<Rightarrow> 'r zarray \<Rightarrow> addr \<Rightarrow> memreq \<Rightarrow> nat \<Rightarrow> 'r zarray option" where
  "za_postinsert rp s lineAddr req candidate =
     Option.bind (guard (za_swapArray s \<noteq> [] \<and> za_lookupArray s ! hd (za_swapArray s) = candidate)) (\<lambda>_.
     Option.bind (rp_replaced rp (za_rp s) candidate) (\<lambda>r1.
     Option.bind (rp_update rp r1 candidate req) (\<lambda>r2.
     Some (s\<lparr>za_lookupArray := (za_swap (za_swapArray s) (za_lookupArray s))[last (za_swapArray s) := candidate],
             za_array := (za_array s)[candidate := lineAddr], za_rp := r2,
             za_statSwaps := za_statSwaps s + (length (za_swapArray s) - 1)\<rparr>))))"

definition za_ops :: "'r rp_ops \<Rightarrow> (nat \<Rightarrow> addr \<Rightarrow> u64) \<Rightarrow> 'r zarray ca_ops" where
  "za_ops rp hash =
     \<lparr>ca_lookup = za_lookup rp hash, ca_preinsert = za_preinsert rp hash, ca_postinsert = za_postinsert rp\<rparr>"

section \<open>The invariant\<close>

text \<open>\<open>lookupArray\<close> is a permutation of the lines, and each nonempty line is at one of the
  positions of its address.\<close>

definition za_home :: "(nat \<Rightarrow> addr \<Rightarrow> u64) \<Rightarrow> 'r zarray \<Rightarrow> nat \<Rightarrow> addr \<Rightarrow> bool" where
  "za_home hash s pos a \<longleftrightarrow> (\<exists>w<za_ways s. pos = za_pos hash s w a)"

definition za_geom :: "nat \<Rightarrow> nat \<Rightarrow> nat \<Rightarrow> 'r zarray \<Rightarrow> bool" where
  "za_geom numSets ways cands s \<longleftrightarrow>
     0 < numSets \<and> numSets < 2 ^ 32 \<and> 1 < ways \<and> ways \<le> cands \<and> za_numLines s = ways * numSets \<and>
     za_numSets s = numSets \<and> za_ways s = ways \<and> za_cands s = cands \<and> za_setMask s = of_nat (numSets - 1) \<and>
     length (za_array s) = ways * numSets"

definition za_shape :: "(nat \<Rightarrow> addr \<Rightarrow> u64) \<Rightarrow> nat \<Rightarrow> nat \<Rightarrow> nat \<Rightarrow> 'r zarray \<Rightarrow> bool" where
  "za_shape hash numSets ways cands s \<longleftrightarrow> za_geom numSets ways cands s \<and>
     length (za_lookupArray s) = ways * numSets \<and> distinct (za_lookupArray s) \<and>
     set (za_lookupArray s) = {..<ways * numSets} \<and>
     (\<forall>p<ways * numSets. za_array s ! (za_lookupArray s ! p) \<noteq> 0 \<longrightarrow>
        za_home hash s p (za_array s ! (za_lookupArray s ! p))) \<and>
     (\<forall>l<ways * numSets. \<forall>k<ways * numSets. za_array s ! l = za_array s ! k \<longrightarrow> za_array s ! l \<noteq> 0 \<longrightarrow> l = k)"

lemma za_pos_bound:
  assumes "za_geom numSets ways cands s" and "w < ways"
  shows "w * numSets \<le> za_pos hash s w a" and "za_pos hash s w a < Suc w * numSets"
    and "za_pos hash s w a < ways * numSets"
proof -
  have ns: "0 < numSets" "za_numSets s = numSets" using assms by (auto simp: za_geom_def)
  have "unat (of_nat (numSets - 1) :: u64) = numSets - 1"
    using assms by (intro unat_of_nat_u64) (auto simp: za_geom_def)
  then have m: "unat (za_setMask s) = numSets - 1" using assms(1) unfolding za_geom_def by metis
  have "hash w a AND za_setMask s \<le> za_setMask s" by (rule word_and_le1)
  then have lt: "unat (hash w a AND za_setMask s) < numSets" using m ns by (simp add: word_le_nat_alt)
  then show "w * numSets \<le> za_pos hash s w a" and *: "za_pos hash s w a < Suc w * numSets"
    by (simp_all add: za_pos_def ns)
  have "Suc w * numSets \<le> ways * numSets" using assms(2) by (intro mult_right_mono) auto
  with * show "za_pos hash s w a < ways * numSets" by simp
qed

lemma za_pos_inj:
  assumes "za_geom numSets ways cands s" and "v < w" and "w < ways"
  shows "za_pos hash s v a \<noteq> za_pos hash s w b"
proof -
  have "za_pos hash s v a < Suc v * numSets" "w * numSets \<le> za_pos hash s w b"
    using za_pos_bound [OF assms(1)] assms(2,3) by auto
  moreover have "Suc v * numSets \<le> w * numSets" using assms(2) by (intro mult_right_mono) auto
  ultimately show ?thesis by simp
qed

section \<open>The walk\<close>

text \<open>What each walk entry is: a position of the new address, or another position of the line of
  an earlier entry, its parent. When the parent is not the first entry of its line, the line of
  the child has an earlier entry, so the path from a first entry runs through first entries.\<close>

definition za_child :: "(nat \<Rightarrow> addr \<Rightarrow> u64) \<Rightarrow> 'r zarray \<Rightarrow> zwalk list \<Rightarrow> nat \<Rightarrow> nat \<Rightarrow> nat" where
  "za_child hash s cs p w = za_pos hash s w (za_array s ! zw_lineId (cs ! p))"

definition walk_entry :: "(nat \<Rightarrow> addr \<Rightarrow> u64) \<Rightarrow> 'r zarray \<Rightarrow> addr \<Rightarrow> zwalk list \<Rightarrow> nat \<Rightarrow> bool" where
  "walk_entry hash s a cs k \<longleftrightarrow>
     zw_pos (cs ! k) < za_numLines s \<and> zw_lineId (cs ! k) = za_lookupArray s ! zw_pos (cs ! k) \<and>
     ((zw_parentIdx (cs ! k) = -1 \<and> za_home hash s (zw_pos (cs ! k)) a) \<or>
      (\<exists>p w. zw_parentIdx (cs ! k) = int p \<and> p + za_ways s \<le> k \<and> w < za_ways s \<and>
         zw_pos (cs ! k) = za_child hash s cs p w \<and>
         (\<forall>p'<p. zw_lineId (cs ! p') = zw_lineId (cs ! p) \<longrightarrow> (\<exists>k'<k. zw_lineId (cs ! k') = zw_lineId (cs ! k)))))"

definition walk_done :: "(nat \<Rightarrow> addr \<Rightarrow> u64) \<Rightarrow> 'r zarray \<Rightarrow> zwalk list \<Rightarrow> nat \<Rightarrow> nat \<Rightarrow> bool" where
  "walk_done hash s cs p w \<longleftrightarrow>
     za_lookupArray s ! za_child hash s cs p w = zw_lineId (cs ! p) \<or>
     (\<exists>k<length cs. zw_lineId (cs ! k) = za_lookupArray s ! za_child hash s cs p w)"

definition walk_inv :: "(nat \<Rightarrow> addr \<Rightarrow> u64) \<Rightarrow> 'r zarray \<Rightarrow> addr \<Rightarrow> nat \<Rightarrow> zwalk list \<Rightarrow> bool \<Rightarrow> bool" where
  "walk_inv hash s a F cs av \<longleftrightarrow> F + za_ways s \<le> length cs \<and>
     (\<forall>k<length cs. walk_entry hash s a cs k) \<and> (\<forall>p<F. \<forall>w<za_ways s. walk_done hash s cs p w) \<and>
     (av \<longrightarrow> (\<forall>k<length cs. za_array s ! zw_lineId (cs ! k) \<noteq> 0))"

lemma za_child_cong: "ds ! p = cs ! p \<Longrightarrow> za_child hash s ds p = za_child hash s cs p"
  by (simp add: za_child_def fun_eq_iff)

lemma walk_entry_cong:
  assumes e: "walk_entry hash s a cs k" and eq: "\<And>j. j \<le> k \<Longrightarrow> ds ! j = cs ! j"
  shows "walk_entry hash s a ds k"
proof -
  note k = eq [OF order_refl]
  from e consider "zw_parentIdx (cs ! k) = -1 \<and> za_home hash s (zw_pos (cs ! k)) a"
    | p w where "zw_parentIdx (cs ! k) = int p" "p + za_ways s \<le> k" "w < za_ways s"
        "zw_pos (cs ! k) = za_child hash s cs p w"
        "\<forall>p'<p. zw_lineId (cs ! p') = zw_lineId (cs ! p) \<longrightarrow> (\<exists>k'<k. zw_lineId (cs ! k') = zw_lineId (cs ! k))"
    by (auto simp: walk_entry_def)
  then show ?thesis
  proof cases
    case 1
    with e show ?thesis by (simp add: walk_entry_def k)
  next
    case (2 p w)
    have "ds ! p = cs ! p" using eq 2(2) by simp
    moreover from this have "za_child hash s ds p w = za_child hash s cs p w" by (simp add: za_child_def)
    moreover have "\<forall>p'<p. zw_lineId (ds ! p') = zw_lineId (cs ! p) \<longrightarrow> (\<exists>k'<k. zw_lineId (ds ! k') = zw_lineId (cs ! k))"
      using 2(2,5) eq by (metis add_leD1 less_imp_le order_trans)
    ultimately show ?thesis using e 2 unfolding walk_entry_def k by (intro conjI disjI2 exI [of _ p] exI [of _ w]) auto
  qed
qed

lemma walk_entry_prefix: "walk_entry hash s a cs k \<Longrightarrow> k < length cs \<Longrightarrow> walk_entry hash s a (cs @ ds) k"
  by (erule walk_entry_cong) (simp add: nth_append)

lemma walk_entry_take: "walk_entry hash s a cs k \<Longrightarrow> k < m \<Longrightarrow> walk_entry hash s a (take m cs) k"
  by (erule walk_entry_cong) simp

lemma walk_done_append: "walk_done hash s cs p w \<Longrightarrow> p < length cs \<Longrightarrow> walk_done hash s (cs @ ds) p w"
  unfolding walk_done_def za_child_def by (auto simp: nth_append)

text \<open>Expanding one fringe entry.\<close>

lemma za_expand_ok:
  assumes geom: "za_geom numSets ways cands s" and ws: "set ws \<subseteq> {..<ways}"
    and inv: "walk_inv hash s a F cs av" and F: "F < length cs" and room: "length cs + length ws \<le> cands + ways"
  shows "\<exists>ds av'. za_expand hash s F (zw_lineId (cs ! F)) (za_array s ! zw_lineId (cs ! F)) ws cs av = Some (cs @ ds, av') \<and>
    walk_inv hash s a F (cs @ ds) av' \<and> (\<forall>w\<in>set ws. walk_done hash s (cs @ ds) F w) \<and>
    length ds = length (filter (\<lambda>w. za_lookupArray s ! za_child hash s cs F w \<noteq> zw_lineId (cs ! F)) ws)"
  using ws inv F room
proof (induction ws arbitrary: cs av)
  case Nil
  then show ?case by simp
next
  case (Cons w ws)
  let ?id = "zw_lineId (cs ! F)" and ?pos = "za_child hash s cs F w"
  let ?l = "za_lookupArray s ! ?pos"
  let ?c = "\<lparr>zw_pos = ?pos, zw_lineId = ?l, zw_parentIdx = int F\<rparr>"
  let ?cs1 = "if ?l \<noteq> ?id then cs @ [?c] else cs" and ?av1 = "av \<and> za_array s ! ?l \<noteq> 0"
  have ways: "za_ways s = ways" "za_cands s = cands" "za_numLines s = ways * numSets" and w: "w < ways"
    using geom Cons.prems(1) by (auto simp: za_geom_def)
  have same: "?cs1 ! F = cs ! F" "F < length ?cs1" using Cons.prems(3) by (auto simp: nth_append)
  have done1: "walk_done hash s ?cs1 F w"
    using Cons.prems(3) by (auto simp: walk_done_def za_child_def nth_append intro!: exI [of _ "length cs"])
  have entries: "\<forall>k<length cs. walk_entry hash s a cs k" and complete: "\<forall>p<F. \<forall>w<ways. walk_done hash s cs p w"
    and len: "F + ways \<le> length cs" and valid: "av \<longrightarrow> (\<forall>k<length cs. za_array s ! zw_lineId (cs ! k) \<noteq> 0)"
    using Cons.prems(2) by (auto simp: walk_inv_def ways)
  have new: "walk_entry hash s a (cs @ [?c]) (length cs)" if "?l \<noteq> ?id"
  proof -
    have "\<exists>k'<length cs. zw_lineId (cs ! k') = ?l" if p': "p' < F" "zw_lineId (cs ! p') = ?id" for p'
    proof -
      have "walk_done hash s cs p' w" using complete p'(1) w by blast
      moreover have "za_child hash s cs p' w = ?pos" using p'(2) by (simp add: za_child_def)
      ultimately show ?thesis using p'(2) \<open>?l \<noteq> ?id\<close> by (simp add: walk_done_def)
    qed
    moreover have "?pos < ways * numSets" using za_pos_bound(3) [OF geom w] by (simp add: za_child_def)
    moreover have "za_child hash s (cs @ [?c]) F w = ?pos" using Cons.prems(3) by (simp add: za_child_def nth_append)
    ultimately show ?thesis using Cons.prems(3) len w
      unfolding walk_entry_def ways
      by (intro conjI disjI2 exI [of _ F] exI [of _ w]) (auto simp: nth_append)
  qed
  have inv1: "walk_inv hash s a F ?cs1 ?av1"
    unfolding walk_inv_def
  proof (intro conjI allI impI)
    show "F + za_ways s \<le> length ?cs1" using len by (simp add: ways)
    show "walk_entry hash s a ?cs1 k" if "k < length ?cs1" for k
      using that entries new walk_entry_prefix [of hash s a cs k "[?c]"] by (auto simp: less_Suc_eq split: if_splits)
    show "walk_done hash s ?cs1 p u" if "p < F" "u < za_ways s" for p u
      using that complete Cons.prems(3) walk_done_append [of hash s cs p u "[?c]"] by (auto simp: ways)
    show "za_array s ! zw_lineId (?cs1 ! k) \<noteq> 0" if "?av1" "k < length ?cs1" for k
      using that valid by (auto simp: nth_append less_Suc_eq split: if_splits)
  qed
  have room1: "length ?cs1 + length ws \<le> cands + ways" using Cons.prems(4) by auto
  from Cons.IH [OF _ inv1 same(2) room1] Cons.prems(1) obtain ds av' where
    r: "za_expand hash s F (zw_lineId (?cs1 ! F)) (za_array s ! zw_lineId (?cs1 ! F)) ws ?cs1 ?av1 = Some (?cs1 @ ds, av')"
      "walk_inv hash s a F (?cs1 @ ds) av'" "\<forall>w\<in>set ws. walk_done hash s (?cs1 @ ds) F w"
      "length ds = length (filter (\<lambda>w. za_lookupArray s ! za_child hash s ?cs1 F w \<noteq> zw_lineId (?cs1 ! F)) ws)"
    by auto
  have child: "za_child hash s ?cs1 F = za_child hash s cs F" by (rule za_child_cong [OF same(1)])
  have step: "za_expand hash s F ?id (za_array s ! ?id) (w # ws) cs av = za_expand hash s F ?id (za_array s ! ?id) ws ?cs1 ?av1"
    using Cons.prems(4) by (simp add: Let_def ways za_child_def)
  have d: "walk_done hash s (?cs1 @ ds) F w" by (rule walk_done_append [OF done1 same(2)])
  show ?case
  proof (cases "?l = ?id")
    case True
    with r step d show ?thesis by simp
  next
    case False
    with r step d child same show ?thesis by (intro exI [of _ "?c # ds"] exI [of _ av']) simp
  qed
qed

text \<open>At least \<open>ways - 1\<close> children of an entry are other lines, so the walk makes progress and
  never runs past its fringe.\<close>

lemma za_children_count:
  assumes geom: "za_geom numSets ways cands s" and perm: "distinct (za_lookupArray s)" "length (za_lookupArray s) = ways * numSets"
  shows "ways \<le> Suc (length (filter (\<lambda>w. za_lookupArray s ! za_child hash s cs F w \<noteq> l) [0..<ways]))"
proof -
  let ?P = "\<lambda>w. za_lookupArray s ! za_child hash s cs F w = l"
  have "v = w" if "v < ways" "w < ways" "?P v" "?P w" for v w
  proof -
    have "za_child hash s cs F v = za_child hash s cs F w"
    proof -
      have "za_child hash s cs F u < length (za_lookupArray s)" if "u < ways" for u
        using that perm(2) za_pos_bound(3) [OF geom] by (simp add: za_child_def)
      with that show ?thesis using nth_eq_iff_index_eq [OF perm(1)] by metis
    qed
    then show ?thesis using that za_pos_inj [OF geom] by (metis za_child_def nat_neq_iff)
  qed
  then have "card {w. w < ways \<and> ?P w} \<le> Suc 0" by (auto simp: card_le_Suc0_iff_eq)
  moreover have "length (filter ?P [0..<ways]) = card {w. w < ways \<and> ?P w}"
    by (simp add: length_filter_conv_card cong: conj_cong)
  moreover have "length (filter ?P [0..<ways]) + length (filter (\<lambda>w. \<not> ?P w) [0..<ways]) = length [0..<ways]"
    by (rule sum_length_filter_compl)
  ultimately show ?thesis by simp
qed

lemma za_walk_ok:
  assumes geom: "za_geom numSets ways cands s" and perm: "distinct (za_lookupArray s)" "length (za_lookupArray s) = ways * numSets"
    and inv: "walk_inv hash s a F cs av"
  shows "\<exists>cs' av'. za_walk hash s F cs av = Some (cs', av') \<and> (\<forall>k<length cs'. walk_entry hash s a cs' k) \<and>
    length cs \<le> length cs' \<and> (av' \<longrightarrow> cands \<le> length cs')"
  using inv
proof (induction "cands - length cs" arbitrary: F cs av rule: less_induct)
  case less
  have ways: "za_ways s = ways" "za_cands s = cands" "1 < ways" using geom by (auto simp: za_geom_def)
  show ?case
  proof (cases "length cs < cands \<and> av")
    case False
    with less.prems show ?thesis by (subst za_walk.simps) (auto simp: walk_inv_def ways)
  next
    case True
    have F: "F < length cs" using less.prems ways by (auto simp: walk_inv_def)
    then have nz: "za_array s ! zw_lineId (cs ! F) \<noteq> 0" using less.prems True by (auto simp: walk_inv_def)
    have room: "length cs + length [0..<ways] \<le> cands + ways" using True by simp
    obtain ds av' where e:
      "za_expand hash s F (zw_lineId (cs ! F)) (za_array s ! zw_lineId (cs ! F)) [0..<ways] cs av = Some (cs @ ds, av')"
      "walk_inv hash s a F (cs @ ds) av'" "\<forall>w\<in>set [0..<ways]. walk_done hash s (cs @ ds) F w"
      "length ds = length (filter (\<lambda>w. za_lookupArray s ! za_child hash s cs F w \<noteq> zw_lineId (cs ! F)) [0..<ways])"
      using za_expand_ok [OF geom _ less.prems F room] by (auto simp: atLeast0LessThan)
    from e(4) za_children_count [OF geom perm, of hash cs F "zw_lineId (cs ! F)"] ways(3) have grow: "0 < length ds"
      by linarith
    have "F + 1 + ways \<le> length (cs @ ds)"
      using grow less.prems ways(1) by (cases ds) (auto simp: walk_inv_def)
    then have inv': "walk_inv hash s a (F + 1) (cs @ ds) av'"
      using e(2,3) by (auto simp: walk_inv_def less_Suc_eq ways)
    have "cands - length (cs @ ds) < cands - length cs" using True grow by (cases ds) auto
    from less.hyps [OF this inv'] e(1) nz True F show ?thesis
      by (subst za_walk.simps) (auto simp: ways Let_def)
  qed
qed

section \<open>The path\<close>

fun za_chain :: "(nat \<Rightarrow> addr \<Rightarrow> u64) \<Rightarrow> 'r zarray \<Rightarrow> addr \<Rightarrow> nat list \<Rightarrow> bool" where
  "za_chain hash s a [] \<longleftrightarrow> False"
| "za_chain hash s a [p] \<longleftrightarrow> za_home hash s p a"
| "za_chain hash s a (p # q # ps) \<longleftrightarrow>
     za_home hash s p (za_array s ! (za_lookupArray s ! q)) \<and> za_chain hash s a (q # ps)"

definition za_path_ok :: "(nat \<Rightarrow> addr \<Rightarrow> u64) \<Rightarrow> 'r zarray \<Rightarrow> addr \<Rightarrow> nat list \<Rightarrow> bool" where
  "za_path_ok hash s a ps \<longleftrightarrow> za_chain hash s a ps \<and> distinct ps \<and> set ps \<subseteq> {..<za_numLines s}"

definition first_entry :: "zwalk list \<Rightarrow> nat \<Rightarrow> bool" where
  "first_entry cs k \<longleftrightarrow> k < length cs \<and> (\<forall>j<k. zw_lineId (cs ! j) \<noteq> zw_lineId (cs ! k))"

lemma za_path_ok_entry:
  assumes entries: "\<forall>k<length cs. walk_entry hash s a cs k" and ways: "0 < za_ways s"
    and first: "first_entry cs k" and room: "length acc + k div za_ways s < room"
  shows "\<exists>ps. za_path room cs (int k) acc = Some (acc @ ps) \<and> za_path_ok hash s a ps \<and> hd ps = zw_pos (cs ! k) \<and>
    length ps \<le> Suc (k div za_ways s) \<and>
    (\<forall>p\<in>set ps. \<exists>j\<le>k. p = zw_pos (cs ! j) \<and> first_entry cs j)"
  using first room
proof (induction k arbitrary: acc rule: less_induct)
  case (less k)
  have k: "k < length cs" using less.prems by (simp add: first_entry_def)
  with entries have e: "walk_entry hash s a cs k" by blast
  have room: "length acc < room" using less.prems(2) by simp
  have step: "za_path room cs (int k) acc = za_path room cs (zw_parentIdx (cs ! k)) (acc @ [zw_pos (cs ! k)])"
    using room by (subst za_path.simps) simp
  from e consider "zw_parentIdx (cs ! k) = -1" "za_home hash s (zw_pos (cs ! k)) a"
    | p w where "zw_parentIdx (cs ! k) = int p" "p + za_ways s \<le> k" "w < za_ways s"
        "zw_pos (cs ! k) = za_child hash s cs p w"
        "\<forall>p'<p. zw_lineId (cs ! p') = zw_lineId (cs ! p) \<longrightarrow> (\<exists>k'<k. zw_lineId (cs ! k') = zw_lineId (cs ! k))"
    by (auto simp: walk_entry_def)
  then show ?case
  proof cases
    case 1
    have "za_path room cs (-1) (acc @ [zw_pos (cs ! k)]) = Some (acc @ [zw_pos (cs ! k)])"
      by (subst za_path.simps) simp
    with 1 e step less.prems(1) show ?thesis
      by (intro exI [of _ "[zw_pos (cs ! k)]"]) (auto simp: za_path_ok_def walk_entry_def)
  next
    case (2 p w)
    have p: "p < k" using 2(2) ways by simp
    have fp: "first_entry cs p"
      using 2(5) less.prems(1) p k by (auto simp: first_entry_def)
    have "Suc (p div za_ways s) \<le> k div za_ways s"
    proof -
      have "(p + za_ways s) div za_ways s \<le> k div za_ways s" using 2(2) by (rule div_le_mono)
      moreover have "(p + za_ways s) div za_ways s = Suc (p div za_ways s)" using ways by (simp add: div_add_self2)
      ultimately show ?thesis by simp
    qed
    then have "length (acc @ [zw_pos (cs ! k)]) + p div za_ways s < room" using less.prems(2) by simp
    from less.IH [OF p fp this] obtain ps where ps:
      "za_path room cs (int p) (acc @ [zw_pos (cs ! k)]) = Some ((acc @ [zw_pos (cs ! k)]) @ ps)"
      "za_path_ok hash s a ps" "hd ps = zw_pos (cs ! p)" "length ps \<le> Suc (p div za_ways s)"
      "\<forall>q\<in>set ps. \<exists>j\<le>p. q = zw_pos (cs ! j) \<and> first_entry cs j" by blast
    have line: "zw_lineId (cs ! j) = za_lookupArray s ! zw_pos (cs ! j)" if "j < length cs" for j
      using entries that by (auto simp: walk_entry_def)
    have "zw_pos (cs ! k) \<notin> set ps"
    proof
      assume "zw_pos (cs ! k) \<in> set ps"
      then obtain j where j: "j \<le> p" "zw_pos (cs ! k) = zw_pos (cs ! j)" using ps(5) by blast
      then have "zw_lineId (cs ! j) = zw_lineId (cs ! k)" using line [of j] line [OF k] p k by simp
      with j(1) p less.prems(1) show False by (auto simp: first_entry_def)
    qed
    moreover obtain q qs where "ps = q # qs" using ps(2) by (cases ps) (auto simp: za_path_ok_def)
    moreover have "za_home hash s (zw_pos (cs ! k)) (za_array s ! (za_lookupArray s ! zw_pos (cs ! p)))"
      using 2(3,4) line [of p] p k by (auto simp: za_home_def za_child_def)
    ultimately have "za_path_ok hash s a (zw_pos (cs ! k) # ps)"
      using ps(2,3) e by (auto simp: za_path_ok_def walk_entry_def)
    moreover have "\<forall>q\<in>set (zw_pos (cs ! k) # ps). \<exists>j\<le>k. q = zw_pos (cs ! j) \<and> first_entry cs j"
      using ps(5) p less.prems(1) by (auto intro: less_imp_le dest: order_trans)
    ultimately show ?thesis using step ps(1,4) 2(1) \<open>Suc (p div za_ways s) \<le> k div za_ways s\<close>
      by (intro exI [of _ "zw_pos (cs ! k) # ps"]) auto
  qed
qed

section \<open>The swaps\<close>

lemma length_za_swap [simp]: "length (za_swap ps lk) = length lk"
  by (induction ps lk rule: za_swap.induct) simp_all

lemma za_swap_nth:
  assumes "distinct ps" and "set ps \<subseteq> {..<length lk}"
  shows "(\<forall>x. x \<notin> set ps \<longrightarrow> za_swap ps lk ! x = lk ! x) \<and>
    (\<forall>i. Suc i < length ps \<longrightarrow> za_swap ps lk ! (ps ! i) = lk ! (ps ! Suc i))"
  using assms
proof (induction ps lk rule: za_swap.induct)
  case (1 p q ps lk)
  let ?lk = "lk[p := lk ! q]"
  have IH: "\<And>x. x \<notin> set (q # ps) \<Longrightarrow> za_swap (q # ps) ?lk ! x = ?lk ! x"
    "\<And>i. Suc i < length (q # ps) \<Longrightarrow> za_swap (q # ps) ?lk ! ((q # ps) ! i) = ?lk ! ((q # ps) ! Suc i)"
    using "1.IH" "1.prems" by auto
  have p: "p < length lk" "p \<notin> set (q # ps)" using "1.prems" by auto
  have "za_swap (p # q # ps) lk ! ((p # q # ps) ! i) = lk ! ((p # q # ps) ! Suc i)" if "Suc i < length (p # q # ps)" for i
  proof (cases i)
    case 0
    with IH(1) [of p] p show ?thesis by simp
  next
    case (Suc j)
    have "(q # ps) ! Suc j \<in> set (q # ps)" using that Suc by (intro nth_mem) simp
    then have "(q # ps) ! Suc j \<noteq> p" using p(2) by metis
    with IH(2) [of j] that Suc show ?thesis by simp
  qed
  with IH(1) p show ?case by auto
qed auto

lemma za_swap_mset:
  assumes "distinct (p # ps)" and "set (p # ps) \<subseteq> {..<length lk}"
  shows "mset ((za_swap (p # ps) lk)[last (p # ps) := c]) = mset (lk[p := c])"
  using assms
proof (induction ps arbitrary: p lk)
  case (Cons q ps)
  have pq: "p < length lk" "q < length lk" "p \<noteq> q" using Cons.prems by auto
  have "mset ((za_swap (p # q # ps) lk)[last (p # q # ps) := c]) = mset (lk[p := lk ! q, q := c])"
    using Cons.IH [of q "lk[p := lk ! q]"] Cons.prems by simp
  also have "lk[p := lk ! q, q := c] = lk[p := c, q := lk[p := c] ! p, p := lk[p := c] ! q]"
    using pq by (auto intro!: nth_equalityI simp: nth_list_update)
  also have "mset \<dots> = mset (lk[p := c])"
    using pq by (intro mset_swap) simp_all
  finally show ?case .
qed simp

lemma za_chain_nth:
  "za_chain hash s a ps \<Longrightarrow> ps \<noteq> [] \<and> za_home hash s (last ps) a \<and>
     (\<forall>i. Suc i < length ps \<longrightarrow> za_home hash s (ps ! i) (za_array s ! (za_lookupArray s ! (ps ! Suc i))))"
proof (induction hash s a ps rule: za_chain.induct)
  case (3 hash s a p q ps)
  have "za_home hash s ((p # q # ps) ! i) (za_array s ! (za_lookupArray s ! ((p # q # ps) ! Suc i)))"
    if "Suc i < length (p # q # ps)" for i
    using 3 that by (cases i) auto
  with 3 show ?case by simp
qed auto

text \<open>The new \<open>lookupArray\<close>: a permutation again, with every nonempty line at home and the new
  address at one of its positions.\<close>

lemma za_shape_insert:
  assumes shape: "za_shape hash numSets ways cands s" and path: "za_path_ok hash s a ps" and a: "a \<noteq> 0"
    and fresh: "\<forall>l<ways * numSets. za_array s ! l \<noteq> a" and c: "za_lookupArray s ! hd ps = c"
  shows "za_shape hash numSets ways cands
    (s\<lparr>za_lookupArray := (za_swap ps (za_lookupArray s))[last ps := c], za_array := (za_array s)[c := a], za_rp := r, za_statSwaps := k\<rparr>)"
proof -
  let ?lk = "za_lookupArray s" and ?n = "ways * numSets"
  let ?lk' = "(za_swap ps ?lk)[last ps := c]" and ?arr = "(za_array s)[c := a]"
  let ?t = "s\<lparr>za_lookupArray := ?lk', za_array := ?arr, za_rp := r, za_statSwaps := k\<rparr>"
  have geom: "za_geom numSets ways cands s" and len: "length ?lk = ?n" "length (za_array s) = ?n"
    and perm: "distinct ?lk" "set ?lk = {..<?n}"
    using shape by (auto simp: za_shape_def za_geom_def)
  obtain p qs where ps: "ps = p # qs" using path by (cases ps) (auto simp: za_path_ok_def)
  have d: "distinct ps" "set ps \<subseteq> {..<?n}" and chain: "za_chain hash s a ps"
    using path geom by (auto simp: za_path_ok_def za_geom_def)
  have p: "p < ?n" "?lk ! p = c" "p \<in> set ps" using d c ps by auto
  have "?lk ! p \<in> set ?lk" using p(1) len(1) by (intro nth_mem) simp
  then have cn: "c < ?n" unfolding p(2) perm(2) by simp
  have "mset ?lk' = mset (?lk[p := c])"
    using za_swap_mset [of p qs ?lk c] d len ps by auto
  also have "?lk[p := c] = ?lk" using p(2) by (metis list_update_id)
  finally have m: "mset ?lk' = mset ?lk" .
  have perm': "distinct ?lk'" "set ?lk' = {..<?n}"
    using mset_eq_imp_distinct_iff [OF m] mset_eq_setD [OF m] perm by simp_all
  have home_t: "za_home hash ?t = za_home hash s" by (simp add: fun_eq_iff za_home_def za_pos_def)
  have swap: "\<And>x. x \<notin> set ps \<Longrightarrow> za_swap ps ?lk ! x = ?lk ! x"
    "\<And>i. Suc i < length ps \<Longrightarrow> za_swap ps ?lk ! (ps ! i) = ?lk ! (ps ! Suc i)"
    using za_swap_nth [OF d(1), of ?lk] d(2) len by auto
  have other: "?lk ! x \<noteq> c" if "x < ?n" "x \<noteq> p" for x
    using that p perm(1) len by (auto simp: nth_eq_iff_index_eq)
  have home: "za_home hash s x (?arr ! (?lk' ! x))" if x: "x < ?n" "?arr ! (?lk' ! x) \<noteq> 0" for x
  proof -
    consider "x = last ps" | "x \<notin> set ps" | i where "Suc i < length ps" "x = ps ! i" "x \<noteq> last ps"
    proof (cases "x \<in> set ps")
      case True
      then obtain i where i: "i < length ps" "x = ps ! i" by (auto simp: in_set_conv_nth)
      show ?thesis
      proof (cases "Suc i = length ps")
        case True
        with i ps that(1) show ?thesis by (metis diff_Suc_1 last_conv_nth list.distinct(1))
      next
        case False
        with i that(1,3) show ?thesis by (metis Suc_lessI)
      qed
    qed blast
    then show ?thesis
    proof cases
      case 1
      with x(1) len cn za_chain_nth [OF chain] show ?thesis by simp
    next
      case 2
      then have "x \<noteq> last ps" "x \<noteq> p" using ps p(3) by (metis last_in_set list.distinct(1), metis)
      with 2 x swap(1) other [of x] shape show ?thesis by (auto simp: za_shape_def)
    next
      case (3 i)
      then have "ps ! Suc i < ?n" using d(2) by (metis lessThan_iff nth_mem subsetD)
      moreover have "ps ! Suc i \<noteq> p" using d(1) 3(1) ps by (metis Suc_lessD length_greater_0_conv list.distinct(1) nat.distinct(1) nth_Cons_0 nth_eq_iff_index_eq)
      ultimately have "?lk ! (ps ! Suc i) \<noteq> c" by (rule other)
      with 3 swap(2) [of i] za_chain_nth [OF chain] show ?thesis by simp
    qed
  qed
  have uniq: "l = k" if "l < ?n" "k < ?n" "?arr ! l = ?arr ! k" "?arr ! l \<noteq> 0" for l k
  proof (cases "l = c \<or> k = c")
    case True
    with that fresh len cn show ?thesis by (auto simp: nth_list_update split: if_splits)
  next
    case False
    with that shape show ?thesis unfolding za_shape_def by simp
  qed
  have "za_geom numSets ways cands ?t" using geom by (simp add: za_geom_def)
  then show ?thesis
    unfolding za_shape_def home_t using perm' len home uniq by simp
qed

section \<open>The contract\<close>

lemma za_frame [simp]:
  "za_pos hash (s\<lparr>za_rp := r\<rparr>) w a = za_pos hash s w a"
  "za_pos hash (s\<lparr>za_rp := r, za_lastCandIdx := i, za_swapArray := ps\<rparr>) w a = za_pos hash s w a"
  by (simp_all add: za_pos_def)

lemma za_shape_frame [simp]:
  "za_shape hash numSets ways cands (s\<lparr>za_rp := r\<rparr>) = za_shape hash numSets ways cands s"
  "za_shape hash numSets ways cands (s\<lparr>za_rp := r, za_lastCandIdx := i, za_swapArray := ps\<rparr>) = za_shape hash numSets ways cands s"
  by (simp_all add: za_shape_def za_geom_def za_home_def)

lemma za_find_frame [simp]:
  "za_find hash (s\<lparr>za_rp := r\<rparr>) = za_find hash s"
  "za_find hash (s\<lparr>za_rp := r, za_lastCandIdx := i, za_swapArray := ps\<rparr>) = za_find hash s"
  by (simp_all add: za_find_def fun_eq_iff)

lemma za_path_frame [simp]:
  "za_path_ok hash (s\<lparr>za_rp := r\<rparr>) a qs = za_path_ok hash s a qs"
  "za_path_ok hash (s\<lparr>za_rp := r, za_lastCandIdx := i, za_swapArray := ps\<rparr>) a qs = za_path_ok hash s a qs"
proof -
  have "za_chain hash (s\<lparr>za_rp := r\<rparr>) a qs = za_chain hash s a qs"
    "za_chain hash (s\<lparr>za_rp := r, za_lastCandIdx := i, za_swapArray := ps\<rparr>) a qs = za_chain hash s a qs"
    by (induction hash s a qs rule: za_chain.induct) (simp_all add: za_home_def)
  then show "za_path_ok hash (s\<lparr>za_rp := r\<rparr>) a qs = za_path_ok hash s a qs"
    "za_path_ok hash (s\<lparr>za_rp := r, za_lastCandIdx := i, za_swapArray := ps\<rparr>) a qs = za_path_ok hash s a qs"
    by (simp_all add: za_path_ok_def)
qed

definition za_inv :: "('r \<Rightarrow> bool) \<Rightarrow> (nat \<Rightarrow> addr \<Rightarrow> u64) \<Rightarrow> nat \<Rightarrow> nat \<Rightarrow> nat \<Rightarrow> 'r zarray \<Rightarrow> bool" where
  "za_inv rinv hash numSets ways cands s \<longleftrightarrow> rinv (za_rp s) \<and> za_shape hash numSets ways cands s"

definition za_pend :: "('r \<Rightarrow> nat \<Rightarrow> bool) \<Rightarrow> (nat \<Rightarrow> addr \<Rightarrow> u64) \<Rightarrow> nat \<Rightarrow> nat \<Rightarrow> nat \<Rightarrow> 'r zarray \<Rightarrow> addr \<Rightarrow> nat \<Rightarrow> bool" where
  "za_pend rpend hash numSets ways cands s a l \<longleftrightarrow> rpend (za_rp s) l \<and> za_shape hash numSets ways cands s \<and>
     a \<noteq> 0 \<and> za_find hash s a = None \<and> za_path_ok hash s a (za_swapArray s) \<and> za_lookupArray s ! hd (za_swapArray s) = l"

definition za_tag :: "'r zarray \<Rightarrow> nat \<Rightarrow> addr" where
  "za_tag s l = (if l < length (za_array s) then za_array s ! l else 0)"

lemma za_lookup_lt:
  assumes "za_shape hash numSets ways cands s" and "p < ways * numSets"
  shows "za_lookupArray s ! p < ways * numSets"
proof -
  have "za_lookupArray s ! p \<in> set (za_lookupArray s)" using assms by (intro nth_mem) (simp add: za_shape_def)
  then show ?thesis using assms(1) by (simp add: za_shape_def)
qed

lemma za_find_Some:
  assumes shape: "za_shape hash numSets ways cands s" and f: "za_find hash s a = Some l"
  shows "l < ways * numSets \<and> za_array s ! l = a"
proof -
  have geom: "za_geom numSets ways cands s" and w: "za_ways s = ways" using shape by (auto simp: za_shape_def za_geom_def)
  from f obtain w where "w < ways" "l = za_lookupArray s ! za_pos hash s w a" "za_array s ! l = a"
    by (auto simp: za_find_def w dest!: find_Some_in)
  then show ?thesis using za_lookup_lt [OF shape za_pos_bound(3) [OF geom]] by simp
qed

lemma za_find_tag:
  assumes shape: "za_shape hash numSets ways cands s" and l: "l < ways * numSets" "za_array s ! l \<noteq> 0"
  shows "za_find hash s (za_array s ! l) = Some l"
proof -
  let ?a = "za_array s ! l"
  have "l \<in> set (za_lookupArray s)" using shape l(1) by (simp add: za_shape_def)
  then obtain p where p: "p < ways * numSets" "za_lookupArray s ! p = l"
    using shape by (auto simp: in_set_conv_nth za_shape_def)
  with shape l(2) have "za_home hash s p ?a" unfolding za_shape_def by metis
  then obtain w where "w < za_ways s" "za_lookupArray s ! za_pos hash s w ?a = l" using p by (auto simp: za_home_def)
  then have "\<exists>v. List.find (\<lambda>w. za_array s ! (za_lookupArray s ! za_pos hash s w ?a) = ?a) [0..<za_ways s] = Some v"
    by (intro find_ex [of w]) auto
  then obtain k where k: "za_find hash s ?a = Some k" by (auto simp: za_find_def)
  from za_find_Some [OF shape k] shape l have "k = l" unfolding za_shape_def by metis
  with k show ?thesis by simp
qed

lemma za_seeds_inv:
  assumes geom: "za_geom numSets ways cands s"
  shows "walk_inv hash s a 0 (za_seeds hash s a) (list_all (\<lambda>c. za_array s ! zw_lineId c \<noteq> 0) (za_seeds hash s a))"
  using za_pos_bound(3) [OF geom] geom
  by (auto simp: walk_inv_def walk_entry_def za_seeds_def za_geom_def za_home_def list_all_length)

text \<open>The whole of \<open>preinsert\<close>: no assertion fails and no array is overrun.\<close>

lemma za_preinsert_ok:
  assumes rp: "\<And>cands'. set cands' \<subseteq> {..<ways * numSets} \<Longrightarrow> cands' \<noteq> [] \<Longrightarrow> length cands' \<le> cands \<Longrightarrow>
      \<exists>r v. rp_rank rp cc (za_rp s) req cands' = Some (r, v) \<and> v \<in> set cands' \<and> R r v"
    and shape: "za_shape hash numSets ways cands s"
  shows "\<exists>r i ps l. za_preinsert rp hash cc s a req =
      Some (s\<lparr>za_rp := r, za_lastCandIdx := i, za_swapArray := ps\<rparr>, l, za_array s ! l) \<and>
    l < ways * numSets \<and> R r l \<and> za_path_ok hash s a ps \<and> za_lookupArray s ! hd ps = l"
proof -
  have geom: "za_geom numSets ways cands s" and perm: "distinct (za_lookupArray s)" "length (za_lookupArray s) = ways * numSets"
    and c: "za_ways s = ways" "za_cands s = cands" "za_numLines s = ways * numSets" "1 < ways" "ways \<le> cands"
    using shape by (auto simp: za_shape_def za_geom_def)
  let ?seeds = "za_seeds hash s a" and ?av = "list_all (\<lambda>c. za_array s ! zw_lineId c \<noteq> 0) (za_seeds hash s a)"
  obtain cs av where w: "za_walk hash s 0 ?seeds ?av = Some (cs, av)" "\<forall>k<length cs. walk_entry hash s a cs k"
    "length ?seeds \<le> length cs" "av \<longrightarrow> cands \<le> length cs"
    using za_walk_ok [OF geom perm za_seeds_inv [OF geom]] by blast
  let ?cs = "take cands cs"
  have entries: "\<forall>k<length ?cs. walk_entry hash s a ?cs k"
    using w(2) by (auto intro: walk_entry_take)
  have ne: "?cs \<noteq> []" using w(3) c by (auto simp: za_seeds_def)
  have "zw_lineId (?cs ! k) < ways * numSets" if "k < length ?cs" for k
    using entries that c(3) za_lookup_lt [OF shape] by (auto simp: walk_entry_def)
  then have sub: "set (map zw_lineId ?cs) \<subseteq> {..<ways * numSets}" by (auto simp: in_set_conv_nth)
  obtain r l where r: "rp_rank rp cc (za_rp s) req (map zw_lineId ?cs) = Some (r, l)" "l \<in> set (map zw_lineId ?cs)" "R r l"
    using rp [OF sub] ne by auto
  have l: "l < ways * numSets" using r(2) sub by blast
  from r(2) obtain k where "k < length ?cs" "l = zw_lineId (?cs ! k)" by (auto simp: in_set_conv_nth)
  then obtain i where i: "List.find (\<lambda>i. l = zw_lineId (?cs ! i)) [0..<length ?cs] = Some i"
    using find_ex [of k "[0..<length ?cs]" "\<lambda>i. l = zw_lineId (?cs ! i)"] by auto
  from find_upt [OF i] have iy: "i < length ?cs" "l = zw_lineId (?cs ! i)" and first: "first_entry ?cs i"
    by (auto simp: first_entry_def)
  have room: "length [] + i div za_ways s < cands div ways + 2"
    using iy(1) c div_le_mono [of i cands ways] by simp
  obtain ps where ps: "za_path (cands div ways + 2) ?cs (int i) [] = Some ps" "za_path_ok hash s a ps" "hd ps = zw_pos (?cs ! i)"
    using za_path_ok_entry [OF entries _ first room] c by auto
  have "ps \<noteq> []" using ps(2) by (cases ps) (auto simp: za_path_ok_def)
  moreover have "za_lookupArray s ! hd ps = l" using ps(3) iy(2) entries iy(1) by (auto simp: walk_entry_def)
  moreover from \<open>ps \<noteq> []\<close> have "za_preinsert rp hash cc s a req =
      Some (s\<lparr>za_rp := r, za_lastCandIdx := i, za_swapArray := ps\<rparr>, l, za_array s ! l)"
    using w(1,4) r(1) i l ps(1) c by (auto simp: za_preinsert_def)
  ultimately show ?thesis using l r(3) ps(2) by blast
qed

locale zcache_array = repl_policy rp rinv rpend n adm
  for rp :: "'r rp_ops" and rinv rpend and n :: nat and adm +
  fixes hash :: "nat \<Rightarrow> addr \<Rightarrow> u64" and numSets ways cands :: nat
  assumes lines: "n = ways * numSets"
    and adm_cands: "cs \<noteq> [] \<Longrightarrow> length cs \<le> cands \<Longrightarrow> adm cs"

sublocale zcache_array \<subseteq> za: cache_array "za_ops rp hash" "za_inv rinv hash numSets ways cands"
  "za_pend rpend hash numSets ways cands" "za_find hash" za_tag n
proof unfold_locales
  fix s and a :: addr and req upd assume inv: "za_inv rinv hash numSets ways cands s" and "a \<noteq> 0"
  then have shape: "za_shape hash numSets ways cands s" and rinv: "rinv (za_rp s)" by (auto simp: za_inv_def)
  show "\<exists>s'. ca_lookup (za_ops rp hash) s a req upd = Some (s', za_find hash s a) \<and>
    za_inv rinv hash numSets ways cands s' \<and> za_find hash s' = za_find hash s \<and> za_tag s' = za_tag s"
  proof (cases "za_find hash s a")
    case None
    with inv \<open>a \<noteq> 0\<close> show ?thesis by (simp add: za_ops_def za_lookup_def)
  next
    case (Some l)
    then have "l < n" using za_find_Some [OF shape] lines by simp
    then obtain r where "rp_update rp (za_rp s) l req = Some r" "rinv r" by (rule update_ex [OF rinv])
    with Some inv shape \<open>a \<noteq> 0\<close> show ?thesis
      by (cases upd) (auto simp: za_ops_def za_lookup_def za_inv_def za_tag_def fun_eq_iff)
  qed
next
  fix s b l and a :: addr and req upd assume pend: "za_pend rpend hash numSets ways cands s b l" and "a \<noteq> 0"
  then have shape: "za_shape hash numSets ways cands s" and rpend: "rpend (za_rp s) l" by (auto simp: za_pend_def)
  show "\<exists>s'. ca_lookup (za_ops rp hash) s a req upd = Some (s', za_find hash s a) \<and>
    za_pend rpend hash numSets ways cands s' b l \<and> za_find hash s' = za_find hash s \<and> za_tag s' = za_tag s"
  proof (cases "za_find hash s a")
    case None
    with pend \<open>a \<noteq> 0\<close> show ?thesis by (simp add: za_ops_def za_lookup_def)
  next
    case (Some k)
    then have k: "k < n" using za_find_Some [OF shape] lines by simp
    obtain r where "rp_update rp (za_rp s) k req = Some r" "rpend r l"
      using update_total_pend [OF rpend k, of req] update_pend [OF rpend k, of req] by blast
    then show ?thesis using Some pend \<open>a \<noteq> 0\<close>
      by (cases upd) (auto simp: za_ops_def za_lookup_def za_pend_def za_tag_def fun_eq_iff)
  qed
next
  fix s a l assume "za_inv rinv hash numSets ways cands s" "za_find hash s a = Some l"
  then show "l < n \<and> za_tag s l = a"
    using za_find_Some [of hash numSets ways cands s a l] lines by (auto simp: za_inv_def za_tag_def za_shape_def za_geom_def)
next
  fix s l assume "za_inv rinv hash numSets ways cands s" "l < n" "za_tag s l \<noteq> 0"
  then show "za_find hash s (za_tag s l) = Some l"
    using za_find_tag [of hash numSets ways cands s l] lines
    by (auto simp: za_inv_def za_tag_def za_shape_def za_geom_def split: if_splits)
next
  fix s and a :: addr and cc req assume inv: "za_inv rinv hash numSets ways cands s" and a: "a \<noteq> 0" "za_find hash s a = None"
  then have shape: "za_shape hash numSets ways cands s" and rinv: "rinv (za_rp s)" by (auto simp: za_inv_def)
  have "\<exists>r v. rp_rank rp cc (za_rp s) req cs = Some (r, v) \<and> v \<in> set cs \<and> rpend r v"
    if "set cs \<subseteq> {..<ways * numSets}" "cs \<noteq> []" "length cs \<le> cands" for cs
    using rank_ex [OF rinv adm_cands [OF that(2,3)], of cc req] that lines by metis
  from za_preinsert_ok [where R = rpend and rp = rp and hash = hash and a = a, OF this shape] obtain r i ps l where
    p: "za_preinsert rp hash cc s a req = Some (s\<lparr>za_rp := r, za_lastCandIdx := i, za_swapArray := ps\<rparr>, l, za_array s ! l)"
      "l < ways * numSets" "rpend r l" "za_path_ok hash s a ps" "za_lookupArray s ! hd ps = l" by blast
  let ?t = "s\<lparr>za_rp := r, za_lastCandIdx := i, za_swapArray := ps\<rparr>"
  have "length (za_array s) = ways * numSets" using shape by (simp add: za_shape_def za_geom_def)
  with p a shape have "ca_preinsert (za_ops rp hash) cc s a req = Some (?t, l, za_tag s l) \<and> l < n \<and>
    za_pend rpend hash numSets ways cands ?t a l \<and> za_find hash ?t = za_find hash s \<and> za_tag ?t = za_tag s"
    by (simp add: za_ops_def za_pend_def za_tag_def fun_eq_iff lines)
  then show "\<exists>s' l. ca_preinsert (za_ops rp hash) cc s a req = Some (s', l, za_tag s l) \<and> l < n \<and>
    za_pend rpend hash numSets ways cands s' a l \<and> za_find hash s' = za_find hash s \<and> za_tag s' = za_tag s" by blast
next
  fix s a req l assume pend: "za_pend rpend hash numSets ways cands s a l"
  then have shape: "za_shape hash numSets ways cands s" and rpend: "rpend (za_rp s) l" and a: "a \<noteq> 0" "za_find hash s a = None"
    and path: "za_path_ok hash s a (za_swapArray s)" "za_lookupArray s ! hd (za_swapArray s) = l" by (auto simp: za_pend_def)
  have ne: "za_swapArray s \<noteq> []" using path(1) by (cases "za_swapArray s") (auto simp: za_path_ok_def)
  from hd_in_set [OF ne] have "hd (za_swapArray s) < ways * numSets"
    using path(1) shape by (auto simp: za_path_ok_def za_shape_def za_geom_def)
  then have l: "l < n" using za_lookup_lt [OF shape] path(2) lines by auto
  obtain r1 where r1: "rp_replaced rp (za_rp s) l = Some r1" "rinv r1" by (rule replaced_ex [OF rpend])
  obtain r2 where r2: "rp_update rp r1 l req = Some r2" "rinv r2" by (rule update_ex [OF r1(2) l])
  have fresh: "\<forall>k<ways * numSets. za_array s ! k \<noteq> a" using za_find_tag [OF shape] a by auto
  let ?t = "s\<lparr>za_lookupArray := (za_swap (za_swapArray s) (za_lookupArray s))[last (za_swapArray s) := l],
    za_array := (za_array s)[l := a], za_rp := r2, za_statSwaps := za_statSwaps s + (length (za_swapArray s) - 1)\<rparr>"
  have "ca_postinsert (za_ops rp hash) s a req l = Some ?t"
    using r1 r2 ne path(2) by (simp add: za_ops_def za_postinsert_def)
  moreover have "za_inv rinv hash numSets ways cands ?t"
    using za_shape_insert [OF shape path(1) a(1) fresh path(2)] r2(2) by (simp add: za_inv_def)
  moreover have "za_tag ?t = (za_tag s)(l := a)"
    using l shape lines by (auto simp: za_tag_def fun_eq_iff za_shape_def za_geom_def)
  ultimately show "\<exists>s'. ca_postinsert (za_ops rp hash) s a req l = Some s' \<and>
    za_inv rinv hash numSets ways cands s' \<and> za_tag s' = (za_tag s)(l := a)" by blast
qed

interpretation za_lru: zcache_array "lru_ops aw" "lru_inv (w * m)" "\<lambda>s v. lru_inv (w * m) s \<and> v < w * m"
  "w * m" "\<lambda>cands. cands \<noteq> []" hash m w k for aw w m k hash
  by unfold_locales auto

interpretation za_nru: zcache_array nru_ops "nru_inv (w * m) k" "\<lambda>s v. nru_base (w * m) k s \<and> v < w * m"
  "w * m" "\<lambda>cands. cands \<noteq> [] \<and> length cands \<le> k" hash m w k for w m k hash
  by unfold_locales auto

interpretation za_srrip: zcache_array srrip_ops "srrip_inv (w * m)" "\<lambda>s v. srrip_inv (w * m) s \<and> v < w * m"
  "w * m" "\<lambda>cands. cands \<noteq> []" hash m w k for w m k hash
  by unfold_locales auto

section \<open>Properties\<close>

lemma za_new_shape:
  assumes "numSets = 2 ^ j" and "j < 32" and "1 < ways" and "ways \<le> cands"
  shows "\<exists>s. za_new r (ways * numSets) ways cands = Some s \<and> za_rp s = r \<and> za_shape hash numSets ways cands s \<and>
    za_array s = replicate (ways * numSets) 0"
proof -
  have ns: "numSets < 2 ^ 32" "0 < numSets"
    unfolding assms(1) using assms(2) power_strict_increasing [of j 32 "2::nat"] by auto
  then have "unat (of_nat numSets :: u32) = 2 ^ j"
    using assms(2) by (simp only: unsigned_of_nat take_bit_nat_eq_self len_of_numeral_defs assms(1)) simp
  then have "isPow2 (of_nat numSets)" by (auto simp: isPow2_iff)
  with ns assms(3,4) show ?thesis
    by (simp add: za_new_def Let_def za_shape_def za_geom_def atLeast0LessThan)
qed

text \<open>C12. A zcache keeps its map exact. After a miss, the breadth-first walk ends, no assertion of
  \<open>preinsert\<close> or \<open>postinsert\<close> fails and neither scratch array is overrun; the new address is then
  found at the line chosen, the address of that line is forgotten, and every line that the swaps
  moved is still found.\<close>

theorem zcache_lru_insert:
  assumes "za_inv (lru_inv (ways * numSets)) hash numSets ways cands s" and "a \<noteq> 0" and "za_find hash s a = None"
  shows "\<exists>s' l. ca_insert (za_ops (lru_ops aw) hash) cc s a req = Some (s', l, za_tag s l) \<and>
    za_inv (lru_inv (ways * numSets)) hash numSets ways cands s' \<and> za_find hash s' a = Some l \<and>
    (\<forall>b. b \<noteq> 0 \<longrightarrow> b \<noteq> a \<longrightarrow> za_find hash s' b = (if za_tag s l = b then None else za_find hash s b))"
  using assms by (rule za_lru.za.insert_find)

theorem zcache_lru_insert_witness:
  "\<exists>s s' l. za_new (lru_new 4) 4 2 4 = Some s \<and>
    ca_insert (za_ops (lru_ops False) (\<lambda>w a. drop_bit w a)) undefined s 6 (read_req 6) = Some (s', l, 0) \<and>
    za_find (\<lambda>w a. drop_bit w a) s' 6 = Some l"
proof -
  let ?h = "\<lambda>w a. drop_bit w a :: u64"
  obtain s where s: "za_new (lru_new 4) 4 2 4 = Some s" "za_rp s = lru_new 4" "za_shape ?h 2 2 4 s"
    "za_array s = replicate 4 0"
    using za_new_shape [of 2 1 2 4 "lru_new 4" ?h] by auto
  have inv: "za_inv (lru_inv (2 * 2)) ?h 2 2 4 s" using s(2,3) by (simp add: za_inv_def)
  have none: "za_find ?h s 6 = None"
  proof (cases "za_find ?h s 6")
    case (Some l)
    with za_find_Some [OF s(3) Some] s(4) show ?thesis by auto
  qed
  obtain s' l where "ca_insert (za_ops (lru_ops False) ?h) undefined s 6 (read_req 6) = Some (s', l, za_tag s l)"
    "za_find ?h s' 6 = Some l"
    using zcache_lru_insert [OF inv _ none, of False undefined "read_req 6"] by auto
  moreover have "za_tag s l = 0" by (simp add: za_tag_def s(4))
  ultimately show ?thesis using s(1) by auto
qed

end
