(* ===== verification/Coherence.thy ===== *)
theory Coherence
  imports Cache_Arrays
begin

text \<open>
  The MESI controllers (\<^verbatim>\<open>zsim/src/coherence_ctrls.h\<close>, \<^verbatim>\<open>coherence_ctrls.cpp\<close>) and
  \<open>Cache::access\<close> and \<open>Cache::finishInvalidate\<close> (\<^verbatim>\<open>cache.cpp\<close>).

  A hierarchy is a list of caches, the explicit store that the calls share: a parent writes the
  line state of its child through the pointer \<open>MESIState*\<close> of a request (\<open>LineCell\<close>), and an
  access may come back down as an invalidation of the cache that issued it. The two calls that
  leave a cache are parameters of its operations: \<open>pacc p\<close> is \<open>parents[p]->access\<close>, \<open>cinv i\<close> is
  \<open>children[i]->invalidate\<close>, which also returns the new value behind \<open>reqWriteback\<close>.

  Calls run one at a time: the locks, which only order concurrent calls, are left out, and so are
  the event recorders, which the fixed-latency memory does not use. Every assertion and panic of
  the code is a \<open>None\<close>.
\<close>

section \<open>State\<close>

datatype bcc_ctr = GETSHit | GETSMiss | GETXHit | GETXMissIM | GETXMissSM | CtrPUTS | CtrPUTX
  | CtrINV | CtrINVX | CtrFWD | GETNextLevelLat | GETNetLat

record bcc =
  bc_array :: "mesi list"
  bc_parentRTTs :: "nat list"
  bc_selfId :: nat
  bc_prof :: "bcc_ctr \<Rightarrow> nat"
  bc_nonInclusiveHack :: bool

record tcc_entry =
  te_numSharers :: nat
  te_sharers :: "nat \<Rightarrow> bool"
  te_exclusive :: bool

record tcc =
  tc_array :: "tcc_entry list"
  tc_childrenRTTs :: "nat list"
  tc_nonInclusiveHack :: bool

text \<open>A cache with its controllers; \<open>c_terminal\<close> says whether the controller is a
  \<open>MESITerminalCC\<close>, whose \<open>c_tcc\<close> is unused.\<close>

record 'a cache =
  c_bcc :: bcc
  c_tcc :: tcc
  c_array :: 'a
  c_terminal :: bool
  c_nonInclusiveHack :: bool
  c_accLat :: nat
  c_invLat :: nat

type_synonym 'a hier = "'a cache list"

type_synonym 'a parent_access = "nat \<Rightarrow> 'a hier \<Rightarrow> memreq \<Rightarrow> ('a hier \<times> nat) option"
type_synonym 'a child_invalidate = "nat \<Rightarrow> 'a hier \<Rightarrow> invreq \<Rightarrow> ('a hier \<times> bool \<times> nat) option"

definition bcc_new :: "nat \<Rightarrow> nat \<Rightarrow> bool \<Rightarrow> nat list \<Rightarrow> bcc" where
  "bcc_new numLines selfId nonInclusiveHack parentRTTs =
     \<lparr>bc_array = replicate numLines I, bc_parentRTTs = parentRTTs, bc_selfId = selfId,
      bc_prof = (\<lambda>_. 0), bc_nonInclusiveHack = nonInclusiveHack\<rparr>"

definition entry_clear :: "tcc_entry \<Rightarrow> tcc_entry" where
  "entry_clear e = e\<lparr>te_exclusive := False, te_numSharers := 0, te_sharers := \<lambda>_. False\<rparr>"

definition entry_isEmpty :: "tcc_entry \<Rightarrow> bool" where
  "entry_isEmpty e \<longleftrightarrow> te_numSharers e = 0"

definition entry_isExclusive :: "tcc_entry \<Rightarrow> bool" where
  "entry_isExclusive e \<longleftrightarrow> te_numSharers e = 1 \<and> te_exclusive e"

text \<open>\<open>init\<close> panics above \<open>MAX_CACHE_CHILDREN\<close> = 256 children.\<close>

definition tcc_new :: "nat \<Rightarrow> bool \<Rightarrow> nat list \<Rightarrow> tcc option" where
  "tcc_new numLines nonInclusiveHack childrenRTTs =
     (if length childrenRTTs > 256 then None
      else Some \<lparr>tc_array = replicate numLines \<lparr>te_numSharers = 0, te_sharers = \<lambda>_. False, te_exclusive = False\<rparr>,
                 tc_childrenRTTs = childrenRTTs, tc_nonInclusiveHack = nonInclusiveHack\<rparr>)"

text \<open>Line states, directory entries and counters in the store.\<close>

definition st :: "'a hier \<Rightarrow> nat \<Rightarrow> nat \<Rightarrow> mesi" where
  "st h c l = bc_array (c_bcc (h ! c)) ! l"

definition set_st :: "nat \<Rightarrow> nat \<Rightarrow> mesi \<Rightarrow> 'a hier \<Rightarrow> 'a hier" where
  "set_st c l x h = h[c := (h ! c)\<lparr>c_bcc := (c_bcc (h ! c))\<lparr>bc_array := (bc_array (c_bcc (h ! c)))[l := x]\<rparr>\<rparr>]"

definition dir :: "'a hier \<Rightarrow> nat \<Rightarrow> nat \<Rightarrow> tcc_entry" where
  "dir h c l = tc_array (c_tcc (h ! c)) ! l"

definition set_dir :: "nat \<Rightarrow> nat \<Rightarrow> tcc_entry \<Rightarrow> 'a hier \<Rightarrow> 'a hier" where
  "set_dir c l e h = h[c := (h ! c)\<lparr>c_tcc := (c_tcc (h ! c))\<lparr>tc_array := (tc_array (c_tcc (h ! c)))[l := e]\<rparr>\<rparr>]"

definition set_arr :: "nat \<Rightarrow> 'a \<Rightarrow> 'a hier \<Rightarrow> 'a hier" where
  "set_arr c a h = h[c := (h ! c)\<lparr>c_array := a\<rparr>]"

definition inc_prof :: "nat \<Rightarrow> bcc_ctr \<Rightarrow> nat \<Rightarrow> 'a hier \<Rightarrow> 'a hier" where
  "inc_prof c k d h = h[c := (h ! c)\<lparr>c_bcc := (c_bcc (h ! c))
     \<lparr>bc_prof := (bc_prof (c_bcc (h ! c)))(k := bc_prof (c_bcc (h ! c)) k + d)\<rparr>\<rparr>]"

fun cell :: "'a hier \<Rightarrow> stptr \<Rightarrow> mesi" where
  "cell h (LineCell c l) = st h c l"
| "cell h LocalCell = I"

fun set_cell :: "stptr \<Rightarrow> mesi \<Rightarrow> 'a hier \<Rightarrow> 'a hier" where
  "set_cell (LineCell c l) x h = set_st c l x h"
| "set_cell LocalCell x h = h"

section \<open>The bottom controller\<close>

definition getParentId :: "nat \<Rightarrow> addr \<Rightarrow> nat" where
  "getParentId nparents lineAddr =
     unat (fold (\<lambda>i res. res XOR ucast (0xFFFF AND drop_bit (16 * i) lineAddr)) [0..<4] (0 :: u32)) mod nparents"

definition bcc_req :: "nat \<Rightarrow> nat \<Rightarrow> 'a hier \<Rightarrow> addr \<Rightarrow> access_type \<Rightarrow> nat \<Rightarrow> nat \<Rightarrow> u32 \<Rightarrow> memreq" where
  "bcc_req c l h lineAddr type cycle srcId flags =
     \<lparr>mr_lineAddr = lineAddr, mr_type = type, mr_childId = bc_selfId (c_bcc (h ! c)), mr_state = LineCell c l,
      mr_cycle = cycle, mr_childLock = True, mr_initialState = st h c l, mr_srcId = srcId, mr_flags = flags\<rparr>"

definition bcc_parent :: "nat \<Rightarrow> 'a hier \<Rightarrow> addr \<Rightarrow> nat" where
  "bcc_parent c h lineAddr = getParentId (length (bc_parentRTTs (c_bcc (h ! c)))) lineAddr"

definition bcc_processEviction :: "'a parent_access \<Rightarrow> nat \<Rightarrow> addr \<Rightarrow> nat \<Rightarrow> bool \<Rightarrow> nat \<Rightarrow> nat \<Rightarrow> 'a hier \<Rightarrow>
    ('a hier \<times> nat) option" where
  "bcc_processEviction pacc c wbLineAddr l lowerLevelWriteback cycle srcId h =
     Option.bind (guard (lowerLevelWriteback \<longrightarrow> st h c l = M \<or> st h c l = E)) (\<lambda>_.
     let h1 = (if lowerLevelWriteback then set_st c l M h else h);
         put = (\<lambda>t. pacc (bcc_parent c h1 wbLineAddr) h1 (bcc_req c l h1 wbLineAddr t cycle srcId 0))
     in Option.bind
          (case st h1 c l of
             I \<Rightarrow> Some (h1, cycle)
           | S \<Rightarrow> put PUTS
           | E \<Rightarrow> put PUTS
           | M \<Rightarrow> put PUTX) (\<lambda>(h2, respCycle).
        Option.bind (guard (st h2 c l = I)) (\<lambda>_. Some (h2, respCycle))))"

text \<open>A GET to the parent, with its profiling; the latencies are 32-bit variables.\<close>

definition bcc_get :: "'a parent_access \<Rightarrow> nat \<Rightarrow> addr \<Rightarrow> nat \<Rightarrow> access_type \<Rightarrow> nat \<Rightarrow> nat \<Rightarrow> u32 \<Rightarrow> 'a hier \<Rightarrow>
    ('a hier \<times> nat) option" where
  "bcc_get pacc c lineAddr l type cycle srcId flags h =
     (let p = bcc_parent c h lineAddr in
      Option.bind (pacc p h (bcc_req c l h lineAddr type cycle srcId flags)) (\<lambda>(h1, resp).
      let nextLevelLat = (resp - cycle) mod 2 ^ 32;
          netLat = bc_parentRTTs (c_bcc (h1 ! c)) ! p
      in Some (inc_prof c GETNetLat netLat (inc_prof c GETNextLevelLat nextLevelLat h1),
               cycle + (nextLevelLat + netLat) mod 2 ^ 32)))"

definition bcc_processAccess :: "'a parent_access \<Rightarrow> nat \<Rightarrow> addr \<Rightarrow> nat \<Rightarrow> access_type \<Rightarrow> nat \<Rightarrow> nat \<Rightarrow> u32 \<Rightarrow>
    'a hier \<Rightarrow> ('a hier \<times> nat) option" where
  "bcc_processAccess pacc c lineAddr l type cycle srcId flags h =
     (case type of
        PUTS \<Rightarrow> Option.bind (guard (st h c l \<noteq> I)) (\<lambda>_. Some (inc_prof c CtrPUTS 1 h, cycle))
      | PUTX \<Rightarrow> Option.bind (guard (st h c l = M \<or> st h c l = E)) (\<lambda>_.
          Some (inc_prof c CtrPUTX 1 (if st h c l = E then set_st c l M h else h), cycle))
      | GETS \<Rightarrow>
          (if st h c l = I then
             Option.bind (bcc_get pacc c lineAddr l GETS cycle srcId flags h) (\<lambda>(h1, resp).
             Option.bind (guard (st h1 c l = S \<or> st h1 c l = E)) (\<lambda>_.
             Some (inc_prof c GETSMiss 1 h1, resp)))
           else Some (inc_prof c GETSHit 1 h, cycle))
      | GETX \<Rightarrow>
          Option.bind
            (if st h c l = I \<or> st h c l = S then
               bcc_get pacc c lineAddr l GETX cycle srcId flags
                 (inc_prof c (if st h c l = I then GETXMissIM else GETXMissSM) 1 h)
             else Some (inc_prof c GETXHit 1 (if st h c l = E then set_st c l M h else h), cycle))
            (\<lambda>(h1, resp). Option.bind (guard (st h1 c l = M)) (\<lambda>_. Some (h1, resp))))"

definition bcc_processWritebackOnAccess :: "nat \<Rightarrow> nat \<Rightarrow> 'a hier \<Rightarrow> 'a hier option" where
  "bcc_processWritebackOnAccess c l h =
     Option.bind (guard (st h c l = M \<or> st h c l = E)) (\<lambda>_.
     Some (if st h c l = E then set_st c l M h else h))"

text \<open>Returns the new value behind \<open>reqWriteback\<close>.\<close>

definition bcc_processInval :: "nat \<Rightarrow> nat \<Rightarrow> inv_type \<Rightarrow> bool \<Rightarrow> 'a hier \<Rightarrow> ('a hier \<times> bool) option" where
  "bcc_processInval c l type reqWriteback h =
     (let s = st h c l in
      Option.bind (guard (s \<noteq> I)) (\<lambda>_.
      case type of
        INVX \<Rightarrow> Option.bind (guard (s = E \<or> s = M)) (\<lambda>_.
                Some (inc_prof c CtrINVX 1 (set_st c l S h), reqWriteback \<or> s = M))
      | INV \<Rightarrow> Some (inc_prof c CtrINV 1 (set_st c l I h), reqWriteback \<or> s = M)
      | FWD \<Rightarrow> Option.bind (guard (s = S)) (\<lambda>_. Some (inc_prof c CtrFWD 1 h, reqWriteback))))"

definition bcc_processNonInclusiveWriteback :: "'a parent_access \<Rightarrow> nat \<Rightarrow> addr \<Rightarrow> access_type \<Rightarrow> nat \<Rightarrow>
    stptr \<Rightarrow> nat \<Rightarrow> u32 \<Rightarrow> 'a hier \<Rightarrow> ('a hier \<times> nat) option" where
  "bcc_processNonInclusiveWriteback pacc c lineAddr type cycle state srcId flags h =
     (if \<not> bc_nonInclusiveHack (c_bcc (h ! c)) then None
      else pacc (bcc_parent c h lineAddr) h
        \<lparr>mr_lineAddr = lineAddr, mr_type = type, mr_childId = bc_selfId (c_bcc (h ! c)), mr_state = state,
         mr_cycle = cycle, mr_childLock = True, mr_initialState = cell h state, mr_srcId = srcId,
         mr_flags = flags OR NONINCLWB\<rparr>)"

section \<open>The top controller\<close>

text \<open>The loop of \<open>sendInvalidates\<close> over the children, with \<open>maxCycle\<close> and \<open>sentInvs\<close>.\<close>

fun send_loop :: "'a child_invalidate \<Rightarrow> nat \<Rightarrow> addr \<Rightarrow> nat \<Rightarrow> inv_type \<Rightarrow> nat \<Rightarrow> nat \<Rightarrow> nat list \<Rightarrow>
    'a hier \<Rightarrow> bool \<Rightarrow> nat \<Rightarrow> nat \<Rightarrow> ('a hier \<times> bool \<times> nat \<times> nat) option" where
  "send_loop cinv c lineAddr l type cycle srcId [] h wb maxCycle sentInvs = Some (h, wb, maxCycle, sentInvs)"
| "send_loop cinv c lineAddr l type cycle srcId (i # cs) h wb maxCycle sentInvs =
     (if te_sharers (dir h c l) i then
        Option.bind (cinv i h \<lparr>ir_lineAddr = lineAddr, ir_type = type, ir_writeback = wb, ir_cycle = cycle, ir_srcId = srcId\<rparr>)
          (\<lambda>(h1, wb1, respCycle).
        let h2 = (if type = INV
                  then set_dir c l ((dir h1 c l)\<lparr>te_sharers := (te_sharers (dir h1 c l))(i := False)\<rparr>) h1 else h1)
        in send_loop cinv c lineAddr l type cycle srcId cs h2 wb1
             (max (respCycle + tc_childrenRTTs (c_tcc (h1 ! c)) ! i) maxCycle) (sentInvs + 1))
      else send_loop cinv c lineAddr l type cycle srcId cs h wb maxCycle sentInvs)"

definition tcc_sendInvalidates :: "'a child_invalidate \<Rightarrow> nat \<Rightarrow> addr \<Rightarrow> nat \<Rightarrow> inv_type \<Rightarrow> bool \<Rightarrow> nat \<Rightarrow> nat \<Rightarrow>
    'a hier \<Rightarrow> ('a hier \<times> bool \<times> nat) option" where
  "tcc_sendInvalidates cinv c lineAddr l type reqWriteback cycle srcId h =
     (if type = INVX \<and> \<not> entry_isExclusive (dir h c l) then Some (h, reqWriteback, cycle)
      else if entry_isEmpty (dir h c l) then Some (h, reqWriteback, cycle)
      else Option.bind (send_loop cinv c lineAddr l type cycle srcId
             [0..<length (tc_childrenRTTs (c_tcc (h ! c)))] h reqWriteback cycle 0) (\<lambda>(h1, wb, maxCycle, sentInvs).
        Option.bind (guard (sentInvs = te_numSharers (dir h1 c l))) (\<lambda>_.
        if type = INV then Some (set_dir c l ((dir h1 c l)\<lparr>te_numSharers := 0\<rparr>) h1, wb, maxCycle)
        else Option.bind (guard (te_exclusive (dir h1 c l) \<and> te_numSharers (dir h1 c l) = 1)) (\<lambda>_.
          Some (set_dir c l ((dir h1 c l)\<lparr>te_exclusive := False\<rparr>) h1, wb, maxCycle)))))"

definition tcc_processEviction :: "'a child_invalidate \<Rightarrow> nat \<Rightarrow> addr \<Rightarrow> nat \<Rightarrow> bool \<Rightarrow> nat \<Rightarrow> nat \<Rightarrow>
    'a hier \<Rightarrow> ('a hier \<times> bool \<times> nat) option" where
  "tcc_processEviction cinv c wbLineAddr l reqWriteback cycle srcId h =
     (if tc_nonInclusiveHack (c_tcc (h ! c))
      then Some (set_dir c l (entry_clear (dir h c l)) h, reqWriteback, cycle)
      else tcc_sendInvalidates cinv c wbLineAddr l INV reqWriteback cycle srcId h)"

text \<open>The fall-through part of a PUT: the child leaves the sharers.\<close>

definition tcc_put :: "nat \<Rightarrow> nat \<Rightarrow> nat \<Rightarrow> stptr \<Rightarrow> bool \<Rightarrow> nat \<Rightarrow> 'a hier \<Rightarrow> ('a hier \<times> bool \<times> nat) option" where
  "tcc_put c l childId childState wb cycle h =
     (let e = dir h c l in
      Option.bind (guard (te_sharers e childId)) (\<lambda>_.
      Some (set_cell childState I
        (set_dir c l (e\<lparr>te_sharers := (te_sharers e)(childId := False), te_numSharers := te_numSharers e - 1\<rparr>) h),
        wb, cycle)))"

definition tcc_processAccess :: "'a child_invalidate \<Rightarrow> nat \<Rightarrow> addr \<Rightarrow> nat \<Rightarrow> access_type \<Rightarrow> nat \<Rightarrow> bool \<Rightarrow> stptr \<Rightarrow>
    bool \<Rightarrow> nat \<Rightarrow> nat \<Rightarrow> u32 \<Rightarrow> 'a hier \<Rightarrow> ('a hier \<times> bool \<times> nat) option" where
  "tcc_processAccess cinv c lineAddr l type childId haveExclusive childState inducedWriteback cycle srcId flags h =
     (let e = dir h c l in
      case type of
        PUTX \<Rightarrow>
          Option.bind (guard (entry_isExclusive e)) (\<lambda>_.
          if flags AND PUTX_KEEPEXCL \<noteq> 0 then
            Option.bind (guard (te_sharers e childId \<and> cell h childState = M)) (\<lambda>_.
            Some (set_cell childState E h, inducedWriteback, cycle))
          else tcc_put c l childId childState inducedWriteback cycle h)
      | PUTS \<Rightarrow> tcc_put c l childId childState inducedWriteback cycle h
      | GETS \<Rightarrow>
          (if entry_isEmpty e \<and> haveExclusive \<and> flags AND NOEXCL = 0 then
             Some (set_cell childState E (set_dir c l
               (e\<lparr>te_exclusive := True, te_sharers := (te_sharers e)(childId := True), te_numSharers := 1\<rparr>) h),
               inducedWriteback, cycle)
           else
             Option.bind (guard (\<not> te_sharers e childId)) (\<lambda>_.
             Option.bind (if entry_isExclusive e
                          then tcc_sendInvalidates cinv c lineAddr l INVX inducedWriteback cycle srcId h
                          else Some (h, inducedWriteback, cycle)) (\<lambda>(h1, wb, resp).
             let e1 = dir h1 c l in
             Option.bind (guard (\<not> entry_isExclusive e1)) (\<lambda>_.
             Some (set_cell childState S (set_dir c l
               (e1\<lparr>te_sharers := (te_sharers e1)(childId := True), te_numSharers := te_numSharers e1 + 1,
                   te_exclusive := False\<rparr>) h1), wb, resp)))))
      | GETX \<Rightarrow>
          Option.bind (guard haveExclusive) (\<lambda>_.
          Option.bind (guard (te_sharers e childId \<longrightarrow> \<not> entry_isExclusive e)) (\<lambda>_.
          let h0 = (if te_sharers e childId
                    then set_dir c l (e\<lparr>te_sharers := (te_sharers e)(childId := False),
                                        te_numSharers := te_numSharers e - 1\<rparr>) h else h)
          in Option.bind (tcc_sendInvalidates cinv c lineAddr l INV inducedWriteback cycle srcId h0) (\<lambda>(h1, wb, resp).
             let e1 = (dir h1 c l)\<lparr>te_sharers := (te_sharers (dir h1 c l))(childId := True),
                                    te_numSharers := te_numSharers (dir h1 c l) + 1, te_exclusive := True\<rparr>
             in Option.bind (guard (te_numSharers e1 = 1)) (\<lambda>_.
                Some (set_cell childState M (set_dir c l e1 h1), wb, resp))))))"

definition tcc_processInval :: "'a child_invalidate \<Rightarrow> nat \<Rightarrow> addr \<Rightarrow> nat \<Rightarrow> inv_type \<Rightarrow> bool \<Rightarrow> nat \<Rightarrow> nat \<Rightarrow>
    'a hier \<Rightarrow> ('a hier \<times> bool \<times> nat) option" where
  "tcc_processInval cinv c lineAddr l type reqWriteback cycle srcId h =
     (if type = FWD then
        Option.bind (guard (\<not> tc_nonInclusiveHack (c_tcc (h ! c)))) (\<lambda>_. Some (h, reqWriteback, cycle))
      else tcc_sendInvalidates cinv c lineAddr l type reqWriteback cycle srcId h)"

section \<open>The integrated controllers\<close>

text \<open>\<open>CheckForMESIRace\<close>: the request type after it, and whether to skip the access.\<close>

definition CheckForMESIRace :: "access_type \<Rightarrow> mesi \<Rightarrow> mesi \<Rightarrow> (access_type \<times> bool) option" where
  "CheckForMESIRace type state initialState =
     (if state \<noteq> initialState then
        (if type = PUTS \<or> type = PUTX then
           (if state = I then Some (type, True)
            else Option.bind (guard (state = S)) (\<lambda>_. Some (if type = PUTX then PUTS else type, False)))
         else if type = GETX then
           Option.bind (guard (initialState = S \<and> state = I)) (\<lambda>_. Some (type, False))
         else None)
      else Some (type, False))"

definition cc_startAccess :: "nat \<Rightarrow> 'a hier \<Rightarrow> memreq \<Rightarrow> (memreq \<times> bool) option" where
  "cc_startAccess c h req =
     Option.bind (guard (c_terminal (h ! c) \<longrightarrow> IsGet (mr_type req))) (\<lambda>_.
     Option.bind (CheckForMESIRace (mr_type req) (cell h (mr_state req)) (mr_initialState req)) (\<lambda>(t, skip).
     Some (req\<lparr>mr_type := t\<rparr>, skip)))"

definition cc_shouldAllocate :: "nat \<Rightarrow> 'a hier \<Rightarrow> memreq \<Rightarrow> bool option" where
  "cc_shouldAllocate c h req =
     (if c_terminal (h ! c) then Some True
      else if mr_type req = GETS \<or> mr_type req = GETX then Some True
      else if \<not> c_nonInclusiveHack (h ! c) then None else Some False)"

definition cc_processEviction :: "'a parent_access \<Rightarrow> 'a child_invalidate \<Rightarrow> nat \<Rightarrow> memreq \<Rightarrow> addr \<Rightarrow> nat \<Rightarrow> nat \<Rightarrow>
    'a hier \<Rightarrow> ('a hier \<times> nat) option" where
  "cc_processEviction pacc cinv c triggerReq wbLineAddr l startCycle h =
     (if c_terminal (h ! c)
      then bcc_processEviction pacc c wbLineAddr l False startCycle (mr_srcId triggerReq) h
      else Option.bind (tcc_processEviction cinv c wbLineAddr l False startCycle (mr_srcId triggerReq) h)
        (\<lambda>(h1, wb, evCycle). bcc_processEviction pacc c wbLineAddr l wb evCycle (mr_srcId triggerReq) h1))"

definition bcc_isExclusive :: "'a hier \<Rightarrow> nat \<Rightarrow> nat \<Rightarrow> bool" where
  "bcc_isExclusive h c l \<longleftrightarrow> st h c l = E \<or> st h c l = M"

definition mesicc_processAccess :: "'a parent_access \<Rightarrow> 'a child_invalidate \<Rightarrow> nat \<Rightarrow> memreq \<Rightarrow> nat option \<Rightarrow> nat \<Rightarrow>
    'a hier \<Rightarrow> ('a hier \<times> nat) option" where
  "mesicc_processAccess pacc cinv c req lineId startCycle h =
     (case lineId of
        Some l \<Rightarrow>
          (if IsPut (mr_type req) \<and> st h c l = I then
             Option.bind (guard (c_nonInclusiveHack (h ! c))) (\<lambda>_.
             bcc_processNonInclusiveWriteback pacc c (mr_lineAddr req) (mr_type req) startCycle
               (mr_state req) (mr_srcId req) (mr_flags req) h)
           else
             (let isPrefetch = mr_is PREFETCH req; flags = mr_flags req AND NOT PREFETCH in
              Option.bind (guard (isPrefetch \<longrightarrow> mr_type req = GETS)) (\<lambda>_.
              Option.bind (bcc_processAccess pacc c (mr_lineAddr req) l (mr_type req) startCycle (mr_srcId req) flags h)
                (\<lambda>(h1, resp).
              if isPrefetch then Some (h1, resp)
              else Option.bind (tcc_processAccess cinv c (mr_lineAddr req) l (mr_type req) (mr_childId req)
                     (bcc_isExclusive h1 c l) (mr_state req) False resp (mr_srcId req) flags h1) (\<lambda>(h2, wb, resp2).
                if wb then map_option (\<lambda>h3. (h3, resp2)) (bcc_processWritebackOnAccess c l h2)
                else Some (h2, resp2))))))
      | None \<Rightarrow>
          Option.bind (guard (c_nonInclusiveHack (h ! c) \<and> IsPut (mr_type req))) (\<lambda>_.
          bcc_processNonInclusiveWriteback pacc c (mr_lineAddr req) (mr_type req) startCycle
            (mr_state req) (mr_srcId req) (mr_flags req) h))"

definition cc_processAccess :: "'a parent_access \<Rightarrow> 'a child_invalidate \<Rightarrow> nat \<Rightarrow> memreq \<Rightarrow> nat option \<Rightarrow> nat \<Rightarrow>
    'a hier \<Rightarrow> ('a hier \<times> nat) option" where
  "cc_processAccess pacc cinv c req lineId startCycle h =
     (if c_terminal (h ! c)
      then Option.bind lineId (\<lambda>l.
        bcc_processAccess pacc c (mr_lineAddr req) l (mr_type req) startCycle (mr_srcId req) (mr_flags req) h)
      else mesicc_processAccess pacc cinv c req lineId startCycle h)"

definition cc_processInv :: "'a child_invalidate \<Rightarrow> nat \<Rightarrow> invreq \<Rightarrow> nat \<Rightarrow> nat \<Rightarrow> 'a hier \<Rightarrow>
    ('a hier \<times> bool \<times> nat) option" where
  "cc_processInv cinv c req l startCycle h =
     (if c_terminal (h ! c)
      then map_option (\<lambda>(h1, wb). (h1, wb, startCycle)) (bcc_processInval c l (ir_type req) (ir_writeback req) h)
      else Option.bind (tcc_processInval cinv c (ir_lineAddr req) l (ir_type req) (ir_writeback req) startCycle (ir_srcId req) h)
        (\<lambda>(h1, wb, resp). map_option (\<lambda>(h2, wb2). (h2, wb2, resp)) (bcc_processInval c l (ir_type req) wb h1)))"

definition cc_view_of :: "'a hier \<Rightarrow> nat \<Rightarrow> cc_view" where
  "cc_view_of h c =
     \<lparr>cv_numSharers = (\<lambda>l. if c_terminal (h ! c) then 0 else of_nat (te_numSharers (dir h c l))),
      cv_isValid = (\<lambda>l. st h c l \<noteq> I)\<rparr>"

section \<open>The cache\<close>

text \<open>\<open>Cache::access\<close>, in the order of the code: lookup, and on a miss victim choice, eviction,
  insertion; then the access proper.\<close>

definition cache_access :: "'a ca_ops \<Rightarrow> 'a parent_access \<Rightarrow> 'a child_invalidate \<Rightarrow> nat \<Rightarrow> 'a hier \<Rightarrow> memreq \<Rightarrow>
    ('a hier \<times> nat) option" where
  "cache_access aops pacc cinv c h req0 =
     Option.bind (cc_startAccess c h req0) (\<lambda>(req, skipAccess).
     Option.bind
       (if skipAccess then Some (h, mr_cycle req)
        else
          Option.bind (ca_lookup aops (c_array (h ! c)) (mr_lineAddr req) req (IsGet (mr_type req))) (\<lambda>(arr, lineId).
          let h1 = set_arr c arr h; respCycle = mr_cycle req + c_accLat (h ! c) in
          Option.bind (if lineId = None then cc_shouldAllocate c h1 req else Some False) (\<lambda>alloc.
          Option.bind
            (if alloc then
               Option.bind (ca_preinsert aops (cc_view_of h1 c) (c_array (h1 ! c)) (mr_lineAddr req) req)
                 (\<lambda>(arr2, l, wbLineAddr).
               Option.bind (cc_processEviction pacc cinv c req wbLineAddr l respCycle (set_arr c arr2 h1)) (\<lambda>(h2, _).
               Option.bind (ca_postinsert aops (c_array (h2 ! c)) (mr_lineAddr req) req l) (\<lambda>arr3.
               Some (set_arr c arr3 h2, Some l))))
             else Some (h1, lineId)) (\<lambda>(h3, lineId3).
          cc_processAccess pacc cinv c req lineId3 respCycle h3))))
       (\<lambda>(h4, respCycle).
     Option.bind (guard (respCycle \<ge> mr_cycle req)) (\<lambda>_. Some (h4, respCycle))))"

definition cache_invalidate :: "'a ca_ops \<Rightarrow> 'a child_invalidate \<Rightarrow> nat \<Rightarrow> 'a hier \<Rightarrow> invreq \<Rightarrow>
    ('a hier \<times> bool \<times> nat) option" where
  "cache_invalidate aops cinv c h req =
     Option.bind (ca_lookup aops (c_array (h ! c)) (ir_lineAddr req) (read_req (ir_lineAddr req)) False) (\<lambda>(arr, lineId).
     Option.bind lineId (\<lambda>l.
     cc_processInv cinv c req l (ir_cycle req + c_invLat (h ! c)) (set_arr c arr h)))"

section \<open>Properties of the controllers\<close>

end
