(* ===== verification/Coherence_Inv.thy ===== *)
theory Coherence_Inv
  imports Coherence
begin

text \<open>
  The coherence invariant of a two-level hierarchy as a predicate on three functions: line
  states, directory entries and tags, and the transitions of the protocol that keep it. The
  caches 0..k-1 are the children; cache \<open>k\<close> has the directory.
\<close>

definition line_ok :: "tcc_entry \<Rightarrow> mesi \<Rightarrow> bool" where
  "line_ok e x \<longleftrightarrow> (if entry_isExclusive e then x = E \<or> x = M else x = S)"

definition tags_ok :: "nat \<Rightarrow> (nat \<Rightarrow> nat) \<Rightarrow> (nat \<Rightarrow> nat \<Rightarrow> addr) \<Rightarrow> bool" where
  "tags_ok k N T \<longleftrightarrow>
     (\<forall>c\<le>k. \<forall>l<N c. \<forall>l'<N c. T c l = T c l' \<longrightarrow> T c l \<noteq> 0 \<longrightarrow> l = l')"

definition entry_ok :: "tcc_entry \<Rightarrow> mesi \<Rightarrow> bool" where
  "entry_ok e x \<longleftrightarrow> te_numSharers e = card {c. te_sharers e c} \<and> (te_exclusive e \<longrightarrow> te_numSharers e \<le> 1) \<and>
     (entry_isExclusive e \<longrightarrow> x = E \<or> x = M)"

lemma exclusive_uniq:
  assumes "entry_ok e x" and "entry_isExclusive e" and "te_sharers e i" and "te_sharers e j"
  shows "i = j"
proof -
  have "card {c. te_sharers e c} = 1" using assms(1,2) by (simp add: entry_ok_def entry_isExclusive_def)
  then obtain z where z: "{c. te_sharers e c} = {z}" by (auto simp: card_1_singleton_iff)
  have "i \<in> {c. te_sharers e c}" "j \<in> {c. te_sharers e c}" using assms(3,4) by simp_all
  then show ?thesis unfolding z by simp
qed

text \<open>Every valid line of a child is in the parent and in the sharers of its entry there
  (inclusion); every sharer holds the line, in E or M if it is the exclusive one and in S
  otherwise; entries count their sharers; the parent of an exclusive line is exclusive itself.\<close>

definition coherent :: "nat \<Rightarrow> (nat \<Rightarrow> nat) \<Rightarrow> (nat \<Rightarrow> nat \<Rightarrow> mesi) \<Rightarrow> (nat \<Rightarrow> tcc_entry) \<Rightarrow> (nat \<Rightarrow> nat \<Rightarrow> addr) \<Rightarrow> bool" where
  "coherent k N s d T \<longleftrightarrow> tags_ok k N T \<and>
     (\<forall>c<k. \<forall>l<N c. s c l \<noteq> I \<longrightarrow> T c l \<noteq> 0 \<and> (\<exists>L<N k. T k L = T c l \<and> te_sharers (d L) c)) \<and>
     (\<forall>L<N k. \<forall>c. te_sharers (d L) c \<longrightarrow> c < k \<and> s k L \<noteq> I \<and> (\<exists>l<N c. T c l = T k L \<and> line_ok (d L) (s c l))) \<and>
     (\<forall>L<N k. entry_ok (d L) (s k L)) \<and>
     (\<forall>L<N k. s k L \<noteq> I \<longrightarrow> T k L \<noteq> 0)"

lemma line_ok_valid: "line_ok e x \<Longrightarrow> x \<noteq> I"
  by (auto simp: line_ok_def split: if_splits)

lemma coherent_tags: "coherent k N s d T \<Longrightarrow> c \<le> k \<Longrightarrow> l < N c \<Longrightarrow> l' < N c \<Longrightarrow> T c l = T c l' \<Longrightarrow> T c l \<noteq> 0 \<Longrightarrow> l = l'"
  unfolding coherent_def tags_ok_def by blast

lemma child_uniq:
  assumes "coherent k N s d T" and "c < k" and "l < N c" and "j < N c" and "T c l = a" and "T c j = a" and "a \<noteq> 0"
  shows "j = l"
proof -
  have "T c j = T c l" and "T c j \<noteq> 0" using assms(5-7) by simp_all
  then show ?thesis using coherent_tags [OF assms(1) _ assms(4,3)] assms(2) by simp
qed

lemma parent_uniq:
  assumes "coherent k N s d T" and "L < N k" and "L' < N k" and "T k L = a" and "T k L' = a" and "a \<noteq> 0"
  shows "L' = L"
proof -
  have "T k L' = T k L" and "T k L' \<noteq> 0" using assms(4-6) by simp_all
  then show ?thesis using coherent_tags [OF assms(1) order_refl assms(3,2)] by simp
qed

lemma coherent_child:
  assumes "coherent k N s d T" and "c < k" and "l < N c" and "s c l \<noteq> I"
  obtains L where "L < N k" and "T k L = T c l" and "te_sharers (d L) c" and "T c l \<noteq> 0"
  using assms unfolding coherent_def by blast

lemma coherent_sharer:
  assumes "coherent k N s d T" and "L < N k" and "te_sharers (d L) c"
  obtains l where "c < k" and "s k L \<noteq> I" and "l < N c" and "T c l = T k L" and "line_ok (d L) (s c l)"
  using assms unfolding coherent_def by blast

lemma coherent_entry: "coherent k N s d T \<Longrightarrow> L < N k \<Longrightarrow> entry_ok (d L) (s k L)"
  unfolding coherent_def by blast

lemma coherent_nonzero: "coherent k N s d T \<Longrightarrow> L < N k \<Longrightarrow> s k L \<noteq> I \<Longrightarrow> T k L \<noteq> 0"
  unfolding coherent_def by blast

lemma coherent_finite: "coherent k N s d T \<Longrightarrow> L < N k \<Longrightarrow> finite {c. te_sharers (d L) c}"
  by (rule finite_subset [of _ "{..<k}"]) (auto elim: coherent_sharer)

lemma coherent_empty:
  assumes "coherent k N s d T" and "L < N k" and "te_numSharers (d L) = 0"
  shows "\<not> te_sharers (d L) c"
  using coherent_entry [OF assms(1,2)] coherent_finite [OF assms(1,2)] assms(3) by (auto simp: entry_ok_def)

text \<open>The line of a child and the parent's line of the same address determine each other.\<close>

lemma coherent_sharer_line:
  assumes co: "coherent k N s d T" and c: "c < k" "l < N c" and L: "L < N k" "T k L = T c l" and sh: "te_sharers (d L) c"
  shows "line_ok (d L) (s c l)"
proof -
  obtain l' where l': "s k L \<noteq> I" "l' < N c" "T c l' = T k L" "line_ok (d L) (s c l')"
    using coherent_sharer [OF co L(1) sh] by blast
  have "T c l' \<noteq> 0" using coherent_nonzero [OF co L(1) l'(1)] l'(3) by simp
  then have "l' = l" by (intro child_uniq [OF co c l'(2)]) (simp_all add: l'(3) L(2))
  with l'(4) show ?thesis by simp
qed

lemma coherent_child_line:
  assumes co: "coherent k N s d T" and c: "c < k" "l < N c" and L: "L < N k" "T k L = T c l" and v: "s c l \<noteq> I"
  shows "te_sharers (d L) c"
proof -
  obtain L' where L': "L' < N k" "T k L' = T c l" "te_sharers (d L') c" "T c l \<noteq> 0" by (rule coherent_child [OF co c v])
  then have "L' = L" by (intro parent_uniq [OF co L(1) L'(1)]) (simp_all add: L(2))
  with L'(3) show ?thesis by simp
qed

text \<open>A rule to show the invariant again after a transition at one line of the parent.\<close>

lemma coherentI:
  assumes "tags_ok k N T"
    and "\<And>c l. c < k \<Longrightarrow> l < N c \<Longrightarrow> s c l \<noteq> I \<Longrightarrow> T c l \<noteq> 0 \<and> (\<exists>L<N k. T k L = T c l \<and> te_sharers (d L) c)"
    and "\<And>L c. L < N k \<Longrightarrow> te_sharers (d L) c \<Longrightarrow> c < k \<and> s k L \<noteq> I \<and> (\<exists>l<N c. T c l = T k L \<and> line_ok (d L) (s c l))"
    and "\<And>L. L < N k \<Longrightarrow> entry_ok (d L) (s k L)"
    and "\<And>L. L < N k \<Longrightarrow> s k L \<noteq> I \<Longrightarrow> T k L \<noteq> 0"
  shows "coherent k N s d T"
  unfolding coherent_def using assms by blast

section \<open>Transitions\<close>

text \<open>The states after an invalidation or a downgrade of the lines with address \<open>a\<close>.\<close>

definition inval_st :: "(nat \<Rightarrow> nat) \<Rightarrow> (nat \<Rightarrow> bool) \<Rightarrow> (nat \<Rightarrow> nat \<Rightarrow> addr) \<Rightarrow> addr \<Rightarrow> mesi \<Rightarrow> (nat \<Rightarrow> nat \<Rightarrow> mesi) \<Rightarrow> nat \<Rightarrow> nat \<Rightarrow> mesi" where
  "inval_st N P T a x s = (\<lambda>i l. if P i \<and> l < N i \<and> T i l = a then x else s i l)"

text \<open>The parent evicts a line: all sharers are invalidated, then its own line.\<close>

lemma coherent_evict:
  assumes co: "coherent k N s d T" and L: "L < N k"
  shows "coherent k N ((inval_st N (te_sharers (d L)) T (T k L) I s)(k := (inval_st N (te_sharers (d L)) T (T k L) I s k)(L := I)))
    (d(L := (d L)\<lparr>te_sharers := (\<lambda>_. False), te_numSharers := 0\<rparr>)) T" (is "coherent k N ?s ?d T")
proof (rule coherentI)
  have ks: "\<not> te_sharers (d L) k" using coherent_sharer [OF co L, of k] by blast
  have sk: "?s k L' = (if L' = L then I else s k L')" for L' using ks by (simp add: inval_st_def)
  have sc: "?s i j = (if te_sharers (d L) i \<and> j < N i \<and> T i j = T k L then I else s i j)" if "i < k" for i j
    using that by (simp add: inval_st_def)
  show "tags_ok k N T" using co by (simp add: coherent_def)
  show "T i j \<noteq> 0 \<and> (\<exists>L<N k. T k L = T i j \<and> te_sharers (?d L) i)" if i: "i < k" "j < N i" "?s i j \<noteq> I" for i j
  proof -
    have v: "s i j \<noteq> I" "\<not> (te_sharers (d L) i \<and> T i j = T k L)" using i(2,3) sc [OF i(1), of j] by (auto split: if_splits)
    obtain L' where L': "L' < N k" "T k L' = T i j" "te_sharers (d L') i" "T i j \<noteq> 0" by (rule coherent_child [OF co i(1,2) v(1)])
    moreover have "L' \<noteq> L" using v(2) L'(2,3) by auto
    ultimately show ?thesis by (intro conjI exI [of _ L']) auto
  qed
  show "i < k \<and> ?s k L' \<noteq> I \<and> (\<exists>j<N i. T i j = T k L' \<and> line_ok (?d L') (?s i j))" if i: "L' < N k" "te_sharers (?d L') i" for L' i
  proof -
    have ne: "L' \<noteq> L" and sh: "te_sharers (d L') i" using i(2) by (auto split: if_splits)
    obtain j where j: "i < k" "s k L' \<noteq> I" "j < N i" "T i j = T k L'" "line_ok (d L') (s i j)"
      by (rule coherent_sharer [OF co i(1) sh])
    have "T k L' \<noteq> T k L"
      using parent_uniq [OF co L i(1) refl] ne coherent_nonzero [OF co i(1) j(2)] by metis
    then have "?s i j = s i j" using j(4) sc [OF j(1), of j] by simp
    with j ne show ?thesis unfolding sk by (intro conjI exI [of _ j]) simp_all
  qed
  show "entry_ok (?d L') (?s k L')" if "L' < N k" for L'
    unfolding sk using coherent_entry [OF co that] by (auto simp: entry_ok_def entry_isExclusive_def)
  show "T k L' \<noteq> 0" if "L' < N k" "?s k L' \<noteq> I" for L'
    using coherent_nonzero [OF co that(1)] that(2) unfolding sk by (auto split: if_splits)
qed

text \<open>A line in state I gets a new tag.\<close>

lemma coherent_retag:
  assumes co: "coherent k N s d T" and c: "c \<le> k" "l < N c" and i: "s c l = I" and a: "a \<noteq> 0" "\<forall>j<N c. T c j \<noteq> a"
  shows "coherent k N s d (T(c := (T c)(l := a)))" (is "coherent k N s d ?T")
proof (rule coherentI)
  have same: "?T i j = T i j" if "s i j \<noteq> I" for i j using that i by (cases "i = c \<and> j = l") auto
  have tags: "tags_ok k N T" using co by (simp add: coherent_def)
  show "tags_ok k N ?T"
    unfolding tags_ok_def
  proof (intro allI impI)
    fix c' j j' assume j: "c' \<le> k" "j < N c'" "j' < N c'" "?T c' j = ?T c' j'" "?T c' j \<noteq> 0"
    show "j = j'"
    proof (cases "c' = c \<and> (j = l \<or> j' = l)")
      case True
      with j a(2) show ?thesis by (auto split: if_splits)
    next
      case False
      then have "?T c' j = T c' j" "?T c' j' = T c' j'" by auto
      with j tags show ?thesis unfolding tags_ok_def by simp
    qed
  qed
  show "?T i j \<noteq> 0 \<and> (\<exists>L<N k. ?T k L = ?T i j \<and> te_sharers (d L) i)" if i: "i < k" "j < N i" "s i j \<noteq> I" for i j
  proof -
    obtain L' where L': "L' < N k" "T k L' = T i j" "te_sharers (d L') i" "T i j \<noteq> 0" by (rule coherent_child [OF co i])
    have "s k L' \<noteq> I" using coherent_sharer [OF co L'(1,3)] by blast
    with L' same i(3) show ?thesis by (intro conjI exI [of _ L']) auto
  qed
  show "i < k \<and> s k L \<noteq> I \<and> (\<exists>j<N i. ?T i j = ?T k L \<and> line_ok (d L) (s i j))" if Li: "L < N k" "te_sharers (d L) i" for L i
  proof -
    obtain j where j: "i < k" "s k L \<noteq> I" "j < N i" "T i j = T k L" "line_ok (d L) (s i j)"
      by (rule coherent_sharer [OF co Li])
    with same line_ok_valid [OF j(5)] show ?thesis by (intro conjI exI [of _ j]) auto
  qed
  show "entry_ok (d L) (s k L)" if "L < N k" for L by (rule coherent_entry [OF co that])
  show "?T k L \<noteq> 0" if "L < N k" "s k L \<noteq> I" for L
    using coherent_nonzero [OF co that] same [OF that(2)] by simp
qed

text \<open>The parent's own line gets a state at least as strong.\<close>

lemma coherent_fill:
  assumes co: "coherent k N s d T" and L: "L < N k" "T k L \<noteq> 0" and x: "x \<noteq> I" "s k L = E \<or> s k L = M \<Longrightarrow> x = E \<or> x = M"
  shows "coherent k N (s(k := (s k)(L := x))) d T" (is "coherent k N ?s d T")
proof (rule coherentI)
  show "tags_ok k N T" using co by (simp add: coherent_def)
  show "T i j \<noteq> 0 \<and> (\<exists>L<N k. T k L = T i j \<and> te_sharers (d L) i)" if i: "i < k" "j < N i" "?s i j \<noteq> I" for i j
    using coherent_child [OF co i(1,2)] i(1,3) by auto
  show "i < k \<and> ?s k L' \<noteq> I \<and> (\<exists>j<N i. T i j = T k L' \<and> line_ok (d L') (?s i j))" if "L' < N k" "te_sharers (d L') i" for L' i
    using coherent_sharer [OF co that] x(1) by (auto split: if_splits)
  show "entry_ok (d L') (?s k L')" if "L' < N k" for L'
    using coherent_entry [OF co that] x by (auto simp: entry_ok_def)
  show "T k L' \<noteq> 0" if "L' < N k" "?s k L' \<noteq> I" for L'
    using coherent_nonzero [OF co that(1)] that(2) L(2) by (auto split: if_splits)
qed

text \<open>The general transition at one line of the parent: the children's copies of that line agree
  with the new entry, and nothing else changes.\<close>

lemma coherent_update:
  assumes co: "coherent k N s d T" and L: "L < N k" "s k L \<noteq> I" and sk: "s' k = s k"
    and other: "\<And>i j. i < k \<Longrightarrow> j < N i \<Longrightarrow> T i j \<noteq> T k L \<Longrightarrow> s' i j = s i j"
    and copy: "\<And>i j. i < k \<Longrightarrow> j < N i \<Longrightarrow> T i j = T k L \<Longrightarrow> (if te_sharers e i then line_ok e (s' i j) else s' i j = I)"
    and sharers: "\<And>i. te_sharers e i \<Longrightarrow> i < k \<and> (\<exists>j<N i. T i j = T k L)"
    and e: "entry_ok e (s k L)"
  shows "coherent k N s' (d(L := e)) T" (is "coherent k N s' ?d T")
proof (rule coherentI)
  have T0: "T k L \<noteq> 0" by (rule coherent_nonzero [OF co L])
  show "tags_ok k N T" using co by (simp add: coherent_def)
  show "T i j \<noteq> 0 \<and> (\<exists>L<N k. T k L = T i j \<and> te_sharers (?d L) i)" if i: "i < k" "j < N i" "s' i j \<noteq> I" for i j
  proof (cases "T i j = T k L")
    case True
    with copy [OF i(1,2)] i(3) have "te_sharers e i" by (auto split: if_splits)
    with True T0 L(1) show ?thesis by (intro conjI exI [of _ L]) auto
  next
    case False
    with other i have "s i j \<noteq> I" by simp
    then obtain L' where "L' < N k" "T k L' = T i j" "te_sharers (d L') i" "T i j \<noteq> 0" using coherent_child [OF co i(1,2)] by blast
    with False show ?thesis by (intro conjI exI [of _ L']) auto
  qed
  show "i < k \<and> s' k L' \<noteq> I \<and> (\<exists>j<N i. T i j = T k L' \<and> line_ok (?d L') (s' i j))" if i: "L' < N k" "te_sharers (?d L') i" for L' i
  proof (cases "L' = L")
    case True
    with i(2) have ei: "te_sharers e i" by simp
    then obtain j where j: "i < k" "j < N i" "T i j = T k L" using sharers by blast
    with copy [OF j] ei True L(2) sk show ?thesis by auto
  next
    case False
    with i(2) have sh: "te_sharers (d L') i" by simp
    obtain j where j: "i < k" "s k L' \<noteq> I" "j < N i" "T i j = T k L'" "line_ok (d L') (s i j)"
      by (rule coherent_sharer [OF co i(1) sh])
    have "T i j \<noteq> T k L"
    proof
      assume "T i j = T k L"
      then have "T k L' = T k L" using j(4) by simp
      then have "L' = L" by (rule parent_uniq [OF co L(1) i(1) refl _ T0])
      with False show False by simp
    qed
    then have "s' i j = s i j" by (rule other [OF j(1,3)])
    with j False sk show ?thesis by (intro conjI exI [of _ j]) simp_all
  qed
  show "entry_ok (?d L') (s' k L')" if "L' < N k" for L'
    using coherent_entry [OF co that] e sk by auto
  show "T k L' \<noteq> 0" if "L' < N k" "s' k L' \<noteq> I" for L'
    using coherent_nonzero [OF co that(1)] that(2) sk by simp
qed

text \<open>A copy that is not a sharer's is invalid, and a sharer's copy suits the entry.\<close>

lemma coherent_copy:
  assumes co: "coherent k N s d T" and L: "L < N k" and i: "i < k" "j < N i" "T i j = T k L"
  shows "if te_sharers (d L) i then line_ok (d L) (s i j) else s i j = I"
proof (cases "te_sharers (d L) i")
  case True
  then show ?thesis using coherent_sharer_line [OF co i(1,2) L] i(3) by simp
next
  case False
  then show ?thesis using coherent_child_line [OF co i(1,2) L] i(3) by auto
qed

lemma coherent_sharer_ex: "coherent k N s d T \<Longrightarrow> L < N k \<Longrightarrow> te_sharers (d L) i \<Longrightarrow> i < k \<and> (\<exists>j<N i. T i j = T k L)"
  by (metis coherent_sharer)

text \<open>A child gives its line back (PUTS, PUTX):\<close>

lemma coherent_put:
  assumes co: "coherent k N s d T" and c: "c < k" "l < N c" and L: "L < N k" "T k L = T c l" and v: "s c l \<noteq> I"
  shows "coherent k N (s(c := (s c)(l := I)))
    (d(L := (d L)\<lparr>te_sharers := (te_sharers (d L))(c := False), te_numSharers := te_numSharers (d L) - 1\<rparr>)) T"
proof -
  let ?e = "(d L)\<lparr>te_sharers := (te_sharers (d L))(c := False), te_numSharers := te_numSharers (d L) - 1\<rparr>"
  let ?s = "s(c := (s c)(l := I))"
  have sh: "te_sharers (d L) c" by (rule coherent_child_line [OF co c L v])
  have e: "entry_ok (d L) (s k L)" by (rule coherent_entry [OF co L(1)])
  have x: "s k L \<noteq> I" using coherent_sharer [OF co L(1) sh] by blast
  have T0: "T c l \<noteq> 0" using coherent_nonzero [OF co L(1) x] L(2) by simp
  have noexcl: "\<not> entry_isExclusive ?e" using e by (auto simp: entry_ok_def entry_isExclusive_def)
  have S_copy: "line_ok ?e (s i j)" if "i \<noteq> c" "te_sharers (d L) i" "line_ok (d L) (s i j)" for i j
  proof -
    have "\<not> entry_isExclusive (d L)" using exclusive_uniq [OF e _ sh that(2)] that(1) by blast
    with that(3) noexcl show ?thesis by (simp add: line_ok_def)
  qed
  show ?thesis
  proof (rule coherent_update [OF co L(1) x])
    show "?s k = s k" using c by simp
    show "?s i j = s i j" if "T i j \<noteq> T k L" for i j using that L(2) by auto
    show "if te_sharers ?e i then line_ok ?e (?s i j) else ?s i j = I" if i: "i < k" "j < N i" "T i j = T k L" for i j
    proof (cases "i = c")
      case True
      have "j = l" using child_uniq [OF co c _ refl _ T0] i(2,3) L(2) True by simp
      with True show ?thesis by simp
    next
      case False
      with coherent_copy [OF co L(1) i] S_copy [OF False] show ?thesis by (auto split: if_splits)
    qed
    show "i < k \<and> (\<exists>j<N i. T i j = T k L)" if "te_sharers ?e i" for i
      using that coherent_sharer_ex [OF co L(1), of i] by (auto split: if_splits)
    have "{i. te_sharers ?e i} = {i. te_sharers (d L) i} - {c}" by auto
    then have "card {i. te_sharers ?e i} = te_numSharers (d L) - 1"
      using sh coherent_finite [OF co L(1)] e by (simp add: entry_ok_def)
    then show "entry_ok ?e (s k L)" using e noexcl by (auto simp: entry_ok_def)
  qed
qed

text \<open>The parent grants a line. Exclusive, to the only sharer:\<close>

lemma coherent_grant_E:
  assumes co: "coherent k N s d T" and c: "c < k" "l < N c" and L: "L < N k" "T k L = T c l" "T c l \<noteq> 0"
    and x: "s k L = E \<or> s k L = M" and empty: "te_numSharers (d L) = 0"
  shows "coherent k N (s(c := (s c)(l := E)))
    (d(L := (d L)\<lparr>te_exclusive := True, te_sharers := (te_sharers (d L))(c := True), te_numSharers := 1\<rparr>)) T"
proof (rule coherent_update [OF co L(1)])
  let ?e = "(d L)\<lparr>te_exclusive := True, te_sharers := (te_sharers (d L))(c := True), te_numSharers := 1\<rparr>"
  have none: "\<not> te_sharers (d L) i" for i by (rule coherent_empty [OF co L(1) empty])
  have sh: "te_sharers ?e i \<longleftrightarrow> i = c" for i by (simp add: none)
  have excl: "entry_isExclusive ?e" by (simp add: entry_isExclusive_def)
  show "s k L \<noteq> I" using x by auto
  show "(s(c := (s c)(l := E))) k = s k" using c by simp
  show "(s(c := (s c)(l := E))) i j = s i j" if "T i j \<noteq> T k L" for i j using that L(2) by auto
  show "if te_sharers ?e i then line_ok ?e ((s(c := (s c)(l := E))) i j) else (s(c := (s c)(l := E))) i j = I"
    if i: "i < k" "j < N i" "T i j = T k L" for i j
  proof (cases "i = c")
    case True
    have "j = l" using child_uniq [OF co c _ refl _ L(3)] i(2,3) L(2) True by simp
    with True sh excl show ?thesis by (simp add: line_ok_def)
  next
    case False
    with coherent_copy [OF co L(1) i] none sh show ?thesis by simp
  qed
  show "i < k \<and> (\<exists>j<N i. T i j = T k L)" if "te_sharers ?e i" for i using that sh c L(2) by auto
  have "{i. te_sharers ?e i} = {c}" using sh by auto
  then show "entry_ok ?e (s k L)" using x by (simp add: entry_ok_def)
qed

text \<open>Shared, beside other sharers in S:\<close>

lemma coherent_grant_S:
  assumes co: "coherent k N s d T" and c: "c < k" "l < N c" and L: "L < N k" "T k L = T c l"
    and x: "s k L \<noteq> I" and e: "\<not> entry_isExclusive (d L)" "\<not> te_sharers (d L) c"
  shows "coherent k N (s(c := (s c)(l := S)))
    (d(L := (d L)\<lparr>te_sharers := (te_sharers (d L))(c := True), te_numSharers := te_numSharers (d L) + 1, te_exclusive := False\<rparr>)) T"
proof (rule coherent_update [OF co L(1) x])
  let ?e = "(d L)\<lparr>te_sharers := (te_sharers (d L))(c := True), te_numSharers := te_numSharers (d L) + 1, te_exclusive := False\<rparr>"
  have T0: "T c l \<noteq> 0" using coherent_nonzero [OF co L(1) x] L(2) by simp
  have ok: "line_ok ?e y \<longleftrightarrow> y = S" for y by (simp add: line_ok_def entry_isExclusive_def)
  show "(s(c := (s c)(l := S))) k = s k" using c by simp
  show "(s(c := (s c)(l := S))) i j = s i j" if "T i j \<noteq> T k L" for i j using that L(2) by auto
  show "if te_sharers ?e i then line_ok ?e ((s(c := (s c)(l := S))) i j) else (s(c := (s c)(l := S))) i j = I"
    if i: "i < k" "j < N i" "T i j = T k L" for i j
  proof (cases "i = c")
    case True
    have "j = l" using child_uniq [OF co c _ refl _ T0] i(2,3) L(2) True by simp
    with True ok show ?thesis by simp
  next
    case False
    have "te_sharers (d L) i \<Longrightarrow> s i j = S" "\<not> te_sharers (d L) i \<Longrightarrow> s i j = I"
      using coherent_copy [OF co L(1) i] e(1) by (simp_all add: line_ok_def)
    with False ok show ?thesis by auto
  qed
  show "i < k \<and> (\<exists>j<N i. T i j = T k L)" if "te_sharers ?e i" for i
    using that coherent_sharer_ex [OF co L(1), of i] c L(2) by (auto split: if_splits)
  have "{i. te_sharers ?e i} = insert c {i. te_sharers (d L) i}" by auto
  moreover have "card (insert c {i. te_sharers (d L) i}) = Suc (card {i. te_sharers (d L) i})"
    using coherent_finite [OF co L(1)] e(2) by simp
  ultimately show "entry_ok ?e (s k L)"
    using coherent_entry [OF co L(1)] by (simp add: entry_ok_def entry_isExclusive_def)
qed

text \<open>Before that, an exclusive sharer is downgraded:\<close>

lemma coherent_downgrade:
  assumes co: "coherent k N s d T" and L: "L < N k" and excl: "entry_isExclusive (d L)"
  shows "coherent k N (inval_st N (te_sharers (d L)) T (T k L) S s) (d(L := (d L)\<lparr>te_exclusive := False\<rparr>)) T"
proof (rule coherent_update [OF co L])
  let ?e = "(d L)\<lparr>te_exclusive := False\<rparr>"
  have e: "entry_ok (d L) (s k L)" by (rule coherent_entry [OF co L])
  then show "s k L \<noteq> I" using excl by (auto simp: entry_ok_def)
  have "\<not> te_sharers (d L) k" using coherent_sharer_ex [OF co L, of k] by auto
  then show "inval_st N (te_sharers (d L)) T (T k L) S s k = s k" by (simp add: inval_st_def)
  show "inval_st N (te_sharers (d L)) T (T k L) S s i j = s i j" if "T i j \<noteq> T k L" for i j using that by (simp add: inval_st_def)
  show "if te_sharers ?e i then line_ok ?e (inval_st N (te_sharers (d L)) T (T k L) S s i j)
      else inval_st N (te_sharers (d L)) T (T k L) S s i j = I" if i: "i < k" "j < N i" "T i j = T k L" for i j
    using coherent_copy [OF co L i] i by (auto simp: inval_st_def line_ok_def entry_isExclusive_def split: if_splits)
  show "i < k \<and> (\<exists>j<N i. T i j = T k L)" if "te_sharers ?e i" for i using coherent_sharer_ex [OF co L] that by simp
  show "entry_ok ?e (s k L)" using e by (simp add: entry_ok_def entry_isExclusive_def)
qed

text \<open>Modified, with all other copies invalidated:\<close>

lemma coherent_grant_M:
  assumes co: "coherent k N s d T" and c: "c < k" "l < N c" and L: "L < N k" "T k L = T c l" "T c l \<noteq> 0"
    and x: "s k L = E \<or> s k L = M" and P: "\<And>i. P i \<longleftrightarrow> te_sharers (d L) i \<and> i \<noteq> c"
  shows "coherent k N ((inval_st N P T (T k L) I s)(c := (inval_st N P T (T k L) I s c)(l := M)))
    (d(L := (d L)\<lparr>te_sharers := (\<lambda>i. i = c), te_numSharers := 1, te_exclusive := True\<rparr>)) T" (is "coherent k N ?s _ T")
proof (rule coherent_update [OF co L(1)])
  let ?e = "(d L)\<lparr>te_sharers := (\<lambda>i. i = c), te_numSharers := 1, te_exclusive := True\<rparr>"
  have ck: "c \<noteq> k" using c by simp
  have "\<not> te_sharers (d L) k" using coherent_sharer_ex [OF co L(1), of k] by auto
  then show "?s k = s k" using ck by (simp add: inval_st_def P)
  show "s k L \<noteq> I" using x by auto
  show "?s i j = s i j" if "T i j \<noteq> T k L" for i j using that L(2) by (auto simp: inval_st_def)
  show "if te_sharers ?e i then line_ok ?e (?s i j) else ?s i j = I" if i: "i < k" "j < N i" "T i j = T k L" for i j
  proof (cases "i = c")
    case True
    have "j = l" using child_uniq [OF co c _ refl _ L(3)] i(2,3) L(2) True by simp
    with True show ?thesis by (simp add: line_ok_def entry_isExclusive_def)
  next
    case False
    with coherent_copy [OF co L(1) i] i(2,3) show ?thesis by (auto simp: inval_st_def P)
  qed
  show "i < k \<and> (\<exists>j<N i. T i j = T k L)" if "te_sharers ?e i" for i using that c L(2) by auto
  show "entry_ok ?e (s k L)" using x by (simp add: entry_ok_def)
qed

text \<open>A child writes to a line that it holds exclusively (the silent transition to M):\<close>

lemma coherent_silent:
  assumes co: "coherent k N s d T" and c: "c < k" "l < N c" and x: "s c l = E \<or> s c l = M"
  shows "coherent k N (s(c := (s c)(l := M))) d T"
proof -
  have v: "s c l \<noteq> I" using x by auto
  obtain L where L: "L < N k" "T k L = T c l" "te_sharers (d L) c" "T c l \<noteq> 0" using coherent_child [OF co c v] by blast
  have ok: "line_ok (d L) (s c l)" by (rule coherent_sharer_line [OF co c L(1,2,3)])
  have kl: "s k L \<noteq> I" using coherent_sharer [OF co L(1,3)] by blast
  have "coherent k N (s(c := (s c)(l := M))) (d(L := d L)) T"
  proof (rule coherent_update [OF co L(1) kl])
    show "(s(c := (s c)(l := M))) k = s k" using c by simp
    show "(s(c := (s c)(l := M))) i j = s i j" if "T i j \<noteq> T k L" for i j using that L(2) by auto
    show "if te_sharers (d L) i then line_ok (d L) ((s(c := (s c)(l := M))) i j) else (s(c := (s c)(l := M))) i j = I"
      if i: "i < k" "j < N i" "T i j = T k L" for i j
    proof (cases "i = c \<and> j = l")
      case True
      with ok x L(3) show ?thesis by (auto simp: line_ok_def split: if_splits)
    next
      case False
      then have "(s(c := (s c)(l := M))) i j = s i j" by auto
      with coherent_copy [OF co L(1) i] show ?thesis by simp
    qed
    show "i < k \<and> (\<exists>j<N i. T i j = T k L)" if "te_sharers (d L) i" for i by (rule coherent_sharer_ex [OF co L(1) that])
    show "entry_ok (d L) (s k L)" by (rule coherent_entry [OF co L(1)])
  qed
  then show ?thesis by simp
qed

end
