(* ===== verification/Cache_System.thy ===== *)
theory Cache_System
  imports Coherence_Inv
begin

text \<open>
  A two-level hierarchy put together from the model of the previous theories: terminal caches
  0..k-1 over one inclusive \<open>MESICC\<close> cache with id \<open>k\<close>, over the fixed-latency memory. The
  theorems are about sequences of core accesses: no assertion of the code fails, the directory
  stays exact, and the protocol keeps a single writer.
\<close>

section \<open>Composition\<close>

definition mem_access :: "nat \<Rightarrow> 'a parent_access" where
  "mem_access lat p h req =
     map_option (\<lambda>(x, resp). (set_cell (mr_state req) x h, resp)) (simple_mem_access lat req)"

definition l1_invalidate :: "(nat \<Rightarrow> 'a ca_ops) \<Rightarrow> 'a child_invalidate" where
  "l1_invalidate aops i h req = cache_invalidate (aops i) (\<lambda>_ _ _. None) i h req"

definition l2_access :: "(nat \<Rightarrow> 'a ca_ops) \<Rightarrow> nat \<Rightarrow> nat \<Rightarrow> 'a hier \<Rightarrow> memreq \<Rightarrow> ('a hier \<times> nat) option" where
  "l2_access aops lat k h req = cache_access (aops k) (mem_access lat) (l1_invalidate aops) k h req"

definition l1_access :: "(nat \<Rightarrow> 'a ca_ops) \<Rightarrow> nat \<Rightarrow> nat \<Rightarrow> nat \<Rightarrow> 'a hier \<Rightarrow> memreq \<Rightarrow> ('a hier \<times> nat) option" where
  "l1_access aops lat k c h req =
     cache_access (aops c) (\<lambda>_. l2_access aops lat k) (\<lambda>_ _ _. None) c h req"

text \<open>The request that a core's filter cache sends: its state is a local variable holding \<open>I\<close>.\<close>

definition core_req :: "addr \<Rightarrow> bool \<Rightarrow> nat \<Rightarrow> nat \<Rightarrow> u32 \<Rightarrow> memreq" where
  "core_req a isLoad cycle srcId flags =
     \<lparr>mr_lineAddr = a, mr_type = (if isLoad then GETS else GETX), mr_childId = 0, mr_state = LocalCell,
      mr_cycle = cycle, mr_childLock = True, mr_initialState = I, mr_srcId = srcId, mr_flags = flags\<rparr>"

text \<open>The hierarchy as the initialisation builds it, with empty arrays \<open>arrs\<close>, \<open>N c\<close> lines in cache
  \<open>c\<close> and the latencies given.\<close>

definition cache_new :: "nat \<Rightarrow> nat \<Rightarrow> bool \<Rightarrow> tcc \<Rightarrow> 'a \<Rightarrow> nat \<Rightarrow> nat \<Rightarrow> nat \<Rightarrow> 'a cache" where
  "cache_new numLines selfId terminal t arr rtt accLat invLat =
     \<lparr>c_bcc = bcc_new numLines selfId False [rtt], c_tcc = t, c_array = arr, c_terminal = terminal,
      c_nonInclusiveHack = False, c_accLat = accLat, c_invLat = invLat\<rparr>"

definition two_level_new :: "nat \<Rightarrow> (nat \<Rightarrow> nat) \<Rightarrow> (nat \<Rightarrow> 'a) \<Rightarrow> nat \<Rightarrow> (nat \<Rightarrow> nat) \<Rightarrow> (nat \<Rightarrow> nat) \<Rightarrow> 'a hier option" where
  "two_level_new k N arrs rtt accLat invLat =
     map_option (\<lambda>t. map (\<lambda>c. cache_new (N c) (if c = k then 0 else c) (c \<noteq> k) t (arrs c) rtt (accLat c) (invLat c)) [0..<Suc k])
       (tcc_new (N k) False (replicate k rtt))"

text \<open>The states that sequences of core accesses reach.\<close>

inductive reach :: "(nat \<Rightarrow> 'a ca_ops) \<Rightarrow> nat \<Rightarrow> nat \<Rightarrow> 'a hier \<Rightarrow> 'a hier \<Rightarrow> bool" for aops lat k h0 where
  init: "reach aops lat k h0 h0"
| step: "reach aops lat k h0 h \<Longrightarrow> c < k \<Longrightarrow> a \<noteq> 0 \<Longrightarrow> flags AND PREFETCH = 0 \<Longrightarrow>
    l1_access aops lat k c h (core_req a isLoad cyc src flags) = Some (h', resp) \<Longrightarrow> reach aops lat k h0 h'"

section \<open>Reading the store after an update\<close>

lemma len_store [simp]:
  "length (set_st c l x h) = length h" "length (set_dir c l e h) = length h"
  "length (set_arr c a h) = length h" "length (inc_prof c ctr d h) = length h"
  by (simp_all add: set_st_def set_dir_def set_arr_def inc_prof_def)

lemma nth_upd: "h[c := x] ! j = (if j = c \<and> c < length h then x else h ! j)"
  by (cases "c < length h"; cases "j = c") (simp_all add: list_update_beyond not_less)

lemma st_set_st:
  "c < length h \<Longrightarrow> l < length (bc_array (c_bcc (h ! c))) \<Longrightarrow>
    st (set_st c l x h) = (st h)(c := (st h c)(l := x))"
  by (simp add: fun_eq_iff st_def set_st_def nth_upd)

lemma st_other [simp]:
  "st (set_dir c l e h) = st h" "st (set_arr c a h) = st h" "st (inc_prof c ctr d h) = st h"
  by (simp_all add: fun_eq_iff st_def set_dir_def set_arr_def inc_prof_def nth_upd)

lemma dir_set_dir:
  "c < length h \<Longrightarrow> l < length (tc_array (c_tcc (h ! c))) \<Longrightarrow>
    dir (set_dir c l e h) c = (dir h c)(l := e)"
  by (simp add: fun_eq_iff dir_def set_dir_def nth_upd)

lemma tcc_other [simp]:
  "c_tcc (set_st c l x h ! c') = c_tcc (h ! c')" "c_tcc (set_arr c a h ! c') = c_tcc (h ! c')"
  "c_tcc (inc_prof c ctr d h ! c') = c_tcc (h ! c')"
  by (simp_all add: set_st_def set_arr_def inc_prof_def nth_upd)

lemma dir_other [simp]:
  "dir (set_st c l x h) = dir h" "dir (set_arr c a h) = dir h" "dir (inc_prof c ctr d h) = dir h"
  by (simp_all add: fun_eq_iff dir_def)

lemma arr_other [simp]:
  "c_array (set_st c l x h ! c') = c_array (h ! c')" "c_array (set_dir c l e h ! c') = c_array (h ! c')"
  "c_array (inc_prof c ctr d h ! c') = c_array (h ! c')"
  by (simp_all add: set_st_def set_dir_def inc_prof_def nth_upd)

lemma arr_set_arr: "c < length h \<Longrightarrow> c_array (set_arr c a h ! c') = (if c' = c then a else c_array (h ! c'))"
  by (simp add: set_arr_def nth_upd)

text \<open>What an access never changes.\<close>

definition cfg :: "'a cache \<Rightarrow> bool \<times> bool \<times> nat \<times> nat \<times> nat \<times> nat list \<times> nat \<times> bool \<times> nat \<times> nat list \<times> bool" where
  "cfg c = (c_terminal c, c_nonInclusiveHack c, c_accLat c, c_invLat c,
     length (bc_array (c_bcc c)), bc_parentRTTs (c_bcc c), bc_selfId (c_bcc c), bc_nonInclusiveHack (c_bcc c),
     length (tc_array (c_tcc c)), tc_childrenRTTs (c_tcc c), tc_nonInclusiveHack (c_tcc c))"

lemma cfg_store [simp]:
  "cfg (set_st c l x h ! c') = cfg (h ! c')" "cfg (set_dir c l e h ! c') = cfg (h ! c')"
  "cfg (set_arr c a h ! c') = cfg (h ! c')" "cfg (inc_prof c ctr d h ! c') = cfg (h ! c')"
  by (simp_all add: cfg_def set_st_def set_dir_def set_arr_def inc_prof_def nth_upd)

lemma map_cfg_store [simp]:
  "map cfg (set_st c l x h) = map cfg h" "map cfg (set_dir c l e h) = map cfg h"
  "map cfg (set_arr c a h) = map cfg h" "map cfg (inc_prof c ctr d h) = map cfg h"
  by (auto intro!: nth_equalityI)

definition shape :: "nat \<Rightarrow> (nat \<Rightarrow> nat) \<Rightarrow> 'a hier \<Rightarrow> bool" where
  "shape k N h \<longleftrightarrow> length h = Suc k \<and>
     (\<forall>c\<le>k. length (bc_array (c_bcc (h ! c))) = N c \<and> bc_selfId (c_bcc (h ! c)) = (if c = k then 0 else c) \<and>
        \<not> bc_nonInclusiveHack (c_bcc (h ! c)) \<and> bc_parentRTTs (c_bcc (h ! c)) \<noteq> [] \<and>
        c_terminal (h ! c) = (c \<noteq> k) \<and> \<not> c_nonInclusiveHack (h ! c)) \<and>
     length (tc_array (c_tcc (h ! k))) = N k \<and> length (tc_childrenRTTs (c_tcc (h ! k))) = k \<and>
     \<not> tc_nonInclusiveHack (c_tcc (h ! k))"

lemma shape_cong:
  assumes "map cfg h = map cfg h'"
  shows "shape k N h = shape k N h'"
proof -
  have len: "length h = length h'" using map_eq_imp_length_eq [OF assms] .
  have "cfg (h ! c) = cfg (h' ! c)" if "c < length h" for c
    using assms len that by (metis nth_map)
  then have "\<forall>c<length h. cfg (h ! c) = cfg (h' ! c)" by blast
  then show ?thesis
    unfolding shape_def len [symmetric] cfg_def by (cases "length h = Suc k") (auto simp: less_Suc_eq_le)
qed

lemma shape_store [simp]:
  "shape k N (set_st c l x h) = shape k N h" "shape k N (set_dir c l e h) = shape k N h"
  "shape k N (set_arr c a h) = shape k N h" "shape k N (inc_prof c ctr d h) = shape k N h"
  by (rule shape_cong, simp)+

definition keeps :: "'a hier \<Rightarrow> 'a hier \<Rightarrow> bool" where
  "keeps h h' \<longleftrightarrow> map cfg h' = map cfg h \<and> (\<forall>c. c_array (h' ! c) = c_array (h ! c))"

lemma keeps_refl [simp]: "keeps h h"
  by (simp add: keeps_def)

lemma keeps_trans: "keeps h h1 \<Longrightarrow> keeps h1 h2 \<Longrightarrow> keeps h h2"
  by (simp add: keeps_def)

lemma keeps_store [simp]:
  "keeps h (set_st c l x h1) = keeps h h1" "keeps h (set_dir c l e h1) = keeps h h1" "keeps h (inc_prof c ctr d h1) = keeps h h1"
  by (simp_all add: keeps_def)

lemma keeps_shape: "keeps h h' \<Longrightarrow> shape k N h' = shape k N h"
  unfolding keeps_def by (elim conjE, rule shape_cong)

lemma shapeD:
  assumes "shape k N h" and "c \<le> k"
  shows "c < length h" and "length (bc_array (c_bcc (h ! c))) = N c"
  using assms by (auto simp: shape_def)

lemma st_set_st_shape:
  "shape k N h \<Longrightarrow> c \<le> k \<Longrightarrow> l < N c \<Longrightarrow> st (set_st c l x h) = (st h)(c := (st h c)(l := x))"
  by (rule st_set_st) (auto simp: shape_def)

lemma dir_set_dir_shape:
  "shape k N h \<Longrightarrow> l < N k \<Longrightarrow> dir (set_dir k l e h) k = (dir h k)(l := e)"
  by (rule dir_set_dir) (auto simp: shape_def)

lemma arr_set_arr_shape:
  "shape k N h \<Longrightarrow> c \<le> k \<Longrightarrow> c_array (set_arr c a h ! c') = (if c' = c then a else c_array (h ! c'))"
  by (rule arr_set_arr) (auto simp: shape_def)

section \<open>The level-2 bottom controller over the memory\<close>

definition bcc_post :: "access_type \<Rightarrow> mesi \<Rightarrow> mesi \<Rightarrow> bool" where
  "bcc_post t old new \<longleftrightarrow>
     (case t of
        GETS \<Rightarrow> (if old = I then new = S \<or> new = E else new = old)
      | GETX \<Rightarrow> new = M
      | PUTS \<Rightarrow> new = old
      | PUTX \<Rightarrow> new = M)"

lemma mem_bcc_get:
  assumes sh: "shape k N h" and l: "L < N k" and lat: "0 < lat" and t: "IsGet t"
  shows "\<exists>h' cyc'. bcc_get (mem_access lat) k a L t cyc src flags h = Some (h', cyc') \<and> keeps h h' \<and> cyc \<le> cyc' \<and>
    dir h' = dir h \<and> st h' = (st h)(k := (st h k)(L := simple_mem_state t flags))"
  using st_set_st_shape [OF sh order_refl l] lat
  by (auto simp: bcc_get_def mem_access_def simple_mem_access_def bcc_req_def Let_def)

lemma mem_bcc_access:
  assumes sh: "shape k N h" and l: "L < N k" and lat: "0 < lat"
    and t: "t = PUTS \<Longrightarrow> st h k L \<noteq> I" "t = PUTX \<Longrightarrow> st h k L = E \<or> st h k L = M"
  shows "\<exists>h' cyc' x. bcc_processAccess (mem_access lat) k a L t cyc src flags h = Some (h', cyc') \<and> keeps h h' \<and> cyc \<le> cyc' \<and>
    dir h' = dir h \<and> st h' = (st h)(k := (st h k)(L := x)) \<and> bcc_post t (st h k L) x"
proof (cases t)
  case GETS
  show ?thesis
  proof (cases "st h k L = I")
    case True
    obtain h' cyc' where "bcc_get (mem_access lat) k a L GETS cyc src flags h = Some (h', cyc')" "keeps h h'" "cyc \<le> cyc'"
      "dir h' = dir h" "st h' = (st h)(k := (st h k)(L := simple_mem_state GETS flags))"
      using mem_bcc_get [OF sh l lat, of GETS a cyc src flags] by (auto simp: IsGet_def)
    with GETS True show ?thesis
      by (auto simp: bcc_processAccess_def bcc_post_def simple_mem_state_def)
  next
    case False
    with GETS show ?thesis by (auto simp: bcc_processAccess_def bcc_post_def)
  qed
next
  case GETX
  show ?thesis
  proof (cases "st h k L = I \<or> st h k L = S")
    case True
    let ?h = "inc_prof k (if st h k L = I then GETXMissIM else GETXMissSM) 1 h"
    have "shape k N ?h" using sh by simp
    from mem_bcc_get [OF this l lat, of GETX a cyc src flags] obtain h' cyc' where
      "bcc_get (mem_access lat) k a L GETX cyc src flags ?h = Some (h', cyc')" "keeps ?h h'" "cyc \<le> cyc'"
      "dir h' = dir ?h" "st h' = (st ?h)(k := (st ?h k)(L := M))"
      by (auto simp: IsGet_def simple_mem_state_def)
    moreover from this(2) have "keeps h h'" by (simp add: keeps_def)
    ultimately show ?thesis using GETX True
      by (auto simp: bcc_processAccess_def bcc_post_def)
  next
    case False
    then have "st h k L = E \<or> st h k L = M" by (cases "st h k L") auto
    with GETX False st_set_st_shape [OF sh order_refl l] show ?thesis
      by (auto simp: bcc_processAccess_def bcc_post_def fun_upd_idem)
  qed
next
  case PUTS
  with t show ?thesis by (auto simp: bcc_processAccess_def bcc_post_def)
next
  case PUTX
  with t st_set_st_shape [OF sh order_refl l] show ?thesis
    by (auto simp: bcc_processAccess_def bcc_post_def fun_upd_idem)
qed

lemma mem_bcc_evict:
  assumes sh: "shape k N h" and l: "L < N k" and lat: "0 < lat"
    and wb: "wb \<Longrightarrow> st h k L = E \<or> st h k L = M"
  shows "\<exists>h' cyc'. bcc_processEviction (mem_access lat) k a L wb cyc src h = Some (h', cyc') \<and> keeps h h' \<and> cyc \<le> cyc' \<and>
    dir h' = dir h \<and> st h' = (st h)(k := (st h k)(L := I))"
proof -
  let ?h = "if wb then set_st k L M h else h"
  have sh1: "shape k N ?h" using sh by simp
  have "st ?h k L = st h k L \<or> wb" "st (set_st k L I ?h) = (st h)(k := (st h k)(L := I))"
    using st_set_st_shape [OF sh order_refl l] st_set_st_shape [OF sh1 order_refl l] by auto
  moreover have "keeps h (set_st k L I ?h)" "dir (set_st k L I ?h) = dir h" by auto
  moreover have "st h k L = I \<Longrightarrow> \<not> wb" using wb by auto
  ultimately show ?thesis using wb lat st_set_st_shape [OF sh order_refl l]
    by (cases "st ?h k L")
      (auto simp: bcc_processEviction_def mem_access_def simple_mem_access_def simple_mem_state_def bcc_req_def Let_def fun_upd_idem)
qed

lemma entry_upd_id [simp]: "e\<lparr>te_sharers := te_sharers e\<rparr> = (e :: tcc_entry)"
  by (cases e) simp

section \<open>Invalidations of the level-1 caches\<close>

definition tg :: "(nat \<Rightarrow> 'a \<Rightarrow> nat \<Rightarrow> addr) \<Rightarrow> 'a hier \<Rightarrow> nat \<Rightarrow> nat \<Rightarrow> addr" where
  "tg atag h c l = atag c (c_array (h ! c)) l"

text \<open>\<open>N c\<close> lines in cache \<open>c\<close>; each cache array meets the contract of \<open>cache_array\<close>.\<close>

locale two_level =
  fixes aops :: "nat \<Rightarrow> 'a ca_ops"
    and ainv :: "nat \<Rightarrow> 'a \<Rightarrow> bool"
    and apend :: "nat \<Rightarrow> 'a \<Rightarrow> addr \<Rightarrow> nat \<Rightarrow> bool"
    and afind :: "nat \<Rightarrow> 'a \<Rightarrow> addr \<Rightarrow> nat option"
    and atag :: "nat \<Rightarrow> 'a \<Rightarrow> nat \<Rightarrow> addr"
    and N :: "nat \<Rightarrow> nat" and k :: nat and lat :: nat
  assumes arrays: "c \<le> k \<Longrightarrow> cache_array (aops c) (ainv c) (apend c) (afind c) (atag c) (N c)"
    and lat: "0 < lat"
begin

lemmas ca_lookup_ok = cache_array.lookup [OF arrays]
lemmas ca_tag_find = cache_array.tag_find [OF arrays]
lemmas ca_find_tag = cache_array.find_tag [OF arrays]
lemmas ca_preinsert_ok = cache_array.preinsert [OF arrays]
lemmas ca_postinsert_ok = cache_array.postinsert [OF arrays]

definition l1s_ok :: "'a hier \<Rightarrow> bool" where
  "l1s_ok h \<longleftrightarrow> (\<forall>c<k. ainv c (c_array (h ! c)))"

definition tkeeps :: "'a hier \<Rightarrow> 'a hier \<Rightarrow> bool" where
  "tkeeps h h' \<longleftrightarrow> map cfg h' = map cfg h \<and> tg atag h' = tg atag h \<and> (l1s_ok h \<longrightarrow> l1s_ok h') \<and>
     c_array (h' ! k) = c_array (h ! k)"

lemma tkeeps_refl [simp]: "tkeeps h h"
  by (simp add: tkeeps_def)

lemma tkeeps_trans: "tkeeps h h1 \<Longrightarrow> tkeeps h1 h2 \<Longrightarrow> tkeeps h h2"
  by (simp add: tkeeps_def)

lemma keeps_tkeeps: "keeps h h' \<Longrightarrow> tkeeps h h'"
  by (auto simp: keeps_def tkeeps_def l1s_ok_def tg_def fun_eq_iff)

lemma tkeeps_shape: "tkeeps h h' \<Longrightarrow> shape k N h' = shape k N h"
  unfolding tkeeps_def by (elim conjE, rule shape_cong)

lemma tkeeps_store [simp]:
  "tkeeps h (set_st c l x h1) = tkeeps h h1" "tkeeps h (set_dir c l e h1) = tkeeps h h1" "tkeeps h (inc_prof c ctr d h1) = tkeeps h h1"
  by (simp_all add: tkeeps_def l1s_ok_def tg_def fun_eq_iff)

definition inv_new :: "inv_type \<Rightarrow> mesi" where
  "inv_new t = (if t = INV then I else S)"

lemma child_inval:
  assumes sh: "shape k N h" and ok: "l1s_ok h" and i: "i < k" "l < N i" "tg atag h i l = a" "a \<noteq> 0"
    and s: "st h i l \<noteq> I" "t = INVX \<Longrightarrow> st h i l = E \<or> st h i l = M" "t \<noteq> FWD"
  shows "\<exists>h'. l1_invalidate aops i h \<lparr>ir_lineAddr = a, ir_type = t, ir_writeback = wb, ir_cycle = cyc, ir_srcId = src\<rparr> =
      Some (h', wb \<or> st h i l = M, cyc + c_invLat (h ! i)) \<and>
    tkeeps h h' \<and> dir h' = dir h \<and> st h' = (st h)(i := (st h i)(l := inv_new t))"
proof -
  have le: "i \<le> k" using i(1) by simp
  have inv: "ainv i (c_array (h ! i))" using ok i(1) by (simp add: l1s_ok_def)
  have find: "afind i (c_array (h ! i)) a = Some l"
    using ca_tag_find [OF le inv i(2)] i(3,4) by (auto simp: tg_def)
  obtain arr where arr: "ca_lookup (aops i) (c_array (h ! i)) a (read_req a) False = Some (arr, Some l)"
    "ainv i arr" "atag i arr = atag i (c_array (h ! i))"
    using ca_lookup_ok [OF le inv i(4), of "read_req a" False] find by auto
  let ?h = "set_arr i arr h"
  have sh': "shape k N ?h" using sh by simp
  have cfgs: "c_terminal (?h ! i)" "c_invLat (?h ! i) = c_invLat (h ! i)"
    using sh i(1) by (auto simp: shape_def set_arr_def nth_upd)
  have "tkeeps h ?h"
    using arr(2,3) sh i(1) by (auto simp: tkeeps_def tg_def fun_eq_iff l1s_ok_def arr_set_arr_shape)
  with arr(1) cfgs s st_set_st_shape [OF sh' _ i(2)] i(1) show ?thesis
    by (cases t) (auto simp: l1_invalidate_def cache_invalidate_def cc_processInv_def bcc_processInval_def Let_def inv_new_def)
qed

lemma l1_tag_inj:
  assumes "l1s_ok h" and "i < k" and "l < N i" and "l' < N i" and "tg atag h i l = tg atag h i l'" and "tg atag h i l \<noteq> 0"
  shows "l = l'"
proof -
  have inv: "i \<le> k" "ainv i (c_array (h ! i))" using assms(1,2) by (auto simp: l1s_ok_def)
  have "afind i (c_array (h ! i)) (tg atag h i l) = Some l"
    using ca_tag_find [OF inv assms(3)] assms(6) by (simp add: tg_def)
  moreover have "afind i (c_array (h ! i)) (tg atag h i l') = Some l'"
    using ca_tag_find [OF inv assms(4)] assms(5,6) by (simp add: tg_def)
  ultimately show ?thesis using assms(5) by (metis option.inject)
qed

text \<open>Cache \<open>i\<close> has the line in a state that the request may find; it has it modified.\<close>

definition holds :: "inv_type \<Rightarrow> addr \<Rightarrow> 'a hier \<Rightarrow> nat \<Rightarrow> bool" where
  "holds t a h i \<longleftrightarrow> (\<exists>l<N i. tg atag h i l = a \<and> st h i l \<noteq> I \<and> (t = INVX \<longrightarrow> st h i l = E \<or> st h i l = M))"

definition dirty :: "addr \<Rightarrow> 'a hier \<Rightarrow> nat \<Rightarrow> bool" where
  "dirty a h i \<longleftrightarrow> (\<exists>l<N i. tg atag h i l = a \<and> st h i l = M)"

lemma send_loop_ok:
  assumes sh: "shape k N h" and ok: "l1s_ok h" and L: "L < N k" and a: "a \<noteq> 0" and t: "t \<noteq> FWD"
    and cs: "distinct cs" "set cs \<subseteq> {..<k}" and holds: "\<forall>i\<in>set cs. te_sharers (dir h k L) i \<longrightarrow> holds t a h i"
  shows "\<exists>h' maxC'. send_loop (l1_invalidate aops) k a L t cyc src cs h wb maxC sent =
      Some (h', wb \<or> (\<exists>i\<in>set cs. te_sharers (dir h k L) i \<and> dirty a h i), maxC', sent + card {i \<in> set cs. te_sharers (dir h k L) i}) \<and>
    tkeeps h h' \<and> maxC \<le> maxC' \<and>
    st h' = inval_st N (\<lambda>i. i \<in> set cs \<and> te_sharers (dir h k L) i) (tg atag h) a (inv_new t) (st h) \<and>
    dir h' k = (dir h k)(L := (dir h k L)\<lparr>te_sharers :=
      (if t = INV then (\<lambda>i. te_sharers (dir h k L) i \<and> i \<notin> set cs) else te_sharers (dir h k L))\<rparr>)"
  using sh ok cs holds
proof (induction cs arbitrary: h wb maxC sent)
  case Nil
  then show ?case by (simp add: inval_st_def fun_upd_idem)
next
  case (Cons i cs)
  let ?sh = "te_sharers (dir h k L)"
  show ?case
  proof (cases "?sh i")
    case False
    have eqs: "card {j \<in> set (i # cs). ?sh j} = card {j \<in> set cs. ?sh j}"
      "(\<lambda>j. j \<in> set (i # cs) \<and> ?sh j) = (\<lambda>j. j \<in> set cs \<and> ?sh j)"
      "(\<lambda>j. ?sh j \<and> j \<notin> set (i # cs)) = (\<lambda>j. ?sh j \<and> j \<notin> set cs)"
      "(\<exists>j\<in>set (i # cs). ?sh j \<and> dirty a h j) = (\<exists>j\<in>set cs. ?sh j \<and> dirty a h j)"
      using False by (auto intro: arg_cong [where f = card])
    have step: "send_loop (l1_invalidate aops) k a L t cyc src (i # cs) h wb maxC sent =
        send_loop (l1_invalidate aops) k a L t cyc src cs h wb maxC sent" using False by simp
    show ?thesis unfolding step eqs using Cons.prems by (intro Cons.IH) auto
  next
    case True
    then obtain l where l: "l < N i" "tg atag h i l = a" "st h i l \<noteq> I" "t = INVX \<Longrightarrow> st h i l = E \<or> st h i l = M"
      using Cons.prems(5) by (auto simp: holds_def)
    have ik: "i < k" using Cons.prems(4) by simp
    obtain h1 where h1: "l1_invalidate aops i h \<lparr>ir_lineAddr = a, ir_type = t, ir_writeback = wb, ir_cycle = cyc, ir_srcId = src\<rparr> =
        Some (h1, wb \<or> st h i l = M, cyc + c_invLat (h ! i))"
      "tkeeps h h1" "dir h1 = dir h" "st h1 = (st h)(i := (st h i)(l := inv_new t))"
      using child_inval [OF Cons.prems(1,2) ik l(1,2) a l(3,4) t] by blast
    let ?e = "(dir h k L)\<lparr>te_sharers := (if t = INV then ?sh(i := False) else ?sh)\<rparr>"
    define h2 where "h2 = (if t = INV then set_dir k L ?e h1 else h1)"
    have sh1: "shape k N h1" using tkeeps_shape [OF h1(2)] Cons.prems(1) by simp
    have h2: "shape k N h2" "tkeeps h h2" "st h2 = st h1" "dir h2 k = (dir h k)(L := ?e)"
      using sh1 h1(2,3) dir_set_dir_shape [OF sh1 L] by (auto simp: h2_def)
    have sh2: "te_sharers (dir h2 k L) j = ?sh j" if "j \<in> set cs" for j
      using h2(4) that Cons.prems(3) by auto
    have tg2: "tg atag h2 = tg atag h" and ok2: "l1s_ok h2" using h2(2) Cons.prems(2) by (simp_all add: tkeeps_def)
    have other: "st h2 j = st h j" if "j \<noteq> i" for j using that by (simp add: h2(3) h1(4))
    have local_eq: "holds t a h2 j = holds t a h j" "dirty a h2 j = dirty a h j" if "j \<in> set cs" for j
    proof -
      have "j \<noteq> i" using that Cons.prems(3) by auto
      then show "holds t a h2 j = holds t a h j" "dirty a h2 j = dirty a h j"
        by (simp_all add: holds_def dirty_def tg2 other)
    qed
    have d: "distinct cs" "set cs \<subseteq> {..<k}" using Cons.prems(3,4) by auto
    have holds2: "\<forall>j\<in>set cs. te_sharers (dir h2 k L) j \<longrightarrow> holds t a h2 j"
      using Cons.prems(5) sh2 local_eq(1) by simp
    from Cons.IH [OF h2(1) ok2 d holds2, of "wb \<or> st h i l = M" "max (cyc + c_invLat (h ! i) + tc_childrenRTTs (c_tcc (h1 ! k)) ! i) maxC" "sent + 1"]
    obtain h' maxC' where r: "send_loop (l1_invalidate aops) k a L t cyc src cs h2 (wb \<or> st h i l = M)
        (max (cyc + c_invLat (h ! i) + tc_childrenRTTs (c_tcc (h1 ! k)) ! i) maxC) (sent + 1) =
        Some (h', (wb \<or> st h i l = M) \<or> (\<exists>i\<in>set cs. te_sharers (dir h2 k L) i \<and> dirty a h2 i), maxC',
          sent + 1 + card {i \<in> set cs. te_sharers (dir h2 k L) i})"
      "tkeeps h2 h'" "max (cyc + c_invLat (h ! i) + tc_childrenRTTs (c_tcc (h1 ! k)) ! i) maxC \<le> maxC'"
      "st h' = inval_st N (\<lambda>i. i \<in> set cs \<and> te_sharers (dir h2 k L) i) (tg atag h2) a (inv_new t) (st h2)"
      "dir h' k = (dir h2 k)(L := (dir h2 k L)\<lparr>te_sharers :=
        (if t = INV then (\<lambda>i. te_sharers (dir h2 k L) i \<and> i \<notin> set cs) else te_sharers (dir h2 k L))\<rparr>)"
      by blast
    have step: "send_loop (l1_invalidate aops) k a L t cyc src (i # cs) h wb maxC sent =
        send_loop (l1_invalidate aops) k a L t cyc src cs h2 (wb \<or> st h i l = M)
          (max (cyc + c_invLat (h ! i) + tc_childrenRTTs (c_tcc (h1 ! k)) ! i) maxC) (sent + 1)"
      using True h1(1,3) by (simp add: h2_def Let_def)
    have uniq: "l' < N i \<and> tg atag h i l' = a \<longleftrightarrow> l' = l" for l'
    proof
      assume l': "l' < N i \<and> tg atag h i l' = a"
      show "l' = l" by (rule l1_tag_inj [OF Cons.prems(2) ik _ l(1)]) (use l' l(2) a in simp_all)
    qed (use l(1,2) in simp)
    then have "st h i l = M \<longleftrightarrow> dirty a h i" unfolding dirty_def by metis
    then have wb: "((wb \<or> st h i l = M) \<or> (\<exists>i\<in>set cs. te_sharers (dir h2 k L) i \<and> dirty a h2 i)) =
        (wb \<or> (\<exists>i\<in>set (i # cs). ?sh i \<and> dirty a h i))" using True sh2 local_eq(2) by auto
    have "{j \<in> set (i # cs). ?sh j} = insert i {j \<in> set cs. te_sharers (dir h2 k L) j}" using True sh2 by auto
    moreover have "i \<notin> {j \<in> set cs. te_sharers (dir h2 k L) j}" using Cons.prems(3) by simp
    ultimately have cnt: "sent + 1 + card {i \<in> set cs. te_sharers (dir h2 k L) i} = sent + card {j \<in> set (i # cs). ?sh j}" by simp
    have "st h' = inval_st N (\<lambda>j. j \<in> set (i # cs) \<and> ?sh j) (tg atag h) a (inv_new t) (st h)"
    proof (intro ext)
      fix j l'
      show "st h' j l' = inval_st N (\<lambda>j. j \<in> set (i # cs) \<and> ?sh j) (tg atag h) a (inv_new t) (st h) j l'"
      proof (cases "j = i")
        case True
        from uniq [of l'] True Cons.prems(3) \<open>?sh i\<close> show ?thesis by (simp add: r(4) inval_st_def h2(3) h1(4))
      next
        case False
        with sh2 show ?thesis by (auto simp: r(4) inval_st_def other tg2)
      qed
    qed
    moreover have "dir h' k = (dir h k)(L := (dir h k L)\<lparr>te_sharers :=
      (if t = INV then (\<lambda>j. ?sh j \<and> j \<notin> set (i # cs)) else ?sh)\<rparr>)"
    proof -
      have "(\<lambda>j. j \<noteq> i \<and> (j \<noteq> i \<longrightarrow> ?sh j \<and> j \<notin> set cs)) = (\<lambda>j. ?sh j \<and> j \<noteq> i \<and> j \<notin> set cs)" by auto
      then show ?thesis by (simp add: r(5) h2(4))
    qed
    moreover have "tkeeps h h'" using tkeeps_trans [OF h2(2) r(2)] .
    moreover have "maxC \<le> maxC'" using r(3) by simp
    ultimately show ?thesis using r(1) unfolding step wb cnt by blast
  qed
qed

text \<open>\<open>sendInvalidates\<close> from the parent's entry \<open>L\<close>.\<close>

definition sharers_hold :: "inv_type \<Rightarrow> addr \<Rightarrow> 'a hier \<Rightarrow> nat \<Rightarrow> bool" where
  "sharers_hold t a h L \<longleftrightarrow> (\<forall>i. te_sharers (dir h k L) i \<longrightarrow> i < k \<and> holds t a h i) \<and>
     te_numSharers (dir h k L) = card {i. te_sharers (dir h k L) i}"

lemma sendInvalidates_loop:
  assumes sh: "shape k N h" and ok: "l1s_ok h" and L: "L < N k" and a: "a \<noteq> 0" and t: "t \<noteq> FWD"
    and hold: "sharers_hold t a h L"
  shows "\<exists>h' maxC'. send_loop (l1_invalidate aops) k a L t cyc src [0..<length (tc_childrenRTTs (c_tcc (h ! k)))] h wb cyc 0 =
      Some (h', wb \<or> (\<exists>i. te_sharers (dir h k L) i \<and> dirty a h i), maxC', te_numSharers (dir h k L)) \<and>
    tkeeps h h' \<and> cyc \<le> maxC' \<and> st h' = inval_st N (te_sharers (dir h k L)) (tg atag h) a (inv_new t) (st h) \<and>
    dir h' k = (dir h k)(L := (dir h k L)\<lparr>te_sharers := (if t = INV then (\<lambda>_. False) else te_sharers (dir h k L))\<rparr>)"
proof -
  let ?sh = "te_sharers (dir h k L)" and ?cs = "[0..<k]"
  have kk: "length (tc_childrenRTTs (c_tcc (h ! k))) = k" using sh by (simp add: shape_def)
  have lt: "i < k" if "?sh i" for i using hold that by (simp add: sharers_hold_def)
  have "\<forall>i\<in>set ?cs. ?sh i \<longrightarrow> holds t a h i" using hold by (simp add: sharers_hold_def)
  from send_loop_ok [OF sh ok L a t _ _ this, of cyc src wb cyc 0] obtain h' maxC' where
    r: "send_loop (l1_invalidate aops) k a L t cyc src ?cs h wb cyc 0 =
      Some (h', wb \<or> (\<exists>i\<in>set ?cs. ?sh i \<and> dirty a h i), maxC', 0 + card {i \<in> set ?cs. ?sh i})"
    "tkeeps h h'" "cyc \<le> maxC'" "st h' = inval_st N (\<lambda>i. i \<in> set ?cs \<and> ?sh i) (tg atag h) a (inv_new t) (st h)"
    "dir h' k = (dir h k)(L := (dir h k L)\<lparr>te_sharers := (if t = INV then (\<lambda>i. ?sh i \<and> i \<notin> set ?cs) else ?sh)\<rparr>)"
    by (simp add: atLeast0LessThan) blast
  have "(\<lambda>i. i \<in> set ?cs \<and> ?sh i) = ?sh" "{i \<in> set ?cs. ?sh i} = {i. ?sh i}" "(\<lambda>i. ?sh i \<and> i \<notin> set ?cs) = (\<lambda>_. False)"
    "(\<exists>i\<in>set ?cs. ?sh i \<and> dirty a h i) = (\<exists>i. ?sh i \<and> dirty a h i)"
    using lt by auto
  with r hold show ?thesis unfolding kk by (simp add: sharers_hold_def)
qed

lemma sendInvalidates_INV:
  assumes sh: "shape k N h" and ok: "l1s_ok h" and L: "L < N k" and a: "a \<noteq> 0" and hold: "sharers_hold INV a h L"
  shows "\<exists>h' cyc'. tcc_sendInvalidates (l1_invalidate aops) k a L INV wb cyc src h =
      Some (h', wb \<or> (\<exists>i. te_sharers (dir h k L) i \<and> dirty a h i), cyc') \<and>
    tkeeps h h' \<and> cyc \<le> cyc' \<and> st h' = inval_st N (te_sharers (dir h k L)) (tg atag h) a I (st h) \<and>
    dir h' k = (dir h k)(L := (dir h k L)\<lparr>te_sharers := (\<lambda>_. False), te_numSharers := 0\<rparr>)"
proof (cases "te_numSharers (dir h k L) = 0")
  case True
  have "{i. te_sharers (dir h k L) i} \<subseteq> {..<k}" using hold by (auto simp: sharers_hold_def)
  then have "finite {i. te_sharers (dir h k L) i}" by (rule finite_subset) simp
  then have none: "te_sharers (dir h k L) = (\<lambda>_. False)" using hold True by (auto simp: sharers_hold_def)
  have "(dir h k)(L := (dir h k L)\<lparr>te_sharers := (\<lambda>_. False), te_numSharers := 0\<rparr>) = dir h k"
    using none True by (intro fun_upd_idem) (cases "dir h k L", simp)
  with True none show ?thesis
    by (simp add: tcc_sendInvalidates_def entry_isEmpty_def inval_st_def)
next
  case False
  obtain h' maxC' where r: "send_loop (l1_invalidate aops) k a L INV cyc src [0..<length (tc_childrenRTTs (c_tcc (h ! k)))] h wb cyc 0 =
      Some (h', wb \<or> (\<exists>i. te_sharers (dir h k L) i \<and> dirty a h i), maxC', te_numSharers (dir h k L))"
    "tkeeps h h'" "cyc \<le> maxC'" "st h' = inval_st N (te_sharers (dir h k L)) (tg atag h) a I (st h)"
    "dir h' k = (dir h k)(L := (dir h k L)\<lparr>te_sharers := (\<lambda>_. False)\<rparr>)"
    using sendInvalidates_loop [OF sh ok L a _ hold, of cyc src wb] by (auto simp: inv_new_def)
  have "shape k N h'" using tkeeps_shape [OF r(2)] sh by simp
  from dir_set_dir_shape [OF this L] r False show ?thesis
    by (simp add: tcc_sendInvalidates_def entry_isEmpty_def)
qed

lemma sendInvalidates_INVX:
  assumes sh: "shape k N h" and ok: "l1s_ok h" and L: "L < N k" and a: "a \<noteq> 0" and hold: "sharers_hold INVX a h L"
    and excl: "entry_isExclusive (dir h k L)"
  shows "\<exists>h' cyc'. tcc_sendInvalidates (l1_invalidate aops) k a L INVX wb cyc src h =
      Some (h', wb \<or> (\<exists>i. te_sharers (dir h k L) i \<and> dirty a h i), cyc') \<and>
    tkeeps h h' \<and> cyc \<le> cyc' \<and> st h' = inval_st N (te_sharers (dir h k L)) (tg atag h) a S (st h) \<and>
    dir h' k = (dir h k)(L := (dir h k L)\<lparr>te_exclusive := False\<rparr>)"
proof -
  obtain h' maxC' where r: "send_loop (l1_invalidate aops) k a L INVX cyc src [0..<length (tc_childrenRTTs (c_tcc (h ! k)))] h wb cyc 0 =
      Some (h', wb \<or> (\<exists>i. te_sharers (dir h k L) i \<and> dirty a h i), maxC', te_numSharers (dir h k L))"
    "tkeeps h h'" "cyc \<le> maxC'" "st h' = inval_st N (te_sharers (dir h k L)) (tg atag h) a S (st h)"
    "dir h' k = dir h k"
    using sendInvalidates_loop [OF sh ok L a _ hold, of cyc src wb] by (auto simp: inv_new_def fun_upd_idem)
  have "shape k N h'" using tkeeps_shape [OF r(2)] sh by simp
  from dir_set_dir_shape [OF this L] r excl show ?thesis
    by (simp add: tcc_sendInvalidates_def entry_isEmpty_def entry_isExclusive_def)
qed

section \<open>The level-2 top controller\<close>

definition coh :: "'a hier \<Rightarrow> bool" where
  "coh h \<longleftrightarrow> coherent k N (st h) (dir h k) (tg atag h)"

lemma coh_hold:
  assumes co: "coh h" and L: "L < N k" and t: "t = INVX \<Longrightarrow> entry_isExclusive (dir h k L)"
  shows "sharers_hold t (tg atag h k L) h L"
proof -
  note co = co [unfolded coh_def]
  have "i < k \<and> holds t (tg atag h k L) h i" if i: "te_sharers (dir h k L) i" for i
  proof -
    obtain l where l: "i < k" "l < N i" "tg atag h i l = tg atag h k L" "line_ok (dir h k L) (st h i l)"
      using coherent_sharer [OF co L i] by blast
    with t line_ok_valid [OF l(4)] show ?thesis by (auto simp: holds_def line_ok_def)
  qed
  moreover have "te_numSharers (dir h k L) = card {i. te_sharers (dir h k L) i}"
    using coherent_entry [OF co L] by (simp add: entry_ok_def)
  ultimately show ?thesis by (simp add: sharers_hold_def)
qed

lemma tkeeps_coh: "tkeeps h h' \<Longrightarrow> tg atag h' = tg atag h"
  by (simp add: tkeeps_def)

lemma tcc_put_ok:
  assumes sh: "shape k N h" and co: "coh h" and c: "c < k" "l < N c" and L: "L < N k" "tg atag h k L = tg atag h c l"
    and v: "st h c l \<noteq> I" and t: "t = PUTS \<or> t = PUTX \<and> st h c l = M" and fl: "flags AND PUTX_KEEPEXCL = 0"
  shows "\<exists>h'. tcc_processAccess cinv k a L t c ex (LineCell c l) wb cyc src flags h = Some (h', wb, cyc) \<and>
    keeps h h' \<and> coh h' \<and> st h' = (st h)(c := (st h c)(l := I))"
proof -
  note co' = co [unfolded coh_def]
  have share: "te_sharers (dir h k L) c" by (rule coherent_child_line [OF co' c L v])
  have excl: "entry_isExclusive (dir h k L)" if "t = PUTX"
    using coherent_sharer_line [OF co' c L share] t that by (auto simp: line_ok_def split: if_splits)
  let ?e = "(dir h k L)\<lparr>te_sharers := (te_sharers (dir h k L))(c := False), te_numSharers := te_numSharers (dir h k L) - 1\<rparr>"
  let ?h = "set_st c l I (set_dir k L ?e h)"
  have "shape k N (set_dir k L ?e h)" using sh by simp
  from st_set_st_shape [OF this less_imp_le [OF c(1)] c(2)] have st': "st ?h = (st h)(c := (st h c)(l := I))" by simp
  moreover have "dir ?h k = (dir h k)(L := ?e)" using dir_set_dir_shape [OF sh L(1)] by simp
  moreover have "tg atag ?h = tg atag h" by (simp add: tg_def fun_eq_iff)
  ultimately have "coh ?h" using coherent_put [OF co' c L v] by (simp add: coh_def)
  with st' share excl t fl show ?thesis
    by (auto simp: tcc_processAccess_def tcc_put_def Let_def)
qed

lemma tcc_gets_ok:
  assumes sh: "shape k N h" and ok: "l1s_ok h" and co: "coh h" and c: "c < k" "l < N c"
    and L: "L < N k" "tg atag h k L = tg atag h c l" and v: "st h c l = I" and x: "st h k L \<noteq> I"
  shows "\<exists>h' wb cyc'. tcc_processAccess (l1_invalidate aops) k (tg atag h k L) L GETS c (bcc_isExclusive h k L) (LineCell c l) False cyc src flags h =
      Some (h', wb, cyc') \<and> tkeeps h h' \<and> cyc \<le> cyc' \<and> coh h' \<and> (st h' c l = S \<or> st h' c l = E) \<and> st h' k = st h k \<and>
      (wb \<longrightarrow> st h k L = E \<or> st h k L = M)"
proof -
  note co' = co [unfolded coh_def]
  have ck: "c \<noteq> k" "c \<le> k" using c by simp_all
  have T0: "tg atag h k L \<noteq> 0" by (rule coherent_nonzero [OF co' L(1) x])
  have noshare: "\<not> te_sharers (dir h k L) c"
    using coherent_sharer_line [OF co' c L] line_ok_valid v by blast
  let ?d = "dir h k L"
  show ?thesis
  proof (cases "entry_isEmpty ?d \<and> bcc_isExclusive h k L \<and> flags AND NOEXCL = 0")
    case True
    let ?e = "?d\<lparr>te_exclusive := True, te_sharers := (te_sharers ?d)(c := True), te_numSharers := 1\<rparr>"
    let ?h = "set_st c l E (set_dir k L ?e h)"
    have "shape k N (set_dir k L ?e h)" using sh by simp
    from st_set_st_shape [OF this less_imp_le [OF c(1)] c(2)] have st': "st ?h = (st h)(c := (st h c)(l := E))" by simp
    moreover have "dir ?h k = (dir h k)(L := ?e)" using dir_set_dir_shape [OF sh L(1)] by simp
    moreover have "tg atag ?h = tg atag h" by (simp add: tg_def fun_eq_iff)
    moreover have "st h k L = E \<or> st h k L = M" "te_numSharers ?d = 0" using True by (auto simp: bcc_isExclusive_def entry_isEmpty_def)
    ultimately have "coh ?h" using coherent_grant_E [OF co' c L] T0 L(2) by (simp add: coh_def)
    with st' True ck show ?thesis by (auto simp: tcc_processAccess_def Let_def)
  next
    case False
    obtain h1 wb cyc1 where h1: "(if entry_isExclusive ?d then tcc_sendInvalidates (l1_invalidate aops) k (tg atag h k L) L INVX False cyc src h
        else Some (h, False, cyc)) = Some (h1, wb, cyc1)"
      "tkeeps h h1" "cyc \<le> cyc1" "coh h1" "st h1 c l = I" "st h1 k = st h k" "\<not> entry_isExclusive (dir h1 k L)"
      "te_sharers (dir h1 k L) = te_sharers ?d" "wb \<longrightarrow> st h k L = E \<or> st h k L = M"
    proof (cases "entry_isExclusive ?d")
      case True
      have hold: "sharers_hold INVX (tg atag h k L) h L" using coh_hold [OF co L(1)] True by simp
      obtain h1 cyc1 where r: "tcc_sendInvalidates (l1_invalidate aops) k (tg atag h k L) L INVX False cyc src h =
          Some (h1, False \<or> (\<exists>i. te_sharers ?d i \<and> dirty (tg atag h k L) h i), cyc1)"
        "tkeeps h h1" "cyc \<le> cyc1" "st h1 = inval_st N (te_sharers ?d) (tg atag h) (tg atag h k L) S (st h)"
        "dir h1 k = (dir h k)(L := ?d\<lparr>te_exclusive := False\<rparr>)"
        using sendInvalidates_INVX [OF sh ok L(1) T0 hold True] by blast
      have "coh h1" using coherent_downgrade [OF co' L(1) True] r(2,4,5) by (simp add: coh_def tkeeps_coh)
      moreover have "\<not> te_sharers ?d k" using coherent_sharer_ex [OF co' L(1), of k] by auto
      moreover have "st h k L = E \<or> st h k L = M" using coherent_entry [OF co' L(1)] True by (simp add: entry_ok_def)
      ultimately show ?thesis using r True v noshare
        by (intro that [of h1 "\<exists>i. te_sharers ?d i \<and> dirty (tg atag h k L) h i" cyc1]) (auto simp: inval_st_def entry_isExclusive_def)
    next
      case False
      with co v show ?thesis by (intro that [of h False cyc]) auto
    qed
    have sh1: "shape k N h1" using tkeeps_shape [OF h1(2)] sh by simp
    let ?d1 = "dir h1 k L"
    let ?e = "?d1\<lparr>te_sharers := (te_sharers ?d1)(c := True), te_numSharers := te_numSharers ?d1 + 1, te_exclusive := False\<rparr>"
    let ?h = "set_st c l S (set_dir k L ?e h1)"
    have "shape k N (set_dir k L ?e h1)" using sh1 by simp
    from st_set_st_shape [OF this less_imp_le [OF c(1)] c(2)] have st': "st ?h = (st h1)(c := (st h1 c)(l := S))" by simp
    moreover have "dir ?h k = (dir h1 k)(L := ?e)" using dir_set_dir_shape [OF sh1 L(1)] by simp
    moreover have tg': "tg atag ?h = tg atag h1" by (simp add: tg_def fun_eq_iff)
    moreover have "tg atag h1 k L = tg atag h1 c l" using L(2) tkeeps_coh [OF h1(2)] by simp
    ultimately have "coh ?h"
      using coherent_grant_S [OF h1(4) [unfolded coh_def] c L(1)] h1(6,7,8) x noshare by (simp add: coh_def)
    with st' ck h1 noshare False show ?thesis
      by (auto simp: tcc_processAccess_def Let_def)
  qed
qed

lemma tcc_getx_ok:
  assumes sh: "shape k N h" and ok: "l1s_ok h" and co: "coh h" and c: "c < k" "l < N c"
    and L: "L < N k" "tg atag h k L = tg atag h c l" and v: "st h c l = I \<or> st h c l = S"
    and x: "st h k L = E \<or> st h k L = M"
  shows "\<exists>h' wb cyc'. tcc_processAccess (l1_invalidate aops) k (tg atag h k L) L GETX c (bcc_isExclusive h k L) (LineCell c l) False cyc src flags h =
      Some (h', wb, cyc') \<and> tkeeps h h' \<and> cyc \<le> cyc' \<and> coh h' \<and> st h' c l = M \<and> st h' k = st h k"
proof -
  note co' = co [unfolded coh_def]
  let ?d = "dir h k L" and ?a = "tg atag h k L"
  have ck: "c \<noteq> k" "c \<le> k" using c by simp_all
  have T0: "?a \<noteq> 0" using coherent_nonzero [OF co' L(1)] x by auto
  have excl: "bcc_isExclusive h k L" using x by (simp add: bcc_isExclusive_def)
  have spurious: "te_sharers ?d c \<longrightarrow> \<not> entry_isExclusive ?d"
    using coherent_sharer_line [OF co' c L] v by (auto simp: line_ok_def)
  define e0 where "e0 = (if te_sharers ?d c then ?d\<lparr>te_sharers := (te_sharers ?d)(c := False), te_numSharers := te_numSharers ?d - 1\<rparr> else ?d)"
  define h0 where "h0 = (if te_sharers ?d c then set_dir k L e0 h else h)"
  have h0: "shape k N h0" "tkeeps h h0" "st h0 = st h" "dir h0 k = (dir h k)(L := e0)"
    using sh dir_set_dir_shape [OF sh L(1)] by (auto simp: h0_def e0_def)
  have sh0: "te_sharers e0 i \<longleftrightarrow> te_sharers ?d i \<and> i \<noteq> c" for i by (auto simp: e0_def)
  have tg0: "tg atag h0 = tg atag h" and ok0: "l1s_ok h0" using h0(2) ok by (simp_all add: tkeeps_def)
  have fin: "finite {i. te_sharers ?d i}" and num: "te_numSharers ?d = card {i. te_sharers ?d i}"
    using coherent_finite [OF co' L(1)] coherent_entry [OF co' L(1)] by (simp_all add: entry_ok_def)
  have "{i. te_sharers e0 i} = {i. te_sharers ?d i} - {c}" using sh0 by auto
  then have "te_numSharers e0 = card {i. te_sharers e0 i}" using fin num by (auto simp: e0_def)
  moreover have "i < k \<and> holds INV ?a h0 i" if "te_sharers e0 i" for i
    using coh_hold [OF co L(1), of INV] that sh0 by (simp add: sharers_hold_def holds_def tg0 h0(3))
  ultimately have hold: "sharers_hold INV ?a h0 L" by (simp add: sharers_hold_def h0(4))
  obtain h1 wb cyc1 where r: "tcc_sendInvalidates (l1_invalidate aops) k ?a L INV False cyc src h0 = Some (h1, wb, cyc1)"
    "tkeeps h0 h1" "cyc \<le> cyc1" "st h1 = inval_st N (te_sharers (dir h0 k L)) (tg atag h0) ?a I (st h0)"
    "dir h1 k = (dir h0 k)(L := (dir h0 k L)\<lparr>te_sharers := (\<lambda>_. False), te_numSharers := 0\<rparr>)"
    using sendInvalidates_INV [OF h0(1) ok0 L(1) T0 hold] by blast
  let ?e1 = "(dir h1 k L)\<lparr>te_sharers := (te_sharers (dir h1 k L))(c := True), te_numSharers := te_numSharers (dir h1 k L) + 1, te_exclusive := True\<rparr>"
  have e1: "?e1 = ?d\<lparr>te_sharers := (\<lambda>i. i = c), te_numSharers := 1, te_exclusive := True\<rparr>"
    using r(5) h0(4) by (cases ?d) (auto simp: e0_def fun_eq_iff)
  have sh1: "shape k N h1" using tkeeps_shape [OF r(2)] h0(1) by simp
  let ?h = "set_cell (LineCell c l) M (set_dir k L ?e1 h1)"
  have "shape k N (set_dir k L ?e1 h1)" using sh1 by simp
  from st_set_st_shape [OF this less_imp_le [OF c(1)] c(2)]
  have st': "st ?h = (st h1)(c := (st h1 c)(l := M))" by simp
  have st1: "st h1 = inval_st N (te_sharers e0) (tg atag h) ?a I (st h)" using r(4) h0(3,4) tg0 by simp
  have dir': "dir ?h k = (dir h k)(L := ?d\<lparr>te_sharers := (\<lambda>i. i = c), te_numSharers := 1, te_exclusive := True\<rparr>)"
    using dir_set_dir_shape [OF sh1 L(1), of ?e1] unfolding e1 by (simp add: r(5) h0(4))
  have keep: "tkeeps h ?h" using tkeeps_trans [OF h0(2) r(2)] by simp
  have "coh ?h"
    using coherent_grant_M [OF co' c L _ x, of "te_sharers e0"] sh0 T0 L(2)
    unfolding coh_def st' st1 dir' tkeeps_coh [OF keep] by simp
  moreover have "st ?h c l = M" "st ?h k = st h k"
    using ck coherent_sharer_ex [OF co' L(1), of k] sh0 unfolding st' st1 by (auto simp: inval_st_def fun_eq_iff)
  moreover have "te_numSharers ?e1 = 1" unfolding e1 by simp
  moreover have "tcc_processAccess (l1_invalidate aops) k ?a L GETX c (bcc_isExclusive h k L) (LineCell c l) False cyc src flags h =
      Some (?h, wb, cyc1)"
    using r(1) excl spurious \<open>te_numSharers ?e1 = 1\<close>
    by (cases "te_sharers ?d c") (simp_all add: tcc_processAccess_def Let_def h0_def e0_def)
  ultimately show ?thesis using keep r(3) by blast
qed

section \<open>The level-2 cache\<close>

lemma l2_process_get:
  assumes sh: "shape k N h" and ok: "l1s_ok h" and co: "coh h" and c: "c < k" "l < N c"
    and L: "L < N k" "tg atag h k L = tg atag h c l" "tg atag h c l \<noteq> 0"
    and t: "t = GETS \<and> st h c l = I \<or> t = GETX \<and> (st h c l = I \<or> st h c l = S)"
    and req: "mr_lineAddr req = tg atag h c l" "mr_type req = t" "mr_childId req = c" "mr_state req = LineCell c l"
      "mr_flags req AND PREFETCH = 0"
  shows "\<exists>h' cyc'. mesicc_processAccess (mem_access lat) (l1_invalidate aops) k req (Some L) cyc h = Some (h', cyc') \<and>
    tkeeps h h' \<and> cyc \<le> cyc' \<and> coh h' \<and> (t = GETS \<longrightarrow> st h' c l = S \<or> st h' c l = E) \<and> (t = GETX \<longrightarrow> st h' c l = M)"
proof -
  let ?fl = "mr_flags req AND NOT PREFETCH"
  obtain h1 cyc1 x where b: "bcc_processAccess (mem_access lat) k (mr_lineAddr req) L t cyc (mr_srcId req) ?fl h = Some (h1, cyc1)"
    "keeps h h1" "cyc \<le> cyc1" "dir h1 = dir h" "st h1 = (st h)(k := (st h k)(L := x))" "bcc_post t (st h k L) x"
    using mem_bcc_access [OF sh L(1) lat, of t "mr_lineAddr req" cyc "mr_srcId req" ?fl] t by auto
  have k1: "tkeeps h h1" by (rule keeps_tkeeps [OF b(2)])
  have x: "x \<noteq> I" "st h k L = E \<or> st h k L = M \<Longrightarrow> x = E \<or> x = M" "t = GETX \<Longrightarrow> x = M"
    using b(6) t by (auto simp: bcc_post_def split: if_splits)
  have co1: "coh h1"
    using coherent_fill [OF co [unfolded coh_def] L(1) _ x(1,2)] L(2,3) by (simp add: coh_def b(4,5) tkeeps_coh [OF k1])
  have sh1: "shape k N h1" and ok1: "l1s_ok h1" and tg1: "tg atag h1 = tg atag h"
    using k1 sh ok tkeeps_shape [OF k1] by (simp_all add: tkeeps_def)
  have s1: "st h1 c l = st h c l" "st h1 k L = x" using c b(5) by simp_all
  have L1: "tg atag h1 k L = tg atag h1 c l" using L(2) tg1 by simp
  obtain h2 wb cyc2 where r: "tcc_processAccess (l1_invalidate aops) k (mr_lineAddr req) L t c (bcc_isExclusive h1 k L) (LineCell c l) False cyc1
      (mr_srcId req) ?fl h1 = Some (h2, wb, cyc2)" "tkeeps h1 h2" "cyc1 \<le> cyc2" "coh h2" "st h2 k = st h1 k"
    "wb \<longrightarrow> x = E \<or> x = M" "t = GETS \<longrightarrow> st h2 c l = S \<or> st h2 c l = E" "t = GETX \<longrightarrow> st h2 c l = M"
  proof (cases "t = GETS")
    case True
    have "st h1 c l = I" "st h1 k L \<noteq> I" using True t s1 x(1) by auto
    from tcc_gets_ok [OF sh1 ok1 co1 c L(1) L1 this, of cyc1 "mr_srcId req" ?fl] True req(1) L(2) tg1 s1(2) show ?thesis
      by (auto intro: that)
  next
    case False
    then have "st h1 c l = I \<or> st h1 c l = S" "st h1 k L = E \<or> st h1 k L = M" "t = GETX" using t s1 x(3) by auto
    with tcc_getx_ok [OF sh1 ok1 co1 c L(1) L1 this(1,2), of cyc1 "mr_srcId req" ?fl] req(1) L(2) tg1 s1(2) x(3) show ?thesis
      by (auto intro: that)
  qed
  have sh2: "shape k N h2" using tkeeps_shape [OF r(2)] sh1 by simp
  have k2: "tkeeps h h2" by (rule tkeeps_trans [OF k1 r(2)])
  have st2: "st h2 k L = x" using r(5) s1(2) by simp
  let ?h = "if wb \<and> x = E then set_st k L M h2 else h2"
  have wbk: "wb \<Longrightarrow> bcc_processWritebackOnAccess k L h2 = Some ?h"
    using r(6) st2 by (auto simp: bcc_processWritebackOnAccess_def)
  have "coh (set_st k L M h2)"
  proof -
    have "tg atag (set_st k L M h2) = tg atag h2" by (simp add: tg_def fun_eq_iff)
    then show ?thesis
      using coherent_fill [OF r(4) [unfolded coh_def] L(1), of M] L(2,3) tkeeps_coh [OF k2]
      by (simp add: coh_def st_set_st_shape [OF sh2 order_refl L(1)])
  qed
  then have coh': "coh ?h" using r(4) by simp
  have st': "st ?h c l = st h2 c l" using st_set_st_shape [OF sh2 order_refl L(1)] c by simp
  have put: "\<not> IsPut t" using t by (auto simp: IsPut_def)
  have "mesicc_processAccess (mem_access lat) (l1_invalidate aops) k req (Some L) cyc h = Some (?h, cyc2)"
    using put b(1) r(1) wbk req(2-5)
    by (cases wb) (simp_all add: mesicc_processAccess_def mr_is_def Let_def)
  moreover have "tkeeps h ?h" using k2 by simp
  ultimately show ?thesis using b(3) r(3,7,8) coh' st' by (intro exI [of _ ?h] exI [of _ cyc2]) simp
qed

lemma l2_process_put:
  assumes sh: "shape k N h" and co: "coh h" and c: "c < k" "l < N c"
    and L: "L < N k" "tg atag h k L = tg atag h c l"
    and t: "t = PUTS \<and> st h c l \<noteq> I \<or> t = PUTX \<and> st h c l = M"
    and req: "mr_type req = t" "mr_childId req = c" "mr_state req = LineCell c l" "mr_flags req = 0"
  shows "\<exists>h' cyc'. mesicc_processAccess (mem_access lat) (l1_invalidate aops) k req (Some L) cyc h = Some (h', cyc') \<and>
    keeps h h' \<and> cyc \<le> cyc' \<and> coh h' \<and> st h' c l = I"
proof -
  note co' = co [unfolded coh_def]
  have v: "st h c l \<noteq> I" using t by auto
  have share: "te_sharers (dir h k L) c" by (rule coherent_child_line [OF co' c L v])
  have kl: "st h k L \<noteq> I" using coherent_sharer [OF co' L(1) share] by blast
  have kx: "st h k L = E \<or> st h k L = M" if "t = PUTX"
  proof -
    have "entry_isExclusive (dir h k L)"
      using coherent_sharer_line [OF co' c L share] t that by (auto simp: line_ok_def split: if_splits)
    then show ?thesis using coherent_entry [OF co' L(1)] by (simp add: entry_ok_def)
  qed
  obtain h1 cyc1 x where b: "bcc_processAccess (mem_access lat) k (mr_lineAddr req) L t cyc (mr_srcId req) 0 h = Some (h1, cyc1)"
    "keeps h h1" "cyc \<le> cyc1" "dir h1 = dir h" "st h1 = (st h)(k := (st h k)(L := x))" "bcc_post t (st h k L) x"
    using mem_bcc_access [OF sh L(1) lat, of t "mr_lineAddr req" cyc "mr_srcId req" 0] kl kx by auto
  have k1: "tkeeps h h1" by (rule keeps_tkeeps [OF b(2)])
  have x: "x \<noteq> I" "st h k L = E \<or> st h k L = M \<Longrightarrow> x = E \<or> x = M"
    using b(6) t kl kx by (auto simp: bcc_post_def)
  have co1: "coh h1"
    using coherent_fill [OF co' L(1) _ x] coherent_nonzero [OF co' L(1) kl] by (simp add: coh_def b(4,5) tkeeps_coh [OF k1])
  have sh1: "shape k N h1" and L1: "tg atag h1 k L = tg atag h1 c l" and s1: "st h1 c l = st h c l"
    using k1 sh tkeeps_shape [OF k1] L(2) c b(5) by (simp_all add: tkeeps_def)
  have v1: "st h1 c l \<noteq> I" "t = PUTS \<or> t = PUTX \<and> st h1 c l = M" using v t s1 by auto
  obtain h2 where r: "tcc_processAccess (l1_invalidate aops) k (mr_lineAddr req) L t c (bcc_isExclusive h1 k L) (LineCell c l) False cyc1
      (mr_srcId req) 0 h1 = Some (h2, False, cyc1)" "keeps h1 h2" "coh h2" "st h2 = (st h1)(c := (st h1 c)(l := I))"
    using tcc_put_ok [OF sh1 co1 c L(1) L1 v1, where flags = 0 and cinv = "l1_invalidate aops" and wb = False] by simp blast
  have "keeps h h2" by (rule keeps_trans [OF b(2) r(2)])
  with b(1,3) r kl t req show ?thesis
    by (auto simp: mesicc_processAccess_def mr_is_def Let_def)
qed

text \<open>Eviction of a line of the level-2 cache, with the back-invalidations it causes.\<close>

lemma l2_evict:
  assumes sh: "shape k N h" and ok: "l1s_ok h" and co: "coh h" and L: "L < N k"
  shows "\<exists>h' cyc'. cc_processEviction (mem_access lat) (l1_invalidate aops) k req (tg atag h k L) L cyc h = Some (h', cyc') \<and>
    tkeeps h h' \<and> coh h' \<and> st h' k L = I \<and> (\<forall>i<k. \<forall>l<N i. tg atag h i l \<noteq> tg atag h k L \<longrightarrow> st h' i l = st h i l)"
proof -
  note co' = co [unfolded coh_def]
  let ?d = "dir h k L" and ?a = "tg atag h k L"
  have cfgs: "\<not> c_terminal (h ! k)" "\<not> tc_nonInclusiveHack (c_tcc (h ! k))" using sh by (auto simp: shape_def)
  obtain h1 wb cyc1 where r: "tcc_sendInvalidates (l1_invalidate aops) k ?a L INV False cyc (mr_srcId req) h = Some (h1, wb, cyc1)"
    "tkeeps h h1" "st h1 = inval_st N (te_sharers ?d) (tg atag h) ?a I (st h)"
    "dir h1 k = (dir h k)(L := ?d\<lparr>te_sharers := (\<lambda>_. False), te_numSharers := 0\<rparr>)"
    "wb \<longrightarrow> (\<exists>i. te_sharers ?d i \<and> dirty ?a h i)"
  proof (cases "?a = 0")
    case True
    then have none: "\<not> te_sharers ?d i" for i using coherent_sharer [OF co' L, of i] coherent_nonzero [OF co' L] by metis
    then have zero: "te_numSharers ?d = 0" using coherent_entry [OF co' L] by (simp add: entry_ok_def)
    have "?d\<lparr>te_sharers := (\<lambda>_. False), te_numSharers := 0\<rparr> = ?d" using none zero by (cases ?d) (simp add: fun_eq_iff)
    then show ?thesis using zero none
      by (intro that [of h False cyc]) (simp_all add: tcc_sendInvalidates_def entry_isEmpty_def inval_st_def)
  next
    case False
    from sendInvalidates_INV [OF sh ok L False coh_hold [OF co L], of False cyc "mr_srcId req"] show ?thesis
      by (auto intro: that)
  qed
  have noself: "\<not> te_sharers ?d k" using coherent_sharer_ex [OF co' L, of k] by auto
  have k1: "st h1 k L = st h k L" using r(3) noself by (simp add: inval_st_def)
  have ex: "st h1 k L = E \<or> st h1 k L = M" if w: wb
  proof -
    obtain i l where i: "te_sharers ?d i" "l < N i" "tg atag h i l = ?a" "st h i l = M" using r(5) w by (auto simp: dirty_def)
    have "i < k" using coherent_sharer [OF co' L i(1)] by blast
    then have "entry_isExclusive ?d"
      using coherent_sharer_line [OF co' _ i(2) L] i by (auto simp: line_ok_def split: if_splits)
    then show ?thesis using coherent_entry [OF co' L] k1 by (simp add: entry_ok_def)
  qed
  have sh1: "shape k N h1" using tkeeps_shape [OF r(2)] sh by simp
  obtain h2 cyc2 where e: "bcc_processEviction (mem_access lat) k ?a L wb cyc1 (mr_srcId req) h1 = Some (h2, cyc2)"
    "keeps h1 h2" "dir h2 = dir h1" "st h2 = (st h1)(k := (st h1 k)(L := I))"
    using mem_bcc_evict [OF sh1 L lat, of wb ?a cyc1 "mr_srcId req"] ex by blast
  have keep: "tkeeps h h2" using tkeeps_trans [OF r(2) keeps_tkeeps [OF e(2)]] .
  have "coh h2"
    using coherent_evict [OF co' L] unfolding coh_def tkeeps_coh [OF keep] e(3,4) r(3,4) .
  moreover have "cc_processEviction (mem_access lat) (l1_invalidate aops) k req ?a L cyc h = Some (h2, cyc2)"
    using cfgs r(1) e(1) by (simp add: cc_processEviction_def tcc_processEviction_def)
  moreover have "\<forall>i<k. \<forall>l<N i. tg atag h i l \<noteq> ?a \<longrightarrow> st h2 i l = st h i l"
    by (simp add: e(4) r(3) inval_st_def)
  ultimately show ?thesis using keep e(4) by auto
qed

lemma tg_set_arr: "shape k N h \<Longrightarrow> c \<le> k \<Longrightarrow> tg atag (set_arr c arr h) = (tg atag h)(c := atag c arr)"
  by (simp add: fun_eq_iff tg_def arr_set_arr_shape)

lemma coh_set_arr:
  assumes "shape k N h" and "c \<le> k" and "atag c arr = tg atag h c"
  shows "coh (set_arr c arr h) = coh h" and "tg atag (set_arr c arr h) = tg atag h"
  using tg_set_arr [OF assms(1,2), of arr] assms(3) by (simp_all add: coh_def)

lemma l1s_set_arr_k: "shape k N h \<Longrightarrow> l1s_ok (set_arr k arr h) = l1s_ok h"
  by (auto simp: l1s_ok_def arr_set_arr_shape)

text \<open>An access keeps the configuration; \<open>result\<close> is what each level promises.\<close>

definition hier_ok :: "'a hier \<Rightarrow> bool" where
  "hier_ok h \<longleftrightarrow> shape k N h \<and> coh h \<and> ainv k (c_array (h ! k)) \<and> l1s_ok h"

lemma race_free: "CheckForMESIRace t x x = Some (t, False)"
  by (simp add: CheckForMESIRace_def)

lemma l2_put:
  assumes sh: "shape k N h" and co: "coh h" and inv: "ainv k (c_array (h ! k))" and c: "c < k" "l < N c"
    and t: "t = PUTS \<and> st h c l \<noteq> I \<or> t = PUTX \<and> st h c l = M"
  shows "\<exists>h' cyc'. l2_access aops lat k h (bcc_req c l h (tg atag h c l) t cyc src 0) = Some (h', cyc') \<and>
    shape k N h' \<and> coh h' \<and> ainv k (c_array (h' ! k)) \<and> tg atag h' = tg atag h \<and>
    (\<forall>i<k. c_array (h' ! i) = c_array (h ! i)) \<and> cyc \<le> cyc' \<and> st h' c l = I"
proof -
  note co' = co [unfolded coh_def]
  let ?a = "tg atag h c l" and ?req = "bcc_req c l h (tg atag h c l) t cyc src 0"
  have v: "st h c l \<noteq> I" using t by auto
  obtain L where L: "L < N k" "tg atag h k L = ?a" "?a \<noteq> 0" using coherent_child [OF co' c v] by blast
  have find: "afind k (c_array (h ! k)) ?a = Some L"
    using ca_tag_find [OF order_refl inv L(1)] L(2,3) by (simp add: tg_def)
  have put: "\<not> IsGet t" using t by (auto simp: IsGet_def)
  obtain arr where arr: "ca_lookup (aops k) (c_array (h ! k)) ?a ?req False = Some (arr, Some L)" "ainv k arr"
    "atag k arr = atag k (c_array (h ! k))"
    using ca_lookup_ok [OF order_refl inv L(3), of ?req False] find by auto
  let ?h = "set_arr k arr h"
  have tags: "atag k arr = tg atag h k" using arr(3) by (simp add: fun_eq_iff tg_def)
  have h1: "shape k N ?h" "coh ?h" "tg atag ?h = tg atag h" "st ?h = st h"
    using sh co coh_set_arr [OF sh order_refl tags] by simp_all
  have cfgs: "\<not> c_terminal (h ! k)" "\<not> c_terminal (?h ! k)" "bc_selfId (c_bcc (h ! c)) = c"
    using sh h1(1) c by (auto simp: shape_def)
  have rq: "mr_type ?req = t" "mr_childId ?req = c" "mr_state ?req = LineCell c l" "mr_flags ?req = 0" "mr_lineAddr ?req = ?a"
    "mr_initialState ?req = st h c l" "mr_cycle ?req = cyc" "?req\<lparr>mr_type := t\<rparr> = ?req"
    using cfgs by (simp_all add: bcc_req_def)
  obtain h' cyc' where r: "mesicc_processAccess (mem_access lat) (l1_invalidate aops) k ?req (Some L) (cyc + c_accLat (h ! k)) ?h = Some (h', cyc')"
    "keeps ?h h'" "cyc + c_accLat (h ! k) \<le> cyc'" "coh h'" "st h' c l = I"
    using l2_process_put [OF h1(1,2) c L(1), of t ?req "cyc + c_accLat (h ! k)"] t L(2) rq h1(3,4) by auto
  have start: "cc_startAccess k h ?req = Some (?req, False)"
    using cfgs(1) by (simp add: cc_startAccess_def rq race_free)
  have "l2_access aops lat k h ?req = Some (h', cyc')"
    using arr(1) r(1,3) put cfgs start by (simp add: l2_access_def cache_access_def rq cc_processAccess_def)
  moreover have "shape k N h'" using keeps_shape [OF r(2)] h1(1) by simp
  moreover have "c_array (h' ! i) = (if i = k then arr else c_array (h ! i))" for i
    using r(2) arr_set_arr_shape [OF sh order_refl] by (simp add: keeps_def)
  moreover have "tg atag h' = tg atag h" using tkeeps_coh [OF keeps_tkeeps [OF r(2)]] h1(3) by simp
  ultimately show ?thesis using r(3-5) arr(2) by auto
qed

text \<open>What a GET does before the controllers serve it: the lookup with, on a miss, the eviction and the insertion
  leaves the address in a line \<open>L\<close>, and no copy of it in a level-1 cache is touched.\<close>

lemma l2_insert:
  assumes ok: "hier_ok h" and get: "IsGet (mr_type req)" and line: "mr_lineAddr req = a" and a: "a \<noteq> 0"
    and start: "cc_startAccess k h req = Some (req, False)"
  obtains h3 L where
    "l2_access aops lat k h req = Option.bind
       (mesicc_processAccess (mem_access lat) (l1_invalidate aops) k req (Some L) (mr_cycle req + c_accLat (h ! k)) h3)
       (\<lambda>(h4, respCycle). Option.bind (guard (mr_cycle req \<le> respCycle)) (\<lambda>_. Some (h4, respCycle)))"
    "hier_ok h3" "L < N k" "tg atag h3 k L = a"
    "\<forall>i<k. tg atag h3 i = tg atag h i" "\<forall>i<k. \<forall>l<N i. tg atag h i l = a \<longrightarrow> st h3 i l = st h i l" "map cfg h3 = map cfg h"
proof -
  have sh: "shape k N h" and co: "coh h" and inv: "ainv k (c_array (h ! k))" and l1s: "l1s_ok h"
    using ok by (simp_all add: hier_ok_def)
  obtain arr where arr: "ca_lookup (aops k) (c_array (h ! k)) a req True = Some (arr, afind k (c_array (h ! k)) a)" "ainv k arr"
    "afind k arr = afind k (c_array (h ! k))" "atag k arr = atag k (c_array (h ! k))"
    using ca_lookup_ok [OF order_refl inv a, of req True] by blast
  let ?h = "set_arr k arr h" and ?cyc = "mr_cycle req + c_accLat (h ! k)"
  have tags: "atag k arr = tg atag h k" using arr(4) by (simp add: fun_eq_iff tg_def)
  have h1: "shape k N ?h" "coh ?h" "tg atag ?h = tg atag h" "st ?h = st h" "l1s_ok ?h"
    using sh co coh_set_arr [OF sh order_refl tags] l1s l1s_set_arr_k [OF sh] by simp_all
  have nterm: "\<not> c_terminal (h ! k)" "\<not> c_terminal (?h ! k)" using sh h1(1) by (auto simp: shape_def)
  text \<open>The lookup with, on a miss, the insertion, leaves the address in line \<open>L\<close>.\<close>
  obtain h3 L where ins: "(if (if afind k (c_array (h ! k)) a = None then True else False) then
        Option.bind (ca_preinsert (aops k) (cc_view_of ?h k) (c_array (?h ! k)) a req) (\<lambda>(arr2, l, wbLineAddr).
        Option.bind (cc_processEviction (mem_access lat) (l1_invalidate aops) k req wbLineAddr l ?cyc (set_arr k arr2 ?h)) (\<lambda>(h2, _).
        Option.bind (ca_postinsert (aops k) (c_array (h2 ! k)) a req l) (\<lambda>arr3. Some (set_arr k arr3 h2, Some l))))
      else Some (?h, afind k (c_array (h ! k)) a)) = Some (h3, Some L)"
    "shape k N h3" "coh h3" "l1s_ok h3" "ainv k (c_array (h3 ! k))" "L < N k" "tg atag h3 k L = a"
    "\<forall>i<k. tg atag h3 i = tg atag h i" "\<forall>i<k. \<forall>l<N i. tg atag h i l = a \<longrightarrow> st h3 i l = st h i l" "map cfg h3 = map cfg h"
  proof (cases "afind k (c_array (h ! k)) a")
    case (Some L)
    with ca_find_tag [OF order_refl inv a] have L: "L < N k" "tg atag h k L = a" by (auto simp: tg_def)
    show ?thesis
      by (rule that [of ?h L]) (use Some L h1 arr(2) arr_set_arr_shape [OF sh order_refl] in simp_all)
  next
    case None
    have arrk: "c_array (?h ! k) = arr" using arr_set_arr_shape [OF sh order_refl] by simp
    obtain arr2 L where p: "ca_preinsert (aops k) (cc_view_of ?h k) arr a req = Some (arr2, L, atag k arr L)" "L < N k"
      "apend k arr2 a L" "atag k arr2 = atag k arr"
      using ca_preinsert_ok [OF order_refl arr(2) a, of "cc_view_of ?h k" req] None arr(3) by auto
    let ?h2 = "set_arr k arr2 ?h"
    have tags2: "atag k arr2 = tg atag ?h k" using p(4) arrk by (simp add: fun_eq_iff tg_def)
    have h2: "shape k N ?h2" "coh ?h2" "tg atag ?h2 = tg atag h" "st ?h2 = st h" "l1s_ok ?h2"
      using h1 coh_set_arr [OF h1(1) order_refl tags2] l1s_set_arr_k [OF h1(1)] by simp_all
    have wb: "atag k arr L = tg atag ?h2 k L" using tags h2(3) by simp
    obtain h4 cyc4 where e: "cc_processEviction (mem_access lat) (l1_invalidate aops) k req (atag k arr L) L ?cyc ?h2 = Some (h4, cyc4)"
      "tkeeps ?h2 h4" "coh h4" "st h4 k L = I" "\<forall>i<k. \<forall>l<N i. tg atag h i l \<noteq> tg atag h k L \<longrightarrow> st h4 i l = st h i l"
      using l2_evict [OF h2(1,5,2) p(2), of req ?cyc] unfolding wb h2(3,4) by auto
    have sh4: "shape k N h4" using tkeeps_shape [OF e(2)] h2(1) by simp
    have "c_array (h4 ! k) = arr2" using e(2) arr_set_arr_shape [OF h1(1) order_refl] by (simp add: tkeeps_def)
    then obtain arr3 where q: "ca_postinsert (aops k) (c_array (h4 ! k)) a req L = Some arr3" "ainv k arr3"
      "atag k arr3 = (atag k arr2)(L := a)"
      using ca_postinsert_ok [OF order_refl p(3), of req] by auto
    let ?h3 = "set_arr k arr3 h4"
    have tg4: "tg atag h4 = tg atag h" using tkeeps_coh [OF e(2)] h2(3) by simp
    have fresh: "\<forall>j<N k. tg atag h k j \<noteq> a"
      using ca_tag_find [OF order_refl inv] None a unfolding tg_def by (metis option.distinct(1))
    have tg3: "tg atag ?h3 = (tg atag h)(k := (tg atag h k)(L := a))"
      using tg_set_arr [OF sh4 order_refl, of arr3] tg4 q(3) p(4) tags by simp
    have "coh ?h3"
      using coherent_retag [OF e(3) [unfolded coh_def] order_refl p(2) e(4) a] fresh by (simp add: coh_def tg3 tg4)
    moreover have "l1s_ok ?h3" using l1s_set_arr_k [OF sh4] e(2) h2(5) by (simp add: tkeeps_def)
    moreover have "\<forall>i<k. \<forall>l<N i. tg atag h i l = a \<longrightarrow> st ?h3 i l = st h i l"
    proof -
      have "a \<noteq> tg atag h k L" using fresh p(2) by metis
      then show ?thesis using e(5) by simp
    qed
    moreover have "map cfg ?h3 = map cfg h" using e(2) by (simp add: tkeeps_def)
    moreover have "ainv k (c_array (?h3 ! k))" using arr_set_arr_shape [OF sh4 order_refl] q(2) by simp
    ultimately show ?thesis
      by (intro that [of ?h3 L]) (use None p e(1) q(1) sh4 tg3 arrk in simp_all)
  qed
  have term3: "\<not> c_terminal (h3 ! k)" using ins(2) by (simp add: shape_def)
  have alloc: "(if afind k (c_array (h ! k)) a = None then cc_shouldAllocate k ?h req else Some False) =
      Some (if afind k (c_array (h ! k)) a = None then True else False)"
    using get nterm(2) by (auto simp: cc_shouldAllocate_def IsGet_def)
  have "l2_access aops lat k h req = Option.bind
       (mesicc_processAccess (mem_access lat) (l1_invalidate aops) k req (Some L) ?cyc h3)
       (\<lambda>(h4, respCycle). Option.bind (guard (mr_cycle req \<le> respCycle)) (\<lambda>_. Some (h4, respCycle)))"
    unfolding l2_access_def cache_access_def start
    using arr(1) get alloc ins(1) term3
    by (simp only: line Option.bind.simps prod.case if_False Let_def cc_processAccess_def)
  then show thesis by (rule that) (use ins in \<open>simp_all add: hier_ok_def\<close>)
qed

lemma l2_get:
  assumes ok: "hier_ok h" and c: "c < k" "l < N c" and a: "tg atag h c l \<noteq> 0"
    and t: "t = GETS \<and> st h c l = I \<or> t = GETX \<and> (st h c l = I \<or> st h c l = S)" and fl: "flags AND PREFETCH = 0"
  shows "\<exists>h' cyc'. l2_access aops lat k h (bcc_req c l h (tg atag h c l) t cyc src flags) = Some (h', cyc') \<and>
    hier_ok h' \<and> map cfg h' = map cfg h \<and> (\<forall>i<k. tg atag h' i = tg atag h i) \<and> cyc \<le> cyc' \<and>
    (t = GETS \<longrightarrow> st h' c l = S \<or> st h' c l = E) \<and> (t = GETX \<longrightarrow> st h' c l = M)"
proof -
  let ?a = "tg atag h c l" and ?req = "bcc_req c l h (tg atag h c l) t cyc src flags"
  have sh: "shape k N h" using ok by (simp add: hier_ok_def)
  have get: "IsGet t" using t by (auto simp: IsGet_def)
  have cfgs: "\<not> c_terminal (h ! k)" "bc_selfId (c_bcc (h ! c)) = c" using sh c by (auto simp: shape_def)
  have rq: "mr_type ?req = t" "mr_childId ?req = c" "mr_state ?req = LineCell c l" "mr_flags ?req = flags" "mr_lineAddr ?req = ?a"
    "mr_initialState ?req = st h c l" "mr_cycle ?req = cyc" "?req\<lparr>mr_type := t\<rparr> = ?req"
    using cfgs by (simp_all add: bcc_req_def)
  have start: "cc_startAccess k h ?req = Some (?req, False)"
    using cfgs(1) by (simp add: cc_startAccess_def rq race_free)
  obtain h3 L where acc: "l2_access aops lat k h ?req = Option.bind
      (mesicc_processAccess (mem_access lat) (l1_invalidate aops) k ?req (Some L) (cyc + c_accLat (h ! k)) h3)
      (\<lambda>(h4, respCycle). Option.bind (guard (cyc \<le> respCycle)) (\<lambda>_. Some (h4, respCycle)))"
    and ins: "hier_ok h3" "L < N k" "tg atag h3 k L = ?a" "\<forall>i<k. tg atag h3 i = tg atag h i" "st h3 c l = st h c l" "map cfg h3 = map cfg h"
    by (rule l2_insert [OF ok _ rq(5) a start]) (use get rq(1,7) c in auto)
  have ok3: "shape k N h3" "coh h3" "l1s_ok h3" "ainv k (c_array (h3 ! k))" using ins(1) by (simp_all add: hier_ok_def)
  have t3: "t = GETS \<and> st h3 c l = I \<or> t = GETX \<and> (st h3 c l = I \<or> st h3 c l = S)" using t ins(5) by simp
  have a3: "tg atag h3 c l = ?a" using ins(4) c by simp
  obtain h' cyc' where r: "mesicc_processAccess (mem_access lat) (l1_invalidate aops) k ?req (Some L) (cyc + c_accLat (h ! k)) h3 = Some (h', cyc')"
    "tkeeps h3 h'" "cyc + c_accLat (h ! k) \<le> cyc'" "coh h'" "t = GETS \<longrightarrow> st h' c l = S \<or> st h' c l = E" "t = GETX \<longrightarrow> st h' c l = M"
    using l2_process_get [OF ok3(1,3,2) c ins(2) _ _ t3, of ?req "cyc + c_accLat (h ! k)"] a3 ins(3) a rq fl by auto
  have "l2_access aops lat k h ?req = Some (h', cyc')" using r(3) by (simp add: acc r(1))
  moreover have "hier_ok h'"
    using r(2,4) tkeeps_shape [OF r(2)] ok3(1,3,4) by (simp add: hier_ok_def tkeeps_def)
  moreover have "map cfg h' = map cfg h" using r(2) ins(6) by (simp add: tkeeps_def)
  moreover have "\<forall>i<k. tg atag h' i = tg atag h i" using tkeeps_coh [OF r(2)] ins(4) by simp
  ultimately show ?thesis using r(3,5,6) by auto
qed

section \<open>The level-1 caches\<close>

lemma hier_ok_store:
  assumes ok: "hier_ok h" and c: "c < k" "l < N c"
  shows "hier_ok (inc_prof c ctr d h)" and "st h c l = E \<or> st h c l = M \<Longrightarrow> hier_ok (set_st c l M h)"
proof -
  have sh: "shape k N h" and co: "coh h" using ok by (simp_all add: hier_ok_def)
  have "tg atag (inc_prof c ctr d h) = tg atag h" "tg atag (set_st c l M h) = tg atag h" by (simp_all add: tg_def fun_eq_iff)
  then show "hier_ok (inc_prof c ctr d h)" "st h c l = E \<or> st h c l = M \<Longrightarrow> hier_ok (set_st c l M h)"
    using ok coherent_silent [OF co [unfolded coh_def] c] st_set_st_shape [OF sh less_imp_le [OF c(1)] c(2)]
    by (auto simp: hier_ok_def coh_def l1s_ok_def)
qed

lemma tg_store [simp]:
  "tg atag (inc_prof c ctr d h) = tg atag h" "tg atag (set_st c l x h) = tg atag h"
  by (simp_all add: tg_def fun_eq_iff)

lemma l1_bcc_get:
  assumes ok: "hier_ok h" and c: "c < k" "l < N c" and a: "tg atag h c l = a" "a \<noteq> 0"
    and t: "t = GETS \<and> st h c l = I \<or> t = GETX \<and> (st h c l = I \<or> st h c l = S)" and fl: "flags AND PREFETCH = 0"
  shows "\<exists>h' cyc'. bcc_get (\<lambda>_. l2_access aops lat k) c a l t cyc src flags h = Some (h', cyc') \<and> hier_ok h' \<and>
    tg atag h' c l = a \<and> cyc \<le> cyc' \<and> (t = GETS \<longrightarrow> st h' c l = S \<or> st h' c l = E) \<and> (t = GETX \<longrightarrow> st h' c l = M)"
proof -
  obtain h' cyc' where r: "l2_access aops lat k h (bcc_req c l h a t cyc src flags) = Some (h', cyc')" "hier_ok h'"
    "\<forall>i<k. tg atag h' i = tg atag h i" "t = GETS \<longrightarrow> st h' c l = S \<or> st h' c l = E" "t = GETX \<longrightarrow> st h' c l = M"
    using l2_get [OF ok c _ t fl, of cyc src] a by auto
  with c a show ?thesis using hier_ok_store(1) [OF _ c] by (simp add: bcc_get_def Let_def)
qed

lemma l1_bcc_access:
  assumes ok: "hier_ok h" and c: "c < k" "l < N c" and a: "tg atag h c l = a" "a \<noteq> 0" and fl: "flags AND PREFETCH = 0"
    and t: "t = GETS \<or> t = GETX"
  shows "\<exists>h' cyc'. bcc_processAccess (\<lambda>_. l2_access aops lat k) c a l t cyc src flags h = Some (h', cyc') \<and> hier_ok h' \<and>
    tg atag h' c l = a \<and> cyc \<le> cyc' \<and> st h' c l \<noteq> I \<and> (t = GETX \<longrightarrow> st h' c l = M)"
proof (cases "t = GETS")
  case T: True
  show ?thesis
  proof (cases "st h c l = I")
    case True
    obtain h' cyc' where "bcc_get (\<lambda>_. l2_access aops lat k) c a l GETS cyc src flags h = Some (h', cyc')" "hier_ok h'"
      "tg atag h' c l = a" "cyc \<le> cyc'" "st h' c l = S \<or> st h' c l = E"
      using l1_bcc_get [OF ok c a _ fl, of GETS cyc src] True by auto
    with T True hier_ok_store(1) [OF _ c, of h' GETSMiss 1] show ?thesis by (auto simp: bcc_processAccess_def)
  next
    case False
    with T a hier_ok_store(1) [OF ok c, of GETSHit 1] show ?thesis by (auto simp: bcc_processAccess_def)
  qed
next
  case F: False
  with t have T: "t = GETX" by simp
  show ?thesis
  proof (cases "st h c l = I \<or> st h c l = S")
    case True
    let ?h = "inc_prof c (if st h c l = I then GETXMissIM else GETXMissSM) 1 h"
    have "st ?h c l = I \<or> st ?h c l = S" "tg atag ?h c l = a" using True a by auto
    then obtain h' cyc' where "bcc_get (\<lambda>_. l2_access aops lat k) c a l GETX cyc src flags ?h = Some (h', cyc')" "hier_ok h'"
      "tg atag h' c l = a" "cyc \<le> cyc'" "st h' c l = M"
      using l1_bcc_get [OF hier_ok_store(1) [OF ok c] c _ a(2) _ fl, of _ _ GETX cyc src] by blast
    with T True show ?thesis by (auto simp: bcc_processAccess_def)
  next
    case False
    then have x: "st h c l = E \<or> st h c l = M" by (cases "st h c l") auto
    let ?h = "if st h c l = E then set_st c l M h else h"
    have "hier_ok ?h" using ok hier_ok_store(2) [OF ok c x] by simp
    from hier_ok_store(1) [OF this c, of GETXHit 1] have h': "hier_ok (inc_prof c GETXHit 1 ?h)" .
    have "shape k N h" using ok by (simp add: hier_ok_def)
    from st_set_st_shape [OF this less_imp_le [OF c(1)] c(2)] have "st ?h c l = M" using x by auto
    with T False h' a show ?thesis by (auto simp: bcc_processAccess_def)
  qed
qed

text \<open>Eviction from a level-1 cache whose array is between \<open>preinsert\<close> and \<open>postinsert\<close>.\<close>

lemma l1_evict:
  assumes sh: "shape k N h" and co: "coh h" and inv: "ainv k (c_array (h ! k))" and c: "c < k" "l < N c"
  shows "\<exists>h' cyc'. cc_processEviction (\<lambda>_. l2_access aops lat k) cinv c req (tg atag h c l) l cyc h = Some (h', cyc') \<and>
    shape k N h' \<and> coh h' \<and> ainv k (c_array (h' ! k)) \<and> tg atag h' = tg atag h \<and>
    (\<forall>i<k. c_array (h' ! i) = c_array (h ! i)) \<and> st h' c l = I"
proof (cases "st h c l = I")
  case True
  have "c_terminal (h ! c)" using sh c by (simp add: shape_def)
  with True assms show ?thesis by (simp add: cc_processEviction_def bcc_processEviction_def)
next
  case False
  have term1: "c_terminal (h ! c)" using sh c by (simp add: shape_def)
  let ?t = "if st h c l = M then PUTX else PUTS"
  have "?t = PUTS \<and> st h c l \<noteq> I \<or> ?t = PUTX \<and> st h c l = M" using False by auto
  from l2_put [OF sh co inv c this, of cyc "mr_srcId req"] obtain h' cyc' where
    "l2_access aops lat k h (bcc_req c l h (tg atag h c l) ?t cyc (mr_srcId req) 0) = Some (h', cyc')"
    "shape k N h'" "coh h'" "ainv k (c_array (h' ! k))" "tg atag h' = tg atag h"
    "\<forall>i<k. c_array (h' ! i) = c_array (h ! i)" "st h' c l = I" by blast
  with term1 False show ?thesis
    by (cases "st h c l") (auto simp: cc_processEviction_def bcc_processEviction_def Let_def)
qed

lemma l1_access_ok:
  assumes ok: "hier_ok h" and c: "c < k" and a: "a \<noteq> 0" and fl: "flags AND PREFETCH = 0"
  shows "\<exists>h' cyc' l. l1_access aops lat k c h (core_req a isLoad cyc src flags) = Some (h', cyc') \<and> hier_ok h' \<and> cyc \<le> cyc' \<and>
    l < N c \<and> tg atag h' c l = a \<and> st h' c l \<noteq> I \<and> (\<not> isLoad \<longrightarrow> st h' c l = M)"
proof -
  let ?req = "core_req a isLoad cyc src flags" and ?t = "if isLoad then GETS else GETX"
  have ck: "c \<le> k" "c \<noteq> k" using c by simp_all
  have sh: "shape k N h" and co: "coh h" and inv: "ainv k (c_array (h ! k))" and l1s: "l1s_ok h"
    using ok by (simp_all add: hier_ok_def)
  have invc: "ainv c (c_array (h ! c))" using l1s c by (simp add: l1s_ok_def)
  obtain arr where arr: "ca_lookup (aops c) (c_array (h ! c)) a ?req True = Some (arr, afind c (c_array (h ! c)) a)" "ainv c arr"
    "afind c arr = afind c (c_array (h ! c))" "atag c arr = atag c (c_array (h ! c))"
    using ca_lookup_ok [OF ck(1) invc a, of ?req True] by blast
  let ?h = "set_arr c arr h" and ?cyc = "cyc + c_accLat (h ! c)"
  have tags: "atag c arr = tg atag h c" using arr(4) by (simp add: fun_eq_iff tg_def)
  have arrs: "c_array (?h ! i) = (if i = c then arr else c_array (h ! i))" for i by (rule arr_set_arr_shape [OF sh ck(1)])
  have h1: "shape k N ?h" "coh ?h" "tg atag ?h = tg atag h" "st ?h = st h" "l1s_ok ?h" "ainv k (c_array (?h ! k))"
    using sh co inv l1s arr(2) ck coh_set_arr [OF sh ck(1) tags] arrs by (auto simp: l1s_ok_def)
  have cfgs: "c_terminal (h ! c)" "c_terminal (?h ! c)" using sh h1(1) c by (auto simp: shape_def)
  have rq: "mr_type ?req = ?t" "mr_state ?req = LocalCell" "mr_flags ?req = flags" "mr_lineAddr ?req = a" "mr_initialState ?req = I"
    "mr_cycle ?req = cyc" "mr_srcId ?req = src" "?req\<lparr>mr_type := ?t\<rparr> = ?req"
    by (simp_all add: core_req_def)
  have get: "IsGet ?t" by (simp add: IsGet_def)
  have start: "cc_startAccess c h ?req = Some (?req, False)"
    using get by (simp add: cc_startAccess_def rq race_free)
  obtain h3 l where ins: "(if (if afind c (c_array (h ! c)) a = None then True else False) then
        Option.bind (ca_preinsert (aops c) (cc_view_of ?h c) (c_array (?h ! c)) a ?req) (\<lambda>(arr2, l, wbLineAddr).
        Option.bind (cc_processEviction (\<lambda>_. l2_access aops lat k) (\<lambda>_ _ _. None) c ?req wbLineAddr l ?cyc (set_arr c arr2 ?h)) (\<lambda>(h2, _).
        Option.bind (ca_postinsert (aops c) (c_array (h2 ! c)) a ?req l) (\<lambda>arr3. Some (set_arr c arr3 h2, Some l))))
      else Some (?h, afind c (c_array (h ! c)) a)) = Some (h3, Some l)"
    "hier_ok h3" "l < N c" "tg atag h3 c l = a"
  proof (cases "afind c (c_array (h ! c)) a")
    case (Some l)
    with ca_find_tag [OF ck(1) invc a] have l: "l < N c" "tg atag h c l = a" by (auto simp: tg_def)
    show ?thesis by (rule that [of ?h l]) (use Some l h1 in \<open>simp_all add: hier_ok_def\<close>)
  next
    case None
    have arrc: "c_array (?h ! c) = arr" using arrs by simp
    obtain arr2 l where p: "ca_preinsert (aops c) (cc_view_of ?h c) arr a ?req = Some (arr2, l, atag c arr l)" "l < N c"
      "apend c arr2 a l" "atag c arr2 = atag c arr"
      using ca_preinsert_ok [OF ck(1) arr(2) a, of "cc_view_of ?h c" ?req] None arr(3) by auto
    let ?h2 = "set_arr c arr2 ?h"
    have tags2: "atag c arr2 = tg atag ?h c" using p(4) arrc by (simp add: fun_eq_iff tg_def)
    have arrs2: "c_array (?h2 ! i) = (if i = c then arr2 else c_array (h ! i))" for i
      using arr_set_arr_shape [OF h1(1) ck(1), of arr2 i] arrs by simp
    have h2: "shape k N ?h2" "coh ?h2" "tg atag ?h2 = tg atag h" "ainv k (c_array (?h2 ! k))"
      using h1 coh_set_arr [OF h1(1) ck(1) tags2] arrs2 inv ck by simp_all
    have wb: "atag c arr l = tg atag ?h2 c l" using tags h2(3) by simp
    obtain h4 cyc4 where e: "cc_processEviction (\<lambda>_. l2_access aops lat k) (\<lambda>_ _ _. None) c ?req (atag c arr l) l ?cyc ?h2 = Some (h4, cyc4)"
      "shape k N h4" "coh h4" "ainv k (c_array (h4 ! k))" "tg atag h4 = tg atag h"
      "\<forall>i<k. c_array (h4 ! i) = c_array (?h2 ! i)" "st h4 c l = I"
      using l1_evict [OF h2(1,2,4) c p(2), of "\<lambda>_ _ _. None" ?req ?cyc] unfolding wb h2(3) by blast
    have "c_array (h4 ! c) = arr2" using e(6) c arrs2 by simp
    then obtain arr3 where q: "ca_postinsert (aops c) (c_array (h4 ! c)) a ?req l = Some arr3" "ainv c arr3"
      "atag c arr3 = (atag c arr2)(l := a)"
      using ca_postinsert_ok [OF ck(1) p(3), of ?req] by auto
    let ?h3 = "set_arr c arr3 h4"
    have arrs3: "c_array (?h3 ! i) = (if i = c then arr3 else c_array (h4 ! i))" for i by (rule arr_set_arr_shape [OF e(2) ck(1)])
    have fresh: "\<forall>j<N c. tg atag h c j \<noteq> a"
      using ca_tag_find [OF ck(1) invc] None a unfolding tg_def by (metis option.distinct(1))
    have tg3: "tg atag ?h3 = (tg atag h)(c := (tg atag h c)(l := a))"
      using tg_set_arr [OF e(2) ck(1), of arr3] e(5) q(3) p(4) tags by simp
    have "coh ?h3"
      using coherent_retag [OF e(3) [unfolded coh_def] ck(1) p(2) e(7) a] fresh by (simp add: coh_def tg3 e(5))
    moreover have "l1s_ok ?h3" using l1s q(2) e(6) arrs2 arrs3 by (simp add: l1s_ok_def)
    moreover have "ainv k (c_array (?h3 ! k))" using arrs3 e(4) ck by simp
    ultimately have "hier_ok ?h3" using e(2) by (simp add: hier_ok_def)
    then show ?thesis
      by (intro that [of ?h3 l]) (use None p e(1) q(1) tg3 arrc in simp_all)
  qed
  have tt: "?t = GETS \<or> ?t = GETX" by simp
  obtain h' cyc' where r: "bcc_processAccess (\<lambda>_. l2_access aops lat k) c a l ?t ?cyc src flags h3 = Some (h', cyc')" "hier_ok h'"
    "tg atag h' c l = a" "?cyc \<le> cyc'" "st h' c l \<noteq> I" "?t = GETX \<longrightarrow> st h' c l = M"
    using l1_bcc_access [OF ins(2) c ins(3,4) a fl tt, of ?cyc src] by blast
  have term3: "c_terminal (h3 ! c)" using ins(2) c by (simp add: hier_ok_def shape_def)
  have alloc: "(if afind c (c_array (h ! c)) a = None then cc_shouldAllocate c ?h ?req else Some False) =
      Some (if afind c (c_array (h ! c)) a = None then True else False)"
    using cfgs(2) by (simp add: cc_shouldAllocate_def)
  have "l1_access aops lat k c h ?req = Some (h', cyc')"
    unfolding l1_access_def cache_access_def start
    using arr(1) get alloc ins(1) r(1,4) term3
    by (simp only: rq Option.bind.simps prod.case if_False Let_def cc_processAccess_def) simp
  with r ins(3) show ?thesis by (intro exI [of _ h'] exI [of _ cyc'] exI [of _ l]) auto
qed

section \<open>Reachable states\<close>

lemma hier_ok_new:
  assumes new: "two_level_new k N arrs rtt accLat invLat = Some h" and inv: "\<forall>c\<le>k. ainv c (arrs c)"
  shows "hier_ok h"
proof -
  obtain t where t: "tcc_new (N k) False (replicate k rtt) = Some t" and
    h: "h = map (\<lambda>c. cache_new (N c) (if c = k then 0 else c) (c \<noteq> k) t (arrs c) rtt (accLat c) (invLat c)) [0..<Suc k]"
    using new by (auto simp: two_level_new_def)
  have nth: "h ! c = cache_new (N c) (if c = k then 0 else c) (c \<noteq> k) t (arrs c) rtt (accLat c) (invLat c)" if "c \<le> k" for c
    using that by (simp add: h nth_append del: upt_Suc)
  have tt: "length (tc_array t) = N k" "length (tc_childrenRTTs t) = k" "\<not> tc_nonInclusiveHack t"
    "\<And>L. L < N k \<Longrightarrow> tc_array t ! L = \<lparr>te_numSharers = 0, te_sharers = \<lambda>_. False, te_exclusive = False\<rparr>"
    using t by (auto simp: tcc_new_def split: if_splits)
  have sh: "shape k N h"
    using nth tt(1-3) by (simp add: shape_def h cache_new_def bcc_new_def del: upt_Suc)
  have st: "st h c l = I" if "c \<le> k" "l < N c" for c l using that nth by (simp add: st_def cache_new_def bcc_new_def)
  have dir: "dir h k L = \<lparr>te_numSharers = 0, te_sharers = \<lambda>_. False, te_exclusive = False\<rparr>" if "L < N k" for L
    using that nth tt(4) by (simp add: dir_def cache_new_def)
  have arr: "c_array (h ! c) = arrs c" if "c \<le> k" for c using nth [OF that] by (simp add: cache_new_def)
  have "tags_ok k N (tg atag h)"
    unfolding tags_ok_def
  proof (intro allI impI)
    fix c l l' assume c: "c \<le> k" "l < N c" "l' < N c" "tg atag h c l = tg atag h c l'" "tg atag h c l \<noteq> 0"
    have "afind c (arrs c) (tg atag h c l) = Some l"
      using ca_tag_find [OF c(1) _ c(2), of "arrs c"] inv c(1,5) arr [OF c(1)] by (simp add: tg_def)
    moreover have "afind c (arrs c) (tg atag h c l') = Some l'"
      using ca_tag_find [OF c(1) _ c(3), of "arrs c"] inv c(1,4,5) arr [OF c(1)] by (simp add: tg_def)
    ultimately show "l = l'" using c(4) by (metis option.inject)
  qed
  then have "coh h"
    unfolding coh_def by (intro coherentI) (use st dir in \<open>simp_all add: entry_ok_def entry_isExclusive_def\<close>)
  moreover have "\<forall>c\<le>k. ainv c (c_array (h ! c))" using inv arr by simp
  ultimately show ?thesis using sh by (simp add: hier_ok_def l1s_ok_def)
qed

lemma reach_ok: "reach aops lat k h0 h \<Longrightarrow> hier_ok h0 \<Longrightarrow> hier_ok h"
proof (induction rule: reach.induct)
  case (step h c a flags isLoad cyc src h' resp)
  from l1_access_ok [OF step.IH [OF step.prems] step.hyps(2-4), of isLoad cyc src] step.hyps(5) show ?case by auto
qed simp

lemma reach_access:
  assumes new: "two_level_new k N arrs rtt accLat invLat = Some h0" and inv: "\<forall>c\<le>k. ainv c (arrs c)"
    and r: "reach aops lat k h0 h" and c: "c < k" and a: "a \<noteq> 0" and fl: "flags AND PREFETCH = 0"
  shows "\<exists>h' resp l. l1_access aops lat k c h (core_req a isLoad cyc src flags) = Some (h', resp) \<and> cyc \<le> resp \<and>
    l < N c \<and> tg atag h' c l = a \<and> st h' c l \<noteq> I \<and> (\<not> isLoad \<longrightarrow> st h' c l = M)"
  using l1_access_ok [OF reach_ok [OF r hier_ok_new [OF new inv]] c a fl, of isLoad cyc src] by blast

lemma reach_coherent:
  assumes "two_level_new k N arrs rtt accLat invLat = Some h0" and "\<forall>c\<le>k. ainv c (arrs c)" and "reach aops lat k h0 h"
  shows "coherent k N (st h) (dir h k) (tg atag h)"
  using reach_ok [OF assms(3) hier_ok_new [OF assms(1,2)]] by (simp add: hier_ok_def coh_def)

end

text \<open>What the invariant means for two copies of one address.\<close>

lemma coherent_single_writer:
  assumes co: "coherent k N s d T" and i: "i < k" "l < N i" "s i l = E \<or> s i l = M"
    and j: "j < k" "l' < N j" "j \<noteq> i" "T j l' = T i l"
  shows "s j l' = I"
proof (rule ccontr)
  assume v: "s j l' \<noteq> I"
  have vi: "s i l \<noteq> I" using i(3) by auto
  obtain L where L: "L < N k" "T k L = T i l" "te_sharers (d L) i" using coherent_child [OF co i(1,2) vi] by blast
  have sj: "te_sharers (d L) j" by (rule coherent_child_line [OF co j(1,2) L(1) _ v]) (simp add: L(2) j(4))
  have "entry_isExclusive (d L)"
    using coherent_sharer_line [OF co i(1,2) L] i(3) by (auto simp: line_ok_def split: if_splits)
  then show False using exclusive_uniq [OF coherent_entry [OF co L(1)] _ L(3) sj] j(3) by simp
qed

text \<open>The hierarchy with set-associative SRRIP caches of any geometry and any hash functions.\<close>

definition srrip_aops :: "(nat \<Rightarrow> nat \<Rightarrow> addr \<Rightarrow> u64) \<Rightarrow> nat \<Rightarrow> srrip setassoc ca_ops" where
  "srrip_aops hash c = sa_ops srrip_ops (hash c)"

definition sets_inv :: "(nat \<Rightarrow> nat \<Rightarrow> addr \<Rightarrow> u64) \<Rightarrow> (nat \<Rightarrow> nat) \<Rightarrow> (nat \<Rightarrow> nat) \<Rightarrow> nat \<Rightarrow> srrip setassoc \<Rightarrow> bool" where
  "sets_inv hash m w c = sa_inv (srrip_inv (Suc (m c) * Suc (w c))) (hash c) (Suc (m c)) (Suc (w c))"

interpretation srrip_sys: two_level "srrip_aops hash" "sets_inv hash m w"
  "\<lambda>c. sa_pend (\<lambda>s v. srrip_inv (Suc (m c) * Suc (w c)) s \<and> v < Suc (m c) * Suc (w c)) (hash c) (Suc (m c)) (Suc (w c))"
  "\<lambda>c. sa_find (hash c)" "\<lambda>_. sa_tag" "\<lambda>c. Suc (m c) * Suc (w c)" k "Suc lat"
  for hash m w k lat
proof (rule two_level.intro)
  show "cache_array (srrip_aops hash c) (sets_inv hash m w c)
     (sa_pend (\<lambda>s v. srrip_inv (Suc (m c) * Suc (w c)) s \<and> v < Suc (m c) * Suc (w c)) (hash c) (Suc (m c)) (Suc (w c)))
     (sa_find (hash c)) sa_tag (Suc (m c) * Suc (w c))" for c
    unfolding srrip_aops_def sets_inv_def by (rule sa_srrip.sa.cache_array_axioms)
qed simp

section \<open>Properties of the hierarchy\<close>

text \<open>A hierarchy with \<open>k\<close> terminal caches, \<open>Suc (m c)\<close> sets of \<open>Suc (w c)\<close> ways in cache \<open>c\<close>.\<close>

definition srrip_run :: "nat \<Rightarrow> nat \<Rightarrow> (nat \<Rightarrow> nat \<Rightarrow> addr \<Rightarrow> u64) \<Rightarrow> (nat \<Rightarrow> nat) \<Rightarrow> (nat \<Rightarrow> nat) \<Rightarrow> srrip setassoc hier \<Rightarrow> bool" where
  "srrip_run k lat hash m w h \<longleftrightarrow>
     (\<exists>arrs rtt accLat invLat h0.
        two_level_new k (\<lambda>c. Suc (m c) * Suc (w c)) arrs rtt accLat invLat = Some h0 \<and>
        (\<forall>c\<le>k. sets_inv hash m w c (arrs c)) \<and> reach (srrip_aops hash) (Suc lat) k h0 h)"

lemma srrip_run_coherent:
  assumes "srrip_run k lat hash m w h"
  shows "coherent k (\<lambda>c. Suc (m c) * Suc (w c)) (st h) (dir h k) (tg (\<lambda>_. sa_tag) h)"
proof -
  obtain arrs rtt accLat invLat h0 where
    "two_level_new k (\<lambda>c. Suc (m c) * Suc (w c)) arrs rtt accLat invLat = Some h0"
    "\<forall>c\<le>k. sets_inv hash m w c (arrs c)" "reach (srrip_aops hash) (Suc lat) k h0 h"
    using assms unfolding srrip_run_def by blast
  then show ?thesis by (rule srrip_sys.reach_coherent)
qed

text \<open>The smallest instance: two caches of two sets and two ways over one of the same geometry.\<close>

lemma srrip_run_ex: "\<exists>h. srrip_run 2 0 (\<lambda>_ _ a. a) (\<lambda>_. 1) (\<lambda>_. 1) h"
proof -
  obtain s where s: "sa_rp s = srrip_new 4 3" "sa_shape (\<lambda>_ a. a) 2 2 s"
    using sa_new_shape [of 2 1 2 "srrip_new 4 3" "\<lambda>_ a. a"] by auto
  then have "\<forall>c\<le>2. sets_inv (\<lambda>_ _ a. a) (\<lambda>_. 1) (\<lambda>_. 1) c s"
    using srrip_inv_new [of 4 3] by (simp add: sets_inv_def sa_inv_def numeral_eq_Suc)
  moreover have "\<exists>h. two_level_new 2 (\<lambda>c. Suc 1 * Suc 1) (\<lambda>_. s) 1 (\<lambda>_. 1) (\<lambda>_. 1) = Some h"
    by (simp add: two_level_new_def tcc_new_def)
  ultimately show ?thesis unfolding srrip_run_def using reach.init by blast
qed

abbreviation srrip_lines :: "(nat \<Rightarrow> nat) \<Rightarrow> (nat \<Rightarrow> nat) \<Rightarrow> nat \<Rightarrow> nat" where
  "srrip_lines m w c \<equiv> Suc (m c) * Suc (w c)"

abbreviation line_tag :: "srrip setassoc hier \<Rightarrow> nat \<Rightarrow> nat \<Rightarrow> addr" where
  "line_tag h c l \<equiv> tg (\<lambda>_. sa_tag) h c l"

lemma srrip_run_access:
  assumes "srrip_run k lat hash m w h" and c: "c < k" and a: "a \<noteq> 0" and fl: "flags AND PREFETCH = 0"
  shows "\<exists>h' resp l. l1_access (srrip_aops hash) (Suc lat) k c h (core_req a isLoad cyc src flags) = Some (h', resp) \<and>
    srrip_run k lat hash m w h' \<and> cyc \<le> resp \<and> l < srrip_lines m w c \<and> line_tag h' c l = a \<and>
    st h' c l \<noteq> I \<and> (\<not> isLoad \<longrightarrow> st h' c l = M)"
proof -
  obtain arrs rtt accLat invLat h0 where
    r: "two_level_new k (srrip_lines m w) arrs rtt accLat invLat = Some h0"
    "\<forall>c\<le>k. sets_inv hash m w c (arrs c)" "reach (srrip_aops hash) (Suc lat) k h0 h"
    using assms unfolding srrip_run_def by blast
  from srrip_sys.reach_access [OF r c a fl, of isLoad cyc src] obtain h' resp l where
    acc: "l1_access (srrip_aops hash) (Suc lat) k c h (core_req a isLoad cyc src flags) = Some (h', resp)" and
    o: "cyc \<le> resp" "l < srrip_lines m w c" "line_tag h' c l = a" "st h' c l \<noteq> I" "\<not> isLoad \<longrightarrow> st h' c l = M"
    by blast
  have "srrip_run k lat hash m w h'"
    unfolding srrip_run_def using r(1,2) reach.step [OF r(3) c a fl acc] by blast
  with acc o show ?thesis by blast
qed

lemma four_lines: "Suc 1 * Suc 1 = 4"
  by simp

lemma srrip_store_ex:
  "\<exists>h h' resp l. srrip_run 2 0 (\<lambda>_ _ a. a) (\<lambda>_. 1) (\<lambda>_. 1) h \<and>
    l1_access (srrip_aops (\<lambda>_ _ a. a)) 1 2 0 h (core_req 6 False 10 0 0) = Some (h', resp) \<and>
    srrip_run 2 0 (\<lambda>_ _ a. a) (\<lambda>_. 1) (\<lambda>_. 1) h' \<and> l < 4 \<and> line_tag h' 0 l = 6 \<and> st h' 0 l = M"
proof -
  obtain h where h: "srrip_run 2 0 (\<lambda>_ _ a. a) (\<lambda>_. 1) (\<lambda>_. 1) h" using srrip_run_ex by blast
  have "\<exists>h' resp l. l1_access (srrip_aops (\<lambda>_ _ a. a)) 1 2 0 h (core_req 6 False 10 0 0) = Some (h', resp) \<and>
    srrip_run 2 0 (\<lambda>_ _ a. a) (\<lambda>_. 1) (\<lambda>_. 1) h' \<and> l < 4 \<and> line_tag h' 0 l = 6 \<and> st h' 0 l = M"
    using srrip_run_access [OF h, of 0 6 0 False 10 0, unfolded four_lines] by simp blast
  with h show ?thesis by blast
qed

text \<open>C1. No reachable state of the hierarchy makes a core's access fail: no assertion of the
  controllers, the arrays or the policy is violated, the response is not before the request, and
  the core's cache then holds the line, in M after a store; the new state is reachable again.\<close>

theorem system_access_returns:
  assumes "srrip_run k lat hash m w h" and "c < k" and "a \<noteq> 0" and "flags AND PREFETCH = 0"
  shows "\<exists>h' resp l. l1_access (srrip_aops hash) (Suc lat) k c h (core_req a isLoad cyc src flags) = Some (h', resp) \<and>
    srrip_run k lat hash m w h' \<and> cyc \<le> resp \<and> l < srrip_lines m w c \<and> line_tag h' c l = a \<and>
    st h' c l \<noteq> I \<and> (\<not> isLoad \<longrightarrow> st h' c l = M)"
  using assms by (rule srrip_run_access)

theorem system_access_returns_witness:
  "\<exists>h h' resp l. srrip_run 2 0 (\<lambda>_ _ a. a) (\<lambda>_. 1) (\<lambda>_. 1) h \<and>
    l1_access (srrip_aops (\<lambda>_ _ a. a)) 1 2 1 h (core_req 6 False 10 1 NOEXCL) = Some (h', resp) \<and> 10 \<le> resp \<and>
    l < 4 \<and> line_tag h' 1 l = 6 \<and> st h' 1 l = M"
proof -
  obtain h where h: "srrip_run 2 0 (\<lambda>_ _ a. a) (\<lambda>_. 1) (\<lambda>_. 1) h" using srrip_store_ex by blast
  have "\<exists>h' resp l. l1_access (srrip_aops (\<lambda>_ _ a. a)) 1 2 1 h (core_req 6 False 10 1 NOEXCL) = Some (h', resp) \<and>
    10 \<le> resp \<and> l < 4 \<and> line_tag h' 1 l = 6 \<and> st h' 1 l = M"
    using system_access_returns [OF h, of 1 6 NOEXCL False 10 1, unfolded four_lines] by (simp add: flag_defs) blast
  with h show ?thesis by blast
qed

text \<open>C2. Single writer: when a core has an address in E or M, no other core's cache has a valid
  copy of it; when two caches hold it, both hold it in S.\<close>

theorem system_single_writer:
  assumes "srrip_run k lat hash m w h" and "i < k" and "j < k" and "i \<noteq> j"
    and "l < srrip_lines m w i" and "l' < srrip_lines m w j" and "line_tag h i l = line_tag h j l'"
  shows "(st h i l = E \<or> st h i l = M \<longrightarrow> st h j l' = I) \<and>
    (st h i l \<noteq> I \<and> st h j l' \<noteq> I \<longrightarrow> st h i l = S \<and> st h j l' = S)"
proof -
  have w1: "st h j l' = I" if "st h i l = E \<or> st h i l = M"
    using coherent_single_writer [OF srrip_run_coherent [OF assms(1)] assms(2,5) that assms(3,6)] assms(4,7) by simp
  have w2: "st h i l = I" if "st h j l' = E \<or> st h j l' = M"
    using coherent_single_writer [OF srrip_run_coherent [OF assms(1)] assms(3,6) that assms(2,5)] assms(4,7) by simp
  show ?thesis using w1 w2 by (cases "st h i l"; cases "st h j l'") simp_all
qed

theorem system_single_writer_witness:
  "\<exists>h l. srrip_run 2 0 (\<lambda>_ _ a. a) (\<lambda>_. 1) (\<lambda>_. 1) h \<and> l < 4 \<and> line_tag h 0 l = 6 \<and> st h 0 l = M \<and>
    (\<forall>l'<4. line_tag h 1 l' = 6 \<longrightarrow> st h 1 l' = I)"
proof -
  obtain h l where h: "srrip_run 2 0 (\<lambda>_ _ a. a) (\<lambda>_. 1) (\<lambda>_. 1) h" "l < 4" "line_tag h 0 l = 6" "st h 0 l = M"
    using srrip_store_ex by blast
  have "st h 1 l' = I" if "l' < 4" "line_tag h 1 l' = 6" for l'
    using system_single_writer [OF h(1), of 0 1 l l', unfolded four_lines] h(2-4) that by simp
  with h show ?thesis by blast
qed

text \<open>C3. Inclusion: every valid line of a core's cache has a valid copy in the shared cache, whose
  directory entry names the core; a line that the core holds in E or M is in E or M there, and its
  entry is exclusive, so a dirty line is never under a shared copy.\<close>

theorem system_inclusion:
  assumes "srrip_run k lat hash m w h" and "i < k" and "l < srrip_lines m w i" and "st h i l \<noteq> I"
  shows "\<exists>L < srrip_lines m w k. line_tag h k L = line_tag h i l \<and> st h k L \<noteq> I \<and> te_sharers (dir h k L) i \<and>
    (st h i l \<noteq> S \<longleftrightarrow> entry_isExclusive (dir h k L)) \<and>
    (st h i l \<noteq> S \<longrightarrow> st h k L = E \<or> st h k L = M)"
proof -
  note co = srrip_run_coherent [OF assms(1)]
  obtain L where L: "L < srrip_lines m w k" "line_tag h k L = line_tag h i l" "te_sharers (dir h k L) i"
    using coherent_child [OF co assms(2-4)] by blast
  have valid: "st h k L \<noteq> I" by (rule coherent_sharer [OF co L(1,3)])
  have "line_ok (dir h k L) (st h i l)" by (rule coherent_sharer_line [OF co assms(2,3) L])
  then have "st h i l \<noteq> S \<longleftrightarrow> entry_isExclusive (dir h k L)" by (auto simp: line_ok_def split: if_splits)
  moreover have "entry_isExclusive (dir h k L) \<longrightarrow> st h k L = E \<or> st h k L = M"
    using coherent_entry [OF co L(1)] by (simp add: entry_ok_def)
  ultimately show ?thesis using L valid by blast
qed

theorem system_inclusion_witness:
  "\<exists>h L. srrip_run 2 0 (\<lambda>_ _ a. a) (\<lambda>_. 1) (\<lambda>_. 1) h \<and> L < 4 \<and> line_tag h 2 L = 6 \<and>
    te_sharers (dir h 2 L) 0 \<and> entry_isExclusive (dir h 2 L) \<and> (st h 2 L = E \<or> st h 2 L = M)"
proof -
  obtain h l where h: "srrip_run 2 0 (\<lambda>_ _ a. a) (\<lambda>_. 1) (\<lambda>_. 1) h" "l < 4" "line_tag h 0 l = 6" "st h 0 l = M"
    using srrip_store_ex by blast
  then show ?thesis using system_inclusion [OF h(1), of 0 l, unfolded four_lines] by auto
qed

text \<open>C4. The directory is exact: the sharers that an entry of the shared cache names are the cores
  whose caches hold a valid copy of its line, its sharer count is their number, and an entry of an
  invalid line names nobody.\<close>

theorem system_directory_exact:
  assumes "srrip_run k lat hash m w h" and "L < srrip_lines m w k"
  shows "te_numSharers (dir h k L) =
      card {c. c < k \<and> st h k L \<noteq> I \<and> (\<exists>l < srrip_lines m w c. line_tag h c l = line_tag h k L \<and> st h c l \<noteq> I)} \<and>
    te_sharers (dir h k L) c =
      (c < k \<and> st h k L \<noteq> I \<and> (\<exists>l < srrip_lines m w c. line_tag h c l = line_tag h k L \<and> st h c l \<noteq> I))"
proof -
  note co = srrip_run_coherent [OF assms(1)]
  have sharer: "te_sharers (dir h k L) c =
      (c < k \<and> st h k L \<noteq> I \<and> (\<exists>l < srrip_lines m w c. line_tag h c l = line_tag h k L \<and> st h c l \<noteq> I))" for c
  proof
    assume "te_sharers (dir h k L) c"
    then obtain l where "c < k" "st h k L \<noteq> I" "l < srrip_lines m w c" "line_tag h c l = line_tag h k L"
      "line_ok (dir h k L) (st h c l)" by (rule coherent_sharer [OF co assms(2)])
    then show
      "c < k \<and> st h k L \<noteq> I \<and> (\<exists>l < srrip_lines m w c. line_tag h c l = line_tag h k L \<and> st h c l \<noteq> I)"
      using line_ok_valid by blast
  next
    assume c: "c < k \<and> st h k L \<noteq> I \<and> (\<exists>l < srrip_lines m w c. line_tag h c l = line_tag h k L \<and> st h c l \<noteq> I)"
    then obtain l where l: "l < srrip_lines m w c" "line_tag h c l = line_tag h k L" "st h c l \<noteq> I" by blast
    show "te_sharers (dir h k L) c"
      using coherent_child_line [OF co _ l(1) assms(2) _ l(3)] c l(2) by simp
  qed
  moreover have "te_numSharers (dir h k L) = card {c. te_sharers (dir h k L) c}"
    using coherent_entry [OF co assms(2)] by (simp add: entry_ok_def)
  ultimately show ?thesis by simp
qed

theorem system_directory_exact_witness:
  "\<exists>h L. srrip_run 2 0 (\<lambda>_ _ a. a) (\<lambda>_. 1) (\<lambda>_. 1) h \<and> L < 4 \<and> te_sharers (dir h 2 L) 0 \<and>
    te_numSharers (dir h 2 L) = card {c::nat. c < 2 \<and> st h 2 L \<noteq> I \<and>
      (\<exists>l<4. line_tag h c l = line_tag h 2 L \<and> st h c l \<noteq> I)}"
proof -
  obtain h l where h: "srrip_run 2 0 (\<lambda>_ _ a. a) (\<lambda>_. 1) (\<lambda>_. 1) h" "l < 4" "line_tag h 0 l = 6" "st h 0 l = M"
    using srrip_store_ex by blast
  note co = srrip_run_coherent [OF h(1), unfolded four_lines]
  have "0 < (2::nat)" and "st h 0 l \<noteq> I" using h(4) by simp_all
  then obtain L where L: "L < 4" "te_sharers (dir h 2 L) 0" using coherent_child [OF co _ h(2)] by metis
  show ?thesis using system_directory_exact [OF h(1), of L, unfolded four_lines] L h(1) by blast
qed

end
