(* ===== verification/Intrusive_List.thy ===== *)
theory Intrusive_List
  imports Prelude
begin

text \<open>
  The intrusive doubly-linked list of \<^verbatim>\<open>zsim/src/intrusive_list.h\<close>. Nodes are the elements
  themselves, so they are identified by a number (the line id of the arrays that use the list)
  and their links live in a store. A list keeps its head, tail and length; the \<open>owner\<close> of a node
  is the list it is on, and lists are told apart by \<open>il_this\<close>. Every assertion of the code is a
  \<open>None\<close>.

  \<open>il_rep\<close> says that a list holds a sequence of nodes; each operation is shown to be the
  corresponding operation on sequences, and to leave the nodes of other lists alone.
\<close>

section \<open>State and operations\<close>

record il_node =
  nd_next :: "nat option"
  nd_prev :: "nat option"
  nd_owner :: "nat option"

type_synonym il_store = "nat \<Rightarrow> il_node"

record inlist =
  il_this :: nat
  il_head :: "nat option"
  il_tail :: "nat option"
  il_elems :: nat

definition node_new :: il_node where
  "node_new = \<lparr>nd_next = None, nd_prev = None, nd_owner = None\<rparr>"

definition set_next :: "nat option \<Rightarrow> nat option \<Rightarrow> il_store \<Rightarrow> il_store" where
  "set_next p q hp = (case p of None \<Rightarrow> hp | Some x \<Rightarrow> hp(x := (hp x)\<lparr>nd_next := q\<rparr>))"

definition set_prev :: "nat option \<Rightarrow> nat option \<Rightarrow> il_store \<Rightarrow> il_store" where
  "set_prev p q hp = (case p of None \<Rightarrow> hp | Some x \<Rightarrow> hp(x := (hp x)\<lparr>nd_prev := q\<rparr>))"

definition node_unlink :: "nat \<Rightarrow> nat \<Rightarrow> il_store \<Rightarrow> il_store option" where
  "node_unlink e lst hp =
     (let hp1 = set_prev (nd_next (hp e)) (nd_prev (hp e)) hp;
          hp2 = set_next (nd_prev (hp1 e)) (nd_next (hp1 e)) hp1
      in if nd_owner (hp2 e) = Some lst
         then Some (hp2(e := \<lparr>nd_next = None, nd_prev = None, nd_owner = None\<rparr>)) else None)"

definition node_linkPrev :: "nat \<Rightarrow> nat \<Rightarrow> nat \<Rightarrow> il_store \<Rightarrow> il_store option" where
  "node_linkPrev e p lst hp =
     Option.bind (guard (hp e = node_new)) (\<lambda>_.
     Option.bind
       (case nd_next (hp p) of
          None \<Rightarrow> Some hp
        | Some q \<Rightarrow> Option.bind (guard (nd_prev (hp q) = Some p)) (\<lambda>_.
            let hp1 = hp(q := (hp q)\<lparr>nd_prev := Some e\<rparr>)
            in Some (hp1(e := (hp1 e)\<lparr>nd_next := nd_next (hp1 p)\<rparr>))))
       (\<lambda>hp2.
     let hp3 = hp2(p := (hp2 p)\<lparr>nd_next := Some e\<rparr>)
     in Some (hp3(e := (hp3 e)\<lparr>nd_prev := Some p, nd_owner := Some lst\<rparr>))))"

definition inlist_new :: "nat \<Rightarrow> inlist" where
  "inlist_new this = \<lparr>il_this = this, il_head = None, il_tail = None, il_elems = 0\<rparr>"

definition il_empty :: "inlist \<Rightarrow> bool" where
  "il_empty l \<longleftrightarrow> il_head l = None"

definition il_front :: "inlist \<Rightarrow> nat option" where
  "il_front l = il_head l"

definition il_back :: "inlist \<Rightarrow> nat option" where
  "il_back l = il_tail l"

definition il_size :: "inlist \<Rightarrow> nat" where
  "il_size l = il_elems l"

definition push_front :: "nat \<Rightarrow> inlist \<Rightarrow> il_store \<Rightarrow> (inlist \<times> il_store) option" where
  "push_front e l hp =
     Option.bind (guard (hp e = node_new)) (\<lambda>_.
     Option.bind
       (case il_head l of
          None \<Rightarrow> Some (l\<lparr>il_head := Some e, il_tail := Some e\<rparr>, hp)
        | Some h \<Rightarrow> Option.bind (guard (nd_prev (hp h) = None \<and> nd_owner (hp h) = Some (il_this l))) (\<lambda>_.
            Some (l\<lparr>il_head := Some e\<rparr>, set_prev (Some h) (Some e) (set_next (Some e) (Some h) hp))))
       (\<lambda>(l1, hp1).
     Some (l1\<lparr>il_elems := il_elems l1 + 1\<rparr>, hp1(e := (hp1 e)\<lparr>nd_owner := Some (il_this l)\<rparr>))))"

definition push_back :: "nat \<Rightarrow> inlist \<Rightarrow> il_store \<Rightarrow> (inlist \<times> il_store) option" where
  "push_back e l hp =
     Option.bind (guard (hp e = node_new)) (\<lambda>_.
     Option.bind
       (if il_empty l
        then Some (l\<lparr>il_head := Some e, il_tail := Some e\<rparr>, hp(e := (hp e)\<lparr>nd_owner := Some (il_this l)\<rparr>))
        else Option.bind (il_tail l) (\<lambda>t.
          map_option (\<lambda>hp1. (l\<lparr>il_tail := Some e\<rparr>, hp1)) (node_linkPrev e t (il_this l) hp)))
       (\<lambda>(l1, hp1). Some (l1\<lparr>il_elems := il_elems l1 + 1\<rparr>, hp1)))"

definition pop_front :: "inlist \<Rightarrow> il_store \<Rightarrow> (inlist \<times> il_store) option" where
  "pop_front l hp =
     (case il_head l of
        None \<Rightarrow> Some (l, hp)
      | Some e \<Rightarrow>
          (let l1 = l\<lparr>il_head := nd_next (hp e)\<rparr> in
           map_option (\<lambda>hp1.
             ((if il_head l1 = None then l1\<lparr>il_tail := None\<rparr> else l1)\<lparr>il_elems := il_elems l - 1\<rparr>, hp1))
             (node_unlink e (il_this l) hp)))"

definition pop_back :: "inlist \<Rightarrow> il_store \<Rightarrow> (inlist \<times> il_store) option" where
  "pop_back l hp =
     (if il_empty l then Some (l, hp)
      else Option.bind (il_tail l) (\<lambda>e.
        let l1 = l\<lparr>il_tail := nd_prev (hp e)\<rparr> in
        map_option (\<lambda>hp1.
          ((if il_tail l1 = None then l1\<lparr>il_head := None\<rparr> else l1)\<lparr>il_elems := il_elems l - 1\<rparr>, hp1))
          (node_unlink e (il_this l) hp)))"

text \<open>The code calls it \<open>remove\<close>.\<close>

definition il_remove :: "nat \<Rightarrow> inlist \<Rightarrow> il_store \<Rightarrow> (inlist \<times> il_store) option" where
  "il_remove e l hp =
     (let l1 = (if il_head l = Some e then l\<lparr>il_head := nd_next (hp e)\<rparr> else l);
          l2 = (if il_tail l1 = Some e then l1\<lparr>il_tail := nd_prev (hp e)\<rparr> else l1)
      in map_option (\<lambda>hp1. (l2\<lparr>il_elems := il_elems l2 - 1\<rparr>, hp1)) (node_unlink e (il_this l) hp))"

definition insertAfter :: "nat \<Rightarrow> nat \<Rightarrow> inlist \<Rightarrow> il_store \<Rightarrow> (inlist \<times> il_store) option" where
  "insertAfter p e l hp =
     Option.bind (guard (nd_owner (hp e) = None \<and> nd_owner (hp p) = Some (il_this l))) (\<lambda>_.
     map_option (\<lambda>hp1.
       ((if il_tail l = Some p then l\<lparr>il_tail := Some e\<rparr> else l)\<lparr>il_elems := il_elems l + 1\<rparr>, hp1))
       (node_linkPrev e p (il_this l) hp))"

section \<open>Segments of a list\<close>

definition first_of :: "nat list \<Rightarrow> nat option \<Rightarrow> nat option" where
  "first_of xs n = (if xs = [] then n else Some (hd xs))"

definition last_of :: "nat list \<Rightarrow> nat option \<Rightarrow> nat option" where
  "last_of xs p = (if xs = [] then p else Some (last xs))"

lemma first_of_simps [simp]: "first_of [] n = n" "first_of (x # xs) n = Some x"
  "first_of (xs @ ys) n = first_of xs (first_of ys n)"
  by (simp_all add: first_of_def)

lemma last_of_simps [simp]: "last_of [] p = p" "last_of (x # xs) p = last_of xs (Some x)"
  "last_of (xs @ ys) p = last_of ys (last_of xs p)"
  by (simp_all add: last_of_def)

text \<open>\<open>dls hp own p xs n\<close>: the nodes \<open>xs\<close> belong to \<open>own\<close> and are linked in this order, the
  \<open>prev\<close> of the first is \<open>p\<close> and the \<open>next\<close> of the last is \<open>n\<close>.\<close>

fun dls :: "il_store \<Rightarrow> nat \<Rightarrow> nat option \<Rightarrow> nat list \<Rightarrow> nat option \<Rightarrow> bool" where
  "dls hp own p [] n = True"
| "dls hp own p (x # xs) n =
     (hp x = \<lparr>nd_next = first_of xs n, nd_prev = p, nd_owner = Some own\<rparr> \<and> dls hp own (Some x) xs n)"

lemma dls_append [simp]:
  "dls hp own p (xs @ ys) n \<longleftrightarrow> dls hp own p xs (first_of ys n) \<and> dls hp own (last_of xs p) ys n"
  by (induction xs arbitrary: p) auto

lemma dls_frame: "\<forall>x\<in>set xs. hp' x = hp x \<Longrightarrow> dls hp' own p xs n = dls hp own p xs n"
  by (induction xs arbitrary: p) auto

lemma dls_owner: "dls hp own p xs n \<Longrightarrow> x \<in> set xs \<Longrightarrow> nd_owner (hp x) = Some own"
  by (induction xs arbitrary: p) auto

definition il_rep :: "il_store \<Rightarrow> inlist \<Rightarrow> nat list \<Rightarrow> bool" where
  "il_rep hp l xs \<longleftrightarrow> distinct xs \<and> dls hp (il_this l) None xs None \<and>
     il_head l = first_of xs None \<and> il_tail l = last_of xs None \<and> il_elems l = length xs"

lemma set_prev_other: "p \<noteq> Some x \<Longrightarrow> set_prev p q hp x = hp x"
  by (cases p) (auto simp: set_prev_def)

lemma set_next_other: "p \<noteq> Some x \<Longrightarrow> set_next p q hp x = hp x"
  by (cases p) (auto simp: set_next_def)

lemma first_of_in: "first_of xs n = Some x \<Longrightarrow> n \<noteq> Some x \<Longrightarrow> x \<in> set xs"
  by (cases xs) auto

lemma last_of_in: "last_of xs p = Some x \<Longrightarrow> p \<noteq> Some x \<Longrightarrow> x \<in> set xs"
  by (cases xs) (auto simp: last_of_def split: if_splits)

lemma dls_set_prev:
  assumes "dls hp own p xs n" and "distinct xs"
  shows "dls (set_prev (first_of xs None) q hp) own q xs n"
proof (cases xs)
  case (Cons x ys)
  with assms have "\<forall>y\<in>set ys. set_prev (Some x) q hp y = hp y" by (auto intro: set_prev_other)
  with Cons assms(1) have "dls (set_prev (Some x) q hp) own (Some x) ys n"
    by (subst dls_frame [of _ _ hp]) simp_all
  with Cons assms(1) show ?thesis by (simp add: set_prev_def)
qed simp

lemma dls_set_next:
  assumes "dls hp own p xs n" and "distinct xs"
  shows "dls (set_next (last_of xs None) q hp) own p xs q"
proof (cases xs rule: rev_cases)
  case (snoc ys y)
  with assms have "\<forall>z\<in>set ys. set_next (Some y) q hp z = hp z" by (auto intro: set_next_other)
  with snoc assms(1) have "dls (set_next (Some y) q hp) own p ys (Some y)"
    by (subst dls_frame [of _ _ hp]) simp_all
  with snoc assms(1) show ?thesis by (simp add: set_next_def)
qed simp

lemma node_unlink_ok:
  assumes d: "dls hp own None (as @ e # bs) None" and dist: "distinct (as @ e # bs)"
  shows "\<exists>hp'. node_unlink e own hp = Some hp' \<and> dls hp' own None (as @ bs) None \<and> hp' e = node_new \<and>
    (\<forall>x. x \<notin> set (as @ e # bs) \<longrightarrow> hp' x = hp x)"
proof -
  let ?f = "first_of bs None" and ?l = "last_of as None"
  let ?hp1 = "set_prev ?f ?l hp"
  let ?hp2 = "set_next ?l ?f ?hp1"
  have e: "hp e = \<lparr>nd_next = ?f, nd_prev = ?l, nd_owner = Some own\<rparr>" using d by simp
  have f: "?f \<noteq> Some x" if "x \<notin> set bs" for x using first_of_in that by blast
  have l: "?l \<noteq> Some x" if "x \<notin> set as" for x using last_of_in that by blast
  have e1: "?hp1 e = hp e" by (rule set_prev_other) (use f dist in auto)
  have e2: "?hp2 e = hp e" using e1 by (subst set_next_other) (use l dist in auto)
  have "dls ?hp1 own None as (Some e)"
    by (subst dls_frame [of _ _ hp]) (use d f dist in \<open>auto intro!: set_prev_other\<close>)
  then have as: "dls ?hp2 own None as ?f" using dist by (intro dls_set_next) auto
  have "dls ?hp1 own ?l bs None" using d dist by (intro dls_set_prev [of _ _ "Some e"]) auto
  then have bs: "dls ?hp2 own ?l bs None"
    by (subst dls_frame [of _ _ ?hp1]) (use l dist in \<open>auto intro!: set_next_other\<close>)
  have "node_unlink e own hp = Some (?hp2(e := node_new))"
    using e1 e2 e by (simp add: node_unlink_def Let_def node_new_def)
  moreover have "dls (?hp2(e := node_new)) own None (as @ bs) None"
    using as bs dist by (subst dls_frame [of _ _ ?hp2]) auto
  moreover have "?hp2 x = hp x" if "x \<notin> set (as @ e # bs)" for x
    using that f [of x] l [of x] by (simp add: set_next_other set_prev_other)
  ultimately show ?thesis by auto
qed

section \<open>The operations on sequences\<close>

lemma il_rep_new: "il_rep hp (inlist_new this) []"
  by (simp add: il_rep_def inlist_new_def)

lemma il_rep_frame: "il_rep hp l xs \<Longrightarrow> \<forall>x\<in>set xs. hp' x = hp x \<Longrightarrow> il_rep hp' l xs"
  unfolding il_rep_def by (metis dls_frame)

lemma il_rep_owner: "il_rep hp l xs \<Longrightarrow> x \<in> set xs \<Longrightarrow> nd_owner (hp x) = Some (il_this l)"
  by (auto simp: il_rep_def intro: dls_owner)

lemma il_rep_fresh: "il_rep hp l xs \<Longrightarrow> hp e = node_new \<Longrightarrow> e \<notin> set xs"
  by (auto dest: il_rep_owner simp: node_new_def)

lemma il_rep_disjoint: "il_rep hp l xs \<Longrightarrow> il_rep hp l' ys \<Longrightarrow> il_this l \<noteq> il_this l' \<Longrightarrow> set xs \<inter> set ys = {}"
  using il_rep_owner by (metis disjoint_iff option.inject)

text \<open>What the queries return.\<close>

lemma il_rep_queries:
  assumes "il_rep hp l xs"
  shows "il_empty l \<longleftrightarrow> xs = []" and "il_front l = first_of xs None" and "il_back l = last_of xs None"
    and "il_size l = length xs"
  using assms by (auto simp: il_rep_def il_empty_def il_front_def il_back_def il_size_def first_of_def)

lemma push_front_ok:
  assumes rep: "il_rep hp l xs" and fresh: "hp e = node_new"
  shows "\<exists>l' hp'. push_front e l hp = Some (l', hp') \<and> il_rep hp' l' (e # xs) \<and> il_this l' = il_this l \<and>
    (\<forall>x. x \<notin> set (e # xs) \<longrightarrow> hp' x = hp x)"
proof (cases xs)
  case Nil
  with rep fresh show ?thesis
    by (auto simp: push_front_def il_rep_def node_new_def)
next
  case (Cons h ys)
  have e: "e \<notin> set xs" by (rule il_rep_fresh [OF rep fresh])
  with Cons have "h \<noteq> e" "e \<notin> set ys" by auto
  have d: "dls hp (il_this l) None (h # ys) None" "distinct (h # ys)" using rep Cons by (auto simp: il_rep_def)
  let ?hp1 = "set_prev (Some h) (Some e) (set_next (Some e) (Some h) hp)"
  let ?hp2 = "?hp1(e := (?hp1 e)\<lparr>nd_owner := Some (il_this l)\<rparr>)"
  have "?hp2 x = hp x" if "x \<noteq> e" "x \<noteq> h" for x
    using that by (simp add: set_prev_other set_next_other)
  moreover from this have "dls ?hp2 (il_this l) (Some h) ys None"
    using d \<open>e \<notin> set ys\<close> by (subst dls_frame [of _ _ hp]) auto
  moreover have "?hp2 e = \<lparr>nd_next = Some h, nd_prev = None, nd_owner = Some (il_this l)\<rparr>"
    using \<open>h \<noteq> e\<close> fresh by (simp add: set_prev_def set_next_def node_new_def)
  moreover have "?hp2 h = \<lparr>nd_next = first_of ys None, nd_prev = Some e, nd_owner = Some (il_this l)\<rparr>"
    using \<open>h \<noteq> e\<close> d by (simp add: set_prev_def set_next_def)
  moreover have "push_front e l hp = Some (l\<lparr>il_head := Some e, il_elems := il_elems l + 1\<rparr>, ?hp2)"
    using rep Cons fresh d by (simp add: push_front_def il_rep_def)
  ultimately show ?thesis
    using rep Cons e by (intro exI [of _ "l\<lparr>il_head := Some e, il_elems := il_elems l + 1\<rparr>"] exI [of _ ?hp2])
      (auto simp: il_rep_def)
qed

lemma node_linkPrev_ok:
  assumes d: "dls hp own None (as @ p # bs) None" and dist: "distinct (as @ p # bs)" and fresh: "hp e = node_new"
  shows "\<exists>hp'. node_linkPrev e p own hp = Some hp' \<and> dls hp' own None (as @ p # e # bs) None \<and>
    (\<forall>x. x \<notin> set (as @ p # e # bs) \<longrightarrow> hp' x = hp x)"
proof -
  let ?f = "first_of bs None"
  have e: "e \<notin> set (as @ p # bs)" using d fresh dls_owner by (metis node_new_def il_node.select_convs(3) option.distinct(1))
  have p: "hp p = \<lparr>nd_next = ?f, nd_prev = last_of as None, nd_owner = Some own\<rparr>" using d by simp
  let ?hp2 = "set_prev ?f (Some e) (hp(e := (hp e)\<lparr>nd_next := ?f\<rparr>))"
  let ?hp3 = "?hp2(p := (?hp2 p)\<lparr>nd_next := Some e\<rparr>)"
  let ?hp4 = "?hp3(e := (?hp3 e)\<lparr>nd_prev := Some p, nd_owner := Some own\<rparr>)"
  have f: "?f \<noteq> Some x" if "x \<notin> set bs" for x using first_of_in that by blast
  have other: "?hp2 x = hp x" if "x \<noteq> e" "x \<notin> set bs" for x using that f by (simp add: set_prev_other)
  have "dls (hp(e := (hp e)\<lparr>nd_next := ?f\<rparr>)) own (Some p) bs None"
    using d e by (subst dls_frame [of _ _ hp]) auto
  then have "dls ?hp2 own (Some e) bs None" using dist by (intro dls_set_prev [of _ _ "Some p"]) auto
  then have bs: "dls ?hp4 own (Some e) bs None" using e dist by (subst dls_frame [of _ _ ?hp2]) auto
  have as: "dls ?hp4 own None as (Some p)"
    using d e dist other by (subst dls_frame [of _ _ hp]) auto
  have hpp: "?hp4 p = \<lparr>nd_next = Some e, nd_prev = last_of as None, nd_owner = Some own\<rparr>"
    using e p dist other [of p] by auto
  have hpe: "?hp4 e = \<lparr>nd_next = ?f, nd_prev = Some p, nd_owner = Some own\<rparr>"
    using e f [of e] fresh by (auto simp: set_prev_other node_new_def)
  have "node_linkPrev e p own hp = Some ?hp4"
  proof (cases bs)
    case Nil
    then show ?thesis using fresh p e by (simp add: node_linkPrev_def set_prev_def node_new_def Let_def)
  next
    case (Cons q cs)
    then have q: "q \<noteq> e" "q \<noteq> p" "nd_prev (hp q) = Some p" using d e dist by auto
    have "hp(q := (hp q)\<lparr>nd_prev := Some e\<rparr>, e := (hp e)\<lparr>nd_next := Some q\<rparr>) =
        hp(e := (hp e)\<lparr>nd_next := Some q\<rparr>, q := (hp q)\<lparr>nd_prev := Some e\<rparr>)"
      using q(1) by (simp add: fun_upd_twist)
    with Cons q show ?thesis using fresh p e by (simp add: node_linkPrev_def set_prev_def Let_def)
  qed
  moreover have "\<forall>x. x \<notin> set (as @ p # e # bs) \<longrightarrow> ?hp4 x = hp x" using other by auto
  moreover have "dls ?hp4 own None (as @ p # e # bs) None"
    unfolding dls_append dls.simps first_of_simps last_of_simps using as bs hpp hpe by blast
  ultimately show ?thesis by blast
qed

lemma push_back_ok:
  assumes rep: "il_rep hp l xs" and fresh: "hp e = node_new"
  shows "\<exists>l' hp'. push_back e l hp = Some (l', hp') \<and> il_rep hp' l' (xs @ [e]) \<and> il_this l' = il_this l \<and>
    (\<forall>x. x \<notin> set (e # xs) \<longrightarrow> hp' x = hp x)"
proof (cases xs rule: rev_cases)
  case Nil
  with rep fresh show ?thesis
    by (auto simp: push_back_def il_rep_def node_new_def il_empty_def)
next
  case (snoc ys t)
  have e: "e \<notin> set xs" by (rule il_rep_fresh [OF rep fresh])
  from rep snoc have d: "dls hp (il_this l) None (ys @ t # []) None" "distinct (ys @ t # [])" by (simp_all add: il_rep_def)
  obtain hp' where h: "node_linkPrev e t (il_this l) hp = Some hp'" "dls hp' (il_this l) None (ys @ t # e # []) None"
    "\<forall>x. x \<notin> set (ys @ t # e # []) \<longrightarrow> hp' x = hp x"
    using node_linkPrev_ok [OF d fresh] by blast
  have "push_back e l hp = Some (l\<lparr>il_tail := Some e, il_elems := il_elems l + 1\<rparr>, hp')"
    using rep snoc fresh h(1) by (simp add: push_back_def il_rep_def il_empty_def first_of_def)
  moreover have "il_rep hp' (l\<lparr>il_tail := Some e, il_elems := il_elems l + 1\<rparr>) (xs @ [e])"
    using rep h(2) e snoc by (simp add: il_rep_def)
  ultimately show ?thesis using h(3) snoc by auto
qed

lemma insertAfter_ok:
  assumes rep: "il_rep hp l (as @ p # bs)" and fresh: "hp e = node_new"
  shows "\<exists>l' hp'. insertAfter p e l hp = Some (l', hp') \<and> il_rep hp' l' (as @ p # e # bs) \<and> il_this l' = il_this l \<and>
    (\<forall>x. x \<notin> set (as @ p # e # bs) \<longrightarrow> hp' x = hp x)"
proof -
  from rep have d: "dls hp (il_this l) None (as @ p # bs) None" "distinct (as @ p # bs)" by (simp_all add: il_rep_def)
  obtain hp' where h: "node_linkPrev e p (il_this l) hp = Some hp'" "dls hp' (il_this l) None (as @ p # e # bs) None"
    "\<forall>x. x \<notin> set (as @ p # e # bs) \<longrightarrow> hp' x = hp x"
    using node_linkPrev_ok [OF d fresh] by blast
  have e: "e \<notin> set (as @ p # bs)" by (rule il_rep_fresh [OF rep fresh])
  let ?l = "(if il_tail l = Some p then l\<lparr>il_tail := Some e\<rparr> else l)\<lparr>il_elems := il_elems l + 1\<rparr>"
  have tail: "il_tail l = Some p \<longleftrightarrow> bs = []" using rep by (auto simp: il_rep_def last_of_def split: if_splits)
  have "insertAfter p e l hp = Some (?l, hp')"
    using h(1) fresh il_rep_owner [OF rep, of p] by (simp add: insertAfter_def node_new_def)
  moreover have "il_rep hp' ?l (as @ p # e # bs)"
    using rep h(2) e d(2) tail by (cases "bs = []") (auto simp: il_rep_def last_of_def)
  ultimately show ?thesis using h(3) by auto
qed

lemma il_remove_ok:
  assumes rep: "il_rep hp l xs" and e: "e \<in> set xs"
  shows "\<exists>l' hp'. il_remove e l hp = Some (l', hp') \<and> il_rep hp' l' (remove1 e xs) \<and> il_this l' = il_this l \<and>
    hp' e = node_new \<and> (\<forall>x. x \<notin> set xs \<longrightarrow> hp' x = hp x)"
proof -
  from e obtain as bs where xs: "xs = as @ e # bs" "e \<notin> set as" by (meson split_list_first)
  from rep have d: "dls hp (il_this l) None (as @ e # bs) None" "distinct (as @ e # bs)" by (simp_all add: il_rep_def xs)
  obtain hp' where h: "node_unlink e (il_this l) hp = Some hp'" "dls hp' (il_this l) None (as @ bs) None" "hp' e = node_new"
    "\<forall>x. x \<notin> set xs \<longrightarrow> hp' x = hp x"
    using node_unlink_ok [OF d] unfolding xs by blast
  have lnk: "hp e = \<lparr>nd_next = first_of bs None, nd_prev = last_of as None, nd_owner = Some (il_this l)\<rparr>" using d by simp
  let ?l = "\<lparr>il_this = il_this l, il_head = first_of (as @ bs) None, il_tail = last_of (as @ bs) None, il_elems = length (as @ bs)\<rparr>"
  have head: "il_head l = Some e \<longleftrightarrow> as = []" using rep xs by (cases as) (auto simp: il_rep_def)
  have tail: "il_tail l = Some e \<longleftrightarrow> bs = []" using rep xs d(2) by (auto simp: il_rep_def last_of_def split: if_splits)
  have "il_remove e l hp = Some (?l, hp')"
    using h(1) lnk head tail rep xs by (cases "as = []"; cases "bs = []") (auto simp: il_remove_def il_rep_def Let_def first_of_def last_of_def)
  moreover have "il_rep hp' ?l (remove1 e xs)" using h(2) d(2) xs by (simp add: il_rep_def remove1_append)
  ultimately show ?thesis using h(3,4) by auto
qed

lemma pop_front_eq:
  "il_rep hp l (x # xs) \<Longrightarrow> pop_front l hp = il_remove x l hp"
  by (cases xs) (auto simp: pop_front_def il_remove_def il_rep_def Let_def last_of_def first_of_def
    split: option.splits intro!: option.map_cong)

lemma pop_back_eq:
  "il_rep hp l (xs @ [x]) \<Longrightarrow> pop_back l hp = il_remove x l hp"
  by (cases xs) (auto simp: pop_back_def il_remove_def il_rep_def il_empty_def Let_def last_of_def first_of_def
    split: option.splits if_splits intro!: option.map_cong)

section \<open>Refinement\<close>

text \<open>The operations as commands, on sequences (\<open>il_spec\<close>, where a command that the code would
  reject has no result) and on the linked structure (\<open>il_exec\<close>).\<close>

datatype il_op = PushFront nat | PushBack nat | PopFront | PopBack | Remove nat | InsertAfter nat nat

fun il_spec :: "il_op \<Rightarrow> nat list \<Rightarrow> nat list option" where
  "il_spec (PushFront e) xs = (if e \<in> set xs then None else Some (e # xs))"
| "il_spec (PushBack e) xs = (if e \<in> set xs then None else Some (xs @ [e]))"
| "il_spec PopFront xs = Some (tl xs)"
| "il_spec PopBack xs = Some (butlast xs)"
| "il_spec (Remove e) xs = (if e \<in> set xs then Some (remove1 e xs) else None)"
| "il_spec (InsertAfter p e) xs =
     (if p \<in> set xs \<and> e \<notin> set xs
      then Some (takeWhile (\<lambda>x. x \<noteq> p) xs @ p # e # tl (dropWhile (\<lambda>x. x \<noteq> p) xs)) else None)"

fun il_exec :: "il_op \<Rightarrow> inlist \<times> il_store \<Rightarrow> (inlist \<times> il_store) option" where
  "il_exec (PushFront e) (l, hp) = push_front e l hp"
| "il_exec (PushBack e) (l, hp) = push_back e l hp"
| "il_exec PopFront (l, hp) = pop_front l hp"
| "il_exec PopBack (l, hp) = pop_back l hp"
| "il_exec (Remove e) (l, hp) = il_remove e l hp"
| "il_exec (InsertAfter p e) (l, hp) = insertAfter p e l hp"

fun opt_fold :: "('o \<Rightarrow> 's \<Rightarrow> 's option) \<Rightarrow> 'o list \<Rightarrow> 's \<Rightarrow> 's option" where
  "opt_fold f [] s = Some s"
| "opt_fold f (x # xs) s = Option.bind (f x s) (opt_fold f xs)"

text \<open>A list over a store in which every other node is free.\<close>

fun il_sys :: "inlist \<times> il_store \<Rightarrow> nat list \<Rightarrow> bool" where
  "il_sys (l, hp) xs \<longleftrightarrow> il_rep hp l xs \<and> (\<forall>e. e \<notin> set xs \<longrightarrow> hp e = node_new)"

lemma il_remove_sys:
  assumes "il_sys (l, hp) xs" and "e \<in> set xs"
  shows "\<exists>s'. il_remove e l hp = Some s' \<and> il_sys s' (remove1 e xs)"
proof -
  obtain l' hp' where r: "il_remove e l hp = Some (l', hp')" "il_rep hp' l' (remove1 e xs)" "hp' e = node_new"
    "\<forall>x. x \<notin> set xs \<longrightarrow> hp' x = hp x"
    using il_remove_ok [of hp l xs e] assms by auto
  have "hp' x = node_new" if "x \<notin> set (remove1 e xs)" for x
    using that r(3,4) assms(1) by (cases "x = e") (auto simp: in_set_remove1)
  with r show ?thesis by auto
qed

lemma il_exec_refines:
  assumes sys: "il_sys s xs" and spec: "il_spec c xs = Some ys"
  shows "\<exists>s'. il_exec c s = Some s' \<and> il_sys s' ys"
proof -
  obtain l hp where s: "s = (l, hp)" by (cases s)
  with sys have rep: "il_rep hp l xs" and free: "\<And>e. e \<notin> set xs \<Longrightarrow> hp e = node_new" by auto
  show ?thesis
  proof (cases c)
    case (PushFront e)
    with spec have "e \<notin> set xs" and [simp]: "ys = e # xs" by (auto split: if_splits)
    with push_front_ok [OF rep free [of e]] free show ?thesis unfolding PushFront s by fastforce
  next
    case (PushBack e)
    with spec have "e \<notin> set xs" and [simp]: "ys = xs @ [e]" by (auto split: if_splits)
    with push_back_ok [OF rep free [of e]] free show ?thesis unfolding PushBack s by fastforce
  next
    case PopFront
    show ?thesis
    proof (cases xs)
      case Nil
      with PopFront spec rep sys s show ?thesis by (simp add: pop_front_def il_rep_def)
    next
      case (Cons x zs)
      then show ?thesis
        using il_remove_sys [of l hp xs x] sys spec pop_front_eq [of hp l x zs] rep PopFront s by auto
    qed
  next
    case PopBack
    show ?thesis
    proof (cases xs rule: rev_cases)
      case Nil
      with PopBack spec rep sys s show ?thesis by (simp add: pop_back_def il_empty_def il_rep_def)
    next
      case (snoc zs x)
      moreover from snoc rep have "x \<notin> set zs" by (auto simp: il_rep_def)
      ultimately show ?thesis
        using il_remove_sys [of l hp xs x] sys spec pop_back_eq [of hp l zs x] rep PopBack s
        by (auto simp: remove1_append)
    qed
  next
    case (Remove e)
    with spec have "e \<in> set xs" and "ys = remove1 e xs" by (auto split: if_splits)
    with il_remove_sys [of l hp xs e] sys show ?thesis unfolding Remove s by simp
  next
    case (InsertAfter p e)
    with spec have p: "p \<in> set xs" and e: "e \<notin> set xs"
      and ys: "ys = takeWhile (\<lambda>x. x \<noteq> p) xs @ p # e # tl (dropWhile (\<lambda>x. x \<noteq> p) xs)" by (auto split: if_splits)
    from p obtain as bs where xs: "xs = as @ p # bs" "p \<notin> set as" by (meson split_list_first)
    then have tk: "takeWhile (\<lambda>x. x \<noteq> p) xs = as" "dropWhile (\<lambda>x. x \<noteq> p) xs = p # bs"
      by (auto simp: takeWhile_append dropWhile_append)
    have "\<exists>l' hp'. insertAfter p e l hp = Some (l', hp') \<and> il_rep hp' l' ys \<and>
      (\<forall>x. x \<notin> set ys \<longrightarrow> hp' x = hp x)"
      using insertAfter_ok [of hp l as p bs e] rep free [OF e] xs unfolding ys tk list.sel by blast
    then obtain l' hp' where h: "insertAfter p e l hp = Some (l', hp')" "il_rep hp' l' ys"
      "\<forall>x. x \<notin> set ys \<longrightarrow> hp' x = hp x" by blast
    have "set ys = insert e (set xs)" using xs unfolding ys tk list.sel by auto
    then show ?thesis using h free unfolding InsertAfter s by auto
  qed
qed

lemma il_refines_run:
  "il_sys s xs \<Longrightarrow> opt_fold il_spec cs xs = Some ys \<Longrightarrow> \<exists>s'. opt_fold il_exec cs s = Some s' \<and> il_sys s' ys"
proof (induction cs arbitrary: s xs)
  case (Cons c cs)
  from Cons.prems(2) obtain zs where z: "il_spec c xs = Some zs" "opt_fold il_spec cs zs = Some ys"
    by (auto split: bind_splits)
  from il_exec_refines [OF Cons.prems(1) z(1)] obtain s1 where s1: "il_exec c s = Some s1" "il_sys s1 zs" by blast
  with Cons.IH [OF s1(2) z(2)] show ?case by simp
qed simp

text \<open>C26. The intrusive list is a sequence: whatever commands the sequence accepts, the linked
  structure accepts (no assertion of the code fails), and afterwards its front, back, size and
  emptiness are those of the sequence.\<close>

theorem inlist_refines:
  assumes "opt_fold il_spec cs [] = Some ys"
  shows "\<exists>l hp. opt_fold il_exec cs (inlist_new this, \<lambda>_. node_new) = Some (l, hp) \<and> il_sys (l, hp) ys \<and>
    il_front l = first_of ys None \<and> il_back l = last_of ys None \<and> il_size l = length ys \<and> (il_empty l \<longleftrightarrow> ys = [])"
proof -
  have "il_sys (inlist_new this, \<lambda>_. node_new) []" by (simp add: il_rep_new)
  from il_refines_run [OF this assms] obtain l hp where
    "opt_fold il_exec cs (inlist_new this, \<lambda>_. node_new) = Some (l, hp)" "il_sys (l, hp) ys" by auto
  with il_rep_queries [of hp l ys] show ?thesis by auto
qed

theorem inlist_refines_witness:
  "\<exists>l hp. opt_fold il_exec [PushFront 1, PushBack 2, InsertAfter 1 3, Remove 1, PopBack] (inlist_new 7, \<lambda>_. node_new) =
     Some (l, hp) \<and> il_front l = Some 3 \<and> il_size l = 1"
  using inlist_refines [of "[PushFront 1, PushBack 2, InsertAfter 1 3, Remove 1, PopBack]" "[3]" 7] by auto

end
