(* ===== verification/Ideal_LRU.thy ===== *)
theory Ideal_LRU
  imports Intrusive_List Cache_Arrays
begin

text \<open>
  The fully-associative LRU array \<open>IdealLRUArray\<close> of \<^verbatim>\<open>zsim/src/ideal_arrays.h\<close>: a hash map
  from addresses to lines, and an intrusive list that keeps the lines in order of use. The map is
  a partial function. It meets the contract of a cache array, and its hits are those of the LRU
  stack, the reference model of LRU.
\<close>

section \<open>The array\<close>

record ideal_lru =
  ia_array :: "addr list"
  ia_nodes :: il_store
  ia_lruList :: inlist
  ia_lineMap :: "addr \<Rightarrow> nat option"
  ia_numLines :: nat

definition ia_new :: "nat \<Rightarrow> ideal_lru option" where
  "ia_new numLines =
     map_option (\<lambda>(l, hp). \<lparr>ia_array = replicate numLines 0, ia_nodes = hp, ia_lruList = l,
         ia_lineMap = (\<lambda>_. None), ia_numLines = numLines\<rparr>)
       (opt_fold il_exec (map PushFront [0..<numLines]) (inlist_new 0, \<lambda>_. node_new))"

text \<open>Removing a line from the list and putting it back at its front.\<close>

definition ia_touch :: "nat \<Rightarrow> ideal_lru \<Rightarrow> ideal_lru option" where
  "ia_touch lineId s =
     Option.bind (il_remove lineId (ia_lruList s) (ia_nodes s)) (\<lambda>(l1, hp1).
     map_option (\<lambda>(l2, hp2). s\<lparr>ia_lruList := l2, ia_nodes := hp2\<rparr>) (push_front lineId l1 hp1))"

definition ia_lookup :: "ideal_lru \<Rightarrow> addr \<Rightarrow> memreq \<Rightarrow> bool \<Rightarrow> (ideal_lru \<times> nat option) option" where
  "ia_lookup s lineAddr req updateReplacement =
     (case ia_lineMap s lineAddr of
        None \<Rightarrow> Some (s, None)
      | Some lineId \<Rightarrow>
          (if updateReplacement then map_option (\<lambda>s1. (s1, Some lineId)) (ia_touch lineId s)
           else Some (s, Some lineId)))"

definition ia_preinsert :: "cc_view \<Rightarrow> ideal_lru \<Rightarrow> addr \<Rightarrow> memreq \<Rightarrow> (ideal_lru \<times> nat \<times> addr) option" where
  "ia_preinsert cc s lineAddr req =
     map_option (\<lambda>e. (s, e, ia_array s ! e)) (il_back (ia_lruList s))"

definition ia_postinsert :: "ideal_lru \<Rightarrow> addr \<Rightarrow> memreq \<Rightarrow> nat \<Rightarrow> ideal_lru option" where
  "ia_postinsert s lineAddr req lineId =
     (let m1 = (ia_lineMap s)(ia_array s ! lineId := None) in
      Option.bind (guard (m1 lineAddr = None)) (\<lambda>_.
      ia_touch lineId (s\<lparr>ia_array := (ia_array s)[lineId := lineAddr], ia_lineMap := m1(lineAddr := Some lineId)\<rparr>)))"

definition ia_ops :: "ideal_lru ca_ops" where
  "ia_ops = \<lparr>ca_lookup = ia_lookup, ca_preinsert = ia_preinsert, ca_postinsert = ia_postinsert\<rparr>"

section \<open>The invariant\<close>

text \<open>\<open>xs\<close> are the lines in the order of their last use; the map is the inverse of the tags.\<close>

definition ia_order :: "ideal_lru \<Rightarrow> nat list \<Rightarrow> bool" where
  "ia_order s xs \<longleftrightarrow> il_sys (ia_lruList s, ia_nodes s) xs"

definition ia_shape :: "nat \<Rightarrow> ideal_lru \<Rightarrow> bool" where
  "ia_shape n s \<longleftrightarrow> length (ia_array s) = n \<and>
     (\<forall>a l. ia_lineMap s a = Some l \<longleftrightarrow> a \<noteq> 0 \<and> l < n \<and> ia_array s ! l = a)"

definition ia_inv :: "nat \<Rightarrow> ideal_lru \<Rightarrow> bool" where
  "ia_inv n s \<longleftrightarrow> ia_shape n s \<and> (\<exists>xs. ia_order s xs \<and> set xs = {..<n})"

definition ia_pend :: "nat \<Rightarrow> ideal_lru \<Rightarrow> addr \<Rightarrow> nat \<Rightarrow> bool" where
  "ia_pend n s a l \<longleftrightarrow> ia_inv n s \<and> l < n \<and> a \<noteq> 0 \<and> ia_lineMap s a = None"

definition ia_tag :: "ideal_lru \<Rightarrow> nat \<Rightarrow> addr" where
  "ia_tag s l = ia_array s ! l"

lemma ia_order_distinct: "ia_order s xs \<Longrightarrow> distinct xs"
  by (simp add: ia_order_def il_rep_def)

lemma ia_map_tag: "ia_inv n s \<Longrightarrow> ia_lineMap s a = Some l \<longleftrightarrow> a \<noteq> 0 \<and> l < n \<and> ia_tag s l = a"
  unfolding ia_inv_def ia_shape_def ia_tag_def by blast

lemma ia_tag_cong: "ia_array s' = ia_array s \<Longrightarrow> ia_tag s' = ia_tag s"
  by (simp add: ia_tag_def fun_eq_iff)

lemma ia_touch_ok:
  assumes "ia_order s xs" and "e \<in> set xs"
  shows "\<exists>s'. ia_touch e s = Some s' \<and> ia_order s' (e # remove1 e xs) \<and> ia_array s' = ia_array s \<and>
    ia_lineMap s' = ia_lineMap s"
proof -
  obtain l1 hp1 where r: "il_remove e (ia_lruList s) (ia_nodes s) = Some (l1, hp1)" "il_sys (l1, hp1) (remove1 e xs)"
    using il_remove_sys [of "ia_lruList s" "ia_nodes s" xs e] assms by (auto simp: ia_order_def)
  have "e \<notin> set (remove1 e xs)" using ia_order_distinct [OF assms(1)] by simp
  then obtain l2 hp2 where p: "push_front e l1 hp1 = Some (l2, hp2)" "il_sys (l2, hp2) (e # remove1 e xs)"
    using il_exec_refines [OF r(2), of "PushFront e" "e # remove1 e xs"] by auto
  with r show ?thesis by (simp add: ia_touch_def ia_order_def)
qed

lemma ia_touch_inv:
  assumes "ia_inv n s" and "e < n"
  shows "\<exists>s'. ia_touch e s = Some s' \<and> ia_inv n s' \<and> ia_array s' = ia_array s \<and> ia_lineMap s' = ia_lineMap s"
proof -
  obtain xs where xs: "ia_order s xs" "set xs = {..<n}" using assms by (auto simp: ia_inv_def)
  with assms(2) have "e \<in> set xs" by simp
  from ia_touch_ok [OF xs(1) this] obtain s' where s': "ia_touch e s = Some s'" "ia_order s' (e # remove1 e xs)"
    "ia_array s' = ia_array s" "ia_lineMap s' = ia_lineMap s" by blast
  have "set (e # remove1 e xs) = {..<n}" using xs ia_order_distinct [OF xs(1)] assms(2) by auto
  with s' assms(1) show ?thesis by (auto simp: ia_inv_def ia_shape_def)
qed

lemma ia_shape_insert:
  assumes "ia_shape n s" and "l < n" and "a \<noteq> 0" and "ia_lineMap s a = None"
  shows "ia_shape n (s\<lparr>ia_array := (ia_array s)[l := a], ia_lineMap := (ia_lineMap s)(ia_array s ! l := None, a := Some l)\<rparr>)"
proof -
  let ?o = "ia_array s ! l" and ?m = "ia_lineMap s"
  have m: "?m b = Some j \<longleftrightarrow> b \<noteq> 0 \<and> j < n \<and> ia_array s ! j = b" for b j
    using assms(1) unfolding ia_shape_def by blast
  have len: "length (ia_array s) = n" using assms(1) by (simp add: ia_shape_def)
  have "(?m(?o := None, a := Some l)) b = Some j \<longleftrightarrow> b \<noteq> 0 \<and> j < n \<and> (ia_array s)[l := a] ! j = b" for b j
  proof (cases "j = l")
    case True
    have "?m b \<noteq> Some l" if "b \<noteq> ?o" using m [of b l] that by blast
    then show ?thesis using True assms(2,3) len by auto
  next
    case False
    have "?m a \<noteq> Some j" using assms(4) by simp
    then have "\<not> (j < n \<and> ia_array s ! j = a)" using m [of a j] assms(3) by blast
    moreover have "?m ?o \<noteq> Some j" using m [of ?o j] m [of ?o l] False assms(2) by (metis option.inject)
    ultimately show ?thesis using False m [of b j] assms(2) by (cases "b = a"; cases "b = ?o") auto
  qed
  then show ?thesis unfolding ia_shape_def using len by simp
qed

interpretation ia: cache_array ia_ops "ia_inv (Suc n)" "ia_pend (Suc n)" ia_lineMap ia_tag "Suc n" for n
proof (rule cache_array.intro)
  fix s and a :: addr and req upd assume inv: "ia_inv (Suc n) s" and "a \<noteq> 0"
  show "\<exists>s'. ca_lookup ia_ops s a req upd = Some (s', ia_lineMap s a) \<and>
    ia_inv (Suc n) s' \<and> ia_lineMap s' = ia_lineMap s \<and> ia_tag s' = ia_tag s"
  proof (cases "ia_lineMap s a")
    case None
    with inv show ?thesis by (simp add: ia_ops_def ia_lookup_def)
  next
    case (Some l)
    then have "l < Suc n" using ia_map_tag [OF inv] by simp
    from ia_touch_inv [OF inv this] obtain s' where "ia_touch l s = Some s'" "ia_inv (Suc n) s'"
      "ia_array s' = ia_array s" "ia_lineMap s' = ia_lineMap s" by blast
    with Some inv ia_tag_cong [of s' s] show ?thesis by (cases upd) (simp_all add: ia_ops_def ia_lookup_def)
  qed
next
  fix s b l and a :: addr and req upd assume pend: "ia_pend (Suc n) s b l" and "a \<noteq> 0"
  then have inv: "ia_inv (Suc n) s" by (simp add: ia_pend_def)
  show "\<exists>s'. ca_lookup ia_ops s a req upd = Some (s', ia_lineMap s a) \<and>
    ia_pend (Suc n) s' b l \<and> ia_lineMap s' = ia_lineMap s \<and> ia_tag s' = ia_tag s"
  proof (cases "ia_lineMap s a")
    case None
    with pend show ?thesis by (simp add: ia_ops_def ia_lookup_def)
  next
    case (Some j)
    then have "j < Suc n" using ia_map_tag [OF inv] by simp
    from ia_touch_inv [OF inv this] obtain s' where "ia_touch j s = Some s'" "ia_inv (Suc n) s'"
      "ia_array s' = ia_array s" "ia_lineMap s' = ia_lineMap s" by blast
    with Some pend ia_tag_cong [of s' s] show ?thesis
      by (cases upd) (simp_all add: ia_ops_def ia_lookup_def ia_pend_def)
  qed
next
  fix s and a :: addr and l assume "ia_inv (Suc n) s" "a \<noteq> 0" "ia_lineMap s a = Some l"
  then show "l < Suc n \<and> ia_tag s l = a" by (simp add: ia_map_tag)
next
  fix s l assume "ia_inv (Suc n) s" "l < Suc n" "ia_tag s l \<noteq> 0"
  then show "ia_lineMap s (ia_tag s l) = Some l" by (simp add: ia_map_tag)
next
  fix s and a :: addr and cc req assume inv: "ia_inv (Suc n) s" and a: "a \<noteq> 0" "ia_lineMap s a = None"
  obtain xs where xs: "ia_order s xs" "set xs = {..<Suc n}" using inv unfolding ia_inv_def by blast
  then have ne: "xs \<noteq> []" by force
  have "il_back (ia_lruList s) = Some (last xs)"
    using il_rep_queries(3) [of "ia_nodes s" "ia_lruList s" xs] xs(1) ne by (simp add: ia_order_def last_of_def)
  moreover have "last xs < Suc n" using last_in_set [OF ne] xs(2) by blast
  ultimately show "\<exists>s' l. ca_preinsert ia_ops cc s a req = Some (s', l, ia_tag s l) \<and> l < Suc n \<and> ia_pend (Suc n) s' a l \<and>
    ia_lineMap s' = ia_lineMap s \<and> ia_tag s' = ia_tag s"
    using inv a by (simp add: ia_ops_def ia_preinsert_def ia_tag_def ia_pend_def)
next
  fix s a req l assume pend: "ia_pend (Suc n) s a l"
  let ?s = "s\<lparr>ia_array := (ia_array s)[l := a], ia_lineMap := (ia_lineMap s)(ia_array s ! l := None, a := Some l)\<rparr>"
  have l: "l < Suc n" and len: "length (ia_array s) = Suc n" using pend by (simp_all add: ia_pend_def ia_inv_def ia_shape_def)
  have "ia_inv (Suc n) ?s"
    using ia_shape_insert [of "Suc n" s l a] pend by (simp add: ia_pend_def ia_inv_def ia_order_def)
  from ia_touch_inv [OF this l] obtain s' where s': "ia_touch l ?s = Some s'" "ia_inv (Suc n) s'" "ia_array s' = ia_array ?s" by blast
  moreover have "((ia_lineMap s)(ia_array s ! l := None)) a = None" using pend by (simp add: ia_pend_def)
  ultimately show "\<exists>s'. ca_postinsert ia_ops s a req l = Some s' \<and> ia_inv (Suc n) s' \<and> ia_tag s' = (ia_tag s)(l := a)"
    using l len by (simp add: ia_ops_def ia_postinsert_def Let_def ia_tag_def fun_eq_iff nth_list_update)
qed

section \<open>The LRU stack\<close>

text \<open>The reference model: the addresses in the order of their last use, at most \<open>n\<close> of them.\<close>

fun stack_run :: "nat \<Rightarrow> addr list \<Rightarrow> addr list \<Rightarrow> bool list" where
  "stack_run n st [] = []"
| "stack_run n st (a # as) = (a \<in> set st) # stack_run n (take n (a # remove1 a st)) as"

text \<open>The accesses of a cache to the array, and whether each one hits.\<close>

definition ia_access :: "cc_view \<Rightarrow> ideal_lru \<Rightarrow> memreq \<Rightarrow> (ideal_lru \<times> bool) option" where
  "ia_access cc s req =
     Option.bind (ia_lookup s (mr_lineAddr req) req True) (\<lambda>(s1, r).
     if r \<noteq> None then Some (s1, True)
     else map_option (\<lambda>(s2, _). (s2, False)) (ca_insert ia_ops cc s1 (mr_lineAddr req) req))"

fun ia_run :: "cc_view \<Rightarrow> ideal_lru \<Rightarrow> memreq list \<Rightarrow> bool list option" where
  "ia_run cc s [] = Some []"
| "ia_run cc s (r # rs) =
     Option.bind (ia_access cc s r) (\<lambda>(s1, hit). map_option ((#) hit) (ia_run cc s1 rs))"

definition ia_stack :: "nat \<Rightarrow> ideal_lru \<Rightarrow> addr list \<Rightarrow> bool" where
  "ia_stack n s st \<longleftrightarrow> ia_shape n s \<and> 0 \<notin> set st \<and>
     (\<exists>xs k. ia_order s xs \<and> set xs = {..<n} \<and> map (ia_tag s) xs = st @ replicate k 0)"

lemma map_remove1_uniq:
  "x \<in> set xs \<Longrightarrow> \<forall>y\<in>set xs. f y = f x \<longrightarrow> y = x \<Longrightarrow> map f (remove1 x xs) = remove1 (f x) (map f xs)"
  by (induction xs) auto

lemma push_all: "distinct ys \<Longrightarrow> set ys \<inter> set xs = {} \<Longrightarrow> opt_fold il_spec (map PushFront ys) xs = Some (rev ys @ xs)"
  by (induction ys arbitrary: xs) auto

lemma ia_new_stack: "\<exists>s. ia_new n = Some s \<and> ia_stack n s []"
proof -
  have "opt_fold il_spec (map PushFront [0..<n]) [] = Some (rev [0..<n])" by (subst push_all) auto
  moreover have "il_sys (inlist_new 0, \<lambda>_. node_new) []" by (simp add: il_rep_new)
  ultimately obtain l hp where r: "opt_fold il_exec (map PushFront [0..<n]) (inlist_new 0, \<lambda>_. node_new) = Some (l, hp)"
    "il_sys (l, hp) (rev [0..<n])"
    using il_refines_run by fastforce
  let ?s = "\<lparr>ia_array = replicate n 0, ia_nodes = hp, ia_lruList = l, ia_lineMap = (\<lambda>_. None), ia_numLines = n\<rparr>"
  have "map (ia_tag ?s) (rev [0..<n]) = [] @ replicate n 0"
    by (rule nth_equalityI) (simp_all add: ia_tag_def rev_nth)
  moreover have "ia_shape n ?s" by (auto simp: ia_shape_def)
  ultimately have "ia_stack n ?s []"
    unfolding ia_stack_def using r(2) by (auto simp: ia_order_def intro!: exI [of _ "rev [0..<n]"] exI [of _ n])
  with r(1) show ?thesis by (simp add: ia_new_def)
qed

lemma ia_stack_length: "ia_stack n s st \<Longrightarrow> length st \<le> n"
proof -
  assume "ia_stack n s st"
  then obtain xs k where x: "ia_order s xs" "set xs = {..<n}" "map (ia_tag s) xs = st @ replicate k 0"
    unfolding ia_stack_def by blast
  have "length xs = n" using distinct_card [OF ia_order_distinct [OF x(1)]] x(2) by simp
  with arg_cong [OF x(3), of length] show ?thesis by simp
qed

lemma ia_hit:
  assumes st: "ia_stack n s st" and a: "mr_lineAddr req \<in> set st"
  shows "\<exists>s'. ia_access cc s req = Some (s', True) \<and> ia_stack n s' (mr_lineAddr req # remove1 (mr_lineAddr req) st)"
proof -
  let ?a = "mr_lineAddr req"
  from st obtain xs k where x: "ia_shape n s" "0 \<notin> set st" "ia_order s xs" "set xs = {..<n}"
    "map (ia_tag s) xs = st @ replicate k 0" unfolding ia_stack_def by blast
  have "?a \<noteq> 0" using a x(2) by auto
  have "?a \<in> ia_tag s ` set xs" using a x(5) by (metis Un_iff set_append set_map)
  then obtain l where l: "l \<in> set xs" "ia_tag s l = ?a" by auto
  have m: "ia_lineMap s b = Some j \<longleftrightarrow> b \<noteq> 0 \<and> j < n \<and> ia_tag s j = b" for b j
    using x(1) unfolding ia_shape_def ia_tag_def by blast
  have uniq: "\<forall>y\<in>set xs. ia_tag s y = ia_tag s l \<longrightarrow> y = l"
    using m [of ?a] l x(4) \<open>?a \<noteq> 0\<close> by (metis lessThan_iff option.inject)
  obtain s' where s': "ia_touch l s = Some s'" "ia_order s' (l # remove1 l xs)" "ia_array s' = ia_array s"
    "ia_lineMap s' = ia_lineMap s" using ia_touch_ok [OF x(3) l(1)] by blast
  have "map (ia_tag s') (l # remove1 l xs) = (?a # remove1 ?a st) @ replicate k 0"
    using map_remove1_uniq [OF l(1) uniq] ia_tag_cong [OF s'(3)] l(2) x(5) a by (simp add: remove1_append)
  moreover have "set (l # remove1 l xs) = {..<n}" using x(4) l(1) ia_order_distinct [OF x(3)] by auto
  moreover have "ia_shape n s'" using x(1) s'(3,4) by (simp add: ia_shape_def)
  moreover have "0 \<notin> set (?a # remove1 ?a st)" using x(2) \<open>?a \<noteq> 0\<close> by (auto dest: notin_set_remove1)
  ultimately have "ia_stack n s' (?a # remove1 ?a st)" unfolding ia_stack_def using s'(2) by blast
  moreover have "ia_lineMap s ?a = Some l" using m l x(4) \<open>?a \<noteq> 0\<close> by simp
  ultimately show ?thesis using s'(1) by (simp add: ia_access_def ia_lookup_def)
qed

lemma butlast_stack: "n = length st + k \<Longrightarrow> 0 < n \<Longrightarrow>
    \<exists>j. x # butlast (st @ replicate k y) = take n (x # st) @ replicate j y"
  by (cases k) (auto simp: butlast_append replicate_append_same [symmetric] butlast_conv_take take_Cons' intro: exI [of _ 0])

lemma ia_miss:
  assumes st: "ia_stack n s st" and a: "mr_lineAddr req \<notin> set st" "mr_lineAddr req \<noteq> 0" and n: "0 < n"
  shows "\<exists>s'. ia_access cc s req = Some (s', False) \<and> ia_stack n s' (take n (mr_lineAddr req # st))"
proof -
  let ?a = "mr_lineAddr req"
  from st obtain xs k where x: "ia_shape n s" "0 \<notin> set st" "ia_order s xs" "set xs = {..<n}"
    "map (ia_tag s) xs = st @ replicate k 0" unfolding ia_stack_def by blast
  have dist: "distinct xs" by (rule ia_order_distinct [OF x(3)])
  have m: "ia_lineMap s b = Some j \<longleftrightarrow> b \<noteq> 0 \<and> j < n \<and> ia_tag s j = b" for b j
    using x(1) unfolding ia_shape_def ia_tag_def by blast
  have "?a \<notin> ia_tag s ` set xs" using a x(5) by (metis Un_iff in_set_replicate set_append set_map)
  then have none: "ia_lineMap s ?a = None" using m x(4) by (metis image_eqI lessThan_iff not_Some_eq)
  have ne: "xs \<noteq> []" using n x(4) by (metis empty_iff lessThan_iff list.set(1))
  then obtain ys v where xs: "xs = ys @ [v]" by (metis rev_exhaust)
  have v: "v < n" using xs x(4) by auto
  let ?m = "(ia_lineMap s)(ia_array s ! v := None, ?a := Some v)"
  let ?s = "s\<lparr>ia_array := (ia_array s)[v := ?a], ia_lineMap := ?m\<rparr>"
  have "v \<in> set xs" and order: "ia_order ?s xs" using xs x(3) by (simp_all add: ia_order_def)
  obtain s' where s': "ia_touch v ?s = Some s'" "ia_order s' (v # remove1 v xs)" "ia_array s' = ia_array ?s"
    "ia_lineMap s' = ia_lineMap ?s" using ia_touch_ok [OF order \<open>v \<in> set xs\<close>] by blast
  have bk: "il_back (ia_lruList s) = Some v"
    using il_rep_queries(3) [of "ia_nodes s" "ia_lruList s" xs] x(3) xs by (simp add: ia_order_def last_of_def)
  have "ca_insert ia_ops cc s ?a req = Some (s', v, ia_array s ! v)"
    using bk none s'(1) by (simp add: ca_insert_def ia_ops_def ia_preinsert_def ia_postinsert_def Let_def)
  then have acc: "ia_access cc s req = Some (s', False)"
    using none by (simp add: ia_access_def ia_lookup_def)
  have len: "n = length st + k"
    using arg_cong [OF x(5), of length] distinct_card [OF dist] x(4) by simp
  have "map (ia_tag s') ys = map (ia_tag s) ys"
    using s'(3) xs dist by (auto simp: ia_tag_def) (metis nth_list_update_neq)
  also have "\<dots> = butlast (map (ia_tag s) xs)" using xs by simp
  also have "\<dots> = butlast (st @ replicate k 0)" by (simp only: x(5))
  finally have "map (ia_tag s') (v # remove1 v xs) = ?a # butlast (st @ replicate k 0)"
    using s'(3) v x(1) xs dist by (simp add: ia_tag_def ia_shape_def remove1_append)
  then obtain j where "map (ia_tag s') (v # remove1 v xs) = take n (?a # st) @ replicate j 0"
    using butlast_stack [OF len n] by metis
  moreover have "set (v # remove1 v xs) = {..<n}" using x(4) xs dist by auto
  moreover have "ia_shape n s'"
    using ia_shape_insert [OF x(1) v a(2) none] s'(3,4) by (simp add: ia_shape_def)
  moreover have "0 \<notin> set (take n (?a # st))" using x(2) a(2) by (auto dest: in_set_takeD)
  ultimately have "ia_stack n s' (take n (?a # st))" unfolding ia_stack_def using s'(2) by blast
  with acc show ?thesis by blast
qed

lemma ia_run_stack:
  "ia_stack n s st \<Longrightarrow> 0 < n \<Longrightarrow> \<forall>r\<in>set rs. mr_lineAddr r \<noteq> 0 \<Longrightarrow> ia_run cc s rs = Some (stack_run n st (map mr_lineAddr rs))"
proof (induction rs arbitrary: s st)
  case (Cons r rs)
  let ?a = "mr_lineAddr r"
  let ?st = "take n (?a # remove1 ?a st)"
  have "\<exists>s'. ia_access cc s r = Some (s', ?a \<in> set st) \<and> ia_stack n s' ?st"
  proof (cases "?a \<in> set st")
    case True
    then have "?st = ?a # remove1 ?a st"
      using ia_stack_length [OF Cons.prems(1)] length_pos_if_in_set [OF True] by (simp add: length_remove1)
    with ia_hit [OF Cons.prems(1) True] True show ?thesis by simp
  next
    case False
    with ia_miss [OF Cons.prems(1) False _ Cons.prems(2)] Cons.prems(3) show ?thesis by (simp add: remove1_idem)
  qed
  then obtain s' where "ia_access cc s r = Some (s', ?a \<in> set st)" "ia_stack n s' ?st" by blast
  with Cons.IH Cons.prems(2,3) show ?case by simp
qed simp

text \<open>C27. The fully-associative LRU array hits exactly when the LRU stack of its size does, over
  every trace of accesses to nonzero addresses, and none of its assertions fails.\<close>

theorem ideal_lru_is_stack:
  assumes "0 < n" and "\<forall>r\<in>set rs. mr_lineAddr r \<noteq> 0"
  shows "\<exists>s. ia_new n = Some s \<and> ia_run cc s rs = Some (stack_run n [] (map mr_lineAddr rs))"
  using ia_new_stack [of n] ia_run_stack [OF _ assms] by blast

theorem ideal_lru_is_stack_witness:
  "\<exists>s. ia_new 2 = Some s \<and>
    ia_run \<lparr>cv_numSharers = \<lambda>_. 0, cv_isValid = \<lambda>_. True\<rparr> s (map read_req [5, 6, 5, 7, 6, 5]) = Some [False, False, True, False, False, False]"
  using ideal_lru_is_stack [of 2 "map read_req [5, 6, 5, 7, 6, 5]" "\<lparr>cv_numSharers = \<lambda>_. 0, cv_isValid = \<lambda>_. True\<rparr>"] by auto

end
