(* ===== verification/Prio_Queue.thy ===== *)
theory Prio_Queue
  imports Prelude "HOL-Library.Multiset"
begin

text \<open>
  The event priority queue of the weave phase, \<^verbatim>\<open>zsim/src/prio_queue.h\<close>: a circular buffer
  of \<open>B\<close> blocks of 64 cycles each, and a sorted map for elements further away. The chain of
  \<open>next\<close> pointers that starts at a slot is a list, and the multimap of far elements a list sorted
  by cycle in which equal keys keep the order of insertion. Cycles and block numbers are \<open>nat\<close>;
  the occupancy masks are 64-bit words. In a block, \<open>enqueue\<close> asserts that the object's own \<open>next\<close> is null: the
  assertion is left out, since a chain is a list here; it fails for an object that is in the queue already, and the
  weave phase queues no event twice (\<open>enqueue_fresh\<close> of \<open>Weave_Inv\<close>).
\<close>

section \<open>The queue\<close>

record 'a pqblock =
  pb_array :: "'a list list"
  pb_occ :: u64

record 'a pqueue =
  pq_blocks :: "'a pqblock list"
  pq_feMap :: "(nat \<times> 'a) list"
  pq_curBlock :: nat
  pq_elems :: nat

definition pb_new :: "'a pqblock" where
  "pb_new = \<lparr>pb_array = replicate 64 [], pb_occ = 0\<rparr>"

definition ctz64 :: "u64 \<Rightarrow> nat" where
  "ctz64 w = length (takeWhile (\<lambda>i. \<not> bit w i) [0..<64])"

definition pb_dequeue :: "'a pqblock \<Rightarrow> ('a \<times> nat \<times> 'a pqblock) option" where
  "pb_dequeue b =
     (if pb_occ b = 0 then None
      else let pos = ctz64 (pb_occ b) in
        case pb_array b ! pos of
          [] \<Rightarrow> None
        | res # chain \<Rightarrow>
            Some (res, pos, \<lparr>pb_array = (pb_array b)[pos := chain],
              pb_occ = (if chain = [] then pb_occ b XOR push_bit pos 1 else pb_occ b)\<rparr>))"

definition pb_enqueue :: "'a \<Rightarrow> nat \<Rightarrow> 'a pqblock \<Rightarrow> 'a pqblock" where
  "pb_enqueue obj pos b =
     \<lparr>pb_array = (pb_array b)[pos := obj # pb_array b ! pos], pb_occ = pb_occ b OR push_bit pos 1\<rparr>"

definition pq_new :: "nat \<Rightarrow> 'a pqueue" where
  "pq_new B = \<lparr>pq_blocks = replicate B pb_new, pq_feMap = [], pq_curBlock = 0, pq_elems = 0\<rparr>"

definition pq_put :: "nat \<Rightarrow> 'a \<Rightarrow> nat \<Rightarrow> 'a pqueue \<Rightarrow> 'a pqueue" where
  "pq_put B obj cycle q =
     (let i = cycle div 64 mod B
      in q\<lparr>pq_blocks := (pq_blocks q)[i := pb_enqueue obj (cycle mod 64) (pq_blocks q ! i)]\<rparr>)"

text \<open>Insertion in the multimap, after the elements with the same key.\<close>

fun fe_insert :: "nat \<times> 'a \<Rightarrow> (nat \<times> 'a) list \<Rightarrow> (nat \<times> 'a) list" where
  "fe_insert x [] = [x]"
| "fe_insert x (y # ys) = (if fst y \<le> fst x then y # fe_insert x ys else x # y # ys)"

definition pq_enqueue :: "nat \<Rightarrow> 'a \<Rightarrow> nat \<Rightarrow> 'a pqueue \<Rightarrow> 'a pqueue option" where
  "pq_enqueue B obj cycle q =
     (let absBlock = cycle div 64 in
      Option.bind (guard (absBlock \<ge> pq_curBlock q)) (\<lambda>_.
      let q1 = (if absBlock < pq_curBlock q + B then pq_put B obj cycle q
                else q\<lparr>pq_feMap := fe_insert (cycle, obj) (pq_feMap q)\<rparr>)
      in Some (q1\<lparr>pq_elems := pq_elems q1 + 1\<rparr>)))"

text \<open>Moving the far elements before \<open>topCycle\<close> to the blocks.\<close>

fun pq_move :: "nat \<Rightarrow> nat \<Rightarrow> (nat \<times> 'a) list \<Rightarrow> 'a pqueue \<Rightarrow> 'a pqueue option" where
  "pq_move B topCycle [] q = Some (q\<lparr>pq_feMap := []\<rparr>)"
| "pq_move B topCycle ((cycle, obj) # es) q =
     (if cycle < topCycle then
        Option.bind (guard (cycle div 64 \<ge> pq_curBlock q \<and> cycle div 64 < pq_curBlock q + B)) (\<lambda>_.
        pq_move B topCycle es (pq_put B obj cycle q))
      else Some (q\<lparr>pq_feMap := (cycle, obj) # es\<rparr>))"

definition pq_nextBlock :: "nat \<Rightarrow> 'a pqueue \<Rightarrow> 'a pqueue option" where
  "pq_nextBlock B q =
     (let q1 = q\<lparr>pq_curBlock := pq_curBlock q + 1\<rparr> in
      if pq_curBlock q1 mod (B div 2) = 0 \<and> pq_feMap q1 \<noteq> []
      then pq_move B ((pq_curBlock q1 + B) * 64) (pq_feMap q1) q1
      else Some q1)"

partial_function (option) pq_advance :: "nat \<Rightarrow> 'a pqueue \<Rightarrow> 'a pqueue option" where
  "pq_advance B q =
     (if pb_occ (pq_blocks q ! (pq_curBlock q mod B)) \<noteq> 0 then Some q
      else Option.bind (pq_nextBlock B q) (pq_advance B))"

declare pq_advance.simps [simp del]

text \<open>Returns the object, \<open>deqCycle\<close> and the queue.\<close>

definition pq_dequeue :: "nat \<Rightarrow> 'a pqueue \<Rightarrow> ('a \<times> nat \<times> 'a pqueue) option" where
  "pq_dequeue B q =
     Option.bind (guard (pq_elems q \<noteq> 0)) (\<lambda>_.
     Option.bind (pq_advance B q) (\<lambda>q1.
     let i = pq_curBlock q1 mod B in
     Option.bind (pb_dequeue (pq_blocks q1 ! i)) (\<lambda>(obj, offset, b).
     Some (obj, pq_curBlock q1 * 64 + offset,
       q1\<lparr>pq_blocks := (pq_blocks q1)[i := b], pq_elems := pq_elems q1 - 1\<rparr>))))"

definition pq_size :: "'a pqueue \<Rightarrow> nat" where
  "pq_size q = pq_elems q"

text \<open>\<open>firstCycle\<close>: the two loops over the blocks, then the far elements.\<close>

definition pq_scan :: "nat \<Rightarrow> 'a pqueue \<Rightarrow> nat list \<Rightarrow> nat option" where
  "pq_scan B q is =
     map_option (\<lambda>i. (pq_curBlock q + i) * 64 + ctz64 (pb_occ (pq_blocks q ! ((pq_curBlock q + i) mod B))))
       (List.find (\<lambda>i. pb_occ (pq_blocks q ! ((pq_curBlock q + i) mod B)) \<noteq> 0) is)"

definition pq_firstCycle :: "nat \<Rightarrow> 'a pqueue \<Rightarrow> nat option" where
  "pq_firstCycle B q =
     Option.bind (guard (pq_elems q \<noteq> 0)) (\<lambda>_.
     case pq_scan B q [0..<B div 2] of
       Some cycle \<Rightarrow> Some cycle
     | None \<Rightarrow>
         (case pq_scan B q [B div 2..<B] of
            Some cycle \<Rightarrow> Some (if pq_feMap q = [] then cycle else min cycle (fst (hd (pq_feMap q))))
          | None \<Rightarrow> (if pq_feMap q = [] then None else Some (fst (hd (pq_feMap q))))))"

section \<open>Masks\<close>

lemma bit_exp: "pos < 64 \<Longrightarrow> i < 64 \<Longrightarrow> bit (push_bit pos 1 :: u64) i \<longleftrightarrow> i = pos"
  by (auto simp: bit_simps)

lemma word_nz_bit: "(w :: u64) \<noteq> 0 \<longleftrightarrow> (\<exists>i<64. bit w i)"
proof
  assume "w \<noteq> 0"
  then obtain i where "bit w i" by (auto simp: bit_eq_iff)
  then show "\<exists>i<64. bit w i" using bit_imp_le_length [of w i] by auto
qed auto

lemma ctz64_least:
  assumes "w \<noteq> 0"
  shows "ctz64 w < 64 \<and> bit w (ctz64 w) \<and> (\<forall>i<ctz64 w. \<not> bit w i)"
proof -
  obtain i where i: "i < 64" "bit w i" using assms word_nz_bit by blast
  let ?t = "takeWhile (\<lambda>i. \<not> bit w i) [0..<64]"
  have "length ?t < length [0..<64]"
  proof (rule ccontr)
    assume "\<not> length ?t < length [0..<64]"
    then have "?t = [0..<64]" by (metis length_takeWhile_le le_neq_implies_less takeWhile_eq_take take_all_iff linorder_not_less)
    then show False using i by (metis set_takeWhileD set_upt atLeastLessThan_iff le0)
  qed
  then have lt: "ctz64 w < 64" by (simp add: ctz64_def)
  moreover have "bit w (ctz64 w)"
    using nth_length_takeWhile [of "\<lambda>i. \<not> bit w i" "[0..<64]"] lt by (simp add: ctz64_def)
  moreover have "\<not> bit w j" if "j < ctz64 w" for j
  proof -
    have "j < length ?t" using that by (simp add: ctz64_def)
    then have "?t ! j = j" using lt that by (simp add: takeWhile_nth)
    moreover have "?t ! j \<in> set ?t" using \<open>j < length ?t\<close> by (rule nth_mem)
    ultimately show ?thesis by (metis set_takeWhileD)
  qed
  ultimately show ?thesis by blast
qed

section \<open>Blocks\<close>

definition pb_ok :: "'a pqblock \<Rightarrow> bool" where
  "pb_ok b \<longleftrightarrow> length (pb_array b) = 64 \<and> (\<forall>pos<64. bit (pb_occ b) pos \<longleftrightarrow> pb_array b ! pos \<noteq> [])"

lemma pb_ok_new: "pb_ok pb_new"
  by (simp add: pb_ok_def pb_new_def)

lemma pb_ok_enqueue: "pb_ok b \<Longrightarrow> pos < 64 \<Longrightarrow> pb_ok (pb_enqueue obj pos b)"
  by (auto simp: pb_ok_def pb_enqueue_def bit_or_iff bit_exp nth_list_update simp del: push_bit_of_1)

lemma pb_occ_empty: "pb_ok b \<Longrightarrow> pb_occ b = 0 \<longleftrightarrow> (\<forall>pos<64. pb_array b ! pos = [])"
  unfolding pb_ok_def using word_nz_bit [of "pb_occ b"] by auto

lemma pb_dequeue_ok:
  assumes "pb_ok b" and "pb_occ b \<noteq> 0"
  shows "\<exists>obj pos chain b'. pb_dequeue b = Some (obj, pos, b') \<and> pos = ctz64 (pb_occ b) \<and> pos < 64 \<and>
    pb_array b ! pos = obj # chain \<and> (\<forall>i<pos. pb_array b ! i = []) \<and> pb_ok b' \<and> pb_array b' = (pb_array b)[pos := chain]"
proof -
  let ?pos = "ctz64 (pb_occ b)"
  have pos: "?pos < 64" "bit (pb_occ b) ?pos" "\<forall>i<?pos. \<not> bit (pb_occ b) i" using ctz64_least [OF assms(2)] by blast+
  then have "pb_array b ! ?pos \<noteq> []" "\<forall>i<?pos. pb_array b ! i = []" using assms(1) by (auto simp: pb_ok_def)
  moreover from this(1) obtain obj chain where "pb_array b ! ?pos = obj # chain" by (cases "pb_array b ! ?pos") auto
  moreover from this have "pb_dequeue b = Some (obj, ?pos, \<lparr>pb_array = (pb_array b)[?pos := chain],
      pb_occ = (if chain = [] then pb_occ b XOR push_bit ?pos 1 else pb_occ b)\<rparr>)"
    using assms(2) by (simp add: pb_dequeue_def Let_def)
  moreover have "pb_ok \<lparr>pb_array = (pb_array b)[?pos := chain],
      pb_occ = (if chain = [] then pb_occ b XOR push_bit ?pos 1 else pb_occ b)\<rparr>"
    using assms(1) pos by (auto simp: pb_ok_def bit_xor_iff bit_exp nth_list_update simp del: push_bit_of_1)
  ultimately show ?thesis using pos(1) by auto
qed

section \<open>The abstract queue\<close>

text \<open>The contents are a multiset of pairs of a cycle and an object; \<open>at_cycle c\<close> are the objects
  of one cycle. \<open>F c\<close> is the chain of cycle \<open>c\<close> in the blocks.\<close>

definition at_cycle :: "nat \<Rightarrow> (nat \<times> 'a) multiset \<Rightarrow> 'a multiset" where
  "at_cycle c Q = image_mset snd (filter_mset (\<lambda>p. fst p = c) Q)"

lemma at_cycle_add [simp]: "at_cycle c (add_mset p Q) = (if fst p = c then add_mset (snd p) (at_cycle c Q) else at_cycle c Q)"
  by (simp add: at_cycle_def)

lemma at_cycle_empty [simp]: "at_cycle c {#} = {#}"
  by (simp add: at_cycle_def)

lemma at_cycle_in: "x \<in># at_cycle c Q \<longleftrightarrow> (c, x) \<in># Q"
  by (force simp: at_cycle_def)

lemma at_cycle_remove: "(c, x) \<in># Q \<Longrightarrow> at_cycle d (Q - {#(c, x)#}) = (if d = c then at_cycle c Q - {#x#} else at_cycle d Q)"
  by (auto dest!: multi_member_split)

definition blocks_inv :: "nat \<Rightarrow> 'a pqueue \<Rightarrow> (nat \<Rightarrow> 'a list) \<Rightarrow> bool" where
  "blocks_inv B q F \<longleftrightarrow> 2 \<le> B \<and> length (pq_blocks q) = B \<and> (\<forall>i<B. pb_ok (pq_blocks q ! i)) \<and>
     (\<forall>c. F c \<noteq> [] \<longrightarrow> pq_curBlock q * 64 \<le> c \<and> c < (pq_curBlock q + B) * 64) \<and>
     (\<forall>c. pq_curBlock q * 64 \<le> c \<longrightarrow> c < (pq_curBlock q + B) * 64 \<longrightarrow>
        pb_array (pq_blocks q ! (c div 64 mod B)) ! (c mod 64) = F c)"

definition boundary :: "nat \<Rightarrow> nat \<Rightarrow> nat" where
  "boundary B cur = cur - cur mod (B div 2)"

definition pq_rep :: "nat \<Rightarrow> 'a pqueue \<Rightarrow> (nat \<times> 'a) multiset \<Rightarrow> bool" where
  "pq_rep B q Q \<longleftrightarrow> pq_elems q = size Q \<and> sorted (map fst (pq_feMap q)) \<and>
     (\<forall>p\<in>set (pq_feMap q). (boundary B (pq_curBlock q) + B) * 64 \<le> fst p) \<and>
     (\<exists>F. blocks_inv B q F \<and> (\<forall>c. at_cycle c Q = mset (F c) + at_cycle c (mset (pq_feMap q))))"

lemma mod_window_inj:
  assumes "(a :: nat) mod B = b mod B" and "k \<le> a" "a < k + B" and "k \<le> b" "b < k + B"
  shows "a = b"
proof -
  have one: "x = y" if "x mod B = y mod B" "y \<le> x" "x < y + B" for x y
  proof -
    have "B dvd x - y" using that mod_eq_dvd_iff_nat by metis
    then have "x - y = 0" using that(3) by (metis dvd_imp_le less_diff_conv2 linorder_not_less neq0_conv that(2) add.commute)
    then show ?thesis using that(2) by simp
  qed
  show ?thesis using one [of a b] one [of b a] assms by (cases "b \<le> a") auto
qed

lemma window_div: "k * 64 \<le> c \<Longrightarrow> c < (k + B) * 64 \<Longrightarrow> k \<le> c div 64 \<and> c div 64 < k + (B :: nat)"
  by (simp add: less_eq_div_iff_mult_less_eq div_less_iff_less_mult)

section \<open>The operations\<close>

lemma blocks_put:
  assumes inv: "blocks_inv B q F" and w: "pq_curBlock q * 64 \<le> c" "c < (pq_curBlock q + B) * 64"
  shows "blocks_inv B (pq_put B obj c q) (F(c := obj # F c))"
proof -
  let ?i = "c div 64 mod B" and ?o = "c mod 64" and ?q = "pq_put B obj c q"
  have B: "2 \<le> B" "length (pq_blocks q) = B" and ok: "\<And>i. i < B \<Longrightarrow> pb_ok (pq_blocks q ! i)"
    using inv by (auto simp: blocks_inv_def)
  then have i: "?i < B" by simp
  have arr: "pb_array (pq_blocks q ! (d div 64 mod B)) ! (d mod 64) = F d"
    if "pq_curBlock q * 64 \<le> d" "d < (pq_curBlock q + B) * 64" for d
    using inv that unfolding blocks_inv_def by blast
  have len: "length (pb_array (pq_blocks q ! ?i)) = 64" using ok [OF i] by (simp add: pb_ok_def)
  have "pb_array (pq_blocks ?q ! (d div 64 mod B)) ! (d mod 64) = (F(c := obj # F c)) d"
    if d: "pq_curBlock q * 64 \<le> d" "d < (pq_curBlock q + B) * 64" for d
  proof (cases "d = c")
    case True
    then show ?thesis using arr [OF w] i B len by (simp add: pq_put_def Let_def pb_enqueue_def)
  next
    case False
    have "d div 64 mod B \<noteq> ?i \<or> d mod 64 \<noteq> ?o"
      using mod_window_inj [of "d div 64" B "c div 64" "pq_curBlock q"] window_div [OF w] window_div [OF d] False
      by (metis div_mod_decomp)
    then show ?thesis using arr [OF d] False i B len
      by (cases "d div 64 mod B = ?i") (auto simp: pq_put_def Let_def pb_enqueue_def)
  qed
  moreover have "pb_ok (pq_blocks ?q ! j)" if "j < B" for j
    using ok [OF that] pb_ok_enqueue [OF ok [OF i], of ?o obj] i B that by (cases "j = ?i") (simp_all add: pq_put_def Let_def)
  moreover have "length (pq_blocks ?q) = B" "pq_curBlock ?q = pq_curBlock q" using B by (simp_all add: pq_put_def Let_def)
  moreover have "\<forall>d. (F(c := obj # F c)) d \<noteq> [] \<longrightarrow> pq_curBlock q * 64 \<le> d \<and> d < (pq_curBlock q + B) * 64"
    using inv w unfolding blocks_inv_def by simp
  ultimately show ?thesis using B(1) unfolding blocks_inv_def by simp
qed

lemma pq_put_frame [simp]: "pq_curBlock (pq_put B obj c q) = pq_curBlock q" "pq_elems (pq_put B obj c q) = pq_elems q"
  "pq_feMap (pq_put B obj c q) = pq_feMap q"
  by (simp_all add: pq_put_def Let_def)

lemma blocks_frame: "blocks_inv B (q\<lparr>pq_feMap := fe\<rparr>) F = blocks_inv B q F" "blocks_inv B (q\<lparr>pq_elems := e\<rparr>) F = blocks_inv B q F"
  by (simp_all add: blocks_inv_def)

lemma fe_insert_mset: "mset (fe_insert x ys) = add_mset x (mset ys)"
  by (induction ys) auto

lemma fe_insert_sorted: "sorted (map fst ys) \<Longrightarrow> sorted (map fst (fe_insert x ys))"
proof (induction ys)
  case (Cons y ys)
  have "set (fe_insert x ys) = insert x (set ys)" using fe_insert_mset [of x ys] by (metis set_mset_add_mset_insert set_mset_mset)
  with Cons show ?case by auto
qed simp

lemma pq_enqueue_rep:
  assumes rep: "pq_rep B q Q" and c: "pq_curBlock q \<le> c div 64"
  shows "\<exists>q'. pq_enqueue B obj c q = Some q' \<and> pq_rep B q' (add_mset (c, obj) Q) \<and> pq_curBlock q' = pq_curBlock q"
proof -
  obtain F where F: "blocks_inv B q F" "\<And>d. at_cycle d Q = mset (F d) + at_cycle d (mset (pq_feMap q))"
    using rep by (auto simp: pq_rep_def)
  have lo: "pq_curBlock q * 64 \<le> c" using c by (simp add: less_eq_div_iff_mult_less_eq)
  show ?thesis
  proof (cases "c div 64 < pq_curBlock q + B")
    case True
    then have "c < (pq_curBlock q + B) * 64" by (simp add: div_less_iff_less_mult)
    from blocks_put [OF F(1) lo this, of obj] have "blocks_inv B (pq_put B obj c q) (F(c := obj # F c))" .
    then show ?thesis using rep True c F(2)
      by (auto simp: pq_enqueue_def Let_def pq_rep_def blocks_frame intro!: exI [of _ "F(c := obj # F c)"])
  next
    case False
    have "boundary B (pq_curBlock q) \<le> pq_curBlock q" by (simp add: boundary_def)
    then have "boundary B (pq_curBlock q) + B \<le> c div 64" using False by simp
    then have "(boundary B (pq_curBlock q) + B) * 64 \<le> c" by (simp only: less_eq_div_iff_mult_less_eq)
    moreover have "set (fe_insert (c, obj) (pq_feMap q)) = insert (c, obj) (set (pq_feMap q))"
      using fe_insert_mset by (metis set_mset_add_mset_insert set_mset_mset)
    ultimately show ?thesis using rep False c F
      by (auto simp: pq_enqueue_def Let_def pq_rep_def blocks_frame fe_insert_mset fe_insert_sorted intro!: exI [of _ F])
  qed
qed

lemma pq_move_ok:
  assumes "blocks_inv B q F" and "sorted (map fst es)" and "\<forall>p\<in>set es. pq_curBlock q * 64 \<le> fst p"
  shows "\<exists>q' F'. pq_move B ((pq_curBlock q + B) * 64) es q = Some q' \<and> blocks_inv B q' F' \<and>
    pq_curBlock q' = pq_curBlock q \<and> pq_elems q' = pq_elems q \<and>
    sorted (map fst (pq_feMap q')) \<and> (\<forall>p\<in>set (pq_feMap q'). (pq_curBlock q + B) * 64 \<le> fst p) \<and>
    (\<forall>c. mset (F' c) + at_cycle c (mset (pq_feMap q')) = mset (F c) + at_cycle c (mset es))"
  using assms
proof (induction es arbitrary: q F)
  case Nil
  then show ?case by (intro exI [of _ "q\<lparr>pq_feMap := []\<rparr>"] exI [of _ F]) (simp add: blocks_frame)
next
  case (Cons e es)
  obtain c obj where e: "e = (c, obj)" by (cases e)
  show ?case
  proof (cases "c < (pq_curBlock q + B) * 64")
    case True
    have lo: "pq_curBlock q * 64 \<le> c" using Cons.prems(3) e by simp
    note w = window_div [OF lo True]
    from Cons.IH [OF blocks_put [OF Cons.prems(1) lo True, of obj]] Cons.prems(2,3) e obtain q' F' where
      r: "pq_move B ((pq_curBlock q + B) * 64) es (pq_put B obj c q) = Some q'" "blocks_inv B q' F'"
      "pq_curBlock q' = pq_curBlock q" "pq_elems q' = pq_elems q" "sorted (map fst (pq_feMap q'))"
      "\<forall>p\<in>set (pq_feMap q'). (pq_curBlock q + B) * 64 \<le> fst p"
      "\<forall>d. mset (F' d) + at_cycle d (mset (pq_feMap q')) = mset ((F(c := obj # F c)) d) + at_cycle d (mset es)"
      by auto
    show ?thesis using r w True e by (intro exI [of _ q'] exI [of _ F']) auto
  next
    case False
    with Cons.prems e show ?thesis
      by (intro exI [of _ "q\<lparr>pq_feMap := e # es\<rparr>"] exI [of _ F]) (auto simp: blocks_frame)
  qed
qed

lemma boundary_step: "2 \<le> B \<Longrightarrow> boundary B (Suc k) = (if Suc k mod (B div 2) = 0 then Suc k else boundary B k)"
  by (auto simp: boundary_def mod_Suc split: if_splits)

lemma boundary_next: "2 \<le> B \<Longrightarrow> k < boundary B k + B div 2 \<and> boundary B k \<le> k"
proof -
  assume "2 \<le> B"
  then have "k mod (B div 2) < B div 2" "k mod (B div 2) \<le> k" by simp_all
  then show ?thesis unfolding boundary_def by linarith
qed

text \<open>One step of the loop of \<open>dequeue\<close>: nothing is in the block left behind.\<close>

lemma blocks_empty:
  assumes "blocks_inv B q F" and "pb_occ (pq_blocks q ! (pq_curBlock q mod B)) = 0" and "c div 64 = pq_curBlock q"
  shows "F c = []"
proof -
  let ?b = "pq_blocks q ! (pq_curBlock q mod B)"
  have B: "2 \<le> B" and "pb_ok ?b" using assms(1) by (auto simp: blocks_inv_def)
  then have "\<forall>pos<64. pb_array ?b ! pos = []" using pb_occ_empty assms(2) by blast
  then have "pb_array ?b ! (c mod 64) = []" by simp
  moreover have "pq_curBlock q * 64 \<le> c" using assms(3) by (metis div_times_less_eq_dividend)
  moreover have "c < (pq_curBlock q + B) * 64" using B by (subst div_less_iff_less_mult [symmetric]) (simp_all add: assms(3))
  ultimately show ?thesis using assms(1,3) unfolding blocks_inv_def by metis
qed

lemma pq_nextBlock_rep:
  assumes rep: "pq_rep B q Q" and occ: "pb_occ (pq_blocks q ! (pq_curBlock q mod B)) = 0"
  shows "\<exists>q'. pq_nextBlock B q = Some q' \<and> pq_rep B q' Q \<and> pq_curBlock q' = pq_curBlock q + 1"
proof -
  let ?k = "pq_curBlock q"
  obtain F where F: "blocks_inv B q F" "\<And>d. at_cycle d Q = mset (F d) + at_cycle d (mset (pq_feMap q))"
    using rep by (auto simp: pq_rep_def)
  have B: "2 \<le> B" using F(1) by (simp add: blocks_inv_def)
  let ?q1 = "q\<lparr>pq_curBlock := ?k + 1\<rparr>"
  have inv1: "blocks_inv B ?q1 F"
  proof -
    have nz: "\<And>c. F c \<noteq> [] \<Longrightarrow> ?k * 64 \<le> c \<and> c < (?k + B) * 64"
      and arr: "\<And>c. ?k * 64 \<le> c \<Longrightarrow> c < (?k + B) * 64 \<Longrightarrow> pb_array (pq_blocks q ! (c div 64 mod B)) ! (c mod 64) = F c"
      using F(1) unfolding blocks_inv_def by blast+
    have lo: "(?k + 1) * 64 \<le> c" if "F c \<noteq> []" for c
    proof -
      have "?k \<le> c div 64" using nz [OF that] by (simp add: less_eq_div_iff_mult_less_eq)
      moreover have "c div 64 \<noteq> ?k" using blocks_empty [OF F(1) occ] that by blast
      ultimately show ?thesis by (simp add: less_eq_div_iff_mult_less_eq [symmetric])
    qed
    have "pb_array (pq_blocks q ! (c div 64 mod B)) ! (c mod 64) = F c"
      if "(?k + 1) * 64 \<le> c" "c < (?k + 1 + B) * 64" for c
    proof (cases "c < (?k + B) * 64")
      case True
      then show ?thesis using arr that by simp
    next
      case False
      then have div: "c div 64 = ?k + B"
        using that(2) by (intro div_nat_eqI) simp_all
      then have "F c = []" using nz [of c] False by blast
      moreover have "pb_array (pq_blocks q ! (?k mod B)) ! (c mod 64) = []"
        using pb_occ_empty [of "pq_blocks q ! (?k mod B)"] F(1) occ B by (auto simp: blocks_inv_def)
      ultimately show ?thesis by (simp add: div)
    qed
    moreover have "c < (?k + 1 + B) * 64" if "F c \<noteq> []" for c using nz [OF that] by simp
    ultimately show ?thesis using F(1) lo unfolding blocks_inv_def by simp
  qed
  have fe: "sorted (map fst (pq_feMap q))" "\<forall>p\<in>set (pq_feMap q). (boundary B ?k + B) * 64 \<le> fst p"
    using rep by (auto simp: pq_rep_def)
  show ?thesis
  proof (cases "(?k + 1) mod (B div 2) = 0 \<and> pq_feMap q \<noteq> []")
    case True
    have "?k + 1 \<le> boundary B ?k + B" using boundary_next [OF B, of ?k] by linarith
    then have "\<forall>p\<in>set (pq_feMap q). pq_curBlock ?q1 * 64 \<le> fst p"
      using fe(2) by (metis (no_types, lifting) le_trans mult_le_mono1 pqueue.select_convs(3) pqueue.surjective pqueue.update_convs(3))
    from pq_move_ok [OF inv1 fe(1) this] obtain q' F' where
      r: "pq_move B ((pq_curBlock ?q1 + B) * 64) (pq_feMap q) ?q1 = Some q'" "blocks_inv B q' F'"
      "pq_curBlock q' = ?k + 1" "pq_elems q' = pq_elems q" "sorted (map fst (pq_feMap q'))"
      "\<forall>p\<in>set (pq_feMap q'). (?k + 1 + B) * 64 \<le> fst p"
      "\<forall>c. mset (F' c) + at_cycle c (mset (pq_feMap q')) = mset (F c) + at_cycle c (mset (pq_feMap q))"
      by auto
    have "boundary B (?k + 1) = ?k + 1" using boundary_step [OF B, of ?k] True by simp
    then have "pq_rep B q' Q" using r F(2) rep by (auto simp: pq_rep_def)
    with r True show ?thesis by (simp add: pq_nextBlock_def Let_def)
  next
    case False
    then have "\<forall>p\<in>set (pq_feMap q). (boundary B (?k + 1) + B) * 64 \<le> fst p"
      using fe(2) boundary_step [OF B, of ?k] by auto
    then have "pq_rep B ?q1 Q" using rep inv1 F(2) by (auto simp: pq_rep_def)
    with False show ?thesis by (auto simp: pq_nextBlock_def Let_def)
  qed
qed

lemma fe_lower: "pq_rep B q Q \<Longrightarrow> p \<in> set (pq_feMap q) \<Longrightarrow> (pq_curBlock q + 1) * 64 \<le> fst p"
proof -
  assume rep: "pq_rep B q Q" and p: "p \<in> set (pq_feMap q)"
  then have "2 \<le> B" "(boundary B (pq_curBlock q) + B) * 64 \<le> fst p" by (auto simp: pq_rep_def blocks_inv_def)
  moreover from this(1) have "pq_curBlock q + 1 \<le> boundary B (pq_curBlock q) + B"
    using boundary_next [of B "pq_curBlock q"] by linarith
  ultimately show ?thesis by (meson le_trans mult_le_mono1)
qed

lemma pq_rep_lower:
  assumes "pq_rep B q Q" and "(c, x) \<in># Q"
  shows "pq_curBlock q * 64 \<le> c"
proof -
  obtain F where F: "blocks_inv B q F" "at_cycle c Q = mset (F c) + at_cycle c (mset (pq_feMap q))"
    using assms(1) by (auto simp: pq_rep_def)
  have "x \<in># mset (F c) + at_cycle c (mset (pq_feMap q))" using F(2) assms(2) at_cycle_in by metis
  then consider "F c \<noteq> []" | "(c, x) \<in> set (pq_feMap q)" by (cases "F c = []") (auto simp: at_cycle_in)
  then show ?thesis
  proof cases
    case 1
    then show ?thesis using F(1) by (simp add: blocks_inv_def)
  next
    case 2
    from fe_lower [OF assms(1) this] show ?thesis by simp
  qed
qed

lemma pq_advance_ok:
  "pq_rep B q Q \<Longrightarrow> (c, x) \<in># Q \<Longrightarrow>
    \<exists>q'. pq_advance B q = Some q' \<and> pq_rep B q' Q \<and> pb_occ (pq_blocks q' ! (pq_curBlock q' mod B)) \<noteq> 0"
proof (induction "c div 64 - pq_curBlock q" arbitrary: q rule: less_induct)
  case less
  show ?case
  proof (cases "pb_occ (pq_blocks q ! (pq_curBlock q mod B)) = 0")
    case True
    from pq_nextBlock_rep [OF less.prems(1) True] obtain q1 where
      q1: "pq_nextBlock B q = Some q1" "pq_rep B q1 Q" "pq_curBlock q1 = pq_curBlock q + 1" by blast
    have "pq_curBlock q1 \<le> c div 64"
      using pq_rep_lower [OF q1(2) less.prems(2)] by (simp only: less_eq_div_iff_mult_less_eq)
    then have "c div 64 - pq_curBlock q1 < c div 64 - pq_curBlock q" using q1(3) by simp
    from less.hyps [OF this q1(2) less.prems(2)] True q1(1) show ?thesis by (subst pq_advance.simps) simp
  next
    case False
    with less.prems(1) show ?thesis by (subst pq_advance.simps) simp
  qed
qed

lemma pq_take_ok:
  assumes rep: "pq_rep B q Q" and occ: "pb_occ (pq_blocks q ! (pq_curBlock q mod B)) \<noteq> 0"
  shows "\<exists>obj c b. pb_dequeue (pq_blocks q ! (pq_curBlock q mod B)) = Some (obj, c mod 64, b) \<and>
    c = pq_curBlock q * 64 + c mod 64 \<and> c mod 64 = ctz64 (pb_occ (pq_blocks q ! (pq_curBlock q mod B))) \<and>
    (c, obj) \<in># Q \<and> (\<forall>p\<in>#Q. c \<le> fst p) \<and>
    pq_rep B (q\<lparr>pq_blocks := (pq_blocks q)[pq_curBlock q mod B := b], pq_elems := pq_elems q - 1\<rparr>) (Q - {#(c, obj)#})"
proof -
  let ?k = "pq_curBlock q" and ?i = "pq_curBlock q mod B"
  obtain F where F: "blocks_inv B q F" "\<And>d. at_cycle d Q = mset (F d) + at_cycle d (mset (pq_feMap q))"
    using rep by (auto simp: pq_rep_def)
  have B: "2 \<le> B" "length (pq_blocks q) = B" and ok: "pb_ok (pq_blocks q ! ?i)" using F(1) by (auto simp: blocks_inv_def)
  have arr: "pb_array (pq_blocks q ! (d div 64 mod B)) ! (d mod 64) = F d"
    if "?k * 64 \<le> d" "d < (?k + B) * 64" for d using F(1) that unfolding blocks_inv_def by blast
  obtain obj pos chain b where d: "pb_dequeue (pq_blocks q ! ?i) = Some (obj, pos, b)"
    "pos = ctz64 (pb_occ (pq_blocks q ! ?i))" "pos < 64"
    "pb_array (pq_blocks q ! ?i) ! pos = obj # chain" "\<forall>j<pos. pb_array (pq_blocks q ! ?i) ! j = []" "pb_ok b"
    "pb_array b = (pb_array (pq_blocks q ! ?i))[pos := chain]"
    using pb_dequeue_ok [OF ok occ] by blast
  let ?c = "?k * 64 + pos"
  have c: "?c div 64 = ?k" "?c mod 64 = pos" using d(3) by simp_all
  have win: "?k * 64 \<le> ?k * 64 + j \<and> ?k * 64 + j < (?k + B) * 64" if "j < 64" for j using that B(1) by simp
  have Fc: "F ?c = obj # chain" using arr [of ?c] win [OF d(3)] c d(4) by simp
  then have "obj \<in># at_cycle ?c Q" using F(2) [of ?c] by simp
  then have mem: "(?c, obj) \<in># Q" by (simp only: at_cycle_in)
  have least: "?c \<le> fst p" if "p \<in># Q" for p
  proof (rule ccontr)
    assume "\<not> ?c \<le> fst p"
    moreover have lo: "?k * 64 \<le> fst p" using pq_rep_lower [OF rep, of "fst p" "snd p"] that by simp
    ultimately obtain j where j: "fst p = ?k * 64 + j" "j < pos" by (metis add_less_cancel_left le_Suc_ex linorder_not_less)
    then have div: "fst p div 64 = ?k" "fst p mod 64 = j" using d(3) by simp_all
    have "F (fst p) = []" using arr [of "fst p"] win [of j] d(3,5) j div by simp
    moreover have "snd p \<in># at_cycle (fst p) Q" using that by (simp add: at_cycle_in)
    ultimately have "p \<in> set (pq_feMap q)" using F(2) [of "fst p"] by (simp add: at_cycle_in)
    from fe_lower [OF rep this] j d(3) show False by simp
  qed
  let ?q = "q\<lparr>pq_blocks := (pq_blocks q)[?i := b], pq_elems := pq_elems q - 1\<rparr>"
  have "pb_array (pq_blocks ?q ! (e div 64 mod B)) ! (e mod 64) = (F(?c := chain)) e"
    if e: "?k * 64 \<le> e" "e < (?k + B) * 64" for e
  proof (cases "e = ?c")
    case True
    then show ?thesis using c d B ok by (simp add: pb_ok_def)
  next
    case False
    have "e div 64 mod B \<noteq> ?i \<or> e mod 64 \<noteq> pos"
      using mod_window_inj [of "e div 64" B ?k ?k] window_div [OF e] False B(1) by (metis add_0 div_mod_decomp le_add1 le_refl less_add_same_cancel1 c mod_by_0 not_less_eq_eq numeral_2_eq_2 zero_less_iff_neq_zero)
    then show ?thesis using arr [OF e] False B d(7) by (cases "e div 64 mod B = ?i") auto
  qed
  then have "blocks_inv B ?q (F(?c := chain))"
    using F(1) d(6) B win [OF d(3)] by (auto simp: blocks_inv_def nth_list_update Fc)
  moreover have "at_cycle e (Q - {#(?c, obj)#}) = mset ((F(?c := chain)) e) + at_cycle e (mset (pq_feMap q))" for e
    using at_cycle_remove [OF mem, of e] F(2) Fc by simp
  ultimately have "pq_rep B ?q (Q - {#(?c, obj)#})"
    using rep mem by (auto simp: pq_rep_def size_Diff_singleton)
  then show ?thesis using d(1,2) c mem least
    by (intro exI [of _ obj] exI [of _ ?c] exI [of _ b]) auto
qed

lemma pq_dequeue_rep:
  assumes rep: "pq_rep B q Q" and ne: "Q \<noteq> {#}"
  shows "\<exists>obj c q'. pq_dequeue B q = Some (obj, c, q') \<and> (c, obj) \<in># Q \<and> (\<forall>p\<in>#Q. c \<le> fst p) \<and>
    pq_rep B q' (Q - {#(c, obj)#}) \<and> pq_curBlock q' = c div 64"
proof -
  obtain c0 x0 where "(c0, x0) \<in># Q" using ne by (metis multiset_nonemptyE surj_pair)
  from pq_advance_ok [OF rep this] obtain q1 where
    q1: "pq_advance B q = Some q1" "pq_rep B q1 Q" "pb_occ (pq_blocks q1 ! (pq_curBlock q1 mod B)) \<noteq> 0" by blast
  from pq_take_ok [OF q1(2,3)] obtain obj c b where
    t: "pb_dequeue (pq_blocks q1 ! (pq_curBlock q1 mod B)) = Some (obj, c mod 64, b)"
    "c = pq_curBlock q1 * 64 + c mod 64" "(c, obj) \<in># Q" "\<forall>p\<in>#Q. c \<le> fst p"
    "pq_rep B (q1\<lparr>pq_blocks := (pq_blocks q1)[pq_curBlock q1 mod B := b], pq_elems := pq_elems q1 - 1\<rparr>) (Q - {#(c, obj)#})"
    by blast
  have "pq_elems q \<noteq> 0" using rep ne by (simp add: pq_rep_def)
  moreover have "c div 64 = pq_curBlock q1" using t(2) by linarith
  ultimately show ?thesis using q1(1) t by (auto simp: pq_dequeue_def Let_def)
qed

lemma scan_least:
  assumes inv: "blocks_inv B q F" and i: "i < B" and occ: "pb_occ (pq_blocks q ! ((pq_curBlock q + i) mod B)) \<noteq> 0"
    and empty: "\<forall>j<i. pb_occ (pq_blocks q ! ((pq_curBlock q + j) mod B)) = 0"
  shows "F ((pq_curBlock q + i) * 64 + ctz64 (pb_occ (pq_blocks q ! ((pq_curBlock q + i) mod B)))) \<noteq> [] \<and>
    (\<forall>d. F d \<noteq> [] \<longrightarrow> (pq_curBlock q + i) * 64 + ctz64 (pb_occ (pq_blocks q ! ((pq_curBlock q + i) mod B))) \<le> d)"
proof -
  let ?k = "pq_curBlock q" and ?z = "ctz64 (pb_occ (pq_blocks q ! ((pq_curBlock q + i) mod B)))"
  have B: "2 \<le> B" and ok: "\<And>j. j < B \<Longrightarrow> pb_ok (pq_blocks q ! j)" using inv by (auto simp: blocks_inv_def)
  have arr: "pb_array (pq_blocks q ! (d div 64 mod B)) ! (d mod 64) = F d"
    if "?k * 64 \<le> d" "d < (?k + B) * 64" for d using inv that unfolding blocks_inv_def by blast
  have z: "?z < 64" "bit (pb_occ (pq_blocks q ! ((?k + i) mod B))) ?z"
    "\<forall>j<?z. \<not> bit (pb_occ (pq_blocks q ! ((?k + i) mod B))) j" using ctz64_least [OF occ] by blast+
  have b: "pb_ok (pq_blocks q ! ((?k + i) mod B))" using ok B by simp
  let ?c = "(?k + i) * 64 + ?z"
  have c: "?c div 64 = ?k + i" "?c mod 64 = ?z"
    using z(1) by (simp_all only: mod_mult_self3 mod_less div_mult_self3 div_less)
  have "?k * 64 \<le> ?c" "?c < (?k + B) * 64" using i z(1) by auto
  from arr [OF this] c have "F ?c \<noteq> []" using b z(1,2) by (auto simp: pb_ok_def)
  moreover have "?c \<le> d" if d: "F d \<noteq> []" for d
  proof (rule ccontr)
    assume less: "\<not> ?c \<le> d"
    have w: "?k * 64 \<le> d" "d < (?k + B) * 64" using inv d unfolding blocks_inv_def by blast+
    have "?k \<le> d div 64" using w(1) by (simp add: less_eq_div_iff_mult_less_eq)
    then obtain j where j: "d div 64 = ?k + j" using le_Suc_ex by blast
    have "d div 64 \<le> ?c div 64" using less by (intro div_le_mono) simp
    then consider "j < i" | "j = i" using j c(1) by fastforce
    then show False
    proof cases
      case 1
      then have "pb_array (pq_blocks q ! ((?k + j) mod B)) ! (d mod 64) = []"
        using empty pb_occ_empty [OF ok, of "(?k + j) mod B"] B by simp
      then show False using arr [OF w] j d by simp
    next
      case 2
      then have "d mod 64 < ?z" using less j div_mult_mod_eq [of d 64] by simp
      then have "pb_array (pq_blocks q ! ((?k + i) mod B)) ! (d mod 64) = []" using z(1,3) b by (auto simp: pb_ok_def)
      then show False using arr [OF w] j 2 d by simp
    qed
  qed
  ultimately show ?thesis by blast
qed

lemma pq_scan_Some:
  assumes "blocks_inv B q F" and "pq_scan B q [a..<b] = Some c" and "b \<le> B"
    and "\<forall>j<a. pb_occ (pq_blocks q ! ((pq_curBlock q + j) mod B)) = 0"
  shows "F c \<noteq> [] \<and> (\<forall>d. F d \<noteq> [] \<longrightarrow> c \<le> d) \<and> c < (pq_curBlock q + b) * 64"
proof -
  obtain i where i: "List.find (\<lambda>i. pb_occ (pq_blocks q ! ((pq_curBlock q + i) mod B)) \<noteq> 0) [a..<b] = Some i"
    "c = (pq_curBlock q + i) * 64 + ctz64 (pb_occ (pq_blocks q ! ((pq_curBlock q + i) mod B)))"
    using assms(2) by (auto simp: pq_scan_def)
  note f = find_upt_from [OF i(1)]
  have "\<forall>j<i. pb_occ (pq_blocks q ! ((pq_curBlock q + j) mod B)) = 0"
    using f assms(4) by (metis linorder_not_less)
  moreover have "c < (pq_curBlock q + b) * 64"
    using ctz64_least [of "pb_occ (pq_blocks q ! ((pq_curBlock q + i) mod B))"] f i(2) by auto
  ultimately show ?thesis using scan_least [OF assms(1), of i] f assms(3) unfolding i(2) by simp
qed

lemma pq_scan_None:
  assumes "pq_scan B q [a..<b] = None" and "\<forall>j<a. pb_occ (pq_blocks q ! ((pq_curBlock q + j) mod B)) = 0"
  shows "\<forall>j<b. pb_occ (pq_blocks q ! ((pq_curBlock q + j) mod B)) = 0"
  using assms by (auto simp: pq_scan_def find_None_iff_all not_less)

lemma blocks_all_empty:
  assumes inv: "blocks_inv B q F" and "\<forall>j<B. pb_occ (pq_blocks q ! ((pq_curBlock q + j) mod B)) = 0"
  shows "F c = []"
proof (rule ccontr)
  assume ne: "F c \<noteq> []"
  have w: "pq_curBlock q * 64 \<le> c" "c < (pq_curBlock q + B) * 64" using inv ne unfolding blocks_inv_def by blast+
  note d = window_div [OF w]
  then obtain j where j: "c div 64 = pq_curBlock q + j" "j < B" using le_Suc_ex by fastforce
  then have "pb_occ (pq_blocks q ! (c div 64 mod B)) = 0" using assms(2) by simp
  moreover have "pb_ok (pq_blocks q ! (c div 64 mod B))" using inv by (simp add: blocks_inv_def)
  ultimately have "pb_array (pq_blocks q ! (c div 64 mod B)) ! (c mod 64) = []" by (simp add: pb_occ_empty)
  then show False using inv w ne unfolding blocks_inv_def by metis
qed

lemma pq_firstCycle_least:
  assumes rep: "pq_rep B q Q" and ne: "Q \<noteq> {#}"
  shows "\<exists>c. pq_firstCycle B q = Some c \<and> (\<exists>x. (c, x) \<in># Q) \<and> (\<forall>p\<in>#Q. c \<le> fst p)"
proof -
  obtain F where F: "blocks_inv B q F" "\<And>d. at_cycle d Q = mset (F d) + at_cycle d (mset (pq_feMap q))"
    using rep by (auto simp: pq_rep_def)
  let ?fe = "pq_feMap q"
  have B: "2 \<le> B" using F(1) by (simp add: blocks_inv_def)
  have elems: "pq_elems q \<noteq> 0" using rep ne by (simp add: pq_rep_def)
  have mem: "(c, x) \<in># Q \<longleftrightarrow> x \<in> set (F c) \<or> (c, x) \<in> set ?fe" for c x
    using F(2) [of c] at_cycle_in [of x c Q] at_cycle_in [of x c "mset ?fe"] by simp
  have inF: "\<exists>x. (c, x) \<in># Q" if "F c \<noteq> []" for c using mem that by (metis list.set_intros(1) neq_Nil_conv)
  have hd: "?fe \<noteq> [] \<Longrightarrow> (\<forall>p\<in>set ?fe. fst (hd ?fe) \<le> fst p) \<and> (\<exists>x. (fst (hd ?fe), x) \<in># Q)"
    using rep mem by (cases ?fe) (auto simp: pq_rep_def)
  show ?thesis
  proof (cases "pq_scan B q [0..<B div 2]")
    case (Some c)
    from pq_scan_Some [OF F(1) Some] have c: "F c \<noteq> []" "\<forall>d. F d \<noteq> [] \<longrightarrow> c \<le> d" "c < (pq_curBlock q + B div 2) * 64" by simp_all
    have "c \<le> fst p" if "p \<in> set ?fe" for p
    proof -
      have "(boundary B (pq_curBlock q) + B) * 64 \<le> fst p" using rep that by (auto simp: pq_rep_def)
      moreover have "pq_curBlock q + B div 2 \<le> boundary B (pq_curBlock q) + B"
        using boundary_next [OF B, of "pq_curBlock q"] by linarith
      ultimately have "(pq_curBlock q + B div 2) * 64 \<le> fst p" by (meson le_trans mult_le_mono1)
      then show ?thesis using c(3) by simp
    qed
    then have "\<forall>p\<in>#Q. c \<le> fst p" using mem c(2) by (metis empty_iff empty_set prod.collapse)
    with inF [OF c(1)] Some elems show ?thesis by (simp add: pq_firstCycle_def)
  next
    case None
    then have e1: "\<forall>j<B div 2. pb_occ (pq_blocks q ! ((pq_curBlock q + j) mod B)) = 0" by (rule pq_scan_None) simp
    show ?thesis
    proof (cases "pq_scan B q [B div 2..<B]")
      case (Some c)
      from pq_scan_Some [OF F(1) Some _ e1] have c: "F c \<noteq> []" "\<forall>d. F d \<noteq> [] \<longrightarrow> c \<le> d" by simp_all
      show ?thesis
      proof (cases "?fe = []")
        case True
        then have "\<forall>p\<in>#Q. c \<le> fst p" using mem c(2) by (metis empty_iff empty_set prod.collapse)
        with inF [OF c(1)] None Some elems True show ?thesis by (simp add: pq_firstCycle_def)
      next
        case False
        have "\<forall>p\<in>#Q. min c (fst (hd ?fe)) \<le> fst p"
          using mem c(2) hd [OF False] by (metis empty_iff empty_set min.coboundedI1 min.coboundedI2 prod.collapse)
        moreover have "\<exists>x. (min c (fst (hd ?fe)), x) \<in># Q"
          using inF [OF c(1)] hd [OF False] by (simp add: min_def)
        ultimately show ?thesis using None Some elems False by (simp add: pq_firstCycle_def)
      qed
    next
      case none: None
      then have "\<And>c. F c = []" using blocks_all_empty [OF F(1)] pq_scan_None [OF none e1] by blast
      then have m: "(c, x) \<in># Q \<longleftrightarrow> (c, x) \<in> set ?fe" for c x using mem by simp
      have "?fe \<noteq> []" using m ne by (metis empty_iff empty_set multiset_nonemptyE surj_pair)
      with hd m None none elems show ?thesis
        by (intro exI [of _ "fst (hd ?fe)"]) (auto simp: pq_firstCycle_def)
    qed
  qed
qed

section \<open>Properties\<close>

lemma pq_rep_new: "2 \<le> B \<Longrightarrow> pq_rep B (pq_new B) {#}"
  by (auto simp: pq_rep_def pq_new_def blocks_inv_def pb_ok_new intro!: exI [of _ "\<lambda>_. []"]) (simp add: pb_new_def)

text \<open>C28. The priority queue is a multiset of timed objects. \<open>dequeue\<close> ends (its loop always reaches
  a populated block), returns an object of the least cycle and removes just that one;
  \<open>firstCycle\<close> announces the same cycle; and any object not earlier than it can then be enqueued,
  the far-element map included. Equal cycles come out in no particular order.\<close>

theorem prio_queue_least:
  assumes "pq_rep B q Q" and "Q \<noteq> {#}"
  shows "\<exists>obj c q'. pq_firstCycle B q = Some c \<and> pq_dequeue B q = Some (obj, c, q') \<and>
    (c, obj) \<in># Q \<and> (\<forall>p\<in>#Q. c \<le> fst p) \<and> pq_rep B q' (Q - {#(c, obj)#}) \<and>
    (\<forall>d x. c \<le> d \<longrightarrow> (\<exists>q''. pq_enqueue B x d q' = Some q'' \<and> pq_rep B q'' (add_mset (d, x) (Q - {#(c, obj)#}))))"
proof -
  obtain obj c q' where d: "pq_dequeue B q = Some (obj, c, q')" "(c, obj) \<in># Q" "\<forall>p\<in>#Q. c \<le> fst p"
    "pq_rep B q' (Q - {#(c, obj)#})" "pq_curBlock q' = c div 64" using pq_dequeue_rep [OF assms] by blast
  obtain c1 x1 where f: "pq_firstCycle B q = Some c1" "(c1, x1) \<in># Q" "\<forall>p\<in>#Q. c1 \<le> fst p"
    using pq_firstCycle_least [OF assms] by blast
  have "c1 = c" using d(2,3) f(2,3) by (metis fst_conv order_antisym)
  moreover have "\<exists>q''. pq_enqueue B x e q' = Some q'' \<and> pq_rep B q'' (add_mset (e, x) (Q - {#(c, obj)#}))"
    if "c \<le> e" for e x using pq_enqueue_rep [OF d(4), of e x] d(5) div_le_mono [OF that, of 64] by auto
  ultimately show ?thesis using d f(1) by blast
qed

theorem prio_queue_least_witness:
  "\<exists>q q' q'' obj. pq_enqueue 2 ''far'' 1000 (pq_new 2) = Some q \<and> pq_enqueue 2 ''near'' 70 q = Some q' \<and>
    pq_dequeue 2 q' = Some (obj, 70, q'') \<and> obj = ''near''"
proof -
  have "pq_rep 2 (pq_new 2) ({#} :: (nat \<times> string) multiset)" by (simp add: pq_rep_new)
  from pq_enqueue_rep [OF this, of 1000 "''far''"] obtain q where
    q: "pq_enqueue 2 ''far'' 1000 (pq_new 2) = Some q" "pq_rep 2 q {#(1000, ''far'')#}" "pq_curBlock q = 0"
    by (auto simp: pq_new_def)
  from pq_enqueue_rep [OF q(2), of 70 "''near''"] q(3) obtain q' where
    q': "pq_enqueue 2 ''near'' 70 q = Some q'" "pq_rep 2 q' {#(70, ''near''), (1000, ''far'')#}" by auto
  from prio_queue_least [OF q'(2)] obtain obj c q'' where
    d: "pq_dequeue 2 q' = Some (obj, c, q'')" "(c, obj) \<in># {#(70, ''near''), (1000, ''far'')#}" "c \<le> 70" by auto
  with q(1) q'(1) show ?thesis by auto
qed

end
