(* ===== verification/Event_Queue.thy ===== *)
theory Event_Queue
  imports Prio_Queue
begin

text \<open>
  The phase event queue of \<^verbatim>\<open>zsim/src/event_queue.h\<close> and its adaptive events. The multimap is
  the sorted list of \<open>Prio_Queue\<close>. An event is a value \<open>'e\<close> with a period; its \<open>callback\<close>, code of
  other components, is a parameter that updates the event and a state \<open>'w\<close> of the world, and cannot
  reach the queue (\<open>tick\<close> holds its lock). The lock is left out: calls run one at a time.
\<close>

section \<open>The queue\<close>

type_synonym 'e evmap = "(nat \<times> 'e) list"

text \<open>A queue inserted at \<open>curPhase\<close>; \<open>None\<close> for the default \<open>startDelay\<close> of -1.\<close>

definition eq_insert :: "('e \<Rightarrow> nat) \<Rightarrow> nat \<Rightarrow> 'e \<Rightarrow> nat option \<Rightarrow> 'e evmap \<Rightarrow> 'e evmap" where
  "eq_insert period curPhase ev startDelay evMap =
     fe_insert (curPhase + (case startDelay of None \<Rightarrow> period ev | Some d \<Rightarrow> d), ev) evMap"

partial_function (option) eq_tick ::
    "('e \<Rightarrow> nat) \<Rightarrow> ('e \<Rightarrow> 'w \<Rightarrow> 'e \<times> 'w) \<Rightarrow> nat \<Rightarrow> 'e evmap \<Rightarrow> 'w \<Rightarrow> ('e evmap \<times> 'w) option" where
  "eq_tick period callback curPhase evMap w =
     (case evMap of
        [] \<Rightarrow> Some (evMap, w)
      | (first, ev) # rest \<Rightarrow>
          (if first \<le> curPhase then
             (if first \<noteq> curPhase then None
              else let (ev1, w1) = callback ev w in
                eq_tick period callback curPhase
                  (if period ev1 \<noteq> 0 then fe_insert (curPhase + period ev1, ev1) rest else rest) w1)
           else Some (evMap, w)))"

declare eq_tick.simps [simp del]

text \<open>What a tick should do: the callbacks of the due events, in order, and each periodic one back in
  the queue at its next phase.\<close>

fun eq_fire :: "('e \<Rightarrow> 'w \<Rightarrow> 'e \<times> 'w) \<Rightarrow> 'e list \<Rightarrow> 'w \<Rightarrow> 'e list \<times> 'w" where
  "eq_fire callback [] w = ([], w)"
| "eq_fire callback (e # es) w =
     (let (e1, w1) = callback e w; (es1, w2) = eq_fire callback es w1 in (e1 # es1, w2))"

lemma fe_insert_due:
  assumes "\<forall>p\<in>set ys. fst p = ph" and "\<forall>p\<in>set zs. ph < fst p" and "ph < fst x"
  shows "fe_insert x (ys @ zs) = ys @ fe_insert x zs"
  using assms by (induction ys) auto

lemma eq_tick_fire:
  assumes "\<forall>p\<in>set ys. fst p = ph" and "\<forall>p\<in>set zs. ph < fst p"
  shows "eq_tick period callback ph (ys @ zs) w =
    (let (evs, w1) = eq_fire callback (map snd ys) w in
     Some (foldl (\<lambda>m e. fe_insert (ph + period e, e) m) zs (filter (\<lambda>e. period e \<noteq> 0) evs), w1))"
  using assms
proof (induction ys arbitrary: zs w)
  case Nil
  then show ?case by (subst eq_tick.simps) (auto split: list.split)
next
  case (Cons y ys)
  obtain ev where y: "y = (ph, ev)" using Cons.prems(1) by (cases y) auto
  obtain e1 w1 where c: "callback ev w = (e1, w1)" by (cases "callback ev w")
  let ?zs = "if period e1 \<noteq> 0 then fe_insert (ph + period e1, e1) zs else zs"
  have "set (fe_insert p zs) = insert p (set zs)" for p
    using fe_insert_mset by (metis set_mset_add_mset_insert set_mset_mset)
  then have "\<forall>p\<in>set ?zs. ph < fst p" using Cons.prems(2) by auto
  note IH = Cons.IH [OF _ this, of w1]
  have "(if period e1 \<noteq> 0 then fe_insert (ph + period e1, e1) (ys @ zs) else ys @ zs) = ys @ ?zs"
    using fe_insert_due [of ys ph zs "(ph + period e1, e1)"] Cons.prems by auto
  then have "eq_tick period callback ph ((y # ys) @ zs) w = eq_tick period callback ph (ys @ ?zs) w1"
    by (subst eq_tick.simps) (simp add: y c)
  also have "\<dots> = (let (evs, w2) = eq_fire callback (map snd (y # ys)) w in
     Some (foldl (\<lambda>m e. fe_insert (ph + period e, e) m) zs (filter (\<lambda>e. period e \<noteq> 0) evs), w2))"
    using IH Cons.prems(1) by (cases "eq_fire callback (map snd ys) w1") (simp add: y c)
  finally show ?case .
qed

lemma mset_foldl_insert:
  "mset (foldl (\<lambda>m e. fe_insert (f e) m) zs es) = mset zs + mset (map f es)"
  by (induction es arbitrary: zs) (auto simp: fe_insert_mset)

lemma sorted_foldl_insert: "sorted (map fst zs) \<Longrightarrow> sorted (map fst (foldl (\<lambda>m e. fe_insert (f e) m) zs es))"
  by (induction es arbitrary: zs) (auto simp: fe_insert_sorted)

lemma split_due:
  assumes "sorted (map fst evMap)" and "\<forall>p\<in>set evMap. ph \<le> fst p"
  shows "evMap = filter (\<lambda>p. fst p = ph) evMap @ filter (\<lambda>p. fst p \<noteq> ph) evMap"
  using assms
proof (induction evMap)
  case (Cons p ps)
  show ?case
  proof (cases "fst p = ph")
    case True
    with Cons show ?thesis by simp
  next
    case False
    have "ph < fst p" using Cons.prems(2) False by (simp add: order_less_le)
    moreover have "\<forall>q\<in>set ps. fst p \<le> fst q" using Cons.prems(1) by simp
    ultimately have "\<forall>q\<in>set ps. fst q \<noteq> ph" by (metis leD)
    then have "filter (\<lambda>p. fst p = ph) ps = []" "filter (\<lambda>p. fst p \<noteq> ph) ps = ps"
      by (simp_all add: filter_empty_conv filter_id_conv)
    with False show ?thesis by simp
  qed
qed simp

text \<open>A tick at phase \<open>ph\<close> of a queue with no overdue event ends without the panic, calls each
  event due at \<open>ph\<close> exactly once, in order, and leaves a queue with no event overdue at phase
  \<open>ph + 1\<close>: the later events, and those called whose period is not 0, at \<open>ph\<close> plus the period.\<close>

theorem event_queue_tick:
  assumes "sorted (map fst evMap)" and "\<forall>p\<in>set evMap. ph \<le> fst p"
  shows "\<exists>evs w' evMap'. eq_fire callback (map snd (filter (\<lambda>p. fst p = ph) evMap)) w = (evs, w') \<and>
    eq_tick period callback ph evMap w = Some (evMap', w') \<and>
    mset evMap' = mset (filter (\<lambda>p. fst p \<noteq> ph) evMap) +
      mset (map (\<lambda>e. (ph + period e, e)) (filter (\<lambda>e. period e \<noteq> 0) evs)) \<and>
    sorted (map fst evMap') \<and> (\<forall>p\<in>set evMap'. ph + 1 \<le> fst p)"
proof -
  let ?ys = "filter (\<lambda>p. fst p = ph) evMap" and ?zs = "filter (\<lambda>p. fst p \<noteq> ph) evMap"
  have later: "\<forall>p\<in>set ?zs. ph < fst p" using assms(2) by auto
  obtain evs w' where f: "eq_fire callback (map snd ?ys) w = (evs, w')" by fastforce
  let ?m = "foldl (\<lambda>m e. fe_insert (ph + period e, e) m) ?zs (filter (\<lambda>e. period e \<noteq> 0) evs)"
  have m: "mset ?m = mset ?zs + mset (map (\<lambda>e. (ph + period e, e)) (filter (\<lambda>e. period e \<noteq> 0) evs))"
    by (rule mset_foldl_insert)
  have "sorted (map fst ?zs)" using assms(1) by (rule sorted_filter)
  then have "sorted (map fst ?m)" by (rule sorted_foldl_insert)
  moreover have "set ?m = set ?zs \<union> set (map (\<lambda>e. (ph + period e, e)) (filter (\<lambda>e. period e \<noteq> 0) evs))"
    using arg_cong [OF m, of set_mset] by simp
  then have "\<forall>p\<in>set ?m. ph + 1 \<le> fst p" using later by auto
  moreover have "eq_tick period callback ph evMap w = Some (?m, w')"
    using eq_tick_fire [OF _ later, of ?ys period callback w] f split_due [OF assms] by simp
  ultimately show ?thesis using f m by blast
qed

theorem event_queue_tick_witness:
  "\<exists>evMap'. eq_tick (\<lambda>e. e) (\<lambda>e w. (e, w + 1)) 5 [(5, 3), (5, 0), (6, 2)] 0 = Some (evMap', 2 :: nat) \<and>
    mset evMap' = {#(6, 2), (8, 3 :: nat)#}"
  using event_queue_tick [of "[(5, 3), (5, 0), (6, 2)]" 5 "\<lambda>e w. (e, w + 1)" "0 :: nat" "\<lambda>e. e"] by auto

section \<open>Adaptive events\<close>

definition ae_start :: "nat \<Rightarrow> nat \<Rightarrow> nat \<Rightarrow> nat option" where
  "ae_start start target maxRate =
     Option.bind (guard (target \<ge> start \<and> maxRate \<noteq> 0)) (\<lambda>_.
     let period = (target - start) div maxRate in Some (if period = 0 then 1 else period))"

text \<open>A callback at the value \<open>cur\<close>: whether it fires, and the new period.\<close>

definition ae_callback :: "nat \<Rightarrow> nat \<Rightarrow> nat \<Rightarrow> (bool \<times> nat) option" where
  "ae_callback target maxRate cur =
     (if cur \<ge> target then Option.bind (guard (cur - target \<le> maxRate)) (\<lambda>_. Some (True, 0))
      else Option.bind (guard (maxRate \<noteq> 0)) (\<lambda>_.
        let period = (target - cur) div maxRate in Some (False, if period = 0 then 1 else period)))"

text \<open>The callbacks that the queue makes: at phase \<open>ph\<close> the value is \<open>get ph\<close>.\<close>

partial_function (option) ae_run :: "nat \<Rightarrow> nat \<Rightarrow> (nat \<Rightarrow> nat) \<Rightarrow> nat \<Rightarrow> nat option" where
  "ae_run target maxRate get ph =
     Option.bind (ae_callback target maxRate (get ph)) (\<lambda>(fired, period).
     if fired then Some ph else ae_run target maxRate get (ph + period))"

declare ae_run.simps [simp del]

lemma rate_bound: "\<forall>k. get (Suc k) \<le> get k + r \<Longrightarrow> get (k + j) \<le> get k + j * (r::nat)"
  by (induction j) (auto simp: le_trans algebra_simps elim: allE [of _ "k + j" for j] intro: order_trans)

lemma ae_run_first:
  assumes rate: "\<forall>k. get (Suc k) \<le> get k + maxRate" and "0 < maxRate"
    and f: "target \<le> get f" "\<forall>k<f. get k < target" and "ph \<le> f" and "get f \<le> target + maxRate"
  shows "ae_run target maxRate get ph = Some f"
  using assms(5)
proof (induction "f - ph" arbitrary: ph rule: less_induct)
  case less
  show ?case
  proof (cases "ph = f")
    case True
    then show ?thesis using f(1) assms(6) by (subst ae_run.simps) (simp add: ae_callback_def guard_def)
  next
    case False
    then have below: "get ph < target" using less.prems f(2) by simp
    let ?p = "(target - get ph) div maxRate"
    let ?q = "if ?p = 0 then 1 else ?p"
    have "ph + ?q \<le> f"
    proof (rule ccontr)
      assume "\<not> ph + ?q \<le> f"
      then have j: "f - ph < ?q" "0 < f - ph" using False less.prems by auto
      then have p: "?p \<noteq> 0" "f - ph < ?p" by (auto split: if_splits)
      have "get f \<le> get ph + (f - ph) * maxRate" using rate_bound [OF rate, of ph "f - ph"] less.prems by simp
      also have "\<dots> < get ph + ?p * maxRate" using p(2) assms(2) by simp
      also have "\<dots> \<le> target" using below div_times_less_eq_dividend [of "target - get ph" maxRate] by linarith
      finally show False using f(1) by simp
    qed
    moreover have "f - (ph + ?q) < f - ph" using False less.prems by auto
    ultimately have "ae_run target maxRate get (ph + ?q) = Some f" using less.hyps by blast
    then show ?thesis using below assms(2) by (subst ae_run.simps) (simp add: ae_callback_def Let_def)
  qed
qed

text \<open>C29. An adaptive event does fire, and on the first phase at which the value has reached the
  target: if the value grows by at most \<open>maxRate\<close> a phase and reaches the target at some phase, the
  callbacks that start with the constructor's period come to the first such phase, and the
  assertion on \<open>maxRate\<close> holds there.\<close>

theorem adaptive_event_fires:
  assumes "\<forall>k. get (Suc k) \<le> get k + maxRate" and "0 < maxRate" and "get start < target"
    and "\<exists>k\<ge>start. target \<le> get k" and "mono get"
  shows "\<exists>period f. ae_start (get start) target maxRate = Some period \<and>
    ae_run target maxRate get (start + period) = Some f \<and> target \<le> get f \<and> (\<forall>k<f. get k < target)"
proof -
  define f where "f = (LEAST k. target \<le> get k)"
  have f: "target \<le> get f" "\<forall>k<f. get k < target"
    using assms(4) LeastI_ex [of "\<lambda>k. target \<le> get k"] not_less_Least [of _ "\<lambda>k. target \<le> get k"]
    unfolding f_def by (blast, metis not_le)
  have sf: "start < f" using f(1) assms(3,5) by (metis leD linorder_le_less_linear monoD order_less_le_trans)
  have "get f \<le> get (f - 1) + maxRate" using assms(1) sf by (metis Suc_diff_1 gr_implies_not0 neq0_conv)
  moreover have "get (f - 1) < target" using f(2) sf by simp
  ultimately have top: "get f \<le> target + maxRate" by simp
  have "ae_run target maxRate get start = Some f"
    by (rule ae_run_first [OF assms(1,2) f _ top]) (use sf in simp)
  moreover obtain period where p: "ae_start (get start) target maxRate = Some period"
    "ae_callback target maxRate (get start) = Some (False, period)"
    using assms(2,3) by (auto simp: ae_start_def ae_callback_def Let_def)
  ultimately have "ae_run target maxRate get (start + period) = Some f"
    using assms(3) by (subst (asm) ae_run.simps) simp
  with p(1) f show ?thesis by blast
qed

theorem adaptive_event_fires_witness:
  "\<exists>period f. ae_start 0 10 4 = Some period \<and> ae_run 10 4 (\<lambda>k. 3 * k) period = Some f \<and> 10 \<le> 3 * f \<and> (\<forall>k<f. 3 * k < (10::nat))"
proof -
  have "\<exists>k\<ge>0. (10::nat) \<le> 3 * k" by (intro exI [of _ 4]) simp
  then show ?thesis using adaptive_event_fires [of "\<lambda>k. 3 * k" 4 0 10] by (simp add: mono_def)
qed

end
