(* ===== verification/Barrier_Sync.thy ===== *)
theory Barrier_Sync
  imports Prelude "HOL-Library.Multiset"
begin

text \<open>
  The phase barrier of \<^verbatim>\<open>zsim/src/barrier.h\<close>. Its methods run under the scheduler lock, so each
  is one step; what a thread does after it (block on its futex until it is \<open>RUNNING\<close>) is the
  interleaving of the steps. \<open>ba_runList\<close> are the first \<open>runListSize\<close> entries of the array.

  Two parts of other components are parameters: \<open>rand r n\<close>, a draw of the generator in state \<open>r\<close>
  from 0..\<open>n\<close> (\<open>MTRand::randInt\<close>, which may not return), and \<open>callback\<close>, the end-of-phase
  actions on the state \<open>'w\<close> of the scheduler. A failed assertion or the panic is \<open>None\<close>.
\<close>

section \<open>State\<close>

datatype bstate = OFFLINE | WAITING | RUNNING | LEFT

record ('r, 'w) barrier =
  ba_parallelThreads :: nat
  ba_state :: "nat \<Rightarrow> bstate"
  ba_futexWord :: "nat \<Rightarrow> nat"
  ba_lastIdx :: "nat \<Rightarrow> nat"
  ba_runList :: "nat list"
  ba_curThreadIdx :: nat
  ba_runningThreads :: nat
  ba_leftThreads :: nat
  ba_phaseCount :: nat
  ba_rnd :: 'r
  ba_sched :: 'w

definition MAX_THREADS :: nat where "MAX_THREADS = 2048"

definition bar_new :: "nat \<Rightarrow> 'r \<Rightarrow> 'w \<Rightarrow> ('r, 'w) barrier" where
  "bar_new parallelThreads r w =
     \<lparr>ba_parallelThreads = parallelThreads, ba_state = \<lambda>_. OFFLINE, ba_futexWord = \<lambda>_. 0, ba_lastIdx = \<lambda>_. 0,
      ba_runList = [], ba_curThreadIdx = 0, ba_runningThreads = 0, ba_leftThreads = 0, ba_phaseCount = 0,
      ba_rnd = r, ba_sched = w\<rparr>"

section \<open>Waking threads and ending phases\<close>

function bar_checkRunList :: "('r, 'w) barrier \<Rightarrow> ('r, 'w) barrier option" where
  "bar_checkRunList b =
     (if ba_runningThreads b < ba_parallelThreads b \<and> ba_curThreadIdx b < length (ba_runList b) then
        (let idx = ba_curThreadIdx b; wtid = ba_runList b ! idx; b1 = b\<lparr>ba_curThreadIdx := idx + 1\<rparr> in
         if ba_state b wtid = WAITING then
           (if ba_futexWord b wtid = 1 then
              bar_checkRunList (b1\<lparr>ba_state := (ba_state b)(wtid := RUNNING), ba_lastIdx := (ba_lastIdx b)(wtid := idx),
                ba_futexWord := (ba_futexWord b)(wtid := 0), ba_runningThreads := ba_runningThreads b + 1\<rparr>)
            else None)
         else bar_checkRunList b1)
      else Some b)"
  by auto
termination by (relation "measure (\<lambda>b. length (ba_runList b) - ba_curThreadIdx b)") (auto simp: Let_def)

declare bar_checkRunList.simps [simp del]

text \<open>The cleanup pass: each thread that left goes \<open>OFFLINE\<close>, and the last of the list takes its place.\<close>

function bar_cleanup :: "nat \<Rightarrow> ('r, 'w) barrier \<Rightarrow> ('r, 'w) barrier" where
  "bar_cleanup idx b =
     (if idx < length (ba_runList b) then
        (let wtid = ba_runList b ! idx in
         if ba_state b wtid = LEFT then
           (let stid = last (ba_runList b) in
            bar_cleanup idx (b\<lparr>ba_state := (ba_state b)(wtid := OFFLINE),
              ba_runList := butlast ((ba_runList b)[idx := stid]), ba_lastIdx := (ba_lastIdx b)(stid := idx)\<rparr>))
         else bar_cleanup (idx + 1) b)
      else b)"
  by auto
termination by (relation "measure (\<lambda>(idx, b). length (ba_runList b) - idx)") (auto simp: Let_def)

declare bar_cleanup.simps [simp del]

text \<open>The Fisher-Yates shuffle, from index \<open>i\<close> down to 1.\<close>

fun bar_shuffle :: "('r \<Rightarrow> nat \<Rightarrow> (nat \<times> 'r) option) \<Rightarrow> nat \<Rightarrow> ('r, 'w) barrier \<Rightarrow> ('r, 'w) barrier option" where
  "bar_shuffle rand 0 b = Some b"
| "bar_shuffle rand (Suc k) b =
     Option.bind (rand (ba_rnd b) (Suc k)) (\<lambda>(j, r).
     let itid = ba_runList b ! Suc k; jtid = ba_runList b ! j in
     bar_shuffle rand k (b\<lparr>ba_rnd := r, ba_runList := (ba_runList b)[Suc k := jtid, j := itid],
       ba_lastIdx := (ba_lastIdx b)(itid := j, jtid := Suc k)\<rparr>))"

definition bar_offline :: "('r, 'w) barrier \<Rightarrow> ('r, 'w) barrier option" where
  "bar_offline b1 =
     Option.bind (guard (length (ba_runList b1) > 0)) (\<lambda>_.
     let b2 = bar_cleanup 0 b1 in
     Option.bind (guard (length (ba_runList b1) - length (ba_runList b2) = ba_leftThreads b2)) (\<lambda>_.
     Some (b2\<lparr>ba_leftThreads := 0\<rparr>)))"

definition bar_checkEndPhase :: "('r \<Rightarrow> nat \<Rightarrow> (nat \<times> 'r) option) \<Rightarrow> ('w \<Rightarrow> 'w) \<Rightarrow> ('r, 'w) barrier \<Rightarrow> ('r, 'w) barrier option" where
  "bar_checkEndPhase rand callback b =
     (if ba_curThreadIdx b = length (ba_runList b) \<and> ba_runningThreads b = 0 then
        (if ba_leftThreads b = length (ba_runList b) then Some b
         else
           (let b1 = b\<lparr>ba_sched := callback (ba_sched b), ba_curThreadIdx := 0, ba_phaseCount := ba_phaseCount b + 1\<rparr> in
            Option.bind
              (if ba_phaseCount b mod 32 = 0 then bar_offline b1 else Some b1) (\<lambda>b3.
            if ba_parallelThreads b3 < length (ba_runList b3)
            then bar_shuffle rand (length (ba_runList b3) - 1) b3 else Some b3)))
      else Some b)"

definition bar_tryWakeNext :: "('r \<Rightarrow> nat \<Rightarrow> (nat \<times> 'r) option) \<Rightarrow> ('w \<Rightarrow> 'w) \<Rightarrow> ('r, 'w) barrier \<Rightarrow> ('r, 'w) barrier option" where
  "bar_tryWakeNext rand callback b =
     Option.bind (bar_checkRunList b) (\<lambda>b1. Option.bind (bar_checkEndPhase rand callback b1) bar_checkRunList)"

section \<open>The operations\<close>

text \<open>A thread that left and has already run in this phase is scheduled in it again: it swaps places
  with the last thread that was woken.\<close>

definition bar_rejoin :: "nat \<Rightarrow> ('r, 'w) barrier \<Rightarrow> ('r, 'w) barrier option" where
  "bar_rejoin tid b =
     (let lastIdx = ba_lastIdx b tid in
      if ba_curThreadIdx b > lastIdx then
        (let cur = ba_curThreadIdx b - 1 in
         Option.bind (guard (tid = ba_runList b ! lastIdx)) (\<lambda>_.
         let otherTid = ba_runList b ! cur in
         Some (b\<lparr>ba_curThreadIdx := cur, ba_runList := (ba_runList b)[lastIdx := otherTid, cur := tid],
                 ba_lastIdx := (ba_lastIdx b)(otherTid := lastIdx, tid := cur)\<rparr>)))
      else Some b)"

definition bar_join :: "('r \<Rightarrow> nat \<Rightarrow> (nat \<times> 'r) option) \<Rightarrow> ('w \<Rightarrow> 'w) \<Rightarrow> nat \<Rightarrow> ('r, 'w) barrier \<Rightarrow> ('r, 'w) barrier option" where
  "bar_join rand callback tid b =
     Option.bind (guard (tid < MAX_THREADS \<and> (ba_state b tid = LEFT \<or> ba_state b tid = OFFLINE))) (\<lambda>_.
     Option.bind
       (if ba_state b tid = OFFLINE
        then Option.bind (guard (length (ba_runList b) < MAX_THREADS)) (\<lambda>_. Some (b\<lparr>ba_runList := ba_runList b @ [tid]\<rparr>))
        else bar_rejoin tid (b\<lparr>ba_leftThreads := ba_leftThreads b - 1\<rparr>)) (\<lambda>b1.
     bar_tryWakeNext rand callback
       (b1\<lparr>ba_state := (ba_state b1)(tid := WAITING), ba_futexWord := (ba_futexWord b1)(tid := 1)\<rparr>)))"

definition bar_leave :: "('r \<Rightarrow> nat \<Rightarrow> (nat \<times> 'r) option) \<Rightarrow> ('w \<Rightarrow> 'w) \<Rightarrow> nat \<Rightarrow> ('r, 'w) barrier \<Rightarrow> ('r, 'w) barrier option" where
  "bar_leave rand callback tid b =
     (let b1 = b\<lparr>ba_state := (ba_state b)(tid := LEFT), ba_leftThreads := ba_leftThreads b + 1\<rparr> in
      if ba_state b tid = RUNNING
      then bar_tryWakeNext rand callback (b1\<lparr>ba_runningThreads := ba_runningThreads b - 1\<rparr>)
      else Option.bind (guard (ba_state b tid = WAITING)) (\<lambda>_. Some b1))"

definition bar_sync :: "('r \<Rightarrow> nat \<Rightarrow> (nat \<times> 'r) option) \<Rightarrow> ('w \<Rightarrow> 'w) \<Rightarrow> nat \<Rightarrow> ('r, 'w) barrier \<Rightarrow> ('r, 'w) barrier option" where
  "bar_sync rand callback tid b =
     Option.bind (guard (ba_state b tid = RUNNING)) (\<lambda>_.
     bar_tryWakeNext rand callback
       (b\<lparr>ba_futexWord := (ba_futexWord b)(tid := 1), ba_state := (ba_state b)(tid := WAITING),
          ba_runningThreads := ba_runningThreads b - 1\<rparr>))"

section \<open>The invariant\<close>

text \<open>The run list holds each thread that is not \<open>OFFLINE\<close> once; the counters are exact; no thread
  behind \<open>curThreadIdx\<close> runs; \<open>lastIdx\<close> is the position of each thread, except of one that has
  joined and has not been woken since.\<close>

definition bar_list :: "('r, 'w) barrier \<Rightarrow> bool" where
  "bar_list b \<longleftrightarrow> distinct (ba_runList b) \<and> set (ba_runList b) = {t. ba_state b t \<noteq> OFFLINE} \<and>
     (\<forall>t\<in>set (ba_runList b). t < MAX_THREADS) \<and> (\<forall>t. ba_state b t = WAITING \<longrightarrow> ba_futexWord b t = 1)"

definition bar_exact :: "('r, 'w) barrier \<Rightarrow> nat \<Rightarrow> bool" where
  "bar_exact b i \<longleftrightarrow> ba_lastIdx b (ba_runList b ! i) = i"

definition bar_inv :: "('r, 'w) barrier \<Rightarrow> bool" where
  "bar_inv b \<longleftrightarrow> bar_list b \<and> ba_curThreadIdx b \<le> length (ba_runList b) \<and>
     ba_runningThreads b = card {t. ba_state b t = RUNNING} \<and> ba_leftThreads b = card {t. ba_state b t = LEFT} \<and>
     ba_runningThreads b \<le> ba_parallelThreads b \<and>
     (\<forall>i<length (ba_runList b). ba_curThreadIdx b \<le> i \<longrightarrow> ba_state b (ba_runList b ! i) \<noteq> RUNNING) \<and>
     (\<forall>i<length (ba_runList b). bar_exact b i \<or> ba_curThreadIdx b \<le> i \<and> ba_state b (ba_runList b ! i) = WAITING)"

lemma bar_list_finite: "bar_list b \<Longrightarrow> s \<noteq> OFFLINE \<Longrightarrow> finite {t. ba_state b t = s}"
  using finite_set [of "ba_runList b"] unfolding bar_list_def by (auto elim!: rev_finite_subset)

lemma card_state_upd:
  assumes "finite {u. st u = s}"
  shows "card {u. (st(x := y)) u = s} =
    (if st x = s then (if y = s then card {u. st u = s} else card {u. st u = s} - 1)
     else (if y = s then card {u. st u = s} + 1 else card {u. st u = s}))"
proof -
  have "{u. (st(x := y)) u = s} = (if y = s then insert x {u. st u = s} else {u. st u = s} - {x})" by auto
  then show ?thesis using assms by (auto simp: card_insert_if)
qed

lemma bar_running_0: "bar_inv b \<Longrightarrow> ba_runningThreads b = 0 \<Longrightarrow> ba_state b t \<noteq> RUNNING"
  using bar_list_finite [of b RUNNING] by (auto simp: bar_inv_def)

lemma bar_len: "bar_list b \<Longrightarrow> length (ba_runList b) = card {t. ba_state b t \<noteq> OFFLINE}"
  unfolding bar_list_def by (metis distinct_card)

lemma bar_all_left:
  assumes "bar_inv b" and "ba_runningThreads b = 0"
  shows "ba_leftThreads b = length (ba_runList b) \<longleftrightarrow> (\<forall>t. ba_state b t \<noteq> WAITING)"
proof -
  have l: "bar_list b" and left: "ba_leftThreads b = card {t. ba_state b t = LEFT}" using assms(1) by (auto simp: bar_inv_def)
  have fin: "finite {t. ba_state b t \<noteq> OFFLINE}" using l unfolding bar_list_def by (metis finite_set)
  have sub: "{t. ba_state b t = LEFT} \<subseteq> {t. ba_state b t \<noteq> OFFLINE}" by auto
  have "ba_leftThreads b = length (ba_runList b) \<longleftrightarrow> {t. ba_state b t = LEFT} = {t. ba_state b t \<noteq> OFFLINE}"
    unfolding left bar_len [OF l] using card_subset_eq [OF fin sub] by auto
  also have "\<dots> \<longleftrightarrow> (\<forall>t. ba_state b t \<noteq> WAITING)"
  proof
    assume eq: "{t. ba_state b t = LEFT} = {t. ba_state b t \<noteq> OFFLINE}"
    have "t \<in> {t. ba_state b t = LEFT} \<longleftrightarrow> t \<in> {t. ba_state b t \<noteq> OFFLINE}" for t unfolding eq ..
    then show "\<forall>t. ba_state b t \<noteq> WAITING" by (metis (mono_tags) bstate.distinct(1,9) mem_Collect_eq)
  next
    assume "\<forall>t. ba_state b t \<noteq> WAITING"
    then have "ba_state b t = LEFT \<longleftrightarrow> ba_state b t \<noteq> OFFLINE" for t
      using bar_running_0 [OF assms, of t] by (cases "ba_state b t") auto
    then show "{t. ba_state b t = LEFT} = {t. ba_state b t \<noteq> OFFLINE}" by simp
  qed
  finally show ?thesis .
qed

section \<open>The steps keep it\<close>

lemma bar_checkRunList_ok:
  "bar_inv b \<Longrightarrow> \<exists>b'. bar_checkRunList b = Some b' \<and> bar_inv b' \<and>
    (ba_runningThreads b' = ba_parallelThreads b \<or> ba_curThreadIdx b' = length (ba_runList b)) \<and>
    ba_parallelThreads b' = ba_parallelThreads b \<and> ba_runList b' = ba_runList b \<and> ba_sched b' = ba_sched b \<and>
    ba_runningThreads b \<le> ba_runningThreads b' \<and> ba_curThreadIdx b \<le> ba_curThreadIdx b' \<and>
    (\<forall>t. ba_state b' t = ba_state b t \<or> ba_state b t = WAITING \<and> ba_state b' t = RUNNING) \<and>
    (\<forall>i. ba_curThreadIdx b \<le> i \<longrightarrow> i < ba_curThreadIdx b' \<longrightarrow> ba_state b' (ba_runList b ! i) \<noteq> WAITING)"
proof (induction b rule: bar_checkRunList.induct)
  case (1 b)
  let ?idx = "ba_curThreadIdx b" and ?rl = "ba_runList b"
  let ?t = "?rl ! ?idx"
  have l: "bar_list b" and fin: "finite {t. ba_state b t = s}" if "s \<noteq> OFFLINE" for s
    using "1.prems" bar_list_finite that by (auto simp: bar_inv_def)
  have bl: "bar_list b" using "1.prems" by (simp add: bar_inv_def)
  show ?case
  proof (cases "ba_runningThreads b < ba_parallelThreads b \<and> ?idx < length ?rl")
    case go: True
    then have in_rl: "?t \<in> set ?rl" by simp
    have uniq: "?rl ! i \<noteq> ?t" if "i < length ?rl" "i \<noteq> ?idx" for i
      using that go bl by (auto simp: bar_list_def nth_eq_iff_index_eq)
    show ?thesis
    proof (cases "ba_state b ?t = WAITING")
      case w: True
      let ?b = "b\<lparr>ba_curThreadIdx := ?idx + 1, ba_state := (ba_state b)(?t := RUNNING), ba_lastIdx := (ba_lastIdx b)(?t := ?idx),
        ba_futexWord := (ba_futexWord b)(?t := 0), ba_runningThreads := ba_runningThreads b + 1\<rparr>"
      have futex: "ba_futexWord b ?t = 1" using bl w by (simp add: bar_list_def)
      have "bar_list ?b" using bl w by (auto simp: bar_list_def)
      moreover have "ba_runningThreads ?b = card {t. ba_state ?b t = RUNNING}" "ba_leftThreads ?b = card {t. ba_state ?b t = LEFT}"
        using "1.prems" w fin [of RUNNING] fin [of LEFT] by (simp_all add: bar_inv_def card_state_upd del: fun_upd_apply)
      moreover have "\<forall>i<length ?rl. ?idx + 1 \<le> i \<longrightarrow> ba_state ?b (?rl ! i) \<noteq> RUNNING"
        using "1.prems" uniq by (auto simp: bar_inv_def)
      moreover have "\<forall>i<length ?rl. bar_exact ?b i \<or> ?idx + 1 \<le> i \<and> ba_state ?b (?rl ! i) = WAITING"
      proof (intro allI impI)
        fix i assume i: "i < length ?rl"
        show "bar_exact ?b i \<or> ?idx + 1 \<le> i \<and> ba_state ?b (?rl ! i) = WAITING"
        proof (cases "i = ?idx")
          case False
          with i "1.prems" uniq [OF i False] show ?thesis by (auto simp: bar_inv_def bar_exact_def)
        qed (simp add: bar_exact_def)
      qed
      ultimately have "bar_inv ?b" using "1.prems" go by (simp add: bar_inv_def)
      from "1.IH"(1) [OF go refl refl refl w futex] this obtain b' where b':
        "bar_checkRunList ?b = Some b'" "bar_inv b'"
        "ba_runningThreads b' = ba_parallelThreads b \<or> ba_curThreadIdx b' = length ?rl"
        "ba_parallelThreads b' = ba_parallelThreads b" "ba_runList b' = ?rl" "ba_sched b' = ba_sched b"
        "ba_runningThreads b + 1 \<le> ba_runningThreads b'" "?idx + 1 \<le> ba_curThreadIdx b'"
        "\<forall>t. ba_state b' t = ba_state ?b t \<or> ba_state ?b t = WAITING \<and> ba_state b' t = RUNNING"
        "\<forall>i. ?idx + 1 \<le> i \<longrightarrow> i < ba_curThreadIdx b' \<longrightarrow> ba_state b' (?rl ! i) \<noteq> WAITING" by auto
      have "ba_state b' ?t = RUNNING" using spec [OF b'(9), of ?t] by auto
      then have "\<forall>i. ?idx \<le> i \<longrightarrow> i < ba_curThreadIdx b' \<longrightarrow> ba_state b' (?rl ! i) \<noteq> WAITING"
        using b'(10) by (metis bstate.distinct(7) le_neq_implies_less Suc_eq_plus1 Suc_leI)
      moreover have "\<forall>t. ba_state b' t = ba_state b t \<or> ba_state b t = WAITING \<and> ba_state b' t = RUNNING"
      proof
        fix t show "ba_state b' t = ba_state b t \<or> ba_state b t = WAITING \<and> ba_state b' t = RUNNING"
          using spec [OF b'(9), of t] w by (cases "t = ?t") auto
      qed
      moreover have "bar_checkRunList b = Some b'"
        using b'(1) go w futex by (subst bar_checkRunList.simps) (simp add: Let_def)
      ultimately show ?thesis using b'(2-8) by (intro exI [of _ b']) simp
    next
      case nw: False
      let ?b = "b\<lparr>ba_curThreadIdx := ?idx + 1\<rparr>"
      have "bar_list ?b" using bl by (simp add: bar_list_def)
      moreover have "\<forall>i<length ?rl. bar_exact ?b i \<or> ?idx + 1 \<le> i \<and> ba_state ?b (?rl ! i) = WAITING"
        using "1.prems" nw by (auto simp: bar_inv_def bar_exact_def) (metis Suc_leI le_neq_implies_less)
      ultimately have "bar_inv ?b" using "1.prems" go by (simp add: bar_inv_def)
      from "1.IH"(2) [OF go refl refl refl nw] this obtain b' where b':
        "bar_checkRunList ?b = Some b'" "bar_inv b'"
        "ba_runningThreads b' = ba_parallelThreads b \<or> ba_curThreadIdx b' = length ?rl"
        "ba_parallelThreads b' = ba_parallelThreads b" "ba_runList b' = ?rl" "ba_sched b' = ba_sched b"
        "ba_runningThreads b \<le> ba_runningThreads b'" "?idx + 1 \<le> ba_curThreadIdx b'"
        "\<forall>t. ba_state b' t = ba_state b t \<or> ba_state b t = WAITING \<and> ba_state b' t = RUNNING"
        "\<forall>i. ?idx + 1 \<le> i \<longrightarrow> i < ba_curThreadIdx b' \<longrightarrow> ba_state b' (?rl ! i) \<noteq> WAITING" by auto
      have "ba_state b' ?t \<noteq> WAITING" using spec [OF b'(9), of ?t] nw by auto
      then have "\<forall>i. ?idx \<le> i \<longrightarrow> i < ba_curThreadIdx b' \<longrightarrow> ba_state b' (?rl ! i) \<noteq> WAITING"
        using b'(10) by (metis le_neq_implies_less Suc_eq_plus1 Suc_leI)
      moreover have "bar_checkRunList b = Some b'"
        using b'(1) go nw by (subst bar_checkRunList.simps) (simp add: Let_def)
      ultimately show ?thesis using b'(2-9) by (intro exI [of _ b']) simp
    qed
  next
    case stop: False
    then have "ba_runningThreads b = ba_parallelThreads b \<or> ?idx = length ?rl" using "1.prems" by (auto simp: bar_inv_def)
    moreover from stop have ns: "(ba_runningThreads b < ba_parallelThreads b \<and> ?idx < length ?rl) = False" by simp
    moreover have "bar_checkRunList b = Some b" by (subst bar_checkRunList.simps) (simp only: ns if_False)
    ultimately show ?thesis using "1.prems" by (intro exI [of _ b]) auto
  qed
qed

lemma swap_out:
  assumes "distinct xs" and "i < length xs"
  shows "distinct (butlast (xs[i := last xs]))" and "set (butlast (xs[i := last xs])) = set xs - {xs ! i}"
    and "k < length xs - 1 \<Longrightarrow> butlast (xs[i := last xs]) ! k = (if k = i then last xs else xs ! k)"
proof -
  let ?ys = "xs[i := last xs]"
  have ne: "?ys \<noteq> []" using assms(2) by auto
  then have l: "last ?ys = last xs" using assms(2) by (cases "i = length xs - 1") (simp_all add: last_conv_nth)
  from append_butlast_last_id [OF ne] have "mset ?ys = add_mset (last xs) (mset (butlast ?ys))"
    unfolding l by (metis mset_append union_mset_add_mset_right mset.simps(1,2) add.right_neutral)
  with assms(2) have "mset (xs ! i # butlast ?ys) = mset xs"
    by (simp add: mset_update) (metis insert_DiffM nth_mem_mset)
  then have "distinct (xs ! i # butlast ?ys)" "set (xs ! i # butlast ?ys) = set xs"
    using assms(1) mset_eq_imp_distinct_iff mset_eq_setD by metis+
  then show "distinct (butlast ?ys)" "set (butlast ?ys) = set xs - {xs ! i}" by auto
  show "butlast ?ys ! k = (if k = i then last xs else xs ! k)" if "k < length xs - 1"
    using that by (auto simp: nth_butlast)
qed

lemma swap_exact:
  assumes "distinct xs" "i < length xs" "j < length xs" "k < length xs"
    and L: "L' (xs ! i) = j" "L' (xs ! j) = i" "\<And>x. x \<noteq> xs ! i \<Longrightarrow> x \<noteq> xs ! j \<Longrightarrow> L' x = L x"
  shows "L' (xs[i := xs ! j, j := xs ! i] ! k) = k \<or> k \<noteq> i \<and> k \<noteq> j \<and>
    xs[i := xs ! j, j := xs ! i] ! k = xs ! k \<and> L' (xs ! k) = L (xs ! k)"
  using assms by (cases "k = j"; cases "k = i") (auto simp: nth_eq_iff_index_eq)

lemma swap_same:
  "i < length xs \<Longrightarrow> j < length xs \<Longrightarrow>
    distinct (xs[i := xs ! j, j := xs ! i]) = distinct xs \<and> set (xs[i := xs ! j, j := xs ! i]) = set xs"
  by (metis mset_swap mset_eq_imp_distinct_iff mset_eq_setD)

lemma bar_cleanup_ok:
  "bar_list b \<Longrightarrow> \<forall>i<length (ba_runList b). bar_exact b i \<Longrightarrow> \<forall>i<idx. i < length (ba_runList b) \<longrightarrow> ba_state b (ba_runList b ! i) \<noteq> LEFT \<Longrightarrow>
   bar_list (bar_cleanup idx b) \<and> (\<forall>i<length (ba_runList (bar_cleanup idx b)). bar_exact (bar_cleanup idx b) i) \<and>
   ba_state (bar_cleanup idx b) = (\<lambda>t. if ba_state b t = LEFT then OFFLINE else ba_state b t) \<and>
   (\<exists>st rl li. bar_cleanup idx b = b\<lparr>ba_state := st, ba_runList := rl, ba_lastIdx := li\<rparr>)"
proof (induction idx b rule: bar_cleanup.induct)
  case (1 idx b)
  let ?rl = "ba_runList b"
  let ?t = "?rl ! idx"
  show ?case
  proof (cases "idx < length ?rl")
    case i: True
    show ?thesis
    proof (cases "ba_state b ?t = LEFT")
      case left: True
      let ?b = "b\<lparr>ba_state := (ba_state b)(?t := OFFLINE), ba_runList := butlast (?rl[idx := last ?rl]),
        ba_lastIdx := (ba_lastIdx b)(last ?rl := idx)\<rparr>"
      have d: "distinct ?rl" using "1.prems"(1) by (simp add: bar_list_def)
      have bl: "bar_list ?b" using "1.prems"(1) swap_out [OF d i] by (auto simp: bar_list_def)
      have ex: "\<forall>i<length (ba_runList ?b). bar_exact ?b i"
      proof (intro allI impI)
        fix k assume "k < length (ba_runList ?b)"
        then have k: "k < length ?rl - 1" by simp
        then have "?rl ! k \<noteq> last ?rl" using d i by (subst last_conv_nth) (auto simp: nth_eq_iff_index_eq)
        then show "bar_exact ?b k" using "1.prems"(2) k swap_out(3) [OF d i k] by (auto simp: bar_exact_def)
      qed
      have nl: "\<forall>k<idx. k < length (ba_runList ?b) \<longrightarrow> ba_state ?b (ba_runList ?b ! k) \<noteq> LEFT"
        using "1.prems"(3) swap_out(3) [OF d i] by auto
      from "1.IH"(1) [OF i refl left refl bl ex nl] have
        "bar_list (bar_cleanup idx ?b)" "\<forall>i<length (ba_runList (bar_cleanup idx ?b)). bar_exact (bar_cleanup idx ?b) i"
        "ba_state (bar_cleanup idx ?b) = (\<lambda>t. if ba_state ?b t = LEFT then OFFLINE else ba_state ?b t)"
        "\<exists>st rl li. bar_cleanup idx ?b = ?b\<lparr>ba_state := st, ba_runList := rl, ba_lastIdx := li\<rparr>" by blast+
      moreover have "bar_cleanup idx b = bar_cleanup idx ?b"
        using i left by (subst bar_cleanup.simps) (simp add: Let_def)
      ultimately show ?thesis using left by (auto simp: fun_eq_iff)
    next
      case nl: False
      have "\<forall>i<idx + 1. i < length ?rl \<longrightarrow> ba_state b (?rl ! i) \<noteq> LEFT"
        using "1.prems"(3) nl by (auto simp: less_Suc_eq)
      moreover have "bar_cleanup idx b = bar_cleanup (idx + 1) b"
        using i nl by (subst bar_cleanup.simps) (simp add: Let_def)
      ultimately show ?thesis using "1.IH"(2) [OF i refl nl "1.prems"(1,2)] by simp
    qed
  next
    case stop: False
    then have "bar_cleanup idx b = b" by (subst bar_cleanup.simps) simp
    moreover have "ba_state b t \<noteq> LEFT" for t
    proof
      assume "ba_state b t = LEFT"
      then have "t \<in> set ?rl" using "1.prems"(1) by (simp add: bar_list_def)
      then obtain i where "i < length ?rl" "?rl ! i = t" by (auto simp: in_set_conv_nth)
      with stop "1.prems"(3) \<open>ba_state b t = LEFT\<close> show False by auto
    qed
    ultimately show ?thesis using "1.prems" by (auto simp: fun_eq_iff intro!: exI [of _ "ba_state b"] exI [of _ "ba_runList b"] exI [of _ "ba_lastIdx b"])
  qed
qed

lemma bar_shuffle_ok:
  assumes draw: "\<And>r n. \<exists>j r'. rand r n = Some (j, r') \<and> j \<le> n"
  shows "bar_list b \<Longrightarrow> \<forall>i<length (ba_runList b). bar_exact b i \<Longrightarrow> k < length (ba_runList b) \<Longrightarrow>
   \<exists>r rl li. bar_shuffle rand k b = Some (b\<lparr>ba_rnd := r, ba_runList := rl, ba_lastIdx := li\<rparr>) \<and>
     length rl = length (ba_runList b) \<and> bar_list (b\<lparr>ba_rnd := r, ba_runList := rl, ba_lastIdx := li\<rparr>) \<and>
     (\<forall>i<length rl. bar_exact (b\<lparr>ba_rnd := r, ba_runList := rl, ba_lastIdx := li\<rparr>) i)"
proof (induction k arbitrary: b)
  case 0
  then show ?case by (intro exI [of _ "ba_rnd b"] exI [of _ "ba_runList b"] exI [of _ "ba_lastIdx b"]) simp
next
  case (Suc k)
  let ?rl = "ba_runList b"
  obtain j r where j: "rand (ba_rnd b) (Suc k) = Some (j, r)" "j \<le> Suc k" using draw by blast
  with Suc.prems(3) have jl: "j < length ?rl" by simp
  let ?rl' = "?rl[Suc k := ?rl ! j, j := ?rl ! Suc k]" and ?li = "(ba_lastIdx b)(?rl ! Suc k := j, ?rl ! j := Suc k)"
  let ?b = "b\<lparr>ba_rnd := r, ba_runList := ?rl', ba_lastIdx := ?li\<rparr>"
  have d: "distinct ?rl" using Suc.prems(1) by (simp add: bar_list_def)
  have same: "distinct ?rl' = distinct ?rl" "set ?rl' = set ?rl" using swap_same [OF Suc.prems(3) jl] by simp_all
  have bl: "bar_list ?b" using Suc.prems(1) unfolding bar_list_def by (simp add: same)
  have li: "?li (?rl ! Suc k) = j" using d Suc.prems(3) jl by (simp add: nth_eq_iff_index_eq)
  have ex: "\<forall>i<length (ba_runList ?b). bar_exact ?b i"
  proof (intro allI impI)
    fix i assume "i < length (ba_runList ?b)"
    then have i: "i < length ?rl" by simp
    with swap_exact [OF d Suc.prems(3) jl i, of ?li "ba_lastIdx b"] li Suc.prems(2) show "bar_exact ?b i"
      unfolding bar_exact_def by auto
  qed
  from Suc.IH [OF bl ex] Suc.prems(3) obtain r2 rl2 li2 where
    "bar_shuffle rand k ?b = Some (?b\<lparr>ba_rnd := r2, ba_runList := rl2, ba_lastIdx := li2\<rparr>)" "length rl2 = length ?rl"
    "bar_list (?b\<lparr>ba_rnd := r2, ba_runList := rl2, ba_lastIdx := li2\<rparr>)"
    "\<forall>i<length rl2. bar_exact (?b\<lparr>ba_rnd := r2, ba_runList := rl2, ba_lastIdx := li2\<rparr>) i" by auto
  with j(1) show ?case
    by (intro exI [of _ r2] exI [of _ rl2] exI [of _ li2]) (simp add: Let_def)
qed

lemma bar_inv_at_end:
  assumes "bar_inv b" "ba_curThreadIdx b = length (ba_runList b)"
  shows "\<forall>i<length (ba_runList b). bar_exact b i"
  using assms by (auto simp: bar_inv_def)

lemma bar_checkEndPhase_ok:
  assumes draw: "\<And>r n. \<exists>j r'. rand r n = Some (j, r') \<and> j \<le> n" and inv: "bar_inv b"
  shows "\<exists>b'. bar_checkEndPhase rand callback b = Some b' \<and> bar_inv b' \<and> ba_parallelThreads b' = ba_parallelThreads b \<and>
    (\<forall>t. ba_state b' t = WAITING \<longleftrightarrow> ba_state b t = WAITING) \<and>
    (b' = b \<and> (ba_curThreadIdx b < length (ba_runList b) \<or> 0 < ba_runningThreads b \<or> (\<forall>t. ba_state b t \<noteq> WAITING)) \<or>
     ba_curThreadIdx b' = 0 \<and> ba_sched b' = callback (ba_sched b))"
proof (cases "ba_curThreadIdx b = length (ba_runList b) \<and> ba_runningThreads b = 0")
  case False
  then show ?thesis using inv by (auto simp: bar_checkEndPhase_def bar_inv_def)
next
  case eop: True
  show ?thesis
  proof (cases "ba_leftThreads b = length (ba_runList b)")
    case True
    then show ?thesis using inv eop bar_all_left [OF inv] by (auto simp: bar_checkEndPhase_def)
  next
    case some_wait: False
    have bl: "bar_list b" and left: "ba_leftThreads b = card {t. ba_state b t = LEFT}" using inv by (auto simp: bar_inv_def)
    have nr: "ba_state b t \<noteq> RUNNING" for t using bar_running_0 [OF inv] eop by simp
    have ex: "\<forall>i<length (ba_runList b). bar_exact b i" using bar_inv_at_end [OF inv] eop by simp
    let ?b1 = "b\<lparr>ba_sched := callback (ba_sched b), ba_curThreadIdx := 0, ba_phaseCount := ba_phaseCount b + 1\<rparr>"
    let ?st = "\<lambda>b'. bar_list b' \<and> (\<forall>i<length (ba_runList b'). bar_exact b' i) \<and> ba_curThreadIdx b' = 0 \<and>
      ba_runningThreads b' = 0 \<and> ba_parallelThreads b' = ba_parallelThreads b \<and> ba_sched b' = callback (ba_sched b) \<and>
      ba_leftThreads b' = card {t. ba_state b' t = LEFT} \<and> (\<forall>t. ba_state b' t \<noteq> RUNNING) \<and>
      (\<forall>t. ba_state b' t = WAITING \<longleftrightarrow> ba_state b t = WAITING)"
    have b1: "?st ?b1" using bl ex eop nr left by (simp add: bar_list_def bar_exact_def)
    have "\<exists>b3. (if ba_phaseCount b mod 32 = 0 then bar_offline ?b1 else Some ?b1) = Some b3 \<and> ?st b3"
    proof (cases "ba_phaseCount b mod 32 = 0")
      case True
      let ?b2 = "bar_cleanup 0 ?b1"
      have c: "bar_list ?b2" "\<forall>i<length (ba_runList ?b2). bar_exact ?b2 i"
        "ba_state ?b2 = (\<lambda>t. if ba_state b t = LEFT then OFFLINE else ba_state b t)"
        "\<exists>st rl li. ?b2 = ?b1\<lparr>ba_state := st, ba_runList := rl, ba_lastIdx := li\<rparr>"
        using bar_cleanup_ok [of ?b1 0] b1 by auto
      have fin: "finite {t. ba_state b t \<noteq> OFFLINE}" using bl finite_set [of "ba_runList b"] unfolding bar_list_def by simp
      have "length (ba_runList ?b2) = card ({t. ba_state b t \<noteq> OFFLINE} - {t. ba_state b t = LEFT})"
        unfolding bar_len [OF c(1)] c(3) by (rule arg_cong [of _ _ card]) auto
      also have "\<dots> = card {t. ba_state b t \<noteq> OFFLINE} - ba_leftThreads b"
        unfolding left by (rule card_Diff_subset) (auto intro: finite_subset [OF _ fin])
      finally have len2: "length (ba_runList ?b2) = length (ba_runList b) - ba_leftThreads b" using bar_len [OF bl] by simp
      have "ba_leftThreads b \<le> length (ba_runList b)"
        unfolding left bar_len [OF bl] by (rule card_mono [OF fin]) auto
      with len2 some_wait have "length (ba_runList b) - length (ba_runList ?b2) = ba_leftThreads ?b2" "0 < length (ba_runList b)"
        using c(4) by auto
      moreover have "?st (?b2\<lparr>ba_leftThreads := 0\<rparr>)" using c eop nr by (auto simp: bar_list_def bar_exact_def)
      ultimately show ?thesis using True by (simp add: Let_def guard_def bar_offline_def)
    qed (use b1 in simp)
    then obtain b3 where b3: "(if ba_phaseCount b mod 32 = 0 then bar_offline ?b1 else Some ?b1) = Some b3" and st3: "?st b3" by blast
    have inv_of: "bar_inv b'" if "?st b'" for b'
      using that by (simp add: bar_inv_def)
    have "\<exists>b'. (if ba_parallelThreads b3 < length (ba_runList b3)
            then bar_shuffle rand (length (ba_runList b3) - 1) b3 else Some b3) = Some b' \<and> ?st b'"
    proof (cases "ba_parallelThreads b3 < length (ba_runList b3)")
      case True
      then have "length (ba_runList b3) - 1 < length (ba_runList b3)" by simp
      with bar_shuffle_ok [of rand b3 "length (ba_runList b3) - 1", OF draw] st3
      obtain r rl li where "bar_shuffle rand (length (ba_runList b3) - 1) b3 = Some (b3\<lparr>ba_rnd := r, ba_runList := rl, ba_lastIdx := li\<rparr>)"
         "length rl = length (ba_runList b3)" "bar_list (b3\<lparr>ba_rnd := r, ba_runList := rl, ba_lastIdx := li\<rparr>)"
         "\<forall>i<length rl. bar_exact (b3\<lparr>ba_rnd := r, ba_runList := rl, ba_lastIdx := li\<rparr>) i"
        by blast
      then show ?thesis using True st3 by simp
    qed (use st3 in simp)
    then obtain b' where b': "(if ba_parallelThreads b3 < length (ba_runList b3)
            then bar_shuffle rand (length (ba_runList b3) - 1) b3 else Some b3) = Some b'" "?st b'" by blast
    have "bar_checkEndPhase rand callback b = Some b'"
      unfolding bar_checkEndPhase_def Let_def b3 bind.bind_lunit b'(1) using eop some_wait by simp
    with b'(2) inv_of show ?thesis by blast
  qed
qed

text \<open>What holds between operations: besides the invariant, no slot is left idle that a thread of this
  phase could use, and if any thread waits then some thread runs.\<close>

definition bar_good :: "('r, 'w) barrier \<Rightarrow> bool" where
  "bar_good b \<longleftrightarrow> bar_inv b \<and> (ba_runningThreads b = ba_parallelThreads b \<or> ba_curThreadIdx b = length (ba_runList b)) \<and>
     (0 < ba_parallelThreads b \<longrightarrow> ba_runningThreads b = 0 \<longrightarrow> (\<forall>t. ba_state b t \<noteq> WAITING))"

lemma bar_tryWakeNext_ok:
  assumes draw: "\<And>r n. \<exists>j r'. rand r n = Some (j, r') \<and> j \<le> n" and inv: "bar_inv b"
  shows "\<exists>b'. bar_tryWakeNext rand callback b = Some b' \<and> bar_good b' \<and> ba_parallelThreads b' = ba_parallelThreads b"
proof -
  from bar_checkRunList_ok [OF inv] obtain b1 where b1: "bar_checkRunList b = Some b1" "bar_inv b1"
    "ba_parallelThreads b1 = ba_parallelThreads b"
    "ba_runningThreads b1 = ba_parallelThreads b \<or> ba_curThreadIdx b1 = length (ba_runList b1)" by metis
  from bar_checkEndPhase_ok [of rand b1 callback, OF draw b1(2)] obtain b2 where b2:
    "bar_checkEndPhase rand callback b1 = Some b2" "bar_inv b2" "ba_parallelThreads b2 = ba_parallelThreads b1"
    "b2 = b1 \<and> (ba_curThreadIdx b1 < length (ba_runList b1) \<or> 0 < ba_runningThreads b1 \<or> (\<forall>t. ba_state b1 t \<noteq> WAITING)) \<or>
     ba_curThreadIdx b2 = 0" by metis
  from bar_checkRunList_ok [OF b2(2)] obtain b3 where b3: "bar_checkRunList b2 = Some b3" "bar_inv b3"
    "ba_runningThreads b3 = ba_parallelThreads b2 \<or> ba_curThreadIdx b3 = length (ba_runList b3)"
    "ba_parallelThreads b3 = ba_parallelThreads b2" "ba_runList b3 = ba_runList b2"
    "ba_runningThreads b2 \<le> ba_runningThreads b3"
    "\<forall>t. ba_state b3 t = ba_state b2 t \<or> ba_state b2 t = WAITING \<and> ba_state b3 t = RUNNING"
    "\<forall>i. ba_curThreadIdx b2 \<le> i \<longrightarrow> i < ba_curThreadIdx b3 \<longrightarrow> ba_state b3 (ba_runList b2 ! i) \<noteq> WAITING" by metis
  have "ba_state b3 t \<noteq> WAITING" if par: "0 < ba_parallelThreads b" and idle: "ba_runningThreads b3 = 0" for t
    using b2(4)
  proof
    assume same: "b2 = b1 \<and> (ba_curThreadIdx b1 < length (ba_runList b1) \<or> 0 < ba_runningThreads b1 \<or> (\<forall>t. ba_state b1 t \<noteq> WAITING))"
    with b1(3,4) par idle b3(6) have "\<forall>t. ba_state b2 t \<noteq> WAITING" by auto
    then show ?thesis using b3(7) by (metis bstate.distinct(7))
  next
    assume cur: "ba_curThreadIdx b2 = 0"
    have eop: "ba_curThreadIdx b3 = length (ba_runList b3)" using b3(3) b2(3) b1(3) par idle by simp
    show ?thesis
    proof
      assume w: "ba_state b3 t = WAITING"
      then have "t \<in> set (ba_runList b3)" using b3(2) by (auto simp: bar_inv_def bar_list_def)
      then obtain i where "i < length (ba_runList b3)" "ba_runList b3 ! i = t" by (auto simp: in_set_conv_nth)
      with b3(5,8) cur eop w show False by auto
    qed
  qed
  with b3 b2(1,3) b1(1,3) show ?thesis by (auto simp: bar_tryWakeNext_def bar_good_def)
qed

section \<open>Operations and runs\<close>

datatype bar_event = Join nat | Leave nat | Sync nat

definition bar_exec ::
  "('r \<Rightarrow> nat \<Rightarrow> (nat \<times> 'r) option) \<Rightarrow> ('w \<Rightarrow> 'w) \<Rightarrow> bar_event \<Rightarrow> ('r, 'w) barrier \<Rightarrow> ('r, 'w) barrier option" where
  "bar_exec rand callback ev b = (case ev of Join t \<Rightarrow> bar_join rand callback t b
     | Leave t \<Rightarrow> bar_leave rand callback t b | Sync t \<Rightarrow> bar_sync rand callback t b)"

text \<open>When the scheduler may call each: \<open>sync\<close> and \<open>leave\<close> by a thread that runs, or \<open>leave\<close> for a
  waiting thread that has been woken since it joined.\<close>

definition bar_enabled :: "bar_event \<Rightarrow> ('r, 'w) barrier \<Rightarrow> bool" where
  "bar_enabled ev b = (case ev of
     Join t \<Rightarrow> t < MAX_THREADS \<and> (ba_state b t = LEFT \<or> ba_state b t = OFFLINE)
   | Leave t \<Rightarrow> ba_state b t = RUNNING \<or>
       ba_state b t = WAITING \<and> ba_lastIdx b t < length (ba_runList b) \<and> ba_runList b ! ba_lastIdx b t = t
   | Sync t \<Rightarrow> ba_state b t = RUNNING)"

inductive bar_reach :: "nat \<Rightarrow> ('r \<Rightarrow> nat \<Rightarrow> (nat \<times> 'r) option) \<Rightarrow> ('w \<Rightarrow> 'w) \<Rightarrow> ('r, 'w) barrier \<Rightarrow> bool"
  for par rand callback where
  init: "bar_reach par rand callback (bar_new par r w)"
| step: "bar_reach par rand callback b \<Longrightarrow> bar_enabled ev b \<Longrightarrow> bar_exec rand callback ev b = Some b' \<Longrightarrow>
    bar_reach par rand callback b'"

lemma bar_nth_unique: "bar_list b \<Longrightarrow> i < length (ba_runList b) \<Longrightarrow> j < length (ba_runList b) \<Longrightarrow>
    (ba_runList b ! i = ba_runList b ! j) = (i = j)"
  by (simp add: bar_list_def nth_eq_iff_index_eq)

lemma bar_not_running_idx:
  assumes "bar_inv b" "ba_state b t = RUNNING"
  obtains i where "i < ba_curThreadIdx b" "i < length (ba_runList b)" "ba_runList b ! i = t" "ba_lastIdx b t = i"
proof -
  have "t \<in> set (ba_runList b)" using assms by (auto simp: bar_inv_def bar_list_def)
  then obtain i where "i < length (ba_runList b)" "ba_runList b ! i = t" by (auto simp: in_set_conv_nth)
  with assms that [of i] show thesis unfolding bar_inv_def bar_exact_def by (metis bstate.distinct(7) not_le)
qed

text \<open>A thread that runs stops: it leaves or it waits for the next phase.\<close>

lemma bar_stop_inv:
  assumes inv: "bar_inv b" and run: "ba_state b t = RUNNING" and s: "s = LEFT \<or> s = WAITING"
    and fw: "s = WAITING \<Longrightarrow> fw t = 1" "\<And>u. u \<noteq> t \<Longrightarrow> fw u = ba_futexWord b u"
  shows "bar_inv (b\<lparr>ba_state := (ba_state b)(t := s), ba_futexWord := fw, ba_runningThreads := ba_runningThreads b - 1,
    ba_leftThreads := ba_leftThreads b + (if s = LEFT then 1 else 0)\<rparr>)" (is "bar_inv ?b")
proof -
  have bl: "bar_list b" using inv by (simp add: bar_inv_def)
  obtain k where k: "k < ba_curThreadIdx b" "k < length (ba_runList b)" "ba_runList b ! k = t" "ba_lastIdx b t = k"
    using bar_not_running_idx [OF inv run] by blast
  have "bar_list ?b" using bl run s fw unfolding bar_list_def by auto
  moreover have "ba_runningThreads ?b = card {u. ba_state ?b u = RUNNING}" "ba_leftThreads ?b = card {u. ba_state ?b u = LEFT}"
    using inv run s bar_list_finite [OF bl, of RUNNING] bar_list_finite [OF bl, of LEFT]
    by (auto simp: bar_inv_def card_state_upd simp del: fun_upd_apply)
  moreover have "\<forall>i<length (ba_runList ?b). ba_curThreadIdx ?b \<le> i \<longrightarrow> ba_state ?b (ba_runList ?b ! i) \<noteq> RUNNING"
    using inv s by (auto simp: bar_inv_def)
  moreover have "bar_exact ?b i \<or> ba_curThreadIdx ?b \<le> i \<and> ba_state ?b (ba_runList ?b ! i) = WAITING"
    if "i < length (ba_runList ?b)" for i
    using inv that k bar_nth_unique [OF bl _ k(2), of i] by (cases "i = k") (auto simp: bar_inv_def bar_exact_def)
  moreover have "ba_curThreadIdx ?b \<le> length (ba_runList ?b)" "ba_runningThreads ?b \<le> ba_parallelThreads ?b"
    using inv by (auto simp: bar_inv_def)
  ultimately show ?thesis unfolding bar_inv_def by simp
qed

lemma bar_sync_ok:
  assumes draw: "\<And>r n. \<exists>j r'. rand r n = Some (j, r') \<and> j \<le> n" and inv: "bar_inv b" and "ba_state b t = RUNNING"
  shows "\<exists>b'. bar_sync rand callback t b = Some b' \<and> bar_good b' \<and> ba_parallelThreads b' = ba_parallelThreads b"
proof -
  let ?b = "b\<lparr>ba_futexWord := (ba_futexWord b)(t := 1), ba_state := (ba_state b)(t := WAITING),
    ba_runningThreads := ba_runningThreads b - 1\<rparr>"
  have "bar_inv ?b" using bar_stop_inv [OF inv assms(3), of WAITING "(ba_futexWord b)(t := 1)"]
    by (rule back_subst [of bar_inv]) simp_all
  from bar_tryWakeNext_ok [of rand, OF draw this, of callback] assms(3) show ?thesis by (simp add: bar_sync_def)
qed

lemma bar_leave_ok:
  assumes draw: "\<And>r n. \<exists>j r'. rand r n = Some (j, r') \<and> j \<le> n" and good: "bar_good b" and en: "bar_enabled (Leave t) b"
  shows "\<exists>b'. bar_leave rand callback t b = Some b' \<and> bar_good b' \<and> ba_parallelThreads b' = ba_parallelThreads b"
proof (cases "ba_state b t = RUNNING")
  case True
  have "bar_inv b" using good by (simp add: bar_good_def)
  let ?b = "b\<lparr>ba_state := (ba_state b)(t := LEFT), ba_leftThreads := ba_leftThreads b + 1,
    ba_runningThreads := ba_runningThreads b - 1\<rparr>"
  have "bar_inv ?b" using bar_stop_inv [OF \<open>bar_inv b\<close> True, of LEFT "ba_futexWord b"]
    by (rule back_subst [of bar_inv]) simp_all
  from bar_tryWakeNext_ok [of rand, OF draw this, of callback] True show ?thesis by (simp add: bar_leave_def Let_def)
next
  case False
  with en have w: "ba_state b t = WAITING" "ba_lastIdx b t < length (ba_runList b)" "ba_runList b ! ba_lastIdx b t = t"
    by (auto simp: bar_enabled_def)
  have inv: "bar_inv b" and bl: "bar_list b" using good by (simp_all add: bar_good_def bar_inv_def)
  let ?b = "b\<lparr>ba_state := (ba_state b)(t := LEFT), ba_leftThreads := ba_leftThreads b + 1\<rparr>"
  have "bar_list ?b" using bl w unfolding bar_list_def by auto
  moreover have "ba_runningThreads ?b = card {u. ba_state ?b u = RUNNING}" "ba_leftThreads ?b = card {u. ba_state ?b u = LEFT}"
    using inv w bar_list_finite [OF bl, of RUNNING] bar_list_finite [OF bl, of LEFT]
    by (auto simp: bar_inv_def card_state_upd simp del: fun_upd_apply)
  moreover have "\<forall>i<length (ba_runList ?b). ba_curThreadIdx ?b \<le> i \<longrightarrow> ba_state ?b (ba_runList ?b ! i) \<noteq> RUNNING"
    using inv by (auto simp: bar_inv_def)
  moreover have "bar_exact ?b i \<or> ba_curThreadIdx ?b \<le> i \<and> ba_state ?b (ba_runList ?b ! i) = WAITING"
    if "i < length (ba_runList b)" for i
    using inv that w bar_nth_unique [OF bl that w(2)] by (cases "i = ba_lastIdx b t") (auto simp: bar_inv_def bar_exact_def)
  ultimately have "bar_inv ?b" using inv by (simp add: bar_inv_def)
  then show ?thesis using good w by (auto simp: bar_leave_def Let_def guard_def bar_good_def)
qed

text \<open>A thread that comes back waits: a new one at the end of the list, one that left where it is.\<close>

lemma bar_new_inv:
  assumes inv: "bar_inv b" and off: "ba_state b t = OFFLINE" and t: "t < MAX_THREADS"
  shows "bar_inv (b\<lparr>ba_runList := ba_runList b @ [t], ba_state := (ba_state b)(t := WAITING),
    ba_futexWord := (ba_futexWord b)(t := 1)\<rparr>)" (is "bar_inv ?b") and "length (ba_runList b) < MAX_THREADS"
proof -
  have bl: "bar_list b" using inv by (simp add: bar_inv_def)
  have nin: "t \<notin> set (ba_runList b)" using bl off by (simp add: bar_list_def)
  have sub: "insert t (set (ba_runList b)) \<subseteq> {..<MAX_THREADS}" using bl t by (auto simp: bar_list_def)
  have "card (insert t (set (ba_runList b))) = length (ba_runList b) + 1"
    using card_insert_disjoint [OF finite_set nin] distinct_card [of "ba_runList b"] bl by (simp add: bar_list_def del: card_insert_disjoint)
  with card_mono [OF _ sub] show "length (ba_runList b) < MAX_THREADS" by simp
  have "bar_list ?b" using bl off t nin unfolding bar_list_def by auto
  moreover have "ba_runningThreads ?b = card {u. ba_state ?b u = RUNNING}" "ba_leftThreads ?b = card {u. ba_state ?b u = LEFT}"
    using inv off bar_list_finite [OF bl, of RUNNING] bar_list_finite [OF bl, of LEFT]
    by (auto simp: bar_inv_def card_state_upd simp del: fun_upd_apply)
  moreover have "ba_curThreadIdx ?b \<le> i \<longrightarrow> ba_state ?b (ba_runList ?b ! i) \<noteq> RUNNING" if "i < length (ba_runList ?b)" for i
    using inv that by (auto simp: bar_inv_def nth_append)
  moreover have "bar_exact ?b i \<or> ba_curThreadIdx ?b \<le> i \<and> ba_state ?b (ba_runList ?b ! i) = WAITING"
    if "i < length (ba_runList ?b)" for i
    using inv that by (cases "i = length (ba_runList b)") (auto simp: bar_inv_def bar_exact_def nth_append less_Suc_eq)
  moreover have "ba_curThreadIdx ?b \<le> length (ba_runList ?b)" "ba_runningThreads ?b \<le> ba_parallelThreads ?b"
    using inv by (auto simp: bar_inv_def)
  ultimately show "bar_inv ?b" unfolding bar_inv_def by simp
qed

lemma bar_back_inv:
  assumes inv: "bar_inv b" and left: "ba_state b t = LEFT"
  shows "bar_inv (b\<lparr>ba_leftThreads := ba_leftThreads b - 1, ba_state := (ba_state b)(t := WAITING),
    ba_futexWord := (ba_futexWord b)(t := 1)\<rparr>)" (is "bar_inv ?b")
proof -
  have bl: "bar_list b" using inv by (simp add: bar_inv_def)
  have "bar_list ?b" using bl left unfolding bar_list_def by auto
  moreover have "ba_runningThreads ?b = card {u. ba_state ?b u = RUNNING}" "ba_leftThreads ?b = card {u. ba_state ?b u = LEFT}"
    using inv left bar_list_finite [OF bl, of RUNNING] bar_list_finite [OF bl, of LEFT]
    by (auto simp: bar_inv_def card_state_upd simp del: fun_upd_apply)
  ultimately show ?thesis using inv unfolding bar_inv_def by (auto simp: bar_exact_def)
qed

lemma bar_left_idx:
  assumes inv: "bar_inv b" and left: "ba_state b t = LEFT"
  shows "ba_lastIdx b t < length (ba_runList b)" "ba_runList b ! ba_lastIdx b t = t"
proof -
  have "t \<in> set (ba_runList b)" using inv left by (auto simp: bar_inv_def bar_list_def)
  then obtain i where i: "i < length (ba_runList b)" "ba_runList b ! i = t" by (auto simp: in_set_conv_nth)
  with inv left have "ba_lastIdx b t = i" unfolding bar_inv_def bar_exact_def by (metis bstate.distinct(9))
  with i show "ba_lastIdx b t < length (ba_runList b)" "ba_runList b ! ba_lastIdx b t = t" by simp_all
qed

lemma bar_swap_inv:
  assumes inv: "bar_inv b" and p: "p < ba_curThreadIdx b" and w: "ba_state b (ba_runList b ! p) = WAITING"
    and c: "cur = ba_curThreadIdx b - 1"
    and rl: "rl = (ba_runList b)[p := ba_runList b ! cur, cur := ba_runList b ! p]"
    and li: "li = (ba_lastIdx b)(ba_runList b ! cur := p, ba_runList b ! p := cur)"
  shows "bar_inv (b\<lparr>ba_curThreadIdx := cur, ba_runList := rl, ba_lastIdx := li\<rparr>)" (is "bar_inv ?b")
proof -
  have bl: "bar_list b" and d: "distinct (ba_runList b)" using inv by (simp_all add: bar_inv_def bar_list_def)
  have lc: "cur < length (ba_runList b)" and lp: "p < length (ba_runList b)" using p c inv by (auto simp: bar_inv_def)
  note same = swap_same [OF lp lc, folded rl]
  have len: "length rl = length (ba_runList b)" by (simp add: rl)
  have "bar_list ?b" using bl same by (simp add: bar_list_def)
  moreover have nth: "rl ! i = (if i = cur then ba_runList b ! p else if i = p then ba_runList b ! cur else ba_runList b ! i)"
    if "i < length (ba_runList b)" for i using that lc lp by (simp add: rl nth_list_update)
  have "cur \<le> i \<longrightarrow> ba_state ?b (rl ! i) \<noteq> RUNNING" if i: "i < length (ba_runList b)" for i
  proof (cases "i = cur")
    case False
    then have "i \<noteq> p" "ba_curThreadIdx b \<le> i" if "cur \<le> i" using p c that by auto
    with False inv i nth [OF i] show ?thesis by (auto simp: bar_inv_def)
  qed (use w nth [OF i] in simp)
  moreover have "bar_exact ?b i \<or> cur \<le> i \<and> ba_state ?b (rl ! i) = WAITING" if i: "i < length (ba_runList b)" for i
  proof -
    have L: "li (ba_runList b ! p) = cur" "li (ba_runList b ! cur) = p"
      using bar_nth_unique [OF bl lp lc] by (auto simp: li)
    from swap_exact [OF d lp lc i L, of "ba_lastIdx b", folded rl] inv i c show ?thesis
      by (auto simp: li bar_exact_def bar_inv_def)
  qed
  ultimately show ?thesis using inv len lc by (auto simp: bar_inv_def)
qed

lemma bar_join_ok:
  assumes draw: "\<And>r n. \<exists>j r'. rand r n = Some (j, r') \<and> j \<le> n" and inv: "bar_inv b" and en: "bar_enabled (Join t) b"
  shows "\<exists>b'. bar_join rand callback t b = Some b' \<and> bar_good b' \<and> ba_parallelThreads b' = ba_parallelThreads b"
proof (cases "ba_state b t = OFFLINE")
  case off: True
  with en have t: "t < MAX_THREADS" by (simp add: bar_enabled_def)
  from bar_tryWakeNext_ok [of rand, OF draw bar_new_inv(1) [OF inv off t], of callback] bar_new_inv(2) [OF inv off t] off t
  show ?thesis by (simp add: bar_join_def guard_def)
next
  case False
  with en have left: "ba_state b t = LEFT" and t: "t < MAX_THREADS" by (auto simp: bar_enabled_def)
  note inv1 = bar_back_inv [OF inv left] and idx = bar_left_idx [OF inv left]
  show ?thesis
  proof (cases "ba_curThreadIdx b > ba_lastIdx b t")
    case True
    let ?cur = "ba_curThreadIdx b - 1" and ?p = "ba_lastIdx b t"
    let ?b = "b\<lparr>ba_leftThreads := ba_leftThreads b - 1, ba_curThreadIdx := ?cur,
      ba_runList := (ba_runList b)[?p := ba_runList b ! ?cur, ?cur := t], ba_lastIdx := (ba_lastIdx b)(ba_runList b ! ?cur := ?p, t := ?cur),
      ba_state := (ba_state b)(t := WAITING), ba_futexWord := (ba_futexWord b)(t := 1)\<rparr>"
    have "bar_inv ?b" using bar_swap_inv [OF inv1, of ?p, OF _ _ refl refl refl] True idx
      by (auto elim!: back_subst [of bar_inv])
    from bar_tryWakeNext_ok [of rand, OF draw this, of callback] show ?thesis
      using True idx left t by (simp add: bar_join_def bar_rejoin_def guard_def Let_def)
  next
    case False
    from bar_tryWakeNext_ok [of rand, OF draw inv1, of callback] show ?thesis
      using False left t by (simp add: bar_join_def bar_rejoin_def guard_def Let_def)
  qed
qed

lemma bar_exec_ok:
  assumes "\<And>r n. \<exists>j r'. rand r n = Some (j, r') \<and> j \<le> n" "bar_good b" "bar_enabled ev b"
  shows "\<exists>b'. bar_exec rand callback ev b = Some b' \<and> bar_good b' \<and> ba_parallelThreads b' = ba_parallelThreads b"
  using bar_join_ok [of rand b] bar_leave_ok [of rand b] bar_sync_ok [of rand b] assms
  by (cases ev) (auto simp: bar_exec_def bar_good_def bar_enabled_def)

lemma bar_new_good: "bar_good (bar_new par r w)"
  by (simp add: bar_new_def bar_good_def bar_inv_def bar_list_def)

lemma bar_reach_good:
  assumes "\<And>r n. \<exists>j r'. rand r n = Some (j, r') \<and> j \<le> n" and "bar_reach par rand callback b"
  shows "bar_good b \<and> ba_parallelThreads b = par"
  using assms(2)
proof induction
  case (init r w)
  show ?case using bar_new_good by (simp add: bar_new_def)
next
  case (step b ev b')
  with bar_exec_ok [of rand, OF assms(1), of b ev callback] show ?case by auto
qed

text \<open>A waiting thread may leave before it was woken: nothing fails then, but its \<open>lastIdx\<close> is not its place, and its next
  \<open>join\<close> fails.\<close>

lemma stale_leave:
  assumes "ba_state b t = WAITING" and "ba_lastIdx b t < ba_curThreadIdx b" and "ba_runList b ! ba_lastIdx b t \<noteq> t"
  shows "\<exists>b'. bar_exec rand callback (Leave t) b = Some b' \<and> bar_exec rand callback (Join t) b' = None"
  using assms by (simp add: bar_exec_def bar_leave_def bar_join_def bar_rejoin_def Let_def guard_def)

text \<open>C24. Safety of the barrier, for the operations that \<open>bar_enabled\<close> permits: joins of threads that are offline or left,
  syncs and leaves of threads that run, and leaves of waiting threads that were woken since they joined, at their place in
  the run list. In every state that these lead to, at most \<open>parallelThreads\<close> threads run, the counters of running and left
  threads are exact, the run list holds each thread that is not offline once, and no assertion of the next such operation
  fails (nor its wakeup-race panic), provided the generator draws within its bound. The condition on leaves is not checked by
  \<^verbatim>\<open>barrier.h\<close>, which lets threads leave at any point: a waiting thread with a stale \<open>lastIdx\<close> behind \<open>curThreadIdx\<close> leaves
  without complaint, and its next join fails the assertion on its place. \<open>bar_stale_lastIdx\<close> is such a run.\<close>

theorem barrier_safe:
  assumes "\<And>r n. \<exists>j r'. rand r n = Some (j, r') \<and> j \<le> n" and "bar_reach par rand callback b"
  shows "card {t. ba_state b t = RUNNING} \<le> par \<and> ba_runningThreads b = card {t. ba_state b t = RUNNING} \<and>
    ba_leftThreads b = card {t. ba_state b t = LEFT} \<and>
    distinct (ba_runList b) \<and> set (ba_runList b) = {t. ba_state b t \<noteq> OFFLINE} \<and>
    (\<forall>ev. bar_enabled ev b \<longrightarrow> bar_exec rand callback ev b \<noteq> None) \<and>
    (\<forall>t. ba_state b t = WAITING \<longrightarrow> ba_lastIdx b t < ba_curThreadIdx b \<longrightarrow> ba_runList b ! ba_lastIdx b t \<noteq> t \<longrightarrow>
      (\<exists>b'. bar_exec rand callback (Leave t) b = Some b' \<and> bar_exec rand callback (Join t) b' = None))"
proof -
  have good: "bar_good b" "ba_parallelThreads b = par" using bar_reach_good [of rand, OF assms] by simp_all
  then have "bar_inv b" by (simp add: bar_good_def)
  moreover have "bar_exec rand callback ev b \<noteq> None" if "bar_enabled ev b" for ev
    using bar_exec_ok [of rand, OF assms(1) good(1) that, of callback] by auto
  ultimately show ?thesis using good(2) stale_leave [of b] by (simp add: bar_inv_def bar_list_def)
qed

text \<open>A run on one slot: thread 3 joins and is woken at once, in the first phase.\<close>

definition draw0 :: "unit \<Rightarrow> nat \<Rightarrow> (nat \<times> unit) option" where "draw0 r n = Some (0, r)"

lemma bar_join_3:
  obtains b where "bar_exec draw0 Suc (Join 3) (bar_new 1 () 0) = Some b" "ba_state b 3 = RUNNING" "ba_state b 4 = OFFLINE"
  by (simp add: bar_exec_def bar_join_def bar_new_def guard_def MAX_THREADS_def bar_tryWakeNext_def bar_checkRunList.simps
    bar_checkEndPhase_def)

lemma bar_reach_3:
  obtains b where "bar_reach 1 draw0 Suc b" "ba_state b 3 = RUNNING" "ba_state b 4 = OFFLINE"
  using bar_join_3 bar_reach.step [OF bar_reach.init, of "Join 3" 1 "()" 0 draw0 Suc]
  by (auto simp: bar_enabled_def bar_new_def MAX_THREADS_def)

theorem barrier_safe_witness:
  "\<exists>b. ba_state b 3 = RUNNING \<and> card {t. ba_state b t = RUNNING} \<le> 1 \<and> bar_exec draw0 Suc (Join 4) b \<noteq> None"
proof -
  obtain b where b: "bar_reach 1 draw0 Suc b" "ba_state b 3 = RUNNING" "ba_state b 4 = OFFLINE" using bar_reach_3 by blast
  have "\<And>r n. \<exists>j r'. draw0 r n = Some (j, r') \<and> j \<le> n" by (simp add: draw0_def)
  from barrier_safe [OF this b(1)] b show ?thesis by (auto simp: bar_enabled_def MAX_THREADS_def)
qed

text \<open>C25. Progress of the barrier: with at least one slot, whenever some thread waits some thread runs, so
  a phase never stalls, and no slot stays free while a thread of this phase has not been woken: either
  all slots are taken or the whole run list has been passed.\<close>

theorem barrier_no_deadlock:
  assumes "\<And>r n. \<exists>j r'. rand r n = Some (j, r') \<and> j \<le> n" and "bar_reach par rand callback b" and "0 < par"
  shows "((\<exists>t. ba_state b t = WAITING) \<longrightarrow> (\<exists>t. ba_state b t = RUNNING)) \<and>
    (card {t. ba_state b t = RUNNING} = par \<or> ba_curThreadIdx b = length (ba_runList b))"
proof -
  have good: "bar_good b" "ba_parallelThreads b = par" using bar_reach_good [of rand, OF assms(1,2)] by simp_all
  then have run: "ba_runningThreads b = card {t. ba_state b t = RUNNING}" by (simp add: bar_good_def bar_inv_def)
  have "\<exists>t. ba_state b t = RUNNING" if "ba_state b t = WAITING" for t
  proof (rule ccontr)
    assume "\<not> ?thesis"
    with run have "ba_runningThreads b = 0" by simp
    with good assms(3) that show False by (auto simp: bar_good_def)
  qed
  with good run show ?thesis by (auto simp: bar_good_def)
qed

theorem barrier_no_deadlock_witness:
  "\<exists>b :: (unit, nat) barrier. ba_state b 3 = RUNNING \<and> (card {t. ba_state b t = RUNNING} = 1 \<or> ba_curThreadIdx b = length (ba_runList b))"
proof -
  obtain b where b: "bar_reach 1 draw0 Suc b" "ba_state b 3 = RUNNING" "ba_state b 4 = OFFLINE" using bar_reach_3 by blast
  have "\<And>r n. \<exists>j r'. draw0 r n = Some (j, r') \<and> j \<le> n" by (simp add: draw0_def)
  from barrier_no_deadlock [OF this b(1)] b(2) show ?thesis by auto
qed

text \<open>Why \<open>bar_enabled\<close> asks that a waiting thread that leaves has been woken: \<open>join\<close> of an offline thread
  does not set \<open>lastIdx\<close>, so that such a thread fails the assertion of its next \<open>join\<close>.\<close>

lemma bar_stale_lastIdx:
  "Option.bind (bar_exec draw0 Suc (Join 0) (bar_new 1 () 0)) (\<lambda>b.
   Option.bind (bar_exec draw0 Suc (Join 1) b) (\<lambda>b.
   Option.bind (bar_exec draw0 Suc (Leave 1) b) (\<lambda>b. bar_exec draw0 Suc (Join 1) b))) = None"
  by (simp add: bar_exec_def bar_join_def bar_leave_def bar_rejoin_def bar_new_def guard_def MAX_THREADS_def
    bar_tryWakeNext_def bar_checkRunList.simps bar_checkEndPhase_def Let_def)

end
