(* ===== verification/Mt_Rand.thy ===== *)
theory Mt_Rand
  imports Prelude
begin

text \<open>
  The Mersenne Twister of \<^verbatim>\<open>zsim/src/mtrand.h\<close>, which the barrier, the random policy, the Vantage
  policy and the H3 hash functions draw from. Words are 64 bits wide, as the source has them, and hold
  32-bit values. \<open>mt_next\<close> is the index that \<open>pNext\<close> points to. The conversions to \<open>double\<close> and the
  seeding from the clock are left out.
\<close>

section \<open>State and seeding\<close>

definition MT_N :: nat where "MT_N = 624"
definition MT_M :: nat where "MT_M = 397"

record mt =
  mt_state :: "u64 list"
  mt_next :: nat
  mt_left :: nat

definition mt_hiBit :: "u64 \<Rightarrow> u64" where "mt_hiBit u = u AND 0x80000000"
definition mt_loBit :: "u64 \<Rightarrow> u64" where "mt_loBit u = u AND 1"
definition mt_loBits :: "u64 \<Rightarrow> u64" where "mt_loBits u = u AND 0x7fffffff"
definition mt_mixBits :: "u64 \<Rightarrow> u64 \<Rightarrow> u64" where "mt_mixBits u v = mt_hiBit u OR mt_loBits v"
definition mt_magic :: "u64 \<Rightarrow> u64" where "mt_magic u = (if mt_loBit u \<noteq> 0 then 0x9908b0df else 0)"
definition mt_twist :: "u64 \<Rightarrow> u64 \<Rightarrow> u64 \<Rightarrow> u64" where
  "mt_twist m s0 s1 = m XOR drop_bit 1 (mt_mixBits s0 s1) XOR mt_magic s1"

definition mt_initialize :: "u64 \<Rightarrow> u64 list \<Rightarrow> u64 list" where
  "mt_initialize seed s =
     fold (\<lambda>i s. s[i := (1812433253 * (s ! (i - 1) XOR drop_bit 30 (s ! (i - 1))) + of_nat i) AND 0xffffffff])
       [1..<MT_N] (s[0 := seed AND 0xffffffff])"

definition mt_reload :: "u64 list \<Rightarrow> mt" where
  "mt_reload s =
     (let s1 = fold (\<lambda>p s. s[p := mt_twist (s ! (p + MT_M)) (s ! p) (s ! (p + 1))]) [0..<MT_N - MT_M] s;
          s2 = fold (\<lambda>p s. s[p := mt_twist (s ! (p + MT_M - MT_N)) (s ! p) (s ! (p + 1))]) [MT_N - MT_M..<MT_N - 1] s1;
          p = MT_N - 1
      in \<lparr>mt_state = s2[p := mt_twist (s2 ! (p + MT_M - MT_N)) (s2 ! p) (s2 ! 0)], mt_next = 0, mt_left = MT_N\<rparr>)"

definition mt_seed :: "u64 \<Rightarrow> u64 list \<Rightarrow> mt" where
  "mt_seed oneSeed s = mt_reload (mt_initialize oneSeed s)"

text \<open>Seeding with an array: one step of each of the two passes, on the state array and the index \<open>i\<close>
  (and \<open>j\<close> into the seed).\<close>

definition mt_seed_wrap :: "u64 list \<Rightarrow> nat \<Rightarrow> u64 list \<times> nat" where
  "mt_seed_wrap s i = (if i \<ge> MT_N then (s[0 := s ! (MT_N - 1)], 1) else (s, i))"

definition mt_seed_pass1 :: "u64 list \<Rightarrow> (u64 list \<times> nat) \<times> nat \<Rightarrow> (u64 list \<times> nat) \<times> nat" where
  "mt_seed_pass1 bigSeed = (\<lambda>((s, i), j).
     let v = s ! i XOR (s ! (i - 1) XOR drop_bit 30 (s ! (i - 1))) * 1664525;
         w = v + ((bigSeed ! j AND 0xffffffff) + of_nat j);
         s1 = s[i := w AND 0xffffffff]
     in (mt_seed_wrap s1 (i + 1), if j + 1 \<ge> length bigSeed then 0 else j + 1))"

definition mt_seed_pass2 :: "u64 list \<times> nat \<Rightarrow> u64 list \<times> nat" where
  "mt_seed_pass2 = (\<lambda>(s, i).
     let v = s ! i XOR (s ! (i - 1) XOR drop_bit 30 (s ! (i - 1))) * 1566083941;
         s1 = s[i := (v - of_nat i) AND 0xffffffff]
     in mt_seed_wrap s1 (i + 1))"

definition mt_seed_array :: "u64 list \<Rightarrow> u64 list \<Rightarrow> mt option" where
  "mt_seed_array bigSeed s0 =
     Option.bind (guard (bigSeed \<noteq> [])) (\<lambda>_.
     let (si, j) = (mt_seed_pass1 bigSeed ^^ max MT_N (length bigSeed)) ((mt_initialize 19650218 s0, 1), 0);
         (s, i) = (mt_seed_pass2 ^^ (MT_N - 1)) si
     in Some (mt_reload (s[0 := 0x80000000])))"

section \<open>Drawing\<close>

definition mt_temper :: "u64 \<Rightarrow> u64" where
  "mt_temper w =
     (let s1 = w XOR drop_bit 11 w;
          s2 = s1 XOR (push_bit 7 s1 AND 0x9d2c5680);
          s3 = s2 XOR (push_bit 15 s2 AND 0xefc60000)
      in s3 XOR drop_bit 18 s3)"

definition mt_randInt :: "mt \<Rightarrow> (u64 \<times> mt) option" where
  "mt_randInt m =
     (let m1 = (if mt_left m = 0 then mt_reload (mt_state m) else m) in
      Option.bind (guard (mt_next m1 < length (mt_state m1))) (\<lambda>_.
      Some (mt_temper (mt_state m1 ! mt_next m1), m1\<lparr>mt_left := mt_left m1 - 1, mt_next := mt_next m1 + 1\<rparr>)))"

definition mt_used :: "u64 \<Rightarrow> u64" where
  "mt_used n =
     (let u1 = n OR drop_bit 1 n; u2 = u1 OR drop_bit 2 u1; u3 = u2 OR drop_bit 4 u2; u4 = u3 OR drop_bit 8 u3
      in u4 OR drop_bit 16 u4)"

text \<open>Draws are repeated until one falls into [0, n].\<close>

partial_function (option) mt_draw :: "u64 \<Rightarrow> u64 \<Rightarrow> mt \<Rightarrow> (u64 \<times> mt) option" where
  "mt_draw used n m = Option.bind (mt_randInt m) (\<lambda>(w, m').
     let i = w AND used in if i > n then mt_draw used n m' else Some (i, m'))"

definition mt_randIntN :: "u64 \<Rightarrow> mt \<Rightarrow> (u64 \<times> mt) option" where
  "mt_randIntN n m = mt_draw (mt_used n) n m"

section \<open>Saving and loading\<close>

definition mt_save :: "mt \<Rightarrow> u64 list" where
  "mt_save m = mt_state m @ [of_nat (mt_left m)]"

definition mt_load :: "u64 list \<Rightarrow> mt option" where
  "mt_load la =
     Option.bind (guard (length la = MT_N + 1 \<and> unat (la ! MT_N) \<le> MT_N)) (\<lambda>_.
     let l = unat (la ! MT_N) in Some \<lparr>mt_state = take MT_N la, mt_next = MT_N - l, mt_left = l\<rparr>)"

definition mt_copy :: "mt \<Rightarrow> mt" where
  "mt_copy m = \<lparr>mt_state = mt_state m, mt_next = MT_N - mt_left m, mt_left = mt_left m\<rparr>"

section \<open>Every word is a 32-bit value\<close>

definition low32 :: "u64 \<Rightarrow> bool" where
  "low32 w \<longleftrightarrow> (\<forall>n\<ge>32. \<not> bit w n)"

lemma low32_iff: "low32 w \<longleftrightarrow> w < 2 ^ 32"
proof
  assume "low32 w"
  then have "bit (take_bit 32 w) n = bit w n" for n unfolding low32_def bit_take_bit_iff by (metis not_le)
  then have "take_bit 32 w = w" by (rule bit_word_eqI)
  then have "unat w < 2 ^ 32" by (metis take_bit_nat_less_exp unsigned_take_bit_eq)
  then show "w < 2 ^ 32" by (simp add: word_less_nat_alt)
next
  assume "w < 2 ^ 32"
  then have "take_bit 32 (unat w) = unat w" by (simp add: word_less_nat_alt take_bit_nat_eq_self)
  then have "take_bit 32 w = w" by (metis unsigned_take_bit_eq word_unat_eq_iff)
  then show "low32 w" unfolding low32_def by (metis bit_take_bit_iff not_le)
qed

lemma low32_bits [intro]:
  "low32 v \<Longrightarrow> low32 w \<Longrightarrow> low32 (v XOR w)" "low32 v \<Longrightarrow> low32 w \<Longrightarrow> low32 (v OR w)"
  "low32 w \<Longrightarrow> low32 (v AND w)" "low32 w \<Longrightarrow> low32 (drop_bit k w)"
  by (auto simp: low32_def bit_simps)

lemma low32_const [simp]: "low32 0" "low32 (numeral k) \<longleftrightarrow> numeral k < (4294967296 :: u64)"
  by (simp_all add: low32_iff)

lemma low32_and: "low32 (w AND 0xffffffff)"
  by (rule low32_bits(3)) simp

lemma low32_twist: "low32 m \<Longrightarrow> low32 (mt_twist m s0 s1)"
  by (auto simp: mt_twist_def mt_mixBits_def mt_hiBit_def mt_loBits_def mt_magic_def intro!: low32_bits)

lemma low32_temper: "low32 w \<Longrightarrow> low32 (mt_temper w)"
  by (auto simp: mt_temper_def Let_def intro!: low32_bits)

definition mt_words :: "u64 list \<Rightarrow> bool" where
  "mt_words s \<longleftrightarrow> length s = MT_N \<and> list_all low32 s"

definition mt_ok :: "mt \<Rightarrow> bool" where
  "mt_ok m \<longleftrightarrow> mt_words (mt_state m) \<and> mt_left m \<le> MT_N \<and> mt_next m = MT_N - mt_left m"

lemma mt_words_upd: "mt_words s \<Longrightarrow> low32 w \<Longrightarrow> mt_words (s[i := w])"
  by (simp add: mt_words_def list_all_update)

lemma mt_words_nth: "mt_words s \<Longrightarrow> i < MT_N \<Longrightarrow> low32 (s ! i)"
  by (simp add: mt_words_def list_all_length)

lemma fold_inv: "P s \<Longrightarrow> (\<And>x s. x \<in> set xs \<Longrightarrow> P s \<Longrightarrow> P (f x s)) \<Longrightarrow> P (fold f xs s)"
  by (induction xs arbitrary: s) auto

lemma fold_fill:
  assumes "\<And>i s. P (f i s)" and "j < length s" and "a \<le> j \<and> j < b \<or> P (s ! j)"
  shows "P (fold (\<lambda>i s. s[i := f i s]) [a..<b] s ! j)"
  using assms(3)
proof (induction b)
  case (Suc b)
  have len: "length (fold (\<lambda>i s. s[i := f i s]) [a..<b] s) = length s" for b
    by (rule fold_inv [where P = "\<lambda>t. length t = length s"]) auto
  show ?case
  proof (cases "a \<le> b")
    case True
    then show ?thesis using Suc assms(1,2) len [of b] by (cases "j = b") (auto simp: nth_list_update)
  qed (use Suc.prems in auto)
qed simp

lemma mt_words_initialize: "length s = MT_N \<Longrightarrow> mt_words (mt_initialize seed s)"
proof -
  assume l: "length s = MT_N"
  let ?s0 = "s[0 := seed AND 0xffffffff]" and ?f = "\<lambda>i s. (1812433253 * (s ! (i - 1) XOR drop_bit 30 (s ! (i - 1))) + of_nat i) AND (0xffffffff :: u64)"
  define f where "f = ?f"
  have f: "low32 (f i s)" for i s unfolding f_def by (rule low32_and)
  have "length (mt_initialize seed s) = MT_N"
    unfolding mt_initialize_def by (rule fold_inv [where P = "\<lambda>t. length t = MT_N"]) (use l in auto)
  moreover have "low32 (mt_initialize seed s ! j)" if "j < MT_N" for j
  proof -
    have "1 \<le> j \<and> j < MT_N \<or> low32 (?s0 ! j)" using that l low32_and by (cases "j = 0") (simp_all add: nth_list_update)
    with that l fold_fill [where P = low32, of f j ?s0 1 MT_N, OF f] show ?thesis by (simp add: mt_initialize_def f_def)
  qed
  ultimately show ?thesis by (simp add: mt_words_def list_all_length)
qed

lemma mt_ok_reload:
  assumes "mt_words s"
  shows "mt_ok (mt_reload s)"
proof -
  let ?s1 = "fold (\<lambda>p s. s[p := mt_twist (s ! (p + MT_M)) (s ! p) (s ! (p + 1))]) [0..<MT_N - MT_M] s"
  let ?s2 = "fold (\<lambda>p s. s[p := mt_twist (s ! (p + MT_M - MT_N)) (s ! p) (s ! (p + 1))]) [MT_N - MT_M..<MT_N - 1] ?s1"
  have s1: "mt_words ?s1"
    by (rule fold_inv [where P = mt_words, OF assms], rule mt_words_upd, assumption, rule low32_twist, rule mt_words_nth)
      (auto simp: MT_N_def MT_M_def)
  have s2: "mt_words ?s2"
    by (rule fold_inv [where P = mt_words, OF s1], rule mt_words_upd, assumption, rule low32_twist, rule mt_words_nth)
      (auto simp: MT_N_def MT_M_def)
  have "low32 (?s2 ! (MT_N - 1 + MT_M - MT_N))" by (rule mt_words_nth [OF s2]) (simp add: MT_N_def MT_M_def)
  then show ?thesis unfolding mt_ok_def mt_reload_def Let_def mt.simps
    by (intro conjI mt_words_upd [OF s2] low32_twist) simp_all
qed

lemma mt_ok_seed: "length s = MT_N \<Longrightarrow> mt_ok (mt_seed n s)"
  by (simp add: mt_seed_def mt_ok_reload mt_words_initialize)

lemma mt_seed_wrap_ok:
  "length s = MT_N \<Longrightarrow> 0 < i \<Longrightarrow> length (fst (mt_seed_wrap s i)) = MT_N \<and> 0 < snd (mt_seed_wrap s i) \<and> snd (mt_seed_wrap s i) < MT_N"
  by (auto simp: mt_seed_wrap_def MT_N_def)

text \<open>Words that the two passes of the array seeding leave: all but the first are 32-bit values after
  \<open>initialize\<close> and stay so.\<close>

definition mt_pass_ok :: "u64 list \<times> nat \<Rightarrow> bool" where
  "mt_pass_ok si \<longleftrightarrow> mt_words (fst si) \<and> 0 < snd si \<and> snd si < MT_N"

lemma mt_wrap_ok: "mt_words s \<Longrightarrow> 0 < i \<Longrightarrow> mt_pass_ok (mt_seed_wrap s i)"
  by (auto simp: mt_pass_ok_def mt_seed_wrap_def not_le intro!: mt_words_upd mt_words_nth) (simp_all add: MT_N_def)

lemma mt_pass1_ok: "mt_pass_ok (fst x) \<Longrightarrow> mt_pass_ok (fst (mt_seed_pass1 bigSeed x))"
  by (auto simp: mt_seed_pass1_def Let_def mt_pass_ok_def [of "(_, _)"] split: prod.split
    intro!: mt_wrap_ok mt_words_upd low32_and)

lemma mt_pass2_ok: "mt_pass_ok x \<Longrightarrow> mt_pass_ok (mt_seed_pass2 x)"
  by (auto simp: mt_seed_pass2_def Let_def mt_pass_ok_def [of "(_, _)"] split: prod.split
    intro!: mt_wrap_ok mt_words_upd low32_and)

lemma mt_ok_seed_array:
  assumes "length s = MT_N" and "mt_seed_array bigSeed s = Some m"
  shows "mt_ok m"
proof -
  let ?p1 = "(mt_seed_pass1 bigSeed ^^ max MT_N (length bigSeed)) ((mt_initialize 19650218 s, 1), 0)"
  let ?p2 = "(mt_seed_pass2 ^^ (MT_N - 1)) (fst ?p1)"
  have "mt_pass_ok (fst ((mt_seed_pass1 bigSeed ^^ k) ((mt_initialize 19650218 s, 1), 0)))" for k
    by (induction k) (simp_all add: mt_pass1_ok, simp add: mt_pass_ok_def mt_words_initialize assms(1), simp add: MT_N_def)
  then have p1: "mt_pass_ok (fst ?p1)" by blast
  have "mt_pass_ok ((mt_seed_pass2 ^^ k) (fst ?p1))" for k
    by (induction k) (use p1 mt_pass2_ok in auto)
  then have p2: "mt_pass_ok ?p2" by blast
  have "m = mt_reload ((fst ?p2)[0 := 0x80000000])"
    using assms(2) by (auto simp: mt_seed_array_def Let_def split: prod.splits if_splits bind_splits)
  then show ?thesis using p2 by (simp add: mt_pass_ok_def mt_ok_reload mt_words_upd)
qed

lemma mt_randInt_ok:
  assumes "mt_ok m"
  shows "\<exists>w m'. mt_randInt m = Some (w, m') \<and> low32 w \<and> mt_ok m'"
proof -
  let ?m = "if mt_left m = 0 then mt_reload (mt_state m) else m"
  have ok: "mt_ok ?m" and left: "0 < mt_left ?m"
    using assms mt_ok_reload by (auto simp: mt_ok_def) (simp add: mt_reload_def Let_def MT_N_def)
  then have i: "mt_next ?m < MT_N" "length (mt_state ?m) = MT_N" by (auto simp: mt_ok_def mt_words_def)
  have "low32 (mt_state ?m ! mt_next ?m)" using ok i(1) by (auto simp: mt_ok_def intro: mt_words_nth)
  moreover have "mt_ok (?m\<lparr>mt_left := mt_left ?m - 1, mt_next := mt_next ?m + 1\<rparr>)" using ok left by (auto simp: mt_ok_def)
  ultimately show ?thesis using i unfolding mt_randInt_def Let_def guard_def by (auto simp: low32_temper)
qed

text \<open>The generator's states, and the values it draws next.\<close>

inductive mt_reach :: "mt \<Rightarrow> bool" where
  seed: "length s = MT_N \<Longrightarrow> mt_reach (mt_seed n s)"
| seed_array: "length s = MT_N \<Longrightarrow> mt_seed_array bigSeed s = Some m \<Longrightarrow> mt_reach m"
| draw: "mt_reach m \<Longrightarrow> mt_randInt m = Some (w, m') \<Longrightarrow> mt_reach m'"
| copy: "mt_reach m \<Longrightarrow> mt_reach (mt_copy m)"
| load: "mt_reach m \<Longrightarrow> mt_load (mt_save m) = Some m' \<Longrightarrow> mt_reach m'"

lemma mt_copy_same: "mt_ok m \<Longrightarrow> mt_copy m = m"
  by (simp add: mt_ok_def mt_copy_def)

lemma mt_load_save: "mt_ok m \<Longrightarrow> mt_load (mt_save m) = Some m"
proof -
  assume ok: "mt_ok m"
  then have l: "length (mt_state m) = MT_N" "mt_left m \<le> MT_N" by (auto simp: mt_ok_def mt_words_def)
  then have "unat (of_nat (mt_left m) :: u64) = mt_left m" by (intro unat_of_nat_u64) (simp add: MT_N_def)
  then show ?thesis using ok l by (simp add: mt_load_def mt_save_def nth_append Let_def mt_ok_def)
qed

lemma mt_reach_ok: "mt_reach m \<Longrightarrow> mt_ok m"
proof (induction rule: mt_reach.induct)
  case (draw m w m')
  then show ?case using mt_randInt_ok by fastforce
qed (use mt_ok_seed mt_ok_seed_array mt_copy_same mt_load_save in auto)

fun mt_nth :: "nat \<Rightarrow> mt \<Rightarrow> u64 option" where
  "mt_nth 0 m = map_option fst (mt_randInt m)"
| "mt_nth (Suc k) m = Option.bind (mt_randInt m) (\<lambda>(_, m'). mt_nth k m')"

section \<open>The mask keeps every value up to the bound\<close>

lemma smear_bit: "bit (w OR drop_bit k w) i \<longleftrightarrow> bit w i \<or> bit (w :: u64) (i + k)"
  by (auto simp: bit_or_iff bit_drop_bit_eq add.commute)

lemma mt_used_bit:
  assumes "d < 32" and "bit n (i + d)"
  shows "bit (mt_used n) i"
proof -
  define u1 where "u1 = n OR drop_bit 1 n"
  define u2 where "u2 = u1 OR drop_bit 2 u1"
  define u3 where "u3 = u2 OR drop_bit 4 u2"
  define u4 where "u4 = u3 OR drop_bit 8 u3"
  have u: "mt_used n = u4 OR drop_bit 16 u4" by (simp add: mt_used_def u1_def u2_def u3_def u4_def Let_def)
  have b1: "bit u1 i" if "bit n (i + e)" "e < 2" for e i
    using that unfolding u1_def smear_bit by (cases "e = 0") (auto simp: less_2_cases_iff)
  have step: "bit (w OR drop_bit k w) i" if "\<And>e i. bit n (i + e) \<Longrightarrow> e < k \<Longrightarrow> bit w i" "bit n (i + e)" "e < 2 * k" for w :: u64 and k e i
  proof (cases "e < k")
    case False
    then have "bit n ((i + k) + (e - k))" "e - k < k" using that(2,3) by simp_all
    then show ?thesis unfolding smear_bit using that(1) by blast
  qed (use that smear_bit in blast)
  have b2: "bit u2 i" if "bit n (i + e)" "e < 4" for e i unfolding u2_def by (rule step [of 2, OF b1 that(1)]) (use that in auto)
  have b3: "bit u3 i" if "bit n (i + e)" "e < 8" for e i unfolding u3_def by (rule step [of 4, OF b2 that(1)]) (use that in auto)
  have b4: "bit u4 i" if "bit n (i + e)" "e < 16" for e i unfolding u4_def by (rule step [of 8, OF b3 that(1)]) (use that in auto)
  show ?thesis unfolding u by (rule step [of 16, OF b4 assms(2)]) (use assms(1) in auto)
qed

lemma bit_nat_ge: "bit (m :: nat) i \<Longrightarrow> 2 ^ i \<le> m"
  by (rule ccontr) (simp add: bit_iff_odd)

lemma mt_used_keeps:
  assumes "v \<le> n" and "n < 2 ^ 32"
  shows "v AND mt_used n = v"
proof -
  have "bit (mt_used n) i" if b: "bit v i" for i
  proof -
    have "2 ^ i \<le> unat v" by (rule bit_nat_ge) (use b in \<open>simp add: bit_unsigned_iff\<close>)
    then have le: "2 ^ i \<le> unat n" using assms(1) by (simp add: word_le_nat_alt)
    have "\<exists>j\<ge>i. bit (unat n) j"
    proof (rule ccontr)
      assume "\<not> ?thesis"
      then have "drop_bit i (unat n) = 0" by (intro bit_eqI) (simp add: bit_drop_bit_eq)
      with le show False by (simp add: drop_bit_eq_div div_eq_0_iff)
    qed
    then obtain j where j: "i \<le> j" "bit n j" by (auto simp: bit_unsigned_iff)
    have "j < 32" using j(2) assms(2) low32_iff [of n] by (auto simp: low32_def not_le [symmetric])
    with j mt_used_bit [of "j - i" n i] show ?thesis by simp
  qed
  then show ?thesis by (intro bit_word_eqI) (auto simp: bit_and_iff)
qed

section \<open>Bounded draws\<close>

lemma mt_draw_first:
  assumes "mt_nth k m = Some w" and "w AND used \<le> n" and "\<forall>j<k. \<forall>u. mt_nth j m = Some u \<longrightarrow> n < u AND used"
  shows "\<exists>m'. mt_draw used n m = Some (w AND used, m')"
  using assms
proof (induction k arbitrary: m)
  case 0
  then show ?case by (subst mt_draw.simps) (auto simp: Let_def not_less)
next
  case (Suc k)
  from Suc.prems(1) obtain u m' where r: "mt_randInt m = Some (u, m')" "mt_nth k m' = Some w"
    by (auto split: bind_splits)
  from spec [OF Suc.prems(3), of 0] r(1) have "n < u AND used" by simp
  moreover have "n < v AND used" if "j < k" "mt_nth j m' = Some v" for j v
    using spec [OF Suc.prems(3), of "Suc j"] that r(1) by simp
  ultimately show ?case using Suc.IH [OF r(2) Suc.prems(2)] r(1) by (subst mt_draw.simps) (auto simp: Let_def)
qed

lemma mt_draw_le: "mt_draw used n m = Some r \<Longrightarrow> fst r \<le> n"
  by (rule mt_draw.raw_induct [of "\<lambda>used n m r. fst r \<le> n"]) (auto simp: Let_def not_less split: bind_splits if_splits)

text \<open>The generator, from any seed and after any number of draws: the next draw exists, reads within
  its state and is below 2^32; saving and loading returns the state; \<open>randInt(n)\<close> returns the first
  draw whose masked value is at most \<open>n\<close>, and the mask changes no value up to \<open>n\<close>.\<close>

theorem mt_randIntN_first:
  assumes "mt_reach m" and "n < 2 ^ 32"
  shows "(\<exists>w m'. mt_randInt m = Some (w, m') \<and> w < 2 ^ 32 \<and> mt_reach m') \<and> mt_load (mt_save m) = Some m \<and>
    (\<forall>k w. mt_nth k m = Some w \<longrightarrow> w AND mt_used n \<le> n \<longrightarrow>
       (\<forall>j<k. \<forall>u. mt_nth j m = Some u \<longrightarrow> n < u AND mt_used n) \<longrightarrow>
       (\<exists>m'. mt_randIntN n m = Some (w AND mt_used n, m'))) \<and>
    (\<forall>v\<le>n. v AND mt_used n = v)"
  using mt_randInt_ok [OF mt_reach_ok [OF assms(1)]] mt_reach.draw [OF assms(1)] mt_load_save [OF mt_reach_ok [OF assms(1)]]
    mt_used_keeps [OF _ assms(2)] mt_draw_first [where used = "mt_used n"]
  by (auto simp: low32_iff mt_randIntN_def)

theorem mt_randIntN_first_witness:
  "\<exists>w m'. mt_randIntN 0xffffffff (mt_seed 5489 (replicate MT_N 0)) = Some (w, m') \<and> w < 2 ^ 32"
proof -
  let ?m = "mt_seed 5489 (replicate MT_N 0)"
  have "mt_reach ?m" by (rule mt_reach.seed) simp
  note * = mt_randIntN_first [OF this, where n = "0xffffffff", simplified]
  from * obtain w m' where w: "mt_randInt ?m = Some (w, m')" "w < 4294967296" by auto
  then have le: "w \<le> 0xffffffff" by (simp add: word_le_nat_alt word_less_nat_alt)
  with * have "w AND mt_used 0xffffffff = w" by blast
  moreover have "mt_nth 0 ?m = Some w" using w(1) by simp
  ultimately have "\<exists>m'. mt_randIntN 0xffffffff ?m = Some (w, m')" using * le by (metis less_nat_zero_code)
  with w(2) show ?thesis by auto
qed

end
