(* ===== verification/Repl_Rand.thy ===== *)
theory Repl_Rand
  imports Mt_Rand Repl_Legacy
begin

text \<open>
  The random policy of \<^verbatim>\<open>zsim/src/repl_policies.h\<close> on the generator of \<^verbatim>\<open>mtrand.h\<close>. Its \<open>rank\<close> may
  not return, since \<open>randInt(n)\<close> draws until a value fits: it meets the contract \<open>repl_safe\<close>.
\<close>

record rand_repl =
  rr_candArray :: "nat list"
  rr_numCands :: nat
  rr_rnd :: mt
  rr_candIdx :: nat

definition rr_new :: "nat \<Rightarrow> u64 \<Rightarrow> u64 list \<Rightarrow> rand_repl" where
  "rr_new numCands this mem =
     \<lparr>rr_candArray = replicate numCands 0, rr_numCands = numCands, rr_rnd = mt_seed (0x23A5F + this) mem, rr_candIdx = 0\<rparr>"

definition rr_recordCandidate :: "rand_repl \<Rightarrow> nat \<Rightarrow> rand_repl option" where
  "rr_recordCandidate s l =
     Option.bind (guard (rr_candIdx s < length (rr_candArray s))) (\<lambda>_.
     Some (s\<lparr>rr_candArray := (rr_candArray s)[rr_candIdx s := l], rr_candIdx := rr_candIdx s + 1\<rparr>))"

definition rr_getBestCandidate :: "rand_repl \<Rightarrow> (rand_repl \<times> nat) option" where
  "rr_getBestCandidate s =
     Option.bind (guard (rr_candIdx s = rr_numCands s)) (\<lambda>_.
     Option.bind (mt_randIntN (of_nat (rr_numCands s) - 1) (rr_rnd s)) (\<lambda>(idx, r).
     Option.bind (guard (unat idx < length (rr_candArray s))) (\<lambda>_.
     Some (s\<lparr>rr_rnd := r\<rparr>, rr_candArray s ! unat idx))))"

definition rr_replaced :: "rand_repl \<Rightarrow> nat \<Rightarrow> rand_repl" where
  "rr_replaced s l = s\<lparr>rr_candIdx := 0\<rparr>"

definition rr_rank :: "rand_repl \<Rightarrow> memreq \<Rightarrow> nat list \<Rightarrow> (rand_repl \<times> nat) option" where
  "rr_rank = legacy_rank (\<lambda>s req. s) rr_recordCandidate rr_getBestCandidate"

definition rr_ops :: "rand_repl rp_ops" where
  "rr_ops =
     \<lparr>rp_update = (\<lambda>s l req. Some s), rp_replaced = (\<lambda>s l. Some (rr_replaced s l)), rp_rank = (\<lambda>_. rr_rank)\<rparr>"

section \<open>The victim is one of the candidates\<close>

definition rr_base :: "nat \<Rightarrow> rand_repl \<Rightarrow> bool" where
  "rr_base k s \<longleftrightarrow> rr_numCands s = k \<and> length (rr_candArray s) = k \<and> 0 < k \<and> k < 2 ^ 32"

definition rr_inv :: "nat \<Rightarrow> rand_repl \<Rightarrow> bool" where
  "rr_inv k s \<longleftrightarrow> rr_base k s \<and> rr_candIdx s = 0"

lemma rr_inv_new: "0 < k \<Longrightarrow> k < 2 ^ 32 \<Longrightarrow> rr_inv k (rr_new k this mem)"
  by (simp add: rr_inv_def rr_base_def rr_new_def)

lemma rr_record_all:
  assumes inv: "rr_inv k s" and len: "length cands = k"
  shows "\<exists>t. record_all rr_recordCandidate cands s = Some t \<and> rr_base k t \<and> rr_candIdx t = k \<and> rr_candArray t = cands"
proof -
  let ?P = "\<lambda>ds t. rr_base k t \<and> rr_candIdx t = length ds \<and> take (length ds) (rr_candArray t) = ds"
  have step: "\<exists>t'. rr_recordCandidate t d = Some t' \<and> ?P (ds @ [d]) t'"
    if "?P ds t" "length ds < length [] + length cands" for ds d t
  proof -
    have l: "rr_candIdx t < length (rr_candArray t)" using that len by (simp add: rr_base_def)
    then have "take (length ds + 1) ((rr_candArray t)[rr_candIdx t := d]) = ds @ [d]"
      using that(1) by (simp add: take_Suc_conv_app_nth)
    with that(1) l show ?thesis by (simp add: rr_recordCandidate_def rr_base_def)
  qed
  have "\<exists>t. record_all rr_recordCandidate cands s = Some t \<and> ?P ([] @ cands) t"
    by (rule record_all_inv [where P = ?P and es = "[]"]) (use step inv in \<open>auto simp: rr_inv_def\<close>)
  then show ?thesis using len by (auto simp: rr_base_def)
qed

lemma rr_rank_safe:
  assumes inv: "rr_inv k s" and len: "length cands = k" and r: "rr_rank s req cands = Some (s', v)"
  shows "v \<in> set cands \<and> rr_base k s'"
proof -
  obtain t where t: "record_all rr_recordCandidate cands s = Some t" "rr_base k t" "rr_candArray t = cands"
    using rr_record_all [OF inv len] by blast
  with r show ?thesis
    by (auto simp: rr_rank_def legacy_rank_def rr_getBestCandidate_def rr_base_def split: bind_splits)
qed

interpretation rr: repl_safe rr_ops "rr_inv k" "\<lambda>s v. rr_base k s" n "\<lambda>cands. length cands = k" for k n
proof unfold_locales
  fix s cands cv req s' v
  assume "rr_inv k s" "length cands = k" "rp_rank rr_ops cv s req cands = Some (s', v)"
  then show "v \<in> set cands \<and> rr_base k s'" by (intro rr_rank_safe) (auto simp: rr_ops_def)
qed (auto simp: rr_ops_def rr_replaced_def rr_inv_def rr_base_def)

text \<open>An insertion into a set of a cache under the random policy.\<close>

lemma rr_insert: "rr_inv k s \<Longrightarrow> length cands = k \<Longrightarrow> set cands \<subseteq> {..<n} \<Longrightarrow>
    rr.insert_cycle cv s req cands = Some (s', v) \<Longrightarrow> rr_inv k s' \<and> v \<in> set cands"
  by (rule rr.insert_cycle_inv)

end
