(* ===== verification/Utility_Monitor.thy ===== *)
theory Utility_Monitor
  imports Prelude
begin

text \<open>
  The utility monitor \<open>UMon\<close> of \<^verbatim>\<open>zsim/src/utility_monitor.cpp\<close>, and \<open>UMonMonitor\<close> of
  \<^verbatim>\<open>zsim/src/monitor.cpp\<close>. Each set of the monitor is a singly-linked list of \<open>buckets\<close> nodes in an
  array, most recently used first; a pointer is the index of a node. The hash family is the parameter
  \<open>hash\<close>. The theorem is that one pass over the accesses counts the misses of LRU caches of every
  associativity up to \<open>buckets\<close>.
\<close>

section \<open>State\<close>

record um_node =
  un_addr :: addr
  un_next :: "nat option"

record umon =
  um_umonLines :: nat
  um_samplingFactor :: nat
  um_buckets :: nat
  um_sets :: nat
  um_samplingFactorBits :: nat
  um_setsBits :: nat
  um_curWayHits :: "u64 list"
  um_curMisses :: u64
  um_array :: "um_node list list"
  um_heads :: "nat list"

fun um_bits :: "nat \<Rightarrow> nat" where
  "um_bits tmp = (if tmp div 2 = 0 then 0 else um_bits (tmp div 2) + 1)"

declare um_bits.simps [simp del]

definition um_nodes_new :: "nat \<Rightarrow> um_node list" where
  "um_nodes_new buckets =
     map (\<lambda>j. \<lparr>un_addr = 0, un_next = (if j < buckets - 1 then Some (j + 1) else None)\<rparr>) [0..<buckets]"

definition um_new :: "nat \<Rightarrow> nat \<Rightarrow> nat \<Rightarrow> umon" where
  "um_new bankLines umonLines buckets =
     (let samplingFactor = bankLines div umonLines; sets = umonLines div buckets in
      \<lparr>um_umonLines = umonLines, um_samplingFactor = samplingFactor, um_buckets = buckets, um_sets = sets,
       um_samplingFactorBits = um_bits samplingFactor, um_setsBits = um_bits sets,
       um_curWayHits = replicate buckets 0, um_curMisses = 0,
       um_array = replicate sets (um_nodes_new buckets), um_heads = replicate sets 0\<rparr>)"

section \<open>Accesses\<close>

text \<open>The search for a line from position \<open>b\<close>, with \<open>n\<close> iterations left: the position of the hit and the
  last values of \<open>prev\<close> and \<open>cur\<close>. \<open>None\<close> as the result is a null pointer that is followed.\<close>

fun um_walk :: "um_node list \<Rightarrow> addr \<Rightarrow> nat \<Rightarrow> nat \<Rightarrow> nat option \<Rightarrow> nat \<Rightarrow> (nat option \<times> nat option \<times> nat) option" where
  "um_walk ns a 0 b prev cur = Some (None, prev, cur)"
| "um_walk ns a (Suc n) b prev cur =
     (if un_addr (ns ! cur) = a then Some (Some b, prev, cur)
      else if n > 0 then Option.bind (un_next (ns ! cur)) (\<lambda>c. um_walk ns a n (b + 1) (Some cur) c)
      else um_walk ns a n (b + 1) prev cur)"

definition um_sampled :: "(nat \<Rightarrow> addr \<Rightarrow> u64) \<Rightarrow> umon \<Rightarrow> addr \<Rightarrow> bool" where
  "um_sampled hash u a \<longleftrightarrow> hash 0 a AND NOT (push_bit (um_samplingFactorBits u) (- 1)) = 0"

definition um_set :: "(nat \<Rightarrow> addr \<Rightarrow> u64) \<Rightarrow> umon \<Rightarrow> addr \<Rightarrow> nat" where
  "um_set hash u a = unat (hash 1 a AND NOT (push_bit (um_setsBits u) (- 1)))"

definition um_toMRU :: "nat option \<Rightarrow> nat \<Rightarrow> nat \<Rightarrow> um_node list \<Rightarrow> um_node list \<times> nat" where
  "um_toMRU prev cur head ns =
     (case prev of
        None \<Rightarrow> (ns, head)
      | Some p \<Rightarrow>
          (let ns1 = ns[p := (ns ! p)\<lparr>un_next := un_next (ns ! cur)\<rparr>];
               ns2 = ns1[cur := (ns1 ! cur)\<lparr>un_next := Some head\<rparr>]
           in (ns2, cur)))"

definition um_access :: "(nat \<Rightarrow> addr \<Rightarrow> u64) \<Rightarrow> addr \<Rightarrow> umon \<Rightarrow> umon option" where
  "um_access hash a u =
     (if \<not> um_sampled hash u a then Some u
      else
        (let s = um_set hash u a in
         Option.bind (guard (s < length (um_heads u))) (\<lambda>_.
         let ns = um_array u ! s; head = um_heads u ! s in
         Option.bind (um_walk ns a (um_buckets u) 0 None head) (\<lambda>(hit, prev, cur).
         Option.bind
           (case hit of
              Some b \<Rightarrow> Some (u\<lparr>um_curWayHits := (um_curWayHits u)[b := um_curWayHits u ! b + 1]\<rparr>, ns)
            | None \<Rightarrow> Option.bind (guard (un_next (ns ! cur) = None)) (\<lambda>_.
                Some (u\<lparr>um_curMisses := um_curMisses u + 1\<rparr>, ns[cur := (ns ! cur)\<lparr>un_addr := a\<rparr>])))
           (\<lambda>(u1, ns1).
         let (ns2, head2) = um_toMRU prev cur head ns1
         in Some (u1\<lparr>um_array := (um_array u1)[s := ns2], um_heads := (um_heads u1)[s := head2]\<rparr>))))))"

fun um_run :: "(nat \<Rightarrow> addr \<Rightarrow> u64) \<Rightarrow> addr list \<Rightarrow> umon \<Rightarrow> umon option" where
  "um_run hash [] u = Some u"
| "um_run hash (a # as) u = Option.bind (um_access hash a u) (um_run hash as)"

section \<open>Reading the counters\<close>

definition um_getNumAccesses :: "umon \<Rightarrow> u64" where
  "um_getNumAccesses u =
     fold (\<lambda>i tot. tot + um_curWayHits u ! (um_buckets u - i - 1)) [0..<um_buckets u] (um_curMisses u)"

text \<open>A write to the caller's array, which may be too short for it.\<close>

definition um_put :: "nat \<Rightarrow> 'a \<Rightarrow> 'a list \<Rightarrow> 'a list option" where
  "um_put i v xs = (if i < length xs then Some (xs[i := v]) else None)"

fun um_misses_loop :: "umon \<Rightarrow> nat list \<Rightarrow> u64 \<Rightarrow> u64 list \<Rightarrow> (u64 \<times> u64 list) option" where
  "um_misses_loop u [] tot misses = Some (tot, misses)"
| "um_misses_loop u (i # is) tot misses =
     Option.bind (um_put (um_buckets u - i) tot misses) (\<lambda>m.
     um_misses_loop u is (tot + um_curWayHits u ! (um_buckets u - i - 1)) m)"

definition um_getMisses :: "umon \<Rightarrow> u64 list \<Rightarrow> u64 list option" where
  "um_getMisses u misses =
     Option.bind (um_misses_loop u [0..<um_buckets u] (um_curMisses u) misses) (\<lambda>(tot, m). um_put 0 tot m)"

definition um_startNextInterval :: "umon \<Rightarrow> umon" where
  "um_startNextInterval u =
     u\<lparr>um_curMisses := 0, um_curWayHits := fold (\<lambda>b hits. hits[b := 0]) [0..<um_buckets u] (um_curWayHits u)\<rparr>"

section \<open>The list of a set is an LRU stack\<close>

definition um_link :: "um_node list \<Rightarrow> nat list \<Rightarrow> bool" where
  "um_link ns p \<longleftrightarrow> distinct p \<and> set p = {..<length ns} \<and>
     (\<forall>i<length p. un_next (ns ! (p ! i)) = (if Suc i < length p then Some (p ! Suc i) else None))"

definition um_prev :: "nat list \<Rightarrow> nat \<Rightarrow> nat option" where
  "um_prev p i = (if i = 0 then None else Some (p ! (i - 1)))"

lemma um_link_length: "um_link ns p \<Longrightarrow> length p = length ns"
  unfolding um_link_def by (metis card_lessThan distinct_card)

lemma um_link_lt: "um_link ns p \<Longrightarrow> i < length p \<Longrightarrow> p ! i < length ns"
  unfolding um_link_def by (metis lessThan_iff nth_mem)

lemma um_walk_hit:
  assumes "um_link ns p" and "b \<le> i" and "i < length p" and "b + n = length p"
    and "un_addr (ns ! (p ! i)) = a" and "\<And>j. b \<le> j \<Longrightarrow> j < i \<Longrightarrow> un_addr (ns ! (p ! j)) \<noteq> a"
  shows "um_walk ns a n b (um_prev p b) (p ! b) = Some (Some i, um_prev p i, p ! i)"
  using assms
proof (induction n arbitrary: b)
  case (Suc n)
  show ?case
  proof (cases "b = i")
    case False
    then have b: "Suc b \<le> i" using Suc.prems by simp
    with Suc.prems have ne: "un_addr (ns ! (p ! b)) \<noteq> a" and n: "0 < n" by auto
    have "un_next (ns ! (p ! b)) = Some (p ! Suc b)" using Suc.prems(1,3) b unfolding um_link_def by simp
    moreover have "um_walk ns a n (Suc b) (um_prev p (Suc b)) (p ! Suc b) = Some (Some i, um_prev p i, p ! i)"
      by (rule Suc.IH) (use Suc.prems b in auto)
    ultimately show ?thesis using ne n by (simp add: um_prev_def)
  qed (use Suc.prems in simp)
qed simp

lemma um_walk_miss:
  assumes "um_link ns p" and "b + n = length p" and "0 < n"
    and "\<And>j. b \<le> j \<Longrightarrow> j < length p \<Longrightarrow> un_addr (ns ! (p ! j)) \<noteq> a"
  shows "um_walk ns a n b (um_prev p b) (p ! b) = Some (None, um_prev p (length p - 1), p ! (length p - 1))"
  using assms
proof (induction n arbitrary: b)
  case (Suc n)
  have ne: "un_addr (ns ! (p ! b)) \<noteq> a" using Suc.prems by simp
  show ?case
  proof (cases "n = 0")
    case True
    then have "b = length p - 1" using Suc.prems by simp
    with ne True show ?thesis by simp
  next
    case False
    have "un_next (ns ! (p ! b)) = Some (p ! Suc b)" using Suc.prems(1,2) False unfolding um_link_def by simp
    moreover have "um_walk ns a n (Suc b) (um_prev p (Suc b)) (p ! Suc b) = Some (None, um_prev p (length p - 1), p ! (length p - 1))"
      by (rule Suc.IH) (use Suc.prems False in auto)
    ultimately show ?thesis using ne False by (simp add: um_prev_def)
  qed
qed simp

lemma nth_upd_if: "xs[i := v] ! j = (if i = j \<and> i < length xs then v else xs ! j)"
  by (cases "i < length xs") (auto simp: list_update_beyond)

text \<open>Moving the element at position \<open>i\<close> of a list to its front.\<close>

definition to_front :: "nat \<Rightarrow> 'a list \<Rightarrow> 'a list" where
  "to_front i xs = xs ! i # take i xs @ drop (Suc i) xs"

lemma to_front_nth: "i < length xs \<Longrightarrow> k < length xs \<Longrightarrow>
    to_front i xs ! k = (if k = 0 then xs ! i else if k \<le> i then xs ! (k - 1) else xs ! k)"
  by (auto simp: to_front_def nth_Cons nth_append split: nat.split)

lemma to_front_length [simp]: "i < length xs \<Longrightarrow> length (to_front i xs) = length xs"
  by (simp add: to_front_def)

lemma to_front_set: "i < length xs \<Longrightarrow> set (to_front i xs) = set xs"
  by (metis to_front_def id_take_nth_drop set_append list.simps(15) Un_insert_right)

lemma to_front_distinct: "i < length xs \<Longrightarrow> distinct xs \<Longrightarrow> distinct (to_front i xs)"
  by (metis to_front_set to_front_length card_distinct distinct_card)

lemma to_front_0: "0 < length xs \<Longrightarrow> to_front 0 xs = xs"
  by (cases xs) (simp_all add: to_front_def)

lemma to_front_map: "i < length xs \<Longrightarrow> map f (to_front i xs) = to_front i (map f xs)"
  by (simp add: to_front_def take_map drop_map)

lemma um_toMRU_link:
  assumes link: "um_link ns p" and i: "i < length p" and ns: "um_toMRU (um_prev p i) (p ! i) (p ! 0) ns = (ns2, head2)"
  shows "um_link ns2 (to_front i p) \<and> head2 = to_front i p ! 0 \<and> length ns2 = length ns \<and> (\<forall>x. un_addr (ns2 ! x) = un_addr (ns ! x))"
proof (cases "i = 0")
  case True
  then show ?thesis using assms to_front_0 [of p] by (auto simp: um_toMRU_def um_prev_def)
next
  case False
  let ?x = "p ! i" and ?y = "p ! (i - 1)"
  let ?ns1 = "ns[?y := (ns ! ?y)\<lparr>un_next := un_next (ns ! ?x)\<rparr>]"
  have ns2: "ns2 = ?ns1[?x := (?ns1 ! ?x)\<lparr>un_next := Some (p ! 0)\<rparr>]" and head: "head2 = ?x"
    using ns False by (auto simp: um_toMRU_def um_prev_def Let_def)
  have d: "distinct p" using link by (simp add: um_link_def)
  have lt: "?x < length ns" "?y < length ns" using um_link_lt [OF link] i by auto
  have xy: "?x \<noteq> ?y" using d i False by (simp add: nth_eq_iff_index_eq)
  have addr: "un_addr (ns2 ! x) = un_addr (ns ! x)" for x
    using lt by (auto simp: ns2 nth_upd_if)
  have nx: "un_next (ns2 ! (p ! k)) = (if k = i then Some (p ! 0) else if k = i - 1 then un_next (ns ! ?x) else un_next (ns ! (p ! k)))"
    if "k < length p" for k
    using that i d lt xy um_link_lt [OF link that] by (auto simp: ns2 nth_list_update nth_eq_iff_index_eq)
  have "un_next (ns2 ! (to_front i p ! k)) = (if Suc k < length p then Some (to_front i p ! Suc k) else None)"
    if k: "k < length p" for k
  proof -
    consider "k = 0" | "0 < k" "k < i" | "0 < k" "k = i" | "i < k" by linarith
    then show ?thesis
    proof cases
      case 1
      then show ?thesis using i k False nx [OF i] by (simp add: to_front_nth)
    next
      case 2
      then have "k - 1 < length p" "k - 1 \<noteq> i" "k - 1 \<noteq> i - 1" "Suc (k - 1) = k" using i k by auto
      with nx [of "k - 1"] 2 i k link show ?thesis by (simp add: to_front_nth um_link_def)
    next
      case 3
      then have "k - 1 < length p" "k - 1 \<noteq> i" "k - 1 = i - 1" using i k by auto
      with nx [of "k - 1"] 3 i k link show ?thesis by (simp add: to_front_nth um_link_def)
    next
      case 4
      then have "k \<noteq> i - 1" "k \<noteq> i" by auto
      with nx [OF k] 4 i k link False show ?thesis by (simp add: to_front_nth um_link_def)
    qed
  qed
  moreover have "set (to_front i p) = {..<length ns2}" using to_front_set [OF i] link by (simp add: um_link_def ns2)
  ultimately have "um_link ns2 (to_front i p)" using to_front_distinct [OF i d] i by (simp add: um_link_def)
  moreover have "to_front i p ! 0 = p ! i" by (simp add: to_front_def)
  moreover have "length ns2 = length ns" by (simp add: ns2)
  ultimately show ?thesis using head addr by simp
qed

definition um_rep :: "nat \<Rightarrow> um_node list \<Rightarrow> nat \<Rightarrow> addr list \<Rightarrow> bool" where
  "um_rep n ns head st \<longleftrightarrow> length ns = n \<and> distinct st \<and> 0 \<notin> set st \<and> length st \<le> n \<and>
     (\<exists>p. um_link ns p \<and> head = p ! 0 \<and> map (\<lambda>x. un_addr (ns ! x)) p = st @ replicate (n - length st) 0)"

lemma to_front_stack:
  assumes "distinct st" and "i < length st"
  shows "to_front i (st @ zs) = (st ! i # remove1 (st ! i) st) @ zs"
proof -
  have split: "st = take i st @ st ! i # drop (Suc i) st" using assms(2) by (rule id_take_nth_drop)
  have "st ! i \<notin> set (take i st)" using assms by (metis distinct_append split disjoint_insert(1) list.simps(15))
  then have "remove1 (st ! i) st = take i st @ drop (Suc i) st"
    by (subst split) (simp only: remove1_append remove1.simps if_False if_True refl simp_thms)
  then show ?thesis using assms(2) by (simp add: to_front_def nth_append)
qed

lemma um_set_step_hit:
  assumes rep: "um_rep n ns head st" and a: "a \<in> set st"
  shows "\<exists>i prev cur ns2 head2. um_walk ns a n 0 None head = Some (Some i, prev, cur) \<and> i < length st \<and> st ! i = a \<and>
    um_toMRU prev cur head ns = (ns2, head2) \<and> um_rep n ns2 head2 (take n (a # remove1 a st))"
proof -
  obtain p where p: "um_link ns p" "head = p ! 0" "map (\<lambda>x. un_addr (ns ! x)) p = st @ replicate (n - length st) 0"
    and st: "length ns = n" "distinct st" "0 \<notin> set st" "length st \<le> n" using rep by (auto simp: um_rep_def)
  have len: "length p = n" using um_link_length [OF p(1)] st(1) by simp
  obtain i where i: "i < length st" "st ! i = a" using a by (auto simp: in_set_conv_nth)
  have addr: "un_addr (ns ! (p ! j)) = (st @ replicate (n - length st) 0) ! j" if "j < n" for j
    using that len arg_cong [OF p(3), of "\<lambda>xs. xs ! j"] by simp
  have ne: "un_addr (ns ! (p ! j)) \<noteq> a" if "j < i" for j
    using addr [of j] that i st(2,4) by (auto simp: nth_append nth_eq_iff_index_eq)
  have ai: "un_addr (ns ! (p ! i)) = a" using addr [of i] i st(4) by (simp add: nth_append)
  have ip: "i < length p" using i st(4) len by simp
  have w: "um_walk ns a n 0 None head = Some (Some i, um_prev p i, p ! i)"
    using um_walk_hit [OF p(1) _ ip, of 0 n a] ai ne len p(2) by (simp add: um_prev_def)
  obtain ns2 head2 where m: "um_toMRU (um_prev p i) (p ! i) (p ! 0) ns = (ns2, head2)" by (meson surj_pair)
  from um_toMRU_link [OF p(1) ip m] have m2: "um_link ns2 (to_front i p)" "head2 = to_front i p ! 0" "length ns2 = length ns"
    "\<forall>x. un_addr (ns2 ! x) = un_addr (ns ! x)" by auto
  have "map (\<lambda>x. un_addr (ns2 ! x)) (to_front i p) = to_front i (st @ replicate (n - length st) 0)"
    using m2(4) p(3) ip by (simp add: to_front_map)
  also have "\<dots> = (a # remove1 a st) @ replicate (n - length st) 0" using to_front_stack [OF st(2) i(1)] i(2) by simp
  finally have map: "map (\<lambda>x. un_addr (ns2 ! x)) (to_front i p) = (a # remove1 a st) @ replicate (n - length st) 0" .
  have lr: "length (a # remove1 a st) = length st" using a by (simp add: length_remove1) (cases st, auto)
  have "um_rep n ns2 head2 (a # remove1 a st)"
    unfolding um_rep_def using m2 map lr st a by (auto intro!: exI [of _ "to_front i p"])
  moreover have "take n (a # remove1 a st) = a # remove1 a st" using lr st(4) by (intro take_all) simp
  ultimately show ?thesis using w i m p(2) by auto
qed

lemma um_set_step_miss:
  assumes rep: "um_rep n ns head st" and a: "a \<notin> set st" "a \<noteq> 0" and n: "0 < n"
  shows "\<exists>prev cur ns2 head2. um_walk ns a n 0 None head = Some (None, prev, cur) \<and> un_next (ns ! cur) = None \<and>
    um_toMRU prev cur head (ns[cur := (ns ! cur)\<lparr>un_addr := a\<rparr>]) = (ns2, head2) \<and> um_rep n ns2 head2 (take n (a # remove1 a st))"
proof -
  obtain p where p: "um_link ns p" "head = p ! 0" "map (\<lambda>x. un_addr (ns ! x)) p = st @ replicate (n - length st) 0"
    and st: "length ns = n" "distinct st" "0 \<notin> set st" "length st \<le> n" using rep by (auto simp: um_rep_def)
  have len: "length p = n" using um_link_length [OF p(1)] st(1) by simp
  let ?l = "n - 1"
  have lp: "?l < length p" using len n by simp
  have addr: "un_addr (ns ! (p ! j)) = (st @ replicate (n - length st) 0) ! j" if "j < n" for j
    using that len arg_cong [OF p(3), of "\<lambda>xs. xs ! j"] by simp
  have ne: "un_addr (ns ! (p ! j)) \<noteq> a" if "j < n" for j
    using addr [OF that] that a by (auto simp: nth_append)
  have w: "um_walk ns a n 0 None head = Some (None, um_prev p ?l, p ! ?l)"
    using um_walk_miss [OF p(1), of 0 n a] ne len n p(2) by (simp add: um_prev_def)
  have last: "un_next (ns ! (p ! ?l)) = None" using p(1) lp len n unfolding um_link_def by simp
  define ns1 where "ns1 = ns[p ! ?l := (ns ! (p ! ?l))\<lparr>un_addr := a\<rparr>]"
  have nl: "p ! ?l < length ns" using um_link_lt [OF p(1) lp] .
  have d: "distinct p" using p(1) by (simp add: um_link_def)
  have "un_next (ns1 ! x) = un_next (ns ! x)" for x using nl by (auto simp: ns1_def nth_upd_if)
  then have link1: "um_link ns1 p" using p(1) unfolding um_link_def by (simp add: ns1_def)
  obtain ns2 head2 where m: "um_toMRU (um_prev p ?l) (p ! ?l) (p ! 0) ns1 = (ns2, head2)" by (meson surj_pair)
  from um_toMRU_link [OF link1 lp m] have m2: "um_link ns2 (to_front ?l p)" "head2 = to_front ?l p ! 0" "length ns2 = length ns"
    "\<forall>x. un_addr (ns2 ! x) = un_addr (ns1 ! x)" by (auto simp: ns1_def)
  have "map (\<lambda>x. un_addr (ns1 ! x)) p = (map (\<lambda>x. un_addr (ns ! x)) p)[?l := a]"
    using d lp nl by (intro nth_equalityI) (auto simp: ns1_def nth_upd_if nth_list_update nth_eq_iff_index_eq)
  then have map1: "map (\<lambda>x. un_addr (ns1 ! x)) p = (st @ replicate (n - length st) 0)[?l := a]" using p(3) by simp
  have "map (\<lambda>x. un_addr (ns2 ! x)) (to_front ?l p) = to_front ?l ((st @ replicate (n - length st) 0)[?l := a])"
    using m2(4) map1 lp by (simp add: to_front_map)
  also have "\<dots> = a # take ?l (st @ replicate (n - length st) 0)"
    using st(4) n by (simp add: to_front_def)
  also have "\<dots> = take n (a # st) @ replicate (n - length (take n (a # st))) 0"
    using n st(4) by (cases n) (auto simp: min_def)
  finally have map: "map (\<lambda>x. un_addr (ns2 ! x)) (to_front ?l p) = take n (a # st) @ replicate (n - length (take n (a # st))) 0" .
  have "um_rep n ns2 head2 (take n (a # st))"
    unfolding um_rep_def using m2 map st a
    by (auto intro!: exI [of _ "to_front ?l p"] distinct_take simp del: take_Cons' simp: dest: in_set_takeD)
  then show ?thesis using w last m p(2) a(1) by (auto simp: ns1_def remove1_idem)
qed

section \<open>One pass measures every associativity\<close>

text \<open>The reference: the misses of a set-associative LRU cache with \<open>k\<close> ways, where \<open>sel a\<close> is the set of
  an address, if it is sampled at all, and \<open>sts\<close> the LRU stack of each set.\<close>

fun lru_misses :: "nat \<Rightarrow> (addr \<Rightarrow> nat option) \<Rightarrow> (nat \<Rightarrow> addr list) \<Rightarrow> addr list \<Rightarrow> nat" where
  "lru_misses k sel sts [] = 0"
| "lru_misses k sel sts (a # as) =
     (case sel a of None \<Rightarrow> lru_misses k sel sts as
      | Some s \<Rightarrow> (if a \<in> set (sts s) then 0 else 1) + lru_misses k sel (sts(s := take k (a # remove1 a (sts s)))) as)"

definition um_sel :: "(nat \<Rightarrow> addr \<Rightarrow> u64) \<Rightarrow> umon \<Rightarrow> addr \<Rightarrow> nat option" where
  "um_sel hash u a = (if um_sampled hash u a then Some (um_set hash u a) else None)"

definition um_ok :: "umon \<Rightarrow> (nat \<Rightarrow> addr list) \<Rightarrow> bool" where
  "um_ok u sts \<longleftrightarrow> 0 < um_buckets u \<and> length (um_curWayHits u) = um_buckets u \<and> length (um_array u) = um_sets u \<and>
     length (um_heads u) = um_sets u \<and> 2 ^ um_setsBits u \<le> um_sets u \<and>
     (\<forall>s<um_sets u. um_rep (um_buckets u) (um_array u ! s) (um_heads u ! s) (sts s))"

definition um_curve :: "umon \<Rightarrow> nat \<Rightarrow> u64" where
  "um_curve u k = um_curMisses u + sum_list (drop k (um_curWayHits u))"

lemma um_set_less: "um_ok u sts \<Longrightarrow> um_set hash u a < um_sets u"
proof -
  assume ok: "um_ok u sts"
  have "um_set hash u a = take_bit (um_setsBits u) (unat (hash 1 a))"
    by (simp add: um_set_def mask_eq_exp_minus_1 [symmetric] push_bit_minus_one_eq_not_mask take_bit_eq_mask [symmetric] unsigned_take_bit_eq)
  also have "\<dots> < 2 ^ um_setsBits u" by (rule take_bit_nat_less_exp)
  finally show ?thesis using ok by (simp add: um_ok_def)
qed

lemma sum_drop_upd:
  "b < length (xs :: u64 list) \<Longrightarrow> sum_list (drop k (xs[b := xs ! b + 1])) = sum_list (drop k xs) + (if k \<le> b then 1 else 0)"
proof (induction xs arbitrary: b k)
  case (Cons x xs)
  then show ?case using Cons.IH [of "b - 1" 0] Cons.IH [of "b - 1" "k - 1"] by (cases b; cases k) auto
qed simp

lemma take_stack: "k \<le> n \<Longrightarrow> distinct st \<Longrightarrow> take k (take n (a # remove1 a st)) = take k (a # remove1 a (take k st))"
proof (induction st arbitrary: n k)
  case (Cons x st)
  show ?case
  proof (cases k)
    case (Suc k')
    then obtain n' where n: "n = Suc n'" "k' \<le> n'" using Cons.prems(1) by (cases n) auto
    show ?thesis
    proof (cases "x = a")
      case True
      then show ?thesis using Suc n by (simp add: min_def)
    next
      case False
      have "take k' (take n' (a # remove1 a st)) = take k' (a # remove1 a (take k' st))" using Cons n by simp
      then have "take (k' - 1) (take (n' - 1) (remove1 a st)) = take (k' - 1) (remove1 a (take k' st))"
        by (cases k'; cases n') auto
      then show ?thesis using Suc n False by (cases k'; cases n') (auto simp: min_def)
    qed
  qed simp
qed (simp add: min_def)

lemma take_in_position: "distinct st \<Longrightarrow> b < length st \<Longrightarrow> st ! b \<in> set (take k st) \<longleftrightarrow> b < k"
  by (auto simp: in_set_conv_nth nth_eq_iff_index_eq)

lemma um_access_step:
  assumes ok: "um_ok u sts" and a: "a \<noteq> 0"
  shows "\<exists>u' sts'. um_access hash a u = Some u' \<and> um_ok u' sts' \<and> um_buckets u' = um_buckets u \<and> um_sel hash u' = um_sel hash u \<and>
    sts' = (case um_sel hash u a of None \<Rightarrow> sts | Some s \<Rightarrow> sts(s := take (um_buckets u) (a # remove1 a (sts s)))) \<and>
    (\<forall>k\<le>um_buckets u. um_curve u' k = um_curve u k +
      (case um_sel hash u a of None \<Rightarrow> 0 | Some s \<Rightarrow> if a \<in> set (take k (sts s)) then 0 else 1))"
proof (cases "um_sampled hash u a")
  case False
  then show ?thesis using ok by (auto simp: um_access_def um_sel_def)
next
  case samp: True
  define s where "s = um_set hash u a"
  have sel: "um_sel hash u a = Some s" using samp by (simp add: um_sel_def s_def)
  have s: "s < um_sets u" using um_set_less [OF ok] by (simp add: s_def)
  have rep: "um_rep (um_buckets u) (um_array u ! s) (um_heads u ! s) (sts s)" using ok s by (simp add: um_ok_def)
  then have d: "distinct (sts s)" and len: "length (sts s) \<le> um_buckets u" by (auto simp: um_rep_def)
  let ?st = "take (um_buckets u) (a # remove1 a (sts s))"
  have keep: "um_sel hash (u\<lparr>um_array := arr, um_heads := hs\<rparr>) = um_sel hash u" "um_sel hash (v\<lparr>um_curWayHits := h\<rparr>) = um_sel hash v"
    "um_sel hash (v\<lparr>um_curMisses := m\<rparr>) = um_sel hash v" "um_sel hash (v\<lparr>um_array := arr, um_heads := hs\<rparr>) = um_sel hash v" for v arr hs h m
    by (auto simp: fun_eq_iff um_sel_def um_sampled_def um_set_def)
  have sl: "s < length (um_heads u)" "s < length (um_array u)" using ok s by (auto simp: um_ok_def)
  show ?thesis
  proof (cases "a \<in> set (sts s)")
    case True
    from um_set_step_hit [OF rep True] obtain i prev cur ns2 head2 where h:
      "um_walk (um_array u ! s) a (um_buckets u) 0 None (um_heads u ! s) = Some (Some i, prev, cur)" "i < length (sts s)" "sts s ! i = a"
      "um_toMRU prev cur (um_heads u ! s) (um_array u ! s) = (ns2, head2)" "um_rep (um_buckets u) ns2 head2 ?st" by blast
    let ?u = "u\<lparr>um_curWayHits := (um_curWayHits u)[i := um_curWayHits u ! i + 1], um_array := (um_array u)[s := ns2],
      um_heads := (um_heads u)[s := head2]\<rparr>"
    have "um_access hash a u = Some ?u" using samp h sl by (simp add: um_access_def s_def [symmetric] Let_def)
    moreover have "um_ok ?u (sts(s := ?st))" using ok h(5) by (auto simp: um_ok_def nth_list_update)
    moreover have "um_curve ?u k = um_curve u k + (if a \<in> set (take k (sts s)) then 0 else 1)" for k
    proof -
      have "i < length (um_curWayHits u)" using ok h(2) len by (simp add: um_ok_def)
      then show ?thesis using take_in_position [OF d h(2), of k] h(3) by (auto simp: um_curve_def sum_drop_upd)
    qed
    ultimately show ?thesis using sel keep by (intro exI [of _ ?u] exI [of _ "sts(s := ?st)"]) simp
  next
    case False
    have "0 < um_buckets u" using ok by (simp add: um_ok_def)
    from um_set_step_miss [OF rep False a this] obtain prev cur ns2 head2 where h:
      "um_walk (um_array u ! s) a (um_buckets u) 0 None (um_heads u ! s) = Some (None, prev, cur)" "un_next (um_array u ! s ! cur) = None"
      "um_toMRU prev cur (um_heads u ! s) ((um_array u ! s)[cur := (um_array u ! s ! cur)\<lparr>un_addr := a\<rparr>]) = (ns2, head2)"
      "um_rep (um_buckets u) ns2 head2 ?st" by blast
    let ?u = "u\<lparr>um_curMisses := um_curMisses u + 1, um_array := (um_array u)[s := ns2], um_heads := (um_heads u)[s := head2]\<rparr>"
    have "um_access hash a u = Some ?u" using samp h sl by (simp add: um_access_def s_def [symmetric] Let_def)
    moreover have "um_ok ?u (sts(s := ?st))" using ok h(4) by (auto simp: um_ok_def nth_list_update)
    moreover have "um_curve ?u k = um_curve u k + (if a \<in> set (take k (sts s)) then 0 else 1)" for k
      using False by (auto simp: um_curve_def dest: in_set_takeD)
    ultimately show ?thesis using sel keep by (intro exI [of _ ?u] exI [of _ "sts(s := ?st)"]) simp
  qed
qed

lemma um_run_curve:
  assumes "um_ok u sts" and "0 \<notin> set as" and "k \<le> um_buckets u"
  shows "\<exists>u'. um_run hash as u = Some u' \<and> um_buckets u' = um_buckets u \<and> (\<exists>sts'. um_ok u' sts') \<and>
    um_curve u' k = um_curve u k + of_nat (lru_misses k (um_sel hash u) (\<lambda>s. take k (sts s)) as)"
  using assms
proof (induction as arbitrary: u sts)
  case Nil
  then show ?case by auto
next
  case (Cons a as)
  from um_access_step [OF Cons.prems(1), of a hash] Cons.prems(2) obtain u' sts' where u':
    "um_access hash a u = Some u'" "um_ok u' sts'" "um_buckets u' = um_buckets u" "um_sel hash u' = um_sel hash u"
    "sts' = (case um_sel hash u a of None \<Rightarrow> sts | Some s \<Rightarrow> sts(s := take (um_buckets u) (a # remove1 a (sts s))))"
    "um_curve u' k = um_curve u k + (case um_sel hash u a of None \<Rightarrow> 0 | Some s \<Rightarrow> if a \<in> set (take k (sts s)) then 0 else 1)"
    using Cons.prems(3) by auto
  from Cons.IH [OF u'(2)] Cons.prems(2,3) u'(3) obtain u'' where u'': "um_run hash as u' = Some u''" "um_buckets u'' = um_buckets u"
    "\<exists>sts'. um_ok u'' sts'" "um_curve u'' k = um_curve u' k + of_nat (lru_misses k (um_sel hash u') (\<lambda>s. take k (sts' s)) as)" by auto
  show ?case
  proof (cases "um_sel hash u a")
    case None
    then show ?thesis using u' u'' by auto
  next
    case (Some s)
    then have "s < um_sets u" using um_set_less [OF Cons.prems(1)] by (auto simp: um_sel_def split: if_splits)
    then have "distinct (sts s)" using Cons.prems(1) by (auto simp: um_ok_def um_rep_def)
    then have "(\<lambda>s. take k (sts' s)) = (\<lambda>s. take k (sts s))(s := take k (a # remove1 a (take k (sts s))))"
      using u'(5) Some take_stack [OF Cons.prems(3)] by (auto simp: fun_eq_iff)
    then show ?thesis using u' u'' Some by auto
  qed
qed

lemma um_misses_loop_ok:
  assumes "length (um_curWayHits u) = um_buckets u" and "j \<le> um_buckets u" and "length m = um_buckets u + 1"
    and "tot = um_curve u (um_buckets u - j)"
    and "\<forall>k\<le>um_buckets u. um_buckets u - j < k \<longrightarrow> m ! k = um_curve u k"
  shows "\<exists>m'. um_misses_loop u [j..<um_buckets u] tot m = Some (um_curve u 0, m') \<and> length m' = um_buckets u + 1 \<and>
    (\<forall>k\<le>um_buckets u. 0 < k \<longrightarrow> m' ! k = um_curve u k)"
  using assms(2-)
proof (induction "um_buckets u - j" arbitrary: j tot m)
  case 0
  then have "um_buckets u - j = 0" by simp
  with 0 show ?case by auto
next
  case (Suc d)
  let ?n = "um_buckets u"
  have j: "j < ?n" using Suc.hyps(2) by simp
  let ?b = "?n - Suc j"
  have "um_curve u ?b = um_curve u (?n - j) + um_curWayHits u ! ?b"
    using j assms(1) Cons_nth_drop_Suc [of ?b "um_curWayHits u"] by (simp add: um_curve_def Suc_diff_Suc)
      (metis add.commute add.left_commute sum_list.Cons)
  then have "tot + um_curWayHits u ! (?n - j - 1) = um_curve u (?n - Suc j)" using Suc.prems(3) by simp
  moreover have "\<forall>k\<le>?n. ?n - Suc j < k \<longrightarrow> m[?n - j := tot] ! k = um_curve u k"
    using Suc.prems j by (auto simp: nth_list_update)
  ultimately have "\<exists>m'. um_misses_loop u [Suc j..<?n] (tot + um_curWayHits u ! (?n - j - 1)) (m[?n - j := tot]) = Some (um_curve u 0, m') \<and>
      length m' = ?n + 1 \<and> (\<forall>k\<le>?n. 0 < k \<longrightarrow> m' ! k = um_curve u k)"
    using Suc.hyps(1) [of "Suc j"] Suc.hyps(2) Suc.prems j by simp
  then show ?case using j Suc.prems by (simp add: upt_conv_Cons um_put_def)
qed

lemma um_getMisses_ok:
  assumes ok: "um_ok u sts" and m: "length m = um_buckets u + 1"
  shows "\<exists>m'. um_getMisses u m = Some m' \<and> (\<forall>k\<le>um_buckets u. m' ! k = um_curve u k)"
proof -
  have l: "length (um_curWayHits u) = um_buckets u" using ok by (simp add: um_ok_def)
  have "um_curMisses u = um_curve u (um_buckets u - 0)" using l by (simp add: um_curve_def)
  from um_misses_loop_ok [OF l _ m this] obtain m' where
    "um_misses_loop u [0..<um_buckets u] (um_curMisses u) m = Some (um_curve u 0, m')" "length m' = um_buckets u + 1"
    "\<forall>k\<le>um_buckets u. 0 < k \<longrightarrow> m' ! k = um_curve u k" by auto
  then show ?thesis by (auto simp: um_getMisses_def um_put_def nth_list_update)
qed

lemma um_bits_le: "0 < n \<Longrightarrow> 2 ^ um_bits n \<le> n"
proof (induction n rule: um_bits.induct)
  case (1 n)
  show ?case
  proof (cases "n div 2 = 0")
    case True
    then show ?thesis using 1 by (subst um_bits.simps) simp
  next
    case False
    then have "2 ^ um_bits (n div 2) \<le> n div 2" using 1 by simp
    with False show ?thesis by (subst um_bits.simps) simp
  qed
qed

lemma um_new_ok: "0 < b \<Longrightarrow> b \<le> l \<Longrightarrow> um_ok (um_new n l b) (\<lambda>_. [])"
proof -
  assume b: "0 < b" "b \<le> l"
  then have "0 < l div b" by (simp add: div_greater_zero_iff)
  moreover have "um_link (um_nodes_new b) [0..<b]" by (auto simp: um_link_def um_nodes_new_def)
  moreover have "map (\<lambda>x. un_addr (um_nodes_new b ! x)) [0..<b] = replicate b 0"
    by (intro nth_equalityI) (simp_all add: um_nodes_new_def)
  ultimately show ?thesis using b um_bits_le [of "l div b"]
    by (auto simp: um_ok_def um_new_def Let_def um_rep_def um_nodes_new_def intro!: exI [of _ "[0..<b]"])
qed

lemma um_new_curve [simp]: "um_curve (um_new n l b) k = 0"
  by (simp add: um_curve_def um_new_def Let_def sum_list_replicate)

lemma um_new_buckets [simp]: "um_buckets (um_new n l b) = b"
  by (simp add: um_new_def Let_def)

text \<open>C30. The utility monitor measures every associativity in one pass: after any accesses to nonzero
  addresses, entry \<open>k\<close> of its miss curve is the number of misses that an LRU cache with \<open>k\<close> ways and
  the monitor's sampling and sets takes on them.\<close>

theorem umon_curve_is_lru:
  assumes "0 < buckets" and "buckets \<le> umonLines" and "0 \<notin> set as" and "k \<le> buckets"
  shows "\<exists>u m. um_run hash as (um_new bankLines umonLines buckets) = Some u \<and>
    um_getMisses u (replicate (buckets + 1) 0) = Some m \<and>
    m ! k = of_nat (lru_misses k (um_sel hash (um_new bankLines umonLines buckets)) (\<lambda>_. []) as)"
proof -
  let ?u = "um_new bankLines umonLines buckets"
  from um_run_curve [OF um_new_ok [OF assms(1,2)] assms(3), of k bankLines hash] assms(4) obtain u sts where
    u: "um_run hash as ?u = Some u" "um_buckets u = buckets" "um_ok u sts"
    "um_curve u k = of_nat (lru_misses k (um_sel hash ?u) (\<lambda>_. []) as)" by auto
  with um_getMisses_ok [of u sts "replicate (buckets + 1) 0"] assms(4) show ?thesis by auto
qed

theorem umon_curve_is_lru_witness:
  "\<exists>u m. um_run (\<lambda>i a. if i = 0 then 0 else a) [4, 6, 8, 4, 5] (um_new 64 4 2) = Some u \<and>
    um_getMisses u [0, 0, 0] = Some m \<and> m ! 1 = 5 \<and> lru_misses 2 (um_sel (\<lambda>i a. if i = 0 then 0 else a) (um_new 64 4 2)) (\<lambda>_. []) [4, 6, 8, 4, 5] = 5"
proof -
  let ?h = "\<lambda>i a :: addr. if i = 0 then 0 else a"
  have n: "lru_misses 1 (um_sel ?h (um_new 64 4 2)) (\<lambda>_. []) [4, 6, 8, 4, 5] = 5" "lru_misses 2 (um_sel ?h (um_new 64 4 2)) (\<lambda>_. []) [4, 6, 8, 4, 5] = 5"
    by (simp_all add: um_sel_def um_sampled_def um_set_def um_new_def um_bits.simps Let_def)
  have r: "replicate (2 + 1) (0 :: u64) = [0, 0, 0]" by (simp add: eval_nat_numeral)
  show ?thesis using umon_curve_is_lru [of 2 4 "[4, 6, 8, 4, 5]" 1 ?h 64, unfolded r] n by simp
qed

section \<open>The monitor of all partitions\<close>

record umon_monitor =
  mm_buckets :: nat
  mm_missCache :: "u32 list"
  mm_missCacheValid :: bool
  mm_monitors :: "umon list"

definition mm_new :: "nat \<Rightarrow> nat \<Rightarrow> nat \<Rightarrow> nat \<Rightarrow> nat \<Rightarrow> umon_monitor option" where
  "mm_new numLines umonLines umonBuckets numPartitions buckets =
     Option.bind (guard (numPartitions > 0)) (\<lambda>_.
     Some \<lparr>mm_buckets = buckets, mm_missCache = replicate (buckets * numPartitions) 0, mm_missCacheValid = False,
           mm_monitors = replicate numPartitions (um_new numLines umonLines umonBuckets)\<rparr>)"

definition mm_access :: "(nat \<Rightarrow> addr \<Rightarrow> u64) \<Rightarrow> nat \<Rightarrow> addr \<Rightarrow> umon_monitor \<Rightarrow> umon_monitor option" where
  "mm_access hash part a m =
     Option.bind (guard (part < length (mm_monitors m))) (\<lambda>_.
     Option.bind (um_access hash a (mm_monitors m ! part)) (\<lambda>u.
     Option.bind (guard (\<not> mm_missCacheValid m)) (\<lambda>_.
     Some (m\<lparr>mm_monitors := (mm_monitors m)[part := u], mm_missCacheValid := False\<rparr>))))"

definition mm_getNumAccesses :: "nat \<Rightarrow> umon_monitor \<Rightarrow> u32 option" where
  "mm_getNumAccesses part m =
     Option.bind (guard (part < length (mm_monitors m))) (\<lambda>_. Some (ucast (um_getNumAccesses (mm_monitors m ! part))))"

text \<open>Writes of a list of values at consecutive indices, and the resampling of a curve of \<open>umonBuckets + 1\<close>
  points to \<open>buckets + 1\<close>. The interpolation is exact; the source rounds it as a \<open>double\<close>.\<close>

fun mm_writes :: "(nat \<times> u64) list \<Rightarrow> u32 list \<Rightarrow> u32 list option" where
  "mm_writes [] xs = Some xs"
| "mm_writes ((i, v) # ws) xs = Option.bind (um_put i (ucast v) xs) (mm_writes ws)"

definition mm_interpolate :: "u64 \<Rightarrow> u64 \<Rightarrow> nat \<Rightarrow> nat \<Rightarrow> u64" where
  "mm_interpolate m0 m1 k ratio = of_nat ((unat m0 * (ratio - k) + unat m1 * k) div ratio)"

definition mm_getMissCurve :: "nat \<Rightarrow> umon_monitor \<Rightarrow> umon_monitor option" where
  "mm_getMissCurve part m =
     Option.bind (guard (part < length (mm_monitors m))) (\<lambda>_.
     let u = mm_monitors m ! part; umonBuckets = um_buckets u; buckets = mm_buckets m; base = part * buckets in
     Option.bind (um_getMisses u (replicate umonBuckets 0)) (\<lambda>umonMisses.
     map_option (\<lambda>c. m\<lparr>mm_missCache := c\<rparr>)
     (if umonBuckets \<ge> buckets then
        (let downsampleRatio = umonBuckets div buckets in
         Option.bind (guard (umonBuckets mod buckets = 0)) (\<lambda>_.
         mm_writes (map (\<lambda>j. (base + j, umonMisses ! (j * downsampleRatio))) [0..<buckets] @ [(base + buckets, umonMisses ! umonBuckets)])
           (mm_missCache m)))
      else
        (let upsampleRatio = buckets div umonBuckets in
         Option.bind (guard (buckets mod umonBuckets = 0)) (\<lambda>_.
         mm_writes (concat (map (\<lambda>j. (base + upsampleRatio * j, umonMisses ! j) #
             map (\<lambda>k. (base + upsampleRatio * j + k, mm_interpolate (umonMisses ! j) (umonMisses ! (j + 1)) k upsampleRatio)) [1..<upsampleRatio] @
             [(base + buckets, umonMisses ! umonBuckets)]) [0..<umonBuckets]))
           (mm_missCache m))))))"

fun mm_curves :: "nat list \<Rightarrow> umon_monitor \<Rightarrow> umon_monitor option" where
  "mm_curves [] m = Some m"
| "mm_curves (p # ps) m = Option.bind (mm_getMissCurve p m) (mm_curves ps)"

definition mm_getMissCurves :: "umon_monitor \<Rightarrow> umon_monitor option" where
  "mm_getMissCurves m = mm_curves [0..<length (mm_monitors m)] m"

definition mm_get :: "nat \<Rightarrow> nat \<Rightarrow> umon_monitor \<Rightarrow> (u32 \<times> umon_monitor) option" where
  "mm_get part bucket m =
     Option.bind (guard (part < length (mm_monitors m))) (\<lambda>_.
     Option.bind (if \<not> mm_missCacheValid m then map_option (\<lambda>m1. m1\<lparr>mm_missCacheValid := True\<rparr>) (mm_getMissCurves m) else Some m) (\<lambda>m1.
     Option.bind (guard (part * mm_buckets m + bucket < length (mm_missCache m1))) (\<lambda>_.
     Some (mm_missCache m1 ! (part * mm_buckets m + bucket), m1))))"

definition mm_reset :: "umon_monitor \<Rightarrow> umon_monitor" where
  "mm_reset m = m\<lparr>mm_monitors := map um_startNextInterval (mm_monitors m), mm_missCacheValid := False\<rparr>"

fun mm_run :: "(nat \<Rightarrow> addr \<Rightarrow> u64) \<Rightarrow> (nat \<times> addr) list \<Rightarrow> umon_monitor \<Rightarrow> umon_monitor option" where
  "mm_run hash [] m = Some m"
| "mm_run hash ((p, a) # as) m = Option.bind (mm_access hash p a m) (mm_run hash as)"

lemma um_access_buckets: "um_access hash a u = Some u' \<Longrightarrow> um_buckets u' = um_buckets u"
  by (auto simp: um_access_def Let_def split: if_splits bind_splits option.splits prod.splits)

lemma um_getMisses_short: "0 < um_buckets u \<Longrightarrow> um_getMisses u (replicate (um_buckets u) 0) = None"
  by (simp add: um_getMisses_def upt_conv_Cons um_put_def)

definition mm_shape :: "nat \<Rightarrow> nat \<Rightarrow> umon_monitor \<Rightarrow> bool" where
  "mm_shape n b m \<longleftrightarrow> length (mm_monitors m) = n \<and> \<not> mm_missCacheValid m \<and> (\<forall>u\<in>set (mm_monitors m). um_buckets u = b)"

lemma mm_run_shape: "mm_run hash as m = Some m' \<Longrightarrow> mm_shape n b m \<Longrightarrow> mm_shape n b m'"
proof (induction as arbitrary: m)
  case (Cons x as)
  obtain p a where x: "x = (p, a)" by (cases x)
  let ?m = "\<lambda>u. m\<lparr>mm_monitors := (mm_monitors m)[p := u], mm_missCacheValid := False\<rparr>"
  from Cons.prems(1) x obtain u where u: "p < length (mm_monitors m)" "um_access hash a (mm_monitors m ! p) = Some u"
    "mm_run hash as (?m u) = Some m'"
    by (auto simp: mm_access_def guard_def split: bind_splits if_splits)
  have "um_buckets u = b" using um_access_buckets [OF u(2)] u(1) Cons.prems(2) by (simp add: mm_shape_def)
  then have "mm_shape n b (?m u)" using Cons.prems(2) by (auto simp: mm_shape_def dest: set_list_updateD)
  with Cons.IH u(3) show ?case by blast
qed simp

text \<open>C33. The first reading of the miss curves after any accesses leaves the code's memory:
  \<open>getMissCurve\<close> passes an array of \<open>umonBuckets\<close> entries to \<open>getMisses\<close>, which writes one more. With
  that one more entry \<open>getMisses\<close> would succeed.\<close>

theorem umon_monitor_get_overruns:
  assumes "mm_new numLines umonLines umonBuckets numPartitions buckets = Some m0" and "mm_run hash as m0 = Some m"
    and "0 < umonBuckets"
  shows "mm_get part bucket m = None"
proof -
  have n: "0 < numPartitions" "mm_shape numPartitions umonBuckets m0"
    using assms(1) by (auto simp: mm_new_def mm_shape_def split: bind_splits)
  have sh: "mm_shape numPartitions umonBuckets m" using mm_run_shape [OF assms(2) n(2)] .
  then have "mm_monitors m ! 0 \<in> set (mm_monitors m)" using n(1) by (simp add: mm_shape_def)
  then have b: "um_buckets (mm_monitors m ! 0) = umonBuckets" using sh by (auto simp: mm_shape_def)
  have "um_getMisses (mm_monitors m ! 0) (replicate (um_buckets (mm_monitors m ! 0)) 0) = None"
    using um_getMisses_short [of "mm_monitors m ! 0"] assms(3) b by simp
  then have "mm_getMissCurve 0 m = None" by (simp add: mm_getMissCurve_def Let_def)
  then have "mm_getMissCurves m = None" using n(1) sh by (simp add: mm_getMissCurves_def mm_shape_def upt_conv_Cons)
  then show ?thesis using sh by (simp add: mm_get_def mm_shape_def)
qed

theorem umon_monitor_get_overruns_witness:
  "\<exists>m0 m. mm_new 64 4 2 3 8 = Some m0 \<and> mm_run (\<lambda>i a. 1) [(0, 5), (2, 6)] m0 = Some m \<and> mm_get 1 4 m = None"
proof -
  let ?u = "um_new 64 4 2"
  have "um_samplingFactorBits ?u = 4" by (simp add: um_new_def um_bits.simps Let_def)
  moreover have "(1 :: u64) AND mask 4 \<noteq> 0" by (simp add: mask_eq_exp_minus_1)
  ultimately have acc: "um_access (\<lambda>i a. 1) a ?u = Some ?u" for a by (simp add: um_access_def um_sampled_def)
  obtain m0 where m0: "mm_new 64 4 2 3 8 = Some m0" by (auto simp: mm_new_def)
  moreover have "mm_run (\<lambda>i a. 1) [(0, 5), (2, 6)] m0 = Some m0"
    using m0 by (auto simp: mm_new_def mm_access_def acc numeral_3_eq_3)
  ultimately show ?thesis
    using umon_monitor_get_overruns [of 64 4 2 3 8 m0 "\<lambda>i a. 1" "[(0, 5), (2, 6)]" m0 1 4] by (intro exI [of _ m0]) simp
qed

end
