(* ===== verification/Partitioning.thy ===== *)
theory Partitioning
  imports Mem_Types Complex_Main
begin

text \<open>
  Partition mappers (\<^verbatim>\<open>zsim/src/partition_mapper.h\<close>), the record every partition-aware policy keeps per
  partition (\<^verbatim>\<open>part_repl_policies.h\<close>), and the lookahead algorithm of \<^verbatim>\<open>lookahead.cpp\<close>, which divides
  the buckets of a cache by marginal utility.

  The utilities are exact fractions (\<open>rat\<close>) where the source divides as \<open>double\<close>: both order the same
  for miss counts below 2^26. The monitor is the parameter \<open>get\<close>.
\<close>

section \<open>Mappers\<close>

datatype part_mapper =
    CorePartMapper nat
  | InstrDataPartMapper
  | InstrDataCorePartMapper nat
  | ProcessPartMapper nat
  | InstrDataProcessPartMapper nat
  | ProcessGroupPartMapper nat

fun getNumPartitions :: "part_mapper \<Rightarrow> nat" where
  "getNumPartitions (CorePartMapper numCores) = numCores"
| "getNumPartitions InstrDataPartMapper = 2"
| "getNumPartitions (InstrDataCorePartMapper numCores) = 2 * numCores"
| "getNumPartitions (ProcessPartMapper numProcs) = numProcs"
| "getNumPartitions (InstrDataProcessPartMapper numProcs) = 2 * numProcs"
| "getNumPartitions (ProcessGroupPartMapper numProcGroups) = numProcGroups"

text \<open>\<open>procIdx\<close> is the process that runs the code and \<open>groupIdx\<close> the group of each process.\<close>

fun getPartition :: "nat \<Rightarrow> (nat \<Rightarrow> nat) \<Rightarrow> part_mapper \<Rightarrow> memreq \<Rightarrow> nat option" where
  "getPartition procIdx groupIdx (CorePartMapper numCores) req = Some (mr_srcId req)"
| "getPartition procIdx groupIdx InstrDataPartMapper req = Some (unat (mr_flags req AND IFETCH))"
| "getPartition procIdx groupIdx (InstrDataCorePartMapper numCores) req =
     Some (mr_srcId req + (if mr_flags req AND IFETCH \<noteq> 0 then numCores else 0))"
| "getPartition procIdx groupIdx (ProcessPartMapper numProcs) req =
     Option.bind (guard (procIdx < numProcs)) (\<lambda>_. Some procIdx)"
| "getPartition procIdx groupIdx (InstrDataProcessPartMapper numProcs) req =
     Option.bind (guard (procIdx < numProcs)) (\<lambda>_.
     Some (procIdx + (if mr_flags req AND IFETCH \<noteq> 0 then numProcs else 0)))"
| "getPartition procIdx groupIdx (ProcessGroupPartMapper numProcGroups) req =
     Option.bind (guard (groupIdx procIdx < numProcGroups)) (\<lambda>_. Some (groupIdx procIdx))"

lemma getPartition_bound:
  assumes "getPartition procIdx groupIdx pm req = Some p" and "pm \<noteq> InstrDataPartMapper"
    and "\<And>n. pm = CorePartMapper n \<or> pm = InstrDataCorePartMapper n \<Longrightarrow> mr_srcId req < n"
  shows "p < getNumPartitions pm"
  using assms by (cases pm) (auto split: bind_splits if_splits)

text \<open>The instruction/data mapper answers with the flag itself, which is 2, of 2 partitions.\<close>

lemma InstrDataPartMapper_out_of_range:
  "mr_flags req = IFETCH \<Longrightarrow>
    \<exists>p. getPartition procIdx groupIdx InstrDataPartMapper req = Some p \<and> p = getNumPartitions InstrDataPartMapper"
  by (simp add: IFETCH_def)

section \<open>Partition information\<close>

record part_info =
  pi_size :: u64
  pi_targetSize :: u64
  pi_profHits :: u64
  pi_profMisses :: u64
  pi_profSelfEvictions :: u64
  pi_profExtEvictions :: u64

definition part_info_new :: part_info where
  "part_info_new = \<lparr>pi_size = 0, pi_targetSize = 0, pi_profHits = 0, pi_profMisses = 0, pi_profSelfEvictions = 0, pi_profExtEvictions = 0\<rparr>"

section \<open>Lookahead\<close>

text \<open>The extra hits are a difference of two 32-bit counts, widened afterwards.\<close>

definition la_mu :: "(nat \<Rightarrow> nat \<Rightarrow> u32) \<Rightarrow> nat \<Rightarrow> nat \<Rightarrow> nat \<Rightarrow> rat" where
  "la_mu get part partAlloc i = of_nat (unat (get part partAlloc - get part (partAlloc + i))) / of_nat i"

definition getMaxMarginalUtility :: "(nat \<Rightarrow> nat \<Rightarrow> u32) \<Rightarrow> nat \<Rightarrow> nat \<Rightarrow> nat \<Rightarrow> rat \<times> nat" where
  "getMaxMarginalUtility get part partAlloc balance =
     fold (\<lambda>i (maxMu, maxMuAlloc). let mu = la_mu get part partAlloc i
            in if mu > maxMu then (mu, i) else (maxMu, maxMuAlloc)) [1..<balance + 1] (- 1, 0)"

definition la_best :: "(nat \<Rightarrow> nat \<Rightarrow> u32) \<Rightarrow> (nat \<Rightarrow> bool) \<Rightarrow> nat \<Rightarrow> nat list \<Rightarrow> nat \<Rightarrow> rat \<times> nat \<times> nat" where
  "la_best get forbidden numPartitions allocs balance =
     fold (\<lambda>i (maxMu, maxMuPart, maxMuAlloc).
            if forbidden i then (maxMu, maxMuPart, maxMuAlloc)
            else (let (mu, muAlloc) = getMaxMarginalUtility get i (allocs ! i) balance
                  in if mu > maxMu then (mu, i, muAlloc) else (maxMu, maxMuPart, maxMuAlloc)))
       [0..<numPartitions] (- 1, numPartitions, 0)"

partial_function (option) la_loop ::
    "(nat \<Rightarrow> nat \<Rightarrow> u32) \<Rightarrow> (nat \<Rightarrow> bool) \<Rightarrow> nat \<Rightarrow> nat list \<Rightarrow> nat \<Rightarrow> nat list option" where
  "la_loop get forbidden numPartitions allocs balance =
     (if balance > 0 then
        (let (maxMu, maxMuPart, maxMuAlloc) = la_best get forbidden numPartitions allocs balance in
         if maxMuPart < numPartitions
         then la_loop get forbidden numPartitions (allocs[maxMuPart := allocs ! maxMuPart + maxMuAlloc]) (balance - maxMuAlloc)
         else None)
      else Some allocs)"

definition computeBestPartitioning ::
    "nat \<Rightarrow> nat \<Rightarrow> nat \<Rightarrow> (nat \<Rightarrow> bool) \<Rightarrow> (nat \<Rightarrow> nat \<Rightarrow> u32) \<Rightarrow> nat list option" where
  "computeBestPartitioning numPartitions buckets minAlloc forbidden get =
     la_loop get forbidden numPartitions (replicate numPartitions minAlloc) ((buckets + 2 ^ 32 - minAlloc) mod 2 ^ 32)"

definition computePartitioningTotalUtility :: "nat \<Rightarrow> nat list \<Rightarrow> (nat \<Rightarrow> nat \<Rightarrow> u32) \<Rightarrow> u64" where
  "computePartitioningTotalUtility numPartitions parts get =
     sum_list (map (\<lambda>p. ucast (get p 0)) [0..<numPartitions]) - sum_list (map (\<lambda>p. ucast (get p (parts ! p))) [0..<numPartitions])"

text \<open>\<open>LookaheadPartitioner::partition\<close> up to the allocation it hands to the policy; the two utilities it
  computes are not used, since the switch is always taken. \<open>portionBuckets\<close> is \<open>allocPortion * buckets\<close>.\<close>

definition la_partition :: "nat \<Rightarrow> nat \<Rightarrow> nat \<Rightarrow> (nat \<Rightarrow> bool) \<Rightarrow> (nat \<Rightarrow> nat \<Rightarrow> u32) \<Rightarrow> nat list option" where
  "la_partition numPartitions portionBuckets minAlloc forbidden get =
     computeBestPartitioning numPartitions portionBuckets (minAlloc * numPartitions) forbidden get"

section \<open>The greedy choice\<close>

lemma la_mu_nonneg: "0 \<le> la_mu get part a i"
  unfolding la_mu_def by (intro divide_nonneg_nonneg of_nat_0_le_iff)

lemma getMax_spec:
  assumes "0 < balance"
  shows "\<exists>i. getMaxMarginalUtility get part a balance = (la_mu get part a i, i) \<and> 1 \<le> i \<and> i \<le> balance \<and>
    (\<forall>j. 1 \<le> j \<longrightarrow> j \<le> balance \<longrightarrow> la_mu get part a j \<le> la_mu get part a i)"
proof -
  let ?f = "\<lambda>i (maxMu, maxMuAlloc). let mu = la_mu get part a i in if mu > maxMu then (mu, i) else (maxMu, maxMuAlloc)"
  have "\<exists>i. fold ?f [1..<Suc n + 1] (- 1, 0) = (la_mu get part a i, i) \<and> 1 \<le> i \<and> i \<le> Suc n \<and>
      (\<forall>j. 1 \<le> j \<longrightarrow> j \<le> Suc n \<longrightarrow> la_mu get part a j \<le> la_mu get part a i)" for n
  proof (induction n)
    case 0
    have "la_mu get part a 1 > - 1" using la_mu_nonneg [of get part a 1] by linarith
    then show ?case by (intro exI [of _ 1]) (auto simp: Let_def)
  next
    case (Suc n)
    then obtain i where i: "fold ?f [1..<Suc n + 1] (- 1, 0) = (la_mu get part a i, i)" "1 \<le> i" "i \<le> Suc n"
      "\<forall>j. 1 \<le> j \<longrightarrow> j \<le> Suc n \<longrightarrow> la_mu get part a j \<le> la_mu get part a i" by blast
    have s: "fold ?f [1..<Suc (Suc n) + 1] (- 1, 0) = ?f (Suc (Suc n)) (fold ?f [1..<Suc n + 1] (- 1, 0))" by simp
    show ?case
    proof (cases "la_mu get part a (Suc (Suc n)) > la_mu get part a i")
      case True
      then show ?thesis unfolding s i(1)
        by (intro exI [of _ "Suc (Suc n)"]) (use i(4) in \<open>force simp: Let_def le_Suc_eq\<close>)
    next
      case False
      then show ?thesis unfolding s i(1) by (intro exI [of _ i]) (use i in \<open>auto simp: Let_def le_Suc_eq\<close>)
    qed
  qed
  from this [of "balance - 1"] assms show ?thesis by (simp add: getMaxMarginalUtility_def)
qed

definition la_choice :: "(nat \<Rightarrow> nat \<Rightarrow> u32) \<Rightarrow> (nat \<Rightarrow> bool) \<Rightarrow> nat \<Rightarrow> nat list \<Rightarrow> nat \<Rightarrow> nat \<Rightarrow> nat \<Rightarrow> bool" where
  "la_choice get forbidden n allocs balance p al \<longleftrightarrow> p < n \<and> \<not> forbidden p \<and> 1 \<le> al \<and> al \<le> balance \<and>
     (\<forall>q<n. \<not> forbidden q \<longrightarrow> (\<forall>j. 1 \<le> j \<longrightarrow> j \<le> balance \<longrightarrow> la_mu get q (allocs ! q) j \<le> la_mu get p (allocs ! p) al))"

lemma la_best_spec:
  assumes b: "0 < balance"
  shows "(\<exists>q<n. \<not> forbidden q) \<Longrightarrow>
    \<exists>p al. la_best get forbidden n allocs balance = (la_mu get p (allocs ! p) al, p, al) \<and> la_choice get forbidden n allocs balance p al"
proof -
  let ?f = "\<lambda>i (maxMu, maxMuPart, maxMuAlloc). if forbidden i then (maxMu, maxMuPart, maxMuAlloc)
            else (let (mu, muAlloc) = getMaxMarginalUtility get i (allocs ! i) balance
                  in if mu > maxMu then (mu, i, muAlloc) else (maxMu, maxMuPart, maxMuAlloc))"
  have "if \<exists>q<k. \<not> forbidden q
    then \<exists>p al. fold ?f [0..<k] (- 1, n, 0) = (la_mu get p (allocs ! p) al, p, al) \<and> la_choice get forbidden k allocs balance p al
    else fold ?f [0..<k] (- 1, n, 0) = (- 1, n, 0)" for k
  proof (induction k)
    case (Suc k)
    have s: "fold ?f [0..<Suc k] (- 1, n, 0) = ?f k (fold ?f [0..<k] (- 1, n, 0))" by simp
    obtain i where i: "getMaxMarginalUtility get k (allocs ! k) balance = (la_mu get k (allocs ! k) i, i)" "1 \<le> i" "i \<le> balance"
      "\<forall>j. 1 \<le> j \<longrightarrow> j \<le> balance \<longrightarrow> la_mu get k (allocs ! k) j \<le> la_mu get k (allocs ! k) i" using getMax_spec [OF b] by blast
    have pos: "la_mu get k (allocs ! k) i > - 1" using la_mu_nonneg [of get k "allocs ! k" i] by linarith
    show ?case
    proof (cases "\<exists>q<k. \<not> forbidden q")
      case True
      with Suc obtain p al where p: "fold ?f [0..<k] (- 1, n, 0) = (la_mu get p (allocs ! p) al, p, al)"
        "la_choice get forbidden k allocs balance p al" by auto
      have ex: "\<exists>q<Suc k. \<not> forbidden q" using True less_Suc_eq by blast
      consider "forbidden k" | "\<not> forbidden k" "la_mu get k (allocs ! k) i > la_mu get p (allocs ! p) al"
        | "\<not> forbidden k" "\<not> la_mu get k (allocs ! k) i > la_mu get p (allocs ! p) al" by blast
      then show ?thesis
      proof cases
        case 1
        then have "la_choice get forbidden (Suc k) allocs balance p al" using p(2) by (auto simp: la_choice_def less_Suc_eq)
        then show ?thesis unfolding s p(1) using ex 1 by auto
      next
        case 2
        have "la_mu get q (allocs ! q) j \<le> la_mu get k (allocs ! k) i"
          if "q < Suc k" "\<not> forbidden q" "1 \<le> j" "j \<le> balance" for q j
        proof (cases "q = k")
          case False
          then have "la_mu get q (allocs ! q) j \<le> la_mu get p (allocs ! p) al" using p(2) that by (simp add: la_choice_def)
          with 2 show ?thesis by simp
        qed (use i(4) that in simp)
        then have "la_choice get forbidden (Suc k) allocs balance k i" using 2 i by (simp add: la_choice_def)
        then show ?thesis unfolding s p(1) using ex 2 i(1) by auto
      next
        case 3
        have "la_mu get q (allocs ! q) j \<le> la_mu get p (allocs ! p) al"
          if "q < Suc k" "\<not> forbidden q" "1 \<le> j" "j \<le> balance" for q j
        proof (cases "q = k")
          case True
          then have "la_mu get q (allocs ! q) j \<le> la_mu get k (allocs ! k) i" using i(4) that by simp
          with 3 show ?thesis by simp
        qed (use p(2) that in \<open>simp add: la_choice_def\<close>)
        then have "la_choice get forbidden (Suc k) allocs balance p al" using p(2) by (simp add: la_choice_def)
        then show ?thesis unfolding s p(1) using ex 3 i(1) by auto
      qed
    next
      case none: False
      then have f: "fold ?f [0..<k] (- 1, n, 0) = (- 1, n, 0)" using Suc by auto
      show ?thesis
      proof (cases "forbidden k")
        case True
        then have "\<not> (\<exists>q<Suc k. \<not> forbidden q)" using none by (auto simp: less_Suc_eq)
        then show ?thesis unfolding s f using True by auto
      next
        case False
        have "la_choice get forbidden (Suc k) allocs balance k i" using none False i by (auto simp: la_choice_def less_Suc_eq)
        moreover have "\<exists>q<Suc k. \<not> forbidden q" using False by blast
        ultimately show ?thesis unfolding s f using False i(1) pos by auto
      qed
    qed
  qed simp
  from this [of n] show "(\<exists>q<n. \<not> forbidden q) \<Longrightarrow> ?thesis" by (simp add: la_best_def)
qed

section \<open>The whole allocation\<close>

lemma sum_list_upd_add: "p < length (xs :: nat list) \<Longrightarrow> sum_list (xs[p := xs ! p + v]) = sum_list xs + v"
proof (induction xs arbitrary: p)
  case (Cons x xs)
  then show ?case by (cases p) auto
qed simp

lemma la_loop_ok:
  assumes "\<exists>q<n. \<not> forbidden q" and "length allocs = n"
  shows "\<exists>allocs'. la_loop get forbidden n allocs balance = Some allocs' \<and> length allocs' = n \<and>
    sum_list allocs' = sum_list allocs + balance \<and> (\<forall>p<n. allocs ! p \<le> allocs' ! p) \<and>
    (\<forall>p<n. forbidden p \<longrightarrow> allocs' ! p = allocs ! p)"
  using assms(2)
proof (induction balance arbitrary: allocs rule: less_induct)
  case (less balance)
  show ?case
  proof (cases "0 < balance")
    case True
    from la_best_spec [OF True assms(1), of get allocs] obtain p al where
      p: "la_best get forbidden n allocs balance = (la_mu get p (allocs ! p) al, p, al)" and
      c: "p < n" "\<not> forbidden p" "1 \<le> al" "al \<le> balance" by (auto simp: la_choice_def)
    let ?a = "allocs[p := allocs ! p + al]"
    from less.IH [of "balance - al" ?a] c less.prems obtain a' where
      a': "la_loop get forbidden n ?a (balance - al) = Some a'" "length a' = n" "sum_list a' = sum_list ?a + (balance - al)"
      "\<forall>q<n. ?a ! q \<le> a' ! q" "\<forall>q<n. forbidden q \<longrightarrow> a' ! q = ?a ! q" by auto
    have "la_loop get forbidden n allocs balance = Some a'"
      using True p c a'(1) by (subst la_loop.simps) simp
    moreover have "sum_list a' = sum_list allocs + balance"
      using a'(3) sum_list_upd_add [of p allocs al] c less.prems by simp
    moreover have "allocs ! q \<le> a' ! q" if "q < n" for q
    proof -
      have "allocs ! q \<le> ?a ! q" using that less.prems by (cases "q = p") simp_all
      with a'(4) that show ?thesis by (meson le_trans)
    qed
    moreover have "a' ! q = allocs ! q" if "q < n" "forbidden q" for q
      using a'(5) that c(2) by (cases "q = p") auto
    ultimately show ?thesis using a'(2) by auto
  next
    case False
    then have "la_loop get forbidden n allocs balance = Some allocs" by (subst la_loop.simps) simp
    with False less.prems show ?thesis by simp
  qed
qed

lemma computeBestPartitioning_ok:
  assumes "\<exists>q<n. \<not> forbidden q" and "minAlloc \<le> buckets" and "buckets < 2 ^ 32"
  shows "\<exists>allocs. computeBestPartitioning n buckets minAlloc forbidden get = Some allocs \<and> length allocs = n \<and>
    sum_list allocs = n * minAlloc + (buckets - minAlloc) \<and> (\<forall>p<n. minAlloc \<le> allocs ! p) \<and>
    (\<forall>p<n. forbidden p \<longrightarrow> allocs ! p = minAlloc)"
proof -
  have "buckets + 2 ^ 32 - minAlloc = (buckets - minAlloc) + 2 ^ 32" using assms(2) by simp
  then have "(buckets + 2 ^ 32 - minAlloc) mod 2 ^ 32 = (buckets - minAlloc) mod 2 ^ 32" by (metis mod_add_self2)
  also have "\<dots> = buckets - minAlloc" using assms(3) by simp
  finally have b: "(buckets + 2 ^ 32 - minAlloc) mod 2 ^ 32 = buckets - minAlloc" .
  show ?thesis
    using la_loop_ok [OF assms(1), of "replicate n minAlloc" get "buckets - minAlloc"]
    unfolding computeBestPartitioning_def b by (auto simp: sum_list_replicate)
qed

end
