(* ===== verification/Way_Part.thy ===== *)
theory Way_Part
  imports Partitioning Repl_Legacy
begin

text \<open>
  The way-partitioning policy \<open>WayPartReplPolicy\<close> of \<^verbatim>\<open>zsim/src/part_repl_policies.h\<close>. The mapper
  (\<open>pm\<close>) and the monitor's \<open>access\<close> (\<open>mon\<close>, on its state \<open>'m\<close>) are the virtual objects the constructor
  takes. An index out of the array of partitions is \<open>None\<close>.
\<close>

section \<open>State\<close>

record wp_line =
  wl_addr :: addr
  wl_ts :: u64
  wl_p :: nat

record 'm waypart =
  wp_partInfo :: "part_info list"
  wp_partitions :: nat
  wp_totalSize :: nat
  wp_waySize :: nat
  wp_ways :: nat
  wp_array :: "wp_line list"
  wp_wayPartIndex :: "nat list"
  wp_testMode :: bool
  wp_bestId :: "nat option"
  wp_candIdx :: nat
  wp_incomingLinePart :: nat
  wp_incomingLineAddr :: addr
  wp_timestamp :: u64
  wp_monitor :: 'm

definition pi_at :: "(part_info \<Rightarrow> part_info) \<Rightarrow> nat \<Rightarrow> part_info list \<Rightarrow> part_info list option" where
  "pi_at f p xs = (if p < length xs then Some (upd_at f p xs) else None)"

definition wp_assign :: "nat \<Rightarrow> nat \<Rightarrow> nat \<Rightarrow> nat \<Rightarrow> nat list \<times> part_info list \<Rightarrow> nat list \<times> part_info list" where
  "wp_assign partitions ways waySize w = (\<lambda>(idx, pis).
     let p = w * partitions div ways
     in (idx[w := p], upd_at (\<lambda>i. i\<lparr>pi_targetSize := pi_targetSize i + of_nat waySize\<rparr>) p pis))"

definition wp_new :: "nat \<Rightarrow> nat \<Rightarrow> nat \<Rightarrow> bool \<Rightarrow> 'm \<Rightarrow> 'm waypart option" where
  "wp_new partitions lines ways testMode m =
     (let waySize = lines div ways in
      Option.bind (guard (waySize * ways = lines)) (\<lambda>_.
      let pis = upd_at (\<lambda>i. i\<lparr>pi_size := of_nat lines\<rparr>) 0 (replicate partitions part_info_new);
          (idx, pis2) = fold (wp_assign partitions ways waySize) [0..<ways] (replicate ways 0, pis)
      in Some \<lparr>wp_partInfo = pis2, wp_partitions = partitions, wp_totalSize = lines, wp_waySize = waySize, wp_ways = ways,
               wp_array = replicate lines \<lparr>wl_addr = 0, wl_ts = 0, wl_p = 0\<rparr>, wp_wayPartIndex = idx, wp_testMode = testMode,
               wp_bestId = None, wp_candIdx = 0, wp_incomingLinePart = 0, wp_incomingLineAddr = 0, wp_timestamp = 1, wp_monitor = m\<rparr>))"

section \<open>Operations\<close>

definition wp_move :: "nat \<Rightarrow> nat \<Rightarrow> part_info list \<Rightarrow> part_info list option" where
  "wp_move oldPart newPart pis =
     Option.bind
       (if oldPart \<noteq> newPart then
          Option.bind (pi_at (\<lambda>i. i\<lparr>pi_size := pi_size i - 1, pi_profExtEvictions := pi_profExtEvictions i + 1\<rparr>) oldPart pis)
            (pi_at (\<lambda>i. i\<lparr>pi_size := pi_size i + 1\<rparr>) newPart)
        else pi_at (\<lambda>i. i\<lparr>pi_profSelfEvictions := pi_profSelfEvictions i + 1\<rparr>) oldPart pis)
       (pi_at (\<lambda>i. i\<lparr>pi_profMisses := pi_profMisses i + 1\<rparr>) newPart)"

definition wp_update :: "(nat \<Rightarrow> addr \<Rightarrow> 'm \<Rightarrow> 'm option) \<Rightarrow> 'm waypart \<Rightarrow> nat \<Rightarrow> memreq \<Rightarrow> 'm waypart option" where
  "wp_update mon s l req =
     (let e = wp_array s ! l in
      Option.bind
        (if wl_ts e > 0
         then map_option (\<lambda>pis. (pis, wl_p e)) (pi_at (\<lambda>i. i\<lparr>pi_profHits := pi_profHits i + 1\<rparr>) (wl_p e) (wp_partInfo s))
         else map_option (\<lambda>pis. (pis, wp_incomingLinePart s)) (wp_move (wl_p e) (wp_incomingLinePart s) (wp_partInfo s)))
        (\<lambda>(pis, p).
      let e1 = e\<lparr>wl_p := p, wl_ts := wp_timestamp s\<rparr> in
      Option.bind (mon p (wl_addr e1) (wp_monitor s)) (\<lambda>m.
      Some (s\<lparr>wp_partInfo := pis, wp_array := (wp_array s)[l := e1], wp_timestamp := wp_timestamp s + 1, wp_monitor := m\<rparr>))))"

definition wp_startReplacement :: "(memreq \<Rightarrow> nat option) \<Rightarrow> 'm waypart \<Rightarrow> memreq \<Rightarrow> 'm waypart option" where
  "wp_startReplacement pm s req =
     Option.bind (guard (wp_candIdx s = 0 \<and> wp_bestId s = None)) (\<lambda>_.
     Option.bind (pm req) (\<lambda>p.
     Some (s\<lparr>wp_incomingLinePart := p, wp_incomingLineAddr := mr_lineAddr req\<rparr>)))"

definition wp_beats :: "'m waypart \<Rightarrow> wp_line \<Rightarrow> wp_line \<Rightarrow> bool" where
  "wp_beats s c best =
     (let inc = wp_incomingLinePart s in
      if wp_testMode s \<or> (wl_p c = inc \<and> wl_p best = inc) then wl_ts c < wl_ts best
      else if wl_p c = inc \<and> wl_p best \<noteq> inc then False
      else if wl_p c \<noteq> inc \<and> wl_p best = inc then True
      else wl_ts c < wl_ts best)"

definition wp_recordCandidate :: "'m waypart \<Rightarrow> nat \<Rightarrow> 'm waypart option" where
  "wp_recordCandidate s l =
     Option.bind (guard (wp_candIdx s < wp_ways s)) (\<lambda>_.
     let way = wp_candIdx s; s1 = s\<lparr>wp_candIdx := way + 1\<rparr> in
     Some (if wp_testMode s \<or> wp_wayPartIndex s ! way = wp_incomingLinePart s then
             (case wp_bestId s of
                None \<Rightarrow> s1\<lparr>wp_bestId := Some l\<rparr>
              | Some b \<Rightarrow> if wp_beats s (wp_array s ! l) (wp_array s ! b) then s1\<lparr>wp_bestId := Some l\<rparr> else s1)
           else s1))"

definition wp_getBestCandidate :: "'m waypart \<Rightarrow> ('m waypart \<times> nat) option" where
  "wp_getBestCandidate s = map_option (\<lambda>b. (s, b)) (wp_bestId s)"

definition wp_replaced :: "'m waypart \<Rightarrow> nat \<Rightarrow> 'm waypart" where
  "wp_replaced s l =
     s\<lparr>wp_candIdx := 0, wp_bestId := None,
       wp_array := (wp_array s)[l := (wp_array s ! l)\<lparr>wl_ts := 0, wl_addr := wp_incomingLineAddr s\<rparr>]\<rparr>"

definition wp_rank :: "(memreq \<Rightarrow> nat option) \<Rightarrow> 'm waypart \<Rightarrow> memreq \<Rightarrow> nat list \<Rightarrow> ('m waypart \<times> nat) option" where
  "wp_rank pm s req cands =
     Option.bind (wp_startReplacement pm s req) (\<lambda>s1.
     Option.bind (record_all wp_recordCandidate cands s1) wp_getBestCandidate)"

definition wp_ops :: "(nat \<Rightarrow> addr \<Rightarrow> 'm \<Rightarrow> 'm option) \<Rightarrow> (memreq \<Rightarrow> nat option) \<Rightarrow> 'm waypart rp_ops" where
  "wp_ops mon pm = \<lparr>rp_update = wp_update mon, rp_replaced = (\<lambda>s l. Some (wp_replaced s l)), rp_rank = (\<lambda>_. wp_rank pm)\<rparr>"

text \<open>The partitioner sets the ways of each partition, from partition 0 on. The product is a \<^verbatim>\<open>uint32_t\<close>.\<close>

fun wp_fill :: "nat \<Rightarrow> nat \<Rightarrow> nat \<times> nat list \<Rightarrow> (nat \<times> nat list) option" where
  "wp_fill p 0 (curWay, idx) = Some (curWay, idx)"
| "wp_fill p (Suc n) (curWay, idx) = (if curWay < length idx then wp_fill p n (curWay + 1, idx[curWay := p]) else None)"

fun wp_setParts :: "nat list \<Rightarrow> nat list \<Rightarrow> nat \<times> 'm waypart \<Rightarrow> (nat \<times> 'm waypart) option" where
  "wp_setParts waysPart [] (curWay, s) = Some (curWay, s)"
| "wp_setParts waysPart (p # ps) (curWay, s) =
     Option.bind (guard (p < length waysPart)) (\<lambda>_.
     Option.bind (wp_fill p (waysPart ! p) (curWay, wp_wayPartIndex s)) (\<lambda>(c, idx).
     wp_setParts waysPart ps (c, s\<lparr>wp_wayPartIndex := idx,
       wp_partInfo := upd_at (\<lambda>i. i\<lparr>pi_targetSize := of_nat (wp_totalSize s * waysPart ! p mod 2 ^ 32 div wp_ways s)\<rparr>) p (wp_partInfo s)\<rparr>)))"

definition wp_setPartitionSizes :: "nat list \<Rightarrow> 'm waypart \<Rightarrow> 'm waypart option" where
  "wp_setPartitionSizes waysPart s =
     Option.bind (wp_setParts waysPart [0..<wp_partitions s] (0, s)) (\<lambda>(curWay, s1).
     Option.bind (guard (curWay = wp_ways s)) (\<lambda>_. Some s1))"

section \<open>Sizes are exact\<close>

definition wp_count :: "wp_line list \<Rightarrow> nat \<Rightarrow> nat" where
  "wp_count arr p = length (filter (\<lambda>e. wl_p e = p) arr)"

definition wp_base :: "nat \<Rightarrow> 'm waypart \<Rightarrow> bool" where
  "wp_base n s \<longleftrightarrow> length (wp_array s) = n \<and> length (wp_partInfo s) = wp_partitions s \<and> length (wp_wayPartIndex s) = wp_ways s \<and>
     (\<forall>p<wp_partitions s. pi_size (wp_partInfo s ! p) = of_nat (wp_count (wp_array s) p))"

definition wp_inv :: "nat \<Rightarrow> 'm waypart \<Rightarrow> bool" where
  "wp_inv n s \<longleftrightarrow> wp_base n s \<and> wp_candIdx s = 0 \<and> wp_bestId s = None"

lemma wp_count_upd:
  "l < length arr \<Longrightarrow> of_nat (wp_count (arr[l := e]) p) =
    (of_nat (wp_count arr p) + (if wl_p e = p then 1 else 0) - (if wl_p (arr ! l) = p then 1 else 0) :: u64)"
proof (induction arr arbitrary: l)
  case (Cons x arr)
  then show ?case by (cases l) (auto simp: wp_count_def)
qed simp

lemma wp_move_size:
  assumes "wp_move old new pis = Some pis'"
  shows "length pis' = length pis \<and> (\<forall>p<length pis. pi_size (pis' ! p) =
    pi_size (pis ! p) + (if p = new then 1 else 0) - (if p = old then 1 else 0))"
  using assms by (auto simp: wp_move_def pi_at_def split: if_splits bind_splits)

lemma wp_update_base:
  assumes base: "wp_base n s" and l: "l < n" and u: "wp_update mon s l req = Some s'"
  shows "wp_base n s' \<and> wp_candIdx s' = wp_candIdx s \<and> wp_bestId s' = wp_bestId s"
proof -
  let ?e = "wp_array s ! l"
  obtain pis p m where
    m: "mon p (wl_addr ?e) (wp_monitor s) = Some m" and
    s': "s' = s\<lparr>wp_partInfo := pis, wp_array := (wp_array s)[l := ?e\<lparr>wl_p := p, wl_ts := wp_timestamp s\<rparr>],
      wp_timestamp := wp_timestamp s + 1, wp_monitor := m\<rparr>" and
    pis: "(if wl_ts ?e > 0
         then map_option (\<lambda>pis. (pis, wl_p ?e)) (pi_at (\<lambda>i. i\<lparr>pi_profHits := pi_profHits i + 1\<rparr>) (wl_p ?e) (wp_partInfo s))
         else map_option (\<lambda>pis. (pis, wp_incomingLinePart s)) (wp_move (wl_p ?e) (wp_incomingLinePart s) (wp_partInfo s))) = Some (pis, p)"
    using u by (auto simp: wp_update_def Let_def split: bind_splits)
  have size: "length pis = length (wp_partInfo s) \<and> (\<forall>q<length pis. pi_size (pis ! q) =
      pi_size (wp_partInfo s ! q) + (if q = p then 1 else 0) - (if q = wl_p ?e then 1 else 0))"
  proof (cases "wl_ts ?e > 0")
    case True
    then show ?thesis using pis by (auto simp: pi_at_def split: if_splits)
  next
    case False
    then have "wp_move (wl_p ?e) p (wp_partInfo s) = Some pis" using pis by auto
    from wp_move_size [OF this] show ?thesis by simp
  qed
  then show ?thesis using base l wp_count_upd [of l "wp_array s" "?e\<lparr>wl_p := p, wl_ts := wp_timestamp s\<rparr>"]
    by (auto simp: wp_base_def s')
qed

lemma wp_record_base: "wp_base n s \<Longrightarrow> wp_recordCandidate s d = Some s' \<Longrightarrow> wp_base n s' \<and>
    wp_array s' = wp_array s \<and> wp_wayPartIndex s' = wp_wayPartIndex s \<and> wp_testMode s' = wp_testMode s \<and>
    wp_incomingLinePart s' = wp_incomingLinePart s \<and> wp_ways s' = wp_ways s"
  by (auto simp: wp_recordCandidate_def Let_def wp_base_def split: bind_splits if_splits option.splits)

lemma wp_replaced_inv: "wp_base n s \<Longrightarrow> l < n \<Longrightarrow> wp_inv n (wp_replaced s l)"
  using wp_count_upd [of l "wp_array s" "(wp_array s ! l)\<lparr>wl_ts := 0, wl_addr := wp_incomingLineAddr s\<rparr>"]
  by (auto simp: wp_inv_def wp_base_def wp_replaced_def)

section \<open>The victim\<close>

text \<open>The order of the candidates as one number: lines of the incoming partition come last.\<close>

definition wp_key :: "'m waypart \<Rightarrow> wp_line \<Rightarrow> nat" where
  "wp_key s e = (if \<not> wp_testMode s \<and> wl_p e = wp_incomingLinePart s then 2 ^ 64 else 0) + unat (wl_ts e)"

lemma wp_beats_key: "wp_beats s c b \<longleftrightarrow> wp_key s c < wp_key s b"
proof -
  have "unat x < 2 ^ 64" for x :: u64 using unsigned_less [of x, where 'a = nat] by simp
  from this [of "wl_ts c"] this [of "wl_ts b"] show ?thesis by (auto simp: wp_beats_def wp_key_def Let_def word_less_nat_alt)
qed

definition wp_allowed :: "'m waypart \<Rightarrow> nat \<Rightarrow> bool" where
  "wp_allowed s w \<longleftrightarrow> wp_testMode s \<or> wp_wayPartIndex s ! w = wp_incomingLinePart s"

definition wp_least :: "'m waypart \<Rightarrow> nat list \<Rightarrow> nat \<Rightarrow> bool" where
  "wp_least s ds i \<longleftrightarrow> i < length ds \<and> wp_allowed s i \<and>
     (\<forall>j<length ds. wp_allowed s j \<longrightarrow> wp_key s (wp_array s ! (ds ! i)) \<le> wp_key s (wp_array s ! (ds ! j)))"

definition wp_recording :: "nat \<Rightarrow> 'm waypart \<Rightarrow> nat list \<Rightarrow> 'm waypart \<Rightarrow> bool" where
  "wp_recording n s ds t \<longleftrightarrow> wp_base n t \<and> wp_candIdx t = length ds \<and> (\<exists>c b. t = s\<lparr>wp_candIdx := c, wp_bestId := b\<rparr>) \<and>
     (case wp_bestId t of None \<Rightarrow> \<forall>j<length ds. \<not> wp_allowed s j | Some b \<Rightarrow> \<exists>i. b = ds ! i \<and> wp_least s ds i)"

lemma wp_least_snoc:
  "wp_least s ds i \<Longrightarrow> \<not> wp_allowed s (length ds) \<or> wp_key s (wp_array s ! (ds ! i)) \<le> wp_key s (wp_array s ! d) \<Longrightarrow> wp_least s (ds @ [d]) i"
  by (auto simp: wp_least_def nth_append less_Suc_eq)

lemma wp_least_last:
  "wp_allowed s (length ds) \<Longrightarrow> \<forall>j<length ds. wp_allowed s j \<longrightarrow> wp_key s (wp_array s ! d) \<le> wp_key s (wp_array s ! (ds ! j)) \<Longrightarrow>
    wp_least s (ds @ [d]) (length ds)"
  by (auto simp: wp_least_def nth_append less_Suc_eq)

lemma wp_record_step:
  assumes r: "wp_recording n s ds t" and len: "length ds < wp_ways s"
  shows "\<exists>t'. wp_recordCandidate t d = Some t' \<and> wp_recording n s (ds @ [d]) t'"
proof -
  obtain c0 b0 where t: "t = s\<lparr>wp_candIdx := c0, wp_bestId := b0\<rparr>" and base: "wp_base n t" and c: "wp_candIdx t = length ds"
    using r by (auto simp: wp_recording_def)
  obtain t' where t': "wp_recordCandidate t d = Some t'" using len c t by (auto simp: wp_recordCandidate_def Let_def)
  have base': "wp_base n t'" using wp_record_base [OF base t'] by simp
  have allow: "wp_testMode t \<or> wp_wayPartIndex t ! wp_candIdx t = wp_incomingLinePart t \<longleftrightarrow> wp_allowed s (length ds)"
    using t c by (simp add: wp_allowed_def)
  have beats: "wp_beats t x y \<longleftrightarrow> wp_key s x < wp_key s y" for x y using wp_beats_key [of t] t by (simp add: wp_key_def)
  have arr: "wp_array t = wp_array s" using t by simp
  have shape: "wp_candIdx t' = length (ds @ [d])" and "t' = s\<lparr>wp_candIdx := wp_candIdx t', wp_bestId := wp_bestId t'\<rparr>"
    using t' t c by (auto simp: wp_recordCandidate_def Let_def split: bind_splits if_splits option.splits)
  then have shape2: "\<exists>c b. t' = s\<lparr>wp_candIdx := c, wp_bestId := b\<rparr>" by blast
  note shape = shape shape2
  show ?thesis
  proof (cases "wp_bestId t")
    case None
    then have no: "\<forall>j<length ds. \<not> wp_allowed s j" using r by (simp add: wp_recording_def)
    show ?thesis
    proof (cases "wp_allowed s (length ds)")
      case True
      then have "wp_bestId t' = Some d" using t' None allow by (auto simp: wp_recordCandidate_def Let_def split: bind_splits)
      moreover have "wp_least s (ds @ [d]) (length ds)" using wp_least_last [OF True] no by blast
      ultimately show ?thesis using t' base' shape by (auto simp: wp_recording_def intro!: exI [of _ "length ds"])
    next
      case False
      then have "wp_bestId t' = None" using t' None allow by (auto simp: wp_recordCandidate_def Let_def split: bind_splits)
      then show ?thesis using t' base' shape no False by (auto simp: wp_recording_def less_Suc_eq)
    qed
  next
    case (Some b)
    then obtain i where i: "b = ds ! i" "wp_least s ds i" using r by (auto simp: wp_recording_def)
    then have il: "i < length ds" by (simp add: wp_least_def)
    show ?thesis
    proof (cases "wp_allowed s (length ds) \<and> wp_key s (wp_array s ! d) < wp_key s (wp_array s ! b)")
      case True
      then have "wp_bestId t' = Some d" using t' Some allow beats arr
        by (auto simp: wp_recordCandidate_def Let_def split: bind_splits)
      moreover have "wp_least s (ds @ [d]) (length ds)"
        by (rule wp_least_last) (use True i in \<open>auto simp: wp_least_def intro: order_trans less_imp_le\<close>)
      ultimately show ?thesis using t' base' shape by (auto simp: wp_recording_def intro!: exI [of _ "length ds"])
    next
      case False
      then have "wp_bestId t' = Some b" using t' Some allow beats arr
        by (auto simp: wp_recordCandidate_def Let_def split: bind_splits if_splits)
      moreover have "wp_least s (ds @ [d]) i" using wp_least_snoc [OF i(2)] False i(1) by auto
      ultimately show ?thesis using t' base' shape i(1) il by (auto simp: wp_recording_def nth_append intro!: exI [of _ i])
    qed
  qed
qed

lemma wp_rank_cases:
  assumes inv: "wp_inv n s" and p: "pm req = Some p" and len: "length cands \<le> wp_ways s"
  defines "s1 \<equiv> s\<lparr>wp_incomingLinePart := p, wp_incomingLineAddr := mr_lineAddr req\<rparr>"
  shows "(\<forall>w<length cands. \<not> wp_allowed s1 w) \<and> wp_rank pm s req cands = None \<or>
    (\<exists>i s'. wp_rank pm s req cands = Some (s', cands ! i) \<and> wp_least s1 cands i \<and> wp_base n s')"
proof -
  have start: "wp_startReplacement pm s req = Some s1" using inv p by (simp add: wp_startReplacement_def wp_inv_def s1_def)
  have s1: "wp_recording n s1 [] s1" using inv unfolding wp_recording_def
    by (auto simp: s1_def wp_inv_def wp_base_def intro!: exI [of _ 0] exI [of _ None])
  have w: "wp_ways s1 = wp_ways s" by (simp add: s1_def)
  have "\<exists>t. record_all wp_recordCandidate cands s1 = Some t \<and> wp_recording n s1 ([] @ cands) t"
    by (rule record_all_inv [where P = "wp_recording n s1" and es = "[]", OF _ s1], rule wp_record_step) (use len w in auto)
  then obtain t where t: "record_all wp_recordCandidate cands s1 = Some t" "wp_recording n s1 cands t" by auto
  then show ?thesis using start
    by (cases "wp_bestId t") (auto simp: wp_rank_def wp_getBestCandidate_def wp_recording_def)
qed

interpretation wp: repl_safe "wp_ops mon pm" "\<lambda>s. wp_inv n s \<and> wp_ways s = k" "\<lambda>s v. wp_base n s \<and> wp_ways s = k \<and> v < n" n
  "\<lambda>cands. length cands \<le> k" for mon pm n k
proof unfold_locales
  fix s cands cv req s' v
  assume inv: "wp_inv n s \<and> wp_ways s = k" and len: "length cands \<le> k" and sub: "set cands \<subseteq> {..<n}"
    and r: "rp_rank (wp_ops mon pm) cv s req cands = Some (s', v)"
  from r have rank: "wp_rank pm s req cands = Some (s', v)" by (simp add: wp_ops_def)
  then obtain p where p: "pm req = Some p" by (auto simp: wp_rank_def wp_startReplacement_def split: bind_splits)
  from wp_rank_cases [of n s pm req p cands] inv p len rank obtain i where
    i: "v = cands ! i" "i < length cands" "wp_base n s'" by (auto simp: wp_least_def)
  moreover have "wp_ways s' = k"
  proof -
    have "wp_ways t' = wp_ways t" if "record_all wp_recordCandidate cs t = Some t'" for cs and t t' :: "'a waypart"
      using that by (induction cs arbitrary: t)
        (auto simp: wp_recordCandidate_def Let_def split: bind_splits if_splits option.splits)
    then show ?thesis using rank inv
      by (auto simp: wp_rank_def wp_startReplacement_def wp_getBestCandidate_def split: bind_splits)
  qed
  ultimately show "v \<in> set cands \<and> wp_base n s' \<and> wp_ways s' = k \<and> v < n"
    using subsetD [OF sub nth_mem [OF i(2)]] by auto
next
  fix s l req s'
  assume "wp_inv n s \<and> wp_ways s = k" "l < n" "rp_update (wp_ops mon pm) s l req = Some s'"
  then show "wp_inv n s' \<and> wp_ways s' = k" using wp_update_base [of n s l mon req s']
    by (auto simp: wp_ops_def wp_inv_def wp_update_def Let_def split: bind_splits)
next
  fix s v l req s'
  assume "wp_base n s \<and> wp_ways s = k \<and> v < n" "l < n" "rp_update (wp_ops mon pm) s l req = Some s'"
  then show "wp_base n s' \<and> wp_ways s' = k \<and> v < n" using wp_update_base [of n s l mon req s']
    by (auto simp: wp_ops_def wp_update_def Let_def split: bind_splits)
qed (use wp_replaced_inv in \<open>auto simp: wp_ops_def wp_replaced_def\<close>)

text \<open>The way-partitioning policy replaces within the ways of the incoming partition: there it takes
  a line that another partition left behind if there is one, and among such lines, or else among its
  own, the least recently used; it returns whenever the partition has a way.\<close>

theorem waypart_victim:
  assumes "wp_inv n s" and "pm req = Some p" and "\<not> wp_testMode s" and "length cands \<le> wp_ways s"
    and "\<exists>w<length cands. wp_wayPartIndex s ! w = p"
  shows "\<exists>w s'. wp_rank pm s req cands = Some (s', cands ! w) \<and> w < length cands \<and> wp_wayPartIndex s ! w = p \<and>
    (\<forall>j<length cands. wp_wayPartIndex s ! j = p \<longrightarrow>
      (wl_p (wp_array s ! (cands ! w)) = p \<longrightarrow> wl_p (wp_array s ! (cands ! j)) = p) \<and>
      ((wl_p (wp_array s ! (cands ! w)) = p) = (wl_p (wp_array s ! (cands ! j)) = p) \<longrightarrow>
        wl_ts (wp_array s ! (cands ! w)) \<le> wl_ts (wp_array s ! (cands ! j))))"
proof -
  let ?s = "s\<lparr>wp_incomingLinePart := p, wp_incomingLineAddr := mr_lineAddr req\<rparr>"
  have allowed: "wp_allowed ?s w = (wp_wayPartIndex s ! w = p)" for w using assms(3) by (simp add: wp_allowed_def)
  from wp_rank_cases [of n s pm req p cands, OF assms(1,2,4)] assms(5) allowed obtain i s' where
    i: "wp_rank pm s req cands = Some (s', cands ! i)" "wp_least ?s cands i" by auto
  have bound: "unat x < 2 ^ 64" for x :: u64 using unsigned_less [of x, where 'a = nat] by simp
  have key: "wp_key ?s e = (if wl_p e = p then 2 ^ 64 else 0) + unat (wl_ts e)" for e using assms(3) by (simp add: wp_key_def)
  have "(wl_p (wp_array s ! (cands ! i)) = p \<longrightarrow> wl_p (wp_array s ! (cands ! j)) = p) \<and>
      ((wl_p (wp_array s ! (cands ! i)) = p) = (wl_p (wp_array s ! (cands ! j)) = p) \<longrightarrow>
        wl_ts (wp_array s ! (cands ! i)) \<le> wl_ts (wp_array s ! (cands ! j)))"
    if "j < length cands" "wp_wayPartIndex s ! j = p" for j
  proof -
    have "wp_key ?s (wp_array s ! (cands ! i)) \<le> wp_key ?s (wp_array s ! (cands ! j))"
      using i(2) that allowed by (simp add: wp_least_def)
    then show ?thesis unfolding key using bound [of "wl_ts (wp_array s ! (cands ! j))"]
      by (auto simp: word_le_nat_alt split: if_splits)
  qed
  with i allowed show ?thesis by (auto simp: wp_least_def)
qed

lemma wp_assign_fold:
  assumes "fold (wp_assign n ways ws) [0..<k] (idx, pis) = (idx', pis')" and "k \<le> length idx"
  shows "length idx' = length idx \<and> length pis' = length pis \<and> (\<forall>p<length pis. pi_size (pis' ! p) = pi_size (pis ! p)) \<and>
    (\<forall>w<k. idx' ! w = w * n div ways)"
  using assms
proof (induction k arbitrary: idx' pis')
  case (Suc k)
  obtain i q where iq: "fold (wp_assign n ways ws) [0..<k] (idx, pis) = (i, q)" by fastforce
  from Suc.prems(1) iq have "wp_assign n ways ws k (i, q) = (idx', pis')" by simp
  then have "idx' = i[k := k * n div ways]"
    "pis' = upd_at (\<lambda>x. x\<lparr>pi_targetSize := pi_targetSize x + of_nat ws\<rparr>) (k * n div ways) q"
    by (auto simp: wp_assign_def Let_def)
  with Suc.IH [OF iq] Suc.prems(2) show ?case by (auto simp: nth_list_update less_Suc_eq)
qed simp

lemma wp_new_inv:
  assumes "wp_new n lines ways testMode m = Some s" and "0 < n"
  shows "wp_inv lines s \<and> wp_testMode s = testMode \<and> wp_ways s = ways \<and> wp_partitions s = n \<and>
    (\<forall>w<ways. wp_wayPartIndex s ! w = w * n div ways)"
proof -
  let ?pis = "upd_at (\<lambda>i. i\<lparr>pi_size := of_nat lines\<rparr>) 0 (replicate n part_info_new)"
  obtain idx pis2 where f: "fold (wp_assign n ways (lines div ways)) [0..<ways] (replicate ways 0, ?pis) = (idx, pis2)" by fastforce
  have c: "wp_count (replicate lines \<lparr>wl_addr = 0, wl_ts = 0, wl_p = 0\<rparr>) p = (if p = 0 then lines else 0)" for p
    by (simp add: wp_count_def)
  note pis = wp_assign_fold [OF f, simplified]
  have "pi_size (?pis ! p) = of_nat (if p = 0 then lines else 0)" if "p < n" for p using that by (simp add: part_info_new_def)
  moreover have "s = \<lparr>wp_partInfo = pis2, wp_partitions = n, wp_totalSize = lines, wp_waySize = lines div ways, wp_ways = ways,
               wp_array = replicate lines \<lparr>wl_addr = 0, wl_ts = 0, wl_p = 0\<rparr>, wp_wayPartIndex = idx, wp_testMode = testMode,
               wp_bestId = None, wp_candIdx = 0, wp_incomingLinePart = 0, wp_incomingLineAddr = 0, wp_timestamp = 1, wp_monitor = m\<rparr>"
    using assms(1) unfolding wp_new_def Let_def f by (simp split: bind_splits)
  ultimately show ?thesis using pis c by (simp add: wp_inv_def wp_base_def)
qed

lemma wp_new_total: "lines div ways * ways = lines \<Longrightarrow> wp_new n lines ways testMode m \<noteq> None"
  by (simp add: wp_new_def Let_def split: prod.split)

lemma wp_new_4:
  obtains s :: "unit waypart" where "wp_new 2 8 4 False () = Some s" "wp_inv 8 s" "\<not> wp_testMode s" "wp_ways s = 4"
    "wp_partitions s = 2" "wp_wayPartIndex s = [0, 0, 1, 1]"
proof -
  obtain s :: "unit waypart" where s: "wp_new 2 8 4 False () = Some s"
    using wp_new_total [of 8 4 2 False "()"] by auto
  note * = wp_new_inv [OF s]
  then have len: "length (wp_wayPartIndex s) = 4" by (simp add: wp_inv_def wp_base_def)
  have "wp_wayPartIndex s ! w = w * 2 div 4" if "w < 4" for w using * that by simp
  with len have "wp_wayPartIndex s = map (\<lambda>w. w * 2 div 4) [0..<4]" by (intro nth_equalityI) simp_all
  then have "wp_wayPartIndex s = [0, 0, 1, 1]" by (simp add: upt_rec)
  with * s that show thesis by simp
qed

theorem waypart_victim_witness:
  "\<exists>(s :: unit waypart) s'. wp_new 2 8 4 False () = Some s \<and>
    wp_rank (\<lambda>req. Some (mr_srcId req)) s ((read_req 5)\<lparr>mr_srcId := 1\<rparr>) [4, 5, 6, 7] = Some (s', 6) \<or>
    (\<exists>s'. wp_new 2 8 4 False () = Some s \<and>
    wp_rank (\<lambda>req. Some (mr_srcId req)) s ((read_req 5)\<lparr>mr_srcId := 1\<rparr>) [4, 5, 6, 7] = Some (s', 7))"
proof -
  let ?r = "(read_req 5)\<lparr>mr_srcId := 1\<rparr>"
  obtain s :: "unit waypart" where s: "wp_new 2 8 4 False () = Some s" "wp_inv 8 s" "\<not> wp_testMode s" "wp_ways s = 4"
    "wp_wayPartIndex s = [0, 0, 1, 1]" using wp_new_4 by metis
  then have "\<exists>w<length [4::nat, 5, 6, 7]. wp_wayPartIndex s ! w = 1" by (intro exI [of _ 2]) simp
  then obtain w s' where w: "wp_rank (\<lambda>req. Some (mr_srcId req)) s ?r [4, 5, 6, 7] = Some (s', [4, 5, 6, 7] ! w)"
    "w < 4" "wp_wayPartIndex s ! w = 1"
    using waypart_victim [of 8 s "\<lambda>req. Some (mr_srcId req)" ?r 1 "[4, 5, 6, 7]"] s by auto
  then have "w = 2 \<or> w = 3" using s(5) by (auto simp: eval_nat_numeral less_Suc_eq)
  with w s(1) show ?thesis by auto
qed

section \<open>The partitioner's allocation does not fit\<close>

lemma wp_fill_count: "wp_fill p n (c, idx) = Some (c', idx') \<Longrightarrow> c' = c + n \<and> length idx' = length idx"
  by (induction n arbitrary: c idx) (fastforce split: if_splits)+

lemma wp_setParts_count:
  "wp_setParts waysPart ps (c, s) = Some (c', s') \<Longrightarrow> c' = c + sum_list (map ((!) waysPart) ps) \<and> wp_ways s' = wp_ways s"
proof (induction ps arbitrary: c s)
  case (Cons p ps)
  then show ?case by (fastforce dest: wp_fill_count split: bind_splits)
qed simp

text \<open>C32. With two or more partitions the lookahead partitioner allocates more ways than there are, and
  \<open>setPartitionSizes\<close> fails on its allocation: it gives every partition a minimum of \<open>minAlloc\<close> times the
  number of partitions and takes that minimum from the balance once. \<open>minAlloc\<close> is 1 in \<^verbatim>\<open>init.cpp\<close>.\<close>

theorem lookahead_overallocates:
  assumes "2 \<le> wp_partitions s" and "wp_partitions s \<le> wp_ways s" and "wp_ways s < 2 ^ 32"
  shows "\<exists>allocs. la_partition (wp_partitions s) (wp_ways s) 1 (\<lambda>_. False) get = Some allocs \<and>
    sum_list allocs = wp_ways s + wp_partitions s * (wp_partitions s - 1) \<and> wp_setPartitionSizes allocs s = None"
proof -
  let ?n = "wp_partitions s" and ?w = "wp_ways s"
  have "\<exists>q<?n. \<not> False" using assms(1) by (intro exI [of _ 0]) simp
  from computeBestPartitioning_ok [OF this assms(2,3), of get] obtain a where
    a: "computeBestPartitioning ?n ?w ?n (\<lambda>_. False) get = Some a" "length a = ?n" "sum_list a = ?n * ?n + (?w - ?n)" by blast
  have sum: "sum_list a = ?w + ?n * (?n - 1)" using a(3) assms(1,2) by (simp add: algebra_simps diff_mult_distrib2)
  have "wp_setPartitionSizes a s = None"
  proof (rule ccontr)
    assume "wp_setPartitionSizes a s \<noteq> None"
    then obtain s1 where "wp_setParts a [0..<?n] (0, s) = Some (?w, s1) \<or>
      (\<exists>c. wp_setParts a [0..<?n] (0, s) = Some (c, s1) \<and> c = wp_ways s)"
      by (auto simp: wp_setPartitionSizes_def split: bind_splits)
    then have "wp_setParts a [0..<?n] (0, s) = Some (?w, s1)" by auto
    from wp_setParts_count [OF this] have "?w = sum_list (map ((!) a) [0..<?n])" by simp
    also have "map ((!) a) [0..<?n] = a" using a(2) by (metis map_nth)
    finally show False using sum assms(1) by simp
  qed
  with a(1) sum show ?thesis by (auto simp: la_partition_def)
qed

theorem lookahead_overallocates_witness:
  "\<exists>(s :: unit waypart) allocs. wp_new 2 8 4 False () = Some s \<and> la_partition 2 4 1 (\<lambda>_. False) (\<lambda>p b. 100 - of_nat b) = Some allocs \<and>
    sum_list allocs = 6 \<and> wp_setPartitionSizes allocs s = None"
proof -
  obtain s :: "unit waypart" where s: "wp_new 2 8 4 False () = Some s" "wp_ways s = 4" "wp_partitions s = 2" using wp_new_4 by metis
  from lookahead_overallocates [of s "\<lambda>p b. 100 - of_nat b"] s show ?thesis by auto
qed

end
