(* ===== verification/Vantage.thy ===== *)
theory Vantage
  imports Partitioning Repl_Legacy
begin

text \<open>
  The Vantage policy \<open>VantageReplPolicy\<close> of \<^verbatim>\<open>zsim/src/part_repl_policies.h\<close>, with 8-bit coarse
  timestamps. Partition \<open>partitions\<close> is the unmanaged region. The mapper \<open>pm\<close>, the monitor's \<open>access\<close>
  (\<open>mon\<close>), the generator (\<open>rand r n\<close> draws from 0..\<open>n\<close>) and the clock \<open>now\<close>
  (\<open>zinfo->globPhaseCycles\<close>) are parameters. The apertures are exact fractions where the source
  computes with \<open>double\<close>.
\<close>

section \<open>State\<close>

record vpart =
  vp_size :: u64
  vp_targetSize :: u64
  vp_profHits :: u64
  vp_profMisses :: u64
  vp_curBts :: u64
  vp_curBtsHits :: u32
  vp_setpointBts :: u64
  vp_setpointAdjs :: u64
  vp_curIntervalIns :: u32
  vp_curIntervalDems :: u32
  vp_curIntervalCands :: u32
  vp_extendedSize :: u64
  vp_longTermTargetSize :: u64
  vp_profDemotions :: u64
  vp_profEvictions :: u64
  vp_profSizeCycles :: u64
  vp_profExtendedSizeCycles :: u64

record vline =
  vl_addr :: addr
  vl_ts :: u64
  vl_bts :: u64
  vl_p :: nat
  vl_op :: nat

record ('m, 'r) vantage =
  v_partitions :: nat
  v_totalSize :: nat
  v_assoc :: nat
  v_partInfo :: "vpart list"
  v_array :: "vline list"
  v_profPromotions :: u64
  v_profUpdateCycles :: u64
  v_candList :: "nat list"
  v_candIdx :: nat
  v_incomingLineAddr :: addr
  v_timestamp :: u64
  v_partPortion :: rat
  v_partSlack :: rat
  v_maxAperture :: rat
  v_partGranularity :: nat
  v_lastUpdateCycle :: u64
  v_rng :: 'r
  v_smoothTransients :: bool
  v_monitor :: 'm

definition vpart_new :: "nat \<Rightarrow> vpart" where
  "vpart_new target =
     \<lparr>vp_size = 0, vp_targetSize = of_nat target, vp_profHits = 0, vp_profMisses = 0, vp_curBts = 0, vp_curBtsHits = 0,
      vp_setpointBts = 0, vp_setpointAdjs = 0, vp_curIntervalIns = 0, vp_curIntervalDems = 0, vp_curIntervalCands = 0,
      vp_extendedSize = 0, vp_longTermTargetSize = of_nat target, vp_profDemotions = 0, vp_profEvictions = 0,
      vp_profSizeCycles = 0, vp_profExtendedSizeCycles = 0\<rparr>"

definition v_new :: "nat \<Rightarrow> nat \<Rightarrow> nat \<Rightarrow> nat \<Rightarrow> nat \<Rightarrow> nat \<Rightarrow> nat \<Rightarrow> bool \<Rightarrow> 'r \<Rightarrow> 'm \<Rightarrow> ('m, 'r) vantage option" where
  "v_new partitions lines assoc partPortionPct partSlackPct maxAperturePct partGranularity smoothTransients r m =
     Option.bind (guard (partPortionPct \<le> 100 \<and> partSlackPct \<le> 100 \<and> maxAperturePct \<le> 100)) (\<lambda>_.
     let partPortion = of_nat partPortionPct / 100;
         targetManagedSize = nat \<lfloor>of_nat lines * partPortion\<rfloor>
     in Some \<lparr>v_partitions = partitions, v_totalSize = lines, v_assoc = assoc,
          v_partInfo = replicate partitions (vpart_new (targetManagedSize div partitions)) @
            [(vpart_new 0)\<lparr>vp_size := of_nat lines, vp_extendedSize := of_nat lines\<rparr>],
          v_array = replicate lines \<lparr>vl_addr = 0, vl_ts = 0, vl_bts = 0, vl_p = partitions, vl_op = partitions\<rparr>,
          v_profPromotions = 0, v_profUpdateCycles = 0, v_candList = replicate assoc 0, v_candIdx = 0,
          v_incomingLineAddr = 0, v_timestamp = 1, v_partPortion = partPortion, v_partSlack = of_nat partSlackPct / 100,
          v_maxAperture = of_nat maxAperturePct / 100, v_partGranularity = partGranularity, v_lastUpdateCycle = 0,
          v_rng = r, v_smoothTransients = smoothTransients, v_monitor = m\<rparr>)"

definition vp_at :: "(vpart \<Rightarrow> vpart) \<Rightarrow> nat \<Rightarrow> ('m, 'r) vantage \<Rightarrow> ('m, 'r) vantage" where
  "vp_at f p s = s\<lparr>v_partInfo := upd_at f p (v_partInfo s)\<rparr>"

definition vl_at :: "(vline \<Rightarrow> vline) \<Rightarrow> nat \<Rightarrow> ('m, 'r) vantage \<Rightarrow> ('m, 'r) vantage" where
  "vl_at f l s = s\<lparr>v_array := upd_at f l (v_array s)\<rparr>"

section \<open>Taking lines away\<close>

definition v_left :: "vpart \<Rightarrow> int" where
  "v_left i = max (sint (ucast (vp_targetSize i - vp_longTermTargetSize i) :: u32)) 0"

fun v_take :: "nat \<Rightarrow> nat list \<Rightarrow> nat \<Rightarrow> ('m, 'r) vantage \<Rightarrow> ('m, 'r) vantage option" where
  "v_take l [] curLines s = None"
| "v_take l (p # ps) curLines s =
     (let left = v_left (v_partInfo s ! p); cur = curLines + nat left in
      if left > 0 \<and> l < cur then Some (vp_at (\<lambda>i. i\<lparr>vp_targetSize := vp_targetSize i - 1\<rparr>) p s)
      else v_take l ps cur s)"

definition v_takeOneLine :: "('r \<Rightarrow> nat \<Rightarrow> (nat \<times> 'r) option) \<Rightarrow> ('m, 'r) vantage \<Rightarrow> ('m, 'r) vantage option" where
  "v_takeOneLine rand s =
     Option.bind (guard (v_smoothTransients s)) (\<lambda>_.
     let linesLeft = sum_list (map (\<lambda>p. nat (v_left (v_partInfo s ! p))) [0..<v_partitions s]) in
     Option.bind (guard (linesLeft > 0)) (\<lambda>_.
     Option.bind (rand (v_rng s) (linesLeft - 1)) (\<lambda>(l, r).
     v_take l [0..<v_partitions s] 0 (s\<lparr>v_rng := r\<rparr>))))"

section \<open>Updates\<close>

definition v_cycles :: "u64 \<Rightarrow> ('m, 'r) vantage \<Rightarrow> ('m, 'r) vantage" where
  "v_cycles now s =
     (if now > v_lastUpdateCycle s then
        (let diff = now - v_lastUpdateCycle s in
         s\<lparr>v_partInfo := map (\<lambda>i. i\<lparr>vp_profSizeCycles := vp_profSizeCycles i + diff * vp_size i,
             vp_profExtendedSizeCycles := vp_profExtendedSizeCycles i + diff * vp_extendedSize i\<rparr>) (v_partInfo s),
           v_profUpdateCycles := v_profUpdateCycles s + diff, v_lastUpdateCycle := now\<rparr>)
      else s)"

definition v_hit :: "(memreq \<Rightarrow> nat option) \<Rightarrow> ('m, 'r) vantage \<Rightarrow> nat \<Rightarrow> memreq \<Rightarrow> ('m, 'r) vantage option" where
  "v_hit pm s l req =
     Option.bind
       (if vl_p (v_array s ! l) = v_partitions s then
          Option.bind (pm req) (\<lambda>p.
          Option.bind (guard (p < length (v_partInfo s))) (\<lambda>_.
          Some (vp_at (\<lambda>i. i\<lparr>vp_size := vp_size i - 1\<rparr>) (v_partitions s)
            (vp_at (\<lambda>i. i\<lparr>vp_curIntervalIns := vp_curIntervalIns i + 1, vp_size := vp_size i + 1\<rparr>) p
            (vl_at (\<lambda>e. e\<lparr>vl_p := p\<rparr>) l (s\<lparr>v_profPromotions := v_profPromotions s + 1\<rparr>))))))
        else Some s) (\<lambda>s1.
     let s2 = vl_at (\<lambda>e. e\<lparr>vl_ts := v_timestamp s1\<rparr>) l (s1\<lparr>v_timestamp := v_timestamp s1 + 1\<rparr>)
     in Some (vp_at (\<lambda>i. i\<lparr>vp_profHits := vp_profHits i + 1\<rparr>) (vl_p (v_array s2 ! l)) s2))"

definition v_miss :: "('r \<Rightarrow> nat \<Rightarrow> (nat \<times> 'r) option) \<Rightarrow> (memreq \<Rightarrow> nat option) \<Rightarrow> ('m, 'r) vantage \<Rightarrow> nat \<Rightarrow> memreq \<Rightarrow>
    ('m, 'r) vantage option" where
  "v_miss rand pm s l req =
     (let e = v_array s ! l;
          s1 = vl_at (\<lambda>e. e\<lparr>vl_ts := v_timestamp s\<rparr>) l (s\<lparr>v_timestamp := v_timestamp s + 1\<rparr>);
          s2 = vp_at (\<lambda>i. i\<lparr>vp_size := vp_size i - 1, vp_profEvictions := vp_profEvictions i + 1\<rparr>) (vl_p e) s1;
          s3 = vp_at (\<lambda>i. i\<lparr>vp_extendedSize := vp_extendedSize i - 1\<rparr>) (vl_op e) s2
      in Option.bind (pm req) (\<lambda>p.
         Option.bind (guard (p < length (v_partInfo s))) (\<lambda>_.
         let s4 = vl_at (\<lambda>e. e\<lparr>vl_p := p, vl_op := p\<rparr>) l s3;
             s5 = vp_at (\<lambda>i. i\<lparr>vp_curIntervalIns := vp_curIntervalIns i + 1, vp_size := vp_size i + 1,
                    vp_extendedSize := vp_extendedSize i + 1, vp_profMisses := vp_profMisses i + 1\<rparr>) p s4
         in if vp_targetSize (v_partInfo s5 ! p) < vp_longTermTargetSize (v_partInfo s5 ! p) then
              Option.bind (guard (v_smoothTransients s)) (\<lambda>_.
              v_takeOneLine rand (vp_at (\<lambda>i. i\<lparr>vp_targetSize := vp_targetSize i + 1\<rparr>) p s5))
            else Some s5)))"

definition v_bump :: "nat \<Rightarrow> ('m, 'r) vantage \<Rightarrow> ('m, 'r) vantage" where
  "v_bump l s =
     (let p = vl_p (v_array s ! l); i = v_partInfo s ! p;
          s1 = vl_at (\<lambda>e. e\<lparr>vl_bts := vp_curBts i\<rparr>) l s;
          hits = vp_curBtsHits i + 1
      in if hits \<ge> ucast (vp_size i) div 16
         then vp_at (\<lambda>i. i\<lparr>vp_curBts := vp_curBts i + 1, vp_setpointBts := vp_setpointBts i + 1, vp_curBtsHits := 0\<rparr>) p s1
         else vp_at (\<lambda>i. i\<lparr>vp_curBtsHits := hits\<rparr>) p s1)"

definition v_update :: "(nat \<Rightarrow> addr \<Rightarrow> 'm \<Rightarrow> 'm option) \<Rightarrow> ('r \<Rightarrow> nat \<Rightarrow> (nat \<times> 'r) option) \<Rightarrow> (memreq \<Rightarrow> nat option) \<Rightarrow> u64 \<Rightarrow>
    ('m, 'r) vantage \<Rightarrow> nat \<Rightarrow> memreq \<Rightarrow> ('m, 'r) vantage option" where
  "v_update mon rand pm now s0 l req =
     (let s = v_cycles now s0 in
      Option.bind (if vl_ts (v_array s ! l) > 0 then v_hit pm s l req else v_miss rand pm s l req) (\<lambda>s1.
      Option.bind (mon (vl_p (v_array s1 ! l)) (vl_addr (v_array s1 ! l)) (v_monitor s1)) (\<lambda>m.
      Some (v_bump l (s1\<lparr>v_monitor := m\<rparr>)))))"

section \<open>Replacement\<close>

definition v_startReplacement :: "('m, 'r) vantage \<Rightarrow> memreq \<Rightarrow> ('m, 'r) vantage" where
  "v_startReplacement s req = s\<lparr>v_incomingLineAddr := mr_lineAddr req\<rparr>"

definition v_recordCandidate :: "('m, 'r) vantage \<Rightarrow> nat \<Rightarrow> ('m, 'r) vantage option" where
  "v_recordCandidate s l =
     Option.bind (guard (v_candIdx s < v_assoc s)) (\<lambda>_.
     Some (s\<lparr>v_candList := (v_candList s)[v_candIdx s := l], v_candIdx := v_candIdx s + 1\<rparr>))"

definition v_aperture :: "('m, 'r) vantage \<Rightarrow> vpart \<Rightarrow> rat option" where
  "v_aperture s i =
     (let target = of_nat (unat (vp_targetSize i)); maxSz = target * (1 + v_partSlack s); curSz = of_nat (unat (vp_size i)) in
      if curSz \<ge> maxSz then Some (v_maxAperture s)
      else (let slope = v_maxAperture s / (maxSz - target) in
            Option.bind (guard (slope > 0)) (\<lambda>_. Some (slope * (curSz - target)))))"

definition v_setpoint :: "rat \<Rightarrow> vpart \<Rightarrow> u64" where
  "v_setpoint aperture i =
     (let shrink = of_int (sint (vp_curIntervalDems i)); want = aperture * of_nat (unat (vp_curIntervalCands i)) in
      if aperture > 0 then
        (if shrink < want then (if vp_setpointBts i < vp_curBts i then vp_setpointBts i + 1 else vp_setpointBts i)
         else if shrink > want then
           (if vp_curBts i - vp_setpointBts i < 255 then vp_setpointBts i - 1 else vp_setpointBts i)
         else vp_setpointBts i)
      else vp_setpointBts i)"

definition v_adjust :: "('m, 'r) vantage \<Rightarrow> nat \<Rightarrow> ('m, 'r) vantage option" where
  "v_adjust s p =
     (let i = v_partInfo s ! p in
      if vp_curIntervalCands i \<ge> 256 then
        Option.bind (v_aperture s i) (\<lambda>aperture.
        Some (vp_at (\<lambda>i. i\<lparr>vp_setpointBts := v_setpoint aperture i, vp_curIntervalCands := 0, vp_curIntervalIns := 0,
          vp_curIntervalDems := 0, vp_setpointAdjs := vp_setpointAdjs i + 1\<rparr>) p s))
      else Some s)"

definition v_demote :: "('m, 'r) vantage \<Rightarrow> nat \<Rightarrow> ('m, 'r) vantage option" where
  "v_demote s l =
     (let e = v_array s ! l; p = vl_p e; i = v_partInfo s ! p; u = v_partitions s in
      if vl_ts e = 0 then Some s
      else if p = u then Some s
      else if ucast (ucast (vp_size i) :: u32) \<le> vp_targetSize i then Some s
      else
        (let s1 = (if (vp_curBts i - vl_bts e) mod 256 \<ge> (vp_curBts i - vp_setpointBts i) mod 256
                   then vp_at (\<lambda>i. i\<lparr>vp_size := vp_size i + 1\<rparr>) u
                     (vl_at (\<lambda>e. e\<lparr>vl_p := u\<rparr>) l
                     (vp_at (\<lambda>i. i\<lparr>vp_profDemotions := vp_profDemotions i + 1, vp_size := vp_size i - 1,
                        vp_curIntervalDems := vp_curIntervalDems i + 1\<rparr>) p s))
                   else s)
         in v_adjust (vp_at (\<lambda>i. i\<lparr>vp_curIntervalCands := vp_curIntervalCands i + 1\<rparr>) p s1) p))"

fun v_demote_all :: "nat list \<Rightarrow> ('m, 'r) vantage \<Rightarrow> ('m, 'r) vantage option" where
  "v_demote_all [] s = Some s"
| "v_demote_all (l # ls) s = Option.bind (v_demote s l) (v_demote_all ls)"

fun v_pick :: "nat \<Rightarrow> vline list \<Rightarrow> nat list \<Rightarrow> nat \<Rightarrow> nat" where
  "v_pick u arr [] bestId = bestId"
| "v_pick u arr (l # ls) bestId =
     (let e = arr ! l; best = arr ! bestId in
      if vl_ts e = 0 then l
      else if vl_p e = u \<and> vl_p best \<noteq> u then v_pick u arr ls l
      else if vl_p e \<noteq> u \<and> vl_p best = u then v_pick u arr ls bestId
      else v_pick u arr ls (if vl_ts e < vl_ts best then l else bestId))"

definition v_getBestCandidate :: "('m, 'r) vantage \<Rightarrow> (('m, 'r) vantage \<times> nat) option" where
  "v_getBestCandidate s =
     Option.bind (guard (0 < v_candIdx s \<and> v_candIdx s \<le> v_assoc s)) (\<lambda>_.
     let cands = take (v_candIdx s) (v_candList s) in
     Option.bind (v_demote_all cands s) (\<lambda>s1.
     let b = v_pick (v_partitions s) (v_array s1) cands (v_candList s ! 0) in
     Option.bind (guard (b < v_totalSize s)) (\<lambda>_. Some (s1, b))))"

definition v_replaced :: "('m, 'r) vantage \<Rightarrow> nat \<Rightarrow> ('m, 'r) vantage" where
  "v_replaced s l = vl_at (\<lambda>e. e\<lparr>vl_ts := 0, vl_bts := 0, vl_addr := v_incomingLineAddr s\<rparr>) l (s\<lparr>v_candIdx := 0\<rparr>)"

definition v_rank :: "('m, 'r) vantage \<Rightarrow> memreq \<Rightarrow> nat list \<Rightarrow> (('m, 'r) vantage \<times> nat) option" where
  "v_rank = legacy_rank v_startReplacement v_recordCandidate v_getBestCandidate"

section \<open>Setting the partition sizes\<close>

definition v_setSize :: "nat list \<Rightarrow> nat \<Rightarrow> ('m, 'r) vantage \<times> nat \<Rightarrow> ('m, 'r) vantage \<times> nat" where
  "v_setSize sizes p = (\<lambda>(s, linesToTakeAway).
     let new = v_totalSize s * sizes ! p mod 2 ^ 32 div v_partGranularity s; i = v_partInfo s ! p; w = of_nat new in
     if v_smoothTransients s then
       (let s1 = vp_at (\<lambda>i. i\<lparr>vp_longTermTargetSize := w\<rparr>) p s in
        if w > vp_targetSize i then
          (let newTarget = max (vp_targetSize i) (min w (vp_size i + 1)) in
           (vp_at (\<lambda>i. i\<lparr>vp_targetSize := newTarget\<rparr>) p s1, linesToTakeAway + unat (newTarget - vp_targetSize i)))
        else (s1, linesToTakeAway))
     else (vp_at (\<lambda>i. i\<lparr>vp_targetSize := w, vp_longTermTargetSize := w\<rparr>) p s, linesToTakeAway))"

fun v_takeLines :: "('r \<Rightarrow> nat \<Rightarrow> (nat \<times> 'r) option) \<Rightarrow> nat \<Rightarrow> ('m, 'r) vantage \<Rightarrow> ('m, 'r) vantage option" where
  "v_takeLines rand 0 s = Some s"
| "v_takeLines rand (Suc n) s = Option.bind (v_takeOneLine rand s) (v_takeLines rand n)"

definition v_setPartitionSizes :: "('r \<Rightarrow> nat \<Rightarrow> (nat \<times> 'r) option) \<Rightarrow> nat list \<Rightarrow> ('m, 'r) vantage \<Rightarrow> ('m, 'r) vantage option" where
  "v_setPartitionSizes rand sizes s =
     (let (s1, linesToTakeAway) = fold (v_setSize sizes) [0..<v_partitions s] (s, 0) in v_takeLines rand linesToTakeAway s1)"

section \<open>The sizes are exact\<close>

definition v_cnt :: "(vline \<Rightarrow> nat) \<Rightarrow> vline list \<Rightarrow> nat \<Rightarrow> nat" where
  "v_cnt f arr p = length (filter (\<lambda>e. f e = p) arr)"

definition v_base :: "nat \<Rightarrow> ('m, 'r) vantage \<Rightarrow> bool" where
  "v_base n s \<longleftrightarrow> v_totalSize s = n \<and> length (v_array s) = n \<and> length (v_partInfo s) = Suc (v_partitions s) \<and>
     length (v_candList s) = v_assoc s \<and> list_all (\<lambda>e. vl_p e \<le> v_partitions s \<and> vl_op e \<le> v_partitions s) (v_array s) \<and>
     (\<forall>p\<le>v_partitions s. vp_size (v_partInfo s ! p) = of_nat (v_cnt vl_p (v_array s) p) \<and>
        vp_extendedSize (v_partInfo s ! p) = of_nat (v_cnt vl_op (v_array s) p))"

lemma v_cnt_upd:
  "l < length arr \<Longrightarrow> of_nat (v_cnt f (arr[l := e]) p) =
    (of_nat (v_cnt f arr p) + (if f e = p then 1 else 0) - (if f (arr ! l) = p then 1 else 0) :: u64)"
proof (induction arr arbitrary: l)
  case (Cons x arr)
  then show ?case by (cases l) (auto simp: v_cnt_def)
qed simp

lemma v_base_move:
  assumes "v_base n s" and "l < n" and "v_array s' = (v_array s)[l := e']" and "v_totalSize s' = v_totalSize s"
    and "v_partitions s' = v_partitions s" "v_assoc s' = v_assoc s" "v_candList s' = v_candList s"
    and "length (v_partInfo s') = length (v_partInfo s)" and "vl_p e' \<le> v_partitions s" "vl_op e' \<le> v_partitions s"
    and "\<And>q. q \<le> v_partitions s \<Longrightarrow> vp_size (v_partInfo s' ! q) =
      vp_size (v_partInfo s ! q) + (if vl_p e' = q then 1 else 0) - (if vl_p (v_array s ! l) = q then 1 else 0)"
    and "\<And>q. q \<le> v_partitions s \<Longrightarrow> vp_extendedSize (v_partInfo s' ! q) =
      vp_extendedSize (v_partInfo s ! q) + (if vl_op e' = q then 1 else 0) - (if vl_op (v_array s ! l) = q then 1 else 0)"
  shows "v_base n s'"
  using assms(1-10) unfolding v_base_def by (simp add: assms(11,12) v_cnt_upd list_all_update)

lemma v_base_vp: "(\<And>i. vp_size (f i) = vp_size i \<and> vp_extendedSize (f i) = vp_extendedSize i) \<Longrightarrow> v_base n s \<Longrightarrow> v_base n (vp_at f p s)"
  by (auto simp: v_base_def vp_at_def)

lemma v_base_vl: "(\<And>e. vl_p (f e) = vl_p e \<and> vl_op (f e) = vl_op e) \<Longrightarrow> l < n \<Longrightarrow> v_base n s \<Longrightarrow> v_base n (vl_at f l s)"
  by (rule v_base_move [of n s l _ "f (v_array s ! l)"]) (auto simp: vl_at_def upd_at_def v_base_def list_all_length)

lemma v_base_field [simp]:
  "v_base n (s\<lparr>v_timestamp := t\<rparr>) = v_base n s" "v_base n (s\<lparr>v_rng := r\<rparr>) = v_base n s" "v_base n (s\<lparr>v_monitor := m\<rparr>) = v_base n s"
  "v_base n (s\<lparr>v_candIdx := c\<rparr>) = v_base n s" "v_base n (s\<lparr>v_incomingLineAddr := a\<rparr>) = v_base n s"
  "v_base n (s\<lparr>v_profPromotions := q\<rparr>) = v_base n s"
  by (simp_all add: v_base_def)

lemma v_at_field [simp]:
  "v_array (vp_at f p s) = v_array s" "v_partInfo (vl_at g l s) = v_partInfo s" "v_partitions (vp_at f p s) = v_partitions s"
  "v_partitions (vl_at g l s) = v_partitions s" "v_array (vl_at g l s) = upd_at g l (v_array s)"
  "v_partInfo (vp_at f p s) = upd_at f p (v_partInfo s)" "v_totalSize (vp_at f p s) = v_totalSize s" "v_totalSize (vl_at g l s) = v_totalSize s"
  "v_assoc (vp_at f p s) = v_assoc s" "v_assoc (vl_at g l s) = v_assoc s" "v_candList (vp_at f p s) = v_candList s"
  "v_candList (vl_at g l s) = v_candList s" "v_candIdx (vp_at f p s) = v_candIdx s" "v_candIdx (vl_at g l s) = v_candIdx s"
  "v_timestamp (vp_at f p s) = v_timestamp s"
  by (simp_all add: vp_at_def vl_at_def)

lemma v_line_bounds: "v_base n s \<Longrightarrow> l < n \<Longrightarrow> vl_p (v_array s ! l) \<le> v_partitions s \<and> vl_op (v_array s ! l) \<le> v_partitions s"
  by (auto simp: v_base_def list_all_length)

lemma v_take_base: "v_take l ps cur s = Some s' \<Longrightarrow> v_base n s \<Longrightarrow> v_base n s' \<and> v_candIdx s' = v_candIdx s \<and> v_array s' = v_array s \<and> v_partitions s' = v_partitions s \<and> v_assoc s' = v_assoc s"
  by (induction l ps cur s rule: v_take.induct) (auto simp: Let_def v_base_vp split: if_splits)

lemma v_takeOneLine_base:
  "v_takeOneLine rand s = Some s' \<Longrightarrow> v_base n s \<Longrightarrow> v_base n s' \<and> v_candIdx s' = v_candIdx s \<and> v_array s' = v_array s \<and> v_partitions s' = v_partitions s \<and> v_assoc s' = v_assoc s"
  by (auto simp: v_takeOneLine_def Let_def split: bind_splits dest: v_take_base)

lemma v_cycles_base: "v_base n s \<Longrightarrow> v_base n (v_cycles now s) \<and> v_candIdx (v_cycles now s) = v_candIdx s \<and> v_partitions (v_cycles now s) = v_partitions s \<and> v_assoc (v_cycles now s) = v_assoc s"
  by (auto simp: v_cycles_def Let_def v_base_def)

lemma v_hit_base:
  assumes b: "v_base n s" and l: "l < n" and h: "v_hit pm s l req = Some s'"
  shows "v_base n s' \<and> v_candIdx s' = v_candIdx s \<and> v_partitions s' = v_partitions s \<and> v_assoc s' = v_assoc s"
proof -
  obtain s1 where s1: "(if vl_p (v_array s ! l) = v_partitions s then
          Option.bind (pm req) (\<lambda>p.
          Option.bind (guard (p < length (v_partInfo s))) (\<lambda>_.
          Some (vp_at (\<lambda>i. i\<lparr>vp_size := vp_size i - 1\<rparr>) (v_partitions s)
            (vp_at (\<lambda>i. i\<lparr>vp_curIntervalIns := vp_curIntervalIns i + 1, vp_size := vp_size i + 1\<rparr>) p
            (vl_at (\<lambda>e. e\<lparr>vl_p := p\<rparr>) l (s\<lparr>v_profPromotions := v_profPromotions s + 1\<rparr>))))))
        else Some s) = Some s1" and
    s': "s' = (let s2 = vl_at (\<lambda>e. e\<lparr>vl_ts := v_timestamp s1\<rparr>) l (s1\<lparr>v_timestamp := v_timestamp s1 + 1\<rparr>)
     in vp_at (\<lambda>i. i\<lparr>vp_profHits := vp_profHits i + 1\<rparr>) (vl_p (v_array s2 ! l)) s2)"
    using h unfolding v_hit_def by (auto simp: Let_def split: bind_splits)
  have "v_base n s1 \<and> v_candIdx s1 = v_candIdx s \<and> v_partitions s1 = v_partitions s \<and> v_assoc s1 = v_assoc s"
  proof (cases "vl_p (v_array s ! l) = v_partitions s")
    case True
    with s1 obtain p where pl: "p < length (v_partInfo s)" and e: "s1 = vp_at (\<lambda>i. i\<lparr>vp_size := vp_size i - 1\<rparr>) (v_partitions s)
            (vp_at (\<lambda>i. i\<lparr>vp_curIntervalIns := vp_curIntervalIns i + 1, vp_size := vp_size i + 1\<rparr>) p
            (vl_at (\<lambda>e. e\<lparr>vl_p := p\<rparr>) l (s\<lparr>v_profPromotions := v_profPromotions s + 1\<rparr>)))"
      by (auto split: bind_splits)
    have p: "p \<le> v_partitions s" using pl b by (simp add: v_base_def)
    have len: "length (v_partInfo s) = Suc (v_partitions s)" using b by (simp add: v_base_def)
    have "v_base n s1"
      by (rule v_base_move [OF b l, of s1 "(v_array s ! l)\<lparr>vl_p := p\<rparr>"])
        (use p True len v_line_bounds [OF b l] in \<open>auto simp: e upd_at_def nth_list_update\<close>)
    then show ?thesis by (simp add: e)
  qed (use s1 b in simp)
  then show ?thesis using l by (auto simp: s' Let_def intro!: v_base_vp v_base_vl)
qed

lemma v_miss_base:
  assumes b: "v_base n s" and l: "l < n" and h: "v_miss rand pm s l req = Some s'"
  shows "v_base n s' \<and> v_candIdx s' = v_candIdx s \<and> v_partitions s' = v_partitions s \<and> v_assoc s' = v_assoc s"
proof -
  let ?e = "v_array s ! l"
  have len: "length (v_partInfo s) = Suc (v_partitions s)" using b by (simp add: v_base_def)
  let ?s5 = "\<lambda>p. vp_at (\<lambda>i. i\<lparr>vp_curIntervalIns := vp_curIntervalIns i + 1, vp_size := vp_size i + 1,
                    vp_extendedSize := vp_extendedSize i + 1, vp_profMisses := vp_profMisses i + 1\<rparr>) p
         (vl_at (\<lambda>e. e\<lparr>vl_p := p, vl_op := p\<rparr>) l
         (vp_at (\<lambda>i. i\<lparr>vp_extendedSize := vp_extendedSize i - 1\<rparr>) (vl_op ?e)
         (vp_at (\<lambda>i. i\<lparr>vp_size := vp_size i - 1, vp_profEvictions := vp_profEvictions i + 1\<rparr>) (vl_p ?e)
         (vl_at (\<lambda>e. e\<lparr>vl_ts := v_timestamp s\<rparr>) l (s\<lparr>v_timestamp := v_timestamp s + 1\<rparr>)))))"
  obtain p where p: "p < length (v_partInfo s)" and
    s': "(if vp_targetSize (v_partInfo (?s5 p) ! p) < vp_longTermTargetSize (v_partInfo (?s5 p) ! p) then
              Option.bind (guard (v_smoothTransients s)) (\<lambda>_.
              v_takeOneLine rand (vp_at (\<lambda>i. i\<lparr>vp_targetSize := vp_targetSize i + 1\<rparr>) p (?s5 p)))
            else Some (?s5 p)) = Some s'"
    using h unfolding v_miss_def Let_def by (auto split: bind_splits)
  have "v_base n (?s5 p)"
    by (rule v_base_move [OF b l, of "?s5 p" "?e\<lparr>vl_ts := v_timestamp s, vl_p := p, vl_op := p\<rparr>"])
      (use p len v_line_bounds [OF b l] l b in \<open>auto simp: upd_at_def nth_list_update v_base_def\<close>)
  then show ?thesis using s'
    by (auto split: if_splits bind_splits dest!: v_takeOneLine_base [where n = n] intro: v_base_vp)
qed

lemma v_bump_base: "v_base n s \<Longrightarrow> l < n \<Longrightarrow> v_base n (v_bump l s) \<and> v_candIdx (v_bump l s) = v_candIdx s \<and>
    v_partitions (v_bump l s) = v_partitions s \<and> v_assoc (v_bump l s) = v_assoc s"
  by (auto simp: v_bump_def Let_def intro!: v_base_vp v_base_vl)

lemma v_update_base:
  assumes "v_base n s" and "l < n" and "v_update mon rand pm now s l req = Some s'"
  shows "v_base n s' \<and> v_candIdx s' = v_candIdx s \<and> v_partitions s' = v_partitions s \<and> v_assoc s' = v_assoc s"
proof -
  note c = v_cycles_base [OF assms(1), of now]
  obtain s1 m where s1: "(if vl_ts (v_array (v_cycles now s) ! l) > 0 then v_hit pm (v_cycles now s) l req
      else v_miss rand pm (v_cycles now s) l req) = Some s1" and s': "s' = v_bump l (s1\<lparr>v_monitor := m\<rparr>)"
    using assms(3) unfolding v_update_def Let_def by (auto split: bind_splits)
  then have b1: "v_base n s1 \<and> v_candIdx s1 = v_candIdx s \<and> v_partitions s1 = v_partitions s \<and> v_assoc s1 = v_assoc s"
    using c v_hit_base [of n "v_cycles now s" l pm req s1] v_miss_base [of n "v_cycles now s" l rand pm req s1] assms(2)
    by (auto split: if_splits)
  then have "v_base n (s1\<lparr>v_monitor := m\<rparr>)" by simp
  from v_bump_base [OF this assms(2)] b1 show ?thesis by (simp add: s')
qed

section \<open>Demotions respect the targets\<close>

definition v_fine :: "('m, 'r) vantage \<Rightarrow> ('m, 'r) vantage \<Rightarrow> bool" where
  "v_fine s s' \<longleftrightarrow> v_partitions s' = v_partitions s \<and> v_candIdx s' = v_candIdx s \<and> v_assoc s' = v_assoc s \<and>
     (\<forall>p<v_partitions s. vp_targetSize (v_partInfo s' ! p) = vp_targetSize (v_partInfo s ! p) \<and>
        min (vp_size (v_partInfo s ! p)) (vp_targetSize (v_partInfo s ! p)) \<le> vp_size (v_partInfo s' ! p))"

lemma v_fine_refl [simp]: "v_fine s s"
  by (simp add: v_fine_def)

lemma v_fine_trans:
  assumes "v_fine s s1" and "v_fine s1 s2"
  shows "v_fine s s2"
proof -
  have "min a t \<le> c" if "min a t \<le> b" "min b t \<le> c" for a b c t :: u64
    using that by (simp add: min_def split: if_splits)
  then show ?thesis using assms unfolding v_fine_def by metis
qed

lemma v_fine_vp:
  assumes "\<And>i. vp_size (f i) = vp_size i \<and> vp_targetSize (f i) = vp_targetSize i" and "v_base n s"
  shows "v_fine s (vp_at f p s)"
proof -
  have "length (v_partInfo s) = Suc (v_partitions s)" using assms(2) by (simp add: v_base_def)
  then show ?thesis using assms(1) by (simp add: v_fine_def)
qed

lemma v_adjust_ok:
  assumes "v_adjust s p = Some s'" and b: "v_base n s"
  shows "v_base n s' \<and> v_fine s s'"
proof (cases "vp_curIntervalCands (v_partInfo s ! p) \<ge> 256")
  case True
  then obtain aperture where "s' = vp_at (\<lambda>i. i\<lparr>vp_setpointBts := v_setpoint aperture i, vp_curIntervalCands := 0, vp_curIntervalIns := 0,
          vp_curIntervalDems := 0, vp_setpointAdjs := vp_setpointAdjs i + 1\<rparr>) p s"
    using assms(1) unfolding v_adjust_def Let_def by (auto split: bind_splits)
  then show ?thesis using b by (auto intro!: v_base_vp v_fine_vp)
next
  case False
  then show ?thesis using assms unfolding v_adjust_def Let_def by simp
qed

lemma v_cnt_le: "v_cnt f arr p \<le> length arr"
  by (simp add: v_cnt_def)

lemma v_size_small: "v_base n s \<Longrightarrow> n < 2 ^ 32 \<Longrightarrow> p \<le> v_partitions s \<Longrightarrow> ucast (ucast (vp_size (v_partInfo s ! p)) :: u32) = vp_size (v_partInfo s ! p)"
proof -
  assume b: "v_base n s" "n < 2 ^ 32" "p \<le> v_partitions s"
  then have lt: "v_cnt vl_p (v_array s) p < 2 ^ 32" using v_cnt_le [of vl_p "v_array s" p] by (simp add: v_base_def)
  then have "unat (vp_size (v_partInfo s ! p)) < 2 ^ 32" using b by (simp add: v_base_def unat_of_nat_u64)
  then show ?thesis by (intro word_unat_eq_iff [THEN iffD2]) (simp add: unsigned_ucast_eq unsigned_take_bit_eq take_bit_nat_eq_self)
qed

lemma word_less_le_pred: "x < y \<Longrightarrow> x \<le> y - (1 :: u64)"
proof -
  assume xy: "x < y"
  then have "unat x < unat y" by (simp add: word_less_nat_alt)
  moreover from this have "unat (y - 1) = unat y - 1" by (subst unat_sub) (auto simp: word_le_nat_alt)
  ultimately show ?thesis by (simp add: word_le_nat_alt)
qed

lemma v_demote_ok:
  assumes b: "v_base n s" and n: "n < 2 ^ 32" and l: "l < n" and d: "v_demote s l = Some s'"
  shows "v_base n s' \<and> v_fine s s'"
proof -
  let ?e = "v_array s ! l" let ?p = "vl_p ?e" let ?i = "v_partInfo s ! ?p" let ?u = "v_partitions s"
  have p: "?p \<le> ?u" using v_line_bounds [OF b l] by simp
  have len: "length (v_partInfo s) = Suc ?u" using b by (simp add: v_base_def)
  let ?out = "vp_at (\<lambda>i. i\<lparr>vp_size := vp_size i + 1\<rparr>) ?u (vl_at (\<lambda>e. e\<lparr>vl_p := ?u\<rparr>) l
      (vp_at (\<lambda>i. i\<lparr>vp_profDemotions := vp_profDemotions i + 1, vp_size := vp_size i - 1,
                        vp_curIntervalDems := vp_curIntervalDems i + 1\<rparr>) ?p s))"
  let ?s1 = "if (vp_curBts ?i - vl_bts ?e) mod 256 \<ge> (vp_curBts ?i - vp_setpointBts ?i) mod 256 then ?out else s"
  let ?s2 = "vp_at (\<lambda>i. i\<lparr>vp_curIntervalCands := vp_curIntervalCands i + 1\<rparr>) ?p ?s1"
  show ?thesis
  proof (cases "vl_ts ?e = 0 \<or> ?p = ?u \<or> ucast (ucast (vp_size ?i) :: u32) \<le> vp_targetSize ?i")
    case True
    then have "s' = s" using d by (auto simp: v_demote_def Let_def split: if_splits)
    then show ?thesis using b by simp
  next
    case False
    then have pu: "?p \<noteq> ?u" and big: "vp_targetSize ?i < vp_size ?i" using v_size_small [OF b n p] by auto
    have adj: "v_adjust ?s2 ?p = Some s'" using d False unfolding v_demote_def Let_def by simp
    have base_out: "v_base n ?out"
      by (rule v_base_move [OF b l, of ?out "?e\<lparr>vl_p := ?u\<rparr>"])
        (use p len pu v_line_bounds [OF b l] in \<open>auto simp: upd_at_def nth_list_update\<close>)
    have "v_fine s ?out"
      unfolding v_fine_def using len pu word_less_le_pred [OF big] big by (auto simp: min_def)
    then have s1: "v_base n ?s1" "v_fine s ?s1" using base_out b by simp_all
    have "v_base n ?s2" by (rule v_base_vp [OF _ s1(1)]) simp
    moreover have "v_fine ?s1 ?s2" by (rule v_fine_vp [OF _ s1(1)]) simp
    ultimately show ?thesis using v_adjust_ok [OF adj] v_fine_trans s1(2) by blast
  qed
qed

lemma v_demote_all_ok:
  "v_demote_all ls s = Some s' \<Longrightarrow> v_base n s \<Longrightarrow> n < 2 ^ 32 \<Longrightarrow> set ls \<subseteq> {..<n} \<Longrightarrow> v_base n s' \<and> v_fine s s'"
proof (induction ls arbitrary: s)
  case (Cons l ls)
  then obtain s1 where s1: "v_demote s l = Some s1" "v_demote_all ls s1 = Some s'" by (auto split: bind_splits)
  from v_demote_ok [OF Cons.prems(2,3) _ s1(1)] Cons.prems(4) have "v_base n s1" "v_fine s s1" by auto
  with Cons.IH [OF s1(2)] Cons.prems show ?case by (auto intro: v_fine_trans)
qed simp

lemma v_pick_in: "v_pick u arr ls b \<in> insert b (set ls)"
  by (induction ls arbitrary: b) (auto simp: Let_def split: if_splits)

lemma v_record_all:
  "record_all v_recordCandidate cands s = Some t \<Longrightarrow> v_base n s \<Longrightarrow> v_base n t \<and> v_fine s (t\<lparr>v_candIdx := v_candIdx s\<rparr>) \<and>
    v_candIdx t = v_candIdx s + length cands \<and> v_candIdx t \<le> max (v_candIdx s) (v_assoc s) \<and> v_assoc t = v_assoc s \<and>
    take (v_candIdx t) (v_candList t) = take (v_candIdx s) (v_candList s) @ cands"
proof (induction cands arbitrary: s)
  case (Cons c cands)
  from Cons.prems(1) obtain s1 where rs: "v_recordCandidate s c = Some s1" "record_all v_recordCandidate cands s1 = Some t"
    by (auto split: bind_splits)
  then have r: "record_all v_recordCandidate cands (s\<lparr>v_candList := (v_candList s)[v_candIdx s := c], v_candIdx := v_candIdx s + 1\<rparr>) = Some t"
    and lt: "v_candIdx s < v_assoc s" by (auto simp: v_recordCandidate_def split: bind_splits)
  have l: "length (v_candList s) = v_assoc s" using Cons.prems(2) by (simp add: v_base_def)
  have "take (v_candIdx s + 1) ((v_candList s)[v_candIdx s := c]) = take (v_candIdx s) (v_candList s) @ [c]"
    using lt l by (simp add: take_Suc_conv_app_nth)
  moreover have "v_base n (s\<lparr>v_candList := (v_candList s)[v_candIdx s := c], v_candIdx := v_candIdx s + 1\<rparr>)"
    using Cons.prems(2) by (simp add: v_base_def)
  ultimately show ?case using Cons.IH [OF r] lt by (auto simp: v_fine_def)
qed simp

lemma v_rank_ok:
  assumes r: "v_rank s req cands = Some (s', v)" and b: "v_base n s" and c: "v_candIdx s = 0" and n: "n < 2 ^ 32"
    and sub: "set cands \<subseteq> {..<n}"
  shows "v \<in> set cands \<and> v_base n s' \<and> (\<forall>p<v_partitions s.
    min (vp_size (v_partInfo s ! p)) (vp_targetSize (v_partInfo s ! p)) \<le> vp_size (v_partInfo s' ! p))"
proof -
  let ?s0 = "v_startReplacement s req"
  have b0: "v_base n ?s0" using b by (simp add: v_startReplacement_def)
  obtain t where t: "record_all v_recordCandidate cands ?s0 = Some t" "v_getBestCandidate t = Some (s', v)"
    using r by (auto simp: v_rank_def legacy_rank_def split: bind_splits)
  note ra = v_record_all [OF t(1) b0]
  have c0: "v_candIdx ?s0 = 0" using c by (simp add: v_startReplacement_def)
  from ra have "take (v_candIdx t) (v_candList t) = take (v_candIdx ?s0) (v_candList ?s0) @ cands" by blast
  then have cands: "take (v_candIdx t) (v_candList t) = cands" "v_base n t" unfolding c0 using ra by simp_all
  from t(2) have idx: "0 < v_candIdx t" and d: "v_demote_all cands t = Some s'"
    and v: "v = v_pick (v_partitions t) (v_array s') cands (v_candList t ! 0)"
    using cands(1) by (auto simp: v_getBestCandidate_def Let_def split: bind_splits)
  have "cands \<noteq> []" using idx ra c by (auto simp: v_startReplacement_def)
  then have "v_candList t ! 0 = hd cands" using cands(1) idx by (metis hd_conv_nth nth_take)
  then have "v \<in> set cands" using v v_pick_in [of "v_partitions t" "v_array s'" cands "v_candList t ! 0"] \<open>cands \<noteq> []\<close> by auto
  moreover have "v_fine ?s0 (t\<lparr>v_candIdx := v_candIdx ?s0\<rparr>)" using ra by blast
  moreover have "v_base n s'" "v_fine t s'" using v_demote_all_ok [OF d cands(2) n sub] by simp_all
  ultimately show ?thesis unfolding v_fine_def v_startReplacement_def
    by (auto simp: min_def split: if_splits) (meson order_trans)+
qed

section \<open>The contract and the reachable states\<close>

definition v_inv :: "nat \<Rightarrow> ('m, 'r) vantage \<Rightarrow> bool" where
  "v_inv n s \<longleftrightarrow> v_base n s \<and> v_candIdx s = 0 \<and> n < 2 ^ 32"

lemma v_replaced_inv: "v_base n s \<Longrightarrow> l < n \<Longrightarrow> n < 2 ^ 32 \<Longrightarrow> v_inv n (v_replaced s l)"
  by (auto simp: v_inv_def v_replaced_def intro!: v_base_vl)

definition v_ops :: "(nat \<Rightarrow> addr \<Rightarrow> 'm \<Rightarrow> 'm option) \<Rightarrow> ('r \<Rightarrow> nat \<Rightarrow> (nat \<times> 'r) option) \<Rightarrow> (memreq \<Rightarrow> nat option) \<Rightarrow> u64 \<Rightarrow>
    ('m, 'r) vantage rp_ops" where
  "v_ops mon rand pm now =
     \<lparr>rp_update = v_update mon rand pm now, rp_replaced = (\<lambda>s l. Some (v_replaced s l)), rp_rank = (\<lambda>_. v_rank)\<rparr>"

interpretation van: repl_safe "v_ops mon rand pm now" "v_inv n" "\<lambda>s v. v_base n s \<and> v < n \<and> n < 2 ^ 32" n "\<lambda>_. True"
  for mon rand pm now n
proof unfold_locales
  fix s l req s'
  assume "v_inv n s" "l < n" "rp_update (v_ops mon rand pm now) s l req = Some s'"
  then show "v_inv n s'" using v_update_base [of n s l mon rand pm now req s'] by (simp add: v_ops_def v_inv_def)
next
  fix s v l req s'
  assume "v_base n s \<and> v < n \<and> n < 2 ^ 32" "l < n" "rp_update (v_ops mon rand pm now) s l req = Some s'"
  then show "v_base n s' \<and> v < n \<and> n < 2 ^ 32" using v_update_base [of n s l mon rand pm now req s'] by (simp add: v_ops_def)
next
  fix s cands cv req s' v
  assume "v_inv n s" "set cands \<subseteq> {..<n}" "rp_rank (v_ops mon rand pm now) cv s req cands = Some (s', v)"
  then show "v \<in> set cands \<and> v_base n s' \<and> v < n \<and> n < 2 ^ 32"
    using v_rank_ok [of s req cands s' v n] by (auto simp: v_ops_def v_inv_def)
qed (use v_replaced_inv in \<open>auto simp: v_ops_def\<close>)

lemma v_setSize_base: "v_base n (fst x) \<Longrightarrow> v_base n (fst (v_setSize sizes p x)) \<and> v_candIdx (fst (v_setSize sizes p x)) = v_candIdx (fst x)"
  by (auto simp: v_setSize_def Let_def split: prod.split intro!: v_base_vp)

lemma v_setSizes_base: "v_base n (fst x) \<Longrightarrow>
    v_base n (fst (fold (v_setSize sizes) ps x)) \<and> v_candIdx (fst (fold (v_setSize sizes) ps x)) = v_candIdx (fst x)"
  by (induction ps arbitrary: x) (simp_all add: v_setSize_base)

lemma v_takeLines_base: "v_takeLines rand k s = Some s' \<Longrightarrow> v_base n s \<Longrightarrow> v_base n s' \<and> v_candIdx s' = v_candIdx s"
  by (induction k arbitrary: s) (fastforce split: bind_splits dest: v_takeOneLine_base)+

lemma v_setPartitionSizes_base:
  "v_setPartitionSizes rand sizes s = Some s' \<Longrightarrow> v_base n s \<Longrightarrow> v_base n s' \<and> v_candIdx s' = v_candIdx s"
  using v_setSizes_base [of n "(s, 0)" sizes "[0..<v_partitions s]"]
  by (auto simp: v_setPartitionSizes_def split: prod.splits dest: v_takeLines_base)

lemma v_new_base: "v_new u n assoc pp sp ap g st r m = Some s \<Longrightarrow> v_base n s \<and> v_candIdx s = 0"
  by (auto simp: v_new_def Let_def v_base_def v_cnt_def list_all_iff nth_append vpart_new_def not_less le_Suc_eq split: bind_splits)

text \<open>The states of a Vantage policy of \<open>n\<close> lines between replacements: an insertion chooses, replaces and
  updates; hits update; the partitioner sets sizes.\<close>

inductive v_reach :: "nat \<Rightarrow> (nat \<Rightarrow> addr \<Rightarrow> 'm \<Rightarrow> 'm option) \<Rightarrow> ('r \<Rightarrow> nat \<Rightarrow> (nat \<times> 'r) option) \<Rightarrow> (memreq \<Rightarrow> nat option) \<Rightarrow>
    ('m, 'r) vantage \<Rightarrow> bool" for n mon rand pm where
  new: "v_new u n assoc pp sp ap g st r m = Some s \<Longrightarrow> v_reach n mon rand pm s"
| hit: "v_reach n mon rand pm s \<Longrightarrow> l < n \<Longrightarrow> v_update mon rand pm now s l req = Some s' \<Longrightarrow> v_reach n mon rand pm s'"
| insert: "v_reach n mon rand pm s \<Longrightarrow> set cands \<subseteq> {..<n} \<Longrightarrow> v_rank s req cands = Some (s1, v) \<Longrightarrow>
    v_update mon rand pm now (v_replaced s1 v) v req = Some s' \<Longrightarrow> v_reach n mon rand pm s'"
| sizes: "v_reach n mon rand pm s \<Longrightarrow> v_setPartitionSizes rand sizes s = Some s' \<Longrightarrow> v_reach n mon rand pm s'"

lemma v_reach_inv: "v_reach n mon rand pm s \<Longrightarrow> n < 2 ^ 32 \<Longrightarrow> v_inv n s"
proof (induction rule: v_reach.induct)
  case (new u assoc pp sp ap g st r m s)
  then show ?case using v_new_base [OF new(1)] by (simp add: v_inv_def)
next
  case (hit s l now req s')
  then show ?case using v_update_base [of n s l mon rand pm now req s'] by (auto simp: v_inv_def)
next
  case (insert s cands req s1 v now s')
  then have "v \<in> set cands" "v_base n s1" using v_rank_ok [of s req cands s1 v n] by (auto simp: v_inv_def)
  then have "v_inv n (v_replaced s1 v)" "v < n" using v_replaced_inv [of n s1 v] insert.prems insert.hyps by auto
  then show ?case using v_update_base [of n "v_replaced s1 v" v mon rand pm now req s'] insert by (auto simp: v_inv_def)
next
  case (sizes s sizes s')
  then show ?case using v_setPartitionSizes_base [of rand sizes s s' n] by (auto simp: v_inv_def)
qed

text \<open>C31. The Vantage policy counts exactly and keeps its guarantee: in every reachable state the size and
  extended size of each partition, the unmanaged region included, are the numbers of its lines; a
  replacement evicts a candidate, and its demotions take no partition that is above its target below
  it, and none from a partition at or below its target.\<close>

theorem vantage_guarantee:
  assumes "v_reach n mon rand pm s" and "n < 2 ^ 32" and "set cands \<subseteq> {..<n}" and "v_rank s req cands = Some (s', v)"
  shows "(\<forall>p\<le>v_partitions s. unat (vp_size (v_partInfo s ! p)) = length (filter (\<lambda>e. vl_p e = p) (v_array s)) \<and>
      unat (vp_extendedSize (v_partInfo s ! p)) = length (filter (\<lambda>e. vl_op e = p) (v_array s))) \<and> v \<in> set cands \<and>
    (\<forall>p<v_partitions s. min (vp_size (v_partInfo s ! p)) (vp_targetSize (v_partInfo s ! p)) \<le> vp_size (v_partInfo s' ! p))"
proof -
  have inv: "v_base n s" "v_candIdx s = 0" using v_reach_inv [OF assms(1,2)] by (simp_all add: v_inv_def)
  have "length (v_array s) = n" using inv(1) by (simp add: v_base_def)
  then have lt: "v_cnt f (v_array s) p < 2 ^ 64" for f p using assms(2) v_cnt_le [of f "v_array s" p] by simp
  have "unat (vp_size (v_partInfo s ! p)) = v_cnt vl_p (v_array s) p \<and>
      unat (vp_extendedSize (v_partInfo s ! p)) = v_cnt vl_op (v_array s) p" if "p \<le> v_partitions s" for p
    using inv(1) that lt unfolding v_base_def by (simp add: unat_of_nat_u64)
  with v_rank_ok [OF assms(4) inv assms(2,3)] show ?thesis by (simp add: v_cnt_def)
qed

theorem vantage_guarantee_witness:
  "\<exists>(s :: (unit, unit) vantage) s' v. v_new 2 8 4 90 10 50 16 False () () = Some s \<and> v_rank s (read_req 5) [4, 5, 6, 7] = Some (s', v) \<and>
    v \<in> {4, 5, 6, 7} \<and> unat (vp_size (v_partInfo s ! 2)) = length (filter (\<lambda>e. vl_p e = 2) (v_array s))"
proof -
  obtain s :: "(unit, unit) vantage" where s: "v_new 2 8 4 90 10 50 16 False () () = Some s" by (auto simp: v_new_def Let_def)
  then have "v_array s = replicate 8 \<lparr>vl_addr = 0, vl_ts = 0, vl_bts = 0, vl_p = 2, vl_op = 2\<rparr>" "v_assoc s = 4" "v_candIdx s = 0"
    "v_candList s = replicate 4 0" "v_totalSize s = 8" "v_partitions s = 2" by (auto simp: v_new_def Let_def)
  then obtain s' v where r: "v_rank s (read_req 5) [4, 5, 6, 7] = Some (s', v)"
    by (simp add: v_rank_def legacy_rank_def v_startReplacement_def v_recordCandidate_def v_getBestCandidate_def v_demote_def eval_nat_numeral)
  have "v_reach 8 (\<lambda>_ _ m. Some m) (\<lambda>r n. Some (0, r)) (\<lambda>_. Some 0) s" by (rule v_reach.new [OF s])
  from vantage_guarantee [OF this _ _ r] s r \<open>v_partitions s = 2\<close> show ?thesis by auto
qed

end
