(* ===== verification/Scheduler.thy ===== *)
theory Scheduler
  imports Prelude
begin

text \<open>
  The thread scheduler of \<^verbatim>\<open>zsim/src/scheduler.h\<close>. Threads are numbered by their gid, contexts by
  their cid; the intrusive lists (\<open>freeList\<close>, \<open>runQueue\<close>, \<open>outQueue\<close>, \<open>sleepQueue\<close>) are the sequences
  that \<open>Intrusive_List\<close> shows them to refine, so that removing a node that is not on the list is the
  failed ownership assertion.

  Each operation runs under the scheduler lock. Where the code goes on to call the barrier or to
  block on its futex, the operation returns what it does next (\<open>next_step\<close>). The accurate
  join/leave of system calls (\<open>fakeLeave\<close>, \<open>futexJoin\<close>), the watchdog and the calls into the cores and
  the process statistics are left out. \<open>rand r n\<close> draws from 0..\<open>n\<close>.
\<close>

section \<open>State\<close>

datatype thread_state = STARTED | RUNNING | OUT | BLOCKED | SLEEPING | QUEUED

datatype context_state = IDLE | USED

record thread_info =
  th_state :: thread_state
  th_cid :: nat
  th_handoffThread :: "nat option"
  th_futexWord :: nat
  th_needsJoin :: bool
  th_markedForSleep :: bool
  th_wakeupPhase :: nat
  th_mask :: "bool list"

record context_info =
  cx_state :: context_state
  cx_curThread :: "nat option"

record 'r sched =
  sc_numCores :: nat
  sc_schedQuantum :: nat
  sc_gidMap :: "nat \<Rightarrow> thread_info option"
  sc_contexts :: "context_info list"
  sc_freeList :: "nat list"
  sc_runQueue :: "nat list"
  sc_outQueue :: "nat list"
  sc_sleepQueue :: "nat list"
  sc_curPhase :: nat
  sc_rnd :: 'r
  sc_threadsCreated :: nat
  sc_threadsFinished :: nat
  sc_scheduleEvents :: nat
  sc_waitEvents :: nat
  sc_handoffEvents :: nat
  sc_sleepEvents :: nat
  sc_scheduledThreads :: nat

text \<open>What the calling thread does once the lock is released.\<close>

datatype next_step = JoinBarrier nat | LeaveBarrier nat | WaitForContext | Done

definition getGid :: "nat \<Rightarrow> nat \<Rightarrow> nat" where "getGid pid tid = unat (push_bit 16 (of_nat pid) OR of_nat tid :: u32)"
definition getPid :: "nat \<Rightarrow> nat" where "getPid gid = unat (drop_bit 16 (of_nat gid) :: u32)"
definition getTid :: "nat \<Rightarrow> nat" where "getTid gid = unat (of_nat gid AND 0x0FFFF :: u32)"

definition sc_new :: "nat \<Rightarrow> nat \<Rightarrow> 'r \<Rightarrow> 'r sched" where
  "sc_new numCores schedQuantum r =
     \<lparr>sc_numCores = numCores, sc_schedQuantum = schedQuantum, sc_gidMap = \<lambda>_. None,
      sc_contexts = replicate numCores \<lparr>cx_state = IDLE, cx_curThread = None\<rparr>, sc_freeList = [0..<numCores],
      sc_runQueue = [], sc_outQueue = [], sc_sleepQueue = [], sc_curPhase = 0, sc_rnd = r,
      sc_threadsCreated = 0, sc_threadsFinished = 0, sc_scheduleEvents = 0, sc_waitEvents = 0, sc_handoffEvents = 0,
      sc_sleepEvents = 0, sc_scheduledThreads = 0\<rparr>"

definition thread_new :: "nat \<Rightarrow> bool list \<Rightarrow> thread_info option" where
  "thread_new numCores msk =
     Option.bind (guard (length msk = numCores \<and> True \<in> set msk)) (\<lambda>_.
     Some \<lparr>th_state = STARTED, th_cid = 0, th_handoffThread = None, th_futexWord = 0, th_needsJoin = False,
           th_markedForSleep = False, th_wakeupPhase = 0, th_mask = msk\<rparr>)"

section \<open>Contexts and threads\<close>

definition sc_set :: "nat \<Rightarrow> thread_info \<Rightarrow> 'r sched \<Rightarrow> 'r sched" where
  "sc_set t th s = s\<lparr>sc_gidMap := (sc_gidMap s)(t := Some th)\<rparr>"

definition sc_schedule :: "nat \<Rightarrow> nat \<Rightarrow> 'r sched \<Rightarrow> 'r sched option" where
  "sc_schedule t c s =
     Option.bind (sc_gidMap s t) (\<lambda>th.
     Option.bind (guard (th_state th = STARTED \<or> th_state th = BLOCKED \<or> th_state th = QUEUED)) (\<lambda>_.
     Option.bind (guard (c < length (sc_contexts s) \<and> cx_state (sc_contexts s ! c) = IDLE \<and> cx_curThread (sc_contexts s ! c) = None)) (\<lambda>_.
     Some ((sc_set t (th\<lparr>th_state := RUNNING, th_cid := c\<rparr>) s)
       \<lparr>sc_contexts := (sc_contexts s)[c := \<lparr>cx_state = USED, cx_curThread = Some t\<rparr>],
        sc_scheduleEvents := sc_scheduleEvents s + 1, sc_scheduledThreads := sc_scheduledThreads s + 1\<rparr>))))"

definition sc_deschedule :: "nat \<Rightarrow> nat \<Rightarrow> thread_state \<Rightarrow> 'r sched \<Rightarrow> 'r sched option" where
  "sc_deschedule t c targetState s =
     Option.bind (sc_gidMap s t) (\<lambda>th.
     Option.bind (guard (th_state th = RUNNING \<or> th_state th = OUT)) (\<lambda>_.
     Option.bind (guard (c < length (sc_contexts s) \<and> cx_state (sc_contexts s ! c) = USED \<and> c = th_cid th \<and>
       cx_curThread (sc_contexts s ! c) = Some t)) (\<lambda>_.
     Option.bind (guard (targetState = BLOCKED \<or> targetState = QUEUED \<or> targetState = SLEEPING)) (\<lambda>_.
     Some ((sc_set t (th\<lparr>th_state := targetState\<rparr>) s)
       \<lparr>sc_contexts := (sc_contexts s)[c := \<lparr>cx_state = IDLE, cx_curThread = None\<rparr>],
        sc_scheduledThreads := sc_scheduledThreads s - 1\<rparr>)))))"

definition sc_wakeup :: "nat \<Rightarrow> bool \<Rightarrow> 'r sched \<Rightarrow> 'r sched option" where
  "sc_wakeup t needsJoin s =
     Option.bind (sc_gidMap s t) (\<lambda>th.
     Option.bind (guard (th_futexWord th = 1)) (\<lambda>_.
     Some (sc_set t (th\<lparr>th_needsJoin := needsJoin, th_futexWord := 0\<rparr>) s)))"

text \<open>Removal from an intrusive list, which asserts that the node is on it.\<close>

definition q_remove :: "nat \<Rightarrow> nat list \<Rightarrow> nat list option" where
  "q_remove x q = (if x \<in> set q then Some (remove1 x q) else None)"

definition sc_masked :: "'r sched \<Rightarrow> nat \<Rightarrow> nat \<Rightarrow> bool" where
  "sc_masked s t c = (case sc_gidMap s t of None \<Rightarrow> False | Some th \<Rightarrow> th_mask th ! c)"

definition sc_cid :: "'r sched \<Rightarrow> nat \<Rightarrow> nat" where
  "sc_cid s t = (case sc_gidMap s t of None \<Rightarrow> 0 | Some th \<Rightarrow> th_cid th)"

definition sc_schedThread :: "nat \<Rightarrow> 'r sched \<Rightarrow> ('r sched \<times> nat option) option" where
  "sc_schedThread t s =
     Option.bind (sc_gidMap s t) (\<lambda>th.
     Option.bind (guard (th_cid th < sc_numCores s)) (\<lambda>_.
     if cx_state (sc_contexts s ! th_cid th) = IDLE \<and> th_mask th ! th_cid th then
       map_option (\<lambda>q. (s\<lparr>sc_freeList := q\<rparr>, Some (th_cid th))) (q_remove (th_cid th) (sc_freeList s))
     else
       (case List.find (\<lambda>c. th_mask th ! c) (sc_freeList s) of
          Some c \<Rightarrow> Some (s\<lparr>sc_freeList := remove1 c (sc_freeList s)\<rparr>, Some c)
        | None \<Rightarrow>
            (case List.find (\<lambda>u. th_mask th ! sc_cid s u) (sc_outQueue s) of
               Some u \<Rightarrow> map_option (\<lambda>s1. (s1, Some (sc_cid s u)))
                 (sc_deschedule u (sc_cid s u) BLOCKED (s\<lparr>sc_outQueue := remove1 u (sc_outQueue s)\<rparr>))
             | None \<Rightarrow> Some (s, None)))))"

definition sc_schedContext :: "nat \<Rightarrow> 'r sched \<Rightarrow> 'r sched \<times> nat option" where
  "sc_schedContext c s =
     (case List.find (\<lambda>t. sc_masked s t c) (sc_runQueue s) of
        Some t \<Rightarrow> (s\<lparr>sc_runQueue := remove1 t (sc_runQueue s)\<rparr>, Some t)
      | None \<Rightarrow> (s, None))"

section \<open>Threads come and go\<close>

definition sc_start :: "nat \<Rightarrow> bool list \<Rightarrow> 'r sched \<Rightarrow> 'r sched option" where
  "sc_start gid msk s =
     Option.bind (guard (sc_gidMap s gid = None)) (\<lambda>_.
     Option.bind (thread_new (sc_numCores s) msk) (\<lambda>th.
     Some ((sc_set gid th s)\<lparr>sc_threadsCreated := sc_threadsCreated s + 1\<rparr>)))"

text \<open>\<open>th\<close> is queued and waits on its futex.\<close>

definition sc_enqueue :: "nat \<Rightarrow> thread_info \<Rightarrow> 'r sched \<Rightarrow> 'r sched" where
  "sc_enqueue t th s =
     (sc_set t (th\<lparr>th_state := QUEUED, th_futexWord := 1\<rparr>) s)
       \<lparr>sc_runQueue := sc_runQueue s @ [t], sc_waitEvents := sc_waitEvents s + 1\<rparr>"

definition sc_get_context :: "nat \<Rightarrow> 'r sched \<Rightarrow> ('r sched \<times> next_step) option" where
  "sc_get_context t s =
     Option.bind (sc_schedThread t s) (\<lambda>(s1, ctx).
     case ctx of
       Some c \<Rightarrow> map_option (\<lambda>s2. (s2, JoinBarrier c)) (sc_schedule t c s1)
     | None \<Rightarrow> Option.bind (sc_gidMap s1 t) (\<lambda>th. Some (sc_enqueue t th s1, WaitForContext)))"

definition sc_join :: "nat \<Rightarrow> 'r sched \<Rightarrow> ('r sched \<times> next_step) option" where
  "sc_join t s =
     Option.bind (sc_gidMap s t) (\<lambda>th.
     Option.bind (guard (\<not> th_markedForSleep th)) (\<lambda>_.
     if th_state th = OUT then
       Option.bind (q_remove t (sc_outQueue s)) (\<lambda>q.
       Some ((sc_set t (th\<lparr>th_state := RUNNING\<rparr>) s)\<lparr>sc_outQueue := q\<rparr>, JoinBarrier (th_cid th)))
     else if th_state th = SLEEPING then
       Option.bind (q_remove t (sc_sleepQueue s)) (\<lambda>q.
       sc_get_context t ((sc_set t (th\<lparr>th_state := BLOCKED\<rparr>) s)\<lparr>sc_sleepQueue := q\<rparr>))
     else Option.bind (guard (th_state th = BLOCKED \<or> th_state th = STARTED)) (\<lambda>_. sc_get_context t s)))"

text \<open>The ordered insertion into the sleep queue, after all threads that wake no later.\<close>

fun sleep_insert :: "(nat \<Rightarrow> nat) \<Rightarrow> nat \<Rightarrow> nat list \<Rightarrow> nat list" where
  "sleep_insert wakeup t [] = [t]"
| "sleep_insert wakeup t (u # q) = (if wakeup u > wakeup t then t # u # q else u # sleep_insert wakeup t q)"

definition sc_wakeupPhase :: "'r sched \<Rightarrow> nat \<Rightarrow> nat" where
  "sc_wakeupPhase s t = (case sc_gidMap s t of None \<Rightarrow> 0 | Some th \<Rightarrow> th_wakeupPhase th)"

text \<open>A context that \<open>t\<close> gives up goes to the first thread of the run queue that may run there.\<close>

definition sc_give :: "nat \<Rightarrow> nat \<Rightarrow> 'r sched \<Rightarrow> 'r sched option" where
  "sc_give inTh c s = Option.bind (sc_schedule inTh c s) (sc_wakeup inTh False)"

definition sc_leave :: "nat \<Rightarrow> nat \<Rightarrow> 'r sched \<Rightarrow> ('r sched \<times> next_step) option" where
  "sc_leave t c s =
     Option.bind (guard (c < length (sc_contexts s) \<and> cx_curThread (sc_contexts s ! c) = Some t)) (\<lambda>_.
     Option.bind (sc_gidMap s t) (\<lambda>th.
     Option.bind (guard (th_state th = RUNNING)) (\<lambda>_.
     if th_markedForSleep th then
       Option.bind (sc_deschedule t c SLEEPING (sc_set t (th\<lparr>th_markedForSleep := False\<rparr>) s)) (\<lambda>s1.
       let s2 = s1\<lparr>sc_sleepQueue := sleep_insert (sc_wakeupPhase s1) t (sc_sleepQueue s1), sc_sleepEvents := sc_sleepEvents s1 + 1\<rparr> in
       case sc_schedContext c s2 of
         (s3, Some inTh) \<Rightarrow> map_option (\<lambda>s4. (s4, Done)) (sc_give inTh c s3)
       | (s3, None) \<Rightarrow> Some (s3\<lparr>sc_freeList := sc_freeList s3 @ [c]\<rparr>, LeaveBarrier c))
     else
       (case sc_schedContext c s of
          (s1, Some inTh) \<Rightarrow>
            Option.bind (sc_deschedule t c BLOCKED s1) (\<lambda>s2. map_option (\<lambda>s3. (s3, Done)) (sc_give inTh c s2))
        | (s1, None) \<Rightarrow>
            Some ((sc_set t (th\<lparr>th_state := OUT\<rparr>) s1)\<lparr>sc_outQueue := sc_outQueue s1 @ [t]\<rparr>, LeaveBarrier c)))))"

text \<open>After \<open>bar.sync\<close> has returned: hand the context off, if the last time slice said so.\<close>

definition sc_sync :: "nat \<Rightarrow> nat \<Rightarrow> 'r sched \<Rightarrow> ('r sched \<times> next_step) option" where
  "sc_sync t c s =
     Option.bind (guard (c < length (sc_contexts s) \<and> cx_curThread (sc_contexts s ! c) = Some t)) (\<lambda>_.
     Option.bind (sc_gidMap s t) (\<lambda>th.
     Option.bind (guard (\<not> th_markedForSleep th \<and> th_state th = RUNNING)) (\<lambda>_.
     case th_handoffThread th of
       None \<Rightarrow> Some (s, Done)
     | Some dst \<Rightarrow>
         Option.bind (sc_deschedule t (th_cid th) QUEUED (sc_set t (th\<lparr>th_handoffThread := None\<rparr>) s)) (\<lambda>s1.
         Option.bind (sc_give dst (th_cid th) s1) (\<lambda>s2.
         sc_get_context t (s2\<lparr>sc_handoffEvents := sc_handoffEvents s2 + 1\<rparr>))))))"

text \<open>The node of \<open>t\<close> has an owner when it is on one of the lists.\<close>

definition sc_owned :: "nat \<Rightarrow> 'r sched \<Rightarrow> bool" where
  "sc_owned t s \<longleftrightarrow> t \<in> set (sc_runQueue s) \<or> t \<in> set (sc_outQueue s) \<or> t \<in> set (sc_sleepQueue s)"

definition sc_finish :: "nat \<Rightarrow> 'r sched \<Rightarrow> 'r sched option" where
  "sc_finish t s0 =
     Option.bind (sc_gidMap s0 t) (\<lambda>th0.
     Option.bind (if th_state th0 = RUNNING then map_option fst (sc_leave t (th_cid th0) s0) else Some s0) (\<lambda>s.
     Option.bind (sc_gidMap s t) (\<lambda>th.
     Option.bind (guard (th_state th \<in> {STARTED, OUT, BLOCKED, QUEUED})) (\<lambda>_.
     Option.bind
       (if th_state th = QUEUED then map_option (\<lambda>q. s\<lparr>sc_runQueue := q\<rparr>) (q_remove t (sc_runQueue s))
        else if sc_owned t s then
          Option.bind (q_remove t (sc_outQueue s)) (\<lambda>q.
          map_option (\<lambda>s1. s1\<lparr>sc_freeList := sc_freeList s1 @ [th_cid th]\<rparr>)
            (sc_deschedule t (th_cid th) BLOCKED (s\<lparr>sc_outQueue := q\<rparr>)))
        else Some s) (\<lambda>s1.
     Some (s1\<lparr>sc_gidMap := (sc_gidMap s1)(t := None), sc_threadsFinished := sc_threadsFinished s1 + 1\<rparr>))))))"

section \<open>Sleeping\<close>

definition sc_markForSleep :: "nat \<Rightarrow> nat \<Rightarrow> 'r sched \<Rightarrow> 'r sched option" where
  "sc_markForSleep t wakeupPhase s =
     Option.bind (sc_gidMap s t) (\<lambda>th.
     Option.bind (guard (\<not> th_markedForSleep th)) (\<lambda>_.
     Some (sc_set t (th\<lparr>th_markedForSleep := True, th_wakeupPhase := wakeupPhase, th_futexWord := 1\<rparr>) s)))"

definition sc_isSleeping :: "nat \<Rightarrow> 'r sched \<Rightarrow> bool option" where
  "sc_isSleeping t s = map_option (\<lambda>th. th_state th = SLEEPING) (sc_gidMap s t)"

definition sc_notifySleepEnd :: "nat \<Rightarrow> 'r sched \<Rightarrow> 'r sched option" where
  "sc_notifySleepEnd t s =
     Option.bind (sc_gidMap s t) (\<lambda>th.
     Option.bind (guard (\<not> th_markedForSleep th \<and> (th_state th = SLEEPING \<or> th_state th = BLOCKED))) (\<lambda>_.
     if th_state th = BLOCKED then Some s
     else map_option (\<lambda>q. (sc_set t (th\<lparr>th_state := BLOCKED\<rparr>) s)\<lparr>sc_sleepQueue := q\<rparr>) (q_remove t (sc_sleepQueue s))))"

text \<open>\<open>processCleanup\<close>, with the threads of the process in the order the hash map yields them.\<close>

fun sc_processCleanup :: "nat list \<Rightarrow> 'r sched \<Rightarrow> 'r sched option" where
  "sc_processCleanup [] s = Some s"
| "sc_processCleanup (t # doomed) s =
     Option.bind (sc_isSleeping t s) (\<lambda>b.
     Option.bind (if b then sc_notifySleepEnd t s else Some s) (\<lambda>s1.
     Option.bind (sc_finish t s1) (sc_processCleanup doomed)))"

section \<open>The end of a phase\<close>

fun sc_wakeSleepers :: "nat list \<Rightarrow> 'r sched \<Rightarrow> 'r sched option" where
  "sc_wakeSleepers [] s = Some s"
| "sc_wakeSleepers (t # q) s =
     Option.bind (sc_gidMap s t) (\<lambda>th.
     if th_wakeupPhase th \<le> sc_curPhase s then
       Option.bind (guard (th_wakeupPhase th = sc_curPhase s)) (\<lambda>_.
       Option.bind (sc_wakeup t False (sc_set t (th\<lparr>th_state := BLOCKED\<rparr>) s)) (\<lambda>s1.
       sc_wakeSleepers q (s1\<lparr>sc_sleepQueue := q\<rparr>)))
     else Some s)"

fun sc_shuffle :: "('r \<Rightarrow> nat \<Rightarrow> (nat \<times> 'r) option) \<Rightarrow> nat \<Rightarrow> nat list \<Rightarrow> 'r \<Rightarrow> (nat list \<times> 'r) option" where
  "sc_shuffle rand 0 xs r = Some (xs, r)"
| "sc_shuffle rand (Suc i) xs r =
     Option.bind (rand r (Suc i)) (\<lambda>(j, r1). sc_shuffle rand i (xs[Suc i := xs ! j, j := xs ! Suc i]) r1)"

fun sc_handoffs :: "nat list \<Rightarrow> nat list \<Rightarrow> 'r sched \<Rightarrow> 'r sched option" where
  "sc_handoffs [] avail s = Some s"
| "sc_handoffs (t # q) avail s =
     (case List.find (\<lambda>c. sc_masked s t c) avail of
        None \<Rightarrow> sc_handoffs q avail s
      | Some c \<Rightarrow>
          Option.bind (cx_curThread (sc_contexts s ! c)) (\<lambda>victim.
          Option.bind (sc_gidMap s victim) (\<lambda>vth.
          sc_handoffs q (remove1 c avail)
            ((sc_set victim (vth\<lparr>th_handoffThread := Some t\<rparr>) s)\<lparr>sc_runQueue := remove1 t (sc_runQueue s)\<rparr>))))"

definition sc_schedTick :: "('r \<Rightarrow> nat \<Rightarrow> (nat \<times> 'r) option) \<Rightarrow> 'r sched \<Rightarrow> 'r sched option" where
  "sc_schedTick rand s =
     Option.bind (sc_shuffle rand (sc_numCores s - 1) [0..<sc_numCores s] (sc_rnd s)) (\<lambda>(avail, r).
     sc_handoffs (sc_runQueue s) avail (s\<lparr>sc_rnd := r\<rparr>))"

definition sc_callback :: "('r \<Rightarrow> nat \<Rightarrow> (nat \<times> 'r) option) \<Rightarrow> 'r sched \<Rightarrow> 'r sched option" where
  "sc_callback rand s =
     Option.bind (guard (sc_scheduledThreads s \<le> sc_numCores s)) (\<lambda>_.
     let s1 = s\<lparr>sc_curPhase := sc_curPhase s + 1\<rparr> in
     Option.bind (sc_wakeSleepers (sc_sleepQueue s1) s1) (\<lambda>s2.
     if sc_runQueue s2 = [] then Some s2
     else Option.bind (guard (sc_schedQuantum s \<noteq> 0)) (\<lambda>_.
       if sc_curPhase s2 mod sc_schedQuantum s = 0 then sc_schedTick rand s2 else Some s2)))"

definition sc_getScheduledPid :: "nat \<Rightarrow> 'r sched \<Rightarrow> nat" where
  "sc_getScheduledPid c s =
     (if cx_state (sc_contexts s ! c) = USED then getPid (the (cx_curThread (sc_contexts s ! c))) else 2 ^ 32 - 1)"

end
