(* ===== verification/Sched_Inv.thy ===== *)
theory Sched_Inv
  imports Scheduler
begin

text \<open>
  The state invariant of the scheduler (\<open>sc_inv\<close>) and one preservation lemma per primitive: scheduling,
  descheduling, queueing, sleeping, handing a context off, creating and erasing a thread. Each primitive's
  effect is stated as an explicit post-state, so that the operations of \<open>Scheduler\<close> rewrite to them.
\<close>

section \<open>The state invariant\<close>

text \<open>
  \<open>F\<close> holds the contexts an operation has in hand (idle, but not on the free list) and \<open>H\<close> the queued
  threads it has in hand (on no list); both are empty between operations.
\<close>

definition sc_used :: "'r sched \<Rightarrow> nat set" where
  "sc_used s = {c. c < sc_numCores s \<and> cx_state (sc_contexts s ! c) = USED}"

definition sc_idle :: "'r sched \<Rightarrow> nat set" where
  "sc_idle s = {c. c < sc_numCores s \<and> cx_state (sc_contexts s ! c) = IDLE}"

definition ctx_ok :: "'r sched \<Rightarrow> nat \<Rightarrow> bool" where
  "ctx_ok s c \<longleftrightarrow> sc_contexts s ! c = \<lparr>cx_state = IDLE, cx_curThread = None\<rparr> \<or>
     (\<exists>t th. sc_contexts s ! c = \<lparr>cx_state = USED, cx_curThread = Some t\<rparr> \<and> sc_gidMap s t = Some th \<and>
        (th_state th = RUNNING \<or> th_state th = OUT) \<and> th_cid th = c \<and> th_mask th ! c)"

definition inv_ctx :: "'r sched \<Rightarrow> bool" where
  "inv_ctx s \<longleftrightarrow> length (sc_contexts s) = sc_numCores s \<and> (\<forall>c < sc_numCores s. ctx_ok s c)"

definition inv_thr :: "'r sched \<Rightarrow> bool" where
  "inv_thr s \<longleftrightarrow> (\<forall>t th. sc_gidMap s t = Some th \<longrightarrow>
     th_cid th < sc_numCores s \<and> length (th_mask th) = sc_numCores s \<and>
     (th_state th = RUNNING \<or> th_state th = OUT \<longrightarrow> sc_contexts s ! th_cid th = \<lparr>cx_state = USED, cx_curThread = Some t\<rparr>))"

definition inv_free :: "nat set \<Rightarrow> 'r sched \<Rightarrow> bool" where
  "inv_free F s \<longleftrightarrow> distinct (sc_freeList s) \<and> F \<subseteq> sc_idle s \<and> set (sc_freeList s) = sc_idle s - F"

definition inv_run :: "nat set \<Rightarrow> 'r sched \<Rightarrow> bool" where
  "inv_run H s \<longleftrightarrow> distinct (sc_runQueue s) \<and> H \<inter> set (sc_runQueue s) = {} \<and>
     (\<forall>t \<in> H \<union> set (sc_runQueue s). \<exists>th. sc_gidMap s t = Some th \<and> th_state th = QUEUED)"

definition inv_out :: "'r sched \<Rightarrow> bool" where
  "inv_out s \<longleftrightarrow> distinct (sc_outQueue s) \<and>
     (\<forall>t. t \<in> set (sc_outQueue s) \<longleftrightarrow> (\<exists>th. sc_gidMap s t = Some th \<and> th_state th = OUT))"

definition inv_sleep :: "'r sched \<Rightarrow> bool" where
  "inv_sleep s \<longleftrightarrow> distinct (sc_sleepQueue s) \<and> sorted (map (sc_wakeupPhase s) (sc_sleepQueue s)) \<and>
     (\<forall>t. t \<in> set (sc_sleepQueue s) \<longleftrightarrow> (\<exists>th. sc_gidMap s t = Some th \<and> th_state th = SLEEPING)) \<and>
     (\<forall>t \<in> set (sc_sleepQueue s). sc_curPhase s < sc_wakeupPhase s t)"

definition inv_futex :: "nat set \<Rightarrow> 'r sched \<Rightarrow> bool" where
  "inv_futex H s \<longleftrightarrow> (\<forall>t th. sc_gidMap s t = Some th \<longrightarrow>
     ((th_state th = QUEUED \<and> t \<notin> H) \<or> th_state th = SLEEPING \<or> th_markedForSleep th \<longrightarrow> th_futexWord th = 1) \<and>
     (th_markedForSleep th \<longrightarrow> th_state th = RUNNING \<and> sc_curPhase s < th_wakeupPhase th))"

definition inv_cnt :: "'r sched \<Rightarrow> bool" where
  "inv_cnt s \<longleftrightarrow> sc_scheduledThreads s = card (sc_used s)"

definition cx_running :: "'r sched \<Rightarrow> nat \<Rightarrow> bool" where
  "cx_running s c \<longleftrightarrow>
     (\<exists>u th. cx_curThread (sc_contexts s ! c) = Some u \<and> sc_gidMap s u = Some th \<and> th_state th = RUNNING)"

definition inv_mask :: "nat set \<Rightarrow> 'r sched \<Rightarrow> bool" where
  "inv_mask F s \<longleftrightarrow> (\<forall>t \<in> set (sc_runQueue s). \<forall>c < sc_numCores s. sc_masked s t c \<longrightarrow> c \<notin> F \<longrightarrow> cx_running s c)"

definition sc_st :: "'r sched \<Rightarrow> nat \<Rightarrow> thread_state option" where
  "sc_st s t = map_option th_state (sc_gidMap s t)"

definition sc_marked :: "'r sched \<Rightarrow> nat \<Rightarrow> bool" where
  "sc_marked s t = (case sc_gidMap s t of None \<Rightarrow> False | Some th \<Rightarrow> th_markedForSleep th)"

definition sc_handoff :: "'r sched \<Rightarrow> nat \<Rightarrow> nat option" where
  "sc_handoff s t = Option.bind (sc_gidMap s t) th_handoffThread"

definition inv_hand :: "nat set \<Rightarrow> 'r sched \<Rightarrow> bool" where
  "inv_hand H s \<longleftrightarrow>
     (\<forall>t d. sc_handoff s t = Some d \<longrightarrow> sc_st s t = Some RUNNING \<and> \<not> sc_marked s t \<and> d \<notin> H \<and> d \<notin> set (sc_runQueue s) \<and>
        sc_st s d = Some QUEUED \<and> sc_masked s d (sc_cid s t)) \<and>
     (\<forall>t t' d. sc_handoff s t = Some d \<longrightarrow> sc_handoff s t' = Some d \<longrightarrow> t' = t) \<and>
     (\<forall>d. sc_st s d = Some QUEUED \<longrightarrow> d \<in> H \<or> d \<in> set (sc_runQueue s) \<or> (\<exists>t. sc_handoff s t = Some d))"

definition sc_inv :: "nat set \<Rightarrow> nat set \<Rightarrow> 'r sched \<Rightarrow> bool" where
  "sc_inv F H s \<longleftrightarrow> inv_ctx s \<and> inv_thr s \<and> inv_free F s \<and> inv_run H s \<and> inv_out s \<and> inv_sleep s \<and>
     inv_futex H s \<and> inv_cnt s \<and> inv_mask F s \<and> inv_hand H s"

lemmas inv_defs = inv_ctx_def ctx_ok_def inv_thr_def inv_free_def inv_run_def inv_out_def inv_sleep_def inv_futex_def inv_mask_def
  inv_hand_def

lemma sc_invD:
  assumes "sc_inv F H s"
  shows "inv_ctx s" "inv_thr s" "inv_free F s" "inv_run H s" "inv_out s" "inv_sleep s" "inv_futex H s" "inv_cnt s"
    "inv_mask F s" "inv_hand H s"
  using assms by (simp_all add: sc_inv_def)

lemma sc_inv_new: "sc_inv {} {} (sc_new n q r)"
  by (simp add: sc_handoff_def sc_st_def sc_inv_def inv_defs inv_cnt_def sc_new_def sc_used_def sc_idle_def) auto

lemma sc_idle_used: "inv_ctx s \<Longrightarrow> c < sc_numCores s \<Longrightarrow> c \<notin> sc_idle s \<longleftrightarrow> c \<in> sc_used s"
  by (simp add: sc_idle_def sc_used_def) (metis context_state.exhaust context_state.distinct(1))

text \<open>Fields the projections do not read.\<close>

lemma sc_wakeupPhase_frame [simp]:
  "sc_wakeupPhase (sc_contexts_update f1 s) = sc_wakeupPhase s"
  "sc_wakeupPhase (sc_freeList_update f2 s) = sc_wakeupPhase s"
  "sc_wakeupPhase (sc_runQueue_update f3 s) = sc_wakeupPhase s"
  "sc_wakeupPhase (sc_outQueue_update f4 s) = sc_wakeupPhase s"
  "sc_wakeupPhase (sc_sleepQueue_update f5 s) = sc_wakeupPhase s"
  "sc_wakeupPhase (sc_curPhase_update f6 s) = sc_wakeupPhase s"
  "sc_wakeupPhase (sc_rnd_update f7 s) = sc_wakeupPhase s"
  "sc_wakeupPhase (sc_threadsCreated_update f8 s) = sc_wakeupPhase s"
  "sc_wakeupPhase (sc_threadsFinished_update f9 s) = sc_wakeupPhase s"
  "sc_wakeupPhase (sc_scheduleEvents_update f10 s) = sc_wakeupPhase s"
  "sc_wakeupPhase (sc_waitEvents_update f11 s) = sc_wakeupPhase s"
  "sc_wakeupPhase (sc_handoffEvents_update f12 s) = sc_wakeupPhase s"
  "sc_wakeupPhase (sc_sleepEvents_update f13 s) = sc_wakeupPhase s"
  "sc_wakeupPhase (sc_scheduledThreads_update f14 s) = sc_wakeupPhase s"
  by (simp_all add: sc_wakeupPhase_def fun_eq_iff)

lemma sc_masked_frame [simp]:
  "sc_masked (sc_contexts_update f15 s) = sc_masked s"
  "sc_masked (sc_freeList_update f16 s) = sc_masked s"
  "sc_masked (sc_runQueue_update f17 s) = sc_masked s"
  "sc_masked (sc_outQueue_update f18 s) = sc_masked s"
  "sc_masked (sc_sleepQueue_update f19 s) = sc_masked s"
  "sc_masked (sc_curPhase_update f20 s) = sc_masked s"
  "sc_masked (sc_rnd_update f21 s) = sc_masked s"
  "sc_masked (sc_threadsCreated_update f22 s) = sc_masked s"
  "sc_masked (sc_threadsFinished_update f23 s) = sc_masked s"
  "sc_masked (sc_scheduleEvents_update f24 s) = sc_masked s"
  "sc_masked (sc_waitEvents_update f25 s) = sc_masked s"
  "sc_masked (sc_handoffEvents_update f26 s) = sc_masked s"
  "sc_masked (sc_sleepEvents_update f27 s) = sc_masked s"
  "sc_masked (sc_scheduledThreads_update f28 s) = sc_masked s"
  by (simp_all add: sc_masked_def fun_eq_iff)

lemma sc_used_frame [simp]:
  "sc_used (sc_gidMap_update f29 s) = sc_used s"
  "sc_used (sc_freeList_update f30 s) = sc_used s"
  "sc_used (sc_runQueue_update f31 s) = sc_used s"
  "sc_used (sc_outQueue_update f32 s) = sc_used s"
  "sc_used (sc_sleepQueue_update f33 s) = sc_used s"
  "sc_used (sc_curPhase_update f34 s) = sc_used s"
  "sc_used (sc_rnd_update f35 s) = sc_used s"
  "sc_used (sc_threadsCreated_update f36 s) = sc_used s"
  "sc_used (sc_threadsFinished_update f37 s) = sc_used s"
  "sc_used (sc_scheduleEvents_update f38 s) = sc_used s"
  "sc_used (sc_waitEvents_update f39 s) = sc_used s"
  "sc_used (sc_handoffEvents_update f40 s) = sc_used s"
  "sc_used (sc_sleepEvents_update f41 s) = sc_used s"
  "sc_used (sc_scheduledThreads_update f42 s) = sc_used s"
  by (simp_all add: sc_used_def)

lemma sc_idle_frame [simp]:
  "sc_idle (sc_gidMap_update f43 s) = sc_idle s"
  "sc_idle (sc_freeList_update f44 s) = sc_idle s"
  "sc_idle (sc_runQueue_update f45 s) = sc_idle s"
  "sc_idle (sc_outQueue_update f46 s) = sc_idle s"
  "sc_idle (sc_sleepQueue_update f47 s) = sc_idle s"
  "sc_idle (sc_curPhase_update f48 s) = sc_idle s"
  "sc_idle (sc_rnd_update f49 s) = sc_idle s"
  "sc_idle (sc_threadsCreated_update f50 s) = sc_idle s"
  "sc_idle (sc_threadsFinished_update f51 s) = sc_idle s"
  "sc_idle (sc_scheduleEvents_update f52 s) = sc_idle s"
  "sc_idle (sc_waitEvents_update f53 s) = sc_idle s"
  "sc_idle (sc_handoffEvents_update f54 s) = sc_idle s"
  "sc_idle (sc_sleepEvents_update f55 s) = sc_idle s"
  "sc_idle (sc_scheduledThreads_update f56 s) = sc_idle s"
  by (simp_all add: sc_idle_def)

lemma cx_running_frame [simp]:
  "cx_running (sc_freeList_update g0 s) = cx_running s"
  "cx_running (sc_runQueue_update g1 s) = cx_running s"
  "cx_running (sc_outQueue_update g2 s) = cx_running s"
  "cx_running (sc_sleepQueue_update g3 s) = cx_running s"
  "cx_running (sc_curPhase_update g4 s) = cx_running s"
  "cx_running (sc_rnd_update g5 s) = cx_running s"
  "cx_running (sc_threadsCreated_update g6 s) = cx_running s"
  "cx_running (sc_threadsFinished_update g7 s) = cx_running s"
  "cx_running (sc_scheduleEvents_update g8 s) = cx_running s"
  "cx_running (sc_waitEvents_update g9 s) = cx_running s"
  "cx_running (sc_handoffEvents_update g10 s) = cx_running s"
  "cx_running (sc_sleepEvents_update g11 s) = cx_running s"
  "cx_running (sc_scheduledThreads_update g12 s) = cx_running s"
  by (simp_all add: cx_running_def fun_eq_iff)

lemma sc_cid_frame [simp]:
  "sc_cid (sc_contexts_update g0 s) = sc_cid s"
  "sc_cid (sc_freeList_update g1 s) = sc_cid s"
  "sc_cid (sc_runQueue_update g2 s) = sc_cid s"
  "sc_cid (sc_outQueue_update g3 s) = sc_cid s"
  "sc_cid (sc_sleepQueue_update g4 s) = sc_cid s"
  "sc_cid (sc_curPhase_update g5 s) = sc_cid s"
  "sc_cid (sc_rnd_update g6 s) = sc_cid s"
  "sc_cid (sc_threadsCreated_update g7 s) = sc_cid s"
  "sc_cid (sc_threadsFinished_update g8 s) = sc_cid s"
  "sc_cid (sc_scheduleEvents_update g9 s) = sc_cid s"
  "sc_cid (sc_waitEvents_update g10 s) = sc_cid s"
  "sc_cid (sc_handoffEvents_update g11 s) = sc_cid s"
  "sc_cid (sc_sleepEvents_update g12 s) = sc_cid s"
  "sc_cid (sc_scheduledThreads_update g13 s) = sc_cid s"
  by (simp_all add: sc_cid_def fun_eq_iff)

lemma sc_st_frame [simp]:
  "sc_st (sc_contexts_update g0 s) = sc_st s"
  "sc_st (sc_freeList_update g1 s) = sc_st s"
  "sc_st (sc_runQueue_update g2 s) = sc_st s"
  "sc_st (sc_outQueue_update g3 s) = sc_st s"
  "sc_st (sc_sleepQueue_update g4 s) = sc_st s"
  "sc_st (sc_curPhase_update g5 s) = sc_st s"
  "sc_st (sc_rnd_update g6 s) = sc_st s"
  "sc_st (sc_threadsCreated_update g7 s) = sc_st s"
  "sc_st (sc_threadsFinished_update g8 s) = sc_st s"
  "sc_st (sc_scheduleEvents_update g9 s) = sc_st s"
  "sc_st (sc_waitEvents_update g10 s) = sc_st s"
  "sc_st (sc_handoffEvents_update g11 s) = sc_st s"
  "sc_st (sc_sleepEvents_update g12 s) = sc_st s"
  "sc_st (sc_scheduledThreads_update g13 s) = sc_st s"
  by (simp_all add: sc_st_def fun_eq_iff)

lemma sc_marked_frame [simp]:
  "sc_marked (sc_contexts_update g0 s) = sc_marked s"
  "sc_marked (sc_freeList_update g1 s) = sc_marked s"
  "sc_marked (sc_runQueue_update g2 s) = sc_marked s"
  "sc_marked (sc_outQueue_update g3 s) = sc_marked s"
  "sc_marked (sc_sleepQueue_update g4 s) = sc_marked s"
  "sc_marked (sc_curPhase_update g5 s) = sc_marked s"
  "sc_marked (sc_rnd_update g6 s) = sc_marked s"
  "sc_marked (sc_threadsCreated_update g7 s) = sc_marked s"
  "sc_marked (sc_threadsFinished_update g8 s) = sc_marked s"
  "sc_marked (sc_scheduleEvents_update g9 s) = sc_marked s"
  "sc_marked (sc_waitEvents_update g10 s) = sc_marked s"
  "sc_marked (sc_handoffEvents_update g11 s) = sc_marked s"
  "sc_marked (sc_sleepEvents_update g12 s) = sc_marked s"
  "sc_marked (sc_scheduledThreads_update g13 s) = sc_marked s"
  by (simp_all add: sc_marked_def fun_eq_iff)

lemma sc_handoff_frame [simp]:
  "sc_handoff (sc_contexts_update g0 s) = sc_handoff s"
  "sc_handoff (sc_freeList_update g1 s) = sc_handoff s"
  "sc_handoff (sc_runQueue_update g2 s) = sc_handoff s"
  "sc_handoff (sc_outQueue_update g3 s) = sc_handoff s"
  "sc_handoff (sc_sleepQueue_update g4 s) = sc_handoff s"
  "sc_handoff (sc_curPhase_update g5 s) = sc_handoff s"
  "sc_handoff (sc_rnd_update g6 s) = sc_handoff s"
  "sc_handoff (sc_threadsCreated_update g7 s) = sc_handoff s"
  "sc_handoff (sc_threadsFinished_update g8 s) = sc_handoff s"
  "sc_handoff (sc_scheduleEvents_update g9 s) = sc_handoff s"
  "sc_handoff (sc_waitEvents_update g10 s) = sc_handoff s"
  "sc_handoff (sc_handoffEvents_update g11 s) = sc_handoff s"
  "sc_handoff (sc_sleepEvents_update g12 s) = sc_handoff s"
  "sc_handoff (sc_scheduledThreads_update g13 s) = sc_handoff s"
  by (simp_all add: sc_handoff_def fun_eq_iff)

text \<open>The invariant only reads some of the fields.\<close>

lemma sc_inv_frame [simp]:
  "sc_inv F H (sc_rnd_update f57 s) = sc_inv F H s"
  "sc_inv F H (sc_threadsCreated_update f58 s) = sc_inv F H s"
  "sc_inv F H (sc_threadsFinished_update f59 s) = sc_inv F H s"
  "sc_inv F H (sc_scheduleEvents_update f60 s) = sc_inv F H s"
  "sc_inv F H (sc_waitEvents_update f61 s) = sc_inv F H s"
  "sc_inv F H (sc_handoffEvents_update f62 s) = sc_inv F H s"
  "sc_inv F H (sc_sleepEvents_update f63 s) = sc_inv F H s"
  by (simp_all add: sc_inv_def inv_defs inv_cnt_def)

lemma inv_frame [simp]:
  "inv_ctx (sc_freeList_update a0 s) = inv_ctx s" "inv_ctx (sc_runQueue_update a1 s) = inv_ctx s"
  "inv_ctx (sc_outQueue_update a2 s) = inv_ctx s" "inv_ctx (sc_sleepQueue_update a3 s) = inv_ctx s"
  "inv_thr (sc_freeList_update a0 s) = inv_thr s" "inv_thr (sc_runQueue_update a1 s) = inv_thr s"
  "inv_thr (sc_outQueue_update a2 s) = inv_thr s" "inv_thr (sc_sleepQueue_update a3 s) = inv_thr s"
  "inv_free F (sc_runQueue_update a1 s) = inv_free F s" "inv_free F (sc_outQueue_update a2 s) = inv_free F s"
  "inv_free F (sc_sleepQueue_update a3 s) = inv_free F s"
  "inv_run H (sc_freeList_update a0 s) = inv_run H s" "inv_run H (sc_outQueue_update a2 s) = inv_run H s"
  "inv_run H (sc_sleepQueue_update a3 s) = inv_run H s"
  "inv_out (sc_freeList_update a0 s) = inv_out s" "inv_out (sc_runQueue_update a1 s) = inv_out s"
  "inv_out (sc_sleepQueue_update a3 s) = inv_out s"
  "inv_sleep (sc_freeList_update a0 s) = inv_sleep s" "inv_sleep (sc_runQueue_update a1 s) = inv_sleep s"
  "inv_sleep (sc_outQueue_update a2 s) = inv_sleep s"
  "inv_futex H (sc_freeList_update a0 s) = inv_futex H s" "inv_futex H (sc_runQueue_update a1 s) = inv_futex H s"
  "inv_futex H (sc_outQueue_update a2 s) = inv_futex H s" "inv_futex H (sc_sleepQueue_update a3 s) = inv_futex H s"
  "inv_cnt (sc_freeList_update a0 s) = inv_cnt s" "inv_cnt (sc_runQueue_update a1 s) = inv_cnt s"
  "inv_cnt (sc_outQueue_update a2 s) = inv_cnt s" "inv_cnt (sc_sleepQueue_update a3 s) = inv_cnt s"
  "inv_mask F (sc_freeList_update a0 s) = inv_mask F s" "inv_mask F (sc_outQueue_update a2 s) = inv_mask F s"
  "inv_mask F (sc_sleepQueue_update a3 s) = inv_mask F s"
  "inv_hand H (sc_freeList_update a0 s) = inv_hand H s" "inv_hand H (sc_outQueue_update a2 s) = inv_hand H s"
  "inv_hand H (sc_sleepQueue_update a3 s) = inv_hand H s"
  by (simp_all add: inv_defs inv_cnt_def)

section \<open>The primitives keep the invariant\<close>

definition sched_post :: "nat \<Rightarrow> thread_info \<Rightarrow> nat \<Rightarrow> 'r sched \<Rightarrow> 'r sched" where
  "sched_post t th c s = (sc_set t (th\<lparr>th_state := RUNNING, th_cid := c\<rparr>) s)
       \<lparr>sc_contexts := (sc_contexts s)[c := \<lparr>cx_state = USED, cx_curThread = Some t\<rparr>],
        sc_scheduleEvents := sc_scheduleEvents s + 1, sc_scheduledThreads := sc_scheduledThreads s + 1\<rparr>"

lemma sched_post_sel [simp]:
  "sc_numCores (sched_post t th c s) = sc_numCores s"
  "sc_gidMap (sched_post t th c s) = (sc_gidMap s)(t := Some (th\<lparr>th_state := RUNNING, th_cid := c\<rparr>))"
  "sc_contexts (sched_post t th c s) = (sc_contexts s)[c := \<lparr>cx_state = USED, cx_curThread = Some t\<rparr>]"
  "sc_freeList (sched_post t th c s) = sc_freeList s"
  "sc_runQueue (sched_post t th c s) = sc_runQueue s"
  "sc_outQueue (sched_post t th c s) = sc_outQueue s"
  "sc_sleepQueue (sched_post t th c s) = sc_sleepQueue s"
  "sc_curPhase (sched_post t th c s) = sc_curPhase s"
  "sc_scheduledThreads (sched_post t th c s) = sc_scheduledThreads s + 1"
  by (simp_all add: sched_post_def sc_set_def)

text \<open>The projections after an update of one thread.\<close>

lemma sc_proj_set:
  assumes "sc_gidMap s' = (sc_gidMap s)(t := Some th')"
  shows "sc_wakeupPhase s' = (sc_wakeupPhase s)(t := th_wakeupPhase th')"
    "sc_masked s' = (sc_masked s)(t := (!) (th_mask th'))"
    "sc_st s' = (sc_st s)(t := Some (th_state th'))"
    "sc_marked s' = (sc_marked s)(t := th_markedForSleep th')"
    "sc_handoff s' = (sc_handoff s)(t := th_handoffThread th')"
    "sc_cid s' = (sc_cid s)(t := th_cid th')"
  using assms
  by (auto simp: fun_eq_iff sc_wakeupPhase_def sc_masked_def sc_st_def sc_marked_def sc_handoff_def sc_cid_def)

lemma sc_proj_at:
  assumes "sc_gidMap s t = Some th"
  shows "sc_wakeupPhase s t = th_wakeupPhase th" "sc_masked s t = (!) (th_mask th)" "sc_st s t = Some (th_state th)"
    "sc_marked s t = th_markedForSleep th" "sc_handoff s t = th_handoffThread th" "sc_cid s t = th_cid th"
  using assms by (auto simp: fun_eq_iff sc_wakeupPhase_def sc_masked_def sc_st_def sc_marked_def sc_handoff_def sc_cid_def)

lemma inv_ctxD: "inv_ctx s \<Longrightarrow> c < sc_numCores s \<Longrightarrow> ctx_ok s c"
  by (simp add: inv_ctx_def)

lemma inv_ctx_upd:
  assumes s: "inv_ctx s" and c: "c < sc_numCores s"
    and other: "\<And>d. d < sc_numCores s \<Longrightarrow> d \<noteq> c \<Longrightarrow> cx_curThread (sc_contexts s ! d) \<noteq> Some t"
    and s': "sc_numCores s' = sc_numCores s" "sc_contexts s' = (sc_contexts s)[c := x]" "sc_gidMap s' = (sc_gidMap s)(t := Some th)"
    and x: "x = \<lparr>cx_state = IDLE, cx_curThread = None\<rparr> \<or> x = \<lparr>cx_state = USED, cx_curThread = Some t\<rparr> \<and>
      (th_state th = RUNNING \<or> th_state th = OUT) \<and> th_cid th = c \<and> th_mask th ! c"
  shows "inv_ctx s'"
proof -
  have len: "length (sc_contexts s) = sc_numCores s" using s by (simp add: inv_ctx_def)
  have "ctx_ok s' d" if d: "d < sc_numCores s" for d
  proof (cases "d = c")
    case True
    then show ?thesis using x c len s' by (auto simp: ctx_ok_def)
  next
    case False
    then show ?thesis using inv_ctxD [OF s d] other [OF d False] s' by (auto simp: ctx_ok_def)
  qed
  then show ?thesis using s' len by (simp add: inv_ctx_def)
qed

lemma not_cur:
  assumes "inv_ctx s" and "sc_gidMap s t = Some th" and "th_state th \<noteq> RUNNING" and "th_state th \<noteq> OUT" and "d < sc_numCores s"
  shows "cx_curThread (sc_contexts s ! d) \<noteq> Some t"
  using inv_ctxD [OF assms(1,5)] assms(2-4) by (auto simp: ctx_ok_def)

lemma inv_runD:
  assumes "inv_run H s" and "t \<in> set (sc_runQueue s)"
  shows "t \<notin> H" "\<exists>th. sc_gidMap s t = Some th \<and> th_state th = QUEUED"
  using assms unfolding inv_run_def by blast+

lemma cx_running_upd:
  assumes "cx_running s d" and "sc_contexts s' ! d = sc_contexts s ! d" and "sc_gidMap s' = (sc_gidMap s)(t := Some th)"
    and "th_state th = RUNNING \<or> cx_curThread (sc_contexts s ! d) \<noteq> Some t"
  shows "cx_running s' d"
  using assms by (auto simp: cx_running_def)

lemma idle_ctx:
  assumes "sc_inv F H s" and "c \<in> sc_idle s"
  shows "c < sc_numCores s" "sc_contexts s ! c = \<lparr>cx_state = IDLE, cx_curThread = None\<rparr>"
  using assms inv_ctxD [of s c] by (auto simp: sc_inv_def sc_idle_def ctx_ok_def)

lemma sched_post_inv:
  assumes inv: "sc_inv F H s" and "c \<in> F" and t: "sc_gidMap s t = Some th"
    and st: "th_state th = STARTED \<or> th_state th = BLOCKED \<or> th_state th = QUEUED \<and> t \<in> H" and "th_mask th ! c"
  shows "sc_inv (F - {c}) (H - {t}) (sched_post t th c s)"
proof -
  note I = sc_invD [OF inv]
  have ci: "c \<in> sc_idle s" using I(3) assms(2) by (auto simp: inv_free_def)
  note c = idle_ctx [OF inv ci]
  have len: "length (sc_contexts s) = sc_numCores s" using I(1) by (simp add: inv_ctx_def)
  note P = sc_proj_set [OF sched_post_sel(2) [of t th c s]] and A = sc_proj_at [OF t]
  have w: "sc_wakeupPhase (sched_post t th c s) = sc_wakeupPhase s" using A(1) by (auto simp: P fun_eq_iff)
  have m: "sc_masked (sched_post t th c s) = sc_masked s" using A(2) by (auto simp: P fun_eq_iff)
  have h: "sc_handoff (sched_post t th c s) = sc_handoff s" using A(5) by (auto simp: P fun_eq_iff)
  have k: "sc_marked (sched_post t th c s) = sc_marked s" using A(4) by (auto simp: P fun_eq_iff)
  have u: "sc_used (sched_post t th c s) = insert c (sc_used s)"
    using c len by (auto simp: sc_used_def nth_list_update)
  have i: "sc_idle (sched_post t th c s) = sc_idle s - {c}"
    using c len by (auto simp: sc_idle_def nth_list_update)
  have cu: "c \<notin> sc_used s" "finite (sc_used s)" using c by (auto simp: sc_used_def)
  have 1: "inv_ctx (sched_post t th c s)"
    by (rule inv_ctx_upd [OF I(1) c(1) not_cur [OF I(1) t] sched_post_sel(1,3,2)]) (use st assms(5) in auto)
  have 2: "inv_thr (sched_post t th c s)"
    using I(2) t c len by (auto simp: inv_thr_def nth_list_update)
  have 3: "inv_free (F - {c}) (sched_post t th c s)"
    using I(3) assms(2) by (auto simp: inv_free_def i)
  have tq: "t \<notin> set (sc_runQueue s)" using inv_runD [OF I(4)] t st by fastforce
  have 4: "inv_run (H - {t}) (sched_post t th c s)"
    using I(4) t tq by (auto simp: inv_run_def)
  have 5: "inv_out (sched_post t th c s)"
    using I(5) t st by (auto simp: inv_out_def)
  have 6: "inv_sleep (sched_post t th c s)"
    using I(6) t st by (auto simp: inv_sleep_def w)
  have 7: "inv_futex (H - {t}) (sched_post t th c s)"
    using I(7) t st by (auto simp: inv_futex_def)
  have 8: "inv_cnt (sched_post t th c s)"
    using I(8) cu by (simp add: inv_cnt_def u)
  have 9: "inv_mask (F - {c}) (sched_post t th c s)"
    unfolding inv_mask_def m
  proof (intro ballI allI impI)
    fix u d assume h: "u \<in> set (sc_runQueue (sched_post t th c s))" "d < sc_numCores (sched_post t th c s)" "sc_masked s u d" "d \<notin> F - {c}"
    show "cx_running (sched_post t th c s) d"
    proof (cases "d = c")
      case True
      then show ?thesis using c len by (simp add: cx_running_def)
    next
      case False
      then have "cx_running s d" using I(9) h by (auto simp: inv_mask_def)
      then show ?thesis by (rule cx_running_upd [OF _ _ sched_post_sel(2)]) (use False in auto)
    qed
  qed
  have 10: "inv_hand (H - {t}) (sched_post t th c s)"
    using I(10) A(3) st tq unfolding inv_hand_def m h k P(3,6) by (auto split: if_splits)
  show ?thesis unfolding sc_inv_def using 1 2 3 4 5 6 7 8 9 10 by blast
qed

lemma sc_schedule_post:
  assumes "sc_gidMap s t = Some th" and "th_state th = STARTED \<or> th_state th = BLOCKED \<or> th_state th = QUEUED"
    and "c < length (sc_contexts s)" and "sc_contexts s ! c = \<lparr>cx_state = IDLE, cx_curThread = None\<rparr>"
  shows "sc_schedule t c s = Some (sched_post t th c s)"
  using assms by (simp add: sc_schedule_def sched_post_def)

definition desched_post :: "nat \<Rightarrow> thread_info \<Rightarrow> nat \<Rightarrow> thread_state \<Rightarrow> 'r sched \<Rightarrow> 'r sched" where
  "desched_post t th c target s = (sc_set t (th\<lparr>th_state := target\<rparr>) s)
       \<lparr>sc_contexts := (sc_contexts s)[c := \<lparr>cx_state = IDLE, cx_curThread = None\<rparr>],
        sc_scheduledThreads := sc_scheduledThreads s - 1\<rparr>"

lemma desched_post_sel [simp]:
  "sc_numCores (desched_post t th c tg s) = sc_numCores s"
  "sc_gidMap (desched_post t th c tg s) = (sc_gidMap s)(t := Some (th\<lparr>th_state := tg\<rparr>))"
  "sc_contexts (desched_post t th c tg s) = (sc_contexts s)[c := \<lparr>cx_state = IDLE, cx_curThread = None\<rparr>]"
  "sc_freeList (desched_post t th c tg s) = sc_freeList s"
  "sc_runQueue (desched_post t th c tg s) = sc_runQueue s"
  "sc_outQueue (desched_post t th c tg s) = sc_outQueue s"
  "sc_sleepQueue (desched_post t th c tg s) = sc_sleepQueue s"
  "sc_curPhase (desched_post t th c tg s) = sc_curPhase s"
  "sc_scheduledThreads (desched_post t th c tg s) = sc_scheduledThreads s - 1"
  by (simp_all add: desched_post_def sc_set_def)

lemma inv_thrD:
  assumes "inv_thr s" and "sc_gidMap s t = Some th"
  shows "th_cid th < sc_numCores s" "length (th_mask th) = sc_numCores s"
    "th_state th = RUNNING \<or> th_state th = OUT \<Longrightarrow> sc_contexts s ! th_cid th = \<lparr>cx_state = USED, cx_curThread = Some t\<rparr>"
  using assms by (auto simp: inv_thr_def)

lemma cur_unique:
  assumes "inv_ctx s" and "inv_thr s" and "sc_gidMap s t = Some th" and "d < sc_numCores s" and "d \<noteq> th_cid th"
  shows "cx_curThread (sc_contexts s ! d) \<noteq> Some t"
  using inv_ctxD [OF assms(1,4)] assms(3,5) by (auto simp: ctx_ok_def)

lemma sc_deschedule_post:
  assumes "inv_ctx s" and "inv_thr s" and "sc_gidMap s t = Some th" and "th_state th = RUNNING \<or> th_state th = OUT"
    and "tg = BLOCKED \<or> tg = QUEUED \<or> tg = SLEEPING"
  shows "sc_deschedule t (th_cid th) tg s = Some (desched_post t th (th_cid th) tg s)"
  using inv_thrD [OF assms(2,3)] assms by (simp add: sc_deschedule_def desched_post_def inv_ctx_def)

text \<open>What descheduling does to the parts of the invariant that do not depend on the target state.\<close>

lemma desched_core:
  assumes I: "inv_ctx s" "inv_thr s" "inv_free F s" "inv_cnt s" "inv_mask F s"
    and t: "sc_gidMap s t = Some th" and st: "th_state th = RUNNING \<or> th_state th = OUT" and tg: "tg \<noteq> RUNNING" "tg \<noteq> OUT"
    and c: "c = th_cid th"
  shows "inv_ctx (desched_post t th c tg s)" "inv_thr (desched_post t th c tg s)"
    "inv_free (insert c F) (desched_post t th c tg s)" "inv_cnt (desched_post t th c tg s)"
    "inv_mask (insert c F) (desched_post t th c tg s)"
proof -
  let ?s = "desched_post t th c tg s"
  have len: "length (sc_contexts s) = sc_numCores s" using I(1) by (simp add: inv_ctx_def)
  have cn: "c < sc_numCores s" and cc: "sc_contexts s ! c = \<lparr>cx_state = USED, cx_curThread = Some t\<rparr>"
    using inv_thrD [OF I(2) t] st c by auto
  have u: "sc_used ?s = sc_used s - {c}" and i: "sc_idle ?s = insert c (sc_idle s)"
    using cn cc len by (auto simp: sc_used_def sc_idle_def nth_list_update)
  have cu: "c \<in> sc_used s" "c \<notin> sc_idle s" "finite (sc_used s)" using cn cc by (auto simp: sc_used_def sc_idle_def)
  have other: "cx_curThread (sc_contexts s ! d) \<noteq> Some t" if "d < sc_numCores s" "d \<noteq> c" for d
    using cur_unique [OF I(1,2) t that(1)] that(2) c by simp
  have m: "sc_masked ?s = sc_masked s"
    using sc_proj_at [OF t] by (auto simp: sc_proj_set [OF desched_post_sel(2)] fun_eq_iff)
  show "inv_ctx ?s"
    by (rule inv_ctx_upd [OF I(1) cn _ desched_post_sel(1,3,2)]) (use other in auto)
  have "sc_contexts ?s ! th_cid u = sc_contexts s ! th_cid u" if "sc_gidMap s v = Some u" "v \<noteq> t" "th_state u = RUNNING \<or> th_state u = OUT" for u v
    using inv_thrD(3) [OF I(2) that(1,3)] cc that(2) by (cases "th_cid u = c") auto
  then show "inv_thr ?s"
    using I(2) tg t unfolding inv_thr_def by (auto split: if_splits simp del: desched_post_sel(3))
  show "inv_free (insert c F) ?s"
    using I(3) cu by (auto simp: inv_free_def i)
  show "inv_cnt ?s"
    using I(4) cu by (simp add: inv_cnt_def u card_Diff_singleton)
  have "cx_running ?s d" if "cx_running s d" "d \<noteq> c" "d < sc_numCores s" for d
    by (rule cx_running_upd [OF that(1) _ desched_post_sel(2)]) (use that other in auto)
  then show "inv_mask (insert c F) ?s"
    using I(5) by (auto simp: inv_mask_def m)
qed

lemma inv_run_not:
  assumes "inv_run H s" and "sc_gidMap s t = Some th" and "th_state th \<noteq> QUEUED"
  shows "t \<notin> set (sc_runQueue s)" "t \<notin> H"
proof -
  have "t \<notin> H \<union> set (sc_runQueue s)" using assms unfolding inv_run_def by (metis option.inject)
  then show "t \<notin> set (sc_runQueue s)" "t \<notin> H" by auto
qed

lemma desched_blocked:
  assumes inv: "sc_inv F H s" and t: "sc_gidMap s t = Some th" and st: "th_state th = RUNNING"
    and mk: "\<not> th_markedForSleep th" and ho: "th_handoffThread th = None"
  shows "sc_inv (insert (th_cid th) F) H (desched_post t th (th_cid th) BLOCKED s)"
    "sc_inv (insert (th_cid th) F) (insert t H) (desched_post t th (th_cid th) QUEUED s)"
proof -
  note I = sc_invD [OF inv] and A = sc_proj_at [OF t] and P = sc_proj_set [OF desched_post_sel(2) [of t th "th_cid th"]]
  have tq: "t \<notin> set (sc_runQueue s)" "t \<notin> H" using inv_run_not [OF I(4) t] st by auto
  have w: "sc_wakeupPhase (desched_post t th c tg s) = sc_wakeupPhase s"
    and m: "sc_masked (desched_post t th c tg s) = sc_masked s"
    and h: "sc_handoff (desched_post t th c tg s) = sc_handoff s"
    and k: "sc_marked (desched_post t th c tg s) = sc_marked s"
    and d: "sc_cid (desched_post t th c tg s) = sc_cid s" for c tg
    using A by (auto simp: sc_proj_set [OF desched_post_sel(2)] fun_eq_iff)
  have noh: "sc_handoff s v \<noteq> Some t" for v using I(10) A(3) st unfolding inv_hand_def by fastforce
  note core = desched_core [OF I(1,2,3,8,9) t disjI1 [OF st] _ _ refl]
  show "sc_inv (insert (th_cid th) F) H (desched_post t th (th_cid th) BLOCKED s)"
    unfolding sc_inv_def
  proof (intro conjI core [of BLOCKED]; simp?)
    show "inv_run H (desched_post t th (th_cid th) BLOCKED s)" using I(4) t tq by (auto simp: inv_run_def)
    show "inv_out (desched_post t th (th_cid th) BLOCKED s)" using I(5) t st by (auto simp: inv_out_def)
    show "inv_sleep (desched_post t th (th_cid th) BLOCKED s)" using I(6) t st by (auto simp: inv_sleep_def w)
    show "inv_futex H (desched_post t th (th_cid th) BLOCKED s)" using I(7) t st mk by (auto simp: inv_futex_def)
    show "inv_hand H (desched_post t th (th_cid th) BLOCKED s)"
      using I(10) A st ho noh unfolding inv_hand_def m h k d P(3) by (auto split: if_splits)
  qed
  show "sc_inv (insert (th_cid th) F) (insert t H) (desched_post t th (th_cid th) QUEUED s)"
    unfolding sc_inv_def
  proof (intro conjI core [of QUEUED]; simp?)
    show "inv_run (insert t H) (desched_post t th (th_cid th) QUEUED s)" using I(4) t tq by (auto simp: inv_run_def)
    show "inv_out (desched_post t th (th_cid th) QUEUED s)" using I(5) t st by (auto simp: inv_out_def)
    show "inv_sleep (desched_post t th (th_cid th) QUEUED s)" using I(6) t st by (auto simp: inv_sleep_def w)
    show "inv_futex (insert t H) (desched_post t th (th_cid th) QUEUED s)" using I(7) t st mk by (auto simp: inv_futex_def)
    show "inv_hand (insert t H) (desched_post t th (th_cid th) QUEUED s)"
      using I(10) A st ho noh unfolding inv_hand_def m h k d P(3) by (auto split: if_splits)
  qed
qed

lemma handoff_target:
  assumes "inv_hand H s" and "sc_gidMap s t = Some th" and "th_state th \<noteq> QUEUED"
  shows "sc_handoff s v \<noteq> Some t"
  using assms sc_proj_at(3) [OF assms(2)] unfolding inv_hand_def by fastforce

lemma handoff_source:
  assumes "inv_hand H s" and "sc_gidMap s t = Some th" and "th_state th \<noteq> RUNNING"
  shows "th_handoffThread th = None"
  using assms sc_proj_at(3,5) [OF assms(2)] unfolding inv_hand_def by (metis option.exhaust option.inject)

lemma desched_proj:
  assumes "sc_gidMap s t = Some th"
  shows "sc_wakeupPhase (desched_post t th c tg s) = sc_wakeupPhase s"
    and "sc_masked (desched_post t th c tg s) = sc_masked s"
    and "sc_handoff (desched_post t th c tg s) = sc_handoff s"
    and "sc_marked (desched_post t th c tg s) = sc_marked s"
    and "sc_cid (desched_post t th c tg s) = sc_cid s"
    and "sc_st (desched_post t th c tg s) = (sc_st s)(t := Some tg)"
  using sc_proj_at [OF assms] by (auto simp: sc_proj_set [OF desched_post_sel(2)] fun_eq_iff)

lemma desched_out:
  assumes inv: "sc_inv F H s" and t: "sc_gidMap s t = Some th" and st: "th_state th = OUT"
  shows "sc_inv (insert (th_cid th) F) H (desched_post t th (th_cid th) BLOCKED (s\<lparr>sc_outQueue := remove1 t (sc_outQueue s)\<rparr>))"
    (is "sc_inv ?F H ?s")
proof -
  let ?u = "s\<lparr>sc_outQueue := remove1 t (sc_outQueue s)\<rparr>"
  note I = sc_invD [OF inv]
  have t0: "sc_gidMap ?u t = Some th" using t by simp
  note A = sc_proj_at [OF t] and P = desched_proj [OF t0]
  have tq: "t \<notin> set (sc_runQueue s)" "t \<notin> H" using inv_run_not [OF I(4) t] st by auto
  note noh = handoff_target [OF I(10) t] and ho = handoff_source [OF I(10) t]
  have I0: "inv_ctx ?u" "inv_thr ?u" "inv_free F ?u" "inv_cnt ?u" "inv_mask F ?u" using I by simp_all
  note core = desched_core [OF I0 t0 disjI2 [OF st] _ _ refl]
  have mk: "\<not> th_markedForSleep th" using I(7) t st by (auto simp: inv_futex_def)
  show ?thesis
    unfolding sc_inv_def
  proof (intro conjI)
    show "inv_ctx ?s" "inv_thr ?s" "inv_free ?F ?s" "inv_cnt ?s" "inv_mask ?F ?s" using core [of BLOCKED] by simp_all
    show "inv_run H ?s" using I(4) t tq by (auto simp: inv_run_def)
    show "inv_out ?s" using I(5) t st by (auto simp: inv_out_def)
    show "inv_sleep ?s" using I(6) t st by (auto simp: inv_sleep_def P)
    show "inv_futex H ?s" using I(7) t st mk by (auto simp: inv_futex_def)
    show "inv_hand H ?s"
      using I(10) A st ho noh unfolding inv_hand_def P by (auto split: if_splits)
  qed
qed

text \<open>The ordered insertion.\<close>

lemma set_sleep_insert [simp]: "set (sleep_insert w t q) = insert t (set q)"
  by (induction q) auto

lemma distinct_sleep_insert [simp]: "distinct (sleep_insert w t q) \<longleftrightarrow> distinct q \<and> t \<notin> set q"
  by (induction q) auto

lemma sorted_sleep_insert: "sorted (map w q) \<Longrightarrow> sorted (map w (sleep_insert w t q))"
  by (induction q) (auto simp: less_imp_le intro: le_trans)

lemma tweak_core:
  assumes t: "sc_gidMap s t = Some th" and e: "th_state th' = th_state th" "th_cid th' = th_cid th" "th_mask th' = th_mask th"
  shows "inv_ctx (sc_set t th' s) = inv_ctx s" "inv_thr (sc_set t th' s) = inv_thr s" "inv_free F (sc_set t th' s) = inv_free F s"
    "inv_cnt (sc_set t th' s) = inv_cnt s" "inv_mask F (sc_set t th' s) = inv_mask F s" "inv_run H (sc_set t th' s) = inv_run H s"
    "inv_out (sc_set t th' s) = inv_out s"
proof -
  have g: "(\<exists>v. (sc_gidMap (sc_set t th' s) u = Some v) \<and> P (th_state v) (th_cid v) (th_mask v)) \<longleftrightarrow>
     (\<exists>v. sc_gidMap s u = Some v \<and> P (th_state v) (th_cid v) (th_mask v))" for u P
    using t e by (auto simp: sc_set_def)
  have o: "sc_contexts (sc_set t th' s) = sc_contexts s" "sc_numCores (sc_set t th' s) = sc_numCores s"
    "sc_freeList (sc_set t th' s) = sc_freeList s" "sc_runQueue (sc_set t th' s) = sc_runQueue s"
    "sc_outQueue (sc_set t th' s) = sc_outQueue s" "sc_used (sc_set t th' s) = sc_used s" "sc_idle (sc_set t th' s) = sc_idle s"
    "sc_scheduledThreads (sc_set t th' s) = sc_scheduledThreads s"
    by (simp_all add: sc_set_def sc_used_def sc_idle_def)
  have m: "sc_masked (sc_set t th' s) = sc_masked s"
    using sc_proj_at [OF t] e by (auto simp: sc_set_def sc_masked_def fun_eq_iff)
  show "inv_ctx (sc_set t th' s) = inv_ctx s"
    unfolding inv_ctx_def ctx_ok_def o using g [where P = "\<lambda>x y z. (x = RUNNING \<or> x = OUT) \<and> y = _ \<and> z ! _"] by simp
  show "inv_thr (sc_set t th' s) = inv_thr s"
    unfolding inv_thr_def o using t e by (auto simp: sc_set_def split: if_splits)
  show "inv_free F (sc_set t th' s) = inv_free F s" by (simp add: inv_free_def o)
  show "inv_cnt (sc_set t th' s) = inv_cnt s" by (simp add: inv_cnt_def o)
  show "inv_mask F (sc_set t th' s) = inv_mask F s"
    unfolding inv_mask_def cx_running_def o m using g [where P = "\<lambda>x y z. x = RUNNING"] by simp
  show "inv_run H (sc_set t th' s) = inv_run H s"
    unfolding inv_run_def o using g [where P = "\<lambda>x y z. x = QUEUED"] by simp
  show "inv_out (sc_set t th' s) = inv_out s"
    unfolding inv_out_def o using g [where P = "\<lambda>x y z. x = OUT"] by simp
qed

lemma desched_sleep:
  assumes inv: "sc_inv F H s" and t: "sc_gidMap s t = Some th" and mk: "th_markedForSleep th"
  defines "s1 \<equiv> desched_post t (th\<lparr>th_markedForSleep := False\<rparr>) (th_cid th) SLEEPING (sc_set t (th\<lparr>th_markedForSleep := False\<rparr>) s)"
  shows "sc_inv (insert (th_cid th) F) H (s1\<lparr>sc_sleepQueue := sleep_insert (sc_wakeupPhase s1) t (sc_sleepQueue s1)\<rparr>)"
    (is "sc_inv ?F H ?s")
proof -
  let ?th = "th\<lparr>th_markedForSleep := False\<rparr>"
  let ?u = "sc_set t ?th s"
  note I = sc_invD [OF inv]
  have st: "th_state th = RUNNING" and wk: "sc_curPhase s < th_wakeupPhase th" and fx: "th_futexWord th = 1"
    using I(7) t mk by (auto simp: inv_futex_def)
  have t0: "sc_gidMap ?u t = Some ?th" by (simp add: sc_set_def)
  have sel: "sc_gidMap ?u = (sc_gidMap s)(t := Some ?th)" "sc_contexts ?u = sc_contexts s" "sc_numCores ?u = sc_numCores s"
    "sc_freeList ?u = sc_freeList s" "sc_runQueue ?u = sc_runQueue s" "sc_outQueue ?u = sc_outQueue s"
    "sc_sleepQueue ?u = sc_sleepQueue s" "sc_curPhase ?u = sc_curPhase s" "sc_scheduledThreads ?u = sc_scheduledThreads s"
    "sc_used ?u = sc_used s" "sc_idle ?u = sc_idle s"
    by (simp_all add: sc_set_def sc_used_def sc_idle_def)
  note A = sc_proj_at [OF t]
  have p0: "sc_wakeupPhase ?u = sc_wakeupPhase s" "sc_masked ?u = sc_masked s" "sc_handoff ?u = sc_handoff s"
    "sc_cid ?u = sc_cid s" "sc_st ?u = sc_st s"
    using A by (auto simp: sc_proj_set [OF sel(1)] fun_eq_iff)
  have k0: "sc_marked ?u = (sc_marked s)(t := False)" by (simp add: sc_proj_set [OF sel(1)])
  note P = desched_proj [OF t0, of "th_cid th" SLEEPING, folded s1_def]
  have tq: "t \<notin> set (sc_runQueue s)" "t \<notin> H" using inv_run_not [OF I(4) t] st by auto
  note noh = handoff_target [OF I(10) t]
  have ho: "th_handoffThread th = None"
    using I(10) A mk unfolding inv_hand_def by (metis option.exhaust)
  have I0: "inv_ctx ?u" "inv_thr ?u" "inv_free F ?u" "inv_cnt ?u" "inv_mask F ?u"
    using I by (simp_all add: tweak_core [OF t])
  note core = desched_core [OF I0 t0, of SLEEPING "th_cid th", folded s1_def]
  have ts: "t \<notin> set (sc_sleepQueue s)" using I(6) t st by (auto simp: inv_sleep_def)
  have e: "sc_gidMap s1 = (sc_gidMap s)(t := Some (?th\<lparr>th_state := SLEEPING\<rparr>))" "sc_runQueue s1 = sc_runQueue s"
     "sc_outQueue s1 = sc_outQueue s" "sc_sleepQueue s1 = sc_sleepQueue s" "sc_curPhase s1 = sc_curPhase s"
    unfolding s1_def by (simp_all add: sc_set_def)
  show ?thesis
    unfolding sc_inv_def
  proof (intro conjI; simp?)
    show "inv_ctx s1" "inv_thr s1" "inv_free ?F s1" "inv_cnt s1" "inv_mask ?F s1" using core st by simp_all
    show "inv_run H s1" using I(4) t tq by (auto simp: inv_run_def e)
    show "inv_out s1" using I(5) t st by (auto simp: inv_out_def e)
    show "inv_sleep ?s"
      using I(6) t st ts wk A(1) by (auto simp: inv_sleep_def P p0 e sorted_sleep_insert)
    show "inv_futex H s1" using I(7) t st fx by (auto simp: inv_futex_def e)
    show "inv_hand H s1"
      using I(10) A st ho noh unfolding inv_hand_def P p0 k0 e by (auto split: if_splits)
  qed
qed

lemma schedContext_None:
  assumes "sc_schedContext c s = (s', None)"
  shows "s' = s" "\<forall>u \<in> set (sc_runQueue s). \<not> sc_masked s u c"
  using assms by (auto simp: sc_schedContext_def find_None_iff split: option.splits)

lemma take_inv:
  assumes inv: "sc_inv F H s" and tq: "t \<in> set (sc_runQueue s)"
  shows "sc_inv F (insert t H) (s\<lparr>sc_runQueue := remove1 t (sc_runQueue s)\<rparr>)"
    "\<exists>th. sc_gidMap s t = Some th \<and> th_state th = QUEUED \<and> th_futexWord th = 1"
proof -
  note I = sc_invD [OF inv]
  show q: "\<exists>th. sc_gidMap s t = Some th \<and> th_state th = QUEUED \<and> th_futexWord th = 1"
    using inv_runD [OF I(4) tq] I(7) by (auto simp: inv_futex_def)
  show "sc_inv F (insert t H) (s\<lparr>sc_runQueue := remove1 t (sc_runQueue s)\<rparr>)"
    unfolding sc_inv_def
  proof (intro conjI)
    show "inv_run (insert t H) (s\<lparr>sc_runQueue := remove1 t (sc_runQueue s)\<rparr>)"
      using I(4) tq q by (auto simp: inv_run_def)
    show "inv_futex (insert t H) (s\<lparr>sc_runQueue := remove1 t (sc_runQueue s)\<rparr>)"
      using I(7) by (auto simp: inv_futex_def)
    show "inv_mask F (s\<lparr>sc_runQueue := remove1 t (sc_runQueue s)\<rparr>)"
      using I(9) by (auto simp: inv_mask_def dest: notin_set_remove1)
    show "inv_hand (insert t H) (s\<lparr>sc_runQueue := remove1 t (sc_runQueue s)\<rparr>)"
      using I(4,10) tq by (auto simp: inv_hand_def inv_run_def)
  qed (use I in simp_all)
qed

lemma schedContext_Some:
  assumes sc: "sc_schedContext c s = (s', Some t)"
  shows "s' = s\<lparr>sc_runQueue := remove1 t (sc_runQueue s)\<rparr>" "sc_masked s t c" "t \<in> set (sc_runQueue s)"
  using sc by (auto simp: sc_schedContext_def dest!: find_Some_in split: option.splits)

lemma push_free:
  assumes inv: "sc_inv F H s" and c: "c \<in> F" and n: "\<forall>u \<in> set (sc_runQueue s). \<not> sc_masked s u c"
  shows "sc_inv (F - {c}) H (s\<lparr>sc_freeList := sc_freeList s @ [c]\<rparr>)"
proof -
  note I = sc_invD [OF inv]
  show ?thesis
    unfolding sc_inv_def
  proof (intro conjI)
    show "inv_free (F - {c}) (s\<lparr>sc_freeList := sc_freeList s @ [c]\<rparr>)" using I(3) c by (auto simp: inv_free_def)
    show "inv_mask (F - {c}) (s\<lparr>sc_freeList := sc_freeList s @ [c]\<rparr>)" using I(9) c n by (auto simp: inv_mask_def)
  qed (use I in simp_all)
qed

text \<open>A thread changes its state and its queue but keeps its context.\<close>

lemma enqueue_inv:
  assumes inv: "sc_inv F H s" and t: "sc_gidMap s t = Some th"
    and st: "th_state th = STARTED \<or> th_state th = BLOCKED \<or> th_state th = QUEUED \<and> t \<in> H"
    and n: "\<And>c. c < sc_numCores s \<Longrightarrow> th_mask th ! c \<Longrightarrow> c \<notin> F \<Longrightarrow> cx_running s c"
  shows "sc_inv F (H - {t}) (sc_enqueue t th s)"
proof -
  let ?th = "th\<lparr>th_state := QUEUED, th_futexWord := 1\<rparr>"
  let ?s = "sc_enqueue t th s"
  note I = sc_invD [OF inv] and A = sc_proj_at [OF t]
  have sel: "sc_gidMap ?s = (sc_gidMap s)(t := Some ?th)" "sc_contexts ?s = sc_contexts s" "sc_numCores ?s = sc_numCores s"
    "sc_freeList ?s = sc_freeList s" "sc_runQueue ?s = sc_runQueue s @ [t]" "sc_outQueue ?s = sc_outQueue s"
    "sc_sleepQueue ?s = sc_sleepQueue s" "sc_curPhase ?s = sc_curPhase s" "sc_scheduledThreads ?s = sc_scheduledThreads s"
    "sc_used ?s = sc_used s" "sc_idle ?s = sc_idle s"
    by (simp_all add: sc_enqueue_def sc_set_def sc_used_def sc_idle_def)
  have P: "sc_wakeupPhase ?s = sc_wakeupPhase s" "sc_masked ?s = sc_masked s" "sc_handoff ?s = sc_handoff s"
    "sc_cid ?s = sc_cid s" "sc_marked ?s = sc_marked s" "sc_st ?s = (sc_st s)(t := Some QUEUED)"
    using A by (auto simp: sc_proj_set [OF sel(1)] fun_eq_iff)
  have tq: "t \<notin> set (sc_runQueue s)" using inv_runD [OF I(4)] t st by fastforce
  have nc: "cx_curThread (sc_contexts s ! d) \<noteq> Some t" if "d < sc_numCores s" for d
    using not_cur [OF I(1) t _ _ that] st by auto
  have run: "cx_running ?s d" if "cx_running s d" "d < sc_numCores s" for d
    by (rule cx_running_upd [OF that(1) _ sel(1)]) (use nc that(2) sel in auto)
  show ?thesis
    unfolding sc_inv_def
  proof (intro conjI)
    have "ctx_ok ?s d" if d: "d < sc_numCores s" for d
      using inv_ctxD [OF I(1) d] nc [OF d] by (auto simp: ctx_ok_def sel)
    then show "inv_ctx ?s" using I(1) by (auto simp: inv_ctx_def sel)
    show "inv_thr ?s" using I(2) t by (auto simp: inv_thr_def sel)
    show "inv_free F ?s" using I(3) by (simp add: inv_free_def sel)
    show "inv_run (H - {t}) ?s" using I(4) tq by (auto simp: inv_run_def sel)
    show "inv_out ?s" using I(5) t st by (auto simp: inv_out_def sel)
    show "inv_sleep ?s" using I(6) t st by (auto simp: inv_sleep_def sel P)
    show "inv_futex (H - {t}) ?s" using I(7) t st by (auto simp: inv_futex_def sel)
    show "inv_cnt ?s" using I(8) by (simp add: inv_cnt_def sel)
    show "inv_mask F ?s" using I(9) A(2) n run by (auto simp: inv_mask_def sel P)
    show "inv_hand (H - {t}) ?s"
      using I(10) A(3,5) st tq handoff_target [OF I(10) t] handoff_source [OF I(10) t] unfolding inv_hand_def P sel by (auto split: if_splits)
  qed
qed

definition out_post :: "nat \<Rightarrow> thread_info \<Rightarrow> 'r sched \<Rightarrow> 'r sched" where
  "out_post t th s = (sc_set t (th\<lparr>th_state := OUT\<rparr>) s)\<lparr>sc_outQueue := sc_outQueue s @ [t]\<rparr>"

lemma out_inv:
  assumes inv: "sc_inv F H s" and t: "sc_gidMap s t = Some th" and st: "th_state th = RUNNING"
    and mk: "\<not> th_markedForSleep th" and ho: "th_handoffThread th = None"
    and n: "\<forall>u \<in> set (sc_runQueue s). \<not> sc_masked s u (th_cid th)"
  shows "sc_inv F H (out_post t th s)"
proof -
  let ?th = "th\<lparr>th_state := OUT\<rparr>"
  let ?s = "out_post t th s"
  note I = sc_invD [OF inv] and A = sc_proj_at [OF t]
  have sel: "sc_gidMap ?s = (sc_gidMap s)(t := Some ?th)" "sc_contexts ?s = sc_contexts s" "sc_numCores ?s = sc_numCores s"
    "sc_freeList ?s = sc_freeList s" "sc_runQueue ?s = sc_runQueue s" "sc_outQueue ?s = sc_outQueue s @ [t]"
    "sc_sleepQueue ?s = sc_sleepQueue s" "sc_curPhase ?s = sc_curPhase s" "sc_scheduledThreads ?s = sc_scheduledThreads s"
    "sc_used ?s = sc_used s" "sc_idle ?s = sc_idle s"
    by (simp_all add: out_post_def sc_set_def sc_used_def sc_idle_def)
  have P: "sc_wakeupPhase ?s = sc_wakeupPhase s" "sc_masked ?s = sc_masked s" "sc_handoff ?s = sc_handoff s"
    "sc_cid ?s = sc_cid s" "sc_marked ?s = sc_marked s" "sc_st ?s = (sc_st s)(t := Some OUT)"
    using A by (auto simp: sc_proj_set [OF sel(1)] fun_eq_iff)
  have tq: "t \<notin> set (sc_runQueue s)" "t \<notin> H" using inv_run_not [OF I(4) t] st by auto
  have run: "cx_running ?s d" if "cx_running s d" "d < sc_numCores s" "d \<noteq> th_cid th" for d
    by (rule cx_running_upd [OF that(1) _ sel(1)]) (use cur_unique [OF I(1,2) t that(2,3)] sel in auto)
  have "ctx_ok ?s d" if d: "d < sc_numCores s" for d
    using inv_ctxD [OF I(1) d] t st by (auto simp: ctx_ok_def sel)
  then have "inv_ctx ?s" using I(1) by (auto simp: inv_ctx_def sel)
  show ?thesis
    unfolding sc_inv_def
  proof (intro conjI)
    show "inv_ctx ?s" by fact
    show "inv_thr ?s" using I(2) t st by (auto simp: inv_thr_def sel)
    show "inv_free F ?s" using I(3) by (simp add: inv_free_def sel)
    show "inv_run H ?s" using I(4) t tq by (auto simp: inv_run_def sel)
    show "inv_out ?s" using I(5) t st by (auto simp: inv_out_def sel)
    show "inv_sleep ?s" using I(6) t st by (auto simp: inv_sleep_def sel P)
    show "inv_futex H ?s" using I(7) t st mk by (auto simp: inv_futex_def sel)
    show "inv_cnt ?s" using I(8) by (simp add: inv_cnt_def sel)
    show "inv_mask F ?s" using I(9) n run by (fastforce simp: inv_mask_def sel P)
    show "inv_hand H ?s"
      using I(10) A st ho handoff_target [OF I(10) t] unfolding inv_hand_def P sel by (auto split: if_splits)
  qed
qed

definition rejoin_post :: "nat \<Rightarrow> thread_info \<Rightarrow> 'r sched \<Rightarrow> 'r sched" where
  "rejoin_post t th s = (sc_set t (th\<lparr>th_state := RUNNING\<rparr>) s)\<lparr>sc_outQueue := remove1 t (sc_outQueue s)\<rparr>"

lemma rejoin_inv:
  assumes inv: "sc_inv F H s" and t: "sc_gidMap s t = Some th" and st: "th_state th = OUT"
  shows "sc_inv F H (rejoin_post t th s)"
proof -
  let ?th = "th\<lparr>th_state := RUNNING\<rparr>"
  let ?s = "rejoin_post t th s"
  note I = sc_invD [OF inv] and A = sc_proj_at [OF t]
  have sel: "sc_gidMap ?s = (sc_gidMap s)(t := Some ?th)" "sc_contexts ?s = sc_contexts s" "sc_numCores ?s = sc_numCores s"
    "sc_freeList ?s = sc_freeList s" "sc_runQueue ?s = sc_runQueue s" "sc_outQueue ?s = remove1 t (sc_outQueue s)"
    "sc_sleepQueue ?s = sc_sleepQueue s" "sc_curPhase ?s = sc_curPhase s" "sc_scheduledThreads ?s = sc_scheduledThreads s"
    "sc_used ?s = sc_used s" "sc_idle ?s = sc_idle s"
    by (simp_all add: rejoin_post_def sc_set_def sc_used_def sc_idle_def)
  have P: "sc_wakeupPhase ?s = sc_wakeupPhase s" "sc_masked ?s = sc_masked s" "sc_handoff ?s = sc_handoff s"
    "sc_cid ?s = sc_cid s" "sc_marked ?s = sc_marked s" "sc_st ?s = (sc_st s)(t := Some RUNNING)"
    using A by (auto simp: sc_proj_set [OF sel(1)] fun_eq_iff)
  have tq: "t \<notin> set (sc_runQueue s)" "t \<notin> H" using inv_run_not [OF I(4) t] st by auto
  have run: "cx_running ?s d" if "cx_running s d" for d
    by (rule cx_running_upd [OF that _ sel(1)]) (use sel in auto)
  have "ctx_ok ?s d" if d: "d < sc_numCores s" for d
    using inv_ctxD [OF I(1) d] t st by (auto simp: ctx_ok_def sel)
  then have ctx: "inv_ctx ?s" using I(1) by (auto simp: inv_ctx_def sel)
  show ?thesis
    unfolding sc_inv_def
  proof (intro conjI)
    show "inv_ctx ?s" by fact
    show "inv_thr ?s" using I(2) t st by (auto simp: inv_thr_def sel)
    show "inv_free F ?s" using I(3) by (simp add: inv_free_def sel)
    show "inv_run H ?s" using I(4) t tq by (auto simp: inv_run_def sel)
    show "inv_out ?s" using I(5) t st by (auto simp: inv_out_def sel)
    show "inv_sleep ?s" using I(6) t st by (auto simp: inv_sleep_def sel P)
    show "inv_futex H ?s" using I(7) t st by (auto simp: inv_futex_def sel)
    show "inv_cnt ?s" using I(8) by (simp add: inv_cnt_def sel)
    show "inv_mask F ?s" using I(9) run by (auto simp: inv_mask_def sel P)
    show "inv_hand H ?s"
      using I(10) A(3,5) st handoff_target [OF I(10) t] handoff_source [OF I(10) t]
      unfolding inv_hand_def P sel by (auto split: if_splits)
  qed
qed

definition unsleep_post :: "nat \<Rightarrow> thread_info \<Rightarrow> nat \<Rightarrow> 'r sched \<Rightarrow> 'r sched" where
  "unsleep_post t th f s = (sc_set t (th\<lparr>th_state := BLOCKED, th_futexWord := f\<rparr>) s)\<lparr>sc_sleepQueue := remove1 t (sc_sleepQueue s)\<rparr>"

lemma sorted_map_remove1: "sorted (map w q) \<Longrightarrow> sorted (map w (remove1 t q))"
  by (induction q) (auto dest: notin_set_remove1)

lemma unsleep_inv:
  assumes inv: "sc_inv F H s" and t: "sc_gidMap s t = Some th" and st: "th_state th = SLEEPING" and e: "th_state th1 = th_state th"
    "th_cid th1 = th_cid th" "th_mask th1 = th_mask th" "th_handoffThread th1 = th_handoffThread th"
    "th_markedForSleep th1 = th_markedForSleep th" "th_wakeupPhase th1 = th_wakeupPhase th"
  shows "sc_inv F H (unsleep_post t th1 f s)"
proof -
  let ?th = "th1\<lparr>th_state := BLOCKED, th_futexWord := f\<rparr>"
  let ?s = "unsleep_post t th1 f s"
  note I = sc_invD [OF inv] and A = sc_proj_at [OF t]
  have sel: "sc_gidMap ?s = (sc_gidMap s)(t := Some ?th)" "sc_contexts ?s = sc_contexts s" "sc_numCores ?s = sc_numCores s"
    "sc_freeList ?s = sc_freeList s" "sc_runQueue ?s = sc_runQueue s" "sc_outQueue ?s = sc_outQueue s"
    "sc_sleepQueue ?s = remove1 t (sc_sleepQueue s)" "sc_curPhase ?s = sc_curPhase s" "sc_scheduledThreads ?s = sc_scheduledThreads s"
    "sc_used ?s = sc_used s" "sc_idle ?s = sc_idle s"
    by (simp_all add: unsleep_post_def sc_set_def sc_used_def sc_idle_def)
  have P: "sc_wakeupPhase ?s = sc_wakeupPhase s" "sc_masked ?s = sc_masked s" "sc_handoff ?s = sc_handoff s"
    "sc_cid ?s = sc_cid s" "sc_marked ?s = sc_marked s" "sc_st ?s = (sc_st s)(t := Some BLOCKED)"
    using A e by (auto simp: sc_proj_set [OF sel(1)] fun_eq_iff)
  have tq: "t \<notin> set (sc_runQueue s)" "t \<notin> H" using inv_run_not [OF I(4) t] st by auto
  have nc: "cx_curThread (sc_contexts s ! d) \<noteq> Some t" if "d < sc_numCores s" for d
    using not_cur [OF I(1) t _ _ that] st by auto
  have run: "cx_running ?s d" if "cx_running s d" "d < sc_numCores s" for d
    by (rule cx_running_upd [OF that(1) _ sel(1)]) (use nc that(2) sel in auto)
  have "ctx_ok ?s d" if d: "d < sc_numCores s" for d
    using inv_ctxD [OF I(1) d] nc [OF d] by (auto simp: ctx_ok_def sel)
  then have ctx: "inv_ctx ?s" using I(1) by (auto simp: inv_ctx_def sel)
  have mk: "\<not> th_markedForSleep th" using I(7) t st by (auto simp: inv_futex_def)
  show ?thesis
    unfolding sc_inv_def
  proof (intro conjI)
    show "inv_ctx ?s" by fact
    show "inv_thr ?s" using I(2) t st e by (auto simp: inv_thr_def sel)
    show "inv_free F ?s" using I(3) by (simp add: inv_free_def sel)
    show "inv_run H ?s" using I(4) t tq by (auto simp: inv_run_def sel)
    show "inv_out ?s" using I(5) t st by (auto simp: inv_out_def sel)
    show "inv_sleep ?s" using I(6) t st by (auto simp: inv_sleep_def sel P sorted_map_remove1)
    show "inv_futex H ?s" using I(7) t st mk e by (auto simp: inv_futex_def sel)
    show "inv_cnt ?s" using I(8) by (simp add: inv_cnt_def sel)
    show "inv_mask F ?s" using I(9) run by (auto simp: inv_mask_def sel P)
    show "inv_hand H ?s"
      using I(10) A(3,5) st handoff_target [OF I(10) t] handoff_source [OF I(10) t]
      unfolding inv_hand_def P sel by (auto split: if_splits)
  qed
qed

text \<open>Updates that keep the state, context and mask of a thread.\<close>

lemma tweak_inv:
  assumes inv: "sc_inv F H s" and t: "sc_gidMap s t = Some th"
    and e: "th_state th' = th_state th" "th_cid th' = th_cid th" "th_mask th' = th_mask th"
    and sl: "th_state th = SLEEPING \<Longrightarrow> th_wakeupPhase th' = th_wakeupPhase th"
    and fx: "(th_state th = QUEUED \<and> t \<notin> H) \<or> th_state th = SLEEPING \<or> th_markedForSleep th' \<Longrightarrow> th_futexWord th' = 1"
    and mk: "th_markedForSleep th' \<Longrightarrow> th_state th = RUNNING \<and> sc_curPhase s < th_wakeupPhase th'"
    and ho: "th_handoffThread th' = th_handoffThread th" "th_markedForSleep th' \<Longrightarrow> th_handoffThread th = None"
  shows "sc_inv F H (sc_set t th' s)"
proof -
  let ?s = "sc_set t th' s"
  note I = sc_invD [OF inv] and A = sc_proj_at [OF t]
  have sel: "sc_gidMap ?s = (sc_gidMap s)(t := Some th')" "sc_sleepQueue ?s = sc_sleepQueue s" "sc_curPhase ?s = sc_curPhase s"
    "sc_runQueue ?s = sc_runQueue s"
    by (simp_all add: sc_set_def)
  have P: "sc_masked ?s = sc_masked s" "sc_handoff ?s = sc_handoff s" "sc_cid ?s = sc_cid s" "sc_st ?s = sc_st s"
    "sc_marked ?s = (sc_marked s)(t := th_markedForSleep th')"
    using A e ho by (auto simp: sc_proj_set [OF sel(1)] fun_eq_iff)
  have sw: "sc_wakeupPhase ?s u = sc_wakeupPhase s u" if "u \<in> set (sc_sleepQueue s)" for u
    using I(6) that t sl A(1) by (auto simp: inv_sleep_def sc_proj_set [OF sel(1)])
  have "map (sc_wakeupPhase ?s) (sc_sleepQueue s) = map (sc_wakeupPhase s) (sc_sleepQueue s)"
    using sw by simp
  then have "sorted (map (sc_wakeupPhase ?s) (sc_sleepQueue s))"
    using I(6) by (simp only: inv_sleep_def)
  then have "inv_sleep ?s"
    using I(6) t e sw unfolding inv_sleep_def sel by auto
  moreover have "inv_futex H ?s" using I(7) fx mk e by (auto simp: inv_futex_def sel)
  moreover have "inv_hand H ?s"
    using I(10) A(5) ho(2) unfolding inv_hand_def P sel by (auto split: if_splits)
  ultimately show ?thesis using I by (simp add: sc_inv_def tweak_core [OF t e])
qed

lemma assign_inv:
  assumes inv: "sc_inv F H s" and u: "sc_gidMap s u = Some uth" and st: "th_state uth = RUNNING"
    and mk: "\<not> th_markedForSleep uth" and ho: "th_handoffThread uth = None"
    and t: "t \<in> set (sc_runQueue s)" and m: "sc_masked s t (th_cid uth)"
  shows "sc_inv F H ((sc_set u (uth\<lparr>th_handoffThread := Some t\<rparr>) s)\<lparr>sc_runQueue := remove1 t (sc_runQueue s)\<rparr>)"
    (is "sc_inv F H ?s")
proof -
  let ?th = "uth\<lparr>th_handoffThread := Some t\<rparr>"
  let ?u = "sc_set u ?th s"
  note I = sc_invD [OF inv] and A = sc_proj_at [OF u]
  have e: "th_state ?th = th_state uth" "th_cid ?th = th_cid uth" "th_mask ?th = th_mask uth" by simp_all
  note core = tweak_core [OF u e]
  have sel: "sc_gidMap ?u = (sc_gidMap s)(u := Some ?th)" "sc_sleepQueue ?u = sc_sleepQueue s" "sc_curPhase ?u = sc_curPhase s"
    "sc_runQueue ?u = sc_runQueue s" "sc_numCores ?u = sc_numCores s"
    by (simp_all add: sc_set_def)
  have P: "sc_masked ?u = sc_masked s" "sc_cid ?u = sc_cid s" "sc_st ?u = sc_st s"
    "sc_marked ?u = sc_marked s" "sc_wakeupPhase ?u = sc_wakeupPhase s" "sc_handoff ?u = (sc_handoff s)(u := Some t)"
    using A by (auto simp: sc_proj_set [OF sel(1)] fun_eq_iff)
  have q: "sc_st s t = Some QUEUED" "t \<notin> H" using inv_runD [OF I(4) t] by (auto simp: sc_st_def)
  have notar: "sc_handoff s v \<noteq> Some t" for v using I(10) t unfolding inv_hand_def by blast
  show ?thesis
    unfolding sc_inv_def
  proof (intro conjI)
    show "inv_run H ?s" using I(4) u inv_run_not [OF I(4) u] st by (auto simp: inv_run_def sel dest: notin_set_remove1)
    show "inv_sleep ?s" using I(6) u st by (auto simp: inv_sleep_def sel P)
    show "inv_futex H ?s" using I(7) u by (auto simp: inv_futex_def sel)
    have "inv_mask F ?u" using I(9) core(5) by simp
    then show "inv_mask F ?s" by (auto simp: inv_mask_def sel dest: notin_set_remove1)
    have d: "set (remove1 t (sc_runQueue s)) = set (sc_runQueue s) - {t}" using I(4) by (simp add: inv_run_def)
    have hu: "sc_handoff s u = None" using A(5) ho by simp
    have P2: "sc_masked ?s = sc_masked s" "sc_cid ?s = sc_cid s" "sc_st ?s = sc_st s" "sc_marked ?s = sc_marked s"
      "sc_handoff ?s = (sc_handoff s)(u := Some t)" "set (sc_runQueue ?s) = set (sc_runQueue s) - {t}"
      using P d by simp_all
    show "inv_hand H ?s"
      unfolding inv_hand_def P2
    proof (intro conjI allI impI)
      fix v d1 assume h: "((sc_handoff s)(u := Some t)) v = Some d1"
      show "sc_st s v = Some RUNNING" "\<not> sc_marked s v" "d1 \<notin> H" "d1 \<notin> set (sc_runQueue s) - {t}" "sc_st s d1 = Some QUEUED" "sc_masked s d1 (sc_cid s v)"
        using h I(10) A st mk m q unfolding inv_hand_def by (auto split: if_splits)
    next
      fix v v' d1 assume "((sc_handoff s)(u := Some t)) v = Some d1" "((sc_handoff s)(u := Some t)) v' = Some d1"
      then show "v' = v" using I(10) notar unfolding inv_hand_def by (auto split: if_splits)
    next
      fix d1 assume q1: "sc_st s d1 = Some QUEUED"
      show "d1 \<in> H \<or> d1 \<in> set (sc_runQueue s) - {t} \<or> (\<exists>v. ((sc_handoff s)(u := Some t)) v = Some d1)"
      proof (cases "d1 = t")
        case True
        then show ?thesis by (intro disjI2 exI [of _ u]) simp
      next
        case False
        then have "d1 \<in> H \<or> d1 \<in> set (sc_runQueue s) \<or> (\<exists>v. sc_handoff s v = Some d1)"
          using I(10) q1 unfolding inv_hand_def by blast
        then show ?thesis using False hu by (metis DiffI fun_upd_other option.distinct(1) singletonD)
      qed
    qed
  qed (use I core in simp_all)
qed

lemma clear_inv:
  assumes inv: "sc_inv F H s" and t: "sc_gidMap s t = Some th" and ho: "th_handoffThread th = Some d"
  shows "sc_inv F (insert d H) (sc_set t (th\<lparr>th_handoffThread := None\<rparr>) s)" (is "sc_inv F ?H ?s")
    "\<exists>dth. sc_gidMap s d = Some dth \<and> th_state dth = QUEUED \<and> th_futexWord dth = 1 \<and> th_mask dth ! th_cid th" "d \<noteq> t" "d \<notin> H"
    "\<not> th_markedForSleep th" "th_state th = RUNNING"
proof -
  let ?th = "th\<lparr>th_handoffThread := None\<rparr>"
  note I = sc_invD [OF inv] and A = sc_proj_at [OF t]
  have e: "th_state ?th = th_state th" "th_cid ?th = th_cid th" "th_mask ?th = th_mask th" by simp_all
  note core = tweak_core [OF t e]
  have sel: "sc_gidMap ?s = (sc_gidMap s)(t := Some ?th)" "sc_sleepQueue ?s = sc_sleepQueue s" "sc_curPhase ?s = sc_curPhase s"
    "sc_runQueue ?s = sc_runQueue s" "sc_numCores ?s = sc_numCores s"
    by (simp_all add: sc_set_def)
  have P: "sc_masked ?s = sc_masked s" "sc_cid ?s = sc_cid s" "sc_st ?s = sc_st s"
    "sc_marked ?s = sc_marked s" "sc_wakeupPhase ?s = sc_wakeupPhase s" "sc_handoff ?s = (sc_handoff s)(t := None)"
    using A by (auto simp: sc_proj_set [OF sel(1)] fun_eq_iff)
  have ht: "sc_handoff s t = Some d" using A(5) ho by simp
  then have h: "sc_st s t = Some RUNNING" "\<not> sc_marked s t" "d \<notin> H" "d \<notin> set (sc_runQueue s)" "sc_st s d = Some QUEUED" "sc_masked s d (sc_cid s t)"
    using I(10) unfolding inv_hand_def by blast+
  have uq: "v = t" if "sc_handoff s v = Some d" for v using I(10) ht that unfolding inv_hand_def by blast
  show "\<not> th_markedForSleep th" and st: "th_state th = RUNNING" and "d \<notin> H" using h A by auto
  obtain dth where dth: "sc_gidMap s d = Some dth" "th_state dth = QUEUED" using h(5) by (auto simp: sc_st_def)
  then show "\<exists>dth. sc_gidMap s d = Some dth \<and> th_state dth = QUEUED \<and> th_futexWord dth = 1 \<and> th_mask dth ! th_cid th"
    using h(3,6) A(6) I(7) sc_proj_at(2) [OF dth(1)] by (auto simp: inv_futex_def)
  show dt: "d \<noteq> t" using h(1,5) by auto
  show "sc_inv F ?H ?s"
    unfolding sc_inv_def
  proof (intro conjI)
    show "inv_run ?H ?s" using I(4) dth h(4) t dt inv_run_not [OF I(4) t] st by (auto simp: inv_run_def sel)
    show "inv_sleep ?s" using I(6) t by (auto simp: inv_sleep_def sel P)
    show "inv_futex ?H ?s" using I(7) t by (auto simp: inv_futex_def sel)
    show "inv_hand ?H ?s"
      unfolding inv_hand_def P sel
    proof (intro conjI allI impI)
      fix v d1 assume "((sc_handoff s)(t := None)) v = Some d1"
      then have v: "sc_handoff s v = Some d1" "v \<noteq> t" by (auto split: if_splits)
      then have "d1 \<noteq> d" using uq by auto
      then show "sc_st s v = Some RUNNING" "\<not> sc_marked s v" "d1 \<notin> insert d H" "d1 \<notin> set (sc_runQueue s)"
        "sc_st s d1 = Some QUEUED" "sc_masked s d1 (sc_cid s v)"
        using v I(10) unfolding inv_hand_def by auto
    next
      fix v v' d1 assume "((sc_handoff s)(t := None)) v = Some d1" "((sc_handoff s)(t := None)) v' = Some d1"
      then show "v' = v" using I(10) unfolding inv_hand_def by (auto split: if_splits)
    next
      fix d1 assume q1: "sc_st s d1 = Some QUEUED"
      then have "d1 \<in> H \<or> d1 \<in> set (sc_runQueue s) \<or> (\<exists>v. sc_handoff s v = Some d1)"
        using I(10) unfolding inv_hand_def by blast
      then show "d1 \<in> insert d H \<or> d1 \<in> set (sc_runQueue s) \<or> (\<exists>v. ((sc_handoff s)(t := None)) v = Some d1)"
        using ht by (cases "d1 = d") (auto, metis option.inject)
    qed
  qed (use I core in simp_all)
qed

lemma inv_run_none:
  assumes "inv_run H s" and "sc_gidMap s t = None"
  shows "t \<notin> set (sc_runQueue s)" "t \<notin> H"
proof -
  have "t \<notin> H \<union> set (sc_runQueue s)" using assms unfolding inv_run_def by (metis option.distinct(1))
  then show "t \<notin> set (sc_runQueue s)" "t \<notin> H" by auto
qed

lemma start_inv:
  assumes inv: "sc_inv F H s" and t: "sc_gidMap s t = None" and new: "thread_new (sc_numCores s) msk = Some th"
  shows "sc_inv F H (sc_set t th s)" (is "sc_inv F H ?s")
proof -
  note I = sc_invD [OF inv]
  have th: "th_state th = STARTED" "th_cid th = 0" "th_handoffThread th = None" "\<not> th_markedForSleep th" "th_mask th = msk"
    and l: "length msk = sc_numCores s" "True \<in> set msk"
    using new by (auto simp: thread_new_def Option.bind_eq_Some_conv)
  then have n: "0 < sc_numCores s" by (cases msk) auto
  have sel: "sc_gidMap ?s = (sc_gidMap s)(t := Some th)" "sc_contexts ?s = sc_contexts s" "sc_numCores ?s = sc_numCores s"
    "sc_freeList ?s = sc_freeList s" "sc_runQueue ?s = sc_runQueue s" "sc_outQueue ?s = sc_outQueue s"
    "sc_sleepQueue ?s = sc_sleepQueue s" "sc_curPhase ?s = sc_curPhase s" "sc_scheduledThreads ?s = sc_scheduledThreads s"
    "sc_used ?s = sc_used s" "sc_idle ?s = sc_idle s"
    by (simp_all add: sc_set_def sc_used_def sc_idle_def)
  note P = sc_proj_set [OF sel(1)]
  have N: "sc_st s t = None" "sc_handoff s t = None" "\<not> sc_marked s t" "\<not> sc_masked s t c" for c
    using t by (auto simp: sc_st_def sc_handoff_def sc_marked_def sc_masked_def)
  have nc: "cx_curThread (sc_contexts s ! d) \<noteq> Some t" if "d < sc_numCores s" for d
    using inv_ctxD [OF I(1) that] t by (auto simp: ctx_ok_def)
  have run: "cx_running ?s d" if "cx_running s d" "d < sc_numCores s" for d
    by (rule cx_running_upd [OF that(1) _ sel(1)]) (use nc that(2) sel in auto)
  have "ctx_ok ?s d" if d: "d < sc_numCores s" for d
    using inv_ctxD [OF I(1) d] nc [OF d] by (auto simp: ctx_ok_def sel)
  then have ctx: "inv_ctx ?s" using I(1) by (auto simp: inv_ctx_def sel)
  have q: "t \<notin> set (sc_runQueue s)" "t \<notin> H" "t \<notin> set (sc_outQueue s)" "t \<notin> set (sc_sleepQueue s)"
    using inv_run_none [OF I(4) t] I(5,6) t by (auto simp: inv_out_def inv_sleep_def)
  show ?thesis
    unfolding sc_inv_def
  proof (intro conjI)
    show "inv_ctx ?s" by fact
    show "inv_thr ?s" using I(2) n l by (auto simp: inv_thr_def sel th)
    show "inv_free F ?s" using I(3) by (simp add: inv_free_def sel)
    show "inv_run H ?s" using I(4) q by (auto simp: inv_run_def sel)
    show "inv_out ?s" using I(5) q by (auto simp: inv_out_def sel th)
    have "map (sc_wakeupPhase ?s) (sc_sleepQueue s) = map (sc_wakeupPhase s) (sc_sleepQueue s)"
      using q(4) by (auto simp: P)
    then have "sorted (map (sc_wakeupPhase ?s) (sc_sleepQueue s))" using I(6) by (simp only: inv_sleep_def)
    moreover have "\<forall>u \<in> set (sc_sleepQueue s). sc_wakeupPhase ?s u = sc_wakeupPhase s u" using q(4) by (auto simp: P)
    ultimately show "inv_sleep ?s" using I(6) q t unfolding inv_sleep_def sel by (auto simp: th)
    show "inv_futex H ?s" using I(7) by (auto simp: inv_futex_def sel th)
    show "inv_cnt ?s" using I(8) by (simp add: inv_cnt_def sel)
    show "inv_mask F ?s" using I(9) q run by (fastforce simp: inv_mask_def sel P)
    have "sc_handoff s v \<noteq> Some t" for v using I(10) N unfolding inv_hand_def by fastforce
    then show "inv_hand H ?s"
      using I(10) N unfolding inv_hand_def P sel by (auto simp: th split: if_splits) (metis option.distinct(1))
  qed
qed

definition erase_post :: "nat \<Rightarrow> 'r sched \<Rightarrow> 'r sched" where
  "erase_post t s = s\<lparr>sc_gidMap := (sc_gidMap s)(t := None), sc_threadsFinished := sc_threadsFinished s + 1\<rparr>"

lemma erase_inv:
  assumes inv: "sc_inv F H s" and t: "sc_gidMap s t = Some th"
    and st: "th_state th = STARTED \<or> th_state th = BLOCKED \<or> th_state th = QUEUED \<and> t \<in> H"
  shows "sc_inv F (H - {t}) (erase_post t s)" (is "sc_inv F ?H ?s")
proof -
  note I = sc_invD [OF inv] and A = sc_proj_at [OF t]
  have sel: "sc_gidMap ?s = (sc_gidMap s)(t := None)" "sc_contexts ?s = sc_contexts s" "sc_numCores ?s = sc_numCores s"
    "sc_freeList ?s = sc_freeList s" "sc_runQueue ?s = sc_runQueue s" "sc_outQueue ?s = sc_outQueue s"
    "sc_sleepQueue ?s = sc_sleepQueue s" "sc_curPhase ?s = sc_curPhase s" "sc_scheduledThreads ?s = sc_scheduledThreads s"
    "sc_used ?s = sc_used s" "sc_idle ?s = sc_idle s"
    by (simp_all add: erase_post_def sc_used_def sc_idle_def)
  have P: "sc_wakeupPhase ?s = (sc_wakeupPhase s)(t := 0)" "sc_masked ?s = (sc_masked s)(t := \<lambda>_. False)"
    "sc_handoff ?s = (sc_handoff s)(t := None)" "sc_cid ?s = (sc_cid s)(t := 0)" "sc_marked ?s = (sc_marked s)(t := False)"
    "sc_st ?s = (sc_st s)(t := None)"
    by (auto simp: fun_eq_iff sc_wakeupPhase_def sc_masked_def sc_st_def sc_marked_def sc_handoff_def sc_cid_def sel)
  have q: "t \<notin> set (sc_runQueue s)" "t \<notin> set (sc_outQueue s)" "t \<notin> set (sc_sleepQueue s)"
    using inv_runD [OF I(4)] I(5,6) t st by (fastforce simp: inv_out_def inv_sleep_def)+
  have nc: "cx_curThread (sc_contexts s ! d) \<noteq> Some t" if "d < sc_numCores s" for d
    using not_cur [OF I(1) t _ _ that] st by auto
  have run: "cx_running ?s d" if "cx_running s d" "d < sc_numCores s" for d
    using that nc [OF that(2)] by (auto simp: cx_running_def sel)
  have "ctx_ok ?s d" if d: "d < sc_numCores s" for d
    using inv_ctxD [OF I(1) d] nc [OF d] by (auto simp: ctx_ok_def sel)
  then have ctx: "inv_ctx ?s" using I(1) by (auto simp: inv_ctx_def sel)
  show ?thesis
    unfolding sc_inv_def
  proof (intro conjI)
    show "inv_ctx ?s" by fact
    show "inv_thr ?s" using I(2) by (auto simp: inv_thr_def sel)
    show "inv_free F ?s" using I(3) by (simp add: inv_free_def sel)
    show "inv_run ?H ?s" using I(4) q by (auto simp: inv_run_def sel)
    show "inv_out ?s" using I(5) q by (auto simp: inv_out_def sel)
    have "map (sc_wakeupPhase ?s) (sc_sleepQueue s) = map (sc_wakeupPhase s) (sc_sleepQueue s)"
      using q(3) by (auto simp: P)
    then have "sorted (map (sc_wakeupPhase ?s) (sc_sleepQueue s))" using I(6) by (simp only: inv_sleep_def)
    moreover have "\<forall>u \<in> set (sc_sleepQueue s). sc_wakeupPhase ?s u = sc_wakeupPhase s u" using q(3) by (auto simp: P)
    ultimately show "inv_sleep ?s" using I(6) q t unfolding inv_sleep_def sel by auto
    show "inv_futex ?H ?s" using I(7) by (auto simp: inv_futex_def sel)
    show "inv_cnt ?s" using I(8) by (simp add: inv_cnt_def sel)
    show "inv_mask F ?s" using I(9) q run by (fastforce simp: inv_mask_def sel P)
    have "sc_handoff s t = None" using handoff_source [OF I(10) t] st A(5) by auto
    moreover have "sc_handoff s v \<noteq> Some t" for v
    proof (cases "th_state th = QUEUED")
      case True
      then show ?thesis using st I(10) unfolding inv_hand_def by auto
    qed (rule handoff_target [OF I(10) t])
    ultimately show "inv_hand ?H ?s"
      using I(10) unfolding inv_hand_def P sel by (auto split: if_splits) (metis option.distinct(1))
  qed
qed

lemma take_free:
  assumes inv: "sc_inv F H s" and c: "c \<in> set (sc_freeList s)"
  shows "sc_inv (insert c F) H (s\<lparr>sc_freeList := remove1 c (sc_freeList s)\<rparr>)"
proof -
  note I = sc_invD [OF inv]
  show ?thesis
    unfolding sc_inv_def
  proof (intro conjI)
    show "inv_free (insert c F) (s\<lparr>sc_freeList := remove1 c (sc_freeList s)\<rparr>)" using I(3) c by (auto simp: inv_free_def)
    show "inv_mask (insert c F) (s\<lparr>sc_freeList := remove1 c (sc_freeList s)\<rparr>)" using I(9) by (auto simp: inv_mask_def)
  qed (use I in simp_all)
qed

text \<open>A thread finds a context it may use, or all contexts it may use are running.\<close>

lemma schedThread_inv:
  assumes inv: "sc_inv {} H s" and t: "sc_gidMap s t = Some th"
    and st: "th_state th = STARTED \<or> th_state th = BLOCKED \<or> th_state th = QUEUED"
  obtains (got) c s' where "sc_schedThread t s = Some (s', Some c)" "sc_inv {c} H s'" "th_mask th ! c" "sc_gidMap s' t = Some th"
    | (none) "sc_schedThread t s = Some (s, None)" "\<And>c. c < sc_numCores s \<Longrightarrow> th_mask th ! c \<Longrightarrow> cx_running s c"
proof -
  note I = sc_invD [OF inv]
  have cn: "th_cid th < sc_numCores s" using inv_thrD [OF I(2) t] by simp
  have fl: "set (sc_freeList s) = sc_idle s" using I(3) by (simp add: inv_free_def)
  note d = sc_schedThread_def t cn
  show thesis
  proof (cases "cx_state (sc_contexts s ! th_cid th) = IDLE \<and> th_mask th ! th_cid th")
    case True
    then have "th_cid th \<in> set (sc_freeList s)" using cn by (simp add: fl sc_idle_def)
    then show thesis using True take_free [OF inv] by (intro got [of _ "th_cid th"]) (auto simp: d q_remove_def)
  next
    case F: False
    show thesis
    proof (cases "List.find (\<lambda>c. th_mask th ! c) (sc_freeList s)")
      case (Some c)
      then have "c \<in> set (sc_freeList s)" "th_mask th ! c" by (auto dest: find_Some_in)
      then show thesis using Some F take_free [OF inv] by (intro got [of _ c]) (auto simp: d)
    next
      case N: None
      show thesis
      proof (cases "List.find (\<lambda>u. th_mask th ! sc_cid s u) (sc_outQueue s)")
        case (Some u)
        then have u: "u \<in> set (sc_outQueue s)" "th_mask th ! sc_cid s u" by (auto dest: find_Some_in)
        then obtain uth where uth: "sc_gidMap s u = Some uth" "th_state uth = OUT" using I(5) by (auto simp: inv_out_def)
        have cu: "sc_cid s u = th_cid uth" by (simp add: sc_cid_def uth)
        let ?u = "s\<lparr>sc_outQueue := remove1 u (sc_outQueue s)\<rparr>"
        have "sc_deschedule u (th_cid uth) BLOCKED ?u = Some (desched_post u uth (th_cid uth) BLOCKED ?u)"
          by (rule sc_deschedule_post) (use I uth in simp_all)
        moreover have "u \<noteq> t" using uth t st by auto
        ultimately show thesis
          using Some N F desched_out [OF inv uth] u by (intro got [of _ "th_cid uth"]) (auto simp: d cu)
      next
        case None
        have "cx_running s c" if c: "c < sc_numCores s" "th_mask th ! c" for c
        proof -
          have "c \<notin> sc_idle s" using N c fl by (auto simp: find_None_iff_all)
          then obtain v vth where v: "sc_contexts s ! c = \<lparr>cx_state = USED, cx_curThread = Some v\<rparr>" "sc_gidMap s v = Some vth"
            "th_state vth = RUNNING \<or> th_state vth = OUT" "th_cid vth = c"
            using inv_ctxD [OF I(1) c(1)] c(1) by (auto simp: ctx_ok_def sc_idle_def)
          have "th_state vth \<noteq> OUT"
          proof
            assume "th_state vth = OUT"
            then have "v \<in> set (sc_outQueue s)" using v(2) I(5) by (auto simp: inv_out_def)
            then show False using None c(2) v(2,4) by (auto simp: find_None_iff_all sc_cid_def)
          qed
          then show ?thesis using v by (auto simp: cx_running_def)
        qed
        then show thesis using None N F by (intro none) (simp_all add: d if_not_P)
      qed
    qed
  qed
qed

lemma get_context_inv:
  assumes inv: "sc_inv {} H s" and t: "sc_gidMap s t = Some th"
    and st: "th_state th = STARTED \<or> th_state th = BLOCKED \<or> th_state th = QUEUED \<and> t \<in> H"
  shows "\<exists>s' nx. sc_get_context t s = Some (s', nx) \<and> sc_inv {} (H - {t}) s'"
proof -
  have st': "th_state th = STARTED \<or> th_state th = BLOCKED \<or> th_state th = QUEUED" using st by auto
  show ?thesis
  proof (cases rule: schedThread_inv [OF inv t st'])
    case (1 c s1)
    have c: "c \<in> sc_idle s1" using sc_invD(3) [OF 1(2)] by (simp add: inv_free_def)
    have "length (sc_contexts s1) = sc_numCores s1" using sc_invD(1) [OF 1(2)] by (simp add: inv_ctx_def)
    then have "sc_schedule t c s1 = Some (sched_post t th c s1)"
      using 1 idle_ctx [OF 1(2) c] st' by (intro sc_schedule_post) simp_all
    then show ?thesis
      using 1 sched_post_inv [OF 1(2) _ 1(4) st 1(3)] by (simp add: sc_get_context_def)
  next
    case 2
    then show ?thesis using enqueue_inv [OF inv t st] t by (simp add: sc_get_context_def)
  qed
qed

end
