(* ===== verification/Sched_Steps.thy ===== *)
theory Sched_Steps
  imports Sched_Inv "HOL-Library.Multiset"
begin

text \<open>
  The operations of the scheduler keep its invariant and do not fail where their callers may call them.
\<close>

section \<open>Each operation\<close>

lemma give_inv:
  assumes inv: "sc_inv F H s" and c: "c \<in> F" and t: "t \<in> H" and th: "sc_gidMap s t = Some th"
    and q: "th_futexWord th = 1" "th_mask th ! c"
  shows "\<exists>s'. sc_give t c s = Some s' \<and> sc_inv (F - {c}) (H - {t}) s' \<and> (\<forall>u. u \<noteq> t \<longrightarrow> sc_gidMap s' u = sc_gidMap s u) \<and>
    sc_numCores s' = sc_numCores s"
proof -
  note I = sc_invD [OF inv]
  have st: "th_state th = QUEUED" using inv_run_not(2) [OF I(4) th] t by blast
  have ci: "c \<in> sc_idle s" using I(3) c by (auto simp: inv_free_def)
  have sch: "sc_schedule t c s = Some (sched_post t th c s)"
    using idle_ctx [OF inv ci] I(1) st th by (intro sc_schedule_post) (simp_all add: inv_ctx_def)
  let ?s = "sched_post t th c s"
  let ?th = "th\<lparr>th_state := RUNNING, th_cid := c\<rparr>"
  have inv1: "sc_inv (F - {c}) (H - {t}) ?s" using sched_post_inv [OF inv c th _ q(2)] st t by simp
  have g: "sc_gidMap ?s t = Some ?th" by simp
  have mk: "\<not> th_markedForSleep th" using I(7) th st by (auto simp: inv_futex_def)
  have "sc_inv (F - {c}) (H - {t}) (sc_set t (?th\<lparr>th_needsJoin := False, th_futexWord := 0\<rparr>) ?s)"
    by (rule tweak_inv [OF inv1 g]) (use mk in auto)
  then show ?thesis using sch g q by (simp add: sc_give_def sc_wakeup_def) (simp add: sc_set_def)
qed

lemma join_inv:
  assumes inv: "sc_inv {} {} s" and t: "sc_gidMap s t = Some th" and mk: "\<not> th_markedForSleep th"
    and st: "th_state th \<in> {STARTED, OUT, BLOCKED, SLEEPING}"
  shows "\<exists>s' nx. sc_join t s = Some (s', nx) \<and> sc_inv {} {} s'"
proof -
  note I = sc_invD [OF inv]
  consider (out) "th_state th = OUT" | (sleep) "th_state th = SLEEPING" | (other) "th_state th = STARTED \<or> th_state th = BLOCKED"
    using st by auto
  then show ?thesis
  proof cases
    case out
    then have "t \<in> set (sc_outQueue s)" using I(5) t by (auto simp: inv_out_def)
    then show ?thesis
      using out t mk rejoin_inv [OF inv t out] by (simp add: sc_join_def q_remove_def rejoin_post_def)
  next
    case sleep
    then have ts: "t \<in> set (sc_sleepQueue s)" using I(6) t by (auto simp: inv_sleep_def)
    let ?s = "unsleep_post t th (th_futexWord th) s"
    have e: "(sc_set t (th\<lparr>th_state := BLOCKED\<rparr>) s)\<lparr>sc_sleepQueue := remove1 t (sc_sleepQueue s)\<rparr> = ?s"
      by (simp add: unsleep_post_def)
    have "sc_inv {} {} ?s" by (rule unsleep_inv [OF inv t sleep]) simp_all
    moreover have "sc_gidMap ?s t = Some (th\<lparr>th_state := BLOCKED\<rparr>)" by (simp add: unsleep_post_def sc_set_def)
    ultimately have "\<exists>s' nx. sc_get_context t ?s = Some (s', nx) \<and> sc_inv {} ({} - {t}) s'"
      by (rule get_context_inv) simp
    then show ?thesis using sleep t mk ts e by (simp add: sc_join_def q_remove_def)
  next
    case other
    then have "\<exists>s' nx. sc_get_context t s = Some (s', nx) \<and> sc_inv {} ({} - {t}) s'"
      by (intro get_context_inv [OF inv t]) auto
    then show ?thesis using other t mk by (auto simp: sc_join_def)
  qed
qed

lemma sc_set_set [simp]: "sc_set t a (sc_set t b s) = sc_set t a s"
  by (simp add: sc_set_def)

lemma leave_inv:
  assumes inv: "sc_inv {} {} s" and t: "sc_gidMap s t = Some th" and st: "th_state th = RUNNING"
    and ho: "th_handoffThread th = None"
  shows "\<exists>s' nx. sc_leave t (th_cid th) s = Some (s', nx) \<and> sc_inv {} {} s' \<and>
    (\<exists>th'. sc_gidMap s' t = Some th' \<and> th_handoffThread th' = None \<and> th_cid th' = th_cid th \<and>
       (if th_markedForSleep th then th_state th' = SLEEPING else th_state th' \<in> {OUT, BLOCKED}))"
proof -
  note I = sc_invD [OF inv]
  let ?c = "th_cid th"
  have cn: "?c < sc_numCores s" "?c < length (sc_contexts s)" and cc: "sc_contexts s ! ?c = \<lparr>cx_state = USED, cx_curThread = Some t\<rparr>"
    using inv_thrD [OF I(2) t] I(1) st by (simp_all add: inv_ctx_def)
  note d = sc_leave_def cn cc t st
  show ?thesis
  proof (cases "th_markedForSleep th")
    case mk: True
    let ?th = "th\<lparr>th_markedForSleep := False\<rparr>"
    let ?u = "sc_set t ?th s"
    have e: "th_state ?th = th_state th" "th_cid ?th = th_cid th" "th_mask ?th = th_mask th" by simp_all
    have u: "sc_gidMap ?u t = Some ?th" by (simp add: sc_set_def)
    have "sc_deschedule t (th_cid ?th) SLEEPING ?u = Some (desched_post t ?th (th_cid ?th) SLEEPING ?u)"
      by (rule sc_deschedule_post [OF _ _ u]) (use I st tweak_core [OF t e] in simp_all)
    then have desch: "sc_deschedule t ?c SLEEPING ?u = Some (desched_post t ?th ?c SLEEPING ?u)" by simp
    let ?s1 = "desched_post t ?th ?c SLEEPING ?u"
    define s2 where "s2 = ?s1\<lparr>sc_sleepQueue := sleep_insert (sc_wakeupPhase ?s1) t (sc_sleepQueue ?s1), sc_sleepEvents := sc_sleepEvents ?s1 + 1\<rparr>"
    have inv2: "sc_inv {?c} {} s2" using desched_sleep [OF inv t mk] by (simp add: s2_def)
    have g2: "sc_gidMap s2 t = Some (?th\<lparr>th_state := SLEEPING\<rparr>)" by (simp add: s2_def)
    obtain s3 r where sc: "sc_schedContext ?c s2 = (s3, r)" by fastforce
    have lv: "sc_leave t ?c s = (case sc_schedContext ?c s2 of
         (s3, Some inTh) \<Rightarrow> map_option (\<lambda>s4. (s4, Done)) (sc_give inTh ?c s3)
       | (s3, None) \<Rightarrow> Some (s3\<lparr>sc_freeList := sc_freeList s3 @ [?c]\<rparr>, LeaveBarrier ?c))"
      using mk desch by (simp add: d s2_def Let_def)
    show ?thesis
    proof (cases r)
      case None
      then show ?thesis
        using schedContext_None [of ?c s2 s3] push_free [OF inv2] sc g2 mk ho lv by simp
    next
      case (Some v)
      note sv = schedContext_Some [OF sc [unfolded Some]]
      obtain vth where v: "sc_gidMap s2 v = Some vth" "th_state vth = QUEUED" "th_futexWord vth = 1"
        using take_inv(2) [OF inv2 sv(3)] by auto
      have "\<exists>s'. sc_give v ?c s3 = Some s' \<and> sc_inv ({?c} - {?c}) ({v} - {v}) s' \<and>
        (\<forall>u. u \<noteq> v \<longrightarrow> sc_gidMap s' u = sc_gidMap s3 u) \<and> sc_numCores s' = sc_numCores s3"
        by (rule give_inv) (use take_inv(1) [OF inv2 sv(3)] sv v in \<open>auto simp: sc_masked_def\<close>)
      moreover have "v \<noteq> t" using v g2 by auto
      ultimately show ?thesis using Some sc g2 mk ho sv(1) lv by auto
    qed
  next
    case mk: False
    obtain s1 r where sc: "sc_schedContext ?c s = (s1, r)" by fastforce
    show ?thesis
    proof (cases r)
      case None
      have n: "\<forall>u\<in>set (sc_runQueue s). \<not> sc_masked s u ?c" and s1: "s1 = s"
        using schedContext_None [of ?c s s1] sc None by auto
      show ?thesis
        using out_inv [OF inv t st mk ho n] sc None mk s1 ho by (simp add: d out_post_def) (simp add: sc_set_def)
    next
      case (Some v)
      note sv = schedContext_Some [OF sc [unfolded Some]]
      have inv1: "sc_inv {} {v} s1" using take_inv(1) [OF inv sv(3)] sv(1) by simp
      obtain vth where v: "sc_gidMap s1 v = Some vth" "th_state vth = QUEUED" "th_futexWord vth = 1"
        using take_inv(2) [OF inv sv(3)] sv(1) by auto
      have t1: "sc_gidMap s1 t = Some th" using t sv(1) by simp
      have desch: "sc_deschedule t ?c BLOCKED s1 = Some (desched_post t th ?c BLOCKED s1)"
        by (rule sc_deschedule_post) (use sc_invD [OF inv1] t1 st in simp_all)
      let ?s2 = "desched_post t th ?c BLOCKED s1"
      have "v \<noteq> t" using v t1 st by auto
      moreover have "\<exists>s'. sc_give v ?c ?s2 = Some s' \<and> sc_inv ({?c} - {?c}) ({v} - {v}) s' \<and>
        (\<forall>u. u \<noteq> v \<longrightarrow> sc_gidMap s' u = sc_gidMap ?s2 u) \<and> sc_numCores s' = sc_numCores ?s2"
        by (rule give_inv)
           (use desched_blocked(1) [OF inv1 t1 st mk ho] sv v \<open>v \<noteq> t\<close> in \<open>auto simp: sc_masked_def\<close>)
      ultimately show ?thesis using Some sc mk ho desch by (auto simp: d)
    qed
  qed
qed

lemma sync_inv:
  assumes inv: "sc_inv {} {} s" and t: "sc_gidMap s t = Some th" and st: "th_state th = RUNNING" and mk: "\<not> th_markedForSleep th"
  shows "\<exists>s' nx. sc_sync t (th_cid th) s = Some (s', nx) \<and> sc_inv {} {} s'"
proof -
  note I = sc_invD [OF inv]
  let ?c = "th_cid th"
  have cc: "sc_contexts s ! ?c = \<lparr>cx_state = USED, cx_curThread = Some t\<rparr>" "?c < length (sc_contexts s)"
    using inv_thrD [OF I(2) t] I(1) st by (simp_all add: inv_ctx_def)
  note d = sc_sync_def cc t st mk
  show ?thesis
  proof (cases "th_handoffThread th")
    case None
    then show ?thesis using inv by (simp add: d)
  next
    case (Some v)
    let ?th = "th\<lparr>th_handoffThread := None\<rparr>"
    let ?u = "sc_set t ?th s"
    obtain vth where v: "sc_gidMap s v = Some vth" "th_state vth = QUEUED" "th_futexWord vth = 1" "th_mask vth ! ?c" and vt: "v \<noteq> t"
      using clear_inv(2,3) [OF inv t Some] by auto
    have inv1: "sc_inv {} {v} ?u" using clear_inv(1) [OF inv t Some] by simp
    have g1: "sc_gidMap ?u t = Some ?th" by (simp add: sc_set_def)
    have "sc_deschedule t (th_cid ?th) QUEUED ?u = Some (desched_post t ?th (th_cid ?th) QUEUED ?u)"
      by (rule sc_deschedule_post) (use sc_invD [OF inv1] g1 st in simp_all)
    then have desch: "sc_deschedule t ?c QUEUED ?u = Some (desched_post t ?th ?c QUEUED ?u)" by simp
    let ?s1 = "desched_post t ?th ?c QUEUED ?u"
    have inv2: "sc_inv {?c} {t, v} ?s1" using desched_blocked(2) [OF inv1 g1] st mk by simp
    have "sc_gidMap ?s1 v = Some vth" using v vt by (simp add: sc_set_def)
    then obtain s2 where s2: "sc_give v ?c ?s1 = Some s2" "sc_inv {} {t} s2" "sc_gidMap s2 t = sc_gidMap ?s1 t"
      using give_inv [OF inv2, of ?c v vth] v vt by (auto simp: insert_Diff_if)
    let ?s3 = "s2\<lparr>sc_handoffEvents := sc_handoffEvents s2 + 1\<rparr>"
    have "\<exists>s' nx. sc_get_context t ?s3 = Some (s', nx) \<and> sc_inv {} ({t} - {t}) s'"
      by (rule get_context_inv [of _ _ _ "?th\<lparr>th_state := QUEUED\<rparr>"]) (use s2 in simp_all)
    then show ?thesis using Some desch s2 by (simp add: d)
  qed
qed

lemma mark_inv:
  assumes inv: "sc_inv {} {} s" and t: "sc_gidMap s t = Some th" and st: "th_state th = RUNNING" and mk: "\<not> th_markedForSleep th"
    and ho: "th_handoffThread th = None" and w: "sc_curPhase s < w"
  shows "\<exists>s'. sc_markForSleep t w s = Some s' \<and> sc_inv {} {} s'"
  using t mk tweak_inv [OF inv t, of "th\<lparr>th_markedForSleep := True, th_wakeupPhase := w, th_futexWord := 1\<rparr>"] st ho w
  by (simp add: sc_markForSleep_def)

lemma notify_inv:
  assumes inv: "sc_inv {} {} s" and t: "sc_gidMap s t = Some th" and st: "th_state th = SLEEPING \<or> th_state th = BLOCKED"
  shows "\<exists>s'. sc_notifySleepEnd t s = Some s' \<and> sc_inv {} {} s'"
proof -
  note I = sc_invD [OF inv]
  have mk: "\<not> th_markedForSleep th" using I(7) t st by (auto simp: inv_futex_def)
  show ?thesis
  proof (cases "th_state th = SLEEPING")
    case sl: True
    then have "t \<in> set (sc_sleepQueue s)" using I(6) t by (auto simp: inv_sleep_def)
    moreover have "sc_inv {} {} (unsleep_post t th (th_futexWord th) s)" by (rule unsleep_inv [OF inv t sl]) simp_all
    ultimately show ?thesis using t mk sl by (simp add: sc_notifySleepEnd_def q_remove_def unsleep_post_def)
  next
    case False
    then show ?thesis using inv t mk st by (simp add: sc_notifySleepEnd_def)
  qed
qed

lemma start_op_inv:
  assumes inv: "sc_inv {} {} s" and t: "sc_gidMap s t = None" and m: "length msk = sc_numCores s" "True \<in> set msk"
  shows "\<exists>s'. sc_start t msk s = Some s' \<and> sc_inv {} {} s'"
proof -
  obtain th where th: "thread_new (sc_numCores s) msk = Some th" using m by (simp add: thread_new_def)
  then show ?thesis using start_inv [OF inv t th] t by (simp add: sc_start_def)
qed

text \<open>A thread that is neither sleeping nor in the middle of a handoff may finish.\<close>

lemma finish_inv:
  assumes inv: "sc_inv {} {} s" and t: "sc_gidMap s t = Some th"
    and st: "th_state th \<noteq> SLEEPING" "\<not> th_markedForSleep th" "th_handoffThread th = None" "\<And>u. sc_handoff s u \<noteq> Some t"
  shows "\<exists>s'. sc_finish t s = Some s' \<and> sc_inv {} {} s'"
proof -
  have "\<exists>s1 th1. (if th_state th = RUNNING then map_option fst (sc_leave t (th_cid th) s) else Some s) = Some s1 \<and>
    sc_inv {} {} s1 \<and> sc_gidMap s1 t = Some th1 \<and> th_state th1 \<in> {STARTED, OUT, BLOCKED, QUEUED} \<and> (\<forall>u. sc_handoff s1 u \<noteq> Some t)"
  proof (cases "th_state th = RUNNING")
    case True
    obtain s1 nx th1 where s1: "sc_leave t (th_cid th) s = Some (s1, nx)" "sc_inv {} {} s1" "sc_gidMap s1 t = Some th1"
      "th_state th1 \<in> {OUT, BLOCKED}"
      using leave_inv [OF inv t True st(3)] st(2) by auto
    then have "\<forall>u. sc_handoff s1 u \<noteq> Some t" using handoff_target [OF sc_invD(10) [OF s1(2)] s1(3)] by auto
    then show ?thesis using s1 True by auto
  next
    case False
    then show ?thesis using inv t st by (cases "th_state th") auto
  qed
  then obtain s1 th1 where s1: "(if th_state th = RUNNING then map_option fst (sc_leave t (th_cid th) s) else Some s) = Some s1"
    "sc_inv {} {} s1" "sc_gidMap s1 t = Some th1" "th_state th1 \<in> {STARTED, OUT, BLOCKED, QUEUED}" "\<forall>u. sc_handoff s1 u \<noteq> Some t"
    by blast
  note I = sc_invD [OF s1(2)]
  consider (q) "th_state th1 = QUEUED" | (out) "th_state th1 = OUT" | (other) "th_state th1 = STARTED \<or> th_state th1 = BLOCKED"
    using s1(4) by auto
  then show ?thesis
  proof cases
    case q
    then have tq: "t \<in> set (sc_runQueue s1)"
      using I(10) s1(3,5) sc_proj_at(3) [OF s1(3)] unfolding inv_hand_def by auto
    let ?s = "s1\<lparr>sc_runQueue := remove1 t (sc_runQueue s1)\<rparr>"
    have "sc_inv {} ({t} - {t}) (erase_post t ?s)"
      by (rule erase_inv [OF take_inv(1) [OF s1(2) tq], of t th1]) (use s1(3) q in auto)
    then show ?thesis using s1 t q tq by (simp add: sc_finish_def q_remove_def erase_post_def)
  next
    case out
    then have tq: "t \<in> set (sc_outQueue s1)" using I(5) s1(3) by (auto simp: inv_out_def)
    let ?u = "s1\<lparr>sc_outQueue := remove1 t (sc_outQueue s1)\<rparr>" and ?c = "th_cid th1"
    have de: "sc_deschedule t ?c BLOCKED ?u = Some (desched_post t th1 ?c BLOCKED ?u)"
      by (rule sc_deschedule_post) (use I s1(3) out in simp_all)
    let ?v = "desched_post t th1 ?c BLOCKED ?u"
    have inv1: "sc_inv {?c} {} ?v" using desched_out [OF s1(2,3) out] by simp
    have "\<not> cx_running s1 ?c"
      using inv_thrD(3) [OF I(2) s1(3)] s1(3) out by (auto simp: cx_running_def)
    then have n: "\<forall>u \<in> set (sc_runQueue s1). \<not> sc_masked s1 u ?c"
      using I(9) inv_thrD(1) [OF I(2) s1(3)] by (auto simp: inv_mask_def)
    have m: "sc_masked ?v = sc_masked s1" using desched_proj(2) [of ?u t th1] s1(3) by simp
    have "sc_inv {} {} (?v\<lparr>sc_freeList := sc_freeList ?v @ [?c]\<rparr>)"
      using push_free [OF inv1, of ?c] n m by simp
    from erase_inv [OF this, of t "th1\<lparr>th_state := BLOCKED\<rparr>"]
    have "sc_inv {} {} (erase_post t (?v\<lparr>sc_freeList := sc_freeList ?v @ [?c]\<rparr>))" by simp
    then show ?thesis using s1 t out tq de by (simp add: sc_finish_def q_remove_def erase_post_def sc_owned_def)
  next
    case other
    then have "\<not> sc_owned t s1"
      using inv_run_not(1) [OF I(4) s1(3)] I(5,6) s1(3) by (auto simp: sc_owned_def inv_out_def inv_sleep_def)
    moreover have "sc_inv {} {} (erase_post t s1)" using erase_inv [OF s1(2,3)] other by auto
    ultimately show ?thesis using s1 t other by (auto simp: sc_finish_def erase_post_def)
  qed
qed

section \<open>The end of a phase\<close>

text \<open>Threads that run are not touched by waking the sleepers.\<close>

lemma wakeSleepers_inv:
  assumes "sc_inv {} {} (s\<lparr>sc_curPhase := p\<rparr>)" and "sc_curPhase s = Suc p" and "sc_sleepQueue s = q"
    and "\<And>u th. sc_gidMap s u = Some th \<Longrightarrow> \<not> th_markedForSleep th"
  shows "\<exists>s'. sc_wakeSleepers q s = Some s' \<and> sc_inv {} {} s' \<and> (\<forall>u th. sc_gidMap s' u = Some th \<longrightarrow> th_state th = RUNNING \<longrightarrow> sc_gidMap s u = Some th)"
  using assms
proof (induction q arbitrary: s)
  case Nil
  note I = sc_invD [OF Nil.prems(1)]
  have "sc_inv {} {} s"
    unfolding sc_inv_def
    using I Nil.prems by (auto simp: inv_defs inv_cnt_def)
  then show ?case by simp
next
  case (Cons t q)
  let ?s0 = "s\<lparr>sc_curPhase := p\<rparr>"
  note I = sc_invD [OF Cons.prems(1)]
  have "t \<in> set (sc_sleepQueue ?s0)" using Cons.prems(3) by simp
  then obtain th where th: "sc_gidMap s t = Some th" "th_state th = SLEEPING" using I(6) by (auto simp: inv_sleep_def)
  have w: "sc_wakeupPhase s t = th_wakeupPhase th" by (simp add: sc_wakeupPhase_def th)
  have wk: "p < th_wakeupPhase th" using I(6) Cons.prems(3) by (simp add: inv_sleep_def w)
  have fx: "th_futexWord th = 1" using I(7) th by (auto simp: inv_futex_def)
  show ?case
  proof (cases "th_wakeupPhase th \<le> Suc p")
    case True
    let ?th = "th\<lparr>th_state := BLOCKED, th_needsJoin := False, th_futexWord := 0\<rparr>"
    let ?n = "(sc_set t ?th s)\<lparr>sc_sleepQueue := q\<rparr>"
    have "unsleep_post t (th\<lparr>th_needsJoin := False\<rparr>) 0 ?s0 = ?n\<lparr>sc_curPhase := p\<rparr>"
      using Cons.prems(3) by (cases s; cases th) (simp add: unsleep_post_def sc_set_def)
    moreover have "sc_inv {} {} (unsleep_post t (th\<lparr>th_needsJoin := False\<rparr>) 0 ?s0)"
      by (rule unsleep_inv [OF Cons.prems(1), of t th]) (use th in simp_all)
    ultimately have inv: "sc_inv {} {} (?n\<lparr>sc_curPhase := p\<rparr>)" by simp
    have "\<exists>s'. sc_wakeSleepers q ?n = Some s' \<and> sc_inv {} {} s' \<and>
      (\<forall>u th. sc_gidMap s' u = Some th \<longrightarrow> th_state th = RUNNING \<longrightarrow> sc_gidMap ?n u = Some th)"
      by (rule Cons.IH [OF inv]) (use Cons.prems(2,4) th in \<open>auto simp: sc_set_def split: if_splits\<close>)
    then obtain s' where s': "sc_wakeSleepers q ?n = Some s'" "sc_inv {} {} s'"
      "\<forall>u th. sc_gidMap s' u = Some th \<longrightarrow> th_state th = RUNNING \<longrightarrow> sc_gidMap ?n u = Some th" by blast
    have "sc_gidMap s u = Some uth" if "sc_gidMap s' u = Some uth" "th_state uth = RUNNING" for u uth
    proof -
      have "sc_gidMap ?n u = Some uth" using s'(3) that by blast
      then show ?thesis using that(2) by (cases "u = t") (auto simp: sc_set_def)
    qed
    moreover have "sc_wakeSleepers (t # q) s = sc_wakeSleepers q ?n"
      using True wk th fx Cons.prems(2) by (simp add: sc_wakeup_def) (simp add: sc_set_def)
    ultimately show ?thesis using s' by auto
  next
    case False
    have so: "\<forall>x\<in>set q. th_wakeupPhase th \<le> sc_wakeupPhase s x"
      using I(6) Cons.prems(3) w by (simp add: inv_sleep_def)
    have "Suc p < sc_wakeupPhase s u" if u: "u \<in> set (t # q)" for u
      using so u w False by fastforce
    then have "sc_inv {} {} s"
      unfolding sc_inv_def
      using I Cons.prems by (auto simp: inv_defs inv_cnt_def)
    then show ?thesis using False th Cons.prems(2) by simp
  qed
qed

text \<open>What the code relies on from its random number generator.\<close>

definition rand_ok :: "('r \<Rightarrow> nat \<Rightarrow> (nat \<times> 'r) option) \<Rightarrow> bool" where
  "rand_ok rand \<longleftrightarrow> (\<forall>r n. case rand r n of None \<Rightarrow> False | Some (j, r') \<Rightarrow> j \<le> n)"

lemma shuffle_perm:
  assumes "rand_ok rand" and "i < length xs \<or> i = 0"
  shows "\<exists>ys r'. sc_shuffle rand i xs r = Some (ys, r') \<and> mset ys = mset xs"
  using assms(2)
proof (induction i arbitrary: xs r)
  case (Suc i)
  obtain j r1 where j: "rand r (Suc i) = Some (j, r1)" "j \<le> Suc i"
    using assms(1) unfolding rand_ok_def by (metis (no_types, lifting) case_prodE option.case_eq_if option.collapse)
  let ?xs = "xs[Suc i := xs ! j, j := xs ! Suc i]"
  have m: "mset ?xs = mset xs" using j Suc.prems by (intro mset_swap) auto
  obtain ys r' where "sc_shuffle rand i ?xs r1 = Some (ys, r')" "mset ys = mset ?xs"
    using Suc.IH [of ?xs r1] Suc.prems by auto
  then show ?case using j m by simp
qed simp

lemma handoffs_inv:
  assumes "sc_inv {} {} s" and "set q \<subseteq> set (sc_runQueue s)" and "distinct q" and "distinct avail"
    and "\<And>c. c \<in> set avail \<Longrightarrow> c < sc_numCores s"
    and "\<And>u th. sc_gidMap s u = Some th \<Longrightarrow> th_state th = RUNNING \<Longrightarrow> th_cid th \<in> set avail \<Longrightarrow>
           th_handoffThread th = None \<and> \<not> th_markedForSleep th"
  shows "\<exists>s'. sc_handoffs q avail s = Some s' \<and> sc_inv {} {} s'"
  using assms
proof (induction q arbitrary: s avail)
  case (Cons t q)
  note I = sc_invD [OF Cons.prems(1)]
  show ?case
  proof (cases "List.find (\<lambda>c. sc_masked s t c) avail")
    case None
    have "\<exists>s'. sc_handoffs q avail s = Some s' \<and> sc_inv {} {} s'"
      by (rule Cons.IH) (use Cons.prems in auto)
    then show ?thesis using None by simp
  next
    case (Some c)
    then have c: "c \<in> set avail" "sc_masked s t c" by (auto dest: find_Some_in)
    have tq: "t \<in> set (sc_runQueue s)" and cn: "c < sc_numCores s" using Cons.prems(2,5) c by auto
    have "cx_running s c" using I(9) tq c cn by (auto simp: inv_mask_def)
    then obtain u uth where u: "cx_curThread (sc_contexts s ! c) = Some u" "sc_gidMap s u = Some uth" "th_state uth = RUNNING"
      by (auto simp: cx_running_def)
    then have uc: "th_cid uth = c" using inv_ctxD [OF I(1) cn] by (auto simp: ctx_ok_def)
    have uf: "th_handoffThread uth = None" "\<not> th_markedForSleep uth" using Cons.prems(6) [OF u(2,3)] uc c by auto
    let ?s = "(sc_set u (uth\<lparr>th_handoffThread := Some t\<rparr>) s)\<lparr>sc_runQueue := remove1 t (sc_runQueue s)\<rparr>"
    have "\<exists>s'. sc_handoffs q (remove1 c avail) ?s = Some s' \<and> sc_inv {} {} s'"
    proof (rule Cons.IH)
      show "sc_inv {} {} ?s" by (rule assign_inv [OF Cons.prems(1) u(2,3) uf(2,1) tq]) (use uc c in simp)
      show "set q \<subseteq> set (sc_runQueue ?s)" using Cons.prems(2,3) I(4) by (auto simp: inv_run_def set_remove1_eq)
      show "th_handoffThread vth = None \<and> \<not> th_markedForSleep vth"
        if "sc_gidMap ?s v = Some vth" "th_state vth = RUNNING" "th_cid vth \<in> set (remove1 c avail)" for v vth
        using that Cons.prems(4,6) uc by (auto simp: sc_set_def split: if_splits)
    qed (use Cons.prems in \<open>auto simp: sc_set_def dest: notin_set_remove1\<close>)
    then show ?thesis using Some u by simp
  qed
qed simp

text \<open>At the end of a phase every running thread is inside \<open>sync\<close>: it is not marked for sleep and has
  completed the handoff of the phase before.\<close>

definition sc_allInSync :: "'r sched \<Rightarrow> bool" where
  "sc_allInSync s \<longleftrightarrow> list_all (\<lambda>cx. case cx_curThread cx of None \<Rightarrow> True | Some u \<Rightarrow>
     \<not> sc_marked s u \<and> sc_handoff s u = None) (sc_contexts s)"

lemma allInSyncD:
  assumes inv: "sc_inv {} {} s" and sy: "sc_allInSync s" and t: "sc_gidMap s t = Some th"
  shows "\<not> th_markedForSleep th" "th_handoffThread th = None"
proof -
  note I = sc_invD [OF inv] and A = sc_proj_at [OF t]
  have "\<not> th_markedForSleep th \<and> th_handoffThread th = None"
  proof (cases "th_state th = RUNNING")
    case True
    then have c: "sc_contexts s ! th_cid th = \<lparr>cx_state = USED, cx_curThread = Some t\<rparr>" "th_cid th < length (sc_contexts s)"
      using inv_thrD [OF I(2) t] I(1) by (simp_all add: inv_ctx_def)
    then show ?thesis using sy A unfolding sc_allInSync_def list_all_length by fastforce
  next
    case False
    then show ?thesis using handoff_source [OF I(10) t] I(7) t by (auto simp: inv_futex_def)
  qed
  then show "\<not> th_markedForSleep th" "th_handoffThread th = None" by auto
qed

lemma callback_inv:
  assumes inv: "sc_inv {} {} s" and sy: "sc_allInSync s" "sc_schedQuantum s \<noteq> 0" and rd: "rand_ok rand"
  shows "\<exists>s'. sc_callback rand s = Some s' \<and> sc_inv {} {} s'"
proof -
  note I = sc_invD [OF inv]
  have "sc_used s \<subseteq> {..<sc_numCores s}" by (auto simp: sc_used_def)
  then have "card (sc_used s) \<le> sc_numCores s" using card_mono [of "{..<sc_numCores s}" "sc_used s"] by simp
  then have le: "sc_scheduledThreads s \<le> sc_numCores s" using I(8) by (simp add: inv_cnt_def)
  let ?s1 = "s\<lparr>sc_curPhase := sc_curPhase s + 1\<rparr>"
  have e: "?s1\<lparr>sc_curPhase := sc_curPhase s\<rparr> = s" by simp
  obtain s2 where s2: "sc_wakeSleepers (sc_sleepQueue ?s1) ?s1 = Some s2" "sc_inv {} {} s2"
    "\<forall>u th. sc_gidMap s2 u = Some th \<longrightarrow> th_state th = RUNNING \<longrightarrow> sc_gidMap ?s1 u = Some th"
    using wakeSleepers_inv [where s = ?s1 and p = "sc_curPhase s"] e inv allInSyncD [OF inv sy(1)] by auto
  note I2 = sc_invD [OF s2(2)]
  have "\<exists>s'. sc_schedTick rand s2 = Some s' \<and> sc_inv {} {} s'"
  proof -
    have "sc_numCores s2 - 1 < length [0..<sc_numCores s2] \<or> sc_numCores s2 - 1 = 0" by auto
    then obtain av r' where av: "sc_shuffle rand (sc_numCores s2 - 1) [0..<sc_numCores s2] (sc_rnd s2) = Some (av, r')"
      "mset av = mset [0..<sc_numCores s2]"
      using shuffle_perm [OF rd] by blast
    have a: "distinct av" "set av = {0..<sc_numCores s2}"
      using mset_eq_imp_distinct_iff [OF av(2)] mset_eq_setD [OF av(2)] by simp_all
    have run: "th_handoffThread th = None \<and> \<not> th_markedForSleep th"
      if "sc_gidMap s2 u = Some th" "th_state th = RUNNING" for u th
    proof -
      have "sc_gidMap s u = Some th" using s2(3) that by auto
      then show ?thesis using allInSyncD [OF inv sy(1)] by auto
    qed
    have "\<exists>s'. sc_handoffs (sc_runQueue s2) av (s2\<lparr>sc_rnd := r'\<rparr>) = Some s' \<and> sc_inv {} {} s'"
      by (rule handoffs_inv)
         (use s2(2) a I2(4) run in \<open>auto simp: inv_run_def\<close>)
    then show ?thesis using av by (simp add: sc_schedTick_def)
  qed
  then show ?thesis using s2 le sy(2) by (auto simp: sc_callback_def Let_def)
qed

section \<open>Sequences of operations\<close>

text \<open>
  The calls that threads and the barrier make, with what the callers guarantee (\<open>sc_may\<close>): a thread joins
  when it is not running, leaves, syncs and marks itself only while it runs, completes a handoff before it
  does anything else, wakes in a later phase than the current one, and does not finish while it sleeps or
  is being handed a context. The callback runs when every running thread is inside \<open>sync\<close>, and divides by
  the quantum, which nothing checks (\<open>quantum_zero_traps\<close>): it must not be configured as 0.
\<close>

datatype sc_event = EStart nat "bool list" | EJoin nat | ELeave nat | ESync nat | EMark nat nat | ENotify nat | EFinish nat | EPhase

definition sc_run_ok :: "'r sched \<Rightarrow> nat \<Rightarrow> bool" where
  "sc_run_ok s t \<longleftrightarrow> sc_st s t = Some RUNNING \<and> sc_handoff s t = None"

text \<open>Some running thread has been told to hand its context to \<open>t\<close>.\<close>

definition sc_targeted :: "'r sched \<Rightarrow> nat \<Rightarrow> bool" where
  "sc_targeted s t \<longleftrightarrow> list_ex (\<lambda>cx. case cx_curThread cx of None \<Rightarrow> False | Some u \<Rightarrow> sc_handoff s u = Some t) (sc_contexts s)"

fun sc_may :: "sc_event \<Rightarrow> 'r sched \<Rightarrow> bool" where
  "sc_may (EStart t msk) s \<longleftrightarrow> sc_gidMap s t = None \<and> length msk = sc_numCores s \<and> True \<in> set msk"
| "sc_may (EJoin t) s \<longleftrightarrow> sc_st s t = Some STARTED \<or> sc_st s t = Some OUT \<or> sc_st s t = Some BLOCKED \<or> sc_st s t = Some SLEEPING"
| "sc_may (ELeave t) s \<longleftrightarrow> sc_run_ok s t"
| "sc_may (ESync t) s \<longleftrightarrow> sc_st s t = Some RUNNING \<and> \<not> sc_marked s t"
| "sc_may (EMark t w) s \<longleftrightarrow> sc_run_ok s t \<and> \<not> sc_marked s t \<and> sc_curPhase s < w"
| "sc_may (ENotify t) s \<longleftrightarrow> sc_st s t = Some SLEEPING \<or> sc_st s t = Some BLOCKED"
| "sc_may (EFinish t) s \<longleftrightarrow> sc_gidMap s t \<noteq> None \<and> sc_st s t \<noteq> Some SLEEPING \<and> \<not> sc_marked s t \<and> sc_handoff s t = None \<and> \<not> sc_targeted s t"
| "sc_may EPhase s \<longleftrightarrow> sc_allInSync s \<and> sc_schedQuantum s \<noteq> 0"

fun sc_step :: "('r \<Rightarrow> nat \<Rightarrow> (nat \<times> 'r) option) \<Rightarrow> sc_event \<Rightarrow> 'r sched \<Rightarrow> 'r sched option" where
  "sc_step rand (EStart t msk) s = sc_start t msk s"
| "sc_step rand (EJoin t) s = map_option fst (sc_join t s)"
| "sc_step rand (ELeave t) s = map_option fst (sc_leave t (sc_cid s t) s)"
| "sc_step rand (ESync t) s = map_option fst (sc_sync t (sc_cid s t) s)"
| "sc_step rand (EMark t w) s = sc_markForSleep t w s"
| "sc_step rand (ENotify t) s = sc_notifySleepEnd t s"
| "sc_step rand (EFinish t) s = sc_finish t s"
| "sc_step rand EPhase s = sc_callback rand s"

fun sc_run :: "('r \<Rightarrow> nat \<Rightarrow> (nat \<times> 'r) option) \<Rightarrow> sc_event list \<Rightarrow> 'r sched \<Rightarrow> 'r sched option" where
  "sc_run rand [] s = Some s"
| "sc_run rand (e # es) s = (if sc_may e s then Option.bind (sc_step rand e s) (sc_run rand es) else None)"

lemma targetedI:
  assumes inv: "sc_inv {} {} s" and h: "sc_handoff s u = Some t"
  shows "sc_targeted s t"
proof -
  note I = sc_invD [OF inv]
  obtain uth where u: "sc_gidMap s u = Some uth" using h by (auto simp: sc_handoff_def Option.bind_eq_Some_conv)
  have "sc_st s u = Some RUNNING" using I(10) h unfolding inv_hand_def by blast
  then have "th_state uth = RUNNING" using u by (simp add: sc_st_def)
  then have "sc_contexts s ! th_cid uth = \<lparr>cx_state = USED, cx_curThread = Some u\<rparr>" "th_cid uth < length (sc_contexts s)"
    using inv_thrD [OF I(2) u] I(1) by (simp_all add: inv_ctx_def)
  then show ?thesis using h unfolding sc_targeted_def list_ex_length by fastforce
qed

lemma step_inv:
  assumes inv: "sc_inv {} {} s" and rd: "rand_ok rand" and may: "sc_may e s"
  shows "\<exists>s'. sc_step rand e s = Some s' \<and> sc_inv {} {} s'"
proof -
  note I = sc_invD [OF inv]
  have nm: "\<not> th_markedForSleep th" if "sc_gidMap s t = Some th" "th_state th \<noteq> RUNNING" for t th
    using I(7) that by (auto simp: inv_futex_def)
  note pr = sc_st_def sc_marked_def sc_handoff_def sc_cid_def
  show ?thesis
  proof (cases e)
    case (EStart t msk)
    then show ?thesis using start_op_inv [OF inv, of t msk] may by simp
  next
    case (EJoin t)
    then obtain th where th: "sc_gidMap s t = Some th" "th_state th \<in> {STARTED, OUT, BLOCKED, SLEEPING}"
      using may by (auto simp: sc_st_def)
    then show ?thesis using join_inv [OF inv th(1) _ th(2)] nm [OF th(1)] EJoin by fastforce
  next
    case (ELeave t)
    then obtain th where th: "sc_gidMap s t = Some th" "th_state th = RUNNING" "th_handoffThread th = None"
      using may by (auto simp: sc_run_ok_def sc_st_def sc_handoff_def)
    then show ?thesis using leave_inv [OF inv th] ELeave by (fastforce simp: sc_cid_def)
  next
    case (ESync t)
    then obtain th where th: "sc_gidMap s t = Some th" "th_state th = RUNNING" "\<not> th_markedForSleep th"
      using may by (auto simp: sc_st_def sc_marked_def)
    then show ?thesis using sync_inv [OF inv th] ESync by (fastforce simp: sc_cid_def)
  next
    case (EMark t w)
    then obtain th where "sc_gidMap s t = Some th" "th_state th = RUNNING" "\<not> th_markedForSleep th" "th_handoffThread th = None"
      using may by (auto simp: sc_run_ok_def pr)
    then show ?thesis using mark_inv [OF inv, of t th w] EMark may by simp
  next
    case (ENotify t)
    then obtain th where "sc_gidMap s t = Some th" "th_state th = SLEEPING \<or> th_state th = BLOCKED"
      using may by (auto simp: sc_st_def)
    then show ?thesis using notify_inv [OF inv] ENotify by simp
  next
    case (EFinish t)
    then obtain th where "sc_gidMap s t = Some th" "th_state th \<noteq> SLEEPING" "\<not> th_markedForSleep th" "th_handoffThread th = None"
      using may by (auto simp: sc_st_def sc_marked_def sc_handoff_def)
    moreover have "sc_handoff s u \<noteq> Some t" for u using may targetedI [OF inv, of u t] EFinish by auto
    ultimately show ?thesis using finish_inv [OF inv] EFinish by simp
  next
    case EPhase
    then show ?thesis using callback_inv [OF inv _ _ rd] may by simp
  qed
qed

lemma run_inv:
  assumes "rand_ok rand" and "sc_inv {} {} s" and "sc_run rand es s = Some s'"
  shows "sc_inv {} {} s'"
  using assms(2,3)
proof (induction es arbitrary: s)
  case (Cons e es)
  then obtain s1 where s1: "sc_may e s" "sc_step rand e s = Some s1" "sc_run rand es s1 = Some s'"
    by (auto simp: Option.bind_eq_Some_conv split: if_splits)
  then have "sc_inv {} {} s1" using step_inv [OF Cons.prems(1) assms(1) s1(1)] by auto
  then show ?case by (rule Cons.IH [OF _ s1(3)])
qed simp

text \<open>C34. Well-formedness of the scheduler. In every state that the threads' and the barrier's calls can
  reach, the scheduler's data structures agree: a context is used exactly by the thread that says so and on
  a core of its mask, the free list holds exactly the idle contexts, each queue holds exactly the threads in
  its state, sleepers are ordered by wakeup phase, and the count of scheduled threads is exact. No assertion
  or panic of the next permitted operation fails, whatever the random numbers of the time slice are.\<close>

theorem sched_wellformed:
  assumes "rand_ok rand" and "sc_run rand es (sc_new numCores quantum r) = Some s"
  shows "sc_inv {} {} s \<and> (sc_may e s \<longrightarrow> sc_step rand e s \<noteq> None)"
  using run_inv [OF assms(1) sc_inv_new assms(2)] step_inv [OF _ assms(1)] by fastforce

text \<open>The trace of the witnesses: three threads on two cores, so that the third is queued.\<close>

definition demo_rand :: "nat \<Rightarrow> nat \<Rightarrow> (nat \<times> nat) option" where
  "demo_rand r n = Some (r mod (n + 1), r + 1)"

definition demo_trace :: "sc_event list" where
  "demo_trace = [EStart 1 [True, True], EStart 2 [True, True], EStart 3 [False, True],
     EJoin 1, EJoin 2, EJoin 3]"

lemma demo_rand_ok: "rand_ok demo_rand"
  by (simp add: rand_ok_def demo_rand_def)

lemma demo_runs:
  "case sc_run demo_rand demo_trace (sc_new 2 1 0) of None \<Rightarrow> False | Some s \<Rightarrow> sc_st s 3 = Some QUEUED \<and> sc_may EPhase s"
  by code_simp

lemma sched_wellformed_witness:
  "\<exists>s. sc_run demo_rand demo_trace (sc_new 2 1 0) = Some s \<and> sc_inv {} {} s \<and> sc_step demo_rand EPhase s \<noteq> None"
  using sched_wellformed [OF demo_rand_ok, of demo_trace 2 1 0 _ EPhase] demo_runs by (fastforce split: option.splits)

text \<open>C35. The scheduler is work-conserving and loses no thread: whenever a thread is queued, either it is
  on the run queue and every core of its mask runs some thread, or exactly one running thread, on a core
  of its mask, has been told to hand over its context to it.\<close>

theorem sched_work_conserving:
  assumes "rand_ok rand" and "sc_run rand es (sc_new numCores quantum r) = Some s" and "sc_st s t = Some QUEUED"
  shows "t \<in> set (sc_runQueue s) \<and> (\<forall>c < sc_numCores s. sc_masked s t c \<longrightarrow> cx_running s c) \<or>
    (\<exists>!u. sc_handoff s u = Some t) \<and> (\<forall>u. sc_handoff s u = Some t \<longrightarrow> sc_st s u = Some RUNNING \<and> sc_masked s t (sc_cid s u))"
proof -
  note I = sc_invD [OF run_inv [OF assms(1) sc_inv_new assms(2)]]
  show ?thesis using I(9,10) assms(3) unfolding inv_mask_def inv_hand_def by blast
qed

lemma sched_work_conserving_witness:
  "\<exists>s. sc_run demo_rand demo_trace (sc_new 2 1 0) = Some s \<and> sc_st s 3 = Some QUEUED \<and>
     (3 \<in> set (sc_runQueue s) \<and> (\<forall>c < sc_numCores s. sc_masked s 3 c \<longrightarrow> cx_running s c) \<or>
      (\<exists>!u. sc_handoff s u = Some 3) \<and> (\<forall>u. sc_handoff s u = Some 3 \<longrightarrow> sc_st s u = Some RUNNING \<and> sc_masked s 3 (sc_cid s u)))"
proof -
  obtain s where s: "sc_run demo_rand demo_trace (sc_new 2 1 0) = Some s" "sc_st s 3 = Some QUEUED"
    using demo_runs by (auto split: option.splits)
  show ?thesis using s sched_work_conserving [OF demo_rand_ok s] by blast
qed

text \<open>With a quantum of 0 the same trace leads to a division by zero at the end of the phase.\<close>

lemma quantum_zero_traps:
  "case sc_run demo_rand demo_trace (sc_new 2 0 0) of None \<Rightarrow> False | Some s \<Rightarrow> sc_allInSync s \<and> sc_callback demo_rand s = None"
  by code_simp

text \<open>A queued thread that is being handed a context is on no list, although it is queued: if its process
  is cleaned up before the handoff completes, \<open>finish\<close> fails its assertion on the owner.\<close>

lemma finish_during_handoff_fails:
  assumes inv: "sc_inv {} {} s" and h: "sc_handoff s u = Some t"
  shows "sc_finish t s = None"
proof -
  note I = sc_invD [OF inv]
  have "sc_st s t = Some QUEUED" "t \<notin> set (sc_runQueue s)" using I(10) h unfolding inv_hand_def by blast+
  then show ?thesis by (auto simp: sc_finish_def sc_st_def q_remove_def)
qed

end
