(* ===== verification/Cache_Frame.thy ===== *)
theory Cache_Frame
  imports Cache_System
begin

text \<open>
  What an access of the shared cache, or the eviction and access steps of a level-1 cache, leave alone in the
  other caches. A predicate on the level-1 caches that invalidations keep is kept by whole accesses.
\<close>

lemma set_arr_set_arr [simp]: "set_arr c a (set_arr c b h) = set_arr c a h"
  by (cases "c < length h") (simp_all add: set_arr_def list_update_beyond)

lemma invLat_set_arr [simp]: "c_invLat (set_arr c a h ! c') = c_invLat (h ! c')"
  by (simp add: set_arr_def nth_upd)

section \<open>Frames of the controllers\<close>

text \<open>
  \<open>fr P k h h'\<close>: the caches below \<open>k\<close> that satisfy \<open>P\<close> still do. Accesses of the shared cache only reach a
  level-1 cache through invalidations and through the line cell of the request, so they satisfy \<open>fr\<close> for
  every predicate that those two keep.
\<close>

definition fr :: "(nat \<Rightarrow> 'a cache \<Rightarrow> bool) \<Rightarrow> nat \<Rightarrow> 'a hier \<Rightarrow> 'a hier \<Rightarrow> bool" where
  "fr P k h h' \<longleftrightarrow> length h' = length h \<and> (\<forall>j<k. P j (h ! j) \<longrightarrow> P j (h' ! j))"

lemma fr_refl [simp]: "fr P k h h"
  by (simp add: fr_def)

lemma fr_trans [trans]: "fr P k h h1 \<Longrightarrow> fr P k h1 h2 \<Longrightarrow> fr P k h h2"
  by (simp add: fr_def)

text \<open>\<open>closed P k cinv\<close>: \<open>P\<close> reads neither counters nor directories and is kept by the invalidations.\<close>

definition closed :: "(nat \<Rightarrow> 'a cache \<Rightarrow> bool) \<Rightarrow> nat \<Rightarrow> 'a child_invalidate \<Rightarrow> bool" where
  "closed P k cinv \<longleftrightarrow>
     (\<forall>j x b. bc_array b = bc_array (c_bcc x) \<longrightarrow> P j x \<longrightarrow> P j (x\<lparr>c_bcc := b\<rparr>)) \<and>
     (\<forall>j x t. P j x \<longrightarrow> P j (x\<lparr>c_tcc := t\<rparr>)) \<and>
     (\<forall>i h req h' wb r. cinv i h req = Some (h', wb, r) \<longrightarrow> fr P k h h')"

definition cell_ok :: "(nat \<Rightarrow> 'a cache \<Rightarrow> bool) \<Rightarrow> nat \<Rightarrow> stptr \<Rightarrow> bool" where
  "cell_ok P k p \<longleftrightarrow> (\<forall>h x. fr P k h (set_cell p x h))"

lemma closedD:
  assumes "closed P k cinv"
  shows "fr P k h (inc_prof c ctr d h)" "fr P k h (set_dir c l e h)"
    "cinv i h req = Some (h', wb, r) \<Longrightarrow> fr P k h h'"
  using assms unfolding closed_def by (auto simp: fr_def inc_prof_def set_dir_def nth_upd) blast+

lemma fr_own [simp]: "fr P k h (set_st k l x h)" "fr P k h (set_arr k a h)"
  by (auto simp: fr_def set_st_def set_arr_def nth_upd)

lemma cell_ok_own [simp]: "cell_ok P k (LineCell k l)" "cell_ok P k LocalCell"
  by (simp_all add: cell_ok_def)

lemma cell_okD: "cell_ok P k p \<Longrightarrow> fr P k h (set_cell p x h)"
  by (simp add: cell_ok_def)

lemmas bind_simps = Option.bind_eq_Some_conv map_option_eq_Some

lemma fr_send_loop:
  assumes "closed P k cinv" and "send_loop cinv c a l t cyc src cs h wb mc n = Some (h', wb', mc', n')"
  shows "fr P k h h'"
  using assms(2)
proof (induction cs arbitrary: h wb mc n)
  case (Cons i cs)
  show ?case
  proof (cases "te_sharers (dir h c l) i")
    case True
    with Cons.prems obtain h1 wb1 r where r: "cinv i h \<lparr>ir_lineAddr = a, ir_type = t, ir_writeback = wb, ir_cycle = cyc, ir_srcId = src\<rparr> = Some (h1, wb1, r)"
      "fr P k (if t = INV then set_dir c l ((dir h1 c l)\<lparr>te_sharers := (te_sharers (dir h1 c l))(i := False)\<rparr>) h1 else h1) h'"
      by (auto simp: bind_simps Let_def intro: Cons.IH)
    have "fr P k h1 (if t = INV then set_dir c l ((dir h1 c l)\<lparr>te_sharers := (te_sharers (dir h1 c l))(i := False)\<rparr>) h1 else h1)"
      by (simp add: closedD(2) [OF assms(1)])
    from fr_trans [OF fr_trans [OF closedD(3) [OF assms(1) r(1)] this] r(2)] show ?thesis .
  next
    case False
    with Cons show ?thesis by simp
  qed
qed simp

lemma fr_sendInvalidates:
  assumes "closed P k cinv" and "tcc_sendInvalidates cinv c a l t wb cyc src h = Some (h', wb', r)"
  shows "fr P k h h'"
proof -
  consider "h' = h" | h1 w mc n e where
    "send_loop cinv c a l t cyc src [0..<length (tc_childrenRTTs (c_tcc (h ! c)))] h wb cyc 0 = Some (h1, w, mc, n)"
    "h' = set_dir c l e h1"
    using assms(2) unfolding tcc_sendInvalidates_def by (fastforce simp: bind_simps split: if_splits)
  then show ?thesis
  proof cases
    case 2
    show ?thesis unfolding 2(2) by (rule fr_trans [OF fr_send_loop [OF assms(1) 2(1)] closedD(2) [OF assms(1)]])
  qed simp
qed

lemma fr_tcc_evict:
  assumes "closed P k cinv" and "tcc_processEviction cinv c a l wb cyc src h = Some (h', wb', r)"
  shows "fr P k h h'"
  using assms(2) fr_sendInvalidates [OF assms(1)] closedD(2) [OF assms(1)]
  by (auto simp: tcc_processEviction_def split: if_splits)

lemma fr_cell_dir:
  assumes "closed P k cinv" and "cell_ok P k p" and "fr P k h h1"
  shows "fr P k h (set_cell p x (set_dir c l e h1))"
  by (rule fr_trans [OF assms(3) fr_trans [OF closedD(2) [OF assms(1)] cell_okD [OF assms(2)]]])

lemma fr_tcc_put:
  assumes "closed P k cinv" and "cell_ok P k p" and "tcc_put c l i p wb cyc h = Some (h', wb', r)"
  shows "fr P k h h'"
proof -
  have "h' = set_cell p I (set_dir c l ((dir h c l)\<lparr>te_sharers := (te_sharers (dir h c l))(i := False),
      te_numSharers := te_numSharers (dir h c l) - 1\<rparr>) h)"
    using assms(3) by (auto simp: tcc_put_def bind_simps Let_def)
  then show ?thesis using fr_cell_dir [OF assms(1,2) fr_refl] by (simp only:)
qed

lemma fr_tcc_gets:
  assumes cl: "closed P k cinv" and ce: "cell_ok P k p"
    and r: "tcc_processAccess cinv c a l GETS i ex p wb cyc src flags h = Some (h', wb', r)"
  shows "fr P k h h'"
proof (cases "entry_isEmpty (dir h c l) \<and> ex \<and> flags AND NOEXCL = 0")
  case True
  then have "h' = set_cell p E (set_dir c l ((dir h c l)\<lparr>te_exclusive := True,
      te_sharers := (te_sharers (dir h c l))(i := True), te_numSharers := 1\<rparr>) h)"
    using r by (simp add: tcc_processAccess_def Let_def)
  then show ?thesis using fr_cell_dir [OF cl ce fr_refl] by (simp only:)
next
  case False
  then obtain h1 wb1 r1 where s: "(if entry_isExclusive (dir h c l) then tcc_sendInvalidates cinv c a l INVX wb cyc src h
      else Some (h, wb, cyc)) = Some (h1, wb1, r1)"
    and h': "h' = set_cell p S (set_dir c l ((dir h1 c l)\<lparr>te_sharers := (te_sharers (dir h1 c l))(i := True),
      te_numSharers := te_numSharers (dir h1 c l) + 1, te_exclusive := False\<rparr>) h1)"
    using r unfolding tcc_processAccess_def Let_def by (simp only: access_type.simps if_False) (auto simp: bind_simps)
  have "fr P k h h1" using s fr_sendInvalidates [OF cl] by (auto split: if_splits)
  then show ?thesis unfolding h' by (rule fr_cell_dir [OF cl ce])
qed

lemma fr_tcc_getx:
  assumes cl: "closed P k cinv" and ce: "cell_ok P k p"
    and r: "tcc_processAccess cinv c a l GETX i ex p wb cyc src flags h = Some (h', wb', r)"
  shows "fr P k h h'"
proof -
  define h0 where "h0 = (if te_sharers (dir h c l) i
                    then set_dir c l ((dir h c l)\<lparr>te_sharers := (te_sharers (dir h c l))(i := False),
                                        te_numSharers := te_numSharers (dir h c l) - 1\<rparr>) h else h)"
  have f0: "fr P k h h0" using closedD(2) [OF cl] by (simp add: h0_def)
  obtain h1 wb1 r1 x e where s: "tcc_sendInvalidates cinv c a l INV wb cyc src h0 = Some (h1, wb1, r1)"
    "h' = set_cell p x (set_dir c l e h1)"
    using r unfolding tcc_processAccess_def Let_def h0_def [symmetric]
    by (simp only: access_type.simps) (auto simp: bind_simps)
  show ?thesis unfolding s(2) by (rule fr_cell_dir [OF cl ce fr_trans [OF f0 fr_sendInvalidates [OF cl s(1)]]])
qed

lemma fr_tcc_access:
  assumes cl: "closed P k cinv" and ce: "cell_ok P k p"
    and r: "tcc_processAccess cinv c a l t i ex p wb cyc src flags h = Some (h', wb', r)"
  shows "fr P k h h'"
proof (cases t)
  case PUTS
  then show ?thesis using r fr_tcc_put [OF cl ce] by (simp add: tcc_processAccess_def)
next
  case PUTX
  then show ?thesis using r fr_tcc_put [OF cl ce] cell_okD [OF ce]
    by (auto simp: tcc_processAccess_def bind_simps Let_def split: if_splits)
next
  case GETS
  show ?thesis by (rule fr_tcc_gets [OF cl ce r [unfolded GETS]])
next
  case GETX
  show ?thesis by (rule fr_tcc_getx [OF cl ce r [unfolded GETX]])
qed

text \<open>The bottom controller, over a parent that only touches the cell of its request.\<close>

definition pacc_ok :: "(nat \<Rightarrow> 'a cache \<Rightarrow> bool) \<Rightarrow> nat \<Rightarrow> 'a parent_access \<Rightarrow> bool" where
  "pacc_ok P k pacc \<longleftrightarrow> (\<forall>q h req h' r. cell_ok P k (mr_state req) \<longrightarrow> pacc q h req = Some (h', r) \<longrightarrow> fr P k h h')"

lemma pacc_okD: "pacc_ok P k pacc \<Longrightarrow> cell_ok P k (mr_state req) \<Longrightarrow> pacc q h req = Some (h', r) \<Longrightarrow> fr P k h h'"
  unfolding pacc_ok_def by blast

lemma mem_pacc_ok: "pacc_ok P k (mem_access lat)"
  by (auto simp: pacc_ok_def mem_access_def intro: cell_okD)

lemma fr_set_st: "cell_ok P k (LineCell c l) \<Longrightarrow> fr P k h (set_st c l x h)"
  using cell_okD [of P k "LineCell c l" h x] by simp

lemma bcc_req_state [simp]: "mr_state (bcc_req c l h a t cyc src flags) = LineCell c l"
  by (simp add: bcc_req_def)

lemma fr_bcc_evict:
  assumes pa: "pacc_ok P k pacc" and ce: "cell_ok P k (LineCell c l)"
    and r: "bcc_processEviction pacc c a l lw cyc src h = Some (h', r)"
  shows "fr P k h h'"
proof -
  define h1 where "h1 = (if lw then set_st c l M h else h)"
  have f1: "fr P k h h1" using fr_set_st [OF ce] by (simp add: h1_def)
  consider "h' = h1" | q t r' where "pacc q h1 (bcc_req c l h1 a t cyc src 0) = Some (h', r')"
    using r unfolding bcc_processEviction_def h1_def [symmetric] Let_def
    by (cases "st h1 c l") (auto simp: bind_simps)
  then show ?thesis
  proof cases
    case 2
    show ?thesis by (rule fr_trans [OF f1 pacc_okD [OF pa _ 2]]) (simp add: ce)
  qed (simp add: f1)
qed

lemma fr_bcc_get:
  assumes pa: "pacc_ok P k pacc" and ce: "cell_ok P k (LineCell c l)" and cl: "closed P k cinv"
    and r: "bcc_get pacc c a l t cyc src flags h = Some (h', r)"
  shows "fr P k h h'"
proof -
  obtain h1 q r1 x y where s: "pacc q h (bcc_req c l h a t cyc src flags) = Some (h1, r1)"
    "h' = inc_prof c GETNetLat x (inc_prof c GETNextLevelLat y h1)"
    using r unfolding bcc_get_def Let_def by (auto simp: bind_simps)
  have "fr P k h h1" by (rule pacc_okD [OF pa _ s(1)]) (simp add: ce)
  from fr_trans [OF this fr_trans [OF closedD(1) [OF cl] closedD(1) [OF cl]]] show ?thesis unfolding s(2) .
qed

lemma fr_bcc_access:
  assumes pa: "pacc_ok P k pacc" and ce: "cell_ok P k (LineCell c l)" and cl: "closed P k cinv"
    and r: "bcc_processAccess pacc c a l t cyc src flags h = Some (h', r)"
  shows "fr P k h h'"
proof -
  note get = fr_bcc_get [OF pa ce cl] and prof = closedD(1) [OF cl] and stc = fr_set_st [OF ce]
  show ?thesis
  proof (cases t)
    case GETS
    consider ctr where "h' = inc_prof c ctr 1 h"
      | h1 r1 where "bcc_get pacc c a l GETS cyc src flags h = Some (h1, r1)" "h' = inc_prof c GETSMiss 1 h1"
      using r GETS unfolding bcc_processAccess_def by (auto simp: bind_simps split: if_splits)
    then show ?thesis
    proof cases
      case 2
      show ?thesis unfolding 2(2) by (rule fr_trans [OF get [OF 2(1)] prof])
    qed (simp add: prof)
  next
    case GETX
    consider ctr h1 r1 where "bcc_get pacc c a l GETX cyc src flags (inc_prof c ctr 1 h) = Some (h1, r1)" "h' = h1"
      | ctr where "h' = inc_prof c ctr 1 (if st h c l = E then set_st c l M h else h)"
      using r GETX unfolding bcc_processAccess_def by (auto simp: bind_simps split: if_splits)
    then show ?thesis
    proof cases
      case 1
      show ?thesis unfolding 1(2) by (rule fr_trans [OF prof get [OF 1(1)]])
    next
      case 2
      have "fr P k h (if st h c l = E then set_st c l M h else h)" using stc by simp
      from fr_trans [OF this prof] show ?thesis unfolding 2 .
    qed
  next
    case PUTS
    then have "h' = inc_prof c CtrPUTS 1 h" using r by (auto simp: bcc_processAccess_def bind_simps)
    then show ?thesis using prof by (simp only:)
  next
    case PUTX
    then have h': "h' = inc_prof c CtrPUTX 1 (if st h c l = E then set_st c l M h else h)"
      using r by (auto simp: bcc_processAccess_def bind_simps)
    have "fr P k h (if st h c l = E then set_st c l M h else h)" using stc by simp
    from fr_trans [OF this prof] show ?thesis unfolding h' .
  qed
qed

lemma fr_bcc_noninc:
  assumes pa: "pacc_ok P k pacc" and ce: "cell_ok P k p"
    and r: "bcc_processNonInclusiveWriteback pacc c a t cyc p src flags h = Some (h', r)"
  shows "fr P k h h'"
proof -
  obtain q req where s: "pacc q h req = Some (h', r)" "mr_state req = p"
    using r by (auto simp: bcc_processNonInclusiveWriteback_def split: if_splits)
  show ?thesis by (rule pacc_okD [OF pa _ s(1)]) (simp add: ce s(2))
qed

lemma fr_cc_evict:
  assumes pa: "pacc_ok P k pacc" and ce: "cell_ok P k (LineCell c l)" and cl: "closed P k cinv"
    and r: "cc_processEviction pacc cinv c req a l cyc h = Some (h', r)"
  shows "fr P k h h'"
proof (cases "c_terminal (h ! c)")
  case True
  then show ?thesis using r fr_bcc_evict [OF pa ce] by (simp add: cc_processEviction_def)
next
  case False
  then obtain h1 wb r1 where s: "tcc_processEviction cinv c a l False cyc (mr_srcId req) h = Some (h1, wb, r1)"
    "bcc_processEviction pacc c a l wb r1 (mr_srcId req) h1 = Some (h', r)"
    using r by (auto simp: cc_processEviction_def bind_simps)
  show ?thesis by (rule fr_trans [OF fr_tcc_evict [OF cl s(1)] fr_bcc_evict [OF pa ce s(2)]])
qed

lemma fr_mesicc_access:
  assumes pa: "pacc_ok P k pacc" and ce: "cell_ok P k (LineCell c l)" and cr: "cell_ok P k (mr_state req)" and cl: "closed P k cinv"
    and r: "mesicc_processAccess pacc cinv c req (Some l) cyc h = Some (h', r)"
  shows "fr P k h h'"
proof (cases "IsPut (mr_type req) \<and> st h c l = I")
  case True
  then show ?thesis using r fr_bcc_noninc [OF pa cr] by (auto simp: mesicc_processAccess_def bind_simps)
next
  case False
  let ?fl = "mr_flags req AND NOT PREFETCH"
  let ?tcc = "\<lambda>h1 r1. tcc_processAccess cinv c (mr_lineAddr req) l (mr_type req) (mr_childId req)
      (bcc_isExclusive h1 c l) (mr_state req) False r1 (mr_srcId req) ?fl h1"
  obtain h1 r1 where s: "bcc_processAccess pacc c (mr_lineAddr req) l (mr_type req) cyc (mr_srcId req) ?fl h = Some (h1, r1)"
    and n: "(if mr_is PREFETCH req then Some (h1, r1)
        else Option.bind (?tcc h1 r1) (\<lambda>(h2, wb, resp2).
          if wb then map_option (\<lambda>h3. (h3, resp2)) (bcc_processWritebackOnAccess c l h2) else Some (h2, resp2))) = Some (h', r)"
    using r False by (simp add: mesicc_processAccess_def bind_simps Let_def) blast
  have f1: "fr P k h h1" by (rule fr_bcc_access [OF pa ce cl s])
  show ?thesis
  proof (cases "mr_is PREFETCH req")
    case True
    with n f1 show ?thesis by simp
  next
    case False
    with n obtain h2 wb r2 where t: "?tcc h1 r1 = Some (h2, wb, r2)" and w: "h' = h2 \<or> h' = set_st c l M h2"
      by (auto simp: bind_simps bcc_processWritebackOnAccess_def split: if_splits)
    note f2 = fr_trans [OF f1 fr_tcc_access [OF cl cr t]]
    from w show ?thesis
    proof
      assume "h' = h2"
      with f2 show ?thesis by simp
    next
      assume h': "h' = set_st c l M h2"
      show ?thesis unfolding h' by (rule fr_trans [OF f2 fr_set_st [OF ce]])
    qed
  qed
qed

lemma fr_cc_access:
  assumes pa: "pacc_ok P k pacc" and ce: "cell_ok P k (LineCell c l)" and cr: "cell_ok P k (mr_state req)" and cl: "closed P k cinv"
    and r: "cc_processAccess pacc cinv c req (Some l) cyc h = Some (h', r)"
  shows "fr P k h h'"
  using r fr_mesicc_access [OF pa ce cr cl] fr_bcc_access [OF pa ce cl] by (auto simp: cc_processAccess_def split: if_splits)

lemma fr_own_access:
  assumes pa: "pacc_ok P k pacc" and cr: "cell_ok P k (mr_state req)" and cl: "closed P k cinv"
    and r: "cache_access aops pacc cinv k h req = Some (h', rc)"
  shows "fr P k h h'"
proof -
  obtain req1 skip where s: "cc_startAccess k h req = Some (req1, skip)" using r by (auto simp: cache_access_def bind_simps)
  then have req1: "mr_state req1 = mr_state req" by (auto simp: cc_startAccess_def bind_simps)
  show ?thesis
  proof (cases skip)
    case True
    then show ?thesis using r s by (auto simp: cache_access_def bind_simps)
  next
    case False
    then obtain arr lineId alloc h3 id3 where l: "ca_lookup aops (c_array (h ! k)) (mr_lineAddr req1) req1 (IsGet (mr_type req1)) = Some (arr, lineId)"
      and i: "(if alloc then
               Option.bind (ca_preinsert aops (cc_view_of (set_arr k arr h) k) (c_array (set_arr k arr h ! k)) (mr_lineAddr req1) req1)
                 (\<lambda>(arr2, l, wbLineAddr).
               Option.bind (cc_processEviction pacc cinv k req1 wbLineAddr l (mr_cycle req1 + c_accLat (h ! k)) (set_arr k arr2 (set_arr k arr h))) (\<lambda>(h2, _).
               Option.bind (ca_postinsert aops (c_array (h2 ! k)) (mr_lineAddr req1) req1 l) (\<lambda>arr3.
               Some (set_arr k arr3 h2, Some l))))
             else Some (set_arr k arr h, lineId)) = Some (h3, id3)"
      and a: "\<exists>rc'. cc_processAccess pacc cinv k req1 id3 (mr_cycle req1 + c_accLat (h ! k)) h3 = Some (h', rc')"
      using r s by (fastforce simp: cache_access_def bind_simps Let_def)
    have f3: "fr P k h h3"
    proof (cases alloc)
      case True
      then obtain arr2 wb l2 h2 rr arr3 where e: "cc_processEviction pacc cinv k req1 wb l2 (mr_cycle req1 + c_accLat (h ! k)) (set_arr k arr2 (set_arr k arr h)) = Some (h2, rr)"
        "h3 = set_arr k arr3 h2"
        using i by (auto simp: bind_simps simp del: set_arr_set_arr)
      show ?thesis unfolding e(2)
        by (rule fr_trans [OF fr_trans [OF fr_trans [OF fr_own(2) fr_own(2)] fr_cc_evict [OF pa cell_ok_own(1) cl e(1)]] fr_own(2)])
    next
      case False
      then show ?thesis using i by auto
    qed
    show ?thesis
    proof (cases id3)
      case None
      then show ?thesis using a fr_trans [OF f3 fr_bcc_noninc [OF pa cr]] req1
        by (auto simp: cc_processAccess_def mesicc_processAccess_def bind_simps split: if_splits)
    next
      case (Some l3)
      with a obtain rc' where "cc_processAccess pacc cinv k req1 (Some l3) (mr_cycle req1 + c_accLat (h ! k)) h3 = Some (h', rc')" by auto
      from fr_trans [OF f3 fr_cc_access [OF pa cell_ok_own(1) _ cl this]] show ?thesis using cr req1 by simp
    qed
  qed
qed

lemma l2_pacc_ok:
  assumes "closed P k (l1_invalidate aops)"
  shows "pacc_ok P k (\<lambda>_. l2_access aops lat k)"
  unfolding pacc_ok_def l2_access_def using fr_own_access [OF mem_pacc_ok _ assms] by blast


end
