(* ===== verification/Filter_Cache.thy ===== *)
theory Filter_Cache
  imports Cache_Frame
begin

text \<open>
  The filter cache (\<^verbatim>\<open>zsim/src/filter_cache.h\<close>): a level-1 cache with a direct-mapped array in front that
  remembers one line per set, so that loads and stores that hit it skip the cache.

  \<^verbatim>\<open>init.cpp\<close> builds filter caches only over an unhashed set-associative LRU array, with one filter entry per
  set. The hierarchy is that of \<open>Cache_System\<close>; the array component of a cache carries the filter beside the
  array proper. A lookup with \<open>updateReplacement\<close> false is, in a terminal cache, the lookup of
  \<open>Cache::finishInvalidate\<close>, to which the filter's part of \<open>FilterCache::invalidate\<close> is attached
  (\<open>fc_invalidate_eq\<close>). All calls run in one process, with process mask \<open>pm\<close>; timing races on
  \<open>availCycle\<close> do not arise, as calls run one at a time.
\<close>

section \<open>The filter array\<close>

record filter_entry =
  fe_rdAddr :: addr
  fe_wrAddr :: addr
  fe_availCycle :: nat

record filter_arr =
  ft_array :: "filter_entry list"
  ft_setMask :: addr
  ft_numSets :: nat
  ft_srcId :: nat
  ft_reqFlags :: u32
  ft_fGETSHit :: nat
  ft_fGETXHit :: nat

definition fe_clear :: "filter_entry \<Rightarrow> filter_entry" where
  "fe_clear e = e\<lparr>fe_wrAddr := 0, fe_rdAddr := 0, fe_availCycle := 0\<rparr>"

text \<open>\<open>setSourceId\<close> and \<open>setFlags\<close> are called once, before the simulation starts.\<close>

definition ft_new :: "nat \<Rightarrow> nat \<Rightarrow> u32 \<Rightarrow> filter_arr" where
  "ft_new numSets srcId reqFlags =
     \<lparr>ft_array = replicate numSets \<lparr>fe_rdAddr = 0, fe_wrAddr = 0, fe_availCycle = 0\<rparr>, ft_setMask = of_nat (numSets - 1),
      ft_numSets = numSets, ft_srcId = srcId, ft_reqFlags = reqFlags, ft_fGETSHit = 0, ft_fGETXHit = 0\<rparr>"

definition ft_idx :: "filter_arr \<Rightarrow> addr \<Rightarrow> nat" where
  "ft_idx f vLineAddr = unat (vLineAddr AND ft_setMask f)"

text \<open>The filter's part of an invalidation of \<open>lineAddr\<close>.\<close>

definition ft_inval :: "addr \<Rightarrow> addr \<Rightarrow> filter_arr \<Rightarrow> filter_arr" where
  "ft_inval pm lineAddr f =
     (let idx = ft_idx f lineAddr; e = ft_array f ! idx in
      if fe_rdAddr e OR pm = lineAddr
      then f\<lparr>ft_array := (ft_array f)[idx := e\<lparr>fe_wrAddr := -1, fe_rdAddr := -1\<rparr>]\<rparr> else f)"

text \<open>The update of an entry after the access proper has returned at \<open>respCycle\<close>.\<close>

definition ft_fill :: "addr \<Rightarrow> nat \<Rightarrow> bool \<Rightarrow> nat \<Rightarrow> filter_arr \<Rightarrow> filter_arr" where
  "ft_fill vLineAddr idx isLoad respCycle f =
     (let e = ft_array f ! idx; oldAddr = fe_rdAddr e;
          e1 = e\<lparr>fe_wrAddr := (if isLoad then -1 else vLineAddr), fe_rdAddr := vLineAddr\<rparr>
      in f\<lparr>ft_array := (ft_array f)[idx := if oldAddr \<noteq> vLineAddr then e1\<lparr>fe_availCycle := respCycle\<rparr> else e1]\<rparr>)"

section \<open>The cache behind the filter\<close>

text \<open>An array with a filter beside it; \<open>inval\<close> acts on the filter at lookups for an invalidation.\<close>

definition with_filter :: "(addr \<Rightarrow> filter_arr \<Rightarrow> filter_arr) \<Rightarrow> 'a ca_ops \<Rightarrow> ('a \<times> filter_arr) ca_ops" where
  "with_filter inval aops =
     \<lparr>ca_lookup = (\<lambda>(s, f) a req upd.
        map_option (\<lambda>(s', l). ((s', if upd then f else inval a f), l)) (ca_lookup aops s a req upd)),
      ca_preinsert = (\<lambda>cc (s, f) a req. map_option (\<lambda>(s', l, wb). ((s', f), l, wb)) (ca_preinsert aops cc s a req)),
      ca_postinsert = (\<lambda>(s, f) a req l. map_option (\<lambda>s'. (s', f)) (ca_postinsert aops s a req l))\<rparr>"

lemma with_filter_array:
  assumes "cache_array aops ainv apend afind atag n"
  shows "cache_array (with_filter iv aops) (\<lambda>s. ainv (fst s)) (\<lambda>s. apend (fst s)) (\<lambda>s. afind (fst s)) (\<lambda>s. atag (fst s)) n"
proof
  fix s :: "'a \<times> filter_arr" and a req upd assume "ainv (fst s)" "a \<noteq> (0::addr)"
  then show "\<exists>s'. ca_lookup (with_filter iv aops) s a req upd = Some (s', afind (fst s) a) \<and> ainv (fst s') \<and>
      afind (fst s') = afind (fst s) \<and> atag (fst s') = atag (fst s)"
    using cache_array.lookup [OF assms, of "fst s" a req upd] by (cases s) (auto simp: with_filter_def)
next
  fix s :: "'a \<times> filter_arr" and a b l req upd assume "apend (fst s) b l" "a \<noteq> (0::addr)"
  then show "\<exists>s'. ca_lookup (with_filter iv aops) s a req upd = Some (s', afind (fst s) a) \<and> apend (fst s') b l \<and>
      afind (fst s') = afind (fst s) \<and> atag (fst s') = atag (fst s)"
    using cache_array.lookup_pend [OF assms, of "fst s" b l a req upd] by (cases s) (auto simp: with_filter_def)
next
  fix s :: "'a \<times> filter_arr" and a :: addr and l assume "ainv (fst s)" "a \<noteq> 0" "afind (fst s) a = Some l"
  then show "l < n \<and> atag (fst s) l = a" by (rule cache_array.find_tag [OF assms])
next
  fix s :: "'a \<times> filter_arr" and l assume "ainv (fst s)" "l < n" "atag (fst s) l \<noteq> 0"
  then show "afind (fst s) (atag (fst s) l) = Some l" by (rule cache_array.tag_find [OF assms])
next
  fix s :: "'a \<times> filter_arr" and a cc req assume "ainv (fst s)" "a \<noteq> (0::addr)" "afind (fst s) a = None"
  then show "\<exists>s' l. ca_preinsert (with_filter iv aops) cc s a req = Some (s', l, atag (fst s) l) \<and> l < n \<and> apend (fst s') a l \<and>
      afind (fst s') = afind (fst s) \<and> atag (fst s') = atag (fst s)"
    using cache_array.preinsert [OF assms, of "fst s" a cc req] by (cases s) (fastforce simp: with_filter_def)
next
  fix s :: "'a \<times> filter_arr" and a l req assume "apend (fst s) a l"
  then show "\<exists>s'. ca_postinsert (with_filter iv aops) s a req l = Some s' \<and> ainv (fst s') \<and> atag (fst s') = (atag (fst s))(l := a)"
    using cache_array.postinsert [OF assms, of "fst s" a l req] by (cases s) (auto simp: with_filter_def)
qed

text \<open>The arrays of the hierarchy: filters over unhashed caches 0..\<open>k\<close>-1, none over cache \<open>k\<close>. \<open>aw c\<close> says
  whether the LRU policy of cache \<open>c\<close> is sharers-aware.\<close>

type_synonym fc_array = "lru setassoc \<times> filter_arr"

definition fc_hash :: "nat \<Rightarrow> (nat \<Rightarrow> addr \<Rightarrow> u64) \<Rightarrow> nat \<Rightarrow> nat \<Rightarrow> addr \<Rightarrow> u64" where
  "fc_hash k hash2 c = (if c = k then hash2 else (\<lambda>_ a. a))"

definition fc_aops :: "addr \<Rightarrow> nat \<Rightarrow> (nat \<Rightarrow> addr \<Rightarrow> u64) \<Rightarrow> (nat \<Rightarrow> bool) \<Rightarrow> nat \<Rightarrow> fc_array ca_ops" where
  "fc_aops pm k hash2 aw c =
     with_filter (if c = k then (\<lambda>_ f. f) else ft_inval pm) (sa_ops (lru_ops (aw c)) (fc_hash k hash2 c))"

section \<open>Operations\<close>

abbreviation fc_filter :: "fc_array hier \<Rightarrow> nat \<Rightarrow> filter_arr" where
  "fc_filter h c \<equiv> snd (c_array (h ! c))"

definition fc_set :: "nat \<Rightarrow> filter_arr \<Rightarrow> fc_array hier \<Rightarrow> fc_array hier" where
  "fc_set c f h = set_arr c (fst (c_array (h ! c)), f) h"

definition fc_replace :: "addr \<Rightarrow> (nat \<Rightarrow> fc_array ca_ops) \<Rightarrow> nat \<Rightarrow> nat \<Rightarrow> nat \<Rightarrow> addr \<Rightarrow> nat \<Rightarrow> bool \<Rightarrow> nat \<Rightarrow>
    fc_array hier \<Rightarrow> (fc_array hier \<times> nat) option" where
  "fc_replace pm aops lat k c vLineAddr idx isLoad curCycle h =
     (let f = fc_filter h c; pLineAddr = pm OR vLineAddr in
      Option.bind (l1_access aops lat k c h (core_req pLineAddr isLoad curCycle (ft_srcId f) (ft_reqFlags f))) (\<lambda>(h1, respCycle).
      Some (fc_set c (ft_fill vLineAddr idx isLoad respCycle (fc_filter h1 c)) h1, respCycle)))"

definition fc_load :: "addr \<Rightarrow> (nat \<Rightarrow> fc_array ca_ops) \<Rightarrow> nat \<Rightarrow> nat \<Rightarrow> nat \<Rightarrow> nat \<Rightarrow> addr \<Rightarrow> nat \<Rightarrow>
    fc_array hier \<Rightarrow> (fc_array hier \<times> nat) option" where
  "fc_load pm aops lat k lineBits c vAddr curCycle h =
     (let f = fc_filter h c; vLineAddr = drop_bit lineBits vAddr; idx = ft_idx f vLineAddr; availCycle = fe_availCycle (ft_array f ! idx) in
      if vLineAddr = fe_rdAddr (ft_array f ! idx)
      then Some (fc_set c (f\<lparr>ft_fGETSHit := ft_fGETSHit f + 1\<rparr>) h, max curCycle availCycle)
      else fc_replace pm aops lat k c vLineAddr idx True curCycle h)"

definition fc_store :: "addr \<Rightarrow> (nat \<Rightarrow> fc_array ca_ops) \<Rightarrow> nat \<Rightarrow> nat \<Rightarrow> nat \<Rightarrow> nat \<Rightarrow> addr \<Rightarrow> nat \<Rightarrow>
    fc_array hier \<Rightarrow> (fc_array hier \<times> nat) option" where
  "fc_store pm aops lat k lineBits c vAddr curCycle h =
     (let f = fc_filter h c; vLineAddr = drop_bit lineBits vAddr; idx = ft_idx f vLineAddr; availCycle = fe_availCycle (ft_array f ! idx) in
      if vLineAddr = fe_wrAddr (ft_array f ! idx)
      then Some (fc_set c (f\<lparr>ft_fGETXHit := ft_fGETXHit f + 1\<rparr>) h, max curCycle availCycle)
      else fc_replace pm aops lat k c vLineAddr idx False curCycle h)"

definition fc_invalidate :: "addr \<Rightarrow> bool \<Rightarrow> nat \<Rightarrow> fc_array hier \<Rightarrow> invreq \<Rightarrow> (fc_array hier \<times> bool \<times> nat) option" where
  "fc_invalidate pm awc c h req =
     cache_invalidate (with_filter (\<lambda>_ f. f) (sa_ops (lru_ops awc) (\<lambda>_ a. a))) (\<lambda>_ _ _. None) c
       (fc_set c (ft_inval pm (ir_lineAddr req) (fc_filter h c)) h) req"

definition fc_contextSwitch :: "nat \<Rightarrow> fc_array hier \<Rightarrow> fc_array hier" where
  "fc_contextSwitch c h = fc_set c ((fc_filter h c)\<lparr>ft_array := map fe_clear (ft_array (fc_filter h c))\<rparr>) h"

text \<open>The invalidation that the shared cache sends is the one of the filter cache.\<close>

lemma fc_invalidate_eq:
  assumes "c < length h" and "c \<noteq> k"
  shows "l1_invalidate (fc_aops pm k hash2 aw) c h req = fc_invalidate pm (aw c) c h req"
  using assms
  by (cases "c_array (h ! c)")
     (auto simp: l1_invalidate_def fc_invalidate_def cache_invalidate_def fc_aops_def fc_hash_def with_filter_def fc_set_def
        arr_set_arr sa_ops_def sa_lookup_def split: option.splits)

section \<open>The invariant\<close>

text \<open>
  \<open>fe_ok\<close>: what an entry remembers is in the cache, in a line other than \<open>L\<close>, and in M if the entry may be
  written. 0 and -1 stand for no address. \<open>fgood\<close>: this holds for the entries outside \<open>D\<close>, and each is at the
  index of its address.
\<close>

definition fe_none :: "addr \<Rightarrow> bool" where
  "fe_none a \<longleftrightarrow> a = 0 \<or> a = -1"

definition fe_ok :: "addr \<Rightarrow> nat \<Rightarrow> addr list \<Rightarrow> mesi list \<Rightarrow> nat option \<Rightarrow> filter_entry \<Rightarrow> bool" where
  "fe_ok pm n tags sts L e \<longleftrightarrow>
     (fe_none (fe_rdAddr e) \<or> (\<exists>l<n. L \<noteq> Some l \<and> tags ! l = pm OR fe_rdAddr e \<and> sts ! l \<noteq> I \<and>
        (fe_wrAddr e = fe_rdAddr e \<longrightarrow> sts ! l = M))) \<and>
     (fe_none (fe_wrAddr e) \<or> fe_wrAddr e = fe_rdAddr e)"

definition fgood :: "addr \<Rightarrow> nat \<Rightarrow> nat \<Rightarrow> nat option \<Rightarrow> nat set \<Rightarrow> fc_array cache \<Rightarrow> bool" where
  "fgood pm m n L D x \<longleftrightarrow>
     (let sa = fst (c_array x); f = snd (c_array x) in
      length (ft_array f) = Suc m \<and> ft_setMask f = of_nat m \<and> ft_reqFlags f AND PREFETCH = 0 \<and>
      (\<forall>i < Suc m. i \<notin> D \<longrightarrow>
         fe_ok pm n (sa_array sa) (bc_array (c_bcc x)) L (ft_array f ! i) \<and>
         (fe_none (fe_rdAddr (ft_array f ! i)) \<or> ft_idx f (fe_rdAddr (ft_array f ! i)) = i)))"

lemma fgood_cong:
  assumes "sa_array (fst (c_array y)) = sa_array (fst (c_array x))" and "snd (c_array y) = snd (c_array x)"
    and "bc_array (c_bcc y) = bc_array (c_bcc x)"
  shows "fgood pm m n L D y = fgood pm m n L D x"
  using assms by (simp add: fgood_def)

lemma ft_idx_less:
  assumes "ft_setMask f = of_nat m" and "m < 2 ^ 32"
  shows "ft_idx f a < Suc m"
proof -
  have "a AND ft_setMask f \<le> ft_setMask f" by (rule word_and_le1)
  moreover have "unat (of_nat m :: u64) = m" using assms(2) by (intro unat_of_nat_u64) simp
  ultimately show ?thesis using assms(1) by (simp add: ft_idx_def word_le_nat_alt)
qed

lemma ft_idx_mask:
  assumes "pm AND ft_setMask f = 0"
  shows "ft_idx f (pm OR a) = ft_idx f a"
  using assms by (simp add: ft_idx_def bit.conj_disj_distrib2)

lemma sa_find_elem: "sa_find hash s a = Some l \<Longrightarrow> sa_array s ! l = a"
  by (auto simp: sa_find_def Let_def dest!: find_Some_in)

text \<open>An invalidation keeps the invariant of the cache it reaches.\<close>

lemma fgood_inval:
  assumes g: "fgood pm m n L D x" and pm: "pm AND of_nat m = 0" and m: "m < 2 ^ 32"
    and sa: "sa_array (fst (c_array y)) = sa_array (fst (c_array x))" and l: "sa_array (fst (c_array x)) ! l = a"
    and f: "snd (c_array y) = ft_inval pm a (snd (c_array x))" and st: "bc_array (c_bcc y) = (bc_array (c_bcc x))[l := z]"
  shows "fgood pm m n L D y"
proof -
  let ?f = "snd (c_array x)" and ?f' = "ft_inval pm a (snd (c_array x))"
  have f0: "length (ft_array ?f) = Suc m" "ft_setMask ?f = of_nat m" "ft_reqFlags ?f AND PREFETCH = 0"
    using g by (auto simp: fgood_def Let_def)
  have f1: "length (ft_array ?f') = Suc m" "ft_setMask ?f' = of_nat m" "ft_reqFlags ?f' AND PREFETCH = 0"
    and ix: "ft_idx ?f' = ft_idx ?f"
    using f0 by (auto simp: ft_inval_def Let_def ft_idx_def fun_eq_iff)
  have "fe_ok pm n (sa_array (fst (c_array y))) (bc_array (c_bcc y)) L (ft_array ?f' ! i) \<and>
         (fe_none (fe_rdAddr (ft_array ?f' ! i)) \<or> ft_idx ?f (fe_rdAddr (ft_array ?f' ! i)) = i)"
    if i: "i < Suc m" "i \<notin> D" for i
  proof -
    let ?e = "ft_array ?f ! i"
    have e: "fe_ok pm n (sa_array (fst (c_array x))) (bc_array (c_bcc x)) L ?e"
      and ei: "fe_none (fe_rdAddr ?e) \<or> ft_idx ?f (fe_rdAddr ?e) = i"
      using g i by (auto simp: fgood_def Let_def)
    show ?thesis
    proof (cases "i = ft_idx ?f a \<and> fe_rdAddr ?e OR pm = a")
      case True
      then have "ft_array ?f' ! i = ?e\<lparr>fe_wrAddr := -1, fe_rdAddr := -1\<rparr>"
        using i f0(1) by (auto simp: ft_inval_def Let_def)
      then show ?thesis by (simp add: fe_ok_def fe_none_def)
    next
      case False
      then have same: "ft_array ?f' ! i = ?e" by (auto simp: ft_inval_def Let_def)
      have ne: "fe_none (fe_rdAddr ?e) \<or> pm OR fe_rdAddr ?e \<noteq> a"
      proof (rule disjCI)
        assume "\<not> pm OR fe_rdAddr ?e \<noteq> a"
        then have a: "a = pm OR fe_rdAddr ?e" by simp
        with False have "i \<noteq> ft_idx ?f a" by (simp add: or.commute)
        moreover have "ft_idx ?f a = ft_idx ?f (fe_rdAddr ?e)" unfolding a using pm f0(2) by (intro ft_idx_mask) simp
        ultimately show "fe_none (fe_rdAddr ?e)" using ei by auto
      qed
      have "fe_ok pm n (sa_array (fst (c_array y))) (bc_array (c_bcc y)) L ?e"
        using e ne l unfolding fe_ok_def sa st by (metis nth_list_update_neq)
      with ei same show ?thesis by simp
    qed
  qed
  then show ?thesis unfolding fgood_def Let_def f ix using f1 by simp
qed

lemma send_loop_none: "send_loop (\<lambda>_ _ _. None) c a l t cyc src cs h wb mc n = Some (h', wb', mc', n') \<Longrightarrow> h' = h"
  by (induction cs) (auto split: if_splits)

lemma cc_processInv_none:
  assumes "cc_processInv (\<lambda>_ _ _. None) c req l cyc h = Some (h', wb, r)"
  shows "length h' = length h \<and> (\<forall>j. j \<noteq> c \<longrightarrow> h' ! j = h ! j) \<and> c_array (h' ! c) = c_array (h ! c) \<and>
    (\<exists>z. bc_array (c_bcc (h' ! c)) = (bc_array (c_bcc (h ! c)))[l := z])"
proof -
  have tcc: "length g = length h \<and> (\<forall>j. j \<noteq> c \<longrightarrow> g ! j = h ! j) \<and> c_array (g ! c) = c_array (h ! c) \<and> c_bcc (g ! c) = c_bcc (h ! c)"
    if "tcc_processInval (\<lambda>_ _ _. None) c a l t wb0 cyc0 src h = Some (g, wb', r')" for a t wb0 cyc0 src g wb' r'
    using that by (auto simp: tcc_processInval_def tcc_sendInvalidates_def bind_simps set_dir_def nth_upd
      dest!: send_loop_none split: if_splits)
  have bcc: "length g' = length g \<and> (\<forall>j. j \<noteq> c \<longrightarrow> g' ! j = g ! j) \<and> c_array (g' ! c) = c_array (g ! c) \<and>
      (\<exists>z. bc_array (c_bcc (g' ! c)) = (bc_array (c_bcc (g ! c)))[l := z])"
    if r: "bcc_processInval c l t w g = Some (g', w')" for t w g g' w'
  proof -
    have id: "(bc_array (c_bcc (g ! c)))[l := bc_array (c_bcc (g ! c)) ! l] = bc_array (c_bcc (g ! c))" by simp
    have st: "bc_array (c_bcc (set_st c l z g ! c)) = (if c < length g then (bc_array (c_bcc (g ! c)))[l := z] else bc_array (c_bcc (g ! c)))" for z
      by (simp add: set_st_def nth_upd)
    have ip: "bc_array (c_bcc (inc_prof c ctr 1 f ! c)) = bc_array (c_bcc (f ! c))" for ctr f
      by (simp add: inc_prof_def nth_upd)
    consider ctr z where "g' = inc_prof c ctr 1 (set_st c l z g)" | ctr where "g' = inc_prof c ctr 1 g"
      using r by (cases t) (auto simp: bcc_processInval_def bind_simps Let_def)
    then show ?thesis
    proof cases
      case 1
      have "\<exists>z. bc_array (c_bcc (g' ! c)) = (bc_array (c_bcc (g ! c)))[l := z]"
        unfolding 1 ip st using id by (cases "c < length g") (auto intro: exI [of _ "bc_array (c_bcc (g ! c)) ! l"])
      then show ?thesis unfolding 1 by (simp add: inc_prof_def set_st_def nth_upd)
    next
      case 2
      have "\<exists>z. bc_array (c_bcc (g' ! c)) = (bc_array (c_bcc (g ! c)))[l := z]"
        unfolding 2 ip using id by metis
      then show ?thesis unfolding 2 by (simp add: inc_prof_def nth_upd)
    qed
  qed
  show ?thesis
  proof (cases "c_terminal (h ! c)")
    case True
    then show ?thesis using assms bcc by (fastforce simp: cc_processInv_def bind_simps)
  next
    case False
    with assms obtain g w0 r0 w where "tcc_processInval (\<lambda>_ _ _. None) c (ir_lineAddr req) l (ir_type req) (ir_writeback req) cyc (ir_srcId req) h = Some (g, w0, r0)"
      "bcc_processInval c l (ir_type req) w0 g = Some (h', w)"
      by (auto simp: cc_processInv_def bind_simps)
    with tcc bcc show ?thesis by metis
  qed
qed

end
