(* ===== verification/Filter_Inv.thy ===== *)
theory Filter_Inv
  imports Filter_Cache
begin

text \<open>
  The filters of the cores stay consistent with the caches behind them: invalidations, evictions and accesses
  of the shared cache keep the invariant of every filter, an access of a core restores that of its own.
\<close>

section \<open>What steps do to a filter\<close>

text \<open>\<open>fP\<close>: the filter of cache \<open>j\<close> is right, but for line \<open>L\<close> and the entries \<open>D\<close> of the cache \<open>c\<close> that is
  being accessed. \<open>masks_ok\<close>: the process mask is above the set indices (\<^verbatim>\<open>works because of how virtual<->physical
  is done\<close>).\<close>

definition fP :: "addr \<Rightarrow> (nat \<Rightarrow> nat) \<Rightarrow> (nat \<Rightarrow> nat) \<Rightarrow> nat \<Rightarrow> nat option \<Rightarrow> nat set \<Rightarrow> nat \<Rightarrow> fc_array cache \<Rightarrow> bool" where
  "fP pm m n c L D j = fgood pm (m j) (n j) (if j = c then L else None) (if j = c then D else {})"

definition masks_ok :: "addr \<Rightarrow> nat \<Rightarrow> (nat \<Rightarrow> nat) \<Rightarrow> bool" where
  "masks_ok pm k m \<longleftrightarrow> (\<forall>j<k. pm AND of_nat (m j) = 0 \<and> m j < 2 ^ 32)"

lemma fc_lookup:
  assumes "ca_lookup (fc_aops pm k hash2 aw c) s a req upd = Some (s', lineId)"
  shows "sa_array (fst s') = sa_array (fst s)" "lineId = sa_find (fc_hash k hash2 c) (fst s) a"
    "snd s' = (if upd \<or> c = k then snd s else ft_inval pm a (snd s))"
  using assms
  by (cases s; auto simp: fc_aops_def with_filter_def sa_ops_def sa_lookup_def lru_ops_def split: option.splits if_splits)+

lemma fc_preinsert:
  assumes "ca_preinsert (fc_aops pm k hash2 aw c) cc s a req = Some (s', l, wb)"
  shows "sa_array (fst s') = sa_array (fst s)" "snd s' = snd s"
  using assms by (cases s; auto simp: fc_aops_def with_filter_def sa_ops_def sa_preinsert_def Let_def)+

lemma fc_postinsert:
  assumes "ca_postinsert (fc_aops pm k hash2 aw c) s a req l = Some s'"
  shows "sa_array (fst s') = (sa_array (fst s))[l := a]" "snd s' = snd s"
  using assms by (cases s; auto simp: fc_aops_def with_filter_def sa_ops_def sa_postinsert_def lru_ops_def bind_simps)+

lemma fc_closed:
  assumes mo: "masks_ok pm k m"
  shows "closed (fP pm m n c L D) k (l1_invalidate (fc_aops pm k hash2 aw))"
  unfolding closed_def
proof (intro conjI allI impI)
  fix j and x :: "fc_array cache" and b :: bcc assume "bc_array b = bc_array (c_bcc x)" "fP pm m n c L D j x"
  then show "fP pm m n c L D j (x\<lparr>c_bcc := b\<rparr>)"
    unfolding fP_def by (subst fgood_cong [of _ x]) simp_all
next
  fix j and x :: "fc_array cache" and t :: tcc assume "fP pm m n c L D j x"
  then show "fP pm m n c L D j (x\<lparr>c_tcc := t\<rparr>)"
    unfolding fP_def by (subst fgood_cong [of _ x]) simp_all
next
  fix i h req h' wb r assume "l1_invalidate (fc_aops pm k hash2 aw) i h req = Some (h', wb, r)"
  then obtain arr l where l: "ca_lookup (fc_aops pm k hash2 aw i) (c_array (h ! i)) (ir_lineAddr req) (read_req (ir_lineAddr req)) False = Some (arr, Some l)"
    and p: "cc_processInv (\<lambda>_ _ _. None) i req l (ir_cycle req + c_invLat (h ! i)) (set_arr i arr h) = Some (h', wb, r)"
    by (auto simp: l1_invalidate_def cache_invalidate_def bind_simps)
  note lk = fc_lookup [OF l]
  obtain z where h': "length h' = length h" "\<And>j. j \<noteq> i \<Longrightarrow> h' ! j = set_arr i arr h ! j" "c_array (h' ! i) = c_array (set_arr i arr h ! i)"
    "bc_array (c_bcc (h' ! i)) = (bc_array (c_bcc (set_arr i arr h ! i)))[l := z]"
    using cc_processInv_none [OF p] by auto
  have "fP pm m n c L D j (h' ! j)" if j: "j < k" "fP pm m n c L D j (h ! j)" for j
  proof (cases "j = i \<and> i < length h")
    case False
    have "h' ! j = h ! j"
    proof (cases "i < length h")
      case True
      then show ?thesis using False h'(2) [of j] by (simp add: set_arr_def)
    next
      case False
      then have s: "set_arr i arr h = h" by (simp add: set_arr_def list_update_beyond)
      have "h' = h" using h'(1,2) False unfolding s by (intro nth_equalityI) auto
      then show ?thesis by simp
    qed
    then show ?thesis using j by simp
  next
    case True
    have g: "fgood pm (m j) (n j) (if j = c then L else None) (if j = c then D else {}) (h ! j)" using j by (simp add: fP_def)
    have a: "c_array (h' ! j) = arr" "bc_array (c_bcc (h' ! j)) = (bc_array (c_bcc (h ! j)))[l := z]"
      using True h'(3,4) by (simp_all add: set_arr_def)
    show ?thesis unfolding fP_def
      by (rule fgood_inval [OF g]) (use mo j True lk a sa_find_elem [OF lk(2) [symmetric]] in \<open>auto simp: masks_ok_def\<close>)
  qed
  then show "fr (fP pm m n c L D) k h h'" using h'(1) by (simp add: fr_def)
qed

definition fc_lines :: "(nat \<Rightarrow> nat) \<Rightarrow> (nat \<Rightarrow> nat) \<Rightarrow> nat \<Rightarrow> nat" where
  "fc_lines m w c = Suc (m c) * Suc (w c)"

definition fc_ainv :: "nat \<Rightarrow> (nat \<Rightarrow> addr \<Rightarrow> u64) \<Rightarrow> (nat \<Rightarrow> nat) \<Rightarrow> (nat \<Rightarrow> nat) \<Rightarrow> nat \<Rightarrow> fc_array \<Rightarrow> bool" where
  "fc_ainv k hash2 m w c s = sa_inv (lru_inv (fc_lines m w c)) (fc_hash k hash2 c) (Suc (m c)) (Suc (w c)) (fst s)"

definition fc_apend :: "nat \<Rightarrow> (nat \<Rightarrow> addr \<Rightarrow> u64) \<Rightarrow> (nat \<Rightarrow> nat) \<Rightarrow> (nat \<Rightarrow> nat) \<Rightarrow> nat \<Rightarrow> fc_array \<Rightarrow> addr \<Rightarrow> nat \<Rightarrow> bool" where
  "fc_apend k hash2 m w c s = sa_pend (\<lambda>s v. lru_inv (fc_lines m w c) s \<and> v < fc_lines m w c) (fc_hash k hash2 c) (Suc (m c)) (Suc (w c)) (fst s)"

interpretation fsys: two_level "fc_aops pm k hash2 aw" "fc_ainv k hash2 m w" "fc_apend k hash2 m w"
  "\<lambda>c s. sa_find (fc_hash k hash2 c) (fst s)" "\<lambda>_ s. sa_tag (fst s)" "fc_lines m w" k "Suc lat"
  for pm hash2 aw m w k lat
proof (rule two_level.intro)
  show "cache_array (fc_aops pm k hash2 aw c) (fc_ainv k hash2 m w c) (fc_apend k hash2 m w c)
     (\<lambda>s. sa_find (fc_hash k hash2 c) (fst s)) (\<lambda>s. sa_tag (fst s)) (fc_lines m w c)" for c
    unfolding fc_aops_def fc_ainv_def fc_apend_def fc_lines_def
    by (rule with_filter_array [OF sa_lru.sa.cache_array_axioms])
qed simp

lemma victim_set:
  assumes sh: "sa_shape (\<lambda>_ a. a) (Suc m) (Suc w) s" and l: "l < Suc m * Suc w" "sa_array s ! l \<noteq> 0"
    and v: "v \<in> {sa_first (\<lambda>_ a. a) s a..<sa_first (\<lambda>_ a. a) s a + Suc w}" and lv: "l = v"
  shows "sa_array s ! l AND of_nat m = a AND of_nat m"
proof -
  have s: "sa_assoc s = Suc w" "sa_setMask s = of_nat m" using sh by (auto simp: sa_shape_def)
  let ?x = "unat (sa_array s ! l AND of_nat m)" and ?y = "unat (a AND of_nat m)"
  have "l \<in> {?x * Suc w..<?x * Suc w + Suc w}" using sh l s by (auto simp: sa_shape_def sa_first_def)
  moreover have "l \<in> {?y * Suc w..<?y * Suc w + Suc w}" using v lv s by (simp add: sa_first_def)
  ultimately have "l div Suc w = ?x" "l div Suc w = ?y"
    by (auto intro!: div_nat_eqI simp: mult.commute)
  then show ?thesis by (metis word_unat_eq_iff)
qed

text \<open>An access of cache \<open>c\<close> only puts the entry of the accessed set at risk.\<close>

lemma or_zero_right: "(a::addr) OR b = 0 \<Longrightarrow> b = 0"
  using word_ao_absorbs(6) [of b a] by (metis word_bw_same(3) and_zero_eq or.commute word_ao_absorbs)

lemma fe_ok_focus:
  assumes "fe_ok pm n tags sts None e" and "\<not> fe_none (fe_rdAddr e) \<Longrightarrow> tags ! L \<noteq> pm OR fe_rdAddr e"
  shows "fe_ok pm n tags sts (Some L) e"
  using assms unfolding fe_ok_def by auto

lemma fgood_focus:
  assumes g: "fgood pm m n None {} x" and pm: "pm AND of_nat m = 0"
    and L: "sa_array (fst (c_array x)) ! L \<noteq> 0 \<Longrightarrow> sa_array (fst (c_array x)) ! L AND of_nat m = a AND of_nat m"
  shows "fgood pm m n (Some L) {unat (a AND of_nat m)} x"
proof -
  let ?f = "snd (c_array x)"
  have f0: "length (ft_array ?f) = Suc m" "ft_setMask ?f = of_nat m" "ft_reqFlags ?f AND PREFETCH = 0"
    using g by (auto simp: fgood_def Let_def)
  have "fe_ok pm n (sa_array (fst (c_array x))) (bc_array (c_bcc x)) (Some L) (ft_array ?f ! i) \<and>
         (fe_none (fe_rdAddr (ft_array ?f ! i)) \<or> ft_idx ?f (fe_rdAddr (ft_array ?f ! i)) = i)"
    if i: "i < Suc m" "i \<noteq> unat (a AND of_nat m)" for i
  proof -
    let ?e = "ft_array ?f ! i"
    have e: "fe_ok pm n (sa_array (fst (c_array x))) (bc_array (c_bcc x)) None ?e"
      and ei: "fe_none (fe_rdAddr ?e) \<or> ft_idx ?f (fe_rdAddr ?e) = i"
      using g i by (auto simp: fgood_def Let_def)
    have "sa_array (fst (c_array x)) ! L \<noteq> pm OR fe_rdAddr ?e" if r: "\<not> fe_none (fe_rdAddr ?e)"
    proof
      assume t: "sa_array (fst (c_array x)) ! L = pm OR fe_rdAddr ?e"
      have "sa_array (fst (c_array x)) ! L \<noteq> 0" using r unfolding t by (auto simp: fe_none_def dest: or_zero_right)
      from L [OF this] have "(pm OR fe_rdAddr ?e) AND of_nat m = a AND of_nat m" unfolding t .
      then have "fe_rdAddr ?e AND of_nat m = a AND of_nat m" using pm by (simp add: bit.conj_disj_distrib2)
      then show False using i ei r f0(2) by (simp add: ft_idx_def)
    qed
    then have "fe_ok pm n (sa_array (fst (c_array x))) (bc_array (c_bcc x)) (Some L) ?e"
      by (rule fe_ok_focus [OF e])
    with ei show ?thesis by simp
  qed
  then show ?thesis unfolding fgood_def Let_def using f0 by simp
qed

lemma fgood_postinsert:
  assumes g: "fgood pm m n (Some L) D x" and sa: "sa_array (fst (c_array y)) = (sa_array (fst (c_array x)))[L := a]"
    and f: "snd (c_array y) = snd (c_array x)" and b: "bc_array (c_bcc y) = bc_array (c_bcc x)"
  shows "fgood pm m n (Some L) D y"
proof -
  have "fe_ok pm n ((sa_array (fst (c_array x)))[L := a]) (bc_array (c_bcc x)) (Some L) e"
    if "fe_ok pm n (sa_array (fst (c_array x))) (bc_array (c_bcc x)) (Some L) e" for e
    using that unfolding fe_ok_def by (metis nth_list_update_neq)
  then show ?thesis using g unfolding fgood_def Let_def sa f b by blast
qed

text \<open>The three ways an access by a GET may take.\<close>

lemma cache_access_get_cases:
  assumes r: "cache_access aops pacc cinv c h req = Some (h', rc)" and start: "cc_startAccess c h req = Some (req, False)"
    and get: "IsGet (mr_type req)"
  obtains (hit) arr l rc' where "ca_lookup aops (c_array (h ! c)) (mr_lineAddr req) req True = Some (arr, Some l)"
      "cc_processAccess pacc cinv c req (Some l) (mr_cycle req + c_accLat (h ! c)) (set_arr c arr h) = Some (h', rc')"
    | (miss) arr arr2 l wb h2 r2 arr3 rc' where "ca_lookup aops (c_array (h ! c)) (mr_lineAddr req) req True = Some (arr, None)"
      "ca_preinsert aops (cc_view_of (set_arr c arr h) c) (c_array (set_arr c arr h ! c)) (mr_lineAddr req) req = Some (arr2, l, wb)"
      "cc_processEviction pacc cinv c req wb l (mr_cycle req + c_accLat (h ! c)) (set_arr c arr2 h) = Some (h2, r2)"
      "ca_postinsert aops (c_array (h2 ! c)) (mr_lineAddr req) req l = Some arr3"
      "cc_processAccess pacc cinv c req (Some l) (mr_cycle req + c_accLat (h ! c)) (set_arr c arr3 h2) = Some (h', rc')"
    | (skip) arr where "cc_shouldAllocate c (set_arr c arr h) req = Some False"
proof -
  obtain arr lineId where lk: "ca_lookup aops (c_array (h ! c)) (mr_lineAddr req) req True = Some (arr, lineId)"
    using r start get by (auto simp: cache_access_def bind_simps Let_def)
  show thesis
  proof (cases lineId)
    case (Some l)
    show thesis by (rule hit [OF lk [unfolded Some]]) (use r start get lk Some in \<open>auto simp: cache_access_def bind_simps Let_def\<close>)
  next
    case None
    show thesis
    proof (cases "cc_shouldAllocate c (set_arr c arr h) req = Some False")
      case True
      then show thesis by (rule skip)
    next
      case False
      obtain b where b: "cc_shouldAllocate c (set_arr c arr h) req = Some b"
        using r start get lk None by (auto simp: cache_access_def bind_simps Let_def)
      with False have b: "cc_shouldAllocate c (set_arr c arr h) req = Some True" by (cases b) auto
      show thesis using r unfolding cache_access_def start
        by (simp add: get lk None b bind_simps Let_def) (auto simp: bind_simps intro: miss [OF lk [unfolded None]])
    qed
  qed
qed

lemma fc_access_frame:
  assumes mo: "masks_ok pm k m" and c: "c < k" and ok: "fsys.hier_ok k hash2 m w h"
    and g: "\<forall>j<k. fgood pm (m j) (fc_lines m w j) None {} (h ! j)" and a: "a \<noteq> 0"
    and r: "l1_access (fc_aops pm k hash2 aw) lat k c h (core_req a isLoad cyc src flags) = Some (h', rc)"
  shows "\<exists>L. \<forall>j<k. fP pm m (fc_lines m w) c (Some L) {unat (a AND of_nat (m c))} j (h' ! j)"
proof -
  let ?n = "fc_lines m w" and ?aops = "fc_aops pm k hash2 aw" and ?req = "core_req a isLoad cyc src flags" and ?hash = "fc_hash k hash2 c"
    and ?D = "{unat (a AND of_nat (m c))}" and ?pacc = "\<lambda>_::nat. l2_access (fc_aops pm k hash2 aw) lat k"
  have hash: "?hash = (\<lambda>_ a. a)" using c by (simp add: fc_hash_def)
  have pmc: "pm AND of_nat (m c) = 0" "m c < 2 ^ 32" using mo c by (auto simp: masks_ok_def)
  have inv: "fc_ainv k hash2 m w c (c_array (h ! c))" using ok c by (simp add: fsys.hier_ok_def fsys.l1s_ok_def)
  have hl: "c < length h" "c_terminal (h ! c)" using ok c by (auto simp: fsys.hier_ok_def shape_def)
  have req: "mr_lineAddr ?req = a" "IsGet (mr_type ?req)" "mr_state ?req = LocalCell"
    by (auto simp: core_req_def IsGet_def)
  have start: "cc_startAccess c h ?req = Some (?req, False)"
    by (auto simp: cc_startAccess_def CheckForMESIRace_def core_req_def IsGet_def guard_def)
  note pa = l2_pacc_ok [OF fc_closed [OF mo]]
  have ce: "cell_ok (fP pm m ?n c (Some L) ?D) k (LineCell c L)" for L
  proof -
    have "fP pm m ?n c (Some L) ?D j (set_st c L x g ! j)" if "j < k" "fP pm m ?n c (Some L) ?D j (g ! j)" for x j and g :: "fc_array hier"
    proof (cases "j = c \<and> c < length g")
      case True
      have "fe_ok pm q t (z[L := x]) (Some L) e" if "fe_ok pm q t z (Some L) e" for q t z e
        using that unfolding fe_ok_def by (metis nth_list_update_neq)
      with that(2) True show ?thesis by (auto simp: fP_def fgood_def Let_def set_st_def nth_upd)
    qed (use that(2) in \<open>auto simp: set_st_def nth_upd list_update_beyond\<close>)
    then show ?thesis by (simp add: cell_ok_def fr_def set_st_def)
  qed
  have cl: "closed (fP pm m ?n c (Some L) ?D) k (\<lambda>_ _ _. None)" for L
    using fc_closed [OF mo, of ?n c "Some L" ?D] by (simp add: closed_def)
  have start_ok: "fP pm m ?n c (Some L) ?D j (set_arr c arr h ! j)"
    if j: "j < k" and L: "sa_array (fst (c_array (h ! c))) ! L \<noteq> 0 \<Longrightarrow> sa_array (fst (c_array (h ! c))) ! L AND of_nat (m c) = a AND of_nat (m c)"
      and arr: "sa_array (fst arr) = sa_array (fst (c_array (h ! c)))" "snd arr = snd (c_array (h ! c))" for arr L j
  proof (cases "j = c")
    case True
    have f: "fgood pm (m c) (?n c) (Some L) ?D (h ! c)" by (rule fgood_focus [OF _ pmc(1)]) (use g c L in auto)
    show ?thesis using f unfolding True fP_def
      by (subst fgood_cong [of _ "h ! c"]) (simp_all add: set_arr_def nth_upd hl arr)
  next
    case False
    then show ?thesis using g j by (simp add: fP_def set_arr_def nth_upd)
  qed
  show ?thesis using r unfolding l1_access_def
  proof (cases rule: cache_access_get_cases [OF _ start req(2), consumes 1, case_names hit miss skip])
    case (hit arr l rc')
    note lk = fc_lookup [OF hit(1)]
    have "sa_array (fst (c_array (h ! c))) ! l = a" using lk(2) sa_find_elem [OF sym] req(1) by metis
    then have f0: "\<forall>j<k. fP pm m ?n c (Some l) ?D j (set_arr c arr h ! j)"
      by (intro allI impI start_ok) (use lk in simp_all)
    have "fr (fP pm m ?n c (Some l) ?D) k (set_arr c arr h) h'"
      by (rule fr_cc_access [OF pa ce _ cl hit(2)]) (simp add: req)
    with f0 show ?thesis unfolding fr_def by blast
  next
    case (miss arr arr2 l wb h2 r2 arr3 rc')
    obtain s1 where s1: "ca_lookup (?aops c) (c_array (h ! c)) a ?req True = Some (s1, sa_find ?hash (fst (c_array (h ! c))) a)"
      "fc_ainv k hash2 m w c s1" "sa_find ?hash (fst s1) = sa_find ?hash (fst (c_array (h ! c)))"
      using fsys.ca_lookup_ok [OF less_imp_le [OF c] inv a, of pm aw ?req True] by blast
    have arr: "fc_ainv k hash2 m w c arr" "sa_find ?hash (fst arr) a = None" using s1 miss(1) req(1) by auto
    note lk = fc_lookup [OF miss(1)]
    have pre: "ca_preinsert (?aops c) (cc_view_of (set_arr c arr h) c) arr a ?req = Some (arr2, l, wb)"
      using miss(2) req(1) hl by (simp add: set_arr_def)
    note p2 = fc_preinsert [OF pre]
    have pend: "fc_apend k hash2 m w c arr2 a l" "l < ?n c"
      using fsys.ca_preinsert_ok [OF less_imp_le [OF c] arr(1) a arr(2), of pm aw "cc_view_of (set_arr c arr h) c" ?req] pre by auto
    have sa2: "sa_array (fst arr2) = sa_array (fst (c_array (h ! c)))" "snd arr2 = snd (c_array (h ! c))" using lk p2 by auto
    have "sa_array (fst (c_array (h ! c))) ! l AND of_nat (m c) = a AND of_nat (m c)" if "sa_array (fst (c_array (h ! c))) ! l \<noteq> 0"
      using victim_set [of "m c" "w c" "fst arr2" l l a] pend that sa2
      by (simp add: fc_apend_def sa_pend_def hash fc_lines_def)
    then have f0: "\<forall>j<k. fP pm m ?n c (Some l) ?D j (set_arr c arr2 h ! j)" using start_ok sa2 by blast
    have "fr (fP pm m ?n c (Some l) ?D) k (set_arr c arr2 h) h2" by (rule fr_cc_evict [OF pa ce cl miss(3)])
    then have h2: "\<forall>j<k. fP pm m ?n c (Some l) ?D j (h2 ! j)" "length h2 = length h" using f0 by (auto simp: fr_def set_arr_def)
    note p3 = fc_postinsert [OF miss(4)]
    have "fP pm m ?n c (Some l) ?D j (set_arr c arr3 h2 ! j)" if j: "j < k" for j
    proof (cases "j = c")
      case True
      have "fgood pm (m c) (?n c) (Some l) ?D (h2 ! c)" using h2(1) c by (auto simp: fP_def)
      then have "fgood pm (m c) (?n c) (Some l) ?D (set_arr c arr3 h2 ! c)"
        by (rule fgood_postinsert) (use p3 hl h2(2) in \<open>simp_all add: set_arr_def\<close>)
      then show ?thesis by (simp add: True fP_def)
    next
      case False
      then show ?thesis using h2(1) j by (simp add: set_arr_def nth_upd)
    qed
    then have f3: "\<forall>j<k. fP pm m ?n c (Some l) ?D j (set_arr c arr3 h2 ! j)" by blast
    have "fr (fP pm m ?n c (Some l) ?D) k (set_arr c arr3 h2) h'"
      by (rule fr_cc_access [OF pa ce _ cl miss(5)]) (simp add: req)
    with f3 show ?thesis unfolding fr_def by blast
  next
    case (skip arr)
    then show ?thesis using hl by (simp add: cc_shouldAllocate_def set_arr_def nth_upd)
  qed
qed

text \<open>Every state that the cores reach is well-formed: the hierarchy is coherent and the filters are right.\<close>

definition fc_ok :: "addr \<Rightarrow> nat \<Rightarrow> (nat \<Rightarrow> addr \<Rightarrow> u64) \<Rightarrow> (nat \<Rightarrow> nat) \<Rightarrow> (nat \<Rightarrow> nat) \<Rightarrow> fc_array hier \<Rightarrow> bool" where
  "fc_ok pm k hash2 m w h \<longleftrightarrow>
     masks_ok pm k m \<and> fsys.hier_ok k hash2 m w h \<and> (\<forall>j<k. fgood pm (m j) (fc_lines m w j) None {} (h ! j))"

definition fc_holds :: "addr \<Rightarrow> nat \<Rightarrow> fc_array hier \<Rightarrow> nat \<Rightarrow> addr \<Rightarrow> bool \<Rightarrow> bool" where
  "fc_holds pm n h c v isLoad \<longleftrightarrow>
     (\<exists>l<n. tg (\<lambda>_ s. sa_tag (fst s)) h c l = pm OR v \<and> st h c l \<noteq> I \<and> (\<not> isLoad \<longrightarrow> st h c l = M))"

lemma set_arr_self [simp]: "set_arr c (c_array (h ! c)) h = h"
  by (simp add: set_arr_def)

lemma fc_set_hier_ok:
  assumes ok: "fsys.hier_ok k hash2 m w h" and c: "c < k"
  shows "fsys.hier_ok k hash2 m w (fc_set c f h)"
proof -
  have sh: "shape k (fc_lines m w) h" using ok by (simp add: fsys.hier_ok_def)
  then have len: "c < length h" using c by (simp add: shape_def)
  have "shape k (fc_lines m w) (fc_set c f h)" using sh by (subst shape_cong [of _ h]) (simp_all add: fc_set_def)
  moreover have "fsys.coh m w k (fc_set c f h)"
    using fsys.coh_set_arr(1) [OF sh less_imp_le [OF c]] ok by (simp add: fc_set_def fsys.hier_ok_def tg_def fun_eq_iff)
  moreover have "fst (c_array (fc_set c f h ! j)) = fst (c_array (h ! j))" for j
    using len by (simp add: fc_set_def arr_set_arr)
  ultimately show ?thesis using ok by (simp add: fsys.hier_ok_def fsys.l1s_ok_def fc_ainv_def)
qed

lemma fc_set_nth:
  assumes "c < length h"
  shows "sa_array (fst (c_array (fc_set c f h ! j))) = sa_array (fst (c_array (h ! j)))"
    "snd (c_array (fc_set c f h ! j)) = (if j = c then f else snd (c_array (h ! j)))"
    "bc_array (c_bcc (fc_set c f h ! j)) = bc_array (c_bcc (h ! j))"
  using assms by (auto simp: fc_set_def set_arr_def nth_upd)

lemma fc_ok_len: "fc_ok pm k hash2 m w h \<Longrightarrow> c < k \<Longrightarrow> c < length h"
  by (auto simp: fc_ok_def fsys.hier_ok_def shape_def)

lemma fc_set_ok:
  assumes ok: "fc_ok pm k hash2 m w h" and c: "c < k" and f: "fgood pm (m c) (fc_lines m w c) None {} (fc_set c f h ! c)"
  shows "fc_ok pm k hash2 m w (fc_set c f h)"
proof -
  have "fgood pm (m j) (fc_lines m w j) None {} (fc_set c f h ! j)" if "j < k" for j
  proof (cases "j = c")
    case False
    with ok that show ?thesis
      by (subst fgood_cong [of _ "h ! j"]) (auto simp: fc_set_nth [OF fc_ok_len [OF ok c]] fc_ok_def)
  qed (simp add: f)
  with ok fc_set_hier_ok [OF _ c] show ?thesis by (simp add: fc_ok_def)
qed

lemma fc_ok_count:
  assumes ok: "fc_ok pm k hash2 m w h" and c: "c < k" and f: "ft_array f = ft_array (fc_filter h c)"
    "ft_setMask f = ft_setMask (fc_filter h c)" "ft_reqFlags f = ft_reqFlags (fc_filter h c)"
  shows "fc_ok pm k hash2 m w (fc_set c f h)"
proof (rule fc_set_ok [OF ok c])
  have "fgood pm (m c) (fc_lines m w c) None {} (h ! c)" using ok c by (simp add: fc_ok_def)
  then show "fgood pm (m c) (fc_lines m w c) None {} (fc_set c f h ! c)"
    by (auto simp: fgood_def Let_def fc_set_nth [OF fc_ok_len [OF ok c]] f ft_idx_def)
qed

lemma fc_ok_switch:
  assumes ok: "fc_ok pm k hash2 m w h" and c: "c < k"
  shows "fc_ok pm k hash2 m w (fc_contextSwitch c h)"
  unfolding fc_contextSwitch_def
proof (rule fc_set_ok [OF ok c])
  have "fgood pm (m c) (fc_lines m w c) None {} (h ! c)" using ok c by (simp add: fc_ok_def)
  then show "fgood pm (m c) (fc_lines m w c) None {}
      (fc_set c ((fc_filter h c)\<lparr>ft_array := map fe_clear (ft_array (fc_filter h c))\<rparr>) h ! c)"
    by (auto simp: fgood_def Let_def fc_set_nth [OF fc_ok_len [OF ok c]] fe_clear_def fe_ok_def fe_none_def)
qed

lemma fc_holds_set: "c < length h \<Longrightarrow> fc_holds pm n (fc_set c' f h) c v isLoad = fc_holds pm n h c v isLoad"
  by (simp add: fc_holds_def tg_def fc_set_def sa_tag_def) (simp add: set_arr_def nth_upd)

text \<open>A hit of the filter: the entry's address is in the cache.\<close>

lemma fe_ok_holds:
  assumes ok: "fc_ok pm k hash2 m w h" and c: "c < k" and i: "i < Suc (m c)"
    and v: "v \<noteq> 0" "v \<noteq> -1" and e: "v = fe_rdAddr (ft_array (fc_filter h c) ! i) \<and> isLoad \<or> v = fe_wrAddr (ft_array (fc_filter h c) ! i)"
  shows "fc_holds pm (fc_lines m w c) h c v isLoad"
proof -
  let ?e = "ft_array (fc_filter h c) ! i"
  have g: "fgood pm (m c) (fc_lines m w c) None {} (h ! c)" using ok c by (simp add: fc_ok_def)
  have "fe_ok pm (fc_lines m w c) (sa_array (fst (c_array (h ! c)))) (bc_array (c_bcc (h ! c))) None ?e"
    using g i by (simp add: fgood_def Let_def)
  then obtain l where l: "l < fc_lines m w c" "sa_array (fst (c_array (h ! c))) ! l = pm OR v" "st h c l \<noteq> I"
      "\<not> isLoad \<longrightarrow> st h c l = M"
    using v e unfolding fe_ok_def fe_none_def by (auto simp: st_def)
  have "fc_ainv k hash2 m w c (c_array (h ! c))" using ok c by (simp add: fc_ok_def fsys.hier_ok_def fsys.l1s_ok_def)
  then have "length (sa_array (fst (c_array (h ! c)))) = fc_lines m w c"
    by (simp add: fc_ainv_def sa_inv_def sa_shape_def fc_lines_def)
  with l show ?thesis by (auto simp: fc_holds_def tg_def sa_tag_def)
qed

text \<open>After an access that the filter missed, the entry is right again.\<close>

lemma fgood_fill:
  assumes g: "fgood pm m n (Some L) {idx} x" and idx: "idx = ft_idx (snd (c_array x)) v" "idx < Suc m"
    and f: "snd (c_array y) = ft_fill v idx isLoad resp (snd (c_array x))"
    and sa: "sa_array (fst (c_array y)) = sa_array (fst (c_array x))" and b: "bc_array (c_bcc y) = bc_array (c_bcc x)"
    and l: "l < n" "sa_array (fst (c_array x)) ! l = pm OR v" "bc_array (c_bcc x) ! l \<noteq> I" "\<not> isLoad \<longrightarrow> bc_array (c_bcc x) ! l = M"
    and v: "v \<noteq> -1"
  shows "fgood pm m n None {} y"
proof -
  let ?f = "snd (c_array x)" and ?f' = "ft_fill v idx isLoad resp (snd (c_array x))"
  have f0: "length (ft_array ?f) = Suc m" "ft_setMask ?f = of_nat m" "ft_reqFlags ?f AND PREFETCH = 0"
    using g by (auto simp: fgood_def Let_def)
  have f1: "length (ft_array ?f') = Suc m" "ft_setMask ?f' = of_nat m" "ft_reqFlags ?f' AND PREFETCH = 0"
    and ix: "ft_idx ?f' = ft_idx ?f"
    using f0 by (auto simp: ft_fill_def Let_def ft_idx_def fun_eq_iff)
  have "fe_ok pm n (sa_array (fst (c_array x))) (bc_array (c_bcc x)) None (ft_array ?f' ! i) \<and>
         (fe_none (fe_rdAddr (ft_array ?f' ! i)) \<or> ft_idx ?f (fe_rdAddr (ft_array ?f' ! i)) = i)" if i: "i < Suc m" for i
  proof (cases "i = idx")
    case True
    then have e: "fe_rdAddr (ft_array ?f' ! i) = v" "fe_wrAddr (ft_array ?f' ! i) = (if isLoad then -1 else v)"
      using i f0(1) by (auto simp: ft_fill_def Let_def)
    show ?thesis unfolding fe_ok_def e using l v idx(1) True by (auto simp: fe_none_def)
  next
    case False
    then have "ft_array ?f' ! i = ft_array ?f ! i" by (simp add: ft_fill_def Let_def)
    moreover have "fe_ok pm n (sa_array (fst (c_array x))) (bc_array (c_bcc x)) (Some L) (ft_array ?f ! i) \<and>
         (fe_none (fe_rdAddr (ft_array ?f ! i)) \<or> ft_idx ?f (fe_rdAddr (ft_array ?f ! i)) = i)"
      using g i False by (simp add: fgood_def Let_def)
    ultimately show ?thesis unfolding fe_ok_def by auto
  qed
  then show ?thesis unfolding fgood_def Let_def f ix sa b using f1 by simp
qed

lemma fc_replace_ok:
  assumes ok: "fc_ok pm k hash2 m w h" and c: "c < k" and v: "v \<noteq> 0" "v \<noteq> -1" and idx: "idx = ft_idx (fc_filter h c) v"
  shows "\<exists>h' resp. fc_replace pm (fc_aops pm k hash2 aw) (Suc lat) k c v idx isLoad cyc h = Some (h', resp) \<and>
    fc_ok pm k hash2 m w h' \<and> cyc \<le> resp \<and> fc_holds pm (fc_lines m w c) h' c v isLoad"
proof -
  let ?n = "fc_lines m w" and ?f = "fc_filter h c" and ?tg = "tg (\<lambda>_ s. sa_tag (fst s))"
  let ?req = "core_req (pm OR v) isLoad cyc (ft_srcId ?f) (ft_reqFlags ?f)"
  have mo: "masks_ok pm k m" and hk: "fsys.hier_ok k hash2 m w h" and g: "\<forall>j<k. fgood pm (m j) (?n j) None {} (h ! j)"
    using ok by (auto simp: fc_ok_def)
  have pmc: "pm AND of_nat (m c) = 0" "m c < 2 ^ 32" using mo c by (auto simp: masks_ok_def)
  have gc: "length (ft_array ?f) = Suc (m c)" "ft_setMask ?f = of_nat (m c)" "ft_reqFlags ?f AND PREFETCH = 0"
    using g c by (auto simp: fgood_def Let_def)
  have nz: "pm OR v \<noteq> 0" using v or_zero_right by blast
  obtain h1 resp l where acc: "l1_access (fc_aops pm k hash2 aw) (Suc lat) k c h ?req = Some (h1, resp)"
    and hk1: "fsys.hier_ok k hash2 m w h1" and cyc: "cyc \<le> resp"
    and l: "l < ?n c" "?tg h1 c l = pm OR v" "st h1 c l \<noteq> I" "\<not> isLoad \<longrightarrow> st h1 c l = M"
    using fsys.l1_access_ok [OF hk c nz gc(3), of pm aw lat isLoad cyc "ft_srcId ?f"] by blast
  obtain L where L: "\<And>j. j < k \<Longrightarrow> fP pm m ?n c (Some L) {unat ((pm OR v) AND of_nat (m c))} j (h1 ! j)"
    using fc_access_frame [OF mo c hk g nz acc] by blast
  have ix: "unat ((pm OR v) AND of_nat (m c)) = idx"
    using ft_idx_mask [of pm ?f v] pmc(1) gc(2) by (simp add: idx ft_idx_def)
  have g1: "fgood pm (m c) (?n c) (Some L) {idx} (h1 ! c)" using L [OF c] by (simp add: fP_def ix)
  then have mask1: "ft_setMask (fc_filter h1 c) = of_nat (m c)" by (simp add: fgood_def Let_def)
  let ?h' = "fc_set c (ft_fill v idx isLoad resp (fc_filter h1 c)) h1"
  have c1: "c < length h1" using hk1 c by (auto simp: fsys.hier_ok_def shape_def)
  have tag: "sa_array (fst (c_array (h1 ! c))) ! l = pm OR v"
    using l(2) nz by (auto simp: tg_def sa_tag_def split: if_splits)
  have gj: "fgood pm (m j) (?n j) None {} (?h' ! j)" if j: "j < k" for j
  proof (cases "j = c")
    case True
    show ?thesis unfolding True
    proof (rule fgood_fill [OF g1])
      show "idx = ft_idx (fc_filter h1 c) v" using mask1 gc(2) by (simp add: idx ft_idx_def)
      then show "idx < Suc (m c)" using ft_idx_less [OF mask1 pmc(2)] by simp
    qed (use l tag v in \<open>simp_all add: fc_set_nth [OF c1] st_def\<close>)
  next
    case False
    have "fgood pm (m j) (?n j) None {} (h1 ! j)" using L [OF j] False by (simp add: fP_def)
    then show ?thesis using False by (subst fgood_cong [of _ "h1 ! j"]) (simp_all add: fc_set_nth [OF c1])
  qed
  have "fc_ok pm k hash2 m w ?h'" unfolding fc_ok_def using mo fc_set_hier_ok [OF hk1 c] gj by blast
  moreover have "fc_holds pm (?n c) ?h' c v isLoad" unfolding fc_holds_set [OF c1] using l by (auto simp: fc_holds_def)
  ultimately show ?thesis using cyc acc by (simp add: fc_replace_def Let_def)
qed

lemma shifted_neq: "0 < n \<Longrightarrow> drop_bit n (a::addr) \<noteq> -1"
proof
  assume n: "0 < n" and e: "drop_bit n a = -1"
  have "bit (drop_bit n a) 63" unfolding e by simp
  then have "bit a (n + 63)" by (simp add: bit_drop_bit_eq add.commute)
  then have "n + 63 < 64" using bit_imp_le_length [of a "n + 63"] by simp
  with n show False by simp
qed

lemma fc_line_idx: "fc_ok pm k hash2 m w h \<Longrightarrow> c < k \<Longrightarrow> ft_idx (fc_filter h c) v < Suc (m c)"
  by (rule ft_idx_less) (auto simp: fc_ok_def fgood_def Let_def masks_ok_def)

definition fc_go :: "addr \<Rightarrow> nat \<Rightarrow> (nat \<Rightarrow> addr \<Rightarrow> u64) \<Rightarrow> (nat \<Rightarrow> bool) \<Rightarrow> nat \<Rightarrow> nat \<Rightarrow> nat \<Rightarrow> addr \<Rightarrow> bool \<Rightarrow> nat \<Rightarrow>
    fc_array hier \<Rightarrow> (fc_array hier \<times> nat) option" where
  "fc_go pm k hash2 aw lat lineBits c vAddr isLoad cyc h =
     (if isLoad then fc_load else fc_store) pm (fc_aops pm k hash2 aw) lat k lineBits c vAddr cyc h"

lemma fc_go_ok:
  assumes ok: "fc_ok pm k hash2 m w h" and c: "c < k" and v: "0 < lineBits" "drop_bit lineBits vAddr \<noteq> 0"
  shows "\<exists>h' resp. fc_go pm k hash2 aw (Suc lat) lineBits c vAddr isLoad cyc h = Some (h', resp) \<and>
    fc_ok pm k hash2 m w h' \<and> cyc \<le> resp \<and> fc_holds pm (fc_lines m w c) h' c (drop_bit lineBits vAddr) isLoad"
proof -
  let ?v = "drop_bit lineBits vAddr" and ?f = "fc_filter h c"
  let ?e = "ft_array ?f ! ft_idx ?f ?v"
  have v1: "?v \<noteq> -1" by (rule shifted_neq [OF v(1)])
  note rep = fc_replace_ok [OF ok c v(2) v1 refl, of aw lat isLoad cyc]
  note hold = fe_ok_holds [OF ok c fc_line_idx [OF ok c] v(2) v1]
  have hit: "fc_ok pm k hash2 m w (fc_set c f h) \<and> fc_holds pm (fc_lines m w c) (fc_set c f h) c ?v isLoad"
    if "ft_array f = ft_array ?f" "ft_setMask f = ft_setMask ?f" "ft_reqFlags f = ft_reqFlags ?f"
      "?v = fe_rdAddr ?e \<and> isLoad \<or> ?v = fe_wrAddr ?e" for f
    using fc_ok_count [OF ok c that(1-3)] hold [OF that(4)] fc_holds_set [OF fc_ok_len [OF ok c]] by blast
  show ?thesis
  proof (cases "if isLoad then ?v = fe_rdAddr ?e else ?v = fe_wrAddr ?e")
    case True
    then show ?thesis using hit by (cases isLoad) (simp_all add: fc_go_def fc_load_def fc_store_def Let_def)
  next
    case False
    then show ?thesis using rep by (cases isLoad) (simp_all add: fc_go_def fc_load_def fc_store_def Let_def)
  qed
qed

text \<open>After an access the filter's entry is that of its line.\<close>

lemma fc_go_entry:
  assumes ok: "fc_ok pm k hash2 m w h" "fc_ok pm k hash2 m w h'" and c: "c < k" and v: "0 < lineBits" "drop_bit lineBits vAddr \<noteq> 0"
    and go: "fc_go pm k hash2 aw lat lineBits c vAddr isLoad cyc h = Some (h', resp)"
  shows "fe_rdAddr (ft_array (fc_filter h' c) ! ft_idx (fc_filter h' c) (drop_bit lineBits vAddr)) = drop_bit lineBits vAddr"
proof -
  let ?v = "drop_bit lineBits vAddr" and ?f = "fc_filter h c"
  let ?e = "ft_array ?f ! ft_idx ?f ?v"
  have v1: "?v \<noteq> -1" by (rule shifted_neq [OF v(1)])
  note l = fc_ok_len [OF ok(1) c]
  have g: "fgood pm (m c) (fc_lines m w c) None {} (h ! c)" "fgood pm (m c) (fc_lines m w c) None {} (h' ! c)"
    using ok c by (simp_all add: fc_ok_def)
  have wr: "?v = fe_wrAddr ?e \<Longrightarrow> ?v = fe_rdAddr ?e"
    using g(1) fc_line_idx [OF ok(1) c, of ?v] v(2) v1 by (auto simp: fgood_def Let_def fe_ok_def fe_none_def)
  show ?thesis
  proof (cases "if isLoad then ?v = fe_rdAddr ?e else ?v = fe_wrAddr ?e")
    case True
    then show ?thesis using go wr l by (cases isLoad) (auto simp: fc_go_def fc_load_def fc_store_def Let_def fc_set_nth ft_idx_def)
  next
    case False
    then have "fc_replace pm (fc_aops pm k hash2 aw) lat k c ?v (ft_idx ?f ?v) isLoad cyc h = Some (h', resp)"
      using go by (cases isLoad) (simp_all add: fc_go_def fc_load_def fc_store_def Let_def)
    then obtain h1 r where h': "h' = fc_set c (ft_fill ?v (ft_idx ?f ?v) isLoad r (fc_filter h1 c)) h1"
      by (auto simp: fc_replace_def Let_def split: bind_splits)
    have "length h' = length h1" by (simp add: h' fc_set_def set_arr_def)
    then have e: "fc_filter h' c = ft_fill ?v (ft_idx ?f ?v) isLoad r (fc_filter h1 c)"
      using fc_ok_len [OF ok(2) c] by (simp add: h' fc_set_nth)
    have "ft_idx (fc_filter h' c) ?v = ft_idx ?f ?v" using g by (simp add: fgood_def Let_def ft_idx_def)
    moreover have "ft_idx ?f ?v < length (ft_array (fc_filter h' c))" using g(2) fc_line_idx [OF ok(1) c, of ?v] by (simp add: fgood_def Let_def)
    ultimately show ?thesis unfolding e by (simp add: ft_fill_def Let_def)
  qed
qed

section \<open>Reachable states and the property\<close>

inductive fc_reach :: "addr \<Rightarrow> nat \<Rightarrow> (nat \<Rightarrow> addr \<Rightarrow> u64) \<Rightarrow> (nat \<Rightarrow> bool) \<Rightarrow> nat \<Rightarrow> nat \<Rightarrow> fc_array hier \<Rightarrow> fc_array hier \<Rightarrow> bool"
  for pm k hash2 aw lat lineBits h0 where
  init: "fc_reach pm k hash2 aw lat lineBits h0 h0"
| access: "fc_reach pm k hash2 aw lat lineBits h0 h \<Longrightarrow> c < k \<Longrightarrow> drop_bit lineBits vAddr \<noteq> 0 \<Longrightarrow>
    fc_go pm k hash2 aw lat lineBits c vAddr isLoad cyc h = Some (h', resp) \<Longrightarrow> fc_reach pm k hash2 aw lat lineBits h0 h'"
| switch: "fc_reach pm k hash2 aw lat lineBits h0 h \<Longrightarrow> c < k \<Longrightarrow> fc_reach pm k hash2 aw lat lineBits h0 (fc_contextSwitch c h)"

definition fc_start :: "addr \<Rightarrow> nat \<Rightarrow> (nat \<Rightarrow> addr \<Rightarrow> u64) \<Rightarrow> (nat \<Rightarrow> nat) \<Rightarrow> (nat \<Rightarrow> nat) \<Rightarrow> fc_array hier \<Rightarrow> bool" where
  "fc_start pm k hash2 m w h0 \<longleftrightarrow> masks_ok pm k m \<and>
     (\<exists>arrs rtt accLat invLat. two_level_new k (fc_lines m w) arrs rtt accLat invLat = Some h0 \<and>
        (\<forall>c\<le>k. fc_ainv k hash2 m w c (arrs c)) \<and>
        (\<forall>c<k. \<exists>src flags. flags AND PREFETCH = 0 \<and> snd (arrs c) = ft_new (Suc (m c)) src flags))"

definition fc_run :: "addr \<Rightarrow> nat \<Rightarrow> nat \<Rightarrow> nat \<Rightarrow> (nat \<Rightarrow> addr \<Rightarrow> u64) \<Rightarrow> (nat \<Rightarrow> bool) \<Rightarrow> (nat \<Rightarrow> nat) \<Rightarrow> (nat \<Rightarrow> nat) \<Rightarrow> fc_array hier \<Rightarrow> bool" where
  "fc_run pm k lat lineBits hash2 aw m w h \<longleftrightarrow>
     (\<exists>h0. fc_start pm k hash2 m w h0 \<and> fc_reach pm k hash2 aw (Suc lat) lineBits h0 h)"

lemma fc_reach_ok:
  assumes "fc_reach pm k hash2 aw (Suc lat) lineBits h0 h" and "fc_ok pm k hash2 m w h0" and lb: "0 < lineBits"
  shows "fc_ok pm k hash2 m w h"
  using assms(1,2)
proof (induction rule: fc_reach.induct)
  case (access h c vAddr isLoad cyc h' resp)
  from fc_go_ok [OF access.IH [OF access.prems] access.hyps(2) lb access.hyps(3), of aw lat isLoad cyc] access.hyps(4)
  show ?case by auto
next
  case (switch h c)
  then show ?case by (simp add: fc_ok_switch)
qed

lemma fc_new_ok:
  assumes new: "two_level_new k (fc_lines m w) arrs rtt accLat invLat = Some h" and inv: "\<forall>c\<le>k. fc_ainv k hash2 m w c (arrs c)"
    and ft: "\<forall>c<k. \<exists>src flags. flags AND PREFETCH = 0 \<and> snd (arrs c) = ft_new (Suc (m c)) src flags" and mo: "masks_ok pm k m"
  shows "fc_ok pm k hash2 m w h"
proof -
  have arr: "c_array (h ! j) = arrs j" if "j < k" for j
    using new that by (auto simp: two_level_new_def cache_new_def nth_append)
  have "fgood pm (m j) (fc_lines m w j) None {} (h ! j)" if j: "j < k" for j
  proof -
    obtain src flags where "flags AND PREFETCH = 0" "snd (arrs j) = ft_new (Suc (m j)) src flags" using ft j by blast
    then show ?thesis by (simp add: fgood_def Let_def arr [OF j] ft_new_def fe_ok_def fe_none_def del: replicate_Suc)
  qed
  then show ?thesis using mo fsys.hier_ok_new [OF new inv] by (simp add: fc_ok_def)
qed

lemma fc_start_ok: "fc_start pm k hash2 m w h \<Longrightarrow> fc_ok pm k hash2 m w h"
  unfolding fc_start_def by (elim conjE exE) (rule fc_new_ok)

lemma fc_run_ok:
  assumes "fc_run pm k lat lineBits hash2 aw m w h" and "0 < lineBits"
  shows "fc_ok pm k hash2 m w h"
  using assms fc_reach_ok [OF _ fc_start_ok] by (auto simp: fc_run_def)

lemma fc_run_go:
  assumes r: "fc_run pm k lat lineBits hash2 aw m w h" and c: "c < k" and v: "0 < lineBits" "drop_bit lineBits vAddr \<noteq> 0"
  shows "\<exists>h' resp. fc_go pm k hash2 aw (Suc lat) lineBits c vAddr isLoad cyc h = Some (h', resp) \<and>
    fc_run pm k lat lineBits hash2 aw m w h' \<and> cyc \<le> resp \<and> fc_holds pm (fc_lines m w c) h' c (drop_bit lineBits vAddr) isLoad"
proof -
  from fc_go_ok [OF fc_run_ok [OF r v(1)] c v, of aw lat isLoad cyc] obtain h' resp where
    go: "fc_go pm k hash2 aw (Suc lat) lineBits c vAddr isLoad cyc h = Some (h', resp)" "cyc \<le> resp"
      "fc_holds pm (fc_lines m w c) h' c (drop_bit lineBits vAddr) isLoad" by auto
  moreover have "fc_run pm k lat lineBits hash2 aw m w h'"
  proof -
    from r obtain h0 where i: "fc_start pm k hash2 m w h0" and re: "fc_reach pm k hash2 aw (Suc lat) lineBits h0 h"
      unfolding fc_run_def by blast
    show ?thesis unfolding fc_run_def using i fc_reach.access [OF re c v(2) go(1)] by auto
  qed
  ultimately show ?thesis by blast
qed

text \<open>The smallest instance: two filter caches of two sets and two ways over one of the same geometry.\<close>

lemma fc_run_ex: "\<exists>h. fc_run (2 ^ 58) 2 0 6 (\<lambda>_ a. a) (\<lambda>_. False) (\<lambda>_. 1) (\<lambda>_. 1) h"
proof -
  obtain s where s: "sa_rp s = lru_new 4" "sa_shape (\<lambda>_ a. a) 2 2 s"
    using sa_new_shape [of 2 1 2 "lru_new 4" "\<lambda>_ a. a"] by auto
  then have inv: "fc_ainv 2 (\<lambda>_ a. a) (\<lambda>_. 1) (\<lambda>_. 1) c (s, ft_new (Suc 1) 0 0)" for c
    using lru_inv_new [of 4] by (simp add: fc_ainv_def fc_lines_def fc_hash_def sa_inv_def numeral_eq_Suc)
  have "\<exists>h. two_level_new 2 (fc_lines (\<lambda>_. 1) (\<lambda>_. 1)) (\<lambda>_. (s, ft_new (Suc 1) 0 0)) 1 (\<lambda>_. 1) (\<lambda>_. 1) = Some h"
    by (simp add: two_level_new_def tcc_new_def)
  then obtain h where h: "two_level_new 2 (fc_lines (\<lambda>_. 1) (\<lambda>_. 1)) (\<lambda>_. (s, ft_new (Suc 1) 0 0)) 1 (\<lambda>_. 1) (\<lambda>_. 1) = Some h" ..
  have "masks_ok (2 ^ 58) 2 (\<lambda>_. 1)" by (simp add: masks_ok_def)
  moreover have "\<exists>src flags. flags AND PREFETCH = 0 \<and> snd (s, ft_new (Suc 1) 0 0) = ft_new (Suc 1) src flags"
    by (intro exI [of _ 0]) simp
  ultimately have "fc_start (2 ^ 58) 2 (\<lambda>_ a. a) (\<lambda>_. 1) (\<lambda>_. 1) h" unfolding fc_start_def using h inv by blast
  then show ?thesis unfolding fc_run_def using fc_reach.init by blast
qed

lemma two_by_two: "fc_lines (\<lambda>_. 1) (\<lambda>_. 1) c = 4"
  by (simp add: fc_lines_def)

text \<open>C5. Filter safety within one process and away from line 0: all accesses are made by cores that run the process with
  \<open>procMask\<close> \<open>pm\<close>, and none to line 0. After any sequence of such loads and stores and of context switches, a load or a store
  of any core, whether the filter serves it or the cache does, returns, not before it was issued, and leaves the
  core's cache holding the line, in M after a store. So the filter does not serve a line that the accesses of the process
  have taken away, though it is only told of invalidations and not of evictions. Both restrictions are needed. An
  invalidation that another process makes, with a mask \<open>pm'\<close> for which the line is not \<open>pm'\<close> or the virtual line, leaves the
  filter as it is, so that the entry of the line that was just accessed stays and outlives the line in the cache (the FIXME
  in \<open>invalidate\<close>); and \<open>fc_line0_hits_after_switch\<close> shows line 0 to hit without the cache.\<close>

theorem filter_hits_permitted:
  assumes "fc_run pm k lat lineBits hash2 aw m w h" and "c < k" and "0 < lineBits" and "drop_bit lineBits vAddr \<noteq> 0"
  shows "\<exists>h' resp. fc_go pm k hash2 aw (Suc lat) lineBits c vAddr isLoad cyc h = Some (h', resp) \<and>
    fc_run pm k lat lineBits hash2 aw m w h' \<and> cyc \<le> resp \<and> fc_holds pm (fc_lines m w c) h' c (drop_bit lineBits vAddr) isLoad \<and>
    (\<forall>pm'. pm' OR drop_bit lineBits vAddr \<noteq> pm OR drop_bit lineBits vAddr \<longrightarrow>
      ft_inval pm' (pm OR drop_bit lineBits vAddr) (fc_filter h' c) = fc_filter h' c)"
proof -
  let ?v = "drop_bit lineBits vAddr"
  from fc_run_go [OF assms, of isLoad cyc] obtain h' resp where go: "fc_go pm k hash2 aw (Suc lat) lineBits c vAddr isLoad cyc h = Some (h', resp)"
    "fc_run pm k lat lineBits hash2 aw m w h'" "cyc \<le> resp" "fc_holds pm (fc_lines m w c) h' c ?v isLoad" by blast
  note ok = fc_run_ok [OF assms(1,3)] fc_run_ok [OF go(2) assms(3)]
  have "pm AND ft_setMask (fc_filter h' c) = 0" using ok(2) assms(2) by (auto simp: fc_ok_def fgood_def masks_ok_def Let_def)
  then have ix: "ft_idx (fc_filter h' c) (pm OR ?v) = ft_idx (fc_filter h' c) ?v" by (rule ft_idx_mask)
  have "ft_inval pm' (pm OR ?v) (fc_filter h' c) = fc_filter h' c" if "pm' OR ?v \<noteq> pm OR ?v" for pm'
    using that fc_go_entry [OF ok assms(2,3,4) go(1)] unfolding ft_inval_def ix by (simp add: Let_def or.commute)
  then show ?thesis using go by blast
qed

theorem filter_hits_permitted_witness:
  "\<exists>h h' resp. fc_run (2 ^ 58) 2 0 6 (\<lambda>_ a. a) (\<lambda>_. False) (\<lambda>_. 1) (\<lambda>_. 1) h \<and>
    fc_go (2 ^ 58) 2 (\<lambda>_ a. a) (\<lambda>_. False) 1 6 1 0x1C7 False 10 h = Some (h', resp) \<and> 10 \<le> resp \<and>
    fc_holds (2 ^ 58) 4 h' 1 7 False"
proof -
  obtain h where h: "fc_run (2 ^ 58) 2 0 6 (\<lambda>_ a. a) (\<lambda>_. False) (\<lambda>_. 1) (\<lambda>_. 1) h" using fc_run_ex by blast
  have v: "drop_bit 6 (0x1C7 :: addr) = 7" by simp
  from filter_hits_permitted [OF h, of 1 "0x1C7" False 10, unfolded two_by_two v] obtain h' resp where
    "fc_go (2 ^ 58) 2 (\<lambda>_ a. a) (\<lambda>_. False) (Suc 0) 6 1 0x1C7 False 10 h = Some (h', resp)" "10 \<le> resp"
    "fc_holds (2 ^ 58) 4 h' 1 7 False"
    by auto
  with h show ?thesis by auto
qed

text \<open>The filter takes 0 for a valid address: after a context switch (or at the start) a load of line 0 hits the
  filter though the cache may not hold it, with whatever state \<open>h\<close> has.\<close>

lemma fc_line0_hits_after_switch:
  assumes "c < length h" and "ft_array (fc_filter h c) \<noteq> []"
  shows "\<exists>h'. fc_load pm aops lat k lineBits c 0 cyc (fc_contextSwitch c h) = Some (h', cyc) \<and>
    st h' c l = st h c l \<and> tg (\<lambda>_ s. sa_tag (fst s)) h' c l = tg (\<lambda>_ s. sa_tag (fst s)) h c l"
proof -
  let ?f = "(fc_filter h c)\<lparr>ft_array := map fe_clear (ft_array (fc_filter h c))\<rparr>"
  have f: "fc_filter (fc_contextSwitch c h) c = ?f" by (simp add: fc_contextSwitch_def fc_set_nth [OF assms(1)])
  have "ft_idx ?f 0 = 0" by (simp add: ft_idx_def)
  then have e: "ft_array ?f ! ft_idx ?f (drop_bit lineBits 0) = fe_clear (ft_array (fc_filter h c) ! 0)"
    using assms(2) by simp
  show ?thesis unfolding fc_load_def Let_def f e
    by (simp add: fe_clear_def) (simp add: fc_contextSwitch_def fc_set_def set_arr_def tg_def st_def assms(1) sa_tag_def)
qed

end
