(* ===== verification/Hash_H3.thy ===== *)
theory Hash_H3
  imports Mt_Rand "HOL-Library.Multiset"
begin

text \<open>
  The hash families of \<^verbatim>\<open>zsim/src/hash.h\<close> and \<^verbatim>\<open>zsim/src/hash.cpp\<close>: the H3 family, with its random matrix drawn
  from the Mersenne Twister, the identity, and the SHA1 family over a library's \<open>sha1\<close>, a parameter here.
\<close>

section \<open>The H3 family\<close>

record h3 =
  h3_numFuncs :: u32
  h3_resShift :: nat
  h3_hMatrix :: "u64 list"

text \<open>\<open>k\<close> more bits of a matrix word are drawn.\<close>

primrec h3_bits :: "nat \<Rightarrow> mt \<Rightarrow> u64 \<Rightarrow> (u64 \<times> mt) option" where
  "h3_bits 0 rnd val = Some (val, rnd)"
| "h3_bits (Suc k) rnd val =
     Option.bind (mt_randInt rnd) (\<lambda>(r, rnd').
     let v = push_bit 1 val in h3_bits k rnd' (if r mod 2 = 0 then v + 1 else v))"

primrec h3_fill :: "nat list \<Rightarrow> mt \<Rightarrow> u64 list \<Rightarrow> u64 list option" where
  "h3_fill [] rnd M = Some M"
| "h3_fill (i # is) rnd M =
     Option.bind (h3_bits 64 rnd 0) (\<lambda>(val, rnd').
     Option.bind (guard (i < length M)) (\<lambda>_. h3_fill is rnd' (M[i := val])))"

definition h3_shift :: "u32 \<Rightarrow> nat option" where
  "h3_shift outputBits =
     (if outputBits \<le> 8 then Some 3 else if outputBits \<le> 16 then Some 2 else if outputBits \<le> 32 then Some 1
      else if outputBits \<le> 64 then Some 0 else None)"

text \<open>\<open>mem\<close> is what the generator's array holds before it is seeded.\<close>

definition h3_new :: "u32 \<Rightarrow> u32 \<Rightarrow> u64 \<Rightarrow> u64 list \<Rightarrow> h3 option" where
  "h3_new numFunctions outputBits randSeed mem =
     Option.bind (h3_shift outputBits) (\<lambda>resShift.
     let words = drop_bit resShift 64 :: u32 in
     Option.bind (h3_fill [unat (of_nat ii * words + of_nat jj). ii \<leftarrow> [0..<unat numFunctions], jj \<leftarrow> [0..<unat words]]
         (mt_seed randSeed mem) (replicate (unat (words * numFunctions)) 0)) (\<lambda>M.
     Some \<lparr>h3_numFuncs = numFunctions, h3_resShift = resShift, h3_hMatrix = M\<rparr>))"

definition h3_rotl :: "nat \<Rightarrow> u64 \<Rightarrow> u64" where
  "h3_rotl k w = push_bit k w OR drop_bit (64 - k) w"

text \<open>One pass of the unrolled loop.\<close>

definition h3_round :: "u64 list \<Rightarrow> u64 \<Rightarrow> nat \<Rightarrow> u64 \<Rightarrow> u64" where
  "h3_round M val base res =
     (let res0 = val AND M ! base; res1 = val AND M ! (base + 1);
          res2 = val AND M ! (base + 2); res3 = val AND M ! (base + 3);
          res4 = val AND M ! (base + 4); res5 = val AND M ! (base + 5);
          res6 = val AND M ! (base + 6); res7 = val AND M ! (base + 7);
          a = res XOR (res0 XOR h3_rotl 1 res1 XOR h3_rotl 2 res2 XOR h3_rotl 3 res3);
          b = a XOR (h3_rotl 4 res4 XOR h3_rotl 5 res5 XOR h3_rotl 6 res6 XOR h3_rotl 7 res7)
      in h3_rotl 8 b)"

primrec h3_rounds :: "h3 \<Rightarrow> u32 \<Rightarrow> u64 \<Rightarrow> nat list \<Rightarrow> u64 \<Rightarrow> u64 option" where
  "h3_rounds s f val [] res = Some res"
| "h3_rounds s f val (x # xs) res =
     (let base = unat (push_bit (6 - h3_resShift s) f + of_nat x) in
      Option.bind (guard (base + 7 < length (h3_hMatrix s))) (\<lambda>_.
      h3_rounds s f val xs (h3_round (h3_hMatrix s) val base res)))"

definition h3_fold :: "nat \<Rightarrow> u64 \<Rightarrow> u64" where
  "h3_fold resShift res =
     (if resShift = 1 then drop_bit 32 res XOR res
      else if resShift = 2 then let a = drop_bit 32 res XOR res in drop_bit 16 a XOR a
      else if resShift = 3 then let a = drop_bit 32 res XOR res; b = drop_bit 16 a XOR a in drop_bit 8 b XOR b
      else res)"

definition h3_hash :: "h3 \<Rightarrow> u32 \<Rightarrow> u64 \<Rightarrow> u64 option" where
  "h3_hash s f val =
     Option.bind (guard (f < h3_numFuncs s)) (\<lambda>_.
     let maxBits = drop_bit (h3_resShift s) (64 :: nat) in
     map_option (h3_fold (h3_resShift s)) (h3_rounds s f val (map (\<lambda>q. 8 * q) [0..<maxBits div 8]) 0))"

text \<open>The simpler code that the comment before \<open>hash\<close> gives for reference, on the rows of one function.\<close>

definition h3_simple :: "u64 list \<Rightarrow> u64 \<Rightarrow> u64" where
  "h3_simple rows val = fold (\<lambda>row res. h3_rotl 1 (res XOR (val AND row))) rows 0"

definition id_hash :: "u32 \<Rightarrow> u64 \<Rightarrow> u64" where
  "id_hash f val = val"

section \<open>Rotations and sums\<close>

lemma rotl_index:
  assumes "j < 64" and "k < (64 :: nat)"
  shows "((n + (64 - j)) mod 64 + (64 - k)) mod 64 = (n + (64 - (j + k) mod 64)) mod 64"
proof (cases "j + k < 64")
  case True
  then have "n + (64 - j) + (64 - k) = n + (64 - (j + k)) + 64" using assms by simp
  then have "(n + (64 - j) + (64 - k)) mod 64 = (n + (64 - (j + k))) mod 64" by (metis mod_add_self2)
  then show ?thesis using True by (simp only: mod_add_left_eq mod_less)
next
  case False
  then have "(j + k) mod 64 = j + k - 64" using assms by (simp add: mod_if)
  moreover from this False have "n + (64 - j) + (64 - k) = n + (64 - (j + k - 64))" using assms by simp
  ultimately show ?thesis by (simp only: mod_add_left_eq)
qed

lemma rotl_rotl: "word_rotl j (word_rotl k w) = word_rotl (j + k) (w :: u64)"
proof (rule bit_word_eqI)
  fix n
  show "bit (word_rotl j (word_rotl k w)) n = bit (word_rotl (j + k) w) n"
    using rotl_index [of "j mod 64" "k mod 64" n] by (simp add: bit_word_rotl_iff mod_simps)
qed

lemma rotl_mod: "word_rotl (k mod 64) w = word_rotl k (w :: u64)"
  by (rule bit_word_eqI) (simp add: bit_word_rotl_iff)

lemma len64: "LENGTH(64) = 64"
  by simp

lemma h3_rotl: "k < 64 \<Longrightarrow> h3_rotl k w = word_rotl k w"
proof (rule bit_word_eqI)
  fix n assume k: "k < 64" and "n < LENGTH(64)"
  then have n: "n < 64" by simp
  have "(n + (64 - k)) mod 64 = (if k \<le> n then n - k else n + (64 - k))" using k n by (auto simp: mod_if)
  then have r: "bit (word_rotl k w) n = bit w (if k \<le> n then n - k else n + (64 - k))"
    using k n by (simp only: bit_word_rotl_iff mod_less len64) simp
  have b: "bit (push_bit k w) n = (k \<le> n \<and> bit w (n - k))" "bit (drop_bit (64 - k) w) n = bit w (n + (64 - k))"
    using n by (auto simp: bit_simps ac_simps)
  have "\<not> bit w (n + (64 - k))" if "k \<le> n" using that bit_imp_le_length [of w "n + (64 - k)"] by auto
  then show "bit (h3_rotl k w) n = bit (word_rotl k w) n"
    unfolding r h3_rotl_def bit_or_iff b by auto
qed

lemma rotl_xor: "word_rotl k (v XOR w) = word_rotl k v XOR word_rotl k (w :: u64)"
  by (rule word_rotate.word_rot_logs)

definition xors :: "u64 list \<Rightarrow> u64" where
  "xors zs = foldr (XOR) zs 0"

lemma xors_simps [simp]: "xors [] = 0" "xors (z # zs) = z XOR xors zs"
  by (simp_all add: xors_def)

lemma xors_append [simp]: "xors (ys @ zs) = xors ys XOR xors zs"
  by (induction ys) (simp_all add: ac_simps)

lemma rotl_xors: "word_rotl k (xors zs) = xors (map (word_rotl k) zs)"
  by (induction zs) (simp_all add: rotl_xor)

lemma xors_xor: "xors (map (\<lambda>x. f x XOR g x) xs) = xors (map f xs) XOR xors (map g xs)"
  by (induction xs) (simp_all add: ac_simps)

lemma xors_remove1: "z \<in> set zs \<Longrightarrow> xors zs = z XOR xors (remove1 z zs)"
  by (induction zs) (auto simp: ac_simps)

lemma xors_mset: "mset ys = mset zs \<Longrightarrow> xors ys = xors zs"
proof (induction ys arbitrary: zs)
  case (Cons y ys)
  then have y: "y \<in> set zs" by (metis list.set_intros(1) set_mset_mset)
  have "mset ys = mset (remove1 y zs)" using Cons.prems by (metis mset.simps(2) mset_remove1 add_mset_remove_trivial)
  from Cons.IH [OF this] xors_remove1 [OF y] show ?case by simp
qed simp

section \<open>Both computations as a sum of rotated rows\<close>

lemma h3_round_eq:
  "h3_round M val base res = word_rotl 8 (res XOR xors (map (\<lambda>r. word_rotl r (val AND M ! (base + r))) [0..<8]))"
proof -
  have u: "[0..<8] = [0, 1, 2, 3, 4, 5, 6, 7 :: nat]" by (simp add: upt_rec)
  have z: "word_rotl 0 w = w" for w :: u64 by (rule bit_word_eqI) (simp add: bit_word_rotl_iff)
  show ?thesis by (simp add: h3_round_def Let_def h3_rotl u z ac_simps)
qed

definition h3_term :: "u64 list \<Rightarrow> nat \<Rightarrow> nat \<Rightarrow> u64 \<Rightarrow> nat \<Rightarrow> u64" where
  "h3_term M b n val x = word_rotl (8 * (n - x div 8) + x mod 8) (val AND M ! (b + x))"

lemma h3_rounds_sum:
  "fold (\<lambda>q. h3_round M val (b + 8 * q)) [0..<n] 0 = xors (map (h3_term M b n val) [0..<8 * n])"
proof (induction n)
  case (Suc n)
  have old: "word_rotl 8 (h3_term M b n val x) = h3_term M b (Suc n) val x" if "x < 8 * n" for x
  proof -
    have "x div 8 < n" using that by (simp add: div_less_iff_less_mult mult.commute)
    then have "8 + (8 * (n - x div 8) + x mod 8) = 8 * (Suc n - x div 8) + x mod 8" by simp
    then show ?thesis unfolding h3_term_def rotl_rotl by metis
  qed
  have new: "word_rotl 8 (word_rotl r (val AND M ! (b + 8 * n + r))) = h3_term M b (Suc n) val (8 * n + r)" if "r < 8" for r
    using that by (simp add: h3_term_def rotl_rotl add.assoc)
  have split: "[0..<8 * Suc n] = [0..<8 * n] @ map (\<lambda>r. 8 * n + r) [0..<8]"
  proof -
    have "map (\<lambda>r. 8 * n + r) [0..<8] = [8 * n..<8 * n + 8]" using map_add_upt [of "8 * n" 8] by (simp add: add.commute)
    then show ?thesis using upt_add_eq_append [of 0 "8 * n" 8] by (simp add: add.commute)
  qed
  have "fold (\<lambda>q. h3_round M val (b + 8 * q)) [0..<Suc n] 0 =
      word_rotl 8 (xors (map (h3_term M b n val) [0..<8 * n])) XOR
      word_rotl 8 (xors (map (\<lambda>r. word_rotl r (val AND M ! (b + 8 * n + r))) [0..<8]))"
    by (simp only: upt_Suc le0 if_True fold_append o_apply fold_simps Suc.IH h3_round_eq rotl_xor)
  also have "word_rotl 8 (xors (map (h3_term M b n val) [0..<8 * n])) = xors (map (h3_term M b (Suc n) val) [0..<8 * n])"
    unfolding rotl_xors map_map using old by (intro arg_cong [of _ _ xors] map_cong) simp_all
  also have "word_rotl 8 (xors (map (\<lambda>r. word_rotl r (val AND M ! (b + 8 * n + r))) [0..<8])) =
      xors (map (h3_term M b (Suc n) val) (map (\<lambda>r. 8 * n + r) [0..<8]))"
    unfolding rotl_xors map_map using new by (intro arg_cong [of _ _ xors] map_cong) simp_all
  finally show ?case unfolding split by simp
qed simp

lemma h3_simple_sum:
  "h3_simple rows val = xors (map (\<lambda>y. word_rotl (length rows - y) (val AND rows ! y)) [0..<length rows])"
proof (induction rows rule: rev_induct)
  case (snoc row rows)
  have old: "word_rotl 1 (word_rotl (length rows - y) (val AND rows ! y)) =
      word_rotl (Suc (length rows) - y) (val AND (rows @ [row]) ! y)" if "y < length rows" for y
    using that by (simp add: rotl_rotl nth_append Suc_diff_le)
  have "h3_simple (rows @ [row]) val = word_rotl 1 (h3_simple rows val) XOR word_rotl 1 (val AND row)"
    by (simp add: h3_simple_def h3_rotl rotl_xor)
  also have "word_rotl 1 (h3_simple rows val) =
      xors (map (\<lambda>y. word_rotl (Suc (length rows) - y) (val AND (rows @ [row]) ! y)) [0..<length rows])"
    unfolding snoc rotl_xors map_map using old by (intro arg_cong [of _ _ xors] map_cong) simp_all
  finally show ?case by (simp add: nth_append)
qed (simp add: h3_simple_def)

section \<open>The family as the constructor builds it\<close>

lemma h3_bits_ok: "mt_ok rnd \<Longrightarrow> \<exists>v rnd'. h3_bits k rnd val = Some (v, rnd') \<and> mt_ok rnd'"
proof (induction k arbitrary: rnd val)
  case (Suc k)
  obtain r rnd' where "mt_randInt rnd = Some (r, rnd')" "mt_ok rnd'" using mt_randInt_ok [OF Suc.prems] by blast
  then show ?case using Suc.IH by (simp add: Let_def)
qed simp

lemma h3_fill_ok:
  "mt_ok rnd \<Longrightarrow> set is \<subseteq> {..<length M} \<Longrightarrow> \<exists>M'. h3_fill is rnd M = Some M' \<and> length M' = length M"
proof (induction "is" arbitrary: rnd M)
  case (Cons i "is")
  obtain v rnd' where "h3_bits 64 rnd 0 = Some (v, rnd')" "mt_ok rnd'" using h3_bits_ok [OF Cons.prems(1)] by blast
  moreover have "\<exists>M'. h3_fill is rnd' (M[i := v]) = Some M' \<and> length M' = length M"
    using Cons.IH [OF \<open>mt_ok rnd'\<close>, of "M[i := v]"] Cons.prems(2) by simp
  ultimately show ?case using Cons.prems(2) by simp
qed simp

definition h3_ok :: "h3 \<Rightarrow> bool" where
  "h3_ok s \<longleftrightarrow> h3_resShift s \<le> 3 \<and> unat (h3_numFuncs s) \<le> 2 ^ 25 \<and>
     length (h3_hMatrix s) = 2 ^ (6 - h3_resShift s) * unat (h3_numFuncs s)"

lemma h3_words:
  assumes "rs \<le> 3"
  shows "unat (drop_bit rs 64 :: u32) = 2 ^ (6 - rs)" and "drop_bit rs (64 :: nat) = 2 ^ (6 - rs)"
    and "8 * (2 ^ (6 - rs) div 8) = (2 ^ (6 - rs) :: nat)" and "2 ^ (6 - rs) \<le> (64 :: nat)"
proof -
  have "rs \<in> {0, 1, 2, 3}" using assms by auto
  then show "unat (drop_bit rs 64 :: u32) = 2 ^ (6 - rs)" "drop_bit rs (64 :: nat) = 2 ^ (6 - rs)"
    "8 * (2 ^ (6 - rs) div 8) = (2 ^ (6 - rs) :: nat)" "2 ^ (6 - rs) \<le> (64 :: nat)"
    by (auto simp: drop_bit_eq_div unat_drop_bit_eq)
qed

lemma unat_u32_small: "n < 2 ^ 32 \<Longrightarrow> unat (of_nat n :: u32) = n"
  by (simp add: unsigned_of_nat take_bit_nat_eq_self)

lemma h3_new_ok:
  assumes "length mem = MT_N" and "outputBits \<le> 64" and n: "unat numFunctions \<le> 2 ^ 25"
  shows "\<exists>s. h3_new numFunctions outputBits randSeed mem = Some s \<and> h3_ok s \<and> h3_numFuncs s = numFunctions \<and>
    h3_shift outputBits = Some (h3_resShift s)"
proof -
  have "\<exists>rs. h3_shift outputBits = Some rs \<and> rs \<le> 3" using assms(2) by (simp add: h3_shift_def)
  then obtain rs where rs: "h3_shift outputBits = Some rs" "rs \<le> 3" by blast
  note w = h3_words [OF rs(2)]
  let ?w = "drop_bit rs 64 :: u32" and ?n = "unat numFunctions"
  have bd: "2 ^ (6 - rs) * ?n < 2 ^ 32"
  proof -
    have "2 ^ (6 - rs) * ?n \<le> 64 * 2 ^ 25" by (rule mult_le_mono [OF w(4) n])
    then show ?thesis by simp
  qed
  have wo: "?w = of_nat (2 ^ (6 - rs))" by (simp flip: w(1))
  have wn: "?w * numFunctions = of_nat (2 ^ (6 - rs) * ?n)"
    by (simp add: wo)
  have len: "unat (?w * numFunctions) = 2 ^ (6 - rs) * ?n" unfolding wn by (rule unat_u32_small [OF bd])
  have idx: "unat (of_nat ii * ?w + of_nat jj) < 2 ^ (6 - rs) * ?n" if "ii < ?n" "jj < 2 ^ (6 - rs)" for ii jj
  proof -
    have "Suc ii * 2 ^ (6 - rs) \<le> ?n * 2 ^ (6 - rs)" by (rule mult_right_mono) (use that in simp_all)
    then have lt: "ii * 2 ^ (6 - rs) + jj < 2 ^ (6 - rs) * ?n" using that(2) by (simp add: ac_simps)
    have "of_nat ii * ?w + of_nat jj = of_nat (ii * 2 ^ (6 - rs) + jj)"
      by (simp add: wo)
    moreover have "unat (of_nat (ii * 2 ^ (6 - rs) + jj) :: u32) = ii * 2 ^ (6 - rs) + jj"
      by (rule unat_u32_small) (use lt bd in linarith)
    ultimately show ?thesis using lt by presburger
  qed
  let ?is = "[unat (of_nat ii * ?w + of_nat jj). ii \<leftarrow> [0..<?n], jj \<leftarrow> [0..<unat ?w]]"
  have "set ?is \<subseteq> {..<length (replicate (unat (?w * numFunctions)) (0 :: u64))}" using idx by (auto simp: len w(1))
  from h3_fill_ok [OF mt_ok_seed [OF assms(1)] this] obtain M where
    "h3_fill ?is (mt_seed randSeed mem) (replicate (unat (?w * numFunctions)) 0) = Some M" "length M = 2 ^ (6 - rs) * ?n"
    by (auto simp: len)
  then show ?thesis using rs n by (simp add: h3_new_def Let_def h3_ok_def)
qed

lemma h3_hash_sum:
  assumes ok: "h3_ok s" and f: "f < h3_numFuncs s"
  shows "h3_hash s f val = Some (h3_fold (h3_resShift s)
    (xors (map (h3_term (h3_hMatrix s) (2 ^ (6 - h3_resShift s) * unat f) (2 ^ (6 - h3_resShift s) div 8) val) [0..<2 ^ (6 - h3_resShift s)])))"
proof -
  let ?rs = "h3_resShift s" and ?w = "2 ^ (6 - h3_resShift s) :: nat"
  have rs: "?rs \<le> 3" and n: "unat (h3_numFuncs s) \<le> 2 ^ 25" and len: "length (h3_hMatrix s) = ?w * unat (h3_numFuncs s)"
    using ok by (auto simp: h3_ok_def)
  note w = h3_words [OF rs]
  have "Suc (unat f) \<le> unat (h3_numFuncs s)" using f by (simp add: word_less_nat_alt)
  then have top: "?w * unat f + ?w \<le> ?w * unat (h3_numFuncs s)" by (metis mult_Suc_right mult_le_mono2 add.commute)
  have bd: "?w * unat (h3_numFuncs s) < 2 ^ 32"
  proof -
    have "?w * unat (h3_numFuncs s) \<le> 64 * 2 ^ 25" by (rule mult_le_mono [OF w(4) n])
    then show ?thesis by simp
  qed
  have base: "unat (push_bit (6 - ?rs) f + of_nat x) = ?w * unat f + x" if "x < ?w" for x
  proof -
    have "push_bit (6 - ?rs) f + of_nat x = of_nat (?w * unat f + x)"
      by (simp add: push_bit_eq_mult mult.commute)
    then show ?thesis using top bd that by (simp only: unat_u32_small)
  qed
  have "h3_rounds s f val (map (\<lambda>q. 8 * q) qs) res = Some (fold (\<lambda>q. h3_round (h3_hMatrix s) val (?w * unat f + 8 * q)) qs res)"
    if "set qs \<subseteq> {..<?w div 8}" for qs res
    using that
  proof (induction qs arbitrary: res)
    case (Cons q qs)
    have "Suc q \<le> ?w div 8" using Cons.prems by auto
    then have "8 * q + 8 \<le> ?w" using w(3) by (metis mult_Suc_right mult_le_mono2 add.commute)
    then have "unat (push_bit (6 - ?rs) f + of_nat (8 * q)) = ?w * unat f + 8 * q" "?w * unat f + 8 * q + 7 < length (h3_hMatrix s)"
      using base [of "8 * q"] top len by linarith+
    then show ?case using Cons by (simp add: Let_def del: of_nat_mult)
  qed simp
  from this [of "[0..<?w div 8]" 0] show ?thesis
    using f w(2) by (simp add: h3_hash_def Let_def h3_rounds_sum w(3) lessThan_atLeast0)
qed

lemma h3_term_xor: "h3_term M b n (v XOR w) x = h3_term M b n v x XOR h3_term M b n w x"
proof -
  have "(v XOR w) AND M ! (b + x) = (v AND M ! (b + x)) XOR (w AND M ! (b + x))"
    by (rule bit_word_eqI) (auto simp: bit_simps)
  then show ?thesis by (simp add: h3_term_def rotl_xor)
qed

lemma h3_fold_xor: "h3_fold rs (v XOR w) = h3_fold rs v XOR h3_fold rs w"
proof -
  have "drop_bit k (v XOR w) = drop_bit k v XOR drop_bit k w" for k and v w :: u64
    by (rule drop_bit_xor)
  then show ?thesis by (simp add: h3_fold_def Let_def ac_simps)
qed

section \<open>Properties\<close>

lemma h3_hash_xor:
  assumes "h3_ok s" and "f < h3_numFuncs s"
  shows "\<exists>x y. h3_hash s f v = Some x \<and> h3_hash s f w = Some y \<and> h3_hash s f (v XOR w) = Some (x XOR y)"
  unfolding h3_hash_sum [OF assms] h3_term_xor xors_xor h3_fold_xor by simp

text \<open>A family of at most 2^25 functions of at most 64 bits is built whatever the seed; each of its functions
  returns on every value, within its matrix, and is linear over exclusive or (the property that makes H3 universal);
  a function id out of range fails the assertion.\<close>

theorem h3_total_linear:
  assumes "length mem = MT_N" and "outputBits \<le> 64" and "unat numFunctions \<le> 2 ^ 25"
  shows "\<exists>s. h3_new numFunctions outputBits randSeed mem = Some s \<and>
    (\<forall>f v w. if f < numFunctions
       then \<exists>x y. h3_hash s f v = Some x \<and> h3_hash s f w = Some y \<and> h3_hash s f (v XOR w) = Some (x XOR y)
       else h3_hash s f v = None)"
proof -
  obtain s where "h3_new numFunctions outputBits randSeed mem = Some s" "h3_ok s" "h3_numFuncs s = numFunctions"
    using h3_new_ok [OF assms, of randSeed] by blast
  then show ?thesis using h3_hash_xor [of s] by (auto simp: h3_hash_def)
qed

theorem h3_total_linear_witness:
  "\<exists>s x y. h3_new 2 13 0xCAC7EAFFA1 (replicate MT_N 0) = Some s \<and>
    h3_hash s 1 5 = Some x \<and> h3_hash s 1 9 = Some y \<and> h3_hash s 1 12 = Some (x XOR y) \<and> h3_hash s 2 5 = None"
proof -
  obtain s where s: "h3_new 2 13 0xCAC7EAFFA1 (replicate MT_N 0) = Some s"
    and h: "\<forall>f v w. if f < 2
       then \<exists>x y. h3_hash s f v = Some x \<and> h3_hash s f w = Some y \<and> h3_hash s f (v XOR w) = Some (x XOR y)
       else h3_hash s f v = None"
    using h3_total_linear [of "replicate MT_N 0" 13 2 "0xCAC7EAFFA1"] by auto
  have "(5 :: u64) XOR 9 = 12" by simp
  moreover have "\<exists>x y. h3_hash s 1 5 = Some x \<and> h3_hash s 1 9 = Some y \<and> h3_hash s 1 (5 XOR 9) = Some (x XOR y)"
    using h [THEN spec [of _ 1], THEN spec [of _ 5], THEN spec [of _ 9]] by simp
  moreover have "h3_hash s 2 5 = None" using h [THEN spec [of _ 2]] by simp
  ultimately show ?thesis using s by auto
qed

text \<open>The row of the matrix that the comment's loop would have to read at its step \<open>y\<close>.\<close>

definition h3_row :: "nat \<Rightarrow> nat" where
  "h3_row y = (if y mod 8 = 0 then y else (8 * (y div 8 + 1)) mod 64 + (8 - y mod 8))"

lemma h3_row_perm: "mset (map h3_row [0..<64]) = mset [0..<64]"
  by code_simp

lemma h3_row_amount: "\<forall>y\<in>set [0..<64]. h3_row y < 64 \<and> (8 * (8 - h3_row y div 8) + h3_row y mod 8) mod 64 = (64 - y) mod 64"
  by code_simp

text \<open>C36. For 64-bit outputs the unrolled loop computes what the simpler loop of the comment computes on the same
  rows, but taken in another order: the comment's own order, row \<open>y\<close> at step \<open>y\<close>, gives another function.\<close>

theorem h3_unrolled_reference:
  assumes "length mem = MT_N" and "32 < outputBits" and "outputBits \<le> 64" and "unat numFunctions \<le> 2 ^ 25"
    and "h3_new numFunctions outputBits randSeed mem = Some s" and "f < numFunctions"
  shows "h3_hash s f val = Some (h3_simple (map (\<lambda>y. h3_hMatrix s ! (64 * unat f + h3_row y)) [0..<64]) val)"
proof -
  have ok: "h3_ok s" "h3_numFuncs s = numFunctions" and rs: "h3_resShift s = 0"
    using h3_new_ok [OF assms(1,3,4), of randSeed] assms(2,3,5) by (auto simp: h3_shift_def word_less_nat_alt word_le_nat_alt)
  let ?t = "h3_term (h3_hMatrix s) (64 * unat f) 8 val"
  have "h3_simple (map (\<lambda>y. h3_hMatrix s ! (64 * unat f + h3_row y)) [0..<64]) val = xors (map ?t (map h3_row [0..<64]))"
    unfolding h3_simple_sum map_map length_map length_upt
  proof (intro arg_cong [of _ _ xors] map_cong)
    fix y :: nat assume "y \<in> set [0..<64]"
    then have "y \<in> set [0..<64]" and y: "y < 64" by auto
    with h3_row_amount have "(8 * (8 - h3_row y div 8) + h3_row y mod 8) mod 64 = (64 - y) mod 64" by blast
    then have "word_rotl (64 - y) (val AND h3_hMatrix s ! (64 * unat f + h3_row y)) = ?t (h3_row y)"
      unfolding h3_term_def by (metis rotl_mod)
    then show "word_rotl (64 - 0 - y) (val AND map (\<lambda>y. h3_hMatrix s ! (64 * unat f + h3_row y)) [0..<64] ! y) = (?t \<circ> h3_row) y"
      using y by simp
  qed simp
  also have "\<dots> = xors (map ?t [0..<64])" by (rule xors_mset) (metis h3_row_perm mset_map)
  finally show ?thesis using h3_hash_sum [OF ok(1), of f val] assms(6) ok(2) by (simp add: rs h3_fold_def)
qed

theorem h3_unrolled_reference_witness:
  "\<exists>s. h3_new 1 64 7 (replicate MT_N 0) = Some s \<and>
    h3_hash s 0 9 = Some (h3_simple (map (\<lambda>y. h3_hMatrix s ! h3_row y) [0..<64]) 9)"
proof -
  obtain s where s: "h3_new 1 64 7 (replicate MT_N 0) = Some s"
    using h3_new_ok [of "replicate MT_N 0" 64 1 7] by auto
  then show ?thesis using h3_unrolled_reference [OF _ _ _ _ s, of 0 9] by simp
qed

text \<open>The comment's order of rows: on a matrix whose second row is 1, the code gives 2 where the comment's loop gives 2^63.\<close>

lemma h3_comment_order:
  "h3_hash \<lparr>h3_numFuncs = 1, h3_resShift = 0, h3_hMatrix = (replicate 64 0)[1 := 1]\<rparr> 0 1 = Some 2"
  "h3_simple ((replicate 64 0)[1 := 1]) 1 = 2 ^ 63"
  by code_simp+

end
