(* ===== verification/Hash_SHA1.thy ===== *)
theory Hash_SHA1
  imports Prelude
begin

text \<open>
  The SHA1 hash family of \<^verbatim>\<open>zsim/src/hash.cpp\<close>, as compiled with PolarSSL. The library's \<open>sha1\<close> is the parameter
  \<open>sha\<close>, from a buffer of 16 64-bit words to the 5 32-bit words of the digest. One hash of a value serves all
  functions of the family and is memoised.
\<close>

section \<open>Model\<close>

record sha1_fam =
  sf_numFuncs :: nat
  sf_numPasses :: nat
  sf_memoizedVal :: u64
  sf_memoizedHashes :: "u32 list"

definition sha1_new :: "nat \<Rightarrow> sha1_fam" where
  "sha1_new numFunctions =
     (let numPasses = numFunctions div 5 + 1 in
      \<lparr>sf_numFuncs = numFunctions, sf_numPasses = numPasses, sf_memoizedVal = 0, sf_memoizedHashes = replicate (numPasses * 5) 0\<rparr>)"

text \<open>The first passes, on the buffer and the array of hashes. A pass after the first mixes the digest of the pass
  before into the buffer; each writes its digest into the array.\<close>

primrec sha1_passes :: "(u64 list \<Rightarrow> u32 list) \<Rightarrow> nat \<Rightarrow> u64 list \<Rightarrow> u32 list \<Rightarrow> u64 list \<times> u32 list" where
  "sha1_passes sha 0 buffer hashes = (buffer, hashes)"
| "sha1_passes sha (Suc i) buffer hashes =
     (let (b, h) = sha1_passes sha i buffer hashes;
          b1 = (if i > 0 then fold (\<lambda>j b. b[j := b ! j XOR ucast (h ! ((i - 1) * 5 + j))]) [0..<5] b else b)
      in (b1, take (i * 5) h @ sha b1 @ drop (i * 5 + 5) h))"

definition sha1_hash :: "(u64 list \<Rightarrow> u32 list) \<Rightarrow> sha1_fam \<Rightarrow> nat \<Rightarrow> u64 \<Rightarrow> (sha1_fam \<times> u64) option" where
  "sha1_hash sha s f val =
     Option.bind (guard (f < sf_numFuncs s)) (\<lambda>_.
     if val = sf_memoizedVal s then Some (s, ucast (sf_memoizedHashes s ! f))
     else let s' = s\<lparr>sf_memoizedHashes := snd (sha1_passes sha (sf_numPasses s) (replicate 16 val) (sf_memoizedHashes s)),
                     sf_memoizedVal := val\<rparr>
          in Some (s', ucast (sf_memoizedHashes s' ! f)))"

section \<open>Memoisation\<close>

text \<open>The hashes of a value, computed into a fresh array; the values hashed so far.\<close>

definition sha1_ref :: "(u64 list \<Rightarrow> u32 list) \<Rightarrow> nat \<Rightarrow> u64 \<Rightarrow> u32 list" where
  "sha1_ref sha n val = snd (sha1_passes sha (n div 5 + 1) (replicate 16 val) (replicate ((n div 5 + 1) * 5) 0))"

inductive sha1_reach :: "(u64 list \<Rightarrow> u32 list) \<Rightarrow> nat \<Rightarrow> u64 list \<Rightarrow> sha1_fam \<Rightarrow> bool" for sha n where
  init: "sha1_reach sha n [] (sha1_new n)"
| step: "sha1_reach sha n vs s \<Longrightarrow> sha1_hash sha s f val = Some (s', r) \<Longrightarrow> sha1_reach sha n (val # vs) s'"

lemma sha1_passes_length:
  assumes "\<forall>b. length (sha b) = 5"
  shows "i * 5 \<le> length h \<Longrightarrow> length (snd (sha1_passes sha i b h)) = length h"
  by (induction i) (auto simp: Let_def assms split: prod.splits)

lemma fold_upd_cong:
  assumes "\<And>j. j \<in> set js \<Longrightarrow> g j = g' j"
  shows "fold (\<lambda>j b. b[j := b ! j XOR g j]) js (b :: u64 list) = fold (\<lambda>j b. b[j := b ! j XOR g' j]) js b"
  using assms by (intro fold_cong) auto

text \<open>What the array held before does not matter.\<close>

lemma sha1_passes_indep:
  assumes sha: "\<forall>b. length (sha b) = 5"
  shows "i * 5 \<le> length h \<Longrightarrow> length h' = length h \<Longrightarrow>
    fst (sha1_passes sha i b h) = fst (sha1_passes sha i b h') \<and>
    take (i * 5) (snd (sha1_passes sha i b h)) = take (i * 5) (snd (sha1_passes sha i b h'))"
proof (induction i)
  case (Suc i)
  obtain c g where p: "sha1_passes sha i b h = (c, g)" by force
  obtain c' g' where p': "sha1_passes sha i b h' = (c', g')" by force
  have "i * 5 \<le> length h" "i * 5 \<le> length h'" using Suc.prems by auto
  from this [THEN sha1_passes_length [OF sha], of b] have len: "length g = length h" "length g' = length h"
    using Suc.prems p p' by auto
  have c: "c = c'" and t: "take (i * 5) g = take (i * 5) g'" using Suc p p' by auto
  have e: "g ! k = g' ! k" if "k < i * 5" for k using that t by (metis nth_take)
  have "fold (\<lambda>j b. b[j := b ! j XOR ucast (g ! ((i - 1) * 5 + j))]) [0..<5] c' =
      fold (\<lambda>j b. b[j := b ! j XOR ucast (g' ! ((i - 1) * 5 + j))]) [0..<5] c'" if "i > 0"
  proof (rule fold_upd_cong)
    fix j assume "j \<in> set [0..<(5::nat)]"
    with that have "(i - 1) * 5 + j < i * 5" by (cases i) auto
    then show "ucast (g ! ((i - 1) * 5 + j)) = (ucast (g' ! ((i - 1) * 5 + j)) :: u64)" by (simp only: e)
  qed
  then show ?case using Suc.prems len c t by (auto simp: p p' Let_def sha)
qed simp

definition sha1_ok :: "(u64 list \<Rightarrow> u32 list) \<Rightarrow> nat \<Rightarrow> u64 list \<Rightarrow> sha1_fam \<Rightarrow> bool" where
  "sha1_ok sha n vs s \<longleftrightarrow> sf_numFuncs s = n \<and> sf_numPasses s = n div 5 + 1 \<and>
     length (sf_memoizedHashes s) = (n div 5 + 1) * 5 \<and>
     (if \<forall>v\<in>set vs. v = 0 then sf_memoizedVal s = 0 \<and> sf_memoizedHashes s = replicate ((n div 5 + 1) * 5) 0
      else sf_memoizedHashes s = sha1_ref sha n (sf_memoizedVal s))"

lemma sha1_hash_ok:
  assumes sha: "\<forall>b. length (sha b) = 5" and ok: "sha1_ok sha n vs s" and f: "f < n"
  shows "\<exists>s' r. sha1_hash sha s f val = Some (s', r) \<and> sha1_ok sha n (val # vs) s' \<and>
    r = (if \<forall>v\<in>set (val # vs). v = 0 then 0 else ucast (sha1_ref sha n val ! f))"
proof (cases "val = sf_memoizedVal s")
  case True
  have "f < (n div 5 + 1) * 5" using f dividend_less_div_times [of 5 n] by simp
  then have rep: "replicate ((n div 5 + 1) * 5) (0 :: u32) ! f = 0" by simp
  have h: "sha1_hash sha s f val = Some (s, ucast (sf_memoizedHashes s ! f))" using True ok f by (simp add: sha1_hash_def sha1_ok_def)
  show ?thesis
  proof (cases "\<forall>v\<in>set vs. v = 0")
    case True
    then have "val = 0" "sf_memoizedHashes s ! f = 0" using ok rep \<open>val = sf_memoizedVal s\<close> by (simp_all add: sha1_ok_def)
    then show ?thesis using h ok True by (simp add: sha1_ok_def)
  next
    case False
    then have "sf_memoizedHashes s = sha1_ref sha n val" using ok \<open>val = sf_memoizedVal s\<close> by (simp add: sha1_ok_def)
    moreover have "sha1_ok sha n (val # vs) s" using ok False by (auto simp: sha1_ok_def)
    ultimately show ?thesis using h False by auto
  qed
next
  case False
  let ?h = "snd (sha1_passes sha (n div 5 + 1) (replicate 16 val) (sf_memoizedHashes s))"
  have n: "sf_numFuncs s = n" "sf_numPasses s = n div 5 + 1" and len: "length (sf_memoizedHashes s) = (n div 5 + 1) * 5"
    using ok by (auto simp: sha1_ok_def)
  have lr: "length ?h = (n div 5 + 1) * 5" "length (sha1_ref sha n val) = (n div 5 + 1) * 5"
    using sha1_passes_length [OF sha] len by (simp_all add: sha1_ref_def del: sha1_passes.simps)
  have "take ((n div 5 + 1) * 5) ?h = take ((n div 5 + 1) * 5) (sha1_ref sha n val)"
    unfolding sha1_ref_def by (rule conjunct2 [OF sha1_passes_indep [OF sha]]) (simp_all add: len del: sha1_passes.simps)
  then have h: "?h = sha1_ref sha n val" using lr by simp
  have "val \<noteq> 0 \<or> \<not> (\<forall>v\<in>set vs. v = 0)" using False ok by (auto simp: sha1_ok_def split: if_splits)
  then show ?thesis using False f n lr h by (auto simp: sha1_hash_def sha1_ok_def Let_def simp del: sha1_passes.simps)
qed

lemma sha1_reach_ok:
  assumes "sha1_reach sha n vs s" and sha: "\<forall>b. length (sha b) = 5"
  shows "sha1_ok sha n vs s"
  using assms(1)
proof (induction rule: sha1_reach.induct)
  case init
  then show ?case by (simp add: sha1_ok_def sha1_new_def Let_def)
next
  case (step vs s f val s' r)
  then have "f < n" by (auto simp: sha1_hash_def sha1_ok_def guard_def split: if_splits)
  from sha1_hash_ok [OF sha step.IH this, of val] step.hyps show ?case by auto
qed

text \<open>Memoisation is transparent, but for one value: every call, after any calls, returns the hash of its value
  and function id as computed from scratch, except that until a value other than 0 has been hashed, the
  hash of 0 is 0, whatever \<open>sha1\<close> is. A digest of 20 bytes is what the library documents.\<close>

theorem sha1_memo_exact:
  assumes "\<forall>b. length (sha b) = 5" and "sha1_reach sha n vs s" and "f < n"
  shows "\<exists>s' r. sha1_hash sha s f val = Some (s', r) \<and> sha1_reach sha n (val # vs) s' \<and>
    r = (if \<forall>v\<in>set (val # vs). v = 0 then 0 else ucast (sha1_ref sha n val ! f))"
  using sha1_hash_ok [OF assms(1) sha1_reach_ok [OF assms(2,1)] assms(3), of val] sha1_reach.step [OF assms(2)] by blast

theorem sha1_memo_exact_witness:
  "\<exists>s1 s2. sha1_hash (\<lambda>b. [7, 7, ucast (b ! 0), 7, 7]) (sha1_new 8) 3 0 = Some (s1, 0) \<and>
    sha1_hash (\<lambda>b. [7, 7, ucast (b ! 0), 7, 7]) s1 2 9 = Some (s2, 9)"
proof -
  let ?sha = "\<lambda>b. [7, 7, ucast (b ! 0), 7, 7]"
  have l: "\<forall>b. length (?sha b) = 5" by simp
  obtain s1 where s1: "sha1_hash ?sha (sha1_new 8) 3 0 = Some (s1, 0)" "sha1_reach ?sha 8 [0] s1"
    using sha1_memo_exact [OF l sha1_reach.init, of 3 8 0] by auto
  have "ucast (sha1_ref ?sha 8 9 ! 2) = (9 :: u64)" by code_simp
  then show ?thesis using sha1_memo_exact [OF l s1(2), of 2 9] s1(1) by auto
qed

end
