(* ===== verification/Prefetcher.thy ===== *)
theory Prefetcher
  imports Mem_Types
begin

text \<open>
  The stream prefetcher of \<^verbatim>\<open>zsim/src/prefetcher.h\<close> and \<^verbatim>\<open>zsim/src/prefetcher.cpp\<close>. It sits between two cache
  levels, detects the stride of the accesses to each of 16 pages of 64 lines, and prefetches ahead.

  The parent is the parameter \<open>pacc\<close>: from its state, a request and the value of the \<open>MESIState\<close> variable of the
  request to its new state, the response cycle and the value it leaves in that variable. (For a demand access that
  variable belongs to the caller's store, which is a part of the parent's state here.) Positions and strides are the source's 32-bit integers, as words:
  \<open>int32_t\<close> and \<open>uint32_t\<close> differ only where a quotient or a comparison reads them. What memory holds before an
  entry is allocated is whatever it was.
\<close>

section \<open>State\<close>

text \<open>The template \<open>SatCounter<M, T, I>\<close>, used with maximum 3, threshold 2 and initial value 1.\<close>

definition sat_init :: int where "sat_init = 1"
definition sat_dec :: "int \<Rightarrow> int" where "sat_dec c = max (c - 1) 0"
definition sat_inc :: "int \<Rightarrow> int" where "sat_inc c = min (c + 1) 3"
definition sat_pred :: "int \<Rightarrow> bool" where "sat_pred c \<longleftrightarrow> c \<ge> 2"

record pf_entry =
  pe_stride :: u32
  pe_conf :: int
  pe_times :: "(nat \<times> nat) list"
  pe_valid :: "bool list"
  pe_lastPos :: u32
  pe_lastLastPos :: u32
  pe_lastPrefetchPos :: u32
  pe_lastCycle :: nat
  pe_ts :: u64

record pf =
  pf_timestamp :: u64
  pf_tag :: "addr list"
  pf_array :: "pf_entry list"
  pf_childId :: nat
  pf_accesses :: nat
  pf_prefetches :: nat
  pf_doublePrefetches :: nat
  pf_pageHits :: nat
  pf_hits :: nat
  pf_shortHits :: nat
  pf_strideSwitches :: nat
  pf_lowConfAccs :: nat

type_synonym 'p pf_parent = "'p \<Rightarrow> memreq \<Rightarrow> mesi \<Rightarrow> ('p \<times> nat \<times> mesi) option"

definition pe_alloc :: "nat \<Rightarrow> pf_entry \<Rightarrow> pf_entry" where
  "pe_alloc curCycle e =
     e\<lparr>pe_stride := 1, pe_lastPos := 0, pe_lastLastPos := 0, pe_lastPrefetchPos := 0, pe_conf := sat_init,
       pe_valid := replicate 64 False, pe_lastCycle := curCycle\<rparr>"

text \<open>\<open>fill\<close> takes the start cycle as a \<open>uint32_t\<close>.\<close>

definition pe_fill :: "u32 \<Rightarrow> nat \<Rightarrow> nat \<Rightarrow> pf_entry \<Rightarrow> pf_entry" where
  "pe_fill pos s r e =
     e\<lparr>pe_valid := (pe_valid e)[unat pos := True], pe_times := (pe_times e)[unat pos := (s mod 2 ^ 32, r)]\<rparr>"

text \<open>The constructor sets the timestamp; the tags and entries are what the memory \<open>tags\<close>, \<open>ents\<close> holds, but for the
  counters.\<close>

definition pf_new :: "addr list \<Rightarrow> pf_entry list \<Rightarrow> pf" where
  "pf_new tags ents =
     \<lparr>pf_timestamp = 0, pf_tag = tags, pf_array = map (\<lambda>e. e\<lparr>pe_conf := sat_init, pe_valid := replicate 64 False\<rparr>) ents,
      pf_childId = 0, pf_accesses = 0, pf_prefetches = 0, pf_doublePrefetches = 0, pf_pageHits = 0, pf_hits = 0,
      pf_shortHits = 0, pf_strideSwitches = 0, pf_lowConfAccs = 0\<rparr>"

definition pf_setParents :: "nat \<Rightarrow> nat \<Rightarrow> bool \<Rightarrow> pf \<Rightarrow> pf option" where
  "pf_setParents childId numParents network s =
     Option.bind (guard (numParents = 1 \<and> \<not> network)) (\<lambda>_. Some (s\<lparr>pf_childId := childId\<rparr>))"

section \<open>Finding the entry of a page\<close>

definition pf_find :: "addr list \<Rightarrow> addr \<Rightarrow> nat" where
  "pf_find tags pageAddr = fold (\<lambda>i idx. if pageAddr = tags ! i then i else idx) [0..<16] 16"

definition pf_cand :: "pf_entry list \<Rightarrow> nat \<Rightarrow> nat" where
  "pf_cand ents reqCycle =
     fst (fold (\<lambda>i (cand, candScore).
       if pe_lastCycle (ents ! i) > reqCycle + 500 then (cand, candScore)
       else if pe_ts (ents ! i) < candScore then (i, pe_ts (ents ! i)) else (cand, candScore)) [0..<16] (16, -1))"

definition pf_miss :: "pf \<Rightarrow> addr \<Rightarrow> u32 \<Rightarrow> nat \<Rightarrow> pf" where
  "pf_miss s pageAddr pos reqCycle =
     (let cand = pf_cand (pf_array s) reqCycle in
      if cand < 16
      then s\<lparr>pf_array := (pf_array s)[cand := (pe_alloc reqCycle (pf_array s ! cand))\<lparr>pe_lastPos := pos, pe_ts := pf_timestamp s\<rparr>],
             pf_timestamp := pf_timestamp s + 1, pf_tag := (pf_tag s)[cand := pageAddr]\<rparr>
      else s)"

section \<open>Hits: prefetch buffer, predictor, prefetches\<close>

definition pf_req :: "memreq \<Rightarrow> addr \<Rightarrow> memreq" where
  "pf_req req lineAddr =
     \<lparr>mr_lineAddr = lineAddr, mr_type = GETS, mr_childId = mr_childId req, mr_state = LocalCell, mr_cycle = mr_cycle req,
      mr_childLock = mr_childLock req, mr_initialState = I, mr_srcId = mr_srcId req, mr_flags = PREFETCH\<rparr>"

text \<open>Where to prefetch, and how far ahead the stream is: the quotient is one of unsigned integers, as
  \<open>lastPrefetchPos - lastPos\<close> is unsigned, then read as an \<open>int32_t\<close>.\<close>

definition pf_depth :: "u32 \<Rightarrow> u32 \<Rightarrow> u32 \<Rightarrow> u32 \<Rightarrow> u32 \<times> int" where
  "pf_depth lastPrefetchPos lastPos stride pos =
     (let fetchDepth = sint ((lastPrefetchPos - lastPos) div stride); prefetchPos = lastPrefetchPos + stride in
      if fetchDepth < 1 then (pos + stride, 1) else (prefetchPos, fetchDepth))"

text \<open>Issuing one prefetch or two; the number issued is returned.\<close>

definition pf_issue :: "'p pf_parent \<Rightarrow> memreq \<Rightarrow> u32 \<Rightarrow> u32 \<Rightarrow> bool \<Rightarrow> u32 \<Rightarrow> int \<Rightarrow> pf_entry \<Rightarrow> 'p \<Rightarrow> (pf_entry \<times> 'p \<times> nat) option" where
  "pf_issue pacc req pos stride shortPrefetch prefetchPos fetchDepth e p =
     (if prefetchPos < 64 \<and> \<not> pe_valid e ! unat prefetchPos then
        let lineAddr = mr_lineAddr req + ucast prefetchPos - ucast pos in
        Option.bind (pacc p (pf_req req lineAddr) I) (\<lambda>(p1, pfRespCycle, state).
        let e1 = pe_fill prefetchPos (mr_cycle req) pfRespCycle e in
        Option.bind
          (if shortPrefetch \<and> fetchDepth < 8 \<and> prefetchPos + stride < 64 \<and> \<not> pe_valid e1 ! unat (prefetchPos + stride) then
             Option.bind (pacc p1 (pf_req req (lineAddr + scast stride)) state) (\<lambda>(p2, pfRespCycle2, state2).
             Some (pe_fill (prefetchPos + stride) (mr_cycle req) pfRespCycle2 e1, p2, prefetchPos + stride, state2, 2))
           else Some (e1, p1, prefetchPos, state, 1)) (\<lambda>(e2, p2, lastPrefetchPos, state2, n).
        Option.bind (guard (state2 = I)) (\<lambda>_. Some (e2\<lparr>pe_lastPrefetchPos := lastPrefetchPos\<rparr>, p2, n))))
      else Some (e, p, 0))"

text \<open>1. of the source: the access hits a line that was prefetched.\<close>

definition pf_consume :: "u32 \<Rightarrow> nat \<Rightarrow> pf_entry \<Rightarrow> pf_entry \<times> nat \<times> bool \<times> bool" where
  "pf_consume pos respCycle e =
     (if pe_valid e ! unat pos
      then let pfRespCycle = snd (pe_times e ! unat pos); respCycle' = max pfRespCycle respCycle in
        (e\<lparr>pe_valid := (pe_valid e)[unat pos := False], pe_lastCycle := max respCycle' (pe_lastCycle e)\<rparr>,
         respCycle', True, pfRespCycle > respCycle)
      else (e, respCycle, False, False))"

text \<open>2. of the source: the predictors. The counters of the entry's state are those of prefetches, stride switches and
  low-confidence accesses. A division by 0 traps.\<close>

definition pf_train :: "'p pf_parent \<Rightarrow> memreq \<Rightarrow> u32 \<Rightarrow> bool \<Rightarrow> pf_entry \<Rightarrow> 'p \<Rightarrow> (pf_entry \<times> 'p \<times> nat \<times> nat \<times> nat) option" where
  "pf_train pacc req pos shortPrefetch e p =
     (let stride = pos - pe_lastPos e in
      if pe_stride e = stride then
        let e1 = e\<lparr>pe_conf := sat_inc (pe_conf e)\<rparr> in
        if sat_pred (pe_conf e1) then
          Option.bind (guard (stride \<noteq> 0)) (\<lambda>_.
          let (prefetchPos, fetchDepth) = pf_depth (pe_lastPrefetchPos e1) (pe_lastPos e1) stride pos in
          map_option (\<lambda>(e2, p', n). (e2, p', n, 0, 0)) (pf_issue pacc req pos stride shortPrefetch prefetchPos fetchDepth e1 p))
        else Some (e1, p, 0, 0, 1)
      else
        let e1 = e\<lparr>pe_conf := sat_dec (pe_conf e)\<rparr>;
            switch = (\<not> sat_pred (pe_conf e1) \<and> stride \<noteq> 0 \<and> stride \<noteq> pe_stride e1 \<and> stride = pe_lastPos e1 - pe_lastLastPos e1);
            e2 = (if switch then e1\<lparr>pe_conf := sat_init, pe_stride := stride\<rparr> else e1)
        in Some (e2\<lparr>pe_lastPrefetchPos := pos\<rparr>, p, 0, if switch then 1 else 0, 0))"

definition pf_hit :: "'p pf_parent \<Rightarrow> memreq \<Rightarrow> nat \<Rightarrow> u32 \<Rightarrow> nat \<Rightarrow> pf \<Rightarrow> 'p \<Rightarrow> (pf \<times> 'p \<times> nat) option" where
  "pf_hit pacc req idx pos respCycle s p =
     (let e0 = (pf_array s ! idx)\<lparr>pe_ts := pf_timestamp s\<rparr>; (e1, respCycle', hit, shortPrefetch) = pf_consume pos respCycle e0 in
      Option.bind (pf_train pacc req pos shortPrefetch e1 p) (\<lambda>(e2, p', n, sw, lc).
      Some (s\<lparr>pf_timestamp := pf_timestamp s + 1,
              pf_array := (pf_array s)[idx := e2\<lparr>pe_lastLastPos := pe_lastPos e2, pe_lastPos := pos\<rparr>],
              pf_pageHits := pf_pageHits s + 1, pf_hits := pf_hits s + of_bool hit, pf_shortHits := pf_shortHits s + of_bool shortPrefetch,
              pf_prefetches := pf_prefetches s + n, pf_doublePrefetches := pf_doublePrefetches s + of_bool (n = 2),
              pf_strideSwitches := pf_strideSwitches s + sw, pf_lowConfAccs := pf_lowConfAccs s + lc\<rparr>, p', respCycle')))"

text \<open>\<open>access\<close> changes \<open>childId\<close> in the caller's request; the request is returned as it leaves it.\<close>

definition pf_access :: "'p pf_parent \<Rightarrow> pf \<Rightarrow> 'p \<Rightarrow> memreq \<Rightarrow> (pf \<times> 'p \<times> memreq \<times> nat) option" where
  "pf_access pacc s p req =
     (let origChildId = mr_childId req; req1 = req\<lparr>mr_childId := pf_childId s\<rparr> in
      if mr_type req1 \<noteq> GETS then map_option (\<lambda>(p', respCycle, _). (s, p', req1, respCycle)) (pacc p req1 (mr_initialState req1))
      else
        let s1 = s\<lparr>pf_accesses := pf_accesses s + 1\<rparr> in
        Option.bind (pacc p req1 (mr_initialState req1)) (\<lambda>(p1, respCycle, _).
        let pageAddr = drop_bit 6 (mr_lineAddr req1); pos = ucast (mr_lineAddr req1 AND 63); idx = pf_find (pf_tag s1) pageAddr in
        Option.bind
          (if idx = 16 then Some (pf_miss s1 pageAddr pos (mr_cycle req1), p1, respCycle)
           else pf_hit pacc req1 idx pos respCycle s1 p1) (\<lambda>(s2, p2, respCycle2).
        Some (s2, p2, req1\<lparr>mr_childId := origChildId\<rparr>, respCycle2))))"

definition pf_invalidate :: "('c \<Rightarrow> invreq \<Rightarrow> 'r) \<Rightarrow> 'c \<Rightarrow> invreq \<Rightarrow> 'r" where
  "pf_invalidate cinv child req = cinv child req"

section \<open>Addresses of prefetches\<close>

lemma pos_less: "(ucast (a AND 63 :: addr) :: u32) < 64"
proof -
  have "a AND 63 \<le> 63" by (rule word_and_le1)
  then have "unat (a AND 63) \<le> 63" by (simp add: word_le_nat_alt)
  then show ?thesis by (simp add: word_less_nat_alt unsigned_ucast_eq take_bit_nat_eq_self)
qed

lemma mask63: "(63 :: addr) = mask 6"
  by (simp add: mask_eq_exp_minus_1)

lemma pos_ucast: "ucast (ucast (a AND 63 :: addr) :: u32) = (a AND 63 :: addr)"
  unfolding mask63 by (rule bit_word_eqI) (auto simp: bit_simps)

lemma page_line:
  assumes "(pos :: u32) = ucast (a AND 63 :: addr)" and q: "(q :: u32) < 64"
  shows "drop_bit 6 (a + ucast q - ucast pos) = drop_bit 6 a"
proof -
  have "(a AND 63) + push_bit 6 (drop_bit 6 a) = a"
    unfolding mask63 using bits_ident [of 6 a] by (simp add: take_bit_eq_mask and.commute add.commute)
  then have base: "a - ucast pos = push_bit 6 (drop_bit 6 a)"
    unfolding assms(1) pos_ucast by (metis add_diff_cancel_left')
  have qm: "q AND mask 6 = q" by (rule less_mask_eq) (use q in simp)
  then have "bit q n \<longleftrightarrow> n < 6 \<and> bit q n" for n by (metis bit_and_iff bit_mask_iff)
  then have dq: "drop_bit 6 (ucast q :: addr) = 0" by (intro bit_word_eqI) (auto simp: bit_simps)
  have "a + ucast q - ucast pos = push_bit 6 (drop_bit 6 a) + ucast q" unfolding base [symmetric] by simp
  also have "\<dots> = push_bit 6 (drop_bit 6 a) OR ucast q"
  proof (rule disjunctive_add)
    show "\<not> bit (push_bit 6 (drop_bit 6 a)) n \<or> \<not> bit (ucast q :: addr) n" for n
    proof (cases "6 \<le> n")
      case True
      then have "bit (ucast q :: addr) n = bit (drop_bit 6 (ucast q :: addr)) (n - 6)" by (simp add: bit_drop_bit_eq)
      then show ?thesis unfolding dq by simp
    qed (simp add: bit_push_bit_iff)
  qed
  finally have "drop_bit 6 (a + ucast q - ucast pos) = drop_bit 6 (push_bit 6 (drop_bit 6 a)) OR drop_bit 6 (ucast q)"
    by (simp add: drop_bit_or)
  then show ?thesis unfolding dq by (rule trans) (rule bit_word_eqI, auto simp: bit_simps dest: bit_imp_le_length)
qed

lemma sint_u32: "sint (w :: u32) = (if uint w < 2 ^ 31 then uint w else uint w - 2 ^ 32)"
proof -
  have u: "uint w < 2 ^ 32" using uint_bounded [of w] by simp
  have "sint w = (uint w + 2 ^ 31) mod 2 ^ 32 - 2 ^ 31"
    by (simp add: sint_uint signed_take_bit_eq_take_bit_shift take_bit_eq_mod)
  moreover have "(uint w + 2 ^ 31) mod 2 ^ 32 = (if uint w < 2 ^ 31 then uint w + 2 ^ 31 else uint w - 2 ^ 31)"
  proof (cases "uint w < 2 ^ 31")
    case False
    have "(uint w + 2 ^ 31) mod 2 ^ 32 = (uint w - 2 ^ 31 + 2 ^ 32) mod 2 ^ 32" by (simp add: add.commute)
    also have "\<dots> = (uint w - 2 ^ 31) mod 2 ^ 32" by (rule mod_add_self2)
    also have "\<dots> = uint w - 2 ^ 31" using False u by (intro mod_pos_pos_trivial) simp_all
    finally show ?thesis using False by simp
  qed (use u in simp)
  ultimately show ?thesis by simp
qed

lemma next_line:
  assumes "(q :: u32) < 64" and "q + w < 64"
  shows "ucast q + scast w = (ucast (q + w) :: addr)"
proof -
  have q: "uint q < 64" "uint (q + w) < 64" using assms by (simp_all add: word_less_def)
  have u: "uint w < 2 ^ 32" "uint w \<ge> 0" using uint_bounded [of w] by simp_all
  have "uint (q + w) = (uint q + uint w) mod 2 ^ 32" by (simp add: uint_word_ariths)
  moreover have "(uint q + uint w) mod 2 ^ 32 = (if uint q + uint w < 2 ^ 32 then uint q + uint w else uint q + uint w - 2 ^ 32)"
  proof (cases "uint q + uint w < 2 ^ 32")
    case False
    have "(uint q + uint w - 2 ^ 32 + 2 ^ 32) mod 2 ^ 32 = (uint q + uint w - 2 ^ 32) mod 2 ^ 32" by (rule mod_add_self2)
    also have "\<dots> = uint q + uint w - 2 ^ 32" using False q u by (intro mod_pos_pos_trivial) simp_all
    finally show ?thesis using False by simp
  qed (use u in simp)
  ultimately have m: "uint (q + w) = (if uint q + uint w < 2 ^ 32 then uint q + uint w else uint q + uint w - 2 ^ 32)" by simp
  have "uint q + sint w = uint (q + w)"
  proof (cases "uint w < 2 ^ 31")
    case True
    then have "uint q + uint w < 2 ^ 32" using q by simp
    then show ?thesis unfolding sint_u32 m using True by simp
  next
    case False
    have "\<not> uint q + uint w < 2 ^ 32"
    proof
      assume "uint q + uint w < 2 ^ 32"
      then have "uint q + uint w < 64" using m q(2) by simp
      moreover have "2147483648 \<le> uint w" using False by simp
      ultimately show False using uint_ge_0 [of q] by linarith
    qed
    then show ?thesis unfolding sint_u32 m using False by simp
  qed
  moreover have "ucast q + scast w = (word_of_int (uint q + sint w) :: addr)" by simp
  ultimately show ?thesis by (simp del: of_int_add)
qed

section \<open>What an access does\<close>

text \<open>The parent with a log of the requests it gets.\<close>

definition pf_logged :: "'p pf_parent \<Rightarrow> ('p \<times> memreq list) pf_parent" where
  "pf_logged pacc = (\<lambda>(p, log) req st. map_option (\<lambda>(p', r, st'). ((p', log @ [req]), r, st')) (pacc p req st))"

text \<open>Tags from 1 to 2^58 are those of pages, as 0 is for the first page, which is not mapped. An entry with such a tag was
  allocated or has some other stride than 0.\<close>

definition pe_ok :: "pf_entry \<Rightarrow> bool" where
  "pe_ok e \<longleftrightarrow> length (pe_times e) = 64 \<and> length (pe_valid e) = 64"

definition pf_ok :: "pf \<Rightarrow> bool" where
  "pf_ok s \<longleftrightarrow> length (pf_tag s) = 16 \<and> length (pf_array s) = 16 \<and>
     (\<forall>i<16. pe_ok (pf_array s ! i) \<and> (pf_tag s ! i \<noteq> 0 \<and> pf_tag s ! i < 2 ^ 58 \<longrightarrow> pe_stride (pf_array s ! i) \<noteq> 0))"

text \<open>A prefetch as the prefetcher sends it, and one for the page of a demand access.\<close>

definition pf_plain :: "memreq \<Rightarrow> bool" where
  "pf_plain q \<longleftrightarrow> mr_type q = GETS \<and> mr_flags q = PREFETCH \<and> mr_state q = LocalCell \<and> mr_initialState q = I"

definition pf_good_req :: "memreq \<Rightarrow> memreq \<Rightarrow> bool" where
  "pf_good_req req q \<longleftrightarrow> pf_plain q \<and> mr_cycle q = mr_cycle req \<and> drop_bit 6 (mr_lineAddr q) = drop_bit 6 (mr_lineAddr req)"

lemma pf_req_plain [simp]: "pf_plain (pf_req req a)" "mr_cycle (pf_req req a) = mr_cycle req" "mr_lineAddr (pf_req req a) = a"
  by (simp_all add: pf_req_def pf_plain_def)

lemma pf_good_pf_req: "drop_bit 6 a = drop_bit 6 (mr_lineAddr req) \<Longrightarrow> pf_good_req req (pf_req req a)"
  by (simp add: pf_good_req_def)

lemma pe_ok_fill [simp]: "pe_ok (pe_fill pos s r e) = pe_ok e" "pe_stride (pe_fill pos s r e) = pe_stride e"
  by (simp_all add: pe_ok_def pe_fill_def)

lemma pf_find_cases: "pf_find tags a = 16 \<or> pf_find tags a < 16 \<and> tags ! pf_find tags a = a"
proof -
  have "fold (\<lambda>i idx. if a = tags ! i then i else idx) is 16 = 16 \<or>
      fold (\<lambda>i idx. if a = tags ! i then i else idx) is 16 < 16 \<and> tags ! fold (\<lambda>i idx. if a = tags ! i then i else idx) is 16 = a"
    if "\<forall>i\<in>set is. i < 16" for "is"
    using that by (induction "is" rule: rev_induct) auto
  then show ?thesis by (simp add: pf_find_def)
qed

lemma page_small: "drop_bit 6 (a :: addr) < 2 ^ 58"
proof -
  have "unat a < 2 ^ LENGTH(64)" by (rule unsigned_less)
  moreover have "unat (drop_bit 6 a) = unat a div 64" by (simp only: unat_drop_bit_eq) (simp add: drop_bit_eq_div)
  ultimately have "unat (drop_bit 6 a) < 2 ^ 58" by (simp add: div_less_iff_less_mult)
  then show ?thesis by (simp add: word_less_nat_alt)
qed

lemma page_nonzero: "64 \<le> (a :: addr) \<Longrightarrow> drop_bit 6 a \<noteq> 0"
proof -
  assume "64 \<le> a"
  then have "64 \<le> unat a" by (simp add: word_le_nat_alt)
  then have "unat (drop_bit 6 a) \<noteq> 0" by (simp only: unat_drop_bit_eq) (simp add: drop_bit_eq_div)
  then show ?thesis by auto
qed

lemma pf_ok_update:
  assumes "pf_ok s" and "idx < 16" and "pe_ok e" and "pe_stride e \<noteq> 0"
  shows "pf_ok (s\<lparr>pf_array := (pf_array s)[idx := e]\<rparr>)" and "pf_ok (s\<lparr>pf_array := (pf_array s)[idx := e], pf_tag := (pf_tag s)[idx := t]\<rparr>)"
  using assms by (auto simp: pf_ok_def nth_list_update)

lemma pf_ok_cong:
  "pf_tag s' = pf_tag s \<Longrightarrow> pf_array s' = pf_array s \<Longrightarrow> pf_ok s' = pf_ok s"
  by (simp add: pf_ok_def)

lemma pf_miss_ok:
  assumes "pf_ok s"
  shows "pf_ok (pf_miss s a pos cyc)"
proof (cases "pf_cand (pf_array s) cyc < 16")
  case True
  let ?c = "pf_cand (pf_array s) cyc"
  let ?e = "(pe_alloc cyc (pf_array s ! ?c))\<lparr>pe_lastPos := pos, pe_ts := pf_timestamp s\<rparr>"
  have "pe_ok (pf_array s ! ?c)" using assms True by (simp add: pf_ok_def)
  then have "pe_ok ?e" "pe_stride ?e \<noteq> 0" by (simp_all add: pe_ok_def pe_alloc_def)
  from pf_ok_update(2) [OF assms True this, of a] show ?thesis
    using True by (subst pf_ok_cong [of _ "s\<lparr>pf_array := (pf_array s)[?c := ?e], pf_tag := (pf_tag s)[?c := a]\<rparr>"])
      (simp_all add: pf_miss_def Let_def)
qed (use assms in \<open>simp add: pf_miss_def Let_def\<close>)

lemma pf_consume_ok:
  assumes "pf_consume pos r e = (e', r', hit, short)" and "pe_ok e"
  shows "pe_ok e'" and "pe_stride e' = pe_stride e" and "r \<le> r'"
  using assms by (auto simp: pf_consume_def Let_def pe_ok_def split: if_splits)

section \<open>Every access returns\<close>

text \<open>What accesses reach. The memory of a new prefetcher holds no tag of a page above the first one in an entry whose stride
  is 0: zeroed memory is of this kind.\<close>

inductive pf_reach :: "'p pf_parent \<Rightarrow> ('p \<Rightarrow> memreq \<Rightarrow> bool) \<Rightarrow> pf \<Rightarrow> bool" for pacc demand where
  init: "pf_setParents cid 1 False (pf_new tags ents) = Some s \<Longrightarrow> length tags = 16 \<Longrightarrow>
    \<forall>i<16. tags ! i = 0 \<or> 2 ^ 58 \<le> tags ! i \<or> pe_stride (ents ! i) \<noteq> 0 \<Longrightarrow>
    length ents = 16 \<Longrightarrow> \<forall>e\<in>set ents. length (pe_times e) = 64 \<Longrightarrow> pf_reach pacc demand s"
| step: "pf_reach pacc demand s \<Longrightarrow> demand p (req\<lparr>mr_childId := pf_childId s\<rparr>) \<Longrightarrow> (mr_type req = GETS \<Longrightarrow> 64 \<le> mr_lineAddr req) \<Longrightarrow>
    pf_access (pf_logged pacc) s (p, log) req = Some (s', q', req', r) \<Longrightarrow> pf_reach pacc demand s'"

text \<open>What the prefetcher relies on: a parent that serves the demand accesses that \<open>demand\<close> allows and is then fit to
  serve prefetches, and that serves prefetches without giving any permission. Between two accesses the parent's state may
  change in any way, as others access it too.\<close>

locale pf_above =
  fixes pacc :: "'p pf_parent" and pinv :: "'p \<Rightarrow> bool" and demand :: "'p \<Rightarrow> memreq \<Rightarrow> bool"
  assumes serve: "demand p req \<Longrightarrow> \<exists>p' r x. pacc p req (mr_initialState req) = Some (p', r, x) \<and> mr_cycle req \<le> r \<and>
      (mr_type req = GETS \<longrightarrow> pinv p')"
    and prefetch: "pinv p \<Longrightarrow> pf_plain q \<Longrightarrow> mr_lineAddr q \<noteq> 0 \<Longrightarrow> \<exists>p' r. pacc p q I = Some (p', r, I) \<and> pinv p'"
begin

lemma prefetch_logged:
  assumes p: "pinv p" and q: "pf_good_req req q" and page: "drop_bit 6 (mr_lineAddr req) \<noteq> 0"
  obtains p' r where "pf_logged pacc (p, log) q I = Some ((p', log @ [q]), r, I)" "pinv p'"
proof -
  have "pf_plain q" "mr_lineAddr q \<noteq> 0" using q page by (auto simp: pf_good_req_def)
  from prefetch [OF p this] show thesis by (auto simp: pf_logged_def intro: that)
qed

lemma pf_issue_ok:
  assumes p: "pinv p" and e: "pe_ok e" and pos: "pos = ucast (mr_lineAddr req AND 63)" and page: "drop_bit 6 (mr_lineAddr req) \<noteq> 0"
  shows "\<exists>e' p' pfs. pf_issue (pf_logged pacc) req pos stride short pp fd e (p, log) = Some (e', (p', log @ pfs), length pfs) \<and>
    pinv p' \<and> pe_ok e' \<and> pe_stride e' = pe_stride e \<and> length pfs \<le> 2 \<and> (\<forall>q\<in>set pfs. pf_good_req req q)"
proof (cases "pp < 64 \<and> \<not> pe_valid e ! unat pp")
  case False
  then show ?thesis using e p by (intro exI [of _ e] exI [of _ p] exI [of _ "[]"]) (auto simp: pf_issue_def)
next
  case True
  let ?a = "mr_lineAddr req + ucast pp - ucast pos" and ?e1 = "\<lambda>r. pe_fill pp (mr_cycle req) r e"
  have g1: "pf_good_req req (pf_req req ?a)" using True by (intro pf_good_pf_req page_line [OF pos]) simp
  obtain p1 r1 where 1: "pf_logged pacc (p, log) (pf_req req ?a) I = Some ((p1, log @ [pf_req req ?a]), r1, I)" "pinv p1"
    by (rule prefetch_logged [OF p g1 page])
  show ?thesis
  proof (cases "short \<and> fd < 8 \<and> pp + stride < 64 \<and> \<not> pe_valid (?e1 r1) ! unat (pp + stride)")
    case False
    then have "pf_issue (pf_logged pacc) req pos stride short pp fd e (p, log) =
        Some ((?e1 r1)\<lparr>pe_lastPrefetchPos := pp\<rparr>, (p1, log @ [pf_req req ?a]), length [pf_req req ?a])"
      unfolding pf_issue_def Let_def if_P [OF True] 1(1) Option.bind.simps prod.case if_not_P [OF False] by simp
    moreover have "pe_ok ((?e1 r1)\<lparr>pe_lastPrefetchPos := pp\<rparr>)" using e by (simp add: pe_ok_def pe_fill_def)
    ultimately show ?thesis using g1 1(2) by force
  next
    case second: True
    have a2: "?a + scast stride = mr_lineAddr req + ucast (pp + stride) - ucast pos"
      using next_line [of pp stride] True second by (simp add: algebra_simps)
    have g2: "pf_good_req req (pf_req req (?a + scast stride))"
      unfolding a2 using second by (intro pf_good_pf_req page_line [OF pos]) simp
    obtain p2 r2 where 2: "pf_logged pacc (p1, log @ [pf_req req ?a]) (pf_req req (?a + scast stride)) I =
        Some ((p2, (log @ [pf_req req ?a]) @ [pf_req req (?a + scast stride)]), r2, I)" "pinv p2"
      by (rule prefetch_logged [OF 1(2) g2 page])
    have "pf_issue (pf_logged pacc) req pos stride short pp fd e (p, log) =
        Some ((pe_fill (pp + stride) (mr_cycle req) r2 (?e1 r1))\<lparr>pe_lastPrefetchPos := pp + stride\<rparr>,
          (p2, log @ [pf_req req ?a, pf_req req (?a + scast stride)]), length [pf_req req ?a, pf_req req (?a + scast stride)])"
      unfolding pf_issue_def Let_def if_P [OF True] 1(1) Option.bind.simps prod.case if_P [OF second] 2(1) by simp
    moreover have "pe_ok ((pe_fill (pp + stride) (mr_cycle req) r2 (?e1 r1))\<lparr>pe_lastPrefetchPos := pp + stride\<rparr>)"
      using e by (simp add: pe_ok_def pe_fill_def)
    moreover have "length [pf_req req ?a, pf_req req (?a + scast stride)] \<le> 2"
      "\<forall>q\<in>set [pf_req req ?a, pf_req req (?a + scast stride)]. pf_good_req req q" using g1 g2 by auto
    moreover have "pe_stride ((pe_fill (pp + stride) (mr_cycle req) r2 (?e1 r1))\<lparr>pe_lastPrefetchPos := pp + stride\<rparr>) = pe_stride e" by simp
    ultimately show ?thesis using 2(2) by metis
  qed
qed


lemma pf_train_ok:
  assumes p: "pinv p" and e: "pe_ok e" "pe_stride e \<noteq> 0" and pos: "pos = ucast (mr_lineAddr req AND 63)"
    and page: "drop_bit 6 (mr_lineAddr req) \<noteq> 0"
  shows "\<exists>e' p' pfs sw lc. pf_train (pf_logged pacc) req pos short e (p, log) = Some (e', (p', log @ pfs), length pfs, sw, lc) \<and>
    pinv p' \<and> pe_ok e' \<and> pe_stride e' \<noteq> 0 \<and> length pfs \<le> 2 \<and> (\<forall>q\<in>set pfs. pf_good_req req q)"
proof (cases "pe_stride e = pos - pe_lastPos e")
  case True
  let ?e1 = "e\<lparr>pe_conf := sat_inc (pe_conf e)\<rparr>"
  show ?thesis
  proof (cases "sat_pred (pe_conf ?e1)")
    case pred: True
    obtain pp fd where d: "pf_depth (pe_lastPrefetchPos ?e1) (pe_lastPos ?e1) (pos - pe_lastPos e) pos = (pp, fd)" by force
    have "pe_ok ?e1" using e by (simp add: pe_ok_def)
    from pf_issue_ok [OF p this pos page, of "pos - pe_lastPos e" short pp fd log]
    obtain e' p' pfs where "pf_issue (pf_logged pacc) req pos (pos - pe_lastPos e) short pp fd ?e1 (p, log) = Some (e', (p', log @ pfs), length pfs)"
      "pinv p'" "pe_ok e'" "pe_stride e' = pe_stride ?e1" "length pfs \<le> 2" "\<forall>q\<in>set pfs. pf_good_req req q" by blast
    then show ?thesis using True pred d e by (auto simp: pf_train_def Let_def)
  next
    case False
    have "pf_train (pf_logged pacc) req pos short e (p, log) = Some (?e1, (p, log @ []), length ([] :: memreq list), 0, 1)"
      using True False by (simp add: pf_train_def Let_def)
    moreover have "pe_ok ?e1" "pe_stride ?e1 \<noteq> 0" using e by (simp_all add: pe_ok_def)
    ultimately show ?thesis using p by force
  qed
next
  case False
  let ?e1 = "e\<lparr>pe_conf := sat_dec (pe_conf e)\<rparr>" and ?stride = "pos - pe_lastPos e"
  let ?sw = "\<not> sat_pred (pe_conf ?e1) \<and> ?stride \<noteq> 0 \<and> ?stride \<noteq> pe_stride ?e1 \<and> ?stride = pe_lastPos ?e1 - pe_lastLastPos ?e1"
  let ?e' = "(if ?sw then ?e1\<lparr>pe_conf := sat_init, pe_stride := ?stride\<rparr> else ?e1)\<lparr>pe_lastPrefetchPos := pos\<rparr>"
  have "pf_train (pf_logged pacc) req pos short e (p, log) = Some (?e', (p, log @ []), length ([] :: memreq list), if ?sw then 1 else 0, 0)"
    using False by (simp add: pf_train_def Let_def)
  moreover have "pe_ok ?e'" using e by (simp add: pe_ok_def)
  moreover have "pe_stride ?e' \<noteq> 0"
  proof (cases ?sw)
    case True
    then have "?stride \<noteq> 0" by blast
    then show ?thesis unfolding if_P [OF True] by simp
  next
    case False
    then show ?thesis unfolding if_not_P [OF False] using e(2) by simp
  qed
  moreover have "length ([] :: memreq list) \<le> 2" "\<forall>q\<in>set []. pf_good_req req q" by simp_all
  ultimately show ?thesis using p by metis
qed


lemma pf_hit_ok:
  assumes p: "pinv p" and ok: "pf_ok s" and idx: "idx < 16" "pe_stride (pf_array s ! idx) \<noteq> 0"
    and pos: "pos = ucast (mr_lineAddr req AND 63)" and page: "drop_bit 6 (mr_lineAddr req) \<noteq> 0"
  shows "\<exists>s' p' pfs r'. pf_hit (pf_logged pacc) req idx pos r s (p, log) = Some (s', (p', log @ pfs), r') \<and>
    pinv p' \<and> pf_ok s' \<and> pf_childId s' = pf_childId s \<and> r \<le> r' \<and> length pfs \<le> 2 \<and> (\<forall>q\<in>set pfs. pf_good_req req q) \<and>
    pf_prefetches s' = pf_prefetches s + length pfs"
proof -
  let ?e0 = "(pf_array s ! idx)\<lparr>pe_ts := pf_timestamp s\<rparr>"
  obtain e1 r' hit short where pc: "pf_consume pos r ?e0 = (e1, r', hit, short)" by (metis prod_cases4)
  have "pe_ok ?e0" using ok idx(1) by (simp add: pf_ok_def pe_ok_def)
  note p1 = pf_consume_ok [OF pc this]
  have "pe_stride e1 \<noteq> 0" using p1(2) idx(2) by simp
  from pf_train_ok [OF p p1(1) this pos page, of short log] obtain e2 p' pfs sw lc where
    t: "pf_train (pf_logged pacc) req pos short e1 (p, log) = Some (e2, (p', log @ pfs), length pfs, sw, lc)"
    and e2: "pe_ok e2" "pe_stride e2 \<noteq> 0" "pinv p'" and pfs: "length pfs \<le> 2" "\<forall>q\<in>set pfs. pf_good_req req q" by blast
  let ?e = "e2\<lparr>pe_lastLastPos := pe_lastPos e2, pe_lastPos := pos\<rparr>"
  let ?s = "s\<lparr>pf_timestamp := pf_timestamp s + 1, pf_array := (pf_array s)[idx := ?e],
      pf_pageHits := pf_pageHits s + 1, pf_hits := pf_hits s + of_bool hit, pf_shortHits := pf_shortHits s + of_bool short,
      pf_prefetches := pf_prefetches s + length pfs, pf_doublePrefetches := pf_doublePrefetches s + of_bool (length pfs = 2),
      pf_strideSwitches := pf_strideSwitches s + sw, pf_lowConfAccs := pf_lowConfAccs s + lc\<rparr>"
  have "pf_hit (pf_logged pacc) req idx pos r s (p, log) = Some (?s, (p', log @ pfs), r')"
    by (simp add: pf_hit_def Let_def pc t)
  moreover have "pe_ok ?e" "pe_stride ?e \<noteq> 0" using e2 by (simp_all add: pe_ok_def)
  then have "pf_ok ?s" using pf_ok_update(1) [OF ok idx(1), of ?e]
    by (subst pf_ok_cong [of _ "s\<lparr>pf_array := (pf_array s)[idx := ?e]\<rparr>"]) simp_all
  ultimately show ?thesis using p1(3) pfs e2(3) by (intro exI [of _ ?s] exI [of _ p'] exI [of _ pfs] exI [of _ r']) simp
qed


lemma pf_access_ok:
  assumes dem: "demand p (req\<lparr>mr_childId := pf_childId s\<rparr>)" and ok: "pf_ok s" and page: "mr_type req = GETS \<Longrightarrow> 64 \<le> mr_lineAddr req"
  shows "\<exists>s' p' pfs r. pf_access (pf_logged pacc) s (p, log) req =
      Some (s', (p', log @ req\<lparr>mr_childId := pf_childId s\<rparr> # pfs), if mr_type req = GETS then req else req\<lparr>mr_childId := pf_childId s\<rparr>, r) \<and>
    (mr_type req = GETS \<longrightarrow> pinv p') \<and> pf_ok s' \<and> pf_childId s' = pf_childId s \<and> mr_cycle req \<le> r \<and> length pfs \<le> 2 \<and> (mr_type req \<noteq> GETS \<longrightarrow> pfs = []) \<and>
    (\<forall>q\<in>set pfs. pf_good_req req q) \<and> pf_prefetches s' = pf_prefetches s + length pfs"
proof -
  let ?req = "req\<lparr>mr_childId := pf_childId s\<rparr>"
  obtain p1 r1 st1 where d: "pf_logged pacc (p, log) ?req (mr_initialState ?req) = Some ((p1, log @ [?req]), r1, st1)" "mr_cycle req \<le> r1"
    "mr_type req = GETS \<longrightarrow> pinv p1"
    using serve [OF dem] by (auto simp: pf_logged_def)
  show ?thesis
  proof (cases "mr_type req = GETS")
    case False
    then have "pf_access (pf_logged pacc) s (p, log) req = Some (s, (p1, log @ ?req # []), ?req, r1)"
      using d(1) by (simp add: pf_access_def Let_def)
    then show ?thesis using False ok d(2)
      by (intro exI [of _ s] exI [of _ p1] exI [of _ "[]"] exI [of _ r1]) simp
  next
    case True
    let ?s1 = "s\<lparr>pf_accesses := pf_accesses s + 1\<rparr>" and ?a = "drop_bit 6 (mr_lineAddr req)" and ?pos = "ucast (mr_lineAddr req AND 63) :: u32"
    have ok1: "pf_ok ?s1" using ok by (simp add: pf_ok_def)
    have nz: "?a \<noteq> 0" by (rule page_nonzero) (rule page [OF True])
    have inv1: "pinv p1" using d(3) True by simp
    show ?thesis
    proof (cases "pf_find (pf_tag s) ?a = 16")
      case miss: True
      let ?s2 = "pf_miss ?s1 ?a ?pos (mr_cycle req)"
      have "pf_access (pf_logged pacc) s (p, log) req = Some (?s2, (p1, log @ ?req # []), req, r1)"
        using True miss d(1) by (simp add: pf_access_def Let_def)
      moreover have "pf_childId ?s2 = pf_childId s" "pf_prefetches ?s2 = pf_prefetches s + length ([] :: memreq list)"
        by (simp_all add: pf_miss_def Let_def)
      ultimately show ?thesis using True pf_miss_ok [OF ok1, of ?a ?pos "mr_cycle req"] d(2) inv1
        by (intro exI [of _ ?s2] exI [of _ p1] exI [of _ "[]"] exI [of _ r1]) simp
    next
      case False
      let ?i = "pf_find (pf_tag s) ?a"
      have i: "?i < 16" "pf_tag s ! ?i = ?a" using pf_find_cases [of "pf_tag s" ?a] False by auto
      then have "pe_stride (pf_array ?s1 ! ?i) \<noteq> 0" using ok page_small [of "mr_lineAddr req"] nz by (simp add: pf_ok_def)
      from pf_hit_ok [OF inv1 ok1 i(1) this, of ?pos ?req r1 "log @ [?req]"] obtain s' p' pfs r' where
        h: "pf_hit (pf_logged pacc) ?req ?i ?pos r1 ?s1 (p1, log @ [?req]) = Some (s', (p', (log @ [?req]) @ pfs), r')"
        "pf_ok s'" "pf_childId s' = pf_childId ?s1" "r1 \<le> r'" "length pfs \<le> 2" "\<forall>q\<in>set pfs. pf_good_req ?req q"
        "pf_prefetches s' = pf_prefetches ?s1 + length pfs" "pinv p'" using nz by auto
      have "pf_access (pf_logged pacc) s (p, log) req = Some (s', (p', log @ ?req # pfs), req, r')"
        using True False d(1) h(1) by (simp add: pf_access_def Let_def)
      moreover have "\<forall>q\<in>set pfs. pf_good_req req q" using h(6) by (simp add: pf_good_req_def)
      ultimately show ?thesis using True h d(2)
        by (intro exI [of _ s'] exI [of _ p'] exI [of _ pfs] exI [of _ r']) simp
    qed
  qed
qed


lemma pf_reach_ok: "pf_reach pacc demand s \<Longrightarrow> pf_ok s"
proof (induction rule: pf_reach.induct)
  case (init cid tags ents s)
  then have s: "s = (pf_new tags ents)\<lparr>pf_childId := cid\<rparr>" by (auto simp: pf_setParents_def)
  have "tags ! i = 0 \<or> \<not> tags ! i < 2 ^ 58 \<or> pe_stride (ents ! i) \<noteq> 0" if "i < 16" for i
    using init(3) that by (simp add: not_less)
  then show ?case using init(2,4,5) by (auto simp: pf_ok_def s pf_new_def pe_ok_def)
next
  case (step s p req log s' q' req' r)
  show ?case using pf_access_ok [OF step.hyps(2) step.IH step.hyps(3), of log] step.hyps(4) by auto
qed

lemma pf_reach_access:
  assumes "pf_reach pacc demand s" and "demand p (req\<lparr>mr_childId := pf_childId s\<rparr>)" and "mr_type req = GETS \<Longrightarrow> 64 \<le> mr_lineAddr req"
  shows "\<exists>s' p' pfs req' r. pf_access (pf_logged pacc) s (p, log) req = Some (s', (p', log @ req\<lparr>mr_childId := pf_childId s\<rparr> # pfs), req', r) \<and>
    pf_reach pacc demand s' \<and> (mr_type req = GETS \<longrightarrow> pinv p') \<and> mr_cycle req \<le> r \<and> length pfs \<le> 2 \<and>
    req' = (if mr_type req = GETS then req else req\<lparr>mr_childId := pf_childId s\<rparr>) \<and> (mr_type req \<noteq> GETS \<longrightarrow> pfs = []) \<and>
    (\<forall>q\<in>set pfs. pf_good_req req q)"
proof -
  from pf_access_ok [OF assms(2) pf_reach_ok [OF assms(1)] assms(3), of log] obtain s' p' pfs r where
    a: "pf_access (pf_logged pacc) s (p, log) req =
      Some (s', (p', log @ req\<lparr>mr_childId := pf_childId s\<rparr> # pfs), if mr_type req = GETS then req else req\<lparr>mr_childId := pf_childId s\<rparr>, r)"
    and o: "mr_type req = GETS \<longrightarrow> pinv p'" "mr_cycle req \<le> r" "length pfs \<le> 2" "mr_type req \<noteq> GETS \<longrightarrow> pfs = []"
      "\<forall>q\<in>set pfs. pf_good_req req q" by blast
  show ?thesis using a pf_reach.step [OF assms(1,2,3) a] o
    by (intro exI [of _ s'] exI [of _ p'] exI [of _ pfs] exI [of _ "if mr_type req = GETS then req else req\<lparr>mr_childId := pf_childId s\<rparr>"]
      exI [of _ r]) simp
qed

end

section \<open>A new prefetcher\<close>

text \<open>The entries of zeroed memory, and a new prefetcher there.\<close>

definition pf_zeros :: "pf_entry list" where
  "pf_zeros = replicate 16 \<lparr>pe_stride = 0, pe_conf = 0, pe_times = replicate 64 (0, 0), pe_valid = replicate 64 False, pe_lastPos = 0,
     pe_lastLastPos = 0, pe_lastPrefetchPos = 0, pe_lastCycle = 0, pe_ts = 0\<rparr>"

lemma pf_zeros_reach:
  "pf_reach pacc demand ((pf_new (replicate 16 0) pf_zeros)\<lparr>pf_childId := cid\<rparr>)"
  by (rule pf_reach.init [of cid "replicate 16 0" pf_zeros]) (simp_all add: pf_setParents_def pf_zeros_def)

text \<open>There the first load of line 0 finds an entry that was never allocated and divides by its stride 0.\<close>

lemma prefetch_zero_memory_traps:
  assumes "mr_type req = GETS" and "mr_lineAddr req = 0"
  shows "pf_access pacc ((pf_new (replicate 16 0) pf_zeros)\<lparr>pf_childId := cid\<rparr>) p req = None"
proof -
  have f: "pf_find (replicate 16 0) 0 = 15" by code_simp
  show ?thesis
    using assms by (simp add: pf_access_def Let_def pf_new_def f pf_zeros_def pf_hit_def pf_consume_def pf_train_def sat_inc_def sat_init_def
      sat_pred_def bind_eq_None_conv)
qed

text \<open>Right over the memory no prefetch goes through: \<open>SimpleMemory\<close> gives it E, and the assertion that a prefetch gives no
  permission fails.\<close>

definition mem_parent :: "nat \<Rightarrow> 'p pf_parent" where
  "mem_parent lat p req x = map_option (\<lambda>(state, respCycle). (p, respCycle, state)) (simple_mem_access lat req)"

lemma prefetch_memory_traps:
  assumes "prefetchPos < 64" and "\<not> pe_valid e ! unat prefetchPos"
  shows "pf_issue (mem_parent (Suc lat)) req pos stride shortPrefetch prefetchPos fetchDepth e p = None"
  using assms by (auto simp: pf_issue_def mem_parent_def simple_mem_access_def simple_mem_state_def pf_req_def flag_defs Let_def)

section \<open>How far ahead\<close>

lemma unat_small: "n < 2 ^ 32 \<Longrightarrow> unat (of_nat n :: u32) = n"
  by (simp add: unsigned_of_nat take_bit_nat_eq_self)

lemma sint_small:
  assumes "unat (w :: u32) < 2 ^ 31"
  shows "sint w = int (unat w)"
proof -
  have "int (unat w) = uint w" by simp
  moreover have "int (unat w) < int (2 ^ 31)" using assms by (simp only: of_nat_less_iff)
  ultimately show ?thesis unfolding sint_u32 by simp
qed

lemma of_nat_minus_u32: "k \<le> l \<Longrightarrow> (of_nat (l - k) - of_nat l :: u32) = - of_nat k"
  by (simp add: of_nat_diff)

lemma unat_uminus_u32:
  assumes "0 < k" and "k < 2 ^ 32"
  shows "unat (- of_nat k :: u32) = 2 ^ 32 - k"
proof -
  have "(of_nat (2 ^ 32 - k) :: u32) = of_nat (2 ^ 32) - of_nat k" using assms(2) by (intro of_nat_diff) simp
  also have "(of_nat (2 ^ 32) :: u32) = 0" by simp
  finally have "- of_nat k = (of_nat (2 ^ 32 - k) :: u32)" by simp
  then show ?thesis using assms by (simp only: unat_small)
qed

lemma pf_depth_ahead:
  assumes w: "0 < w" and n: "0 < n \<and> l + n * w < 64"
  shows "pf_depth (of_nat (l + n * w)) (of_nat l) (of_nat w) pos = (of_nat (l + (n + 1) * w), int n)"
proof -
  have "1 * w \<le> n * w" by (rule mult_le_mono1) (use n in simp)
  moreover have "n * 1 \<le> n * w" by (rule mult_le_mono2) (use w in simp)
  ultimately have b: "n * w < 64" "w < 64" "n < 64" using n by linarith+
  have d: "of_nat (l + n * w) - of_nat l = (of_nat (n * w) :: u32)" by simp
  have "unat ((of_nat (n * w) :: u32) div of_nat w) = n"
    unfolding unat_div using b w unat_small [of "n * w"] unat_small [of w] by simp
  then have "sint ((of_nat (n * w) :: u32) div of_nat w) = int n" using b by (simp add: sint_small)
  then show ?thesis unfolding pf_depth_def Let_def d using n by (simp add: algebra_simps)
qed

lemma pf_depth_descending:
  assumes l: "l < 64" and w: "0 < w" "w < 64" and n: "2 \<le> n \<and> n * w \<le> l"
  shows "pf_depth (of_nat (l - n * w)) (of_nat l) (- of_nat w) pos = (pos - of_nat w, 1)"
proof -
  have "2 * w \<le> n * w" using n by (intro mult_le_mono) simp_all
  then have lt: "w < n * w" using w by simp
  have d: "of_nat (l - n * w) - of_nat l = (- of_nat (n * w) :: u32)" using n by (intro of_nat_minus_u32) simp
  have "unat (- of_nat (n * w) :: u32) = 2 ^ 32 - n * w" "unat (- of_nat w :: u32) = 2 ^ 32 - w"
    using lt w n l by (intro unat_uminus_u32; simp)+
  moreover have "(2 ^ 32 - n * w) div (2 ^ 32 - w :: nat) = 0" using lt n l w by (intro div_less diff_less_mono2) simp_all
  ultimately have "unat ((- of_nat (n * w) :: u32) div - of_nat w) = 0" unfolding unat_div by (simp only:)
  then have "(- of_nat (n * w) :: u32) div - of_nat w = 0" by (metis unat_eq_zero)
  then show ?thesis unfolding pf_depth_def Let_def d by simp
qed

lemma pf_depth_behind:
  assumes l: "l < 64" and w: "w < 64" "2 \<le> w \<and> w \<le> l"
  shows "pf_depth (of_nat (l - w)) (of_nat l) (of_nat w) pos = (of_nat l, int ((2 ^ 32 - w) div w))"
proof -
  have d: "of_nat (l - w) - of_nat l = (- of_nat w :: u32)" using w by (intro of_nat_minus_u32) simp
  have "unat (- of_nat w :: u32) = 2 ^ 32 - w" using w by (intro unat_uminus_u32) simp_all
  then have q: "unat ((- of_nat w :: u32) div of_nat w) = (2 ^ 32 - w) div w"
    unfolding unat_div using w unat_small [of w] by simp
  have "(2 ^ 32 - w) div w \<le> (2 ^ 32 - w) div 2" using w by (intro div_le_mono2) simp_all
  moreover have "(2 ^ 32 - w) div 2 < (2 ^ 31 :: nat)" using w by (simp add: div_less_iff_less_mult)
  ultimately have "(2 ^ 32 - w) div w < 2 ^ 31" by linarith
  moreover have "1 \<le> (2 ^ 32 - w) div w" using w by (simp add: less_eq_div_iff_mult_less_eq)
  moreover have "of_nat (l - w) + of_nat w = (of_nat l :: u32)" using w by (simp add: of_nat_diff)
  ultimately show ?thesis unfolding pf_depth_def Let_def d using q by (simp add: sint_small)
qed

text \<open>How far ahead to prefetch. On an ascending stream whose last prefetch is \<open>n\<close> strides ahead, the depth is \<open>n\<close>
  and the next line is prefetched. On a descending one that is two or more strides ahead the unsigned quotient is 0, so the
  prefetcher falls back to the line after the access and never gets ahead. And when the last prefetch is one stride of
  2 or more behind, as after an access of low confidence, the quotient is huge and the line prefetched is the one accessed before.\<close>

theorem prefetch_depth:
  fixes l n w :: nat
  assumes "l < 64" and "0 < w" and "w < 64"
  shows "(0 < n \<and> l + n * w < 64 \<longrightarrow> pf_depth (of_nat (l + n * w)) (of_nat l) (of_nat w) pos = (of_nat (l + (n + 1) * w), int n)) \<and>
    (2 \<le> n \<and> n * w \<le> l \<longrightarrow> pf_depth (of_nat (l - n * w)) (of_nat l) (- of_nat w) pos = (pos - of_nat w, 1)) \<and>
    (2 \<le> w \<and> w \<le> l \<longrightarrow> pf_depth (of_nat (l - w)) (of_nat l) (of_nat w) pos = (of_nat l, int ((2 ^ 32 - w) div w)))"
  using pf_depth_ahead [OF assms(2)] pf_depth_descending [OF assms] pf_depth_behind [OF assms(1,3)] by blast

theorem prefetch_depth_witness:
  "pf_depth 14 10 2 12 = (16, 2) \<and> pf_depth 6 10 (-2) 12 = (10, 1) \<and> pf_depth 8 10 2 12 = (10, 2147483647)"
  using prefetch_depth [of 10 2 2 12] by simp

end
