(* ===== verification/Prefetch_Caches.thy ===== *)
theory Prefetch_Caches
  imports Prefetcher Cache_System
begin

text \<open>
  The stream prefetcher between the level-1 caches and the shared cache: \<open>l2_parent\<close> is the shared cache of \<open>Cache_System\<close> as
  the parent that \<open>Prefetcher\<close> takes, and it is proved to meet the interface \<open>pf_above\<close>: it serves a prefetch without touching its
  directory, gives no permission for it and keeps the coherence invariant.
\<close>

section \<open>The shared cache as the parent\<close>

text \<open>\<open>x\<close> is what the variable behind \<open>req.state\<close> holds. Only the top controller writes it, and \<open>MESICC::processAccess\<close> does
  not call the top controller for a prefetch.\<close>

definition l2_parent :: "(nat \<Rightarrow> 'a ca_ops) \<Rightarrow> nat \<Rightarrow> nat \<Rightarrow> 'a hier pf_parent" where
  "l2_parent aops lat k h req x =
     map_option (\<lambda>(h', respCycle). (h', respCycle, if mr_is PREFETCH req then x else cell h' (mr_state req))) (l2_access aops lat k h req)"

text \<open>The requests that a level-1 cache sends, with the state of the hierarchy when it does: the shared cache is coherent, and
  for the GET of a miss the line has its tag and no permission yet. An eviction sends its PUT while the arrays of its own
  cache are being changed.\<close>

definition shared_ok :: "nat \<Rightarrow> (nat \<Rightarrow> nat) \<Rightarrow> (nat \<Rightarrow> 'a \<Rightarrow> bool) \<Rightarrow> (nat \<Rightarrow> 'a \<Rightarrow> nat \<Rightarrow> addr) \<Rightarrow> 'a hier \<Rightarrow> bool" where
  "shared_ok k N ainv atag h \<longleftrightarrow> shape k N h \<and> coherent k N (st h) (dir h k) (tg atag h) \<and> ainv k (c_array (h ! k))"

definition l1_sends :: "nat \<Rightarrow> (nat \<Rightarrow> nat) \<Rightarrow> (nat \<Rightarrow> 'a \<Rightarrow> bool) \<Rightarrow> (nat \<Rightarrow> 'a \<Rightarrow> nat \<Rightarrow> addr) \<Rightarrow> 'a hier \<Rightarrow> memreq \<Rightarrow> bool" where
  "l1_sends k N ainv atag h req \<longleftrightarrow> shared_ok k N ainv atag h \<and>
     (\<exists>c l t cyc src flags. c < k \<and> l < N c \<and> req = bcc_req c l h (tg atag h c l) t cyc src flags \<and>
       (if IsGet t then (\<forall>i<k. ainv i (c_array (h ! i))) \<and> tg atag h c l \<noteq> 0 \<and> flags AND PREFETCH = 0 \<and>
          (t = GETS \<and> st h c l = I \<or> t = GETX \<and> (st h c l = I \<or> st h c l = S))
        else flags = 0 \<and> (t = PUTS \<and> st h c l \<noteq> I \<or> t = PUTX \<and> st h c l = M)))"

context two_level
begin

lemma hier_ok_shared: "hier_ok h \<longleftrightarrow> shared_ok k N ainv atag h \<and> (\<forall>i<k. ainv i (c_array (h ! i)))"
  by (auto simp: hier_ok_def shared_ok_def coh_def l1s_ok_def)

lemma l2_prefetch:
  assumes ok: "hier_ok h" and q: "pf_plain q" "mr_lineAddr q \<noteq> 0"
  shows "\<exists>h' cyc'. l2_access aops lat k h q = Some (h', cyc') \<and> hier_ok h' \<and> mr_cycle q \<le> cyc' \<and> map cfg h' = map cfg h \<and>
    (\<forall>i<k. tg atag h' i = tg atag h i) \<and> (\<exists>L<N k. tg atag h' k L = mr_lineAddr q \<and> st h' k L \<noteq> I)"
proof -
  have rq: "mr_type q = GETS" "mr_flags q = PREFETCH" "mr_state q = LocalCell" "mr_initialState q = I" "q\<lparr>mr_type := GETS\<rparr> = q"
    using q(1) by (simp_all add: pf_plain_def)
  have sh: "shape k N h" using ok by (simp add: hier_ok_def)
  then have "\<not> c_terminal (h ! k)" by (simp add: shape_def)
  then have start: "cc_startAccess k h q = Some (q, False)" by (simp add: cc_startAccess_def rq race_free)
  obtain h3 L where acc: "l2_access aops lat k h q = Option.bind
      (mesicc_processAccess (mem_access lat) (l1_invalidate aops) k q (Some L) (mr_cycle q + c_accLat (h ! k)) h3)
      (\<lambda>(h4, respCycle). Option.bind (guard (mr_cycle q \<le> respCycle)) (\<lambda>_. Some (h4, respCycle)))"
    and ins: "hier_ok h3" "L < N k" "tg atag h3 k L = mr_lineAddr q" "\<forall>i<k. tg atag h3 i = tg atag h i" "map cfg h3 = map cfg h"
    by (rule l2_insert [OF ok _ refl q(2) start]) (use rq(1) in \<open>auto simp: IsGet_def\<close>)
  have ok3: "shape k N h3" "coh h3" "l1s_ok h3" "ainv k (c_array (h3 ! k))" using ins(1) by (simp_all add: hier_ok_def)
  let ?cyc = "mr_cycle q + c_accLat (h ! k)" and ?fl = "mr_flags q AND NOT PREFETCH"
  obtain h' cyc' x where b: "bcc_processAccess (mem_access lat) k (mr_lineAddr q) L GETS ?cyc (mr_srcId q) ?fl h3 = Some (h', cyc')"
    "keeps h3 h'" "?cyc \<le> cyc'" "dir h' = dir h3" "st h' = (st h3)(k := (st h3 k)(L := x))" "bcc_post GETS (st h3 k L) x"
    using mem_bcc_access [OF ok3(1) ins(2) lat, of GETS "mr_lineAddr q" ?cyc "mr_srcId q" ?fl] by auto
  have k1: "tkeeps h3 h'" by (rule keeps_tkeeps [OF b(2)])
  have x: "x \<noteq> I" "st h3 k L = E \<or> st h3 k L = M \<Longrightarrow> x = E \<or> x = M" using b(6) by (auto simp: bcc_post_def split: if_splits)
  have tg': "tg atag h' = tg atag h3" by (rule tkeeps_coh [OF k1])
  have "coh h'"
    using coherent_fill [OF ok3(2) [unfolded coh_def] ins(2) _ x] ins(3) q(2) by (simp add: coh_def b(4,5) tg')
  moreover have "mesicc_processAccess (mem_access lat) (l1_invalidate aops) k q (Some L) ?cyc h3 = Some (h', cyc')"
    using b(1) rq(1,2) by (simp add: mesicc_processAccess_def Let_def mr_is_def PREFETCH_def IsPut_def)
  then have "l2_access aops lat k h q = Some (h', cyc')" using b(3) by (simp add: acc)
  moreover have "hier_ok h'"
    using calculation(1) k1 tkeeps_shape [OF k1] ok3(1,3,4) by (simp add: hier_ok_def tkeeps_def)
  moreover have "st h' k L \<noteq> I" using x(1) by (simp add: b(5))
  moreover have "map cfg h' = map cfg h3" using k1 by (simp add: tkeeps_def)
  ultimately show ?thesis using b(3) ins(2-5) tg' by auto
qed

lemma l2_sends:
  assumes "l1_sends k N ainv atag h req"
  shows "\<exists>h' cyc'. l2_access aops lat k h req = Some (h', cyc') \<and> mr_cycle req \<le> cyc' \<and> (mr_type req = GETS \<longrightarrow> hier_ok h')"
proof -
  obtain c l t cyc src flags where c: "c < k" "l < N c" and req: "req = bcc_req c l h (tg atag h c l) t cyc src flags"
    and t: "if IsGet t then (\<forall>i<k. ainv i (c_array (h ! i))) \<and> tg atag h c l \<noteq> 0 \<and> flags AND PREFETCH = 0 \<and>
          (t = GETS \<and> st h c l = I \<or> t = GETX \<and> (st h c l = I \<or> st h c l = S))
        else flags = 0 \<and> (t = PUTS \<and> st h c l \<noteq> I \<or> t = PUTX \<and> st h c l = M)"
    and ok: "shared_ok k N ainv atag h"
    using assms unfolding l1_sends_def by blast
  have rq: "mr_cycle req = cyc" "mr_type req = t" by (simp_all add: req bcc_req_def)
  show ?thesis
  proof (cases "IsGet t")
    case True
    have "hier_ok h" using ok t True by (simp add: hier_ok_shared)
    from l2_get [OF this c, of t flags cyc src] t True show ?thesis unfolding rq req [symmetric] by auto
  next
    case False
    then have "t \<noteq> GETS" by (auto simp: IsGet_def)
    with l2_put [of h c l t cyc src] ok c t False show ?thesis
      unfolding rq by (auto simp: req shared_ok_def coh_def)
  qed
qed

text \<open>The states that \<open>l1_sends\<close> describes exist: a level-1 cache that holds nothing takes any address into its array.\<close>

lemma missing_ex:
  assumes ok: "hier_ok h" and c: "c < k" and a: "a \<noteq> 0" and I: "\<forall>l<N c. st h c l = I"
  obtains h' l where "hier_ok h'" "l < N c" "tg atag h' c l = a" "st h' c l = I"
proof (cases "afind c (c_array (h ! c)) a")
  case (Some l)
  have "ainv c (c_array (h ! c))" using ok c by (simp add: hier_ok_def l1s_ok_def)
  from ca_find_tag [OF less_imp_le [OF c] this a Some] I ok show ?thesis by (intro that [of h l]) (simp_all add: tg_def)
next
  case None
  have ck: "c \<le> k" using c by simp
  have sh: "shape k N h" and co: "coherent k N (st h) (dir h k) (tg atag h)" and inv: "ainv c (c_array (h ! c))"
    using ok c by (simp_all add: hier_ok_def coh_def l1s_ok_def)
  obtain s1 l where p: "l < N c" "apend c s1 a l" "atag c s1 = atag c (c_array (h ! c))"
    using ca_preinsert_ok [OF ck inv a None, of "cc_view_of h c" "read_req a"] by blast
  obtain s2 where q: "ainv c s2" "atag c s2 = (atag c s1)(l := a)"
    using ca_postinsert_ok [OF ck p(2), of "read_req a"] by blast
  have fresh: "\<forall>j<N c. tg atag h c j \<noteq> a"
    using ca_tag_find [OF ck inv] None a unfolding tg_def by (metis option.distinct(1))
  have tg2: "tg atag (set_arr c s2 h) = (tg atag h)(c := (tg atag h c)(l := a))"
    using tg_set_arr [OF sh ck, of s2] p(3) q(2) by (simp add: fun_eq_iff tg_def)
  have "coh (set_arr c s2 h)"
    using coherent_retag [OF co ck p(1) _ a fresh] I p(1) by (simp add: coh_def tg2)
  then have "hier_ok (set_arr c s2 h)"
    using ok sh q(1) c arr_set_arr_shape [OF sh ck] by (auto simp: hier_ok_def l1s_ok_def)
  then show ?thesis using p(1) I by (intro that [of "set_arr c s2 h" l]) (simp_all add: tg2)
qed

lemma l2_above:
  "pf_above (l2_parent aops lat k) (\<lambda>h. shared_ok k N ainv atag h \<and> (\<forall>i<k. ainv i (c_array (h ! i)))) (l1_sends k N ainv atag)"
  unfolding hier_ok_shared [symmetric]
proof
  fix h req assume "l1_sends k N ainv atag h req"
  from l2_sends [OF this] show "\<exists>h' r x. l2_parent aops lat k h req (mr_initialState req) = Some (h', r, x) \<and> mr_cycle req \<le> r \<and>
      (mr_type req = GETS \<longrightarrow> hier_ok h')"
    by (auto simp: l2_parent_def)
next
  fix h q assume "hier_ok h" "pf_plain q" "mr_lineAddr q \<noteq> 0"
  from l2_prefetch [OF this] this(2) show "\<exists>h' r. l2_parent aops lat k h q I = Some (h', r, I) \<and> hier_ok h'"
    by (auto simp: l2_parent_def pf_plain_def mr_is_def PREFETCH_def)
qed

end

section \<open>Set-associative SRRIP caches\<close>

definition srrip_ready :: "(nat \<Rightarrow> nat \<Rightarrow> addr \<Rightarrow> u64) \<Rightarrow> (nat \<Rightarrow> nat) \<Rightarrow> (nat \<Rightarrow> nat) \<Rightarrow> nat \<Rightarrow> srrip setassoc hier \<Rightarrow> bool" where
  "srrip_ready hash m w k h \<longleftrightarrow> shared_ok k (srrip_lines m w) (sets_inv hash m w) (\<lambda>_. sa_tag) h \<and> (\<forall>i<k. sets_inv hash m w i (c_array (h ! i)))"

definition srrip_sends :: "(nat \<Rightarrow> nat \<Rightarrow> addr \<Rightarrow> u64) \<Rightarrow> (nat \<Rightarrow> nat) \<Rightarrow> (nat \<Rightarrow> nat) \<Rightarrow> nat \<Rightarrow> srrip setassoc hier \<Rightarrow> memreq \<Rightarrow> bool" where
  "srrip_sends hash m w k = l1_sends k (srrip_lines m w) (sets_inv hash m w) (\<lambda>_. sa_tag)"

interpretation l2_pf: pf_above "l2_parent (srrip_aops hash) (Suc lat) k" "srrip_ready hash m w k" "srrip_sends hash m w k"
  for hash lat m w k
  unfolding srrip_sends_def srrip_ready_def [abs_def] by (rule srrip_sys.l2_above)

text \<open>Every state that core accesses reach is ready.\<close>

lemma srrip_run_ready: "srrip_run k lat hash m w h \<Longrightarrow> srrip_ready hash m w k h"
  unfolding srrip_run_def srrip_ready_def srrip_sys.hier_ok_shared [symmetric]
  using srrip_sys.reach_ok srrip_sys.hier_ok_new by blast

lemma two_level_new_I:
  assumes "two_level_new k N arrs rtt accLat invLat = Some h" and "c \<le> k" and "l < N c"
  shows "st h c l = I"
  using assms by (auto simp: two_level_new_def cache_new_def bcc_new_def st_def nth_append simp del: upt_Suc)

lemma srrip_sends_miss:
  assumes "srrip_ready hash m w k h" and "c < k" and "l < srrip_lines m w c" and "line_tag h c l \<noteq> 0" and "st h c l = I"
  shows "srrip_sends hash m w k h (bcc_req c l h (line_tag h c l) GETS cyc src 0)"
  unfolding srrip_sends_def l1_sends_def
  by (rule conjI, use assms(1) in \<open>simp add: srrip_ready_def\<close>, rule exI [of _ c], rule exI [of _ l], rule exI [of _ GETS], rule exI [of _ cyc],
      rule exI [of _ src], rule exI [of _ 0]) (use assms in \<open>simp add: srrip_ready_def IsGet_def\<close>)

text \<open>A state of the smallest instance in which core 0's cache misses on line 0x1234.\<close>

lemma srrip_missing_ex:
  obtains h l where "srrip_ready (\<lambda>_ _ a. a) (\<lambda>_. 1) (\<lambda>_. 1) 2 h" "l < 4" "line_tag h 0 l = 0x1234" "st h 0 l = I"
proof -
  obtain s where s: "sa_rp s = srrip_new 4 3" "sa_shape (\<lambda>_ a. a) 2 2 s"
    using sa_new_shape [of 2 1 2 "srrip_new 4 3" "\<lambda>_ a. a"] by auto
  then have inv: "\<forall>c\<le>2. sets_inv (\<lambda>_ _ a. a) (\<lambda>_. 1) (\<lambda>_. 1) c s"
    using srrip_inv_new [of 4 3] by (simp add: sets_inv_def sa_inv_def numeral_eq_Suc)
  obtain h0 where h0: "two_level_new 2 (\<lambda>c. Suc 1 * Suc 1) (\<lambda>_. s) 1 (\<lambda>_. 1) (\<lambda>_. 1) = Some h0"
    by (simp add: two_level_new_def tcc_new_def)
  note ok = srrip_sys.hier_ok_new [OF h0, of "\<lambda>_ _ a. a", OF inv]
  obtain h l where "two_level.hier_ok (sets_inv (\<lambda>_ _ a. a) (\<lambda>_. 1) (\<lambda>_. 1)) (\<lambda>_. sa_tag) (srrip_lines (\<lambda>_. 1) (\<lambda>_. 1)) 2 h"
    "l < Suc 1 * Suc 1" "line_tag h 0 l = 0x1234" "st h 0 l = I"
    by (rule srrip_sys.missing_ex [OF ok, of 0 "0x1234"]) (use two_level_new_I [OF h0] in auto)
  moreover from this(1) have "srrip_ready (\<lambda>_ _ a. a) (\<lambda>_. 1) (\<lambda>_. 1) 2 h"
    unfolding srrip_ready_def srrip_sys.hier_ok_shared [symmetric] .
  ultimately show thesis unfolding four_lines by (intro that)
qed

section \<open>Properties\<close>

text \<open>C37. Over a shared SRRIP cache that its level-1 caches use as they do, every access through a prefetcher returns, never before it was
  sent, and leaves the hierarchy coherent: no assertion fails, no position leaves the 64 lines of an entry and no division is by 0. A
  load sends the demand access and at most two more, marked as prefetches, which are shared reads for the same page; other accesses
  are passed on alone, and return with the child id of the prefetcher in the caller's request. The loads are of pages other than the first
  one, and the memory of the new prefetcher holds no such page in an entry of stride 0; zeroed memory is of this kind. On zeroed
  memory the first load of line 0 divides by 0. That the prefetches leave the line of the demand access in the shared cache is not claimed.\<close>

theorem prefetch_safe:
  assumes "pf_reach (l2_parent (srrip_aops hash) (Suc lat) k) (srrip_sends hash m w k) s"
    and "srrip_sends hash m w k h (req\<lparr>mr_childId := pf_childId s\<rparr>)"
    and "mr_type req = GETS \<Longrightarrow> 64 \<le> mr_lineAddr req"
    and "mr_type zreq = GETS" and "mr_lineAddr zreq = 0"
  shows "(\<exists>s' h' pfs req' r. pf_access (pf_logged (l2_parent (srrip_aops hash) (Suc lat) k)) s (h, log) req =
        Some (s', (h', log @ req\<lparr>mr_childId := pf_childId s\<rparr> # pfs), req', r) \<and>
      pf_reach (l2_parent (srrip_aops hash) (Suc lat) k) (srrip_sends hash m w k) s' \<and> mr_cycle req \<le> r \<and> length pfs \<le> 2 \<and>
      (if mr_type req = GETS then req' = req \<and> srrip_ready hash m w k h' else req' = req\<lparr>mr_childId := pf_childId s\<rparr> \<and> pfs = []) \<and>
      (\<forall>q\<in>set pfs. mr_type q = GETS \<and> mr_flags q = PREFETCH \<and> drop_bit 6 (mr_lineAddr q) = drop_bit 6 (mr_lineAddr req))) \<and>
    pf_access (l2_parent (srrip_aops hash) (Suc lat) k) ((pf_new (replicate 16 0) pf_zeros)\<lparr>pf_childId := cid\<rparr>) h zreq = None"
proof
  from l2_pf.pf_reach_access [OF assms(1-3), of log] obtain s' h' pfs req' r where
    a: "pf_access (pf_logged (l2_parent (srrip_aops hash) (Suc lat) k)) s (h, log) req =
        Some (s', (h', log @ req\<lparr>mr_childId := pf_childId s\<rparr> # pfs), req', r)"
      "pf_reach (l2_parent (srrip_aops hash) (Suc lat) k) (srrip_sends hash m w k) s'" "mr_type req = GETS \<longrightarrow> srrip_ready hash m w k h'"
      "mr_cycle req \<le> r" "length pfs \<le> 2" "req' = (if mr_type req = GETS then req else req\<lparr>mr_childId := pf_childId s\<rparr>)"
      "mr_type req \<noteq> GETS \<longrightarrow> pfs = []" "\<forall>q\<in>set pfs. pf_good_req req q"
    by blast
  then show "\<exists>s' h' pfs req' r. pf_access (pf_logged (l2_parent (srrip_aops hash) (Suc lat) k)) s (h, log) req =
        Some (s', (h', log @ req\<lparr>mr_childId := pf_childId s\<rparr> # pfs), req', r) \<and>
      pf_reach (l2_parent (srrip_aops hash) (Suc lat) k) (srrip_sends hash m w k) s' \<and> mr_cycle req \<le> r \<and> length pfs \<le> 2 \<and>
      (if mr_type req = GETS then req' = req \<and> srrip_ready hash m w k h' else req' = req\<lparr>mr_childId := pf_childId s\<rparr> \<and> pfs = []) \<and>
      (\<forall>q\<in>set pfs. mr_type q = GETS \<and> mr_flags q = PREFETCH \<and> drop_bit 6 (mr_lineAddr q) = drop_bit 6 (mr_lineAddr req))"
    by (intro exI [of _ s'] exI [of _ h'] exI [of _ pfs] exI [of _ req'] exI [of _ r]) (simp add: pf_good_req_def pf_plain_def)
qed (rule prefetch_zero_memory_traps [OF assms(4,5)])

definition pf_load :: "addr \<Rightarrow> nat \<Rightarrow> memreq" where
  "pf_load a cyc = \<lparr>mr_lineAddr = a, mr_type = GETS, mr_childId = 0, mr_state = LocalCell, mr_cycle = cyc, mr_childLock = True,
     mr_initialState = I, mr_srcId = 7, mr_flags = 0\<rparr>"

theorem prefetch_safe_witness:
  "\<exists>h req s' h' log req' r. mr_lineAddr req = 0x1234 \<and>
     pf_access (pf_logged (l2_parent (srrip_aops (\<lambda>_ _ a. a)) 1 2)) ((pf_new (replicate 16 0) pf_zeros)\<lparr>pf_childId := 0\<rparr>) (h, []) req =
       Some (s', (h', log), req', r) \<and> 50 \<le> r \<and> length log \<le> 3 \<and> srrip_ready (\<lambda>_ _ a. a) (\<lambda>_. 1) (\<lambda>_. 1) 2 h'"
proof -
  obtain h l where h: "srrip_ready (\<lambda>_ _ a. a) (\<lambda>_. 1) (\<lambda>_. 1) 2 h" "l < 4" "line_tag h 0 l = 0x1234" "st h 0 l = I"
    by (rule srrip_missing_ex)
  let ?req = "bcc_req 0 l h (line_tag h 0 l) GETS 50 7 0" and ?s = "(pf_new (replicate 16 0) pf_zeros)\<lparr>pf_childId := 0\<rparr>"
  have id: "bc_selfId (c_bcc (h ! 0)) = 0" using h(1) by (auto simp: srrip_ready_def shared_ok_def shape_def)
  have rq: "?req\<lparr>mr_childId := pf_childId ?s\<rparr> = ?req" "mr_type ?req = GETS" "mr_cycle ?req = 50" "mr_lineAddr ?req = 0x1234"
    using id h(3) by (simp_all add: bcc_req_def)
  have sends: "srrip_sends (\<lambda>_ _ a. a) (\<lambda>_. 1) (\<lambda>_. 1) 2 h (?req\<lparr>mr_childId := pf_childId ?s\<rparr>)"
    unfolding rq(1) by (rule srrip_sends_miss [OF h(1)]) (use h(2-4) in \<open>simp_all add: four_lines\<close>)
  from prefetch_safe [OF pf_zeros_reach sends, of "pf_load 0 50" 0 "[]" 0] obtain s' h' pfs req' r where
    "pf_access (pf_logged (l2_parent (srrip_aops (\<lambda>_ _ a. a)) (Suc 0) 2)) ?s (h, []) ?req =
       Some (s', (h', [] @ ?req\<lparr>mr_childId := pf_childId ?s\<rparr> # pfs), req', r)"
    "50 \<le> r" "length pfs \<le> 2" "srrip_ready (\<lambda>_ _ a. a) (\<lambda>_. 1) (\<lambda>_. 1) 2 h'"
    unfolding rq by (auto simp: rq pf_load_def)
  with rq(4) show ?thesis
    by - (rule exI [of _ h], rule exI [of _ ?req], rule exI [of _ s'], rule exI [of _ h'],
      rule exI [of _ "[] @ ?req\<lparr>mr_childId := pf_childId ?s\<rparr> # pfs"], rule exI [of _ req'], rule exI [of _ r], simp)
qed

end
