(* ===== verification/Config_Parse.thy ===== *)
theory Config_Parse
  imports Prelude
begin

text \<open>
  Parsing of configuration values (\<^verbatim>\<open>zsim/src/config.cpp\<close>): \<open>Tokenize\<close>, ranges, process masks and lists, and the
  network description file (\<^verbatim>\<open>zsim/src/network.cpp\<close>). Strings are lists of characters, a position is a natural
  number with \<open>None\<close> for \<open>npos\<close>. Of the standard library, the extraction operators of streams are modelled as far as
  this code uses them.
\<close>

section \<open>Numbers in text\<close>

definition is_space :: "char \<Rightarrow> bool" where
  "is_space c \<longleftrightarrow> c = CHR '' '' \<or> 9 \<le> (of_char c :: nat) \<and> of_char c \<le> (13 :: nat)"

definition is_dec :: "char \<Rightarrow> bool" where
  "is_dec c \<longleftrightarrow> 48 \<le> (of_char c :: nat) \<and> of_char c \<le> (57 :: nat)"

definition dec_val :: "string \<Rightarrow> nat" where
  "dec_val ds = foldl (\<lambda>n c. 10 * n + (of_char c - 48)) 0 ds"

text \<open>\<open>>>\<close> into a \<open>uint32_t\<close>: white space, a sign, digits. The value stored, whether it succeeds, and the rest of the
  input. Without digits it fails and stores 0, on a number too large it fails and stores the largest one; a minus
  sign negates modulo 2^32.\<close>

definition scan_u32 :: "string \<Rightarrow> nat \<times> bool \<times> string" where
  "scan_u32 s =
     (let s1 = dropWhile is_space s;
          neg = (s1 \<noteq> [] \<and> hd s1 = CHR ''-''); sign = (s1 \<noteq> [] \<and> (hd s1 = CHR ''-'' \<or> hd s1 = CHR ''+''));
          s2 = (if sign then tl s1 else s1); ds = takeWhile is_dec s2; v = dec_val ds;
          x = (if ds = [] then 0 else if v \<ge> 2 ^ 32 then 2 ^ 32 - 1 else if neg then (2 ^ 32 - v) mod 2 ^ 32 else v)
      in (x, ds \<noteq> [] \<and> v < 2 ^ 32, dropWhile is_dec s2))"

definition parse_u32 :: "string \<Rightarrow> nat option" where
  "parse_u32 s = (let (x, ok, r) = scan_u32 s in if ok then Some x else None)"

section \<open>Tokenize\<close>

definition find_from :: "(char \<Rightarrow> bool) \<Rightarrow> string \<Rightarrow> nat option \<Rightarrow> nat option" where
  "find_from P str from = (case from of None \<Rightarrow> None | Some p \<Rightarrow> List.find (\<lambda>i. P (str ! i)) [p..<length str])"

text \<open>\<open>substr\<close> at \<open>npos\<close> throws.\<close>

partial_function (option) tok_loop :: "string \<Rightarrow> string \<Rightarrow> nat option \<Rightarrow> nat option \<Rightarrow> string list \<Rightarrow> string list option" where
  "tok_loop str delimiters pos lastPos tokens =
     (if pos \<noteq> None \<or> lastPos \<noteq> None then
        Option.bind (guard (lastPos \<noteq> None \<and> the lastPos \<le> length str)) (\<lambda>_.
        let tok = (case pos of None \<Rightarrow> drop (the lastPos) str | Some p \<Rightarrow> take (p - the lastPos) (drop (the lastPos) str));
            lastPos' = find_from (\<lambda>c. c \<notin> set delimiters) str pos;
            pos' = find_from (\<lambda>c. c \<in> set delimiters) str lastPos'
        in tok_loop str delimiters pos' lastPos' (tokens @ [tok]))
      else Some tokens)"

definition Tokenize :: "string \<Rightarrow> string \<Rightarrow> string list option" where
  "Tokenize str delimiters = tok_loop str delimiters (find_from (\<lambda>c. c \<in> set delimiters) str (Some 0)) (Some 0) []"

section \<open>Ranges, masks and lists\<close>

definition wrap32 :: "int \<Rightarrow> int" where
  "wrap32 x = (x + 2 ^ 31) mod 2 ^ 32 - 2 ^ 31"

record range =
  rg_min :: int
  rg_sup :: int
  rg_step :: int

primrec map_opt :: "('a \<Rightarrow> 'b option) \<Rightarrow> 'a list \<Rightarrow> 'b list option" where
  "map_opt f [] = Some []"
| "map_opt f (x # xs) = Option.bind (f x) (\<lambda>y. map_option ((#) y) (map_opt f xs))"

definition range_new :: "string \<Rightarrow> range option" where
  "range_new r =
     Option.bind (Tokenize r '':'') (\<lambda>t.
     Option.bind (map_opt parse_u32 t) (\<lambda>n.
     Option.bind
       (if length n = 1 then let mn = wrap32 (int (n ! 0)) in Some \<lparr>rg_min = mn, rg_sup = wrap32 (mn + 1), rg_step = 1\<rparr>
        else if length n = 2 then Some \<lparr>rg_min = wrap32 (int (n ! 0)), rg_sup = wrap32 (int (n ! 1)), rg_step = 1\<rparr>
        else if length n = 3 then Some \<lparr>rg_min = wrap32 (int (n ! 0)), rg_sup = wrap32 (int (n ! 1)), rg_step = wrap32 (int (n ! 2))\<rparr>
        else None) (\<lambda>g.
     Option.bind (guard (\<not> (rg_min g < 0 \<or> rg_step g < 0 \<or> rg_sup g < 0))) (\<lambda>_.
     Option.bind (guard (rg_step g \<noteq> 0)) (\<lambda>_.
     Option.bind (guard (\<not> rg_min g \<ge> rg_sup g)) (\<lambda>_. Some g))))))"

partial_function (option) range_loop :: "range \<Rightarrow> int \<Rightarrow> bool list \<Rightarrow> bool list option" where
  "range_loop g i bits =
     (if i < rg_sup g then
        Option.bind (guard (\<not> (i \<ge> wrap32 (int (length bits)) \<or> i < 0))) (\<lambda>_.
        range_loop g (wrap32 (i + rg_step g)) (bits[nat i := True]))
      else Some bits)"

definition range_fill :: "range \<Rightarrow> bool list \<Rightarrow> bool list option" where
  "range_fill g bits = range_loop g (rg_min g) bits"

primrec mask_ranges :: "string list \<Rightarrow> bool list \<Rightarrow> bool list option" where
  "mask_ranges [] bits = Some bits"
| "mask_ranges (r # rs) bits =
     (if r = [] then mask_ranges rs bits
      else Option.bind (range_new r) (\<lambda>g. Option.bind (range_fill g bits) (mask_ranges rs)))"

definition ParseMask :: "string \<Rightarrow> nat \<Rightarrow> bool list option" where
  "ParseMask maskStr maskSize = Option.bind (Tokenize maskStr '' '') (\<lambda>ranges. mask_ranges ranges (replicate maskSize False))"

text \<open>\<open>ParseList\<close> over the extraction \<open>ext\<close> of its element type.\<close>

definition ParseList :: "(string \<Rightarrow> 'a option) \<Rightarrow> string \<Rightarrow> string \<Rightarrow> 'a list option" where
  "ParseList ext listStr delimiters =
     Option.bind (Tokenize listStr delimiters) (\<lambda>nums. map_opt ext (filter (\<lambda>n. n \<noteq> []) nums))"

section \<open>The network description file\<close>

text \<open>An input stream: what is left of it, its end-of-file and its fail flag. An extraction from a stream that is not
  good only sets the fail flag.\<close>

record istream =
  is_rest :: string
  is_eof :: bool
  is_fail :: bool

definition is_good :: "istream \<Rightarrow> bool" where
  "is_good s \<longleftrightarrow> \<not> is_eof s \<and> \<not> is_fail s"

definition get_string :: "istream \<Rightarrow> istream \<times> string" where
  "get_string s =
     (if is_good s then
        let r = dropWhile is_space (is_rest s); w = takeWhile (\<lambda>c. \<not> is_space c) r; r' = dropWhile (\<lambda>c. \<not> is_space c) r
        in (\<lparr>is_rest = r', is_eof = (r' = []), is_fail = (w = [])\<rparr>, w)
      else (s\<lparr>is_fail := True\<rparr>, []))"

definition get_u32 :: "istream \<Rightarrow> istream \<times> nat" where
  "get_u32 s =
     (if is_good s then let (x, ok, r') = scan_u32 (is_rest s) in (\<lparr>is_rest = r', is_eof = (r' = []), is_fail = (\<not> ok)\<rparr>, x)
      else (s\<lparr>is_fail := True\<rparr>, 0))"

type_synonym delay_map = "string \<Rightarrow> nat option"

partial_function (option) network_loop :: "istream \<Rightarrow> delay_map \<Rightarrow> delay_map option" where
  "network_loop inFile delayMap =
     (if is_good inFile then
        let (f1, src) = get_string inFile; (f2, dst) = get_string f1; (f3, delay) = get_u32 f2 in
        if is_eof f3 then Some delayMap
        else
          let s1 = src @ '' '' @ dst; s2 = dst @ '' '' @ src in
          Option.bind (guard (delayMap s1 = None)) (\<lambda>_.
          Option.bind (guard (delayMap s2 = None)) (\<lambda>_.
          network_loop f3 (delayMap(s1 := Some delay, s2 := Some delay))))
      else Some delayMap)"

text \<open>\<open>None\<close> is a file that cannot be opened.\<close>

definition network_new :: "string option \<Rightarrow> delay_map option" where
  "network_new file = Option.bind file (\<lambda>text. network_loop \<lparr>is_rest = text, is_eof = False, is_fail = False\<rparr> (\<lambda>_. None))"

definition getRTT :: "delay_map \<Rightarrow> string \<Rightarrow> string \<Rightarrow> nat" where
  "getRTT delayMap src dst = (case delayMap (src @ '' '' @ dst) of Some d \<Rightarrow> (2 * d) mod 2 ^ 32 | None \<Rightarrow> 0)"

section \<open>Decimal numbers\<close>

fun show_nat :: "nat \<Rightarrow> string" where
  "show_nat n = (if n < 10 then [char_of (48 + n)] else show_nat (n div 10) @ [char_of (48 + n mod 10)])"

declare show_nat.simps [simp del]

lemma of_char_digit [simp]: "d < 10 \<Longrightarrow> (of_char (char_of (48 + d)) :: nat) = 48 + d"
  by (simp add: of_char_of)

lemma show_nat_props: "show_nat n \<noteq> [] \<and> (\<forall>c\<in>set (show_nat n). is_dec c) \<and> dec_val (show_nat n) = n"
proof (induction n rule: show_nat.induct)
  case (1 n)
  show ?case
  proof (cases "n < 10")
    case True
    then show ?thesis by (simp add: show_nat.simps [of n] is_dec_def dec_val_def)
  next
    case False
    have m: "n mod 10 < 10" by simp
    have "dec_val (show_nat (n div 10)) = n div 10" "\<forall>c\<in>set (show_nat (n div 10)). is_dec c" using 1 False by auto
    then show ?thesis using False of_char_digit [OF m]
      by (simp add: show_nat.simps [of n] is_dec_def dec_val_def)
  qed
qed

lemma dec_not_space: "is_dec c \<Longrightarrow> \<not> is_space c" "is_dec c \<Longrightarrow> c \<noteq> CHR ''-''" "is_dec c \<Longrightarrow> c \<noteq> CHR ''+''"
  "is_dec c \<Longrightarrow> c \<noteq> CHR '':''" "is_dec c \<Longrightarrow> c \<noteq> CHR '' ''"
  by (auto simp: is_dec_def is_space_def)

lemma scan_show:
  assumes n: "n < 2 ^ 32" and t: "t = [] \<or> \<not> is_dec (hd t)" and sp: "\<forall>c\<in>set sp. is_space c"
  shows "scan_u32 (sp @ show_nat n @ t) = (n, True, t)"
proof -
  obtain c cs where s: "show_nat n = c # cs" and c: "is_dec c" "\<forall>c\<in>set cs. is_dec c"
    using show_nat_props [of n] by (cases "show_nat n") auto
  have d: "dropWhile is_space (sp @ show_nat n @ t) = show_nat n @ t"
    using sp dec_not_space(1) [OF c(1)] by (simp add: s dropWhile_append2)
  have tk: "takeWhile is_dec (show_nat n @ t) = show_nat n" "dropWhile is_dec (show_nat n @ t) = t"
    using show_nat_props [of n] t by (cases t; simp add: takeWhile_append2 dropWhile_append2)+
  have h: "show_nat n @ t \<noteq> []" "hd (show_nat n @ t) \<noteq> CHR ''-''" "hd (show_nat n @ t) \<noteq> CHR ''+''"
    using dec_not_space(2,3) [OF c(1)] by (simp_all add: s)
  show ?thesis unfolding scan_u32_def Let_def d using h tk show_nat_props [of n] n by simp
qed

lemma parse_show [simp]: "n < 2 ^ 32 \<Longrightarrow> parse_u32 (show_nat n) = Some n"
  using scan_show [of n "[]" "[]"] by (simp add: parse_u32_def)

section \<open>Tokenize returns the tokens\<close>

function tokens :: "(char \<Rightarrow> bool) \<Rightarrow> string \<Rightarrow> string list" where
  "tokens P s =
     (let r = dropWhile P (dropWhile (\<lambda>c. \<not> P c) s) in takeWhile (\<lambda>c. \<not> P c) s # (if r = [] then [] else tokens P r))"
  by auto
termination
proof (relation "measure (\<lambda>(P, s). length s)")
  fix P and s r :: string assume r: "r = dropWhile P (dropWhile (\<lambda>c. \<not> P c) s)" "r \<noteq> []"
  let ?d = "dropWhile (\<lambda>c. \<not> P c) s"
  have "?d \<noteq> []" using r(2) unfolding r(1) by (metis dropWhile.simps(1))
  then have "P (hd ?d)" using hd_dropWhile [of "\<lambda>c. \<not> P c" s] by blast
  with \<open>?d \<noteq> []\<close> have "length (dropWhile P ?d) < length ?d"
    by (cases ?d) (auto intro: le_imp_less_Suc length_dropWhile_le)
  also have "\<dots> \<le> length s" by (rule length_dropWhile_le)
  finally show "((P, r), P, s) \<in> measure (\<lambda>(P, s). length s)" using r by simp
qed simp

declare tokens.simps [simp del]

lemma find_upt_drop:
  "l \<le> length s \<Longrightarrow> List.find (\<lambda>i. P (s ! i)) [l..<length s] =
    (if dropWhile (\<lambda>c. \<not> P c) (drop l s) = [] then None else Some (l + length (takeWhile (\<lambda>c. \<not> P c) (drop l s))))"
proof (induction "length s - l" arbitrary: l)
  case (Suc n)
  then have l: "l < length s" by simp
  then have d: "drop l s = s ! l # drop (Suc l) s" "[l..<length s] = l # [Suc l..<length s]"
    by (simp_all add: Cons_nth_drop_Suc upt_conv_Cons)
  have "List.find (\<lambda>i. P (s ! i)) [Suc l..<length s] =
    (if dropWhile (\<lambda>c. \<not> P c) (drop (Suc l) s) = [] then None else Some (Suc l + length (takeWhile (\<lambda>c. \<not> P c) (drop (Suc l) s))))"
    using Suc l by (intro Suc.hyps) simp_all
  then show ?case by (simp add: d)
qed simp

lemma drop_dropWhile: "drop (l + length (takeWhile Q (drop l s))) s = dropWhile Q (drop l s)"
  by (simp add: dropWhile_eq_drop add.commute)

lemma find_from_drop:
  "l \<le> length s \<Longrightarrow> find_from P s (Some l) =
    (if dropWhile (\<lambda>c. \<not> P c) (drop l s) = [] then None else Some (l + length (takeWhile (\<lambda>c. \<not> P c) (drop l s))))"
  by (simp add: find_from_def find_upt_drop)

lemma tokens_all:
  assumes "dropWhile (\<lambda>c. \<not> P c) s = []"
  shows "tokens P s = [s]"
proof -
  have "takeWhile (\<lambda>c. \<not> P c) s = s" using takeWhile_dropWhile_id [of "\<lambda>c. \<not> P c" s] unfolding assms by simp
  then show ?thesis by (subst tokens.simps) (simp only: assms Let_def dropWhile.simps simp_thms if_True)
qed

lemma tok_loop_end: "tok_loop str delims None None acc = Some acc"
  by (simp add: tok_loop.simps)

lemma tok_loop_tokens:
  "l \<le> length str \<Longrightarrow> tok_loop str delims (find_from (\<lambda>c. c \<in> set delims) str (Some l)) (Some l) acc =
    Some (acc @ tokens (\<lambda>c. c \<in> set delims) (drop l str))"
proof (induction "length str - l" arbitrary: l acc rule: less_induct)
  case less
  let ?P = "\<lambda>c. c \<in> set delims" and ?s = "drop l str"
  let ?w = "takeWhile (\<lambda>c. \<not> ?P c) ?s" and ?d = "dropWhile (\<lambda>c. \<not> ?P c) ?s"
  let ?r = "dropWhile ?P ?d" and ?p = "l + length (takeWhile (\<lambda>c. \<not> ?P c) ?s)"
  have f: "find_from ?P str (Some l) = (if ?d = [] then None else Some ?p)" by (rule find_from_drop [OF less.prems])
  show ?case
  proof (cases "?d = []")
    case True
    then have "tokens ?P ?s = [?s]" by (rule tokens_all)
    then show ?thesis unfolding f using True less.prems
      by (subst tok_loop.simps) (simp add: find_from_def tok_loop_end)
  next
    case False
    have p: "?p \<le> length str"
      using length_takeWhile_le [of "\<lambda>c. \<not> ?P c" ?s] less.prems unfolding length_drop by linarith
    have tok: "take (?p - l) ?s = ?w" by (simp only: add_diff_cancel_left' takeWhile_eq_take [symmetric])
    have dp: "drop ?p str = ?d" by (rule drop_dropWhile)
    have f2: "find_from (\<lambda>c. c \<notin> set delims) str (Some ?p) = (if ?r = [] then None else Some (?p + length (takeWhile ?P ?d)))"
      using find_from_drop [OF p, of "\<lambda>c. c \<notin> set delims", unfolded dp] by (simp only: not_not)
    show ?thesis
    proof (cases "?r = []")
      case True
      have tk: "tokens ?P ?s = [?w]" by (subst tokens.simps) (simp only: Let_def True simp_thms if_True)
      have f2: "find_from (\<lambda>c. c \<notin> set delims) str (Some ?p) = None" unfolding f2 if_P [OF True] ..
      show ?thesis unfolding f if_not_P [OF False] tk using less.prems tok
        by (subst tok_loop.simps) (simp add: f2 tok_loop_end find_from_def [of _ _ None])
    next
      case r: False
      let ?l = "?p + length (takeWhile ?P ?d)"
      have dl: "drop ?l str = ?r" using drop_dropWhile [of ?p ?P str, unfolded dp] .
      have l: "?l \<le> length str" using p length_takeWhile_le [of ?P ?d] dp by (metis add.commute le_diff_conv2 length_drop)
      have "?P (hd ?d)" using False hd_dropWhile [of "\<lambda>c. \<not> ?P c" ?s] by blast
      then have "takeWhile ?P ?d \<noteq> []" using False by (cases ?d) auto
      then have "length str - ?l < length str - l" using l by (cases "takeWhile ?P ?d") auto
      note IH = less.hyps [OF this l, of "acc @ [?w]", unfolded dl]
      have tk: "tokens ?P ?s = ?w # tokens ?P ?r" by (subst tokens.simps) (simp only: Let_def r if_False)
      have f2: "find_from (\<lambda>c. c \<notin> set delims) str (Some ?p) = Some ?l" unfolding f2 if_not_P [OF r] ..
      show ?thesis unfolding f if_not_P [OF False] tk using less.prems tok
        by (subst tok_loop.simps) (simp add: f2 IH del: dropWhile_eq_Nil_conv)
    qed
  qed
qed

lemma Tokenize_tokens: "Tokenize str delims = Some (tokens (\<lambda>c. c \<in> set delims) str)"
  unfolding Tokenize_def using tok_loop_tokens [of 0 str delims "[]"] by simp

text \<open>Joining strings that do not hold the delimiter.\<close>

fun join :: "string \<Rightarrow> string list \<Rightarrow> string" where
  "join d [] = []"
| "join d [x] = x"
| "join d (x # y # ys) = x @ d @ join d (y # ys)"

lemma tokens_single: "\<forall>c\<in>set x. \<not> P c \<Longrightarrow> tokens P x = [x]"
  by (rule tokens_all) simp

lemma tokens_join:
  assumes "xs \<noteq> []" and "\<forall>x\<in>set xs. x \<noteq> [] \<and> (\<forall>c\<in>set x. \<not> P c)" and d: "P d"
  shows "tokens P (join [d] xs) = xs"
  using assms(1,2)
proof (induction "[d]" xs rule: join.induct)
  case (3 x y ys)
  obtain c cs where j: "join [d] (y # ys) = c # cs" and c: "\<not> P c"
    using 3(3) by (cases y; cases ys) auto
  have "takeWhile (\<lambda>c. \<not> P c) (x @ d # c # cs) = x" "dropWhile (\<lambda>c. \<not> P c) (x @ d # c # cs) = d # c # cs"
    using 3(3) d by (simp_all add: takeWhile_append2 dropWhile_append2)
  then show ?case using 3 d c j by (simp add: tokens.simps [of P "x @ d # c # cs"])
qed (simp_all add: tokens_single)

section \<open>Masks\<close>

text \<open>The positions a range stands for.\<close>

definition prog :: "nat \<Rightarrow> nat \<Rightarrow> nat \<Rightarrow> nat \<Rightarrow> bool" where
  "prog a s t j \<longleftrightarrow> a \<le> j \<and> j < s \<and> (j - a) mod t = 0"

lemma prog_step:
  assumes "0 < t" and "i < s"
  shows "prog i s t j \<longleftrightarrow> j = i \<or> prog (i + t) s t j"
proof -
  have "(j - i) mod t = (j - (i + t)) mod t" if "i + t \<le> j"
    using that le_mod_geq [of t "j - i"] by simp
  moreover have "i \<le> j \<Longrightarrow> (j - i) mod t = 0 \<Longrightarrow> j \<noteq> i \<Longrightarrow> i + t \<le> j"
    using assms(1) by (metis add.commute add_leD1 diff_is_0_eq le_antisym le_diff_conv2 mod_less not_le)
  ultimately show ?thesis using assms unfolding prog_def by auto
qed

lemma wrap32_id [simp]: "0 \<le> x \<Longrightarrow> x < 2 ^ 31 \<Longrightarrow> wrap32 x = x"
  by (simp add: wrap32_def)

lemma range_loop_prog:
  assumes t: "0 < t" "s + t \<le> 2 ^ 31" and g: "rg_sup g = int s" "rg_step g = int t"
  shows "length bits < 2 ^ 31 \<Longrightarrow> range_loop g (int i) bits =
    (if \<exists>j. prog i s t j \<and> length bits \<le> j then None
     else Some (map (\<lambda>j. bits ! j \<or> prog i s t j) [0..<length bits]))"
proof (induction "s - i" arbitrary: i bits rule: less_induct)
  case less
  have w: "wrap32 (int (length bits)) = int (length bits)" using less.prems by simp
  show ?case
  proof (cases "i < s")
    case False
    then have "\<not> prog i s t j" for j by (auto simp: prog_def)
    then show ?thesis using False g by (subst range_loop.simps) (simp add: map_nth)
  next
    case True
    show ?thesis
    proof (cases "i < length bits")
      case False
      have "prog i s t i" using True by (simp add: prog_def)
      then show ?thesis using True False g by (subst range_loop.simps) (auto simp: w)
    next
      case i: True
      have nx: "wrap32 (int i + rg_step g) = int (i + t)" using True t g by simp
      let ?b = "bits[i := True]"
      have "range_loop g (int i) bits = range_loop g (int (i + t)) ?b"
        using True i g nx by (subst range_loop.simps) (simp add: w)
      also have "\<dots> = (if \<exists>j. prog (i + t) s t j \<and> length bits \<le> j then None
          else Some (map (\<lambda>j. ?b ! j \<or> prog (i + t) s t j) [0..<length bits]))"
        using less.hyps [of "i + t" ?b] less.prems True t by simp
      also have "(\<exists>j. prog (i + t) s t j \<and> length bits \<le> j) \<longleftrightarrow> (\<exists>j. prog i s t j \<and> length bits \<le> j)"
        using i by (auto simp: prog_step [OF t(1) True])
      also have "map (\<lambda>j. ?b ! j \<or> prog (i + t) s t j) [0..<length bits] = map (\<lambda>j. bits ! j \<or> prog i s t j) [0..<length bits]"
        using i by (intro map_cong) (auto simp: prog_step [OF t(1) True] nth_list_update)
      finally show ?thesis .
    qed
  qed
qed

text \<open>Ranges as they are written, and those that the parser takes.\<close>

definition range_text :: "nat \<times> nat \<times> nat \<Rightarrow> string" where
  "range_text = (\<lambda>(a, s, t). join '':'' [show_nat a, show_nat s, show_nat t])"

definition range_valid :: "nat \<times> nat \<times> nat \<Rightarrow> bool" where
  "range_valid = (\<lambda>(a, s, t). a < s \<and> 0 < t \<and> s + t \<le> 2 ^ 31)"

definition range_has :: "nat \<times> nat \<times> nat \<Rightarrow> nat \<Rightarrow> bool" where
  "range_has = (\<lambda>(a, s, t). prog a s t)"

lemma range_new_text:
  assumes "range_valid (a, s, t)"
  shows "range_new (range_text (a, s, t)) = Some \<lparr>rg_min = int a, rg_sup = int s, rg_step = int t\<rparr>"
proof -
  have v: "a < s" "0 < t" "s + t \<le> 2 ^ 31" using assms by (auto simp: range_valid_def)
  then have b: "a < 2 ^ 31" "s < 2 ^ 31" "t < 2 ^ 31" by linarith+
  have "tokens (\<lambda>c. c \<in> set '':'') (join '':'' [show_nat a, show_nat s, show_nat t]) = [show_nat a, show_nat s, show_nat t]"
    using show_nat_props dec_not_space(4) by (intro tokens_join) auto
  then have tk: "Tokenize (range_text (a, s, t)) '':'' = Some [show_nat a, show_nat s, show_nat t]"
    by (simp only: Tokenize_tokens range_text_def prod.case)
  have p: "parse_u32 (show_nat a) = Some a" "parse_u32 (show_nat s) = Some s" "parse_u32 (show_nat t) = Some t"
    using b by (intro parse_show, simp)+
  have w: "wrap32 (int a) = int a" "wrap32 (int s) = int s" "wrap32 (int t) = int t" using b by simp_all
  show ?thesis using v by (simp add: range_new_def tk p w)
qed

lemma range_text_chars: "range_text g \<noteq> [] \<and> (\<forall>c\<in>set (range_text g). c \<noteq> CHR '' '')"
proof -
  obtain a s t where g: "g = (a, s, t)" by (metis prod_cases3)
  show ?thesis unfolding g range_text_def prod.case using show_nat_props dec_not_space(5) by auto
qed

lemma mask_ranges_text:
  assumes "\<forall>g\<in>set gs. range_valid g" and "length bits < 2 ^ 31"
  shows "mask_ranges (map range_text gs) bits =
    (if \<exists>g\<in>set gs. \<exists>j. range_has g j \<and> length bits \<le> j then None
     else Some (map (\<lambda>j. bits ! j \<or> (\<exists>g\<in>set gs. range_has g j)) [0..<length bits]))"
  using assms
proof (induction gs arbitrary: bits)
  case Nil
  then show ?case by (simp add: map_nth)
next
  case (Cons g gs)
  obtain a s t where g: "g = (a, s, t)" by (metis prod_cases3)
  then have v: "range_valid (a, s, t)" using Cons.prems by simp
  then have t: "0 < t" "s + t \<le> 2 ^ 31" by (auto simp: range_valid_def)
  let ?bad = "\<lambda>g. \<exists>j. range_has g j \<and> length bits \<le> j" and ?new = "map (\<lambda>j. bits ! j \<or> range_has g j) [0..<length bits]"
  have f: "range_fill \<lparr>rg_min = int a, rg_sup = int s, rg_step = int t\<rparr> bits = (if ?bad g then None else Some ?new)"
    using range_loop_prog [OF t, of "\<lparr>rg_min = int a, rg_sup = int s, rg_step = int t\<rparr>" bits a] Cons.prems(2)
    by (simp add: range_fill_def range_has_def g)
  have m: "mask_ranges (map range_text (g # gs)) bits = Option.bind (if ?bad g then None else Some ?new) (mask_ranges (map range_text gs))"
  proof -
    have ne: "range_text (a, s, t) \<noteq> []" using range_text_chars by blast
    show ?thesis by (simp only: list.map g mask_ranges.simps range_new_text [OF v] Option.bind.simps f [unfolded g] if_not_P [OF ne])
  qed
  show ?case
  proof (cases "?bad g")
    case True
    then show ?thesis unfolding m by auto
  next
    case False
    have "mask_ranges (map range_text gs) ?new =
        (if \<exists>g\<in>set gs. ?bad g then None else Some (map (\<lambda>j. ?new ! j \<or> (\<exists>g\<in>set gs. range_has g j)) [0..<length bits]))"
      using Cons.IH [of ?new] Cons.prems by simp
    also have "map (\<lambda>j. ?new ! j \<or> (\<exists>g\<in>set gs. range_has g j)) [0..<length bits] =
        map (\<lambda>j. bits ! j \<or> (\<exists>g\<in>set (g # gs). range_has g j)) [0..<length bits]"
      by (intro map_cong) auto
    finally show ?thesis unfolding m using False by (simp only: if_False Option.bind.simps set_simps Set.bex_simps) auto
  qed
qed

text \<open>C39. A mask written as ranges parses to the mask of exactly the positions in the ranges; if a range holds a position
  outside the mask, parsing panics. Ranges are those whose numbers and next position fit an \<open>int32_t\<close>.\<close>

theorem parse_mask_roundtrip:
  assumes "\<forall>g\<in>set gs. range_valid g" and "n < 2 ^ 31"
  shows "ParseMask (join '' '' (map range_text gs)) n =
    (if \<exists>g\<in>set gs. \<exists>j. range_has g j \<and> n \<le> j then None else Some (map (\<lambda>j. \<exists>g\<in>set gs. range_has g j) [0..<n]))"
proof (cases "gs = []")
  case True
  then show ?thesis by (simp add: ParseMask_def Tokenize_tokens tokens_single map_replicate_trivial)
next
  case False
  have "tokens (\<lambda>c. c \<in> set '' '') (join '' '' (map range_text gs)) = map range_text gs"
    using False range_text_chars by (intro tokens_join) auto
  then show ?thesis using mask_ranges_text [OF assms(1), of "replicate n False"] assms(2)
    by (auto simp: ParseMask_def Tokenize_tokens intro!: map_cong)
qed

theorem parse_mask_roundtrip_witness:
  "ParseMask ''0:8:3 4:5:1'' 8 = Some [True, False, False, True, True, False, True, False] \<and> ParseMask ''4:9:4'' 8 = None"
proof -
  have v: "\<forall>g\<in>set [(0, 8, 3), (4, 5, 1)]. range_valid g" "\<forall>g\<in>set [(4, 9, 4)]. range_valid g" by (simp_all add: range_valid_def)
  have j: "join '' '' (map range_text [(0, 8, 3), (4, 5, 1)]) = ''0:8:3 4:5:1''" "join '' '' (map range_text [(4, 9, 4)]) = ''4:9:4''"
    by code_simp+
  have p: "\<not> (\<exists>g\<in>set [(0, 8, 3), (4, 5, 1)]. \<exists>j. range_has g j \<and> 8 \<le> j)" "range_has (4, 9, 4) 8"
    by (auto simp: range_has_def prog_def)
  have "map (\<lambda>j. \<exists>g\<in>set [(0, 8, 3), (4, 5, 1)]. range_has g j) [0..<8] = [True, False, False, True, True, False, True, False]"
    by (simp add: range_has_def prog_def upt_rec)
  then show ?thesis
    using parse_mask_roundtrip [OF v(1), of 8] parse_mask_roundtrip [OF v(2), of 8] p unfolding j by auto
qed

section \<open>Networks\<close>

type_synonym net_entry = "string \<times> string \<times> nat"

definition net_name :: "string \<Rightarrow> bool" where
  "net_name s \<longleftrightarrow> s \<noteq> [] \<and> (\<forall>c\<in>set s. \<not> is_space c)"

definition net_line :: "net_entry \<Rightarrow> string" where
  "net_line = (\<lambda>(src, dst, n). src @ '' '' @ dst @ '' '' @ show_nat n)"

definition net_text :: "net_entry list \<Rightarrow> string" where
  "net_text es = concat (map (\<lambda>e. net_line e @ [CHR 0x0A]) es)"

definition net_valid :: "net_entry \<Rightarrow> bool" where
  "net_valid = (\<lambda>(src, dst, n). net_name src \<and> net_name dst \<and> n < 2 ^ 32)"

definition net_pair :: "net_entry \<Rightarrow> string set" where
  "net_pair = (\<lambda>(src, dst, n). {src, dst})"

definition net_add :: "net_entry \<Rightarrow> delay_map \<Rightarrow> delay_map" where
  "net_add = (\<lambda>(src, dst, n) m. m(src @ '' '' @ dst := Some n, dst @ '' '' @ src := Some n))"

lemma get_string_name:
  assumes "net_name w" and "\<forall>c\<in>set sp. is_space c"
  shows "get_string \<lparr>is_rest = sp @ w @ CHR '' '' # t, is_eof = False, is_fail = False\<rparr> =
    (\<lparr>is_rest = CHR '' '' # t, is_eof = False, is_fail = False\<rparr>, w)"
proof -
  have w: "w \<noteq> []" "\<forall>c\<in>set w. \<not> is_space c" and s: "is_space (CHR '' '')" using assms(1) by (simp_all add: net_name_def is_space_def)
  then have d: "dropWhile is_space (sp @ w @ CHR '' '' # t) = w @ CHR '' '' # t"
    using assms(2) by (cases w) (simp_all add: dropWhile_append2)
  have "takeWhile (\<lambda>c. \<not> is_space c) (w @ CHR '' '' # t) = w" "dropWhile (\<lambda>c. \<not> is_space c) (w @ CHR '' '' # t) = CHR '' '' # t"
    using w s by (simp_all add: takeWhile_append2 dropWhile_append2)
  then show ?thesis using w(1) by (simp add: get_string_def is_good_def d Let_def del: dropWhile_eq_Nil_conv)
qed

lemma get_u32_line:
  assumes "n < 2 ^ 32" and "t = [] \<or> \<not> is_dec (hd t)"
  shows "get_u32 \<lparr>is_rest = CHR '' '' # show_nat n @ t, is_eof = False, is_fail = False\<rparr> =
    (\<lparr>is_rest = t, is_eof = (t = []), is_fail = False\<rparr>, n)"
proof -
  have "is_space (CHR '' '')" by (simp add: is_space_def)
  then have "scan_u32 (CHR '' '' # show_nat n @ t) = (n, True, t)" using scan_show [OF assms, of "'' ''"] by simp
  then show ?thesis by (simp add: get_u32_def is_good_def)
qed

text \<open>One line of the file, after white space; without its newline it is not entered.\<close>

lemma network_loop_line:
  assumes v: "net_valid (src, dst, n)" and sp: "\<forall>c\<in>set sp. is_space c" and t: "t = [] \<or> \<not> is_dec (hd t)"
  shows "network_loop \<lparr>is_rest = sp @ net_line (src, dst, n) @ t, is_eof = False, is_fail = False\<rparr> m =
    (if t = [] then Some m
     else Option.bind (guard (m (src @ '' '' @ dst) = None)) (\<lambda>_. Option.bind (guard (m (dst @ '' '' @ src) = None)) (\<lambda>_.
       network_loop \<lparr>is_rest = t, is_eof = False, is_fail = False\<rparr> (net_add (src, dst, n) m))))"
proof -
  have n: "net_name src" "net_name dst" "n < 2 ^ 32" using v by (auto simp: net_valid_def)
  have s: "is_space (CHR '' '')" by (simp add: is_space_def)
  have r: "sp @ net_line (src, dst, n) @ t = sp @ src @ CHR '' '' # (dst @ CHR '' '' # show_nat n @ t)" by (simp add: net_line_def)
  note 1 = get_string_name [OF n(1) sp, of "dst @ CHR '' '' # show_nat n @ t"]
  have 2: "get_string \<lparr>is_rest = CHR '' '' # dst @ CHR '' '' # show_nat n @ t, is_eof = False, is_fail = False\<rparr> =
      (\<lparr>is_rest = CHR '' '' # show_nat n @ t, is_eof = False, is_fail = False\<rparr>, dst)"
    using get_string_name [OF n(2), of "'' ''" "show_nat n @ t"] s by simp
  note 3 = get_u32_line [OF n(3) t]
  have g: "is_good \<lparr>is_rest = x, is_eof = False, is_fail = False\<rparr>" for x by (simp add: is_good_def)
  show ?thesis unfolding r by (subst network_loop.simps) (simp add: g 1 2 3 net_add_def Let_def)
qed

lemma network_loop_end:
  assumes "\<forall>c\<in>set sp. is_space c"
  shows "network_loop \<lparr>is_rest = sp, is_eof = False, is_fail = False\<rparr> m = Some m"
proof -
  have "dropWhile is_space sp = []" using assms by simp
  then show ?thesis by (subst network_loop.simps) (simp add: is_good_def get_string_def get_u32_def Let_def del: dropWhile_eq_Nil_conv)
qed

text \<open>Names hold no space, so keys are unambiguous.\<close>

lemma net_key_inj:
  assumes "net_name a" "net_name b" "net_name c" "net_name d" and "a @ '' '' @ b = c @ '' '' @ d"
  shows "a = c \<and> b = d"
proof -
  have s: "is_space (CHR '' '')" by (simp add: is_space_def)
  have t: "takeWhile (\<lambda>x. \<not> is_space x) (u @ '' '' @ v) = u" if "net_name u" for u v
    using that s by (simp add: net_name_def takeWhile_append2)
  have "a = c" using arg_cong [OF assms(5), of "takeWhile (\<lambda>x. \<not> is_space x)"] unfolding t [OF assms(1)] t [OF assms(3)] .
  with assms(5) show ?thesis by simp
qed

lemma net_add_key:
  assumes "net_valid e" and "net_name a" "net_name b"
  shows "net_add e m (a @ '' '' @ b) = (if net_pair e = {a, b} then Some (snd (snd e)) else m (a @ '' '' @ b))"
proof -
  obtain s d n where e: "e = (s, d, n)" by (metis prod_cases3)
  then have v: "net_name s" "net_name d" using assms(1) by (auto simp: net_valid_def)
  have k: "(a @ '' '' @ b = s @ '' '' @ d) = (a = s \<and> b = d)" "(a @ '' '' @ b = d @ '' '' @ s) = (a = d \<and> b = s)"
    using net_key_inj assms v by blast+
  have p: "({s, d} = {a, b}) = (a = d \<and> b = s \<or> a = s \<and> b = d)" unfolding doubleton_eq_iff by blast
  have i: "(if P then x else if Q then x else y) = (if P \<or> Q then x else y)" for P Q and x y :: "nat option" by simp
  show ?thesis unfolding e net_add_def net_pair_def prod.case fun_upd_apply k i p snd_conv ..
qed

lemma network_loop_text:
  assumes "\<forall>e\<in>set es. net_valid e" and "distinct (map net_pair es)" and "\<forall>c\<in>set sp. is_space c"
    and "\<forall>e\<in>set es. \<forall>a b. net_name a \<and> net_name b \<and> net_pair e = {a, b} \<longrightarrow> m (a @ '' '' @ b) = None"
    and tail: "tail = [] \<or> net_valid e \<and> tail = net_line e"
  shows "\<exists>m'. network_loop \<lparr>is_rest = sp @ net_text es @ tail, is_eof = False, is_fail = False\<rparr> m = Some m' \<and>
    (\<forall>a b. net_name a \<and> net_name b \<longrightarrow> m' (a @ '' '' @ b) =
       (case List.find (\<lambda>e. net_pair e = {a, b}) es of None \<Rightarrow> m (a @ '' '' @ b) | Some e \<Rightarrow> Some (snd (snd e))))"
  using assms(1-4)
proof (induction es arbitrary: sp m)
  case Nil
  show ?case
  proof (cases "tail = []")
    case True
    then show ?thesis using network_loop_end [OF Nil.prems(3)] by (simp add: net_text_def)
  next
    case False
    obtain s d n where e: "e = (s, d, n)" by (metis prod_cases3)
    have "net_valid (s, d, n)" "tail = net_line (s, d, n)" using tail False e by auto
    then show ?thesis using network_loop_line [of s d n sp "[]" m] Nil.prems(3) by (simp add: net_text_def)
  qed
next
  case (Cons x es)
  obtain s d n where x: "x = (s, d, n)" by (metis prod_cases3)
  have v: "net_valid (s, d, n)" "net_name s" "net_name d" using Cons.prems(1) by (auto simp: x net_valid_def)
  have nl: "is_space (CHR 0x0A)" "\<not> is_dec (CHR 0x0A)" by (simp_all add: is_space_def is_dec_def)
  have fr: "m (s @ '' '' @ d) = None" "m (d @ '' '' @ s) = None"
    using Cons.prems(4) v by (auto simp: x net_pair_def insert_commute)
  have whole: "sp @ net_text (x # es) @ tail = sp @ net_line (s, d, n) @ ([CHR 0x0A] @ net_text es @ tail)" by (simp add: net_text_def x)
  have l: "network_loop \<lparr>is_rest = sp @ net_text (x # es) @ tail, is_eof = False, is_fail = False\<rparr> m =
      network_loop \<lparr>is_rest = [CHR 0x0A] @ net_text es @ tail, is_eof = False, is_fail = False\<rparr> (net_add x m)"
    unfolding whole using network_loop_line [OF v(1) Cons.prems(3), of "[CHR 0x0A] @ net_text es @ tail" m] nl fr by (simp add: x)
  have key: "net_add x m (a @ '' '' @ b) = (if net_pair x = {a, b} then Some n else m (a @ '' '' @ b))" if "net_name a" "net_name b" for a b
    using net_add_key [of x a b m] that v(1) by (simp add: x)
  have "\<exists>m'. network_loop \<lparr>is_rest = [CHR 0x0A] @ net_text es @ tail, is_eof = False, is_fail = False\<rparr> (net_add x m) = Some m' \<and>
    (\<forall>a b. net_name a \<and> net_name b \<longrightarrow> m' (a @ '' '' @ b) =
       (case List.find (\<lambda>e. net_pair e = {a, b}) es of None \<Rightarrow> net_add x m (a @ '' '' @ b) | Some e \<Rightarrow> Some (snd (snd e))))"
  proof (rule Cons.IH)
    show "\<forall>c\<in>set [CHR 0x0A]. is_space c" using nl by simp
    show "\<forall>e\<in>set es. \<forall>a b. net_name a \<and> net_name b \<and> net_pair e = {a, b} \<longrightarrow> net_add x m (a @ '' '' @ b) = None"
    proof (intro ballI allI impI)
      fix e a b assume e: "e \<in> set es" "net_name a \<and> net_name b \<and> net_pair e = {a, b}"
      then have "net_pair x \<noteq> {a, b}" using Cons.prems(2) by (metis distinct.simps(2) image_eqI list.set_map list.simps(9))
      then show "net_add x m (a @ '' '' @ b) = None" using key e Cons.prems(4) by simp
    qed
  qed (use Cons.prems in simp_all)
  then obtain m' where m': "network_loop \<lparr>is_rest = [CHR 0x0A] @ net_text es @ tail, is_eof = False, is_fail = False\<rparr> (net_add x m) = Some m'"
    and look: "\<And>a b. net_name a \<Longrightarrow> net_name b \<Longrightarrow> m' (a @ '' '' @ b) =
       (case List.find (\<lambda>e. net_pair e = {a, b}) es of None \<Rightarrow> net_add x m (a @ '' '' @ b) | Some e \<Rightarrow> Some (snd (snd e)))" by blast
  have "m' (a @ '' '' @ b) = (case List.find (\<lambda>e. net_pair e = {a, b}) (x # es) of None \<Rightarrow> m (a @ '' '' @ b) | Some e \<Rightarrow> Some (snd (snd e)))"
    if "net_name a" "net_name b" for a b
  proof (cases "net_pair x = {a, b}")
    case True
    have "List.find (\<lambda>e. net_pair e = {a, b}) es = None"
      using True Cons.prems(2) by (auto simp: find_None_iff)
    then show ?thesis using look [OF that] key [OF that] True by (simp add: x)
  next
    case False
    then show ?thesis using look [OF that, unfolded key [OF that]] by (simp only: List.find.simps if_False)
  qed
  then show ?case using l m' by auto
qed

text \<open>C40. A network description is read back as written: with one line per pair of names, every round trip is twice the
  delay of its pair, in both directions, and 0 for other names; a last line without a newline is not read at all.\<close>

theorem network_roundtrip:
  assumes "\<forall>e\<in>set es. net_valid e" and "distinct (map net_pair es)"
    and "tail = [] \<or> net_valid e \<and> tail = net_line e"
  shows "\<exists>m. network_new (Some (net_text es @ tail)) = Some m \<and>
    (\<forall>a b. net_name a \<and> net_name b \<longrightarrow> getRTT m a b =
       (case List.find (\<lambda>e. net_pair e = {a, b}) es of None \<Rightarrow> 0 | Some e \<Rightarrow> (2 * snd (snd e)) mod 2 ^ 32))"
proof -
  from network_loop_text [OF assms(1,2), of "[]" "\<lambda>_. None" tail e] assms(3) obtain m where
    m: "network_loop \<lparr>is_rest = net_text es @ tail, is_eof = False, is_fail = False\<rparr> (\<lambda>_. None) = Some m"
    and k: "\<And>a b. net_name a \<Longrightarrow> net_name b \<Longrightarrow> m (a @ '' '' @ b) =
       (case List.find (\<lambda>e. net_pair e = {a, b}) es of None \<Rightarrow> None | Some e \<Rightarrow> Some (snd (snd e)))" by auto
  have "getRTT m a b = (case List.find (\<lambda>e. net_pair e = {a, b}) es of None \<Rightarrow> 0 | Some e \<Rightarrow> (2 * snd (snd e)) mod 2 ^ 32)"
    if "net_name a" "net_name b" for a b
    unfolding getRTT_def k [OF that] by (cases "List.find (\<lambda>e. net_pair e = {a, b}) es") simp_all
  then show ?thesis using m by (simp add: network_new_def)
qed

theorem network_roundtrip_witness:
  "\<exists>m. network_new (Some (''l1 l2 7'' @ [CHR 0x0A] @ ''l2 mem 40'')) = Some m \<and>
    getRTT m ''l1'' ''l2'' = 14 \<and> getRTT m ''l2'' ''l1'' = 14 \<and> getRTT m ''l2'' ''mem'' = 0"
proof -
  have n: "net_name ''l1''" "net_name ''l2''" "net_name ''mem''" by (simp_all add: net_name_def is_space_def)
  have v: "\<forall>e\<in>set [(''l1'', ''l2'', 7)]. net_valid e" "distinct (map net_pair [(''l1'', ''l2'', 7)])" using n by (simp_all add: net_valid_def)
  have w: "net_valid (''l2'', ''mem'', 40)" using n by (simp add: net_valid_def)
  have t: "net_text [(''l1'', ''l2'', 7)] @ net_line (''l2'', ''mem'', 40) = ''l1 l2 7'' @ [CHR 0x0A] @ ''l2 mem 40''" by code_simp
  show ?thesis using network_roundtrip [OF v, of "net_line (''l2'', ''mem'', 40)" "(''l2'', ''mem'', 40)"] w n
    unfolding t by (auto simp: net_pair_def doubleton_eq_iff)
qed

end
