(* ===== verification/Core_Models.thy ===== *)
theory Core_Models
  imports Prelude
begin

text \<open>
  The simple cores: \<open>SimpleCore\<close> (one instruction per cycle but for memory), \<open>TimingCore\<close> (the same, recording
  its accesses for the contention simulation) and \<open>NullCore\<close>, of \<^verbatim>\<open>zsim/src/simple_core.cpp\<close>, \<^verbatim>\<open>timing_core.cpp\<close> and
  \<^verbatim>\<open>null_core.cpp\<close>.

  What a core shares with the rest of the simulator is an environment \<open>'e\<close>: the caches, called through
  \<open>core_mem\<close>, and the global phase cycle, read by \<open>glob\<close>. \<open>tb\<close> is \<open>TakeBarrier\<close>, which may run any other thread and
  may fail; its last result says whether the thread still has the core. \<open>PL\<close> is the length of a phase. Statistics are left out.
\<close>

section \<open>Interfaces\<close>

record 'e core_mem =
  cm_ifetch :: "addr \<Rightarrow> nat \<Rightarrow> 'e \<Rightarrow> ('e \<times> nat) option"
  cm_load :: "addr \<Rightarrow> nat \<Rightarrow> 'e \<Rightarrow> ('e \<times> nat) option"
  cm_store :: "addr \<Rightarrow> nat \<Rightarrow> 'e \<Rightarrow> ('e \<times> nat) option"
  cm_switch :: "'e \<Rightarrow> 'e"

text \<open>What a core relies on: a request for an address in \<open>aok\<close> returns, not before it was issued, and leaves the
  phase alone.\<close>

locale core_env =
  fixes cm :: "'e core_mem" and minv :: "'e \<Rightarrow> bool" and aok :: "addr \<Rightarrow> bool" and glob :: "'e \<Rightarrow> nat"
  assumes ifetch: "minv e \<Longrightarrow> aok a \<Longrightarrow> \<exists>e' r. cm_ifetch cm a c e = Some (e', r) \<and> minv e' \<and> c \<le> r \<and> glob e' = glob e"
    and load: "minv e \<Longrightarrow> aok a \<Longrightarrow> \<exists>e' r. cm_load cm a c e = Some (e', r) \<and> minv e' \<and> c \<le> r \<and> glob e' = glob e"
    and store: "minv e \<Longrightarrow> aok a \<Longrightarrow> \<exists>e' r. cm_store cm a c e = Some (e', r) \<and> minv e' \<and> c \<le> r \<and> glob e' = glob e"
    and switch: "minv e \<Longrightarrow> minv (cm_switch cm e) \<and> glob (cm_switch cm e) = glob e"

section \<open>State and operations\<close>

record core =
  co_instrs :: nat
  co_curCycle :: nat
  co_phaseEndCycle :: nat

record bbl_info =
  bi_instrs :: nat
  bi_bytes :: nat

text \<open>The instruction fetches of a basic block.\<close>

partial_function (option) fetch_loop :: "nat \<Rightarrow> (addr \<Rightarrow> nat \<Rightarrow> 'e \<Rightarrow> ('e \<times> nat) option) \<Rightarrow> addr \<Rightarrow> addr \<Rightarrow> nat \<Rightarrow> 'e \<Rightarrow> ('e \<times> nat) option" where
  "fetch_loop lineBits fetch fetchAddr endBblAddr curCycle e =
     (if fetchAddr < endBblAddr
      then Option.bind (fetch fetchAddr curCycle e) (\<lambda>(e', c'). fetch_loop lineBits fetch (fetchAddr + push_bit lineBits 1) endBblAddr c' e')
      else Some (e, curCycle))"

text \<open>The loop at the end of \<open>BblFunc\<close>; only \<open>SimpleCore\<close> and \<open>NullCore\<close> check the assertion.\<close>

partial_function (option) phase_loop :: "bool \<Rightarrow> nat \<Rightarrow> ('e \<Rightarrow> nat) \<Rightarrow> ('c core_scheme \<Rightarrow> 'e \<Rightarrow> ('c core_scheme \<times> 'e \<times> bool) option) \<Rightarrow>
    'c core_scheme \<Rightarrow> 'e \<Rightarrow> ('c core_scheme \<times> 'e \<times> bool) option" where
  "phase_loop chk PL glob tb s e =
     (if co_phaseEndCycle s < co_curCycle s
      then Option.bind (guard (chk \<longrightarrow> co_phaseEndCycle s = glob e + PL)) (\<lambda>_.
        Option.bind (tb (s\<lparr>co_phaseEndCycle := co_phaseEndCycle s + PL\<rparr>) e) (\<lambda>(s', e', same).
        if same then phase_loop chk PL glob tb s' e' else Some (s', e', False)))
      else Some (s, e, True))"

subsection \<open>NullCore\<close>

definition null_new :: core where
  "null_new = \<lparr>co_instrs = 0, co_curCycle = 0, co_phaseEndCycle = 0\<rparr>"

definition null_getPhaseCycles :: "nat \<Rightarrow> core \<Rightarrow> nat" where
  "null_getPhaseCycles globPhaseCycles s = (co_curCycle s + 2 ^ 64 - globPhaseCycles) mod 2 ^ 64"

definition null_bbl :: "bbl_info \<Rightarrow> core \<Rightarrow> core" where
  "null_bbl bi s = s\<lparr>co_instrs := co_instrs s + bi_instrs bi, co_curCycle := co_curCycle s + bi_instrs bi\<rparr>"

definition null_join :: "nat \<Rightarrow> nat \<Rightarrow> core \<Rightarrow> core" where
  "null_join PL globPhaseCycles s =
     s\<lparr>co_curCycle := max (co_curCycle s) globPhaseCycles, co_phaseEndCycle := globPhaseCycles + PL\<rparr>"

definition null_BblFunc :: "nat \<Rightarrow> ('e \<Rightarrow> nat) \<Rightarrow> (core \<Rightarrow> 'e \<Rightarrow> (core \<times> 'e \<times> bool) option) \<Rightarrow> bbl_info \<Rightarrow> core \<Rightarrow> 'e \<Rightarrow> (core \<times> 'e \<times> bool) option" where
  "null_BblFunc PL glob tb bi s e = phase_loop True PL glob tb (null_bbl bi s) e"

subsection \<open>SimpleCore\<close>

record simple_core = core +
  so_haltedCycles :: nat

definition simple_new :: "nat \<Rightarrow> simple_core" where
  "simple_new phaseEnd0 = \<lparr>co_instrs = 0, co_curCycle = 0, co_phaseEndCycle = phaseEnd0, so_haltedCycles = 0\<rparr>"

definition simple_cyclesStat :: "simple_core \<Rightarrow> nat option" where
  "simple_cyclesStat s = Option.bind (guard (so_haltedCycles s \<le> co_curCycle s)) (\<lambda>_. Some (co_curCycle s - so_haltedCycles s))"

definition simple_getPhaseCycles :: "nat \<Rightarrow> 'c core_scheme \<Rightarrow> nat" where
  "simple_getPhaseCycles PL s = co_curCycle s mod PL"

definition simple_load :: "'e core_mem \<Rightarrow> addr \<Rightarrow> 'c core_scheme \<Rightarrow> 'e \<Rightarrow> ('c core_scheme \<times> 'e) option" where
  "simple_load cm a s e = Option.bind (cm_load cm a (co_curCycle s) e) (\<lambda>(e', c'). Some (s\<lparr>co_curCycle := c'\<rparr>, e'))"

definition simple_store :: "'e core_mem \<Rightarrow> addr \<Rightarrow> 'c core_scheme \<Rightarrow> 'e \<Rightarrow> ('c core_scheme \<times> 'e) option" where
  "simple_store cm a s e = Option.bind (cm_store cm a (co_curCycle s) e) (\<lambda>(e', c'). Some (s\<lparr>co_curCycle := c'\<rparr>, e'))"

definition simple_predLoad :: "'e core_mem \<Rightarrow> addr \<Rightarrow> bool \<Rightarrow> 'c core_scheme \<Rightarrow> 'e \<Rightarrow> ('c core_scheme \<times> 'e) option" where
  "simple_predLoad cm a pred s e = (if pred then simple_load cm a s e else Some (s, e))"

definition simple_predStore :: "'e core_mem \<Rightarrow> addr \<Rightarrow> bool \<Rightarrow> 'c core_scheme \<Rightarrow> 'e \<Rightarrow> ('c core_scheme \<times> 'e) option" where
  "simple_predStore cm a pred s e = (if pred then simple_store cm a s e else Some (s, e))"

definition simple_bbl :: "'e core_mem \<Rightarrow> nat \<Rightarrow> addr \<Rightarrow> bbl_info \<Rightarrow> 'c core_scheme \<Rightarrow> 'e \<Rightarrow> ('c core_scheme \<times> 'e) option" where
  "simple_bbl cm lineBits bblAddr bi s e =
     (let s1 = s\<lparr>co_instrs := co_instrs s + bi_instrs bi, co_curCycle := co_curCycle s + bi_instrs bi\<rparr> in
      Option.bind (fetch_loop lineBits (cm_ifetch cm) bblAddr (bblAddr + of_nat (bi_bytes bi)) (co_curCycle s1) e) (\<lambda>(e', c').
      Some (s1\<lparr>co_curCycle := c'\<rparr>, e')))"

definition simple_contextSwitch :: "'e core_mem \<Rightarrow> int \<Rightarrow> 'e \<Rightarrow> 'e" where
  "simple_contextSwitch cm gid e = (if gid = -1 then cm_switch cm e else e)"

definition simple_join :: "nat \<Rightarrow> nat \<Rightarrow> simple_core \<Rightarrow> simple_core" where
  "simple_join PL globPhaseCycles s =
     (let s1 = (if co_curCycle s < globPhaseCycles
                then s\<lparr>so_haltedCycles := so_haltedCycles s + (globPhaseCycles - co_curCycle s), co_curCycle := globPhaseCycles\<rparr> else s)
      in s1\<lparr>co_phaseEndCycle := globPhaseCycles + PL\<rparr>)"

definition simple_BblFunc :: "'e core_mem \<Rightarrow> nat \<Rightarrow> ('e \<Rightarrow> nat) \<Rightarrow> (simple_core \<Rightarrow> 'e \<Rightarrow> (simple_core \<times> 'e \<times> bool) option) \<Rightarrow> nat \<Rightarrow> addr \<Rightarrow> bbl_info \<Rightarrow>
    simple_core \<Rightarrow> 'e \<Rightarrow> (simple_core \<times> 'e \<times> bool) option" where
  "simple_BblFunc cm PL glob tb lineBits bblAddr bi s e =
     Option.bind (simple_bbl cm lineBits bblAddr bi s e) (\<lambda>(s', e'). phase_loop True PL glob tb s' e')"

subsection \<open>TimingCore\<close>

text \<open>The recorder \<open>cRec\<close> is part of the event simulation: its \<open>record\<close>, \<open>notifyJoin\<close> and \<open>notifyLeave\<close> are arguments.\<close>

record 'r timing_core = core +
  tm_cRec :: 'r

definition timing_load :: "('r \<Rightarrow> nat \<Rightarrow> 'e \<Rightarrow> ('r \<times> 'e) option) \<Rightarrow> 'e core_mem \<Rightarrow> addr \<Rightarrow> 'r timing_core \<Rightarrow> 'e \<Rightarrow> ('r timing_core \<times> 'e) option" where
  "timing_load rc cm a s e =
     Option.bind (cm_load cm a (co_curCycle s) e) (\<lambda>(e1, c').
     Option.bind (rc (tm_cRec s) (co_curCycle s) e1) (\<lambda>(r', e2). Some (s\<lparr>co_curCycle := c', tm_cRec := r'\<rparr>, e2)))"

definition timing_store :: "('r \<Rightarrow> nat \<Rightarrow> 'e \<Rightarrow> ('r \<times> 'e) option) \<Rightarrow> 'e core_mem \<Rightarrow> addr \<Rightarrow> 'r timing_core \<Rightarrow> 'e \<Rightarrow> ('r timing_core \<times> 'e) option" where
  "timing_store rc cm a s e =
     Option.bind (cm_store cm a (co_curCycle s) e) (\<lambda>(e1, c').
     Option.bind (rc (tm_cRec s) (co_curCycle s) e1) (\<lambda>(r', e2). Some (s\<lparr>co_curCycle := c', tm_cRec := r'\<rparr>, e2)))"

partial_function (option) timing_fetch :: "nat \<Rightarrow> ('r \<Rightarrow> nat \<Rightarrow> 'e \<Rightarrow> ('r \<times> 'e) option) \<Rightarrow> (addr \<Rightarrow> nat \<Rightarrow> 'e \<Rightarrow> ('e \<times> nat) option) \<Rightarrow>
    addr \<Rightarrow> addr \<Rightarrow> nat \<Rightarrow> 'r \<Rightarrow> 'e \<Rightarrow> ('r \<times> 'e \<times> nat) option" where
  "timing_fetch lineBits rc fetch fetchAddr endBblAddr curCycle r e =
     (if fetchAddr < endBblAddr
      then Option.bind (fetch fetchAddr curCycle e) (\<lambda>(e1, c'). Option.bind (rc r curCycle e1) (\<lambda>(r', e2).
        timing_fetch lineBits rc fetch (fetchAddr + push_bit lineBits 1) endBblAddr c' r' e2))
      else Some (r, e, curCycle))"

definition timing_bbl :: "('r \<Rightarrow> nat \<Rightarrow> 'e \<Rightarrow> ('r \<times> 'e) option) \<Rightarrow> 'e core_mem \<Rightarrow> nat \<Rightarrow> addr \<Rightarrow> bbl_info \<Rightarrow> 'r timing_core \<Rightarrow> 'e \<Rightarrow>
    ('r timing_core \<times> 'e) option" where
  "timing_bbl rc cm lineBits bblAddr bi s e =
     (let s1 = s\<lparr>co_instrs := co_instrs s + bi_instrs bi, co_curCycle := co_curCycle s + bi_instrs bi\<rparr> in
      Option.bind (timing_fetch lineBits rc (cm_ifetch cm) bblAddr (bblAddr + of_nat (bi_bytes bi)) (co_curCycle s1) (tm_cRec s1) e)
        (\<lambda>(r', e', c'). Some (s1\<lparr>co_curCycle := c', tm_cRec := r'\<rparr>, e')))"

definition timing_join :: "nat \<Rightarrow> ('r \<Rightarrow> nat \<Rightarrow> 'e \<Rightarrow> ('r \<times> 'e \<times> nat) option) \<Rightarrow> ('e \<Rightarrow> nat) \<Rightarrow> 'r timing_core \<Rightarrow> 'e \<Rightarrow> ('r timing_core \<times> 'e) option" where
  "timing_join PL notifyJoin glob s e =
     Option.bind (notifyJoin (tm_cRec s) (co_curCycle s) e) (\<lambda>(r', e', c').
     Some (s\<lparr>tm_cRec := r', co_curCycle := c', co_phaseEndCycle := glob e' + PL\<rparr>, e'))"

definition timing_leave :: "('r \<Rightarrow> nat \<Rightarrow> 'e \<Rightarrow> ('r \<times> 'e) option) \<Rightarrow> 'r timing_core \<Rightarrow> 'e \<Rightarrow> ('r timing_core \<times> 'e) option" where
  "timing_leave notifyLeave s e = Option.bind (notifyLeave (tm_cRec s) (co_curCycle s) e) (\<lambda>(r', e'). Some (s\<lparr>tm_cRec := r'\<rparr>, e'))"

definition timing_cSim :: "('r \<Rightarrow> nat \<Rightarrow> 'e \<Rightarrow> ('r \<times> 'e \<times> nat) option) \<Rightarrow> 'r timing_core \<Rightarrow> 'e \<Rightarrow> ('r timing_core \<times> 'e) option" where
  "timing_cSim cSim s e =
     Option.bind (cSim (tm_cRec s) (co_curCycle s) e) (\<lambda>(r', e', c'). Some (s\<lparr>tm_cRec := r', co_curCycle := c'\<rparr>, e'))"

definition timing_BblFunc :: "('r \<Rightarrow> nat \<Rightarrow> 'e \<Rightarrow> ('r \<times> 'e) option) \<Rightarrow> 'e core_mem \<Rightarrow> nat \<Rightarrow> ('e \<Rightarrow> nat) \<Rightarrow>
    ('r timing_core \<Rightarrow> 'e \<Rightarrow> ('r timing_core \<times> 'e \<times> bool) option) \<Rightarrow> nat \<Rightarrow> addr \<Rightarrow> bbl_info \<Rightarrow> 'r timing_core \<Rightarrow> 'e \<Rightarrow> ('r timing_core \<times> 'e \<times> bool) option" where
  "timing_BblFunc rc cm PL glob tb lineBits bblAddr bi s e =
     Option.bind (timing_bbl rc cm lineBits bblAddr bi s e) (\<lambda>(s', e'). phase_loop False PL glob tb s' e')"

section \<open>Which lines a basic block fetches\<close>

primrec fetch_seq :: "(addr \<Rightarrow> nat \<Rightarrow> 'e \<Rightarrow> ('e \<times> nat) option) \<Rightarrow> addr list \<Rightarrow> nat \<Rightarrow> 'e \<Rightarrow> ('e \<times> nat) option" where
  "fetch_seq fetch [] c e = Some (e, c)"
| "fetch_seq fetch (a # as) c e = Option.bind (fetch a c e) (\<lambda>(e', c'). fetch_seq fetch as c' e')"

definition fetch_addrs :: "nat \<Rightarrow> addr \<Rightarrow> nat \<Rightarrow> addr list" where
  "fetch_addrs lineBits a bytes = map (\<lambda>i. a + of_nat (i * 2 ^ lineBits)) [0..<(bytes + 2 ^ lineBits - 1) div 2 ^ lineBits]"

lemma unat_add_of_nat: "unat (a :: u64) + n < 2 ^ 64 \<Longrightarrow> unat (a + of_nat n) = unat a + n"
  by (simp add: unat_word_ariths unat_of_nat)

lemma fetch_addrs_step:
  assumes "0 < bytes"
  shows "fetch_addrs lb a bytes = a # fetch_addrs lb (a + of_nat (2 ^ lb)) (bytes - 2 ^ lb)"
proof -
  let ?L = "2 ^ lb :: nat"
  have n: "(bytes + ?L - 1) div ?L = Suc ((bytes - ?L + ?L - 1) div ?L)"
  proof (cases "bytes \<le> ?L")
    case True
    have "(bytes + ?L - 1) div ?L = 1" by (rule div_nat_eqI) (use assms True in auto)
    then show ?thesis using True by simp
  next
    case False
    then have "bytes + ?L - 1 = (bytes - ?L + ?L - 1) + ?L" by simp
    then show ?thesis by (metis div_add_self2 power_not_zero zero_neq_numeral add.commute plus_1_eq_Suc)
  qed
  show ?thesis unfolding fetch_addrs_def n upt_conv_Cons [OF zero_less_Suc] map_Suc_upt [symmetric]
    by (simp add: algebra_simps comp_def)
qed

lemma fetch_loop_seq:
  "lb < 64 \<Longrightarrow> unat a + bytes + 2 ^ lb \<le> 2 ^ 64 \<Longrightarrow>
   fetch_loop lb fetch a (a + of_nat bytes) c e = fetch_seq fetch (fetch_addrs lb a bytes) c e"
proof (induction bytes arbitrary: a c e rule: less_induct)
  case (less bytes)
  have L: "0 < (2 :: nat) ^ lb" by simp
  have e: "unat (a + of_nat bytes) = unat a + bytes" using less.prems L by (intro unat_add_of_nat) linarith
  show ?case
  proof (cases "bytes = 0")
    case True
    then show ?thesis by (subst fetch_loop.simps) (simp add: fetch_addrs_def)
  next
    case False
    have lt: "a < a + of_nat bytes" using e False by (simp add: word_less_nat_alt)
    have p: "push_bit lb 1 = (of_nat (2 ^ lb) :: u64)" by (simp add: push_bit_eq_mult)
    let ?a = "a + of_nat (2 ^ lb)"
    have rest: "fetch_loop lb fetch ?a (a + of_nat bytes) c' e' = fetch_seq fetch (fetch_addrs lb ?a (bytes - 2 ^ lb)) c' e'" for c' e'
    proof (cases "bytes \<le> 2 ^ lb")
      case True
      have "unat ?a = unat a + 2 ^ lb" using less.prems False by (intro unat_add_of_nat) linarith
      then have "\<not> ?a < a + of_nat bytes" using e True by (simp add: word_less_nat_alt)
      then show ?thesis using True by (subst fetch_loop.simps) (simp add: fetch_addrs_def)
    next
      case b: False
      have u: "unat ?a = unat a + 2 ^ lb" using less.prems b by (intro unat_add_of_nat) linarith
      have "a + of_nat bytes = ?a + of_nat (bytes - 2 ^ lb)" using b by (simp add: of_nat_diff)
      then show ?thesis using less.IH [of "bytes - 2 ^ lb" ?a c' e'] less.prems b u L by simp
    qed
    show ?thesis unfolding fetch_addrs_step [OF False [unfolded neq0_conv]]
      by (subst fetch_loop.simps) (simp add: lt p rest del: of_nat_power push_bit_of_1)
  qed
qed

lemma ceil_lines:
  assumes "0 < L" and "0 < (bytes :: nat)"
  shows "(bytes + L - 1) div L = (bytes - 1) div L + 1"
proof -
  have "bytes + L - 1 = bytes - 1 + L" using assms by simp
  then have "(bytes + L - 1) div L = (bytes - 1 + L) div L" by (rule arg_cong)
  also have "\<dots> = (bytes - 1) div L + 1" using assms(1) by (subst div_add_self2) simp_all
  finally show ?thesis .
qed

lemma last_line:
  assumes "0 < (L :: nat)"
  shows "(\<exists>i<(b div L) + 1. (x + i * L) div L = (x + b) div L) \<longleftrightarrow> x mod L + b mod L < L"
proof -
  have s: "(x + b) div L = x div L + b div L + (x mod L + b mod L) div L" by (rule div_add1_eq)
  have "(x + i * L) div L = x div L + i" for i using assms by simp
  moreover have "(x mod L + b mod L) div L = (if x mod L + b mod L < L then 0 else 1)"
  proof (cases "x mod L + b mod L < L")
    case False
    have "x mod L < L" "b mod L < L" using assms by simp_all
    then have "x mod L + b mod L < L + L" by (rule add_strict_mono)
    then have "(x mod L + b mod L) div L = 1" using False by (intro div_nat_eqI) simp_all
    then show ?thesis using False by simp
  qed simp
  ultimately show ?thesis unfolding s by (auto split: if_splits)
qed

text \<open>C38. A basic block of \<open>bytes\<close> bytes fetches one line per \<open>2 ^ lineBits\<close> bytes, rounded up, from its first byte on,
  and no more: if the block does not start at a line and ends beyond the last full line counted so, the line of its last
  byte is never fetched.\<close>

theorem fetch_misses_last_line:
  assumes lb: "lineBits < 64" and b: "0 < bytes" and o: "unat bblAddr + bytes + 2 ^ lineBits \<le> 2 ^ 64"
  shows "fetch_loop lineBits fetch bblAddr (bblAddr + of_nat bytes) c e = fetch_seq fetch (fetch_addrs lineBits bblAddr bytes) c e \<and>
    length (fetch_addrs lineBits bblAddr bytes) = (bytes - 1) div 2 ^ lineBits + 1 \<and>
    ((\<exists>a\<in>set (fetch_addrs lineBits bblAddr bytes). drop_bit lineBits a = drop_bit lineBits (bblAddr + of_nat (bytes - 1))) \<longleftrightarrow>
      unat bblAddr mod 2 ^ lineBits + (bytes - 1) mod 2 ^ lineBits < 2 ^ lineBits)"
proof (intro conjI)
  let ?L = "2 ^ lineBits :: nat"
  have L: "0 < ?L" by simp
  show "fetch_loop lineBits fetch bblAddr (bblAddr + of_nat bytes) c e = fetch_seq fetch (fetch_addrs lineBits bblAddr bytes) c e"
    by (rule fetch_loop_seq [OF lb o])
  show "length (fetch_addrs lineBits bblAddr bytes) = (bytes - 1) div ?L + 1"
    using ceil_lines [OF L b] by (simp add: fetch_addrs_def)
  have u: "drop_bit lineBits (bblAddr + of_nat n) = drop_bit lineBits (bblAddr + of_nat k) \<longleftrightarrow>
      (unat bblAddr + n) div ?L = (unat bblAddr + k) div ?L" if "n < bytes + ?L" "k < bytes" for n k
  proof -
    have "unat (bblAddr + of_nat n) = unat bblAddr + n" "unat (bblAddr + of_nat k) = unat bblAddr + k"
      using o that by (intro unat_add_of_nat; linarith)+
    then show ?thesis by (simp only: word_unat_eq_iff unat_drop_bit_eq drop_bit_eq_div [where 'a = nat])
  qed
  have lt: "i * ?L < bytes + ?L" if "i < (bytes - 1) div ?L + 1" for i
  proof -
    have "i * ?L \<le> (bytes - 1) div ?L * ?L" using that by (intro mult_right_mono) simp_all
    also have "\<dots> \<le> bytes - 1" by simp
    finally show ?thesis using b L by linarith
  qed
  have "(\<exists>a\<in>set (fetch_addrs lineBits bblAddr bytes). drop_bit lineBits a = drop_bit lineBits (bblAddr + of_nat (bytes - 1))) \<longleftrightarrow>
      (\<exists>i<(bytes - 1) div ?L + 1. (unat bblAddr + i * ?L) div ?L = (unat bblAddr + (bytes - 1)) div ?L)"
    unfolding fetch_addrs_def ceil_lines [OF L b] set_map set_upt atLeast0LessThan bex_simps(7)
    using u [OF lt, of _ "bytes - 1"] b by (metis diff_less lessThan_iff zero_less_one)
  then show "(\<exists>a\<in>set (fetch_addrs lineBits bblAddr bytes). drop_bit lineBits a = drop_bit lineBits (bblAddr + of_nat (bytes - 1))) \<longleftrightarrow>
      unat bblAddr mod ?L + (bytes - 1) mod ?L < ?L"
    using last_line [OF L] by simp
qed

theorem fetch_misses_last_line_witness:
  "\<not> (\<exists>a\<in>set (fetch_addrs 6 0x103C 10). drop_bit 6 a = (drop_bit 6 (0x103C + of_nat 9) :: addr))"
  using fetch_misses_last_line [of 6 10 "0x103C" "\<lambda>a c e. Some (e, c)" 0 "()"] by simp

section \<open>Phases\<close>

text \<open>What the loop needs of \<open>TakeBarrier\<close> for a thread that keeps the core, or gets the same core back: it returns one
  phase later with the core as it was, or, if the thread was descheduled in between, in some later phase and after \<open>join\<close>.
  \<open>Core_Caches\<close> proves it of the barrier of \<open>Barrier_Wait\<close>.\<close>

definition barrier_law :: "nat \<Rightarrow> ('e \<Rightarrow> nat) \<Rightarrow> ('e \<Rightarrow> bool) \<Rightarrow> (nat \<Rightarrow> 'c core_scheme \<Rightarrow> 'c core_scheme) \<Rightarrow>
    ('c core_scheme \<Rightarrow> 'e \<Rightarrow> ('c core_scheme \<times> 'e \<times> bool) option) \<Rightarrow> bool" where
  "barrier_law PL glob minv join tb \<longleftrightarrow>
     (\<forall>s e. minv e \<longrightarrow> (\<exists>s' e' same. tb s e = Some (s', e', same) \<and> minv e' \<and>
        (same \<longrightarrow> s' = s \<and> glob e' = glob e + PL \<or> s' = join (glob e') s \<and> glob e < glob e')))"

text \<open>A core between two basic blocks: \<open>Q\<close> is what the class adds.\<close>

definition in_phase :: "nat \<Rightarrow> ('e \<Rightarrow> nat) \<Rightarrow> 'c core_scheme \<Rightarrow> 'e \<Rightarrow> bool" where
  "in_phase PL glob s e \<longleftrightarrow> co_phaseEndCycle s = glob e + PL"

lemma phase_loop_returns:
  assumes PL: "0 < PL" and law: "barrier_law PL glob minv join tb"
    and jc: "\<And>g s. co_curCycle (join g s) = max (co_curCycle s) g" and je: "\<And>g s. co_phaseEndCycle (join g s) = g + PL"
    and Q: "\<And>g s. Q s \<Longrightarrow> Q (join g s)" "\<And>s x. Q s \<Longrightarrow> Q (s\<lparr>co_phaseEndCycle := x\<rparr>)"
  shows "minv e \<Longrightarrow> in_phase PL glob s e \<Longrightarrow> Q s \<Longrightarrow>
    \<exists>s' e' same. phase_loop chk PL glob tb s e = Some (s', e', same) \<and> minv e' \<and>
      (same \<longrightarrow> in_phase PL glob s' e' \<and> Q s' \<and> co_curCycle s' \<le> co_phaseEndCycle s') \<and>
      ((\<forall>s e s' e'. tb s e \<noteq> Some (s', e', False)) \<longrightarrow> same)"
proof (induction "co_curCycle s - co_phaseEndCycle s" arbitrary: s e rule: less_induct)
  case less
  show ?case
  proof (cases "co_phaseEndCycle s < co_curCycle s")
    case False
    then have "phase_loop chk PL glob tb s e = Some (s, e, True)" by (subst phase_loop.simps) simp
    then show ?thesis using False less.prems by auto
  next
    case True
    let ?s = "s\<lparr>co_phaseEndCycle := co_phaseEndCycle s + PL\<rparr>"
    obtain s1 e1 same where tb: "tb ?s e = Some (s1, e1, same)"
      and m1: "minv e1" and l: "same \<Longrightarrow> s1 = ?s \<and> glob e1 = glob e + PL \<or> s1 = join (glob e1) ?s \<and> glob e < glob e1"
      using law less.prems(1) unfolding barrier_law_def by blast
    have step: "phase_loop chk PL glob tb s e = (if same then phase_loop chk PL glob tb s1 e1 else Some (s1, e1, False))"
      using True tb less.prems(2) by (subst phase_loop.simps) (simp add: in_phase_def)
    show ?thesis
    proof (cases same)
      case False
      then have "phase_loop chk PL glob tb s e = Some (s1, e1, False)" "tb ?s e = Some (s1, e1, False)" using step tb by simp_all
      then show ?thesis using m1 by blast
    next
      case s: True
      have q1: "Q s1" using l [OF s] Q less.prems(3) by metis
      have p1: "in_phase PL glob s1 e1" using l [OF s] less.prems(2) by (auto simp: in_phase_def je)
      have "co_curCycle s1 - co_phaseEndCycle s1 < co_curCycle s - co_phaseEndCycle s"
        using l [OF s] True PL less.prems(2) by (auto simp: in_phase_def je jc max_def)
      from less.hyps [OF this m1 p1 q1] show ?thesis using step s by simp
    qed
  qed
qed

definition so_ok :: "simple_core \<Rightarrow> bool" where
  "so_ok s \<longleftrightarrow> so_haltedCycles s \<le> co_curCycle s"

lemma so_ok_join: "so_ok s \<Longrightarrow> so_ok (simple_join PL g s)"
  by (auto simp: so_ok_def simple_join_def Let_def)

lemma simple_join_simps:
  "co_curCycle (simple_join PL g s) = max (co_curCycle s) g" "co_phaseEndCycle (simple_join PL g s) = g + PL"
  by (auto simp: simple_join_def Let_def)

lemma null_join_simps:
  "co_curCycle (null_join PL g s) = max (co_curCycle s) g" "co_phaseEndCycle (null_join PL g s) = g + PL"
  by (auto simp: null_join_def)

lemma null_BblFunc_returns:
  assumes "0 < PL" and "barrier_law PL glob minv (null_join PL) tb" and "minv e" and "in_phase PL glob s e"
  shows "\<exists>s' e' same. null_BblFunc PL glob tb bi s e = Some (s', e', same) \<and> minv e' \<and>
    (same \<longrightarrow> in_phase PL glob s' e' \<and> co_curCycle s' \<le> co_phaseEndCycle s')"
  using phase_loop_returns [OF assms(1,2), of "\<lambda>_. True" e "null_bbl bi s" True] assms(3,4) null_join_simps
  by (auto simp: null_BblFunc_def null_bbl_def in_phase_def)

section \<open>A core over its caches\<close>

datatype core_cmd = CLoad addr bool | CStore addr bool | CBbl addr bbl_info | CSwitch int

definition simple_cmd :: "'e core_mem \<Rightarrow> nat \<Rightarrow> ('e \<Rightarrow> nat) \<Rightarrow> (simple_core \<Rightarrow> 'e \<Rightarrow> (simple_core \<times> 'e \<times> bool) option) \<Rightarrow> nat \<Rightarrow> core_cmd \<Rightarrow>
    simple_core \<Rightarrow> 'e \<Rightarrow> (simple_core \<times> 'e \<times> bool) option" where
  "simple_cmd cm PL glob tb lineBits cmd s e =
     (case cmd of
        CLoad a pred \<Rightarrow> map_option (\<lambda>(s', e'). (s', e', True)) (simple_predLoad cm a pred s e)
      | CStore a pred \<Rightarrow> map_option (\<lambda>(s', e'). (s', e', True)) (simple_predStore cm a pred s e)
      | CBbl a bi \<Rightarrow> simple_BblFunc cm PL glob tb lineBits a bi s e
      | CSwitch gid \<Rightarrow> Some (s, simple_contextSwitch cm gid e, True))"

text \<open>The addresses that a command asks the caches for.\<close>

definition cmd_ok :: "(addr \<Rightarrow> bool) \<Rightarrow> nat \<Rightarrow> core_cmd \<Rightarrow> bool" where
  "cmd_ok aok lineBits cmd \<longleftrightarrow>
     (case cmd of
        CLoad a _ \<Rightarrow> aok a | CStore a _ \<Rightarrow> aok a | CSwitch _ \<Rightarrow> True
      | CBbl a bi \<Rightarrow> unat a + bi_bytes bi + 2 ^ lineBits \<le> 2 ^ 64 \<and> (\<forall>x\<in>set (fetch_addrs lineBits a (bi_bytes bi)). aok x))"

context core_env begin

lemma fetch_seq_returns:
  "minv e \<Longrightarrow> \<forall>a\<in>set as. aok a \<Longrightarrow>
   \<exists>e' c'. fetch_seq (cm_ifetch cm) as c e = Some (e', c') \<and> minv e' \<and> c \<le> c' \<and> glob e' = glob e"
proof (induction as arbitrary: c e)
  case (Cons a as)
  obtain e1 r where 1: "cm_ifetch cm a c e = Some (e1, r)" "minv e1" "c \<le> r" "glob e1 = glob e" using ifetch Cons.prems by fastforce
  obtain e' c' where "fetch_seq (cm_ifetch cm) as r e1 = Some (e', c')" "minv e'" "r \<le> c'" "glob e' = glob e1"
    using Cons.IH [OF 1(2)] Cons.prems by fastforce
  then show ?case using 1 by auto
qed simp

lemma simple_bbl_returns:
  assumes "minv e" and "cmd_ok aok lineBits (CBbl a bi)" and "lineBits < 64"
  shows "\<exists>s' e'. simple_bbl cm lineBits a bi s e = Some (s', e') \<and> minv e' \<and> glob e' = glob e \<and>
    s' = s\<lparr>co_instrs := co_instrs s + bi_instrs bi, co_curCycle := co_curCycle s'\<rparr> \<and> co_curCycle s + bi_instrs bi \<le> co_curCycle s'"
proof -
  have aok: "\<forall>x\<in>set (fetch_addrs lineBits a (bi_bytes bi)). aok x" and o: "unat a + bi_bytes bi + 2 ^ lineBits \<le> 2 ^ 64"
    using assms(2) by (simp_all add: cmd_ok_def)
  obtain e' c' where f: "fetch_seq (cm_ifetch cm) (fetch_addrs lineBits a (bi_bytes bi)) (co_curCycle s + bi_instrs bi) e = Some (e', c')"
      "minv e'" "co_curCycle s + bi_instrs bi \<le> c'" "glob e' = glob e"
    using fetch_seq_returns [OF assms(1) aok] by blast
  have "simple_bbl cm lineBits a bi s e = Some (s\<lparr>co_instrs := co_instrs s + bi_instrs bi, co_curCycle := c'\<rparr>, e')"
    using f(1) by (simp add: simple_bbl_def fetch_loop_seq [OF assms(3) o])
  then show ?thesis using f by simp
qed

lemma simple_cmd_returns:
  assumes "0 < PL" and law: "barrier_law PL glob minv (simple_join PL) tb" and lb: "lineBits < 64"
    and m: "minv e" and p: "in_phase PL glob s e" and s: "so_ok s" and c: "cmd_ok aok lineBits cmd"
  shows "\<exists>s' e' same. simple_cmd cm PL glob tb lineBits cmd s e = Some (s', e', same) \<and> minv e' \<and>
    (same \<longrightarrow> in_phase PL glob s' e' \<and> so_ok s' \<and> (case cmd of CBbl _ _ \<Rightarrow> co_curCycle s' \<le> co_phaseEndCycle s' | _ \<Rightarrow> True)) \<and>
    ((\<forall>s e s' e'. tb s e \<noteq> Some (s', e', False)) \<longrightarrow> same)"
proof (cases cmd)
  case (CLoad a pred)
  then show ?thesis
    using load [OF m, of a "co_curCycle s"] c p s m
    by (cases pred) (auto simp: simple_cmd_def simple_predLoad_def simple_load_def cmd_ok_def in_phase_def so_ok_def)
next
  case (CStore a pred)
  then show ?thesis
    using store [OF m, of a "co_curCycle s"] c p s m
    by (cases pred) (auto simp: simple_cmd_def simple_predStore_def simple_store_def cmd_ok_def in_phase_def so_ok_def)
next
  case (CSwitch gid)
  then show ?thesis using switch [OF m] m p s by (auto simp: simple_cmd_def simple_contextSwitch_def in_phase_def)
next
  case (CBbl a bi)
  obtain s1 e1 where b: "simple_bbl cm lineBits a bi s e = Some (s1, e1)" "minv e1" "glob e1 = glob e"
      "s1 = s\<lparr>co_instrs := co_instrs s + bi_instrs bi, co_curCycle := co_curCycle s1\<rparr>" "co_curCycle s + bi_instrs bi \<le> co_curCycle s1"
    using simple_bbl_returns [OF m c [unfolded CBbl] lb] by blast
  have ph: "in_phase PL glob s1 e1" using b(3) p by (subst b(4)) (simp add: in_phase_def)
  have ok: "so_ok s1" using b(5) s by (subst b(4)) (simp add: so_ok_def)
  from phase_loop_returns [of PL glob minv "simple_join PL" tb so_ok, OF assms(1) law simple_join_simps so_ok_join _ b(2) ph ok, of True]
  show ?thesis unfolding CBbl by (simp add: simple_cmd_def simple_BblFunc_def b(1) so_ok_def)
qed

end

section \<open>The timing core is the simple core with a recorder\<close>

definition rec_total :: "('r \<Rightarrow> nat \<Rightarrow> 'e \<Rightarrow> ('r \<times> 'e) option) \<Rightarrow> bool" where
  "rec_total rc \<longleftrightarrow> (\<forall>r c e. \<exists>r'. rc r c e = Some (r', e))"

definition core_of :: "'c core_scheme \<Rightarrow> core" where
  "core_of s = \<lparr>co_instrs = co_instrs s, co_curCycle = co_curCycle s, co_phaseEndCycle = co_phaseEndCycle s\<rparr>"

lemma timing_fetch_seq:
  assumes rc: "rec_total rc"
  shows "lb < 64 \<Longrightarrow> unat a + bytes + 2 ^ lb \<le> 2 ^ 64 \<Longrightarrow>
    map_option (\<lambda>(r', e', c'). (e', c')) (timing_fetch lb rc f a (a + of_nat bytes) c r e) = fetch_loop lb f a (a + of_nat bytes) c e"
proof (induction bytes arbitrary: a c r e rule: less_induct)
  case (less bytes)
  have eu: "unat (a + of_nat bytes) = unat a + bytes" using less.prems zero_less_power [of "2 :: nat" lb] by (intro unat_add_of_nat) linarith
  have p: "push_bit lb 1 = (of_nat (2 ^ lb) :: u64)" by (simp add: push_bit_eq_mult)
  show ?case
  proof (cases "bytes = 0")
    case True
    then show ?thesis by (subst timing_fetch.simps, subst fetch_loop.simps) simp
  next
    case False
    let ?a = "a + of_nat (2 ^ lb)"
    have rest: "map_option (\<lambda>(r', e', c'). (e', c')) (timing_fetch lb rc f ?a (a + of_nat bytes) c' r' e') =
        fetch_loop lb f ?a (a + of_nat bytes) c' e'" for c' r' e'
    proof (cases "bytes \<le> 2 ^ lb")
      case True
      have "unat ?a = unat a + 2 ^ lb" using less.prems False by (intro unat_add_of_nat) linarith
      then have "\<not> ?a < a + of_nat bytes" using eu True by (simp add: word_less_nat_alt)
      then show ?thesis by (subst timing_fetch.simps, subst fetch_loop.simps) simp
    next
      case b: False
      have u: "unat ?a = unat a + 2 ^ lb" using less.prems b by (intro unat_add_of_nat) linarith
      have e: "a + of_nat bytes = ?a + of_nat (bytes - 2 ^ lb)" using b by (simp add: of_nat_diff)
      show ?thesis unfolding e by (rule less.IH) (use less.prems b u in auto)
    qed
    have r: "\<And>r c e. \<exists>r'. rc r c e = Some (r', e)" using rc by (simp add: rec_total_def)
    have "map_option (\<lambda>(r', e', c'). (e', c')) (Option.bind (rc r c e1) (\<lambda>(r', e2). timing_fetch lb rc f ?a (a + of_nat bytes) c' r' e2)) =
        fetch_loop lb f ?a (a + of_nat bytes) c' e1" for c' e1
      using r [of r c e1] rest by auto
    then show ?thesis
      by (subst timing_fetch.simps, subst fetch_loop.simps) (auto simp: p map_option_bind comp_def split_def simp del: push_bit_of_1 of_nat_power)
  qed
qed

text \<open>Loads, stores and basic blocks of a timing core take the cycles they take on a simple core.\<close>

lemma timing_as_simple:
  assumes rc: "rec_total rc"
  shows "map_option (apfst core_of) (timing_load rc cm a s e) = map_option (apfst core_of) (simple_load cm a (core_of s) e)"
    and "map_option (apfst core_of) (timing_store rc cm a s e) = map_option (apfst core_of) (simple_store cm a (core_of s) e)"
    and "lb < 64 \<Longrightarrow> unat a + bi_bytes bi + 2 ^ lb \<le> 2 ^ 64 \<Longrightarrow>
      map_option (apfst core_of) (timing_bbl rc cm lb a bi s e) = map_option (apfst core_of) (simple_bbl cm lb a bi (core_of s) e)"
proof -
  have r: "\<And>r c e. \<exists>r'. rc r c e = Some (r', e)" using rc by (simp add: rec_total_def)
  have ex: "map_option (apfst core_of) (Option.bind x (\<lambda>(e1, c'). Option.bind (rc (tm_cRec s) (co_curCycle s) e1)
      (\<lambda>(r', e2). Some (s\<lparr>co_curCycle := c', tm_cRec := r'\<rparr>, e2)))) =
      map_option (apfst core_of) (Option.bind x (\<lambda>(e', c'). Some ((core_of s)\<lparr>co_curCycle := c'\<rparr>, e')))" for x
  proof (cases x)
    case (Some y)
    then show ?thesis using r [of "tm_cRec s" "co_curCycle s" "fst y"] by (cases y) (auto simp: core_of_def)
  qed simp
  show "map_option (apfst core_of) (timing_load rc cm a s e) = map_option (apfst core_of) (simple_load cm a (core_of s) e)"
    unfolding timing_load_def simple_load_def ex by (simp add: core_of_def)
  show "map_option (apfst core_of) (timing_store rc cm a s e) = map_option (apfst core_of) (simple_store cm a (core_of s) e)"
    unfolding timing_store_def simple_store_def ex by (simp add: core_of_def)
  assume lb: "lb < 64" "unat a + bi_bytes bi + 2 ^ lb \<le> 2 ^ 64"
  let ?c = "co_curCycle s + bi_instrs bi" and ?stop = "a + of_nat (bi_bytes bi)"
  note t = timing_fetch_seq [OF rc lb, of "cm_ifetch cm" ?c "tm_cRec s" e, symmetric]
  show "map_option (apfst core_of) (timing_bbl rc cm lb a bi s e) = map_option (apfst core_of) (simple_bbl cm lb a bi (core_of s) e)"
    using t by (cases "timing_fetch lb rc (cm_ifetch cm) a ?stop ?c (tm_cRec s) e")
      (auto simp: timing_bbl_def simple_bbl_def core_of_def)
qed

end
