(* ===== verification/OOO_Struct.thy ===== *)
theory OOO_Struct
  imports Prelude
begin

text \<open>
  The small structures of the out-of-order core model (\<^verbatim>\<open>zsim/src/ooo_core.h\<close>): the branch predictor, the reorder
  buffer (also used for the load and store queues) and the cycle queue. Their template arguments are arguments here.
\<close>

section \<open>Branch predictor\<close>

record bp =
  bp_bhsr :: "u32 list"
  bp_pht :: "nat list"
  bp_useA2 :: bool

definition bp_new :: "nat \<Rightarrow> nat \<Rightarrow> bp" where
  "bp_new NB LB = \<lparr>bp_bhsr = replicate (2 ^ NB) 0, bp_pht = replicate (2 ^ LB) 1, bp_useA2 = True\<rparr>"

definition bp_useA3 :: "bp \<Rightarrow> bp" where
  "bp_useA3 s = s\<lparr>bp_useA2 := False\<rparr>"

definition bp_idx :: "nat \<Rightarrow> addr \<Rightarrow> nat" where
  "bp_idx NB branchPc = unat ((ucast (drop_bit 1 branchPc) :: u32) AND mask NB)"

definition bp_phtIdx :: "nat \<Rightarrow> nat \<Rightarrow> u32 \<Rightarrow> nat" where
  "bp_phtIdx HB LB hist = unat ((hist XOR drop_bit (HB - LB) (hist AND NOT (mask LB))) AND mask LB)"

definition bp_count :: "bool \<Rightarrow> nat \<Rightarrow> nat" where
  "bp_count taken x = (if taken then (if x > 1 then 3 else x + 1) else if x > 1 then x - 1 else 0)"

text \<open>The result is false if the branch is mispredicted.\<close>

definition bp_predict :: "nat \<Rightarrow> nat \<Rightarrow> nat \<Rightarrow> bp \<Rightarrow> addr \<Rightarrow> bool \<Rightarrow> (bp \<times> bool) option" where
  "bp_predict NB HB LB s branchPc taken =
     (let i = bp_idx NB branchPc in
      Option.bind (guard (i < length (bp_bhsr s))) (\<lambda>_.
      let hist = bp_bhsr s ! i; j = bp_phtIdx HB LB hist in
      Option.bind (guard (j < length (bp_pht s))) (\<lambda>_.
      let pred = (bp_pht s ! j > 1);
          pht' = (if bp_useA2 s then (bp_pht s)[j := bp_count taken (bp_pht s ! j)] else bp_pht s);
          hist' = (push_bit 1 hist AND mask HB) OR (if taken then 1 else 0)
      in Some (s\<lparr>bp_pht := pht', bp_bhsr := (bp_bhsr s)[i := hist']\<rparr>, taken = pred))))"

section \<open>Reorder buffer and cycle queue\<close>

record rob =
  rb_buf :: "nat list"
  rb_curRetireCycle :: nat
  rb_curCycleRetires :: nat
  rb_idx :: nat

definition rob_new :: "nat \<Rightarrow> rob" where
  "rob_new SZ = \<lparr>rb_buf = replicate SZ 0, rb_curRetireCycle = 0, rb_curCycleRetires = 1, rb_idx = 0\<rparr>"

definition rob_minAllocCycle :: "rob \<Rightarrow> nat" where
  "rob_minAllocCycle s = rb_buf s ! rb_idx s"

definition rob_markRetire :: "nat \<Rightarrow> nat \<Rightarrow> rob \<Rightarrow> nat \<Rightarrow> rob" where
  "rob_markRetire SZ W s minRetireCycle =
     (let s1 = (if minRetireCycle \<le> rb_curRetireCycle s
                then if rb_curCycleRetires s = W
                     then s\<lparr>rb_curRetireCycle := rb_curRetireCycle s + 1, rb_curCycleRetires := 0\<rparr>
                     else s\<lparr>rb_curCycleRetires := rb_curCycleRetires s + 1\<rparr>
                else s\<lparr>rb_curRetireCycle := minRetireCycle, rb_curCycleRetires := 1\<rparr>)
      in s1\<lparr>rb_buf := (rb_buf s1)[rb_idx s1 := rb_curRetireCycle s1], rb_idx := (if rb_idx s1 + 1 = SZ then 0 else rb_idx s1 + 1)\<rparr>)"

record cycle_queue =
  cq_buf :: "nat list"
  cq_idx :: nat

definition cq_new :: "nat \<Rightarrow> cycle_queue" where
  "cq_new SZ = \<lparr>cq_buf = replicate SZ 0, cq_idx = 0\<rparr>"

definition cq_minAllocCycle :: "cycle_queue \<Rightarrow> nat" where
  "cq_minAllocCycle s = cq_buf s ! cq_idx s"

definition cq_markLeave :: "nat \<Rightarrow> cycle_queue \<Rightarrow> nat \<Rightarrow> cycle_queue" where
  "cq_markLeave SZ s leaveCycle = s\<lparr>cq_buf := (cq_buf s)[cq_idx s := leaveCycle], cq_idx := (if cq_idx s + 1 = SZ then 0 else cq_idx s + 1)\<rparr>"

section \<open>The ring buffers remember the last \<open>SZ\<close> entries\<close>

text \<open>\<open>ring SZ buf idx hs\<close>: \<open>hs\<close> was written, and \<open>idx\<close> is where the next entry goes.\<close>

definition ring :: "nat \<Rightarrow> nat list \<Rightarrow> nat \<Rightarrow> nat list \<Rightarrow> bool" where
  "ring SZ buf idx hs \<longleftrightarrow> length buf = SZ \<and> idx = length hs mod SZ \<and>
     (\<forall>k<SZ. buf ! ((length hs + k) mod SZ) = (if length hs + k < SZ then 0 else hs ! (length hs + k - SZ)))"

lemma ring_new: "0 < SZ \<Longrightarrow> ring SZ (replicate SZ 0) 0 []"
  by (simp add: ring_def)

lemma ring_oldest: "ring SZ buf idx hs \<Longrightarrow> 0 < SZ \<Longrightarrow> buf ! idx = (if length hs < SZ then 0 else hs ! (length hs - SZ))"
  unfolding ring_def by (elim conjE) (drule spec [of _ 0], simp)

lemma ring_write:
  assumes r: "ring SZ buf idx hs" and sz: "0 < SZ"
  shows "ring SZ (buf[idx := x]) (if idx + 1 = SZ then 0 else idx + 1) (hs @ [x])"
proof -
  let ?n = "length hs"
  have len: "length buf = SZ" and idx: "idx = ?n mod SZ"
    and old: "\<And>k. k < SZ \<Longrightarrow> buf ! ((?n + k) mod SZ) = (if ?n + k < SZ then 0 else hs ! (?n + k - SZ))"
    using r by (auto simp: ring_def)
  have i: "idx < SZ" using idx sz by simp
  have nx: "(if idx + 1 = SZ then 0 else idx + 1) = Suc ?n mod SZ"
    using idx by (simp add: mod_Suc)
  have "(buf[idx := x]) ! ((Suc ?n + k) mod SZ) = (if Suc ?n + k < SZ then 0 else (hs @ [x]) ! (Suc ?n + k - SZ))" if k: "k < SZ" for k
  proof (cases "Suc k = SZ")
    case True
    then have "Suc ?n + k = ?n + SZ" by simp
    then have "(Suc ?n + k) mod SZ = idx" using idx by (metis mod_add_self2)
    moreover have "\<not> Suc ?n + k < SZ" "Suc ?n + k - SZ = ?n" using \<open>Suc ?n + k = ?n + SZ\<close> by simp_all
    moreover have "(buf[idx := x]) ! idx = x" "(hs @ [x]) ! ?n = x" using i len by simp_all
    ultimately show ?thesis by (simp only: if_False)
  next
    case False
    then have k': "Suc k < SZ" using k by simp
    have "(?n + Suc k) mod SZ \<noteq> idx"
    proof
      assume "(?n + Suc k) mod SZ = idx"
      then have "SZ dvd Suc k" using idx mod_eq_dvd_iff_nat [of ?n "?n + Suc k" SZ] by simp
      then show False using k' by (simp add: dvd_imp_le leD)
    qed
    then show ?thesis using old [OF k'] k' len by (auto simp: nth_append)
  qed
  then show ?thesis unfolding ring_def nx using len by simp
qed

section \<open>Retirement\<close>

text \<open>The retire cycles of a sequence of operations that are ready at the cycles \<open>ms\<close>.\<close>

fun rob_trace :: "nat \<Rightarrow> nat \<Rightarrow> nat \<Rightarrow> nat list \<Rightarrow> nat list" where
  "rob_trace W cur cnt [] = []"
| "rob_trace W cur cnt (m # ms) =
     (if m \<le> cur then if cnt = W then (cur + 1) # rob_trace W (cur + 1) 0 ms else cur # rob_trace W cur (cnt + 1) ms
      else m # rob_trace W m 1 ms)"

definition rob_run :: "nat \<Rightarrow> nat \<Rightarrow> nat list \<Rightarrow> rob" where
  "rob_run SZ W ms = fold (\<lambda>m s. rob_markRetire SZ W s m) ms (rob_new SZ)"

lemma rob_trace_length [simp]: "length (rob_trace W cur cnt ms) = length ms"
  by (induction W cur cnt ms rule: rob_trace.induct) auto

lemma rob_fold_ring:
  assumes "0 < SZ"
  shows "ring SZ (rb_buf s) (rb_idx s) hs \<Longrightarrow>
    ring SZ (rb_buf (fold (\<lambda>m s. rob_markRetire SZ W s m) ms s)) (rb_idx (fold (\<lambda>m s. rob_markRetire SZ W s m) ms s))
      (hs @ rob_trace W (rb_curRetireCycle s) (rb_curCycleRetires s) ms)"
proof (induction ms arbitrary: s hs)
  case (Cons m ms)
  let ?s = "rob_markRetire SZ W s m"
  have "ring SZ (rb_buf ?s) (rb_idx ?s) (hs @ [rb_curRetireCycle ?s])"
    using ring_write [OF Cons.prems assms, of "rb_curRetireCycle ?s"] by (auto simp: rob_markRetire_def Let_def)
  from Cons.IH [OF this] show ?case by (auto simp: rob_markRetire_def Let_def)
qed simp

lemma rob_run_ring: "0 < SZ \<Longrightarrow> ring SZ (rb_buf (rob_run SZ W ms)) (rb_idx (rob_run SZ W ms)) (rob_trace W 0 1 ms)"
  using rob_fold_ring [of SZ "rob_new SZ" "[]" W ms] ring_new [of SZ] by (simp add: rob_run_def rob_new_def)

lemma rob_trace_sorted: "sorted (rob_trace W cur cnt ms) \<and> (\<forall>c\<in>set (rob_trace W cur cnt ms). cur \<le> c)"
proof (induction W cur cnt ms rule: rob_trace.induct)
  case (2 W cur cnt m ms)
  then show ?case by (cases "m \<le> cur"; cases "cnt = W") (auto intro: le_trans [OF less_imp_le])
qed simp

lemma rob_trace_ready: "i < length ms \<Longrightarrow> ms ! i \<le> rob_trace W cur cnt ms ! i"
  by (induction W cur cnt ms arbitrary: i rule: rob_trace.induct) (auto simp: nth_Cons less_Suc_eq_0_disj)

lemma rob_trace_count:
  "cnt \<le> W \<Longrightarrow> 1 \<le> W \<Longrightarrow> count_list (rob_trace W cur cnt ms) c \<le> (if c = cur then W - cnt else W + 1)"
proof (induction W cur cnt ms rule: rob_trace.induct)
  case (2 W cur cnt m ms)
  have low: "count_list (rob_trace W (cur + 1) 0 ms) cur = 0"
    using rob_trace_sorted [of W "cur + 1" 0 ms] by (auto simp: count_list_0_iff)
  have lowm: "cur < m \<Longrightarrow> count_list (rob_trace W m 1 ms) cur = 0"
    using rob_trace_sorted [of W m 1 ms] by (auto simp: count_list_0_iff)
  consider "m \<le> cur" "cnt = W" | "m \<le> cur" "cnt < W" | "cur < m" using "2.prems" by linarith
  then show ?case
  proof cases
    case 1
    then show ?thesis using "2.IH"(1) "2.prems" low by auto
  next
    case 2
    then show ?thesis using "2.IH"(2) by auto
  next
    case 3
    then show ?thesis using "2.IH"(3) "2.prems" lowm by auto
  qed
qed simp

lemma rob_trace_replicate:
  "1 \<le> c \<Longrightarrow> cnt + n \<le> W \<Longrightarrow> rob_trace W c cnt (replicate n 1 @ ys) = replicate n c @ rob_trace W c (cnt + n) ys"
  by (induction n arbitrary: cnt) auto

lemma count_replicate: "count_list (replicate n x) y = (if x = y then n else 0)"
  by (cases "x = y"; induction n) auto

text \<open>C22. Retirement is in order and never before an operation is ready; the buffer gives the retire cycle of the
  operation \<open>SZ\<close> places before as the earliest cycle of allocation; and at most \<open>W + 1\<close> operations retire in a cycle,
  one more than the width \<open>W\<close> that the buffer is to model: after a full bundle the counter restarts at 0 although an
  operation has been counted for the new cycle, so that \<open>W + 1\<close> is reached.\<close>

theorem rob_in_order:
  assumes "0 < SZ" and "0 < W"
  shows "sorted (rob_trace W 0 1 ms) \<and> length (rob_trace W 0 1 ms) = length ms \<and>
    (\<forall>i<length ms. ms ! i \<le> rob_trace W 0 1 ms ! i) \<and>
    rob_minAllocCycle (rob_run SZ W ms) = (if length ms < SZ then 0 else rob_trace W 0 1 ms ! (length ms - SZ)) \<and>
    (\<forall>c. count_list (rob_trace W 0 1 ms) c \<le> W + 1) \<and> count_list (rob_trace W 0 1 (replicate (2 * W + 1) 1)) 2 = W + 1"
proof (intro conjI allI impI)
  show "rob_minAllocCycle (rob_run SZ W ms) = (if length ms < SZ then 0 else rob_trace W 0 1 ms ! (length ms - SZ))"
    using ring_oldest [OF rob_run_ring [OF assms(1)] assms(1)] by (simp add: rob_minAllocCycle_def)
  show "count_list (rob_trace W 0 1 ms) c \<le> W + 1" for c
    using rob_trace_count [of 1 W 0 ms c] assms(2) by (auto split: if_splits)
  have one: "replicate (2 * W + 1) 1 = (1 :: nat) # replicate (W - 1) 1 @ 1 # replicate W 1 @ []"
  proof -
    have "replicate (2 * W + 1) 1 = replicate (1 + (W - 1) + 1 + W) (1 :: nat)" using assms(2) by (intro arg_cong2 [of _ _ _ _ replicate]) simp_all
    then show ?thesis by (simp only: replicate_add) simp
  qed
  have "rob_trace W 0 1 (replicate (2 * W + 1) 1) = 1 # replicate (W - 1) 1 @ 2 # replicate W 2"
    unfolding one using rob_trace_replicate [of 1 1 "W - 1" W "1 # replicate W 1 @ []"] rob_trace_replicate [of 2 0 W W "[]"] assms(2)
    by (simp add: numeral_2_eq_2)
  then show "count_list (rob_trace W 0 1 (replicate (2 * W + 1) 1)) 2 = W + 1"
    by (simp add: count_replicate)
qed (use rob_trace_sorted rob_trace_ready in auto)

theorem rob_in_order_witness:
  "rob_minAllocCycle (rob_run 2 4 [3, 3, 9]) = 3 \<and> count_list (rob_trace 4 0 1 (replicate 9 1)) 2 = 5"
  using rob_in_order [of 2 4 "[3, 3, 9]"] by simp

lemma cq_oldest:
  assumes "0 < SZ"
  shows "cq_minAllocCycle (fold (\<lambda>c s. cq_markLeave SZ s c) cs (cq_new SZ)) = (if length cs < SZ then 0 else cs ! (length cs - SZ))"
proof -
  have "ring SZ (cq_buf (fold (\<lambda>c s. cq_markLeave SZ s c) cs s)) (cq_idx (fold (\<lambda>c s. cq_markLeave SZ s c) cs s)) (hs @ cs)"
    if "ring SZ (cq_buf s) (cq_idx s) hs" for s hs
    using that
  proof (induction cs arbitrary: s hs)
    case (Cons c cs)
    from Cons.IH [of "cq_markLeave SZ s c" "hs @ [c]"] ring_write [OF Cons.prems assms, of c] show ?case by (simp add: cq_markLeave_def)
  qed simp
  from this [of "cq_new SZ" "[]"] have "ring SZ (cq_buf (fold (\<lambda>c s. cq_markLeave SZ s c) cs (cq_new SZ)))
      (cq_idx (fold (\<lambda>c s. cq_markLeave SZ s c) cs (cq_new SZ))) cs"
    using ring_new [OF assms] by (simp add: cq_new_def)
  from ring_oldest [OF this assms] show ?thesis by (simp add: cq_minAllocCycle_def)
qed

section \<open>What the branch predictor learns\<close>

definition bp_ok :: "nat \<Rightarrow> nat \<Rightarrow> nat \<Rightarrow> bp \<Rightarrow> bool" where
  "bp_ok NB HB LB s \<longleftrightarrow> length (bp_bhsr s) = 2 ^ NB \<and> length (bp_pht s) = 2 ^ LB \<and>
     (\<forall>h\<in>set (bp_bhsr s). \<forall>n\<ge>HB. \<not> bit h n) \<and> (\<forall>x\<in>set (bp_pht s). x \<le> 3)"

lemma unat_mask_less:
  assumes "k < 32"
  shows "unat (w AND mask k :: u32) < 2 ^ k"
proof -
  have "w AND mask k < 2 ^ k" using assms by (intro and_mask_less') simp
  moreover have "unat (2 ^ k :: u32) = 2 ^ k"
  proof -
    have "(2 :: nat) ^ k < 2 ^ 32" using assms by (intro power_strict_increasing) simp_all
    then have "unat (of_nat (2 ^ k) :: u32) = 2 ^ k" by (simp only: unsigned_of_nat take_bit_nat_eq_self_iff len_num1 len_bit0) (use assms in simp)
    then show ?thesis by simp
  qed
  ultimately show ?thesis by (simp add: word_less_nat_alt)
qed

lemma bp_idx_less: "NB < 32 \<Longrightarrow> bp_idx NB pc < 2 ^ NB"
  unfolding bp_idx_def by (rule unat_mask_less)

lemma bp_phtIdx_less: "LB < 32 \<Longrightarrow> bp_phtIdx HB LB h < 2 ^ LB"
  unfolding bp_phtIdx_def by (rule unat_mask_less)

definition bp_hist :: "nat \<Rightarrow> bool \<Rightarrow> u32 \<Rightarrow> u32" where
  "bp_hist HB taken h = (push_bit 1 h AND mask HB) OR (if taken then 1 else 0)"

lemma bit_bp_hist: "0 < HB \<Longrightarrow> HB < 32 \<Longrightarrow> bit (bp_hist HB d h) n \<longleftrightarrow> n < HB \<and> (if n = 0 then d else bit h (n - 1))"
  unfolding bp_hist_def bit_or_iff bit_and_iff bit_mask_iff bit_push_bit_iff by (auto simp: bit_1_iff)

lemma bp_count_le: "x \<le> 3 \<Longrightarrow> bp_count d x \<le> 3"
  by (auto simp: bp_count_def)

lemma bp_predict_ok:
  fixes pc :: addr
  assumes ok: "bp_ok NB HB LB s" and b: "0 < HB" "HB < 32" "NB < 32" "LB < 32"
  defines "i \<equiv> bp_idx NB pc"
  defines "j \<equiv> bp_phtIdx HB LB (bp_bhsr s ! i)"
  obtains s' where "bp_predict NB HB LB s pc d = Some (s', d = (bp_pht s ! j > 1))" "bp_ok NB HB LB s'" "bp_useA2 s' = bp_useA2 s"
    "bp_bhsr s' = (bp_bhsr s)[i := bp_hist HB d (bp_bhsr s ! i)]" "i < 2 ^ NB" "j < 2 ^ LB"
    "bp_pht s' = (if bp_useA2 s then (bp_pht s)[j := bp_count d (bp_pht s ! j)] else bp_pht s)"
proof -
  let ?s = "s\<lparr>bp_pht := (if bp_useA2 s then (bp_pht s)[j := bp_count d (bp_pht s ! j)] else bp_pht s),
      bp_bhsr := (bp_bhsr s)[i := bp_hist HB d (bp_bhsr s ! i)]\<rparr>"
  have len: "length (bp_bhsr s) = 2 ^ NB" "length (bp_pht s) = 2 ^ LB" using ok by (auto simp: bp_ok_def)
  have ij: "i < 2 ^ NB" "j < 2 ^ LB" unfolding i_def j_def using b by (simp_all add: bp_idx_less bp_phtIdx_less)
  have "bp_predict NB HB LB s pc d = Some (?s, d = (bp_pht s ! j > 1))"
    using ij len unfolding bp_predict_def Let_def i_def [symmetric] j_def [symmetric] by (simp add: bp_hist_def)
  moreover have "\<forall>h\<in>set ((bp_bhsr s)[i := bp_hist HB d (bp_bhsr s ! i)]). \<forall>n\<ge>HB. \<not> bit h n"
    using ok b by (auto simp: bp_ok_def bit_bp_hist dest!: set_list_updateD)
  moreover have "\<forall>x\<in>set ((bp_pht s)[j := bp_count d (bp_pht s ! j)]). x \<le> 3"
    using ok ij(2) len(2) by (auto simp: bp_ok_def bp_count_le dest!: set_list_updateD)
  ultimately show thesis using that [of ?s] ok ij by (auto simp: bp_ok_def)
qed

text \<open>Any sequence of branches.\<close>

fun bp_all :: "nat \<Rightarrow> nat \<Rightarrow> nat \<Rightarrow> bp \<Rightarrow> (addr \<times> bool) list \<Rightarrow> bp option" where
  "bp_all NB HB LB s [] = Some s"
| "bp_all NB HB LB s ((pc, d) # bs) = Option.bind (bp_predict NB HB LB s pc d) (\<lambda>(s', _). bp_all NB HB LB s' bs)"

lemma bp_all_append: "bp_all NB HB LB s (bs @ cs) = Option.bind (bp_all NB HB LB s bs) (\<lambda>s'. bp_all NB HB LB s' cs)"
  by (induction NB HB LB s bs rule: bp_all.induct) (auto split: bind_splits)

lemma bp_all_ok:
  assumes b: "0 < HB" "HB < 32" "NB < 32" "LB < 32"
  shows "bp_ok NB HB LB s \<Longrightarrow> \<exists>s'. bp_all NB HB LB s bs = Some s' \<and> bp_ok NB HB LB s' \<and> bp_useA2 s' = bp_useA2 s \<and>
    (\<not> bp_useA2 s \<longrightarrow> bp_pht s' = bp_pht s)"
proof (induction bs arbitrary: s)
  case (Cons x bs)
  obtain pc d where x: "x = (pc, d)" by force
  obtain s1 where s1: "bp_predict NB HB LB s pc d = Some (s1, d = (bp_pht s ! bp_phtIdx HB LB (bp_bhsr s ! bp_idx NB pc) > 1))"
    "bp_ok NB HB LB s1" "bp_useA2 s1 = bp_useA2 s" "\<not> bp_useA2 s \<longrightarrow> bp_pht s1 = bp_pht s"
    using bp_predict_ok [OF Cons.prems b, of pc d] by (metis (full_types))
  from Cons.IH [OF s1(2)] s1 show ?case by (auto simp: x)
qed simp

lemma bp_new_ok: "bp_ok NB HB LB (bp_new NB LB)" "bp_ok NB HB LB (bp_useA3 (bp_new NB LB))"
  by (auto simp: bp_ok_def bp_new_def bp_useA3_def)

text \<open>Branches of one program counter, all with outcome \<open>d\<close>: first the history fills up, then the counter follows.\<close>

definition bp_full :: "nat \<Rightarrow> bool \<Rightarrow> nat \<Rightarrow> u32 \<Rightarrow> bool" where
  "bp_full HB d k h \<longleftrightarrow> (\<forall>n. bit h n \<longrightarrow> n < HB) \<and> (\<forall>n<min k HB. bit h n = d)"

lemma bp_full_step:
  assumes "0 < HB" and "HB < 32" and f: "bp_full HB d k h"
  shows "bp_full HB d (Suc k) (bp_hist HB d h)"
  unfolding bp_full_def bit_bp_hist [OF assms(1,2)]
proof (intro conjI allI impI)
  fix n assume n: "n < min (Suc k) HB"
  show "(n < HB \<and> (if n = 0 then d else bit h (n - 1))) = d"
  proof (cases "n = 0")
    case False
    then have "n - 1 < min k HB" using n by auto
    then have "bit h (n - 1) = d" using f by (simp add: bp_full_def)
    then show ?thesis using False n by simp
  qed (use assms(1) in simp)
qed simp

lemma bp_full_bit: "bp_full HB d k h \<Longrightarrow> HB \<le> k \<Longrightarrow> bit h n \<longleftrightarrow> n < HB \<and> d"
  unfolding bp_full_def by (metis min_absorb2)

lemma bp_full_unique:
  assumes "bp_full HB d k h" and "bp_full HB d l h'" and "HB \<le> k" and "HB \<le> l"
  shows "h = h'"
  by (rule bit_word_eqI) (simp add: bp_full_bit [OF assms(1,3)] bp_full_bit [OF assms(2,4)])

definition bp_toward :: "bool \<Rightarrow> nat \<Rightarrow> nat \<Rightarrow> bool" where
  "bp_toward d t x \<longleftrightarrow> (if d then min t 2 \<le> x else x \<le> 3 - min t 2)"

lemma bp_toward_step: "x \<le> 3 \<Longrightarrow> bp_toward d t x \<Longrightarrow> bp_toward d (Suc t) (bp_count d x)"
  by (auto simp: bp_toward_def bp_count_def)

lemma bp_repeat:
  assumes b: "0 < HB" "HB < 32" "NB < 32" "LB < 32" and ok: "bp_ok NB HB LB s" and a2: "bp_useA2 s"
  shows "\<exists>s'. bp_all NB HB LB s (replicate k (pc, d)) = Some s' \<and> bp_ok NB HB LB s' \<and> bp_useA2 s' \<and>
    bp_full HB d k (bp_bhsr s' ! bp_idx NB pc) \<and>
    (HB \<le> k \<longrightarrow> bp_toward d (k - HB) (bp_pht s' ! bp_phtIdx HB LB (bp_bhsr s' ! bp_idx NB pc)))"
proof (induction k)
  case 0
  have i: "bp_idx NB pc < length (bp_bhsr s)" using ok b bp_idx_less by (simp add: bp_ok_def)
  then have "bp_bhsr s ! bp_idx NB pc \<in> set (bp_bhsr s)" by simp
  then have "bp_full HB d 0 (bp_bhsr s ! bp_idx NB pc)" using ok by (auto simp: bp_full_def bp_ok_def not_le [symmetric])
  then show ?case using ok a2 b(1) by simp
next
  case (Suc k)
  let ?i = "bp_idx NB pc"
  from Suc obtain t where t: "bp_all NB HB LB s (replicate k (pc, d)) = Some t" "bp_ok NB HB LB t" "bp_useA2 t"
    "bp_full HB d k (bp_bhsr t ! ?i)" "HB \<le> k \<longrightarrow> bp_toward d (k - HB) (bp_pht t ! bp_phtIdx HB LB (bp_bhsr t ! ?i))" by blast
  let ?h = "bp_bhsr t ! ?i"
  let ?j = "bp_phtIdx HB LB ?h"
  obtain t' r where p: "bp_predict NB HB LB t pc d = Some (t', r)" "bp_ok NB HB LB t'" "bp_useA2 t' = bp_useA2 t"
    "bp_bhsr t' = (bp_bhsr t)[?i := bp_hist HB d ?h]" "?i < 2 ^ NB" "?j < 2 ^ LB"
    "bp_pht t' = (if bp_useA2 t then (bp_pht t)[?j := bp_count d (bp_pht t ! ?j)] else bp_pht t)"
    by (rule bp_predict_ok [OF t(2) b, of pc d]) blast
  have len: "length (bp_bhsr t) = 2 ^ NB" "length (bp_pht t) = 2 ^ LB" using t(2) by (auto simp: bp_ok_def)
  have h': "bp_bhsr t' ! ?i = bp_hist HB d ?h" using p(4,5) len by simp
  have full: "bp_full HB d (Suc k) (bp_hist HB d ?h)" by (rule bp_full_step [OF b(1,2) t(4)])
  have tow: "bp_toward d (Suc k - HB) (bp_pht t' ! bp_phtIdx HB LB (bp_hist HB d ?h))" if "HB \<le> Suc k"
  proof (cases "HB = Suc k")
    case True
    have "bp_pht t' ! bp_phtIdx HB LB (bp_hist HB d ?h) \<in> set (bp_pht t')"
      using p(2) bp_phtIdx_less [OF b(4)] by (simp add: bp_ok_def)
    then have "bp_pht t' ! bp_phtIdx HB LB (bp_hist HB d ?h) \<le> 3" using p(2) by (simp add: bp_ok_def)
    then show ?thesis using True by (cases d) (simp_all add: bp_toward_def)
  next
    case False
    then have k: "HB \<le> k" using that by simp
    have "bp_hist HB d ?h = ?h" by (rule bp_full_unique [OF full t(4)]) (use k in simp_all)
    moreover have "bp_pht t ! ?j \<in> set (bp_pht t)" using p(6) len by simp
    then have "bp_pht t ! ?j \<le> 3" using t(2) by (simp add: bp_ok_def)
    then have "bp_toward d (Suc (k - HB)) (bp_count d (bp_pht t ! ?j))" using t(5) k by (intro bp_toward_step) simp_all
    ultimately show ?thesis using p(6,7) t(3) len k by (simp add: Suc_diff_le)
  qed
  have rep: "replicate (Suc k) (pc, d) = replicate k (pc, d) @ [(pc, d)]" by (simp add: replicate_append_same)
  have "bp_all NB HB LB s (replicate (Suc k) (pc, d)) = Some t'" unfolding rep bp_all_append using t(1) p(1) by simp
  then show ?case using p(2,3) t(3) h' full tow by auto
qed

text \<open>C23. After any sequence of branches, a branch that goes the same way \<open>HB + 2\<close> times in a row is predicted from
  then on: \<open>HB\<close> times to fill its history, twice to move the two-bit counter. With the second automaton selected
  (\<open>useA3\<close>, which is left unimplemented) no branch is ever predicted taken.\<close>

theorem bp_learns:
  assumes "0 < HB" and "HB < 32" and "NB < 32" and "LB < 32" and "HB + 2 \<le> k"
  shows "\<exists>s s' t t'. bp_all NB HB LB (bp_new NB LB) (bs @ replicate k (pc, d)) = Some s \<and> bp_predict NB HB LB s pc d = Some (s', True) \<and>
    bp_all NB HB LB (bp_useA3 (bp_new NB LB)) bs = Some t \<and> bp_predict NB HB LB t pc d = Some (t', \<not> d)"
proof -
  note b = assms(1-4)
  obtain s0 where s0: "bp_all NB HB LB (bp_new NB LB) bs = Some s0" "bp_ok NB HB LB s0" "bp_useA2 s0"
    using bp_all_ok [OF b bp_new_ok(1)] by (auto simp: bp_new_def)
  obtain s where s: "bp_all NB HB LB s0 (replicate k (pc, d)) = Some s" "bp_ok NB HB LB s"
    "HB \<le> k \<longrightarrow> bp_toward d (k - HB) (bp_pht s ! bp_phtIdx HB LB (bp_bhsr s ! bp_idx NB pc))"
    using bp_repeat [OF b s0(2,3), of k pc d] by blast
  have "min (k - HB) 2 = 2" using assms(5) by simp
  then have x: "(bp_pht s ! bp_phtIdx HB LB (bp_bhsr s ! bp_idx NB pc) > 1) = d"
    using s(3) assms(5) by (auto simp: bp_toward_def split: if_splits)
  obtain s' where "bp_predict NB HB LB s pc d = Some (s', d = (bp_pht s ! bp_phtIdx HB LB (bp_bhsr s ! bp_idx NB pc) > 1))"
    by (rule bp_predict_ok [OF s(2) b, of pc d]) blast
  then have 1: "bp_predict NB HB LB s pc d = Some (s', True)" unfolding x by simp
  obtain t where t: "bp_all NB HB LB (bp_useA3 (bp_new NB LB)) bs = Some t" "bp_ok NB HB LB t" "bp_pht t = replicate (2 ^ LB) 1"
    using bp_all_ok [OF b bp_new_ok(2), of bs] by (auto simp: bp_useA3_def bp_new_def)
  have y: "(bp_pht t ! bp_phtIdx HB LB (bp_bhsr t ! bp_idx NB pc) > 1) = False" using t(3) bp_phtIdx_less [OF b(4)] by simp
  obtain t' where "bp_predict NB HB LB t pc d = Some (t', d = (bp_pht t ! bp_phtIdx HB LB (bp_bhsr t ! bp_idx NB pc) > 1))"
    by (rule bp_predict_ok [OF t(2) b, of pc d]) blast
  then have 2: "bp_predict NB HB LB t pc d = Some (t', \<not> d)" unfolding y by simp
  from 1 2 s0(1) s(1) t(1) show ?thesis by (simp add: bp_all_append)
qed

theorem bp_learns_witness:
  "\<exists>s s'. bp_all 11 18 14 (bp_new 11 14) (replicate 20 (0x400, True)) = Some s \<and> bp_predict 11 18 14 s 0x400 True = Some (s', True)"
  using bp_learns [of 18 11 14 20 "[]" "0x400" True] by auto

end
