(* ===== verification/OOO_Window.thy ===== *)
theory OOO_Window
  imports Prelude
begin

text \<open>
  The instruction window of the out-of-order core model (\<open>WindowStructure\<close> in \<^verbatim>\<open>zsim/src/ooo_core.h\<close>): for each
  future cycle the ports that are taken, in two arrays of \<open>H\<close> cycles and a map for the cycles beyond. The current cycle
  is the caller's variable, passed by reference: it is an argument and a result here. \<open>H\<close> and the size \<open>WSZ\<close> are the
  template's arguments.
\<close>

section \<open>State\<close>

record wincycle =
  wc_occUnits :: u8
  wc_count :: nat

definition wc0 :: wincycle where
  "wc0 = \<lparr>wc_occUnits = 0, wc_count = 0\<rparr>"

record window =
  iw_curWin :: "wincycle list"
  iw_nextWin :: "wincycle list"
  iw_ubWin :: "nat \<Rightarrow> wincycle option"
  iw_occupancy :: nat
  iw_curPos :: nat
  iw_lastPort :: nat

definition iw_new :: "nat \<Rightarrow> window" where
  "iw_new H = \<lparr>iw_curWin = replicate H wc0, iw_nextWin = replicate H wc0, iw_ubWin = (\<lambda>_. None), iw_occupancy = 0, iw_curPos = 0,
    iw_lastPort = 0\<rparr>"

section \<open>Operations\<close>

definition wc_avail :: "u8 \<Rightarrow> wincycle \<Rightarrow> u8" where
  "wc_avail portMask wc = NOT (wc_occUnits wc) AND portMask"

definition first_bit :: "u8 \<Rightarrow> nat" where
  "first_bit w = (case List.find (bit w) [0..<8] of None \<Rightarrow> 8 | Some i \<Rightarrow> i)"

text \<open>\<open>trySchedule\<close> where it succeeds, that is where a port is available; elsewhere it changes nothing.\<close>

definition wc_take :: "bool \<Rightarrow> u8 \<Rightarrow> wincycle \<Rightarrow> wincycle" where
  "wc_take touchOccupancy portMask wc =
     (if touchOccupancy
      then wc\<lparr>wc_occUnits := wc_occUnits wc OR push_bit (first_bit (wc_avail portMask wc)) 1, wc_count := wc_count wc + 1\<rparr>
      else wc\<lparr>wc_occUnits := wc_occUnits wc OR portMask\<rparr>)"

definition iw_record :: "bool \<Rightarrow> u8 \<Rightarrow> wincycle \<Rightarrow> window \<Rightarrow> window" where
  "iw_record recordPort portMask wc s = (if recordPort then s\<lparr>iw_lastPort := first_bit (wc_avail portMask wc)\<rparr> else s)"

text \<open>\<open>advancePos\<close>. When the current array is used up the arrays are swapped and the cycles of the map that come within
  reach move to the array.\<close>

definition iw_advancePos :: "nat \<Rightarrow> window \<Rightarrow> nat \<Rightarrow> (window \<times> nat) option" where
  "iw_advancePos H s curCycle =
     Option.bind (guard (iw_curPos s < length (iw_curWin s))) (\<lambda>_.
     let s1 = s\<lparr>iw_occupancy := iw_occupancy s - wc_count (iw_curWin s ! iw_curPos s),
                iw_curWin := (iw_curWin s)[iw_curPos s := wc0], iw_curPos := iw_curPos s + 1\<rparr>;
         curCycle1 = curCycle + 1 in
     if iw_curPos s1 = H then
       let horizon = curCycle1 + 2 * H in
       Option.bind (guard (\<forall>c<curCycle1 + H. iw_ubWin s1 c = None)) (\<lambda>_.
       Some (s1\<lparr>iw_curWin := iw_nextWin s1, iw_curPos := 0,
                iw_nextWin := map (\<lambda>k. case iw_ubWin s1 (curCycle1 + H + k) of Some wc \<Rightarrow> wc | None \<Rightarrow> iw_curWin s1 ! k) [0..<H],
                iw_ubWin := (\<lambda>c. if c < horizon then None else iw_ubWin s1 c)\<rparr>, curCycle1))
     else Some (s1, curCycle1))"

partial_function (option) iw_drain :: "nat \<Rightarrow> nat \<Rightarrow> window \<Rightarrow> nat \<Rightarrow> (window \<times> nat) option" where
  "iw_drain H WSZ s curCycle =
     (if iw_occupancy s = WSZ then Option.bind (iw_advancePos H s curCycle) (\<lambda>(s', c'). iw_drain H WSZ s' c') else Some (s, curCycle))"

partial_function (option) iw_ub :: "bool \<Rightarrow> bool \<Rightarrow> u8 \<Rightarrow> window \<Rightarrow> nat \<Rightarrow> (window \<times> nat) option" where
  "iw_ub touchOccupancy recordPort portMask s schedCycle =
     (case iw_ubWin s schedCycle of
        None \<Rightarrow>
          Option.bind (guard (wc_avail portMask wc0 \<noteq> 0)) (\<lambda>_.
          Some ((iw_record recordPort portMask wc0 s)\<lparr>iw_ubWin := (iw_ubWin s)(schedCycle := Some (wc_take touchOccupancy portMask wc0))\<rparr>, schedCycle))
      | Some wc \<Rightarrow>
          if wc_avail portMask wc = 0 then iw_ub touchOccupancy recordPort portMask s (schedCycle + 1)
          else Some ((iw_record recordPort portMask wc s)\<lparr>iw_ubWin := (iw_ubWin s)(schedCycle := Some (wc_take touchOccupancy portMask wc))\<rparr>, schedCycle))"

definition iw_scheduleInternal :: "nat \<Rightarrow> nat \<Rightarrow> bool \<Rightarrow> bool \<Rightarrow> window \<Rightarrow> nat \<Rightarrow> nat \<Rightarrow> u8 \<Rightarrow> (window \<times> nat \<times> nat) option" where
  "iw_scheduleInternal H WSZ touchOccupancy recordPort s0 curCycle0 schedCycle portMask =
     Option.bind (if touchOccupancy then iw_drain H WSZ s0 curCycle0 else Some (s0, curCycle0)) (\<lambda>(s, curCycle).
     let delay = (if schedCycle > curCycle then (schedCycle - curCycle) mod 2 ^ 32 else 0);
         curWinPos = (iw_curPos s + delay) mod 2 ^ 32; free = (\<lambda>win p. wc_avail portMask (win ! p) \<noteq> 0) in
     Option.bind
       (case List.find (free (iw_curWin s)) [curWinPos..<H] of
          Some p \<Rightarrow> Some ((iw_record recordPort portMask (iw_curWin s ! p) s)
              \<lparr>iw_curWin := (iw_curWin s)[p := wc_take touchOccupancy portMask (iw_curWin s ! p)]\<rparr>, curCycle + (p - iw_curPos s))
        | None \<Rightarrow>
            let nextWinPos = max curWinPos H - H in
            case List.find (free (iw_nextWin s)) [nextWinPos..<H] of
              Some p \<Rightarrow> Some ((iw_record recordPort portMask (iw_nextWin s ! p) s)
                  \<lparr>iw_nextWin := (iw_nextWin s)[p := wc_take touchOccupancy portMask (iw_nextWin s ! p)]\<rparr>, curCycle + (p + H - iw_curPos s))
            | None \<Rightarrow> iw_ub touchOccupancy recordPort portMask s (curCycle + (max nextWinPos H + H - iw_curPos s))) (\<lambda>(s1, schedCycle1).
     Some (if touchOccupancy then s1\<lparr>iw_occupancy := iw_occupancy s1 + 1\<rparr> else s1, curCycle, schedCycle1)))"

text \<open>The extra slots of \<open>schedule\<close>, on the port of the instruction.\<close>

primrec iw_extra :: "nat \<Rightarrow> nat \<Rightarrow> u8 \<Rightarrow> nat \<Rightarrow> window \<Rightarrow> nat \<Rightarrow> nat \<Rightarrow> (window \<times> nat) option" where
  "iw_extra H WSZ portMask 0 s curCycle extraSlotCycle = Some (s, curCycle)"
| "iw_extra H WSZ portMask (Suc n) s curCycle extraSlotCycle =
     Option.bind (iw_scheduleInternal H WSZ False False s curCycle extraSlotCycle portMask) (\<lambda>(s', cur', c').
     iw_extra H WSZ portMask n s' cur' (c' + 1))"

definition iw_schedule :: "nat \<Rightarrow> nat \<Rightarrow> window \<Rightarrow> nat \<Rightarrow> nat \<Rightarrow> u8 \<Rightarrow> nat \<Rightarrow> (window \<times> nat \<times> nat) option" where
  "iw_schedule H WSZ s curCycle schedCycle portMask extraSlots =
     Option.bind
       (if extraSlots = 0 then iw_scheduleInternal H WSZ True False s curCycle schedCycle portMask
        else
          Option.bind (iw_scheduleInternal H WSZ True True s curCycle schedCycle portMask) (\<lambda>(s1, cur1, sched1).
          Option.bind (iw_extra H WSZ (push_bit (iw_lastPort s1) 1) extraSlots s1 cur1 (sched1 + 1)) (\<lambda>(s2, cur2).
          Some (s2, cur2, sched1)))) (\<lambda>(s3, cur3, sched3).
     Option.bind (guard (iw_occupancy s3 \<le> WSZ)) (\<lambda>_. Some (s3, cur3, sched3)))"

partial_function (option) iw_empty :: "nat \<Rightarrow> window \<Rightarrow> nat \<Rightarrow> nat \<Rightarrow> (window \<times> nat) option" where
  "iw_empty H s curCycle targetCycle =
     (if iw_occupancy s \<noteq> 0 \<and> curCycle < targetCycle
      then Option.bind (iw_advancePos H s curCycle) (\<lambda>(s', c'). iw_empty H s' c' targetCycle) else Some (s, curCycle))"

definition iw_longAdvance :: "nat \<Rightarrow> window \<Rightarrow> nat \<Rightarrow> nat \<Rightarrow> (window \<times> nat) option" where
  "iw_longAdvance H s curCycle targetCycle =
     Option.bind (guard (curCycle \<le> targetCycle)) (\<lambda>_.
     Option.bind (iw_empty H s curCycle targetCycle) (\<lambda>(s', c').
     if iw_occupancy s' \<noteq> 0 then Option.bind (guard (c' = targetCycle)) (\<lambda>_. Some (s', c'))
     else Option.bind (guard (c' \<le> targetCycle)) (\<lambda>_. Some (s', targetCycle))))"

partial_function (option) iw_poison :: "nat \<Rightarrow> nat \<Rightarrow> window \<Rightarrow> nat \<Rightarrow> nat \<Rightarrow> nat \<Rightarrow> u8 \<Rightarrow> (window \<times> nat) option" where
  "iw_poison H WSZ s curCycle poisonCycle targetCycle portMask =
     (if poisonCycle < targetCycle
      then Option.bind (iw_scheduleInternal H WSZ False False s curCycle poisonCycle portMask) (\<lambda>(s', cur', c').
        iw_poison H WSZ s' cur' c' targetCycle portMask)
      else Some (s, curCycle))"

definition iw_poisonRange :: "nat \<Rightarrow> nat \<Rightarrow> window \<Rightarrow> nat \<Rightarrow> nat \<Rightarrow> u8 \<Rightarrow> (window \<times> nat) option" where
  "iw_poisonRange H WSZ s curCycle targetCycle portMask =
     Option.bind (iw_poison H WSZ s curCycle curCycle targetCycle portMask) (\<lambda>(s', c').
     Option.bind (guard (c' = curCycle)) (\<lambda>_. Some (s', c')))"

section \<open>The calendar that the arrays and the map hold\<close>

text \<open>What the window holds for each cycle from the current one on.\<close>

definition iw_cal :: "nat \<Rightarrow> window \<Rightarrow> nat \<Rightarrow> nat \<Rightarrow> wincycle" where
  "iw_cal H s cur c =
     (if c < cur then wc0
      else let k = iw_curPos s + (c - cur) in
           if k < H then iw_curWin s ! k else if k < 2 * H then iw_nextWin s ! (k - H)
           else (case iw_ubWin s c of None \<Rightarrow> wc0 | Some wc \<Rightarrow> wc))"

definition iw_load :: "window \<Rightarrow> nat" where
  "iw_load s = sum_list (map wc_count (iw_curWin s)) + sum_list (map wc_count (iw_nextWin s)) +
     (\<Sum>c\<in>dom (iw_ubWin s). wc_count (the (iw_ubWin s c)))"

text \<open>The arrays are laid out as the code relies on: the passed cycles are cleared, and the map only holds cycles that are
  out of reach of the arrays, each with a port taken.\<close>

definition iw_shape :: "nat \<Rightarrow> window \<Rightarrow> nat \<Rightarrow> bool" where
  "iw_shape H s cur \<longleftrightarrow> length (iw_curWin s) = H \<and> length (iw_nextWin s) = H \<and> iw_curPos s < H \<and> finite (dom (iw_ubWin s)) \<and>
     (\<forall>k<iw_curPos s. iw_curWin s ! k = wc0) \<and> (\<forall>c. iw_ubWin s c \<noteq> None \<longrightarrow> cur + 2 * H \<le> c + iw_curPos s) \<and>
     (\<forall>c. iw_ubWin s c \<noteq> Some wc0)"

text \<open>The counter of a cycle counts different ports, so that it fits its eight bits.\<close>

definition wc_ok :: "wincycle \<Rightarrow> bool" where
  "wc_ok wc \<longleftrightarrow> wc_count wc \<le> card {n. bit (wc_occUnits wc) n}"

definition iw_inv :: "nat \<Rightarrow> nat \<Rightarrow> window \<Rightarrow> nat \<Rightarrow> bool" where
  "iw_inv H WSZ s cur \<longleftrightarrow> iw_shape H s cur \<and> iw_occupancy s = iw_load s \<and> iw_occupancy s \<le> WSZ \<and> (\<forall>c. wc_ok (iw_cal H s cur c))"

lemma wc_count_wc0 [simp]: "wc_count wc0 = 0"
  by (simp add: wc0_def)

lemma iw_cal_past: "c < cur \<Longrightarrow> iw_cal H s cur c = wc0"
  by (simp add: iw_cal_def)

lemma iw_new_inv: "0 < H \<Longrightarrow> iw_inv H WSZ (iw_new H) cur \<and> iw_cal H (iw_new H) cur = (\<lambda>_. wc0)"
  by (auto simp: iw_inv_def iw_shape_def iw_load_def iw_new_def iw_cal_def wc_ok_def Let_def fun_eq_iff sum_list_replicate)

subsection \<open>Ports\<close>

lemma first_bit_bit:
  assumes "w \<noteq> 0"
  shows "bit w (first_bit w) \<and> first_bit w < 8 \<and> (\<forall>j<first_bit w. \<not> bit w j)"
proof -
  obtain n where n: "bit w n" using assms by (auto simp: bit_eq_iff)
  have "n < 8" using n bit_imp_le_length [of w n] by simp
  then obtain i where i: "List.find (bit w) [0..<8] = Some i" using find_ex [of n "[0..<8]" "bit w"] n by auto
  from find_upt [OF i] show ?thesis by (simp add: first_bit_def i)
qed

lemma card_bits_le: "card {n. bit (w :: u8) n} \<le> 8"
proof -
  have "{n. bit w n} \<subseteq> {..<8}" using bit_imp_le_length [of w] by auto
  from card_mono [OF _ this] show ?thesis by simp
qed

lemma finite_bits: "finite {n. bit (w :: u8) n}"
  by (rule finite_subset [of _ "{..<8}"]) (use bit_imp_le_length [of w] in auto)

lemma wc_ok_count: "wc_ok wc \<Longrightarrow> wc_count wc \<le> 8"
  using card_bits_le [of "wc_occUnits wc"] by (simp add: wc_ok_def)

lemma wc_take_count: "wc_count (wc_take t m wc) = wc_count wc + (if t then 1 else 0)"
  by (simp add: wc_take_def)

lemma wc_ok_take:
  assumes ok: "wc_ok wc" and av: "wc_avail m wc \<noteq> 0"
  shows "wc_ok (wc_take t m wc)"
proof (cases t)
  case True
  let ?i = "first_bit (wc_avail m wc)" and ?o = "wc_occUnits wc"
  have i: "bit (wc_avail m wc) ?i" "?i < 8" using first_bit_bit [OF av] by simp_all
  have no: "\<not> bit ?o ?i" using i(1) by (simp add: wc_avail_def bit_and_iff bit_not_iff)
  have "{n. bit (?o OR push_bit ?i 1) n} = insert ?i {n. bit ?o n}"
    using i(2) by (auto simp: bit_or_iff bit_exp_iff)
  then have "card {n. bit (?o OR push_bit ?i 1) n} = Suc (card {n. bit ?o n})"
    using no finite_bits [of ?o] by simp
  then show ?thesis using ok True by (simp add: wc_ok_def wc_take_def)
next
  case False
  have "card {n. bit (wc_occUnits wc) n} \<le> card {n. bit (wc_occUnits wc OR m) n}"
    by (intro card_mono finite_bits) (auto simp: bit_or_iff)
  then show ?thesis using ok False by (simp add: wc_ok_def wc_take_def)
qed

subsection \<open>Changing one cycle\<close>

lemma sum_list_update_count:
  "p < length ws \<Longrightarrow> sum_list (map wc_count (ws[p := w])) + wc_count (ws ! p) = sum_list (map wc_count ws) + wc_count w"
proof (induction ws arbitrary: p)
  case (Cons v ws)
  then show ?case by (cases p) auto
qed simp

lemma iw_put_curWin:
  fixes s :: window and w :: wincycle
  assumes sh: "iw_shape H s cur" and p: "iw_curPos s \<le> p" "p < H"
  defines "s' \<equiv> s\<lparr>iw_curWin := (iw_curWin s)[p := w]\<rparr>" and "c \<equiv> cur + (p - iw_curPos s)"
  shows "iw_shape H s' cur" and "iw_cal H s' cur = (iw_cal H s cur)(c := w)" and "iw_cal H s cur c = iw_curWin s ! p"
    and "iw_load s' + wc_count (iw_cal H s cur c) = iw_load s + wc_count w"
proof -
  have len: "length (iw_curWin s) = H" using sh by (simp add: iw_shape_def)
  show "iw_shape H s' cur" using sh p by (auto simp: iw_shape_def s'_def)
  show at: "iw_cal H s cur c = iw_curWin s ! p" using p by (simp add: iw_cal_def c_def)
  show "iw_cal H s' cur = (iw_cal H s cur)(c := w)"
    using p len by (auto simp: fun_eq_iff iw_cal_def s'_def c_def Let_def nth_list_update)
  show "iw_load s' + wc_count (iw_cal H s cur c) = iw_load s + wc_count w"
    unfolding at using sum_list_update_count [of p "iw_curWin s" w] len p by (simp add: iw_load_def s'_def)
qed

lemma iw_put_nextWin:
  fixes s :: window and w :: wincycle
  assumes sh: "iw_shape H s cur" and p: "p < H"
  defines "s' \<equiv> s\<lparr>iw_nextWin := (iw_nextWin s)[p := w]\<rparr>" and "c \<equiv> cur + (p + H - iw_curPos s)"
  shows "iw_shape H s' cur" and "iw_cal H s' cur = (iw_cal H s cur)(c := w)" and "iw_cal H s cur c = iw_nextWin s ! p"
    and "iw_load s' + wc_count (iw_cal H s cur c) = iw_load s + wc_count w"
proof -
  have len: "length (iw_nextWin s) = H" and pos: "iw_curPos s < H" using sh by (simp_all add: iw_shape_def)
  show "iw_shape H s' cur" using sh by (auto simp: iw_shape_def s'_def)
  show at: "iw_cal H s cur c = iw_nextWin s ! p" using p pos by (simp add: iw_cal_def c_def)
  show "iw_cal H s' cur = (iw_cal H s cur)(c := w)"
  proof
    fix x
    have "iw_curPos s + (x - cur) - H = p \<longleftrightarrow> x = c" if "cur \<le> x" "H \<le> iw_curPos s + (x - cur)"
      using that pos by (auto simp: c_def)
    moreover have "iw_curPos s + (c - cur) = p + H" using pos by (simp add: c_def)
    moreover have "cur \<le> c" by (simp add: c_def)
    ultimately show "iw_cal H s' cur x = ((iw_cal H s cur)(c := w)) x"
      using p len by (auto simp: iw_cal_def s'_def Let_def nth_list_update)
  qed
  show "iw_load s' + wc_count (iw_cal H s cur c) = iw_load s + wc_count w"
    unfolding at using sum_list_update_count [of p "iw_nextWin s" w] len p by (simp add: iw_load_def s'_def)
qed

lemma iw_cal_ub:
  assumes "iw_shape H s cur" and "cur + 2 * H \<le> c + iw_curPos s"
  shows "iw_cal H s cur c = (case iw_ubWin s c of None \<Rightarrow> wc0 | Some wc \<Rightarrow> wc)"
  using assms by (auto simp: iw_cal_def iw_shape_def Let_def)

lemma wc_take_not_wc0: "wc_avail m wc \<noteq> 0 \<Longrightarrow> wc_take t m wc \<noteq> wc0"
  by (cases wc) (auto simp: wc_take_def wc0_def wc_avail_def or_eq_0_iff)

lemma iw_put_ubWin:
  fixes s :: window and w :: wincycle
  assumes sh: "iw_shape H s cur" and c: "cur + 2 * H \<le> c + iw_curPos s" and w: "w \<noteq> wc0"
  defines "s' \<equiv> s\<lparr>iw_ubWin := (iw_ubWin s)(c := Some w)\<rparr>"
  shows "iw_shape H s' cur" and "iw_cal H s' cur = (iw_cal H s cur)(c := w)"
    and "iw_cal H s cur c = (case iw_ubWin s c of None \<Rightarrow> wc0 | Some wc \<Rightarrow> wc)"
    and "iw_load s' + wc_count (iw_cal H s cur c) = iw_load s + wc_count w"
proof -
  have pos: "iw_curPos s < H" and fin: "finite (dom (iw_ubWin s))" using sh by (simp_all add: iw_shape_def)
  then have k: "cur \<le> c" "2 * H \<le> iw_curPos s + (c - cur)" using c by simp_all
  show "iw_shape H s' cur" using sh c w by (auto simp: iw_shape_def s'_def)
  show at: "iw_cal H s cur c = (case iw_ubWin s c of None \<Rightarrow> wc0 | Some wc \<Rightarrow> wc)" by (rule iw_cal_ub [OF sh c])
  show "iw_cal H s' cur = (iw_cal H s cur)(c := w)"
    using k by (auto simp: fun_eq_iff iw_cal_def s'_def Let_def)
  have "(\<Sum>x\<in>insert c (dom (iw_ubWin s)). wc_count (the (((iw_ubWin s)(c := Some w)) x))) =
      wc_count w + (\<Sum>x\<in>dom (iw_ubWin s) - {c}. wc_count (the (iw_ubWin s x)))"
    using fin by (subst sum.insert_remove) (auto intro!: arg_cong2 [of _ _ _ _ "(+)"] sum.cong)
  moreover have "(\<Sum>x\<in>dom (iw_ubWin s). wc_count (the (iw_ubWin s x))) =
      wc_count (iw_cal H s cur c) + (\<Sum>x\<in>dom (iw_ubWin s) - {c}. wc_count (the (iw_ubWin s x)))"
  proof (cases "c \<in> dom (iw_ubWin s)")
    case True
    then show ?thesis unfolding at using fin by (subst sum.remove) auto
  next
    case False
    then show ?thesis unfolding at by (auto simp: domIff)
  qed
  moreover have "dom (iw_ubWin s') = insert c (dom (iw_ubWin s))" by (simp add: s'_def)
  ultimately show "iw_load s' + wc_count (iw_cal H s cur c) = iw_load s + wc_count w"
    by (simp add: iw_load_def s'_def)
qed

section \<open>Scheduling takes the first cycle with a free port\<close>

definition first_free :: "u8 \<Rightarrow> (nat \<Rightarrow> wincycle) \<Rightarrow> nat \<Rightarrow> nat \<Rightarrow> bool" where
  "first_free m cal c c' \<longleftrightarrow> c \<le> c' \<and> wc_avail m (cal c') \<noteq> 0 \<and> (\<forall>x. c \<le> x \<longrightarrow> x < c' \<longrightarrow> wc_avail m (cal x) = 0)"

text \<open>A request from cycle \<open>c\<close> on is placed in cycle \<open>c'\<close>, and nothing else changes.\<close>

definition iw_placed :: "nat \<Rightarrow> nat \<Rightarrow> bool \<Rightarrow> bool \<Rightarrow> u8 \<Rightarrow> window \<Rightarrow> window \<Rightarrow> nat \<Rightarrow> nat \<Rightarrow> bool" where
  "iw_placed H cur t r m s s' c c' \<longleftrightarrow> first_free m (iw_cal H s cur) c c' \<and> iw_shape H s' cur \<and>
     iw_cal H s' cur = (iw_cal H s cur)(c' := wc_take t m (iw_cal H s cur c')) \<and>
     iw_load s' = iw_load s + (if t then 1 else 0) \<and> iw_occupancy s' = iw_occupancy s \<and>
     iw_lastPort s' = (if r then first_bit (wc_avail m (iw_cal H s cur c')) else iw_lastPort s)"

lemma iw_record_simps [simp]:
  "iw_shape H (iw_record r m wc s) = iw_shape H s" "iw_cal H (iw_record r m wc s) = iw_cal H s"
  "iw_load (iw_record r m wc s) = iw_load s" "iw_occupancy (iw_record r m wc s) = iw_occupancy s"
  "iw_lastPort (iw_record r m wc s) = (if r then first_bit (wc_avail m wc) else iw_lastPort s)"
  by (auto simp: iw_record_def iw_shape_def iw_cal_def iw_load_def fun_eq_iff Let_def)

lemma iw_record_put:
  "(iw_record r m wc s)\<lparr>iw_curWin := ws\<rparr> = iw_record r m wc (s\<lparr>iw_curWin := ws\<rparr>)"
  "(iw_record r m wc s)\<lparr>iw_nextWin := ws\<rparr> = iw_record r m wc (s\<lparr>iw_nextWin := ws\<rparr>)"
  "(iw_record r m wc s)\<lparr>iw_ubWin := u\<rparr> = iw_record r m wc (s\<lparr>iw_ubWin := u\<rparr>)"
  by (simp_all add: iw_record_def)

lemma wc_avail_wc0 [simp]: "wc_avail m wc0 = m"
  by (simp add: wc_avail_def wc0_def)

lemma first_freeI: "c \<le> c' \<Longrightarrow> wc_avail m (cal c') \<noteq> 0 \<Longrightarrow> (\<And>x. c \<le> x \<Longrightarrow> x < c' \<Longrightarrow> wc_avail m (cal x) = 0) \<Longrightarrow> first_free m cal c c'"
  by (simp add: first_free_def)

lemma first_free_earlier:
  "first_free m cal c c' \<Longrightarrow> b \<le> c \<Longrightarrow> (\<And>x. b \<le> x \<Longrightarrow> x < c \<Longrightarrow> wc_avail m (cal x) = 0) \<Longrightarrow> first_free m cal b c'"
  by (auto simp: first_free_def dest: not_less [THEN iffD1])

lemma iw_placed_earlier:
  "iw_placed H cur t r m s s' c c' \<Longrightarrow> b \<le> c \<Longrightarrow> (\<And>x. b \<le> x \<Longrightarrow> x < c \<Longrightarrow> wc_avail m (iw_cal H s cur x) = 0) \<Longrightarrow>
   iw_placed H cur t r m s s' b c'"
  unfolding iw_placed_def using first_free_earlier by blast

lemma iw_put_placed:
  assumes "first_free m (iw_cal H s cur) c c'"
    and "iw_shape H s1 cur" and "iw_cal H s1 cur = (iw_cal H s cur)(c' := wc_take t m (iw_cal H s cur c'))"
    and "iw_load s1 + wc_count (iw_cal H s cur c') = iw_load s + wc_count (wc_take t m (iw_cal H s cur c'))"
    and "iw_occupancy s1 = iw_occupancy s" and "iw_lastPort s1 = iw_lastPort s"
  shows "iw_placed H cur t r m s (iw_record r m (iw_cal H s cur c') s1) c c'"
  using assms by (simp add: iw_placed_def wc_take_count)

lemma iw_ub_here:
  assumes sh: "iw_shape H s cur" and c: "cur + 2 * H \<le> c + iw_curPos s" and av: "wc_avail m (iw_cal H s cur c) \<noteq> 0"
  shows "\<exists>s'. iw_ub t r m s c = Some (s', c) \<and> iw_placed H cur t r m s s' c c"
proof -
  let ?wc = "iw_cal H s cur c"
  note put = iw_put_ubWin [OF sh c wc_take_not_wc0 [OF av, of t]]
  have "iw_ub t r m s c = Some (iw_record r m ?wc (s\<lparr>iw_ubWin := (iw_ubWin s)(c := Some (wc_take t m ?wc))\<rparr>), c)"
    using av unfolding put(3) by (subst iw_ub.simps) (simp add: iw_record_put split: option.splits)
  moreover have "first_free m (iw_cal H s cur) c c" using av by (simp add: first_free_def)
  from iw_put_placed [OF this put(1,2,4)]
  have "iw_placed H cur t r m s (iw_record r m ?wc (s\<lparr>iw_ubWin := (iw_ubWin s)(c := Some (wc_take t m ?wc))\<rparr>)) c c" by simp
  ultimately show ?thesis by blast
qed

lemma iw_ub_places:
  assumes sh: "iw_shape H s cur" and c: "cur + 2 * H \<le> c + iw_curPos s" and m: "m \<noteq> 0"
  shows "\<exists>s' c'. iw_ub t r m s c = Some (s', c') \<and> iw_placed H cur t r m s s' c c'"
proof -
  have "finite (dom (iw_ubWin s))" using sh by (simp add: iw_shape_def)
  then obtain b where b: "\<forall>x\<in>dom (iw_ubWin s). x < b" by (meson finite_nat_set_iff_bounded)
  have "iw_ubWin s (max b c) = None" using b by (metis domIff max.cobounded1 not_less)
  then obtain e where e: "c \<le> e" "iw_ubWin s e = None" by (metis max.cobounded2)
  show ?thesis
    using c e(1)
  proof (induction "e - c" arbitrary: c)
    case 0
    have "iw_cal H s cur c = wc0" unfolding iw_cal_ub [OF sh "0.prems"(1)] using "0" e(2) by simp
    then have "wc_avail m (iw_cal H s cur c) \<noteq> 0" using m by simp
    from iw_ub_here [OF sh "0.prems"(1) this] show ?case by blast
  next
    case (Suc n)
    show ?case
    proof (cases "wc_avail m (iw_cal H s cur c) = 0")
      case True
      have "\<exists>s' c'. iw_ub t r m s (c + 1) = Some (s', c') \<and> iw_placed H cur t r m s s' (c + 1) c'"
        by (rule Suc.hyps(1)) (use Suc.hyps(2) Suc.prems in auto)
      then obtain s' c' where r: "iw_ub t r m s (c + 1) = Some (s', c')" "iw_placed H cur t r m s s' (c + 1) c'" by blast
      have "iw_placed H cur t r m s s' c c'"
        by (rule iw_placed_earlier [OF r(2)]) (use True in \<open>auto simp: less_Suc_eq_le dest: le_antisym\<close>)
      moreover have "iw_ub t r m s c = Some (s', c')"
        using True m r(1) unfolding iw_cal_ub [OF sh Suc.prems(1)] by (subst iw_ub.simps) (simp split: option.splits)
      ultimately show ?thesis by blast
    next
      case False
      from iw_ub_here [OF sh Suc.prems(1) False] show ?thesis by blast
    qed
  qed
qed

text \<open>The search of \<open>scheduleInternal\<close>, after the window has been drained.\<close>

definition iw_search :: "nat \<Rightarrow> bool \<Rightarrow> bool \<Rightarrow> u8 \<Rightarrow> window \<Rightarrow> nat \<Rightarrow> nat \<Rightarrow> (window \<times> nat) option" where
  "iw_search H t r m s cur P =
     (let free = (\<lambda>win p. wc_avail m (win ! p) \<noteq> 0) in
      case List.find (free (iw_curWin s)) [P..<H] of
        Some p \<Rightarrow> Some ((iw_record r m (iw_curWin s ! p) s)\<lparr>iw_curWin := (iw_curWin s)[p := wc_take t m (iw_curWin s ! p)]\<rparr>,
          cur + (p - iw_curPos s))
      | None \<Rightarrow>
          let N = max P H - H in
          case List.find (free (iw_nextWin s)) [N..<H] of
            Some p \<Rightarrow> Some ((iw_record r m (iw_nextWin s ! p) s)\<lparr>iw_nextWin := (iw_nextWin s)[p := wc_take t m (iw_nextWin s ! p)]\<rparr>,
              cur + (p + H - iw_curPos s))
          | None \<Rightarrow> iw_ub t r m s (cur + (max N H + H - iw_curPos s)))"

lemma iw_scheduleInternal_search:
  "iw_scheduleInternal H WSZ t r s0 cur0 sched m =
     Option.bind (if t then iw_drain H WSZ s0 cur0 else Some (s0, cur0)) (\<lambda>(s, cur).
     Option.bind (iw_search H t r m s cur ((iw_curPos s + (if sched > cur then (sched - cur) mod 2 ^ 32 else 0)) mod 2 ^ 32)) (\<lambda>(s1, c).
     Some (if t then s1\<lparr>iw_occupancy := iw_occupancy s1 + 1\<rparr> else s1, cur, c)))"
  by (simp add: iw_scheduleInternal_def iw_search_def Let_def)

lemma iw_search_places:
  assumes sh: "iw_shape H s cur" and m: "m \<noteq> 0"
  shows "\<exists>s' c. iw_search H t r m s cur (iw_curPos s + d) = Some (s', c) \<and> iw_placed H cur t r m s s' (cur + d) c"
proof -
  let ?P = "iw_curPos s + d" and ?N = "max (iw_curPos s + d) H - H" and ?cal = "iw_cal H s cur"
  have pos: "iw_curPos s < H" using sh by (simp add: iw_shape_def)
  have c1: "?cal x = iw_curWin s ! (iw_curPos s + (x - cur))" if "cur \<le> x" "iw_curPos s + (x - cur) < H" for x
    using that by (simp add: iw_cal_def)
  have c2: "?cal x = iw_nextWin s ! (iw_curPos s + (x - cur) - H)"
    if "cur \<le> x" "H \<le> iw_curPos s + (x - cur)" "iw_curPos s + (x - cur) < 2 * H" for x
    using that by (simp add: iw_cal_def)
  show ?thesis
  proof (cases "List.find (\<lambda>p. wc_avail m (iw_curWin s ! p) \<noteq> 0) [?P..<H]")
    case (Some p)
    from find_upt_from [OF Some] have p: "?P \<le> p" "p < H" "wc_avail m (iw_curWin s ! p) \<noteq> 0"
      and no: "\<And>j. ?P \<le> j \<Longrightarrow> j < p \<Longrightarrow> wc_avail m (iw_curWin s ! j) = 0" by auto
    have pp: "iw_curPos s \<le> p" using p(1) by simp
    note put = iw_put_curWin [OF sh pp p(2)]
    let ?c = "cur + (p - iw_curPos s)"
    have "first_free m ?cal (cur + d) ?c"
    proof (rule first_freeI)
      show "wc_avail m (?cal ?c) \<noteq> 0" unfolding put(3) by (rule p(3))
      show "wc_avail m (?cal x) = 0" if "cur + d \<le> x" "x < ?c" for x
        using that p(1,2) c1 [of x] no [of "iw_curPos s + (x - cur)"] by simp
    qed (use p(1) in simp)
    from iw_put_placed [OF this put(1,2,4), of _ r] show ?thesis
      unfolding put(3) by (simp add: iw_search_def Some iw_record_put)
  next
    case no1: None
    then have no1': "\<And>j. ?P \<le> j \<Longrightarrow> j < H \<Longrightarrow> wc_avail m (iw_curWin s ! j) = 0" by (simp add: find_None_iff_all)
    show ?thesis
    proof (cases "List.find (\<lambda>p. wc_avail m (iw_nextWin s ! p) \<noteq> 0) [?N..<H]")
      case (Some p)
      from find_upt_from [OF Some] have p: "?N \<le> p" "p < H" "wc_avail m (iw_nextWin s ! p) \<noteq> 0"
        and no: "\<And>j. ?N \<le> j \<Longrightarrow> j < p \<Longrightarrow> wc_avail m (iw_nextWin s ! j) = 0" by auto
      note put = iw_put_nextWin [OF sh p(2)]
      let ?c = "cur + (p + H - iw_curPos s)"
      have "first_free m ?cal (cur + d) ?c"
      proof (rule first_freeI)
        show "wc_avail m (?cal ?c) \<noteq> 0" unfolding put(3) by (rule p(3))
        show "wc_avail m (?cal x) = 0" if x: "cur + d \<le> x" "x < ?c" for x
        proof (cases "iw_curPos s + (x - cur) < H")
          case True
          then show ?thesis using x c1 [of x] no1' [of "iw_curPos s + (x - cur)"] by simp
        next
          case False
          then show ?thesis using x p(2) pos c2 [of x] no [of "iw_curPos s + (x - cur) - H"] by simp
        qed
      qed (use p(1) pos in simp)
      from iw_put_placed [OF this put(1,2,4), of _ r] show ?thesis
        unfolding put(3) by (simp add: iw_search_def no1 Some iw_record_put Let_def)
    next
      case no2: None
      then have no2': "\<And>j. ?N \<le> j \<Longrightarrow> j < H \<Longrightarrow> wc_avail m (iw_nextWin s ! j) = 0" by (simp add: find_None_iff_all)
      let ?c = "cur + (max ?N H + H - iw_curPos s)"
      have "cur + 2 * H \<le> ?c + iw_curPos s" using pos by simp
      from iw_ub_places [OF sh this m] obtain s' c' where
        r: "iw_ub t r m s ?c = Some (s', c')" "iw_placed H cur t r m s s' ?c c'" by blast
      have "iw_placed H cur t r m s s' (cur + d) c'"
      proof (rule iw_placed_earlier [OF r(2)])
        show "cur + d \<le> ?c" using pos by simp
        show "wc_avail m (?cal x) = 0" if x: "cur + d \<le> x" "x < ?c" for x
        proof (cases "iw_curPos s + (x - cur) < H")
          case True
          then show ?thesis using x c1 [of x] no1' [of "iw_curPos s + (x - cur)"] by simp
        next
          case False
          have "iw_curPos s + (x - cur) < 2 * H" using x by (auto simp: max_def split: if_splits)
          then show ?thesis using False x c2 [of x] no2' [of "iw_curPos s + (x - cur) - H"] by simp
        qed
      qed
      then show ?thesis using r(1) by (simp add: iw_search_def no1 no2 Let_def)
    qed
  qed
qed

section \<open>Advancing\<close>

definition ub_count :: "(nat \<Rightarrow> wincycle option) \<Rightarrow> nat \<Rightarrow> nat" where
  "ub_count u c = (case u c of None \<Rightarrow> 0 | Some wc \<Rightarrow> wc_count wc)"

lemma ub_count_sum: "(\<Sum>c\<in>dom u. wc_count (the (u c))) = sum (ub_count u) (dom u)"
  by (intro sum.cong) (auto simp: ub_count_def)

lemma ub_count_split:
  assumes fin: "finite (dom u)" and far: "\<And>c. u c \<noteq> None \<Longrightarrow> a \<le> c"
  shows "sum (ub_count u) (dom u) =
    (\<Sum>k<H. ub_count u (a + k)) + sum (ub_count (\<lambda>c. if c < a + H then None else u c)) (dom (\<lambda>c. if c < a + H then None else u c))"
proof -
  let ?u = "\<lambda>c. if c < a + H then None else u c"
  have d: "dom u = (dom u \<inter> {a..<a + H}) \<union> dom ?u" using far by (auto simp: dom_def split: if_splits)
  have "finite (dom ?u)" by (rule finite_subset [OF _ fin]) (auto split: if_splits)
  then have "sum (ub_count u) (dom u) = sum (ub_count u) (dom u \<inter> {a..<a + H}) + sum (ub_count u) (dom ?u)"
    by (subst d, intro sum.union_disjoint) (use fin in \<open>auto split: if_splits\<close>)
  moreover have "sum (ub_count u) (dom u \<inter> {a..<a + H}) = sum (ub_count u) {a..<a + H}"
    by (rule sum.mono_neutral_left) (auto simp: ub_count_def split: option.splits)
  moreover have "sum (ub_count u) {a..<a + H} = (\<Sum>k<H. ub_count u (a + k))"
    by (rule sum.reindex_bij_witness [of _ "\<lambda>k. a + k" "\<lambda>c. c - a"]) auto
  moreover have "sum (ub_count u) (dom ?u) = sum (ub_count ?u) (dom ?u)"
    by (intro sum.cong) (auto simp: ub_count_def split: if_splits)
  ultimately show ?thesis by simp
qed

lemma iw_cal_at:
  assumes "cur \<le> c" and "iw_curPos s + (c - cur) = k"
  shows "iw_cal H s cur c = (if k < H then iw_curWin s ! k else if k < 2 * H then iw_nextWin s ! (k - H)
    else (case iw_ubWin s c of None \<Rightarrow> wc0 | Some wc \<Rightarrow> wc))"
  using assms by (auto simp: iw_cal_def Let_def)

definition iw_advanced :: "nat \<Rightarrow> window \<Rightarrow> nat \<Rightarrow> window \<Rightarrow> bool" where
  "iw_advanced H s cur s' \<longleftrightarrow> iw_shape H s' (cur + 1) \<and> iw_cal H s' (cur + 1) = (iw_cal H s cur)(cur := wc0) \<and>
     iw_load s' + wc_count (iw_cal H s cur cur) = iw_load s \<and> iw_occupancy s' = iw_occupancy s - wc_count (iw_cal H s cur cur)"

lemma iw_advancePos_advances:
  assumes sh: "iw_shape H s cur"
  shows "\<exists>s'. iw_advancePos H s cur = Some (s', cur + 1) \<and> iw_advanced H s cur s'"
proof -
  define p where "p = iw_curPos s"
  have p: "p < H" and lenc: "length (iw_curWin s) = H" and lenn: "length (iw_nextWin s) = H" and fin: "finite (dom (iw_ubWin s))"
    and clr: "\<And>k. k < p \<Longrightarrow> iw_curWin s ! k = wc0" and far: "\<And>c. iw_ubWin s c \<noteq> None \<Longrightarrow> cur + 2 * H \<le> c + p"
    and nz: "\<And>c. iw_ubWin s c \<noteq> Some wc0"
    using sh by (auto simp: iw_shape_def p_def)
  have at: "iw_cal H s cur cur = iw_curWin s ! p" using p by (simp add: iw_cal_def p_def)
  let ?cw = "(iw_curWin s)[p := wc0]" and ?occ = "iw_occupancy s - wc_count (iw_curWin s ! p)"
  have ld: "sum_list (map wc_count ?cw) + wc_count (iw_curWin s ! p) = sum_list (map wc_count (iw_curWin s))"
    using sum_list_update_count [of p "iw_curWin s" wc0] p lenc by simp
  show ?thesis
  proof (cases "p + 1 = H")
    case False
    then have p1: "p + 1 < H" using p by simp
    let ?s = "s\<lparr>iw_occupancy := ?occ, iw_curWin := ?cw, iw_curPos := p + 1\<rparr>"
    have "iw_advancePos H s cur = Some (?s, cur + 1)" using p p1 lenc by (simp add: iw_advancePos_def p_def Let_def)
    moreover have "iw_shape H ?s (cur + 1)"
      using lenc lenn p1 fin clr far nz by (auto simp: iw_shape_def nth_list_update less_Suc_eq)
    moreover have "iw_cal H ?s (cur + 1) = (iw_cal H s cur)(cur := wc0)"
    proof
      fix c
      show "iw_cal H ?s (cur + 1) c = ((iw_cal H s cur)(cur := wc0)) c"
      proof (cases "cur < c")
        case True
        then have "p + 1 + (c - (cur + 1)) = p + (c - cur)" by simp
        then show ?thesis using True p lenc by (simp add: iw_cal_def p_def [symmetric] Let_def)
      qed (auto simp: iw_cal_def)
    qed
    ultimately show ?thesis using ld by (auto simp: iw_advanced_def at iw_load_def)
  next
    case True
    let ?u = "\<lambda>c. if c < cur + 1 + 2 * H then None else iw_ubWin s c"
    let ?f = "\<lambda>k. case iw_ubWin s (cur + 1 + H + k) of Some wc \<Rightarrow> wc | None \<Rightarrow> ?cw ! k"
    let ?s = "s\<lparr>iw_occupancy := ?occ, iw_curWin := iw_nextWin s, iw_curPos := 0, iw_nextWin := map ?f [0..<H], iw_ubWin := ?u\<rparr>"
    have far': "cur + 1 + H \<le> c" if "iw_ubWin s c \<noteq> None" for c using far [OF that] True by simp
    then have "\<forall>c<cur + 1 + H. iw_ubWin s c = None" by (meson not_le)
    then have "iw_advancePos H s cur = Some (?s, cur + 1)"
      using p lenc True by (simp add: iw_advancePos_def p_def Let_def cong: option.case_cong if_cong)
    moreover have "finite (dom ?u)" by (rule finite_subset [OF _ fin]) (auto split: if_splits)
    then have "iw_shape H ?s (cur + 1)" using lenn p nz by (auto simp: iw_shape_def split: if_splits)
    moreover have cw: "?cw ! k = wc0" if "k < H" for k
      using that True p clr [of k] lenc by (cases "k = p") auto
    have "iw_cal H ?s (cur + 1) = (iw_cal H s cur)(cur := wc0)"
    proof
      fix c
      show "iw_cal H ?s (cur + 1) c = ((iw_cal H s cur)(cur := wc0)) c"
      proof (cases "cur < c")
        case c: True
        define k where "k = c - (cur + 1)"
        have c': "c = cur + 1 + k" using c by (simp add: k_def)
        have kk: "p + (c - cur) = H + k" using True c' by simp
        have new: "iw_cal H ?s (cur + 1) c = (if k < H then iw_nextWin s ! k else if k < 2 * H then map ?f [0..<H] ! (k - H)
            else (case ?u c of None \<Rightarrow> wc0 | Some wc \<Rightarrow> wc))"
          using iw_cal_at [of "cur + 1" c ?s k H] c by (simp add: k_def)
        have old: "iw_cal H s cur c = (if k < H then iw_nextWin s ! k else (case iw_ubWin s c of None \<Rightarrow> wc0 | Some wc \<Rightarrow> wc))"
          using iw_cal_at [of cur c s "H + k" H] c kk by (simp add: p_def)
        have mp: "map ?f [0..<H] ! q = ?f q" if "q < H" for q using that by (simp cong: option.case_cong)
        have "map ?f [0..<H] ! (k - H) = ?f (k - H)" if "k < 2 * H" "H \<le> k"
          by (rule mp) (use that in linarith)
        moreover have "?f (k - H) = (case iw_ubWin s c of None \<Rightarrow> wc0 | Some wc \<Rightarrow> wc)" if "H \<le> k" "k < 2 * H"
          using cw [of "k - H"] that c' by (simp add: add.commute cong: option.case_cong)
        ultimately have "map ?f [0..<H] ! (k - H) = (case iw_ubWin s c of None \<Rightarrow> wc0 | Some wc \<Rightarrow> wc)" if "H \<le> k" "k < 2 * H"
          using that by argo
        moreover have "2 * H \<le> k \<Longrightarrow> ?u c = iw_ubWin s c" using c' by simp
        ultimately show ?thesis unfolding new using old c by (auto simp del: nth_map simp: not_less)
      qed (auto simp: iw_cal_def)
    qed
    moreover have "iw_load ?s + wc_count (iw_curWin s ! p) = iw_load s"
    proof -
      have "wc_count (?f k) = ub_count (iw_ubWin s) (cur + 1 + H + k)" if "k < H" for k
        using cw [OF that] by (simp add: ub_count_def split: option.splits)
      then have n: "sum_list (map wc_count (map ?f [0..<H])) = (\<Sum>k<H. ub_count (iw_ubWin s) (cur + 1 + H + k))"
        by (simp add: interv_sum_list_conv_sum_set_nat atLeast0LessThan)
      have "?cw = replicate H wc0" using cw lenc by (intro nth_equalityI) simp_all
      then have c: "sum_list (map wc_count ?cw) = 0" by (simp add: sum_list_replicate)
      have "cur + 1 + H + H = cur + 1 + 2 * H" by simp
      then have "sum (ub_count (iw_ubWin s)) (dom (iw_ubWin s)) =
          (\<Sum>k<H. ub_count (iw_ubWin s) (cur + 1 + H + k)) + sum (ub_count ?u) (dom ?u)"
        using ub_count_split [OF fin far', of H] by presburger
      then show ?thesis
        using n c ld unfolding iw_load_def ub_count_sum by (simp del: map_map sum_list_eq_0_iff)
    qed
    ultimately show ?thesis by (auto simp: iw_advanced_def at)
  qed
qed

section \<open>Operations on the calendar\<close>

definition cal_from :: "nat \<Rightarrow> (nat \<Rightarrow> wincycle) \<Rightarrow> nat \<Rightarrow> wincycle" where
  "cal_from cur cal c = (if c < cur then wc0 else cal c)"

lemma cal_from_self [simp]: "cal_from cur (iw_cal H s cur) = iw_cal H s cur"
  by (auto simp: fun_eq_iff cal_from_def iw_cal_past)

lemma cal_from_trans: "a \<le> b \<Longrightarrow> cal_from b (cal_from a cal) = cal_from b cal"
  by (auto simp: fun_eq_iff cal_from_def)

lemma wc_ok_wc0 [simp]: "wc_ok wc0"
  by (simp add: wc_ok_def)

lemma iw_load_zero:
  assumes sh: "iw_shape H s cur" and z: "\<And>c. cur \<le> c \<Longrightarrow> wc_count (iw_cal H s cur c) = 0"
  shows "iw_load s = 0"
proof -
  have pos: "iw_curPos s < H" and len: "length (iw_curWin s) = H" "length (iw_nextWin s) = H"
    and clr: "\<And>k. k < iw_curPos s \<Longrightarrow> iw_curWin s ! k = wc0"
    using sh by (auto simp: iw_shape_def)
  have 1: "wc_count (iw_curWin s ! k) = 0" if "k < H" for k
  proof (cases "k < iw_curPos s")
    case True
    then show ?thesis by (simp add: clr)
  next
    case False
    then show ?thesis using z [of "cur + (k - iw_curPos s)"] iw_put_curWin(3) [OF sh _ that] by simp
  qed
  have 2: "wc_count (iw_nextWin s ! k) = 0" if "k < H" for k
    using z [of "cur + (k + H - iw_curPos s)"] iw_put_nextWin(3) [OF sh that] by simp
  have 3: "wc_count (the (iw_ubWin s c)) = 0" if "c \<in> dom (iw_ubWin s)" for c
  proof -
    have c: "cur + 2 * H \<le> c + iw_curPos s" using that sh by (auto simp: iw_shape_def)
    then have "cur \<le> c" using pos by simp
    from z [OF this] show ?thesis using that unfolding iw_cal_ub [OF sh c] by (auto split: option.splits)
  qed
  show ?thesis using 1 2 3 len by (auto simp: iw_load_def in_set_conv_nth)
qed

lemma iw_load_pos: "iw_shape H s cur \<Longrightarrow> 0 < iw_load s \<Longrightarrow> \<exists>c\<ge>cur. 0 < wc_count (iw_cal H s cur c)"
  using iw_load_zero [of H s cur] by (metis neq0_conv)

lemma iw_advance_step:
  assumes inv: "iw_inv H WSZ s cur"
  shows "\<exists>s'. iw_advancePos H s cur = Some (s', cur + 1) \<and> iw_inv H WSZ s' (cur + 1) \<and>
    iw_cal H s' (cur + 1) = cal_from (cur + 1) (iw_cal H s cur) \<and>
    iw_occupancy s' + wc_count (iw_cal H s cur cur) = iw_occupancy s"
proof -
  obtain s' where s': "iw_advancePos H s cur = Some (s', cur + 1)" "iw_advanced H s cur s'"
    using iw_advancePos_advances [of H s cur] inv by (auto simp: iw_inv_def)
  have "iw_cal H s' (cur + 1) = cal_from (cur + 1) (iw_cal H s cur)"
    using s'(2) by (auto simp: iw_advanced_def fun_eq_iff cal_from_def less_Suc_eq iw_cal_past)
  moreover have "iw_occupancy s' = iw_load s'" "iw_occupancy s' + wc_count (iw_cal H s cur cur) = iw_occupancy s"
    using s'(2) inv by (auto simp: iw_advanced_def iw_inv_def)
  ultimately show ?thesis using s' inv by (auto simp: iw_inv_def iw_advanced_def)
qed

text \<open>Draining a full window ends, and passes no more than the first cycle with an operation.\<close>

lemma iw_drain_ends:
  assumes inv: "iw_inv H WSZ s cur" and w: "0 < WSZ"
  shows "\<exists>s' cur'. iw_drain H WSZ s cur = Some (s', cur') \<and> iw_inv H WSZ s' cur' \<and> iw_occupancy s' < WSZ \<and> cur \<le> cur' \<and>
    iw_cal H s' cur' = cal_from cur' (iw_cal H s cur) \<and> (\<forall>c. cur \<le> c \<longrightarrow> c + 1 < cur' \<longrightarrow> wc_count (iw_cal H s cur c) = 0) \<and>
    (iw_occupancy s < WSZ \<longrightarrow> s' = s \<and> cur' = cur) \<and> (iw_occupancy s = WSZ \<longrightarrow> cur < cur')"
proof (cases "iw_occupancy s = WSZ")
  case False
  then have "iw_drain H WSZ s cur = Some (s, cur)" by (subst iw_drain.simps) simp
  then show ?thesis using inv False by (auto simp: iw_inv_def)
next
  case True
  then obtain e where e: "cur \<le> e" "0 < wc_count (iw_cal H s cur e)"
    using iw_load_pos [of H s cur] inv w by (auto simp: iw_inv_def)
  have "\<exists>s' cur'. iw_drain H WSZ s cur = Some (s', cur') \<and> iw_inv H WSZ s' cur' \<and> iw_occupancy s' < WSZ \<and> cur < cur' \<and>
      iw_cal H s' cur' = cal_from cur' (iw_cal H s cur) \<and> (\<forall>c. cur \<le> c \<longrightarrow> c + 1 < cur' \<longrightarrow> wc_count (iw_cal H s cur c) = 0)"
    using inv True e
  proof (induction "e - cur" arbitrary: s cur)
    case 0
    then have "e = cur" by simp
    obtain s1 where s1: "iw_advancePos H s cur = Some (s1, cur + 1)" "iw_inv H WSZ s1 (cur + 1)"
        "iw_cal H s1 (cur + 1) = cal_from (cur + 1) (iw_cal H s cur)"
        "iw_occupancy s1 + wc_count (iw_cal H s cur cur) = iw_occupancy s"
      using iw_advance_step [OF "0.prems"(1)] by blast
    have o: "iw_occupancy s1 < WSZ" using s1(4) "0.prems"(2,4) \<open>e = cur\<close> by simp
    then have "iw_drain H WSZ s1 (cur + 1) = Some (s1, cur + 1)" by (subst iw_drain.simps) simp
    then have "iw_drain H WSZ s cur = Some (s1, cur + 1)" using "0.prems"(2) s1(1) by (subst iw_drain.simps) simp
    then show ?case using s1 o by auto
  next
    case (Suc n)
    obtain s1 where s1: "iw_advancePos H s cur = Some (s1, cur + 1)" "iw_inv H WSZ s1 (cur + 1)"
        "iw_cal H s1 (cur + 1) = cal_from (cur + 1) (iw_cal H s cur)"
        "iw_occupancy s1 + wc_count (iw_cal H s cur cur) = iw_occupancy s"
      using iw_advance_step [OF Suc.prems(1)] by blast
    have d: "iw_drain H WSZ s cur = iw_drain H WSZ s1 (cur + 1)" using Suc.prems(2) s1(1) by (subst iw_drain.simps) simp
    show ?case
    proof (cases "iw_occupancy s1 = WSZ")
      case False
      then have "iw_occupancy s1 < WSZ" using s1(2) by (simp add: iw_inv_def)
      moreover have "iw_drain H WSZ s1 (cur + 1) = Some (s1, cur + 1)" using False by (subst iw_drain.simps) simp
      ultimately show ?thesis using s1 d by auto
    next
      case True
      have "wc_count (iw_cal H s cur cur) = 0" using s1(4) True Suc.prems(2) by simp
      moreover have "\<exists>s' cur'. iw_drain H WSZ s1 (cur + 1) = Some (s', cur') \<and> iw_inv H WSZ s' cur' \<and> iw_occupancy s' < WSZ \<and> cur + 1 < cur' \<and>
          iw_cal H s' cur' = cal_from cur' (iw_cal H s1 (cur + 1)) \<and>
          (\<forall>c. cur + 1 \<le> c \<longrightarrow> c + 1 < cur' \<longrightarrow> wc_count (iw_cal H s1 (cur + 1) c) = 0)"
        by (rule Suc.hyps(1)) (use Suc.hyps(2) Suc.prems s1 True in \<open>auto simp: cal_from_def\<close>)
      then obtain s' cur' where s': "iw_drain H WSZ s1 (cur + 1) = Some (s', cur')" "iw_inv H WSZ s' cur'" "iw_occupancy s' < WSZ"
          "cur + 1 < cur'" "iw_cal H s' cur' = cal_from cur' (iw_cal H s1 (cur + 1))"
          "\<forall>c. cur + 1 \<le> c \<longrightarrow> c + 1 < cur' \<longrightarrow> wc_count (iw_cal H s1 (cur + 1) c) = 0"
        by blast
      have "iw_cal H s' cur' = cal_from cur' (iw_cal H s cur)" unfolding s'(5) s1(3) using s'(4) by (intro cal_from_trans) simp
      moreover have "wc_count (iw_cal H s cur c) = 0" if "cur \<le> c" "c + 1 < cur'" for c
        using that s'(6) calculation(1) unfolding s1(3) by (cases "c = cur") (auto simp: cal_from_def)
      ultimately show ?thesis using s' d by auto
    qed
  qed
  then show ?thesis using True by auto
qed

section \<open>Scheduling\<close>

lemma iw_internal_places:
  assumes inv: "iw_inv H WSZ s cur" and w: "0 < WSZ" and m: "m \<noteq> 0" and H: "H \<le> 2 ^ 31" and sched: "sched \<le> cur + 2 ^ 31"
  shows "\<exists>s' cur' c. iw_scheduleInternal H WSZ t r s cur sched m = Some (s', cur', c) \<and> iw_inv H WSZ s' cur' \<and>
    cur \<le> cur' \<and> first_free m (iw_cal H s cur) (max cur' sched) c \<and>
    iw_cal H s' cur' = (cal_from cur' (iw_cal H s cur))(c := wc_take t m (iw_cal H s cur c)) \<and>
    (r \<longrightarrow> iw_lastPort s' = first_bit (wc_avail m (iw_cal H s cur c))) \<and>
    (\<forall>x. cur \<le> x \<longrightarrow> x + 1 < cur' \<longrightarrow> wc_count (iw_cal H s cur x) = 0) \<and>
    (iw_occupancy s < WSZ \<or> \<not> t \<longrightarrow> cur' = cur) \<and> (iw_occupancy s = WSZ \<and> t \<longrightarrow> cur < cur')"
proof -
  obtain s1 cur1 where d: "(if t then iw_drain H WSZ s cur else Some (s, cur)) = Some (s1, cur1)" and i1: "iw_inv H WSZ s1 cur1"
    and o1: "iw_occupancy s1 + (if t then 1 else 0) \<le> WSZ" and le: "cur \<le> cur1"
    and cal: "iw_cal H s1 cur1 = cal_from cur1 (iw_cal H s cur)"
    and skip: "\<forall>x. cur \<le> x \<longrightarrow> x + 1 < cur1 \<longrightarrow> wc_count (iw_cal H s cur x) = 0"
    and stay: "iw_occupancy s < WSZ \<or> \<not> t \<longrightarrow> cur1 = cur" and go: "iw_occupancy s = WSZ \<and> t \<longrightarrow> cur < cur1"
  proof (cases t)
    case True
    from iw_drain_ends [OF inv w] show ?thesis by (elim exE conjE) (rule that, use True in auto)
  next
    case False
    then show ?thesis using inv by (intro that [of s cur]) (auto simp: iw_inv_def)
  qed
  let ?d = "if sched > cur1 then (sched - cur1) mod 2 ^ 32 else 0"
  have sh: "iw_shape H s1 cur1" using i1 by (simp add: iw_inv_def)
  have dd: "?d = max cur1 sched - cur1" using sched le by (simp add: max_def)
  have "iw_curPos s1 < 2 ^ 31" using sh H by (simp add: iw_shape_def)
  moreover have "?d \<le> 2 ^ 31" unfolding dd using sched le by simp
  ultimately have P: "(iw_curPos s1 + ?d) mod 2 ^ 32 = iw_curPos s1 + (max cur1 sched - cur1)" unfolding dd by simp
  obtain s2 c where s2: "iw_search H t r m s1 cur1 (iw_curPos s1 + (max cur1 sched - cur1)) = Some (s2, c)"
    and "iw_placed H cur1 t r m s1 s2 (cur1 + (max cur1 sched - cur1)) c"
    using iw_search_places [OF sh m] by blast
  then have pl: "iw_placed H cur1 t r m s1 s2 (max cur1 sched) c" by simp
  have c: "cur1 \<le> c" using pl by (simp add: iw_placed_def first_free_def)
  have at: "iw_cal H s1 cur1 x = iw_cal H s cur x" if "cur1 \<le> x" for x using that by (simp add: cal cal_from_def)
  let ?s = "if t then s2\<lparr>iw_occupancy := iw_occupancy s2 + 1\<rparr> else s2"
  have cal': "iw_cal H ?s cur1 = iw_cal H s2 cur1" and sh': "iw_shape H ?s cur1 = iw_shape H s2 cur1" and ld': "iw_load ?s = iw_load s2"
    by (auto simp: iw_cal_def iw_shape_def iw_load_def fun_eq_iff Let_def)
  have "iw_scheduleInternal H WSZ t r s cur sched m = Some (?s, cur1, c)"
    unfolding iw_scheduleInternal_search d using P s2 by simp
  moreover have "iw_inv H WSZ ?s cur1"
    using pl i1 o1 wc_ok_take [of "iw_cal H s1 cur1 c" m t] unfolding iw_inv_def cal' sh' ld'
    by (auto simp: iw_placed_def first_free_def)
  moreover have "first_free m (iw_cal H s cur) (max cur1 sched) c"
    using pl at by (auto simp: iw_placed_def first_free_def)
  moreover have "iw_cal H ?s cur1 = (cal_from cur1 (iw_cal H s cur))(c := wc_take t m (iw_cal H s cur c))"
    unfolding cal' using pl cal at [OF c] by (simp add: iw_placed_def)
  moreover have "r \<longrightarrow> iw_lastPort ?s = first_bit (wc_avail m (iw_cal H s cur c))"
    using pl at [OF c] by (auto simp: iw_placed_def)
  ultimately show ?thesis using le skip stay go by blast
qed

text \<open>What the extra slots take: each the first free cycle on the port after the one before.\<close>

primrec cal_extra :: "u8 \<Rightarrow> nat \<Rightarrow> (nat \<Rightarrow> wincycle) \<Rightarrow> nat \<Rightarrow> (nat \<Rightarrow> wincycle) \<Rightarrow> bool" where
  "cal_extra m 0 cal c cal' \<longleftrightarrow> cal' = cal"
| "cal_extra m (Suc n) cal c cal' \<longleftrightarrow>
     (\<exists>c'. first_free m cal c c' \<and> cal_extra m n (cal(c' := wc_take False m (cal c'))) (c' + 1) cal')"

lemma first_free_blank: "first_free m cal c c' \<Longrightarrow> m \<noteq> 0 \<Longrightarrow> c \<le> B \<Longrightarrow> (\<And>x. B \<le> x \<Longrightarrow> cal x = wc0) \<Longrightarrow> c' \<le> B"
  unfolding first_free_def by (metis not_le wc_avail_wc0 order_refl)

lemma iw_extra_places:
  assumes w: "0 < WSZ" and m: "m \<noteq> 0" and H: "H \<le> 2 ^ 31"
  shows "iw_inv H WSZ s cur \<Longrightarrow> c \<le> B \<Longrightarrow> B + n \<le> cur + 2 ^ 31 \<Longrightarrow> cur \<le> c \<Longrightarrow> (\<And>x. B \<le> x \<Longrightarrow> iw_cal H s cur x = wc0) \<Longrightarrow>
    \<exists>s'. iw_extra H WSZ m n s cur c = Some (s', cur) \<and> iw_inv H WSZ s' cur \<and> cal_extra m n (iw_cal H s cur) c (iw_cal H s' cur)"
proof (induction n arbitrary: s c B)
  case (Suc n)
  have "c \<le> cur + 2 ^ 31" using Suc.prems(2,3) by simp
  from iw_internal_places [OF Suc.prems(1) w m H this, of False False] obtain s1 c1 where
    s1: "iw_scheduleInternal H WSZ False False s cur c m = Some (s1, cur, c1)" "iw_inv H WSZ s1 cur"
      "first_free m (iw_cal H s cur) c c1" "iw_cal H s1 cur = (iw_cal H s cur)(c1 := wc_take False m (iw_cal H s cur c1))"
    using Suc.prems(4) by (auto simp: max_def split: if_splits)
  have "c1 \<le> B" by (rule first_free_blank [OF s1(3) m Suc.prems(2,5)])
  moreover have "c \<le> c1" using s1(3) by (simp add: first_free_def)
  ultimately have "\<exists>s'. iw_extra H WSZ m n s1 cur (c1 + 1) = Some (s', cur) \<and> iw_inv H WSZ s' cur \<and>
      cal_extra m n (iw_cal H s1 cur) (c1 + 1) (iw_cal H s' cur)"
    by (intro Suc.IH [of s1 "c1 + 1" "B + 1"]) (use s1 Suc.prems in auto)
  then show ?case using s1 by auto
qed simp

lemma push_bit_first_ne:
  assumes "wc_avail m wc \<noteq> 0"
  shows "push_bit (first_bit (wc_avail m wc)) (1 :: u8) \<noteq> 0"
proof -
  have "first_bit (wc_avail m wc) < 8" using first_bit_bit [OF assms] by simp
  then have "bit (push_bit (first_bit (wc_avail m wc)) (1 :: u8)) (first_bit (wc_avail m wc))" by (simp only: bit_push_bit_iff) simp
  then show ?thesis by (metis bit_0_eq bot_apply bot_bool_def)
qed

text \<open>What \<open>schedule\<close> does to a calendar.\<close>

definition cal_schedule :: "u8 \<Rightarrow> nat \<Rightarrow> (nat \<Rightarrow> wincycle) \<Rightarrow> nat \<Rightarrow> nat \<Rightarrow> (nat \<Rightarrow> wincycle) \<Rightarrow> nat \<Rightarrow> bool" where
  "cal_schedule m n cal sched cur' cal' c \<longleftrightarrow> first_free m cal (max cur' sched) c \<and>
     cal_extra (push_bit (first_bit (wc_avail m (cal c))) 1) n ((cal_from cur' cal)(c := wc_take True m (cal c))) (c + 1) cal'"

lemma iw_schedule_places:
  assumes inv: "iw_inv H WSZ s cur" and w: "0 < WSZ" and m: "portMask \<noteq> 0" and H: "H \<le> 2 ^ 31"
    and B: "cur \<le> B" "sched \<le> B" "B + n + 1 \<le> cur + 2 ^ 31" "\<forall>x\<ge>B. iw_cal H s cur x = wc0"
  shows "\<exists>s' cur' c. iw_schedule H WSZ s cur sched portMask n = Some (s', cur', c) \<and> iw_inv H WSZ s' cur' \<and> cur \<le> cur' \<and>
    cal_schedule portMask n (iw_cal H s cur) sched cur' (iw_cal H s' cur') c \<and>
    (\<forall>x. cur \<le> x \<longrightarrow> x + 1 < cur' \<longrightarrow> wc_count (iw_cal H s cur x) = 0) \<and> (iw_occupancy s < WSZ \<longrightarrow> cur' = cur) \<and>
    iw_occupancy s' \<le> WSZ \<and> (\<forall>x. wc_count (iw_cal H s' cur' x) \<le> 8)"
proof -
  let ?cal = "iw_cal H s cur" and ?r = "n \<noteq> 0"
  have "sched \<le> cur + 2 ^ 31" using B by simp
  from iw_internal_places [OF inv w m H this, of True ?r] obtain s1 cur1 c where
    i: "iw_scheduleInternal H WSZ True ?r s cur sched portMask = Some (s1, cur1, c)" and i1: "iw_inv H WSZ s1 cur1"
    and le: "cur \<le> cur1" and ff: "first_free portMask ?cal (max cur1 sched) c"
    and cal1: "iw_cal H s1 cur1 = (cal_from cur1 ?cal)(c := wc_take True portMask (?cal c))"
    and lp: "?r \<longrightarrow> iw_lastPort s1 = first_bit (wc_avail portMask (?cal c))"
    and skip: "\<forall>x. cur \<le> x \<longrightarrow> x + 1 < cur1 \<longrightarrow> wc_count (?cal x) = 0"
    and stay: "iw_occupancy s < WSZ \<or> \<not> True \<longrightarrow> cur1 = cur" by blast
  have "cur1 \<le> B"
  proof (cases "iw_occupancy s < WSZ")
    case False
    then obtain e where "cur \<le> e" "0 < wc_count (?cal e)" using iw_load_pos [of H s cur] inv w by (auto simp: iw_inv_def)
    moreover from this have "e < B" using B(4) by (metis not_le wc_count_wc0 less_irrefl)
    ultimately show ?thesis using skip by (metis Suc_eq_plus1 Suc_leI le_trans less_irrefl not_le)
  qed (use stay B(1) in simp)
  then have cB: "c \<le> B" by (intro first_free_blank [OF ff m]) (use B in auto)
  have cc: "cur1 \<le> c" using ff by (simp add: first_free_def)
  have av: "wc_avail portMask (?cal c) \<noteq> 0" using ff by (simp add: first_free_def)
  obtain s2 where s2: "n \<noteq> 0 \<Longrightarrow> iw_extra H WSZ (push_bit (iw_lastPort s1) 1) n s1 cur1 (c + 1) = Some (s2, cur1)"
    "iw_inv H WSZ s2 cur1" "n = 0 \<Longrightarrow> s2 = s1"
    "cal_extra (push_bit (first_bit (wc_avail portMask (?cal c))) 1) n (iw_cal H s1 cur1) (c + 1) (iw_cal H s2 cur1)"
  proof (cases "n = 0")
    case True
    then show ?thesis using i1 by (intro that [of s1]) auto
  next
    case False
    have "iw_cal H s1 cur1 x = wc0" if "B + 1 \<le> x" for x
      using that cB B(4) by (auto simp: cal1 cal_from_def)
    then show ?thesis using iw_extra_places [OF w push_bit_first_ne [OF av] H i1, of "c + 1" "B + 1" n] lp False cB cc le B
      by (auto intro: that)
  qed
  have "iw_schedule H WSZ s cur sched portMask n = Some (s2, cur1, c)"
    using i s2(1,3) s2(2) by (cases "n = 0") (auto simp: iw_schedule_def iw_inv_def)
  moreover have "cal_schedule portMask n ?cal sched cur1 (iw_cal H s2 cur1) c"
    using ff s2(4) by (simp add: cal_schedule_def cal1)
  moreover have "iw_occupancy s2 \<le> WSZ" "\<forall>x. wc_count (iw_cal H s2 cur1 x) \<le> 8"
    using s2(2) wc_ok_count by (auto simp: iw_inv_def)
  ultimately show ?thesis using s2(2) le skip stay by blast
qed

text \<open>C6. The window schedules like a calendar. If no cycle from \<open>B\<close> on is taken and \<open>B\<close> is less than \<open>2 ^ 31\<close> ahead,
  \<open>schedule\<close> fails no assertion; the micro-operation gets the first cycle, from the one asked for on, in which one of its
  ports is free, and the lowest such port; each extra slot gets the first free cycle of that port after the one before; no
  other cycle changes. The current cycle only moves when the window is full, and then at most past the first cycle in
  which something was scheduled. Neither the occupancy nor a counter of a cycle overflows.\<close>

theorem window_schedules_first:
  assumes inv: "iw_inv H WSZ s cur" and w: "0 < WSZ" and m: "portMask \<noteq> 0" and H: "H \<le> 2 ^ 31"
    and B: "cur \<le> B" "sched \<le> B" "B + n + 1 \<le> cur + 2 ^ 31" "\<forall>x\<ge>B. iw_cal H s cur x = wc0"
  shows "\<exists>s' cur' c. iw_schedule H WSZ s cur sched portMask n = Some (s', cur', c) \<and> iw_inv H WSZ s' cur' \<and> cur \<le> cur' \<and>
    cal_schedule portMask n (iw_cal H s cur) sched cur' (iw_cal H s' cur') c \<and>
    (\<forall>x. cur \<le> x \<longrightarrow> x + 1 < cur' \<longrightarrow> wc_count (iw_cal H s cur x) = 0) \<and> (iw_occupancy s < WSZ \<longrightarrow> cur' = cur) \<and>
    iw_occupancy s' \<le> WSZ \<and> (\<forall>x. wc_count (iw_cal H s' cur' x) \<le> 8)"
  using assms by (rule iw_schedule_places)

text \<open>An operation on port 2 with an extra slot, asked for in cycle 7, in a window of two arrays of four cycles.\<close>

theorem window_schedules_first_witness:
  "\<exists>s' cur' c. iw_schedule 4 36 (iw_new 4) 0 7 4 1 = Some (s', cur', c) \<and> iw_inv 4 36 s' cur' \<and>
     cal_schedule 4 1 (\<lambda>_. wc0) 7 cur' (iw_cal 4 s' cur') c \<and> cur' = 0"
proof -
  have "iw_occupancy (iw_new 4) < 36" by (simp add: iw_new_def)
  then show ?thesis
    using window_schedules_first [of 4 36 "iw_new 4" 0 4 7 7 1] iw_new_inv [of 4 36 0] by auto
qed

section \<open>Blocking a port\<close>

lemma wc_take_taken: "wc_avail m (wc_take False m wc) = 0"
  by (simp add: wc_avail_def wc_take_def bit_eq_iff bit_and_iff bit_or_iff bit_not_iff)

lemma wc_take_again: "wc_avail m wc = 0 \<Longrightarrow> wc_take False m wc = wc"
  by (cases wc) (auto simp: wc_avail_def wc_take_def bit_eq_iff bit_and_iff bit_or_iff bit_not_iff dest: bit_imp_le_length)

text \<open>The cycles from \<open>a\<close> to \<open>q\<close> with the ports \<open>m\<close> taken.\<close>

definition cal_block :: "u8 \<Rightarrow> nat \<Rightarrow> nat \<Rightarrow> (nat \<Rightarrow> wincycle) \<Rightarrow> nat \<Rightarrow> wincycle" where
  "cal_block m a q cal c = (if a \<le> c \<and> c \<le> q then wc_take False m (cal c) else cal c)"

lemma cal_block_step:
  assumes ff: "first_free m cal a c" and q: "c \<le> q"
  shows "cal_block m c q (cal(c := wc_take False m (cal c))) = cal_block m a q cal"
proof
  fix x
  have "wc_take False m (cal x) = cal x" if "a \<le> x" "x < c"
    using ff that by (intro wc_take_again) (simp add: first_free_def)
  moreover have "wc_take False m (wc_take False m (cal c)) = wc_take False m (cal c)" by (intro wc_take_again wc_take_taken)
  ultimately show "cal_block m c q (cal(c := wc_take False m (cal c))) x = cal_block m a q cal x"
    using ff q by (auto simp: cal_block_def first_free_def)
qed

lemma iw_poison_blocks:
  assumes w: "0 < WSZ" and m: "m \<noteq> 0" and H: "H \<le> 2 ^ 31" and t: "target \<le> cur + 2 ^ 31"
  shows "iw_inv H WSZ s cur \<Longrightarrow> cur \<le> pc \<Longrightarrow> pc < target \<Longrightarrow>
    \<exists>s' q. iw_poison H WSZ s cur pc target m = Some (s', cur) \<and> iw_inv H WSZ s' cur \<and>
      first_free m (iw_cal H s cur) target q \<and> iw_cal H s' cur = cal_block m pc q (iw_cal H s cur)"
proof (induction "2 * (target - pc) + (if wc_avail m (iw_cal H s cur pc) = 0 then 0 else 1)" arbitrary: s pc rule: less_induct)
  case less
  have "pc \<le> cur + 2 ^ 31" using less.prems(3) t by simp
  from iw_internal_places [OF less.prems(1) w m H this, of False False] obtain s1 c1 where
    s1: "iw_scheduleInternal H WSZ False False s cur pc m = Some (s1, cur, c1)" "iw_inv H WSZ s1 cur"
      "first_free m (iw_cal H s cur) pc c1" "iw_cal H s1 cur = (iw_cal H s cur)(c1 := wc_take False m (iw_cal H s cur c1))"
    using less.prems(2) by (auto simp: max_def split: if_splits)
  have c1: "pc \<le> c1" "wc_avail m (iw_cal H s cur c1) \<noteq> 0" using s1(3) by (simp_all add: first_free_def)
  have p: "iw_poison H WSZ s cur pc target m = iw_poison H WSZ s1 cur c1 target m"
    using less.prems(3) s1(1) by (subst iw_poison.simps) simp
  show ?case
  proof (cases "c1 < target")
    case True
    have a0: "wc_avail m (iw_cal H s1 cur c1) = 0" by (simp add: s1(4) wc_take_taken)
    have "2 * (target - c1) + (if wc_avail m (iw_cal H s1 cur c1) = 0 then 0 else 1) <
        2 * (target - pc) + (if wc_avail m (iw_cal H s cur pc) = 0 then 0 else 1)"
      using a0 c1 True by (cases "c1 = pc") auto
    from less.hyps [OF this s1(2) _ True] less.prems(2) c1(1) obtain s' q where
      s': "iw_poison H WSZ s1 cur c1 target m = Some (s', cur)" "iw_inv H WSZ s' cur" "first_free m (iw_cal H s1 cur) target q"
        "iw_cal H s' cur = cal_block m c1 q (iw_cal H s1 cur)" by auto
    have "first_free m (iw_cal H s cur) target q" using s'(3) True by (auto simp: first_free_def s1(4))
    moreover have "c1 \<le> q" using s'(3) True by (simp add: first_free_def)
    then have "iw_cal H s' cur = cal_block m pc q (iw_cal H s cur)" unfolding s'(4) s1(4) by (rule cal_block_step [OF s1(3)])
    ultimately show ?thesis using p s'(1,2) by auto
  next
    case False
    then have "iw_poison H WSZ s cur pc target m = Some (s1, cur)" unfolding p by (subst iw_poison.simps) simp
    moreover have "first_free m (iw_cal H s cur) target c1" using s1(3) less.prems(3) False by (auto simp: first_free_def)
    moreover have "iw_cal H s1 cur = cal_block m pc c1 (iw_cal H s cur)"
      unfolding cal_block_step [OF s1(3) order_refl, symmetric] s1(4)
      using wc_take_again [OF wc_take_taken] by (auto simp: fun_eq_iff cal_block_def)
    ultimately show ?thesis using s1(2) by auto
  qed
qed

text \<open>Blocking a port ends and leaves the current cycle alone. It takes the port in every cycle from the current one to
  the first free cycle at or after the target, and changes nothing else; so the target, which the range is to end
  before, is blocked as well.\<close>

theorem window_poison_blocks:
  assumes "iw_inv H WSZ s cur" and "0 < WSZ" and "m \<noteq> 0" and "H \<le> 2 ^ 31" and "cur < target" and "target \<le> cur + 2 ^ 31"
  shows "\<exists>s' q. iw_poisonRange H WSZ s cur target m = Some (s', cur) \<and> iw_inv H WSZ s' cur \<and>
    first_free m (iw_cal H s cur) target q \<and> iw_cal H s' cur = cal_block m cur q (iw_cal H s cur) \<and>
    (\<forall>c. cur \<le> c \<longrightarrow> c \<le> target \<longrightarrow> wc_avail m (iw_cal H s' cur c) = 0)"
proof -
  obtain s' q where s': "iw_poison H WSZ s cur cur target m = Some (s', cur)" "iw_inv H WSZ s' cur"
      "first_free m (iw_cal H s cur) target q" "iw_cal H s' cur = cal_block m cur q (iw_cal H s cur)"
    using iw_poison_blocks [OF assms(2-4,6,1) order_refl assms(5)] by blast
  have "target \<le> q" using s'(3) by (simp add: first_free_def)
  then have "\<forall>c. cur \<le> c \<longrightarrow> c \<le> target \<longrightarrow> wc_avail m (iw_cal H s' cur c) = 0"
    by (auto simp: s'(4) cal_block_def wc_take_taken)
  then show ?thesis using s' by (auto simp: iw_poisonRange_def)
qed

theorem window_poison_blocks_witness:
  "\<exists>s'. iw_poisonRange 4 36 (iw_new 4) 0 6 4 = Some (s', 0) \<and> wc_avail 4 (iw_cal 4 s' 0 6) = 0"
  using window_poison_blocks [of 4 36 "iw_new 4" 0 4 6] iw_new_inv [of 4 36 0] by auto

section \<open>Long jumps\<close>

lemma iw_empty_drains:
  assumes "cur \<le> target"
  shows "iw_inv H WSZ s cur \<Longrightarrow> \<exists>s' cur'. iw_empty H s cur target = Some (s', cur') \<and> iw_inv H WSZ s' cur' \<and> cur' \<le> target \<and>
    cur \<le> cur' \<and> iw_cal H s' cur' = cal_from cur' (iw_cal H s cur) \<and> (iw_occupancy s' = 0 \<or> cur' = target)"
  using assms
proof (induction "target - cur" arbitrary: s cur)
  case 0
  then show ?case by (subst iw_empty.simps) auto
next
  case (Suc n)
  show ?case
  proof (cases "iw_occupancy s = 0")
    case True
    then show ?thesis using Suc.prems by (subst iw_empty.simps) auto
  next
    case False
    obtain s1 where s1: "iw_advancePos H s cur = Some (s1, cur + 1)" "iw_inv H WSZ s1 (cur + 1)"
        "iw_cal H s1 (cur + 1) = cal_from (cur + 1) (iw_cal H s cur)"
      using iw_advance_step [OF Suc.prems(1)] by blast
    have lt: "cur < target" using Suc.hyps(2) by linarith
    have e: "iw_empty H s cur target = iw_empty H s1 (cur + 1) target"
      using False lt s1(1) by (subst iw_empty.simps) simp
    have "\<exists>s' cur'. iw_empty H s1 (cur + 1) target = Some (s', cur') \<and> iw_inv H WSZ s' cur' \<and> cur' \<le> target \<and>
        cur + 1 \<le> cur' \<and> iw_cal H s' cur' = cal_from cur' (iw_cal H s1 (cur + 1)) \<and> (iw_occupancy s' = 0 \<or> cur' = target)"
      by (rule Suc.hyps(1)) (use Suc.hyps(2) s1(2) in auto)
    then obtain s' cur' where s': "iw_empty H s1 (cur + 1) target = Some (s', cur')" "iw_inv H WSZ s' cur'" "cur' \<le> target"
        "cur + 1 \<le> cur'" "iw_cal H s' cur' = cal_from cur' (iw_cal H s1 (cur + 1))" "iw_occupancy s' = 0 \<or> cur' = target" by blast
    have "iw_cal H s' cur' = cal_from cur' (iw_cal H s cur)" unfolding s'(5) s1(3) using s'(4) by (intro cal_from_trans) simp
    then show ?thesis using e s' by auto
  qed
qed

text \<open>A window that holds nothing at one cycle holds nothing at any other.\<close>

lemma iw_blank_jump:
  assumes inv: "iw_inv H WSZ s cur" and z: "iw_cal H s cur = (\<lambda>_. wc0)"
  shows "iw_inv H WSZ s target \<and> iw_cal H s target = (\<lambda>_. wc0)"
proof -
  have sh: "iw_shape H s cur" using inv by (simp add: iw_inv_def)
  have pos: "iw_curPos s < H" and len: "length (iw_curWin s) = H" "length (iw_nextWin s) = H"
    and clr: "\<And>k. k < iw_curPos s \<Longrightarrow> iw_curWin s ! k = wc0"
    using sh by (auto simp: iw_shape_def)
  have 1: "iw_curWin s ! k = wc0" if "k < H" for k
    using clr [of k] iw_put_curWin(3) [OF sh _ that] z by (cases "k < iw_curPos s") simp_all
  have 2: "iw_nextWin s ! k = wc0" if "k < H" for k using iw_put_nextWin(3) [OF sh that] z by simp
  have 3: "iw_ubWin s c = None" for c
  proof (rule ccontr)
    assume "iw_ubWin s c \<noteq> None"
    then obtain wc where wc: "iw_ubWin s c = Some wc" by blast
    then have "cur + 2 * H \<le> c + iw_curPos s" "wc \<noteq> wc0" using sh by (auto simp: iw_shape_def)
    then show False using iw_cal_ub [OF sh, of c] wc z by simp
  qed
  have "iw_cal H s target = (\<lambda>_. wc0)" using 1 2 3 by (auto simp: fun_eq_iff iw_cal_def Let_def)
  moreover have "iw_shape H s target" using sh 3 by (auto simp: iw_shape_def)
  ultimately show ?thesis using inv by (simp add: iw_inv_def)
qed

lemma iw_count_le_load:
  assumes sh: "iw_shape H s cur"
  shows "wc_count (iw_cal H s cur c) \<le> iw_load s"
proof -
  have len: "length (iw_curWin s) = H" "length (iw_nextWin s) = H" and fin: "finite (dom (iw_ubWin s))"
    using sh by (auto simp: iw_shape_def)
  have 1: "wc_count (iw_curWin s ! k) \<le> sum_list (map wc_count (iw_curWin s))" if "k < H" for k
    using that len elem_le_sum_list [of k "map wc_count (iw_curWin s)"] by simp
  have 2: "wc_count (iw_nextWin s ! k) \<le> sum_list (map wc_count (iw_nextWin s))" if "k < H" for k
    using that len elem_le_sum_list [of k "map wc_count (iw_nextWin s)"] by simp
  have 3: "wc_count wc \<le> (\<Sum>c\<in>dom (iw_ubWin s). wc_count (the (iw_ubWin s c)))" if "iw_ubWin s c = Some wc" for wc
    using member_le_sum [of c "dom (iw_ubWin s)" "\<lambda>c. wc_count (the (iw_ubWin s c))"] fin that by auto
  let ?k = "iw_curPos s + (c - cur)"
  consider "c < cur" | "?k < H" | "H \<le> ?k" "?k < 2 * H" | "2 * H \<le> ?k" "iw_ubWin s c = None"
    | wc where "2 * H \<le> ?k" "iw_ubWin s c = Some wc" by fastforce
  then show ?thesis
  proof cases
    case 3
    then have "?k - H < H" by linarith
    from 2 [OF this] 3 show ?thesis by (auto simp: iw_cal_def iw_load_def Let_def intro: trans_le_add1 trans_le_add2)
  next
    case 5
    then show ?thesis using "3" [of wc] by (auto simp: iw_cal_def iw_load_def Let_def)
  qed (use 1 [of ?k] in \<open>auto simp: iw_cal_def iw_load_def Let_def\<close>)
qed

text \<open>A window in which cycle 1 was given an operation and cycle 2 its extra slot, evaluated.\<close>

definition iw_example :: "wincycle \<Rightarrow> nat \<Rightarrow> nat \<Rightarrow> window" where
  "iw_example wc p n = \<lparr>iw_curWin = [wc0, wc, \<lparr>wc_occUnits = 4, wc_count = 0\<rparr>, wc0], iw_nextWin = [wc0, wc0, wc0, wc0],
     iw_ubWin = (\<lambda>_. None), iw_occupancy = n, iw_curPos = p, iw_lastPort = 2\<rparr>"

lemma list_update_numeral: "(x # xs)[numeral v := y] = x # xs[pred_numeral v := y]"
  by (simp add: numeral_eq_Suc)

lemma iw_new4: "iw_new 4 = \<lparr>iw_curWin = [wc0, wc0, wc0, wc0], iw_nextWin = [wc0, wc0, wc0, wc0], iw_ubWin = (\<lambda>_. None),
    iw_occupancy = 0, iw_curPos = 0, iw_lastPort = 0\<rparr>"
  by (simp add: iw_new_def numeral_eq_Suc)

lemma first_bit_4: "first_bit 4 = 2"
  by (simp add: first_bit_def upt_rec bit_numeral_rec)

lemma upts: "[Suc 0..<4] = [1, 2, 3]" "[2..<4] = [2, 3 :: nat]" "[Suc (Suc 0)..<4] = [2, 3]"
  by (simp_all add: upt_rec)

lemmas iw_eval = iw_example_def iw_schedule_def iw_scheduleInternal_def iw_drain.simps iw_record_def wc_take_def wc_avail_def
  first_bit_4 wc0_def upts list_update_numeral iw_longAdvance_def iw_advancePos_def iw_empty.simps iw_new4 Let_def

lemma iw_example_schedule: "iw_schedule 4 36 (iw_new 4) 0 1 4 1 = Some (iw_example \<lparr>wc_occUnits = 4, wc_count = 1\<rparr> 0 1, 0, 1)"
  by (simp add: iw_eval)

lemma iw_example_advance: "iw_longAdvance 4 (iw_example \<lparr>wc_occUnits = 4, wc_count = 1\<rparr> 0 1) 0 100 = Some (iw_example wc0 2 0, 100)"
  by (simp add: iw_eval)

lemma iw_example_late: "\<exists>s' cur'. iw_schedule 4 36 (iw_example wc0 2 0) 100 100 4 0 = Some (s', cur', 101)"
  by (simp add: iw_eval)

text \<open>A long advance reaches its target and drops exactly the cycles before it, if every cycle with a port taken holds
  an operation. The jump over an empty window relies on that: extra slots are not counted, so here the slot that the
  operation of cycle 1 holds in cycle 2 comes to block the port in cycle 100, and an operation for that port waits.\<close>

theorem window_long_advance:
  assumes inv: "iw_inv H WSZ s cur" and le: "cur \<le> target" and op: "\<forall>c. wc_count (iw_cal H s cur c) = 0 \<longrightarrow> iw_cal H s cur c = wc0"
  shows "(\<exists>s'. iw_longAdvance H s cur target = Some (s', target) \<and> iw_inv H WSZ s' target \<and>
      iw_cal H s' target = cal_from target (iw_cal H s cur)) \<and>
    (\<exists>s1 s2 s3 cur3. iw_schedule 4 36 (iw_new 4) 0 1 4 1 = Some (s1, 0, 1) \<and> iw_longAdvance 4 s1 0 100 = Some (s2, 100) \<and>
      iw_occupancy s2 = 0 \<and> iw_schedule 4 36 s2 100 100 4 0 = Some (s3, cur3, 101))"
proof
  obtain s' cur' where e: "iw_empty H s cur target = Some (s', cur')" and i: "iw_inv H WSZ s' cur'" and c: "cur' \<le> target" "cur \<le> cur'"
    and cal: "iw_cal H s' cur' = cal_from cur' (iw_cal H s cur)" and z: "iw_occupancy s' = 0 \<or> cur' = target"
    using iw_empty_drains [OF le inv] by blast
  show "\<exists>s'. iw_longAdvance H s cur target = Some (s', target) \<and> iw_inv H WSZ s' target \<and>
      iw_cal H s' target = cal_from target (iw_cal H s cur)"
  proof (cases "iw_occupancy s' = 0")
    case False
    then show ?thesis using z e i cal le by (simp add: iw_longAdvance_def)
  next
    case True
    have "iw_cal H s' cur' x = wc0" for x
    proof -
      have "wc_count (iw_cal H s' cur' x) = 0" using iw_count_le_load [of H s' cur' x] i True by (simp add: iw_inv_def)
      then show ?thesis using op by (auto simp: cal cal_from_def)
    qed
    then have b: "iw_cal H s' cur' = (\<lambda>_. wc0)" by (rule ext)
    have "cal_from target (iw_cal H s cur) = cal_from target (iw_cal H s' cur')" unfolding cal using c by (simp add: cal_from_trans)
    also have "\<dots> = (\<lambda>_. wc0)" unfolding b by (simp add: fun_eq_iff cal_from_def)
    finally have "iw_cal H s' target = cal_from target (iw_cal H s cur)" using iw_blank_jump [OF i b, of target] by simp
    then show ?thesis using True e c le iw_blank_jump [OF i b, of target] by (simp add: iw_longAdvance_def)
  qed
  have "iw_occupancy (iw_example wc0 2 0) = 0" by (simp add: iw_example_def)
  then show "(\<exists>s1 s2 s3 cur3. iw_schedule 4 36 (iw_new 4) 0 1 4 1 = Some (s1, 0, 1) \<and> iw_longAdvance 4 s1 0 100 = Some (s2, 100) \<and>
      iw_occupancy s2 = 0 \<and> iw_schedule 4 36 s2 100 100 4 0 = Some (s3, cur3, 101))"
    using iw_example_schedule iw_example_advance iw_example_late by blast
qed

theorem window_long_advance_witness:
  "\<exists>s'. iw_longAdvance 4 (iw_new 4) 3 100 = Some (s', 100) \<and> iw_cal 4 s' 100 = cal_from 100 (\<lambda>_. wc0)"
  using window_long_advance [of 4 36 "iw_new 4" 3 100] iw_new_inv [of 4 36 3] by auto

end
