(* ===== verification/OOO_Core.thy ===== *)
theory OOO_Core
  imports Core_Models OOO_Struct OOO_Window
begin

text \<open>
  The out-of-order core (\<^verbatim>\<open>zsim/src/ooo_core.h\<close>, \<^verbatim>\<open>ooo_core.cpp\<close>). Its thread runs a basic block behind: at a call of
  \<open>bbl\<close> the loads, the stores and the branch of the previous block are known, and its micro-operations are timed one by
  one. What is not in \<open>core_mem\<close> comes as an argument: the results of the event recorder's \<open>notifyJoin\<close>, \<open>cSimStart\<close>
  and \<open>cSimEnd\<close>. Its \<open>record\<close> returns nothing: \<open>oc_rec\<close> collects its calls. \<open>LSU_IW_BACKPRESSURE\<close> is off, as
  in the source; \<open>length (oc_reg s)\<close> is \<open>MAX_REGISTERS\<close>.
\<close>

section \<open>Micro-operations and state\<close>

datatype uop_type = UOP_GENERAL | UOP_LOAD | UOP_STORE | UOP_STORE_ADDR | UOP_FENCE

record dyn_uop =
  du_rs :: "nat \<times> nat"
  du_rd :: "nat \<times> nat"
  du_lat :: nat
  du_decCycle :: nat
  du_type :: uop_type
  du_portMask :: u8
  du_extraSlots :: nat

record ooo_bbl_info = bbl_info +
  ob_uops :: "dyn_uop list"
  ob_approxInstrs :: nat

record ooo = core +
  oc_reg :: "nat list"
  oc_prevBbl :: "ooo_bbl_info option"
  oc_loadAddrs :: "addr list"
  oc_storeAddrs :: "addr list"
  oc_loads :: nat
  oc_stores :: nat
  oc_lastStoreCommit :: nat
  oc_lastStoreAddrCommit :: nat
  oc_loadQueue :: rob
  oc_storeQueue :: rob
  oc_RFReads :: nat
  oc_IssuedUops :: nat
  oc_insWindow :: window
  oc_rob :: rob
  oc_branchPred :: bp
  oc_branchPc :: addr
  oc_branchTaken :: bool
  oc_branchTakenNpc :: addr
  oc_branchNotTakenNpc :: addr
  oc_decodeCycle :: nat
  oc_uopQueue :: cycle_queue
  oc_uops :: nat
  oc_bbls :: nat
  oc_approxInstrs :: nat
  oc_mispredBranches :: nat
  oc_condBranches :: nat
  oc_fwd :: "(addr \<times> nat) list"
  oc_rec :: "(nat \<times> nat \<times> nat) list"

text \<open>The constructor, for \<open>NR\<close> registers; the address arrays are not initialised in the source.\<close>

definition ooo_new :: "nat \<Rightarrow> nat \<Rightarrow> ooo" where
  "ooo_new PL NR =
     \<lparr>co_instrs = 0, co_curCycle = 0, co_phaseEndCycle = PL, oc_reg = replicate NR 0, oc_prevBbl = None,
      oc_loadAddrs = replicate 256 0, oc_storeAddrs = replicate 256 0, oc_loads = 0, oc_stores = 0,
      oc_lastStoreCommit = 0, oc_lastStoreAddrCommit = 0, oc_loadQueue = rob_new 32, oc_storeQueue = rob_new 32,
      oc_RFReads = 0, oc_IssuedUops = 0, oc_insWindow = iw_new 1024, oc_rob = rob_new 128, oc_branchPred = bp_new 11 14,
      oc_branchPc = 0, oc_branchTaken = False, oc_branchTakenNpc = 0, oc_branchNotTakenNpc = 0, oc_decodeCycle = 4,
      oc_uopQueue = cq_new 28, oc_uops = 0, oc_bbls = 0, oc_approxInstrs = 0, oc_mispredBranches = 0, oc_condBranches = 0,
      oc_fwd = replicate 32 (-1, 0), oc_rec = []\<rparr>"

section \<open>Recording a basic block\<close>

definition ooo_load :: "addr \<Rightarrow> ooo \<Rightarrow> ooo option" where
  "ooo_load a s = Option.bind (guard (oc_loads s < length (oc_loadAddrs s))) (\<lambda>_.
     Some (s\<lparr>oc_loadAddrs := (oc_loadAddrs s)[oc_loads s := a], oc_loads := oc_loads s + 1\<rparr>))"

definition ooo_store :: "addr \<Rightarrow> ooo \<Rightarrow> ooo option" where
  "ooo_store a s = Option.bind (guard (oc_stores s < length (oc_storeAddrs s))) (\<lambda>_.
     Some (s\<lparr>oc_storeAddrs := (oc_storeAddrs s)[oc_stores s := a], oc_stores := oc_stores s + 1\<rparr>))"

definition ooo_predFalseLoad :: "ooo \<Rightarrow> ooo option" where
  "ooo_predFalseLoad s = ooo_load (-1) s"

definition ooo_predFalseStore :: "ooo \<Rightarrow> ooo option" where
  "ooo_predFalseStore s = ooo_store (-1) s"

definition ooo_PredLoad :: "addr \<Rightarrow> bool \<Rightarrow> ooo \<Rightarrow> ooo option" where
  "ooo_PredLoad a pred s = (if pred then ooo_load a s else ooo_predFalseLoad s)"

definition ooo_PredStore :: "addr \<Rightarrow> bool \<Rightarrow> ooo \<Rightarrow> ooo option" where
  "ooo_PredStore a pred s = (if pred then ooo_store a s else ooo_predFalseStore s)"

definition ooo_branch :: "addr \<Rightarrow> bool \<Rightarrow> addr \<Rightarrow> addr \<Rightarrow> ooo \<Rightarrow> ooo" where
  "ooo_branch pc taken takenNpc notTakenNpc s =
     s\<lparr>oc_branchPc := pc, oc_branchTaken := taken, oc_branchTakenNpc := takenNpc, oc_branchNotTakenNpc := notTakenNpc\<rparr>"

section \<open>Timing a micro-operation\<close>

primrec iw_advance_n :: "nat \<Rightarrow> nat \<Rightarrow> window \<Rightarrow> nat \<Rightarrow> (window \<times> nat) option" where
  "iw_advance_n H 0 s cur = Some (s, cur)"
| "iw_advance_n H (Suc n) s cur = Option.bind (iw_advancePos H s cur) (\<lambda>(s', c'). iw_advance_n H n s' c')"

text \<open>Decode stalls, and the micro-operation queue.\<close>

definition ooo_decode :: "dyn_uop \<Rightarrow> nat \<Rightarrow> ooo \<Rightarrow> ooo option" where
  "ooo_decode u prevDecCycle s =
     (let decDiff = (du_decCycle u + 2 ^ 32 - prevDecCycle) mod 2 ^ 32;
          s1 = s\<lparr>oc_decodeCycle := max (oc_decodeCycle s + decDiff) (cq_minAllocCycle (oc_uopQueue s))\<rparr> in
      Option.bind
        (if oc_decodeCycle s1 > co_curCycle s1
         then Option.bind (iw_advance_n 1024 ((oc_decodeCycle s1 - co_curCycle s1) mod 2 ^ 32) (oc_insWindow s1) (co_curCycle s1)) (\<lambda>(w, c).
              Some (s1\<lparr>oc_IssuedUops := 0, oc_RFReads := 0, oc_insWindow := w, co_curCycle := c\<rparr>))
         else Some s1) (\<lambda>s2.
      Some (s2\<lparr>oc_uopQueue := cq_markLeave 28 (oc_uopQueue s2) (co_curCycle s2)\<rparr>)))"

text \<open>The issue width and the register file's ports. The results are the cycles of the operands.\<close>

definition ooo_issue :: "dyn_uop \<Rightarrow> ooo \<Rightarrow> (ooo \<times> nat \<times> nat) option" where
  "ooo_issue u s =
     Option.bind
       (if oc_IssuedUops s \<ge> 4
        then Option.bind (iw_advancePos 1024 (oc_insWindow s) (co_curCycle s)) (\<lambda>(w, c).
             Some (s\<lparr>oc_IssuedUops := 0, oc_RFReads := 0, oc_insWindow := w, co_curCycle := c\<rparr>))
        else Some s) (\<lambda>s1.
     Option.bind (guard (0 < length (oc_reg s1))) (\<lambda>_.
     let s2 = s1\<lparr>oc_IssuedUops := oc_IssuedUops s1 + 1, oc_reg := (oc_reg s1)[0 := co_curCycle s1]\<rparr> in
     Option.bind (guard (fst (du_rs u) < length (oc_reg s2) \<and> snd (du_rs u) < length (oc_reg s2))) (\<lambda>_.
     let c0 = oc_reg s2 ! fst (du_rs u); c1 = oc_reg s2 ! snd (du_rs u);
         s3 = s2\<lparr>oc_RFReads := oc_RFReads s2 + ((if c0 < co_curCycle s2 then 1 else 0) + (if c1 < co_curCycle s2 then 1 else 0))\<rparr> in
     Option.bind
       (if oc_RFReads s3 > 3
        then Option.bind (iw_advancePos 1024 (oc_insWindow s3) (co_curCycle s3)) (\<lambda>(w, c).
             Some (s3\<lparr>oc_RFReads := oc_RFReads s3 - 3, oc_IssuedUops := 0, oc_insWindow := w, co_curCycle := c\<rparr>))
        else Some s3) (\<lambda>s4.
     Some (s4, c0, c1)))))"

text \<open>The instruction window; the result is the cycle of dispatch.\<close>

definition ooo_dispatch :: "dyn_uop \<Rightarrow> nat \<Rightarrow> nat \<Rightarrow> ooo \<Rightarrow> (ooo \<times> nat) option" where
  "ooo_dispatch u c0 c1 s =
     (let c2 = rob_minAllocCycle (oc_rob s); c3 = co_curCycle s; cOps = max c0 c1; dispatchCycle = max cOps (max c2 c3 + (13 - 7)) in
      Option.bind (iw_schedule 1024 36 (oc_insWindow s) (co_curCycle s) dispatchCycle (du_portMask u) (du_extraSlots u)) (\<lambda>(w, cur, d).
      let s1 = s\<lparr>oc_insWindow := w, co_curCycle := cur\<rparr> in
      Some (if co_curCycle s1 > c3 then s1\<lparr>oc_IssuedUops := 0, oc_RFReads := 0\<rparr> else s1, d)))"

definition fwd_idx :: "addr \<Rightarrow> nat" where
  "fwd_idx a = unat (drop_bit 2 a AND 31)"

text \<open>The load-store unit; the result is the cycle of commit.\<close>

definition ooo_exec_load :: "'e core_mem \<Rightarrow> nat \<Rightarrow> nat \<Rightarrow> ooo \<Rightarrow> 'e \<Rightarrow> (ooo \<times> 'e \<times> nat) option" where
  "ooo_exec_load cm dispatch0 loadIdx s e =
     (let dispatchCycle = max (oc_lastStoreAddrCommit s + 1) (max (rob_minAllocCycle (oc_loadQueue s)) dispatch0) in
      Option.bind (guard (loadIdx < length (oc_loadAddrs s))) (\<lambda>_.
      let a = oc_loadAddrs s ! loadIdx in
      Option.bind
        (if a \<noteq> -1
         then Option.bind (cm_load cm a dispatchCycle e) (\<lambda>(e', r).
              Some (s\<lparr>oc_rec := oc_rec s @ [(co_curCycle s, dispatchCycle, r + 4)]\<rparr>, e', r + 4))
         else Some (s, e, dispatchCycle)) (\<lambda>(s1, e1, req).
      let (fa, fc) = oc_fwd s1 ! fwd_idx a; commitCycle = (if fa = a then max req fc else req) in
      Some (s1\<lparr>oc_loadQueue := rob_markRetire 32 4 (oc_loadQueue s1) commitCycle\<rparr>, e1, commitCycle))))"

definition ooo_exec_store :: "'e core_mem \<Rightarrow> nat \<Rightarrow> nat \<Rightarrow> ooo \<Rightarrow> 'e \<Rightarrow> (ooo \<times> 'e \<times> nat) option" where
  "ooo_exec_store cm dispatch0 storeIdx s e =
     (let dispatchCycle = max (oc_lastStoreAddrCommit s + 1) (max (rob_minAllocCycle (oc_storeQueue s)) dispatch0) in
      Option.bind (guard (storeIdx < length (oc_storeAddrs s))) (\<lambda>_.
      let a = oc_storeAddrs s ! storeIdx in
      Option.bind (cm_store cm a dispatchCycle e) (\<lambda>(e', r).
      let commitCycle = r + 4 in
      Some (s\<lparr>oc_rec := oc_rec s @ [(co_curCycle s, dispatchCycle, commitCycle)], oc_fwd := (oc_fwd s)[fwd_idx a := (a, commitCycle)],
              oc_lastStoreCommit := max (oc_lastStoreCommit s) commitCycle,
              oc_storeQueue := rob_markRetire 32 4 (oc_storeQueue s) commitCycle\<rparr>, e', commitCycle))))"

definition ooo_exec :: "'e core_mem \<Rightarrow> dyn_uop \<Rightarrow> nat \<Rightarrow> nat \<Rightarrow> nat \<Rightarrow> ooo \<Rightarrow> 'e \<Rightarrow> (ooo \<times> 'e \<times> nat \<times> nat \<times> nat) option" where
  "ooo_exec cm u dispatchCycle loadIdx storeIdx s e =
     (case du_type u of
        UOP_GENERAL \<Rightarrow> Some (s, e, loadIdx, storeIdx, dispatchCycle + du_lat u)
      | UOP_LOAD \<Rightarrow> map_option (\<lambda>(s', e', c). (s', e', loadIdx + 1, storeIdx, c)) (ooo_exec_load cm dispatchCycle loadIdx s e)
      | UOP_STORE \<Rightarrow> map_option (\<lambda>(s', e', c). (s', e', loadIdx, storeIdx + 1, c)) (ooo_exec_store cm dispatchCycle storeIdx s e)
      | UOP_STORE_ADDR \<Rightarrow>
          let commitCycle = dispatchCycle + du_lat u in
          Some (s\<lparr>oc_lastStoreAddrCommit := max (oc_lastStoreAddrCommit s) commitCycle\<rparr>, e, loadIdx, storeIdx, commitCycle)
      | UOP_FENCE \<Rightarrow>
          let commitCycle = dispatchCycle + du_lat u in
          Some (s\<lparr>oc_lastStoreAddrCommit := max commitCycle (max (oc_lastStoreAddrCommit s) (oc_lastStoreCommit s + du_lat u))\<rparr>,
            e, loadIdx, storeIdx, commitCycle))"

definition ooo_retire :: "dyn_uop \<Rightarrow> nat \<Rightarrow> ooo \<Rightarrow> ooo option" where
  "ooo_retire u commitCycle s =
     Option.bind (guard (fst (du_rd u) < length (oc_reg s) \<and> snd (du_rd u) < length (oc_reg s))) (\<lambda>_.
     Some (s\<lparr>oc_rob := rob_markRetire 128 4 (oc_rob s) commitCycle,
             oc_reg := (oc_reg s)[fst (du_rd u) := commitCycle, snd (du_rd u) := commitCycle]\<rparr>))"

text \<open>The body of the loop over the micro-operations of a block, and the loop; \<open>lastCommitCycle\<close> is its result.\<close>

definition ooo_uop :: "'e core_mem \<Rightarrow> dyn_uop \<Rightarrow> nat \<Rightarrow> nat \<Rightarrow> nat \<Rightarrow> ooo \<Rightarrow> 'e \<Rightarrow> (ooo \<times> 'e \<times> nat \<times> nat \<times> nat) option" where
  "ooo_uop cm u prevDecCycle loadIdx storeIdx s e =
     Option.bind (ooo_decode u prevDecCycle s) (\<lambda>s1.
     Option.bind (ooo_issue u s1) (\<lambda>(s2, c0, c1).
     Option.bind (ooo_dispatch u c0 c1 s2) (\<lambda>(s3, d).
     Option.bind (ooo_exec cm u d loadIdx storeIdx s3 e) (\<lambda>(s4, e4, li, si, commitCycle).
     Option.bind (ooo_retire u commitCycle s4) (\<lambda>s5.
     Some (s5, e4, li, si, commitCycle))))))"

primrec ooo_uops :: "'e core_mem \<Rightarrow> dyn_uop list \<Rightarrow> nat \<Rightarrow> nat \<Rightarrow> nat \<Rightarrow> nat \<Rightarrow> ooo \<Rightarrow> 'e \<Rightarrow> (ooo \<times> 'e \<times> nat \<times> nat \<times> nat) option" where
  "ooo_uops cm [] prevDecCycle loadIdx storeIdx lastCommitCycle s e = Some (s, e, loadIdx, storeIdx, lastCommitCycle)"
| "ooo_uops cm (u # us) prevDecCycle loadIdx storeIdx lastCommitCycle s e =
     Option.bind (ooo_uop cm u prevDecCycle loadIdx storeIdx s e) (\<lambda>(s', e', li, si, c).
     ooo_uops cm us (du_decCycle u) li si c s' e')"

section \<open>The frontend\<close>

text \<open>Fetches on the wrong path, for the indices in the list.\<close>

primrec ooo_wrong_path :: "'e core_mem \<Rightarrow> nat \<Rightarrow> addr \<Rightarrow> nat \<Rightarrow> nat list \<Rightarrow> nat \<Rightarrow> ooo \<Rightarrow> 'e \<Rightarrow> (ooo \<times> 'e) option" where
  "ooo_wrong_path cm lineSize wrongPathAddr lastCommitCycle [] reqCycle s e = Some (s, e)"
| "ooo_wrong_path cm lineSize wrongPathAddr lastCommitCycle (i # is) reqCycle s e =
     Option.bind (cm_ifetch cm (wrongPathAddr + of_nat (lineSize * i)) (co_curCycle s) e) (\<lambda>(e', r).
     let fetchLat = r - co_curCycle s; s' = s\<lparr>oc_rec := oc_rec s @ [(co_curCycle s, co_curCycle s, co_curCycle s + fetchLat)]\<rparr>;
         respCycle = reqCycle + fetchLat in
     if respCycle > lastCommitCycle then Some (s', e')
     else ooo_wrong_path cm lineSize wrongPathAddr lastCommitCycle is (respCycle + lineSize div 16) s' e')"

definition ooo_predict :: "'e core_mem \<Rightarrow> nat \<Rightarrow> nat \<Rightarrow> nat \<Rightarrow> ooo \<Rightarrow> 'e \<Rightarrow> (ooo \<times> 'e \<times> nat) option" where
  "ooo_predict cm lineSize lastCommitCycle fetchCycle s e =
     (let s1 = (if oc_branchPc s \<noteq> 0 then s\<lparr>oc_condBranches := oc_condBranches s + 1\<rparr> else s) in
      Option.bind
        (if oc_branchPc s1 \<noteq> 0
         then map_option (\<lambda>(p, ok). (s1\<lparr>oc_branchPred := p\<rparr>, ok)) (bp_predict 11 18 14 (oc_branchPred s1) (oc_branchPc s1) (oc_branchTaken s1))
         else Some (s1, True)) (\<lambda>(s2, ok).
      Option.bind
        (if ok then Some (s2, e, fetchCycle)
         else
           let s3 = s2\<lparr>oc_mispredBranches := oc_mispredBranches s2 + 1\<rparr>;
               wrongPathAddr = (if oc_branchTaken s3 then oc_branchNotTakenNpc s3 else oc_branchTakenNpc s3) in
           map_option (\<lambda>(s4, e4). (s4, e4, lastCommitCycle))
             (ooo_wrong_path cm lineSize wrongPathAddr lastCommitCycle [0..<5 * 64 div lineSize] fetchCycle s3 e)) (\<lambda>(s5, e5, fc).
      Some (s5\<lparr>oc_branchPc := 0\<rparr>, e5, fc))))"

text \<open>The fetches of the new block: each adds its latency from the current cycle to the fetch cycle.\<close>

definition ooo_ifetch :: "'e core_mem \<Rightarrow> addr \<Rightarrow> nat \<Rightarrow> ooo \<times> 'e \<Rightarrow> ((ooo \<times> 'e) \<times> nat) option" where
  "ooo_ifetch cm fetchAddr fetchCycle = (\<lambda>(s, e).
     Option.bind (cm_ifetch cm fetchAddr (co_curCycle s) e) (\<lambda>(e', r).
     let fetchLat = r - co_curCycle s in
     Some ((s\<lparr>oc_rec := oc_rec s @ [(co_curCycle s, co_curCycle s, co_curCycle s + fetchLat)]\<rparr>, e'), fetchCycle + fetchLat)))"

definition ooo_bbl :: "'e core_mem \<Rightarrow> nat \<Rightarrow> addr \<Rightarrow> ooo_bbl_info \<Rightarrow> ooo \<Rightarrow> 'e \<Rightarrow> (ooo \<times> 'e) option" where
  "ooo_bbl cm lineBits bblAddr bi s e =
     (case oc_prevBbl s of
        None \<Rightarrow> Some (s\<lparr>oc_prevBbl := Some bi, oc_loads := 0, oc_stores := 0\<rparr>, e)
      | Some pb \<Rightarrow>
          Option.bind (ooo_uops cm (ob_uops pb) 0 0 0 0 (s\<lparr>oc_prevBbl := Some bi\<rparr>) e) (\<lambda>(s1, e1, loadIdx, storeIdx, lastCommitCycle).
          let s2 = s1\<lparr>co_instrs := co_instrs s1 + bi_instrs pb, oc_uops := oc_uops s1 + length (ob_uops pb), oc_bbls := oc_bbls s1 + 1,
                      oc_approxInstrs := oc_approxInstrs s1 + ob_approxInstrs pb\<rparr> in
          Option.bind (guard (loadIdx = oc_loads s2 \<and> storeIdx = oc_stores s2)) (\<lambda>_.
          let s3 = s2\<lparr>oc_loads := 0, oc_stores := 0\<rparr>; fetchCycle = oc_decodeCycle s3 - (4 - 1); lineSize = 2 ^ lineBits in
          Option.bind (ooo_predict cm lineSize lastCommitCycle fetchCycle s3 e1) (\<lambda>(s4, e4, fetchCycle4).
          Option.bind (fetch_loop lineBits (ooo_ifetch cm) bblAddr (bblAddr + of_nat (bi_bytes bi)) fetchCycle4 (s4, e4)) (\<lambda>((s5, e5), fetchCycle5).
          let s6 = s5\<lparr>oc_decodeCycle := oc_decodeCycle s5 + 1\<rparr>; minFetchDecCycle = fetchCycle5 + (4 - 1) in
          Some (if minFetchDecCycle > oc_decodeCycle s6 then s6\<lparr>oc_decodeCycle := minFetchDecCycle\<rparr> else s6, e5))))))"

definition ooo_BblFunc :: "'e core_mem \<Rightarrow> nat \<Rightarrow> ('e \<Rightarrow> nat) \<Rightarrow> (ooo \<Rightarrow> 'e \<Rightarrow> (ooo \<times> 'e \<times> bool) option) \<Rightarrow> nat \<Rightarrow> addr \<Rightarrow> ooo_bbl_info \<Rightarrow>
    ooo \<Rightarrow> 'e \<Rightarrow> (ooo \<times> 'e \<times> bool) option" where
  "ooo_BblFunc cm PL glob tb lineBits bblAddr bi s e =
     Option.bind (ooo_bbl cm lineBits bblAddr bi s e) (\<lambda>(s', e'). phase_loop False PL glob tb s' e')"

section \<open>Joining, leaving and the contention simulation\<close>

definition ooo_advance :: "nat \<Rightarrow> ooo \<Rightarrow> ooo option" where
  "ooo_advance targetCycle s =
     Option.bind (guard (targetCycle > co_curCycle s)) (\<lambda>_.
     let s1 = s\<lparr>oc_decodeCycle := oc_decodeCycle s + (targetCycle - co_curCycle s)\<rparr> in
     Option.bind (iw_longAdvance 1024 (oc_insWindow s1) (co_curCycle s1) targetCycle) (\<lambda>(w, c).
     let s2 = s1\<lparr>oc_insWindow := w, co_curCycle := c, oc_RFReads := 0, oc_IssuedUops := 0\<rparr> in
     Option.bind (guard (targetCycle = co_curCycle s2)) (\<lambda>_. Some s2)))"

definition ooo_contextSwitch :: "'e core_mem \<Rightarrow> int \<Rightarrow> ooo \<Rightarrow> 'e \<Rightarrow> ooo \<times> 'e" where
  "ooo_contextSwitch cm gid s e = (if gid = -1 then (s\<lparr>oc_prevBbl := None\<rparr>, cm_switch cm e) else (s, e))"

definition ooo_join :: "nat \<Rightarrow> nat \<Rightarrow> nat \<Rightarrow> ooo \<Rightarrow> ooo option" where
  "ooo_join PL globPhaseCycles targetCycle s =
     Option.bind (if targetCycle > co_curCycle s then ooo_advance targetCycle s else Some s) (\<lambda>s1.
     Some (s1\<lparr>co_phaseEndCycle := globPhaseCycles + PL\<rparr>))"

text \<open>\<open>cSimStart\<close> and \<open>cSimEnd\<close>.\<close>

definition ooo_cSim :: "nat \<Rightarrow> ooo \<Rightarrow> ooo option" where
  "ooo_cSim targetCycle s =
     Option.bind (guard (targetCycle \<ge> co_curCycle s)) (\<lambda>_.
     if targetCycle > co_curCycle s then ooo_advance targetCycle s else Some s)"

definition ooo_useA3 :: "ooo \<Rightarrow> ooo" where
  "ooo_useA3 s = s\<lparr>oc_branchPred := bp_useA3 (oc_branchPred s)\<rparr>"

section \<open>Well-formed states\<close>

definition rob_wf :: "nat \<Rightarrow> rob \<Rightarrow> bool" where
  "rob_wf SZ r \<longleftrightarrow> length (rb_buf r) = SZ \<and> rb_idx r < SZ"

definition oc_wf :: "nat \<Rightarrow> ooo \<Rightarrow> bool" where
  "oc_wf NR s \<longleftrightarrow> 0 < NR \<and> length (oc_reg s) = NR \<and> iw_inv 1024 36 (oc_insWindow s) (co_curCycle s) \<and>
     rob_wf 128 (oc_rob s) \<and> rob_wf 32 (oc_loadQueue s) \<and> rob_wf 32 (oc_storeQueue s) \<and>
     length (cq_buf (oc_uopQueue s)) = 28 \<and> cq_idx (oc_uopQueue s) < 28 \<and> length (oc_loadAddrs s) = 256 \<and>
     length (oc_storeAddrs s) = 256 \<and> length (oc_fwd s) = 32 \<and> bp_ok 11 18 14 (oc_branchPred s) \<and> 3 \<le> oc_decodeCycle s"

text \<open>\<open>oc_bnd T\<close>: what decides the cycles of the next micro-operation lies before \<open>T\<close>. \<open>oc_near\<close>: it lies so little ahead
  of the current cycle that the 32-bit delay of the window does not wrap; 2 ^ 18 leaves room for one operation.\<close>

definition oc_bnd :: "nat \<Rightarrow> ooo \<Rightarrow> bool" where
  "oc_bnd T s \<longleftrightarrow> co_curCycle s \<le> T \<and> (\<forall>x\<in>set (oc_reg s). x \<le> T) \<and> rob_minAllocCycle (oc_rob s) \<le> T \<and>
     oc_decodeCycle s \<le> T \<and> cq_minAllocCycle (oc_uopQueue s) \<le> T \<and>
     (\<forall>x\<ge>T. iw_cal 1024 (oc_insWindow s) (co_curCycle s) x = wc0)"

definition oc_near :: "ooo \<Rightarrow> bool" where
  "oc_near s \<longleftrightarrow> (\<exists>T. oc_bnd T s \<and> T + 2 ^ 18 \<le> co_curCycle s + 2 ^ 31)"

definition uop_ok :: "nat \<Rightarrow> dyn_uop \<Rightarrow> bool" where
  "uop_ok NR u \<longleftrightarrow> fst (du_rs u) < NR \<and> snd (du_rs u) < NR \<and> fst (du_rd u) < NR \<and> snd (du_rd u) < NR \<and> du_portMask u \<noteq> 0 \<and>
     du_lat u < 2 ^ 16 \<and> du_decCycle u < 2 ^ 16 \<and> du_extraSlots u < 2 ^ 8"

text \<open>The part of the state that timing a micro-operation leaves alone, and what the first half of the loop does.\<close>

definition oc_ctl :: "ooo \<Rightarrow> ooo_bbl_info option \<times> nat \<times> addr \<times> bool \<times> addr \<times> addr" where
  "oc_ctl s = (oc_prevBbl s, co_phaseEndCycle s, oc_branchPc s, oc_branchTaken s, oc_branchTakenNpc s, oc_branchNotTakenNpc s)"

definition oc_same :: "ooo \<Rightarrow> ooo \<Rightarrow> bool" where
  "oc_same s s' \<longleftrightarrow> oc_rob s' = oc_rob s \<and> oc_loadQueue s' = oc_loadQueue s \<and> oc_storeQueue s' = oc_storeQueue s \<and>
     oc_loadAddrs s' = oc_loadAddrs s \<and> oc_storeAddrs s' = oc_storeAddrs s \<and> oc_loads s' = oc_loads s \<and> oc_stores s' = oc_stores s \<and>
     oc_lastStoreAddrCommit s' = oc_lastStoreAddrCommit s \<and> oc_lastStoreCommit s' = oc_lastStoreCommit s \<and> oc_fwd s' = oc_fwd s \<and>
     oc_ctl s' = oc_ctl s \<and> (\<forall>r. r \<noteq> 0 \<longrightarrow> oc_reg s' ! r = oc_reg s ! r)"

lemma oc_same_refl: "oc_same s s"
  by (simp add: oc_same_def oc_ctl_def)

lemma oc_same_trans: "oc_same a b \<Longrightarrow> oc_same b c \<Longrightarrow> oc_same a c"
  by (simp add: oc_same_def oc_ctl_def)

lemma rob_new_wf: "0 < SZ \<Longrightarrow> rob_wf SZ (rob_new SZ)"
  by (simp add: rob_wf_def rob_new_def)

lemma rob_new_oldest: "0 < SZ \<Longrightarrow> rob_minAllocCycle (rob_new SZ) = 0"
  by (simp add: rob_minAllocCycle_def rob_new_def)

lemma rob_markRetire_wf: "rob_wf SZ r \<Longrightarrow> rob_wf SZ (rob_markRetire SZ W r m)"
  by (auto simp: rob_wf_def rob_markRetire_def Let_def)

lemma ooo_new_ok: "0 < NR \<Longrightarrow> oc_wf NR (ooo_new PL NR) \<and> oc_near (ooo_new PL NR)"
  using iw_new_inv [of 1024 36 0] bp_new_ok(1) [of 11 18 14]
  by (auto simp: oc_wf_def oc_near_def oc_bnd_def ooo_new_def rob_new_wf rob_new_oldest cq_new_def cq_minAllocCycle_def
      intro!: exI [of _ 4])

lemma iw_advance_n_step:
  "iw_inv H WSZ w cur \<Longrightarrow> \<exists>w'. iw_advance_n H n w cur = Some (w', cur + n) \<and> iw_inv H WSZ w' (cur + n) \<and>
    iw_cal H w' (cur + n) = cal_from (cur + n) (iw_cal H w cur)"
proof (induction n arbitrary: w cur)
  case (Suc n)
  obtain w1 where w1: "iw_advancePos H w cur = Some (w1, cur + 1)" "iw_inv H WSZ w1 (cur + 1)"
      "iw_cal H w1 (cur + 1) = cal_from (cur + 1) (iw_cal H w cur)"
    using iw_advance_step [OF Suc.prems] by blast
  from Suc.IH [OF w1(2)] show ?case using w1 by (auto simp: cal_from_trans)
qed simp

lemma cal_from_wc0: "cal x = wc0 \<Longrightarrow> cal_from cur cal x = wc0"
  by (simp add: cal_from_def)

section \<open>Each stage returns\<close>

text \<open>\<open>oc_stage T s s'\<close>: a stage led from \<open>s\<close> to \<open>s'\<close>, with the window empty from \<open>T\<close> on.\<close>

definition oc_stage :: "nat \<Rightarrow> nat \<Rightarrow> ooo \<Rightarrow> ooo \<Rightarrow> bool" where
  "oc_stage NR T s s' \<longleftrightarrow> oc_wf NR s' \<and> oc_same s s' \<and> co_curCycle s \<le> co_curCycle s' \<and> co_curCycle s' \<le> T \<and>
     (\<forall>x\<in>set (oc_reg s'). x \<le> T) \<and> (\<forall>x\<ge>T. iw_cal 1024 (oc_insWindow s') (co_curCycle s') x = wc0)"

lemma u32_diff:
  assumes "b \<le> a" and "a < 2 ^ 16"
  shows "(a + 2 ^ 32 - b) mod 2 ^ 32 = a - (b :: nat)"
proof -
  have lt: "a - b < 2 ^ 32" using assms by simp
  have "(a + 2 ^ 32 - b) mod 2 ^ 32 = (a - b + 2 ^ 32) mod 2 ^ 32" by (simp only: diff_add_assoc2 [OF assms(1)])
  also have "\<dots> = (a - b) mod 2 ^ 32" by (simp only: mod_add_self2)
  also have "\<dots> = a - b" by (rule mod_less [OF lt])
  finally show ?thesis .
qed

lemma ooo_decode_returns:
  assumes wf: "oc_wf NR s" and b: "oc_bnd T s" and n: "T + 2 ^ 18 \<le> co_curCycle s + 2 ^ 31"
    and u: "uop_ok NR u" and prev: "prev \<le> du_decCycle u"
  shows "\<exists>s'. ooo_decode u prev s = Some s' \<and> oc_stage NR (T + 2 ^ 16) s s'"
proof -
  let ?dd = "(du_decCycle u + 2 ^ 32 - prev) mod 2 ^ 32" and ?c = "co_curCycle s"
  have du: "du_decCycle u < 2 ^ 16" using u by (simp add: uop_ok_def)
  note dd = u32_diff [OF prev du]
  define D where "D = max (oc_decodeCycle s + ?dd) (cq_minAllocCycle (oc_uopQueue s))"
  have D: "oc_decodeCycle s \<le> D" "D \<le> T + 2 ^ 16" using b du unfolding D_def dd by (auto simp: oc_bnd_def)
  have inv: "iw_inv 1024 36 (oc_insWindow s) ?c" using wf by (simp add: oc_wf_def)
  show ?thesis
  proof (cases "?c < D")
    case True
    have m: "(D - ?c) mod 2 ^ 32 = D - ?c" using D n by (intro mod_less) simp
    obtain w where w: "iw_advance_n 1024 (D - ?c) (oc_insWindow s) ?c = Some (w, ?c + (D - ?c))" "iw_inv 1024 36 w (?c + (D - ?c))"
        "iw_cal 1024 w (?c + (D - ?c)) = cal_from (?c + (D - ?c)) (iw_cal 1024 (oc_insWindow s) ?c)"
      using iw_advance_n_step [OF inv] by blast
    have c: "?c + (D - ?c) = D" using True by simp
    note w = w [unfolded c]
    let ?s = "s\<lparr>oc_decodeCycle := D, oc_IssuedUops := 0, oc_RFReads := 0, oc_insWindow := w, co_curCycle := D,
        oc_uopQueue := cq_markLeave 28 (oc_uopQueue s) D\<rparr>"
    have "ooo_decode u prev s = Some ?s"
      using True w(1) m by (simp add: ooo_decode_def D_def [symmetric] Let_def del: power_numeral)
    moreover have "oc_stage NR (T + 2 ^ 16) s ?s"
      using wf b D True w(2,3) by (auto simp: oc_stage_def oc_wf_def oc_same_def oc_ctl_def oc_bnd_def cq_markLeave_def cal_from_wc0)
    ultimately show ?thesis by blast
  next
    case False
    let ?s = "s\<lparr>oc_decodeCycle := D, oc_uopQueue := cq_markLeave 28 (oc_uopQueue s) ?c\<rparr>"
    have "ooo_decode u prev s = Some ?s"
      using False by (simp add: ooo_decode_def D_def [symmetric] Let_def del: power_numeral)
    moreover have "oc_stage NR (T + 2 ^ 16) s ?s"
      using wf b D by (auto simp: oc_stage_def oc_wf_def oc_same_def oc_ctl_def oc_bnd_def cq_markLeave_def)
    ultimately show ?thesis by blast
  qed
qed

lemma ooo_tick:
  assumes wf: "oc_wf NR s"
  shows "\<exists>w. iw_advancePos 1024 (oc_insWindow s) (co_curCycle s) = Some (w, co_curCycle s + 1) \<and> iw_inv 1024 36 w (co_curCycle s + 1) \<and>
    (\<forall>x. iw_cal 1024 (oc_insWindow s) (co_curCycle s) x = wc0 \<longrightarrow> iw_cal 1024 w (co_curCycle s + 1) x = wc0)"
  using iw_advance_step [of 1024 36 "oc_insWindow s" "co_curCycle s"] wf by (auto simp: oc_wf_def cal_from_wc0)

lemma ooo_issue_returns:
  assumes st: "oc_stage NR T s0 s" and u: "uop_ok NR u"
  shows "\<exists>s' c0 c1. ooo_issue u s = Some (s', c0, c1) \<and> oc_stage NR (T + 2) s0 s' \<and> c0 \<le> T + 2 \<and> c1 \<le> T + 2 \<and>
    (fst (du_rs u) \<noteq> 0 \<longrightarrow> c0 = oc_reg s0 ! fst (du_rs u)) \<and> (snd (du_rs u) \<noteq> 0 \<longrightarrow> c1 = oc_reg s0 ! snd (du_rs u)) \<and>
    co_curCycle s0 \<le> co_curCycle s'"
proof -
  obtain s1 where s1: "(if oc_IssuedUops s \<ge> 4
        then Option.bind (iw_advancePos 1024 (oc_insWindow s) (co_curCycle s)) (\<lambda>(w, c).
             Some (s\<lparr>oc_IssuedUops := 0, oc_RFReads := 0, oc_insWindow := w, co_curCycle := c\<rparr>))
        else Some s) = Some s1" and st1: "oc_stage NR (T + 1) s0 s1"
  proof (cases "oc_IssuedUops s \<ge> 4")
    case True
    obtain w where w: "iw_advancePos 1024 (oc_insWindow s) (co_curCycle s) = Some (w, co_curCycle s + 1)" "iw_inv 1024 36 w (co_curCycle s + 1)"
        "\<forall>x. iw_cal 1024 (oc_insWindow s) (co_curCycle s) x = wc0 \<longrightarrow> iw_cal 1024 w (co_curCycle s + 1) x = wc0"
      using ooo_tick [of NR s] st by (auto simp: oc_stage_def)
    have "oc_stage NR (T + 1) s0 (s\<lparr>oc_IssuedUops := 0, oc_RFReads := 0, oc_insWindow := w, co_curCycle := co_curCycle s + 1\<rparr>)"
      using st w(2,3) by (auto simp: oc_stage_def oc_wf_def oc_same_def oc_ctl_def)
    then show ?thesis using True w(1) that by simp
  next
    case False
    have "oc_stage NR (T + 1) s0 s" using st by (auto simp: oc_stage_def)
    then show ?thesis using False that by simp
  qed
  let ?c = "co_curCycle s1"
  define s2 where "s2 = s1\<lparr>oc_IssuedUops := oc_IssuedUops s1 + 1, oc_reg := (oc_reg s1)[0 := ?c]\<rparr>"
  have st2: "oc_stage NR (T + 1) s0 s2"
    using st1 set_update_subset_insert [of "oc_reg s1" 0 ?c] by (auto simp: oc_stage_def oc_wf_def oc_same_def oc_ctl_def s2_def)
  have len: "0 < length (oc_reg s1)" "length (oc_reg s2) = NR" using st1 st2 by (auto simp: oc_stage_def oc_wf_def)
  define c0 where "c0 = oc_reg s2 ! fst (du_rs u)"
  define c1 where "c1 = oc_reg s2 ! snd (du_rs u)"
  define s3 where "s3 = s2\<lparr>oc_RFReads := oc_RFReads s2 + ((if c0 < co_curCycle s2 then 1 else 0) + (if c1 < co_curCycle s2 then 1 else 0))\<rparr>"
  have st3: "oc_stage NR (T + 1) s0 s3" using st2 by (auto simp: oc_stage_def oc_wf_def oc_same_def oc_ctl_def s3_def)
  have rs: "fst (du_rs u) < length (oc_reg s2)" "snd (du_rs u) < length (oc_reg s2)" using u len by (simp_all add: uop_ok_def)
  have c: "c0 \<le> T + 1" "c1 \<le> T + 1" using st2 nth_mem [OF rs(1)] nth_mem [OF rs(2)] by (auto simp: oc_stage_def c0_def c1_def)
  have src: "fst (du_rs u) \<noteq> 0 \<longrightarrow> c0 = oc_reg s0 ! fst (du_rs u)" "snd (du_rs u) \<noteq> 0 \<longrightarrow> c1 = oc_reg s0 ! snd (du_rs u)"
    using st2 by (auto simp: oc_stage_def oc_same_def c0_def c1_def)
  obtain s4 where s4: "(if oc_RFReads s3 > 3
        then Option.bind (iw_advancePos 1024 (oc_insWindow s3) (co_curCycle s3)) (\<lambda>(w, c).
             Some (s3\<lparr>oc_RFReads := oc_RFReads s3 - 3, oc_IssuedUops := 0, oc_insWindow := w, co_curCycle := c\<rparr>))
        else Some s3) = Some s4" and st4: "oc_stage NR (T + 2) s0 s4"
  proof (cases "oc_RFReads s3 > 3")
    case True
    obtain w where w: "iw_advancePos 1024 (oc_insWindow s3) (co_curCycle s3) = Some (w, co_curCycle s3 + 1)" "iw_inv 1024 36 w (co_curCycle s3 + 1)"
        "\<forall>x. iw_cal 1024 (oc_insWindow s3) (co_curCycle s3) x = wc0 \<longrightarrow> iw_cal 1024 w (co_curCycle s3 + 1) x = wc0"
      using ooo_tick [of NR s3] st3 by (auto simp: oc_stage_def)
    have "oc_stage NR (T + 2) s0 (s3\<lparr>oc_RFReads := oc_RFReads s3 - 3, oc_IssuedUops := 0, oc_insWindow := w, co_curCycle := co_curCycle s3 + 1\<rparr>)"
      using st3 w(2,3) by (auto simp: oc_stage_def oc_wf_def oc_same_def oc_ctl_def)
    then show ?thesis using True w(1) that by simp
  next
    case False
    have "oc_stage NR (T + 2) s0 s3" using st3 by (auto simp: oc_stage_def)
    then show ?thesis using False that by simp
  qed
  have "ooo_issue u s = Some (s4, c0, c1)"
    unfolding ooo_issue_def s1 bind.bind_lunit Let_def s2_def [symmetric] c0_def [symmetric] c1_def [symmetric] s3_def [symmetric] s4
    using len(1) rs by simp
  then show ?thesis using st4 c src by (auto simp: oc_stage_def)
qed

lemma ooo_dispatch_returns:
  assumes st: "oc_stage NR T s0 s" and u: "uop_ok NR u" and c: "c0 \<le> T" "c1 \<le> T" "rob_minAllocCycle (oc_rob s0) \<le> T"
    and n: "T + 2 ^ 9 \<le> co_curCycle s + 2 ^ 31"
  shows "\<exists>s' d. ooo_dispatch u c0 c1 s = Some (s', d) \<and> oc_wf NR s' \<and> oc_same s0 s' \<and> co_curCycle s \<le> co_curCycle s' \<and>
    c0 \<le> d \<and> c1 \<le> d \<and> rob_minAllocCycle (oc_rob s0) + 6 \<le> d \<and> co_curCycle s + 6 \<le> d"
proof -
  have wf: "oc_wf NR s" and same: "oc_same s0 s" and cur: "co_curCycle s \<le> T"
    and blank: "\<forall>x\<ge>T. iw_cal 1024 (oc_insWindow s) (co_curCycle s) x = wc0"
    using st by (simp_all add: oc_stage_def)
  have rob: "oc_rob s = oc_rob s0" using same by (simp add: oc_same_def oc_ctl_def)
  have inv: "iw_inv 1024 36 (oc_insWindow s) (co_curCycle s)" using wf by (simp add: oc_wf_def)
  define D where "D = max (max c0 c1) (max (rob_minAllocCycle (oc_rob s)) (co_curCycle s) + 6)"
  have D: "D \<le> T + 6" using c cur by (simp add: D_def rob)
  have port: "du_portMask u \<noteq> 0" and ex: "du_extraSlots u < 2 ^ 8" using u by (simp_all add: uop_ok_def)
  have B: "co_curCycle s \<le> T + 6" "T + 6 + du_extraSlots u + 1 \<le> co_curCycle s + 2 ^ 31"
    "\<forall>x\<ge>T + 6. iw_cal 1024 (oc_insWindow s) (co_curCycle s) x = wc0"
    using cur n ex blank by auto
  have h: "(0 :: nat) < 36" "(1024 :: nat) \<le> 2 ^ 31" by simp_all
  obtain w cur' d where w: "iw_schedule 1024 36 (oc_insWindow s) (co_curCycle s) D (du_portMask u) (du_extraSlots u) = Some (w, cur', d)"
      "iw_inv 1024 36 w cur'" "co_curCycle s \<le> cur'"
      "cal_schedule (du_portMask u) (du_extraSlots u) (iw_cal 1024 (oc_insWindow s) (co_curCycle s)) D cur' (iw_cal 1024 w cur') d"
    using iw_schedule_places [OF inv h(1) port h(2) B(1) D B(2,3)] by blast
  have d: "D \<le> d" using w(4) by (simp add: cal_schedule_def first_free_def)
  let ?s1 = "s\<lparr>oc_insWindow := w, co_curCycle := cur'\<rparr>"
  let ?s = "if cur' > co_curCycle s then ?s1\<lparr>oc_IssuedUops := 0, oc_RFReads := 0\<rparr> else ?s1"
  have "ooo_dispatch u c0 c1 s = Some (?s, d)"
    using w(1) by (simp add: ooo_dispatch_def D_def Let_def)
  moreover have "oc_wf NR ?s" using wf w(2) by (simp add: oc_wf_def)
  moreover have "oc_same s0 ?s" using same by (simp add: oc_same_def oc_ctl_def)
  moreover have "c0 \<le> d" "c1 \<le> d" "rob_minAllocCycle (oc_rob s0) + 6 \<le> d" "co_curCycle s + 6 \<le> d"
    using d by (auto simp: D_def rob max_def split: if_splits)
  moreover have "co_curCycle s \<le> co_curCycle ?s" using w(3) by simp
  ultimately show ?thesis by blast
qed

lemma oc_ctl_updates [simp]:
  "oc_ctl (s\<lparr>oc_reg := v1\<rparr>) = oc_ctl s" "oc_ctl (s\<lparr>oc_rob := v2\<rparr>) = oc_ctl s"
  by (simp_all add: oc_ctl_def)

lemma list_update_same_nth: "length xs = length ys \<Longrightarrow> xs ! r = ys ! r \<Longrightarrow> xs[i := c] ! r = ys[i := c] ! r"
  by (cases "i = r"; cases "i < length xs") (auto simp: list_update_beyond)

lemma fwd_idx_less: "fwd_idx a < 32"
proof -
  have "drop_bit 2 a AND 31 \<le> (31 :: addr)" by (rule word_and_le1)
  then have "unat (drop_bit 2 a AND 31) \<le> unat (31 :: addr)" by (simp only: word_le_nat_alt)
  then show ?thesis by (simp add: fwd_idx_def)
qed

text \<open>The latency that a micro-operation brings itself.\<close>

definition own_lat :: "dyn_uop \<Rightarrow> nat" where
  "own_lat u = (if du_type u = UOP_LOAD \<or> du_type u = UOP_STORE then 0 else du_lat u)"

definition is_ld :: "dyn_uop \<Rightarrow> nat" where
  "is_ld u = (if du_type u = UOP_LOAD then 1 else 0)"

definition is_st :: "dyn_uop \<Rightarrow> nat" where
  "is_st u = (if du_type u = UOP_STORE then 1 else 0)"

text \<open>What the load-store unit leaves alone.\<close>

definition oc_kept :: "ooo \<Rightarrow> ooo \<Rightarrow> bool" where
  "oc_kept s s' \<longleftrightarrow> oc_reg s' = oc_reg s \<and> oc_rob s' = oc_rob s \<and> co_curCycle s' = co_curCycle s \<and> oc_loadAddrs s' = oc_loadAddrs s \<and>
     oc_storeAddrs s' = oc_storeAddrs s \<and> oc_loads s' = oc_loads s \<and> oc_stores s' = oc_stores s \<and>
     oc_ctl s' = oc_ctl s"

lemma oc_kept_trans: "oc_kept a b \<Longrightarrow> oc_kept b c \<Longrightarrow> oc_kept a c"
  by (simp add: oc_kept_def oc_ctl_def)

definition lsu_ok :: "(addr \<Rightarrow> bool) \<Rightarrow> dyn_uop \<Rightarrow> nat \<Rightarrow> nat \<Rightarrow> ooo \<Rightarrow> bool" where
  "lsu_ok aok u li si s \<longleftrightarrow> (du_type u = UOP_LOAD \<longrightarrow> li < 256 \<and> (oc_loadAddrs s ! li = -1 \<or> aok (oc_loadAddrs s ! li))) \<and>
     (du_type u = UOP_STORE \<longrightarrow> si < 256 \<and> aok (oc_storeAddrs s ! si))"

context core_env begin

lemma ooo_exec_load_returns:
  assumes wf: "oc_wf NR s" and m: "minv e" and a: "li < 256" "oc_loadAddrs s ! li = -1 \<or> aok (oc_loadAddrs s ! li)"
  shows "\<exists>s' e' c. ooo_exec_load cm d li s e = Some (s', e', c) \<and> minv e' \<and> glob e' = glob e \<and> oc_wf NR s' \<and> oc_kept s s' \<and>
    d \<le> c \<and> oc_lastStoreAddrCommit s < c"
proof -
  let ?a = "oc_loadAddrs s ! li" and ?d = "max (oc_lastStoreAddrCommit s + 1) (max (rob_minAllocCycle (oc_loadQueue s)) d)"
  have g: "li < length (oc_loadAddrs s)" using wf a(1) by (simp add: oc_wf_def)
  obtain s1 e1 req where 1: "(if ?a \<noteq> -1 then Option.bind (cm_load cm ?a ?d e) (\<lambda>(e', r).
          Some (s\<lparr>oc_rec := oc_rec s @ [(co_curCycle s, ?d, r + 4)]\<rparr>, e', r + 4)) else Some (s, e, ?d)) = Some (s1, e1, req)"
    and 2: "minv e1" "glob e1 = glob e" "?d \<le> req" "oc_wf NR s1" "oc_kept s s1"
  proof (cases "?a = -1")
    case True
    then show ?thesis using m wf by (intro that [of s e ?d]) (simp_all add: oc_kept_def oc_ctl_def)
  next
    case False
    then have ok: "aok ?a" using a(2) by simp
    obtain e' r where "cm_load cm ?a ?d e = Some (e', r)" "minv e'" "?d \<le> r" "glob e' = glob e" using load [OF m ok, of ?d] by blast
    moreover have "oc_wf NR (s\<lparr>oc_rec := rs\<rparr>)" "oc_kept s (s\<lparr>oc_rec := rs\<rparr>)" for rs using wf by (simp_all add: oc_wf_def oc_kept_def oc_ctl_def)
    ultimately show ?thesis using False that by simp
  qed
  obtain fa fc where f: "oc_fwd s1 ! fwd_idx ?a = (fa, fc)" by (cases "oc_fwd s1 ! fwd_idx ?a")
  let ?c = "if fa = ?a then max req fc else req"
  let ?s = "s1\<lparr>oc_loadQueue := rob_markRetire 32 4 (oc_loadQueue s1) ?c\<rparr>"
  have "ooo_exec_load cm d li s e = Some (?s, e1, ?c)"
    unfolding ooo_exec_load_def Let_def 1 using g f by simp
  moreover have "oc_wf NR ?s" using 2(4) rob_markRetire_wf by (simp add: oc_wf_def)
  moreover have "oc_kept s ?s" using 2(5) by (simp add: oc_kept_def oc_ctl_def)
  moreover have "d \<le> ?c" "oc_lastStoreAddrCommit s < ?c" using 2(3) by auto
  ultimately show ?thesis using 2 by blast
qed

lemma ooo_exec_store_returns:
  assumes wf: "oc_wf NR s" and m: "minv e" and a: "si < 256" "aok (oc_storeAddrs s ! si)"
  shows "\<exists>s' e' c. ooo_exec_store cm d si s e = Some (s', e', c) \<and> minv e' \<and> glob e' = glob e \<and> oc_wf NR s' \<and> oc_kept s s' \<and>
    d \<le> c \<and> oc_lastStoreAddrCommit s < c"
proof -
  let ?a = "oc_storeAddrs s ! si" and ?d = "max (oc_lastStoreAddrCommit s + 1) (max (rob_minAllocCycle (oc_storeQueue s)) d)"
  have g: "si < length (oc_storeAddrs s)" using wf a(1) by (simp add: oc_wf_def)
  obtain e' r where r: "cm_store cm ?a ?d e = Some (e', r)" "minv e'" "?d \<le> r" "glob e' = glob e" using store [OF m a(2), of ?d] by blast
  let ?s = "s\<lparr>oc_rec := oc_rec s @ [(co_curCycle s, ?d, r + 4)], oc_fwd := (oc_fwd s)[fwd_idx ?a := (?a, r + 4)],
      oc_lastStoreCommit := max (oc_lastStoreCommit s) (r + 4), oc_storeQueue := rob_markRetire 32 4 (oc_storeQueue s) (r + 4)\<rparr>"
  have "ooo_exec_store cm d si s e = Some (?s, e', r + 4)"
    unfolding ooo_exec_store_def Let_def using g r(1) by simp
  moreover have "oc_wf NR ?s" using wf rob_markRetire_wf by (simp add: oc_wf_def)
  moreover have "oc_kept s ?s" by (simp add: oc_kept_def oc_ctl_def)
  moreover have "d \<le> r + 4" "oc_lastStoreAddrCommit s < r + 4" using r(3) by auto
  ultimately show ?thesis using r by blast
qed

lemma ooo_exec_returns:
  assumes wf: "oc_wf NR s" and m: "minv e" and a: "lsu_ok aok u li si s"
  shows "\<exists>s' e' c. ooo_exec cm u d li si s e = Some (s', e', li + is_ld u, si + is_st u, c) \<and> minv e' \<and> glob e' = glob e \<and> oc_wf NR s' \<and>
    oc_kept s s' \<and> d + own_lat u \<le> c \<and> (own_lat u = 0 \<and> is_ld u + is_st u > 0 \<longrightarrow> oc_lastStoreAddrCommit s < c)"
proof (cases "du_type u")
  case UOP_LOAD
  then have "li < 256" "oc_loadAddrs s ! li = -1 \<or> aok (oc_loadAddrs s ! li)" using a by (auto simp: lsu_ok_def)
  from ooo_exec_load_returns [OF wf m this, of d] obtain s' e' c where "ooo_exec_load cm d li s e = Some (s', e', c)"
    "minv e'" "glob e' = glob e" "oc_wf NR s'" "oc_kept s s'" "d \<le> c" "oc_lastStoreAddrCommit s < c" by blast
  then show ?thesis using UOP_LOAD by (simp add: ooo_exec_def own_lat_def is_ld_def is_st_def)
next
  case UOP_STORE
  then have "si < 256" "aok (oc_storeAddrs s ! si)" using a by (auto simp: lsu_ok_def)
  from ooo_exec_store_returns [OF wf m this, of d] obtain s' e' c where "ooo_exec_store cm d si s e = Some (s', e', c)"
    "minv e'" "glob e' = glob e" "oc_wf NR s'" "oc_kept s s'" "d \<le> c" "oc_lastStoreAddrCommit s < c" by blast
  then show ?thesis using UOP_STORE by (simp add: ooo_exec_def own_lat_def is_ld_def is_st_def)
qed (use wf m in \<open>simp_all add: ooo_exec_def own_lat_def is_ld_def is_st_def oc_wf_def oc_kept_def oc_ctl_def Let_def\<close>)

end

text \<open>The result of one micro-operation that commits at \<open>c\<close>.\<close>

definition uop_result :: "dyn_uop \<Rightarrow> ooo \<Rightarrow> ooo \<Rightarrow> nat \<Rightarrow> bool" where
  "uop_result u s s' c \<longleftrightarrow>
     (\<forall>r\<in>{fst (du_rs u), snd (du_rs u)}. r \<noteq> 0 \<longrightarrow> oc_reg s ! r + own_lat u \<le> c) \<and>
     rob_minAllocCycle (oc_rob s) + 6 + own_lat u \<le> c \<and> co_curCycle s + 6 + own_lat u \<le> c \<and> co_curCycle s \<le> co_curCycle s' \<and>
     (is_ld u + is_st u > 0 \<longrightarrow> oc_lastStoreAddrCommit s < c) \<and>
     oc_rob s' = rob_markRetire 128 4 (oc_rob s) c \<and>
     (\<forall>r. r \<noteq> 0 \<longrightarrow> oc_reg s' ! r = (oc_reg s)[fst (du_rd u) := c, snd (du_rd u) := c] ! r) \<and>
     oc_loadAddrs s' = oc_loadAddrs s \<and> oc_storeAddrs s' = oc_storeAddrs s \<and> oc_loads s' = oc_loads s \<and> oc_stores s' = oc_stores s \<and>
     oc_ctl s' = oc_ctl s"

context core_env begin

lemma ooo_uop_returns:
  assumes wf: "oc_wf NR s" and near: "oc_near s" and u: "uop_ok NR u" and prev: "prev \<le> du_decCycle u" and m: "minv e"
    and a: "lsu_ok aok u li si s"
  shows "\<exists>s' e' c. ooo_uop cm u prev li si s e = Some (s', e', li + is_ld u, si + is_st u, c) \<and> minv e' \<and> glob e' = glob e \<and>
    oc_wf NR s' \<and> uop_result u s s' c"
proof -
  obtain T where b: "oc_bnd T s" and n: "T + 2 ^ 18 \<le> co_curCycle s + 2 ^ 31" using near by (auto simp: oc_near_def)
  obtain s1 where s1: "ooo_decode u prev s = Some s1" "oc_stage NR (T + 2 ^ 16) s s1"
    using ooo_decode_returns [OF wf b n u prev] by blast
  obtain s2 c0 c1 where s2: "ooo_issue u s1 = Some (s2, c0, c1)" "oc_stage NR (T + 2 ^ 16 + 2) s s2" "c0 \<le> T + 2 ^ 16 + 2" "c1 \<le> T + 2 ^ 16 + 2"
      "fst (du_rs u) \<noteq> 0 \<longrightarrow> c0 = oc_reg s ! fst (du_rs u)" "snd (du_rs u) \<noteq> 0 \<longrightarrow> c1 = oc_reg s ! snd (du_rs u)"
    using ooo_issue_returns [OF s1(2) u] by blast
  have r: "rob_minAllocCycle (oc_rob s) \<le> T + 2 ^ 16 + 2" using b by (simp add: oc_bnd_def)
  have cur2: "co_curCycle s \<le> co_curCycle s2" using s2(2) by (simp add: oc_stage_def)
  have n2: "T + 2 ^ 16 + 2 + 2 ^ 9 \<le> co_curCycle s2 + 2 ^ 31" using n cur2 by simp
  obtain s3 d where s3: "ooo_dispatch u c0 c1 s2 = Some (s3, d)" "oc_wf NR s3" "oc_same s s3" "co_curCycle s2 \<le> co_curCycle s3"
      "c0 \<le> d" "c1 \<le> d" "rob_minAllocCycle (oc_rob s) + 6 \<le> d" "co_curCycle s2 + 6 \<le> d"
    using ooo_dispatch_returns [OF s2(2) u s2(3,4) r n2] by blast
  have "lsu_ok aok u li si s3" using a s3(3) by (simp add: lsu_ok_def oc_same_def oc_ctl_def)
  from ooo_exec_returns [OF s3(2) m this, of d] obtain s4 e4 c where
    s4: "ooo_exec cm u d li si s3 e = Some (s4, e4, li + is_ld u, si + is_st u, c)" "minv e4" "glob e4 = glob e" "oc_wf NR s4"
      "oc_kept s3 s4" "d + own_lat u \<le> c" "own_lat u = 0 \<and> is_ld u + is_st u > 0 \<longrightarrow> oc_lastStoreAddrCommit s3 < c"
    by (elim exE conjE) (rule that)
  let ?s5 = "s4\<lparr>oc_rob := rob_markRetire 128 4 (oc_rob s4) c, oc_reg := (oc_reg s4)[fst (du_rd u) := c, snd (du_rd u) := c]\<rparr>"
  have s5: "ooo_retire u c s4 = Some ?s5" using u s4(4) by (simp add: ooo_retire_def uop_ok_def oc_wf_def)
  have wf5: "oc_wf NR ?s5" using s4(4) rob_markRetire_wf by (simp add: oc_wf_def)
  have ret: "ooo_uop cm u prev li si s e = Some (?s5, e4, li + is_ld u, si + is_st u, c)"
    by (simp add: ooo_uop_def s1(1) s2(1) s3(1) s4(1) s5)
  have len: "length (oc_reg s3) = length (oc_reg s)" using wf s3(2) by (simp add: oc_wf_def)
  have regs: "oc_reg ?s5 ! r = (oc_reg s)[fst (du_rd u) := c, snd (du_rd u) := c] ! r" if "r \<noteq> 0" for r
  proof -
    have "oc_reg s4 = oc_reg s3" "oc_reg s3 ! r = oc_reg s ! r" using s4(5) s3(3) that by (simp_all add: oc_kept_def oc_same_def oc_ctl_def)
    then have "(oc_reg s4)[fst (du_rd u) := c, snd (du_rd u) := c] ! r = (oc_reg s)[fst (du_rd u) := c, snd (du_rd u) := c] ! r"
      using len by (intro list_update_same_nth) simp_all
    then show ?thesis by simp
  qed
  have lat: "is_ld u + is_st u > 0 \<Longrightarrow> own_lat u = 0" by (auto simp: is_ld_def is_st_def own_lat_def split: if_splits)
  have "uop_result u s ?s5 c"
    unfolding uop_result_def
  proof (intro conjI)
    show "\<forall>r\<in>{fst (du_rs u), snd (du_rs u)}. r \<noteq> 0 \<longrightarrow> oc_reg s ! r + own_lat u \<le> c"
      using s2(5,6) s3(5,6) s4(6) by auto
    show "is_ld u + is_st u > 0 \<longrightarrow> oc_lastStoreAddrCommit s < c" using s4(7) lat s3(3) by (simp add: oc_same_def oc_ctl_def)
    show "\<forall>r. r \<noteq> 0 \<longrightarrow> oc_reg ?s5 ! r = (oc_reg s)[fst (du_rd u) := c, snd (du_rd u) := c] ! r" using regs by blast
  qed (use s3 s4 cur2 in \<open>auto simp: oc_kept_def oc_same_def\<close>)
  then show ?thesis using ret wf5 s4(2,3) by blast
qed

end

section \<open>A sequence of micro-operations\<close>

fun uops_ok :: "nat \<Rightarrow> nat \<Rightarrow> dyn_uop list \<Rightarrow> bool" where
  "uops_ok NR prev [] = True"
| "uops_ok NR prev (u # us) = (uop_ok NR u \<and> prev \<le> du_decCycle u \<and> uops_ok NR (du_decCycle u) us)"

definition n_ld :: "dyn_uop list \<Rightarrow> nat" where
  "n_ld us = sum_list (map is_ld us)"

definition n_st :: "dyn_uop list \<Rightarrow> nat" where
  "n_st us = sum_list (map is_st us)"

text \<open>\<open>timed us cs reg r\<close>: the operations \<open>us\<close> commit at the cycles \<open>cs\<close>, from the register scoreboard \<open>reg\<close> and the
  reorder buffer \<open>r\<close>: each one its own latency or more after its operands were there, and 6 cycles after its place in
  the reorder buffer was. Register 0 stands for no register.\<close>

fun timed :: "dyn_uop list \<Rightarrow> nat list \<Rightarrow> nat list \<Rightarrow> rob \<Rightarrow> bool" where
  "timed [] [] reg r = True"
| "timed (u # us) (c # cs) reg r =
     ((\<forall>x\<in>{fst (du_rs u), snd (du_rs u)}. x \<noteq> 0 \<longrightarrow> reg ! x + own_lat u \<le> c) \<and> rob_minAllocCycle r + 6 + own_lat u \<le> c \<and>
      timed us cs (reg[fst (du_rd u) := c, snd (du_rd u) := c]) (rob_markRetire 128 4 r c))"
| "timed _ _ reg r = False"

lemma timed_cong:
  "timed us cs reg r \<Longrightarrow> length reg' = length reg \<Longrightarrow> \<forall>x. x \<noteq> 0 \<longrightarrow> reg' ! x = reg ! x \<Longrightarrow> timed us cs reg' r"
proof (induction us cs reg r arbitrary: reg' rule: timed.induct)
  case (2 u us c cs reg r)
  let ?r = "reg[fst (du_rd u) := c, snd (du_rd u) := c]" and ?r' = "reg'[fst (du_rd u) := c, snd (du_rd u) := c]"
  have src: "\<forall>x\<in>{fst (du_rs u), snd (du_rs u)}. x \<noteq> 0 \<longrightarrow> reg ! x + own_lat u \<le> c" "rob_minAllocCycle r + 6 + own_lat u \<le> c"
    and t: "timed us cs ?r (rob_markRetire 128 4 r c)"
    using "2.prems"(1) unfolding timed.simps by blast+
  have "length ?r' = length ?r" using "2.prems"(2) by simp
  moreover have "\<forall>x. x \<noteq> 0 \<longrightarrow> ?r' ! x = ?r ! x"
    using "2.prems"(2,3) by (intro allI impI list_update_same_nth) simp_all
  ultimately have "timed us cs ?r' (rob_markRetire 128 4 r c)" by (rule "2.IH" [OF t])
  moreover have "\<forall>x\<in>{fst (du_rs u), snd (du_rs u)}. x \<noteq> 0 \<longrightarrow> reg' ! x + own_lat u \<le> c" using src(1) "2.prems"(3) by metis
  ultimately show ?case using src(2) unfolding timed.simps by blast
qed simp_all

text \<open>The registers after the operations \<open>us\<close> committed at \<open>cs\<close>.\<close>

fun reg_after :: "dyn_uop list \<Rightarrow> nat list \<Rightarrow> nat list \<Rightarrow> nat list" where
  "reg_after (u # us) (c # cs) reg = reg_after us cs (reg[fst (du_rd u) := c, snd (du_rd u) := c])"
| "reg_after _ _ reg = reg"

lemma reg_after_cong:
  "length reg' = length reg \<Longrightarrow> \<forall>x. x \<noteq> 0 \<longrightarrow> reg' ! x = reg ! x \<Longrightarrow> x \<noteq> 0 \<Longrightarrow> reg_after us cs reg' ! x = reg_after us cs reg ! x"
proof (induction us cs reg arbitrary: reg' rule: reg_after.induct)
  case (1 u us c cs reg)
  let ?r = "reg[fst (du_rd u) := c, snd (du_rd u) := c]" and ?r' = "reg'[fst (du_rd u) := c, snd (du_rd u) := c]"
  have "length ?r' = length ?r" using "1.prems"(1) by simp
  moreover have "\<forall>x. x \<noteq> 0 \<longrightarrow> ?r' ! x = ?r ! x"
    using "1.prems"(1,2) by (intro allI impI list_update_same_nth) simp_all
  ultimately have "reg_after us cs ?r' ! x = reg_after us cs ?r ! x" by (rule "1.IH") (rule "1.prems"(3))
  then show ?case by simp
qed simp_all

definition adrs_ok :: "(addr \<Rightarrow> bool) \<Rightarrow> ooo \<Rightarrow> bool" where
  "adrs_ok aok s \<longleftrightarrow> oc_loads s \<le> 256 \<and> oc_stores s \<le> 256 \<and> (\<forall>i<oc_loads s. oc_loadAddrs s ! i = -1 \<or> aok (oc_loadAddrs s ! i)) \<and>
     (\<forall>i<oc_stores s. aok (oc_storeAddrs s ! i))"

text \<open>The addresses that a misprediction fetches.\<close>

definition branch_ok :: "(addr \<Rightarrow> bool) \<Rightarrow> nat \<Rightarrow> ooo \<Rightarrow> bool" where
  "branch_ok aok lineBits s \<longleftrightarrow> (oc_branchPc s \<noteq> 0 \<longrightarrow>
     (\<forall>i<5 * 64 div 2 ^ lineBits. aok (oc_branchTakenNpc s + of_nat (2 ^ lineBits * i)) \<and> aok (oc_branchNotTakenNpc s + of_nat (2 ^ lineBits * i))))"

context core_env begin

lemma ooo_uops_run:
  "oc_wf NR s \<Longrightarrow> uops_ok NR prev us \<Longrightarrow> minv e \<Longrightarrow> adrs_ok aok s \<Longrightarrow> li + n_ld us \<le> oc_loads s \<Longrightarrow> si + n_st us \<le> oc_stores s \<Longrightarrow>
   (\<exists>s' e' cs. ooo_uops cm us prev li si lc s e = Some (s', e', li + n_ld us, si + n_st us, last (lc # cs)) \<and> minv e' \<and> glob e' = glob e \<and>
      oc_wf NR s' \<and> timed us cs (oc_reg s) (oc_rob s) \<and> oc_loads s' = oc_loads s \<and> oc_stores s' = oc_stores s \<and> oc_ctl s' = oc_ctl s \<and>
      oc_rob s' = fold (\<lambda>c r. rob_markRetire 128 4 r c) cs (oc_rob s) \<and> (\<forall>x. x \<noteq> 0 \<longrightarrow> oc_reg s' ! x = reg_after us cs (oc_reg s) ! x)) \<or>
   (\<exists>k<length us. \<exists>s' e' li' si' lc'. ooo_uops cm (take k us) prev li si lc s e = Some (s', e', li', si', lc') \<and> \<not> oc_near s')"
proof (induction us arbitrary: prev li si lc s e)
  case Nil
  then have "ooo_uops cm [] prev li si lc s e = Some (s, e, li + n_ld [], si + n_st [], last (lc # []))" by (simp add: n_ld_def n_st_def)
  then show ?case using Nil by (intro disjI1 exI [of _ s] exI [of _ e] exI [of _ "[]"]) simp
next
  case (Cons u us)
  show ?case
  proof (cases "oc_near s")
    case False
    then have "ooo_uops cm (take 0 (u # us)) prev li si lc s e = Some (s, e, li, si, lc) \<and> \<not> oc_near s" by simp
    then show ?thesis by (intro disjI2 exI [of _ 0]) auto
  next
    case True
    have n: "n_ld (u # us) = is_ld u + n_ld us" "n_st (u # us) = is_st u + n_st us" by (simp_all add: n_ld_def n_st_def)
    have "lsu_ok aok u li si s"
      using Cons.prems(4,5,6) by (auto simp: lsu_ok_def adrs_ok_def n is_ld_def is_st_def split: if_splits)
    moreover have "uop_ok NR u" "prev \<le> du_decCycle u" "uops_ok NR (du_decCycle u) us" using Cons.prems(2) by simp_all
    ultimately obtain s1 e1 c where 1: "ooo_uop cm u prev li si s e = Some (s1, e1, li + is_ld u, si + is_st u, c)" "minv e1"
        "glob e1 = glob e" "oc_wf NR s1" "uop_result u s s1 c"
      using ooo_uop_returns [OF Cons.prems(1) True _ _ Cons.prems(3)] by blast
    note r = 1(5) [unfolded uop_result_def]
    have "adrs_ok aok s1" "li + is_ld u + n_ld us \<le> oc_loads s1" "si + is_st u + n_st us \<le> oc_stores s1"
      using Cons.prems(4,5,6) r n by (simp_all add: adrs_ok_def)
    note IH = Cons.IH [OF 1(4) \<open>uops_ok NR (du_decCycle u) us\<close> 1(2) this, of c]
    have step: "ooo_uops cm (u # vs) prev li si lc s e = ooo_uops cm vs (du_decCycle u) (li + is_ld u) (si + is_st u) c s1 e1" for vs
      by (simp add: 1(1))
    from IH show ?thesis
    proof
      assume "\<exists>s' e' cs. ooo_uops cm us (du_decCycle u) (li + is_ld u) (si + is_st u) c s1 e1 =
            Some (s', e', li + is_ld u + n_ld us, si + is_st u + n_st us, last (c # cs)) \<and> minv e' \<and> glob e' = glob e1 \<and>
          oc_wf NR s' \<and> timed us cs (oc_reg s1) (oc_rob s1) \<and> oc_loads s' = oc_loads s1 \<and> oc_stores s' = oc_stores s1 \<and> oc_ctl s' = oc_ctl s1 \<and>
          oc_rob s' = fold (\<lambda>c r. rob_markRetire 128 4 r c) cs (oc_rob s1) \<and> (\<forall>x. x \<noteq> 0 \<longrightarrow> oc_reg s' ! x = reg_after us cs (oc_reg s1) ! x)"
      then obtain s' e' cs where i: "ooo_uops cm us (du_decCycle u) (li + is_ld u) (si + is_st u) c s1 e1 =
            Some (s', e', li + is_ld u + n_ld us, si + is_st u + n_st us, last (c # cs))" "minv e'" "glob e' = glob e1" "oc_wf NR s'"
          "timed us cs (oc_reg s1) (oc_rob s1)" "oc_loads s' = oc_loads s1" "oc_stores s' = oc_stores s1" "oc_ctl s' = oc_ctl s1"
          "oc_rob s' = fold (\<lambda>c r. rob_markRetire 128 4 r c) cs (oc_rob s1)" "\<forall>x. x \<noteq> 0 \<longrightarrow> oc_reg s' ! x = reg_after us cs (oc_reg s1) ! x"
        by (elim exE conjE) (rule that)
      let ?reg = "(oc_reg s)[fst (du_rd u) := c, snd (du_rd u) := c]"
      have len: "length (oc_reg s1) = length ?reg" using Cons.prems(1) 1(4) by (simp add: oc_wf_def)
      have eq: "\<forall>x. x \<noteq> 0 \<longrightarrow> oc_reg s1 ! x = ?reg ! x" using r by blast
      have regs: "\<forall>x. x \<noteq> 0 \<longrightarrow> oc_reg s' ! x = reg_after (u # us) (c # cs) (oc_reg s) ! x"
        using reg_after_cong [OF len eq, of _ us cs] i(10) by simp
      have rob: "oc_rob s' = fold (\<lambda>c r. rob_markRetire 128 4 r c) (c # cs) (oc_rob s)" using i(9) r by simp
      have "timed us cs ?reg (rob_markRetire 128 4 (oc_rob s) c)"
        using timed_cong [OF i(5) len [symmetric]] eq r by simp
      then have "timed (u # us) (c # cs) (oc_reg s) (oc_rob s)" using r by simp
      moreover have "ooo_uops cm (u # us) prev li si lc s e = Some (s', e', li + n_ld (u # us), si + n_st (u # us), last (lc # c # cs))"
        unfolding step i(1) n by (simp add: add.assoc)
      ultimately show ?thesis using i 1(3) r regs rob by (intro disjI1 exI [of _ s'] exI [of _ e'] exI [of _ "c # cs"] conjI) (assumption | simp)+
    next
      assume "\<exists>k<length us. \<exists>s' e' li' si' lc'. ooo_uops cm (take k us) (du_decCycle u) (li + is_ld u) (si + is_st u) c s1 e1 =
          Some (s', e', li', si', lc') \<and> \<not> oc_near s'"
      then obtain k s' e' li' si' lc' where "k < length us" "\<not> oc_near s'"
        "ooo_uops cm (take k us) (du_decCycle u) (li + is_ld u) (si + is_st u) c s1 e1 = Some (s', e', li', si', lc')" by blast
      then show ?thesis using step [of "take k us"] by (intro disjI2 exI [of _ "Suc k"]) auto
    qed
  qed
qed

section \<open>The frontend returns\<close>

lemma ooo_rec_wf [simp]: "oc_wf NR (s\<lparr>oc_rec := rs\<rparr>) = oc_wf NR s"
  by (simp add: oc_wf_def)

definition oc_front :: "nat \<Rightarrow> ooo \<Rightarrow> ooo \<Rightarrow> bool" where
  "oc_front NR s s' \<longleftrightarrow> oc_wf NR s' \<and> oc_loads s' = oc_loads s \<and> oc_stores s' = oc_stores s \<and> oc_prevBbl s' = oc_prevBbl s \<and>
     co_phaseEndCycle s' = co_phaseEndCycle s \<and> oc_decodeCycle s' = oc_decodeCycle s \<and> oc_reg s' = oc_reg s \<and> oc_rob s' = oc_rob s"

lemma oc_front_rec: "oc_wf NR s \<Longrightarrow> oc_front NR s (s\<lparr>oc_rec := rs\<rparr>)"
  by (simp add: oc_front_def)

lemma oc_front_trans: "oc_front NR a b \<Longrightarrow> oc_front NR b c \<Longrightarrow> oc_front NR a c"
  by (simp add: oc_front_def)

lemma ooo_wrong_path_returns:
  "minv e \<Longrightarrow> oc_wf NR s \<Longrightarrow> \<forall>i\<in>set is. aok (a + of_nat (lineSize * i)) \<Longrightarrow>
   \<exists>s' e'. ooo_wrong_path cm lineSize a lc is req s e = Some (s', e') \<and> minv e' \<and> glob e' = glob e \<and> oc_front NR s s'"
proof (induction "is" arbitrary: req s e)
  case Nil
  then show ?case by (simp add: oc_front_def)
next
  case (Cons i js)
  obtain e1 r where f: "cm_ifetch cm (a + of_nat (lineSize * i)) (co_curCycle s) e = Some (e1, r)" "minv e1" "glob e1 = glob e"
    using ifetch [OF Cons.prems(1), of "a + of_nat (lineSize * i)"] Cons.prems(3) by fastforce
  let ?s = "s\<lparr>oc_rec := oc_rec s @ [(co_curCycle s, co_curCycle s, co_curCycle s + (r - co_curCycle s))]\<rparr>"
  have fr: "oc_front NR s ?s" by (rule oc_front_rec [OF Cons.prems(2)])
  have step: "ooo_wrong_path cm lineSize a lc (i # js) req s e =
      (if req + (r - co_curCycle s) > lc then Some (?s, e1)
       else ooo_wrong_path cm lineSize a lc js (req + (r - co_curCycle s) + lineSize div 16) ?s e1)"
    using f(1) by (simp add: Let_def)
  show ?case
  proof (cases "req + (r - co_curCycle s) > lc")
    case True
    then show ?thesis unfolding step using f fr by simp
  next
    case False
    have "oc_wf NR ?s" "\<forall>i\<in>set js. aok (a + of_nat (lineSize * i))" using Cons.prems by simp_all
    from Cons.IH [OF f(2) this, of "req + (r - co_curCycle s) + lineSize div 16"] obtain s' e' where
      "ooo_wrong_path cm lineSize a lc js (req + (r - co_curCycle s) + lineSize div 16) ?s e1 = Some (s', e')" "minv e'" "glob e' = glob e1"
      "oc_front NR ?s s'" by blast
    then show ?thesis unfolding step using False f(3) oc_front_trans [OF fr] by auto
  qed
qed

lemma ooo_ifetch_seq_returns:
  "minv e \<Longrightarrow> oc_wf NR s \<Longrightarrow> \<forall>a\<in>set as. aok a \<Longrightarrow>
   \<exists>s' e' c. fetch_seq (ooo_ifetch cm) as fc (s, e) = Some ((s', e'), c) \<and> minv e' \<and> glob e' = glob e \<and> oc_front NR s s' \<and> fc \<le> c"
proof (induction as arbitrary: fc s e)
  case Nil
  then show ?case by (simp add: oc_front_def)
next
  case (Cons a as)
  obtain e1 r where f: "cm_ifetch cm a (co_curCycle s) e = Some (e1, r)" "minv e1" "glob e1 = glob e"
    using ifetch [OF Cons.prems(1), of a] Cons.prems(3) by fastforce
  let ?s = "s\<lparr>oc_rec := oc_rec s @ [(co_curCycle s, co_curCycle s, co_curCycle s + (r - co_curCycle s))]\<rparr>"
  have fr: "oc_front NR s ?s" by (rule oc_front_rec [OF Cons.prems(2)])
  have "oc_wf NR ?s" "\<forall>a\<in>set as. aok a" using Cons.prems by simp_all
  from Cons.IH [OF f(2) this, of "fc + (r - co_curCycle s)"] obtain s' e' c where
    i: "fetch_seq (ooo_ifetch cm) as (fc + (r - co_curCycle s)) (?s, e1) = Some ((s', e'), c)" "minv e'" "glob e' = glob e1"
      "oc_front NR ?s s'" "fc + (r - co_curCycle s) \<le> c" by blast
  have "fetch_seq (ooo_ifetch cm) (a # as) fc (s, e) = Some ((s', e'), c)"
    using f(1) i(1) by (simp add: ooo_ifetch_def Let_def)
  then show ?case using i f(3) oc_front_trans [OF fr i(4)] by auto
qed

lemma ooo_predict_returns:
  assumes m: "minv e" and wf: "oc_wf NR s" and b: "branch_ok aok lineBits s"
  shows "\<exists>s' e' fc'. ooo_predict cm (2 ^ lineBits) lc fc s e = Some (s', e', fc') \<and> minv e' \<and> glob e' = glob e \<and> oc_front NR s s'"
proof -
  define s1 where "s1 = (if oc_branchPc s \<noteq> 0 then s\<lparr>oc_condBranches := oc_condBranches s + 1\<rparr> else s)"
  have s1: "oc_front NR s s1" "oc_branchPc s1 = oc_branchPc s" "oc_branchTakenNpc s1 = oc_branchTakenNpc s"
    "oc_branchNotTakenNpc s1 = oc_branchNotTakenNpc s"
    using wf by (auto simp: s1_def oc_front_def oc_wf_def)
  obtain s2 ok where 2: "(if oc_branchPc s1 \<noteq> 0
         then map_option (\<lambda>(p, ok). (s1\<lparr>oc_branchPred := p\<rparr>, ok)) (bp_predict 11 18 14 (oc_branchPred s1) (oc_branchPc s1) (oc_branchTaken s1))
         else Some (s1, True)) = Some (s2, ok)"
    and s2: "oc_front NR s s2" "oc_branchPc s1 = 0 \<Longrightarrow> ok" "oc_branchTakenNpc s2 = oc_branchTakenNpc s"
      "oc_branchNotTakenNpc s2 = oc_branchNotTakenNpc s"
  proof (cases "oc_branchPc s1 = 0")
    case True
    then show ?thesis using s1 that by simp
  next
    case False
    have ok: "bp_ok 11 18 14 (oc_branchPred s1)" using s1(1) by (simp add: oc_front_def oc_wf_def)
    have n: "(0 :: nat) < 18" "(18 :: nat) < 32" "(11 :: nat) < 32" "(14 :: nat) < 32" by simp_all
    obtain p where p: "\<exists>x. bp_predict 11 18 14 (oc_branchPred s1) (oc_branchPc s1) (oc_branchTaken s1) = Some (p, x)" "bp_ok 11 18 14 p"
      by (rule bp_predict_ok [OF ok n, of "oc_branchPc s1" "oc_branchTaken s1"]) blast
    then obtain x where "bp_predict 11 18 14 (oc_branchPred s1) (oc_branchPc s1) (oc_branchTaken s1) = Some (p, x)" by blast
    moreover have "oc_front NR s (s1\<lparr>oc_branchPred := p\<rparr>)" using s1(1) p(2) by (auto simp: oc_front_def oc_wf_def)
    ultimately show ?thesis using False s1 that [of "s1\<lparr>oc_branchPred := p\<rparr>" x] by simp
  qed
  obtain s5 e5 fc5 where 5: "(if ok then Some (s2, e, fc)
         else map_option (\<lambda>(s4, e4). (s4, e4, lc))
             (ooo_wrong_path cm (2 ^ lineBits) (if oc_branchTaken s2 then oc_branchNotTakenNpc s2 else oc_branchTakenNpc s2) lc
                [0..<5 * 64 div 2 ^ lineBits] fc (s2\<lparr>oc_mispredBranches := oc_mispredBranches s2 + 1\<rparr>) e)) = Some (s5, e5, fc5)"
    and s5: "minv e5" "glob e5 = glob e" "oc_front NR s s5"
  proof (cases ok)
    case True
    then show ?thesis using m s2(1) that by simp
  next
    case False
    let ?s3 = "s2\<lparr>oc_mispredBranches := oc_mispredBranches s2 + 1\<rparr>"
      and ?a = "if oc_branchTaken s2 then oc_branchNotTakenNpc s2 else oc_branchTakenNpc s2"
    have f3: "oc_front NR s ?s3" using s2(1) by (auto simp: oc_front_def oc_wf_def)
    then have wf3: "oc_wf NR ?s3" by (simp add: oc_front_def)
    have "oc_branchPc s \<noteq> 0" using False s2(2) s1(2) by auto
    then have "\<forall>i\<in>set [0..<5 * 64 div 2 ^ lineBits]. aok (?a + of_nat (2 ^ lineBits * i))"
      using b s2(3,4) by (auto simp: branch_ok_def)
    from ooo_wrong_path_returns [OF m wf3 this, of lc fc] obtain s4 e4 where
      "ooo_wrong_path cm (2 ^ lineBits) ?a lc [0..<5 * 64 div 2 ^ lineBits] fc ?s3 e = Some (s4, e4)" "minv e4" "glob e4 = glob e" "oc_front NR ?s3 s4"
      by blast
    then show ?thesis using False oc_front_trans [OF f3] that by simp
  qed
  have "ooo_predict cm (2 ^ lineBits) lc fc s e = Some (s5\<lparr>oc_branchPc := 0\<rparr>, e5, fc5)"
    unfolding ooo_predict_def s1_def [symmetric] Let_def 2 bind.bind_lunit prod.case
    using 5 by (simp cong: if_cong)
  moreover have "oc_front NR s (s5\<lparr>oc_branchPc := 0\<rparr>)" using s5(3) by (auto simp: oc_front_def oc_wf_def)
  ultimately show ?thesis using s5 by blast
qed

end

section \<open>A basic block returns\<close>

definition prev_ok :: "nat \<Rightarrow> ooo \<Rightarrow> bool" where
  "prev_ok NR s \<longleftrightarrow> (case oc_prevBbl s of None \<Rightarrow> True
     | Some pb \<Rightarrow> uops_ok NR 0 (ob_uops pb) \<and> n_ld (ob_uops pb) = oc_loads s \<and> n_st (ob_uops pb) = oc_stores s)"

text \<open>\<open>bbl_timed\<close>: the state after a block is the one that its micro-operations committing at some cycles \<open>cs\<close> lead to.\<close>

definition bbl_timed :: "ooo \<Rightarrow> ooo \<Rightarrow> bool" where
  "bbl_timed s s' \<longleftrightarrow> (\<forall>pb. oc_prevBbl s = Some pb \<longrightarrow>
     (\<exists>cs. timed (ob_uops pb) cs (oc_reg s) (oc_rob s) \<and> oc_rob s' = fold (\<lambda>c r. rob_markRetire 128 4 r c) cs (oc_rob s) \<and>
        (\<forall>x. x \<noteq> 0 \<longrightarrow> oc_reg s' ! x = reg_after (ob_uops pb) cs (oc_reg s) ! x)))"

text \<open>\<open>far_ahead\<close>: some micro-operation of the previous block is reached in a state with cycles too far ahead.\<close>

definition far_ahead :: "'e core_mem \<Rightarrow> ooo_bbl_info \<Rightarrow> ooo \<Rightarrow> 'e \<Rightarrow> bool" where
  "far_ahead cm bi s e \<longleftrightarrow> (\<exists>pb. oc_prevBbl s = Some pb \<and> (\<exists>k<length (ob_uops pb). \<exists>s' e' li si lc.
     ooo_uops cm (take k (ob_uops pb)) 0 0 0 0 (s\<lparr>oc_prevBbl := Some bi\<rparr>) e = Some (s', e', li, si, lc) \<and> \<not> oc_near s'))"

context core_env begin

lemma ooo_bbl_returns:
  assumes wf: "oc_wf NR s" and ad: "adrs_ok aok s" and m: "minv e" and br: "branch_ok aok lineBits s" and lb: "lineBits < 64"
    and f: "unat a + bi_bytes bi + 2 ^ lineBits \<le> 2 ^ 64" "\<forall>x\<in>set (fetch_addrs lineBits a (bi_bytes bi)). aok x" and pv: "prev_ok NR s"
  shows "(\<exists>s' e'. ooo_bbl cm lineBits a bi s e = Some (s', e') \<and> minv e' \<and> glob e' = glob e \<and> oc_wf NR s' \<and> oc_loads s' = 0 \<and>
      oc_stores s' = 0 \<and> oc_prevBbl s' = Some bi \<and> co_phaseEndCycle s' = co_phaseEndCycle s \<and> bbl_timed s s') \<or> far_ahead cm bi s e"
proof (cases "oc_prevBbl s")
  case None
  then have "ooo_bbl cm lineBits a bi s e = Some (s\<lparr>oc_prevBbl := Some bi, oc_loads := 0, oc_stores := 0\<rparr>, e)" by (simp add: ooo_bbl_def)
  then show ?thesis using wf m None by (intro disjI1) (simp add: oc_wf_def bbl_timed_def)
next
  case (Some pb)
  let ?s = "s\<lparr>oc_prevBbl := Some bi\<rparr>"
  have wf0: "oc_wf NR ?s" "adrs_ok aok ?s" using wf ad by (simp_all add: oc_wf_def adrs_ok_def)
  have us: "uops_ok NR 0 (ob_uops pb)" and n: "0 + n_ld (ob_uops pb) \<le> oc_loads ?s" "0 + n_st (ob_uops pb) \<le> oc_stores ?s"
    and nn: "n_ld (ob_uops pb) = oc_loads s" "n_st (ob_uops pb) = oc_stores s"
    using pv Some by (simp_all add: prev_ok_def)
  from ooo_uops_run [OF wf0(1) us m wf0(2) n, of 0] show ?thesis
  proof
    assume "\<exists>k<length (ob_uops pb). \<exists>s' e' li' si' lc'. ooo_uops cm (take k (ob_uops pb)) 0 0 0 0 ?s e = Some (s', e', li', si', lc') \<and> \<not> oc_near s'"
    then show ?thesis using Some unfolding far_ahead_def by blast
  next
    assume "\<exists>s' e' cs. ooo_uops cm (ob_uops pb) 0 0 0 0 ?s e = Some (s', e', 0 + n_ld (ob_uops pb), 0 + n_st (ob_uops pb), last (0 # cs)) \<and>
        minv e' \<and> glob e' = glob e \<and> oc_wf NR s' \<and> timed (ob_uops pb) cs (oc_reg ?s) (oc_rob ?s) \<and> oc_loads s' = oc_loads ?s \<and>
        oc_stores s' = oc_stores ?s \<and> oc_ctl s' = oc_ctl ?s \<and> oc_rob s' = fold (\<lambda>c r. rob_markRetire 128 4 r c) cs (oc_rob ?s) \<and>
        (\<forall>x. x \<noteq> 0 \<longrightarrow> oc_reg s' ! x = reg_after (ob_uops pb) cs (oc_reg ?s) ! x)"
    then obtain s1 e1 cs where 1: "ooo_uops cm (ob_uops pb) 0 0 0 0 ?s e = Some (s1, e1, 0 + n_ld (ob_uops pb), 0 + n_st (ob_uops pb), last (0 # cs))"
        "minv e1" "glob e1 = glob e" "oc_wf NR s1" "timed (ob_uops pb) cs (oc_reg ?s) (oc_rob ?s)" "oc_loads s1 = oc_loads ?s"
        "oc_stores s1 = oc_stores ?s" "oc_ctl s1 = oc_ctl ?s" "oc_rob s1 = fold (\<lambda>c r. rob_markRetire 128 4 r c) cs (oc_rob ?s)"
        "\<forall>x. x \<noteq> 0 \<longrightarrow> oc_reg s1 ! x = reg_after (ob_uops pb) cs (oc_reg ?s) ! x"
      by (elim exE conjE) (rule that)
    define s2 where "s2 = s1\<lparr>co_instrs := co_instrs s1 + bi_instrs pb, oc_uops := oc_uops s1 + length (ob_uops pb), oc_bbls := oc_bbls s1 + 1,
        oc_approxInstrs := oc_approxInstrs s1 + ob_approxInstrs pb\<rparr>"
    define s3 where "s3 = s2\<lparr>oc_loads := 0, oc_stores := 0\<rparr>"
    have wf3: "oc_wf NR s3" using 1(4) by (simp add: s3_def s2_def oc_wf_def)
    have br3: "branch_ok aok lineBits s3" using br 1(8) by (simp add: branch_ok_def oc_ctl_def s3_def s2_def)
    obtain s4 e4 fc4 where 4: "ooo_predict cm (2 ^ lineBits) (last (0 # cs)) (oc_decodeCycle s3 - (4 - 1)) s3 e1 = Some (s4, e4, fc4)" "minv e4"
        "glob e4 = glob e1" "oc_front NR s3 s4"
      using ooo_predict_returns [OF 1(2) wf3 br3] by blast
    have wf4: "oc_wf NR s4" using 4(4) by (simp add: oc_front_def)
    obtain s5 e5 fc5 where 5: "fetch_seq (ooo_ifetch cm) (fetch_addrs lineBits a (bi_bytes bi)) fc4 (s4, e4) = Some ((s5, e5), fc5)" "minv e5"
        "glob e5 = glob e4" "oc_front NR s4 s5"
      using ooo_ifetch_seq_returns [OF 4(2) wf4 f(2)] by blast
    let ?s6 = "s5\<lparr>oc_decodeCycle := oc_decodeCycle s5 + 1\<rparr>"
    let ?s7 = "if fc5 + (4 - 1) > oc_decodeCycle ?s6 then ?s6\<lparr>oc_decodeCycle := fc5 + (4 - 1)\<rparr> else ?s6"
    have "oc_loads s2 = n_ld (ob_uops pb)" "oc_stores s2 = n_st (ob_uops pb)" using 1(6,7) nn by (simp_all add: s2_def)
    then have "ooo_bbl cm lineBits a bi s e = Some (?s7, e5)"
      unfolding ooo_bbl_def Some option.case 1(1) bind.bind_lunit prod.case Let_def s2_def [symmetric] s3_def [symmetric] 4(1)
      using 4(1) 5(1) by (simp add: fetch_loop_seq [OF lb f(1)] s3_def)
    moreover have fr: "oc_front NR s3 s5" by (rule oc_front_trans [OF 4(4) 5(4)])
    then have "oc_wf NR ?s7" "oc_loads ?s7 = 0" "oc_stores ?s7 = 0" by (auto simp: oc_front_def oc_wf_def s3_def)
    moreover have "oc_prevBbl ?s7 = Some bi" "co_phaseEndCycle ?s7 = co_phaseEndCycle s"
      using fr 1(8) by (auto simp: oc_front_def s3_def s2_def oc_ctl_def)
    moreover have "oc_reg ?s7 = oc_reg s1" "oc_rob ?s7 = oc_rob s1" using fr by (auto simp: oc_front_def s3_def s2_def)
    then have "bbl_timed s ?s7" using Some 1(5,9,10) by (auto simp: bbl_timed_def)
    ultimately show ?thesis using 1(3) 4(3) 5(2,3) by (intro disjI1 exI [of _ ?s7] exI [of _ e5]) simp
  qed
qed

end

section \<open>Advancing, and predicated stores\<close>

lemma iw_longAdvance_returns:
  assumes "iw_inv H WSZ w cur" and "cur \<le> target"
  shows "\<exists>w'. iw_longAdvance H w cur target = Some (w', target)"
proof -
  obtain w' c' where "iw_empty H w cur target = Some (w', c')" "c' \<le> target" "iw_occupancy w' = 0 \<or> c' = target"
    using iw_empty_drains [OF assms(2,1)] by blast
  then show ?thesis using assms(2) by (cases "iw_occupancy w' = 0") (simp_all add: iw_longAdvance_def)
qed

text \<open>Every jump of the core to a later cycle returns; the frontend moves with it.\<close>

lemma ooo_advance_returns:
  assumes "oc_wf NR s" and "co_curCycle s < target"
  shows "\<exists>s'. ooo_advance target s = Some s' \<and> co_curCycle s' = target \<and>
    oc_decodeCycle s' - co_curCycle s' = oc_decodeCycle s - co_curCycle s"
proof -
  have "iw_inv 1024 36 (oc_insWindow s) (co_curCycle s)" using assms(1) by (simp add: oc_wf_def)
  then obtain w where "iw_longAdvance 1024 (oc_insWindow s) (co_curCycle s) target = Some (w, target)"
    using iw_longAdvance_returns assms(2) by (metis less_imp_le)
  then show ?thesis using assms(2) by (simp add: ooo_advance_def Let_def)
qed

text \<open>A predicated store that is not executed is recorded with address -1, as a load is; but the store, unlike the load, is
  sent to the cache.\<close>

lemma false_store_accesses_cache:
  assumes "ooo_predFalseStore s = Some s1" and "ooo_exec_store cm d (oc_stores s) s1 e = Some (s2, e2, c)"
  shows "\<exists>cyc r. cm_store cm (-1) cyc e = Some (e2, r)"
proof -
  have s1: "s1 = s\<lparr>oc_storeAddrs := (oc_storeAddrs s)[oc_stores s := -1], oc_stores := oc_stores s + 1\<rparr>" "oc_stores s < length (oc_storeAddrs s)"
    using assms(1) by (auto simp: ooo_predFalseStore_def ooo_store_def bind_eq_Some_conv)
  let ?d = "max (oc_lastStoreAddrCommit s1 + 1) (max (rob_minAllocCycle (oc_storeQueue s1)) d)"
  have a: "oc_stores s < length (oc_storeAddrs s1) \<and> oc_storeAddrs s1 ! oc_stores s = -1" using s1 by simp
  show ?thesis
  proof (cases "cm_store cm (-1) ?d e")
    case None
    then show ?thesis using assms(2) a by (simp add: ooo_exec_store_def Let_def)
  next
    case (Some x)
    then have "fst x = e2" using assms(2) a by (cases x) (simp add: ooo_exec_store_def Let_def)
    then show ?thesis using Some by (metis prod.collapse)
  qed
qed

lemma false_load_skips_cache:
  assumes "ooo_predFalseLoad s = Some s1" and "ooo_exec_load cm d (oc_loads s) s1 e = Some (s2, e2, c)"
  shows "e2 = e"
  using assms
  by (cases "oc_fwd s ! fwd_idx (-1)") (auto simp: ooo_predFalseLoad_def ooo_load_def ooo_exec_load_def Let_def bind_eq_Some_conv)

end
