(* ===== verification/Barrier_Wait.thy ===== *)
theory Barrier_Wait
  imports Barrier_Sync
begin

text \<open>
  What the barrier of \<open>Barrier_Sync\<close> does to a core that waits at it, while other cores sync, join and leave: \<open>TakeBarrier\<close>
  of \<^verbatim>\<open>zsim/src/zsim.cpp\<close> for a thread that keeps its core, which is \<open>sync\<close> of \<^verbatim>\<open>zsim/src/scheduler.h\<close> up to the handoff.
  The core is woken after exactly one end of a phase.
\<close>

section \<open>Waiting\<close>

definition ev_core :: "bar_event \<Rightarrow> nat" where
  "ev_core ev = (case ev of Join u \<Rightarrow> u | Leave u \<Rightarrow> u | Sync u \<Rightarrow> u)"

text \<open>The operations of other cores, one after the other, until core \<open>t\<close> runs. One that is not permitted when its turn comes
  does not take place.\<close>

fun bar_others :: "('r \<Rightarrow> nat \<Rightarrow> (nat \<times> 'r) option) \<Rightarrow> ('w \<Rightarrow> 'w) \<Rightarrow> nat \<Rightarrow> bar_event list \<Rightarrow> ('r, 'w) barrier \<Rightarrow> ('r, 'w) barrier option" where
  "bar_others rand callback t [] b = Some b"
| "bar_others rand callback t (ev # evs) b =
     (if ba_state b t = RUNNING then Some b
      else if ev_core ev = t \<or> \<not> bar_enabled ev b then bar_others rand callback t evs b
      else Option.bind (bar_exec rand callback ev b) (bar_others rand callback t evs))"

text \<open>After them the cores that run only sync, in the order of \<open>pick\<close>, until core \<open>t\<close> runs.\<close>

partial_function (option) bar_drain :: "('r \<Rightarrow> nat \<Rightarrow> (nat \<times> 'r) option) \<Rightarrow> ('w \<Rightarrow> 'w) \<Rightarrow> (('r, 'w) barrier \<Rightarrow> nat) \<Rightarrow> nat \<Rightarrow>
    ('r, 'w) barrier \<Rightarrow> ('r, 'w) barrier option" where
  "bar_drain rand callback pick t b =
     (if ba_state b t = RUNNING then Some b
      else Option.bind (bar_sync rand callback (pick b) b) (bar_drain rand callback pick t))"

text \<open>\<open>sync\<close> of core \<open>t\<close>, until it returns.\<close>

definition bar_wait :: "('r \<Rightarrow> nat \<Rightarrow> (nat \<times> 'r) option) \<Rightarrow> ('w \<Rightarrow> 'w) \<Rightarrow> (('r, 'w) barrier \<Rightarrow> nat) \<Rightarrow> bar_event list \<Rightarrow> nat \<Rightarrow>
    ('r, 'w) barrier \<Rightarrow> ('r, 'w) barrier option" where
  "bar_wait rand callback pick evs t b =
     Option.bind (bar_sync rand callback t b) (\<lambda>b1.
     Option.bind (bar_others rand callback t evs b1) (bar_drain rand callback pick t))"

definition picks :: "(('r, 'w) barrier \<Rightarrow> nat) \<Rightarrow> bool" where
  "picks pick \<longleftrightarrow> (\<forall>b. (\<exists>u. ba_state b u = RUNNING) \<longrightarrow> ba_state b (pick b) = RUNNING)"

section \<open>One end of a phase\<close>

text \<open>Core \<open>t\<close> since it synced in the phase of \<open>g\<close>: it waits behind \<open>curThreadIdx\<close> until the phase ends, then before it, and
  then it runs.\<close>

definition bw_inv :: "'w \<Rightarrow> 'w \<Rightarrow> nat \<Rightarrow> ('r, 'w) barrier \<Rightarrow> bool" where
  "bw_inv g g' t b \<longleftrightarrow> bar_inv b \<and>
     (ba_state b t = WAITING \<and> ba_sched b = g \<and> (\<exists>i<ba_curThreadIdx b. ba_runList b ! i = t) \<or>
      ba_state b t = WAITING \<and> ba_sched b = g' \<and> (\<exists>i<length (ba_runList b). ba_curThreadIdx b \<le> i \<and> ba_runList b ! i = t) \<or>
      ba_state b t = RUNNING \<and> ba_sched b = g')"

definition bw_left :: "('r, 'w) barrier \<Rightarrow> nat" where
  "bw_left b = 2 * (length (ba_runList b) - ba_curThreadIdx b) + ba_runningThreads b"

lemma checkRunList_frame:
  "distinct (ba_runList b) \<Longrightarrow> ba_curThreadIdx b \<le> length (ba_runList b) \<Longrightarrow> bar_checkRunList b = Some b' \<Longrightarrow>
   (\<forall>i<ba_curThreadIdx b. ba_state b' (ba_runList b ! i) = ba_state b (ba_runList b ! i)) \<and> bw_left b' \<le> bw_left b"
proof (induction b rule: bar_checkRunList.induct)
  case (1 b)
  let ?idx = "ba_curThreadIdx b" and ?rl = "ba_runList b"
  let ?t = "?rl ! ?idx"
  show ?case
  proof (cases "ba_runningThreads b < ba_parallelThreads b \<and> ?idx < length ?rl")
    case go: True
    have ne: "?rl ! i \<noteq> ?t" if "i < ?idx" for i using that go "1.prems"(1) by (simp add: nth_eq_iff_index_eq)
    show ?thesis
    proof (cases "ba_state b ?t = WAITING")
      case w: True
      then have f: "ba_futexWord b ?t = 1" using go "1.prems"(3) by (subst (asm) bar_checkRunList.simps) (auto simp: Let_def split: if_splits)
      let ?b = "b\<lparr>ba_curThreadIdx := ?idx + 1, ba_state := (ba_state b)(?t := RUNNING), ba_lastIdx := (ba_lastIdx b)(?t := ?idx),
        ba_futexWord := (ba_futexWord b)(?t := 0), ba_runningThreads := ba_runningThreads b + 1\<rparr>"
      have "bar_checkRunList ?b = Some b'" using "1.prems"(3) go w f by (subst (asm) bar_checkRunList.simps) (simp add: Let_def)
      then have "(\<forall>i<?idx + 1. ba_state b' (?rl ! i) = ba_state ?b (?rl ! i)) \<and> bw_left b' \<le> bw_left ?b"
        using "1.IH"(1) [OF go refl refl refl w f] "1.prems" go by simp
      then show ?thesis using ne go by (auto simp: bw_left_def)
    next
      case nw: False
      have "bar_checkRunList (b\<lparr>ba_curThreadIdx := ?idx + 1\<rparr>) = Some b'"
        using "1.prems"(3) go nw by (subst (asm) bar_checkRunList.simps) (simp add: Let_def)
      then have "(\<forall>i<?idx + 1. ba_state b' (?rl ! i) = ba_state b (?rl ! i)) \<and> bw_left b' \<le> bw_left (b\<lparr>ba_curThreadIdx := ?idx + 1\<rparr>)"
        using "1.IH"(2) [OF go refl refl refl nw] "1.prems" go by simp
      then show ?thesis using go by (auto simp: bw_left_def)
    qed
  next
    case stop: False
    then have ns: "(ba_runningThreads b < ba_parallelThreads b \<and> ?idx < length ?rl) = False" by simp
    have "bar_checkRunList b = Some b" by (subst bar_checkRunList.simps) (simp only: ns if_False)
    then show ?thesis using "1.prems"(3) by simp
  qed
qed

lemma bw_checkRunList:
  assumes w: "bw_inv g g' t b"
  shows "\<exists>b'. bar_checkRunList b = Some b' \<and> bw_inv g g' t b' \<and> ba_sched b' = ba_sched b \<and> bw_left b' \<le> bw_left b"
proof -
  have inv: "bar_inv b" using w by (simp add: bw_inv_def)
  then have d: "distinct (ba_runList b)" "ba_curThreadIdx b \<le> length (ba_runList b)" by (simp_all add: bar_inv_def bar_list_def)
  obtain b' where b': "bar_checkRunList b = Some b'" "bar_inv b'" "ba_runList b' = ba_runList b" "ba_sched b' = ba_sched b"
      "ba_curThreadIdx b \<le> ba_curThreadIdx b'"
      "\<forall>t. ba_state b' t = ba_state b t \<or> ba_state b t = WAITING \<and> ba_state b' t = RUNNING"
      "\<forall>i. ba_curThreadIdx b \<le> i \<longrightarrow> i < ba_curThreadIdx b' \<longrightarrow> ba_state b' (ba_runList b ! i) \<noteq> WAITING"
    using bar_checkRunList_ok [OF inv] by blast
  note F = checkRunList_frame [OF d b'(1)]
  consider (before) i where "ba_state b t = WAITING" "ba_sched b = g" "i < ba_curThreadIdx b" "ba_runList b ! i = t"
    | (after) i where "ba_state b t = WAITING" "ba_sched b = g'" "i < length (ba_runList b)" "ba_curThreadIdx b \<le> i" "ba_runList b ! i = t"
    | (run) "ba_state b t = RUNNING" "ba_sched b = g'" using w unfolding bw_inv_def by blast
  then have "bw_inv g g' t b'"
  proof cases
    case before
    have "ba_state b' t = WAITING" using F [THEN conjunct1, rule_format, OF before(3)] before(1,4) by simp
    moreover have "i < ba_curThreadIdx b'" using before(3) b'(5) by simp
    ultimately show ?thesis using before(2,4) b'(2,3,4) unfolding bw_inv_def by auto
  next
    case after
    have s: "ba_state b' t = WAITING \<or> ba_state b' t = RUNNING" using b'(6) after(1) by metis
    show ?thesis
    proof (cases "ba_state b' t = WAITING")
      case True
      then have "ba_curThreadIdx b' \<le> i" using b'(7) after(4,5) by (metis not_le)
      then show ?thesis using True after(2,3,5) b'(2,3,4) unfolding bw_inv_def by auto
    qed (use s after(2) b'(2,4) in \<open>auto simp: bw_inv_def\<close>)
  next
    case run
    then have "ba_state b' t = RUNNING" using b'(6) by (metis bstate.distinct(7))
    then show ?thesis using run(2) b'(2,4) by (simp add: bw_inv_def)
  qed
  then show ?thesis using b'(1,4) F by blast
qed

lemma bw_checkEndPhase:
  assumes draw: "\<And>r n. \<exists>j r'. rand r n = Some (j, r') \<and> j \<le> n" and w: "bw_inv g (callback g) t b"
  shows "\<exists>b'. bar_checkEndPhase rand callback b = Some b' \<and> bw_inv g (callback g) t b' \<and> (b' = b \<or> ba_sched b = g \<and> ba_sched b' = callback g)"
proof -
  have inv: "bar_inv b" using w by (simp add: bw_inv_def)
  obtain b' where b': "bar_checkEndPhase rand callback b = Some b'" "bar_inv b'" "\<forall>t. ba_state b' t = WAITING \<longleftrightarrow> ba_state b t = WAITING"
      "b' = b \<or> ba_curThreadIdx b' = 0 \<and> ba_sched b' = callback (ba_sched b)"
    using bar_checkEndPhase_ok [of rand b callback, OF draw inv] by blast
  show ?thesis
  proof (cases "ba_state b t = WAITING \<and> ba_sched b = g \<and> b' \<noteq> b")
    case True
    then have c: "ba_curThreadIdx b' = 0" "ba_sched b' = callback g" "ba_state b' t = WAITING" using b'(3,4) by auto
    then have "t \<in> set (ba_runList b')" using b'(2) by (auto simp: bar_inv_def bar_list_def)
    then obtain i where "i < length (ba_runList b')" "ba_runList b' ! i = t" by (auto simp: in_set_conv_nth)
    then have "bw_inv g (callback g) t b'" using c b'(2) unfolding bw_inv_def by auto
    then show ?thesis using b'(1) c True by blast
  next
    case False
    have "b' = b"
    proof (rule ccontr)
      assume n: "b' \<noteq> b"
      have "\<not> (ba_curThreadIdx b = length (ba_runList b) \<and> ba_runningThreads b = 0)"
        using w False n bar_running_0 [OF inv, of t] unfolding bw_inv_def by auto
      then have "bar_checkEndPhase rand callback b = Some b" unfolding bar_checkEndPhase_def by (simp only: if_False)
      then show False using b'(1) n by simp
    qed
    then show ?thesis using b'(1) w by blast
  qed
qed

lemma bw_tryWakeNext:
  assumes draw: "\<And>r n. \<exists>j r'. rand r n = Some (j, r') \<and> j \<le> n" and w: "bw_inv g (callback g) t b"
  shows "\<exists>b'. bar_tryWakeNext rand callback b = Some b' \<and> bar_good b' \<and> ba_parallelThreads b' = ba_parallelThreads b \<and> bw_inv g (callback g) t b' \<and>
    (ba_sched b' = ba_sched b \<and> bw_left b' \<le> bw_left b \<or> ba_sched b = g \<and> ba_sched b' = callback g)"
proof -
  obtain b1 where b1: "bar_checkRunList b = Some b1" "bw_inv g (callback g) t b1" "ba_sched b1 = ba_sched b" "bw_left b1 \<le> bw_left b"
    using bw_checkRunList [OF w] by blast
  obtain b2 where b2: "bar_checkEndPhase rand callback b1 = Some b2" "bw_inv g (callback g) t b2" "b2 = b1 \<or> ba_sched b1 = g \<and> ba_sched b2 = callback g"
    using bw_checkEndPhase [where rand = rand and callback = callback and g = g, OF draw b1(2)] by blast
  obtain b3 where b3: "bar_checkRunList b2 = Some b3" "bw_inv g (callback g) t b3" "ba_sched b3 = ba_sched b2" "bw_left b3 \<le> bw_left b2"
    using bw_checkRunList [OF b2(2)] by blast
  have t: "bar_tryWakeNext rand callback b = Some b3" using b1(1) b2(1) b3(1) by (simp add: bar_tryWakeNext_def)
  have "bar_inv b" using w by (simp add: bw_inv_def)
  from bar_tryWakeNext_ok [of rand, OF draw this, of callback] t have "bar_good b3" "ba_parallelThreads b3 = ba_parallelThreads b" by auto
  moreover have "ba_sched b3 = ba_sched b \<and> bw_left b3 \<le> bw_left b \<or> ba_sched b = g \<and> ba_sched b3 = callback g"
    using b1(3,4) b2(3) b3(3,4) by auto
  ultimately show ?thesis using t b3(2) by blast
qed

section \<open>The operations of other cores\<close>

text \<open>A change of the state of another core, before \<open>tryWakeNext\<close>.\<close>

lemma bw_change:
  assumes w: "bw_inv g g' t b" and t: "ba_state b t = WAITING" and b': "bar_inv b'" "ba_sched b' = ba_sched b" "ba_state b' t = WAITING"
    and bef: "\<And>i. i < ba_curThreadIdx b \<Longrightarrow> ba_runList b ! i = t \<Longrightarrow> \<exists>j<ba_curThreadIdx b'. ba_runList b' ! j = t"
    and aft: "\<And>i. i < length (ba_runList b) \<Longrightarrow> ba_curThreadIdx b \<le> i \<Longrightarrow> ba_runList b ! i = t \<Longrightarrow>
      \<exists>j<length (ba_runList b'). ba_curThreadIdx b' \<le> j \<and> ba_runList b' ! j = t"
  shows "bw_inv g g' t b'"
proof -
  consider (before) i where "ba_sched b = g" "i < ba_curThreadIdx b" "ba_runList b ! i = t"
    | (after) i where "ba_sched b = g'" "i < length (ba_runList b)" "ba_curThreadIdx b \<le> i" "ba_runList b ! i = t"
    using w t unfolding bw_inv_def by auto
  then show ?thesis
  proof cases
    case before
    then show ?thesis using bef [of i] b' unfolding bw_inv_def by auto
  next
    case after
    then show ?thesis using aft [of i] b' unfolding bw_inv_def by auto
  qed
qed

lemma bw_stop:
  assumes "bw_inv g g' t b" and "ba_state b t = WAITING" and "ba_state b u = RUNNING" and s: "s = LEFT \<or> s = WAITING"
    and "s = WAITING \<Longrightarrow> fw u = 1" "\<And>x. x \<noteq> u \<Longrightarrow> fw x = ba_futexWord b x"
  shows "bw_inv g g' t (b\<lparr>ba_state := (ba_state b)(u := s), ba_futexWord := fw, ba_runningThreads := ba_runningThreads b - 1,
    ba_leftThreads := ba_leftThreads b + (if s = LEFT then 1 else 0)\<rparr>)"
proof (rule bw_change [OF assms(1,2)])
  have "bar_inv b" using assms(1) by (simp add: bw_inv_def)
  from bar_stop_inv [OF this assms(3) s assms(5,6)]
  show "bar_inv (b\<lparr>ba_state := (ba_state b)(u := s), ba_futexWord := fw, ba_runningThreads := ba_runningThreads b - 1,
    ba_leftThreads := ba_leftThreads b + (if s = LEFT then 1 else 0)\<rparr>)" .
qed (use assms in auto)

text \<open>A core that runs and syncs brings the wakeup of \<open>t\<close> nearer.\<close>

lemma bw_sync:
  assumes draw: "\<And>r n. \<exists>j r'. rand r n = Some (j, r') \<and> j \<le> n" and w: "bw_inv g (callback g) t b" "ba_state b t = WAITING" and u: "ba_state b u = RUNNING"
  shows "\<exists>b'. bar_sync rand callback u b = Some b' \<and> bar_good b' \<and> ba_parallelThreads b' = ba_parallelThreads b \<and> bw_inv g (callback g) t b' \<and>
    (ba_sched b' = ba_sched b \<and> bw_left b' < bw_left b \<or> ba_sched b = g \<and> ba_sched b' = callback g)"
proof -
  let ?b = "b\<lparr>ba_futexWord := (ba_futexWord b)(u := 1), ba_state := (ba_state b)(u := WAITING), ba_runningThreads := ba_runningThreads b - 1\<rparr>"
  have i: "bw_inv g (callback g) t ?b"
    using bw_stop [OF w u, of WAITING "(ba_futexWord b)(u := 1)"] by (rule back_subst [of "bw_inv g (callback g) t"]) simp_all
  have "ba_runningThreads b \<noteq> 0" using w(1) u bar_running_0 [of b u] by (auto simp: bw_inv_def)
  then have "bw_left ?b < bw_left b" by (simp add: bw_left_def)
  moreover from bw_tryWakeNext [where rand = rand and callback = callback and g = g, OF draw i] obtain b' where "bar_tryWakeNext rand callback ?b = Some b'" "bar_good b'"
      "ba_parallelThreads b' = ba_parallelThreads ?b" "bw_inv g (callback g) t b'"
      "ba_sched b' = ba_sched ?b \<and> bw_left b' \<le> bw_left ?b \<or> ba_sched ?b = g \<and> ba_sched b' = callback g" by blast
  ultimately show ?thesis using u by (auto simp: bar_sync_def)
qed

definition bw_next :: "'w \<Rightarrow> 'w \<Rightarrow> nat \<Rightarrow> ('r, 'w) barrier \<Rightarrow> ('r, 'w) barrier \<Rightarrow> bool" where
  "bw_next g g' t b b' \<longleftrightarrow> bar_good b' \<and> ba_parallelThreads b' = ba_parallelThreads b \<and> bw_inv g g' t b'"

lemma bw_wake_next:
  assumes "\<And>r n. \<exists>j r'. rand r n = Some (j, r') \<and> j \<le> n" and "bw_inv g (callback g) t b"
  shows "\<exists>b'. bar_tryWakeNext rand callback b = Some b' \<and> bw_next g (callback g) t b b'"
  using bw_tryWakeNext [where rand = rand and callback = callback and g = g, OF assms] by (auto simp: bw_next_def)

lemma bw_leave:
  assumes draw: "\<And>r n. \<exists>j r'. rand r n = Some (j, r') \<and> j \<le> n" and w: "bw_inv g (callback g) t b" "ba_state b t = WAITING" and good: "bar_good b"
    and u: "u \<noteq> t" "bar_enabled (Leave u) b"
  shows "\<exists>b'. bar_leave rand callback u b = Some b' \<and> bw_next g (callback g) t b b'"
proof (cases "ba_state b u = RUNNING")
  case True
  let ?b = "b\<lparr>ba_state := (ba_state b)(u := LEFT), ba_leftThreads := ba_leftThreads b + 1, ba_runningThreads := ba_runningThreads b - 1\<rparr>"
  have "bw_inv g (callback g) t ?b"
    using bw_stop [OF w True, of LEFT "ba_futexWord b"] by (rule back_subst [of "bw_inv g (callback g) t"]) simp_all
  from bw_wake_next [of rand g callback t, OF draw this] True show ?thesis by (auto simp: bar_leave_def Let_def bw_next_def)
next
  case False
  obtain b' where b': "bar_leave rand callback u b = Some b'" "bar_good b'" "ba_parallelThreads b' = ba_parallelThreads b"
    using bar_leave_ok [of rand, OF draw good u(2)] by blast
  have e: "b' = b\<lparr>ba_state := (ba_state b)(u := LEFT), ba_leftThreads := ba_leftThreads b + 1\<rparr>"
    using b'(1) False by (auto simp: bar_leave_def Let_def split: bind_splits)
  have "bw_inv g (callback g) t b'"
    by (rule bw_change [OF w]) (use b'(2) w(2) u(1) in \<open>auto simp: e bar_good_def\<close>)
  then show ?thesis using b' by (simp add: bw_next_def)
qed

lemma bw_join:
  assumes draw: "\<And>r n. \<exists>j r'. rand r n = Some (j, r') \<and> j \<le> n" and w: "bw_inv g (callback g) t b" "ba_state b t = WAITING"
    and u: "u \<noteq> t" "bar_enabled (Join u) b"
  shows "\<exists>b'. bar_join rand callback u b = Some b' \<and> bw_next g (callback g) t b b'"
proof -
  have inv: "bar_inv b" using w(1) by (simp add: bw_inv_def)
  have l: "ba_curThreadIdx b \<le> length (ba_runList b)" using inv by (simp add: bar_inv_def)
  note wake = bw_wake_next [of rand g callback t, OF draw]
  show ?thesis
  proof (cases "ba_state b u = OFFLINE")
    case off: True
    with u have m: "u < MAX_THREADS" by (simp add: bar_enabled_def)
    let ?b = "b\<lparr>ba_runList := ba_runList b @ [u], ba_state := (ba_state b)(u := WAITING), ba_futexWord := (ba_futexWord b)(u := 1)\<rparr>"
    have "bw_inv g (callback g) t ?b"
    proof (rule bw_change [OF w])
      show "i < ba_curThreadIdx b \<Longrightarrow> ba_runList b ! i = t \<Longrightarrow> \<exists>j<ba_curThreadIdx ?b. ba_runList ?b ! j = t" for i
        using l by (intro exI [of _ i]) (simp add: nth_append)
      show "i < length (ba_runList b) \<Longrightarrow> ba_curThreadIdx b \<le> i \<Longrightarrow> ba_runList b ! i = t \<Longrightarrow>
          \<exists>j<length (ba_runList ?b). ba_curThreadIdx ?b \<le> j \<and> ba_runList ?b ! j = t" for i
        by (intro exI [of _ i]) (simp add: nth_append)
    qed (use bar_new_inv(1) [OF inv off m] w(2) u(1) in simp_all)
    from wake [OF this] bar_new_inv(2) [OF inv off m] off m show ?thesis by (auto simp: bar_join_def bw_next_def)
  next
    case False
    with u have left: "ba_state b u = LEFT" and m: "u < MAX_THREADS" by (auto simp: bar_enabled_def)
    note inv1 = bar_back_inv [OF inv left] and idx = bar_left_idx [OF inv left]
    show ?thesis
    proof (cases "ba_curThreadIdx b > ba_lastIdx b u")
      case True
      let ?cur = "ba_curThreadIdx b - 1" and ?p = "ba_lastIdx b u"
      let ?rl = "(ba_runList b)[?p := ba_runList b ! ?cur, ?cur := u]"
      let ?b = "b\<lparr>ba_leftThreads := ba_leftThreads b - 1, ba_curThreadIdx := ?cur, ba_runList := ?rl,
        ba_lastIdx := (ba_lastIdx b)(ba_runList b ! ?cur := ?p, u := ?cur),
        ba_state := (ba_state b)(u := WAITING), ba_futexWord := (ba_futexWord b)(u := 1)\<rparr>"
      have "bar_inv ?b" using bar_swap_inv [OF inv1, of ?p, OF _ _ refl refl refl] True idx by (auto elim!: back_subst [of bar_inv])
      moreover have "\<exists>j<?cur. ?rl ! j = t" if i: "i < ba_curThreadIdx b" "ba_runList b ! i = t" for i
      proof (cases "i = ?cur")
        case True
        then have "?p \<noteq> ?cur" using i idx u(1) by auto
        then show ?thesis using i True \<open>ba_curThreadIdx b > ?p\<close> l by (intro exI [of _ ?p]) simp
      next
        case False
        then have "i \<noteq> ?p" "i < ?cur" using i idx u(1) by auto
        then show ?thesis using i by (intro exI [of _ i]) simp
      qed
      moreover have "\<exists>j<length ?rl. ?cur \<le> j \<and> ?rl ! j = t" if i: "i < length (ba_runList b)" "ba_curThreadIdx b \<le> i" "ba_runList b ! i = t" for i
        using i True by (intro exI [of _ i]) simp
      ultimately have "bw_inv g (callback g) t ?b"
        by (intro bw_change [OF w]) (use w(2) u(1) in simp_all)
      from wake [OF this] True idx left m show ?thesis by (auto simp: bar_join_def bar_rejoin_def Let_def bw_next_def)
    next
      case False
      let ?b = "b\<lparr>ba_leftThreads := ba_leftThreads b - 1, ba_state := (ba_state b)(u := WAITING), ba_futexWord := (ba_futexWord b)(u := 1)\<rparr>"
      have "bw_inv g (callback g) t ?b" by (rule bw_change [OF w]) (use inv1 w(2) u(1) in auto)
      from wake [OF this] False left m show ?thesis by (auto simp: bar_join_def bar_rejoin_def Let_def bw_next_def)
    qed
  qed
qed

section \<open>A wait returns\<close>

lemma bw_good_step:
  assumes draw: "\<And>r n. \<exists>j r'. rand r n = Some (j, r') \<and> j \<le> n" and w: "bw_inv g (callback g) t b" "ba_state b t = WAITING" and good: "bar_good b"
    and ev: "ev_core ev \<noteq> t" "bar_enabled ev b"
  shows "\<exists>b'. bar_exec rand callback ev b = Some b' \<and> bw_next g (callback g) t b b'"
proof (cases ev)
  case (Join u)
  then show ?thesis using bw_join [of rand g callback t, OF draw w] ev by (simp add: bar_exec_def ev_core_def)
next
  case (Leave u)
  then show ?thesis using bw_leave [of rand g callback t, OF draw w good] ev by (simp add: bar_exec_def ev_core_def)
next
  case (Sync u)
  then have "ba_state b u = RUNNING" using ev(2) by (simp add: bar_enabled_def)
  from bw_sync [of rand g callback t, OF draw w this] show ?thesis using Sync by (auto simp: bar_exec_def bw_next_def)
qed

lemma bar_others_ok:
  assumes draw: "\<And>r n. \<exists>j r'. rand r n = Some (j, r') \<and> j \<le> n"
  shows "bw_inv g (callback g) t b \<Longrightarrow> bar_good b \<Longrightarrow> \<exists>b'. bar_others rand callback t evs b = Some b' \<and> bw_next g (callback g) t b b'"
proof (induction evs arbitrary: b)
  case (Cons ev evs)
  show ?case
  proof (cases "ba_state b t = RUNNING")
    case False
    then have wt: "ba_state b t = WAITING" using Cons.prems(1) unfolding bw_inv_def by auto
    show ?thesis
    proof (cases "ev_core ev = t \<or> \<not> bar_enabled ev b")
      case True
      then show ?thesis using Cons.IH [OF Cons.prems] False by auto
    next
      case en: False
      then obtain b1 where b1: "bar_exec rand callback ev b = Some b1" "bw_next g (callback g) t b b1"
        using bw_good_step [of rand g callback t, OF draw Cons.prems(1) wt Cons.prems(2)] by blast
      then show ?thesis using Cons.IH [of b1] False en by (auto simp: bw_next_def)
    qed
  qed (use Cons.prems in \<open>simp add: bw_next_def\<close>)
qed (simp add: bw_next_def)

lemma bar_drain_ok:
  assumes draw: "\<And>r n. \<exists>j r'. rand r n = Some (j, r') \<and> j \<le> n" and p: "picks pick" and ne: "callback g \<noteq> g"
  shows "bw_inv g (callback g) t b \<Longrightarrow> bar_good b \<Longrightarrow> 0 < ba_parallelThreads b \<Longrightarrow>
    \<exists>b'. bar_drain rand callback pick t b = Some b' \<and> bw_next g (callback g) t b b' \<and> ba_state b' t = RUNNING"
proof (induction b rule: wf_induct_rule [OF wf_measures [of "[\<lambda>b. if ba_sched b = g then 1 else 0, bw_left]"]])
  case (1 b)
  show ?case
  proof (cases "ba_state b t = RUNNING")
    case True
    then show ?thesis using 1(2,3) by (subst bar_drain.simps) (simp add: bw_next_def)
  next
    case False
    then have wt: "ba_state b t = WAITING" using 1(2) unfolding bw_inv_def by auto
    then have "ba_runningThreads b \<noteq> 0" using 1(3,4) by (auto simp: bar_good_def)
    moreover have "ba_runningThreads b = card {u. ba_state b u = RUNNING}" using 1(3) by (simp add: bar_good_def bar_inv_def)
    ultimately have "card {u. ba_state b u = RUNNING} \<noteq> 0" by simp
    then have "{u. ba_state b u = RUNNING} \<noteq> {}" by (intro notI) simp
    then have "\<exists>u. ba_state b u = RUNNING" by blast
    then have u: "ba_state b (pick b) = RUNNING" using p by (simp add: picks_def)
    from bw_sync [of rand g callback t, OF draw 1(2) wt u] obtain b1 where
      b1: "bar_sync rand callback (pick b) b = Some b1" "bar_good b1" "ba_parallelThreads b1 = ba_parallelThreads b" "bw_inv g (callback g) t b1"
        "ba_sched b1 = ba_sched b \<and> bw_left b1 < bw_left b \<or> ba_sched b = g \<and> ba_sched b1 = callback g" by blast
    have "(b1, b) \<in> measures [\<lambda>b. if ba_sched b = g then 1 else 0, bw_left]" using b1(5) ne by auto
    from 1(1) [OF this b1(4,2)] b1(3) 1(4) obtain b' where
      "bar_drain rand callback pick t b1 = Some b'" "bw_next g (callback g) t b1 b'" "ba_state b' t = RUNNING" by auto
    then show ?thesis using b1(1,3) False by (subst bar_drain.simps) (auto simp: bw_next_def)
  qed
qed

text \<open>A core that syncs runs again: after exactly one end of a phase, whatever the others do.\<close>

lemma bar_wait_ok:
  assumes draw: "\<And>r n. \<exists>j r'. rand r n = Some (j, r') \<and> j \<le> n" and p: "picks pick" and ne: "callback (ba_sched b) \<noteq> ba_sched b"
    and b: "bar_good b" "0 < ba_parallelThreads b" "ba_state b t = RUNNING"
  shows "\<exists>b'. bar_wait rand callback pick evs t b = Some b' \<and> bar_good b' \<and> ba_parallelThreads b' = ba_parallelThreads b \<and> ba_state b' t = RUNNING \<and>
    ba_sched b' = callback (ba_sched b)"
proof -
  let ?g = "ba_sched b"
  let ?b = "b\<lparr>ba_futexWord := (ba_futexWord b)(t := 1), ba_state := (ba_state b)(t := WAITING), ba_runningThreads := ba_runningThreads b - 1\<rparr>"
  have inv: "bar_inv b" using b(1) by (simp add: bar_good_def)
  obtain i where i: "i < ba_curThreadIdx b" "ba_runList b ! i = t" using bar_not_running_idx [OF inv b(3)] by blast
  have "bar_inv ?b" using bar_stop_inv [OF inv b(3), of WAITING "(ba_futexWord b)(t := 1)"] by (rule back_subst [of bar_inv]) simp_all
  then have "bw_inv ?g (callback ?g) t ?b" using i unfolding bw_inv_def by auto
  from bw_wake_next [of rand ?g callback t, OF draw this] obtain b1 where
    b1: "bar_sync rand callback t b = Some b1" "bw_next ?g (callback ?g) t b b1" using b(3) by (auto simp: bar_sync_def bw_next_def)
  then have g1: "bw_inv ?g (callback ?g) t b1" "bar_good b1" "ba_parallelThreads b1 = ba_parallelThreads b" by (simp_all add: bw_next_def)
  from bar_others_ok [of rand ?g callback t b1 evs, OF draw g1(1,2)] obtain b2 where
    b2: "bar_others rand callback t evs b1 = Some b2" "bw_next ?g (callback ?g) t b1 b2" by blast
  then have g2: "bw_inv ?g (callback ?g) t b2" "bar_good b2" "0 < ba_parallelThreads b2" using g1(3) b(2) by (simp_all add: bw_next_def)
  from bar_drain_ok [of rand pick callback ?g t b2, OF draw p ne g2] obtain b3 where b3: "bar_drain rand callback pick t b2 = Some b3" "bw_next ?g (callback ?g) t b2 b3" "ba_state b3 t = RUNNING" by blast
  have "ba_sched b3 = callback ?g" using b3(2,3) unfolding bw_next_def bw_inv_def by auto
  moreover have "bar_good b3" "ba_parallelThreads b3 = ba_parallelThreads b" using b1(2) b2(2) b3(2) by (simp_all add: bw_next_def)
  moreover have "bar_wait rand callback pick evs t b = Some b3" unfolding bar_wait_def b1(1) bind.bind_lunit b2(1) b3(1) ..
  ultimately show ?thesis using b3(3) by blast
qed

text \<open>Two cores that joined in the first phase, with two slots.\<close>

lemma bar_two:
  "\<exists>b. bar_good b \<and> ba_parallelThreads b = 2 \<and> ba_state b 3 = RUNNING \<and> ba_state b 4 = RUNNING \<and> ba_sched b = (g :: nat) \<and>
     Option.bind (bar_exec draw0 callback (Join 3) (bar_new 2 () g)) (bar_exec draw0 callback (Join 4)) = Some b"
proof -
  have d: "\<And>r n. \<exists>j r'. draw0 r n = Some (j, r') \<and> j \<le> n" by (simp add: draw0_def)
  have "bar_enabled (Join 3) (bar_new 2 () g)" by (simp add: bar_enabled_def bar_new_def MAX_THREADS_def)
  from bar_exec_ok [of draw0, OF d bar_new_good this, of callback] obtain b1 where
    b1: "bar_exec draw0 callback (Join 3) (bar_new 2 () g) = Some b1" "bar_good b1" "ba_parallelThreads b1 = 2" by (auto simp: bar_new_def)
  have s1: "ba_state b1 3 = RUNNING" "ba_state b1 4 = OFFLINE" "ba_sched b1 = g" "ba_runList b1 = [3]" "ba_curThreadIdx b1 = 1" "ba_runningThreads b1 = 1"
    using b1(1) by (auto simp: bar_exec_def bar_join_def bar_new_def MAX_THREADS_def bar_tryWakeNext_def bar_checkRunList.simps bar_checkEndPhase_def)
  have "bar_enabled (Join 4) b1" using s1(2) by (simp add: bar_enabled_def MAX_THREADS_def)
  from bar_exec_ok [of draw0, OF d b1(2) this, of callback] obtain b2 where
    b2: "bar_exec draw0 callback (Join 4) b1 = Some b2" "bar_good b2" "ba_parallelThreads b2 = 2" using b1(3) by auto
  have "ba_state b2 3 = RUNNING" "ba_state b2 4 = RUNNING" "ba_sched b2 = g"
    using b2(1) s1 b1(3) by (auto simp: bar_exec_def bar_join_def MAX_THREADS_def bar_tryWakeNext_def bar_checkRunList.simps bar_checkEndPhase_def)
  then show ?thesis using b1(1) b2 by auto
qed

end
