(* ===== verification/Core_Caches.thy ===== *)
theory Core_Caches
  imports OOO_Core Filter_Inv Barrier_Wait
begin

text \<open>
  Cores over the caches of \<open>Filter_Inv\<close>: the environment is the hierarchy and the global phase cycle, or the barrier of
  \<open>Barrier_Wait\<close>, whose scheduler's state is that cycle. The
  instruction cache is cache \<open>ci\<close>, the data cache \<open>cd\<close>; both are filter caches of the hierarchy.
\<close>

definition fc_core_mem :: "addr \<Rightarrow> nat \<Rightarrow> (nat \<Rightarrow> addr \<Rightarrow> u64) \<Rightarrow> (nat \<Rightarrow> bool) \<Rightarrow> nat \<Rightarrow> nat \<Rightarrow> nat \<Rightarrow> nat \<Rightarrow> (fc_array hier \<times> 'b) core_mem" where
  "fc_core_mem pm k hash2 aw lat lineBits ci cd =
     \<lparr>cm_ifetch = (\<lambda>a c (h, g). map_option (\<lambda>(h', r). ((h', g), r)) (fc_go pm k hash2 aw (Suc lat) lineBits ci a True c h)),
      cm_load = (\<lambda>a c (h, g). map_option (\<lambda>(h', r). ((h', g), r)) (fc_go pm k hash2 aw (Suc lat) lineBits cd a True c h)),
      cm_store = (\<lambda>a c (h, g). map_option (\<lambda>(h', r). ((h', g), r)) (fc_go pm k hash2 aw (Suc lat) lineBits cd a False c h)),
      cm_switch = (\<lambda>(h, g). (fc_contextSwitch cd (fc_contextSwitch ci h), g))\<rparr>"

definition fc_env :: "addr \<Rightarrow> nat \<Rightarrow> nat \<Rightarrow> nat \<Rightarrow> (nat \<Rightarrow> addr \<Rightarrow> u64) \<Rightarrow> (nat \<Rightarrow> bool) \<Rightarrow> (nat \<Rightarrow> nat) \<Rightarrow> (nat \<Rightarrow> nat) \<Rightarrow> nat \<Rightarrow> nat \<Rightarrow>
    fc_array hier \<times> 'b \<Rightarrow> bool" where
  "fc_env pm k lat lineBits hash2 aw m w ci cd e \<longleftrightarrow>
     ci < k \<and> cd < k \<and> 0 < lineBits \<and> fc_run pm k lat lineBits hash2 aw m w (fst e)"

lemma fc_run_switch: "fc_run pm k lat lineBits hash2 aw m w h \<Longrightarrow> c < k \<Longrightarrow> fc_run pm k lat lineBits hash2 aw m w (fc_contextSwitch c h)"
  unfolding fc_run_def using fc_reach.switch by metis

lemma fc_env_go:
  assumes "fc_env pm k lat lineBits hash2 aw m w ci cd e" and "drop_bit lineBits a \<noteq> 0" and "j = ci \<or> j = cd"
  shows "\<exists>e' r. (case e of (h, g) \<Rightarrow> map_option (\<lambda>(h', r). ((h', g), r)) (fc_go pm k hash2 aw (Suc lat) lineBits j a isLoad c h)) = Some (e', r) \<and>
    fc_env pm k lat lineBits hash2 aw m w ci cd e' \<and> c \<le> r \<and> snd e' = snd e"
  using fc_run_go [of pm k lat lineBits hash2 aw m w "fst e" j a isLoad c] assms by (cases e) (auto simp: fc_env_def)

interpretation fcc: core_env "fc_core_mem pm k hash2 aw lat lineBits ci cd" "fc_env pm k lat lineBits hash2 aw m w ci cd"
    "\<lambda>a. drop_bit lineBits a \<noteq> 0" snd
  for pm k hash2 aw lat lineBits ci cd m w
proof
  fix e :: "fc_array hier \<times> nat" and a :: addr and c :: nat
  assume e: "fc_env pm k lat lineBits hash2 aw m w ci cd e" and a: "drop_bit lineBits a \<noteq> 0"
  show "\<exists>e' r. cm_ifetch (fc_core_mem pm k hash2 aw lat lineBits ci cd) a c e = Some (e', r) \<and>
      fc_env pm k lat lineBits hash2 aw m w ci cd e' \<and> c \<le> r \<and> snd e' = snd e"
    using fc_env_go [OF e a, of ci True c] by (simp add: fc_core_mem_def)
  show "\<exists>e' r. cm_load (fc_core_mem pm k hash2 aw lat lineBits ci cd) a c e = Some (e', r) \<and>
      fc_env pm k lat lineBits hash2 aw m w ci cd e' \<and> c \<le> r \<and> snd e' = snd e"
    using fc_env_go [OF e a, of cd True c] by (simp add: fc_core_mem_def)
  show "\<exists>e' r. cm_store (fc_core_mem pm k hash2 aw lat lineBits ci cd) a c e = Some (e', r) \<and>
      fc_env pm k lat lineBits hash2 aw m w ci cd e' \<and> c \<le> r \<and> snd e' = snd e"
    using fc_env_go [OF e a, of cd False c] by (simp add: fc_core_mem_def)
next
  fix e :: "fc_array hier \<times> nat" assume "fc_env pm k lat lineBits hash2 aw m w ci cd e"
  then show "fc_env pm k lat lineBits hash2 aw m w ci cd (cm_switch (fc_core_mem pm k hash2 aw lat lineBits ci cd) e) \<and>
      snd (cm_switch (fc_core_mem pm k hash2 aw lat lineBits ci cd) e) = snd e"
    using fc_run_switch by (cases e) (auto simp: fc_env_def fc_core_mem_def)
qed

section \<open>The simple core\<close>












section \<open>The out-of-order core\<close>

text \<open>C7. A call of \<open>bbl\<close> on an out-of-order core over filter caches, from any reachable state of the hierarchy: it returns,
  with no assertion failed and no array overrun in the core or in the hierarchy, and leaves the core ready for the next
  block, if the block's micro-operations match the loads and stores recorded for it; unless some cycle in the core's state
  comes to lie about \<open>2 ^ 31\<close> ahead of the current one, where the 32-bit delay of the window wraps. The cycles at which the
  micro-operations commit respect the data flow (each is its own latency or more after its operands) and the size of the
  reorder buffer.\<close>

theorem ooo_bbl_runs:
  fixes e :: "fc_array hier \<times> nat"
  assumes "fc_env pm k lat lineBits hash2 aw m w ci cd e" and "lineBits < 64"
    and "oc_wf NR s" and "adrs_ok (\<lambda>a. drop_bit lineBits a \<noteq> 0) s" and "prev_ok NR s" and "branch_ok (\<lambda>a. drop_bit lineBits a \<noteq> 0) lineBits s"
    and "unat a + bi_bytes bi + 2 ^ lineBits \<le> 2 ^ 64" and "\<forall>x\<in>set (fetch_addrs lineBits a (bi_bytes bi)). drop_bit lineBits x \<noteq> 0"
  shows "(\<exists>s' e'. ooo_bbl (fc_core_mem pm k hash2 aw lat lineBits ci cd) lineBits a bi s e = Some (s', e') \<and>
      fc_env pm k lat lineBits hash2 aw m w ci cd e' \<and> oc_wf NR s' \<and> oc_loads s' = 0 \<and> oc_stores s' = 0 \<and> oc_prevBbl s' = Some bi \<and>
      bbl_timed s s') \<or>
    far_ahead (fc_core_mem pm k hash2 aw lat lineBits ci cd) bi s e"
  using fcc.ooo_bbl_returns [OF assms(3,4,1,6,2,7,8,5)] by blast

text \<open>A block of one load of address 4096, from the initial state of the core, on the smallest hierarchy.\<close>

definition ooo_example :: "ooo_bbl_info" where
  "ooo_example = \<lparr>bi_instrs = 1, bi_bytes = 4,
     ob_uops = [\<lparr>du_rs = (3, 0), du_rd = (4, 0), du_lat = 0, du_decCycle = 1, du_type = UOP_LOAD, du_portMask = 4, du_extraSlots = 0\<rparr>],
     ob_approxInstrs = 0\<rparr>"

theorem ooo_bbl_runs_witness:
  "\<exists>h s s' e'. ooo_load 0x1000 ((ooo_new 1000 10)\<lparr>oc_prevBbl := Some ooo_example\<rparr>) = Some s \<and>
     ooo_bbl (fc_core_mem (2 ^ 58) 2 (\<lambda>_ a. a) (\<lambda>_. False) 0 6 0 1) 6 0x1C0 ooo_example s (h, 0 :: nat) = Some (s', e') \<and> bbl_timed s s'"
proof -
  obtain h where "fc_run (2 ^ 58) 2 0 6 (\<lambda>_ a. a) (\<lambda>_. False) (\<lambda>_. 1) (\<lambda>_. 1) h" using fc_run_ex by blast
  then have e: "fc_env (2 ^ 58) 2 0 6 (\<lambda>_ a. a) (\<lambda>_. False) (\<lambda>_. 1) (\<lambda>_. 1) 0 1 (h, 0 :: nat)" unfolding fc_env_def by simp
  have h: "(0 :: nat) < 10" "(6 :: nat) < 64" by simp_all
  define s where "s = (ooo_new 1000 10)\<lparr>oc_prevBbl := Some ooo_example, oc_loadAddrs := (replicate 256 0)[0 := 0x1000], oc_loads := 1\<rparr>"
  have ld: "ooo_load 0x1000 ((ooo_new 1000 10)\<lparr>oc_prevBbl := Some ooo_example\<rparr>) = Some s"
    by (simp add: ooo_load_def ooo_new_def s_def)
  have wf: "oc_wf 10 s" using ooo_new_ok [OF h(1), of 1000] unfolding s_def oc_wf_def by simp
  have near: "oc_near (s\<lparr>oc_prevBbl := Some ooo_example\<rparr>)"
    using ooo_new_ok [OF h(1), of 1000] unfolding s_def oc_near_def oc_bnd_def by simp
  have ad: "adrs_ok (\<lambda>a. drop_bit 6 a \<noteq> 0) s" by (simp add: adrs_ok_def s_def ooo_new_def)
  have pv: "prev_ok 10 s" by (simp add: prev_ok_def s_def ooo_example_def uop_ok_def n_ld_def n_st_def is_ld_def is_st_def ooo_new_def)
  have br: "branch_ok (\<lambda>a. drop_bit 6 a \<noteq> 0) 6 s" by (simp add: branch_ok_def s_def ooo_new_def)
  have "fetch_addrs 6 0x1C0 4 = [0x1C0]" by (simp add: fetch_addrs_def)
  then have f: "unat (0x1C0 :: addr) + bi_bytes ooo_example + 2 ^ 6 \<le> 2 ^ 64"
    "\<forall>x\<in>set (fetch_addrs 6 0x1C0 (bi_bytes ooo_example)). drop_bit 6 x \<noteq> 0" by (simp_all add: ooo_example_def)
  have "\<not> far_ahead (fc_core_mem (2 ^ 58) 2 (\<lambda>_ a. a) (\<lambda>_. False) 0 6 0 1) ooo_example s (h, 0 :: nat)"
    using near by (simp add: far_ahead_def s_def ooo_example_def)
  then show ?thesis using ooo_bbl_runs [OF e h(2) wf ad pv br f] ld by blast
qed

end
