(* ===== verification/Timing_Events.thy ===== *)
theory Timing_Events
  imports Prelude Prio_Queue
begin

text \<open>
  The weave phase: timing events and their graph (\<^verbatim>\<open>zsim/src/timing_event.h\<close>, \<^verbatim>\<open>timing_event.cpp\<close>), the
  contention simulation that runs them (\<^verbatim>\<open>contention_sim.cpp\<close>), and what each class of event does when it is simulated:
  the events of timing caches (\<^verbatim>\<open>timing_cache.cpp\<close>), of the memory of \<^verbatim>\<open>weave_md1_mem.h\<close> and of the cores'
  recorders (\<^verbatim>\<open>core_recorder.cpp\<close>, \<^verbatim>\<open>ooo_core_recorder.cpp\<close>).

  Events are a heap \<open>w_ev\<close>: an event is an address, \<open>None\<close> one that is not allocated or was freed, and reading it
  fails. Addresses are not used twice. There is one domain, \<open>numDomains = 1\<close>, so no crossing events are made. Cycles
  are \<open>nat\<close>. The statistics of a timing cache are kept, with the assertions of its occupancy histogram
  (\<^verbatim>\<open>breakdown_stats.h\<close>); their counters are 64-bit words. They read a field of another event, \<open>startCycle\<close> of a
  \<open>MissStartEvent\<close>, which may have been freed by then: \<open>w_start\<close> is the memory of that field at each address, which
  freeing an event leaves as it is and which may hold anything before. \<open>w_log\<close> is the log of \<open>POST_MORTEM\<close>, latest
  entry first; \<open>w_fin\<close> collects the calls of \<open>done\<close> likewise, and nothing reads it.
\<close>

section \<open>Events\<close>

datatype ev_state = EV_INVALID | EV_NONE | EV_QUEUED | EV_RUNNING | EV_HELD | EV_DONE

text \<open>The subclasses with their fields: caches and recorders are indices.\<close>

datatype ev_kind =
    DelayEvent
  | HitEvent nat
  | MissStartEvent nat
  | MissResponseEvent nat nat
  | MissWritebackEvent nat nat
  | ReplAccessEvent nat nat
  | WeaveMemAccEvent nat
  | TimingCoreEvent nat nat
  | OOOIssueEvent nat nat
  | OOODispatchEvent nat
  | OOORespEvent nat

record tev =
  ev_state :: ev_state
  ev_cycle :: nat
  ev_minStart :: nat
  ev_children :: "nat list list"
  ev_domain :: int
  ev_numChildren :: nat
  ev_numParents :: nat
  ev_pre :: nat
  ev_post :: nat
  ev_kind :: ev_kind

definition ev_new :: "ev_kind \<Rightarrow> nat \<Rightarrow> nat \<Rightarrow> int \<Rightarrow> tev" where
  "ev_new k preDelay postDelay dmn =
     \<lparr>ev_state = EV_NONE, ev_cycle = 0, ev_minStart = 2 ^ 64 - 1, ev_children = [], ev_domain = dmn, ev_numChildren = 0,
      ev_numParents = 0, ev_pre = preDelay, ev_post = postDelay, ev_kind = k\<rparr>"

text \<open>Three children to a block, the latest block first.\<close>

definition ev_link :: "nat \<Rightarrow> tev \<Rightarrow> tev" where
  "ev_link c v =
     v\<lparr>ev_children :=
         (if ev_numChildren v mod 3 = 0 then [c] # ev_children v
          else case ev_children v of b # bs \<Rightarrow> (b @ [c]) # bs | [] \<Rightarrow> []),
       ev_numChildren := ev_numChildren v + 1\<rparr>"

definition ev_kids :: "tev \<Rightarrow> nat list" where
  "ev_kids v = concat (ev_children v)"

section \<open>State\<close>

record tcache =
  tm_lastAcc :: nat
  tm_lastFree :: nat
  tm_numMSHRs :: nat
  tm_active :: nat
  tm_pending :: "nat list"
  tm_occ :: "64 word list"
  tm_occState :: nat
  tm_occLast :: nat
  tm_hitLat :: "64 word"
  tm_missRespLat :: "64 word"
  tm_missLat :: "64 word"

datatype rec_state = HALTED | RUNNING | DRAINING

record timing_record =
  tr_reqCycle :: nat
  tr_respCycle :: nat
  tr_get :: bool
  tr_start :: nat
  tr_end :: nat

text \<open>\<open>CoreRecorder\<close> and \<open>OOOCoreRecorder\<close>, with their event recorder: \<open>cr_prev\<close> is \<open>prevRespEvent\<close> or
  \<open>lastEvProduced\<close>, \<open>cr_simOrig\<close> is \<open>lastEventSimulatedOrigStartCycle\<close> or \<open>lastEvSimulatedZllStartCycle\<close>.\<close>

record recorder =
  cr_state :: rec_state
  cr_gap :: nat
  cr_prevResp :: nat
  cr_prev :: "nat option"
  cr_simStart :: nat
  cr_simOrig :: nat
  cr_totalGap :: nat
  cr_totalHalted :: nat
  cr_lastUnhalted :: nat
  cr_future :: "(nat \<times> nat option) list"
  cr_tr :: "timing_record option"
  cr_lastGap :: nat
  cr_slack :: nat

record weave =
  w_ev :: "nat \<Rightarrow> tev option"
  w_start :: "nat \<Rightarrow> 64 word"
  w_next :: nat
  w_pq :: "nat pqueue"
  w_cur :: nat
  w_limit :: nat
  w_lastLimit :: nat
  w_inCSim :: bool
  w_PL :: nat
  w_cache :: "tcache list"
  w_rec :: "recorder list"
  w_log :: "(nat \<times> nat) list"
  w_fin :: "(nat \<times> nat) list"

definition w_put :: "nat \<Rightarrow> tev \<Rightarrow> weave \<Rightarrow> weave" where
  "w_put e v s = s\<lparr>w_ev := (w_ev s)(e := Some v)\<rparr>"

definition w_new :: "tev \<Rightarrow> weave \<Rightarrow> nat \<times> weave" where
  "w_new v s = (w_next s, s\<lparr>w_ev := (w_ev s)(w_next s := Some v), w_next := w_next s + 1\<rparr>)"

definition ev_setMinStart :: "nat \<Rightarrow> nat \<Rightarrow> weave \<Rightarrow> weave option" where
  "ev_setMinStart e c s = Option.bind (w_ev s e) (\<lambda>v. Some (w_put e (v\<lparr>ev_minStart := c\<rparr>) s))"

section \<open>Queueing\<close>

definition cs_put :: "nat \<Rightarrow> nat \<Rightarrow> nat \<Rightarrow> weave \<Rightarrow> weave option" where
  "cs_put slop e cycle s =
     Option.bind (w_ev s e) (\<lambda>v.
     Option.bind (guard (ev_domain v = 0)) (\<lambda>_.
     Option.bind (guard (w_lastLimit s \<le> cycle)) (\<lambda>_.
     Option.bind (guard (cycle < w_lastLimit s + 10 * w_PL s + slop)) (\<lambda>_.
     Option.bind (guard (ev_numParents v = 0)) (\<lambda>_.
     Option.bind (pq_enqueue 1024 e cycle (w_pq s)) (\<lambda>q. Some (s\<lparr>w_pq := q\<rparr>)))))))"

definition cs_enqueue :: "nat \<Rightarrow> nat \<Rightarrow> weave \<Rightarrow> weave option" where
  "cs_enqueue e cycle s =
     Option.bind (guard (w_inCSim s)) (\<lambda>_.
     Option.bind (guard (w_cur s \<le> cycle)) (\<lambda>_. cs_put 1000000 e cycle s))"

definition cs_enqueueSynced :: "nat \<Rightarrow> nat \<Rightarrow> weave \<Rightarrow> weave option" where
  "cs_enqueueSynced e cycle s = Option.bind (guard (\<not> w_inCSim s)) (\<lambda>_. cs_put 10000 e cycle s)"

definition ev_queue :: "nat \<Rightarrow> nat \<Rightarrow> weave \<Rightarrow> weave option" where
  "ev_queue e nextCycle s =
     Option.bind (w_ev s e) (\<lambda>v.
     Option.bind (guard (ev_state v = EV_NONE \<and> ev_numParents v = 0)) (\<lambda>_.
     cs_enqueueSynced e nextCycle (w_put e (v\<lparr>ev_state := EV_QUEUED\<rparr>) s)))"

definition ev_requeue :: "nat \<Rightarrow> nat \<Rightarrow> weave \<Rightarrow> weave option" where
  "ev_requeue e nextCycle s =
     Option.bind (w_ev s e) (\<lambda>v.
     Option.bind (guard (ev_numParents v = 0)) (\<lambda>_.
     Option.bind (guard (ev_state v = EV_RUNNING \<or> ev_state v = EV_HELD)) (\<lambda>_.
     cs_enqueue e nextCycle (w_put e (v\<lparr>ev_state := EV_QUEUED\<rparr>) s))))"

definition ev_hold :: "nat \<Rightarrow> weave \<Rightarrow> weave option" where
  "ev_hold e s =
     Option.bind (w_ev s e) (\<lambda>v.
     Option.bind (guard (ev_state v = EV_RUNNING)) (\<lambda>_. Some (w_put e (v\<lparr>ev_state := EV_HELD\<rparr>) s)))"

section \<open>Edges\<close>

text \<open>\<open>propagateDomain\<close>, over a list of events still to visit.\<close>

partial_function (option) ev_propagate :: "int \<Rightarrow> nat list \<Rightarrow> weave \<Rightarrow> weave option" where
  "ev_propagate dmn es s =
     (case es of
        [] \<Rightarrow> Some s
      | e # es' \<Rightarrow>
          Option.bind (w_ev s e) (\<lambda>v.
          Option.bind (if ev_domain v = -1 then ev_propagate dmn (ev_kids v) (w_put e (v\<lparr>ev_domain := dmn\<rparr>) s) else Some s)
            (ev_propagate dmn es')))"

definition ev_addChild :: "nat \<Rightarrow> nat \<Rightarrow> weave \<Rightarrow> weave option" where
  "ev_addChild p c s =
     Option.bind (w_ev s p) (\<lambda>v.
     Option.bind (guard (ev_state v = EV_NONE \<or> ev_state v = EV_QUEUED)) (\<lambda>_.
     Option.bind (w_ev s c) (\<lambda>vc.
     Option.bind (guard (ev_state vc = EV_NONE)) (\<lambda>_.
     let s1 = w_put p (ev_link c v) s in
     Option.bind (if ev_domain v \<noteq> -1 then ev_propagate (ev_domain v) [c] s1 else Some s1) (\<lambda>s2.
     Option.bind (w_ev s2 c) (\<lambda>vc2. Some (w_put c (vc2\<lparr>ev_numParents := ev_numParents vc2 + 1\<rparr>) s2)))))))"

text \<open>\<open>a->addChild(b)->addChild(c)\<close> ...\<close>

fun ev_chain :: "nat list \<Rightarrow> weave \<Rightarrow> weave option" where
  "ev_chain (a # b # es) s = Option.bind (ev_addChild a b s) (ev_chain (b # es))"
| "ev_chain _ s = Some s"

section \<open>Completion\<close>

definition ev_free :: "nat \<Rightarrow> weave \<Rightarrow> weave" where
  "ev_free e s = s\<lparr>w_ev := (w_ev s)(e := None)\<rparr>"

text \<open>\<open>done\<close> before it visits the children: it returns the event.\<close>

definition ev_finish :: "nat \<Rightarrow> nat \<Rightarrow> weave \<Rightarrow> (tev \<times> weave) option" where
  "ev_finish e doneCycle s =
     Option.bind (w_ev s e) (\<lambda>v.
     Option.bind (guard (ev_state v = EV_RUNNING)) (\<lambda>_.
     Option.bind (guard (length (ev_kids v) = ev_numChildren v)) (\<lambda>_.
     Some (v, w_put e (v\<lparr>ev_state := EV_DONE\<rparr>) (s\<lparr>w_fin := (e, doneCycle) # w_fin s\<rparr>)))))"

text \<open>\<open>parentDone(startCycle)\<close> on each event of a list: that of \<open>DelayEvent\<close> calls \<open>done\<close> at once, that of the
  other events puts them into the queue, when the last parent is done.\<close>

partial_function (option) ev_visit :: "nat list \<Rightarrow> nat \<Rightarrow> weave \<Rightarrow> weave option" where
  "ev_visit es startCycle s =
     (case es of
        [] \<Rightarrow> Some s
      | e # es' \<Rightarrow>
          Option.bind (w_ev s e) (\<lambda>v.
          let v1 = v\<lparr>ev_cycle := max (ev_cycle v) startCycle\<rparr> in
          Option.bind
            (if ev_kind v1 = DelayEvent
             then let v2 = v1\<lparr>ev_numParents := (ev_numParents v1 + 2 ^ 32 - 1) mod 2 ^ 32\<rparr> in
               if ev_numParents v2 = 0
               then let doneCycle = ev_cycle v2 + ev_pre v2 in
                 Option.bind (ev_finish e doneCycle (w_put e (v2\<lparr>ev_state := EV_RUNNING\<rparr>) s)) (\<lambda>(v3, s1).
                 Option.bind (ev_visit (ev_kids v3) (doneCycle + ev_post v3) s1) (\<lambda>s2. Some (ev_free e s2)))
               else Some (w_put e v2 s)
             else
               Option.bind (guard (ev_numParents v1 \<noteq> 0)) (\<lambda>_.
               let v2 = v1\<lparr>ev_numParents := ev_numParents v1 - 1\<rparr> in
               if ev_numParents v2 = 0
               then Option.bind (guard (ev_state v2 = EV_NONE)) (\<lambda>_.
                 cs_enqueue e (ev_cycle v2 + ev_pre v2) (w_put e (v2\<lparr>ev_state := EV_QUEUED\<rparr>) s))
               else Some (w_put e v2 s)))
            (ev_visit es' startCycle)))"

definition ev_done :: "nat \<Rightarrow> nat \<Rightarrow> weave \<Rightarrow> weave option" where
  "ev_done e doneCycle s =
     Option.bind (ev_finish e doneCycle s) (\<lambda>(v, s1).
     Option.bind (ev_visit (ev_kids v) (doneCycle + ev_post v) s1) (\<lambda>s2. Some (ev_free e s2)))"

section \<open>Timing caches\<close>

text \<open>Cycles wrap below 0 as in the source.\<close>

definition tm_highPrio :: "nat \<Rightarrow> tcache \<Rightarrow> (tcache \<times> nat) option" where
  "tm_highPrio cycle t =
     Option.bind (guard (cycle \<ge> tm_lastFree t)) (\<lambda>_.
     let lookupCycle = max cycle (tm_lastAcc t + 1); prevCycle = (cycle + 2 ^ 64 - 1) mod 2 ^ 64;
         t1 = (if tm_lastAcc t < prevCycle then t\<lparr>tm_lastFree := prevCycle\<rparr> else t) in
     Some (t1\<lparr>tm_lastAcc := lookupCycle\<rparr>, lookupCycle))"

definition tm_tryLowPrio :: "nat \<Rightarrow> tcache \<Rightarrow> tcache \<times> nat" where
  "tm_tryLowPrio cycle t =
     (let prevCycle = (cycle + 2 ^ 64 - 1) mod 2 ^ 64 in
      if tm_lastAcc t < prevCycle \<or> tm_lastFree t = prevCycle
      then (t\<lparr>tm_lastFree := 0, tm_lastAcc := max prevCycle (tm_lastAcc t)\<rparr>, cycle)
      else (t, 0))"

definition w_setCache :: "nat \<Rightarrow> tcache \<Rightarrow> weave \<Rightarrow> weave" where
  "w_setCache k t s = s\<lparr>w_cache := (w_cache s)[k := t]\<rparr>"

definition tm_wait :: "nat \<Rightarrow> nat \<Rightarrow> weave \<Rightarrow> weave option" where
  "tm_wait k e s =
     Option.bind (ev_hold e s) (\<lambda>s1.
     let t = w_cache s1 ! k in Some (w_setCache k (t\<lparr>tm_pending := tm_pending t @ [e]\<rparr>) s1))"

text \<open>\<open>CycleBreakdownStat::transition\<close>, on the histogram \<open>profOccHist\<close>.\<close>

definition occ_transition :: "nat \<Rightarrow> nat \<Rightarrow> tcache \<Rightarrow> tcache option" where
  "occ_transition newState cycle t =
     Option.bind (guard (tm_occState t < length (tm_occ t))) (\<lambda>_.
     Option.bind (guard (newState < length (tm_occ t))) (\<lambda>_.
     Option.bind (guard (tm_occLast t \<le> cycle)) (\<lambda>_.
     Some (t\<lparr>tm_occ := (tm_occ t)[tm_occState t := tm_occ t ! tm_occState t + of_nat (cycle - tm_occLast t)],
             tm_occState := newState, tm_occLast := cycle\<rparr>))))"

definition w_setStart :: "nat \<Rightarrow> nat \<Rightarrow> weave \<Rightarrow> weave" where
  "w_setStart e cycle s = s\<lparr>w_start := (w_start s)(e := of_nat cycle)\<rparr>"

definition simulateHit :: "nat \<Rightarrow> nat \<Rightarrow> nat \<Rightarrow> weave \<Rightarrow> weave option" where
  "simulateHit k e cycle s =
     Option.bind (guard (k < length (w_cache s))) (\<lambda>_.
     let t = w_cache s ! k in
     if tm_active t < tm_numMSHRs t
     then Option.bind (tm_highPrio cycle t) (\<lambda>(t', lookupCycle).
            ev_done e lookupCycle (w_setCache k (t'\<lparr>tm_hitLat := tm_hitLat t' + of_nat (lookupCycle - cycle)\<rparr>) s))
     else tm_wait k e s)"

definition simulateMissStart :: "nat \<Rightarrow> nat \<Rightarrow> nat \<Rightarrow> weave \<Rightarrow> weave option" where
  "simulateMissStart k e cycle s =
     Option.bind (guard (k < length (w_cache s))) (\<lambda>_.
     let t = w_cache s ! k in
     if tm_active t < tm_numMSHRs t
     then Option.bind (occ_transition (tm_active t + 1) cycle (t\<lparr>tm_active := tm_active t + 1\<rparr>)) (\<lambda>t1.
            Option.bind (tm_highPrio cycle t1) (\<lambda>(t', lookupCycle).
            ev_done e lookupCycle (w_setCache k t' (w_setStart e cycle s))))
     else tm_wait k e s)"

text \<open>These two read \<open>startCycle\<close> of the start event \<open>m\<close> whether or not it is still allocated.\<close>

definition simulateMissResponse :: "nat \<Rightarrow> nat \<Rightarrow> nat \<Rightarrow> nat \<Rightarrow> weave \<Rightarrow> weave option" where
  "simulateMissResponse k m e cycle s =
     Option.bind (guard (k < length (w_cache s))) (\<lambda>_.
     let t = w_cache s ! k in
     ev_done e cycle (w_setCache k (t\<lparr>tm_missRespLat := tm_missRespLat t + (of_nat cycle - w_start s m)\<rparr>) s))"

primrec tm_wake :: "nat \<Rightarrow> nat list \<Rightarrow> weave \<Rightarrow> weave option" where
  "tm_wake cycle [] s = Some s"
| "tm_wake cycle (q # qs) s = Option.bind (ev_requeue q cycle s) (tm_wake cycle qs)"

definition simulateMissWriteback :: "nat \<Rightarrow> nat \<Rightarrow> nat \<Rightarrow> nat \<Rightarrow> weave \<Rightarrow> weave option" where
  "simulateMissWriteback k m e cycle s =
     Option.bind (guard (k < length (w_cache s))) (\<lambda>_.
     case tm_tryLowPrio cycle (w_cache s ! k) of (t, lookupCycle) \<Rightarrow>
     if lookupCycle \<noteq> 0
     then Option.bind (guard (tm_active t \<noteq> 0)) (\<lambda>_.
          let t1 = t\<lparr>tm_missLat := tm_missLat t + (of_nat cycle - w_start s m), tm_active := tm_active t - 1\<rparr> in
          Option.bind (occ_transition (tm_active t1) lookupCycle t1) (\<lambda>t2.
          Option.bind (tm_wake (cycle + 1) (tm_pending t2) (w_setCache k t2 s)) (\<lambda>s1.
          ev_done e cycle (w_setCache k ((w_cache s1 ! k)\<lparr>tm_pending := []\<rparr>) s1))))
     else ev_requeue e (cycle + 1) (w_setCache k t s))"

definition simulateReplAccess :: "nat \<Rightarrow> nat \<Rightarrow> nat \<Rightarrow> nat \<Rightarrow> weave \<Rightarrow> weave option" where
  "simulateReplAccess k accsLeft e cycle s =
     Option.bind (guard (k < length (w_cache s))) (\<lambda>_.
     Option.bind (guard (accsLeft \<noteq> 0)) (\<lambda>_.
     case tm_tryLowPrio cycle (w_cache s ! k) of (t, lookupCycle) \<Rightarrow>
     let s1 = w_setCache k t s in
     if lookupCycle \<noteq> 0
     then Option.bind (w_ev s1 e) (\<lambda>v.
          let s2 = w_put e (v\<lparr>ev_kind := ReplAccessEvent k (accsLeft - 1)\<rparr>) s1 in
          if accsLeft - 1 = 0 then ev_done e cycle s2 else ev_requeue e (cycle + 1) s2)
     else ev_requeue e (cycle + 1) s1))"

section \<open>Events of the recorders\<close>

definition w_setRec :: "nat \<Rightarrow> recorder \<Rightarrow> weave \<Rightarrow> weave" where
  "w_setRec r c s = s\<lparr>w_rec := (w_rec s)[r := c]\<rparr>"

definition reportEventSimulated :: "nat \<Rightarrow> nat \<Rightarrow> nat \<Rightarrow> nat \<Rightarrow> weave \<Rightarrow> weave option" where
  "reportEventSimulated r e orig startCycle s =
     Option.bind (guard (r < length (w_rec s))) (\<lambda>_.
     let c = w_rec s ! r; c1 = c\<lparr>cr_simStart := startCycle, cr_simOrig := orig\<rparr> in
     Option.bind
       (if cr_prev c1 = Some e
        then Option.bind (guard (cr_state c1 = DRAINING)) (\<lambda>_. Some (c1\<lparr>cr_prev := None\<rparr>))
        else Some c1) (\<lambda>c2.
     Some (w_setRec r (c2\<lparr>cr_slack := (startCycle + 2 ^ 64 - orig) mod 2 ^ 64\<rparr>) s)))"

definition reportIssueEventSimulated :: "nat \<Rightarrow> nat \<Rightarrow> nat \<Rightarrow> nat \<Rightarrow> weave \<Rightarrow> weave option" where
  "reportIssueEventSimulated r e zll startCycle s =
     Option.bind (guard (r < length (w_rec s))) (\<lambda>_.
     let c = w_rec s ! r; c1 = c\<lparr>cr_simOrig := zll, cr_simStart := startCycle\<rparr>;
         c2 = (if cr_prev c1 = Some e then c1\<lparr>cr_prev := None\<rparr> else c1) in
     Some (w_setRec r (c2\<lparr>cr_slack := (startCycle + 2 ^ 64 - zll) mod 2 ^ 64\<rparr>) s))"

section \<open>Simulation\<close>

definition ev_simulate :: "nat \<Rightarrow> nat \<Rightarrow> weave \<Rightarrow> weave option" where
  "ev_simulate e startCycle s =
     Option.bind (w_ev s e) (\<lambda>v.
     case ev_kind v of
       DelayEvent \<Rightarrow> None
     | HitEvent k \<Rightarrow> simulateHit k e startCycle s
     | MissStartEvent k \<Rightarrow> simulateMissStart k e startCycle s
     | MissResponseEvent k m \<Rightarrow> simulateMissResponse k m e startCycle s
     | MissWritebackEvent k m \<Rightarrow> simulateMissWriteback k m e startCycle s
     | ReplAccessEvent k n \<Rightarrow> simulateReplAccess k n e startCycle s
     | WeaveMemAccEvent lat \<Rightarrow> ev_done e (startCycle + lat) s
     | TimingCoreEvent orig r \<Rightarrow> Option.bind (reportEventSimulated r e orig startCycle s) (ev_done e startCycle)
     | OOOIssueEvent zll r \<Rightarrow> Option.bind (reportIssueEventSimulated r e zll startCycle s) (ev_done e startCycle)
     | OOODispatchEvent zll \<Rightarrow> ev_done e startCycle s
     | OOORespEvent r \<Rightarrow> ev_done e startCycle s)"

definition ev_run :: "nat \<Rightarrow> nat \<Rightarrow> weave \<Rightarrow> weave option" where
  "ev_run e startCycle s =
     Option.bind (w_ev s e) (\<lambda>v.
     Option.bind (guard (ev_state v = EV_NONE \<or> ev_state v = EV_QUEUED)) (\<lambda>_.
     Option.bind (guard (startCycle \<ge> ev_minStart v)) (\<lambda>_.
     ev_simulate e startCycle (w_put e (v\<lparr>ev_state := EV_RUNNING\<rparr>) s))))"

text \<open>One turn of the loop of \<open>simulatePhaseThread\<close>, and the loop.\<close>

definition cs_step :: "weave \<Rightarrow> weave option" where
  "cs_step s =
     Option.bind (pq_dequeue 1024 (w_pq s)) (\<lambda>(te, cycle, q).
     Option.bind (guard (cycle \<ge> w_cur s)) (\<lambda>_.
     Option.bind (ev_run te cycle (s\<lparr>w_pq := q, w_cur := cycle\<rparr>)) (\<lambda>s1.
     Option.bind (if pq_size (w_pq s1) \<noteq> 0 then pq_firstCycle 1024 (w_pq s1) else Some (w_limit s1)) (\<lambda>newCycle.
     Option.bind (guard (newCycle \<ge> cycle)) (\<lambda>_.
     Some (s1\<lparr>w_cur := newCycle, w_log := (te, cycle) # w_log s1\<rparr>))))))"

partial_function (option) cs_loop :: "weave \<Rightarrow> weave option" where
  "cs_loop s =
     Option.bind (if pq_size (w_pq s) \<noteq> 0 then map_option (\<lambda>c. c < w_limit s) (pq_firstCycle 1024 (w_pq s)) else Some False)
       (\<lambda>go. if go then Option.bind (cs_step s) cs_loop else Some (s\<lparr>w_cur := w_limit s\<rparr>))"

declare ev_visit.simps [simp del] ev_propagate.simps [simp del] cs_loop.simps [simp del]

end
