(* ===== verification/Weave_Inv.thy ===== *)
theory Weave_Inv
  imports Timing_Events
begin

text \<open>
  The invariant of the weave phase and its preservation by the operations on events.

  \<open>R\<close> is the multiset of notifications \<open>(e, c)\<close> still to come: the calls \<open>parentDone(c)\<close> of event \<open>e\<close> that the pending
  calls of \<open>done\<close> will make. \<open>lb e\<close> is a lower bound on the cycles at which \<open>e\<close> is simulated, \<open>h e\<close> a bound on the cycles from
  the last notification of \<open>e\<close> to the queueing of \<open>e\<close>, or, of a \<open>DelayEvent\<close>, of what it leads to at once; \<open>D\<close> bounds what an event
  adds to the cycle it is done. \<open>H0\<close> is the heap at the start of the phase.
\<close>

section \<open>Children\<close>

definition own :: "tev \<Rightarrow> nat multiset" where
  "own v = (if ev_state v = EV_DONE then {#} else mset (ev_kids v))"

definition kidsum :: "(nat \<Rightarrow> tev option) \<Rightarrow> nat multiset" where
  "kidsum H = (\<Sum>e\<in>dom H. own (the (H e)))"

lemma kidsum_put:
  assumes "finite (dom H)" and "H e = Some v"
  shows "kidsum (H(e \<mapsto> v')) + own v = kidsum H + own v'"
proof -
  have e: "e \<in> dom H" using assms(2) by auto
  have "kidsum (H(e \<mapsto> v')) = own v' + (\<Sum>x\<in>dom H - {e}. own (the ((H(e \<mapsto> v')) x)))"
    unfolding kidsum_def using assms(1) e by (simp add: insert_absorb sum.remove [of _ e])
  also have "(\<Sum>x\<in>dom H - {e}. own (the ((H(e \<mapsto> v')) x))) = (\<Sum>x\<in>dom H - {e}. own (the (H x)))"
    by (rule sum.cong) auto
  finally have 1: "kidsum (H(e \<mapsto> v')) = own v' + (\<Sum>x\<in>dom H - {e}. own (the (H x)))" .
  have "kidsum H = own v + (\<Sum>x\<in>dom H - {e}. own (the (H x)))"
    unfolding kidsum_def using assms e by (simp add: sum.remove [of _ e])
  then show ?thesis using 1 by simp
qed

lemma kidsum_same: "finite (dom H) \<Longrightarrow> H e = Some v \<Longrightarrow> own v' = own v \<Longrightarrow> kidsum (H(e \<mapsto> v')) = kidsum H"
  using kidsum_put [of H e v v'] by simp

lemma kidsum_free:
  assumes "finite (dom H)" and "H e = Some v" and "own v = {#}"
  shows "kidsum (H(e := None)) = kidsum H"
proof -
  have "kidsum H = own v + (\<Sum>x\<in>dom H - {e}. own (the (H x)))"
    unfolding kidsum_def using assms by (subst sum.remove [of _ e]) auto
  also have "(\<Sum>x\<in>dom H - {e}. own (the (H x))) = kidsum (H(e := None))"
    unfolding kidsum_def by (rule sum.cong) auto
  finally show ?thesis using assms(3) by simp
qed

lemma in_kidsum: "finite (dom H) \<Longrightarrow> c \<in># kidsum H \<longleftrightarrow> (\<exists>p w. H p = Some w \<and> c \<in># own w)"
  unfolding kidsum_def by (subst set_mset_sum) (auto simp: dom_def, metis option.sel)

section \<open>The invariant\<close>

definition ev_lat :: "tev \<Rightarrow> nat" where
  "ev_lat v = (case ev_kind v of WeaveMemAccEvent lat \<Rightarrow> lat | _ \<Rightarrow> 0)"

definition wg_graph :: "(nat \<Rightarrow> tev option) \<Rightarrow> (nat \<times> nat) multiset \<Rightarrow> bool" where
  "wg_graph H R \<longleftrightarrow>
     finite (dom H) \<and> size (kidsum H) + size R < 2 ^ 32 \<and>
     (\<forall>e v. H e = Some v \<longrightarrow> ev_numParents v = count (kidsum H + image_mset fst R) e) \<and>
     (\<forall>e\<in>#kidsum H + image_mset fst R. H e \<noteq> None) \<and>
     (\<forall>e v. H e = Some v \<longrightarrow> ev_domain v = 0 \<and> ev_state v \<noteq> EV_INVALID \<and> ev_numChildren v = length (ev_kids v) \<and>
        (ev_numParents v \<noteq> 0 \<longrightarrow> ev_state v = EV_NONE))"

definition wg_times :: "(nat \<Rightarrow> nat) \<Rightarrow> (nat \<Rightarrow> nat) \<Rightarrow> nat \<Rightarrow> nat \<Rightarrow> (nat \<Rightarrow> tev option) \<Rightarrow> (nat \<times> nat) multiset \<Rightarrow> bool" where
  "wg_times lb h D T H R \<longleftrightarrow>
     (\<forall>e v. H e = Some v \<longrightarrow> ev_kind v \<noteq> DelayEvent \<longrightarrow> ev_minStart v \<le> lb e \<and> ev_pre v \<le> h e) \<and>
     (\<forall>p w. H p = Some w \<longrightarrow> (\<forall>c\<in>#own w.
        if ev_kind w = DelayEvent then ev_pre w + ev_post w + h c \<le> h p else ev_lat w + ev_post w + h c \<le> D)) \<and>
     (\<forall>e v. H e = Some v \<longrightarrow> ev_numParents v \<noteq> 0 \<longrightarrow> ev_cycle v + h e < T \<and>
        (lb e \<le> ev_cycle v + ev_pre v \<or> (\<exists>c. (e, c) \<in># R \<and> lb e \<le> c + ev_pre v) \<or>
         (\<exists>p w. H p = Some w \<and> e \<in># own w \<and> lb e \<le> lb p + ev_post w + ev_pre v))) \<and>
     (\<forall>(e, c)\<in>#R. c + h e < T)"

text \<open>When the events that \<open>fin\<close> records as done notified event \<open>e\<close>, and when \<open>e\<close> starts after them.\<close>

definition notif :: "(nat \<Rightarrow> tev option) \<Rightarrow> (nat \<times> nat) list \<Rightarrow> nat \<Rightarrow> nat set" where
  "notif H0 fin e = {f + ev_post w | p w f. (p, f) \<in> set fin \<and> H0 p = Some w \<and> e \<in> set (ev_kids w)}"

definition ready :: "(nat \<Rightarrow> tev option) \<Rightarrow> (nat \<times> nat) list \<Rightarrow> nat \<Rightarrow> nat" where
  "ready H0 fin e = Max (insert (ev_cycle (the (H0 e))) (notif H0 fin e))"

definition ev_same :: "tev \<Rightarrow> tev \<Rightarrow> bool" where
  "ev_same v w \<longleftrightarrow> ev_kids v = ev_kids w \<and> ev_pre v = ev_pre w \<and> ev_post v = ev_post w \<and> ev_lat v = ev_lat w \<and>
     (ev_kind v = DelayEvent \<longleftrightarrow> ev_kind w = DelayEvent)"

definition ended :: "(nat \<Rightarrow> tev option) \<Rightarrow> nat \<Rightarrow> bool" where
  "ended H e \<longleftrightarrow> (case H e of None \<Rightarrow> True | Some v \<Rightarrow> ev_state v = EV_DONE)"

definition parents_in :: "(nat \<Rightarrow> tev option) \<Rightarrow> nat set \<Rightarrow> nat \<Rightarrow> bool" where
  "parents_in H0 F e \<longleftrightarrow> (\<forall>p w. H0 p = Some w \<longrightarrow> e \<in> set (ev_kids w) \<longrightarrow> p \<in> F)"

definition wg_ghost :: "(nat \<Rightarrow> tev option) \<Rightarrow> (nat \<times> nat) list \<Rightarrow> (nat \<Rightarrow> tev option) \<Rightarrow> (nat \<times> nat) multiset \<Rightarrow> bool" where
  "wg_ghost H0 fin H R \<longleftrightarrow>
     (\<forall>e v. H e = Some v \<longrightarrow> (\<exists>v0. H0 e = Some v0 \<and> ev_same v v0)) \<and>
     distinct (map fst fin) \<and>
     (\<forall>e v0. H0 e = Some v0 \<longrightarrow> (e \<in> fst ` set fin \<longleftrightarrow> ended H e)) \<and>
     (\<forall>e. H e = None \<longrightarrow> H0 e \<noteq> None \<longrightarrow> parents_in H0 (fst ` set fin) e) \<and>
     (\<forall>e v. H e = Some v \<longrightarrow> ev_numParents v \<noteq> 0 \<longrightarrow> Max (insert (ev_cycle v) {c. (e, c) \<in># R}) = ready H0 fin e) \<and>
     (\<forall>(e, f)\<in>set fin. \<forall>v0. H0 e = Some v0 \<longrightarrow> ev_kind v0 = DelayEvent \<longrightarrow> ev_numParents v0 \<noteq> 0 \<longrightarrow> f = ready H0 fin e + ev_pre v0)"

definition wg_queue :: "(nat \<Rightarrow> nat) \<Rightarrow> (nat \<Rightarrow> tev option) \<Rightarrow> (nat \<times> nat) list \<Rightarrow> nat set \<Rightarrow> nat set \<Rightarrow> nat \<Rightarrow> (nat \<Rightarrow> tev option) \<Rightarrow>
    (nat \<times> nat) multiset \<Rightarrow> bool" where
  "wg_queue lb H0 fin hs rn cur H Q \<longleftrightarrow>
     (\<forall>(c, e)\<in>#Q. cur \<le> c \<and> lb e \<le> c) \<and>
     (\<forall>e. count (image_mset snd Q) e = (case H e of None \<Rightarrow> 0 | Some v \<Rightarrow> if ev_state v = EV_QUEUED then 1 else 0)) \<and>
     (\<forall>e. e \<in> hs \<longleftrightarrow> (\<exists>v. H e = Some v \<and> ev_state v = EV_HELD)) \<and>
     (\<forall>e\<in>hs. lb e \<le> cur) \<and> hs \<subseteq> rn \<and>
     (\<forall>(c, e)\<in>#Q. \<forall>v0. e \<notin> rn \<longrightarrow> H0 e = Some v0 \<longrightarrow> ev_numParents v0 \<noteq> 0 \<longrightarrow> c = ready H0 fin e + ev_pre v0)"

definition horizon :: "weave \<Rightarrow> nat" where
  "horizon s = w_lastLimit s + 10 * w_PL s + 1000000"

definition wv_okQ :: "(nat \<Rightarrow> nat) \<Rightarrow> (nat \<Rightarrow> nat) \<Rightarrow> nat \<Rightarrow> (nat \<Rightarrow> tev option) \<Rightarrow> nat set \<Rightarrow> nat set \<Rightarrow> (nat \<times> nat) multiset \<Rightarrow> (nat \<times> nat) multiset \<Rightarrow>
    weave \<Rightarrow> bool" where
  "wv_okQ lb h D H0 hs rn R Q s \<longleftrightarrow>
     wg_graph (w_ev s) R \<and> wg_times lb h D (horizon s) (w_ev s) R \<and> wg_ghost H0 (w_fin s) (w_ev s) R \<and>
     w_inCSim s \<and> w_lastLimit s \<le> w_cur s \<and>
     pq_rep 1024 (w_pq s) Q \<and> pq_curBlock (w_pq s) * 64 \<le> w_cur s \<and> wg_queue lb H0 (w_fin s) hs rn (w_cur s) (w_ev s) Q"

definition wv_ok :: "(nat \<Rightarrow> nat) \<Rightarrow> (nat \<Rightarrow> nat) \<Rightarrow> nat \<Rightarrow> (nat \<Rightarrow> tev option) \<Rightarrow> nat set \<Rightarrow> nat set \<Rightarrow> (nat \<times> nat) multiset \<Rightarrow> weave \<Rightarrow> bool" where
  "wv_ok lb h D H0 hs rn R s \<longleftrightarrow> (\<exists>Q. wv_okQ lb h D H0 hs rn R Q s)"

section \<open>Notification\<close>

lemma graphD:
  assumes "wg_graph H R" and "H e = Some v"
  shows "ev_numParents v = count (kidsum H + image_mset fst R) e" and "ev_domain v = 0" and "ev_state v \<noteq> EV_INVALID"
    and "ev_numChildren v = length (ev_kids v)" and "ev_numParents v \<noteq> 0 \<Longrightarrow> ev_state v = EV_NONE"
  using assms unfolding wg_graph_def by blast+

lemma graphI:
  assumes "finite (dom H)" and "size (kidsum H) + size R < 2 ^ 32" and "\<And>e. e \<in># kidsum H + image_mset fst R \<Longrightarrow> H e \<noteq> None"
    and "\<And>e v. H e = Some v \<Longrightarrow> ev_numParents v = count (kidsum H + image_mset fst R) e \<and> ev_domain v = 0 \<and> ev_state v \<noteq> EV_INVALID \<and>
      ev_numChildren v = length (ev_kids v) \<and> (ev_numParents v \<noteq> 0 \<longrightarrow> ev_state v = EV_NONE)"
  shows "wg_graph H R"
  using assms unfolding wg_graph_def by blast

lemma graph_notify:
  assumes g: "wg_graph H (add_mset (e, c) R)" and e: "H e = Some v"
    and v': "ev_numParents v' = ev_numParents v - 1" "ev_state v' = ev_state v" "ev_children v' = ev_children v"
      "ev_domain v' = ev_domain v" "ev_numChildren v' = ev_numChildren v"
  shows "wg_graph (H(e \<mapsto> v')) R" and "0 < ev_numParents v" and "ev_numParents v < 2 ^ 32" and "ev_state v = EV_NONE"
    and "kidsum (H(e \<mapsto> v')) = kidsum H"
proof -
  have f: "finite (dom H)" using g by (simp add: wg_graph_def)
  have own: "own v' = own v" using v' by (simp add: own_def ev_kids_def)
  show ks: "kidsum (H(e \<mapsto> v')) = kidsum H" using kidsum_same [OF f e own] .
  have n: "ev_numParents v = count (kidsum H + image_mset fst R) e + 1" using g e by (auto simp: wg_graph_def)
  then show "0 < ev_numParents v" by simp
  have "count (kidsum H + image_mset fst R) e \<le> size (kidsum H + image_mset fst R)" by (rule count_le_size)
  then show "ev_numParents v < 2 ^ 32" using n g by (simp add: wg_graph_def)
  show "ev_state v = EV_NONE" using n g e by (simp add: wg_graph_def)
  have k: "ev_kids v' = ev_kids v" using v' by (simp add: ev_kids_def)
  show "wg_graph (H(e \<mapsto> v')) R"
  proof (rule graphI)
    show "finite (dom (H(e \<mapsto> v')))" "size (kidsum (H(e \<mapsto> v'))) + size R < 2 ^ 32" using f g ks by (simp_all add: wg_graph_def)
    show "x \<in># kidsum (H(e \<mapsto> v')) + image_mset fst R \<Longrightarrow> (H(e \<mapsto> v')) x \<noteq> None" for x unfolding ks using g by (auto simp: wg_graph_def)
    fix x w assume x: "(H(e \<mapsto> v')) x = Some w"
    show "ev_numParents w = count (kidsum (H(e \<mapsto> v')) + image_mset fst R) x \<and> ev_domain w = 0 \<and> ev_state w \<noteq> EV_INVALID \<and>
      ev_numChildren w = length (ev_kids w) \<and> (ev_numParents w \<noteq> 0 \<longrightarrow> ev_state w = EV_NONE)"
    proof (cases "x = e")
      case True
      then show ?thesis unfolding ks using x n v' k graphD [OF g e] by simp
    next
      case False
      then have "H x = Some w" using x by simp
      from graphD [OF g this] False show ?thesis unfolding ks by simp
    qed
  qed
qed

lemma timesD:
  assumes "wg_times lb h D T H R"
  shows "H e = Some v \<Longrightarrow> ev_kind v \<noteq> DelayEvent \<Longrightarrow> ev_minStart v \<le> lb e \<and> ev_pre v \<le> h e"
    and "H e = Some v \<Longrightarrow> c \<in># own v \<Longrightarrow> ev_kind v = DelayEvent \<Longrightarrow> ev_pre v + ev_post v + h c \<le> h e"
    and "H e = Some v \<Longrightarrow> c \<in># own v \<Longrightarrow> ev_kind v \<noteq> DelayEvent \<Longrightarrow> ev_lat v + ev_post v + h c \<le> D"
    and "H e = Some v \<Longrightarrow> ev_numParents v \<noteq> 0 \<Longrightarrow> ev_cycle v + h e < T"
    and "H e = Some v \<Longrightarrow> ev_numParents v \<noteq> 0 \<Longrightarrow> lb e \<le> ev_cycle v + ev_pre v \<or> (\<exists>c. (e, c) \<in># R \<and> lb e \<le> c + ev_pre v) \<or>
         (\<exists>p w. H p = Some w \<and> e \<in># own w \<and> lb e \<le> lb p + ev_post w + ev_pre v)"
    and "(e, c) \<in># R \<Longrightarrow> c + h e < T"
  using assms unfolding wg_times_def by (blast | metis (mono_tags, lifting) case_prod_conv)+

lemma timesI:
  assumes "\<And>e v. H e = Some v \<Longrightarrow> ev_kind v \<noteq> DelayEvent \<Longrightarrow> ev_minStart v \<le> lb e \<and> ev_pre v \<le> h e"
    and "\<And>e v c. H e = Some v \<Longrightarrow> c \<in># own v \<Longrightarrow> ev_kind v = DelayEvent \<Longrightarrow> ev_pre v + ev_post v + h c \<le> h e"
    and "\<And>e v c. H e = Some v \<Longrightarrow> c \<in># own v \<Longrightarrow> ev_kind v \<noteq> DelayEvent \<Longrightarrow> ev_lat v + ev_post v + h c \<le> D"
    and "\<And>e v. H e = Some v \<Longrightarrow> ev_numParents v \<noteq> 0 \<Longrightarrow> ev_cycle v + h e < T \<and>
        (lb e \<le> ev_cycle v + ev_pre v \<or> (\<exists>c. (e, c) \<in># R \<and> lb e \<le> c + ev_pre v) \<or>
         (\<exists>p w. H p = Some w \<and> e \<in># own w \<and> lb e \<le> lb p + ev_post w + ev_pre v))"
    and "\<And>e c. (e, c) \<in># R \<Longrightarrow> c + h e < T"
  shows "wg_times lb h D T H R"
  unfolding wg_times_def using assms by auto

lemma times_notify:
  assumes t: "wg_times lb h D T H (add_mset (e, c) R)" and e: "H e = Some v" and n: "ev_numParents v \<noteq> 0"
    and v': "ev_cycle v' = max (ev_cycle v) c" "ev_same v' v" "ev_kind v' = ev_kind v" "ev_state v' = ev_state v" "ev_minStart v' = ev_minStart v"
  shows "wg_times lb h D T (H(e \<mapsto> v')) R" and "ev_cycle v' + h e < T"
proof -
  have own: "own v' = own v" using v' by (simp add: own_def ev_same_def)
  have s: "ev_pre v' = ev_pre v" "ev_post v' = ev_post v" "ev_lat v' = ev_lat v" using v'(2) by (simp_all add: ev_same_def)
  have rc: "c + h e < T" using timesD(6) [OF t, of e c] by simp
  show lt: "ev_cycle v' + h e < T" using timesD(4) [OF t e n] rc v'(1) by (simp add: max_def)
  have par: "\<exists>p w'. (H(e \<mapsto> v')) p = Some w' \<and> x \<in># own w' \<and> b \<le> lb p + ev_post w' + k" if "H p = Some w" "x \<in># own w" "b \<le> lb p + ev_post w + k" for p w x b k
    using that e own s by (cases "p = e") auto
  have old: "\<exists>w0. H x = Some w0 \<and> own w = own w0 \<and> ev_same w w0 \<and> ev_kind w = ev_kind w0 \<and> ev_minStart w = ev_minStart w0"
    if "(H(e \<mapsto> v')) x = Some w" for x w using that e v' own by (cases "x = e") (auto simp: ev_same_def)
  show "wg_times lb h D T (H(e \<mapsto> v')) R"
  proof (rule timesI)
    fix x w assume x: "(H(e \<mapsto> v')) x = Some w"
    then obtain w0 where w0: "H x = Some w0" "own w = own w0" "ev_same w w0" "ev_kind w = ev_kind w0" "ev_minStart w = ev_minStart w0"
      using old by blast
    show "ev_kind w \<noteq> DelayEvent \<Longrightarrow> ev_minStart w \<le> lb x \<and> ev_pre w \<le> h x" using timesD(1) [OF t w0(1)] w0 by (simp add: ev_same_def)
    show "k \<in># own w \<Longrightarrow> ev_kind w = DelayEvent \<Longrightarrow> ev_pre w + ev_post w + h k \<le> h x" for k
      using timesD(2) [OF t w0(1), of k] w0 by (simp add: ev_same_def)
    show "k \<in># own w \<Longrightarrow> ev_kind w \<noteq> DelayEvent \<Longrightarrow> ev_lat w + ev_post w + h k \<le> D" for k
      using timesD(3) [OF t w0(1), of k] w0 by (simp add: ev_same_def)
    assume n': "ev_numParents w \<noteq> 0"
    show "ev_cycle w + h x < T \<and> (lb x \<le> ev_cycle w + ev_pre w \<or> (\<exists>c. (x, c) \<in># R \<and> lb x \<le> c + ev_pre w) \<or>
        (\<exists>p w'. (H(e \<mapsto> v')) p = Some w' \<and> x \<in># own w' \<and> lb x \<le> lb p + ev_post w' + ev_pre w))"
    proof (cases "x = e")
      case True
      then have w: "w = v'" using x by simp
      from timesD(5) [OF t e n] show ?thesis
      proof (elim disjE exE conjE, goal_cases)
        case 1
        then have "lb e \<le> ev_cycle v' + ev_pre v'" using s v'(1) by linarith
        then show ?case using True w lt by blast
      next
        case (2 k)
        then show ?case using True w s v'(1) lt by (cases "(e, k) \<in># R") auto
      next
        case (3 p u)
        then show ?case using par [OF 3] True w s lt by auto
      qed
    next
      case False
      then have Hx: "H x = Some w" using x by simp
      have "ev_cycle w + h x < T" by (rule timesD(4) [OF t Hx n'])
      with timesD(5) [OF t Hx n'] show ?thesis
      proof (elim disjE exE conjE, goal_cases)
        case (3 p u)
        then show ?case using par [OF 3(2-4)] by blast
      qed (use False in auto)
    qed
  next
    show "(x, k) \<in># R \<Longrightarrow> k + h x < T" for x k using timesD(6) [OF t, of x k] by simp
  qed
qed

lemma ghostD:
  assumes "wg_ghost H0 fin H R"
  shows "H e = Some v \<Longrightarrow> \<exists>v0. H0 e = Some v0 \<and> ev_same v v0"
    and "distinct (map fst fin)"
    and "H0 e = Some v0 \<Longrightarrow> e \<in> fst ` set fin \<longleftrightarrow> ended H e"
    and "H e = None \<Longrightarrow> H0 e \<noteq> None \<Longrightarrow> parents_in H0 (fst ` set fin) e"
    and "H e = Some v \<Longrightarrow> ev_numParents v \<noteq> 0 \<Longrightarrow> Max (insert (ev_cycle v) {c. (e, c) \<in># R}) = ready H0 fin e"
    and "(e, f) \<in> set fin \<Longrightarrow> H0 e = Some v0 \<Longrightarrow> ev_kind v0 = DelayEvent \<Longrightarrow> ev_numParents v0 \<noteq> 0 \<Longrightarrow> f = ready H0 fin e + ev_pre v0"
  using assms unfolding wg_ghost_def by (blast | metis (mono_tags, lifting) case_prod_conv)+

lemma ghostI:
  assumes "\<And>e v. H e = Some v \<Longrightarrow> \<exists>v0. H0 e = Some v0 \<and> ev_same v v0"
    and "distinct (map fst fin)"
    and "\<And>e v0. H0 e = Some v0 \<Longrightarrow> e \<in> fst ` set fin \<longleftrightarrow> ended H e"
    and "\<And>e. H e = None \<Longrightarrow> H0 e \<noteq> None \<Longrightarrow> parents_in H0 (fst ` set fin) e"
    and "\<And>e v. H e = Some v \<Longrightarrow> ev_numParents v \<noteq> 0 \<Longrightarrow> Max (insert (ev_cycle v) {c. (e, c) \<in># R}) = ready H0 fin e"
    and "\<And>e f v0. (e, f) \<in> set fin \<Longrightarrow> H0 e = Some v0 \<Longrightarrow> ev_kind v0 = DelayEvent \<Longrightarrow> ev_numParents v0 \<noteq> 0 \<Longrightarrow> f = ready H0 fin e + ev_pre v0"
  shows "wg_ghost H0 fin H R"
  unfolding wg_ghost_def using assms by fast

lemma finite_notif: "finite (notif H0 fin e)"
proof -
  have "notif H0 fin e \<subseteq> (\<lambda>(p, f). f + ev_post (the (H0 p))) ` set fin" unfolding notif_def by force
  then show ?thesis by (rule finite_subset) simp
qed

lemma finite_pending:
  fixes R :: "(nat \<times> nat) multiset"
  shows "finite {c. (e, c) \<in># R}"
proof -
  have "{c. (e, c) \<in># R} \<subseteq> snd ` set_mset R" by force
  then show ?thesis by (rule finite_subset) simp
qed

lemma max_pending_add:
  fixes R :: "(nat \<times> nat) multiset"
  shows "Max (insert a {k. (e, k) \<in># add_mset (e, c) R}) = Max (insert (max a c) {k. (e, k) \<in># R})"
proof -
  have "insert a {k. (e, k) \<in># add_mset (e, c) R} = insert a (insert c {k. (e, k) \<in># R})" by auto
  then show ?thesis
  proof (cases "{k. (e, k) \<in># R} = {}")
    case False
    have "Max (insert a (insert c {k. (e, k) \<in># R})) = max a (max c (Max {k. (e, k) \<in># R}))"
      using False finite_pending [of e R] by (simp add: Max_insert)
    then show ?thesis using \<open>insert a {k. (e, k) \<in># add_mset (e, c) R} = _\<close> False finite_pending by (simp add: max.assoc)
  qed simp
qed

lemma ghost_notify:
  assumes g: "wg_ghost H0 fin H (add_mset (e, c) R)" and e: "H e = Some v" and n: "ev_numParents v \<noteq> 0"
    and v': "ev_cycle v' = max (ev_cycle v) c" "ev_same v' v" "ev_state v' = ev_state v"
  shows "wg_ghost H0 fin (H(e \<mapsto> v')) R" and "Max (insert (ev_cycle v') {k. (e, k) \<in># R}) = ready H0 fin e"
proof -
  show m: "Max (insert (ev_cycle v') {k. (e, k) \<in># R}) = ready H0 fin e"
    using ghostD(5) [OF g e n] v'(1) max_pending_add [of "ev_cycle v" e c R] by simp
  show "wg_ghost H0 fin (H(e \<mapsto> v')) R"
  proof (rule ghostI)
    fix x w assume x: "(H(e \<mapsto> v')) x = Some w"
    show "\<exists>v0. H0 x = Some v0 \<and> ev_same w v0"
      using ghostD(1) [OF g, of x] x e v'(2) by (cases "x = e") (auto simp: ev_same_def)
    assume n': "ev_numParents w \<noteq> 0"
    show "Max (insert (ev_cycle w) {k. (x, k) \<in># R}) = ready H0 fin x"
    proof (cases "x = e")
      case False
      then have "{k. (x, k) \<in># add_mset (e, c) R} = {k. (x, k) \<in># R}" by auto
      then show ?thesis using ghostD(5) [OF g _ n', of x] x False by simp
    qed (use m x in simp)
  next
    fix x v0 assume "H0 x = Some v0"
    moreover have "ended (H(e \<mapsto> v')) x = ended H x" using e v' by (simp add: ended_def)
    ultimately show "x \<in> fst ` set fin \<longleftrightarrow> ended (H(e \<mapsto> v')) x" using ghostD(3) [OF g] by simp
  next
    fix x assume "(H(e \<mapsto> v')) x = None" "H0 x \<noteq> None"
    then show "parents_in H0 (fst ` set fin) x" using ghostD(4) [OF g, of x] by (auto split: if_splits)
  qed (fact ghostD(2) [OF g], fact ghostD(6) [OF g])
qed

section \<open>Completion\<close>

lemma parents_fin:
  assumes g: "wg_graph H R" and gh: "wg_ghost H0 fin H R" and x: "H0 x \<noteq> None" "\<And>v. H x = Some v \<Longrightarrow> ev_numParents v = 0"
  shows "parents_in H0 (fst ` set fin) x"
proof (cases "H x")
  case None
  then show ?thesis using ghostD(4) [OF gh] x(1) by blast
next
  case (Some v')
  show ?thesis
    unfolding parents_in_def
  proof (intro allI impI)
    fix p w assume p: "H0 p = Some w" "x \<in> set (ev_kids w)"
    show "p \<in> fst ` set fin"
    proof (rule ccontr)
      assume "p \<notin> fst ` set fin"
      then have "\<not> ended H p" using ghostD(3) [OF gh p(1)] by simp
      then obtain u where u: "H p = Some u" "ev_state u \<noteq> EV_DONE" by (auto simp: ended_def split: option.splits)
      then have "ev_kids u = ev_kids w" using ghostD(1) [OF gh u(1)] p(1) by (auto simp: ev_same_def)
      then have "x \<in># own u" using u p by (simp add: own_def)
      then have "x \<in># kidsum H" using in_kidsum g u(1) unfolding wg_graph_def by blast
      then show False using graphD(1) [OF g Some] x(2) [OF Some] by (simp add: count_eq_zero_iff)
    qed
  qed
qed

lemma notif_step:
  "notif H0 ((e, d) # fin) x = notif H0 fin x \<union> {d + ev_post w | w. H0 e = Some w \<and> x \<in> set (ev_kids w)}"
  unfolding notif_def by auto

lemma ready_stable:
  assumes "parents_in H0 (fst ` set fin) x" and "e \<notin> fst ` set fin"
  shows "ready H0 ((e, d) # fin) x = ready H0 fin x"
proof -
  have "{d + ev_post w | w. H0 e = Some w \<and> x \<in> set (ev_kids w)} = {}" using assms by (auto simp: parents_in_def)
  then show ?thesis unfolding ready_def notif_step by (simp only: Un_empty_right)
qed

lemma ready_other: "H0 e = Some w \<Longrightarrow> x \<notin> set (ev_kids w) \<Longrightarrow> ready H0 ((e, d) # fin) x = ready H0 fin x"
  unfolding ready_def notif_step by simp

lemma ready_kid:
  assumes "H0 e = Some w" and "x \<in> set (ev_kids w)"
  shows "ready H0 ((e, d) # fin) x = max (ready H0 fin x) (d + ev_post w)"
proof -
  have "{d + ev_post u | u. H0 e = Some u \<and> x \<in> set (ev_kids u)} = {d + ev_post w}" using assms by auto
  then have "insert (ev_cycle (the (H0 x))) (notif H0 ((e, d) # fin) x) = insert (d + ev_post w) (insert (ev_cycle (the (H0 x))) (notif H0 fin x))"
    unfolding notif_step by auto
  then show ?thesis unfolding ready_def using finite_notif [of H0 fin x] by (simp add: max.commute)
qed

text \<open>The notifications that event \<open>v\<close>, done at \<open>d\<close>, will give.\<close>

definition sends :: "tev \<Rightarrow> nat \<Rightarrow> (nat \<times> nat) multiset" where
  "sends v d = mset (map (\<lambda>k. (k, d + ev_post v)) (ev_kids v))"

lemma in_sends [simp]: "(k, c) \<in># sends v d \<longleftrightarrow> k \<in> set (ev_kids v) \<and> c = d + ev_post v"
  by (auto simp: sends_def)

lemma fst_sends [simp]: "image_mset fst (sends v d) = mset (ev_kids v)"
  by (simp add: sends_def comp_def flip: mset_map)

lemma size_sends [simp]: "size (sends v d) = length (ev_kids v)"
  by (simp add: sends_def)

lemma graph_finish:
  assumes g: "wg_graph H R" and e: "H e = Some v" "ev_numParents v = 0" "ev_state v \<noteq> EV_DONE"
    and v': "ev_state v' = EV_DONE" "ev_numParents v' = 0" "ev_kids v' = ev_kids v" "ev_domain v' = ev_domain v" "ev_numChildren v' = ev_numChildren v"
  shows "wg_graph (H(e \<mapsto> v')) (sends v d + R)" and "size (kidsum (H(e \<mapsto> v'))) + length (ev_kids v) = size (kidsum H)"
proof -
  have f: "finite (dom H)" using g by (simp add: wg_graph_def)
  have o: "own v' = {#}" "own v = mset (ev_kids v)" using v'(1) e(3) by (simp_all add: own_def)
  have ks: "kidsum H = kidsum (H(e \<mapsto> v')) + mset (ev_kids v)" using kidsum_put [OF f e(1), of v'] unfolding o by simp
  then show "size (kidsum (H(e \<mapsto> v'))) + length (ev_kids v) = size (kidsum H)" by simp
  have all: "kidsum (H(e \<mapsto> v')) + image_mset fst (sends v d + R) = kidsum H + image_mset fst R" unfolding ks by simp
  show "wg_graph (H(e \<mapsto> v')) (sends v d + R)"
  proof (rule graphI; (unfold all)?)
    show "finite (dom (H(e \<mapsto> v')))" using f by simp
    have "size (kidsum (H(e \<mapsto> v'))) + size (sends v d + R) = size (kidsum H) + size R" unfolding ks by simp
    then show "size (kidsum (H(e \<mapsto> v'))) + size (sends v d + R) < 2 ^ 32" using g unfolding wg_graph_def by metis
    show "x \<in># kidsum H + image_mset fst R \<Longrightarrow> (H(e \<mapsto> v')) x \<noteq> None" for x using g by (auto simp: wg_graph_def)
    fix x w assume x: "(H(e \<mapsto> v')) x = Some w"
    show "ev_numParents w = count (kidsum H + image_mset fst R) x \<and> ev_domain w = 0 \<and> ev_state w \<noteq> EV_INVALID \<and>
      ev_numChildren w = length (ev_kids w) \<and> (ev_numParents w \<noteq> 0 \<longrightarrow> ev_state w = EV_NONE)"
    proof (cases "x = e")
      case True
      then show ?thesis using x v' e graphD [OF g e(1)] by simp
    next
      case False
      then have "H x = Some w" using x by simp
      from graphD [OF g this] show ?thesis by simp
    qed
  qed
qed

lemma times_finish:
  assumes t: "wg_times lb h D T H R" and e: "H e = Some v" "ev_state v \<noteq> EV_DONE" "lb e \<le> d"
    and b: "\<And>k. k \<in> set (ev_kids v) \<Longrightarrow> d + ev_post v + h k < T"
    and v': "ev_state v' = EV_DONE" "ev_numParents v' = 0" "ev_same v' v" "ev_kind v' = ev_kind v" "ev_minStart v' = ev_minStart v"
  shows "wg_times lb h D T (H(e \<mapsto> v')) (sends v d + R)"
proof (rule timesI)
  have o: "own v' = {#}" using v'(1) by (simp add: own_def)
  fix x w assume x: "(H(e \<mapsto> v')) x = Some w"
  show "ev_kind w \<noteq> DelayEvent \<Longrightarrow> ev_minStart w \<le> lb x \<and> ev_pre w \<le> h x"
    using x timesD(1) [OF t, of x] e v' by (cases "x = e") (auto simp: ev_same_def)
  show "k \<in># own w \<Longrightarrow> ev_kind w = DelayEvent \<Longrightarrow> ev_pre w + ev_post w + h k \<le> h x" for k
    using x timesD(2) [OF t, of x w k] o by (cases "x = e") auto
  show "k \<in># own w \<Longrightarrow> ev_kind w \<noteq> DelayEvent \<Longrightarrow> ev_lat w + ev_post w + h k \<le> D" for k
    using x timesD(3) [OF t, of x w k] o by (cases "x = e") auto
  assume n: "ev_numParents w \<noteq> 0"
  then have ne: "x \<noteq> e" using x v' by auto
  then have Hx: "H x = Some w" using x by simp
  have T: "ev_cycle w + h x < T" by (rule timesD(4) [OF t Hx n])
  show "ev_cycle w + h x < T \<and> (lb x \<le> ev_cycle w + ev_pre w \<or> (\<exists>c. (x, c) \<in># sends v d + R \<and> lb x \<le> c + ev_pre w) \<or>
         (\<exists>p w'. (H(e \<mapsto> v')) p = Some w' \<and> x \<in># own w' \<and> lb x \<le> lb p + ev_post w' + ev_pre w))"
    using timesD(5) [OF t Hx n]
  proof (elim disjE exE conjE, goal_cases)
    case (3 p u)
    show ?case
    proof (cases "p = e")
      case True
      then have "u = v" using 3 e by simp
      then have "x \<in> set (ev_kids v)" using 3 e(2) by (simp add: own_def)
      moreover have "lb x \<le> d + ev_post v + ev_pre w" using 3 True \<open>u = v\<close> e(3) by simp
      ultimately show ?thesis using T by (intro conjI disjI2 disjI1 exI [of _ "d + ev_post v"]) simp_all
    next
      case False
      then have "(H(e \<mapsto> v')) p = Some u" using 3 by simp
      then show ?thesis using 3 T by blast
    qed
  qed (use T in auto)
next
  show "(k, c) \<in># sends v d + R \<Longrightarrow> c + h k < T" for k c using timesD(6) [OF t, of k c] b by auto
qed

lemma ghost_finish:
  assumes g: "wg_graph H R" and gh: "wg_ghost H0 fin H R" and e: "H e = Some v" "ev_numParents v = 0" "ev_state v \<noteq> EV_DONE"
    and v': "ev_state v' = EV_DONE" "ev_numParents v' = 0" "ev_same v' v"
    and dly: "\<And>v0. H0 e = Some v0 \<Longrightarrow> ev_kind v0 = DelayEvent \<Longrightarrow> ev_numParents v0 \<noteq> 0 \<Longrightarrow> d = ready H0 fin e + ev_pre v0"
  shows "wg_ghost H0 ((e, d) # fin) (H(e \<mapsto> v')) (sends v d + R)"
proof -
  obtain v0 where v0: "H0 e = Some v0" "ev_same v v0" using ghostD(1) [OF gh e(1)] by blast
  have ne: "e \<notin> fst ` set fin" using ghostD(3) [OF gh v0(1)] e(1,3) by (simp add: ended_def)
  have stable: "ready H0 ((e, d) # fin) x = ready H0 fin x" if "H0 x \<noteq> None" "\<And>v. H x = Some v \<Longrightarrow> ev_numParents v = 0" for x
    using ready_stable [OF parents_fin [OF g gh that] ne] .
  show ?thesis
  proof (rule ghostI)
    show "distinct (map fst ((e, d) # fin))" using ne ghostD(2) [OF gh] by simp
  next
    fix x w assume x: "(H(e \<mapsto> v')) x = Some w"
    show "\<exists>v0. H0 x = Some v0 \<and> ev_same w v0" using x ghostD(1) [OF gh, of x] v0 v'(3) by (cases "x = e") (auto simp: ev_same_def)
    assume n: "ev_numParents w \<noteq> 0"
    then have xe: "x \<noteq> e" using x v' by auto
    then have old: "Max (insert (ev_cycle w) {c. (x, c) \<in># R}) = ready H0 fin x" using ghostD(5) [OF gh _ n, of x] x by simp
    show "Max (insert (ev_cycle w) {c. (x, c) \<in># sends v d + R}) = ready H0 ((e, d) # fin) x"
    proof (cases "x \<in> set (ev_kids v)")
      case True
      then have "insert (ev_cycle w) {c. (x, c) \<in># sends v d + R} = insert (d + ev_post v) (insert (ev_cycle w) {c. (x, c) \<in># R})" by auto
      moreover have "ready H0 ((e, d) # fin) x = max (ready H0 fin x) (d + ev_post v)"
        using ready_kid [of H0 e v0 x d fin] v0(1) True v0(2) by (simp add: ev_same_def)
      ultimately show ?thesis using old finite_pending [of x R] by (simp add: max.commute)
    next
      case False
      then show ?thesis using old ready_other [of H0 e v0 x d fin] v0 by (simp add: ev_same_def)
    qed
  next
    fix x w assume x: "H0 x = Some w"
    show "x \<in> fst ` set ((e, d) # fin) \<longleftrightarrow> ended (H(e \<mapsto> v')) x"
      using ghostD(3) [OF gh x] v'(1) by (cases "x = e") (auto simp: ended_def)
  next
    fix x assume "(H(e \<mapsto> v')) x = None" "H0 x \<noteq> None"
    then show "parents_in H0 (fst ` set ((e, d) # fin)) x" using ghostD(4) [OF gh, of x] by (auto simp: parents_in_def split: if_splits)
  next
    fix x f w assume x: "(x, f) \<in> set ((e, d) # fin)" "H0 x = Some w" "ev_kind w = DelayEvent" "ev_numParents w \<noteq> 0"
    show "f = ready H0 ((e, d) # fin) x + ev_pre w"
    proof (cases "(x, f) = (e, d)")
      case True
      then show ?thesis using stable [of e] e dly x by simp
    next
      case False
      then have xf: "(x, f) \<in> set fin" using x(1) by auto
      then have "x \<in> fst ` set fin" by force
      then have "ended H x" using ghostD(3) [OF gh x(2)] by simp
      then have "ev_numParents u = 0" if "H x = Some u" for u using graphD(5) [OF g that] that by (auto simp: ended_def)
      then have "ready H0 ((e, d) # fin) x = ready H0 fin x" using stable x(2) by simp
      then show ?thesis using ghostD(6) [OF gh xf x(2-4)] by simp
    qed
  qed
qed

section \<open>Changes of an event that leave the graph alone\<close>

definition ev_like :: "tev \<Rightarrow> tev \<Rightarrow> bool" where
  "ev_like v' v \<longleftrightarrow> ev_same v' v \<and> ev_minStart v' = ev_minStart v \<and> ev_numParents v' = ev_numParents v \<and> ev_cycle v' = ev_cycle v \<and>
     ev_domain v' = ev_domain v \<and> ev_numChildren v' = ev_numChildren v \<and> (ev_state v' = EV_DONE \<longleftrightarrow> ev_state v = EV_DONE)"

lemma own_like: "ev_like v' v \<Longrightarrow> own v' = own v"
  by (simp add: ev_like_def own_def ev_same_def)

lemma graph_put:
  assumes g: "wg_graph H R" and e: "H e = Some v" and l: "ev_like v' v" and st: "ev_state v' \<noteq> EV_INVALID" "ev_numParents v \<noteq> 0 \<Longrightarrow> ev_state v' = EV_NONE"
  shows "wg_graph (H(e \<mapsto> v')) R" and "kidsum (H(e \<mapsto> v')) = kidsum H"
proof -
  have f: "finite (dom H)" using g by (simp add: wg_graph_def)
  show ks: "kidsum (H(e \<mapsto> v')) = kidsum H" using kidsum_same [OF f e own_like [OF l]] .
  show "wg_graph (H(e \<mapsto> v')) R"
  proof (rule graphI; (unfold ks)?)
    show "finite (dom (H(e \<mapsto> v')))" "size (kidsum H) + size R < 2 ^ 32" using f g by (simp_all add: wg_graph_def)
    show "x \<in># kidsum H + image_mset fst R \<Longrightarrow> (H(e \<mapsto> v')) x \<noteq> None" for x using g by (auto simp: wg_graph_def)
    fix x w assume x: "(H(e \<mapsto> v')) x = Some w"
    show "ev_numParents w = count (kidsum H + image_mset fst R) x \<and> ev_domain w = 0 \<and> ev_state w \<noteq> EV_INVALID \<and>
      ev_numChildren w = length (ev_kids w) \<and> (ev_numParents w \<noteq> 0 \<longrightarrow> ev_state w = EV_NONE)"
    proof (cases "x = e")
      case True
      then show ?thesis using x l st graphD [OF g e] by (simp add: ev_like_def ev_same_def)
    next
      case False
      then have "H x = Some w" using x by simp
      from graphD [OF g this] show ?thesis by simp
    qed
  qed
qed

lemma times_put:
  assumes t: "wg_times lb h D T H R" and e: "H e = Some v" and l: "ev_like v' v"
  shows "wg_times lb h D T (H(e \<mapsto> v')) R"
proof -
  have old: "\<exists>w0. H x = Some w0 \<and> own w = own w0 \<and> ev_same w w0 \<and> ev_minStart w = ev_minStart w0 \<and> ev_numParents w = ev_numParents w0 \<and> ev_cycle w = ev_cycle w0"
    if "(H(e \<mapsto> v')) x = Some w" for x w using that e l own_like [OF l] by (cases "x = e") (auto simp: ev_like_def ev_same_def)
  have new: "\<exists>w. (H(e \<mapsto> v')) x = Some w \<and> own w = own w0 \<and> ev_post w = ev_post w0"
    if "H x = Some w0" for x w0 using that e l own_like [OF l] by (cases "x = e") (auto simp: ev_like_def ev_same_def)
  show ?thesis
  proof (rule timesI)
    fix x w assume "(H(e \<mapsto> v')) x = Some w"
    then obtain w0 where w0: "H x = Some w0" "own w = own w0" "ev_same w w0" "ev_minStart w = ev_minStart w0" "ev_numParents w = ev_numParents w0"
      "ev_cycle w = ev_cycle w0" using old by blast
    show "ev_kind w \<noteq> DelayEvent \<Longrightarrow> ev_minStart w \<le> lb x \<and> ev_pre w \<le> h x" using timesD(1) [OF t w0(1)] w0 by (simp add: ev_same_def)
    show "k \<in># own w \<Longrightarrow> ev_kind w = DelayEvent \<Longrightarrow> ev_pre w + ev_post w + h k \<le> h x" for k
      using timesD(2) [OF t w0(1), of k] w0 by (simp add: ev_same_def)
    show "k \<in># own w \<Longrightarrow> ev_kind w \<noteq> DelayEvent \<Longrightarrow> ev_lat w + ev_post w + h k \<le> D" for k
      using timesD(3) [OF t w0(1), of k] w0 by (simp add: ev_same_def)
    assume n: "ev_numParents w \<noteq> 0"
    have n0: "ev_numParents w0 \<noteq> 0" using n w0(5) by simp
    have T: "ev_cycle w + h x < T" using timesD(4) [OF t w0(1) n0] w0(6) by simp
    have pre: "ev_pre w = ev_pre w0" using w0(3) by (simp add: ev_same_def)
    show "ev_cycle w + h x < T \<and> (lb x \<le> ev_cycle w + ev_pre w \<or> (\<exists>c. (x, c) \<in># R \<and> lb x \<le> c + ev_pre w) \<or>
        (\<exists>p w'. (H(e \<mapsto> v')) p = Some w' \<and> x \<in># own w' \<and> lb x \<le> lb p + ev_post w' + ev_pre w))"
      using timesD(5) [OF t w0(1) n0] unfolding pre w0(6)
    proof (elim disjE exE conjE, goal_cases)
      case (3 p u)
      then show ?case using new [OF 3(1)] T w0(6) by metis
    qed (use T w0(6) in auto)
  qed (rule timesD(6) [OF t])
qed

lemma ghost_put:
  assumes gh: "wg_ghost H0 fin H R" and e: "H e = Some v" and l: "ev_like v' v"
  shows "wg_ghost H0 fin (H(e \<mapsto> v')) R"
proof (rule ghostI)
  fix x w assume x: "(H(e \<mapsto> v')) x = Some w"
  show "\<exists>v0. H0 x = Some v0 \<and> ev_same w v0"
    using ghostD(1) [OF gh, of x] x e l by (cases "x = e") (auto simp: ev_like_def ev_same_def)
  assume n: "ev_numParents w \<noteq> 0"
  show "Max (insert (ev_cycle w) {c. (x, c) \<in># R}) = ready H0 fin x"
    using ghostD(5) [OF gh, of x] x e l n by (cases "x = e") (auto simp: ev_like_def)
next
  fix x v0 assume x: "H0 x = Some v0"
  have "ended (H(e \<mapsto> v')) x = ended H x" using e l by (simp add: ended_def ev_like_def)
  then show "x \<in> fst ` set fin \<longleftrightarrow> ended (H(e \<mapsto> v')) x" using ghostD(3) [OF gh x] by simp
next
  fix x assume "(H(e \<mapsto> v')) x = None" "H0 x \<noteq> None"
  then show "parents_in H0 (fst ` set fin) x" using ghostD(4) [OF gh, of x] by (auto split: if_splits)
qed (fact ghostD(2) [OF gh], fact ghostD(6) [OF gh])

text \<open>The event is freed.\<close>

lemma free_ok:
  assumes g: "wg_graph H R" and t: "wg_times lb h D T H R" and gh: "wg_ghost H0 fin H R" and e: "H e = Some v" "ev_state v = EV_DONE"
  shows "wg_graph (H(e := None)) R \<and> wg_times lb h D T (H(e := None)) R \<and> wg_ghost H0 fin (H(e := None)) R" and "kidsum (H(e := None)) = kidsum H"
proof -
  have f: "finite (dom H)" using g by (simp add: wg_graph_def)
  have o: "own v = {#}" using e by (simp add: own_def)
  show ks: "kidsum (H(e := None)) = kidsum H" by (rule kidsum_free [OF f e(1) o])
  have n: "ev_numParents v = 0" using graphD(5) [OF g e(1)] e(2) by auto
  then have ne: "e \<notin># kidsum H + image_mset fst R" using graphD(1) [OF g e(1)] by (metis count_eq_zero_iff)
  have "wg_graph (H(e := None)) R"
  proof (rule graphI; (unfold ks)?)
    show "finite (dom (H(e := None)))" "size (kidsum H) + size R < 2 ^ 32" using f g by (simp_all add: wg_graph_def)
    show "x \<in># kidsum H + image_mset fst R \<Longrightarrow> (H(e := None)) x \<noteq> None" for x using g ne unfolding wg_graph_def by (cases "x = e") auto
    show "(H(e := None)) x = Some w \<Longrightarrow> ev_numParents w = count (kidsum H + image_mset fst R) x \<and> ev_domain w = 0 \<and> ev_state w \<noteq> EV_INVALID \<and>
      ev_numChildren w = length (ev_kids w) \<and> (ev_numParents w \<noteq> 0 \<longrightarrow> ev_state w = EV_NONE)" for x w
      using graphD [OF g, of x w] by (auto split: if_splits)
  qed
  moreover have "wg_times lb h D T (H(e := None)) R"
  proof (rule timesI)
    fix x w assume "(H(e := None)) x = Some w"
    then have x: "H x = Some w" by (simp split: if_splits)
    show "ev_kind w \<noteq> DelayEvent \<Longrightarrow> ev_minStart w \<le> lb x \<and> ev_pre w \<le> h x" by (rule timesD(1) [OF t x])
    show "k \<in># own w \<Longrightarrow> ev_kind w = DelayEvent \<Longrightarrow> ev_pre w + ev_post w + h k \<le> h x" for k by (rule timesD(2) [OF t x])
    show "k \<in># own w \<Longrightarrow> ev_kind w \<noteq> DelayEvent \<Longrightarrow> ev_lat w + ev_post w + h k \<le> D" for k by (rule timesD(3) [OF t x])
    assume n: "ev_numParents w \<noteq> 0"
    have T: "ev_cycle w + h x < T" by (rule timesD(4) [OF t x n])
    show "ev_cycle w + h x < T \<and> (lb x \<le> ev_cycle w + ev_pre w \<or> (\<exists>c. (x, c) \<in># R \<and> lb x \<le> c + ev_pre w) \<or>
        (\<exists>p w'. (H(e := None)) p = Some w' \<and> x \<in># own w' \<and> lb x \<le> lb p + ev_post w' + ev_pre w))"
      using timesD(5) [OF t x n]
    proof (elim disjE exE conjE, goal_cases)
      case (3 p u)
      then have "(H(e := None)) p = Some u" using e o by auto
      then show ?case using 3 T by blast
    qed (use T in auto)
  qed (rule timesD(6) [OF t])
  moreover have "wg_ghost H0 fin (H(e := None)) R"
  proof (rule ghostI)
    fix x w assume "(H(e := None)) x = Some w"
    then have x: "H x = Some w" by (simp split: if_splits)
    show "\<exists>v0. H0 x = Some v0 \<and> ev_same w v0" by (rule ghostD(1) [OF gh x])
    show "ev_numParents w \<noteq> 0 \<Longrightarrow> Max (insert (ev_cycle w) {c. (x, c) \<in># R}) = ready H0 fin x" by (rule ghostD(5) [OF gh x])
  next
    fix x v0 assume x: "H0 x = Some v0"
    have "ended (H(e := None)) x = ended H x" using e by (simp add: ended_def)
    then show "x \<in> fst ` set fin \<longleftrightarrow> ended (H(e := None)) x" using ghostD(3) [OF gh x] by simp
  next
    fix x assume x: "(H(e := None)) x = None" "H0 x \<noteq> None"
    show "parents_in H0 (fst ` set fin) x"
      using parents_fin [OF g gh x(2)] x(1) n e(1) by (cases "x = e") auto
  qed (fact ghostD(2) [OF gh], fact ghostD(6) [OF gh])
  ultimately show "wg_graph (H(e := None)) R \<and> wg_times lb h D T (H(e := None)) R \<and> wg_ghost H0 fin (H(e := None)) R" by blast
qed

section \<open>The queue\<close>

lemma queueD:
  assumes "wg_queue lb H0 fin hs rn cur H Q"
  shows "(c, e) \<in># Q \<Longrightarrow> cur \<le> c \<and> lb e \<le> c"
    and "count (image_mset snd Q) e = (case H e of None \<Rightarrow> 0 | Some v \<Rightarrow> if ev_state v = EV_QUEUED then 1 else 0)"
    and "e \<in> hs \<longleftrightarrow> (\<exists>v. H e = Some v \<and> ev_state v = EV_HELD)"
    and "e \<in> hs \<Longrightarrow> lb e \<le> cur" and "hs \<subseteq> rn"
    and "(c, e) \<in># Q \<Longrightarrow> e \<notin> rn \<Longrightarrow> H0 e = Some v0 \<Longrightarrow> ev_numParents v0 \<noteq> 0 \<Longrightarrow> c = ready H0 fin e + ev_pre v0"
  using assms unfolding wg_queue_def by (blast | metis (mono_tags, lifting) case_prod_conv)+

lemma queueI:
  assumes "\<And>c e. (c, e) \<in># Q \<Longrightarrow> cur \<le> c \<and> lb e \<le> c"
    and "\<And>e. count (image_mset snd Q) e = (case H e of None \<Rightarrow> 0 | Some v \<Rightarrow> if ev_state v = EV_QUEUED then 1 else 0)"
    and "\<And>e. e \<in> hs \<longleftrightarrow> (\<exists>v. H e = Some v \<and> ev_state v = EV_HELD)"
    and "\<And>e. e \<in> hs \<Longrightarrow> lb e \<le> cur" and "hs \<subseteq> rn"
    and "\<And>c e v0. (c, e) \<in># Q \<Longrightarrow> e \<notin> rn \<Longrightarrow> H0 e = Some v0 \<Longrightarrow> ev_numParents v0 \<noteq> 0 \<Longrightarrow> c = ready H0 fin e + ev_pre v0"
  shows "wg_queue lb H0 fin hs rn cur H Q"
  unfolding wg_queue_def using assms by fast

lemma queue_state:
  assumes "wg_queue lb H0 fin hs rn cur H Q" and "(c, e) \<in># Q"
  shows "\<exists>v. H e = Some v \<and> ev_state v = EV_QUEUED"
proof -
  have "0 < count (image_mset snd Q) e" using assms(2) by (metis count_greater_zero_iff image_eqI set_image_mset snd_conv)
  then show ?thesis using queueD(2) [OF assms(1), of e] by (cases "H e") (auto split: if_splits)
qed

lemma queue_put:
  assumes q: "wg_queue lb H0 fin hs rn cur H Q" and e: "H e = Some v"
    and st: "ev_state v' = EV_QUEUED \<longleftrightarrow> ev_state v = EV_QUEUED" "ev_state v' = EV_HELD \<longleftrightarrow> ev_state v = EV_HELD"
  shows "wg_queue lb H0 fin hs rn cur (H(e \<mapsto> v')) Q"
proof (rule queueI)
  fix x
  show "count (image_mset snd Q) x = (case (H(e \<mapsto> v')) x of None \<Rightarrow> 0 | Some v \<Rightarrow> if ev_state v = EV_QUEUED then 1 else 0)"
    using queueD(2) [OF q, of x] e st by (cases "x = e") simp_all
  show "x \<in> hs \<longleftrightarrow> (\<exists>v. (H(e \<mapsto> v')) x = Some v \<and> ev_state v = EV_HELD)"
    using queueD(3) [OF q, of x] e st by (cases "x = e") simp_all
qed (fact queueD(1) [OF q], fact queueD(4) [OF q], fact queueD(5) [OF q], fact queueD(6) [OF q])

lemma queue_free:
  assumes q: "wg_queue lb H0 fin hs rn cur H Q" and e: "H e = Some v" "ev_state v = EV_DONE"
  shows "wg_queue lb H0 fin hs rn cur (H(e := None)) Q"
proof (rule queueI)
  fix x
  show "count (image_mset snd Q) x = (case (H(e := None)) x of None \<Rightarrow> 0 | Some v \<Rightarrow> if ev_state v = EV_QUEUED then 1 else 0)"
    using queueD(2) [OF q, of x] e by (cases "x = e") simp_all
  show "x \<in> hs \<longleftrightarrow> (\<exists>v. (H(e := None)) x = Some v \<and> ev_state v = EV_HELD)"
    using queueD(3) [OF q, of x] e by (cases "x = e") simp_all
qed (fact queueD(1) [OF q], fact queueD(4) [OF q], fact queueD(5) [OF q], fact queueD(6) [OF q])

lemma queue_add:
  assumes q: "wg_queue lb H0 fin hs rn cur H Q" and e: "H e = Some v" "ev_state v \<noteq> EV_QUEUED" and v': "ev_state v' = EV_QUEUED"
    and c: "cur \<le> c" "lb e \<le> c" "\<And>v0. e \<notin> rn \<Longrightarrow> H0 e = Some v0 \<Longrightarrow> ev_numParents v0 \<noteq> 0 \<Longrightarrow> c = ready H0 fin e + ev_pre v0"
  shows "wg_queue lb H0 fin (hs - {e}) rn cur (H(e \<mapsto> v')) (add_mset (c, e) Q)"
proof (rule queueI)
  fix x
  show "count (image_mset snd (add_mset (c, e) Q)) x = (case (H(e \<mapsto> v')) x of None \<Rightarrow> 0 | Some v \<Rightarrow> if ev_state v = EV_QUEUED then 1 else 0)"
    using queueD(2) [OF q, of x] e v' by (cases "x = e") simp_all
  show "x \<in> hs - {e} \<longleftrightarrow> (\<exists>v. (H(e \<mapsto> v')) x = Some v \<and> ev_state v = EV_HELD)"
    using queueD(3) [OF q, of x] e v' by (cases "x = e") simp_all
  show "x \<in> hs - {e} \<Longrightarrow> lb x \<le> cur" using queueD(4) [OF q, of x] by simp
next
  show "hs - {e} \<subseteq> rn" using queueD(5) [OF q] by blast
  show "(k, x) \<in># add_mset (c, e) Q \<Longrightarrow> cur \<le> k \<and> lb x \<le> k" for k x using queueD(1) [OF q, of k x] c by auto
  show "(k, x) \<in># add_mset (c, e) Q \<Longrightarrow> x \<notin> rn \<Longrightarrow> H0 x = Some v0 \<Longrightarrow> ev_numParents v0 \<noteq> 0 \<Longrightarrow> k = ready H0 fin x + ev_pre v0" for k x v0
    using queueD(6) [OF q, of k x v0] c(3) by auto
qed

lemma queue_fin:
  assumes q: "wg_queue lb H0 fin hs rn cur H Q" and g: "wg_graph H R" and gh: "wg_ghost H0 fin H R" and e: "e \<notin> fst ` set fin"
  shows "wg_queue lb H0 ((e, d) # fin) hs rn cur H Q"
proof (rule queueI)
  fix c x v0 assume x: "(c, x) \<in># Q" "x \<notin> rn" "H0 x = Some v0" "ev_numParents v0 \<noteq> 0"
  obtain v where v: "H x = Some v" "ev_state v = EV_QUEUED" using queue_state [OF q x(1)] by blast
  then have "ev_numParents u = 0" if "H x = Some u" for u using graphD(5) [OF g v(1)] that by auto
  then have "ready H0 ((e, d) # fin) x = ready H0 fin x" using ready_stable [OF parents_fin [OF g gh]] e x(3) by simp
  then show "c = ready H0 ((e, d) # fin) x + ev_pre v0" using queueD(6) [OF q x] by simp
qed (fact queueD(1) [OF q], fact queueD(2) [OF q], fact queueD(3) [OF q], fact queueD(4) [OF q], fact queueD(5) [OF q])

section \<open>Operations\<close>

lemma horizon_updates [simp]:
  "horizon (s\<lparr>w_ev := a\<rparr>) = horizon s" "horizon (s\<lparr>w_pq := q\<rparr>) = horizon s" "horizon (s\<lparr>w_fin := f\<rparr>) = horizon s"
  "horizon (s\<lparr>w_cur := c\<rparr>) = horizon s" "horizon (s\<lparr>w_cache := k\<rparr>) = horizon s" "horizon (s\<lparr>w_rec := r\<rparr>) = horizon s" "horizon (s\<lparr>w_log := l\<rparr>) = horizon s"
  by (simp_all add: horizon_def)

lemma wv_okQI:
  assumes "wg_graph (w_ev s) R" and "wg_times lb h D (horizon s) (w_ev s) R" and "wg_ghost H0 (w_fin s) (w_ev s) R"
    and "w_inCSim s" and "w_lastLimit s \<le> w_cur s"
    and "pq_rep 1024 (w_pq s) Q" "pq_curBlock (w_pq s) * 64 \<le> w_cur s" "wg_queue lb H0 (w_fin s) hs rn (w_cur s) (w_ev s) Q"
  shows "wv_okQ lb h D H0 hs rn R Q s"
  using assms unfolding wv_okQ_def by blast

lemma wv_okI:
  assumes "wg_graph (w_ev s) R" and "wg_times lb h D (horizon s) (w_ev s) R" and "wg_ghost H0 (w_fin s) (w_ev s) R"
    and "w_inCSim s" and "w_lastLimit s \<le> w_cur s"
    and "pq_rep 1024 (w_pq s) Q" "pq_curBlock (w_pq s) * 64 \<le> w_cur s" "wg_queue lb H0 (w_fin s) hs rn (w_cur s) (w_ev s) Q"
  shows "wv_ok lb h D H0 hs rn R s"
  using wv_okQI [OF assms] unfolding wv_ok_def by blast

lemma wv_okQD:
  assumes "wv_okQ lb h D H0 hs rn R Q s"
  shows "wg_graph (w_ev s) R" and "wg_times lb h D (horizon s) (w_ev s) R" and "wg_ghost H0 (w_fin s) (w_ev s) R"
    and "w_inCSim s" and "w_lastLimit s \<le> w_cur s"
    and "pq_rep 1024 (w_pq s) Q" "pq_curBlock (w_pq s) * 64 \<le> w_cur s" "wg_queue lb H0 (w_fin s) hs rn (w_cur s) (w_ev s) Q"
  using assms unfolding wv_okQ_def by blast+

lemma wv_okD:
  assumes "wv_ok lb h D H0 hs rn R s"
  shows "wg_graph (w_ev s) R" and "wg_times lb h D (horizon s) (w_ev s) R" and "wg_ghost H0 (w_fin s) (w_ev s) R"
    and "w_inCSim s" and "w_lastLimit s \<le> w_cur s"
    and "\<exists>Q. pq_rep 1024 (w_pq s) Q \<and> pq_curBlock (w_pq s) * 64 \<le> w_cur s \<and> wg_queue lb H0 (w_fin s) hs rn (w_cur s) (w_ev s) Q"
  using assms unfolding wv_ok_def wv_okQ_def by blast+

text \<open>What \<open>parentDone\<close> and \<open>done\<close> leave alone, besides the constants of the phase, the caches and the recorders.\<close>

definition vis_ev :: "tev option \<Rightarrow> tev option \<Rightarrow> bool" where
  "vis_ev x y \<longleftrightarrow> (case x of None \<Rightarrow> y = None | Some v \<Rightarrow>
     (case y of None \<Rightarrow> ev_kind v = DelayEvent \<and> ev_state v = EV_NONE
      | Some w \<Rightarrow> ev_kids w = ev_kids v \<and> ev_kind w = ev_kind v \<and> (w = v \<or> ev_state v = EV_NONE \<and> (ev_state w = EV_NONE \<or> ev_state w = EV_QUEUED \<and> ev_kind w \<noteq> DelayEvent))))"

definition vis_fr :: "weave \<Rightarrow> weave \<Rightarrow> bool" where
  "vis_fr s s' \<longleftrightarrow> s' = s\<lparr>w_ev := w_ev s', w_pq := w_pq s', w_fin := w_fin s'\<rparr> \<and> (\<exists>xs. w_fin s' = xs @ w_fin s) \<and> (\<forall>e. vis_ev (w_ev s e) (w_ev s' e))"

lemma vis_ev_refl [simp]: "vis_ev x x"
  by (cases x) (simp_all add: vis_ev_def)

lemma vis_ev_trans: "vis_ev x y \<Longrightarrow> vis_ev y z \<Longrightarrow> vis_ev x z"
  unfolding vis_ev_def by (cases x; cases y; cases z) auto

lemma vis_fr_refl [simp]: "vis_fr s s"
  by (simp add: vis_fr_def)

lemma vis_fr_trans:
  assumes "vis_fr a b" and "vis_fr b c"
  shows "vis_fr a c"
proof -
  obtain x y z where b: "b = a\<lparr>w_ev := x, w_pq := y, w_fin := z\<rparr>" using assms(1) unfolding vis_fr_def by blast
  obtain x' y' z' where c: "c = b\<lparr>w_ev := x', w_pq := y', w_fin := z'\<rparr>" using assms(2) unfolding vis_fr_def by blast
  have "c = a\<lparr>w_ev := w_ev c, w_pq := w_pq c, w_fin := w_fin c\<rparr>" unfolding c b by simp
  moreover have "\<exists>xs. w_fin c = xs @ w_fin a" using assms unfolding vis_fr_def by (metis append.assoc)
  moreover have "vis_ev (w_ev a e) (w_ev c e)" for e
    using assms vis_ev_trans [of "w_ev a e" "w_ev b e" "w_ev c e"] unfolding vis_fr_def by blast
  ultimately show ?thesis unfolding vis_fr_def by blast
qed

text \<open>An event that is about to be queued is not in the queue: its \<open>next\<close> is null, as \<open>PQBlock::enqueue\<close> asserts.\<close>

lemma enqueue_fresh:
  assumes "wv_okQ lb h D H0 hs rn R Q s" and "w_ev s e = Some v" and "ev_state v \<noteq> EV_QUEUED"
  shows "e \<notin> snd ` set_mset Q"
proof -
  have "count (image_mset snd Q) e = 0" using queueD(2) [OF wv_okQD(8) [OF assms(1)], of e] assms(2,3) by simp
  then have "e \<notin># image_mset snd Q" unfolding count_eq_zero_iff .
  then show ?thesis unfolding set_image_mset .
qed

lemma enqueue_okQ:
  assumes ok: "wv_okQ lb h D H0 hs rn R Q s" and e: "w_ev s e = Some v" "ev_numParents v = 0" "ev_state v \<noteq> EV_QUEUED" "ev_state v \<noteq> EV_DONE"
    and c: "w_cur s \<le> c" "lb e \<le> c" "c < horizon s"
      "\<And>v0. e \<notin> rn \<Longrightarrow> H0 e = Some v0 \<Longrightarrow> ev_numParents v0 \<noteq> 0 \<Longrightarrow> c = ready H0 (w_fin s) e + ev_pre v0"
  shows "\<exists>q. cs_enqueue e c (w_put e (v\<lparr>ev_state := EV_QUEUED\<rparr>) s) = Some (s\<lparr>w_ev := (w_ev s)(e \<mapsto> v\<lparr>ev_state := EV_QUEUED\<rparr>), w_pq := q\<rparr>) \<and>
    wv_okQ lb h D H0 (hs - {e}) rn R (add_mset (c, e) Q) (s\<lparr>w_ev := (w_ev s)(e \<mapsto> v\<lparr>ev_state := EV_QUEUED\<rparr>), w_pq := q\<rparr>)"
proof -
  note D = wv_okQD [OF ok]
  have "pq_curBlock (w_pq s) \<le> c div 64" using D(7) c(1) by (simp add: less_eq_div_iff_mult_less_eq)
  from pq_enqueue_rep [OF D(6) this, of e] obtain q where
    q: "pq_enqueue 1024 e c (w_pq s) = Some q" "pq_rep 1024 q (add_mset (c, e) Q)" "pq_curBlock q = pq_curBlock (w_pq s)" by blast
  let ?v = "v\<lparr>ev_state := EV_QUEUED\<rparr>"
  have l: "ev_like ?v v" using e(4) by (simp add: ev_like_def ev_same_def ev_kids_def ev_lat_def)
  have "w_lastLimit s \<le> c" using D(5) c(1) by simp
  then have 1: "cs_enqueue e c (w_put e ?v s) = Some (s\<lparr>w_ev := (w_ev s)(e \<mapsto> ?v), w_pq := q\<rparr>)"
    using D(4) c graphD(2) [OF D(1) e(1)] e(2) q(1) by (simp add: cs_enqueue_def cs_put_def w_put_def horizon_def)
  have qu: "wg_queue lb H0 (w_fin s) (hs - {e}) rn (w_cur s) ((w_ev s)(e \<mapsto> ?v)) (add_mset (c, e) Q)"
    by (rule queue_add [OF D(8) e(1,3) _ c(1,2,4)]) simp
  have "wv_okQ lb h D H0 (hs - {e}) rn R (add_mset (c, e) Q) (s\<lparr>w_ev := (w_ev s)(e \<mapsto> ?v), w_pq := q\<rparr>)"
  proof (rule wv_okQI)
    show "wg_graph (w_ev (s\<lparr>w_ev := (w_ev s)(e \<mapsto> ?v), w_pq := q\<rparr>)) R" using graph_put(1) [OF D(1) e(1) l] e(2) by simp
    show "wg_times lb h D (horizon (s\<lparr>w_ev := (w_ev s)(e \<mapsto> ?v), w_pq := q\<rparr>)) (w_ev (s\<lparr>w_ev := (w_ev s)(e \<mapsto> ?v), w_pq := q\<rparr>)) R"
      using times_put [OF D(2) e(1) l] by simp
    show "wg_ghost H0 (w_fin (s\<lparr>w_ev := (w_ev s)(e \<mapsto> ?v), w_pq := q\<rparr>)) (w_ev (s\<lparr>w_ev := (w_ev s)(e \<mapsto> ?v), w_pq := q\<rparr>)) R"
      using ghost_put [OF D(3) e(1) l] by simp
  qed (use D q qu in simp_all)
  then show ?thesis using 1 by blast
qed

lemma enqueue_ok:
  assumes ok: "wv_ok lb h D H0 hs rn R s" and e: "w_ev s e = Some v" "ev_numParents v = 0" "ev_state v \<noteq> EV_QUEUED" "ev_state v \<noteq> EV_DONE"
    and c: "w_cur s \<le> c" "lb e \<le> c" "c < horizon s"
      "\<And>v0. e \<notin> rn \<Longrightarrow> H0 e = Some v0 \<Longrightarrow> ev_numParents v0 \<noteq> 0 \<Longrightarrow> c = ready H0 (w_fin s) e + ev_pre v0"
  shows "\<exists>q. cs_enqueue e c (w_put e (v\<lparr>ev_state := EV_QUEUED\<rparr>) s) = Some (s\<lparr>w_ev := (w_ev s)(e \<mapsto> v\<lparr>ev_state := EV_QUEUED\<rparr>), w_pq := q\<rparr>) \<and>
    wv_ok lb h D H0 (hs - {e}) rn R (s\<lparr>w_ev := (w_ev s)(e \<mapsto> v\<lparr>ev_state := EV_QUEUED\<rparr>), w_pq := q\<rparr>)"
proof -
  obtain Q where "wv_okQ lb h D H0 hs rn R Q s" using ok unfolding wv_ok_def by blast
  from enqueue_okQ [OF this e c] show ?thesis unfolding wv_ok_def by blast
qed

lemma notify_ok:
  assumes ok: "wv_ok lb h D H0 hs rn (add_mset (e, c) R) s" and e: "w_ev s e = Some v"
    and v': "v' = v\<lparr>ev_cycle := max (ev_cycle v) c, ev_numParents := ev_numParents v - 1\<rparr>"
  shows "wv_ok lb h D H0 hs rn R (w_put e v' s)" and "0 < ev_numParents v" and "ev_numParents v < 2 ^ 32" and "ev_state v = EV_NONE"
    and "kidsum (w_ev (w_put e v' s)) = kidsum (w_ev s)" and "ev_cycle v' + h e < horizon s"
    and "ev_numParents v' = 0 \<Longrightarrow> lb e \<le> ev_cycle v' + ev_pre v'"
    and "ev_numParents v' = 0 \<Longrightarrow> ev_cycle v' = ready H0 (w_fin s) e"
proof -
  note D = wv_okD [OF ok]
  have k: "ev_kids v' = ev_kids v" "own v' = own v" "ev_same v' v" using v' by (simp_all add: ev_kids_def own_def ev_same_def ev_lat_def)
  note G = graph_notify [OF D(1) e, of v']
  have n: "0 < ev_numParents v" using G(2) v' by simp
  show "0 < ev_numParents v" "ev_numParents v < 2 ^ 32" "ev_state v = EV_NONE" "kidsum (w_ev (w_put e v' s)) = kidsum (w_ev s)"
    using G v' by (simp_all add: w_put_def)
  have n0: "ev_numParents v \<noteq> 0" using n by simp
  have g: "wg_graph ((w_ev s)(e \<mapsto> v')) R" using G(1) v' by simp
  have t: "wg_times lb h D (horizon s) ((w_ev s)(e \<mapsto> v')) R" "ev_cycle v' + h e < horizon s"
    using times_notify [OF D(2) e n0, of v'] v' k by simp_all
  have gh: "wg_ghost H0 (w_fin s) ((w_ev s)(e \<mapsto> v')) R" "Max (insert (ev_cycle v') {k. (e, k) \<in># R}) = ready H0 (w_fin s) e"
    using ghost_notify [OF D(3) e n0, of v'] v' k by simp_all
  show "ev_cycle v' + h e < horizon s" by (fact t(2))
  obtain Q where Q: "pq_rep 1024 (w_pq s) Q" "pq_curBlock (w_pq s) * 64 \<le> w_cur s" "wg_queue lb H0 (w_fin s) hs rn (w_cur s) (w_ev s) Q"
    using D(6) by blast
  have q: "wg_queue lb H0 (w_fin s) hs rn (w_cur s) ((w_ev s)(e \<mapsto> v')) Q" using queue_put [OF Q(3) e, of v'] v' by simp
  show "wv_ok lb h D H0 hs rn R (w_put e v' s)"
    unfolding w_put_def by (rule wv_okI [where Q = Q]) (use g t gh q Q D in simp_all)
  assume z: "ev_numParents v' = 0"
  then have "e \<notin># kidsum ((w_ev s)(e \<mapsto> v')) + image_mset fst R" using graphD(1) [OF g, of e v'] by (simp add: count_eq_zero_iff)
  then have no: "e \<notin># kidsum (w_ev s)" "\<And>k. (e, k) \<notin># R" using G(5) v' by (auto simp: image_iff)
  then have "{k. (e, k) \<in># R} = {}" by blast
  then show "ev_cycle v' = ready H0 (w_fin s) e" using gh(2) by simp
  have "\<not> (\<exists>p w. w_ev s p = Some w \<and> e \<in># own w)" using no(1) in_kidsum D(1) unfolding wg_graph_def by blast
  then have "lb e \<le> ev_cycle v + ev_pre v \<or> lb e \<le> c + ev_pre v" using timesD(5) [OF D(2) e n0] no(2) by auto
  then show "lb e \<le> ev_cycle v' + ev_pre v'" using v' by (auto simp: max_def)
qed

lemma finish_ok:
  assumes ok: "wv_ok lb h D H0 hs rn R s" and e: "w_ev s e = Some v" "ev_state v = EV_RUNNING" and d: "lb e \<le> d"
    and b: "\<And>k. k \<in> set (ev_kids v) \<Longrightarrow> d + ev_post v + h k < horizon s"
    and dly: "\<And>v0. H0 e = Some v0 \<Longrightarrow> ev_kind v0 = DelayEvent \<Longrightarrow> ev_numParents v0 \<noteq> 0 \<Longrightarrow> d = ready H0 (w_fin s) e + ev_pre v0"
  shows "\<exists>s'. ev_finish e d s = Some (v, s') \<and> wv_ok lb h D H0 hs rn (sends v d + R) s' \<and>
    s' = s\<lparr>w_ev := (w_ev s)(e \<mapsto> v\<lparr>ev_state := EV_DONE\<rparr>), w_fin := (e, d) # w_fin s\<rparr> \<and>
    size (kidsum (w_ev s')) + length (ev_kids v) = size (kidsum (w_ev s))"
proof -
  note D = wv_okD [OF ok]
  let ?v = "v\<lparr>ev_state := EV_DONE\<rparr>"
  let ?s = "s\<lparr>w_ev := (w_ev s)(e \<mapsto> ?v), w_fin := (e, d) # w_fin s\<rparr>"
  have n: "ev_numParents v = 0" using graphD(5) [OF D(1) e(1)] e(2) by auto
  have nd: "ev_state v \<noteq> EV_DONE" using e(2) by simp
  have k: "ev_kids ?v = ev_kids v" "ev_same ?v v" by (simp_all add: ev_kids_def ev_same_def ev_lat_def)
  have g: "wg_graph ((w_ev s)(e \<mapsto> ?v)) (sends v d + R)" "size (kidsum ((w_ev s)(e \<mapsto> ?v))) + length (ev_kids v) = size (kidsum (w_ev s))"
    using graph_finish(1) [OF D(1) e(1) n nd, of ?v d] graph_finish(2) [OF D(1) e(1) n nd, of ?v] n k by simp_all
  have t: "wg_times lb h D (horizon s) ((w_ev s)(e \<mapsto> ?v)) (sends v d + R)"
    using times_finish [OF D(2) e(1) nd d b, of ?v] n k by simp
  have gh: "wg_ghost H0 ((e, d) # w_fin s) ((w_ev s)(e \<mapsto> ?v)) (sends v d + R)"
  proof (rule ghost_finish [OF D(1,3) e(1) n nd _ _ k(2)])
    show "ev_state ?v = EV_DONE" "ev_numParents ?v = 0" using n by simp_all
  qed (rule dly)
  obtain Q where Q: "pq_rep 1024 (w_pq s) Q" "pq_curBlock (w_pq s) * 64 \<le> w_cur s" "wg_queue lb H0 (w_fin s) hs rn (w_cur s) (w_ev s) Q"
    using D(6) by blast
  obtain v0 where v0: "H0 e = Some v0" using ghostD(1) [OF D(3) e(1)] by blast
  have ne: "e \<notin> fst ` set (w_fin s)" using ghostD(3) [OF D(3) v0] e by (simp add: ended_def)
  have q: "wg_queue lb H0 ((e, d) # w_fin s) hs rn (w_cur s) ((w_ev s)(e \<mapsto> ?v)) Q"
    using queue_put [OF queue_fin [OF Q(3) D(1,3) ne] e(1), of ?v d] e(2) by simp
  have "wv_ok lb h D H0 hs rn (sends v d + R) ?s"
    by (rule wv_okI [where Q = Q]) (use g t gh q Q D in simp_all)
  moreover have "ev_finish e d s = Some (v, ?s)"
    using e graphD(4) [OF D(1) e(1)] by (simp add: ev_finish_def w_put_def)
  ultimately show ?thesis using g(2) by auto
qed

lemma wv_free_ok:
  assumes ok: "wv_ok lb h D H0 hs rn R s" and e: "w_ev s e = Some v" "ev_state v = EV_DONE"
  shows "wv_ok lb h D H0 hs rn R (ev_free e s)" and "kidsum (w_ev (ev_free e s)) = kidsum (w_ev s)"
proof -
  note D = wv_okD [OF ok]
  note F = free_ok [OF D(1-3) e]
  obtain Q where Q: "pq_rep 1024 (w_pq s) Q" "pq_curBlock (w_pq s) * 64 \<le> w_cur s" "wg_queue lb H0 (w_fin s) hs rn (w_cur s) (w_ev s) Q"
    using D(6) by blast
  show "wv_ok lb h D H0 hs rn R (ev_free e s)"
    unfolding ev_free_def by (rule wv_okI [where Q = Q]) (use F(1) queue_free [OF Q(3) e] Q D in simp_all)
  show "kidsum (w_ev (ev_free e s)) = kidsum (w_ev s)" using F(2) by (simp add: ev_free_def)
qed

end
