(* ===== verification/Weave_Run.thy ===== *)
theory Weave_Run
  imports Weave_Inv
begin

text \<open>
  The run of a weave phase: every call returns and keeps the invariant of \<open>Weave_Inv\<close>.
\<close>

section \<open>Completion of an event\<close>

lemma state_okQ:
  assumes ok: "wv_okQ lb h D H0 hs rn R Q s" and e: "w_ev s e = Some v" and l: "ev_like v' v" "ev_state v' \<noteq> EV_INVALID" "ev_numParents v = 0"
    and st: "ev_state v' = EV_QUEUED \<longleftrightarrow> ev_state v = EV_QUEUED" "ev_state v' = EV_HELD \<longleftrightarrow> ev_state v = EV_HELD"
  shows "wv_okQ lb h D H0 hs rn R Q (w_put e v' s)" and "kidsum (w_ev (w_put e v' s)) = kidsum (w_ev s)"
proof -
  note D = wv_okQD [OF ok]
  have g: "wg_graph ((w_ev s)(e \<mapsto> v')) R" "kidsum ((w_ev s)(e \<mapsto> v')) = kidsum (w_ev s)"
    using graph_put [OF D(1) e l(1,2)] l(3) by simp_all
  show "wv_okQ lb h D H0 hs rn R Q (w_put e v' s)"
    unfolding w_put_def
    by (rule wv_okQI) (use g times_put [OF D(2) e l(1)] ghost_put [OF D(3) e l(1)] queue_put [OF D(8) e st] D in simp_all)
  show "kidsum (w_ev (w_put e v' s)) = kidsum (w_ev s)" using g(2) by (simp add: w_put_def)
qed

lemma state_ok:
  assumes ok: "wv_ok lb h D H0 hs rn R s" and e: "w_ev s e = Some v" and l: "ev_like v' v" "ev_state v' \<noteq> EV_INVALID" "ev_numParents v = 0"
    and st: "ev_state v' = EV_QUEUED \<longleftrightarrow> ev_state v = EV_QUEUED" "ev_state v' = EV_HELD \<longleftrightarrow> ev_state v = EV_HELD"
  shows "wv_ok lb h D H0 hs rn R (w_put e v' s)" and "kidsum (w_ev (w_put e v' s)) = kidsum (w_ev s)"
proof -
  obtain Q where "wv_okQ lb h D H0 hs rn R Q s" using ok unfolding wv_ok_def by blast
  from state_okQ [OF this e l st] show "wv_ok lb h D H0 hs rn R (w_put e v' s)" "kidsum (w_ev (w_put e v' s)) = kidsum (w_ev s)"
    unfolding wv_ok_def by blast+
qed

lemma w_put_simps [simp]:
  "w_ev (w_put e v s) = (w_ev s)(e \<mapsto> v)" "w_pq (w_put e v s) = w_pq s" "w_cur (w_put e v s) = w_cur s" "w_fin (w_put e v s) = w_fin s"
  "w_cache (w_put e v s) = w_cache s" "w_rec (w_put e v s) = w_rec s" "w_log (w_put e v s) = w_log s" "w_next (w_put e v s) = w_next s"
  "w_limit (w_put e v s) = w_limit s" "w_lastLimit (w_put e v s) = w_lastLimit s" "w_inCSim (w_put e v s) = w_inCSim s" "w_PL (w_put e v s) = w_PL s"
  "horizon (w_put e v s) = horizon s"
  by (simp_all add: w_put_def)

lemma w_put_put [simp]: "w_put e v' (w_put e v s) = w_put e v' s"
  by (simp add: w_put_def)

lemma vis_fr_simps:
  "vis_fr s s' \<Longrightarrow> w_cur s' = w_cur s \<and> w_limit s' = w_limit s \<and> w_lastLimit s' = w_lastLimit s \<and> w_PL s' = w_PL s \<and> w_inCSim s' = w_inCSim s \<and>
     w_cache s' = w_cache s \<and> w_rec s' = w_rec s \<and> w_log s' = w_log s \<and> w_next s' = w_next s \<and> horizon s' = horizon s"
  unfolding vis_fr_def horizon_def by (metis weave.select_convs weave.surjective weave.update_convs(1,4,13))

lemma vis_ev_put:
  "w_ev s e = Some v \<Longrightarrow> ev_state v = EV_NONE \<Longrightarrow> ev_kids v' = ev_kids v \<Longrightarrow> ev_kind v' = ev_kind v \<Longrightarrow>
   ev_state v' = EV_NONE \<or> ev_state v' = EV_QUEUED \<and> ev_kind v' \<noteq> DelayEvent \<Longrightarrow> vis_ev (w_ev s x) (((w_ev s)(e \<mapsto> v')) x)"
  by (cases "x = e") (simp add: vis_ev_def, simp)

lemma vis_fr_put:
  "w_ev s e = Some v \<Longrightarrow> ev_state v = EV_NONE \<Longrightarrow> ev_kids v' = ev_kids v \<Longrightarrow> ev_kind v' = ev_kind v \<Longrightarrow> ev_state v' = EV_NONE \<or> ev_state v' = EV_QUEUED \<and> ev_kind v' \<noteq> DelayEvent \<Longrightarrow>
   vis_fr s (w_put e v' s)"
  unfolding vis_fr_def using vis_ev_put [of s e v v'] by (simp add: w_put_def)

lemma ev_visit_Nil [simp]: "ev_visit [] c s = Some s"
  by (subst ev_visit.simps) simp

text \<open>One call of \<open>parentDone\<close>, given that the calls it makes in turn return.\<close>

lemma ev_visit_ok:
  "wv_ok lb h D H0 hs rn (mset (map (\<lambda>e. (e, c)) es) + R) s \<Longrightarrow> w_cur s \<le> c \<Longrightarrow> size (kidsum (w_ev s)) + length es + size R \<le> n \<Longrightarrow>
   \<exists>s'. ev_visit es c s = Some s' \<and> wv_ok lb h D H0 hs rn R s' \<and> vis_fr s s' \<and> size (kidsum (w_ev s')) \<le> size (kidsum (w_ev s))"
proof (induction n arbitrary: es c R s)
  case 0
  then show ?case by simp
next
  case (Suc n)
  show ?case
  proof (cases es)
    case Nil
    then show ?thesis using Suc.prems by simp
  next
    case (Cons e es')
    let ?R = "mset (map (\<lambda>e. (e, c)) es') + R"
    have ok: "wv_ok lb h D H0 hs rn (add_mset (e, c) ?R) s" using Suc.prems(1) Cons by simp
    have "e \<in># kidsum (w_ev s) + image_mset fst (add_mset (e, c) ?R)" by simp
    then obtain v where v: "w_ev s e = Some v" using wv_okD(1) [OF ok] unfolding wg_graph_def by blast
    let ?v = "v\<lparr>ev_cycle := max (ev_cycle v) c, ev_numParents := ev_numParents v - 1\<rparr>"
    let ?s = "w_put e ?v s"
    note N = notify_ok [OF ok v refl]
    have np: "(ev_numParents v + 2 ^ 32 - 1) mod 2 ^ 32 = ev_numParents v - 1"
    proof -
      have "ev_numParents v + 2 ^ 32 - 1 = ev_numParents v - 1 + 2 ^ 32" using N(2) by simp
      then show ?thesis using N(3) by (simp only: mod_add_self2 mod_less less_imp_diff_less)
    qed
    have fr0: "vis_fr s ?s" using vis_fr_put [OF v N(4), of ?v] N(4) by (simp add: ev_kids_def)
    obtain s1 where s1: "ev_visit es c s = Option.bind (Some s1) (ev_visit es' c)" "wv_ok lb h D H0 hs rn ?R s1" "vis_fr s s1"
        "size (kidsum (w_ev s1)) \<le> size (kidsum (w_ev s))"
    proof (cases "ev_numParents ?v = 0")
      case False
      have "ev_visit es c s = Option.bind (Some ?s) (ev_visit es' c)"
        using False N(2) np by (subst ev_visit.simps) (simp add: Cons v Let_def)
      then show ?thesis using that [OF _ N(1) fr0] N(5) by simp
    next
      case z: True
      show ?thesis
      proof (cases "ev_kind v = DelayEvent")
        case plain: False
        have st: "ev_state ?v = EV_NONE" using N(4) by simp
        have t: "ev_pre ?v \<le> h e" using timesD(1) [OF wv_okD(2) [OF N(1)], of e ?v] plain by simp
        have lo: "w_cur ?s \<le> ev_cycle ?v + ev_pre ?v" using Suc.prems(2) by simp
        have rd: "ev_cycle ?v + ev_pre ?v = ready H0 (w_fin ?s) e + ev_pre v0" if "H0 e = Some v0" for v0
          using N(8) [OF z] ghostD(1) [OF wv_okD(3) [OF ok] v] that by (auto simp: ev_same_def)
        obtain q where q: "cs_enqueue e (ev_cycle ?v + ev_pre ?v) (w_put e (?v\<lparr>ev_state := EV_QUEUED\<rparr>) ?s) =
              Some (?s\<lparr>w_ev := (w_ev ?s)(e \<mapsto> ?v\<lparr>ev_state := EV_QUEUED\<rparr>), w_pq := q\<rparr>)"
            "wv_ok lb h D H0 (hs - {e}) rn ?R (?s\<lparr>w_ev := (w_ev ?s)(e \<mapsto> ?v\<lparr>ev_state := EV_QUEUED\<rparr>), w_pq := q\<rparr>)"
          using enqueue_ok [OF N(1), of e ?v "ev_cycle ?v + ev_pre ?v"] z st lo N(6,7) t rd by auto
        let ?s1 = "?s\<lparr>w_ev := (w_ev ?s)(e \<mapsto> ?v\<lparr>ev_state := EV_QUEUED\<rparr>), w_pq := q\<rparr>"
        have "e \<notin> hs"
        proof -
          obtain Q where "wg_queue lb H0 (w_fin s) hs rn (w_cur s) (w_ev s) Q" using wv_okD(6) [OF ok] by blast
          then show ?thesis using queueD(3) v N(4) by fastforce
        qed
        then have "hs - {e} = hs" by simp
        moreover have "ev_visit es c s = Option.bind (Some ?s1) (ev_visit es' c)"
          using z N(2,4) plain q(1) by (subst ev_visit.simps) (simp add: Cons v Let_def)
        moreover have "vis_fr s ?s1"
          unfolding vis_fr_def using vis_ev_put [OF v N(4), of "?v\<lparr>ev_state := EV_QUEUED\<rparr>"] plain by (simp add: ev_kids_def w_put_def)
        moreover have "kidsum (w_ev ?s1) = kidsum (w_ev s)"
        proof -
          have f: "finite (dom (w_ev s))" using wv_okD(1) [OF ok] by (simp add: wg_graph_def)
          show ?thesis using kidsum_same [OF f v, of "?v\<lparr>ev_state := EV_QUEUED\<rparr>"] N(4) by (simp add: own_def ev_kids_def)
        qed
        ultimately show ?thesis using that [of ?s1] q(2) by simp
      next
        case delay: True
        let ?r = "?v\<lparr>ev_state := EV_RUNNING\<rparr>" and ?d = "ev_cycle ?v + ev_pre ?v"
        let ?k = "?r\<lparr>ev_state := EV_DONE\<rparr>"
        have run: "wv_ok lb h D H0 hs rn ?R (w_put e ?r ?s)" "kidsum (w_ev (w_put e ?r ?s)) = kidsum (w_ev ?s)"
          using state_ok [OF N(1), of e ?v ?r] z N(4) by (simp_all add: ev_like_def ev_same_def ev_kids_def ev_lat_def)
        have r: "w_ev (w_put e ?r ?s) e = Some ?r" "ev_state ?r = EV_RUNNING" by simp_all
        have lo: "lb e \<le> ?d" using N(7) [OF z] by simp
        have b: "?d + ev_post ?r + h k < horizon (w_put e ?r ?s)" if "k \<in> set (ev_kids ?r)" for k
        proof -
          have "k \<in># own ?r" using that by (simp add: own_def)
          then have "ev_pre ?r + ev_post ?r + h k \<le> h e" using timesD(2) [OF wv_okD(2) [OF run(1)] r(1)] delay by simp
          then show ?thesis using N(6) by simp
        qed
        have dl: "?d = ready H0 (w_fin (w_put e ?r ?s)) e + ev_pre v0" if "H0 e = Some v0" for v0
          using N(8) [OF z] ghostD(1) [OF wv_okD(3) [OF ok] v] that by (auto simp: ev_same_def)
        obtain s2 where s2: "ev_finish e ?d (w_put e ?r ?s) = Some (?r, s2)" "wv_ok lb h D H0 hs rn (sends ?r ?d + ?R) s2"
            "s2 = (w_put e ?r ?s)\<lparr>w_ev := (w_ev (w_put e ?r ?s))(e \<mapsto> ?k), w_fin := (e, ?d) # w_fin (w_put e ?r ?s)\<rparr>"
            "size (kidsum (w_ev s2)) + length (ev_kids ?r) = size (kidsum (w_ev (w_put e ?r ?s)))"
          using finish_ok [OF run(1) r lo b dl] by blast
        have m: "size (kidsum (w_ev s2)) + length (ev_kids ?r) + size ?R \<le> n"
          using s2(4) run(2) N(5) Suc.prems(3) Cons by simp
        have cur: "w_cur s2 \<le> ?d + ev_post ?r" using s2(3) Suc.prems(2) by simp
        obtain s3 where s3: "ev_visit (ev_kids ?r) (?d + ev_post ?r) s2 = Some s3" "wv_ok lb h D H0 hs rn ?R s3" "vis_fr s2 s3"
            "size (kidsum (w_ev s3)) \<le> size (kidsum (w_ev s2))"
          using Suc.IH [OF s2(2) [unfolded sends_def] cur m] by blast
        have k: "w_ev s2 e = Some ?k" using s2(3) by simp
        then have e3: "w_ev s3 e = Some ?k" using s3(3) unfolding vis_fr_def vis_ev_def by (auto dest!: spec [of _ e] split: option.splits)
        have fr: "wv_ok lb h D H0 hs rn ?R (ev_free e s3)" "kidsum (w_ev (ev_free e s3)) = kidsum (w_ev s3)"
          using wv_free_ok [OF s3(2) e3] by simp_all
        have "ev_visit es c s = Option.bind (Some (ev_free e s3)) (ev_visit es' c)"
          using z np delay s2(1) s3(1) N(2) by (subst ev_visit.simps) (simp add: Cons v Let_def)
        moreover have "vis_fr s (ev_free e s3)"
          unfolding vis_fr_def
        proof (intro conjI allI)
          obtain x y f where "s3 = s2\<lparr>w_ev := x, w_pq := y, w_fin := f\<rparr>" using s3(3) unfolding vis_fr_def by blast
          then show "ev_free e s3 = s\<lparr>w_ev := w_ev (ev_free e s3), w_pq := w_pq (ev_free e s3), w_fin := w_fin (ev_free e s3)\<rparr>"
            using s2(3) by (simp add: ev_free_def w_put_def)
          show "\<exists>xs. w_fin (ev_free e s3) = xs @ w_fin s"
            using s3(3) s2(3) unfolding vis_fr_def by (auto simp: ev_free_def)
          fix x
          have "vis_ev (w_ev s2 x) (w_ev s3 x)" using s3(3) unfolding vis_fr_def by blast
          then show "vis_ev (w_ev s x) (w_ev (ev_free e s3) x)"
            using s2(3) v delay N(4) by (cases "x = e") (auto simp: ev_free_def vis_ev_def)
        qed
        moreover have "size (kidsum (w_ev (ev_free e s3))) \<le> size (kidsum (w_ev s))" using fr(2) s3(4) s2(4) run(2) N(5) by simp
        ultimately show ?thesis using that [of "ev_free e s3"] fr(1) by simp
      qed
    qed
    have "w_cur s1 \<le> c" "size (kidsum (w_ev s1)) + length es' + size R \<le> n"
      using vis_fr_simps [OF s1(3)] Suc.prems(2,3) s1(4) Cons by simp_all
    from Suc.IH [OF s1(2) this] obtain s' where
      s': "ev_visit es' c s1 = Some s'" "wv_ok lb h D H0 hs rn R s'" "vis_fr s1 s'" "size (kidsum (w_ev s')) \<le> size (kidsum (w_ev s1))" by blast
    have "ev_visit es c s = Some s'" using s1(1) s'(1) by simp
    then show ?thesis using s'(2,4) s1(4) vis_fr_trans [OF s1(3) s'(3)] by (intro exI [of _ s'] conjI) simp_all
  qed
qed

text \<open>What \<open>done\<close> leaves alone.\<close>

definition done_fr :: "nat \<Rightarrow> nat \<Rightarrow> weave \<Rightarrow> weave \<Rightarrow> bool" where
  "done_fr e d s s' \<longleftrightarrow> s' = s\<lparr>w_ev := w_ev s', w_pq := w_pq s', w_fin := w_fin s'\<rparr> \<and> (\<exists>xs. w_fin s' = xs @ (e, d) # w_fin s) \<and>
     w_ev s' e = None \<and> (\<forall>x. x \<noteq> e \<longrightarrow> vis_ev (w_ev s x) (w_ev s' x))"

lemma done_ok:
  assumes ok: "wv_ok lb h D H0 hs rn {#} s" and e: "w_ev s e = Some v" "ev_state v = EV_RUNNING" and k: "ev_kind v \<noteq> DelayEvent"
    and d: "lb e \<le> d" "w_cur s \<le> d" "d + D < horizon s + ev_lat v"
  shows "\<exists>s'. ev_done e d s = Some s' \<and> wv_ok lb h D H0 hs rn {#} s' \<and> done_fr e d s s'"
proof -
  note D = wv_okD [OF ok]
  have b: "d + ev_post v + h c < horizon s" if "c \<in> set (ev_kids v)" for c
  proof -
    have "c \<in># own v" using that e(2) by (simp add: own_def)
    then have "ev_lat v + ev_post v + h c \<le> D" using timesD(3) [OF D(2) e(1)] k by simp
    then show ?thesis using d(3) by simp
  qed
  have nd: "ev_kind v0 \<noteq> DelayEvent" if "H0 e = Some v0" for v0 using ghostD(1) [OF D(3) e(1)] that k by (auto simp: ev_same_def)
  obtain s1 where s1: "ev_finish e d s = Some (v, s1)" "wv_ok lb h D H0 hs rn (sends v d + {#}) s1"
      "s1 = s\<lparr>w_ev := (w_ev s)(e \<mapsto> v\<lparr>ev_state := EV_DONE\<rparr>), w_fin := (e, d) # w_fin s\<rparr>"
    using finish_ok [OF ok e d(1) b] nd by blast
  have "w_cur s1 \<le> d + ev_post v" using s1(3) d(2) by simp
  from ev_visit_ok [OF s1(2) [unfolded sends_def] this order_refl] obtain s2 where
    s2: "ev_visit (ev_kids v) (d + ev_post v) s1 = Some s2" "wv_ok lb h D H0 hs rn {#} s2" "vis_fr s1 s2" by blast
  have "w_ev s1 e = Some (v\<lparr>ev_state := EV_DONE\<rparr>)" using s1(3) by simp
  then have e2: "w_ev s2 e = Some (v\<lparr>ev_state := EV_DONE\<rparr>)"
    using s2(3) unfolding vis_fr_def vis_ev_def by (auto dest!: spec [of _ e] split: option.splits)
  have "done_fr e d s (ev_free e s2)"
    unfolding done_fr_def
  proof (intro conjI allI impI)
    obtain x y f where "s2 = s1\<lparr>w_ev := x, w_pq := y, w_fin := f\<rparr>" using s2(3) unfolding vis_fr_def by blast
    then show "ev_free e s2 = s\<lparr>w_ev := w_ev (ev_free e s2), w_pq := w_pq (ev_free e s2), w_fin := w_fin (ev_free e s2)\<rparr>"
      using s1(3) by (simp add: ev_free_def)
    show "\<exists>xs. w_fin (ev_free e s2) = xs @ (e, d) # w_fin s" using s2(3) s1(3) unfolding vis_fr_def by (auto simp: ev_free_def)
    show "w_ev (ev_free e s2) e = None" by (simp add: ev_free_def)
    fix x assume "x \<noteq> e"
    then show "vis_ev (w_ev s x) (w_ev (ev_free e s2) x)"
      using s2(3) s1(3) unfolding vis_fr_def by (auto simp: ev_free_def dest: spec [of _ x])
  qed
  moreover have "ev_done e d s = Some (ev_free e s2)" using s1(1) s2(1) by (simp add: ev_done_def)
  ultimately show ?thesis using wv_free_ok(1) [OF s2(2) e2] by auto
qed

section \<open>Starting an event\<close>

lemma dequeue_ok:
  assumes ok: "wv_okQ lb h D H0 hs rn {#} Q s" and ne: "Q \<noteq> {#}"
  shows "\<exists>e c q v. pq_dequeue 1024 (w_pq s) = Some (e, c, q) \<and> (c, e) \<in># Q \<and> (\<forall>p\<in>#Q. c \<le> fst p) \<and> w_cur s \<le> c \<and> lb e \<le> c \<and>
    w_ev s e = Some v \<and> ev_state v = EV_QUEUED \<and> ev_numParents v = 0 \<and> (ev_kind v \<noteq> DelayEvent \<longrightarrow> ev_minStart v \<le> c) \<and>
    wv_okQ lb h D H0 hs (insert e rn) {#} (Q - {#(c, e)#}) (w_put e (v\<lparr>ev_state := EV_RUNNING\<rparr>) (s\<lparr>w_pq := q, w_cur := c\<rparr>))"
proof -
  note D = wv_okQD [OF ok]
  obtain e c q where q: "pq_dequeue 1024 (w_pq s) = Some (e, c, q)" "(c, e) \<in># Q" "\<forall>p\<in>#Q. c \<le> fst p" "pq_rep 1024 q (Q - {#(c, e)#})"
      "pq_curBlock q = c div 64" using pq_dequeue_rep [OF D(6) ne] by blast
  obtain v where v: "w_ev s e = Some v" "ev_state v = EV_QUEUED" using queue_state [OF D(8) q(2)] by blast
  have c: "w_cur s \<le> c" "lb e \<le> c" using queueD(1) [OF D(8) q(2)] by simp_all
  have n: "ev_numParents v = 0" using graphD(5) [OF D(1) v(1)] v(2) by auto
  let ?v = "v\<lparr>ev_state := EV_RUNNING\<rparr>"
  have l: "ev_like ?v v" using v(2) by (simp add: ev_like_def ev_same_def ev_kids_def ev_lat_def)
  have one: "count (image_mset snd Q) e = 1" using queueD(2) [OF D(8), of e] v by simp
  have qu: "wg_queue lb H0 (w_fin s) hs (insert e rn) c ((w_ev s)(e \<mapsto> ?v)) (Q - {#(c, e)#})"
  proof (rule queueI)
    fix x
    show "count (image_mset snd (Q - {#(c, e)#})) x = (case ((w_ev s)(e \<mapsto> ?v)) x of None \<Rightarrow> 0 | Some v \<Rightarrow> if ev_state v = EV_QUEUED then 1 else 0)"
      using queueD(2) [OF D(8), of x] one q(2) by (cases "x = e") (simp_all add: image_mset_Diff)
    show "x \<in> hs \<longleftrightarrow> (\<exists>v. ((w_ev s)(e \<mapsto> ?v)) x = Some v \<and> ev_state v = EV_HELD)"
      using queueD(3) [OF D(8), of x] v by (cases "x = e") simp_all
    show "x \<in> hs \<Longrightarrow> lb x \<le> c" using queueD(4) [OF D(8), of x] c by simp
  next
    show "hs \<subseteq> insert e rn" using queueD(5) [OF D(8)] by blast
    show "(k, x) \<in># Q - {#(c, e)#} \<Longrightarrow> c \<le> k \<and> lb x \<le> k" for k x
      using q(3) queueD(1) [OF D(8), of k x] in_diffD [of "(k, x)" Q "{#(c, e)#}"] by fastforce
    show "(k, x) \<in># Q - {#(c, e)#} \<Longrightarrow> x \<notin> insert e rn \<Longrightarrow> H0 x = Some v0 \<Longrightarrow> ev_numParents v0 \<noteq> 0 \<Longrightarrow> k = ready H0 (w_fin s) x + ev_pre v0" for k x v0
      using queueD(6) [OF D(8), of k x v0] in_diffD [of "(k, x)" Q "{#(c, e)#}"] by blast
  qed
  have "wv_okQ lb h D H0 hs (insert e rn) {#} (Q - {#(c, e)#}) (w_put e ?v (s\<lparr>w_pq := q, w_cur := c\<rparr>))"
    unfolding w_put_def
  proof (rule wv_okQI)
    show "pq_curBlock (w_pq (s\<lparr>w_pq := q, w_cur := c, w_ev := (w_ev (s\<lparr>w_pq := q, w_cur := c\<rparr>))(e \<mapsto> ?v)\<rparr>)) * 64 \<le>
        w_cur (s\<lparr>w_pq := q, w_cur := c, w_ev := (w_ev (s\<lparr>w_pq := q, w_cur := c\<rparr>))(e \<mapsto> ?v)\<rparr>)" using q(5) by simp
  qed (use D c q qu graph_put(1) [OF D(1) v(1) l] n times_put [OF D(2) v(1) l] ghost_put [OF D(3) v(1) l] in simp_all)
  moreover have "ev_kind v \<noteq> DelayEvent \<longrightarrow> ev_minStart v \<le> c" using timesD(1) [OF D(2) v(1)] c by auto
  ultimately show ?thesis using q v n c by blast
qed

end
