(* ===== verification/Weave_Caches.thy ===== *)
theory Weave_Caches
  imports Weave_Run
begin

text \<open>
  What the weave phase keeps of timing caches and recorders: the MSHRs that are taken are those of the misses in flight, events wait
  only while all are taken, and a cache's port is not taken far ahead.
\<close>

section \<open>Misses\<close>

definition dep :: "(nat \<Rightarrow> tev option) \<Rightarrow> nat \<Rightarrow> nat \<Rightarrow> bool" where
  "dep H p c \<longleftrightarrow> (\<exists>w. H p = Some w \<and> c \<in> set (ev_kids w))"

text \<open>The misses of cache \<open>k\<close> in flight: their start is done, their writeback is not.\<close>

definition wbs :: "(nat \<Rightarrow> tev option) \<Rightarrow> nat \<Rightarrow> nat set" where
  "wbs H k = {e. \<exists>v m. H e = Some v \<and> ev_kind v = MissWritebackEvent k m \<and> H m = None}"

text \<open>A miss's writeback depends on its start, and each start has one writeback.\<close>

definition miss_ok :: "(nat \<Rightarrow> tev option) \<Rightarrow> bool" where
  "miss_ok H \<longleftrightarrow>
     (\<forall>e v k m w. H e = Some v \<longrightarrow> ev_kind v = MissWritebackEvent k m \<longrightarrow> H m = Some w \<longrightarrow> ev_kind w = MissStartEvent k \<and> (dep H)\<^sup>+\<^sup>+ m e) \<and>
     (\<forall>m w k. H m = Some w \<longrightarrow> ev_kind w = MissStartEvent k \<longrightarrow> (\<exists>!e. \<exists>v. H e = Some v \<and> ev_kind v = MissWritebackEvent k m))"

definition settled :: "nat set \<Rightarrow> (nat \<Rightarrow> tev option) \<Rightarrow> bool" where
  "settled X H \<longleftrightarrow> (\<forall>e v. H e = Some v \<longrightarrow> e \<notin> X \<longrightarrow> ev_state v = EV_NONE \<or> ev_state v \<in> {EV_QUEUED, EV_HELD} \<and> ev_kind v \<noteq> DelayEvent)"

text \<open>The heap after \<open>done\<close> of an event \<open>e\<close>.\<close>

definition heap_done :: "nat \<Rightarrow> (nat \<Rightarrow> tev option) \<Rightarrow> (nat \<Rightarrow> tev option) \<Rightarrow> bool" where
  "heap_done e H H' \<longleftrightarrow> H' e = None \<and> (\<forall>x. x \<noteq> e \<longrightarrow> vis_ev (H x) (H' x))"

lemma heap_done_live:
  assumes "heap_done e H H'" and "H' x = Some w"
  shows "\<exists>v. H x = Some v \<and> x \<noteq> e \<and> ev_kids w = ev_kids v \<and> ev_kind w = ev_kind v \<and>
    (w = v \<or> ev_state v = EV_NONE \<and> (ev_state w = EV_NONE \<or> ev_state w = EV_QUEUED \<and> ev_kind w \<noteq> DelayEvent))"
  using assms unfolding heap_done_def vis_ev_def by (cases "x = e"; cases "H x") (auto dest!: spec [of _ x])

lemma heap_done_kept:
  assumes "heap_done e H H'" and "H x = Some v" and "x \<noteq> e" and "ev_kind v \<noteq> DelayEvent"
  shows "\<exists>w. H' x = Some w \<and> ev_kind w = ev_kind v"
  using assms unfolding heap_done_def vis_ev_def by (cases "H' x") (auto dest!: spec [of _ x])

lemma heap_done_settled: "heap_done e H H' \<Longrightarrow> settled {e} H \<Longrightarrow> settled {} H'"
  unfolding settled_def using heap_done_live by (metis (no_types, lifting) insert_iff singletonD)

lemma dep_done:
  assumes hd: "heap_done e H H'" and live: "\<forall>x w. H' x = Some w \<longrightarrow> (\<forall>c\<in>set (ev_kids w). H' c \<noteq> None)" and m: "H' m \<noteq> None"
  shows "(dep H)\<^sup>+\<^sup>+ m x \<Longrightarrow> (dep H')\<^sup>+\<^sup>+ m x \<and> H' x \<noteq> None"
proof -
  have step: "dep H' p c \<and> H' c \<noteq> None" if a: "dep H p c" "H' p \<noteq> None" for p c
  proof -
    obtain w where w: "H' p = Some w" using a(2) by blast
    then have "c \<in> set (ev_kids w)" using heap_done_live [OF hd w] a(1) by (auto simp: dep_def)
    then show ?thesis using live w by (auto simp: dep_def)
  qed
  show "(dep H)\<^sup>+\<^sup>+ m x \<Longrightarrow> ?thesis"
  proof (induction rule: tranclp_induct)
    case (base y)
    then show ?case using step m by blast
  next
    case (step y z)
    then show ?case using \<open>\<And>p c. dep H p c \<Longrightarrow> H' p \<noteq> None \<Longrightarrow> dep H' p c \<and> H' c \<noteq> None\<close> by (meson tranclp.trancl_into_trancl)
  qed
qed

lemma graph_live:
  assumes "wg_graph H {#}" and "H x = Some w" and "ev_state w \<noteq> EV_DONE" and "c \<in> set (ev_kids w)"
  shows "H c \<noteq> None" and "\<And>v. H c = Some v \<Longrightarrow> ev_numParents v \<noteq> 0"
proof -
  have "c \<in># own w" using assms(3,4) by (simp add: own_def)
  then have k: "c \<in># kidsum H" using in_kidsum assms(1,2) unfolding wg_graph_def by blast
  then show "H c \<noteq> None" using assms(1) unfolding wg_graph_def by simp
  show "ev_numParents v \<noteq> 0" if "H c = Some v" for v using graphD(1) [OF assms(1) that] k by simp
qed

lemma missD:
  assumes "miss_ok H"
  shows "H e = Some v \<Longrightarrow> ev_kind v = MissWritebackEvent k m \<Longrightarrow> H m = Some w \<Longrightarrow> ev_kind w = MissStartEvent k \<and> (dep H)\<^sup>+\<^sup>+ m e"
    and "H m = Some w \<Longrightarrow> ev_kind w = MissStartEvent k \<Longrightarrow> \<exists>!e. \<exists>v. H e = Some v \<and> ev_kind v = MissWritebackEvent k m"
  using assms unfolding miss_ok_def by blast+

lemma miss_done:
  assumes hd: "heap_done e H H'" and live: "\<forall>x w. H' x = Some w \<longrightarrow> (\<forall>c\<in>set (ev_kids w). H' c \<noteq> None)" and mi: "miss_ok H"
  shows "miss_ok H'"
  unfolding miss_ok_def
proof (intro conjI allI impI, goal_cases)
  case (1 x v k m w)
  obtain v0 where v0: "H x = Some v0" "ev_kind v0 = MissWritebackEvent k m" using heap_done_live [OF hd 1(1)] 1(2) by auto
  obtain w0 where w0: "H m = Some w0" "ev_kind w = ev_kind w0" using heap_done_live [OF hd 1(3)] by auto
  show ?case using missD(1) [OF mi v0 w0(1)] w0(2) by simp
next
  case (2 x v k m w)
  obtain v0 where v0: "H x = Some v0" "ev_kind v0 = MissWritebackEvent k m" using heap_done_live [OF hd 2(1)] 2(2) by auto
  obtain w0 where w0: "H m = Some w0" using heap_done_live [OF hd 2(3)] by auto
  have "(dep H)\<^sup>+\<^sup>+ m x" using missD(1) [OF mi v0 w0] by simp
  then show ?case using dep_done [OF hd live, of m x] 2(3) by simp
next
  case (3 m w k)
  obtain w0 where w0: "H m = Some w0" "ev_kind w0 = MissStartEvent k" using heap_done_live [OF hd 3(1)] 3(2) by auto
  then obtain x v where x: "H x = Some v" "ev_kind v = MissWritebackEvent k m" "\<And>y u. H y = Some u \<Longrightarrow> ev_kind u = MissWritebackEvent k m \<Longrightarrow> y = x"
    using missD(2) [OF mi w0] by blast
  have "(dep H)\<^sup>+\<^sup>+ m x" using missD(1) [OF mi x(1,2) w0(1)] by simp
  then have "H' x \<noteq> None" using dep_done [OF hd live, of m x] 3(1) by simp
  then obtain v' where v': "H' x = Some v'" by blast
  then have "ev_kind v' = MissWritebackEvent k m" using heap_done_live [OF hd v'] x(1,2) by auto
  moreover have "y = x" if "H' y = Some u" "ev_kind u = MissWritebackEvent k m" for y u
    using heap_done_live [OF hd that(1)] that(2) x(3) by auto
  ultimately show ?case using v' by blast
qed

lemma wbs_done:
  assumes hd: "heap_done e H H'" and mi: "miss_ok H" and e: "H e = Some v" and fin: "finite (dom H)"
  shows "wbs H' k = (case ev_kind v of MissStartEvent k' \<Rightarrow> if k' = k then wbs H k \<union> {x. \<exists>u. H x = Some u \<and> ev_kind u = MissWritebackEvent k e} - {e} else wbs H k
    | _ \<Rightarrow> wbs H k - {e})"
proof -
  have kept: "H m = None \<or> m = e \<or> H' m \<noteq> None" if "H x = Some u" "ev_kind u = MissWritebackEvent k' m" for x u k' m
  proof (cases "H m")
    case (Some w)
    then have "ev_kind w = MissStartEvent k'" using missD(1) [OF mi that Some] by simp
    then show ?thesis using heap_done_kept [OF hd Some] by auto
  qed simp
  have idx: "ev_kind v = MissStartEvent k'" if "H x = Some u" "ev_kind u = MissWritebackEvent k' e" for x u k'
    using missD(1) [OF mi that e] by simp
  have gone: "H' m = None" if "H m = None" for m using hd that unfolding heap_done_def vis_ev_def by (cases "m = e") (auto dest!: spec [of _ m])
  have in_iff: "x \<in> wbs H' k \<longleftrightarrow> x \<noteq> e \<and> (\<exists>u m. H x = Some u \<and> ev_kind u = MissWritebackEvent k m \<and> (H m = None \<or> m = e))" for x
  proof
    assume "x \<in> wbs H' k"
    then obtain w m where w: "H' x = Some w" "ev_kind w = MissWritebackEvent k m" "H' m = None" by (auto simp: wbs_def)
    then obtain u where "H x = Some u" "x \<noteq> e" "ev_kind u = MissWritebackEvent k m" using heap_done_live [OF hd w(1)] by auto
    then show "x \<noteq> e \<and> (\<exists>u m. H x = Some u \<and> ev_kind u = MissWritebackEvent k m \<and> (H m = None \<or> m = e))" using kept w(3) by blast
  next
    assume "x \<noteq> e \<and> (\<exists>u m. H x = Some u \<and> ev_kind u = MissWritebackEvent k m \<and> (H m = None \<or> m = e))"
    then obtain u m where u: "x \<noteq> e" "H x = Some u" "ev_kind u = MissWritebackEvent k m" "H m = None \<or> m = e" by blast
    then obtain w where "H' x = Some w" "ev_kind w = MissWritebackEvent k m" using heap_done_kept [OF hd u(2,1)] by auto
    moreover have "H' m = None" using u(4) gone [of m] hd [unfolded heap_done_def, THEN conjunct1] by (elim disjE) simp_all
    ultimately show "x \<in> wbs H' k" by (auto simp: wbs_def)
  qed
  show ?thesis
  proof (cases "\<exists>k'. ev_kind v = MissStartEvent k'")
    case True
    then obtain k' where k': "ev_kind v = MissStartEvent k'" by blast
    have ne: "e \<notin> wbs H k" using e k' by (auto simp: wbs_def)
    have "x \<in> wbs H' k \<longleftrightarrow> (if k' = k then x \<in> wbs H k \<union> {x. \<exists>u. H x = Some u \<and> ev_kind u = MissWritebackEvent k e} - {e} else x \<in> wbs H k)" for x
    proof (cases "k' = k")
      case True
      then show ?thesis unfolding in_iff by (auto simp: wbs_def)
    next
      case False
      then have "\<not> (\<exists>u. H x = Some u \<and> ev_kind u = MissWritebackEvent k e)" using idx [of x _ k] k' by auto
      then have "(\<exists>u m. H x = Some u \<and> ev_kind u = MissWritebackEvent k m \<and> (H m = None \<or> m = e)) \<longleftrightarrow> x \<in> wbs H k"
        unfolding wbs_def by blast
      then show ?thesis unfolding in_iff using ne False by auto
    qed
    then show ?thesis unfolding k' by (simp add: set_eq_iff)
  next
    case False
    then have "\<not> (\<exists>x u. H x = Some u \<and> ev_kind u = MissWritebackEvent k e)" using idx by blast
    then have "x \<in> wbs H' k \<longleftrightarrow> x \<in> wbs H k - {e}" for x unfolding in_iff unfolding wbs_def by blast
    then have "wbs H' k = wbs H k - {e}" by blast
    then show ?thesis using False by (simp split: ev_kind.split)
  qed
qed

lemma wbs_card:
  assumes hd: "heap_done e H H'" and mi: "miss_ok H" and e: "H e = Some v" and fin: "finite (dom H)"
  shows "card (wbs H' k) + (if e \<in> wbs H k then 1 else 0) = card (wbs H k) + (if ev_kind v = MissStartEvent k then 1 else 0)"
proof -
  have f: "finite (wbs H k)" by (rule finite_subset [OF _ fin]) (auto simp: wbs_def)
  have rm: "card (wbs H k - {e}) + (if e \<in> wbs H k then 1 else 0) = card (wbs H k)"
    using card_Suc_Diff1 [OF f, of e] by auto
  show ?thesis
  proof (cases "ev_kind v = MissStartEvent k")
    case True
    then obtain x u where x: "H x = Some u" "ev_kind u = MissWritebackEvent k e" "\<And>y w. H y = Some w \<Longrightarrow> ev_kind w = MissWritebackEvent k e \<Longrightarrow> y = x"
      using missD(2) [OF mi e] by blast
    have s: "{x. \<exists>u. H x = Some u \<and> ev_kind u = MissWritebackEvent k e} = {x}" using x by blast
    have n: "x \<noteq> e" "e \<notin> wbs H k" "x \<notin> wbs H k" using x(1,2) e True by (auto simp: wbs_def)
    have "wbs H' k = wbs H k \<union> {x} - {e}" using wbs_done [OF hd mi e fin, of k] unfolding True s by simp
    also have "\<dots> = insert x (wbs H k)" using n by blast
    finally show ?thesis using f n True by simp
  next
    case False
    show ?thesis
    proof (cases "\<exists>k'. ev_kind v = MissStartEvent k'")
      case True
      then have "e \<notin> wbs H k" using e by (auto simp: wbs_def)
      then show ?thesis using wbs_done [OF hd mi e fin, of k] True False by auto
    next
      case F: False
      then have "wbs H' k = wbs H k - {e}" using wbs_done [OF hd mi e fin, of k] by (simp split: ev_kind.splits)
      then show ?thesis using rm False by simp
    qed
  qed
qed

section \<open>Caches and recorders\<close>

definition kind_ok :: "nat \<Rightarrow> nat \<Rightarrow> ev_kind \<Rightarrow> bool" where
  "kind_ok nc nr k = (case k of HitEvent c \<Rightarrow> c < nc | MissStartEvent c \<Rightarrow> c < nc
     | MissResponseEvent c m \<Rightarrow> c < nc | MissWritebackEvent c m \<Rightarrow> c < nc | ReplAccessEvent c n \<Rightarrow> c < nc \<and> 0 < n
     | TimingCoreEvent orig r \<Rightarrow> r < nr | OOOIssueEvent zll r \<Rightarrow> r < nr | _ \<Rightarrow> True)"

text \<open>A cache with \<open>a\<close> misses in flight, when \<open>n\<close> events are left: its ports are not taken after cycle \<open>K - n\<close>, and events wait only
  while all MSHRs are taken; its histogram of occupancy is in step.\<close>

definition tm_ok :: "nat \<Rightarrow> nat \<Rightarrow> nat \<Rightarrow> nat \<Rightarrow> tcache \<Rightarrow> bool" where
  "tm_ok K cur n a t \<longleftrightarrow> 0 < tm_numMSHRs t \<and> tm_lastFree t \<le> cur \<and> tm_lastAcc t + n \<le> K \<and> tm_active t = a \<and> tm_active t \<le> tm_numMSHRs t \<and>
     (tm_pending t \<noteq> [] \<longrightarrow> tm_numMSHRs t \<le> tm_active t) \<and>
     length (tm_occ t) = tm_numMSHRs t + 1 \<and> tm_occState t = tm_active t \<and> tm_occLast t \<le> cur"

definition rec_ok :: "(nat \<Rightarrow> nat) \<Rightarrow> nat \<Rightarrow> recorder \<Rightarrow> bool" where
  "rec_ok lb limit c \<longleftrightarrow> (cr_state c = RUNNING \<longrightarrow> (\<forall>e. cr_prev c = Some e \<longrightarrow> limit \<le> lb e)) \<and> (cr_state c = HALTED \<longrightarrow> cr_prev c = None)"

definition waiting :: "weave \<Rightarrow> nat list" where
  "waiting s = concat (map tm_pending (w_cache s))"

definition cr_ok :: "(nat \<Rightarrow> nat) \<Rightarrow> nat \<Rightarrow> weave \<Rightarrow> bool" where
  "cr_ok lb K s \<longleftrightarrow>
     (\<forall>e v. w_ev s e = Some v \<longrightarrow> kind_ok (length (w_cache s)) (length (w_rec s)) (ev_kind v)) \<and> miss_ok (w_ev s) \<and>
     (\<forall>k<length (w_cache s). tm_ok K (w_cur s) (card (dom (w_ev s))) (card (wbs (w_ev s) k)) (w_cache s ! k)) \<and>
     distinct (waiting s) \<and> (\<forall>c\<in>set (w_rec s). rec_ok lb (w_limit s) c) \<and> w_limit s + card (dom (w_ev s)) \<le> K"

lemma tm_ok_fewer: "tm_ok K cur n a t \<Longrightarrow> n' \<le> n \<Longrightarrow> tm_ok K cur n' a t"
  by (auto simp: tm_ok_def)

lemma cr_okD:
  assumes "cr_ok lb K s"
  shows "w_ev s e = Some v \<Longrightarrow> kind_ok (length (w_cache s)) (length (w_rec s)) (ev_kind v)" and "miss_ok (w_ev s)"
    and "k < length (w_cache s) \<Longrightarrow> tm_ok K (w_cur s) (card (dom (w_ev s))) (card (wbs (w_ev s) k)) (w_cache s ! k)"
    and "distinct (waiting s)" and "c \<in> set (w_rec s) \<Longrightarrow> rec_ok lb (w_limit s) c" and "w_limit s + card (dom (w_ev s)) \<le> K"
  using assms unfolding cr_ok_def by blast+

lemma cr_okI:
  assumes "\<And>e v. w_ev s e = Some v \<Longrightarrow> kind_ok (length (w_cache s)) (length (w_rec s)) (ev_kind v)" and "miss_ok (w_ev s)"
    and "\<And>k. k < length (w_cache s) \<Longrightarrow> tm_ok K (w_cur s) (card (dom (w_ev s))) (card (wbs (w_ev s) k)) (w_cache s ! k)"
    and "distinct (waiting s)" and "\<And>c. c \<in> set (w_rec s) \<Longrightarrow> rec_ok lb (w_limit s) c" and "w_limit s + card (dom (w_ev s)) \<le> K"
  shows "cr_ok lb K s"
  using assms unfolding cr_ok_def by blast

lemma done_fr_simps:
  "done_fr e d s s' \<Longrightarrow> w_cur s' = w_cur s \<and> w_limit s' = w_limit s \<and> w_lastLimit s' = w_lastLimit s \<and> w_PL s' = w_PL s \<and> w_inCSim s' = w_inCSim s \<and>
     w_cache s' = w_cache s \<and> w_rec s' = w_rec s \<and> w_log s' = w_log s \<and> w_next s' = w_next s \<and> horizon s' = horizon s \<and> waiting s' = waiting s \<and>
     heap_done e (w_ev s) (w_ev s')"
proof -
  assume a: "done_fr e d s s'"
  then obtain x y f where "s' = s\<lparr>w_ev := x, w_pq := y, w_fin := f\<rparr>" unfolding done_fr_def by blast
  then show ?thesis using a by (auto simp: done_fr_def heap_done_def horizon_def waiting_def)
qed

text \<open>After \<open>done\<close>, if the caches account for the event.\<close>

lemma cr_done:
  assumes ok: "wv_ok lb h D H0 hs rn {#} s'" and fr: "done_fr e d s s'" and fin: "finite (dom (w_ev s))" and e: "w_ev s e = Some v" and st: "settled {e} (w_ev s)"
    and kd: "\<And>e v. w_ev s e = Some v \<Longrightarrow> ev_kind v \<noteq> DelayEvent \<Longrightarrow> e \<noteq> x \<Longrightarrow> kind_ok (length (w_cache s)) (length (w_rec s)) (ev_kind v)"
    and x: "x = e" and mi: "miss_ok (w_ev s)"
    and tm: "\<And>k. k < length (w_cache s) \<Longrightarrow> \<exists>a. a + (if e \<in> wbs (w_ev s) k then 1 else 0) = card (wbs (w_ev s) k) + (if ev_kind v = MissStartEvent k then 1 else 0) \<and>
      tm_ok K (w_cur s) (card (dom (w_ev s)) - 1) a (w_cache s ! k)"
    and wt: "distinct (waiting s)" and rc: "\<And>c. c \<in> set (w_rec s) \<Longrightarrow> rec_ok lb (w_limit s) c" and K: "w_limit s + card (dom (w_ev s)) \<le> K"
  shows "cr_ok lb K s'" and "settled {} (w_ev s')" and "card (dom (w_ev s')) < card (dom (w_ev s))"
proof -
  note F = done_fr_simps [OF fr]
  have hd: "heap_done e (w_ev s) (w_ev s')" using F by simp
  show st': "settled {} (w_ev s')" by (rule heap_done_settled [OF hd st])
  have g: "wg_graph (w_ev s') {#}" by (rule wv_okD(1) [OF ok])
  have live: "\<forall>x w. w_ev s' x = Some w \<longrightarrow> (\<forall>c\<in>set (ev_kids w). w_ev s' c \<noteq> None)"
  proof (intro allI impI ballI)
    fix x w c assume "w_ev s' x = Some w" "c \<in> set (ev_kids w)"
    moreover from this(1) have "ev_state w \<noteq> EV_DONE" using st' unfolding settled_def by fastforce
    ultimately show "w_ev s' c \<noteq> None" using graph_live(1) [OF g] by blast
  qed
  have "dom (w_ev s') \<subseteq> dom (w_ev s) - {e}" using heap_done_live [OF hd] by (auto simp: dom_def)
  then have le: "card (dom (w_ev s')) \<le> card (dom (w_ev s) - {e})" using fin by (intro card_mono) auto
  have "e \<in> dom (w_ev s)" using e by auto
  then have c1: "card (dom (w_ev s) - {e}) = card (dom (w_ev s)) - 1" "0 < card (dom (w_ev s))" using fin by (auto simp: card_gt_0_iff)
  then show lt: "card (dom (w_ev s')) < card (dom (w_ev s))" using le by simp
  show "cr_ok lb K s'"
  proof (rule cr_okI)
    fix y w assume y: "w_ev s' y = Some w"
    obtain u where u: "w_ev s y = Some u" "y \<noteq> e" "ev_kind w = ev_kind u" using heap_done_live [OF hd y] by blast
    then show "kind_ok (length (w_cache s')) (length (w_rec s')) (ev_kind w)"
      using kd [OF u(1)] x F by (cases "ev_kind u = DelayEvent") (auto simp: kind_ok_def)
  next
    show "miss_ok (w_ev s')" by (rule miss_done [OF hd live mi])
  next
    fix k assume "k < length (w_cache s')"
    then have k: "k < length (w_cache s)" using F by simp
    obtain a where a: "a + (if e \<in> wbs (w_ev s) k then 1 else 0) = card (wbs (w_ev s) k) + (if ev_kind v = MissStartEvent k then 1 else 0)"
      "tm_ok K (w_cur s) (card (dom (w_ev s)) - 1) a (w_cache s ! k)" using tm [OF k] by blast
    then have "card (wbs (w_ev s') k) = a" using wbs_card [OF hd mi e fin, of k] by simp
    then show "tm_ok K (w_cur s') (card (dom (w_ev s'))) (card (wbs (w_ev s') k)) (w_cache s' ! k)"
      using tm_ok_fewer [OF a(2), of "card (dom (w_ev s'))"] le c1 F by simp
  next
    show "distinct (waiting s')" using wt F by simp
    show "c \<in> set (w_rec s') \<Longrightarrow> rec_ok lb (w_limit s') c" for c using rc F by simp
    show "w_limit s' + card (dom (w_ev s')) \<le> K" using K lt F by simp
  qed
qed

text \<open>Changes of an event that are none for the misses.\<close>

definition miss_like :: "tev \<Rightarrow> tev \<Rightarrow> bool" where
  "miss_like v' v \<longleftrightarrow> ev_kids v' = ev_kids v \<and> (ev_kind v' = ev_kind v \<or> (\<exists>k n n'. ev_kind v = ReplAccessEvent k n \<and> ev_kind v' = ReplAccessEvent k n'))"

lemma miss_put:
  assumes e: "H e = Some v" and l: "miss_like v' v"
  shows "miss_ok (H(e \<mapsto> v')) = miss_ok H" and "wbs (H(e \<mapsto> v')) k = wbs H k" and "dom (H(e \<mapsto> v')) = dom H"
proof -
  have mw: "ev_kind v' = MissWritebackEvent k m \<longleftrightarrow> ev_kind v = MissWritebackEvent k m" "ev_kind v' = MissStartEvent k \<longleftrightarrow> ev_kind v = MissStartEvent k" for k m
    using l by (auto simp: miss_like_def)
  have none: "(H(e \<mapsto> v')) m = None \<longleftrightarrow> H m = None" for m using e by auto
  have W: "(\<exists>u. (H(e \<mapsto> v')) x = Some u \<and> ev_kind u = MissWritebackEvent k m) \<longleftrightarrow> (\<exists>u. H x = Some u \<and> ev_kind u = MissWritebackEvent k m)" for x k m
    using e mw by (cases "x = e") auto
  have S: "(\<exists>u. (H(e \<mapsto> v')) x = Some u \<and> ev_kind u = MissStartEvent k) \<longleftrightarrow> (\<exists>u. H x = Some u \<and> ev_kind u = MissStartEvent k)" for x k
    using e mw by (cases "x = e") auto
  have d: "dep (H(e \<mapsto> v')) = dep H" using e l by (auto simp: dep_def miss_like_def fun_eq_iff)
  have alt: "miss_ok G \<longleftrightarrow>
      (\<forall>e k m. (\<exists>u. G e = Some u \<and> ev_kind u = MissWritebackEvent k m) \<longrightarrow> G m \<noteq> None \<longrightarrow> (\<exists>u. G m = Some u \<and> ev_kind u = MissStartEvent k) \<and> (dep G)\<^sup>+\<^sup>+ m e) \<and>
      (\<forall>m k. (\<exists>u. G m = Some u \<and> ev_kind u = MissStartEvent k) \<longrightarrow> (\<exists>!e. \<exists>v. G e = Some v \<and> ev_kind v = MissWritebackEvent k m))" for G
  proof
    assume a: "miss_ok G"
    have "(\<exists>u. G m = Some u \<and> ev_kind u = MissStartEvent k) \<and> (dep G)\<^sup>+\<^sup>+ m e" if "G e = Some u" "ev_kind u = MissWritebackEvent k m" "G m = Some w" for e k m u w
      using missD(1) [OF a that] that(3) by simp
    moreover have "\<exists>!e. \<exists>v. G e = Some v \<and> ev_kind v = MissWritebackEvent k m" if "G m = Some u" "ev_kind u = MissStartEvent k" for m k u
      by (rule missD(2) [OF a that])
    ultimately show "(\<forall>e k m. (\<exists>u. G e = Some u \<and> ev_kind u = MissWritebackEvent k m) \<longrightarrow> G m \<noteq> None \<longrightarrow> (\<exists>u. G m = Some u \<and> ev_kind u = MissStartEvent k) \<and> (dep G)\<^sup>+\<^sup>+ m e) \<and>
      (\<forall>m k. (\<exists>u. G m = Some u \<and> ev_kind u = MissStartEvent k) \<longrightarrow> (\<exists>!e. \<exists>v. G e = Some v \<and> ev_kind v = MissWritebackEvent k m))"
      unfolding not_None_eq by blast
  next
    assume a: "(\<forall>e k m. (\<exists>u. G e = Some u \<and> ev_kind u = MissWritebackEvent k m) \<longrightarrow> G m \<noteq> None \<longrightarrow> (\<exists>u. G m = Some u \<and> ev_kind u = MissStartEvent k) \<and> (dep G)\<^sup>+\<^sup>+ m e) \<and>
      (\<forall>m k. (\<exists>u. G m = Some u \<and> ev_kind u = MissStartEvent k) \<longrightarrow> (\<exists>!e. \<exists>v. G e = Some v \<and> ev_kind v = MissWritebackEvent k m))"
    have "ev_kind w = MissStartEvent k \<and> (dep G)\<^sup>+\<^sup>+ m e" if "G e = Some v" "ev_kind v = MissWritebackEvent k m" "G m = Some w" for e v k m w
    proof -
      have "G m \<noteq> None" using that by simp
      then have "(\<exists>u. G m = Some u \<and> ev_kind u = MissStartEvent k) \<and> (dep G)\<^sup>+\<^sup>+ m e" using a that(1,2) by blast
      then show ?thesis using that(3) by simp
    qed
    moreover have "\<exists>!e. \<exists>v. G e = Some v \<and> ev_kind v = MissWritebackEvent k m" if "G m = Some w" "ev_kind w = MissStartEvent k" for m w k
      using a that by blast
    ultimately show "miss_ok G" unfolding miss_ok_def by simp
  qed
  show "miss_ok (H(e \<mapsto> v')) = miss_ok H" unfolding alt W S none d ..
  have wa: "wbs G k = {x. \<exists>m. (\<exists>u. G x = Some u \<and> ev_kind u = MissWritebackEvent k m) \<and> G m = None}" for G
    unfolding wbs_def by blast
  show "wbs (H(e \<mapsto> v')) k = wbs H k" unfolding wa W none ..
  show "dom (H(e \<mapsto> v')) = dom H" using e by auto
qed

lemma setCache_simps [simp]:
  "w_ev (w_setCache k t s) = w_ev s" "w_cur (w_setCache k t s) = w_cur s" "w_limit (w_setCache k t s) = w_limit s" "w_lastLimit (w_setCache k t s) = w_lastLimit s"
  "w_PL (w_setCache k t s) = w_PL s" "w_rec (w_setCache k t s) = w_rec s" "w_log (w_setCache k t s) = w_log s" "w_fin (w_setCache k t s) = w_fin s"
  "w_cache (w_setCache k t s) = (w_cache s)[k := t]" "horizon (w_setCache k t s) = horizon s"
  "wv_okQ lb h D H0 hs rn R Q (w_setCache k t s) = wv_okQ lb h D H0 hs rn R Q s"
  "wv_ok lb h D H0 hs rn R (w_setCache k t s) = wv_ok lb h D H0 hs rn R s"
  by (simp_all add: w_setCache_def wv_okQ_def wv_ok_def)

lemma setStart_simps [simp]:
  "w_ev (w_setStart e c s) = w_ev s" "w_cur (w_setStart e c s) = w_cur s" "w_limit (w_setStart e c s) = w_limit s" "w_lastLimit (w_setStart e c s) = w_lastLimit s"
  "w_PL (w_setStart e c s) = w_PL s" "w_rec (w_setStart e c s) = w_rec s" "w_log (w_setStart e c s) = w_log s" "w_fin (w_setStart e c s) = w_fin s"
  "w_cache (w_setStart e c s) = w_cache s" "horizon (w_setStart e c s) = horizon s" "waiting (w_setStart e c s) = waiting s"
  "wv_okQ lb h D H0 hs rn R Q (w_setStart e c s) = wv_okQ lb h D H0 hs rn R Q s"
  "wv_ok lb h D H0 hs rn R (w_setStart e c s) = wv_ok lb h D H0 hs rn R s" "cr_ok lb K (w_setStart e c s) = cr_ok lb K s"
  by (simp_all add: w_setStart_def wv_okQ_def wv_ok_def waiting_def horizon_def cr_ok_def)

lemma setRec_simps [simp]:
  "w_ev (w_setRec k t s) = w_ev s" "w_cur (w_setRec k t s) = w_cur s" "w_limit (w_setRec k t s) = w_limit s" "w_lastLimit (w_setRec k t s) = w_lastLimit s"
  "w_PL (w_setRec k t s) = w_PL s" "w_cache (w_setRec k t s) = w_cache s" "w_log (w_setRec k t s) = w_log s" "w_fin (w_setRec k t s) = w_fin s"
  "w_rec (w_setRec k t s) = (w_rec s)[k := t]" "horizon (w_setRec k t s) = horizon s"
  "wv_okQ lb h D H0 hs rn R Q (w_setRec k t s) = wv_okQ lb h D H0 hs rn R Q s" "waiting (w_setRec k t s) = waiting s"
  "wv_ok lb h D H0 hs rn R (w_setRec k t s) = wv_ok lb h D H0 hs rn R s"
  by (simp_all add: w_setRec_def wv_okQ_def wv_ok_def waiting_def)

section \<open>The simulation of an event\<close>

definition phase_const :: "weave \<Rightarrow> weave \<Rightarrow> bool" where
  "phase_const s s' \<longleftrightarrow> w_cur s' = w_cur s \<and> w_limit s' = w_limit s \<and> w_lastLimit s' = w_lastLimit s \<and> w_PL s' = w_PL s \<and> w_log s' = w_log s \<and>
     (\<exists>xs. w_fin s' = xs @ w_fin s)"

text \<open>The state when event \<open>e\<close> is simulated, at the current cycle.\<close>

definition sim_pre :: "(nat \<Rightarrow> nat) \<Rightarrow> (nat \<Rightarrow> nat) \<Rightarrow> nat \<Rightarrow> nat \<Rightarrow> (nat \<Rightarrow> tev option) \<Rightarrow> nat set \<Rightarrow> (nat \<times> nat) multiset \<Rightarrow> nat \<Rightarrow> tev \<Rightarrow> weave \<Rightarrow> bool" where
  "sim_pre lb h D K H0 rn Q e v s \<longleftrightarrow>
     wv_okQ lb h D H0 (set (waiting s)) rn {#} Q s \<and> w_ev s e = Some v \<and> ev_state v = EV_RUNNING \<and> ev_kind v \<noteq> DelayEvent \<and>
     cr_ok lb K s \<and> settled {e} (w_ev s) \<and> 0 < w_cur s \<and> w_cur s < w_limit s \<and> lb e \<le> w_cur s \<and> e \<in> rn \<and> K + D < horizon s \<and> horizon s \<le> 2 ^ 64"

text \<open>The state after it: the event is done, or it waits, or it is queued for the next cycle.\<close>

definition sim_post :: "(nat \<Rightarrow> nat) \<Rightarrow> (nat \<Rightarrow> nat) \<Rightarrow> nat \<Rightarrow> nat \<Rightarrow> (nat \<Rightarrow> tev option) \<Rightarrow> nat set \<Rightarrow> (nat \<times> nat) multiset \<Rightarrow> nat \<Rightarrow> weave \<Rightarrow> weave \<Rightarrow> bool" where
  "sim_post lb h D K H0 rn Q e s s' \<longleftrightarrow>
     cr_ok lb K s' \<and> settled {} (w_ev s') \<and> phase_const s s' \<and>
     (wv_ok lb h D H0 (set (waiting s')) rn {#} s' \<and> card (dom (w_ev s')) < card (dom (w_ev s)) \<or>
      dom (w_ev s') = dom (w_ev s) \<and>
        (wv_okQ lb h D H0 (set (waiting s')) rn {#} Q s' \<or> wv_okQ lb h D H0 (set (waiting s')) rn {#} (add_mset (w_cur s + 1, e) Q) s'))"

lemma done_phase: "done_fr e d s s' \<Longrightarrow> phase_const s s'"
  using done_fr_simps [of e d s s'] by (auto simp: phase_const_def done_fr_def)

lemma sim_done:
  assumes ok: "wv_ok lb h D H0 (set (waiting s)) rn {#} s" and e: "w_ev s e = Some v" "ev_state v = EV_RUNNING" "ev_kind v \<noteq> DelayEvent"
    and d: "lb e \<le> d" "w_cur s \<le> d" "d + D < horizon s + ev_lat v" and st: "settled {e} (w_ev s)"
    and kd: "\<And>x u. w_ev s x = Some u \<Longrightarrow> x \<noteq> e \<Longrightarrow> kind_ok (length (w_cache s)) (length (w_rec s)) (ev_kind u)" and mi: "miss_ok (w_ev s)"
    and tm: "\<And>k. k < length (w_cache s) \<Longrightarrow> \<exists>a. a + (if e \<in> wbs (w_ev s) k then 1 else 0) = card (wbs (w_ev s) k) + (if ev_kind v = MissStartEvent k then 1 else 0) \<and>
      tm_ok K (w_cur s) (card (dom (w_ev s)) - 1) a (w_cache s ! k)"
    and wt: "distinct (waiting s)" and rc: "\<And>c. c \<in> set (w_rec s) \<Longrightarrow> rec_ok lb (w_limit s) c" and K: "w_limit s + card (dom (w_ev s)) \<le> K"
  shows "\<exists>s'. ev_done e d s = Some s' \<and> cr_ok lb K s' \<and> settled {} (w_ev s') \<and> phase_const s s' \<and>
     wv_ok lb h D H0 (set (waiting s')) rn {#} s' \<and> card (dom (w_ev s')) < card (dom (w_ev s))"
proof -
  obtain s' where s': "ev_done e d s = Some s'" "wv_ok lb h D H0 (set (waiting s)) rn {#} s'" "done_fr e d s s'"
    using done_ok [OF ok e d] by blast
  have fin: "finite (dom (w_ev s))" using wv_okD(1) [OF ok] by (simp add: wg_graph_def)
  have "cr_ok lb K s' \<and> settled {} (w_ev s') \<and> card (dom (w_ev s')) < card (dom (w_ev s))"
    using cr_done [OF s'(2,3) fin e(1) st kd refl mi tm wt rc K] by simp
  then show ?thesis using s'(1,2) done_phase [OF s'(3)] done_fr_simps [OF s'(3)] by auto
qed

end
