(* ===== verification/Weave_Sim.thy ===== *)
theory Weave_Sim
  imports Weave_Caches
begin

text \<open>
  The simulation of each kind of event keeps the invariant: \<open>simulate_ok\<close>, one lemma for each class of event. An event is done, is
  held by a cache, or is queued again for the next cycle.
\<close>

lemma sim_requeue:
  assumes ok: "wv_okQ lb h D H0 (set (waiting s)) rn {#} Q s" and e: "w_ev s e = Some v" "ev_state v = EV_RUNNING" "ev_kind v \<noteq> DelayEvent"
    and lo: "lb e \<le> w_cur s" "e \<in> rn" and lim: "w_cur s < w_limit s" "w_limit s < horizon s" and st: "settled {e} (w_ev s)" and cr: "cr_ok lb K s"
  shows "\<exists>s'. ev_requeue e (w_cur s + 1) s = Some s' \<and> cr_ok lb K s' \<and> settled {} (w_ev s') \<and> phase_const s s' \<and> dom (w_ev s') = dom (w_ev s) \<and>
     wv_okQ lb h D H0 (set (waiting s')) rn {#} (add_mset (w_cur s + 1, e) Q) s'"
proof -
  note D = wv_okQD [OF ok]
  have n: "ev_numParents v = 0" using graphD(5) [OF D(1) e(1)] e(2) by auto
  have ne: "e \<notin> set (waiting s)" using queueD(3) [OF D(8), of e] e by auto
  obtain q where q: "cs_enqueue e (w_cur s + 1) (w_put e (v\<lparr>ev_state := EV_QUEUED\<rparr>) s) = Some (s\<lparr>w_ev := (w_ev s)(e \<mapsto> v\<lparr>ev_state := EV_QUEUED\<rparr>), w_pq := q\<rparr>)"
      "wv_okQ lb h D H0 (set (waiting s) - {e}) rn {#} (add_mset (w_cur s + 1, e) Q) (s\<lparr>w_ev := (w_ev s)(e \<mapsto> v\<lparr>ev_state := EV_QUEUED\<rparr>), w_pq := q\<rparr>)"
    using enqueue_okQ [OF ok e(1) n, of "w_cur s + 1"] e(2) lo lim by auto
  let ?v = "v\<lparr>ev_state := EV_QUEUED\<rparr>"
  let ?s = "s\<lparr>w_ev := (w_ev s)(e \<mapsto> ?v), w_pq := q\<rparr>"
  have l: "miss_like ?v v" by (simp add: miss_like_def ev_kids_def)
  note P = miss_put [of "w_ev s", OF e(1) l]
  have w: "waiting ?s = waiting s" by (simp add: waiting_def)
  have "cr_ok lb K ?s"
  proof (rule cr_okI)
    show "w_ev ?s x = Some u \<Longrightarrow> kind_ok (length (w_cache ?s)) (length (w_rec ?s)) (ev_kind u)" for x u
      using cr_okD(1) [OF cr, of x u] cr_okD(1) [OF cr e(1)] by (cases "x = e") auto
    show "miss_ok (w_ev ?s)" using P(1) cr_okD(2) [OF cr] by simp
    show "k < length (w_cache ?s) \<Longrightarrow> tm_ok K (w_cur ?s) (card (dom (w_ev ?s))) (card (wbs (w_ev ?s) k)) (w_cache ?s ! k)" for k
      using cr_okD(3) [OF cr, of k] P(2,3) by simp
    show "distinct (waiting ?s)" using cr_okD(4) [OF cr] w by simp
    show "c \<in> set (w_rec ?s) \<Longrightarrow> rec_ok lb (w_limit ?s) c" for c using cr_okD(5) [OF cr, of c] by simp
    show "w_limit ?s + card (dom (w_ev ?s)) \<le> K" using cr_okD(6) [OF cr] P(3) by simp
  qed
  moreover have "settled {} (w_ev ?s)" using st e by (auto simp: settled_def)
  moreover have "ev_requeue e (w_cur s + 1) s = Some ?s" using e n q(1) by (simp add: ev_requeue_def)
  moreover have "phase_const s ?s" by (simp add: phase_const_def)
  moreover have "dom (w_ev ?s) = dom (w_ev s)" using P(3) by simp
  moreover have "wv_okQ lb h D H0 (set (waiting ?s)) rn {#} (add_mset (w_cur s + 1, e) Q) ?s" using q(2) ne w by simp
  ultimately show ?thesis by blast
qed

lemma waiting_add:
  "k < length (w_cache s) \<Longrightarrow> mset (waiting (w_setCache k ((w_cache s ! k)\<lparr>tm_pending := tm_pending (w_cache s ! k) @ [e]\<rparr>) s)) = add_mset e (mset (waiting s))"
proof -
  assume k: "k < length (w_cache s)"
  have "w_cache s = take k (w_cache s) @ w_cache s ! k # drop (Suc k) (w_cache s)" using k by (rule id_take_nth_drop)
  then have "waiting s = concat (map tm_pending (take k (w_cache s))) @ tm_pending (w_cache s ! k) @ concat (map tm_pending (drop (Suc k) (w_cache s)))"
    unfolding waiting_def by (metis (no_types, lifting) concat.simps(2) concat_append list.simps(9) map_append)
  then show ?thesis using k by (simp add: waiting_def upd_conv_take_nth_drop)
qed

lemma waiting_remove:
  "k < length (w_cache s) \<Longrightarrow> mset (waiting s) = mset (waiting (w_setCache k ((w_cache s ! k)\<lparr>tm_pending := []\<rparr>) s)) + mset (tm_pending (w_cache s ! k))"
proof -
  assume k: "k < length (w_cache s)"
  have "w_cache s = take k (w_cache s) @ w_cache s ! k # drop (Suc k) (w_cache s)" using k by (rule id_take_nth_drop)
  then have "waiting s = concat (map tm_pending (take k (w_cache s))) @ tm_pending (w_cache s ! k) @ concat (map tm_pending (drop (Suc k) (w_cache s)))"
    unfolding waiting_def by (metis (no_types, lifting) concat.simps(2) concat_append list.simps(9) map_append)
  then show ?thesis using k by (simp add: waiting_def upd_conv_take_nth_drop)
qed

lemma waiting_same:
  "k < length (w_cache s) \<Longrightarrow> tm_pending t = tm_pending (w_cache s ! k) \<Longrightarrow> waiting (w_setCache k t s) = waiting s"
  unfolding waiting_def by (simp add: map_update list_update_same_conv) (metis length_map list_update_id map_update nth_map)

lemma hold_ok:
  assumes ok: "wv_okQ lb h D H0 hs rn R Q s" and e: "w_ev s e = Some v" "ev_state v = EV_RUNNING" and lo: "lb e \<le> w_cur s" "e \<in> rn"
  shows "wv_okQ lb h D H0 (insert e hs) rn R Q (w_put e (v\<lparr>ev_state := EV_HELD\<rparr>) s)"
proof -
  note D = wv_okQD [OF ok]
  let ?v = "v\<lparr>ev_state := EV_HELD\<rparr>"
  have n: "ev_numParents v = 0" using graphD(5) [OF D(1) e(1)] e(2) by auto
  have l: "ev_like ?v v" using e(2) by (simp add: ev_like_def ev_same_def ev_kids_def ev_lat_def)
  have q: "wg_queue lb H0 (w_fin s) (insert e hs) rn (w_cur s) ((w_ev s)(e \<mapsto> ?v)) Q"
  proof (rule queueI)
    fix x
    show "count (image_mset snd Q) x = (case ((w_ev s)(e \<mapsto> ?v)) x of None \<Rightarrow> 0 | Some v \<Rightarrow> if ev_state v = EV_QUEUED then 1 else 0)"
      using queueD(2) [OF D(8), of x] e by (cases "x = e") simp_all
    show "x \<in> insert e hs \<longleftrightarrow> (\<exists>v. ((w_ev s)(e \<mapsto> ?v)) x = Some v \<and> ev_state v = EV_HELD)"
      using queueD(3) [OF D(8), of x] e by (cases "x = e") simp_all
    show "x \<in> insert e hs \<Longrightarrow> lb x \<le> w_cur s" using queueD(4) [OF D(8), of x] lo by auto
  next
    show "insert e hs \<subseteq> rn" using queueD(5) [OF D(8)] lo by blast
  qed (fact queueD(1) [OF D(8)], fact queueD(6) [OF D(8)])
  show ?thesis
    unfolding w_put_def
    by (rule wv_okQI) (use graph_put(1) [OF D(1) e(1) l] n times_put [OF D(2) e(1) l] ghost_put [OF D(3) e(1) l] q D in simp_all)
qed

lemma sim_wait:
  assumes ok: "wv_okQ lb h D H0 (set (waiting s)) rn {#} Q s" and e: "w_ev s e = Some v" "ev_state v = EV_RUNNING" "ev_kind v \<noteq> DelayEvent"
    and lo: "lb e \<le> w_cur s" "e \<in> rn" and st: "settled {e} (w_ev s)" and cr: "cr_ok lb K s"
    and k: "k < length (w_cache s)" "\<not> tm_active (w_cache s ! k) < tm_numMSHRs (w_cache s ! k)"
  shows "\<exists>s'. tm_wait k e s = Some s' \<and> cr_ok lb K s' \<and> settled {} (w_ev s') \<and> phase_const s s' \<and> dom (w_ev s') = dom (w_ev s) \<and>
     wv_okQ lb h D H0 (set (waiting s')) rn {#} Q s'"
proof -
  note D = wv_okQD [OF ok]
  let ?v = "v\<lparr>ev_state := EV_HELD\<rparr>"
  let ?s1 = "w_put e ?v s" and ?t = "(w_cache s ! k)\<lparr>tm_pending := tm_pending (w_cache s ! k) @ [e]\<rparr>"
  let ?s = "w_setCache k ?t ?s1"
  have ne: "e \<notin> set (waiting s)" using queueD(3) [OF D(8), of e] e by auto
  have w: "mset (waiting ?s) = add_mset e (mset (waiting s))"
    using waiting_add [of k ?s1 e] k by (simp add: waiting_def)
  then have ws: "set (waiting ?s) = insert e (set (waiting s))" by (metis set_mset_add_mset_insert set_mset_mset)
  have l: "miss_like ?v v" by (simp add: miss_like_def ev_kids_def)
  note P = miss_put [of "w_ev s", OF e(1) l]
  have "cr_ok lb K ?s"
  proof (rule cr_okI)
    show "w_ev ?s x = Some u \<Longrightarrow> kind_ok (length (w_cache ?s)) (length (w_rec ?s)) (ev_kind u)" for x u
      using cr_okD(1) [OF cr, of x u] cr_okD(1) [OF cr e(1)] by (cases "x = e") auto
    show "miss_ok (w_ev ?s)" using P(1) cr_okD(2) [OF cr] by simp
    show "distinct (waiting ?s)" using cr_okD(4) [OF cr] w ne by (metis distinct.simps(2) mset.simps(2) mset_eq_imp_distinct_iff)
    show "c \<in> set (w_rec ?s) \<Longrightarrow> rec_ok lb (w_limit ?s) c" for c using cr_okD(5) [OF cr, of c] by simp
    show "w_limit ?s + card (dom (w_ev ?s)) \<le> K" using cr_okD(6) [OF cr] P(3) by simp
  next
    fix j assume j: "j < length (w_cache ?s)"
    then have "tm_ok K (w_cur s) (card (dom (w_ev s))) (card (wbs (w_ev s) j)) (w_cache s ! j)" using cr_okD(3) [OF cr, of j] by simp
    then show "tm_ok K (w_cur ?s) (card (dom (w_ev ?s))) (card (wbs (w_ev ?s) j)) (w_cache ?s ! j)"
      using P(2,3) k j by (cases "j = k") (auto simp: tm_ok_def)
  qed
  moreover have "settled {} (w_ev ?s)" using st e by (auto simp: settled_def)
  moreover have "tm_wait k e s = Some ?s" using e by (simp add: tm_wait_def ev_hold_def Let_def)
  moreover have "phase_const s ?s" by (simp add: phase_const_def)
  moreover have "dom (w_ev ?s) = dom (w_ev s)" using P(3) by simp
  moreover have "wv_okQ lb h D H0 (set (waiting ?s)) rn {#} Q ?s" using hold_ok [OF ok e(1,2) lo] ws by simp
  ultimately show ?thesis by blast
qed

section \<open>Ports\<close>

lemma prev_cycle: "0 < c \<Longrightarrow> c \<le> 2 ^ 64 \<Longrightarrow> (c + 2 ^ 64 - 1) mod 2 ^ 64 = (c - 1 :: nat)"
proof -
  assume c: "0 < c" "c \<le> 2 ^ 64"
  then have "c + 2 ^ 64 - 1 = c - 1 + 2 ^ 64" by simp
  then show ?thesis using c by (simp only: mod_add_self2) simp
qed

lemma highPrio_ok:
  assumes t: "tm_ok K cur n a t" and c: "0 < cur" "cur \<le> 2 ^ 64" and n: "0 < n" "cur + n \<le> K"
  shows "\<exists>t' l. tm_highPrio cur t = Some (t', l) \<and> tm_ok K cur (n - 1) a t' \<and> cur \<le> l \<and> l \<le> K \<and> tm_pending t' = tm_pending t"
proof -
  have free: "tm_lastFree t \<le> cur" and acc: "tm_lastAcc t + n \<le> K" using t by (simp_all add: tm_ok_def)
  let ?l = "max cur (tm_lastAcc t + 1)"
  let ?t = "(if tm_lastAcc t < cur - 1 then t\<lparr>tm_lastFree := cur - 1\<rparr> else t)\<lparr>tm_lastAcc := ?l\<rparr>"
  have "tm_highPrio cur t = Some (?t, ?l)" unfolding tm_highPrio_def prev_cycle [OF c] using free by (simp add: Let_def)
  moreover have "?l + (n - 1) \<le> K" using acc n by (auto simp: max_def)
  moreover have "tm_ok K cur (n - 1) a ?t" using t calculation(2) by (auto simp: tm_ok_def)
  moreover have "?l \<le> K" "tm_pending ?t = tm_pending t" using calculation(2) by auto
  ultimately show ?thesis by (intro exI [of _ ?t] exI [of _ ?l]) auto
qed

lemma lowPrio_ok:
  assumes t: "tm_ok K cur n a t" and c: "0 < cur" "cur \<le> 2 ^ 64" and n: "cur + n \<le> K"
  shows "\<exists>t' l. tm_tryLowPrio cur t = (t', l) \<and> tm_ok K cur n a t' \<and> tm_pending t' = tm_pending t \<and> tm_active t' = tm_active t \<and> (l \<noteq> 0 \<longrightarrow> l = cur)"
  unfolding tm_tryLowPrio_def prev_cycle [OF c] using t c(1) n by (auto simp: Let_def tm_ok_def)

lemma occ_ok:
  assumes t: "tm_ok K cur n a t" and x: "x \<le> tm_numMSHRs t"
  shows "\<exists>t'. occ_transition x cur (t\<lparr>tm_missLat := w, tm_active := x\<rparr>) = Some t' \<and> tm_ok K cur n x (t'\<lparr>tm_pending := []\<rparr>) \<and>
    tm_pending t' = tm_pending t \<and> tm_active t' = x"
  using t x by (auto simp: occ_transition_def tm_ok_def)

section \<open>Waking the events that wait\<close>

lemma wake_ok:
  "wv_okQ lb h D H0 hs rn {#} Q s \<Longrightarrow> set qs \<subseteq> hs \<Longrightarrow> distinct qs \<Longrightarrow> w_cur s < c \<Longrightarrow> c < horizon s \<Longrightarrow>
   \<exists>s' Q'. tm_wake c qs s = Some s' \<and> wv_okQ lb h D H0 (hs - set qs) rn {#} Q' s' \<and> s' = s\<lparr>w_ev := w_ev s', w_pq := w_pq s'\<rparr> \<and>
     (miss_ok (w_ev s') = miss_ok (w_ev s)) \<and> (\<forall>k. wbs (w_ev s') k = wbs (w_ev s) k) \<and> dom (w_ev s') = dom (w_ev s) \<and>
     (settled {e} (w_ev s) \<longrightarrow> e \<notin> set qs \<longrightarrow> settled {e} (w_ev s')) \<and> (\<forall>x. x \<notin> set qs \<longrightarrow> w_ev s' x = w_ev s x) \<and>
     (\<forall>x u'. w_ev s' x = Some u' \<longrightarrow> (\<exists>u. w_ev s x = Some u \<and> ev_kind u' = ev_kind u))"
proof (induction qs arbitrary: s hs Q)
  case Nil
  then show ?case by auto
next
  case (Cons q qs)
  note D = wv_okQD [OF Cons.prems(1)]
  have q: "q \<in> hs" "q \<notin> set qs" using Cons.prems by auto
  obtain v where v: "w_ev s q = Some v" "ev_state v = EV_HELD" using queueD(3) [OF D(8), of q] q(1) by blast
  have n: "ev_numParents v = 0" using graphD(5) [OF D(1) v(1)] v(2) by auto
  have rn: "q \<in> rn" "lb q \<le> w_cur s" using queueD(4,5) [OF D(8)] q(1) by blast+
  let ?v = "v\<lparr>ev_state := EV_QUEUED\<rparr>"
  obtain p where p: "cs_enqueue q c (w_put q ?v s) = Some (s\<lparr>w_ev := (w_ev s)(q \<mapsto> ?v), w_pq := p\<rparr>)"
      "wv_okQ lb h D H0 (hs - {q}) rn {#} (add_mset (c, q) Q) (s\<lparr>w_ev := (w_ev s)(q \<mapsto> ?v), w_pq := p\<rparr>)"
    using enqueue_okQ [OF Cons.prems(1) v(1) n, of c] v(2) rn Cons.prems(4,5) by auto
  let ?s = "s\<lparr>w_ev := (w_ev s)(q \<mapsto> ?v), w_pq := p\<rparr>"
  have rq: "ev_requeue q c s = Some ?s" using v n p(1) by (simp add: ev_requeue_def)
  have l: "miss_like ?v v" by (simp add: miss_like_def ev_kids_def)
  note P = miss_put [of "w_ev s", OF v(1) l]
  have "set qs \<subseteq> hs - {q}" "distinct qs" "w_cur ?s < c" "c < horizon ?s" using Cons.prems q by auto
  from Cons.IH [OF p(2) this] obtain s' Q' where s': "tm_wake c qs ?s = Some s'" "wv_okQ lb h D H0 (hs - {q} - set qs) rn {#} Q' s'"
      "s' = ?s\<lparr>w_ev := w_ev s', w_pq := w_pq s'\<rparr>" "miss_ok (w_ev s') = miss_ok (w_ev ?s)" "\<forall>k. wbs (w_ev s') k = wbs (w_ev ?s) k"
      "dom (w_ev s') = dom (w_ev ?s)" "settled {e} (w_ev ?s) \<longrightarrow> e \<notin> set qs \<longrightarrow> settled {e} (w_ev s')" "\<forall>x. x \<notin> set qs \<longrightarrow> w_ev s' x = w_ev ?s x"
      "\<forall>x u'. w_ev s' x = Some u' \<longrightarrow> (\<exists>u. w_ev ?s x = Some u \<and> ev_kind u' = ev_kind u)"
    by (elim exE conjE) (rule that)
  have "s' = s\<lparr>w_ev := w_ev s', w_pq := w_pq s'\<rparr>" using s'(3) by simp
  moreover have "hs - {q} - set qs = hs - set (q # qs)" by auto
  moreover have "settled {e} (w_ev s) \<longrightarrow> e \<notin> set (q # qs) \<longrightarrow> settled {e} (w_ev s')"
  proof (intro impI)
    assume a: "settled {e} (w_ev s)" "e \<notin> set (q # qs)"
    then have "ev_kind v \<noteq> DelayEvent" using v unfolding settled_def by fastforce
    then have "settled {e} (w_ev ?s)" using a v by (auto simp: settled_def)
    then show "settled {e} (w_ev s')" using s'(7) a by simp
  qed
  moreover have "\<exists>u. w_ev s x = Some u \<and> ev_kind u' = ev_kind u" if "w_ev s' x = Some u'" for x u'
    using s'(9) that v by (cases "x = q") fastforce+
  moreover have "tm_wake c (q # qs) s = Some s'" using rq s'(1) by simp
  ultimately show ?case using s'(2,4,5,6,8) P q by (intro exI [of _ s'] exI [of _ Q']) simp
qed

section \<open>The classes of events\<close>

lemma sim_preD:
  assumes "sim_pre lb h D K H0 rn Q e v s"
  shows "wv_okQ lb h D H0 (set (waiting s)) rn {#} Q s" and "w_ev s e = Some v" and "ev_state v = EV_RUNNING" and "ev_kind v \<noteq> DelayEvent"
    and "cr_ok lb K s" and "settled {e} (w_ev s)" and "0 < w_cur s" and "w_cur s < w_limit s" and "lb e \<le> w_cur s" and "e \<in> rn"
    and "K + D < horizon s" and "horizon s \<le> 2 ^ 64"
  using assms unfolding sim_pre_def by blast+

lemma sim_preD2:
  assumes "sim_pre lb h D K H0 rn Q e v s"
  shows "finite (dom (w_ev s))" and "0 < card (dom (w_ev s))" and "w_cur s + card (dom (w_ev s)) \<le> K" and "w_cur s \<le> 2 ^ 64" and "w_limit s < horizon s"
    and "wv_ok lb h D H0 (set (waiting s)) rn {#} s" and "ev_numParents v = 0"
proof -
  note P = sim_preD [OF assms]
  show f: "finite (dom (w_ev s))" using wv_okQD(1) [OF P(1)] by (simp add: wg_graph_def)
  then show "0 < card (dom (w_ev s))" using P(2) by (auto simp: card_gt_0_iff)
  show "w_cur s + card (dom (w_ev s)) \<le> K" "w_limit s < horizon s" using cr_okD(6) [OF P(5)] P(8,11) by simp_all
  then show "w_cur s \<le> 2 ^ 64" using P(8,12) by simp
  show "wv_ok lb h D H0 (set (waiting s)) rn {#} s" using P(1) unfolding wv_ok_def by blast
  show "ev_numParents v = 0" using graphD(5) [OF wv_okQD(1) [OF P(1)] P(2)] P(3) by auto
qed

lemma tm_plain:
  assumes cr: "cr_ok lb K s" and k: "k < length (w_cache s)" and e: "e \<notin> wbs (w_ev s) k" "ev_kind v \<noteq> MissStartEvent k"
  shows "\<exists>a. a + (if e \<in> wbs (w_ev s) k then 1 else 0) = card (wbs (w_ev s) k) + (if ev_kind v = MissStartEvent k then 1 else 0) \<and>
    tm_ok K (w_cur s) (card (dom (w_ev s)) - 1) a (w_cache s ! k)"
  using tm_ok_fewer [OF cr_okD(3) [OF cr k]] e by auto

lemma post_done:
  assumes "\<exists>s'. f = Some s' \<and> cr_ok lb K s' \<and> settled {} (w_ev s') \<and> phase_const s s' \<and>
     wv_ok lb h D H0 (set (waiting s')) rn {#} s' \<and> card (dom (w_ev s')) < card (dom (w_ev s))"
  shows "\<exists>s'. f = Some s' \<and> sim_post lb h D K H0 rn Q e s s'"
  using assms unfolding sim_post_def by blast

text \<open>Events that are done at once.\<close>

lemma sim_plain:
  assumes p: "sim_pre lb h D K H0 rn Q e v s" and k: "\<And>k. ev_kind v \<noteq> MissStartEvent k" "\<And>k m. ev_kind v \<noteq> MissWritebackEvent k m"
    and d: "d = w_cur s + ev_lat v"
  shows "\<exists>s'. ev_done e d s = Some s' \<and> sim_post lb h D K H0 rn Q e s s'"
proof (rule post_done, rule sim_done)
  note P = sim_preD [OF p] and P2 = sim_preD2 [OF p]
  show "wv_ok lb h D H0 (set (waiting s)) rn {#} s" by (rule P2(6))
  show "w_ev s e = Some v" "ev_state v = EV_RUNNING" "ev_kind v \<noteq> DelayEvent" "settled {e} (w_ev s)" using P by simp_all
  show "lb e \<le> d" "w_cur s \<le> d" using P(9) d by simp_all
  show "d + D < horizon s + ev_lat v" using d P(11) P2(3) by simp
  show "w_ev s x = Some u \<Longrightarrow> x \<noteq> e \<Longrightarrow> kind_ok (length (w_cache s)) (length (w_rec s)) (ev_kind u)" for x u by (rule cr_okD(1) [OF P(5)])
  show "miss_ok (w_ev s)" "distinct (waiting s)" "w_limit s + card (dom (w_ev s)) \<le> K" using cr_okD(2,4,6) [OF P(5)] by simp_all
  show "c \<in> set (w_rec s) \<Longrightarrow> rec_ok lb (w_limit s) c" for c by (rule cr_okD(5) [OF P(5)])
  fix j assume j: "j < length (w_cache s)"
  have "e \<notin> wbs (w_ev s) j" using P(2) k by (auto simp: wbs_def)
  then show "\<exists>a. a + (if e \<in> wbs (w_ev s) j then 1 else 0) = card (wbs (w_ev s) j) + (if ev_kind v = MissStartEvent j then 1 else 0) \<and>
      tm_ok K (w_cur s) (card (dom (w_ev s)) - 1) a (w_cache s ! j)"
    by (rule tm_plain [OF P(5) j]) (rule k)
qed

lemma phase_const_cache: "phase_const (w_setCache k t s) s' = phase_const s s'"
  by (simp add: phase_const_def)

text \<open>Events that are done after a use of cache \<open>k\<close>.\<close>

lemma sim_done_cache:
  assumes p: "sim_pre lb h D K H0 rn Q e v s" and k: "k < length (w_cache s)"
    and t': "a + (if e \<in> wbs (w_ev s) k then 1 else 0) = card (wbs (w_ev s) k) + (if ev_kind v = MissStartEvent k then 1 else 0)"
      "tm_ok K (w_cur s) (card (dom (w_ev s)) - 1) a t'" "tm_pending t' = tm_pending (w_cache s ! k)"
    and oth: "\<And>j. j \<noteq> k \<Longrightarrow> e \<notin> wbs (w_ev s) j \<and> ev_kind v \<noteq> MissStartEvent j" and d: "w_cur s \<le> d" "d \<le> K"
  shows "\<exists>s'. ev_done e d (w_setCache k t' s) = Some s' \<and> sim_post lb h D K H0 rn Q e s s'"
proof -
  note P = sim_preD [OF p] and P2 = sim_preD2 [OF p]
  let ?s = "w_setCache k t' s"
  have w: "waiting ?s = waiting s" by (rule waiting_same [OF k t'(3)])
  have "\<exists>s'. ev_done e d ?s = Some s' \<and> cr_ok lb K s' \<and> settled {} (w_ev s') \<and> phase_const ?s s' \<and>
     wv_ok lb h D H0 (set (waiting s')) rn {#} s' \<and> card (dom (w_ev s')) < card (dom (w_ev ?s))"
  proof (rule sim_done)
    show "wv_ok lb h D H0 (set (waiting ?s)) rn {#} ?s" using P2(6) w by simp
    show "w_ev ?s e = Some v" "ev_state v = EV_RUNNING" "ev_kind v \<noteq> DelayEvent" "settled {e} (w_ev ?s)" using P by simp_all
    show "lb e \<le> d" "w_cur ?s \<le> d" "d + D < horizon ?s + ev_lat v" using P(9,11) d by simp_all
    show "w_ev ?s x = Some u \<Longrightarrow> x \<noteq> e \<Longrightarrow> kind_ok (length (w_cache ?s)) (length (w_rec ?s)) (ev_kind u)" for x u using cr_okD(1) [OF P(5), of x u] by simp
    show "miss_ok (w_ev ?s)" "distinct (waiting ?s)" "w_limit ?s + card (dom (w_ev ?s)) \<le> K" using cr_okD(2,4,6) [OF P(5)] w by simp_all
    show "c \<in> set (w_rec ?s) \<Longrightarrow> rec_ok lb (w_limit ?s) c" for c using cr_okD(5) [OF P(5), of c] by simp
    fix j assume j: "j < length (w_cache ?s)"
    show "\<exists>a. a + (if e \<in> wbs (w_ev ?s) j then 1 else 0) = card (wbs (w_ev ?s) j) + (if ev_kind v = MissStartEvent j then 1 else 0) \<and>
        tm_ok K (w_cur ?s) (card (dom (w_ev ?s)) - 1) a (w_cache ?s ! j)"
      using tm_plain [OF P(5), of j e v] oth [of j] j t'(1,2) by (cases "j = k") auto
  qed
  then show ?thesis unfolding sim_post_def phase_const_cache by auto
qed

lemma hit_ok:
  assumes p: "sim_pre lb h D K H0 rn Q e v s" and k: "ev_kind v = HitEvent k"
  shows "\<exists>s'. simulateHit k e (w_cur s) s = Some s' \<and> sim_post lb h D K H0 rn Q e s s'"
proof -
  note P = sim_preD [OF p] and P2 = sim_preD2 [OF p]
  have kl: "k < length (w_cache s)" using cr_okD(1) [OF P(5) P(2)] k by (simp add: kind_ok_def)
  have t: "tm_ok K (w_cur s) (card (dom (w_ev s))) (card (wbs (w_ev s) k)) (w_cache s ! k)" by (rule cr_okD(3) [OF P(5) kl])
  show ?thesis
  proof (cases "tm_active (w_cache s ! k) < tm_numMSHRs (w_cache s ! k)")
    case False
    then show ?thesis
      using sim_wait [OF P(1-4,9,10,6,5) kl False] kl unfolding sim_post_def by (auto simp: simulateHit_def Let_def)
  next
    case True
    obtain t' l where t': "tm_highPrio (w_cur s) (w_cache s ! k) = Some (t', l)" "tm_ok K (w_cur s) (card (dom (w_ev s)) - 1) (card (wbs (w_ev s) k)) t'"
        "w_cur s \<le> l" "l \<le> K" "tm_pending t' = tm_pending (w_cache s ! k)"
      using highPrio_ok [OF t P(7) P2(4,2,3)] by blast
    have n: "e \<notin> wbs (w_ev s) j" for j using P(2) k by (auto simp: wbs_def)
    let ?t' = "t'\<lparr>tm_hitLat := tm_hitLat t' + of_nat (l - w_cur s)\<rparr>"
    have "tm_ok K (w_cur s) (card (dom (w_ev s)) - 1) (card (wbs (w_ev s) k)) ?t'" using t'(2) by (auto simp: tm_ok_def)
    then have "\<exists>s'. ev_done e l (w_setCache k ?t' s) = Some s' \<and> sim_post lb h D K H0 rn Q e s s'"
      by (intro sim_done_cache [OF p kl _ _ _ _ t'(3,4)]) (use n k t'(5) in simp_all)
    then show ?thesis using t'(1) True kl by (simp add: simulateHit_def Let_def)
  qed
qed

lemma missStart_ok:
  assumes p: "sim_pre lb h D K H0 rn Q e v s" and k: "ev_kind v = MissStartEvent k"
  shows "\<exists>s'. simulateMissStart k e (w_cur s) s = Some s' \<and> sim_post lb h D K H0 rn Q e s s'"
proof -
  note P = sim_preD [OF p] and P2 = sim_preD2 [OF p]
  have kl: "k < length (w_cache s)" using cr_okD(1) [OF P(5) P(2)] k by (simp add: kind_ok_def)
  let ?t = "w_cache s ! k" and ?a = "card (wbs (w_ev s) k)"
  have t: "tm_ok K (w_cur s) (card (dom (w_ev s))) ?a ?t" by (rule cr_okD(3) [OF P(5) kl])
  show ?thesis
  proof (cases "tm_active ?t < tm_numMSHRs ?t")
    case False
    then show ?thesis
      using sim_wait [OF P(1-4,9,10,6,5) kl False] kl unfolding sim_post_def by (auto simp: simulateMissStart_def Let_def)
  next
    case True
    then have a: "?a + 1 \<le> tm_numMSHRs ?t" "tm_active ?t = ?a" "tm_pending ?t = []" using t by (auto simp: tm_ok_def)
    obtain t1 where t1: "occ_transition (?a + 1) (w_cur s) (?t\<lparr>tm_active := ?a + 1\<rparr>) = Some t1"
        "tm_ok K (w_cur s) (card (dom (w_ev s))) (?a + 1) (t1\<lparr>tm_pending := []\<rparr>)" "tm_pending t1 = []"
      using occ_ok [OF t a(1), of "tm_missLat ?t"] a(3) by auto
    then have "tm_ok K (w_cur s) (card (dom (w_ev s))) (?a + 1) t1" by (metis tcache.surjective tcache.update_convs(5))
    from highPrio_ok [OF this P(7) P2(4,2,3)] obtain t' l where
      t': "tm_highPrio (w_cur s) t1 = Some (t', l)" "tm_ok K (w_cur s) (card (dom (w_ev s)) - 1) (?a + 1) t'"
        "w_cur s \<le> l" "l \<le> K" "tm_pending t' = tm_pending ?t" using t1(3) a(3) by auto
    have n: "e \<notin> wbs (w_ev s) j" for j using P(2) k by (auto simp: wbs_def)
    let ?s = "w_setStart e (w_cur s) s"
    have p': "sim_pre lb h D K H0 rn Q e v ?s" using p by (simp add: sim_pre_def)
    have "\<exists>s'. ev_done e l (w_setCache k t' ?s) = Some s' \<and> sim_post lb h D K H0 rn Q e ?s s'"
      by (rule sim_done_cache [OF p']) (use n k kl t' in simp_all)
    then show ?thesis using t'(1) t1(1) True kl a(2) by (simp add: simulateMissStart_def Let_def sim_post_def phase_const_def)
  qed
qed

lemma missResponse_ok:
  assumes p: "sim_pre lb h D K H0 rn Q e v s" and k: "ev_kind v = MissResponseEvent k m"
  shows "\<exists>s'. simulateMissResponse k m e (w_cur s) s = Some s' \<and> sim_post lb h D K H0 rn Q e s s'"
proof -
  note P = sim_preD [OF p] and P2 = sim_preD2 [OF p]
  have kl: "k < length (w_cache s)" using cr_okD(1) [OF P(5) P(2)] k by (simp add: kind_ok_def)
  let ?t = "w_cache s ! k"
  let ?t' = "?t\<lparr>tm_missRespLat := tm_missRespLat ?t + (of_nat (w_cur s) - w_start s m)\<rparr>"
  have "tm_ok K (w_cur s) (card (dom (w_ev s)) - 1) (card (wbs (w_ev s) k)) ?t'"
    using tm_ok_fewer [OF cr_okD(3) [OF P(5) kl], of "card (dom (w_ev s)) - 1"] by (auto simp: tm_ok_def)
  moreover have "e \<notin> wbs (w_ev s) j" for j using P(2) k by (auto simp: wbs_def)
  moreover have "w_cur s \<le> K" using P2(3) by simp
  ultimately have "\<exists>s'. ev_done e (w_cur s) (w_setCache k ?t' s) = Some s' \<and> sim_post lb h D K H0 rn Q e s s'"
    by (intro sim_done_cache [OF p kl, of "card (wbs (w_ev s) k)"]) (use k in simp_all)
  then show ?thesis using kl by (simp add: simulateMissResponse_def Let_def)
qed

text \<open>When a writeback runs, the start of its miss is done, and freed: what \<open>simulateMissWriteback\<close> reads of it is the
  memory of a freed event.\<close>

lemma start_gone:
  assumes p: "sim_pre lb h D K H0 rn Q e v s" and k: "ev_kind v = MissWritebackEvent k m"
  shows "w_ev s m = None"
proof (rule ccontr)
  note P = sim_preD [OF p]
  have g: "wg_graph (w_ev s) {#}" by (rule wv_okQD(1) [OF P(1)])
  assume "w_ev s m \<noteq> None"
  then obtain w where "w_ev s m = Some w" by blast
  then have "(dep (w_ev s))\<^sup>+\<^sup>+ m e" using missD(1) [OF cr_okD(2) [OF P(5)] P(2) k] by blast
  then obtain x where "dep (w_ev s) x e" by (rule tranclp.cases) blast+
  then obtain u where u: "w_ev s x = Some u" "e \<in> set (ev_kids u)" unfolding dep_def by blast
  have "ev_state u \<noteq> EV_DONE" using P(2,3,6) u(1) unfolding settled_def by (cases "x = e") fastforce+
  then show False using graph_live(2) [OF g u(1) _ u(2) P(2)] sim_preD2(7) [OF p] by simp
qed

lemma writeback_ok:
  assumes p: "sim_pre lb h D K H0 rn Q e v s" and k: "ev_kind v = MissWritebackEvent k m"
  shows "\<exists>s'. simulateMissWriteback k m e (w_cur s) s = Some s' \<and> sim_post lb h D K H0 rn Q e s s'"
proof -
  note P = sim_preD [OF p] and P2 = sim_preD2 [OF p]
  have kl: "k < length (w_cache s)" using cr_okD(1) [OF P(5) P(2)] k by (simp add: kind_ok_def)
  let ?t = "w_cache s ! k" and ?a = "card (wbs (w_ev s) k)" and ?n = "card (dom (w_ev s))"
  have t: "tm_ok K (w_cur s) ?n ?a ?t" by (rule cr_okD(3) [OF P(5) kl])
  obtain t' l where t': "tm_tryLowPrio (w_cur s) ?t = (t', l)" "tm_ok K (w_cur s) ?n ?a t'" "tm_pending t' = tm_pending ?t" "tm_active t' = tm_active ?t"
      "l \<noteq> 0 \<longrightarrow> l = w_cur s"
    using lowPrio_ok [OF t P(7) P2(4,3)] by blast
  have in_wb: "e \<in> wbs (w_ev s) j \<longleftrightarrow> j = k" for j using P(2) k start_gone [OF p k] by (auto simp: wbs_def)
  have "finite (wbs (w_ev s) k)" by (rule finite_subset [OF _ P2(1)]) (auto simp: wbs_def)
  then have a0: "0 < ?a" using in_wb [of k] by (auto simp: card_gt_0_iff)
  then have act: "tm_active t' \<noteq> 0" using t'(2) by (simp add: tm_ok_def)
  show ?thesis
  proof (cases "l = 0")
    case True
    let ?s = "w_setCache k t' s"
    have w: "waiting ?s = waiting s" by (rule waiting_same [OF kl t'(3)])
    have cr: "cr_ok lb K ?s"
    proof (rule cr_okI)
      fix j assume "j < length (w_cache ?s)"
      then show "tm_ok K (w_cur ?s) (card (dom (w_ev ?s))) (card (wbs (w_ev ?s) j)) (w_cache ?s ! j)"
        using cr_okD(3) [OF P(5), of j] t'(2) by (cases "j = k") simp_all
    qed (use cr_okD [OF P(5)] w in simp_all)
    have ok: "wv_okQ lb h D H0 (set (waiting ?s)) rn {#} Q ?s" using P(1) w by simp
    have "\<exists>s'. ev_requeue e (w_cur ?s + 1) ?s = Some s' \<and> cr_ok lb K s' \<and> settled {} (w_ev s') \<and> phase_const ?s s' \<and> dom (w_ev s') = dom (w_ev ?s) \<and>
        wv_okQ lb h D H0 (set (waiting s')) rn {#} (add_mset (w_cur ?s + 1, e) Q) s'"
      by (rule sim_requeue [OF ok _ P(3,4) _ P(10) _ _ _ cr]) (use P P2 in simp_all)
    then show ?thesis using True kl t'(1) unfolding sim_post_def phase_const_cache by (auto simp: simulateMissWriteback_def)
  next
    case False
    have "tm_active t' - 1 \<le> tm_numMSHRs t'" using t'(2) unfolding tm_ok_def by linarith
    from occ_ok [OF t'(2) this, of "tm_missLat t' + (of_nat (w_cur s) - w_start s m)"] obtain t1 where
      t1: "occ_transition (tm_active t' - 1) (w_cur s) (t'\<lparr>tm_missLat := tm_missLat t' + (of_nat (w_cur s) - w_start s m), tm_active := tm_active t' - 1\<rparr>) = Some t1"
        "tm_ok K (w_cur s) ?n (tm_active t' - 1) (t1\<lparr>tm_pending := []\<rparr>)" "tm_pending t1 = tm_pending t'" "tm_active t1 = tm_active t' - 1" by blast
    have a1: "tm_active t' - 1 = ?a - 1" using t'(2) by (simp add: tm_ok_def)
    let ?t1 = t1
    let ?s1 = "w_setCache k ?t1 s"
    have w1: "waiting ?s1 = waiting s" by (rule waiting_same [OF kl]) (simp add: t1(3) t'(3))
    have pend: "mset (waiting s) = mset (waiting (w_setCache k (?t\<lparr>tm_pending := []\<rparr>) s)) + mset (tm_pending ?t)" by (rule waiting_remove [OF kl])
    have dist: "distinct (waiting s)" by (rule cr_okD(4) [OF P(5)])
    have sub: "set (tm_pending ?t) \<subseteq> set (waiting s)" using pend by (metis set_mset_mset mset_subset_eq_add_right set_mset_mono)
    have dp: "distinct (tm_pending ?t)" using kl dist unfolding waiting_def by (auto simp: distinct_concat_iff)
    have ne: "e \<notin> set (waiting s)" using queueD(3) [OF wv_okQD(8) [OF P(1)], of e] P(2,3) by auto
    have ok1: "wv_okQ lb h D H0 (set (waiting s)) rn {#} Q ?s1" using P(1) by simp
    have "w_cur ?s1 < w_cur s + 1" "w_cur s + 1 < horizon ?s1" using P(8) P2(5) by simp_all
    from wake_ok [OF ok1 sub dp this, of e] obtain s2 Q2 where s2: "tm_wake (w_cur s + 1) (tm_pending ?t) ?s1 = Some s2"
        "wv_okQ lb h D H0 (set (waiting s) - set (tm_pending ?t)) rn {#} Q2 s2" "s2 = ?s1\<lparr>w_ev := w_ev s2, w_pq := w_pq s2\<rparr>"
        "miss_ok (w_ev s2) = miss_ok (w_ev ?s1)" "\<forall>k. wbs (w_ev s2) k = wbs (w_ev ?s1) k" "dom (w_ev s2) = dom (w_ev ?s1)"
        "settled {e} (w_ev ?s1) \<longrightarrow> e \<notin> set (tm_pending ?t) \<longrightarrow> settled {e} (w_ev s2)" "\<forall>x. x \<notin> set (tm_pending ?t) \<longrightarrow> w_ev s2 x = w_ev ?s1 x"
        "\<forall>x u'. w_ev s2 x = Some u' \<longrightarrow> (\<exists>u. w_ev ?s1 x = Some u \<and> ev_kind u' = ev_kind u)"
      by (elim exE conjE) (rule that)
    obtain x y where s2': "s2 = ?s1\<lparr>w_ev := x, w_pq := y\<rparr>" using s2(3) by blast
    have c2: "w_cache s2 = (w_cache s)[k := ?t1]" "w_rec s2 = w_rec s" "w_limit s2 = w_limit s" "w_cur s2 = w_cur s" "horizon s2 = horizon s"
      unfolding s2' by (simp_all add: horizon_def)
    have pc: "phase_const s s2" unfolding s2' by (simp add: phase_const_def)
    let ?t3 = "(w_cache s2 ! k)\<lparr>tm_pending := []\<rparr>"
    let ?s3 = "w_setCache k ?t3 s2"
    have w3: "waiting ?s3 = waiting (w_setCache k (?t\<lparr>tm_pending := []\<rparr>) s)"
      unfolding waiting_def using kl c2 t1(3) t'(3) by (simp add: map_update)
    then have ws: "set (waiting ?s3) = set (waiting s) - set (tm_pending ?t)" and wd: "distinct (waiting ?s3)"
    proof -
      have "distinct (waiting ?s3 @ tm_pending ?t)" using dist pend w3 by (metis mset_append mset_eq_imp_distinct_iff)
      moreover have "set (waiting s) = set (waiting ?s3) \<union> set (tm_pending ?t)" using pend w3 by (metis set_mset_mset set_mset_union)
      ultimately show "set (waiting ?s3) = set (waiting s) - set (tm_pending ?t)" "distinct (waiting ?s3)" by auto
    qed
    have ep: "e \<notin> set (tm_pending ?t)" using ne sub by blast
    have "\<exists>s'. ev_done e (w_cur s) ?s3 = Some s' \<and> cr_ok lb K s' \<and> settled {} (w_ev s') \<and> phase_const ?s3 s' \<and>
       wv_ok lb h D H0 (set (waiting s')) rn {#} s' \<and> card (dom (w_ev s')) < card (dom (w_ev ?s3))"
    proof (rule sim_done)
      show "wv_ok lb h D H0 (set (waiting ?s3)) rn {#} ?s3" using s2(2) ws by (auto simp: wv_ok_def)
      show "w_ev ?s3 e = Some v" "ev_state v = EV_RUNNING" "ev_kind v \<noteq> DelayEvent" using P s2(8) ep by simp_all
      show "settled {e} (w_ev ?s3)" using s2(7) P(6) ep by simp
      show "lb e \<le> w_cur s" "w_cur ?s3 \<le> w_cur s" "w_cur s + D < horizon ?s3 + ev_lat v" using P(9,11) P2(3) c2 by simp_all
      show "w_ev ?s3 z = Some u \<Longrightarrow> z \<noteq> e \<Longrightarrow> kind_ok (length (w_cache ?s3)) (length (w_rec ?s3)) (ev_kind u)" for z u
        using s2(9) cr_okD(1) [OF P(5), of z] c2 by fastforce
      show "miss_ok (w_ev ?s3)" "distinct (waiting ?s3)" using s2(4) cr_okD(2) [OF P(5)] wd by simp_all
      show "w_limit ?s3 + card (dom (w_ev ?s3)) \<le> K" using cr_okD(6) [OF P(5)] c2 s2(6) by simp
      show "c \<in> set (w_rec ?s3) \<Longrightarrow> rec_ok lb (w_limit ?s3) c" for c using cr_okD(5) [OF P(5), of c] c2 by simp
      fix j assume j: "j < length (w_cache ?s3)"
      have wb: "wbs (w_ev ?s3) j = wbs (w_ev s) j" using s2(5) by simp
      have d: "card (dom (w_ev ?s3)) = ?n" using s2(6) by simp
      show "\<exists>a. a + (if e \<in> wbs (w_ev ?s3) j then 1 else 0) = card (wbs (w_ev ?s3) j) + (if ev_kind v = MissStartEvent j then 1 else 0) \<and>
          tm_ok K (w_cur ?s3) (card (dom (w_ev ?s3)) - 1) a (w_cache ?s3 ! j)"
      proof (cases "j = k")
        case True
        have "tm_ok K (w_cur s) (?n - 1) (?a - 1) ?t3" using tm_ok_fewer [OF t1(2), of "?n - 1"] a1 kl c2 by simp
        then show ?thesis unfolding wb d using True a0 in_wb k kl c2 by (intro exI [of _ "?a - 1"]) simp
      next
        case F: False
        then have "tm_ok K (w_cur s) (?n - 1) (card (wbs (w_ev s) j)) (w_cache s ! j)"
          using tm_ok_fewer [OF cr_okD(3) [OF P(5), of j]] j c2 by simp
        then show ?thesis unfolding wb d using F in_wb k c2 by simp
      qed
    qed
    then obtain s' where s': "ev_done e (w_cur s) ?s3 = Some s'" "cr_ok lb K s'" "settled {} (w_ev s')" "phase_const ?s3 s'"
      "wv_ok lb h D H0 (set (waiting s')) rn {#} s'" "card (dom (w_ev s')) < card (dom (w_ev ?s3))" by blast
    have "phase_const s s'" using pc s'(4) unfolding phase_const_def by auto
    then have "sim_post lb h D K H0 rn Q e s s'" using s' s2(6) unfolding sim_post_def by simp
    moreover have "l = w_cur s" "tm_pending t1 = tm_pending ?t" using t'(3,5) t1(3) False by simp_all
    then have "simulateMissWriteback k m e (w_cur s) s = Some s'"
      using kl t'(1) t1(1) act s2(1) s'(1) P(7) by (simp add: simulateMissWriteback_def Let_def)
    ultimately show ?thesis by blast
  qed
qed

lemma repl_ok:
  assumes p: "sim_pre lb h D K H0 rn Q e v s" and k: "ev_kind v = ReplAccessEvent k n"
  shows "\<exists>s'. simulateReplAccess k n e (w_cur s) s = Some s' \<and> sim_post lb h D K H0 rn Q e s s'"
proof -
  note P = sim_preD [OF p] and P2 = sim_preD2 [OF p]
  have kl: "k < length (w_cache s)" "0 < n" using cr_okD(1) [OF P(5) P(2)] k by (simp_all add: kind_ok_def)
  let ?t = "w_cache s ! k"
  obtain t' l where t': "tm_tryLowPrio (w_cur s) ?t = (t', l)" "tm_ok K (w_cur s) (card (dom (w_ev s))) (card (wbs (w_ev s) k)) t'"
      "tm_pending t' = tm_pending ?t" using lowPrio_ok [OF cr_okD(3) [OF P(5) kl(1)] P(7) P2(4,3)] by blast
  let ?s1 = "w_setCache k t' s"
  have w1: "waiting ?s1 = waiting s" by (rule waiting_same [OF kl(1) t'(3)])
  have cr1: "cr_ok lb K ?s1"
  proof (rule cr_okI)
    fix j assume "j < length (w_cache ?s1)"
    then show "tm_ok K (w_cur ?s1) (card (dom (w_ev ?s1))) (card (wbs (w_ev ?s1) j)) (w_cache ?s1 ! j)"
      using cr_okD(3) [OF P(5), of j] t'(2) by (cases "j = k") simp_all
  qed (use cr_okD [OF P(5)] w1 in simp_all)
  have ok1: "wv_okQ lb h D H0 (set (waiting ?s1)) rn {#} Q ?s1" using P(1) w1 by simp
  show ?thesis
  proof (cases "l = 0")
    case True
    have "\<exists>s'. ev_requeue e (w_cur ?s1 + 1) ?s1 = Some s' \<and> cr_ok lb K s' \<and> settled {} (w_ev s') \<and> phase_const ?s1 s' \<and> dom (w_ev s') = dom (w_ev ?s1) \<and>
        wv_okQ lb h D H0 (set (waiting s')) rn {#} (add_mset (w_cur ?s1 + 1, e) Q) s'"
      by (rule sim_requeue [OF ok1 _ P(3,4) _ P(10) _ _ _ cr1]) (use P P2 in simp_all)
    then show ?thesis using True kl t'(1) unfolding sim_post_def phase_const_cache by (auto simp: simulateReplAccess_def Let_def)
  next
    case False
    let ?v = "v\<lparr>ev_kind := ReplAccessEvent k (n - 1)\<rparr>"
    let ?s2 = "w_put e ?v ?s1"
    have lk: "ev_like ?v v" "miss_like ?v v" using k by (simp_all add: ev_like_def ev_same_def ev_kids_def ev_lat_def miss_like_def)
    note M = miss_put [of "w_ev s", OF P(2) lk(2)]
    have ok2: "wv_okQ lb h D H0 (set (waiting ?s2)) rn {#} Q ?s2"
      using state_okQ(1) [OF ok1, of e v ?v] P(2,3) P2(7) lk(1) by (simp add: waiting_def)
    have st2: "settled {e} (w_ev ?s2)" using P(6) by (auto simp: settled_def)
    have w2: "waiting ?s2 = waiting s" using w1 by (simp add: waiting_def)
    have pc: "phase_const ?s2 = phase_const s" by (simp add: phase_const_def fun_eq_iff)
    show ?thesis
    proof (cases "n = 1")
      case True
      have "\<exists>s'. ev_done e (w_cur s) ?s2 = Some s' \<and> cr_ok lb K s' \<and> settled {} (w_ev s') \<and> phase_const ?s2 s' \<and>
         wv_ok lb h D H0 (set (waiting s')) rn {#} s' \<and> card (dom (w_ev s')) < card (dom (w_ev ?s2))"
      proof (rule sim_done)
        show "wv_ok lb h D H0 (set (waiting ?s2)) rn {#} ?s2" using ok2 unfolding wv_ok_def by blast
        show "w_ev ?s2 e = Some ?v" "ev_state ?v = EV_RUNNING" "ev_kind ?v \<noteq> DelayEvent" "settled {e} (w_ev ?s2)" using P st2 by simp_all
        show "lb e \<le> w_cur s" "w_cur ?s2 \<le> w_cur s" "w_cur s + D < horizon ?s2 + ev_lat ?v" using P(9,11) P2(3) by simp_all
        show "w_ev ?s2 x = Some u \<Longrightarrow> x \<noteq> e \<Longrightarrow> kind_ok (length (w_cache ?s2)) (length (w_rec ?s2)) (ev_kind u)" for x u using cr_okD(1) [OF P(5), of x u] by simp
        show "miss_ok (w_ev ?s2)" "distinct (waiting ?s2)" "w_limit ?s2 + card (dom (w_ev ?s2)) \<le> K"
          using cr_okD(2,4,6) [OF P(5)] w2 M(1,3) by simp_all
        show "c \<in> set (w_rec ?s2) \<Longrightarrow> rec_ok lb (w_limit ?s2) c" for c using cr_okD(5) [OF P(5), of c] by simp
        fix j assume j: "j < length (w_cache ?s2)"
        have wb: "wbs (w_ev ?s2) j = wbs (w_ev s) j" "dom (w_ev ?s2) = dom (w_ev s)" using M by simp_all
        have n: "e \<notin> wbs (w_ev s) j" using P(2) k by (auto simp: wbs_def)
        have "tm_ok K (w_cur ?s2) (card (dom (w_ev s)) - 1) (card (wbs (w_ev s) j)) (w_cache ?s2 ! j)"
          using tm_ok_fewer [OF cr_okD(3) [OF cr1, of j], of "card (dom (w_ev s)) - 1"] j by simp
        then show "\<exists>a. a + (if e \<in> wbs (w_ev ?s2) j then 1 else 0) = card (wbs (w_ev ?s2) j) + (if ev_kind ?v = MissStartEvent j then 1 else 0) \<and>
            tm_ok K (w_cur ?s2) (card (dom (w_ev ?s2)) - 1) a (w_cache ?s2 ! j)"
          unfolding wb using n by simp
      qed
      then have "\<exists>s'. ev_done e (w_cur s) ?s2 = Some s' \<and> sim_post lb h D K H0 rn Q e s s'"
        unfolding sim_post_def pc using M(3) by auto
      then show ?thesis using True False kl t'(1) P(2) by (simp add: simulateReplAccess_def Let_def)
    next
      case n1: False
      have cr2: "cr_ok lb K ?s2"
      proof (rule cr_okI)
        show "w_ev ?s2 x = Some u \<Longrightarrow> kind_ok (length (w_cache ?s2)) (length (w_rec ?s2)) (ev_kind u)" for x u
          using cr_okD(1) [OF P(5), of x u] kl n1 by (cases "x = e") (auto simp: kind_ok_def)
        show "j < length (w_cache ?s2) \<Longrightarrow> tm_ok K (w_cur ?s2) (card (dom (w_ev ?s2))) (card (wbs (w_ev ?s2) j)) (w_cache ?s2 ! j)" for j
          using cr_okD(3) [OF cr1, of j] M(2,3) by simp
      qed (use cr_okD [OF P(5)] w2 M in simp_all)
      have "\<exists>s'. ev_requeue e (w_cur ?s2 + 1) ?s2 = Some s' \<and> cr_ok lb K s' \<and> settled {} (w_ev s') \<and> phase_const ?s2 s' \<and> dom (w_ev s') = dom (w_ev ?s2) \<and>
          wv_okQ lb h D H0 (set (waiting s')) rn {#} (add_mset (w_cur ?s2 + 1, e) Q) s'"
        by (rule sim_requeue [OF ok2 _ _ _ _ P(10) _ _ st2 cr2, where v = ?v]) (use P P2 in simp_all)
      then have "\<exists>s'. ev_requeue e (w_cur s + 1) ?s2 = Some s' \<and> sim_post lb h D K H0 rn Q e s s'"
        unfolding sim_post_def pc using M(3) by auto
      then show ?thesis using n1 False kl t'(1) P(2) by (simp add: simulateReplAccess_def Let_def)
    qed
  qed
qed

lemma sim_pre_rec:
  assumes p: "sim_pre lb h D K H0 rn Q e v s" and r: "r < length (w_rec s)" and c: "rec_ok lb (w_limit s) c"
  shows "sim_pre lb h D K H0 rn Q e v (w_setRec r c s)"
proof -
  note P = sim_preD [OF p]
  have "cr_ok lb K (w_setRec r c s)"
    by (rule cr_okI) (use cr_okD [OF P(5)] c in \<open>auto dest!: set_update_subset_insert [THEN subsetD]\<close>)
  then show ?thesis using P unfolding sim_pre_def by simp
qed

lemma phase_const_rec: "phase_const (w_setRec k t s) s' = phase_const s s'"
  by (simp add: phase_const_def)

lemma sim_post_rec: "sim_post lb h D K H0 rn Q e (w_setRec k t s) s' = sim_post lb h D K H0 rn Q e s s'"
  by (simp add: sim_post_def phase_const_rec)

lemma core_ok:
  assumes p: "sim_pre lb h D K H0 rn Q e v s" and k: "ev_kind v = TimingCoreEvent orig r"
  shows "\<exists>s'. Option.bind (reportEventSimulated r e orig (w_cur s) s) (ev_done e (w_cur s)) = Some s' \<and> sim_post lb h D K H0 rn Q e s s'"
proof -
  note P = sim_preD [OF p]
  have r: "r < length (w_rec s)" using cr_okD(1) [OF P(5) P(2)] k by (simp add: kind_ok_def)
  let ?c = "w_rec s ! r"
  have rc: "rec_ok lb (w_limit s) ?c" using cr_okD(5) [OF P(5)] r by simp
  have dr: "cr_state ?c = DRAINING" if "cr_prev ?c = Some e"
    using rc that P(8,9) by (cases "cr_state ?c") (auto simp: rec_ok_def)
  obtain c where c: "reportEventSimulated r e orig (w_cur s) s = Some (w_setRec r c s)" "rec_ok lb (w_limit s) c"
    using r dr rc by (cases "cr_prev ?c = Some e") (auto simp: reportEventSimulated_def Let_def rec_ok_def)
  have "ev_lat v = 0" using k by (simp add: ev_lat_def)
  then have "\<exists>s'. ev_done e (w_cur s) (w_setRec r c s) = Some s' \<and> sim_post lb h D K H0 rn Q e (w_setRec r c s) s'"
    by (intro sim_plain [OF sim_pre_rec [OF p r c(2)]]) (use k in simp_all)
  then show ?thesis using c(1) by (simp add: sim_post_rec)
qed

lemma issue_ok:
  assumes p: "sim_pre lb h D K H0 rn Q e v s" and k: "ev_kind v = OOOIssueEvent zll r"
  shows "\<exists>s'. Option.bind (reportIssueEventSimulated r e zll (w_cur s) s) (ev_done e (w_cur s)) = Some s' \<and> sim_post lb h D K H0 rn Q e s s'"
proof -
  note P = sim_preD [OF p]
  have r: "r < length (w_rec s)" using cr_okD(1) [OF P(5) P(2)] k by (simp add: kind_ok_def)
  have rc: "rec_ok lb (w_limit s) (w_rec s ! r)" using cr_okD(5) [OF P(5)] r by simp
  obtain c where c: "reportIssueEventSimulated r e zll (w_cur s) s = Some (w_setRec r c s)" "rec_ok lb (w_limit s) c"
    using r rc by (cases "cr_prev (w_rec s ! r) = Some e") (auto simp: reportIssueEventSimulated_def Let_def rec_ok_def)
  have "ev_lat v = 0" using k by (simp add: ev_lat_def)
  then have "\<exists>s'. ev_done e (w_cur s) (w_setRec r c s) = Some s' \<and> sim_post lb h D K H0 rn Q e (w_setRec r c s) s'"
    by (intro sim_plain [OF sim_pre_rec [OF p r c(2)]]) (use k in simp_all)
  then show ?thesis using c(1) by (simp add: sim_post_rec)
qed

lemma simulate_ok:
  assumes p: "sim_pre lb h D K H0 rn Q e v s"
  shows "\<exists>s'. ev_simulate e (w_cur s) s = Some s' \<and> sim_post lb h D K H0 rn Q e s s'"
proof -
  note P = sim_preD [OF p]
  have eq: "ev_simulate e (w_cur s) s =
      (case ev_kind v of
         DelayEvent \<Rightarrow> None
       | HitEvent k \<Rightarrow> simulateHit k e (w_cur s) s
       | MissStartEvent k \<Rightarrow> simulateMissStart k e (w_cur s) s
       | MissResponseEvent k m \<Rightarrow> simulateMissResponse k m e (w_cur s) s
       | MissWritebackEvent k m \<Rightarrow> simulateMissWriteback k m e (w_cur s) s
       | ReplAccessEvent k n \<Rightarrow> simulateReplAccess k n e (w_cur s) s
       | WeaveMemAccEvent lat \<Rightarrow> ev_done e (w_cur s + lat) s
       | TimingCoreEvent orig r \<Rightarrow> Option.bind (reportEventSimulated r e orig (w_cur s) s) (ev_done e (w_cur s))
       | OOOIssueEvent zll r \<Rightarrow> Option.bind (reportIssueEventSimulated r e zll (w_cur s) s) (ev_done e (w_cur s))
       | OOODispatchEvent zll \<Rightarrow> ev_done e (w_cur s) s
       | OOORespEvent r \<Rightarrow> ev_done e (w_cur s) s)"
    unfolding ev_simulate_def P(2) by simp
  note pl = sim_plain [OF p, of "w_cur s + ev_lat v"]
  show ?thesis
  proof (cases "ev_kind v")
    case DelayEvent
    then show ?thesis using P(4) by simp
  next
    case (HitEvent k)
    then show ?thesis unfolding eq using hit_ok [OF p HitEvent] by simp
  next
    case (MissStartEvent k)
    then show ?thesis unfolding eq using missStart_ok [OF p MissStartEvent] by simp
  next
    case (MissResponseEvent k m)
    then show ?thesis unfolding eq using missResponse_ok [OF p MissResponseEvent] by simp
  next
    case (MissWritebackEvent k m)
    then show ?thesis unfolding eq using writeback_ok [OF p MissWritebackEvent] by simp
  next
    case (ReplAccessEvent k n)
    then show ?thesis unfolding eq using repl_ok [OF p ReplAccessEvent] by simp
  next
    case (WeaveMemAccEvent lat)
    then show ?thesis unfolding eq using pl by (simp add: ev_lat_def)
  next
    case (TimingCoreEvent orig r)
    then show ?thesis unfolding eq using core_ok [OF p TimingCoreEvent] by simp
  next
    case (OOOIssueEvent zll r)
    then show ?thesis unfolding eq using issue_ok [OF p OOOIssueEvent] by simp
  next
    case (OOODispatchEvent zll)
    then show ?thesis unfolding eq using pl by (simp add: ev_lat_def)
  next
    case (OOORespEvent r)
    then show ?thesis unfolding eq using pl by (simp add: ev_lat_def)
  qed
qed

end
