(* ===== verification/Weave_Phase.thy ===== *)
theory Weave_Phase
  imports Weave_Sim
begin

text \<open>
  The weave phase as a whole: the loop of \<open>simulatePhaseThread\<close> over a domain.
\<close>

section \<open>The loop's invariant\<close>

lemma okQ_raise:
  assumes ok: "wv_okQ lb h D H0 hs rn {#} Q s" and m: "w_cur s \<le> m" "\<And>c e. (c, e) \<in># Q \<Longrightarrow> m \<le> c"
  shows "wv_okQ lb h D H0 hs rn {#} Q (s\<lparr>w_cur := m, w_log := l\<rparr>)"
proof -
  note D = wv_okQD [OF ok]
  have "wg_queue lb H0 (w_fin s) hs rn m (w_ev s) Q"
  proof (rule queueI)
    show "(c, e) \<in># Q \<Longrightarrow> m \<le> c \<and> lb e \<le> c" for c e using queueD(1) [OF D(8), of c e] m(2) by simp
    show "e \<in> hs \<Longrightarrow> lb e \<le> m" for e using queueD(4) [OF D(8), of e] m(1) by simp
  qed (fact queueD(2) [OF D(8)], fact queueD(3) [OF D(8)], fact queueD(5) [OF D(8)], fact queueD(6) [OF D(8)])
  then show ?thesis using D m(1) by (intro wv_okQI) (simp_all add: horizon_def)
qed

lemma cr_raise:
  assumes cr: "cr_ok lb K s" and m: "w_cur s \<le> m"
  shows "cr_ok lb K (s\<lparr>w_pq := q, w_cur := m, w_log := l\<rparr>)"
proof (rule cr_okI)
  show "k < length (w_cache (s\<lparr>w_pq := q, w_cur := m, w_log := l\<rparr>)) \<Longrightarrow>
      tm_ok K (w_cur (s\<lparr>w_pq := q, w_cur := m, w_log := l\<rparr>)) (card (dom (w_ev (s\<lparr>w_pq := q, w_cur := m, w_log := l\<rparr>))))
        (card (wbs (w_ev (s\<lparr>w_pq := q, w_cur := m, w_log := l\<rparr>)) k)) (w_cache (s\<lparr>w_pq := q, w_cur := m, w_log := l\<rparr>) ! k)" for k
    using cr_okD(3) [OF cr, of k] m by (auto simp: tm_ok_def)
qed (use cr_okD [OF cr] in \<open>simp_all add: waiting_def\<close>)

lemma cr_put:
  assumes cr: "cr_ok lb K s" and e: "w_ev s e = Some v"
  shows "cr_ok lb K (w_put e (v\<lparr>ev_state := st\<rparr>) s)"
proof -
  have l: "miss_like (v\<lparr>ev_state := st\<rparr>) v" by (simp add: miss_like_def ev_kids_def)
  note M = miss_put [of "w_ev s", OF e l]
  show ?thesis
  proof (rule cr_okI)
    show "w_ev (w_put e (v\<lparr>ev_state := st\<rparr>) s) x = Some u \<Longrightarrow>
        kind_ok (length (w_cache (w_put e (v\<lparr>ev_state := st\<rparr>) s))) (length (w_rec (w_put e (v\<lparr>ev_state := st\<rparr>) s))) (ev_kind u)" for x u
      using cr_okD(1) [OF cr, of x u] cr_okD(1) [OF cr e] by (cases "x = e") auto
  qed (use cr_okD [OF cr] M in \<open>simp_all add: waiting_def\<close>)
qed

text \<open>The first cycle at which an event was simulated.\<close>

definition first_run :: "(nat \<times> nat) list \<Rightarrow> nat \<Rightarrow> nat option" where
  "first_run log = map_of (rev log)"

definition low :: "weave \<Rightarrow> weave" where
  "low s = s\<lparr>w_cur := min (w_cur s) (w_limit s)\<rparr>"

definition log_ok :: "(nat \<Rightarrow> tev option) \<Rightarrow> (nat \<times> nat) list \<Rightarrow> (nat \<times> nat) list \<Rightarrow> nat \<Rightarrow> nat \<Rightarrow> bool" where
  "log_ok H0 log fin limit cur \<longleftrightarrow>
     (\<forall>e c v. first_run log e = Some c \<longrightarrow> H0 e = Some v \<longrightarrow> ev_numParents v \<noteq> 0 \<longrightarrow>
        parents_in H0 (fst ` set fin) e \<and> c = ready H0 fin e + ev_pre v) \<and>
     sorted_wrt (\<ge>) (map snd log) \<and> (\<forall>p\<in>set log. snd p \<le> cur \<and> snd p < limit)"

definition phase_inv :: "(nat \<Rightarrow> nat) \<Rightarrow> (nat \<Rightarrow> nat) \<Rightarrow> nat \<Rightarrow> nat \<Rightarrow> (nat \<Rightarrow> tev option) \<Rightarrow> nat set \<Rightarrow> (nat \<times> nat) multiset \<Rightarrow> weave \<Rightarrow> bool" where
  "phase_inv lb h D K H0 hs0 Q s \<longleftrightarrow>
     (\<forall>p\<in>#Q. w_cur s \<le> fst p) \<and> wv_okQ lb h D H0 (set (waiting s)) (fst ` set (w_log s) \<union> hs0) {#} Q (low s) \<and> cr_ok lb K (low s) \<and>
     settled {} (w_ev s) \<and> (\<forall>e. 0 < lb e) \<and> K + D < horizon s \<and> horizon s \<le> 2 ^ 64 \<and>
     (\<forall>e\<in>hs0. \<forall>v. H0 e = Some v \<longrightarrow> ev_numParents v = 0) \<and> log_ok H0 (w_log s) (w_fin s) (w_limit s) (w_cur (low s))"

lemma phase_invD:
  assumes "phase_inv lb h D K H0 hs0 Q s"
  shows "(c, e) \<in># Q \<Longrightarrow> w_cur s \<le> c" and "wv_okQ lb h D H0 (set (waiting s)) (fst ` set (w_log s) \<union> hs0) {#} Q (low s)" and "cr_ok lb K (low s)"
    and "settled {} (w_ev s)" and "0 < lb e" and "K + D < horizon s" and "horizon s \<le> 2 ^ 64"
    and "e \<in> hs0 \<Longrightarrow> H0 e = Some v \<Longrightarrow> ev_numParents v = 0" and "log_ok H0 (w_log s) (w_fin s) (w_limit s) (w_cur (low s))"
  using assms unfolding phase_inv_def by fastforce+

lemma low_simps [simp]:
  "w_ev (low s) = w_ev s" "w_pq (low s) = w_pq s" "w_limit (low s) = w_limit s" "w_cache (low s) = w_cache s" "w_rec (low s) = w_rec s"
  "w_fin (low s) = w_fin s" "w_log (low s) = w_log s" "waiting (low s) = waiting s" "horizon (low s) = horizon s" "w_cur (low s) = min (w_cur s) (w_limit s)"
  by (simp_all add: low_def waiting_def horizon_def)

lemma ready_append:
  "parents_in H0 (fst ` set fin) x \<Longrightarrow> distinct (map fst (ys @ fin)) \<Longrightarrow> ready H0 (ys @ fin) x = ready H0 fin x \<and> parents_in H0 (fst ` set (ys @ fin)) x"
proof (induction ys)
  case (Cons y ys)
  then have IH: "ready H0 (ys @ fin) x = ready H0 fin x" "parents_in H0 (fst ` set (ys @ fin)) x" by simp_all
  have "fst y \<notin> fst ` set (ys @ fin)" using Cons.prems(2) by auto
  then have "ready H0 (y # ys @ fin) x = ready H0 (ys @ fin) x" using ready_stable [OF IH(2), of "fst y" "snd y"] by simp
  then show ?case using IH by (auto simp: parents_in_def)
qed simp

lemma log_ok_step:
  assumes l: "log_ok H0 log fin limit cur" and d: "distinct (map fst (ys @ fin))" and c: "cur \<le> c" "c \<le> cur'" "c < limit"
    and new: "\<And>v. e \<notin> fst ` set log \<Longrightarrow> H0 e = Some v \<Longrightarrow> ev_numParents v \<noteq> 0 \<Longrightarrow> parents_in H0 (fst ` set fin) e \<and> c = ready H0 fin e + ev_pre v"
  shows "log_ok H0 ((e, c) # log) (ys @ fin) limit cur'"
proof -
  have "parents_in H0 (fst ` set (ys @ fin)) x \<and> k = ready H0 (ys @ fin) x + ev_pre v"
    if x: "first_run ((e, c) # log) x = Some k" "H0 x = Some v" "ev_numParents v \<noteq> 0" for x k v
  proof -
    have "parents_in H0 (fst ` set fin) x \<and> k = ready H0 fin x + ev_pre v"
    proof (cases "first_run log x")
      case None
      then have "x = e" "k = c" using x(1) by (auto simp: first_run_def map_add_def split: option.splits if_splits)
      moreover have "x \<notin> fst ` set log" using None by (simp add: first_run_def map_of_eq_None_iff)
      ultimately show ?thesis using new x(2,3) by simp
    next
      case (Some k')
      then have "k' = k" using x(1) by (simp add: first_run_def map_add_def)
      then show ?thesis using l Some x(2,3) unfolding log_ok_def by blast
    qed
    then show ?thesis using ready_append [of H0 fin x ys] d by simp
  qed
  then show ?thesis using l c unfolding log_ok_def by fastforce
qed

section \<open>A turn of the loop\<close>

text \<open>An event runs: it is taken from the queue, or waits for a cache, or is queued for the next cycle.\<close>

lemma run_ok:
  assumes inv: "phase_inv lb h D K H0 hs0 Q s" and low: "low s = s" and ne: "Q \<noteq> {#}" and lim: "\<forall>e c q. pq_dequeue 1024 (w_pq s) = Some (e, c, q) \<longrightarrow> c < w_limit s"
  shows "\<exists>e c q s1. pq_dequeue 1024 (w_pq s) = Some (e, c, q) \<and> (c, e) \<in># Q \<and> w_cur s \<le> c \<and> c < w_limit s \<and> e \<in> dom (w_ev s) \<and>
    ev_run e c (s\<lparr>w_pq := q, w_cur := c\<rparr>) = Some s1 \<and>
    sim_post lb h D K H0 (insert e (fst ` set (w_log s) \<union> hs0)) (Q - {#(c, e)#}) e (s\<lparr>w_pq := q, w_cur := c\<rparr>) s1 \<and>
    (\<forall>v. e \<notin> fst ` set (w_log s) \<longrightarrow> H0 e = Some v \<longrightarrow> ev_numParents v \<noteq> 0 \<longrightarrow>
       parents_in H0 (fst ` set (w_fin s)) e \<and> c = ready H0 (w_fin s) e + ev_pre v)"
proof -
  note I = phase_invD [OF inv]
  note ok = I(2) [unfolded low] and cr = I(3) [unfolded low]
  let ?rn = "fst ` set (w_log s) \<union> hs0"
  obtain e c q v where d: "pq_dequeue 1024 (w_pq s) = Some (e, c, q)" "(c, e) \<in># Q" "w_cur s \<le> c" "lb e \<le> c" "w_ev s e = Some v" "ev_state v = EV_QUEUED"
      "ev_numParents v = 0" "ev_kind v \<noteq> DelayEvent \<longrightarrow> ev_minStart v \<le> c"
      "wv_okQ lb h D H0 (set (waiting s)) (insert e ?rn) {#} (Q - {#(c, e)#}) (w_put e (v\<lparr>ev_state := EV_RUNNING\<rparr>) (s\<lparr>w_pq := q, w_cur := c\<rparr>))"
    using dequeue_ok [OF ok ne] by blast
  let ?t = "s\<lparr>w_pq := q, w_cur := c\<rparr>" and ?v = "v\<lparr>ev_state := EV_RUNNING\<rparr>"
  let ?S = "w_put e ?v ?t"
  have c: "c < w_limit s" using lim d(1) by blast
  have st: "ev_kind v \<noteq> DelayEvent" using I(4) d(5,6) by (fastforce simp: settled_def)
  have w: "waiting ?S = waiting s" by (simp add: waiting_def)
  have "cr_ok lb K (s\<lparr>w_pq := q, w_cur := c, w_log := w_log s\<rparr>)" by (rule cr_raise [OF cr d(3)])
  then have "cr_ok lb K ?t" by simp
  then have crS: "cr_ok lb K ?S" by (rule cr_put) (simp add: d(5))
  have "sim_pre lb h D K H0 (insert e ?rn) (Q - {#(c, e)#}) e ?v ?S"
    using d(9) w crS c st d(4) I(4) I(5) [of e] I(6,7) unfolding sim_pre_def by (auto simp: settled_def horizon_def)
  from simulate_ok [OF this] obtain s1 where s1: "ev_simulate e c ?S = Some s1" "sim_post lb h D K H0 (insert e ?rn) (Q - {#(c, e)#}) e ?S s1" by auto
  have "ev_run e c ?t = Some s1" using d st s1(1) by (simp add: ev_run_def)
  moreover have "dom (w_ev ?S) = dom (w_ev ?t)" using d(5) by auto
  then have "sim_post lb h D K H0 (insert e ?rn) (Q - {#(c, e)#}) e ?t s1" using s1(2) unfolding sim_post_def phase_const_def by simp
  moreover have "parents_in H0 (fst ` set (w_fin s)) e \<and> c = ready H0 (w_fin s) e + ev_pre v0"
    if n: "e \<notin> fst ` set (w_log s)" "H0 e = Some v0" "ev_numParents v0 \<noteq> 0" for v0
  proof -
    have "e \<notin> hs0" using I(8) n(2,3) by auto
    then have "c = ready H0 (w_fin s) e + ev_pre v0" using queueD(6) [OF wv_okQD(8) [OF ok] d(2)] n by simp
    moreover have "parents_in H0 (fst ` set (w_fin s)) e"
      by (rule parents_fin [OF wv_okQD(1) [OF ok] wv_okQD(3) [OF ok]]) (use n d(5,7) in auto)
    ultimately show ?thesis by simp
  qed
  ultimately show ?thesis using d(1-3,5) c by blast
qed

definition work :: "nat \<Rightarrow> (nat \<times> nat) multiset \<Rightarrow> nat" where
  "work limit Q = (\<Sum>p\<in>#Q. limit - fst p)"

lemma work_less:
  assumes "(c, e) \<in># Q" and "c < limit"
  shows "work limit (Q - {#(c, e)#}) < work limit Q" and "work limit (add_mset (c + 1, e) (Q - {#(c, e)#})) < work limit Q"
proof -
  obtain Q' where Q: "Q = add_mset (c, e) Q'" using assms(1) by (meson multi_member_split)
  show "work limit (Q - {#(c, e)#}) < work limit Q" "work limit (add_mset (c + 1, e) (Q - {#(c, e)#})) < work limit Q"
    using assms(2) unfolding Q by (simp_all add: work_def)
qed

lemma min_mem:
  fixes Q :: "(nat \<times> nat) multiset"
  assumes "Q \<noteq> {#}"
  shows "\<exists>x. (Min (fst ` set_mset Q), x) \<in># Q"
proof -
  have "Min (fst ` set_mset Q) \<in> fst ` set_mset Q" using assms by simp
  then show ?thesis by force
qed

lemma first_ok:
  assumes ok: "wv_okQ lb h D H0 hs rn {#} Q s"
  shows "(if pq_size (w_pq s) \<noteq> 0 then pq_firstCycle 1024 (w_pq s) else Some m) = Some (if Q = {#} then m else Min (fst ` set_mset Q))"
    and "pq_size (w_pq s) = size Q"
proof -
  note r = wv_okQD(6) [OF ok]
  show sz: "pq_size (w_pq s) = size Q" using r by (simp add: pq_rep_def pq_size_def)
  show "(if pq_size (w_pq s) \<noteq> 0 then pq_firstCycle 1024 (w_pq s) else Some m) = Some (if Q = {#} then m else Min (fst ` set_mset Q))"
  proof (cases "Q = {#}")
    case False
    then obtain c where c: "pq_firstCycle 1024 (w_pq s) = Some c" "\<exists>x. (c, x) \<in># Q" "\<forall>p\<in>#Q. c \<le> fst p" using pq_firstCycle_least [OF r] by blast
    have "Min (fst ` set_mset Q) = c" by (rule Min_eqI) (use c(2,3) in force)+
    then show ?thesis using False c(1) sz by simp
  qed (simp add: sz)
qed

lemma cs_step_ok:
  assumes inv: "phase_inv lb h D K H0 hs0 Q s" and ne: "Q \<noteq> {#}" and lim: "Min (fst ` set_mset Q) < w_limit s"
  shows "\<exists>s' Q'. cs_step s = Some s' \<and> phase_inv lb h D K H0 hs0 Q' s' \<and> w_limit s' = w_limit s \<and> (\<exists>xs. w_log s' = xs @ w_log s) \<and>
    (card (dom (w_ev s')) < card (dom (w_ev s)) \<or> dom (w_ev s') = dom (w_ev s) \<and> work (w_limit s) Q' < work (w_limit s) Q)"
proof -
  note I = phase_invD [OF inv]
  let ?m = "Min (fst ` set_mset Q)"
  have m: "?m \<in> fst ` set_mset Q" "\<And>c e. (c, e) \<in># Q \<Longrightarrow> ?m \<le> c" using ne by (simp, simp add: Min_le rev_image_eqI)
  then have "w_cur s < w_limit s" using I(1) lim by fastforce
  then have low: "low s = s" by (simp add: low_def)
  have lm: "\<forall>e c q. pq_dequeue 1024 (w_pq s) = Some (e, c, q) \<longrightarrow> c < w_limit s"
  proof (intro allI impI)
    fix e c q assume that: "pq_dequeue 1024 (w_pq s) = Some (e, c, q)"
    obtain e' c' q' where d: "pq_dequeue 1024 (w_pq s) = Some (e', c', q')" "(c', e') \<in># Q" "\<forall>p\<in>#Q. c' \<le> fst p"
      using pq_dequeue_rep [OF wv_okQD(6) [OF I(2)]] ne by (auto simp: low)
    have "c' \<le> ?m" using d(3) m(1) by auto
    then show "c < w_limit s" using d(1) that lim by simp
  qed
  obtain e c q s1 where d: "pq_dequeue 1024 (w_pq s) = Some (e, c, q)" "(c, e) \<in># Q" "w_cur s \<le> c" "c < w_limit s"
      "ev_run e c (s\<lparr>w_pq := q, w_cur := c\<rparr>) = Some s1"
      "sim_post lb h D K H0 (insert e (fst ` set (w_log s) \<union> hs0)) (Q - {#(c, e)#}) e (s\<lparr>w_pq := q, w_cur := c\<rparr>) s1"
      "\<And>v. e \<notin> fst ` set (w_log s) \<Longrightarrow> H0 e = Some v \<Longrightarrow> ev_numParents v \<noteq> 0 \<Longrightarrow>
         parents_in H0 (fst ` set (w_fin s)) e \<and> c = ready H0 (w_fin s) e + ev_pre v"
    using run_ok [OF inv low ne lm] by blast
  let ?rn = "insert e (fst ` set (w_log s) \<union> hs0)"
  have P: "cr_ok lb K s1" "settled {} (w_ev s1)" "w_cur s1 = c" "w_limit s1 = w_limit s" "w_log s1 = w_log s" "horizon s1 = horizon s" "\<exists>ys. w_fin s1 = ys @ w_fin s"
    using d(6) unfolding sim_post_def phase_const_def by (simp_all add: horizon_def)
  obtain Q1 where Q1: "wv_okQ lb h D H0 (set (waiting s1)) ?rn {#} Q1 s1"
      "card (dom (w_ev s1)) < card (dom (w_ev s)) \<or> dom (w_ev s1) = dom (w_ev s) \<and> work (w_limit s) Q1 < work (w_limit s) Q"
  proof -
    have "wv_ok lb h D H0 (set (waiting s1)) ?rn {#} s1 \<and> card (dom (w_ev s1)) < card (dom (w_ev s)) \<or> dom (w_ev s1) = dom (w_ev s) \<and>
        (wv_okQ lb h D H0 (set (waiting s1)) ?rn {#} (Q - {#(c, e)#}) s1 \<or> wv_okQ lb h D H0 (set (waiting s1)) ?rn {#} (add_mset (c + 1, e) (Q - {#(c, e)#})) s1)"
      using d(6) [unfolded sim_post_def] by simp
    then consider (less) "wv_ok lb h D H0 (set (waiting s1)) ?rn {#} s1" "card (dom (w_ev s1)) < card (dom (w_ev s))"
      | (held) "dom (w_ev s1) = dom (w_ev s)" "wv_okQ lb h D H0 (set (waiting s1)) ?rn {#} (Q - {#(c, e)#}) s1"
      | (again) "dom (w_ev s1) = dom (w_ev s)" "wv_okQ lb h D H0 (set (waiting s1)) ?rn {#} (add_mset (c + 1, e) (Q - {#(c, e)#})) s1"
      by blast
    then show thesis
    proof cases
      case less
      then show ?thesis using that unfolding wv_ok_def by blast
    next
      case held
      then show ?thesis using that work_less(1) [OF d(2,4)] by blast
    next
      case again
      then show ?thesis using that work_less(2) [OF d(2,4)] by blast
    qed
  qed
  obtain ys where ys: "w_fin s1 = ys @ w_fin s" using P(7) by blast
  let ?n = "if Q1 = {#} then w_limit s1 else Min (fst ` set_mset Q1)"
  let ?s' = "s1\<lparr>w_cur := ?n, w_log := (e, c) # w_log s1\<rparr>"
  have n: "c \<le> ?n"
  proof (cases "Q1 = {#}")
    case False
    then obtain x where "(?n, x) \<in># Q1" using min_mem [of Q1] by auto
    from queueD(1) [OF wv_okQD(8) [OF Q1(1)] this] P(3) show ?thesis by simp
  qed (use d(4) P(4) in simp)
  have nQ: "?n \<le> k" if "(k, x) \<in># Q1" for k x
  proof -
    have "Min (fst ` set_mset Q1) \<le> k" using that by (intro Min_le) force+
    then show ?thesis using that by auto
  qed
  have eq: "low ?s' = s1\<lparr>w_cur := min ?n (w_limit s1), w_log := (e, c) # w_log s1\<rparr>" by (simp add: low_def)
  have w: "waiting ?s' = waiting s1" by (simp add: waiting_def)
  have "phase_inv lb h D K H0 hs0 Q1 ?s'"
    unfolding phase_inv_def w
  proof (intro conjI)
    show "\<forall>p\<in>#Q1. w_cur ?s' \<le> fst p" using nQ by force
    have "wv_okQ lb h D H0 (set (waiting s1)) ?rn {#} Q1 (s1\<lparr>w_cur := min ?n (w_limit s1), w_log := (e, c) # w_log s1\<rparr>)"
      by (rule okQ_raise [OF Q1(1)]) (use n P(3,4) d(4) nQ in \<open>auto simp: min_le_iff_disj\<close>)
    moreover have "?rn = fst ` set (w_log ?s') \<union> hs0" using P(5) by auto
    ultimately show "wv_okQ lb h D H0 (set (waiting s1)) (fst ` set (w_log ?s') \<union> hs0) {#} Q1 (low ?s')" unfolding eq by simp
    have "w_cur s1 \<le> min ?n (w_limit s1)" using n P(3,4) d(4) by simp
    from cr_raise [OF P(1) this, of "(e, c) # w_log s1" "w_pq s1"] show "cr_ok lb K (low ?s')" unfolding eq by simp
    show "\<forall>x\<in>hs0. \<forall>v. H0 x = Some v \<longrightarrow> ev_numParents v = 0" using I(8) by blast
    have "distinct (map fst (ys @ w_fin s))" using ghostD(2) [OF wv_okQD(3) [OF Q1(1)]] ys by simp
    then have "log_ok H0 ((e, c) # w_log s) (ys @ w_fin s) (w_limit s) (min ?n (w_limit s1))"
      by (rule log_ok_step [OF I(9)]) (use d(3,4,7) n P(4) low in auto)
    then show "log_ok H0 (w_log ?s') (w_fin ?s') (w_limit ?s') (w_cur (low ?s'))" using ys P(4,5) by simp
  qed (use P I(5,6,7) in \<open>simp_all add: horizon_def\<close>)
  moreover have "cs_step s = Some ?s'"
    unfolding cs_step_def d(1) bind.bind_lunit prod.case d(5) first_ok(1) [OF Q1(1)] using d(3) n by (simp split del: if_split add: d(5) first_ok(1) [OF Q1(1)])
  ultimately show ?thesis using Q1(2) P(4,5) by (intro exI [of _ ?s'] exI [of _ Q1]) simp
qed

text \<open>The loop returns: each turn ends an event for good, or brings the queue nearer to the limit.\<close>

lemma cs_loop_ok:
  assumes "phase_inv lb h D K H0 hs0 Q s"
  shows "\<exists>s' Q'. cs_loop s = Some (s'\<lparr>w_cur := w_limit s\<rparr>) \<and> phase_inv lb h D K H0 hs0 Q' s' \<and> w_limit s' = w_limit s \<and> (\<forall>p\<in>#Q'. w_limit s \<le> fst p) \<and>
    (\<exists>xs. w_log s' = xs @ w_log s)"
  using assms
proof (induction "(s, Q)" arbitrary: s Q rule: wf_induct_rule [OF wf_measures [of "[\<lambda>(s, Q). card (dom (w_ev s)), \<lambda>(s, Q). work (w_limit s) Q]"]])
  case 1
  note inv = 1(2)
  note F = first_ok [OF phase_invD(2) [OF inv], unfolded low_simps]
  show ?case
  proof (cases "Q \<noteq> {#} \<and> Min (fst ` set_mset Q) < w_limit s")
    case True
    then obtain s1 Q1 where s1: "cs_step s = Some s1" "phase_inv lb h D K H0 hs0 Q1 s1" "w_limit s1 = w_limit s" "\<exists>xs. w_log s1 = xs @ w_log s"
        "card (dom (w_ev s1)) < card (dom (w_ev s)) \<or> dom (w_ev s1) = dom (w_ev s) \<and> work (w_limit s) Q1 < work (w_limit s) Q"
      using cs_step_ok [OF inv] by blast
    then obtain s' Q' where s': "cs_loop s1 = Some (s'\<lparr>w_cur := w_limit s\<rparr>)" "phase_inv lb h D K H0 hs0 Q' s'" "w_limit s' = w_limit s"
        "\<forall>p\<in>#Q'. w_limit s \<le> fst p" "\<exists>xs. w_log s' = xs @ w_log s1" using 1(1) [of s1 Q1] by auto
    have "pq_firstCycle 1024 (w_pq s) = Some (Min (fst ` set_mset Q))" "pq_size (w_pq s) \<noteq> 0" using F True by auto
    then have "cs_loop s = cs_loop s1" using True s1(1) by (subst cs_loop.simps) simp
    moreover have "\<exists>xs. w_log s' = xs @ w_log s" using s1(4) s'(5) by (metis append_assoc)
    ultimately show ?thesis using s'(1-4) by (intro exI [of _ s'] exI [of _ Q']) simp
  next
    case False
    have g: "(if pq_size (w_pq s) \<noteq> 0 then map_option (\<lambda>c. c < w_limit s) (pq_firstCycle 1024 (w_pq s)) else Some False) = Some False"
      using F(1) [of 0] F(2) False by (auto split: if_splits)
    have "cs_loop s = Some (s\<lparr>w_cur := w_limit s\<rparr>)" by (subst cs_loop.simps) (simp only: g bind.bind_lunit if_False)
    moreover have "w_limit s \<le> fst p" if "p \<in># Q" for p
    proof -
      have "Q \<noteq> {#}" using that by auto
      then have "w_limit s \<le> Min (fst ` set_mset Q)" using False by (simp only: not_less simp_thms)
      also have "\<dots> \<le> fst p" using that by simp
      finally show ?thesis .
    qed
    ultimately show ?thesis using inv by (intro exI [of _ s] exI [of _ Q]) simp
  qed
qed

section \<open>The phase\<close>

text \<open>A state in which a phase may start: nothing is logged and the invariant holds for the heap itself.\<close>

definition weave_start :: "(nat \<Rightarrow> nat) \<Rightarrow> (nat \<Rightarrow> nat) \<Rightarrow> nat \<Rightarrow> nat \<Rightarrow> weave \<Rightarrow> bool" where
  "weave_start lb h D K s \<longleftrightarrow>
     w_log s = [] \<and> w_fin s = [] \<and> w_cur s \<le> w_limit s \<and> wv_ok lb h D (w_ev s) (set (waiting s)) (set (waiting s)) {#} s \<and> cr_ok lb K s \<and>
     settled {} (w_ev s) \<and> (\<forall>e. 0 < lb e) \<and> K + D < horizon s \<and> horizon s \<le> 2 ^ 64"

lemma weave_start_inv:
  assumes "weave_start lb h D K s"
  shows "\<exists>Q. phase_inv lb h D K (w_ev s) (set (waiting s)) Q s"
proof -
  have low: "low s = s" using assms by (simp add: weave_start_def low_def)
  obtain Q where Q: "wv_okQ lb h D (w_ev s) (set (waiting s)) (set (waiting s)) {#} Q s" using assms by (auto simp: weave_start_def wv_ok_def)
  have "ev_numParents v = 0" if "e \<in> set (waiting s)" "w_ev s e = Some v" for e v
    using queueD(3) [OF wv_okQD(8) [OF Q], of e] graphD(5) [OF wv_okQD(1) [OF Q] that(2)] that by auto
  then have "phase_inv lb h D K (w_ev s) (set (waiting s)) Q s"
    using assms Q queueD(1) [OF wv_okQD(8) [OF Q]] low unfolding phase_inv_def weave_start_def by (auto simp: log_ok_def first_run_def)
  then show ?thesis by blast
qed

text \<open>\<open>e\<close> waits in cache \<open>t\<close>.\<close>

lemma waiting_in: "e \<in> set (waiting s) \<longleftrightarrow> (\<exists>t\<in>set (w_cache s). e \<in> set (tm_pending t))"
  by (auto simp: waiting_def)

text \<open>C9. From a well-formed graph of timing events the loop of a weave phase returns. No assertion fails on the way, those of
  the caches' occupancy statistics included, and no event is used after it was freed but for the field \<open>startCycle\<close> of a
  miss's start, which the statistics of its response and its writeback read: the start of a writeback that runs is always
  freed (\<open>start_gone\<close>), and what is read is whatever its memory \<open>w_start\<close> holds. At the end the cycle is the limit, and what
  is queued starts at the limit or later. Every event that is left is queued, or waits in a cache whose MSHRs are all
  taken, or waits for a parent that is still there, or has no parents and was never queued. The MSHRs taken in a cache are those of the
  misses whose start is done and whose writeback is not, and never more than it has. The events that were simulated are in
  the log in order of their cycles, each before the limit.\<close>

lemma weave_phase_returns:
  assumes "weave_start lb h D K s"
  shows "\<exists>s' Q. cs_loop s = Some s' \<and> w_cur s' = w_limit s \<and> pq_rep 1024 (w_pq s') Q \<and> (\<forall>p\<in>#Q. w_limit s \<le> fst p) \<and>
     (\<forall>e v. w_ev s' e = Some v \<longrightarrow>
        ev_state v = EV_QUEUED \<and> e \<in># image_mset snd Q \<or>
        ev_state v = EV_HELD \<and> (\<exists>t\<in>set (w_cache s'). e \<in> set (tm_pending t) \<and> tm_active t = tm_numMSHRs t) \<or>
        ev_state v = EV_NONE \<and> (ev_numParents v \<noteq> 0 \<longrightarrow> (\<exists>p w. w_ev s' p = Some w \<and> e \<in> set (ev_kids w)))) \<and>
     (\<forall>k<length (w_cache s'). tm_active (w_cache s' ! k) = card (wbs (w_ev s') k) \<and> tm_active (w_cache s' ! k) \<le> tm_numMSHRs (w_cache s' ! k)) \<and>
     sorted_wrt (\<ge>) (map snd (w_log s')) \<and> (\<forall>p\<in>set (w_log s'). snd p < w_limit s)"
proof -
  obtain Q0 where "phase_inv lb h D K (w_ev s) (set (waiting s)) Q0 s" using weave_start_inv [OF assms] by blast
  then obtain s' Q where s': "cs_loop s = Some (s'\<lparr>w_cur := w_limit s\<rparr>)" "phase_inv lb h D K (w_ev s) (set (waiting s)) Q s'" "w_limit s' = w_limit s"
      "\<forall>p\<in>#Q. w_limit s \<le> fst p" using cs_loop_ok by blast
  let ?z = "s'\<lparr>w_cur := w_limit s\<rparr>"
  note I = phase_invD [OF s'(2)]
  note W = wv_okQD [OF I(2), unfolded low_simps]
  have fin: "finite (dom (w_ev s'))" using W(1) by (simp add: wg_graph_def)
  have live: "ev_state v = EV_QUEUED \<and> e \<in># image_mset snd Q \<or>
        ev_state v = EV_HELD \<and> (\<exists>t\<in>set (w_cache s'). e \<in> set (tm_pending t) \<and> tm_active t = tm_numMSHRs t) \<or>
        ev_state v = EV_NONE \<and> (ev_numParents v \<noteq> 0 \<longrightarrow> (\<exists>p w. w_ev s' p = Some w \<and> e \<in> set (ev_kids w)))"
    if e: "w_ev s' e = Some v" for e v
  proof -
    consider "ev_state v = EV_NONE" | "ev_state v = EV_QUEUED" | "ev_state v = EV_HELD" using I(4) e by (auto simp: settled_def)
    then show ?thesis
    proof cases
      case 1
      have "\<exists>p w. w_ev s' p = Some w \<and> e \<in> set (ev_kids w)" if "ev_numParents v \<noteq> 0"
      proof -
        have "0 < count (kidsum (w_ev s')) e" using graphD(1) [OF W(1) e] that by simp
        then have "e \<in># kidsum (w_ev s')" by (simp add: count_greater_zero_iff)
        then obtain p w where "w_ev s' p = Some w" "e \<in># own w" using in_kidsum [OF fin] by blast
        then show ?thesis by (auto simp: own_def split: if_splits)
      qed
      then show ?thesis using 1 by blast
    next
      case 2
      then have "count (image_mset snd Q) e = 1" using queueD(2) [OF W(8), of e] e by simp
      then show ?thesis using 2 by (metis count_eq_zero_iff zero_neq_one)
    next
      case 3
      then have "e \<in> set (waiting s')" using queueD(3) [OF W(8), of e] e by blast
      then obtain k where k: "k < length (w_cache s')" "e \<in> set (tm_pending (w_cache s' ! k))" by (metis waiting_in in_set_conv_nth)
      then have "tm_active (w_cache s' ! k) = tm_numMSHRs (w_cache s' ! k)" using cr_okD(3) [OF I(3), of k] by (auto simp: tm_ok_def)
      then show ?thesis using 3 k nth_mem by blast
    qed
  qed
  have "\<forall>k<length (w_cache s'). tm_active (w_cache s' ! k) = card (wbs (w_ev s') k) \<and> tm_active (w_cache s' ! k) \<le> tm_numMSHRs (w_cache s' ! k)"
  proof (intro allI impI)
    fix k assume "k < length (w_cache s')"
    then show "tm_active (w_cache s' ! k) = card (wbs (w_ev s') k) \<and> tm_active (w_cache s' ! k) \<le> tm_numMSHRs (w_cache s' ! k)"
      using cr_okD(3) [OF I(3), of k] by (simp add: tm_ok_def)
  qed
  moreover have "sorted_wrt (\<ge>) (map snd (w_log s'))" "\<forall>p\<in>set (w_log s'). snd p < w_limit s" using I(9) s'(3) by (auto simp: log_ok_def)
  moreover have "w_ev ?z = w_ev s'" "w_pq ?z = w_pq s'" "w_cache ?z = w_cache s'" "w_log ?z = w_log s'" "w_cur ?z = w_limit s" by simp_all
  ultimately show ?thesis using s'(1,4) W(6) live by (intro exI [of _ ?z] exI [of _ Q]) (simp only: simp_thms if_True, blast)
qed

text \<open>C10. When events start. In a weave phase no event is done twice. An event that had parents when the phase began and is
  simulated in it is first simulated at the latest of its own cycle and the cycles at which its parents were done, each with
  the parent's delay after it, plus its own delay before it; all its parents were done by the end of the phase.\<close>

lemma weave_events_start:
  assumes "weave_start lb h D K s" and "cs_loop s = Some s'"
  shows "distinct (map fst (w_fin s')) \<and>
    (\<forall>e c v. first_run (w_log s') e = Some c \<longrightarrow> w_ev s e = Some v \<longrightarrow> ev_numParents v \<noteq> 0 \<longrightarrow>
      (\<forall>p w. w_ev s p = Some w \<longrightarrow> e \<in> set (ev_kids w) \<longrightarrow> p \<in> fst ` set (w_fin s')) \<and>
      c = Max (insert (ev_cycle v) {f + ev_post w | p w f. (p, f) \<in> set (w_fin s') \<and> w_ev s p = Some w \<and> e \<in> set (ev_kids w)}) + ev_pre v)"
proof -
  obtain Q0 where "phase_inv lb h D K (w_ev s) (set (waiting s)) Q0 s" using weave_start_inv [OF assms(1)] by blast
  then obtain t Q where t: "s' = t\<lparr>w_cur := w_limit s\<rparr>" "phase_inv lb h D K (w_ev s) (set (waiting s)) Q t" using cs_loop_ok assms(2) by force
  note I = phase_invD [OF t(2)]
  have "distinct (map fst (w_fin s'))" using ghostD(2) [OF wv_okQD(3) [OF I(2)]] t(1) by simp
  then show ?thesis using I(9) t(1) unfolding log_ok_def parents_in_def ready_def notif_def by simp
qed

section \<open>A phase\<close>

text \<open>A miss, and a hit that finds the one MSHR taken.\<close>

definition ex_ev :: "ev_state \<Rightarrow> nat list \<Rightarrow> nat \<Rightarrow> nat \<Rightarrow> nat \<Rightarrow> nat \<Rightarrow> ev_kind \<Rightarrow> tev" where
  "ex_ev st kids parents minStart pre post k =
     \<lparr>ev_state = st, ev_cycle = 0, ev_minStart = minStart, ev_children = map (\<lambda>c. [c]) kids, ev_domain = 0, ev_numChildren = length kids,
      ev_numParents = parents, ev_pre = pre, ev_post = post, ev_kind = k\<rparr>"

definition ex_heap :: "(nat \<times> tev) list" where
  "ex_heap =
     [(0, ex_ev EV_QUEUED [1] 0 100 0 5 (TimingCoreEvent 100 0)), (1, ex_ev EV_NONE [2] 1 105 0 0 (MissStartEvent 0)),
      (2, ex_ev EV_NONE [3] 1 0 20 0 DelayEvent), (3, ex_ev EV_NONE [4] 1 125 0 0 (MissResponseEvent 0 1)),
      (4, ex_ev EV_NONE [] 1 125 0 0 (MissWritebackEvent 0 1)), (5, ex_ev EV_QUEUED [] 0 106 0 0 (HitEvent 0))]"

definition ex_weave :: "nat pqueue \<Rightarrow> weave" where
  "ex_weave q =
     \<lparr>w_ev = map_of ex_heap, w_start = (\<lambda>_. 0), w_next = 6, w_pq = q, w_cur = 50, w_limit = 1000, w_lastLimit = 0, w_inCSim = True, w_PL = 1000,
      w_cache = [\<lparr>tm_lastAcc = 0, tm_lastFree = 0, tm_numMSHRs = 1, tm_active = 0, tm_pending = [],
        tm_occ = [0, 0], tm_occState = 0, tm_occLast = 0, tm_hitLat = 0, tm_missRespLat = 0, tm_missLat = 0\<rparr>],
      w_rec = [\<lparr>cr_state = DRAINING, cr_gap = 0, cr_prevResp = 0, cr_prev = None, cr_simStart = 0, cr_simOrig = 0, cr_totalGap = 0, cr_totalHalted = 0,
        cr_lastUnhalted = 0, cr_future = [], cr_tr = None, cr_lastGap = 0, cr_slack = 0\<rparr>],
      w_log = [], w_fin = []\<rparr>"

definition ex_pq :: "nat pqueue" where
  "ex_pq = the (Option.bind (pq_enqueue 1024 0 100 (pq_new 1024)) (pq_enqueue 1024 5 106))"

lemma ex_pq_rep: "pq_rep 1024 ex_pq {#(100, 0), (106, 5)#} \<and> pq_curBlock ex_pq = 0"
proof -
  have n: "pq_rep 1024 (pq_new 1024) {#}" "pq_curBlock (pq_new 1024) \<le> 100 div 64" by (simp_all add: pq_rep_new) (simp add: pq_new_def)
  obtain q1 where q1: "pq_enqueue 1024 0 100 (pq_new 1024) = Some q1" "pq_rep 1024 q1 {#(100, 0 :: nat)#}" "pq_curBlock q1 = 0"
    using pq_enqueue_rep [OF n, of 0] by (auto simp: pq_new_def)
  obtain q2 where "pq_enqueue 1024 5 106 q1 = Some q2" "pq_rep 1024 q2 {#(106, 5), (100, 0 :: nat)#}" "pq_curBlock q2 = 0"
    using pq_enqueue_rep [OF q1(2), of 106 5] q1(3) by auto
  then show ?thesis using q1(1) by (simp add: ex_pq_def add_mset_commute)
qed

definition ex_lb :: "nat \<Rightarrow> nat" where
  "ex_lb e = (if e = 0 then 100 else if e = 1 then 105 else if e \<in> {2, 3, 4} then 125 else if e = 5 then 106 else 1)"

definition ex_h :: "nat \<Rightarrow> nat" where
  "ex_h e = (if e = 2 then 20 else 0)"

lemma kidsum_map_of: "distinct (map fst xs) \<Longrightarrow> kidsum (map_of xs) = sum_list (map (own \<circ> snd) xs)"
proof -
  assume d: "distinct (map fst xs)"
  have "kidsum (map_of xs) = (\<Sum>e\<in>set (map fst xs). own (the (map_of xs e)))" by (simp add: kidsum_def dom_map_of_conv_image_fst)
  also have "\<dots> = sum_list (map (\<lambda>e. own (the (map_of xs e))) (map fst xs))" by (rule sum.distinct_set_conv_list [OF d])
  also have "map (\<lambda>e. own (the (map_of xs e))) (map fst xs) = map (own \<circ> snd) xs" using d by (auto simp: map_of_is_SomeI)
  finally show ?thesis .
qed

lemma ex_heapD: "map_of ex_heap e = Some v \<Longrightarrow> (e, v) \<in> set ex_heap"
  by (rule map_of_SomeD)

lemma ex_kidsum: "kidsum (map_of ex_heap) = {#1, 2, 3, 4#}"
  by (subst kidsum_map_of) (simp_all add: ex_heap_def ex_ev_def own_def ev_kids_def)

lemma ex_dom: "dom (map_of ex_heap) = {0, 1, 2, 3, 4, 5}"
  by (auto simp: ex_heap_def dom_map_of_conv_image_fst)

lemma ex_graph: "wg_graph (map_of ex_heap) {#}"
proof (rule graphI)
  show "e \<in># kidsum (map_of ex_heap) + image_mset fst {#} \<Longrightarrow> map_of ex_heap e \<noteq> None" for e
    unfolding ex_kidsum by (auto simp: ex_heap_def)
  show "map_of ex_heap e = Some v \<Longrightarrow> ev_numParents v = count (kidsum (map_of ex_heap) + image_mset fst {#}) e \<and> ev_domain v = 0 \<and>
      ev_state v \<noteq> EV_INVALID \<and> ev_numChildren v = length (ev_kids v) \<and> (ev_numParents v \<noteq> 0 \<longrightarrow> ev_state v = EV_NONE)" for e v
    unfolding ex_kidsum by (drule ex_heapD) (auto simp: ex_heap_def ex_ev_def ev_kids_def)
qed (simp_all add: ex_dom ex_kidsum)

lemma ex_times: "wg_times ex_lb ex_h 20 1010000 (map_of ex_heap) {#}"
proof (rule timesI)
  show "map_of ex_heap e = Some v \<Longrightarrow> ev_kind v \<noteq> DelayEvent \<Longrightarrow> ev_minStart v \<le> ex_lb e \<and> ev_pre v \<le> ex_h e" for e v
    by (drule ex_heapD) (auto simp: ex_heap_def ex_ev_def ex_lb_def ex_h_def)
  show "map_of ex_heap e = Some v \<Longrightarrow> c \<in># own v \<Longrightarrow> ev_kind v = DelayEvent \<Longrightarrow> ev_pre v + ev_post v + ex_h c \<le> ex_h e" for e v c
    by (drule ex_heapD) (auto simp: ex_heap_def ex_ev_def ex_h_def own_def ev_kids_def)
  show "map_of ex_heap e = Some v \<Longrightarrow> c \<in># own v \<Longrightarrow> ev_kind v \<noteq> DelayEvent \<Longrightarrow> ev_lat v + ev_post v + ex_h c \<le> 20" for e v c
    by (drule ex_heapD) (auto simp: ex_heap_def ex_ev_def ex_h_def own_def ev_kids_def ev_lat_def)
  have p: "\<exists>p w. map_of ex_heap p = Some w \<and> e \<in># own w \<and> ex_lb e \<le> ex_lb p + ev_post w + pre"
    if "e \<in> {1, 2, 3, 4}" "ex_lb e \<le> ex_lb (e - 1) + ev_post (the (map_of ex_heap (e - 1))) + pre" for e pre
    using that by (intro exI [of _ "e - 1"] exI [of _ "the (map_of ex_heap (e - 1))"]) (auto simp: ex_heap_def ex_ev_def own_def ev_kids_def)
  show "ev_cycle v + ex_h e < 1010000 \<and>
      (ex_lb e \<le> ev_cycle v + ev_pre v \<or> (\<exists>c. (e, c) \<in># {#} \<and> ex_lb e \<le> c + ev_pre v) \<or>
       (\<exists>p w. map_of ex_heap p = Some w \<and> e \<in># own w \<and> ex_lb e \<le> ex_lb p + ev_post w + ev_pre v))"
    if v: "map_of ex_heap e = Some v" "ev_numParents v \<noteq> 0" for e v
  proof -
    have "ev_cycle v + ex_h e < 1010000 \<and> e \<in> {1, 2, 3, 4} \<and> ex_lb e \<le> ex_lb (e - 1) + ev_post (the (map_of ex_heap (e - 1))) + ev_pre v"
      using ex_heapD [OF v(1)] v(2) by (auto simp: ex_heap_def ex_ev_def ex_h_def ex_lb_def)
    then show ?thesis using p by blast
  qed
qed simp

lemma ex_ghost: "wg_ghost (map_of ex_heap) [] (map_of ex_heap) {#}"
proof (rule ghostI)
  show "map_of ex_heap e = Some v \<Longrightarrow> e \<in> fst ` set [] \<longleftrightarrow> ended (map_of ex_heap) e" for e v
    by (frule ex_heapD) (auto simp: ex_heap_def ex_ev_def ended_def)
qed (simp_all add: ev_same_def ready_def notif_def)

lemma ex_queue: "wg_queue ex_lb (map_of ex_heap) [] {} {} 50 (map_of ex_heap) {#(100, 0), (106, 5)#}"
proof (rule queueI)
  show "count (image_mset snd {#(100, 0), (106, 5)#}) e = (case map_of ex_heap e of None \<Rightarrow> 0 | Some v \<Rightarrow> if ev_state v = EV_QUEUED then 1 else 0)" for e
    by (auto simp: ex_heap_def ex_ev_def)
  show "e \<in> {} \<longleftrightarrow> (\<exists>v. map_of ex_heap e = Some v \<and> ev_state v = EV_HELD)" for e
    by (auto simp: ex_heap_def ex_ev_def)
qed (auto simp: ex_lb_def ex_heap_def ex_ev_def)

lemma ex_dep: "(dep (map_of ex_heap))\<^sup>+\<^sup>+ 1 4"
proof -
  have "dep (map_of ex_heap) 1 2" "dep (map_of ex_heap) 2 3" "dep (map_of ex_heap) 3 4"
    by (auto simp: dep_def ex_heap_def ex_ev_def ev_kids_def)
  then show ?thesis by (meson tranclp.intros)
qed

lemma ex_miss: "miss_ok (map_of ex_heap)"
  unfolding miss_ok_def
proof (intro conjI allI impI, goal_cases)
  case (1 e v k m w)
  then have "e = 4 \<and> k = 0 \<and> m = 1" by (auto simp: ex_heap_def ex_ev_def split: if_splits)
  then show ?case using 1 by (auto simp: ex_heap_def ex_ev_def)
next
  case (2 e v k m w)
  then have "e = 4 \<and> k = 0 \<and> m = 1" by (auto simp: ex_heap_def ex_ev_def split: if_splits)
  then show ?case using ex_dep by simp
next
  case (3 m w k)
  then have "m = 1 \<and> k = 0" by (auto simp: ex_heap_def ex_ev_def split: if_splits)
  then show ?case by (intro ex1I [of _ 4]) (auto simp: ex_heap_def ex_ev_def split: if_splits)
qed

lemma ex_start: "weave_start ex_lb ex_h 20 1006 (ex_weave ex_pq)"
proof -
  have w: "waiting (ex_weave ex_pq) = []" by (simp add: waiting_def ex_weave_def)
  have h: "horizon (ex_weave ex_pq) = 1010000" by (simp add: horizon_def ex_weave_def)
  have "wv_okQ ex_lb ex_h 20 (map_of ex_heap) {} {} {#} {#(100, 0), (106, 5)#} (ex_weave ex_pq)"
    by (rule wv_okQI) (use h ex_graph ex_times ex_ghost ex_pq_rep ex_queue in \<open>simp_all add: ex_weave_def horizon_def\<close>)
  then have "wv_ok ex_lb ex_h 20 (map_of ex_heap) {} {} {#} (ex_weave ex_pq)" unfolding wv_ok_def by blast
  moreover have "wbs (map_of ex_heap) 0 = {}" by (auto simp: wbs_def ex_heap_def ex_ev_def split: if_splits)
  then have "cr_ok ex_lb 1006 (ex_weave ex_pq)"
    using w ex_miss
    by (intro cr_okI) (auto simp: ex_weave_def ex_dom tm_ok_def rec_ok_def dest!: ex_heapD, auto simp: ex_heap_def ex_ev_def kind_ok_def)
  moreover have "settled {} (map_of ex_heap)" unfolding settled_def by (auto dest!: ex_heapD, auto simp: ex_heap_def ex_ev_def)
  ultimately show ?thesis using w h unfolding weave_start_def by (simp add: ex_weave_def ex_lb_def)
qed

text \<open>Two turns of its loop: event 0, then its child.\<close>

lemma dequeue_min:
  assumes "pq_rep 1024 q (add_mset (c, e) Q)" and "\<And>p. p \<in># Q \<Longrightarrow> c < fst p"
  shows "\<exists>q'. pq_dequeue 1024 q = Some (e, c, q') \<and> pq_rep 1024 q' Q \<and> pq_curBlock q' = c div 64"
proof -
  obtain e' c' q' where d: "pq_dequeue 1024 q = Some (e', c', q')" "(c', e') \<in># add_mset (c, e) Q" "\<forall>p\<in>#add_mset (c, e) Q. c' \<le> fst p"
      "pq_rep 1024 q' (add_mset (c, e) Q - {#(c', e')#})" "pq_curBlock q' = c' div 64"
    using pq_dequeue_rep [OF assms(1)] by fastforce
  have "(c', e') = (c, e)" using d(2,3) assms(2) [of "(c', e')"] by auto
  then show ?thesis using d by auto
qed

lemma first_rep: "pq_rep 1024 q (add_mset (c, e) Q) \<Longrightarrow> (\<And>p. p \<in># Q \<Longrightarrow> c \<le> fst p) \<Longrightarrow> pq_firstCycle 1024 q = Some c \<and> pq_size q = Suc (size Q)"
  using pq_firstCycle_least [of 1024 q "add_mset (c, e) Q"] by (fastforce simp: pq_rep_def pq_size_def)

lemma ex_step1: "\<exists>q. pq_rep 1024 q {#(105, 1), (106, 5)#} \<and> pq_curBlock q = 1 \<and>
  cs_step (ex_weave ex_pq) = Some ((ex_weave ex_pq)\<lparr>w_pq := q, w_cur := 105, w_log := [(0, 100)], w_fin := [(0, 100)],
    w_ev := (map_of ex_heap)(0 := None, 1 \<mapsto> ex_ev EV_QUEUED [2] 0 105 0 0 (MissStartEvent 0) \<lparr>ev_cycle := 105\<rparr>),
    w_rec := [(w_rec (ex_weave ex_pq) ! 0)\<lparr>cr_simStart := 100, cr_simOrig := 100\<rparr>]\<rparr>)"
proof -
  obtain q1 where q1: "pq_dequeue 1024 ex_pq = Some (0, 100, q1)" "pq_rep 1024 q1 {#(106, 5)#}" "pq_curBlock q1 = 1"
    using dequeue_min [of ex_pq 100 0 "{#(106, 5)#}"] ex_pq_rep by auto
  obtain q2 where q2: "pq_enqueue 1024 1 105 q1 = Some q2" "pq_rep 1024 q2 {#(105, 1), (106, 5)#}" "pq_curBlock q2 = 1"
    using pq_enqueue_rep [OF q1(2), of 105 1] q1(3) by auto
  have f: "pq_firstCycle 1024 q2 = Some 105 \<and> pq_size q2 = 2" using first_rep [OF q2(2)] by simp
  have "cs_step (ex_weave ex_pq) = Some ((ex_weave ex_pq)\<lparr>w_pq := q2, w_cur := 105, w_log := [(0, 100)], w_fin := [(0, 100)],
    w_ev := (map_of ex_heap)(0 := None, 1 \<mapsto> ex_ev EV_QUEUED [2] 0 105 0 0 (MissStartEvent 0) \<lparr>ev_cycle := 105\<rparr>),
    w_rec := [(w_rec (ex_weave ex_pq) ! 0)\<lparr>cr_simStart := 100, cr_simOrig := 100\<rparr>]\<rparr>)"
    using q1(1) q2(1) f
    by (simp add: cs_step_def ex_weave_def ex_heap_def ex_ev_def ev_run_def ev_simulate_def reportEventSimulated_def w_put_def w_setRec_def ev_done_def ev_finish_def
        ev_kids_def ev_visit.simps [of "[_]"] cs_enqueue_def cs_put_def ev_free_def Let_def fun_upd_twist)
  then show ?thesis using q2 by blast
qed

lemma cs_loop_turn: "pq_firstCycle 1024 (w_pq s) = Some c \<Longrightarrow> pq_size (w_pq s) \<noteq> 0 \<Longrightarrow> c < w_limit s \<Longrightarrow> cs_step s = Some s' \<Longrightarrow> cs_loop s = cs_loop s'"
  by (subst cs_loop.simps) simp

lemma ex_step2:
  assumes q: "pq_rep 1024 q {#(105, 1), (106, 5)#}" "pq_curBlock q = 1" and s: "w_pq s = q" "w_cur s = 105" "w_log s = [(0, 100)]" "w_limit s = 1000" "w_lastLimit s = 0"
    "w_PL s = 1000" "w_inCSim s" "w_cache s = w_cache (ex_weave ex_pq)" "w_ev s = (map_of ex_heap)(0 := None, 1 \<mapsto> ex_ev EV_QUEUED [2] 0 105 0 0 (MissStartEvent 0) \<lparr>ev_cycle := 105\<rparr>)"
  shows "\<exists>s'. cs_step s = Some s' \<and> w_log s' = [(1, 105), (0, 100)]"
proof -
  obtain q1 where q1: "pq_dequeue 1024 q = Some (1, 105, q1)" "pq_rep 1024 q1 {#(106, 5)#}" "pq_curBlock q1 = 1"
    using dequeue_min [of q 105 1 "{#(106, 5)#}"] q by auto
  obtain q2 where q2: "pq_enqueue 1024 3 125 q1 = Some q2" "pq_rep 1024 q2 {#(106, 5), (125, 3)#}" "pq_curBlock q2 = 1"
    using pq_enqueue_rep [OF q1(2), of 125 3] q1(3) by (auto simp: add_mset_commute)
  have f: "pq_firstCycle 1024 q2 = Some 106 \<and> pq_size q2 = 2" using first_rep [OF q2(2)] by simp
  show ?thesis
    using q1(1) q2(1) f s
    by (simp add: cs_step_def ex_weave_def ex_heap_def ex_ev_def ev_run_def ev_simulate_def simulateMissStart_def occ_transition_def w_setStart_def tm_highPrio_def w_put_def w_setCache_def ev_done_def
        ev_finish_def ev_kids_def ev_visit.simps [of "[_]"] cs_enqueue_def cs_put_def ev_free_def Let_def)
qed

lemma ex_loop: "\<exists>s' xs. cs_loop (ex_weave ex_pq) = Some s' \<and> w_log s' = xs @ [(1, 105), (0, 100)]"
proof -
  let ?s = "ex_weave ex_pq" and ?H = "map_of ex_heap"
  have w: "w_pq ?s = ex_pq" "w_limit ?s = 1000" "w_ev ?s = ?H" by (simp_all add: ex_weave_def)
  obtain Q0 where Q0: "phase_inv ex_lb ex_h 20 1006 ?H (set (waiting ?s)) Q0 ?s" using weave_start_inv [OF ex_start] w by auto
  then have r: "pq_rep 1024 ex_pq Q0" using wv_okQD(6) [OF phase_invD(2) [OF Q0]] w by simp
  obtain s1 q where s1: "cs_step ?s = Some s1" "pq_rep 1024 q {#(105, 1), (106, 5)#}" "pq_curBlock q = 1" "w_pq s1 = q" "w_cur s1 = 105" "w_log s1 = [(0, 100)]"
      "w_limit s1 = 1000" "w_lastLimit s1 = 0" "w_PL s1 = 1000" "w_inCSim s1" "w_cache s1 = w_cache (ex_weave ex_pq)"
      "w_ev s1 = ?H(0 := None, 1 \<mapsto> ex_ev EV_QUEUED [2] 0 105 0 0 (MissStartEvent 0) \<lparr>ev_cycle := 105\<rparr>)"
    using ex_step1 by (auto simp: ex_weave_def)
  obtain s2 where s2: "cs_step s1 = Some s2" "w_log s2 = [(1, 105), (0, 100)]" using ex_step2 [OF s1(2-12)] by blast
  have f0: "pq_firstCycle 1024 ex_pq = Some 100 \<and> pq_size ex_pq = 2" using first_rep [of ex_pq 100 0 "{#(106, 5)#}"] ex_pq_rep by simp
  have f1: "pq_firstCycle 1024 q = Some 105 \<and> pq_size q = 2" using first_rep [OF s1(2)] by simp
  have t: "cs_loop ?s = cs_loop s2"
    using cs_loop_turn [of ?s 100 s1] cs_loop_turn [of s1 105 s2] f0 f1 w s1(1,4,7) s2(1) by simp
  have sz: "Q0 \<noteq> {#}" "Min (fst ` set_mset Q0) < 1000"
    using first_ok(1) [OF phase_invD(2) [OF Q0], of 0] f0 w by (auto split: if_splits)
  obtain Q1 where Q1: "phase_inv ex_lb ex_h 20 1006 ?H (set (waiting ?s)) Q1 s1" using cs_step_ok [OF Q0] sz s1(1) w by auto
  have "Q1 \<noteq> {#}" "Min (fst ` set_mset Q1) < 1000"
    using first_ok(1) [OF phase_invD(2) [OF Q1], of 0] f1 s1(4) by (auto split: if_splits)
  then obtain Q2 where Q2: "phase_inv ex_lb ex_h 20 1006 ?H (set (waiting ?s)) Q2 s2" using cs_step_ok [OF Q1] s2(1) s1(7) by auto
  show ?thesis using cs_loop_ok [OF Q2] t s2(2) by fastforce
qed

lemma weave_phase_returns_witness:
  "\<exists>s' Q. cs_loop (ex_weave ex_pq) = Some s' \<and> w_cur s' = 1000 \<and> pq_rep 1024 (w_pq s') Q \<and> (\<forall>p\<in>#Q. 1000 \<le> fst p)"
  using weave_phase_returns [OF ex_start] by (auto simp: ex_weave_def)

lemma weave_events_start_witness:
  "\<exists>s'. cs_loop (ex_weave ex_pq) = Some s' \<and> first_run (w_log s') 1 = Some 105 \<and>
     105 = Max (insert 0 {f + ev_post w | p w f. (p, f) \<in> set (w_fin s') \<and> map_of ex_heap p = Some w \<and> 1 \<in> set (ev_kids w)}) \<and> 0 \<in> fst ` set (w_fin s')"
proof -
  obtain s' xs where s': "cs_loop (ex_weave ex_pq) = Some s'" "w_log s' = xs @ [(1, 105), (0, 100)]" using ex_loop by blast
  then have f: "first_run (w_log s') 1 = Some 105" by (simp add: first_run_def)
  have h: "w_ev (ex_weave ex_pq) = map_of ex_heap" by (simp add: ex_weave_def)
  have v: "map_of ex_heap 1 = Some (ex_ev EV_NONE [2] 1 105 0 0 (MissStartEvent 0))" "map_of ex_heap 0 = Some (ex_ev EV_QUEUED [1] 0 100 0 5 (TimingCoreEvent 100 0))"
    by (simp_all add: ex_heap_def)
  have k: "1 \<in> set (ev_kids (ex_ev EV_QUEUED [1] 0 100 0 5 (TimingCoreEvent 100 0)))" by (simp add: ex_ev_def ev_kids_def)
  note E = weave_events_start [OF ex_start s'(1), unfolded h, THEN conjunct2, rule_format, OF f v(1)]
  have "0 \<in> fst ` set (w_fin s')" using E v(2) k by (simp add: ex_ev_def)
  then show ?thesis using s'(1) f E by (intro exI [of _ s']) (simp add: ex_ev_def)
qed

end
