(* ===== verification/Core_Recorder.thy ===== *)
theory Core_Recorder
  imports Weave_Phase
begin

text \<open>
  The recorders of cores, which turn accesses into timing events in the bound phase (\<^verbatim>\<open>core_recorder.cpp\<close>,
  \<^verbatim>\<open>ooo_core_recorder.cpp\<close>, \<^verbatim>\<open>event_recorder.h\<close>), and \<open>simulatePhase\<close> of \<^verbatim>\<open>contention_sim.cpp\<close> between them.

  A recorder is the index \<open>r\<close> of a record in \<open>w_rec\<close>. \<open>glob\<close> is \<open>zinfo->globPhaseCycles\<close>, \<open>w_PL\<close> the phase's length. Delays are
  \<open>uint32_t\<close>, cycles are subtracted in 64 bits. There is one domain, so no crossings are produced. \<open>futureResponses\<close> is a list
  sorted by cycle: the order of its heap's array, in which \<open>recordAccess\<close> links it, is the library's. The identifiers
  \<open>curId\<close> are for traces and left out.
\<close>

section \<open>Helpers\<close>

definition sub64 :: "nat \<Rightarrow> nat \<Rightarrow> nat" where
  "sub64 a b = (a + 2 ^ 64 - b) mod 2 ^ 64"

definition u32 :: "nat \<Rightarrow> nat" where
  "u32 a = a mod 2 ^ 32"

definition cr_get :: "nat \<Rightarrow> weave \<Rightarrow> recorder option" where
  "cr_get r s = (if r < length (w_rec s) then Some (w_rec s ! r) else None)"

text \<open>A new event with its \<open>minStartCycle\<close>.\<close>

definition ev_make :: "tev \<Rightarrow> nat \<Rightarrow> weave \<Rightarrow> nat \<times> weave" where
  "ev_make v minStart s = w_new (v\<lparr>ev_minStart := minStart\<rparr>) s"

definition DelayEv :: "nat \<Rightarrow> tev" where
  "DelayEv delay = ev_new DelayEvent (u32 delay) 0 (-1)"

section \<open>The event recorder\<close>

definition pushRecord :: "nat \<Rightarrow> timing_record \<Rightarrow> weave \<Rightarrow> weave option" where
  "pushRecord r tr s =
     Option.bind (cr_get r s) (\<lambda>c.
     Option.bind (guard (cr_tr c = None)) (\<lambda>_. Some (w_setRec r (c\<lparr>cr_tr := Some tr\<rparr>) s)))"

definition popRecord :: "nat \<Rightarrow> weave \<Rightarrow> (timing_record \<times> weave) option" where
  "popRecord r s =
     Option.bind (cr_get r s) (\<lambda>c.
     Option.bind (cr_tr c) (\<lambda>tr. Some (tr, w_setRec r (c\<lparr>cr_tr := None\<rparr>) s)))"

definition hasRecord :: "nat \<Rightarrow> weave \<Rightarrow> bool" where
  "hasRecord r s \<longleftrightarrow> (case cr_get r s of None \<Rightarrow> False | Some c \<Rightarrow> cr_tr c \<noteq> None)"

section \<open>CoreRecorder\<close>

definition TimingCoreEv :: "nat \<Rightarrow> nat \<Rightarrow> nat \<Rightarrow> int \<Rightarrow> tev" where
  "TimingCoreEv delay orig r dmn = ev_new (TimingCoreEvent orig r) 0 (u32 delay) dmn"

text \<open>A \<open>TimingCoreEvent\<close> after the previous response, which it becomes.\<close>

definition cr_append :: "nat \<Rightarrow> nat \<Rightarrow> weave \<Rightarrow> weave option" where
  "cr_append r delay s =
     Option.bind (cr_get r s) (\<lambda>c.
     case ev_make (TimingCoreEv delay (sub64 (cr_prevResp c) (cr_gap c)) r (-1)) (cr_prevResp c) s of (ev, s1) \<Rightarrow>
     Option.bind (cr_prev c) (\<lambda>p.
     Option.bind (ev_addChild p ev s1) (\<lambda>s2. Some (w_setRec r (c\<lparr>cr_prev := Some ev\<rparr>) s2))))"

definition cr_setResp :: "nat \<Rightarrow> nat \<Rightarrow> weave \<Rightarrow> weave option" where
  "cr_setResp r cycle s = Option.bind (cr_get r s) (\<lambda>c. Some (w_setRec r (c\<lparr>cr_prevResp := cycle\<rparr>) s))"

definition cr_notifyJoin :: "nat \<Rightarrow> nat \<Rightarrow> nat \<Rightarrow> weave \<Rightarrow> (nat \<times> weave) option" where
  "cr_notifyJoin glob r curCycle s =
     Option.bind (cr_get r s) (\<lambda>c.
     case cr_state c of
       HALTED \<Rightarrow>
         Option.bind (guard (cr_prev c = None)) (\<lambda>_.
         Option.bind (guard (cr_lastUnhalted c \<le> glob)) (\<lambda>_.
         case ev_make (TimingCoreEv 0 glob r 0) glob s of (ev, s1) \<Rightarrow>
         Option.bind (ev_queue ev glob s1) (\<lambda>s2.
         Some (glob, w_setRec r (c\<lparr>cr_totalGap := cr_totalGap c + cr_gap c, cr_gap := 0, cr_lastGap := 0,
           cr_totalHalted := cr_totalHalted c + (glob - cr_lastUnhalted c), cr_prev := Some ev, cr_prevResp := glob,
           cr_slack := 0, cr_state := RUNNING\<rparr>) s2))))
     | DRAINING \<Rightarrow> Option.bind (guard (curCycle \<ge> glob)) (\<lambda>_. Some (curCycle, w_setRec r (c\<lparr>cr_state := RUNNING\<rparr>) s))
     | RUNNING \<Rightarrow> None)"

definition cr_notifyLeave :: "nat \<Rightarrow> nat \<Rightarrow> weave \<Rightarrow> weave option" where
  "cr_notifyLeave r curCycle s =
     Option.bind (cr_get r s) (\<lambda>c.
     Option.bind (guard (cr_state c = RUNNING \<and> cr_prev c \<noteq> None)) (\<lambda>_.
     Option.bind (cr_append r (sub64 curCycle (cr_prevResp c)) (w_setRec r (c\<lparr>cr_state := DRAINING\<rparr>) s)) (\<lambda>s1.
     Option.bind (cr_setResp r curCycle s1) (cr_append r 0))))"

definition cr_recordAccess :: "nat \<Rightarrow> nat \<Rightarrow> weave \<Rightarrow> weave option" where
  "cr_recordAccess r startCycle s =
     Option.bind (popRecord r s) (\<lambda>(tr, s1).
     Option.bind (cr_get r s1) (\<lambda>c.
     Option.bind (guard (startCycle \<ge> cr_prevResp c)) (\<lambda>_.
     Option.bind (guard (tr_reqCycle tr \<ge> startCycle)) (\<lambda>_.
     if tr_get tr
     then Option.bind (cr_append r (tr_reqCycle tr - cr_prevResp c) s1) (\<lambda>s2.
          Option.bind (cr_get r s2) (\<lambda>c2.
          Option.bind (cr_prev c2) (\<lambda>ev.
          Option.bind (ev_addChild ev (tr_start tr) s2) (\<lambda>s3.
          Some (w_setRec r (c2\<lparr>cr_prev := Some (tr_end tr), cr_prevResp := tr_respCycle tr\<rparr>) s3)))))
     else case ev_make (DelayEv (tr_reqCycle tr - cr_prevResp c)) (cr_prevResp c) s1 of (dr, s2) \<Rightarrow>
          Option.bind (cr_prev c) (\<lambda>p. ev_chain [p, dr, tr_start tr] s2)))))"

definition cr_record :: "nat \<Rightarrow> nat \<Rightarrow> weave \<Rightarrow> weave option" where
  "cr_record r startCycle s = (if hasRecord r s then cr_recordAccess r startCycle s else Some s)"

definition cr_cSimStart :: "nat \<Rightarrow> nat \<Rightarrow> nat \<Rightarrow> weave \<Rightarrow> (nat \<times> weave) option" where
  "cr_cSimStart glob r curCycle s =
     Option.bind (cr_get r s) (\<lambda>c.
     let nextPhaseCycle = glob + w_PL s in
     case cr_state c of
       HALTED \<Rightarrow> Some (curCycle, s)
     | RUNNING \<Rightarrow>
         Option.bind (guard (curCycle \<ge> nextPhaseCycle)) (\<lambda>_.
         Option.bind
           (if cr_prevResp c < curCycle
            then Option.bind (cr_append r (curCycle - cr_prevResp c) s) (cr_setResp r curCycle)
            else Some s) (\<lambda>s1.
         Option.bind (cr_append r 0 s1) (\<lambda>s2. Some (curCycle, s2))))
     | DRAINING \<Rightarrow> Some (max curCycle nextPhaseCycle, s))"

definition cr_cSimEnd :: "nat \<Rightarrow> nat \<Rightarrow> weave \<Rightarrow> (nat \<times> weave) option" where
  "cr_cSimEnd r curCycle s =
     Option.bind (cr_get r s) (\<lambda>c.
     if cr_state c = HALTED then Some (curCycle, s)
     else
       let lastEvCycle1 = cr_simOrig c + cr_gap c; lastEvCycle2 = cr_simStart c in
       Option.bind (guard (lastEvCycle1 \<le> curCycle \<and> lastEvCycle2 \<le> curCycle \<and> lastEvCycle1 \<le> lastEvCycle2)) (\<lambda>_.
       let skew = lastEvCycle2 - lastEvCycle1;
           c1 = c\<lparr>cr_gap := cr_gap c + skew, cr_prevResp := cr_prevResp c + skew, cr_lastGap := cr_gap c + skew\<rparr> in
       Option.bind
         (if cr_prev c1 = None
          then Option.bind (guard (cr_state c1 = DRAINING)) (\<lambda>_. Some (c1\<lparr>cr_lastUnhalted := cr_simStart c1, cr_state := HALTED\<rparr>))
          else Some c1) (\<lambda>c2. Some (curCycle + skew, w_setRec r c2 s))))"

definition cr_getUnhaltedCycles :: "nat \<Rightarrow> recorder \<Rightarrow> nat \<Rightarrow> nat" where
  "cr_getUnhaltedCycles glob c curCycle =
     (let cycle = max curCycle glob;
          haltedCycles = cr_totalHalted c + (if cr_state c = HALTED then sub64 cycle (cr_lastUnhalted c) else 0)
      in sub64 cycle haltedCycles)"

definition cr_getContentionCycles :: "recorder \<Rightarrow> nat" where
  "cr_getContentionCycles c = cr_totalGap c + cr_gap c"

section \<open>OOOCoreRecorder\<close>

definition OOOIssueEv :: "nat \<Rightarrow> nat \<Rightarrow> nat \<Rightarrow> tev" where
  "OOOIssueEv preDelay zll r = ev_new (OOOIssueEvent zll r) (u32 preDelay) 0 0"

text \<open>\<open>zllStartCycle\<close> of the last issue event.\<close>

definition ev_zll :: "nat \<Rightarrow> weave \<Rightarrow> nat option" where
  "ev_zll e s = Option.bind (w_ev s e) (\<lambda>v. case ev_kind v of OOOIssueEvent zll r \<Rightarrow> Some zll | _ \<Rightarrow> None)"

text \<open>The loop that links the responses before \<open>zllCycle\<close>: \<open>maxCycle\<close> and what is left of \<open>futureResponses\<close>.\<close>

fun ooo_link :: "nat \<Rightarrow> nat \<Rightarrow> nat \<Rightarrow> (nat \<times> nat option) list \<Rightarrow> nat \<Rightarrow> weave \<Rightarrow> (nat \<times> (nat \<times> nat option) list \<times> weave) option" where
  "ooo_link ev zllCycle lastZll [] maxCycle s = Some (maxCycle, [], s)"
| "ooo_link ev zllCycle lastZll ((z, fr) # frs) maxCycle s =
     (if z \<ge> zllCycle then Some (maxCycle, (z, fr) # frs, s)
      else case fr of
        None \<Rightarrow> ooo_link ev zllCycle lastZll frs maxCycle s
      | Some p \<Rightarrow>
          Option.bind (ev_addChild p ev s) (\<lambda>s1.
          Option.bind (guard (maxCycle \<le> z \<and> z \<ge> lastZll)) (\<lambda>_. ooo_link ev zllCycle lastZll frs z s1)))"

definition ooo_addIssueEvent :: "nat \<Rightarrow> nat \<Rightarrow> weave \<Rightarrow> weave option" where
  "ooo_addIssueEvent r evCycle s =
     Option.bind (cr_get r s) (\<lambda>c.
     Option.bind (cr_prev c) (\<lambda>last.
     Option.bind (ev_zll last s) (\<lambda>lastZll.
     let zllCycle = sub64 evCycle (cr_gap c) in
     Option.bind (guard (zllCycle \<ge> lastZll)) (\<lambda>_.
     case w_new (OOOIssueEv 0 zllCycle r) s of (ev, s1) \<Rightarrow>
     Option.bind (ooo_link ev zllCycle lastZll (cr_future c) 0 s1) (\<lambda>(maxCycle, frs, s2).
     let preDelay = (if maxCycle \<noteq> 0 then if maxCycle < zllCycle then u32 (zllCycle - maxCycle) else 0 else 0);
         issueDelay = u32 (sub64 (zllCycle - lastZll) preDelay) in
     Option.bind (w_ev s2 ev) (\<lambda>v.
     Option.bind (w_ev s2 last) (\<lambda>vl.
     case ev_make (DelayEv issueDelay) (ev_minStart vl) (w_put ev (v\<lparr>ev_pre := preDelay\<rparr>) s2) of (dIssue, s3) \<Rightarrow>
     Option.bind (ev_chain [last, dIssue, ev] s3) (\<lambda>s4.
     Option.bind (ev_setMinStart ev evCycle s4) (\<lambda>s5.
     Some (w_setRec r (c\<lparr>cr_prev := Some ev, cr_future := frs\<rparr>) s5))))))))))"

definition ooo_notifyJoin :: "nat \<Rightarrow> nat \<Rightarrow> nat \<Rightarrow> weave \<Rightarrow> (nat \<times> weave) option" where
  "ooo_notifyJoin glob r curCycle s =
     Option.bind (cr_get r s) (\<lambda>c.
     case cr_state c of
       HALTED \<Rightarrow>
         Option.bind (guard (cr_prev c = None)) (\<lambda>_.
         Option.bind (guard (cr_lastUnhalted c \<le> glob)) (\<lambda>_.
         case ev_make (OOOIssueEv 0 glob r) glob s of (ev, s1) \<Rightarrow>
         Option.bind (ev_queue ev glob s1) (\<lambda>s2.
         Some (glob, w_setRec r (c\<lparr>cr_totalGap := cr_totalGap c + cr_gap c, cr_gap := 0, cr_lastGap := 0,
           cr_totalHalted := cr_totalHalted c + (glob - cr_lastUnhalted c), cr_prev := Some ev, cr_slack := 0, cr_state := RUNNING\<rparr>) s2))))
     | DRAINING \<Rightarrow>
         Option.bind (guard (curCycle \<ge> glob \<and> cr_prev c \<noteq> None)) (\<lambda>_.
         Option.bind (ooo_addIssueEvent r curCycle s) (\<lambda>s1.
         Option.bind (cr_get r s1) (\<lambda>c1. Some (curCycle, w_setRec r (c1\<lparr>cr_state := RUNNING\<rparr>) s1))))
     | RUNNING \<Rightarrow> None)"

definition ooo_notifyLeave :: "nat \<Rightarrow> nat \<Rightarrow> weave \<Rightarrow> weave option" where
  "ooo_notifyLeave r curCycle s =
     Option.bind (cr_get r s) (\<lambda>c.
     Option.bind (guard (cr_state c = RUNNING)) (\<lambda>_.
     Option.bind (cr_prev c) (\<lambda>last.
     Option.bind (ev_zll last s) (\<lambda>lastZll.
     Option.bind (guard (sub64 curCycle (cr_gap c) \<ge> lastZll)) (\<lambda>_.
     ooo_addIssueEvent r curCycle (w_setRec r (c\<lparr>cr_state := DRAINING\<rparr>) s))))))"

text \<open>Delays from the responses before the dispatch to the dispatch event.\<close>

fun ooo_linkDispatch :: "nat \<Rightarrow> nat \<Rightarrow> (nat \<times> nat option) list \<Rightarrow> weave \<Rightarrow> weave option" where
  "ooo_linkDispatch dispEv zllDispatch [] s = Some s"
| "ooo_linkDispatch dispEv zllDispatch ((z, fr) # frs) s =
     (case fr of
        Some p \<Rightarrow>
          (if z < zllDispatch
           then case w_new (DelayEv (zllDispatch - z)) s of (dl, s1) \<Rightarrow>
             Option.bind (ev_chain [p, dl, dispEv] s1) (ooo_linkDispatch dispEv zllDispatch frs)
           else ooo_linkDispatch dispEv zllDispatch frs s)
      | None \<Rightarrow> ooo_linkDispatch dispEv zllDispatch frs s)"

definition ooo_recordAccess :: "nat \<Rightarrow> nat \<Rightarrow> nat \<Rightarrow> nat \<Rightarrow> weave \<Rightarrow> weave option" where
  "ooo_recordAccess r curCycle dispatchCycle respCycle s =
     Option.bind (popRecord r s) (\<lambda>(tr, s1).
     if tr_get tr
     then Option.bind (ooo_addIssueEvent r curCycle s1) (\<lambda>s2.
          Option.bind (cr_get r s2) (\<lambda>c.
          case ev_make (DelayEv (sub64 dispatchCycle curCycle)) curCycle s2 of (dDisp, s3) \<Rightarrow>
          case ev_make (ev_new (OOODispatchEvent dispatchCycle) 0 0 (-1)) dispatchCycle s3 of (dispEv, s4) \<Rightarrow>
          Option.bind (ooo_linkDispatch dispEv (sub64 dispatchCycle (cr_gap c)) (cr_future c) s4) (\<lambda>s5.
          case ev_make (DelayEv (sub64 (tr_reqCycle tr) dispatchCycle)) dispatchCycle s5 of (dUp, s6) \<Rightarrow>
          Option.bind (cr_prev c) (\<lambda>last.
          Option.bind (ev_chain [last, dDisp, dispEv, dUp, tr_start tr] s6) (\<lambda>s7.
          Option.bind (guard (respCycle \<ge> tr_respCycle tr)) (\<lambda>_.
          case ev_make (ev_new (OOORespEvent r) (u32 (respCycle - tr_respCycle tr)) 0 0) respCycle s7 of (respEvent, s8) \<Rightarrow>
          Option.bind (ev_addChild (tr_end tr) respEvent s8) (\<lambda>s9.
          Some (w_setRec r (c\<lparr>cr_future := insort_key fst (sub64 respCycle (cr_gap c), Some respEvent) (cr_future c)\<rparr>) s9))))))))
     else Option.bind (cr_get r s1) (\<lambda>c.
          case ev_make (DelayEv (sub64 (tr_reqCycle tr) curCycle)) curCycle s1 of (putUp, s2) \<Rightarrow>
          Option.bind (cr_prev c) (\<lambda>last. ev_chain [last, putUp, tr_start tr] s2)))"

definition ooo_record :: "nat \<Rightarrow> nat \<Rightarrow> nat \<Rightarrow> nat \<Rightarrow> weave \<Rightarrow> weave option" where
  "ooo_record r curCycle dispatchCycle respCycle s =
     (if hasRecord r s then ooo_recordAccess r curCycle dispatchCycle respCycle s else Some s)"

definition ooo_cSimStart :: "nat \<Rightarrow> nat \<Rightarrow> nat \<Rightarrow> weave \<Rightarrow> (nat \<times> weave) option" where
  "ooo_cSimStart glob r curCycle s =
     Option.bind (cr_get r s) (\<lambda>c.
     let nextPhaseCycle = glob + w_PL s; zllCycle = sub64 curCycle (cr_gap c); zllNextPhaseCycle = sub64 nextPhaseCycle (cr_gap c) in
     case cr_state c of
       HALTED \<Rightarrow> Some (curCycle, s)
     | RUNNING \<Rightarrow>
         Option.bind (guard (curCycle > nextPhaseCycle)) (\<lambda>_.
         Option.bind (cr_prev c) (\<lambda>last.
         Option.bind (ev_zll last s) (\<lambda>lastZll.
         Option.bind (guard (lastZll \<le> zllCycle)) (\<lambda>_.
         Option.bind (if lastZll < zllNextPhaseCycle then ooo_addIssueEvent r nextPhaseCycle s else Some s) (\<lambda>s1. Some (curCycle, s1))))))
     | DRAINING \<Rightarrow> Some (max curCycle nextPhaseCycle, w_setRec r (c\<lparr>cr_future := []\<rparr>) s))"

text \<open>A response that was simulated has a null \<open>cRec\<close>, and is freed.\<close>

definition ooo_forget :: "weave \<Rightarrow> nat \<times> nat option \<Rightarrow> nat \<times> nat option" where
  "ooo_forget s fr = (case snd fr of None \<Rightarrow> fr | Some e \<Rightarrow> if w_ev s e = None then (fst fr, None) else fr)"

definition ooo_cSimEnd :: "nat \<Rightarrow> nat \<Rightarrow> weave \<Rightarrow> (nat \<times> weave) option" where
  "ooo_cSimEnd r curCycle s =
     Option.bind (cr_get r s) (\<lambda>c.
     if cr_state c = HALTED then Some (curCycle, s)
     else
       let lastEvCycle1 = cr_simOrig c + cr_gap c; lastEvCycle2 = cr_simStart c in
       Option.bind (guard (lastEvCycle1 \<le> curCycle \<and> lastEvCycle2 \<le> curCycle \<and> lastEvCycle1 \<le> lastEvCycle2)) (\<lambda>_.
       let skew = lastEvCycle2 - lastEvCycle1;
           c1 = c\<lparr>cr_gap := cr_gap c + skew, cr_lastGap := cr_gap c + skew, cr_future := map (ooo_forget s) (cr_future c)\<rparr> in
       Option.bind
         (if cr_prev c1 = None
          then Option.bind (guard (cr_state c1 = DRAINING \<and> cr_future c1 = [])) (\<lambda>_.
            Some (c1\<lparr>cr_lastUnhalted := cr_simStart c1, cr_state := HALTED\<rparr>))
          else Some c1) (\<lambda>c2. Some (curCycle + skew, w_setRec r c2 s))))"

section \<open>Phases\<close>

text \<open>Core \<open>i\<close> has recorder \<open>i\<close>; it is a \<open>TimingCore\<close>, or an \<open>OOOCore\<close> if the flag is set, with its \<open>curCycle\<close>. Without such
  cores the simulation is skipped. What an \<open>OOOCore\<close> does to reach the cycle its recorder gives it is \<open>ooo_cSim\<close> of \<open>OOO_Core\<close>.\<close>

primrec cs_cSimStart :: "nat \<Rightarrow> nat \<Rightarrow> (bool \<times> nat) list \<Rightarrow> weave \<Rightarrow> ((bool \<times> nat) list \<times> weave) option" where
  "cs_cSimStart glob r [] s = Some ([], s)"
| "cs_cSimStart glob r (core # cores) s =
     Option.bind (if fst core then ooo_cSimStart glob r (snd core) s else cr_cSimStart glob r (snd core) s) (\<lambda>(c, s1).
     Option.bind (cs_cSimStart glob (r + 1) cores s1) (\<lambda>(cores', s2). Some ((fst core, c) # cores', s2)))"

primrec cs_cSimEnd :: "nat \<Rightarrow> (bool \<times> nat) list \<Rightarrow> weave \<Rightarrow> ((bool \<times> nat) list \<times> weave) option" where
  "cs_cSimEnd r [] s = Some ([], s)"
| "cs_cSimEnd r (core # cores) s =
     Option.bind (if fst core then ooo_cSimEnd r (snd core) s else cr_cSimEnd r (snd core) s) (\<lambda>(c, s1).
     Option.bind (cs_cSimEnd (r + 1) cores s1) (\<lambda>(cores', s2). Some ((fst core, c) # cores', s2)))"

definition simulatePhase :: "nat \<Rightarrow> nat \<Rightarrow> (bool \<times> nat) list \<Rightarrow> weave \<Rightarrow> ((bool \<times> nat) list \<times> weave) option" where
  "simulatePhase glob limit cores s =
     (if cores = [] then Some (cores, s) else
     Option.bind (guard (limit \<ge> w_lastLimit s)) (\<lambda>_.
     Option.bind (cs_cSimStart glob 0 cores (s\<lparr>w_limit := limit\<rparr>)) (\<lambda>(cores1, s1).
     Option.bind (cs_loop (s1\<lparr>w_inCSim := True, w_log := []\<rparr>)) (\<lambda>s2.
     Option.bind (cs_cSimEnd 0 cores1 (s2\<lparr>w_inCSim := False\<rparr>)) (\<lambda>(cores2, s3).
     Some (cores2, s3\<lparr>w_lastLimit := limit\<rparr>))))))"

section \<open>Clocks\<close>

text \<open>A core's clock at the end of a weave phase: it advances by the delay of the contention, as the gap between the bound phase's
  clock and the zero-load clock does, so that the last event's zero-load start, seen in the new clock, is when it started.\<close>

definition clock_kept :: "recorder \<Rightarrow> nat \<Rightarrow> recorder \<Rightarrow> nat \<Rightarrow> bool" where
  "clock_kept c cur c' cur' \<longleftrightarrow>
     int cur' - int (cr_gap c') = int cur - int (cr_gap c) \<and> cur \<le> cur' \<and>
     (if cr_state c = HALTED then c' = c
      else cr_simOrig c + cr_gap c' = cr_simStart c \<and> cr_simStart c \<le> cur \<and> cr_lastGap c' = cr_gap c' \<and>
        cr_getContentionCycles c' - cr_getContentionCycles c = cur' - cur \<and>
        (if cr_prev c = None then cr_state c = DRAINING \<and> cr_state c' = HALTED \<and> cr_lastUnhalted c' = cr_simStart c else cr_state c' = cr_state c))"

lemma cr_get_Some: "cr_get r s = Some c \<longleftrightarrow> r < length (w_rec s) \<and> c = w_rec s ! r"
  by (auto simp: cr_get_def)

lemma cr_cSimEnd_clock:
  assumes "cr_cSimEnd r cur s = Some (cur', s')"
  shows "r < length (w_rec s) \<and> (\<exists>c'. s' = w_setRec r c' s \<and> clock_kept (w_rec s ! r) cur c' cur')"
proof -
  obtain c where c: "r < length (w_rec s)" "c = w_rec s ! r" using assms by (auto simp: cr_cSimEnd_def cr_get_Some bind_eq_Some_conv)
  then have g: "cr_get r s = Some c" by (simp add: cr_get_def)
  show ?thesis
  proof (cases "cr_state c = HALTED")
    case True
    then have "s' = w_setRec r c s" "cur' = cur" using assms g c by (simp_all add: cr_cSimEnd_def w_setRec_def)
    then show ?thesis using True c by (auto simp: clock_kept_def)
  next
    case False
    then show ?thesis using assms g c
      by (cases "cr_prev c") (auto simp: cr_cSimEnd_def Let_def bind_eq_Some_conv guard_def clock_kept_def cr_getContentionCycles_def split: if_splits)
  qed
qed

lemma ooo_cSimEnd_clock:
  assumes "ooo_cSimEnd r cur s = Some (cur', s')"
  shows "r < length (w_rec s) \<and> (\<exists>c'. s' = w_setRec r c' s \<and> clock_kept (w_rec s ! r) cur c' cur')"
proof -
  obtain c where c: "r < length (w_rec s)" "c = w_rec s ! r" using assms by (auto simp: ooo_cSimEnd_def cr_get_Some bind_eq_Some_conv)
  then have g: "cr_get r s = Some c" by (simp add: cr_get_def)
  show ?thesis
  proof (cases "cr_state c = HALTED")
    case True
    then have "s' = w_setRec r c s" "cur' = cur" using assms g c by (simp_all add: ooo_cSimEnd_def w_setRec_def)
    then show ?thesis using True c by (auto simp: clock_kept_def)
  next
    case False
    then show ?thesis using assms g c
      by (cases "cr_prev c") (auto simp: ooo_cSimEnd_def Let_def bind_eq_Some_conv guard_def clock_kept_def cr_getContentionCycles_def split: if_splits)
  qed
qed

lemma core_cSimEnd_clock:
  "(if fst core then ooo_cSimEnd r (snd core) s else cr_cSimEnd r (snd core) s) = Some (cur', s') \<Longrightarrow>
   r < length (w_rec s) \<and> (\<exists>c'. s' = w_setRec r c' s \<and> clock_kept (w_rec s ! r) (snd core) c' cur')"
  using ooo_cSimEnd_clock cr_cSimEnd_clock by (cases "fst core") simp_all

lemma cs_cSimEnd_clocks:
  assumes "cs_cSimEnd r cores s = Some (cores', s')"
  shows "length (w_rec s') = length (w_rec s) \<and> map fst cores' = map fst cores \<and> (\<forall>j<r. w_rec s' ! j = w_rec s ! j) \<and>
    (\<forall>i<length cores. r + i < length (w_rec s) \<and> clock_kept (w_rec s ! (r + i)) (snd (cores ! i)) (w_rec s' ! (r + i)) (snd (cores' ! i)))"
  using assms
proof (induction cores arbitrary: r s cores')
  case (Cons core cores)
  obtain cur' s1 cores1 where s1: "(if fst core then ooo_cSimEnd r (snd core) s else cr_cSimEnd r (snd core) s) = Some (cur', s1)"
      "cs_cSimEnd (r + 1) cores s1 = Some (cores1, s')" "cores' = (fst core, cur') # cores1"
    using Cons.prems by (auto simp: bind_eq_Some_conv)
  obtain c' where c': "r < length (w_rec s)" "s1 = w_setRec r c' s" "clock_kept (w_rec s ! r) (snd core) c' cur'"
    using core_cSimEnd_clock [OF s1(1)] by blast
  have rec1: "w_rec s1 = (w_rec s)[r := c']" using c'(2) by (simp add: w_setRec_def)
  note IH = Cons.IH [OF s1(2), unfolded rec1 length_list_update]
  have keep: "w_rec s' ! r = c'" using IH c'(1) by simp
  have "r + i < length (w_rec s) \<and> clock_kept (w_rec s ! (r + i)) (snd ((core # cores) ! i)) (w_rec s' ! (r + i)) (snd (cores' ! i))"
    if "i < length (core # cores)" for i
  proof (cases i)
    case 0
    then show ?thesis using c' keep s1(3) by simp
  next
    case (Suc j)
    then have "j < length cores" using that by simp
    then show ?thesis using IH Suc s1(3) by auto
  qed
  then show ?case using IH s1(3) by (auto simp: less_Suc_eq_le)
qed simp

text \<open>C11. After a weave phase every core's clock and the gap of its recorder have advanced by the same delay, so the zero-load clock is
  the same as before; the event that the recorder reports last starts in the new clock where the contention simulation started it;
  the contention cycles grow by the delay; and a recorder halts if and only if it was draining and its last event has been simulated.\<close>

lemma phase_keeps_clocks:
  assumes "simulatePhase glob limit cores s = Some (cores', s')" and "cores \<noteq> []" and "i < length cores"
  shows "\<exists>s1 cores1 s2. cs_cSimStart glob 0 cores (s\<lparr>w_limit := limit\<rparr>) = Some (cores1, s1) \<and> cs_loop (s1\<lparr>w_inCSim := True, w_log := []\<rparr>) = Some s2 \<and>
    clock_kept (w_rec s2 ! i) (snd (cores1 ! i)) (w_rec s' ! i) (snd (cores' ! i)) \<and> w_lastLimit s' = limit \<and> \<not> w_inCSim s'"
proof -
  obtain cores1 s1 s2 s3 where P: "cs_cSimStart glob 0 cores (s\<lparr>w_limit := limit\<rparr>) = Some (cores1, s1)" "cs_loop (s1\<lparr>w_inCSim := True, w_log := []\<rparr>) = Some s2"
      "cs_cSimEnd 0 cores1 (s2\<lparr>w_inCSim := False\<rparr>) = Some (cores', s3)" "s' = s3\<lparr>w_lastLimit := limit\<rparr>"
    using assms(1,2) by (auto simp: simulatePhase_def bind_eq_Some_conv)
  have len: "length cores1 = length cores" if "cs_cSimStart glob r cores s = Some (cores1, s1)" for r s s1 cores cores1
    using that by (induction cores arbitrary: r s cores1 s1) (auto simp: bind_eq_Some_conv)
  have no: "\<not> w_inCSim t'" if "cs_cSimEnd r cs t = Some (cs', t')" "\<not> w_inCSim t" for r cs t cs' t'
    using that
  proof (induction cs arbitrary: r t cs')
    case (Cons core cs)
    then show ?case using core_cSimEnd_clock [of core r t] by (fastforce simp: bind_eq_Some_conv w_setRec_def)
  qed simp
  show ?thesis
    using P cs_cSimEnd_clocks [OF P(3)] assms(3) len [OF P(1)] no [OF P(3)] by (intro exI [of _ s1] exI [of _ cores1] exI [of _ s2]) auto
qed

text \<open>A draining core whose last event was delayed by 30 cycles.\<close>

definition ex_drained :: weave where
  "ex_drained = (ex_weave (pq_new 1024))\<lparr>w_ev := Map.empty, w_inCSim := False,
     w_rec := [(w_rec (ex_weave (pq_new 1024)) ! 0)\<lparr>cr_simStart := 150, cr_simOrig := 100, cr_gap := 20\<rparr>]\<rparr>"

lemma cs_loop_empty: "pq_size (w_pq s) = 0 \<Longrightarrow> cs_loop s = Some (s\<lparr>w_cur := w_limit s\<rparr>)"
  by (subst cs_loop.simps) simp

lemma ex_drained_run: "\<exists>s'. simulatePhase 0 1000 [(False, 1200)] ex_drained = Some ([(False, 1230)], s') \<and> cr_gap (w_rec s' ! 0) = 50"
proof -
  obtain c where c: "w_rec ex_drained = [c]" "cr_state c = DRAINING" "cr_prev c = None" "cr_simStart c = 150" "cr_simOrig c = 100" "cr_gap c = 20"
    by (simp add: ex_drained_def ex_weave_def)
  have s: "pq_size (w_pq ex_drained) = 0" "w_PL ex_drained = 1000" "w_lastLimit ex_drained = 0"
    by (simp_all add: ex_drained_def ex_weave_def pq_size_def pq_new_def)
  let ?s1 = "ex_drained\<lparr>w_limit := 1000\<rparr>"
  have 1: "cs_cSimStart 0 0 [(False, 1200)] ?s1 = Some ([(False, 1200)], ?s1)"
    using c s by (simp add: cr_cSimStart_def cr_get_def)
  let ?s2 = "?s1\<lparr>w_inCSim := True, w_log := []\<rparr>"
  have 2: "cs_loop ?s2 = Some (?s2\<lparr>w_cur := w_limit ?s2\<rparr>)" by (rule cs_loop_empty) (use s in simp)
  let ?s3 = "?s2\<lparr>w_cur := w_limit ?s2, w_inCSim := False\<rparr>"
  obtain c' where 3: "cs_cSimEnd 0 [(False, 1200)] ?s3 = Some ([(False, 1230)], w_setRec 0 c' ?s3)" "cr_gap c' = 50"
    using c by (simp add: cr_cSimEnd_def cr_get_def)
  show ?thesis using 1 2 3 s(3) c(1) by (simp add: simulatePhase_def w_setRec_def del: cs_cSimStart.simps cs_cSimEnd.simps)
qed

lemma phase_keeps_clocks_witness:
  "\<exists>(s2 :: weave) (cores1 :: (bool \<times> nat) list) s'. simulatePhase 0 1000 [(False, 1200)] ex_drained = Some ([(False, 1230)], s') \<and> cr_gap (w_rec s' ! 0) = 50 \<and>
     clock_kept (w_rec s2 ! 0) (snd (cores1 ! 0)) (w_rec s' ! 0) 1230"
proof -
  obtain s' where s': "simulatePhase 0 1000 [(False, 1200)] ex_drained = Some ([(False, 1230)], s')" "cr_gap (w_rec s' ! 0) = 50" using ex_drained_run by blast
  have "[(False, 1200 :: nat)] \<noteq> []" "0 < length [(False, 1200 :: nat)]" by simp_all
  from phase_keeps_clocks [OF s'(1) this] obtain cores1 :: "(bool \<times> nat) list" and s2 :: weave where "clock_kept (w_rec s2 ! 0) (snd (cores1 ! 0)) (w_rec s' ! 0) (snd ([(False, 1230 :: nat)] ! 0))"
    by blast
  then show ?thesis using s' by (intro exI [of _ s2] exI [of _ cores1] exI [of _ s']) simp
qed

end
