(* ===== verification/Timing_Access.thy ===== *)
theory Timing_Access
  imports Core_Recorder Mem_Types
begin

text \<open>
  The events that accesses record in the bound phase: \<open>TimingCache::access\<close> of \<^verbatim>\<open>timing_cache.cpp\<close>, from the point where the array
  and the controllers have answered, and the memory of \<^verbatim>\<open>weave_md1_mem.h\<close>. The access itself is that of \<open>Cache\<close> (\<open>Coherence\<close>).
\<close>

record tc_params =
  tc_accLat :: nat
  tc_tagLat :: nat
  tc_ways :: nat
  tc_cands :: nat

text \<open>\<open>connect\<close>: two events tied to an optional timing record.\<close>

definition tc_connect :: "timing_record option \<Rightarrow> nat \<Rightarrow> nat \<Rightarrow> nat \<Rightarrow> nat \<Rightarrow> weave \<Rightarrow> weave option" where
  "tc_connect r startEv endEv startCycle endCycle s =
     Option.bind (guard (startCycle \<le> endCycle)) (\<lambda>_.
     case r of
       Some tr \<Rightarrow>
         Option.bind (guard (startCycle \<le> tr_reqCycle tr)) (\<lambda>_.
         Option.bind (guard (tr_respCycle tr \<le> endCycle)) (\<lambda>_.
         let upLat = tr_reqCycle tr - startCycle; downLat = endCycle - tr_respCycle tr in
         Option.bind
           (if upLat \<noteq> 0
            then case ev_make (DelayEv upLat) startCycle s of (dUp, s1) \<Rightarrow> ev_chain [startEv, dUp, tr_start tr] s1
            else ev_addChild startEv (tr_start tr) s) (\<lambda>s2.
         if downLat \<noteq> 0
         then case ev_make (DelayEv downLat) (tr_respCycle tr) s2 of (dDown, s3) \<Rightarrow> ev_chain [tr_end tr, dDown, endEv] s3
         else ev_addChild (tr_end tr) endEv s2)))
     | None \<Rightarrow>
         if startCycle = endCycle then ev_addChild startEv endEv s
         else case ev_make (DelayEv (endCycle - startCycle)) startCycle s of (dEv, s1) \<Rightarrow> ev_chain [startEv, dEv, endEv] s1)"

text \<open>The candidate lookups of a replacement, after event \<open>p\<close>: the last of them and the state. For one way and several candidates
  there are no fringe accesses and the loop does not end.\<close>

partial_function (option) tc_lookups :: "tc_params \<Rightarrow> nat \<Rightarrow> nat \<Rightarrow> nat \<Rightarrow> nat \<Rightarrow> nat \<Rightarrow> nat \<Rightarrow> weave \<Rightarrow> (nat \<times> weave) option" where
  "tc_lookups P k reqCycle replLookups p accsSoFar fringeAccs s =
     (if accsSoFar < replLookups
      then
        let preDelay = (if accsSoFar \<noteq> 0 then 0 else tc_tagLat P);
            postDelay = u32 (tc_tagLat P + 2 ^ 32 - min (u32 (tc_tagLat P + 2 ^ 32 - 1)) fringeAccs);
            accs = min fringeAccs (replLookups - accsSoFar) in
        case ev_make (ev_new (ReplAccessEvent k accs) preDelay postDelay 0) reqCycle s of (raEv, s1) \<Rightarrow>
        Option.bind (ev_addChild p raEv s1) (\<lambda>s2.
        tc_lookups P k reqCycle replLookups raEv (accsSoFar + accs) (u32 (fringeAccs * (tc_ways P - 1))) s2)
      else Some (p, s))"

declare tc_lookups.simps [simp del]

definition tc_replacement :: "tc_params \<Rightarrow> nat \<Rightarrow> nat \<Rightarrow> nat \<Rightarrow> nat \<Rightarrow> weave \<Rightarrow> weave option" where
  "tc_replacement P k reqCycle mse mwe s =
     (let replLookups = (tc_cands P + (tc_ways P - 1)) div tc_ways P - 1 in
      Option.bind (guard (tc_ways P \<noteq> 0 \<and> replLookups \<noteq> 0)) (\<lambda>_.
      Option.bind (tc_lookups P k reqCycle replLookups mse 0 (tc_ways P - 1) s) (\<lambda>(p, s1).
      case ev_make (ev_new (ReplAccessEvent k 1) (tc_tagLat P) (tc_tagLat P) 0) reqCycle s1 of (rdEv, s2) \<Rightarrow>
      case ev_make (ev_new (ReplAccessEvent k 1) 0 0 0) reqCycle s2 of (wrEv, s3) \<Rightarrow>
      ev_chain [p, rdEv, wrEv, mwe] s3)))"

definition tc_hit :: "nat \<Rightarrow> nat \<Rightarrow> bool \<Rightarrow> nat \<Rightarrow> weave \<Rightarrow> timing_record \<times> weave" where
  "tc_hit k reqCycle get respCycle s =
     (case ev_make (ev_new (HitEvent k) 0 (u32 (sub64 respCycle reqCycle)) 0) reqCycle s of (ev, s1) \<Rightarrow>
      (\<lparr>tr_reqCycle = reqCycle, tr_respCycle = respCycle, tr_get = get, tr_start = ev, tr_end = ev\<rparr>, s1))"

definition tc_miss :: "tc_params \<Rightarrow> nat \<Rightarrow> nat \<Rightarrow> bool \<Rightarrow> nat \<Rightarrow> nat \<Rightarrow> nat \<Rightarrow> timing_record option \<Rightarrow> timing_record option \<Rightarrow> weave \<Rightarrow>
    (timing_record \<times> weave) option" where
  "tc_miss P k reqCycle get getDoneCycle respCycle evDoneCycle writebackRecord accessRecord s =
     Option.bind (guard (getDoneCycle = respCycle)) (\<lambda>_.
     case ev_make (ev_new (MissStartEvent k) 0 (tc_accLat P) 0) reqCycle s of (mse, s1) \<Rightarrow>
     case ev_make (ev_new (MissResponseEvent k mse) 0 0 0) getDoneCycle s1 of (mre, s2) \<Rightarrow>
     case ev_make (ev_new (MissWritebackEvent k mse) 0 (tc_accLat P) 0) (max evDoneCycle getDoneCycle) s2 of (mwe, s3) \<Rightarrow>
     Option.bind (tc_connect accessRecord mse mre (reqCycle + tc_accLat P) getDoneCycle s3) (\<lambda>s4.
     Option.bind (ev_addChild mre mwe s4) (\<lambda>s5.
     Option.bind (if evDoneCycle \<noteq> 0 then tc_connect writebackRecord mse mwe (reqCycle + tc_accLat P) evDoneCycle s5 else Some s5) (\<lambda>s6.
     Option.bind (if evDoneCycle \<noteq> 0 \<and> tc_cands P > tc_ways P then tc_replacement P k reqCycle mse mwe s6 else Some s6) (\<lambda>s7.
     Some (\<lparr>tr_reqCycle = reqCycle, tr_respCycle = respCycle, tr_get = get, tr_start = mse, tr_end = mre\<rparr>, s7))))))"

definition tc_record :: "tc_params \<Rightarrow> nat \<Rightarrow> nat \<Rightarrow> nat \<Rightarrow> bool \<Rightarrow> nat \<Rightarrow> nat \<Rightarrow> nat \<Rightarrow> timing_record option \<Rightarrow> timing_record option \<Rightarrow> weave \<Rightarrow>
    weave option" where
  "tc_record P k r reqCycle get getDoneCycle respCycle evDoneCycle writebackRecord accessRecord s =
     Option.bind
       (if sub64 getDoneCycle reqCycle = tc_accLat P
        then Option.bind (guard (writebackRecord = None \<and> accessRecord = None)) (\<lambda>_. Some (tc_hit k reqCycle get respCycle s))
        else tc_miss P k reqCycle get getDoneCycle respCycle evDoneCycle writebackRecord accessRecord s) (\<lambda>(tr, s1).
     pushRecord r tr s1)"

text \<open>\<open>WeaveSimpleMemory::access\<close>; \<open>rec\<close> is the recorder of the core the request comes from, if it has one.\<close>

definition weave_mem_access :: "nat \<Rightarrow> nat \<Rightarrow> nat option \<Rightarrow> memreq \<Rightarrow> weave \<Rightarrow> (mesi \<times> nat \<times> weave) option" where
  "weave_mem_access latency zeroLoadLatency rec req s =
     (let preDelay = zeroLoadLatency div 2; postDelay = zeroLoadLatency - preDelay in
      Option.bind (simple_mem_access latency req) (\<lambda>(st, realRespCycle).
      let realLatency = u32 (realRespCycle - mr_cycle req);
          respCycle = mr_cycle req + (if mr_type req = PUTS then 0 else zeroLoadLatency) in
      Option.bind (guard (realRespCycle \<ge> respCycle)) (\<lambda>_.
      Option.bind (guard (mr_type req = PUTS \<or> realLatency \<ge> zeroLoadLatency)) (\<lambda>_.
      case rec of
        Some r \<Rightarrow>
          (if mr_type req \<noteq> PUTS
           then case ev_make (ev_new (WeaveMemAccEvent (realLatency - zeroLoadLatency)) preDelay postDelay 0) (mr_cycle req) s of (memEv, s1) \<Rightarrow>
             Option.bind (pushRecord r \<lparr>tr_reqCycle = mr_cycle req, tr_respCycle = respCycle, tr_get = IsGet (mr_type req),
               tr_start = memEv, tr_end = memEv\<rparr> s1) (\<lambda>s2. Some (st, respCycle, s2))
           else Some (st, respCycle, s))
      | None \<Rightarrow> Some (st, respCycle, s)))))"

end
