(* ===== verification/Spec2Isabelle.thy ===== *)
theory Spec2Isabelle
  imports Repl_EHC ZCache Cache_System Ideal_LRU Event_Queue Barrier_Sync Repl_Rand Utility_Monitor Way_Part Vantage
    Sched_Steps Filter_Inv Hash_H3 Hash_SHA1 Prefetch_Caches
    Config_Parse Core_Caches Weave_Phase Timing_Access
begin

text \<open>
  A verification library for the simulator zsim as this repository extends it (\<^verbatim>\<open>zsim/src\<close>):
  cache replacement policies, cache arrays, MESI coherence, cache partitioning, and the event and
  synchronisation structures that drive the simulation.

  \<^bold>\<open>How the program is put together.\<close> A core sends line requests to its cache. A \<open>Cache\<close> looks the
  line up in a \<open>CacheArray\<close>; on a miss the array asks its \<open>ReplPolicy\<close> for a victim among the
  candidate lines, the coherence controller evicts it (invalidating it in the caches below, writing
  back to the cache above) and the array inserts the line. The controller then obtains the permission
  the request needs from its parents and its children. Partition-aware policies profile each
  partition's accesses with utility monitors, from which a partitioner computes sizes at every
  interval of an event queue. Simulated threads run in phases, kept together by a barrier.

  \<^bold>\<open>Theories and the code they model.\<close>
  \<^item> \<open>Prelude\<close>: types of machine integers, \<open>guard\<close> (an assertion), array updates, searches.
  \<^item> \<open>Mem_Types\<close>: \<^verbatim>\<open>memory_hierarchy.h/.cpp\<close>, \<^verbatim>\<open>bithacks.h\<close>, \<open>SimpleMemory\<close> of \<^verbatim>\<open>mem_ctrls.cpp\<close>.
  \<^item> \<open>Repl_Interface\<close>: the virtual interface \<open>ReplPolicy\<close> as a record of operations, and its contract
    as the locales \<open>repl_safe\<close> and \<open>repl_policy\<close>. Every policy below interprets one of them.
  \<^item> \<open>Repl_RRIP\<close>, \<open>Repl_SHiP\<close>, \<open>Repl_EHC\<close>: \<^verbatim>\<open>repl_rrip.h\<close>, \<^verbatim>\<open>repl_ship.h\<close>, \<^verbatim>\<open>repl_ehc.h\<close>.
  \<^item> \<open>Repl_LRU\<close>, \<open>Repl_Legacy\<close>, \<open>Repl_Rand\<close>: LRU, TreeLRU, the violation profiler, NRU, LFU and the
    random policy of \<^verbatim>\<open>repl_policies.h\<close>; \<open>Mt_Rand\<close>: the generator of \<^verbatim>\<open>mtrand.h\<close>.
  \<^item> \<open>Cache_Arrays\<close>, \<open>ZCache\<close>, \<open>Ideal_LRU\<close>: the arrays of \<^verbatim>\<open>cache_arrays.cpp\<close> and \<^verbatim>\<open>ideal_arrays.h\<close>.
    The locale \<open>cache_array\<close> is the contract of an array; \<open>setassoc_array\<close> and \<open>zcache_array\<close> prove it
    over any policy that meets \<open>repl_policy\<close>, and are interpreted for LRU, SRRIP, SHiP, EHC and NRU.
  \<^item> \<open>Coherence\<close>: \<^verbatim>\<open>coherence_ctrls.h/.cpp\<close> and \<^verbatim>\<open>cache.cpp\<close>; \<open>Coherence_Inv\<close>: the protocol's
    invariant; \<open>Cache_System\<close>: terminal caches under a shared inclusive cache over memory, as a step
    relation over core accesses (locale \<open>two_level\<close> over any arrays, interpreted for SRRIP caches).
  \<^item> \<open>Cache_Frame\<close>, \<open>Filter_Cache\<close>, \<open>Filter_Inv\<close>: what the controllers' steps leave alone; the filter cache
    of \<^verbatim>\<open>filter_cache.h\<close> over \<open>Cache_System\<close>; its invariant and reachable states.
  \<^item> \<open>Hash_H3\<close>, \<open>Hash_SHA1\<close>: the hash families of \<^verbatim>\<open>hash.cpp\<close> that index arrays and select samples.
  \<^item> \<open>Prefetcher\<close>, \<open>Prefetch_Caches\<close>: the stream prefetcher of \<^verbatim>\<open>prefetcher.cpp\<close>, over a parent with the interface
    \<open>pf_above\<close>; the shared cache of \<open>Cache_System\<close> as that parent.
  \<^item> \<open>Config_Parse\<close>: values of the configuration (\<^verbatim>\<open>config.cpp\<close>) and the network description of \<^verbatim>\<open>network.cpp\<close>.
  \<^item> \<open>OOO_Struct\<close>, \<open>OOO_Window\<close>: the branch predictor, the reorder buffer, the cycle queue and the instruction
    window of \<^verbatim>\<open>ooo_core.h\<close>; the window is proved to refine a calendar of free ports.
  \<^item> \<open>Core_Models\<close>, \<open>OOO_Core\<close>, \<open>Core_Caches\<close>: the cores of \<^verbatim>\<open>simple_core.cpp\<close>, \<^verbatim>\<open>timing_core.cpp\<close>, \<^verbatim>\<open>null_core.cpp\<close>
    and \<^verbatim>\<open>ooo_core.cpp\<close> over an environment of caches and phases (locale \<open>core_env\<close>); the environment of the
    filter caches of \<open>Filter_Inv\<close> and of the barrier of \<open>Barrier_Wait\<close>.
  \<^item> \<open>Intrusive_List\<close>, \<open>Prio_Queue\<close>, \<open>Event_Queue\<close>: \<^verbatim>\<open>intrusive_list.h\<close>, \<^verbatim>\<open>prio_queue.h\<close>,
    \<^verbatim>\<open>event_queue.h\<close>.
  \<^item> \<open>Timing_Events\<close>: the weave phase: timing events, the contention simulation of a domain and the events of timing
    caches and recorders (\<^verbatim>\<open>timing_event.h/.cpp\<close>, \<^verbatim>\<open>contention_sim.cpp\<close>, \<^verbatim>\<open>timing_cache.cpp\<close>, \<^verbatim>\<open>weave_md1_mem.h\<close>),
    with the statistics of timing caches (\<^verbatim>\<open>breakdown_stats.h\<close>).
    \<open>Weave_Inv\<close>, \<open>Weave_Run\<close>: the invariant of the event graph, through notifications and completions; \<open>Weave_Caches\<close>,
    \<open>Weave_Sim\<close>: through the simulation of each class of event; \<open>Weave_Phase\<close>: the phase.
  \<^item> \<open>Core_Recorder\<close>, \<open>Timing_Access\<close>: the bound phase: how accesses become events (\<^verbatim>\<open>core_recorder.cpp\<close>,
    \<^verbatim>\<open>ooo_core_recorder.cpp\<close>, \<^verbatim>\<open>event_recorder.h\<close>, the events of \<open>TimingCache::access\<close>), and \<open>simulatePhase\<close>.
  \<^item> \<open>Barrier_Sync\<close>: the phase barrier of \<^verbatim>\<open>barrier.h\<close>, one step per call under the scheduler lock.
    \<open>Barrier_Wait\<close>: a core that waits at it while others sync, join and leave (\<open>TakeBarrier\<close> of \<^verbatim>\<open>zsim.cpp\<close>).
  \<^item> \<open>Scheduler\<close>, \<open>Sched_Inv\<close>, \<open>Sched_Steps\<close>: \<^verbatim>\<open>scheduler.h\<close>: threads, contexts, the run, out and sleep
    queues, handoffs at the end of a time slice; its invariant; the permitted sequences of calls.
  \<^item> \<open>Utility_Monitor\<close>, \<open>Partitioning\<close>, \<open>Way_Part\<close>, \<open>Vantage\<close>: \<^verbatim>\<open>utility_monitor.cpp\<close>,
    \<^verbatim>\<open>monitor.cpp\<close>, \<^verbatim>\<open>partition_mapper.cpp\<close>, \<^verbatim>\<open>lookahead.cpp\<close>, \<^verbatim>\<open>part_repl_policies.h\<close>.

  \<^bold>\<open>Conventions.\<close> A class is a record of its state, a method a function on it with the method's name
  and a prefix for the class. A function into \<open>option\<close> is \<open>None\<close> where the code panics, fails an
  assertion, indexes out of bounds, follows a null pointer or does not return. Loops without a bound
  in the code are \<open>partial_function\<close>s, and that they return is proved where it is claimed. Integers are
  words where they wrap in the code or are handled bitwise; positions, ids and cycles are \<open>nat\<close>.
  Virtual objects of other components and the host (the generator of the barrier and of Vantage, hash
  families, event callbacks, monitors, mappers) are parameters of the operations that call them.

  \<^bold>\<open>What the lemmas show.\<close> Each policy keeps an invariant through updates, rankings and replacements,
  returns a candidate as victim, and chooses the one its rule names; the ageing loops return. Each
  array keeps its address map exact. The hierarchy, from its initial state and over every sequence of
  loads and stores, fails no assertion, keeps one writer per line, inclusion, and a directory that is
  exactly the set of sharers. The filter in front of a core's cache only serves lines that this cache
  holds with the permission needed, as long as all cores run one process and line 0 is not used. A prefetcher between
  the levels keeps the hierarchy coherent. The intrusive list refines sequences, the priority queue a multiset
  ordered by cycle, the ideal array and the utility monitor the LRU stack. The barrier runs at most
  its number of threads and never stalls, if no waiting thread leaves with a stale place in the run list; a core that syncs runs again
  after one end of a phase. The partition sizes of Vantage are exact and its demotions
  respect the targets. The cores return from every call over
  the caches, and the out-of-order core times a block as its data flow demands. The weave phase
  returns and starts each event when the last of its parents allows, and the clocks of
  the cores and their recorders agree after it. Several properties state what the code does where it departs from its
  intention (32-bit scores, counters that wrap, curves that overrun, partitions over-allocated).

  \<^bold>\<open>Bounds.\<close> Traces in the theorems on LRU stay below 2^32 - 1 accesses, where its 32-bit score does
  not wrap; caches have fewer than 2^32 lines; addresses are not 0, which the arrays use for an empty
  line. The fractions of lookahead and Vantage are exact, which orders as \<open>double\<close> does for counts
  below 2^26. The out-of-order core subtracts cycles in 32 bits; the theorem on it holds while its
  state lies less than about 2^31 cycles ahead of the current one. A weave phase needs the graph's delays to stay
  within the horizon of \<open>enqueue\<close>, 10 phases and 1,000,000 cycles, as its assertion demands. The scheduler's quantum is not 0, by which
  it would divide. Prefetched pages are not the first one.

  \<^bold>\<open>Not modelled.\<close> Locks and races between calls (calls run one at a time; the barrier's interleavings
  are sequences of its steps); weave phases of several domains and their crossing events; the DRAM models; the scheduler's fake leaves and
  futex matching. Instrumentation through Pin, system call virtualisation, initialisation from
  configuration, most statistics, logging, process management and allocation are input, output and glue to
  the host. Third-party code under \<^verbatim>\<open>tools\<close> is left out.
\<close>

end
